(* ===== verification/Prelude.thy ===== *)
theory Prelude
  imports Main "HOL-Library.Word" "HOL-Library.Monad_Syntax"
begin

text \<open>
  Shared vocabulary of the development: the machine types of the driver
  (\<^verbatim>\<open>UCHAR\<close>, \<^verbatim>\<open>USHORT\<close>, \<^verbatim>\<open>ULONG\<close>, \<^verbatim>\<open>ULONG64\<close>, pointers of the x86-64 build), the NT status
  codes and flag bits of \<^verbatim>\<open>winnt_types.h\<close>, and C memory blocks.

  A C object that is accessed by index is a list: the bytes, 16-bit units or
  structures from the address the program holds to the end of the allocation.
  Reading or writing outside the list is undefined behaviour in C; every
  operation of the model that touches memory returns an \<open>option\<close>, and \<open>None\<close>
  is that fault.  A theorem that an operation returns \<open>Some\<close> is therefore a
  memory-safety statement.  The collections \<open>mem_simps\<close> and \<open>mem_intros\<close> hold
  the rules about blocks that the component proofs share.
\<close>

unbundle bit_operations_syntax

named_theorems mem_simps "equations for block access, copy and fill"
named_theorems mem_intros "introduction rules: when a block operation does not fault"
named_theorems inv_intros "operations that keep a component invariant"

section \<open>Machine types\<close>

type_synonym u8 = "8 word"
type_synonym u16 = "16 word"
type_synonym u32 = "32 word"
type_synonym u64 = "64 word"

text \<open>A pointer of the x86-64 build; the null pointer is 0.\<close>

type_synonym ptr = "64 word"
type_synonym NTSTATUS = "32 word"

abbreviation NULL :: ptr where "NULL \<equiv> 0"

lemma unat_bounds:
  "unat (a :: u8) < 256" "unat (b :: u16) < 65536" "unat (c :: u32) < 4294967296"
  "unat (d :: u64) < 18446744073709551616"
  using unsigned_less [of a] unsigned_less [of b] unsigned_less [of c] unsigned_less [of d] by simp_all

lemma sint_small:
  "- (2 ^ 31) \<le> k \<Longrightarrow> k < 2 ^ 31 \<Longrightarrow> sint (word_of_int k :: u32) = k"
  by (simp add: signed_of_int signed_take_bit_int_eq_self)

lemma unat_plus_one_max:
  fixes x y :: u32
  assumes "\<not> x > y" "y \<noteq> - 1"
  shows "unat (x + 1) = unat x + 1"
proof -
  have "x \<noteq> - 1" using assms word_order.extremum_uniqueI [of y] by (auto simp: not_less)
  thus ?thesis by (metis Suc_eq_plus1 add.commute add_eq_0_iff unatSuc)
qed

section \<open>Status codes and flags of winnt_types.h\<close>

abbreviation STATUS_SUCCESS :: NTSTATUS where "STATUS_SUCCESS \<equiv> 0"
abbreviation STATUS_WAIT_0 :: NTSTATUS where "STATUS_WAIT_0 \<equiv> 0"
abbreviation STATUS_ALERTED :: NTSTATUS where "STATUS_ALERTED \<equiv> 0x101"
abbreviation STATUS_TIMEOUT :: NTSTATUS where "STATUS_TIMEOUT \<equiv> 0x102"
abbreviation STATUS_PENDING :: NTSTATUS where "STATUS_PENDING \<equiv> 0x103"
abbreviation STATUS_FAILURE :: NTSTATUS where "STATUS_FAILURE \<equiv> 0xC0000001"
abbreviation STATUS_INVALID_PARAMETER :: NTSTATUS where "STATUS_INVALID_PARAMETER \<equiv> 0xC000000D"
abbreviation STATUS_MORE_PROCESSING_REQUIRED :: NTSTATUS
  where "STATUS_MORE_PROCESSING_REQUIRED \<equiv> 0xC0000016"
abbreviation STATUS_NO_MEMORY :: NTSTATUS where "STATUS_NO_MEMORY \<equiv> 0xC0000017"
abbreviation STATUS_BUFFER_TOO_SMALL :: NTSTATUS where "STATUS_BUFFER_TOO_SMALL \<equiv> 0xC0000023"
abbreviation STATUS_MUTANT_NOT_OWNED :: NTSTATUS where "STATUS_MUTANT_NOT_OWNED \<equiv> 0xC0000046"
abbreviation STATUS_RESOURCES :: NTSTATUS where "STATUS_RESOURCES \<equiv> 0xC000009A"
abbreviation STATUS_INSUFFICIENT_RESOURCES :: NTSTATUS
  where "STATUS_INSUFFICIENT_RESOURCES \<equiv> 0xC000009A"
abbreviation STATUS_NOT_SUPPORTED :: NTSTATUS where "STATUS_NOT_SUPPORTED \<equiv> 0xC00000BB"
abbreviation STATUS_BUFFER_OVERFLOW :: NTSTATUS where "STATUS_BUFFER_OVERFLOW \<equiv> 0x80000005"

section \<open>C memory blocks\<close>

definition rd :: "'a list \<Rightarrow> nat \<Rightarrow> 'a option" where
  "rd b i = (if i < length b then Some (b ! i) else None)"

definition wr :: "'a list \<Rightarrow> nat \<Rightarrow> 'a \<Rightarrow> 'a list option" where
  "wr b i v = (if i < length b then Some (b[i := v]) else None)"

text \<open>\<^verbatim>\<open>memcpy(d + doff, s + soff, n)\<close> between two distinct blocks.\<close>

definition blk_copy :: "'a list \<Rightarrow> nat \<Rightarrow> 'a list \<Rightarrow> nat \<Rightarrow> nat \<Rightarrow> 'a list option" where
  "blk_copy d doff s soff n =
     (if doff + n \<le> length d \<and> soff + n \<le> length s
      then Some (take doff d @ take n (drop soff s) @ drop (doff + n) d) else None)"

text \<open>\<^verbatim>\<open>memset(d + off, v, n)\<close>.\<close>

definition blk_fill :: "'a list \<Rightarrow> nat \<Rightarrow> 'a \<Rightarrow> nat \<Rightarrow> 'a list option" where
  "blk_fill d off v n =
     (if off + n \<le> length d
      then Some (take off d @ replicate n v @ drop (off + n) d) else None)"

text \<open>Writing the elements of a list one after the other from an index on.\<close>

primrec wr_all :: "'a list \<Rightarrow> nat \<Rightarrow> 'a list \<Rightarrow> 'a list option" where
  "wr_all b i [] = Some b"
| "wr_all b i (v # vs) = do { b' \<leftarrow> wr b i v; wr_all b' (Suc i) vs }"

lemma rd_Some_iff [mem_simps]: "rd b i = Some v \<longleftrightarrow> i < length b \<and> b ! i = v"
  by (auto simp: rd_def)

lemma rd_None_iff [mem_simps]: "rd b i = None \<longleftrightarrow> length b \<le> i"
  by (auto simp: rd_def)

lemma wr_Some_iff [mem_simps]: "wr b i v = Some b' \<longleftrightarrow> i < length b \<and> b' = b[i := v]"
  by (auto simp: wr_def)

lemma wr_None_iff [mem_simps]: "wr b i v = None \<longleftrightarrow> length b \<le> i"
  by (auto simp: wr_def)

lemma blk_copy_Some_iff [mem_simps]:
  "blk_copy d doff s soff n = Some d' \<longleftrightarrow>
     doff + n \<le> length d \<and> soff + n \<le> length s \<and>
     d' = take doff d @ take n (drop soff s) @ drop (doff + n) d"
  by (auto simp: blk_copy_def)

lemma blk_copy_None_iff [mem_simps]:
  "blk_copy d doff s soff n = None \<longleftrightarrow> length d < doff + n \<or> length s < soff + n"
  by (auto simp: blk_copy_def)

lemma blk_copy_length: "blk_copy d doff s soff n = Some d' \<Longrightarrow> length d' = length d"
  by (auto simp: blk_copy_Some_iff)

lemma blk_fill_length: "blk_fill d off v n = Some d' \<Longrightarrow> length d' = length d"
  by (auto simp: blk_fill_def split: if_splits)

lemma wr_all_length: "wr_all b i vs = Some b' \<Longrightarrow> length b' = length b"
  by (induction vs arbitrary: b i) (auto simp: bind_eq_Some_conv wr_Some_iff)

lemma list_update_take_drop:
  "i < length b \<Longrightarrow> b[i := v] = take i b @ v # drop (Suc i) b"
  by (simp add: upd_conv_take_nth_drop)

lemma wr_all_eq:
  "i + length vs \<le> length b \<Longrightarrow>
   wr_all b i vs = Some (take i b @ vs @ drop (i + length vs) b)"
proof (induction vs arbitrary: b i)
  case Nil
  then show ?case by simp
next
  case (Cons v vs)
  then have "wr_all (b[i := v]) (Suc i) vs =
      Some (take (Suc i) (b[i := v]) @ vs @ drop (Suc i + length vs) (b[i := v]))"
    by simp
  with Cons.prems show ?case
    by (simp add: wr_def take_Suc_conv_app_nth take_update_cancel drop_update_cancel)
qed

lemma wr_all_Some_iff:
  "vs \<noteq> [] \<Longrightarrow> wr_all b i vs = Some b' \<longleftrightarrow>
     i + length vs \<le> length b \<and> b' = take i b @ vs @ drop (i + length vs) b"
proof (induction vs arbitrary: b i b')
  case Nil
  then show ?case by simp
next
  case (Cons v vs)
  show ?case
  proof (cases "i + length (v # vs) \<le> length b")
    case True
    then show ?thesis using wr_all_eq [OF True] by auto
  next
    case False
    then have "wr_all b i (v # vs) \<noteq> Some b'"
    proof (cases "vs = []")
      case False
      with \<open>\<not> i + length (v # vs) \<le> length b\<close> show ?thesis
        using Cons.IH [of "b[i := v]" "Suc i" b'] by (auto simp: bind_eq_Some_conv wr_Some_iff)
    qed (auto simp: bind_eq_Some_conv wr_Some_iff)
    with False show ?thesis by blast
  qed
qed

section \<open>Sequences the lists of the driver denote\<close>

definition hd_opt :: "'a list \<Rightarrow> 'a option" where
  "hd_opt xs = (case xs of [] \<Rightarrow> None | x # _ \<Rightarrow> Some x)"

definition last_opt :: "'a list \<Rightarrow> 'a option" where
  "last_opt xs = (if xs = [] then None else Some (last xs))"

lemma hd_opt_simps [simp]:
  "hd_opt [] = None" "hd_opt (x # xs) = Some x" "hd_opt xs = None \<longleftrightarrow> xs = []"
  by (auto simp: hd_opt_def split: list.splits)

lemma last_opt_simps [simp]:
  "last_opt [] = None" "last_opt (xs @ [x]) = Some x" "last_opt xs = None \<longleftrightarrow> xs = []"
  by (auto simp: last_opt_def)

lemma remove1_middle: "x \<notin> set ys \<Longrightarrow> remove1 x (ys @ x # zs) = ys @ zs"
  by (induction ys) auto

section \<open>Singly linked chains\<close>

text \<open>\<open>chain nx p xs\<close>: following the links \<open>nx\<close> from \<open>p\<close> visits \<open>xs\<close> and ends at the null pointer.\<close>

fun chain :: "(ptr \<Rightarrow> ptr option) \<Rightarrow> ptr \<Rightarrow> ptr list \<Rightarrow> bool" where
  "chain nx p [] \<longleftrightarrow> p = NULL"
| "chain nx p (x # xs) \<longleftrightarrow> p = x \<and> x \<noteq> NULL \<and> (\<exists>q. nx x = Some q \<and> chain nx q xs)"

lemma chain_cong: "(\<And>x. x \<in> set xs \<Longrightarrow> nx x = nx' x) \<Longrightarrow> chain nx p xs \<longleftrightarrow> chain nx' p xs"
  by (induction xs arbitrary: p) auto

lemma chain_null [simp]: "chain nx NULL xs \<longleftrightarrow> xs = []"
  by (cases xs) auto

lemma chain_nonnull: "p \<noteq> NULL \<Longrightarrow> chain nx p xs \<longleftrightarrow> (\<exists>q ys. xs = p # ys \<and> nx p = Some q \<and> chain nx q ys)"
  by (cases xs) auto

lemma chain_no_null: "chain nx p xs \<Longrightarrow> NULL \<notin> set xs"
  by (induction xs arbitrary: p) auto

lemma chain_unique: "chain nx p xs \<Longrightarrow> chain nx p ys \<Longrightarrow> xs = ys"
proof (induction xs arbitrary: p ys)
  case (Cons x xs)
  thus ?case by (cases ys) auto
qed simp

end
