(* ===== verification/Nt_List.thy ===== *)
theory Nt_List
  imports Prelude
begin

text \<open>
  The intrusive lists of \<^verbatim>\<open>winnt_types.h\<close> and \<^verbatim>\<open>ntoskernel.h\<close>: the circular doubly
  linked \<open>struct nt_list\<close> with its Insert/Remove functions and iteration macro,
  and the singly linked \<open>nt_slist\<close> with its 16-bit depth.  Both are modelled on a
  pointer heap, write by write.  \<open>nt_ring h a xs\<close> says that the list headed at
  \<open>a\<close> denotes the sequence \<open>xs\<close>; the lemmas show that each C function performs
  the corresponding sequence operation and leaves other lists alone.  The
  locale \<open>nt_queue\<close> is that contract; it is interpreted on the pointer heap and
  on plain sequences, and the components that keep a list use the latter.
\<close>

section \<open>struct nt_list\<close>

record nt_heap =
  nxt :: "ptr \<Rightarrow> ptr"
  prv :: "ptr \<Rightarrow> ptr"

definition InitializeListHead :: "ptr \<Rightarrow> nt_heap \<Rightarrow> nt_heap" where
  "InitializeListHead head h = h\<lparr>nxt := (nxt h)(head := head), prv := (prv h)(head := head)\<rparr>"

definition IsListEmpty :: "ptr \<Rightarrow> nt_heap \<Rightarrow> bool" where
  "IsListEmpty head h \<longleftrightarrow> head = nxt h head"

definition RemoveEntryList :: "ptr \<Rightarrow> nt_heap \<Rightarrow> nt_heap" where
  "RemoveEntryList entry h =
     (let h1 = h\<lparr>nxt := (nxt h)(prv h entry := nxt h entry)\<rparr>
      in h1\<lparr>prv := (prv h1)(nxt h1 entry := prv h1 entry)\<rparr>)"

definition RemoveHeadList :: "ptr \<Rightarrow> nt_heap \<Rightarrow> nt_heap \<times> ptr" where
  "RemoveHeadList head h =
     (let entry = nxt h head in
      if entry = head then (h, NULL) else (RemoveEntryList entry h, entry))"

definition RemoveTailList :: "ptr \<Rightarrow> nt_heap \<Rightarrow> nt_heap \<times> ptr" where
  "RemoveTailList head h =
     (let entry = prv h head in
      if entry = head then (h, NULL) else (RemoveEntryList entry h, entry))"

definition InsertListEntry :: "ptr \<Rightarrow> ptr \<Rightarrow> ptr \<Rightarrow> nt_heap \<Rightarrow> nt_heap" where
  "InsertListEntry entry prev next h =
     (let h1 = h\<lparr>prv := (prv h)(next := entry)\<rparr>;
          h2 = h1\<lparr>nxt := (nxt h1)(entry := next)\<rparr>;
          h3 = h2\<lparr>prv := (prv h2)(entry := prev)\<rparr>
      in h3\<lparr>nxt := (nxt h3)(prev := entry)\<rparr>)"

definition InsertHeadList :: "ptr \<Rightarrow> ptr \<Rightarrow> nt_heap \<Rightarrow> nt_heap \<times> ptr" where
  "InsertHeadList head entry h =
     (let ret = (if IsListEmpty head h then NULL else nxt h head)
      in (InsertListEntry entry head (nxt h head) h, ret))"

definition InsertTailList :: "ptr \<Rightarrow> ptr \<Rightarrow> nt_heap \<Rightarrow> nt_heap \<times> ptr" where
  "InsertTailList head entry h =
     (let ret = (if IsListEmpty head h then NULL else prv h head)
      in (InsertListEntry entry (prv h head) head h, ret))"

text \<open>The iteration macro: the entries visited from \<open>pos\<close> on; \<open>None\<close> when the
  fuel runs out before the walk is back at the head.\<close>

fun nt_list_for_each :: "nat \<Rightarrow> ptr \<Rightarrow> nt_heap \<Rightarrow> ptr \<Rightarrow> ptr list option" where
  "nt_list_for_each 0 head h pos = None"
| "nt_list_for_each (Suc n) head h pos =
     (if pos = head then Some []
      else map_option ((#) pos) (nt_list_for_each n head h (nxt h pos)))"

section \<open>The sequence a list denotes\<close>

fun chain :: "(ptr \<Rightarrow> ptr) \<Rightarrow> ptr \<Rightarrow> ptr list \<Rightarrow> ptr \<Rightarrow> bool" where
  "chain f a [] b \<longleftrightarrow> f a = b"
| "chain f a (x # xs) b \<longleftrightarrow> f a = x \<and> chain f x xs b"

definition nt_ring :: "nt_heap \<Rightarrow> ptr \<Rightarrow> ptr list \<Rightarrow> bool" where
  "nt_ring h a xs \<longleftrightarrow>
     distinct (a # xs) \<and> NULL \<notin> set (a # xs) \<and>
     chain (nxt h) a xs a \<and> chain (prv h) a (rev xs) a"

lemma chain_append:
  "chain f a (xs @ y # ys) b \<longleftrightarrow> chain f a xs y \<and> chain f y ys b"
  by (induction xs arbitrary: a) auto

lemma chain_upd: "u \<notin> set (a # xs) \<Longrightarrow> chain (f(u := v)) a xs b = chain f a xs b"
  by (induction xs arbitrary: a) auto

lemma chain_first: "chain f a xs b \<Longrightarrow> f a = hd (xs @ [b])"
  by (cases xs) auto

lemma chain_last: "chain f a xs b \<Longrightarrow> f (last (a # xs)) = b"
  by (induction xs arbitrary: a) auto

lemma chain_retarget:
  "chain f a xs b \<Longrightarrow> distinct (a # xs) \<Longrightarrow> chain (f(last (a # xs) := c)) a xs c"
proof (induction xs arbitrary: a)
  case Nil
  then show ?case by simp
next
  case (Cons x xs)
  from Cons.prems have "chain f x xs b" and "distinct (x # xs)" by simp_all
  then have "chain (f(last (x # xs) := c)) x xs c" by (rule Cons.IH)
  moreover have "last (x # xs) \<noteq> a"
    using Cons.prems(2) last_in_set [of "x # xs"] by auto
  moreover have "last (a # x # xs) = last (x # xs)" by simp
  ultimately show ?case using Cons.prems(1) by (simp only: chain.simps fun_upd_other)
qed

text \<open>Cutting a node out of a chain, and splicing one in.\<close>

lemma last_not_in_rest: "distinct (a # ys @ zs) \<Longrightarrow> last (a # ys) \<notin> set zs"
  using last_in_set [of "a # ys"] by auto

lemma chain_cut:
  assumes "chain f a (ys @ x # zs) b" and d: "distinct (a # ys @ x # zs)"
  shows "chain (f(last (a # ys) := f x)) a (ys @ zs) b"
proof -
  let ?f = "f(last (a # ys) := f x)"
  from assms(1) have 1: "chain f a ys x" and 2: "chain f x zs b"
    by (simp_all add: chain_append)
  from 1 d have ys: "chain ?f a ys (f x)"
    using chain_retarget [of f a ys x "f x"] by (auto simp del: last.simps)
  show ?thesis
  proof (cases zs)
    case Nil
    with 2 ys show ?thesis by simp
  next
    case (Cons z zs')
    with 2 have z: "f x = z" "chain f z zs' b" by simp_all
    have "last (a # ys) \<notin> set (z # zs')"
      using last_not_in_rest [of a ys "z # zs'"] d Cons by (auto simp del: last.simps)
    with z have "chain ?f z zs' b" by (simp add: chain_upd del: last.simps)
    with ys z Cons show ?thesis by (simp add: chain_append)
  qed
qed

lemma chain_splice:
  assumes "chain f a (ys @ zs) b" and d: "distinct (a # ys @ zs)" and x: "x \<notin> set (a # ys @ zs)"
  shows "chain (f(x := f (last (a # ys)), last (a # ys) := x)) a (ys @ x # zs) b"
proof -
  let ?l = "last (a # ys)"
  let ?g = "f(x := f ?l)"
  have lx: "?l \<noteq> x" using x last_in_set [of "a # ys"] by auto
  have fl: "f ?l = hd (zs @ [b])" and c: "chain f a ys (hd (zs @ [b]))"
    using assms(1) by (cases zs; auto simp: chain_append dest: chain_last simp del: last.simps)+
  from c x have "chain ?g a ys (hd (zs @ [b]))" by (simp add: chain_upd)
  then have 1: "chain (?g(?l := x)) a ys x"
    using chain_retarget d by (auto simp del: last.simps)
  have "chain (?g(?l := x)) x zs b"
  proof (cases zs)
    case Nil
    with fl lx show ?thesis by simp
  next
    case (Cons z zs')
    have "?l \<notin> set (z # zs')"
      using last_not_in_rest [of a ys zs] d Cons by (auto simp del: last.simps)
    with Cons x fl lx assms(1) show ?thesis
      by (simp add: chain_append chain_upd del: last.simps)
  qed
  with 1 show ?thesis by (simp add: chain_append)
qed

lemma nt_ring_last: "nt_ring h a xs \<Longrightarrow> prv h a = last (a # xs)"
  using chain_first [of "prv h" a "rev xs" a]
  by (cases xs rule: rev_cases) (auto simp: nt_ring_def)

lemma nt_ring_first: "nt_ring h a xs \<Longrightarrow> nxt h a = hd (xs @ [a])"
  by (auto simp: nt_ring_def dest: chain_first)

lemma nt_ring_middle:
  assumes "nt_ring h a (ys @ x # zs)"
  shows "nxt h x = hd (zs @ [a])" and "prv h x = last (a # ys)"
proof -
  from assms have "chain (nxt h) x zs a" and "chain (prv h) x (rev ys) a"
    by (auto simp: nt_ring_def chain_append)
  then show "nxt h x = hd (zs @ [a])" and "prv h x = last (a # ys)"
    by (auto dest!: chain_first) (cases ys rule: rev_cases, auto)
qed

lemma last_rev_ring: "last (a # rev zs) = hd (zs @ [a])"
  by (cases zs) auto

section \<open>The list functions perform the sequence operations\<close>

lemma InitializeListHead_ring: "a \<noteq> NULL \<Longrightarrow> nt_ring (InitializeListHead a h) a []"
  by (simp add: InitializeListHead_def nt_ring_def)

lemma IsListEmpty_ring: "nt_ring h a xs \<Longrightarrow> IsListEmpty a h \<longleftrightarrow> xs = []"
  by (cases xs) (auto simp: IsListEmpty_def nt_ring_def)

lemma RemoveEntryList_alt:
  "RemoveEntryList x h = h\<lparr>nxt := (nxt h)(prv h x := nxt h x), prv := (prv h)(nxt h x := prv h x)\<rparr>"
  by (auto simp: RemoveEntryList_def Let_def)

lemma RemoveEntryList_ring:
  assumes "nt_ring h a (ys @ x # zs)"
  shows "nt_ring (RemoveEntryList x h) a (ys @ zs)"
proof -
  note r = assms [unfolded nt_ring_def]
  have p: "prv h x = last (a # ys)" and n: "nxt h x = last (a # rev zs)"
    using nt_ring_middle [OF assms] by (simp_all only: last_rev_ring)
  have "chain ((nxt h)(prv h x := nxt h x)) a (ys @ zs) a"
    using chain_cut [of "nxt h" a ys x zs a] r by (simp add: p del: last.simps)
  moreover have "chain ((prv h)(nxt h x := prv h x)) a (rev zs @ rev ys) a"
    using chain_cut [of "prv h" a "rev zs" x "rev ys" a] r by (auto simp: n simp del: last.simps)
  ultimately show ?thesis
    using r by (auto simp: RemoveEntryList_alt nt_ring_def)
qed

lemma InsertListEntry_ring:
  assumes r: "nt_ring h a (ys @ zs)" and x: "x \<notin> set (a # ys @ zs)" "x \<noteq> NULL"
  shows "nt_ring (InsertListEntry x (last (a # ys)) (hd (zs @ [a])) h) a (ys @ x # zs)"
proof -
  let ?p = "last (a # ys)" and ?n = "hd (zs @ [a])"
  note r' = r [unfolded nt_ring_def]
  have nn: "nxt h ?p = ?n" and pp: "prv h ?n = ?p"
  proof -
    from r' have "chain (nxt h) a ys ?n" by (cases zs) (auto simp: chain_append)
    then show "nxt h ?p = ?n" by (rule chain_last)
    from r' have "chain (prv h) a (rev zs) ?p"
      by (cases ys rule: rev_cases) (auto simp: chain_append)
    then show "prv h ?n = ?p" by (simp only: chain_last last_rev_ring [symmetric])
  qed
  have xp: "x \<noteq> ?p" "x \<noteq> ?n"
    using x last_in_set [of "a # ys"] hd_in_set [of "zs @ [a]"] by auto
  have "chain ((nxt h)(x := ?n, ?p := x)) a (ys @ x # zs) a"
    using chain_splice [of "nxt h" a ys zs a x] r' x nn by (simp del: last.simps)
  moreover have "chain ((prv h)(?n := x, x := ?p)) a (rev zs @ x # rev ys) a"
    using chain_splice [of "prv h" a "rev zs" "rev ys" a x] r' x pp xp
    by (auto simp: last_rev_ring fun_upd_twist simp del: last.simps)
  ultimately show ?thesis
    using r' x by (auto simp: InsertListEntry_def Let_def nt_ring_def)
qed

lemma InsertHeadList_ring:
  assumes "nt_ring h a xs" "x \<notin> set (a # xs)" "x \<noteq> NULL"
  shows "InsertHeadList a x h = (h', r) \<Longrightarrow>
    nt_ring h' a (x # xs) \<and> r = (if xs = [] then NULL else hd xs)"
  using InsertListEntry_ring [of h a "[]" xs x] assms
  by (auto simp: InsertHeadList_def Let_def IsListEmpty_ring nt_ring_first)

lemma InsertTailList_ring:
  assumes "nt_ring h a xs" "x \<notin> set (a # xs)" "x \<noteq> NULL"
  shows "InsertTailList a x h = (h', r) \<Longrightarrow>
    nt_ring h' a (xs @ [x]) \<and> r = (if xs = [] then NULL else last xs)"
  using InsertListEntry_ring [of h a xs "[]" x] assms nt_ring_last [OF assms(1)]
  by (auto simp: InsertTailList_def Let_def IsListEmpty_ring)

lemma RemoveHeadList_ring:
  assumes "nt_ring h a xs" and "RemoveHeadList a h = (h', r)"
  shows "nt_ring h' a (tl xs) \<and> r = (if xs = [] then NULL else hd xs)"
proof (cases xs)
  case Nil
  with assms show ?thesis by (auto simp: RemoveHeadList_def nt_ring_def)
next
  case (Cons x zs)
  with assms(1) have "nxt h a = x" "x \<noteq> a" by (auto simp: nt_ring_def)
  with Cons assms RemoveEntryList_ring [of h a "[]" x zs] show ?thesis
    by (auto simp: RemoveHeadList_def Let_def)
qed

lemma RemoveTailList_ring:
  assumes "nt_ring h a xs" and "RemoveTailList a h = (h', r)"
  shows "nt_ring h' a (butlast xs) \<and> r = (if xs = [] then NULL else last xs)"
proof (cases xs rule: rev_cases)
  case Nil
  with assms show ?thesis by (auto simp: RemoveTailList_def nt_ring_def)
next
  case (snoc ys x)
  with assms(1) have "prv h a = x" "x \<noteq> a" by (auto simp: nt_ring_def)
  with snoc assms RemoveEntryList_ring [of h a ys x "[]"] show ?thesis
    by (auto simp: RemoveTailList_def Let_def)
qed

lemma for_each_chain:
  assumes "chain (nxt h) p xs a" and "a \<notin> set xs" and "length xs < n"
  shows "nt_list_for_each n a h (nxt h p) = Some xs"
  using assms
proof (induction xs arbitrary: p n)
  case Nil
  then show ?case by (cases n) auto
next
  case (Cons x xs)
  then obtain m where n: "n = Suc m" by (cases n) auto
  from Cons have "nt_list_for_each m a h (nxt h x) = Some xs" by (simp add: n)
  with Cons.prems n show ?case by auto
qed


section \<open>The contract of the list functions\<close>

text \<open>The loop \<^verbatim>\<open>while ((ent = RemoveHeadList(&list)))\<close> that the driver uses to empty
  a list: the entries in the order they come out, and the state left.\<close>

fun drain :: "('q \<Rightarrow> 'q \<times> 'a option) \<Rightarrow> nat \<Rightarrow> 'q \<Rightarrow> ('a list \<times> 'q) option" where
  "drain deq 0 q = None"
| "drain deq (Suc n) q =
     (case deq q of
        (q', None) \<Rightarrow> Some ([], q')
      | (q', Some x) \<Rightarrow> map_option (map_prod ((#) x) id) (drain deq n q'))"

definition opt_of_ptr :: "ptr \<Rightarrow> ptr option" where
  "opt_of_ptr p = (if p = NULL then None else Some p)"

locale nt_queue =
  fixes rep :: "'q \<Rightarrow> 'a list \<Rightarrow> bool"
    and valid :: "'a \<Rightarrow> bool"
    and ins_head :: "'a \<Rightarrow> 'q \<Rightarrow> 'q"
    and ins_tail :: "'a \<Rightarrow> 'q \<Rightarrow> 'q"
    and deq_head :: "'q \<Rightarrow> 'q \<times> 'a option"
    and deq_tail :: "'q \<Rightarrow> 'q \<times> 'a option"
    and del :: "'a \<Rightarrow> 'q \<Rightarrow> 'q"
  assumes rep_distinct: "rep q xs \<Longrightarrow> distinct xs"
    and rep_ins_head: "rep q xs \<Longrightarrow> valid x \<Longrightarrow> x \<notin> set xs \<Longrightarrow> rep (ins_head x q) (x # xs)"
    and rep_ins_tail: "rep q xs \<Longrightarrow> valid x \<Longrightarrow> x \<notin> set xs \<Longrightarrow> rep (ins_tail x q) (xs @ [x])"
    and rep_deq_head: "rep q xs \<Longrightarrow> deq_head q = (q', r) \<Longrightarrow> rep q' (tl xs) \<and> r = hd_opt xs"
    and rep_deq_tail: "rep q xs \<Longrightarrow> deq_tail q = (q', r) \<Longrightarrow> rep q' (butlast xs) \<and> r = last_opt xs"
    and rep_del: "rep q xs \<Longrightarrow> x \<in> set xs \<Longrightarrow> rep (del x q) (remove1 x xs)"
begin

lemma drain_all: "rep q xs \<Longrightarrow> length xs < n \<Longrightarrow> \<exists>q'. drain deq_head n q = Some (xs, q') \<and> rep q' []"
proof (induction n arbitrary: q xs)
  case 0
  then show ?case by simp
next
  case (Suc n)
  obtain q' r where d: "deq_head q = (q', r)" by (cases "deq_head q")
  from rep_deq_head [OF Suc.prems(1) d] have q': "rep q' (tl xs)" and r: "r = hd_opt xs" by auto
  show ?case
  proof (cases xs)
    case Nil
    with d q' r show ?thesis by simp
  next
    case (Cons x zs)
    with Suc.IH [OF q'] Suc.prems(2) d r show ?thesis by auto
  qed
qed

lemma ins_tail_all:
  "rep q xs \<Longrightarrow> distinct (xs @ ys) \<Longrightarrow> \<forall>y\<in>set ys. valid y \<Longrightarrow> rep (fold ins_tail ys q) (xs @ ys)"
proof (induction ys arbitrary: q xs)
  case Nil
  then show ?case by simp
next
  case (Cons y ys)
  then have "rep (ins_tail y q) (xs @ [y])" by (auto intro: rep_ins_tail)
  from Cons.IH [OF this] Cons.prems show ?case by auto
qed

lemma fifo:
  assumes "rep q []" "distinct ys" "\<forall>y\<in>set ys. valid y" "length ys < n"
  shows "\<exists>q'. drain deq_head n (fold ins_tail ys q) = Some (ys, q') \<and> rep q' []"
  using drain_all [OF ins_tail_all [OF assms(1) _ assms(3)]] assms by simp

lemma del_then_drain:
  assumes "rep q xs" "x \<in> set xs" "length xs < n"
  shows "\<exists>q'. drain deq_head n (del x q) = Some (remove1 x xs, q') \<and> rep q' []"
proof (rule drain_all [OF rep_del [OF assms(1,2)]])
  show "length (remove1 x xs) < n" using assms(3) by (auto simp: length_remove1)
qed

end

text \<open>The contract on the pointer heap: a list headed at \<open>a\<close>.\<close>

interpretation ring: nt_queue
  "\<lambda>h xs. nt_ring h a xs" "\<lambda>x. x \<noteq> NULL \<and> x \<noteq> a"
  "\<lambda>x h. fst (InsertHeadList a x h)" "\<lambda>x h. fst (InsertTailList a x h)"
  "\<lambda>h. map_prod id opt_of_ptr (RemoveHeadList a h)"
  "\<lambda>h. map_prod id opt_of_ptr (RemoveTailList a h)"
  RemoveEntryList for a
proof (unfold_locales, goal_cases)
  case (1 q xs)
  then show ?case by (simp add: nt_ring_def)
next
  case (2 q xs x)
  then show ?case using InsertHeadList_ring [of q a xs x] by (cases "InsertHeadList a x q") auto
next
  case (3 q xs x)
  then show ?case using InsertTailList_ring [of q a xs x] by (cases "InsertTailList a x q") auto
next
  case (4 q xs q' r)
  then show ?case using RemoveHeadList_ring [of q a xs]
    by (cases "RemoveHeadList a q"; cases xs) (auto simp: nt_ring_def opt_of_ptr_def)
next
  case (5 q xs q' r)
  then show ?case using RemoveTailList_ring [of q a xs]
    by (cases "RemoveTailList a q"; cases xs rule: rev_cases) (auto simp: nt_ring_def opt_of_ptr_def)
next
  case (6 q xs x)
  then obtain ys zs where "xs = ys @ x # zs" "x \<notin> set ys" by (auto dest: split_list_first)
  with 6 show ?case using RemoveEntryList_ring [of q a ys x zs] by (simp add: remove1_middle)
qed

text \<open>The same contract on sequences: what the components that keep a list use.\<close>

definition seq_pop :: "'a list \<Rightarrow> 'a list \<times> 'a option" where
  "seq_pop xs = (tl xs, hd_opt xs)"

definition seq_pop_tail :: "'a list \<Rightarrow> 'a list \<times> 'a option" where
  "seq_pop_tail xs = (butlast xs, last_opt xs)"

interpretation seq: nt_queue
  "\<lambda>q xs. q = xs \<and> distinct xs" "\<lambda>_. True" "(#)" "\<lambda>x q. q @ [x]" seq_pop seq_pop_tail remove1
  by unfold_locales (auto simp: seq_pop_def seq_pop_tail_def distinct_tl distinct_butlast)

section \<open>Lists do not disturb each other\<close>

lemma RemoveEntryList_frame:
  assumes "nt_ring h a xs" "x \<in> set xs" "nt_ring h b ys" "set (a # xs) \<inter> set (b # ys) = {}"
  shows "nt_ring (RemoveEntryList x h) b ys"
proof -
  from assms(2) obtain us vs where xs: "xs = us @ x # vs" by (auto dest: split_list)
  have "prv h x \<in> set (a # xs)" "nxt h x \<in> set (a # xs)"
    using nt_ring_middle [of h a us x vs] assms(1) xs last_in_set [of "a # us"] hd_in_set [of "vs @ [a]"]
    by auto
  with assms(3,4) have "prv h x \<notin> set (b # ys)" "nxt h x \<notin> set (b # ys)" by auto
  with assms(3) show ?thesis
    by (simp add: RemoveEntryList_alt nt_ring_def chain_upd)
qed

lemma InsertTailList_frame:
  assumes "nt_ring h a xs" "nt_ring h b ys" "set (a # xs) \<inter> set (b # ys) = {}" "x \<notin> set (b # ys)"
  shows "nt_ring (fst (InsertTailList a x h)) b ys"
proof -
  have "prv h a \<in> set (a # xs)"
    using nt_ring_last [OF assms(1)] last_in_set [of "a # xs"] by (simp del: last.simps)
  with assms(3) have "prv h a \<notin> set (b # ys)" by auto
  with assms show ?thesis
    by (auto simp: InsertTailList_def InsertListEntry_def Let_def nt_ring_def chain_upd)
qed


section \<open>nt_slist: singly linked lists with a depth\<close>

record nt_slist_header =
  sl_next :: ptr
  sl_depth :: u16

text \<open>State: the list header and the \<open>next\<close> field of every entry.  The functions
  hold the lock for their whole body, so each is one atomic step.\<close>

type_synonym slist_state = "nt_slist_header \<times> (ptr \<Rightarrow> ptr)"

definition InitializeSListHead :: "nt_slist_header" where
  "InitializeSListHead = \<lparr>sl_next = NULL, sl_depth = 0\<rparr>"

definition PushEntrySList :: "ptr \<Rightarrow> slist_state \<Rightarrow> slist_state \<times> ptr" where
  "PushEntrySList entry st =
     (let (head, f) = st;
          f' = f(entry := sl_next head);
          head' = head\<lparr>sl_next := entry, sl_depth := sl_depth head + 1\<rparr>
      in ((head', f'), f' entry))"

definition PopEntrySList :: "slist_state \<Rightarrow> slist_state \<times> ptr" where
  "PopEntrySList st =
     (let (head, f) = st; entry = sl_next head in
      if entry \<noteq> NULL
      then ((head\<lparr>sl_next := f entry, sl_depth := sl_depth head - 1\<rparr>, f), entry)
      else (st, entry))"

definition ExQueryDepthSList :: "slist_state \<Rightarrow> u16" where
  "ExQueryDepthSList st = sl_depth (fst st)"

fun slist_path :: "(ptr \<Rightarrow> ptr) \<Rightarrow> ptr \<Rightarrow> ptr list \<Rightarrow> bool" where
  "slist_path f p [] \<longleftrightarrow> p = NULL"
| "slist_path f p (x # xs) \<longleftrightarrow> p = x \<and> x \<noteq> NULL \<and> slist_path f (f x) xs"

definition slist_rep :: "slist_state \<Rightarrow> ptr list \<Rightarrow> bool" where
  "slist_rep st xs \<longleftrightarrow>
     slist_path (snd st) (sl_next (fst st)) xs \<and> distinct xs \<and>
     sl_depth (fst st) = of_nat (length xs)"

lemma slist_path_upd: "u \<notin> set xs \<Longrightarrow> slist_path (f(u := v)) p xs = slist_path f p xs"
  by (induction xs arbitrary: p) auto

lemma slist_init: "slist_rep (InitializeSListHead, f) []"
  by (simp add: slist_rep_def InitializeSListHead_def)

lemma PushEntrySList_rep:
  assumes "slist_rep st xs" "x \<notin> set xs" "x \<noteq> NULL" "PushEntrySList x st = (st', r)"
  shows "slist_rep st' (x # xs) \<and> opt_of_ptr r = hd_opt xs"
  using assms
  by (cases st; cases xs)
     (auto simp: slist_rep_def PushEntrySList_def Let_def slist_path_upd opt_of_ptr_def)

lemma PopEntrySList_rep:
  assumes "slist_rep st xs" "PopEntrySList st = (st', r)"
  shows "slist_rep st' (tl xs) \<and> opt_of_ptr r = hd_opt xs"
  using assms
  by (cases st; cases xs) (auto simp: slist_rep_def PopEntrySList_def Let_def opt_of_ptr_def)

text \<open>The stack contract of an S-list, on the model's own operations.\<close>

locale nt_stack =
  fixes srep :: "'q \<Rightarrow> 'a list \<Rightarrow> bool"
    and svalid :: "'a \<Rightarrow> bool"
    and push :: "'a \<Rightarrow> 'q \<Rightarrow> 'q"
    and pop :: "'q \<Rightarrow> 'q \<times> 'a option"
  assumes rep_push: "srep q xs \<Longrightarrow> svalid x \<Longrightarrow> x \<notin> set xs \<Longrightarrow> srep (push x q) (x # xs)"
    and rep_pop: "srep q xs \<Longrightarrow> pop q = (q', r) \<Longrightarrow> srep q' (tl xs) \<and> r = hd_opt xs"
begin

lemma pop_all: "srep q xs \<Longrightarrow> length xs < n \<Longrightarrow> \<exists>q'. drain pop n q = Some (xs, q') \<and> srep q' []"
proof (induction n arbitrary: q xs)
  case 0
  then show ?case by simp
next
  case (Suc n)
  obtain q' r where d: "pop q = (q', r)" by (cases "pop q")
  from rep_pop [OF Suc.prems(1) d] have q': "srep q' (tl xs)" and r: "r = hd_opt xs" by auto
  show ?case
    using Suc.IH [OF q'] Suc.prems(2) d q' r by (cases xs) auto
qed

lemma push_all:
  "srep q xs \<Longrightarrow> distinct (xs @ ys) \<Longrightarrow> \<forall>y\<in>set ys. svalid y \<Longrightarrow> srep (fold push ys q) (rev ys @ xs)"
proof (induction ys arbitrary: q xs)
  case Nil
  then show ?case by simp
next
  case (Cons y ys)
  then have "srep (push y q) (y # xs)" by (auto intro: rep_push)
  from Cons.IH [OF this] Cons.prems show ?case by auto
qed

lemma lifo:
  assumes "srep q []" "distinct ys" "\<forall>y\<in>set ys. svalid y" "length ys < n"
  shows "\<exists>q'. drain pop n (fold push ys q) = Some (rev ys, q') \<and> srep q' []"
  using pop_all [OF push_all [OF assms(1) _ assms(3)]] assms by simp

end

text \<open>A queue whose head insertions alone are used is a stack.\<close>

sublocale nt_queue \<subseteq> st: nt_stack rep valid ins_head deq_head
  by unfold_locales (auto intro: rep_ins_head dest: rep_deq_head)

interpretation slist: nt_stack slist_rep "\<lambda>x. x \<noteq> NULL"
  "\<lambda>x st. fst (PushEntrySList x st)" "\<lambda>st. map_prod id opt_of_ptr (PopEntrySList st)"
proof (unfold_locales, goal_cases)
  case (1 q xs x)
  then show ?case using PushEntrySList_rep [of q xs x] by (cases "PushEntrySList x q") auto
next
  case (2 q xs q' r)
  then show ?case using PopEntrySList_rep [of q xs] by (cases "PopEntrySList q") auto
qed

section \<open>Properties\<close>

text \<open>C1: Entries put on an \<open>nt_list\<close> with InsertTailList come out of a RemoveHeadList
  loop in the order they went in, each once, and the list is empty afterwards; the
  pointer updates of the C functions are followed write by write.\<close>

theorem nt_list_fifo:
  assumes "a \<noteq> NULL" "distinct (a # ys)" "NULL \<notin> set ys" "length ys < n"
  shows "\<exists>h'. drain (\<lambda>h. map_prod id opt_of_ptr (RemoveHeadList a h)) n
           (fold (\<lambda>x h. fst (InsertTailList a x h)) ys (InitializeListHead a h)) = Some (ys, h') \<and>
         IsListEmpty a h'"
proof -
  from assms have v: "\<forall>y\<in>set ys. y \<noteq> NULL \<and> y \<noteq> a" by auto
  from ring.fifo [OF InitializeListHead_ring [OF assms(1)] _ v assms(4)] assms(2)
  obtain h' where "drain (\<lambda>h. map_prod id opt_of_ptr (RemoveHeadList a h)) n
      (fold (\<lambda>x h. fst (InsertTailList a x h)) ys (InitializeListHead a h)) = Some (ys, h')"
    and "nt_ring h' a []" by auto
  then show ?thesis using IsListEmpty_ring by blast
qed

theorem nt_list_fifo_witness:
  "\<exists>h'. drain (\<lambda>h. map_prod id opt_of_ptr (RemoveHeadList 16 h)) 4
     (fold (\<lambda>x h. fst (InsertTailList 16 x h)) [32, 48, 64]
        (InitializeListHead 16 \<lparr>nxt = (\<lambda>_. 0), prv = (\<lambda>_. 0)\<rparr>)) = Some ([32, 48, 64], h') \<and>
   IsListEmpty 16 h'"
  by (rule nt_list_fifo) simp_all

text \<open>RemoveEntryList takes exactly the given entry out of the list it is on, leaves
  the order of the rest, and does not change any other list of the heap.\<close>

theorem RemoveEntryList_correct:
  assumes "nt_ring h a xs" "x \<in> set xs" "nt_ring h b ys" "set (a # xs) \<inter> set (b # ys) = {}"
  shows "nt_ring (RemoveEntryList x h) a (remove1 x xs) \<and> nt_ring (RemoveEntryList x h) b ys"
  using ring.rep_del [OF assms(1,2)] RemoveEntryList_frame [OF assms] by blast

definition two_lists :: nt_heap where
  "two_lists = InitializeListHead 8
     (fold (\<lambda>x h. fst (InsertTailList 16 x h)) [32, 48, 64]
        (InitializeListHead 16 \<lparr>nxt = (\<lambda>_. 0), prv = (\<lambda>_. 0)\<rparr>))"

lemma two_lists_ring: "nt_ring two_lists 16 [32, 48, 64]" "nt_ring two_lists 8 []"
  by (simp_all add: two_lists_def nt_ring_def InitializeListHead_def InsertTailList_def
      InsertListEntry_def IsListEmpty_def Let_def)

theorem RemoveEntryList_correct_witness:
  "nt_ring (RemoveEntryList 48 two_lists) 16 [32, 64] \<and> nt_ring (RemoveEntryList 48 two_lists) 8 []"
  using RemoveEntryList_correct [OF two_lists_ring(1) _ two_lists_ring(2), of 48] by simp

text \<open>The insert functions put the entry at the head or tail of the sequence and
  return the former first or last entry, or the null pointer when the list was empty.\<close>

theorem Insert_lists_correct:
  assumes "nt_ring h a xs" "x \<notin> set (a # xs)" "x \<noteq> NULL"
  shows "(case InsertHeadList a x h of (h', r) \<Rightarrow> nt_ring h' a (x # xs) \<and> opt_of_ptr r = hd_opt xs) \<and>
         (case InsertTailList a x h of (h', r) \<Rightarrow> nt_ring h' a (xs @ [x]) \<and> opt_of_ptr r = last_opt xs)"
proof -
  have "NULL \<notin> set xs" using assms(1) by (simp add: nt_ring_def)
  moreover from this have "xs \<noteq> [] \<Longrightarrow> last xs \<noteq> NULL" by (metis last_in_set)
  ultimately show ?thesis
    using InsertHeadList_ring [OF assms] InsertTailList_ring [OF assms]
    by (auto simp: opt_of_ptr_def last_opt_def hd_opt_def split: prod.splits list.splits)
qed

theorem Insert_lists_correct_witness:
  "(case InsertHeadList 16 96 two_lists of
      (h', r) \<Rightarrow> nt_ring h' 16 [96, 32, 48, 64] \<and> opt_of_ptr r = hd_opt [32, 48, 64]) \<and>
   (case InsertTailList 16 96 two_lists of
      (h', r) \<Rightarrow> nt_ring h' 16 ([32, 48, 64] @ [96]) \<and> opt_of_ptr r = last_opt [32, 48, 64])"
  by (rule Insert_lists_correct [OF two_lists_ring(1)]) simp_all

text \<open>PushEntrySList and PopEntrySList form a stack whose depth field is the number
  of entries modulo \<open>2^16\<close>: entries popped until the list is empty come out in
  reverse order of the pushes.\<close>

theorem slist_lifo_depth:
  assumes "distinct ys" "NULL \<notin> set ys" "length ys < n"
  shows "(\<exists>st'. drain (\<lambda>st. map_prod id opt_of_ptr (PopEntrySList st)) n
            (fold (\<lambda>x st. fst (PushEntrySList x st)) ys (InitializeSListHead, f)) = Some (rev ys, st') \<and>
          slist_rep st' []) \<and>
         ExQueryDepthSList (fold (\<lambda>x st. fst (PushEntrySList x st)) ys (InitializeSListHead, f)) =
           of_nat (length ys)"
proof -
  from assms have v: "\<forall>y\<in>set ys. y \<noteq> NULL" by auto
  note init = slist_init [of f]
  have "slist_rep (fold (\<lambda>x st. fst (PushEntrySList x st)) ys (InitializeSListHead, f)) (rev ys @ [])"
    by (rule slist.push_all [OF init]) (use assms v in auto)
  then show ?thesis
    using slist.lifo [OF init assms(1) v assms(3)]
    by (auto simp: ExQueryDepthSList_def slist_rep_def)
qed

theorem slist_lifo_depth_witness:
  "(\<exists>st'. drain (\<lambda>st. map_prod id opt_of_ptr (PopEntrySList st)) 3
      (fold (\<lambda>x st. fst (PushEntrySList x st)) [32, 48] (InitializeSListHead, \<lambda>_. 0)) = Some (rev [32, 48], st') \<and>
    slist_rep st' []) \<and>
   ExQueryDepthSList (fold (\<lambda>x st. fst (PushEntrySList x st)) [32, 48] (InitializeSListHead, \<lambda>_. 0)) =
     of_nat (length [32, 48 :: ptr])"
  by (rule slist_lifo_depth) simp_all

end
