(* ===== verification/Rtl_String.thy ===== *)
theory Rtl_String
  imports Prelude
begin

text \<open>
  The run-time library of \<^verbatim>\<open>rtl.c\<close>: memory comparison, counted ANSI and Unicode
  strings, their conversions, and the integer parsing and printing routines.

  A string structure carries its two 16-bit byte counts and a buffer: \<open>None\<close> is the
  null pointer, \<open>Some b\<close> the units from the buffer pointer to the end of its
  allocation.  \<open>char\<close> is signed, \<open>wchar_t\<close> an unsigned 16-bit unit, and memory is
  little endian, as on the machines the driver is built for.  The kernel's
  \<open>toupper\<close> and the pool allocator are parameters (\<open>toupper\<close>, \<open>kalloc\<close>): the
  former maps bytes to bytes, the latter gives a block of the requested number of
  elements or \<open>None\<close>.
\<close>

section \<open>Memory\<close>

text \<open>\<open>cmp_mem\<close> is the comparison loop: \<open>i\<close> bytes compared equal so far, \<open>n\<close> left.\<close>

fun cmp_mem :: "u8 list \<Rightarrow> u8 list \<Rightarrow> nat \<Rightarrow> nat \<Rightarrow> nat option" where
  "cmp_mem a b i 0 = Some i"
| "cmp_mem a b i (Suc n) =
     do { x \<leftarrow> rd a i; y \<leftarrow> rd b i; if x = y then cmp_mem a b (Suc i) n else Some i }"

definition RtlCompareMemory :: "u8 list \<Rightarrow> u8 list \<Rightarrow> nat \<Rightarrow> nat option" where
  "RtlCompareMemory a b len = cmp_mem a b 0 len"

definition RtlCopyMemory :: "u8 list \<Rightarrow> u8 list \<Rightarrow> nat \<Rightarrow> u8 list option" where
  "RtlCopyMemory dst src len = blk_copy dst 0 src 0 len"

definition RtlZeroMemory :: "u8 list \<Rightarrow> nat \<Rightarrow> u8 list option" where
  "RtlZeroMemory dst len = blk_fill dst 0 0 len"

definition RtlSecureZeroMemory :: "u8 list \<Rightarrow> nat \<Rightarrow> u8 list option" where
  "RtlSecureZeroMemory dst len = blk_fill dst 0 0 len"

definition RtlFillMemory :: "u8 list \<Rightarrow> nat \<Rightarrow> u8 \<Rightarrow> u8 list option" where
  "RtlFillMemory dst len v = blk_fill dst 0 v len"

text \<open>\<^verbatim>\<open>memmove\<close> inside one block \<open>m\<close>, from offset \<open>s\<close> to offset \<open>d\<close>; the ranges may overlap.\<close>

definition RtlMoveMemory :: "u8 list \<Rightarrow> nat \<Rightarrow> nat \<Rightarrow> nat \<Rightarrow> u8 list option" where
  "RtlMoveMemory m d s len = blk_copy m d m s len"

section \<open>Counted strings\<close>

record ansi_string =
  a_length :: u16
  a_max_length :: u16
  a_buf :: "u8 list option"

record unicode_string =
  u_length :: u16
  u_max_length :: u16
  u_buf :: "u16 list option"

text \<open>Access through a pointer that may be null.\<close>

definition rdp :: "'a list option \<Rightarrow> nat \<Rightarrow> 'a option" where
  "rdp p i = do { b \<leftarrow> p; rd b i }"

definition wrp :: "'a list option \<Rightarrow> nat \<Rightarrow> 'a \<Rightarrow> 'a list option" where
  "wrp p i v = do { b \<leftarrow> p; wr b i v }"

text \<open>\<^verbatim>\<open>memcpy\<close> of \<open>n\<close> bytes between arrays of 16-bit units; an odd count ends in the
  low byte of a unit.\<close>

definition memcpy16 :: "u16 list \<Rightarrow> nat \<Rightarrow> u16 list \<Rightarrow> nat \<Rightarrow> u16 list option" where
  "memcpy16 d doff s n =
     do { d' \<leftarrow> blk_copy d doff s 0 (n div 2);
          if even n then Some d'
          else do { x \<leftarrow> rd d' (doff + n div 2);
                    y \<leftarrow> rd s (n div 2);
                    wr d' (doff + n div 2) ((x AND 0xFF00) OR (y AND 0xFF)) } }"

text \<open>The loops \<^verbatim>\<open>while (!ret && len--) ret = ...\<close> over two buffers.\<close>

fun cmp_units :: "('a \<Rightarrow> 'a \<Rightarrow> int) \<Rightarrow> 'a list option \<Rightarrow> 'a list option \<Rightarrow> nat \<Rightarrow> nat \<Rightarrow> int option" where
  "cmp_units diff p1 p2 i 0 = Some 0"
| "cmp_units diff p1 p2 i (Suc n) =
     do { x \<leftarrow> rdp p1 i; y \<leftarrow> rdp p2 i;
          if diff x y \<noteq> 0 then Some (diff x y) else cmp_units diff p1 p2 (Suc i) n }"

definition RtlCompareString :: "(u8 \<Rightarrow> u8) \<Rightarrow> ansi_string \<Rightarrow> ansi_string \<Rightarrow> bool \<Rightarrow> int option" where
  "RtlCompareString toupper s1 s2 case_insensitive =
     do { ret \<leftarrow> cmp_units
            (if case_insensitive then (\<lambda>x y. uint (toupper x) - uint (toupper y))
             else (\<lambda>x y. sint x - sint y))
            (a_buf s1) (a_buf s2) 0 (min (unat (a_length s1)) (unat (a_length s2)));
          Some (if ret = 0 then uint (a_length s1) - uint (a_length s2) else ret) }"

definition RtlCompareUnicodeString ::
  "(u8 \<Rightarrow> u8) \<Rightarrow> unicode_string \<Rightarrow> unicode_string \<Rightarrow> bool \<Rightarrow> int option" where
  "RtlCompareUnicodeString toupper s1 s2 case_insensitive =
     do { ret \<leftarrow> cmp_units
            (if case_insensitive
             then (\<lambda>x y. uint (toupper (ucast x)) - uint (toupper (ucast y)))
             else (\<lambda>x y. uint (ucast x :: u8) - uint (ucast y :: u8)))
            (u_buf s1) (u_buf s2) 0 (min (unat (u_length s1)) (unat (u_length s2)) div 2);
          Some (if ret = 0 then uint (u_length s1) - uint (u_length s2) else ret) }"

definition RtlEqualString :: "(u8 \<Rightarrow> u8) \<Rightarrow> ansi_string \<Rightarrow> ansi_string \<Rightarrow> bool \<Rightarrow> bool option" where
  "RtlEqualString toupper s1 s2 ci =
     (if a_length s1 \<noteq> a_length s2 then Some False
      else map_option (\<lambda>r. r = 0) (RtlCompareString toupper s1 s2 ci))"

definition RtlEqualUnicodeString ::
  "(u8 \<Rightarrow> u8) \<Rightarrow> unicode_string \<Rightarrow> unicode_string \<Rightarrow> bool \<Rightarrow> bool option" where
  "RtlEqualUnicodeString toupper s1 s2 ci =
     (if u_length s1 \<noteq> u_length s2 then Some False
      else map_option (\<lambda>r. r = 0) (RtlCompareUnicodeString toupper s1 s2 ci))"

text \<open>Copies; the source pointer itself may be null (\<open>None\<close>).\<close>

definition RtlCopyUnicodeString ::
  "unicode_string \<Rightarrow> unicode_string option \<Rightarrow> unicode_string option" where
  "RtlCopyUnicodeString dst src =
     (case (src, Option.bind src u_buf, u_buf dst) of
        (Some s, Some sb, Some db) \<Rightarrow>
          (let len = min (u_length s) (u_max_length dst) in
           do { b1 \<leftarrow> memcpy16 db 0 sb (unat len);
                b2 \<leftarrow> (if len < u_max_length dst then wr b1 (unat len div 2) 0 else Some b1);
                Some (dst\<lparr>u_length := len, u_buf := Some b2\<rparr>) })
      | _ \<Rightarrow> Some (dst\<lparr>u_length := 0\<rparr>))"

definition RtlCopyString :: "ansi_string \<Rightarrow> ansi_string option \<Rightarrow> ansi_string option" where
  "RtlCopyString dst src =
     (case (src, Option.bind src a_buf, a_buf dst) of
        (Some s, Some sb, Some db) \<Rightarrow>
          (let len = min (a_length s) (a_max_length dst) in
           do { b1 \<leftarrow> blk_copy db 0 sb 0 (unat len);
                b2 \<leftarrow> (if len < a_max_length dst then wr b1 (unat len) 0 else Some b1);
                Some (dst\<lparr>a_length := len, a_buf := Some b2\<rparr>) })
      | _ \<Rightarrow> Some (dst\<lparr>a_length := 0\<rparr>))"

text \<open>Length of a zero-terminated array: the loop \<^verbatim>\<open>for (len = 0; src[len]; len++)\<close>,
  with the test of the source as a parameter.\<close>

fun scan0 :: "('a \<Rightarrow> bool) \<Rightarrow> 'a list \<Rightarrow> nat option" where
  "scan0 is0 [] = None"
| "scan0 is0 (x # xs) = (if is0 x then Some 0 else map_option Suc (scan0 is0 xs))"

definition RtlAppendUnicodeToString ::
  "unicode_string \<Rightarrow> u16 list option \<Rightarrow> (unicode_string \<times> NTSTATUS) option" where
  "RtlAppendUnicodeToString dst src =
     (case src of
        None \<Rightarrow> Some (dst, STATUS_SUCCESS)
      | Some s \<Rightarrow>
          do { len \<leftarrow> scan0 (\<lambda>c. c = 0) s;
               if unat (u_length dst) + len * 2 > unat (u_max_length dst)
               then Some (dst, STATUS_BUFFER_TOO_SMALL)
               else do { db \<leftarrow> u_buf dst;
                         b1 \<leftarrow> memcpy16 db (unat (u_length dst)) s (len * 2);
                         let length' = u_length dst + of_nat (len * 2);
                         b2 \<leftarrow> (if u_max_length dst > length'
                                then wr b1 (unat length' div 2) 0 else Some b1);
                         Some (dst\<lparr>u_length := length', u_buf := Some b2\<rparr>, STATUS_SUCCESS) } })"

definition RtlAppendUnicodeStringToString ::
  "unicode_string \<Rightarrow> unicode_string \<Rightarrow> (unicode_string \<times> NTSTATUS) option" where
  "RtlAppendUnicodeStringToString dst src =
     (if unat (u_max_length dst) < unat (u_length src) + unat (u_length dst)
      then Some (dst, STATUS_BUFFER_TOO_SMALL)
      else if u_length src \<noteq> 0
      then do { db \<leftarrow> u_buf dst; sb \<leftarrow> u_buf src;
                b1 \<leftarrow> memcpy16 db (unat (u_length dst)) sb (unat (u_length src));
                let length' = u_length dst + u_length src;
                b2 \<leftarrow> (if u_max_length dst > length'
                       then wr b1 (unat length' div 2) 0 else Some b1);
                Some (dst\<lparr>u_length := length', u_buf := Some b2\<rparr>, STATUS_SUCCESS) }
      else Some (dst, STATUS_SUCCESS))"

section \<open>Conversions between ANSI and Unicode\<close>

text \<open>The loop \<^verbatim>\<open>for (i = 0; i < max && buf[i]; i++)\<close>: \<open>m\<close> iterations are left.\<close>

fun count_units :: "'a::zero list option \<Rightarrow> nat \<Rightarrow> nat \<Rightarrow> nat option" where
  "count_units p i 0 = Some i"
| "count_units p i (Suc m) =
     do { c \<leftarrow> rdp p i; if c = 0 then Some i else count_units p (Suc i) m }"

definition RtlxAnsiStringToUnicodeSize :: "ansi_string \<Rightarrow> nat option" where
  "RtlxAnsiStringToUnicodeSize s =
     map_option (\<lambda>i. i * 2) (count_units (a_buf s) 0 (unat (a_max_length s)))"

definition RtlxUnicodeStringToAnsiSize :: "unicode_string \<Rightarrow> nat option" where
  "RtlxUnicodeStringToAnsiSize s = count_units (u_buf s) 0 (unat (u_max_length s))"

text \<open>The element-wise copy loops: \<^verbatim>\<open>dst->buf[i] = src->buf[i]\<close> for \<open>i\<close> below \<open>n\<close>.
  A \<open>char\<close> widens with its sign, a \<open>wchar_t\<close> narrows to its low byte.\<close>

fun conv_loop ::
  "('a \<Rightarrow> 'b) \<Rightarrow> 'b list option \<Rightarrow> 'a list option \<Rightarrow> nat \<Rightarrow> nat \<Rightarrow> 'b list option option" where
  "conv_loop f d s i 0 = Some d"
| "conv_loop f d s i (Suc m) =
     do { x \<leftarrow> rdp s i; d' \<leftarrow> wrp d i (f x); conv_loop f (Some d') s (Suc i) m }"

definition RtlAnsiStringToUnicodeString ::
  "(nat \<Rightarrow> u16 list option) \<Rightarrow> unicode_string \<Rightarrow> ansi_string \<Rightarrow> bool \<Rightarrow>
   (unicode_string \<times> NTSTATUS) option" where
  "RtlAnsiStringToUnicodeString kalloc dst src alloc =
     do { n \<leftarrow> RtlxAnsiStringToUnicodeSize src;
          let max' = (if alloc then of_nat (n + 2) else u_max_length dst);
          let b = (if alloc then kalloc (unat max' div 2) else u_buf dst);
          if alloc \<and> b = None
          then Some (\<lparr>u_length = 0, u_max_length = 0, u_buf = None\<rparr>, STATUS_NO_MEMORY)
          else if \<not> alloc \<and> unat (u_max_length dst) < n
          then Some (dst, STATUS_BUFFER_TOO_SMALL)
          else do { b1 \<leftarrow> conv_loop scast b (a_buf src) 0 (n div 2);
                    b2 \<leftarrow> (if (n div 2) * 2 < unat max'
                           then map_option Some (wrp b1 (n div 2) 0) else Some b1);
                    Some (\<lparr>u_length = of_nat n, u_max_length = max', u_buf = b2\<rparr>,
                          STATUS_SUCCESS) } }"

definition RtlUnicodeStringToAnsiString ::
  "(nat \<Rightarrow> u8 list option) \<Rightarrow> ansi_string \<Rightarrow> unicode_string \<Rightarrow> bool \<Rightarrow>
   (ansi_string \<times> NTSTATUS) option" where
  "RtlUnicodeStringToAnsiString kalloc dst src alloc =
     do { n \<leftarrow> RtlxUnicodeStringToAnsiSize src;
          let max' = (if alloc then of_nat (n + 1) else a_max_length dst);
          let b = (if alloc then kalloc (unat max') else a_buf dst);
          if alloc \<and> b = None
          then Some (\<lparr>a_length = 0, a_max_length = 0, a_buf = None\<rparr>, STATUS_NO_MEMORY)
          else if \<not> alloc \<and> unat (a_max_length dst) < n
          then Some (dst, STATUS_BUFFER_TOO_SMALL)
          else do { b1 \<leftarrow> conv_loop ucast b (u_buf src) 0 n;
                    b2 \<leftarrow> (if n < unat max' then map_option Some (wrp b1 n 0) else Some b1);
                    Some (\<lparr>a_length = of_nat n, a_max_length = max', a_buf = b2\<rparr>,
                          STATUS_SUCCESS) } }"

definition RtlUpcaseUnicodeString ::
  "(u8 \<Rightarrow> u8) \<Rightarrow> (nat \<Rightarrow> u16 list option) \<Rightarrow> unicode_string \<Rightarrow> unicode_string \<Rightarrow> bool \<Rightarrow>
   (unicode_string \<times> NTSTATUS) option" where
  "RtlUpcaseUnicodeString toupper kalloc dst src alloc =
     (let b = (if alloc then kalloc (unat (u_length src) div 2) else u_buf dst);
          max' = (if alloc then u_length src else u_max_length dst) in
      if alloc \<and> b = None then Some (dst\<lparr>u_buf := None\<rparr>, STATUS_NO_MEMORY)
      else if \<not> alloc \<and> u_max_length dst < u_length src then Some (dst, STATUS_BUFFER_OVERFLOW)
      else do { b1 \<leftarrow> conv_loop (\<lambda>c. ucast (toupper (ucast c))) b (u_buf src) 0 (unat (u_length src) div 2);
                Some (\<lparr>u_length = u_length src, u_max_length = max', u_buf = b1\<rparr>, STATUS_SUCCESS) })"

text \<open>Initialisation from a terminated array.  The Unicode variant stops at the first
  unit whose low byte is zero, because the source tests \<^verbatim>\<open>(char)src[i]\<close>.\<close>

definition RtlInitUnicodeString :: "u16 list option \<Rightarrow> unicode_string option" where
  "RtlInitUnicodeString src =
     (case src of
        None \<Rightarrow> Some \<lparr>u_length = 0, u_max_length = 0, u_buf = None\<rparr>
      | Some s \<Rightarrow>
          do { i \<leftarrow> scan0 (\<lambda>c. (ucast c :: u8) = 0) s;
               Some \<lparr>u_length = of_nat (i * 2), u_max_length = of_nat ((i + 1) * 2), u_buf = Some s\<rparr> })"

definition RtlInitAnsiString :: "u8 list option \<Rightarrow> ansi_string option" where
  "RtlInitAnsiString src =
     (case src of
        None \<Rightarrow> Some \<lparr>a_length = 0, a_max_length = 0, a_buf = None\<rparr>
      | Some s \<Rightarrow>
          do { i \<leftarrow> scan0 (\<lambda>c. c = 0) s;
               Some \<lparr>a_length = of_nat i, a_max_length = of_nat (i + 1), a_buf = Some s\<rparr> })"

definition RtlInitString :: "u8 list option \<Rightarrow> ansi_string option" where
  "RtlInitString src = RtlInitAnsiString src"

text \<open>Freeing returns the buffer handed to ExFreePool, if any, and the cleared string.\<close>

definition RtlFreeUnicodeString :: "unicode_string \<Rightarrow> u16 list option \<times> unicode_string" where
  "RtlFreeUnicodeString s = (u_buf s, s\<lparr>u_length := 0, u_max_length := 0, u_buf := None\<rparr>)"

definition RtlFreeAnsiString :: "ansi_string \<Rightarrow> u8 list option \<times> ansi_string" where
  "RtlFreeAnsiString s = (a_buf s, s\<lparr>a_length := 0, a_max_length := 0, a_buf := None\<rparr>)"

section \<open>Integers\<close>

definition isdigit :: "u8 \<Rightarrow> bool" where
  "isdigit c \<longleftrightarrow> 48 \<le> c \<and> c \<le> 57"

definition isxdigit :: "u8 \<Rightarrow> bool" where
  "isxdigit c \<longleftrightarrow> isdigit c \<or> (65 \<le> c \<and> c \<le> 70) \<or> (97 \<le> c \<and> c \<le> 102)"

definition tolower_hex :: "u8 \<Rightarrow> u8" where
  "tolower_hex c = (if 65 \<le> c \<and> c \<le> 90 then c + 32 else c)"

text \<open>The digit value of a character: \<open>w\<close> is the character as stored, \<open>c\<close> the same
  converted to \<open>char\<close> (they coincide for 8-bit strings).\<close>

definition digit_val :: "u32 \<Rightarrow> u32 \<Rightarrow> u8 \<Rightarrow> u32" where
  "digit_val base w c =
     (if isdigit c then w - 48
      else if isxdigit c then ucast (tolower_hex c) - 97 + 10
      else base)"

text \<open>The base prefix of \<^verbatim>\<open>base == 0\<close>: the base and the number of characters consumed.\<close>

definition base_ok :: "u32 \<Rightarrow> bool" where
  "base_ok base \<longleftrightarrow> base = 2 \<or> base = 8 \<or> base = 10 \<or> base = 16"

fun prefix_base :: "u32 \<Rightarrow> (u32 \<times> nat)" where
  "prefix_base c = (if c = 98 then (2, 1) else if c = 111 then (8, 1)
                    else if c = 120 then (16, 1) else (10, 0))"

text \<open>RtlCharToInteger advances a pointer over a terminated string: the list is what the
  pointer points at.\<close>

fun skip_spaces :: "u8 list \<Rightarrow> u8 list option" where
  "skip_spaces [] = None"
| "skip_spaces (c # cs) = (if c = 32 then skip_spaces cs else Some (c # cs))"

fun char_digits :: "u32 \<Rightarrow> u8 list \<Rightarrow> u32 \<Rightarrow> u32 option option" where
  "char_digits base [] res = None"
| "char_digits base (c # cs) res =
     (if c = 0 then Some (Some res)
      else let v = digit_val base (ucast c) c in
           if v \<ge> base then Some None
           else char_digits base cs (res * base + v))"

definition RtlCharToInteger :: "u8 list option \<Rightarrow> u32 \<Rightarrow> (u32 option \<times> NTSTATUS) option" where
  "RtlCharToInteger string base =
     (case string of
        None \<Rightarrow> Some (None, STATUS_INVALID_PARAMETER)
      | Some s0 \<Rightarrow>
          do { s1 \<leftarrow> skip_spaces s0;
               c1 \<leftarrow> rd s1 0;
               let s2 = (if c1 = 43 \<or> c1 = 45 then drop 1 s1 else s1);
               let neg = (c1 = 45);
               c2 \<leftarrow> (if base = 0 then rd s2 0 else Some 0);
               c3 \<leftarrow> (if base = 0 \<and> c2 = 48 then rd s2 1 else Some 0);
               let bn = (if base = 0
                         then if c2 = 48
                              then (case prefix_base (ucast c3) of (b, k) \<Rightarrow> (b, k + 1))
                              else (10, 0)
                         else (base, 0));
               if \<not> base_ok (fst bn) then Some (None, STATUS_INVALID_PARAMETER)
               else do { r \<leftarrow> char_digits (fst bn) (drop (snd bn) s2) 0;
                         Some (case r of
                                 None \<Rightarrow> (None, STATUS_INVALID_PARAMETER)
                               | Some res \<Rightarrow> (Some (if neg then - res else res), STATUS_SUCCESS)) } })"

text \<open>RtlUnicodeStringToInteger works by index; \<open>n\<close> is \<^verbatim>\<open>length / sizeof(wchar_t)\<close>.\<close>

fun skip_spaces_at :: "u16 list option \<Rightarrow> nat \<Rightarrow> nat \<Rightarrow> nat option" where
  "skip_spaces_at b i 0 = Some i"
| "skip_spaces_at b i (Suc m) =
     do { c \<leftarrow> rdp b i; if c = 32 then skip_spaces_at b (Suc i) m else Some i }"

fun unicode_digits :: "u32 \<Rightarrow> u16 list option \<Rightarrow> nat \<Rightarrow> nat \<Rightarrow> u32 \<Rightarrow> u32 option option" where
  "unicode_digits base b i 0 res = Some (Some res)"
| "unicode_digits base b i (Suc m) res =
     do { c \<leftarrow> rdp b i;
          let v = digit_val base (ucast c) (ucast c);
          if v \<ge> base then Some None
          else unicode_digits base b (Suc i) m (res * base + v) }"

definition RtlUnicodeStringToInteger ::
  "unicode_string \<Rightarrow> u32 \<Rightarrow> (u32 option \<times> NTSTATUS) option" where
  "RtlUnicodeStringToInteger us base =
     (if u_length us = 0 then Some (Some 0, STATUS_SUCCESS)
      else let b = u_buf us; n = unat (u_length us) div 2 in
      do { i0 \<leftarrow> skip_spaces_at b 0 n;
           c1 \<leftarrow> rdp b i0;
           let i1 = (if c1 = 43 \<or> c1 = 45 then Suc i0 else i0);
           let neg = (c1 = 45);
           \<comment> \<open>\<^verbatim>\<open>i <= n - 2\<close> is an unsigned comparison: it holds whenever \<^verbatim>\<open>n < 2\<close>\<close>
           let room = (n < 2 \<or> i1 \<le> n - 2);
           c2 \<leftarrow> (if base = 0 \<and> room then rdp b i1 else Some 0);
           c3 \<leftarrow> (if base = 0 \<and> room \<and> c2 = 48 then rdp b (Suc i1) else Some 0);
           let bn = (if base = 0
                     then if room \<and> c2 = 48
                          then (case prefix_base (ucast c3) of (bs, k) \<Rightarrow> (bs, i1 + 1 + k))
                          else (10, i1)
                     else (base, i1));
           if \<not> base_ok (fst bn) then Some (None, STATUS_INVALID_PARAMETER)
           else do { r \<leftarrow> unicode_digits (fst bn) b (snd bn) (n - snd bn) 0;
                     Some (case r of
                             None \<Rightarrow> (None, STATUS_INVALID_PARAMETER)
                           | Some res \<Rightarrow> (Some (if neg then - res else res), STATUS_SUCCESS)) } })"

text \<open>RtlIntegerToUnicodeString: the loop \<^verbatim>\<open>for (i = 0; value && i < max; i++)\<close> with \<open>m\<close>
  units of room left; it returns the buffer, the digits written and what is left of the value.\<close>

definition digit_char :: "u32 \<Rightarrow> u16" where
  "digit_char r = (if r < 10 then ucast r + 48 else ucast r + 97 - 10)"

fun print_loop :: "u32 \<Rightarrow> u16 list option \<Rightarrow> nat \<Rightarrow> nat \<Rightarrow> u32 \<Rightarrow> (u16 list option \<times> nat \<times> u32) option" where
  "print_loop base b i 0 value = Some (b, i, value)"
| "print_loop base b i (Suc m) value =
     (if value = 0 then Some (b, i, value)
      else do { b' \<leftarrow> wrp b i (digit_char (value mod base));
                print_loop base (Some b') (Suc i) m (value div base) })"

definition RtlIntegerToUnicodeString ::
  "u32 \<Rightarrow> u32 \<Rightarrow> unicode_string \<Rightarrow> (unicode_string \<times> NTSTATUS) option" where
  "RtlIntegerToUnicodeString value base0 us =
     (let base = (if base0 = 0 then 10 else base0) in
      if \<not> base_ok base then Some (us, STATUS_INVALID_PARAMETER)
      else do { (b, i, rest) \<leftarrow> print_loop base (u_buf us) 0 (unat (u_max_length us) div 2) value;
                Some (if rest \<noteq> 0 then (us\<lparr>u_buf := b\<rparr>, STATUS_BUFFER_OVERFLOW)
                      else (us\<lparr>u_length := of_nat (i * 2), u_buf := b\<rparr>, STATUS_SUCCESS)) })"

definition RtlUshortByteSwap :: "u16 \<Rightarrow> u16" where
  "RtlUshortByteSwap x = push_bit 8 x OR drop_bit 8 x"

definition RtlUlongByteSwap :: "u32 \<Rightarrow> u32" where
  "RtlUlongByteSwap x =
     (push_bit 24 (x AND 0xFF)) OR (push_bit 8 (x AND 0xFF00)) OR
     (drop_bit 8 (x AND 0xFF0000)) OR (drop_bit 24 (x AND 0xFF000000))"

definition RtlConvertUlongToLargeInteger :: "u32 \<Rightarrow> u64" where
  "RtlConvertUlongToLargeInteger ul = ucast ul"

section \<open>GUIDs\<close>

record guid =
  data1 :: u32
  data2 :: u16
  data3 :: u16
  data4 :: "u8 list"

text \<open>\<open>scan_hex\<close> stands for the kernel's \<^verbatim>\<open>sscanf(p, "%x", &v) == 1\<close> on the string at \<open>p\<close>.
  The comparison \<^verbatim>\<open>j < 8\<close> is the one of the source.\<close>

definition RtlGUIDFromString ::
  "(u8 list \<Rightarrow> u32 option) \<Rightarrow> (nat \<Rightarrow> u8 list option) \<Rightarrow> unicode_string \<Rightarrow> guid \<Rightarrow>
   (guid \<times> NTSTATUS) option" where
  "RtlGUIDFromString scan_hex kalloc guid_string g =
     do { (ansi, ret) \<leftarrow> RtlUnicodeStringToAnsiString kalloc
            \<lparr>a_length = 0, a_max_length = 0, a_buf = None\<rparr> guid_string True;
          if ret \<noteq> STATUS_SUCCESS then Some (g, ret)
          else if a_length ansi \<noteq> 37 then Some (g, STATUS_INVALID_PARAMETER)
          else do { b \<leftarrow> a_buf ansi;
                    c0 \<leftarrow> rd b 0; c36 \<leftarrow> rd b 36; c9 \<leftarrow> rd b 9; c14 \<leftarrow> rd b 14;
                    c19 \<leftarrow> rd b 19; c24 \<leftarrow> rd b 24;
                    if c0 \<noteq> 123 \<or> c36 \<noteq> 125 \<or> c9 \<noteq> 45 \<or> c14 \<noteq> 45 \<or> c19 \<noteq> 45 \<or> c24 \<noteq> 45
                    then Some (g, STATUS_INVALID_PARAMETER)
                    else do { d4 \<leftarrow> blk_copy (data4 g) 0 b 29 2;
                              let g1 = g\<lparr>data4 := d4\<rparr>;
                              b' \<leftarrow> wr b 29 0;
                              Some (case (scan_hex (drop 1 b'), scan_hex (drop 10 b'), scan_hex (drop 15 b'),
                                          scan_hex (drop 20 b'), scan_hex (drop 25 b')) of
                                      (Some i, Some j, Some k, Some l, Some m) \<Rightarrow>
                                        (g1\<lparr>data1 := push_bit 16 i OR (if j <s 8 then 1 else 0) OR k,
                                            data2 := ucast l, data3 := ucast m\<rparr>, STATUS_SUCCESS)
                                    | _ \<Rightarrow> (g1, STATUS_INVALID_PARAMETER)) } } }"


section \<open>Lemmas\<close>

lemma rdp_Some [simp]: "rdp (Some b) i = rd b i"
  by (simp add: rdp_def)

lemma wrp_Some [simp]: "wrp (Some b) i v = wr b i v"
  by (simp add: wrp_def)

subsection \<open>Comparison loops\<close>

lemma cmp_mem_prefix:
  assumes "i + n \<le> length a" "i + n \<le> length b" "take i a = take i b"
  shows "\<exists>k. cmp_mem a b i n = Some k \<and> i \<le> k \<and> k \<le> i + n \<and> take k a = take k b \<and>
           (k < i + n \<longrightarrow> a ! k \<noteq> b ! k)"
  using assms
proof (induction n arbitrary: i)
  case 0
  then show ?case by simp
next
  case (Suc n)
  show ?case
  proof (cases "a ! i = b ! i")
    case True
    with Suc.prems have "take (Suc i) a = take (Suc i) b"
      by (simp add: take_Suc_conv_app_nth)
    with Suc.IH [of "Suc i"] Suc.prems obtain k where
      "cmp_mem a b (Suc i) n = Some k" "Suc i \<le> k" "k \<le> Suc i + n" "take k a = take k b"
      "k < Suc i + n \<longrightarrow> a ! k \<noteq> b ! k" by auto
    with True Suc.prems show ?thesis by (intro exI [of _ k]) (auto simp: rd_def)
  next
    case False
    with Suc.prems show ?thesis by (intro exI [of _ i]) (auto simp: rd_def)
  qed
qed

lemma cmp_units_total:
  "i + n \<le> length a \<Longrightarrow> i + n \<le> length b \<Longrightarrow> \<exists>r. cmp_units d (Some a) (Some b) i n = Some r"
  by (induction n arbitrary: i) (auto simp: rd_def)

lemma cmp_units_zero_iff:
  assumes "i + n \<le> length a" "i + n \<le> length b"
  shows "cmp_units d (Some a) (Some b) i n = Some 0 \<longleftrightarrow> (\<forall>j. i \<le> j \<and> j < i + n \<longrightarrow> d (a ! j) (b ! j) = 0)"
  using assms
proof (induction n arbitrary: i)
  case 0
  then show ?case by simp
next
  case (Suc n)
  have *: "(\<forall>j. i \<le> j \<and> j < i + Suc n \<longrightarrow> P j) \<longleftrightarrow> P i \<and> (\<forall>j. Suc i \<le> j \<and> j < Suc i + n \<longrightarrow> P j)" for P
    by (auto simp: Suc_le_eq) (metis le_neq_implies_less)
  from Suc.IH [of "Suc i"] Suc.prems show ?case
    unfolding * by (auto simp: rd_def)
qed

lemma cmp_units_antisym:
  assumes "\<And>x y. d y x = - d x y" and "i + n \<le> length a" "i + n \<le> length b"
  shows "cmp_units d (Some b) (Some a) i n = map_option uminus (cmp_units d (Some a) (Some b) i n)"
  using assms(2,3)
proof (induction n arbitrary: i)
  case 0
  then show ?case by simp
next
  case (Suc n)
  then show ?case using assms(1) [of "a ! i" "b ! i"] by (auto simp: rd_def)
qed

subsection \<open>Conversion loops\<close>

lemma scan0_append: "\<forall>c\<in>set cs. \<not> p c \<Longrightarrow> p z \<Longrightarrow> scan0 p (cs @ z # rest) = Some (length cs)"
  by (induction cs) auto

lemma count_units_string:
  assumes "\<forall>c\<in>set cs. c \<noteq> 0" "i \<le> length cs"
  shows "count_units (Some (cs @ 0 # rest)) i m = Some (min (i + m) (length cs))"
  using assms(2)
proof (induction m arbitrary: i)
  case 0
  then show ?case by simp
next
  case (Suc m)
  show ?case
  proof (cases "i < length cs")
    case True
    then have "(cs @ 0 # rest) ! i \<noteq> 0" using assms(1) by (simp add: nth_append)
    with True Suc.IH [of "Suc i"] show ?thesis by (auto simp: rd_def)
  next
    case False
    with Suc.prems show ?thesis by (auto simp: rd_def nth_append)
  qed
qed

lemma conv_loop_eq:
  assumes "i + m \<le> length s" "i + m \<le> length d"
  shows "conv_loop f (Some d) (Some s) i m =
    Some (Some (take i d @ map f (take m (drop i s)) @ drop (i + m) d))"
  using assms
proof (induction m arbitrary: i d)
  case 0
  then show ?case by simp
next
  case (Suc m)
  then have "drop i s = s ! i # drop (Suc i) s" by (simp add: Cons_nth_drop_Suc)
  with Suc.IH [of "Suc i" "d[i := f (s ! i)]"] Suc.prems show ?case
    by (simp add: rd_def wr_def take_Suc_conv_app_nth)
qed

lemma conv_loop_prefix:
  assumes "length cs \<le> length d"
  shows "conv_loop f (Some d) (Some (cs @ rest)) 0 (length cs) =
    Some (Some (map f cs @ drop (length cs) d))"
  using conv_loop_eq [of 0 "length cs" "cs @ rest" d f] assms by simp

lemma wr_terminator:
  "length xs < length b \<Longrightarrow> wr (xs @ drop (length xs) b) (length xs) v = Some (xs @ v # drop (Suc (length xs)) b)"
  by (simp add: wr_def list_update_append Cons_nth_drop_Suc [symmetric])

text \<open>A string structure that holds the character sequence \<open>cs\<close>, terminated.\<close>

definition ansi_holds :: "ansi_string \<Rightarrow> u8 list \<Rightarrow> bool" where
  "ansi_holds s cs \<longleftrightarrow> (\<forall>c\<in>set cs. c \<noteq> 0) \<and> unat (a_length s) = length cs \<and>
     length cs < unat (a_max_length s) \<and> (\<exists>rest. a_buf s = Some (cs @ 0 # rest))"

definition unicode_holds :: "unicode_string \<Rightarrow> u16 list \<Rightarrow> bool" where
  "unicode_holds s cs \<longleftrightarrow> (\<forall>c\<in>set cs. c \<noteq> 0) \<and> unat (u_length s) = 2 * length cs \<and>
     2 * length cs < unat (u_max_length s) \<and> (\<exists>rest. u_buf s = Some (cs @ 0 # rest))"

lemma unat_of_nat_small: "n < 65536 \<Longrightarrow> unat (of_nat n :: u16) = n"
  by (simp add: unat_of_nat)

lemma ucast_scast_8_16 [simp]: "(ucast (scast c :: u16) :: u8) = c"
  by (rule bit_word_eqI) (simp add: bit_simps)

lemma scast_nonzero: "(c :: u8) \<noteq> 0 \<Longrightarrow> (scast c :: u16) \<noteq> 0"
  using ucast_scast_8_16 [of c] by (metis unsigned_0)


subsection \<open>Well-formed strings and their characters\<close>

definition ansi_wf :: "ansi_string \<Rightarrow> bool" where
  "ansi_wf s \<longleftrightarrow> (\<exists>b. a_buf s = Some b \<and> unat (a_length s) \<le> length b)"

definition ansi_chars :: "ansi_string \<Rightarrow> u8 list" where
  "ansi_chars s = (case a_buf s of None \<Rightarrow> [] | Some b \<Rightarrow> take (unat (a_length s)) b)"

definition unicode_wf :: "unicode_string \<Rightarrow> bool" where
  "unicode_wf s \<longleftrightarrow> (\<exists>b. u_buf s = Some b \<and> unat (u_length s) div 2 \<le> length b)"

definition unicode_chars :: "unicode_string \<Rightarrow> u16 list" where
  "unicode_chars s = (case u_buf s of None \<Rightarrow> [] | Some b \<Rightarrow> take (unat (u_length s) div 2) b)"

lemma all_prefix_eq_iff:
  assumes "n \<le> length a" "n \<le> length b"
  shows "(\<forall>j. 0 \<le> j \<and> j < 0 + n \<longrightarrow> f (a ! j) = g (b ! j)) \<longleftrightarrow> map f (take n a) = map g (take n b)"
  using assms by (auto simp: list_eq_iff_nth_eq)

lemma cmp_units_key:
  assumes "n \<le> length a" "n \<le> length b" and inj: "\<And>x y. d x y = 0 \<longleftrightarrow> f x = f y"
  shows "cmp_units d (Some a) (Some b) 0 n = Some 0 \<longleftrightarrow> map f (take n a) = map f (take n b)"
  using cmp_units_zero_iff [of 0 n a b d] all_prefix_eq_iff [OF assms(1,2), of f f] assms by simp

lemma cmp_with_lengths:
  assumes d: "\<And>x y. d y x = - d x y" "\<And>x y. d x y = 0 \<longleftrightarrow> f x = f y"
    and l: "n1 \<le> length a" "n2 \<le> length b" "m = min n1 n2"
  shows "\<exists>r. cmp_units d (Some a) (Some b) 0 m = Some r \<and>
             cmp_units d (Some b) (Some a) 0 m = Some (- r) \<and>
             (r = 0 \<and> n1 = n2 \<longleftrightarrow> n1 = n2 \<and> map f (take n1 a) = map f (take n2 b))"
proof -
  have m: "0 + m \<le> length a" "0 + m \<le> length b" using l by auto
  from cmp_units_total [OF m] obtain r where r: "cmp_units d (Some a) (Some b) 0 m = Some r" by blast
  moreover have "cmp_units d (Some b) (Some a) 0 m = Some (- r)"
    using cmp_units_antisym [OF d(1) m] r by simp
  moreover have "r = 0 \<longleftrightarrow> map f (take m a) = map f (take m b)"
    using cmp_units_key [of m a b d f] m d(2) r by auto
  ultimately show ?thesis using l(3) by auto
qed

section \<open>Properties\<close>

text \<open>RtlCompareMemory returns the length of the longest common prefix of the two
  blocks, cut at the given count, and never reads outside them.\<close>

theorem RtlCompareMemory_prefix:
  assumes "len \<le> length a" "len \<le> length b"
  shows "\<exists>k. RtlCompareMemory a b len = Some k \<and> k \<le> len \<and> take k a = take k b \<and>
           (k < len \<longrightarrow> a ! k \<noteq> b ! k)"
  using cmp_mem_prefix [of 0 len a b] assms by (auto simp: RtlCompareMemory_def)

theorem RtlCompareMemory_prefix_witness:
  "\<exists>k. RtlCompareMemory [1, 2, 3, 4] [1, 2, 9, 4] 4 = Some k \<and> k \<le> 4 \<and>
     take k [1, 2, 3, 4 :: u8] = take k [1, 2, 9, 4] \<and>
     (k < 4 \<longrightarrow> [1, 2, 3, 4 :: u8] ! k \<noteq> [1, 2, 9, 4] ! k)"
  by (rule RtlCompareMemory_prefix) simp_all

text \<open>RtlCompareString is a comparison: on well-formed strings it returns without
  faulting, exchanging the arguments negates the result, and the result is zero
  exactly when the lengths agree and the characters agree (after \<open>toupper\<close> when
  the comparison ignores case).\<close>

theorem RtlCompareString_order:
  assumes "ansi_wf s1" "ansi_wf s2"
  shows "\<exists>r. RtlCompareString toupper s1 s2 ci = Some r \<and> RtlCompareString toupper s2 s1 ci = Some (- r) \<and>
    (r = 0 \<longleftrightarrow> a_length s1 = a_length s2 \<and>
       map (if ci then toupper else id) (ansi_chars s1) = map (if ci then toupper else id) (ansi_chars s2))"
proof -
  let ?d = "if ci then (\<lambda>x y. uint (toupper x) - uint (toupper y)) else (\<lambda>x y. sint x - sint y)"
  let ?f = "if ci then toupper else id"
  have d: "\<And>x y. ?d y x = - ?d x y" "\<And>x y. ?d x y = 0 \<longleftrightarrow> ?f x = ?f y"
    by (auto dest: unsigned_word_eqI signed_word_eqI)
  from assms obtain a b where ab: "a_buf s1 = Some a" "unat (a_length s1) \<le> length a"
    "a_buf s2 = Some b" "unat (a_length s2) \<le> length b" by (auto simp: ansi_wf_def)
  from cmp_with_lengths [where d = ?d and f = ?f, OF d ab(2,4) refl] obtain r where
    r: "cmp_units ?d (Some a) (Some b) 0 (min (unat (a_length s1)) (unat (a_length s2))) = Some r"
       "cmp_units ?d (Some b) (Some a) 0 (min (unat (a_length s1)) (unat (a_length s2))) = Some (- r)"
    and z: "r = 0 \<and> unat (a_length s1) = unat (a_length s2) \<longleftrightarrow> unat (a_length s1) = unat (a_length s2) \<and>
       map ?f (take (unat (a_length s1)) a) = map ?f (take (unat (a_length s2)) b)"
    by blast
  let ?r = "if r = 0 then uint (a_length s1) - uint (a_length s2) else r"
  have "RtlCompareString toupper s1 s2 ci = Some ?r"
    unfolding RtlCompareString_def ab(1,3) r(1) by simp
  moreover have "RtlCompareString toupper s2 s1 ci = Some (- ?r)"
    unfolding RtlCompareString_def ab(1,3) min.commute [of "unat (a_length s2)"] r(2) by simp
  moreover have "?r = 0 \<longleftrightarrow> a_length s1 = a_length s2 \<and> map ?f (ansi_chars s1) = map ?f (ansi_chars s2)"
  proof -
    have "?r = 0 \<longleftrightarrow> r = 0 \<and> a_length s1 = a_length s2" by (auto simp: word_uint_eq_iff)
    then show ?thesis using z ab unfolding ansi_chars_def by (auto simp: word_unat_eq_iff)
  qed
  ultimately show ?thesis by blast
qed

abbreviation ansi_of :: "u8 list \<Rightarrow> ansi_string" where
  "ansi_of cs \<equiv> \<lparr>a_length = of_nat (length cs), a_max_length = of_nat (length cs + 1), a_buf = Some (cs @ [0])\<rparr>"

theorem RtlCompareString_order_witness:
  "\<exists>r. RtlCompareString (\<lambda>c. c AND 0xDF) (ansi_of [97, 98]) (ansi_of [65, 66]) True = Some r \<and>
       RtlCompareString (\<lambda>c. c AND 0xDF) (ansi_of [65, 66]) (ansi_of [97, 98]) True = Some (- r) \<and>
       (r = 0 \<longleftrightarrow> a_length (ansi_of [97, 98]) = a_length (ansi_of [65, 66]) \<and>
          map (if True then (\<lambda>c. c AND 0xDF) else id) (ansi_chars (ansi_of [97, 98])) =
          map (if True then (\<lambda>c. c AND 0xDF) else id) (ansi_chars (ansi_of [65, 66])))"
  by (rule RtlCompareString_order) (simp_all add: ansi_wf_def)

text \<open>RtlEqualUnicodeString compares only the low byte of every character: two
  strings of the same length are equal for it exactly when their low bytes agree.\<close>

theorem RtlEqualUnicodeString_low_bytes:
  assumes "unicode_wf s1" "unicode_wf s2"
  shows "RtlEqualUnicodeString toupper s1 s2 False =
    Some (u_length s1 = u_length s2 \<and>
          map (\<lambda>c. ucast c :: u8) (unicode_chars s1) = map (\<lambda>c. ucast c :: u8) (unicode_chars s2))"
proof (cases "u_length s1 = u_length s2")
  case False
  then show ?thesis by (simp add: RtlEqualUnicodeString_def)
next
  case True
  let ?d = "\<lambda>x y. uint (ucast x :: u8) - uint (ucast y :: u8)"
  let ?n = "unat (u_length s2) div 2"
  from assms True obtain a b where ab: "u_buf s1 = Some a" "?n \<le> length a" "u_buf s2 = Some b" "?n \<le> length b"
    by (auto simp: unicode_wf_def)
  have d: "\<And>x y. ?d y x = - ?d x y" "\<And>x y. ?d x y = 0 \<longleftrightarrow> (ucast x :: u8) = ucast y"
    by (simp_all add: word_uint_eq_iff)
  from cmp_units_total [of 0 ?n a b ?d] ab obtain r
    where r: "cmp_units ?d (Some a) (Some b) 0 ?n = Some r" by auto
  have "r = 0 \<longleftrightarrow> map (\<lambda>c. ucast c :: u8) (take ?n a) = map (\<lambda>c. ucast c :: u8) (take ?n b)"
    using cmp_units_key [OF ab(2,4), of ?d "\<lambda>c. ucast c :: u8"] d(2) r by auto
  then show ?thesis
    using True ab r by (simp add: RtlEqualUnicodeString_def RtlCompareUnicodeString_def unicode_chars_def)
qed

abbreviation unicode_of :: "u16 list \<Rightarrow> unicode_string" where
  "unicode_of cs \<equiv> \<lparr>u_length = of_nat (2 * length cs), u_max_length = of_nat (2 * length cs + 2), u_buf = Some (cs @ [0])\<rparr>"

theorem RtlEqualUnicodeString_low_bytes_witness:
  "RtlEqualUnicodeString id (unicode_of [0x141]) (unicode_of [0x41]) False =
     Some (u_length (unicode_of [0x141]) = u_length (unicode_of [0x41]) \<and>
           map (\<lambda>c. ucast c :: u8) (unicode_chars (unicode_of [0x141])) =
           map (\<lambda>c. ucast c :: u8) (unicode_chars (unicode_of [0x41]))) \<and>
   map (\<lambda>c. ucast c :: u8) (unicode_chars (unicode_of [0x141])) = [0x41]"
  using RtlEqualUnicodeString_low_bytes [of "unicode_of [0x141]" "unicode_of [0x41]" id]
  by (simp add: unicode_wf_def unicode_chars_def)


subsection \<open>Conversions\<close>

lemma RtlAnsiStringToUnicodeString_alloc:
  assumes "ansi_holds s cs" "length cs < 32767" "kalloc (length cs + 1) = Some b" "length b = length cs + 1"
  shows "\<exists>u. RtlAnsiStringToUnicodeString kalloc dst s True = Some (u, STATUS_SUCCESS) \<and>
    unicode_holds u (map scast cs) \<and> u_buf u = Some (map scast cs @ [0])"
proof -
  let ?n = "length cs"
  from assms(1) obtain rest where s: "a_buf s = Some (cs @ 0 # rest)" and nz: "\<forall>c\<in>set cs. c \<noteq> 0"
    and max: "?n < unat (a_max_length s)" by (auto simp: ansi_holds_def)
  have cnt: "RtlxAnsiStringToUnicodeSize s = Some (?n * 2)"
    using count_units_string [OF nz, of 0 rest "unat (a_max_length s)"] max
    by (simp add: RtlxAnsiStringToUnicodeSize_def s)
  have m: "unat (of_nat (?n * 2 + 2) :: u16) = ?n * 2 + 2" and l: "unat (of_nat (?n * 2) :: u16) = ?n * 2"
    using assms(2) by (intro unat_of_nat_small; simp)+
  have cl: "conv_loop scast (Some b) (a_buf s) 0 ?n = Some (Some (map scast cs @ drop ?n b))"
    using conv_loop_prefix [of cs b scast] assms(4) s by simp
  have w: "wr (map scast cs @ drop ?n b) ?n 0 = Some (map scast cs @ [0])"
    using wr_terminator [of "map scast cs" b 0] assms(4) by simp
  show ?thesis
    using assms(3) cnt m l cl w nz
    by (auto simp: RtlAnsiStringToUnicodeString_def unicode_holds_def scast_nonzero)
qed

lemma RtlUnicodeStringToAnsiString_alloc:
  assumes "unicode_holds u us" "length us < 32767" "kalloc (length us + 1) = Some b" "length b = length us + 1"
  shows "\<exists>a. RtlUnicodeStringToAnsiString kalloc dst u True = Some (a, STATUS_SUCCESS) \<and>
    a_length a = of_nat (length us) \<and> a_max_length a = of_nat (length us + 1) \<and>
    a_buf a = Some (map ucast us @ [0])"
proof -
  let ?n = "length us"
  from assms(1) obtain rest where u: "u_buf u = Some (us @ 0 # rest)" and nz: "\<forall>c\<in>set us. c \<noteq> 0"
    and max: "2 * ?n < unat (u_max_length u)" by (auto simp: unicode_holds_def)
  have cnt: "RtlxUnicodeStringToAnsiSize u = Some ?n"
    using count_units_string [OF nz, of 0 rest "unat (u_max_length u)"] max
    by (simp add: RtlxUnicodeStringToAnsiSize_def u)
  have m: "unat (of_nat (?n + 1) :: u16) = ?n + 1"
    using assms(2) by (intro unat_of_nat_small) simp
  have cl: "conv_loop ucast (Some b) (u_buf u) 0 ?n = Some (Some (map ucast us @ drop ?n b))"
    using conv_loop_prefix [of us b ucast] assms(4) u by simp
  have w: "wr (map ucast us @ drop ?n b) ?n 0 = Some (map ucast us @ [0])"
    using wr_terminator [of "map ucast us" b 0] assms(4) by simp
  show ?thesis
    using assms(3) cnt m cl w by (auto simp: RtlUnicodeStringToAnsiString_def)
qed

text \<open>C14: Converting an ANSI string to Unicode and back, each time into a newly allocated
  buffer, succeeds without faulting and gives the original characters, also those
  above 127 that are sign-extended on the way.\<close>

theorem ansi_unicode_roundtrip:
  assumes "ansi_holds s cs" "length cs < 32767"
    and "kalloc16 (length cs + 1) = Some bw" "length bw = length cs + 1"
    and "kalloc8 (length cs + 1) = Some bb" "length bb = length cs + 1"
  shows "\<exists>u a. RtlAnsiStringToUnicodeString kalloc16 du s True = Some (u, STATUS_SUCCESS) \<and>
    unicode_holds u (map scast cs) \<and>
    RtlUnicodeStringToAnsiString kalloc8 da u True = Some (a, STATUS_SUCCESS) \<and> ansi_holds a cs"
proof -
  from RtlAnsiStringToUnicodeString_alloc [where kalloc = kalloc16, OF assms(1-4)] obtain u where
    u: "RtlAnsiStringToUnicodeString kalloc16 du s True = Some (u, STATUS_SUCCESS)"
       "unicode_holds u (map scast cs)" by blast
  from RtlUnicodeStringToAnsiString_alloc [OF u(2), of kalloc8 bb da] assms obtain a where
    a: "RtlUnicodeStringToAnsiString kalloc8 da u True = Some (a, STATUS_SUCCESS)"
       "a_length a = of_nat (length cs)" "a_max_length a = of_nat (length cs + 1)"
       "a_buf a = Some (map ucast (map scast cs :: u16 list) @ [0])" by auto
  have "ansi_holds a cs"
    using a assms(1,2) unat_of_nat_small [of "length cs"] unat_of_nat_small [of "length cs + 1"]
    by (auto simp: ansi_holds_def o_def)
  with u a(1) show ?thesis by blast
qed

theorem ansi_unicode_roundtrip_witness:
  "\<exists>u a. RtlAnsiStringToUnicodeString (\<lambda>n. Some (replicate n 7)) (unicode_of []) (ansi_of [104, 233]) True
       = Some (u, STATUS_SUCCESS) \<and> unicode_holds u (map scast [104, 233 :: u8]) \<and>
     RtlUnicodeStringToAnsiString (\<lambda>n. Some (replicate n 7)) (ansi_of []) u True = Some (a, STATUS_SUCCESS) \<and>
     ansi_holds a [104, 233]"
  by (rule ansi_unicode_roundtrip [where bw = "[7, 7, 7]" and bb = "[7, 7, 7]"])
     (simp_all add: ansi_holds_def)

text \<open>RtlGUIDFromString rejects every 38-character string, although the documented
  form of a GUID (braces, 32 hexadecimal digits and four dashes) has 38 characters.\<close>

theorem RtlGUIDFromString_rejects_38:
  assumes "unicode_holds us cs" "length cs = 38" "kalloc 39 = Some b" "length b = 39"
  shows "RtlGUIDFromString scan_hex kalloc us g = Some (g, STATUS_INVALID_PARAMETER)"
proof -
  let ?d = "\<lparr>a_length = 0, a_max_length = 0, a_buf = None\<rparr>"
  from RtlUnicodeStringToAnsiString_alloc [OF assms(1), of kalloc b ?d] assms(2-4) obtain a where
    a: "RtlUnicodeStringToAnsiString kalloc ?d us True = Some (a, STATUS_SUCCESS)" "a_length a = 38" by auto
  then show ?thesis by (simp add: RtlGUIDFromString_def)
qed

theorem RtlGUIDFromString_rejects_38_witness:
  "RtlGUIDFromString (\<lambda>_. Some 1) (\<lambda>n. Some (replicate n 0))
     (unicode_of ([123] @ replicate 8 65 @ [45] @ replicate 4 65 @ [45] @ replicate 4 65 @ [45] @
                  replicate 4 65 @ [45] @ replicate 12 65 @ [125]))
     \<lparr>data1 = 0, data2 = 0, data3 = 0, data4 = replicate 8 0\<rparr> =
   Some (\<lparr>data1 = 0, data2 = 0, data3 = 0, data4 = replicate 8 0\<rparr>, STATUS_INVALID_PARAMETER)"
  by (rule RtlGUIDFromString_rejects_38 [where b = "replicate 39 0" and
        cs = "[123] @ replicate 8 65 @ [45] @ replicate 4 65 @ [45] @ replicate 4 65 @ [45] @
              replicate 4 65 @ [45] @ replicate 12 65 @ [125]"])
     (simp_all add: unicode_holds_def)

text \<open>RtlAppendUnicodeStringToString writes at unit offset \<open>length\<close> where \<open>length\<close> counts
  bytes: when the appended text passes the size check but would end beyond half the
  buffer size counted from there, the copy runs outside the destination buffer.\<close>

theorem RtlAppendUnicodeStringToString_overrun:
  assumes "u_buf dst = Some db" "unat (u_max_length dst) = 2 * length db"
    and "unat (u_length src) + unat (u_length dst) \<le> unat (u_max_length dst)" "u_length src \<noteq> 0"
    and "length db < unat (u_length dst) + unat (u_length src) div 2"
  shows "RtlAppendUnicodeStringToString dst src = None"
proof -
  have "memcpy16 db (unat (u_length dst)) sb (unat (u_length src)) = None" for sb
    using assms(5) by (simp add: memcpy16_def blk_copy_def)
  with assms show ?thesis
    by (cases "u_buf src") (auto simp: RtlAppendUnicodeStringToString_def)
qed

theorem RtlAppendUnicodeStringToString_overrun_witness:
  "RtlAppendUnicodeStringToString
     \<lparr>u_length = 6, u_max_length = 8, u_buf = Some [65, 66, 67, 0]\<rparr> (unicode_of [68]) = None"
  by (rule RtlAppendUnicodeStringToString_overrun [where db = "[65, 66, 67, 0]"]) simp_all


subsection \<open>Parsing and printing integers\<close>

definition digit_chr :: "nat \<Rightarrow> u8" where
  "digit_chr d = (if d < 10 then of_nat d + 48 else of_nat d + 87)"

definition horner :: "nat \<Rightarrow> nat list \<Rightarrow> nat" where
  "horner b ds = foldl (\<lambda>r d. r * b + d) 0 ds"

lemma digit_chr_table:
  "\<forall>d\<in>set [0..<16]. digit_val base (ucast (digit_chr d)) (digit_chr d) = of_nat d \<and> digit_chr d \<noteq> 0 \<and>
     digit_chr d \<noteq> 32 \<and> digit_chr d \<noteq> 43 \<and> digit_chr d \<noteq> 45"
  by (simp add: digit_chr_def digit_val_def isdigit_def isxdigit_def tolower_hex_def upt_rec)

lemma digit_chr_val:
  assumes "d < 16"
  shows "digit_val base (ucast (digit_chr d)) (digit_chr d) = of_nat d" "digit_chr d \<noteq> 0"
    "digit_chr d \<noteq> 32" "digit_chr d \<noteq> 43" "digit_chr d \<noteq> 45"
  using digit_chr_table [of base] assms by auto

lemma base_ok_unat: "base_ok base \<Longrightarrow> base \<noteq> 0 \<and> 2 \<le> unat base \<and> unat base \<le> 16"
  by (auto simp: base_ok_def)

lemma of_nat_less_base: "d < unat (base :: u32) \<Longrightarrow> (of_nat d :: u32) < base"
  by (simp add: word_less_nat_alt unat_of_nat)

lemma char_digits_value:
  assumes "base_ok base" "\<forall>d\<in>set ds. d < unat base"
  shows "char_digits base (map digit_chr ds @ 0 # rest) (of_nat r) =
    Some (Some (of_nat (foldl (\<lambda>r d. r * unat base + d) r ds)))"
  using assms(2)
proof (induction ds arbitrary: r)
  case Nil
  then show ?case by simp
next
  case (Cons d ds)
  from Cons.prems base_ok_unat [OF assms(1)] have d: "d < 16" "d < unat base" by auto
  have v: "\<not> base \<le> (of_nat d :: u32)" using of_nat_less_base [OF d(2)] by (simp add: not_le)
  have "char_digits base (map digit_chr (d # ds) @ 0 # rest) (of_nat r) =
      char_digits base (map digit_chr ds @ 0 # rest) (of_nat r * base + of_nat d)"
    using d(1) v by (auto simp: digit_chr_val Let_def)
  also have "of_nat r * base + of_nat d = (of_nat (r * unat base + d) :: u32)" by simp
  also have "char_digits base (map digit_chr ds @ 0 # rest) (of_nat (r * unat base + d)) =
      Some (Some (of_nat (foldl (\<lambda>r d. r * unat base + d) (r * unat base + d) ds)))"
    using Cons.prems by (intro Cons.IH) simp
  finally show ?case by (simp only: foldl_Cons)
qed

text \<open>RtlCharToInteger computes the positional value modulo \<open>2^32\<close> of a non-empty digit
  string in base 2, 8, 10 or 16, and its two's-complement negation after a minus sign.\<close>

theorem RtlCharToInteger_value:
  assumes "base_ok base" "ds \<noteq> []" "\<forall>d\<in>set ds. d < unat base"
  shows "RtlCharToInteger (Some (map digit_chr ds @ 0 # rest)) base =
           Some (Some (of_nat (horner (unat base) ds)), STATUS_SUCCESS) \<and>
         RtlCharToInteger (Some (45 # map digit_chr ds @ 0 # rest)) base =
           Some (Some (- of_nat (horner (unat base) ds)), STATUS_SUCCESS)"
proof -
  obtain d ds' where ds: "ds = d # ds'" using assms(2) by (cases ds) auto
  have b: "base \<noteq> 0" "unat base \<le> 16" using base_ok_unat [OF assms(1)] by auto
  with assms(3) ds have d: "d < 16" by auto
  have v: "char_digits base (map digit_chr ds @ 0 # rest) 0 = Some (Some (of_nat (horner (unat base) ds)))"
    using char_digits_value [OF assms(1,3), of rest 0] by (simp add: horner_def)
  have sk: "skip_spaces (map digit_chr ds @ 0 # rest) = Some (map digit_chr ds @ 0 # rest)"
    using digit_chr_val [OF d] ds by simp
  show ?thesis
    using v sk b assms(1) digit_chr_val [OF d] ds
    by (simp add: RtlCharToInteger_def rd_def)
qed

theorem RtlCharToInteger_value_witness:
  "RtlCharToInteger (Some (map digit_chr [1, 15, 0] @ 0 # [9])) 16 =
     Some (Some (of_nat (horner (unat (16 :: u32)) [1, 15, 0])), STATUS_SUCCESS) \<and>
   RtlCharToInteger (Some (45 # map digit_chr [1, 15, 0] @ 0 # [9])) 16 =
     Some (Some (- of_nat (horner (unat (16 :: u32)) [1, 15, 0])), STATUS_SUCCESS)"
  by (rule RtlCharToInteger_value) (simp_all add: base_ok_def)

text \<open>The value of a digit sequence whose first element is the least significant.\<close>

definition lsd_value :: "nat \<Rightarrow> nat list \<Rightarrow> nat \<Rightarrow> nat" where
  "lsd_value b ds rest = foldr (\<lambda>d r. d + b * r) ds rest"

lemma lsd_value_ge: "lsd_value b ds rest \<ge> b ^ length ds * rest"
  by (induction ds) (auto simp: lsd_value_def mult.assoc intro: order_trans trans_le_add2)

lemma print_loop_digits:
  assumes "base_ok base" "i + m \<le> length b"
  shows "\<exists>ds rest. print_loop base (Some b) i m v =
      Some (Some (take i b @ map (digit_char \<circ> of_nat) ds @ drop (i + length ds) b), i + length ds, rest) \<and>
    length ds \<le> m \<and> (rest \<noteq> 0 \<longrightarrow> length ds = m) \<and> (\<forall>d\<in>set ds. d < unat base) \<and>
    unat v = lsd_value (unat base) ds (unat rest)"
  using assms(2)
proof (induction m arbitrary: i b v)
  case 0
  then show ?case by (intro exI [of _ "[]"] exI [of _ v]) (simp add: lsd_value_def)
next
  case (Suc m)
  show ?case
  proof (cases "v = 0")
    case True
    then show ?thesis by (intro exI [of _ "[]"] exI [of _ v]) (simp add: lsd_value_def)
  next
    case False
    let ?d = "unat (v mod base)"
    let ?b = "b[i := digit_char (v mod base)]"
    from Suc.prems have "Suc i + m \<le> length ?b" by simp
    from Suc.IH [OF this, of "v div base"] obtain ds rest where
      r: "print_loop base (Some ?b) (Suc i) m (v div base) =
            Some (Some (take (Suc i) ?b @ map (digit_char \<circ> of_nat) ds @ drop (Suc i + length ds) ?b),
                  Suc i + length ds, rest)"
      and p: "length ds \<le> m" "rest \<noteq> 0 \<longrightarrow> length ds = m" "\<forall>d\<in>set ds. d < unat base"
        "unat (v div base) = lsd_value (unat base) ds (unat rest)" by blast
    have v: "unat v = ?d + unat base * unat (v div base)"
      by (simp add: unat_div_distrib unat_mod_distrib mult.commute)
    have d: "?d < unat base"
      using base_ok_unat [OF assms(1)] by (simp add: unat_mod_distrib)
    have "take (Suc i) ?b = take i b @ [digit_char (v mod base)]"
      using Suc.prems by (simp add: take_Suc_conv_app_nth)
    with r Suc.prems False have "print_loop base (Some b) i (Suc m) v =
        Some (Some (take i b @ map (digit_char \<circ> of_nat) (?d # ds) @ drop (i + length (?d # ds)) b),
              i + length (?d # ds), rest)"
      by (simp add: wr_def)
    with p v d show ?thesis
      by (intro exI [of _ "?d # ds"] exI [of _ rest]) (auto simp: lsd_value_def)
  qed
qed

text \<open>RtlIntegerToUnicodeString never writes outside a buffer of the announced size, and
  with room for 32 units it always succeeds; the buffer then starts with the digits of the
  value, the least significant first, so the text reads backwards (and is empty for 0).\<close>

theorem RtlIntegerToUnicodeString_digits:
  assumes "base_ok base" "u_buf us = Some b" "unat (u_max_length us) div 2 \<le> length b"
    and "64 \<le> unat (u_max_length us)"
  shows "\<exists>ds. RtlIntegerToUnicodeString v base us =
      Some (us\<lparr>u_length := of_nat (2 * length ds),
               u_buf := Some (map (digit_char \<circ> of_nat) ds @ drop (length ds) b)\<rparr>, STATUS_SUCCESS) \<and>
    (\<forall>d\<in>set ds. d < unat base) \<and> unat v = lsd_value (unat base) ds 0"
proof -
  let ?m = "unat (u_max_length us) div 2"
  from print_loop_digits [OF assms(1), of 0 ?m b v] assms(3) obtain ds rest where
    p: "print_loop base (Some b) 0 ?m v =
          Some (Some (map (digit_char \<circ> of_nat) ds @ drop (length ds) b), length ds, rest)"
    and r: "rest \<noteq> 0 \<longrightarrow> length ds = ?m" "\<forall>d\<in>set ds. d < unat base"
      "unat v = lsd_value (unat base) ds (unat rest)" by auto
  have "rest = 0"
  proof (rule ccontr)
    assume nz: "rest \<noteq> 0"
    with r have "32 \<le> length ds" using assms(4) by auto
    then have "(2 :: nat) ^ 32 \<le> 2 ^ length ds" by (rule power_increasing) simp
    also have "\<dots> \<le> unat base ^ length ds"
      using base_ok_unat [OF assms(1)] by (intro power_mono) auto
    also have "\<dots> \<le> unat base ^ length ds * unat rest"
      using nz by (simp add: Suc_le_eq unat_gt_0)
    also have "\<dots> \<le> unat v" using r(3) lsd_value_ge by simp
    also have "\<dots> < 2 ^ 32" using unsigned_less [of v] by simp
    finally show False by simp
  qed
  with p r assms(1,2) base_ok_unat [OF assms(1)] show ?thesis
    by (intro exI [of _ ds]) (simp add: RtlIntegerToUnicodeString_def mult.commute)
qed

theorem RtlIntegerToUnicodeString_digits_witness:
  "\<exists>ds. RtlIntegerToUnicodeString 12 10 \<lparr>u_length = 0, u_max_length = 64, u_buf = Some (replicate 32 0)\<rparr> =
      Some (\<lparr>u_length = 0, u_max_length = 64, u_buf = Some (replicate 32 0)\<rparr>
             \<lparr>u_length := of_nat (2 * length ds),
              u_buf := Some (map (digit_char \<circ> of_nat) ds @ drop (length ds) (replicate 32 0))\<rparr>, STATUS_SUCCESS) \<and>
    (\<forall>d\<in>set ds. d < unat (10 :: u32)) \<and> unat (12 :: u32) = lsd_value (unat (10 :: u32)) ds 0"
  by (rule RtlIntegerToUnicodeString_digits) (simp_all add: base_ok_def)

end
