(* ===== verification/Dispatcher.thy ===== *)
theory Dispatcher
  imports Nt_List
begin

text \<open>
  Dispatcher objects of \<^verbatim>\<open>ntoskernel.c\<close>: events, mutexes, semaphores and thread objects, and
  KeWaitForMultipleObjects.  Every operation that the source performs under
  \<^verbatim>\<open>dispatcher_lock\<close> is one function on the state; a wait is two such functions, the
  part up to going to sleep and the part after \<^verbatim>\<open>wait_condition\<close> returns, so that the
  step relation \<open>dstep\<close> interleaves waits with the operations of other threads.
  KeResetEvent and KeClearEvent do not take the lock: they may write an event at any moment,
  also while another processor is inside a locked section.  The functions with suffix
  \<open>_at\<close> therefore take, for every visit of an object, the \<open>race\<close> that happens there, and
  \<open>dstep\<close> allows all of them; without races they are the sequential functions.

  The count of a mutex is a \<^verbatim>\<open>LONG\<close> and wraps.  The two assertions on a mutex in grab_object
  print a message in debug builds and change nothing; they contradict each other, so one
  of them fails at every visit.  \<open>holders\<close> is a history variable, not a field of the code: the
  threads that were granted the mutex and have not released it, once for each grant.

  The wait blocks live on the stack of the waiting call (or in memory of the caller): a
  block is named by its thread and its index, and belongs to an entry of \<open>waiters\<close> while
  the call has not returned.  Waking a block whose call has returned, and unlinking a
  block that is not linked, are memory errors and give \<open>None\<close>.
\<close>

type_synonym oid = nat
type_synonym tid = nat
type_synonym block = "tid \<times> nat"

datatype dh_type = NotificationObject | SynchronizationObject | MutexObject | SemaphoreObject | ThreadObject

datatype wait_type = WaitAll | WaitAny

text \<open>The dispatcher header with the fields of the mutex (\<open>owner_thread\<close>) and the
  semaphore (\<open>limit\<close>) that embed it.\<close>

record nt_object =
  dh_kind :: dh_type
  signal_state :: int
  wait_blocks :: "block list"
  owner_thread :: "tid option"
  limit :: int
  holders :: "tid list"

record wait_block =
  wb_thread :: bool
  wb_object :: "oid option"

record waiter =
  wt_type :: wait_type
  wt_objects :: "oid list"
  wt_blocks :: "wait_block list"
  wt_done :: bool
  wt_count :: nat

record dstate =
  objs :: "oid \<Rightarrow> nt_object"
  waiters :: "tid \<Rightarrow> waiter option"

text \<open>32-bit wrap-around of \<^verbatim>\<open>LONG\<close> sums.\<close>

definition long_add :: "int \<Rightarrow> int \<Rightarrow> int" where
  "long_add a b = sint (word_of_int (a + b) :: u32)"

section \<open>Initialisation\<close>

definition initialize_object :: "dh_type \<Rightarrow> int \<Rightarrow> nt_object" where
  "initialize_object type state =
     \<lparr>dh_kind = type, signal_state = state, wait_blocks = [], owner_thread = None, limit = 0, holders = []\<rparr>"

definition KeInitializeEvent :: "dh_type \<Rightarrow> bool \<Rightarrow> nt_object" where
  "KeInitializeEvent type state = initialize_object type (if state then 1 else 0)"

definition KeInitializeMutex :: nt_object where
  "KeInitializeMutex = (initialize_object MutexObject 1)\<lparr>owner_thread := None\<rparr>"

definition KeInitializeSemaphore :: "int \<Rightarrow> int \<Rightarrow> nt_object" where
  "KeInitializeSemaphore count lim = (initialize_object SemaphoreObject count)\<lparr>limit := lim\<rparr>"

section \<open>Grabbing and signalling\<close>

definition grab_object :: "nt_object \<Rightarrow> tid \<Rightarrow> bool \<Rightarrow> nt_object \<times> bool" where
  "grab_object dh thread grab =
     (if dh_kind dh = MutexObject then
        if (signal_state dh = 1 \<and> owner_thread dh = None) \<or> owner_thread dh = Some thread
        then (if grab then dh\<lparr>signal_state := long_add (signal_state dh) (- 1), owner_thread := Some thread, holders := thread # holders dh\<rparr> else dh, True)
        else (dh, False)
      else if signal_state dh > 0 then
        (if grab \<and> (dh_kind dh = SynchronizationObject \<or> dh_kind dh = SemaphoreObject)
         then dh\<lparr>signal_state := signal_state dh - 1\<rparr> else dh, True)
      else (dh, False))"

text \<open>An event that is reset by another processor while grab_object looks at it: before its test, or between the
  test and the decrement.  A reset at any other moment of a locked section acts like one before the next visit of the event, or after the section.\<close>

datatype race = Quiet | Reset_before | Reset_between

definition is_event :: "nt_object \<Rightarrow> bool" where
  "is_event dh \<longleftrightarrow> dh_kind dh = NotificationObject \<or> dh_kind dh = SynchronizationObject \<or> dh_kind dh = ThreadObject"

definition grab_object_at :: "race \<Rightarrow> nt_object \<Rightarrow> tid \<Rightarrow> bool \<Rightarrow> nt_object \<times> bool" where
  "grab_object_at q dh thread grab =
     (if q = Reset_before \<and> is_event dh then grab_object (dh\<lparr>signal_state := 0\<rparr>) thread grab
      else if q = Reset_between \<and> is_event dh \<and> signal_state dh > 0
      then (if grab \<and> dh_kind dh = SynchronizationObject then dh\<lparr>signal_state := - 1\<rparr> else dh\<lparr>signal_state := 0\<rparr>, True)
      else grab_object dh thread grab)"

lemma grab_object_quiet [simp]: "grab_object_at Quiet dh t g = grab_object dh t g"
  by (simp add: grab_object_at_def)

lemma grab_object_at_other: "\<not> is_event dh \<Longrightarrow> grab_object_at q dh t g = grab_object dh t g"
  by (simp add: grab_object_at_def)

text \<open>The loop of object_signaled over the wait list: every waiter tries to grab; those that
  succeed are unlinked.  Result: the object, the blocks that stay, the blocks to wake.\<close>

fun scan_waiters ::
  "('o \<Rightarrow> tid \<Rightarrow> 'o \<times> bool) \<Rightarrow> 'o \<Rightarrow> block list \<Rightarrow> 'o \<times> block list \<times> block list" where
  "scan_waiters grab dh [] = (dh, [], [])"
| "scan_waiters grab dh (wb # wbs) =
     (case grab dh (fst wb) of
        (dh1, ok) \<Rightarrow>
          (case scan_waiters grab dh1 wbs of
             (dh2, kept, woken) \<Rightarrow>
               if ok then (dh2, kept, wb # woken) else (dh2, wb # kept, woken)))"

fun wake_all :: "oid \<Rightarrow> block list \<Rightarrow> (tid \<Rightarrow> waiter option) \<Rightarrow> (tid \<Rightarrow> waiter option) option" where
  "wake_all ob [] W = Some W"
| "wake_all ob ((t, i) # bs) W =
     (case W t of
        None \<Rightarrow> None
      | Some w \<Rightarrow>
          (if i < length (wt_blocks w)
           then wake_all ob bs
             (W(t \<mapsto> w\<lparr>wt_blocks := (wt_blocks w)[i := (wt_blocks w ! i)\<lparr>wb_object := Some ob\<rparr>],
                       wt_done := True\<rparr>))
           else None))"

definition object_signaled :: "oid \<Rightarrow> dstate \<Rightarrow> dstate option" where
  "object_signaled ob s =
     (case scan_waiters (\<lambda>dh t. grab_object dh t True) (objs s ob) (wait_blocks (objs s ob)) of
        (dh, kept, woken) \<Rightarrow>
          do { W \<leftarrow> wake_all ob woken (waiters s);
               Some (s\<lparr>objs := (objs s)(ob := dh\<lparr>wait_blocks := kept\<rparr>), waiters := W\<rparr>) })"

text \<open>With races: one for each waiter that is visited.\<close>

definition grab_next :: "nt_object \<times> race list \<Rightarrow> tid \<Rightarrow> (nt_object \<times> race list) \<times> bool" where
  "grab_next x t = (case grab_object_at (case snd x of [] \<Rightarrow> Quiet | q # _ \<Rightarrow> q) (fst x) t True of (dh, ok) \<Rightarrow> ((dh, tl (snd x)), ok))"

definition object_signaled_at :: "race list \<Rightarrow> oid \<Rightarrow> dstate \<Rightarrow> dstate option" where
  "object_signaled_at qs ob s =
     (case scan_waiters grab_next (objs s ob, qs) (wait_blocks (objs s ob)) of
        ((dh, _), kept, woken) \<Rightarrow>
          do { W \<leftarrow> wake_all ob woken (waiters s);
               Some (s\<lparr>objs := (objs s)(ob := dh\<lparr>wait_blocks := kept\<rparr>), waiters := W\<rparr>) })"

definition KeSetEvent :: "oid \<Rightarrow> dstate \<Rightarrow> (dstate \<times> int) option" where
  "KeSetEvent ob s =
     (let old = signal_state (objs s ob);
          s1 = s\<lparr>objs := (objs s)(ob := (objs s ob)\<lparr>signal_state := 1\<rparr>)\<rparr> in
      do { s2 \<leftarrow> (if old = 0 then object_signaled ob s1 else Some s1); Some (s2, old) })"

definition KeSetEvent_at :: "race list \<Rightarrow> oid \<Rightarrow> dstate \<Rightarrow> (dstate \<times> int) option" where
  "KeSetEvent_at qs ob s =
     (let old = signal_state (objs s ob);
          s1 = s\<lparr>objs := (objs s)(ob := (objs s ob)\<lparr>signal_state := 1\<rparr>)\<rparr> in
      do { s2 \<leftarrow> (if old = 0 then object_signaled_at qs ob s1 else Some s1); Some (s2, old) })"

definition KeClearEvent :: "oid \<Rightarrow> dstate \<Rightarrow> dstate" where
  "KeClearEvent ob s = s\<lparr>objs := (objs s)(ob := (objs s ob)\<lparr>signal_state := 0\<rparr>)\<rparr>"

definition KeResetEvent :: "oid \<Rightarrow> dstate \<Rightarrow> dstate \<times> int" where
  "KeResetEvent ob s = (KeClearEvent ob s, signal_state (objs s ob))"

definition KeReadStateEvent :: "oid \<Rightarrow> dstate \<Rightarrow> int" where
  "KeReadStateEvent ob s = signal_state (objs s ob)"

text \<open>The result is the previous state, or the status for a thread that does not own the mutex.\<close>

definition KeReleaseMutex :: "oid \<Rightarrow> tid \<Rightarrow> dstate \<Rightarrow> (dstate \<times> (NTSTATUS + int)) option" where
  "KeReleaseMutex ob thread s =
     (let m = objs s ob in
      if owner_thread m = Some thread \<and> signal_state m \<le> 0 then
        (let ret = signal_state m; m1 = m\<lparr>signal_state := signal_state m + 1, holders := remove1 thread (holders m)\<rparr> in
         if ret = 0 then
           do { s2 \<leftarrow> object_signaled ob (s\<lparr>objs := (objs s)(ob := m1\<lparr>owner_thread := None\<rparr>)\<rparr>);
                Some (s2, Inr ret) }
         else Some (s\<lparr>objs := (objs s)(ob := m1)\<rparr>, Inr ret))
      else Some (s, Inl STATUS_MUTANT_NOT_OWNED))"

definition KeReleaseSemaphore :: "oid \<Rightarrow> int \<Rightarrow> dstate \<Rightarrow> (dstate \<times> int) option" where
  "KeReleaseSemaphore ob adjustment s =
     (let m = objs s ob; ret = signal_state m;
          m1 = (if long_add (signal_state m) adjustment \<le> limit m
                then m\<lparr>signal_state := long_add (signal_state m) adjustment\<rparr>
                else m\<lparr>signal_state := limit m\<rparr>);
          s1 = s\<lparr>objs := (objs s)(ob := m1)\<rparr> in
      do { s2 \<leftarrow> (if signal_state m1 > 0 then object_signaled ob s1 else Some s1); Some (s2, ret) })"

section \<open>Waiting\<close>

text \<open>First loop: in a WaitAny, stop at the first object that can be grabbed (\<open>Inl\<close> its
  index); otherwise count the objects that are not available (\<open>Inr\<close>).\<close>

fun wait_first :: "(nat \<Rightarrow> race) \<Rightarrow> wait_type \<Rightarrow> tid \<Rightarrow> oid list \<Rightarrow> nat \<Rightarrow> nat \<Rightarrow> (oid \<Rightarrow> nt_object) \<Rightarrow>
    (oid \<Rightarrow> nt_object) \<times> (nat + nat)" where
  "wait_first q wt t [] i c ob = (ob, Inr c)"
| "wait_first q wt t (x # xs) i c ob =
     (case grab_object_at (q i) (ob x) t (wt = WaitAny) of
        (dh, ok) \<Rightarrow>
          if ok then if wt = WaitAny then (ob(x := dh), Inl i)
                     else wait_first q wt t xs (Suc i) c (ob(x := dh))
          else wait_first q wt t xs (Suc i) (Suc c) (ob(x := dh)))"

text \<open>Second loop: grab what is available, queue a wait block on the rest.\<close>

fun wait_second :: "(nat \<Rightarrow> race) \<Rightarrow> tid \<Rightarrow> oid list \<Rightarrow> nat \<Rightarrow> (oid \<Rightarrow> nt_object) \<Rightarrow>
    (oid \<Rightarrow> nt_object) \<times> wait_block list" where
  "wait_second q t [] i ob = (ob, [])"
| "wait_second q t (x # xs) i ob =
     (case grab_object_at (q i) (ob x) t True of
        (dh, ok) \<Rightarrow>
          (let dh' = (if ok then dh else dh\<lparr>wait_blocks := wait_blocks dh @ [(t, i)]\<rparr>) in
           case wait_second q t xs (Suc i) (ob(x := dh')) of
             (ob', bs) \<Rightarrow> (ob', \<lparr>wb_thread = \<not> ok, wb_object = None\<rparr> # bs)))"

definition MAX_WAIT_OBJECTS :: nat where "MAX_WAIT_OBJECTS = 64"
definition THREAD_WAIT_OBJECTS :: nat where "THREAD_WAIT_OBJECTS = 3"

text \<open>KeWaitForMultipleObjects up to the first sleep.  \<open>timeout\<close> is \<open>None\<close> for a null
  pointer; \<open>wba\<close> says whether the caller passed its own wait blocks; \<open>raised\<close> whether the
  IRQL is at least DISPATCH_LEVEL.  The status is \<open>None\<close> when the thread goes to sleep.\<close>

definition wait_begin_at :: "(nat \<Rightarrow> race) \<Rightarrow> (nat \<Rightarrow> race) \<Rightarrow> tid \<Rightarrow> oid list \<Rightarrow> wait_type \<Rightarrow> int option \<Rightarrow> bool \<Rightarrow> bool \<Rightarrow> dstate \<Rightarrow>
    dstate \<times> NTSTATUS option" where
  "wait_begin_at q1 q2 t os wt timeout wba raised s =
     (if length os > MAX_WAIT_OBJECTS \<or> (length os > THREAD_WAIT_OBJECTS \<and> \<not> wba)
      then (s, Some STATUS_INVALID_PARAMETER)
      else case wait_first q1 wt t os 0 0 (objs s) of
        (ob1, Inl i) \<Rightarrow> (s\<lparr>objs := ob1\<rparr>, Some (STATUS_WAIT_0 + of_nat i))
      | (ob1, Inr wait_count) \<Rightarrow>
          if timeout = Some 0 \<and> wait_count \<noteq> 0 then (s\<lparr>objs := ob1\<rparr>, Some STATUS_TIMEOUT)
          else case wait_second q2 t os 0 ob1 of
            (ob2, bs) \<Rightarrow>
              if wait_count = 0 then (s\<lparr>objs := ob2\<rparr>, Some STATUS_SUCCESS)
              else if raised then (s\<lparr>objs := ob2\<rparr>, Some STATUS_INVALID_PARAMETER)
              else (s\<lparr>objs := ob2, waiters := (waiters s)(t \<mapsto>
                       \<lparr>wt_type = wt, wt_objects = os, wt_blocks = bs, wt_done = False,
                        wt_count = wait_count\<rparr>)\<rparr>, None))"

definition wait_begin :: "tid \<Rightarrow> oid list \<Rightarrow> wait_type \<Rightarrow> int option \<Rightarrow> bool \<Rightarrow> bool \<Rightarrow> dstate \<Rightarrow>
    dstate \<times> NTSTATUS option" where
  "wait_begin = wait_begin_at (\<lambda>_. Quiet) (\<lambda>_. Quiet)"

text \<open>Unlinking the wait blocks that a predicate selects.\<close>

fun remove_blocks :: "tid \<Rightarrow> (nat \<Rightarrow> wait_block \<Rightarrow> bool) \<Rightarrow> (oid \<times> wait_block) list \<Rightarrow> nat \<Rightarrow>
    (oid \<Rightarrow> nt_object) \<Rightarrow> (oid \<Rightarrow> nt_object) option" where
  "remove_blocks t sel [] i ob = Some ob"
| "remove_blocks t sel ((x, b) # r) i ob =
     (if sel i b
      then if (t, i) \<in> set (wait_blocks (ob x))
           then remove_blocks t sel r (Suc i)
                  (ob(x := (ob x)\<lparr>wait_blocks := remove1 (t, i) (wait_blocks (ob x))\<rparr>))
           else None
      else remove_blocks t sel r (Suc i) ob)"

text \<open>The loop over the wait blocks after a wake-up: \<open>Inl i\<close> when a WaitAny is satisfied by
  block \<open>i\<close>, otherwise \<open>Inr\<close> the remaining wait count.\<close>

fun scan_blocks :: "wait_type \<Rightarrow> wait_block list \<Rightarrow> nat \<Rightarrow> nat \<Rightarrow> nat + nat" where
  "scan_blocks wt [] i c = Inr c"
| "scan_blocks wt (b # bs) i c =
     (if c = 0 then Inr c
      else if \<not> wb_thread b \<or> wb_object b = None then scan_blocks wt bs (Suc i) c
      else if wt = WaitAny then Inl i
      else scan_blocks wt bs (Suc i) (c - 1))"

text \<open>One round of the loop after \<^verbatim>\<open>wait_condition\<close> returned \<open>res\<close>; the status is \<open>None\<close> when
  the thread sleeps again.\<close>

definition wait_resume :: "tid \<Rightarrow> int \<Rightarrow> dstate \<Rightarrow> (dstate \<times> NTSTATUS option) option" where
  "wait_resume t res s =
     (case waiters s t of
        None \<Rightarrow> None
      | Some w \<Rightarrow>
          if \<not> wt_done w then
            do { ob \<leftarrow> remove_blocks t (\<lambda>_ b. wb_thread b) (zip (wt_objects w) (wt_blocks w)) 0 (objs s);
                 Some (s\<lparr>objs := ob, waiters := (waiters s)(t := None)\<rparr>,
                       Some (if res < 0 then STATUS_ALERTED else STATUS_TIMEOUT)) }
          else case scan_blocks (wt_type w) (wt_blocks w) 0 (wt_count w) of
            Inl i \<Rightarrow>
              do { ob \<leftarrow> remove_blocks t (\<lambda>j b. i < j \<and> wb_thread b \<and> wb_object b = None)
                         (zip (wt_objects w) (wt_blocks w)) 0 (objs s);
                   Some (s\<lparr>objs := ob, waiters := (waiters s)(t := None)\<rparr>,
                         Some (STATUS_WAIT_0 + of_nat i)) }
          | Inr c \<Rightarrow>
              if c = 0 then Some (s\<lparr>waiters := (waiters s)(t := None)\<rparr>, Some STATUS_SUCCESS)
              else Some (s\<lparr>waiters := (waiters s)(t \<mapsto> w\<lparr>wt_done := False, wt_count := c\<rparr>)\<rparr>, None))"

definition KeWaitForSingleObject :: "tid \<Rightarrow> oid \<Rightarrow> int option \<Rightarrow> bool \<Rightarrow> dstate \<Rightarrow> dstate \<times> NTSTATUS option" where
  "KeWaitForSingleObject t ob timeout raised s = wait_begin t [ob] WaitAny timeout False raised s"

section \<open>Interleavings\<close>

text \<open>Every locked section with any races in it, and resets between the sections.  A driver releases a semaphore within the range of its
  \<^verbatim>\<open>LONG\<close>, and no thread holds a mutex \<^verbatim>\<open>2^31\<close> times when it releases it.\<close>

inductive dstep :: "dstate \<Rightarrow> dstate \<Rightarrow> bool" where
  set_event: "is_event (objs s ob) \<Longrightarrow> KeSetEvent_at qs ob s = Some (s', r) \<Longrightarrow> dstep s s'"
| reset_event: "is_event (objs s ob) \<Longrightarrow> KeResetEvent ob s = (s', r) \<Longrightarrow> dstep s s'"
| release_mutex: "dh_kind (objs s ob) = MutexObject \<Longrightarrow> length (holders (objs s ob)) < 2 ^ 31 \<Longrightarrow>
    KeReleaseMutex ob t s = Some (s', r) \<Longrightarrow> dstep s s'"
| release_semaphore:
    "dh_kind (objs s ob) = SemaphoreObject \<Longrightarrow> 0 \<le> adj \<Longrightarrow> signal_state (objs s ob) + adj < 2 ^ 31 \<Longrightarrow>
     KeReleaseSemaphore ob adj s = Some (s', r) \<Longrightarrow> dstep s s'"
| begin_wait: "waiters s t = None \<Longrightarrow> wait_begin_at q1 q2 t os wt timeout wba raised s = (s', r) \<Longrightarrow> dstep s s'"
| resume_wait: "wait_resume t res s = Some (s', r) \<Longrightarrow> dstep s s'"

inductive dreachable :: "dstate \<Rightarrow> dstate \<Rightarrow> bool" for s0 where
  start: "dreachable s0 s0"
| step: "dreachable s0 s \<Longrightarrow> dstep s s' \<Longrightarrow> dreachable s0 s'"


section \<open>Invariant of dispatcher objects\<close>

text \<open>A mutex has been granted to at most one thread, the owner, and its count says how often.  Events have no invariant: a reset may hit
  them anywhere.\<close>

definition mutex_ok :: "nt_object \<Rightarrow> bool" where
  "mutex_ok m \<longleftrightarrow> signal_state m = long_add 1 (- int (length (holders m))) \<and> set (holders m) = set_option (owner_thread m)"

definition dh_core :: "nt_object \<Rightarrow> bool" where
  "dh_core dh \<longleftrightarrow>
     (case dh_kind dh of
        MutexObject \<Rightarrow> mutex_ok dh
      | SemaphoreObject \<Rightarrow> 0 \<le> signal_state dh \<and> signal_state dh \<le> limit dh
      | _ \<Rightarrow> True)"

definition dh_blocked :: "nt_object \<Rightarrow> bool" where
  "dh_blocked dh \<longleftrightarrow>
     (case dh_kind dh of MutexObject \<Rightarrow> owner_thread dh \<noteq> None | SemaphoreObject \<Rightarrow> signal_state dh \<le> 0 | _ \<Rightarrow> True)"

definition obj_inv :: "nt_object \<Rightarrow> bool" where
  "obj_inv dh \<longleftrightarrow> dh_core dh \<and> (wait_blocks dh \<noteq> [] \<longrightarrow> dh_blocked dh)"

lemmas dh_defs = dh_core_def dh_blocked_def obj_inv_def

lemma dh_core_blocks [simp]: "dh_core (dh\<lparr>wait_blocks := b\<rparr>) = dh_core dh"
  by (cases "dh_kind dh") (simp_all add: dh_core_def mutex_ok_def)

lemma dh_blocked_blocks [simp]: "dh_blocked (dh\<lparr>wait_blocks := b\<rparr>) = dh_blocked dh"
  by (cases "dh_kind dh") (simp_all add: dh_blocked_def)

lemma event_inv: "is_event dh \<Longrightarrow> obj_inv dh"
  by (auto simp: dh_defs is_event_def)

lemma long_add_add: "long_add (long_add a b) c = long_add a (b + c)"
  by (simp add: long_add_def add.assoc)

lemma long_add_small: "- (2 ^ 31) \<le> a + b \<Longrightarrow> a + b < 2 ^ 31 \<Longrightarrow> long_add a b = a + b"
  unfolding long_add_def by (simp add: signed_of_int signed_take_bit_int_eq_self del: of_int_add)

lemma mutex_grab:
  assumes "mutex_ok m" "owner_thread m = None \<or> owner_thread m = Some t" "x = long_add (signal_state m) (- 1)"
  shows "mutex_ok (m\<lparr>signal_state := x, owner_thread := Some t, holders := t # holders m\<rparr>)"
proof -
  have "x = long_add 1 (- int (length (t # holders m)))" using assms(1,3) by (simp add: mutex_ok_def long_add_add algebra_simps)
  then show ?thesis using assms(1,2) by (auto simp: mutex_ok_def)
qed

lemma grab_core: "dh_core dh \<Longrightarrow> grab_object dh t g = (dh', ok) \<Longrightarrow> dh_core dh'"
  by (cases "dh_kind dh") (auto simp: dh_core_def grab_object_def split: if_splits intro!: mutex_grab)

lemma grab_blocks: "grab_object dh t g = (dh', ok) \<Longrightarrow> wait_blocks dh' = wait_blocks dh \<and> dh_kind dh' = dh_kind dh"
  by (auto simp: grab_object_def split: if_splits)

lemma grab_blocked: "dh_blocked dh \<Longrightarrow> grab_object dh t g = (dh', ok) \<Longrightarrow> dh_blocked dh'"
  by (cases "dh_kind dh") (auto simp: dh_blocked_def grab_object_def split: if_splits)

lemma mutex_free: "mutex_ok m \<Longrightarrow> owner_thread m = None \<Longrightarrow> signal_state m = 1"
  by (simp add: mutex_ok_def long_add_small)

lemma grab_fail: "dh_core dh \<Longrightarrow> grab_object dh t g = (dh', False) \<Longrightarrow> dh' = dh \<and> dh_blocked dh"
  by (cases "dh_kind dh"; cases "owner_thread dh") (auto simp: dh_defs grab_object_def mutex_free split: if_splits)

lemma grab_at_event: "is_event dh \<Longrightarrow> grab_object_at q dh t g = (dh', ok) \<Longrightarrow> is_event dh'"
  using grab_blocks [of dh t g dh' ok] grab_blocks [of "dh\<lparr>signal_state := 0\<rparr>" t g dh' ok]
  by (auto simp: grab_object_at_def is_event_def split: if_splits)

lemma grab_at_blocks: "grab_object_at q dh t g = (dh', ok) \<Longrightarrow> wait_blocks dh' = wait_blocks dh \<and> dh_kind dh' = dh_kind dh"
  using grab_blocks [of dh t g dh' ok] grab_blocks [of "dh\<lparr>signal_state := 0\<rparr>" t g dh' ok]
  by (auto simp: grab_object_at_def split: if_splits)

lemma event_core: "is_event dh \<Longrightarrow> dh_core dh \<and> dh_blocked dh"
  by (auto simp: dh_defs is_event_def)

text \<open>The laws of grabbing hold with a race as well, since races touch events only.\<close>

lemma grab_at_core: "dh_core dh \<Longrightarrow> grab_object_at q dh t g = (dh', ok) \<Longrightarrow> dh_core dh'"
  by (cases "is_event dh") (auto dest: grab_at_event event_core grab_core simp: grab_object_at_other)

lemma grab_at_blocked: "dh_blocked dh \<Longrightarrow> grab_object_at q dh t g = (dh', ok) \<Longrightarrow> dh_blocked dh'"
  by (cases "is_event dh") (auto dest: grab_at_event event_core grab_blocked simp: grab_object_at_other)

lemma grab_at_fail: "dh_core dh \<Longrightarrow> grab_object_at q dh t g = (dh', False) \<Longrightarrow> dh_blocked dh'"
  by (cases "is_event dh") (auto dest: grab_at_event event_core grab_fail simp: grab_object_at_other)

lemma grab_at_inv: "obj_inv dh \<Longrightarrow> grab_object_at q dh t g = (dh', ok) \<Longrightarrow> obj_inv dh'"
  using grab_at_blocks [of q dh t g dh' ok] by (auto simp: obj_inv_def intro: grab_at_core grab_at_blocked)

text \<open>What the wait-list scan needs from grabbing, and what it then guarantees: the
  object stays consistent, no block is lost, and blocks stay only on a blocked object.\<close>

locale signal_scan =
  fixes grab :: "'o \<Rightarrow> tid \<Rightarrow> 'o \<times> bool" and core :: "'o \<Rightarrow> bool" and blocked :: "'o \<Rightarrow> bool"
  assumes core_keep: "core dh \<Longrightarrow> grab dh t = (dh', ok) \<Longrightarrow> core dh'"
    and blocked_keep: "blocked dh \<Longrightarrow> grab dh t = (dh', ok) \<Longrightarrow> blocked dh'"
    and fail_blocked: "core dh \<Longrightarrow> grab dh t = (dh', False) \<Longrightarrow> blocked dh'"
begin

lemma scan_blocked_keep: "blocked dh \<Longrightarrow> scan_waiters grab dh ws = (dh', k, w) \<Longrightarrow> blocked dh'"
  by (induction ws arbitrary: dh dh' k w)
     (auto split: prod.splits if_splits dest: blocked_keep)

lemma scan_core:
  "core dh \<Longrightarrow> scan_waiters grab dh ws = (dh', k, w) \<Longrightarrow> core dh' \<and> (k \<noteq> [] \<longrightarrow> blocked dh')"
proof (induction ws arbitrary: dh dh' k w)
  case Nil
  then show ?case by simp
next
  case (Cons b bs)
  obtain dh1 ok where g: "grab dh (fst b) = (dh1, ok)" by (cases "grab dh (fst b)")
  obtain dh2 k2 w2 where sc: "scan_waiters grab dh1 bs = (dh2, k2, w2)"
    by (cases "scan_waiters grab dh1 bs") auto
  have c1: "core dh1" using core_keep [OF Cons.prems(1) g] .
  note ih = Cons.IH [OF c1 sc]
  show ?case
  proof (cases ok)
    case True
    with ih g sc Cons.prems show ?thesis by auto
  next
    case False
    with g have "blocked dh1" using fail_blocked [OF Cons.prems(1)] by simp
    from scan_blocked_keep [OF this sc] ih g sc False Cons.prems show ?thesis by auto
  qed
qed

lemma scan_partition:
  "scan_waiters grab dh ws = (dh', k, w) \<Longrightarrow> set ws = set k \<union> set w \<and> length ws = length k + length w"
  by (induction ws arbitrary: dh dh' k w) (auto split: prod.splits if_splits)

end

interpretation grab_scan: signal_scan "\<lambda>dh t. grab_object dh t True" dh_core dh_blocked
  by unfold_locales (auto dest: grab_core grab_blocked grab_fail)

interpretation race_scan: signal_scan grab_next "\<lambda>x. dh_core (fst x)" "\<lambda>x. dh_blocked (fst x)"
  by unfold_locales (auto simp: grab_next_def split: prod.splits dest: grab_at_core grab_at_blocked grab_at_fail)

definition dinv :: "dstate \<Rightarrow> bool" where
  "dinv s \<longleftrightarrow> (\<forall>x. obj_inv (objs s x))"

lemma dinv_upd: "dinv s \<Longrightarrow> obj_inv m \<Longrightarrow> dinv (s\<lparr>objs := (objs s)(ob := m)\<rparr>)"
  by (simp add: dinv_def)

lemma object_signaled_inv:
  assumes "object_signaled ob s = Some s'" "dh_core (objs s ob)" "\<And>x. x \<noteq> ob \<Longrightarrow> obj_inv (objs s x)"
  shows "dinv s'"
proof -
  obtain dh k w where sc: "scan_waiters (\<lambda>dh t. grab_object dh t True) (objs s ob)
      (wait_blocks (objs s ob)) = (dh, k, w)" by (metis prod_cases3)
  from grab_scan.scan_core [OF assms(2) sc] have "obj_inv (dh\<lparr>wait_blocks := k\<rparr>)"
    by (simp add: obj_inv_def)
  with assms sc show ?thesis
    by (auto simp: object_signaled_def dinv_def bind_eq_Some_conv)
qed

lemma scan_next_kind: "scan_waiters grab_next x ws = (y, k, w) \<Longrightarrow> dh_kind (fst y) = dh_kind (fst x)"
proof (induction ws arbitrary: x y k w)
  case (Cons b bs)
  then show ?case by (auto simp: grab_next_def split: prod.splits if_splits dest!: grab_at_blocks)
qed simp

lemma KeSetEvent_inv [inv_intros]:
  assumes "dinv s" "is_event (objs s ob)" "KeSetEvent_at qs ob s = Some (s', r)"
  shows "dinv s'"
proof -
  have "is_event (objs s' ob) \<and> (\<forall>x. x \<noteq> ob \<longrightarrow> objs s' x = objs s x)"
    using assms(2,3)
    by (auto simp: KeSetEvent_at_def object_signaled_at_def Let_def bind_eq_Some_conv is_event_def split: if_splits prod.splits dest!: scan_next_kind)
  then have "obj_inv (objs s' x)" for x using assms(1) event_inv by (cases "x = ob") (simp_all add: dinv_def)
  then show ?thesis by (simp add: dinv_def)
qed

lemma KeResetEvent_inv [inv_intros]:
  "dinv s \<Longrightarrow> is_event (objs s ob) \<Longrightarrow> KeResetEvent ob s = (s', r) \<Longrightarrow> dinv s'"
  by (auto simp: KeResetEvent_def KeClearEvent_def is_event_def intro!: dinv_upd event_inv)

lemma mutex_release:
  assumes "mutex_ok m" "owner_thread m = Some t" "signal_state m \<le> 0" "length (holders m) < 2 ^ 31"
  shows "holders m \<noteq> []" "signal_state m = 1 - int (length (holders m))"
    "signal_state m < 0 \<Longrightarrow> mutex_ok (m\<lparr>signal_state := signal_state m + 1, holders := remove1 t (holders m)\<rparr>)"
    "signal_state m = 0 \<Longrightarrow> mutex_ok (m\<lparr>signal_state := 1, holders := remove1 t (holders m), owner_thread := None\<rparr>)"
proof -
  have h: "set (holders m) = {t}" using assms(1,2) by (simp add: mutex_ok_def)
  then show "holders m \<noteq> []" by auto
  then obtain ts where ts: "holders m = t # ts" "set ts \<subseteq> {t}" using h by (cases "holders m") auto
  show eq: "signal_state m = 1 - int (length (holders m))" using assms(1,4) by (simp add: mutex_ok_def long_add_small)
  show "mutex_ok (m\<lparr>signal_state := signal_state m + 1, holders := remove1 t (holders m)\<rparr>)" if "signal_state m < 0"
  proof -
    have "set ts = {t}" using that eq ts by (cases ts) auto
    moreover have "long_add 1 (- int (length ts)) = 1 - int (length ts)" using assms(4) ts by (simp add: long_add_small)
    ultimately show ?thesis using assms(2) eq ts(1) by (simp add: mutex_ok_def)
  qed
  show "mutex_ok (m\<lparr>signal_state := 1, holders := remove1 t (holders m), owner_thread := None\<rparr>)" if "signal_state m = 0"
    using that eq ts by (simp add: mutex_ok_def long_add_small)
qed

lemma KeReleaseMutex_inv [inv_intros]:
  assumes "dinv s" "dh_kind (objs s ob) = MutexObject" "length (holders (objs s ob)) < 2 ^ 31" "KeReleaseMutex ob t s = Some (s', r)"
  shows "dinv s'"
proof -
  let ?m = "objs s ob"
  have m: "obj_inv ?m" using assms(1) by (simp add: dinv_def)
  then have ok: "mutex_ok ?m" using assms(2) by (simp add: dh_defs)
  consider "\<not> (owner_thread ?m = Some t \<and> signal_state ?m \<le> 0)"
    | "owner_thread ?m = Some t" "signal_state ?m < 0"
    | "owner_thread ?m = Some t" "signal_state ?m = 0" by linarith
  then show ?thesis
  proof cases
    case 1
    with assms show ?thesis by (auto simp: KeReleaseMutex_def Let_def)
  next
    case 2
    then have "mutex_ok (?m\<lparr>signal_state := signal_state ?m + 1, holders := remove1 t (holders ?m)\<rparr>)" using mutex_release(3) [OF ok _ _ assms(3)] by simp
    then have "obj_inv (?m\<lparr>signal_state := signal_state ?m + 1, holders := remove1 t (holders ?m)\<rparr>)" using 2 assms(2) by (simp add: dh_defs)
    with 2 assms show ?thesis by (auto simp: KeReleaseMutex_def Let_def intro: dinv_upd)
  next
    case 3
    let ?s1 = "s\<lparr>objs := (objs s)(ob := ?m\<lparr>signal_state := 1, holders := remove1 t (holders ?m), owner_thread := None\<rparr>)\<rparr>"
    from 3 assms(4) have "object_signaled ob ?s1 = Some s'"
      by (auto simp: KeReleaseMutex_def Let_def bind_eq_Some_conv)
    moreover have "dh_core (objs ?s1 ob)" using assms(2) mutex_release(4) [OF ok _ _ assms(3)] 3 by (simp add: dh_core_def)
    moreover have "\<And>x. x \<noteq> ob \<Longrightarrow> obj_inv (objs ?s1 x)" using assms(1) by (simp add: dinv_def)
    ultimately show ?thesis by (rule object_signaled_inv)
  qed
qed

lemma KeReleaseSemaphore_inv [inv_intros]:
  assumes "dinv s" "dh_kind (objs s ob) = SemaphoreObject" "0 \<le> adj"
    "signal_state (objs s ob) + adj < 2 ^ 31" "KeReleaseSemaphore ob adj s = Some (s', r)"
  shows "dinv s'"
proof -
  let ?m = "objs s ob"
  have m: "obj_inv ?m" using assms(1) by (simp add: dinv_def)
  with assms have ss: "0 \<le> signal_state ?m" "signal_state ?m \<le> limit ?m"
    and add: "long_add (signal_state ?m) adj = signal_state ?m + adj"
    by (auto simp: dh_defs intro: long_add_small)
  let ?m1 = "?m\<lparr>signal_state := min (signal_state ?m + adj) (limit ?m)\<rparr>"
  let ?s1 = "s\<lparr>objs := (objs s)(ob := ?m1)\<rparr>"
  have core: "dh_core (objs ?s1 ob)" using assms(2,3) ss by (simp add: dh_core_def)
  have oth: "\<And>x. x \<noteq> ob \<Longrightarrow> obj_inv (objs ?s1 x)" using assms(1) by (simp add: dinv_def)
  have m1: "(if long_add (signal_state ?m) adj \<le> limit ?m
             then ?m\<lparr>signal_state := long_add (signal_state ?m) adj\<rparr>
             else ?m\<lparr>signal_state := limit ?m\<rparr>) = ?m1"
    by (simp add: add min_def)
  show ?thesis
  proof (cases "signal_state ?m1 > 0")
    case True
    with assms(5) have "object_signaled ob ?s1 = Some s'"
      unfolding KeReleaseSemaphore_def Let_def m1 by (auto simp: bind_eq_Some_conv)
    from object_signaled_inv [OF this core oth] show ?thesis .
  next
    case False
    with assms(5) have "s' = ?s1"
      unfolding KeReleaseSemaphore_def Let_def m1 by (auto simp: bind_eq_Some_conv)
    moreover from False core assms(2) have "obj_inv ?m1" by (auto simp: obj_inv_def dh_blocked_def)
    ultimately show ?thesis using assms(1) by (simp add: dinv_upd)
  qed
qed


lemma wait_first_inv:
  "(\<forall>x. obj_inv (ob x)) \<Longrightarrow> wait_first q wt t os i c ob = (ob', r) \<Longrightarrow> \<forall>x. obj_inv (ob' x)"
proof (induction q wt t os i c ob rule: wait_first.induct)
  case (1 q wt t i c ob)
  then show ?case by simp
next
  case (2 q wt t x xs i c ob)
  obtain dh ok where g: "grab_object_at (q i) (ob x) t (wt = WaitAny) = (dh, ok)" by (metis surj_pair)
  have "obj_inv dh" using "2.prems"(1) g grab_at_inv by blast
  with "2.prems"(1) have u: "\<forall>y. obj_inv ((ob(x := dh)) y)" by simp
  show ?case
  proof (cases "ok \<and> wt = WaitAny")
    case True
    with "2.prems"(2) g u show ?thesis by auto
  next
    case False
    with "2.prems"(2) g have "wait_first q wt t xs (Suc i) (if ok then c else Suc c) (ob(x := dh)) = (ob', r)"
      by (auto split: if_splits)
    with "2.IH" [OF g [symmetric]] False u show ?thesis by (cases ok) (simp_all only: if_True if_False simp_thms)
  qed
qed

lemma wait_second_inv:
  "(\<forall>x. obj_inv (ob x)) \<Longrightarrow> wait_second q t os i ob = (ob', bs) \<Longrightarrow> \<forall>x. obj_inv (ob' x)"
proof (induction os arbitrary: i ob ob' bs)
  case Nil
  then show ?case by simp
next
  case (Cons x xs)
  obtain dh ok where g: "grab_object_at (q i) (ob x) t True = (dh, ok)" by (metis surj_pair)
  let ?dh' = "if ok then dh else dh\<lparr>wait_blocks := wait_blocks dh @ [(t, i)]\<rparr>"
  have "obj_inv (ob x)" using Cons.prems(1) by simp
  then have "obj_inv ?dh'" using g grab_at_inv [OF _ g] grab_at_fail [of "ob x" "q i" t True dh] by (auto simp: obj_inv_def)
  with Cons.prems(1) have u: "\<forall>y. obj_inv ((ob(x := ?dh')) y)" by (simp split: if_splits)
  obtain ob2 bs2 where w: "wait_second q t xs (Suc i) (ob(x := ?dh')) = (ob2, bs2)" by (metis surj_pair)
  with Cons.prems(2) g have "ob' = ob2" by (simp add: Let_def del: fun_upd_apply)
  with Cons.IH [OF u w] show ?case by simp
qed

lemma wait_begin_inv [inv_intros]:
  assumes "dinv s" "wait_begin_at q1 q2 t os wt timeout wba raised s = (s', r)"
  shows "dinv s'"
proof -
  from assms(1) have 0: "\<forall>x. obj_inv (objs s x)" by (simp add: dinv_def)
  obtain ob1 q where 1: "wait_first q1 wt t os 0 0 (objs s) = (ob1, q)" by (metis surj_pair)
  obtain ob2 bs where 2: "wait_second q2 t os 0 ob1 = (ob2, bs)" by (metis surj_pair)
  have "\<forall>x. obj_inv (ob1 x)" using wait_first_inv [OF 0 1] .
  moreover from wait_second_inv [OF this 2] have "\<forall>x. obj_inv (ob2 x)" .
  ultimately show ?thesis
    using assms 1 2 by (cases q) (auto simp: wait_begin_at_def dinv_def split: if_splits)
qed

lemma remove_blocks_inv:
  "(\<forall>x. obj_inv (ob x)) \<Longrightarrow> remove_blocks t sel xs i ob = Some ob' \<Longrightarrow> \<forall>x. obj_inv (ob' x)"
proof (induction t sel xs i ob rule: remove_blocks.induct)
  case (1 t sel i ob)
  then show ?case by simp
next
  case (2 t sel x b r i ob)
  have "obj_inv ((ob x)\<lparr>wait_blocks := remove1 (t, i) (wait_blocks (ob x))\<rparr>)"
    using "2.prems"(1) by (cases "wait_blocks (ob x)") (auto simp: obj_inv_def)
  with "2.prems"(1) have "\<forall>y. obj_inv ((ob(x := (ob x)\<lparr>wait_blocks := remove1 (t, i) (wait_blocks (ob x))\<rparr>)) y)"
    by simp
  with 2 show ?case by (auto simp del: fun_upd_apply split: if_splits)
qed

lemma wait_resume_inv [inv_intros]:
  assumes "dinv s" "wait_resume t res s = Some (s', r)"
  shows "dinv s'"
  using assms remove_blocks_inv
  by (auto simp: wait_resume_def dinv_def bind_eq_Some_conv split: option.splits if_splits sum.splits)

lemma dstep_inv: "dstep s s' \<Longrightarrow> dinv s \<Longrightarrow> dinv s'"
  by (induction rule: dstep.induct) (auto intro: inv_intros)

lemma dreachable_inv: "dreachable s0 s \<Longrightarrow> dinv s0 \<Longrightarrow> dinv s"
  by (induction rule: dreachable.induct) (auto intro: dstep_inv)

lemma initial_obj_inv [simp]:
  "obj_inv KeInitializeMutex"
  "0 \<le> c \<Longrightarrow> c \<le> l \<Longrightarrow> obj_inv (KeInitializeSemaphore c l)"
  "ty = NotificationObject \<or> ty = SynchronizationObject \<or> ty = ThreadObject \<Longrightarrow> obj_inv (KeInitializeEvent ty b)"
  by (auto simp: dh_defs mutex_ok_def long_add_small KeInitializeMutex_def KeInitializeSemaphore_def KeInitializeEvent_def initialize_object_def)


section \<open>Effect of signalling\<close>

lemma scan_nobody:
  "dh_kind dh \<noteq> MutexObject \<Longrightarrow> signal_state dh \<le> 0 \<Longrightarrow>
   scan_waiters (\<lambda>dh t. grab_object dh t True) dh ws = (dh, ws, [])"
  by (induction ws) (auto simp: grab_object_def)

lemma scan_everybody:
  "dh_kind dh = NotificationObject \<Longrightarrow> 0 < signal_state dh \<Longrightarrow>
   scan_waiters (\<lambda>dh t. grab_object dh t True) dh ws = (dh, [], ws)"
  by (induction ws) (auto simp: grab_object_def)

text \<open>The wait blocks of a list belong to calls that are still waiting.\<close>

definition linked :: "block list \<Rightarrow> (tid \<Rightarrow> waiter option) \<Rightarrow> bool" where
  "linked bs W \<longleftrightarrow> (\<forall>(t, i)\<in>set bs. \<exists>w. W t = Some w \<and> i < length (wt_blocks w))"

definition woken_by :: "oid \<Rightarrow> block \<Rightarrow> (tid \<Rightarrow> waiter option) \<Rightarrow> bool" where
  "woken_by ob b W \<longleftrightarrow>
     (\<exists>w. W (fst b) = Some w \<and> wt_done w \<and> snd b < length (wt_blocks w) \<and>
        wb_object (wt_blocks w ! snd b) = Some ob)"

lemma wake_all_keeps:
  "wake_all ob bs W = Some W' \<Longrightarrow> woken_by ob b W \<Longrightarrow> woken_by ob b W'"
proof (induction ob bs W rule: wake_all.induct)
  case (1 ob W)
  then show ?case by simp
next
  case (2 ob t i bs W)
  then obtain w where w: "W t = Some w" "i < length (wt_blocks w)"
    by (auto split: option.splits if_splits)
  let ?W = "W(t \<mapsto> w\<lparr>wt_blocks := (wt_blocks w)[i := (wt_blocks w ! i)\<lparr>wb_object := Some ob\<rparr>], wt_done := True\<rparr>)"
  have "woken_by ob b ?W"
    using "2.prems"(2) w by (cases b) (auto simp: woken_by_def nth_list_update)
  with 2 w show ?case by (simp del: fun_upd_apply)
qed

lemma linked_upd:
  "linked bs W \<Longrightarrow> W t = Some w \<Longrightarrow> length (wt_blocks w') = length (wt_blocks w) \<Longrightarrow> linked bs (W(t \<mapsto> w'))"
  by (fastforce simp: linked_def)

lemma wake_all_linked:
  "linked bs W \<Longrightarrow> \<exists>W'. wake_all ob bs W = Some W' \<and> (\<forall>b\<in>set bs. woken_by ob b W')"
proof (induction bs arbitrary: W)
  case Nil
  then show ?case by simp
next
  case (Cons b bs)
  obtain t i where b: "b = (t, i)" by (cases b)
  from Cons.prems b obtain w where w: "W t = Some w" "i < length (wt_blocks w)" by (auto simp: linked_def)
  let ?w = "w\<lparr>wt_blocks := (wt_blocks w)[i := (wt_blocks w ! i)\<lparr>wb_object := Some ob\<rparr>], wt_done := True\<rparr>"
  have "linked bs W" using Cons.prems by (auto simp: linked_def)
  then have "linked bs (W(t \<mapsto> ?w))" using w(1) by (rule linked_upd) simp
  from Cons.IH [OF this] obtain W' where
    W': "wake_all ob bs (W(t \<mapsto> ?w)) = Some W'" "\<forall>b\<in>set bs. woken_by ob b W'" by blast
  have "woken_by ob b (W(t \<mapsto> ?w))" using w by (simp add: woken_by_def b)
  from wake_all_keeps [OF W'(1) this] W' w b show ?case by (simp del: fun_upd_apply)
qed

section \<open>Properties\<close>

text \<open>C2: In every interleaving of event, mutex, semaphore and wait operations, also when KeResetEvent or KeClearEvent, which take no
  lock, hit an event in the middle of a locked section, a semaphore count stays between 0 and its limit, and a thread is queued on a mutex or a semaphore
  only while that cannot be taken, so no wake-up by a mutex or a semaphore is lost.\<close>

theorem dispatcher_invariant:
  assumes "dreachable s0 s" "dinv s0"
  shows "(dh_kind (objs s x) = SemaphoreObject \<longrightarrow>
            0 \<le> signal_state (objs s x) \<and> signal_state (objs s x) \<le> limit (objs s x) \<and>
            (wait_blocks (objs s x) \<noteq> [] \<longrightarrow> signal_state (objs s x) = 0)) \<and>
         (dh_kind (objs s x) = MutexObject \<longrightarrow> wait_blocks (objs s x) \<noteq> [] \<longrightarrow> owner_thread (objs s x) \<noteq> None)"
proof -
  from dreachable_inv [OF assms] have "obj_inv (objs s x)" by (simp add: dinv_def)
  then show ?thesis by (auto simp: dh_defs)
qed

definition demo :: dstate where
  "demo = \<lparr>objs = (\<lambda>x. if x = 0 then KeInitializeEvent SynchronizationObject False
                       else if x = 1 then KeInitializeMutex
                       else if x = 2 then KeInitializeSemaphore 0 2
                       else KeInitializeEvent NotificationObject False),
           waiters = (\<lambda>_. None)\<rparr>"

lemma demo_dinv: "dinv demo"
  by (simp add: dinv_def demo_def)

lemma demo_step: "dreachable demo (fst (wait_begin 7 [2] WaitAny None False False demo))"
proof -
  have "waiters demo 7 = None" by (simp add: demo_def)
  from dstep.begin_wait [OF this, of "\<lambda>_. Quiet" "\<lambda>_. Quiet" "[2]" WaitAny None False False]
  show ?thesis by (auto intro: dreachable.intros simp: prod_eq_iff wait_begin_def)
qed

theorem dispatcher_invariant_witness:
  "let s = fst (wait_begin 7 [2] WaitAny None False False demo) in
     wait_blocks (objs s 2) = [(7, 0)] \<and> signal_state (objs s 2) \<le> 0"
  using dispatcher_invariant [OF demo_step demo_dinv, of 2]
  by (simp add: wait_begin_def wait_begin_at_def demo_def grab_object_def KeInitializeSemaphore_def initialize_object_def
      MAX_WAIT_OBJECTS_def THREAD_WAIT_OBJECTS_def)

text \<open>C3: In every such interleaving, of all threads that were granted a mutex, by a wait that found it free or by a wake-up, and have not yet released it as
  often, there is at most one, and it is the recorded owner; the mutex counts its grants in the width of its \<^verbatim>\<open>LONG\<close>.  Another thread can neither take the mutex nor release it, and a
  failed release changes nothing.\<close>

theorem mutex_exclusion:
  assumes "dreachable s0 s" "dinv s0" "dh_kind (objs s m) = MutexObject"
  shows "set (holders (objs s m)) = set_option (owner_thread (objs s m)) \<and>
         signal_state (objs s m) = long_add 1 (- int (length (holders (objs s m)))) \<and>
         (\<forall>t \<in> set (holders (objs s m)). \<forall>t'. t' \<noteq> t \<longrightarrow> t' \<notin> set (holders (objs s m)) \<and>
            grab_object (objs s m) t' True = (objs s m, False) \<and> KeReleaseMutex m t' s = Some (s, Inl STATUS_MUTANT_NOT_OWNED))"
proof -
  from dreachable_inv [OF assms(1,2)] have "mutex_ok (objs s m)" using assms(3) by (auto simp: dinv_def dh_defs split: dh_type.splits)
  moreover have "grab_object (objs s m) t' True = (objs s m, False) \<and> KeReleaseMutex m t' s = Some (s, Inl STATUS_MUTANT_NOT_OWNED)"
    if "owner_thread (objs s m) = Some t" "t' \<noteq> t" for t t' using that assms(3) by (auto simp: grab_object_def KeReleaseMutex_def)
  ultimately show ?thesis by (auto simp: mutex_ok_def)
qed

lemma demo_owned: "dreachable demo (fst (wait_begin 7 [1] WaitAny None False False demo))"
proof -
  have "waiters demo 7 = None" by (simp add: demo_def)
  from dstep.begin_wait [OF this, of "\<lambda>_. Quiet" "\<lambda>_. Quiet" "[1]" WaitAny None False False]
  show ?thesis by (auto intro: dreachable.intros simp: prod_eq_iff wait_begin_def)
qed

theorem mutex_exclusion_witness:
  "let s = fst (wait_begin 7 [1] WaitAny None False False demo) in
     holders (objs s 1) = [7] \<and> owner_thread (objs s 1) = Some 7 \<and> grab_object (objs s 1) 8 True = (objs s 1, False) \<and>
     KeReleaseMutex 1 8 s = Some (s, Inl STATUS_MUTANT_NOT_OWNED)"
proof -
  let ?s = "fst (wait_begin 7 [1] WaitAny None False False demo)"
  have m: "dh_kind (objs ?s 1) = MutexObject" "holders (objs ?s 1) = [7]"
    by (simp_all add: wait_begin_def wait_begin_at_def demo_def grab_object_def KeInitializeMutex_def initialize_object_def
        MAX_WAIT_OBJECTS_def THREAD_WAIT_OBJECTS_def)
  from mutex_exclusion [OF demo_owned demo_dinv m(1)] m(2)
  have "set_option (owner_thread (objs ?s 1)) = {7}" "grab_object (objs ?s 1) 8 True = (objs ?s 1, False)"
    "KeReleaseMutex 1 8 ?s = Some (?s, Inl STATUS_MUTANT_NOT_OWNED)" by auto
  then show ?thesis using m(2) by (cases "owner_thread (objs ?s 1)") (simp_all add: Let_def)
qed

text \<open>When KeResetEvent hits a signalled synchronization event between the test and the decrement of a wait, the wait is satisfied and the event
  is left with the state -1; a thread that waits for it next goes to sleep, and KeSetEvent, which wakes waiters only when the old state was 0, signals
  the event without waking that thread.\<close>

theorem event_reset_race:
  assumes "dh_kind (objs s ob) = SynchronizationObject" "signal_state (objs s ob) = 1" "wait_blocks (objs s ob) = []"
  shows "\<exists>s1 s2 s3 w. wait_begin_at (\<lambda>_. Reset_between) q2 t [ob] WaitAny None False False s = (s1, Some STATUS_WAIT_0) \<and>
    signal_state (objs s1 ob) = - 1 \<and> KeWaitForSingleObject t' ob None False s1 = (s2, None) \<and>
    KeSetEvent ob s2 = Some (s3, - 1) \<and> signal_state (objs s3 ob) = 1 \<and> wait_blocks (objs s3 ob) = [(t', 0)] \<and>
    waiters s3 t' = Some w \<and> \<not> wt_done w"
proof -
  let ?dh = "(objs s ob)\<lparr>signal_state := - 1\<rparr>"
  let ?s1 = "s\<lparr>objs := (objs s)(ob := ?dh)\<rparr>"
  let ?w = "\<lparr>wt_type = WaitAny, wt_objects = [ob], wt_blocks = [\<lparr>wb_thread = True, wb_object = None\<rparr>], wt_done = False, wt_count = 1\<rparr>"
  let ?s2 = "s\<lparr>objs := (objs s)(ob := ?dh\<lparr>wait_blocks := [(t', 0)]\<rparr>), waiters := (waiters s)(t' \<mapsto> ?w)\<rparr>"
  have 1: "wait_begin_at (\<lambda>_. Reset_between) q2 t [ob] WaitAny None False False s = (?s1, Some STATUS_WAIT_0)"
    using assms by (simp add: wait_begin_at_def grab_object_at_def is_event_def MAX_WAIT_OBJECTS_def THREAD_WAIT_OBJECTS_def)
  have 2: "KeWaitForSingleObject t' ob None False ?s1 = (?s2, None)"
    using assms by (simp add: KeWaitForSingleObject_def wait_begin_def wait_begin_at_def grab_object_def MAX_WAIT_OBJECTS_def THREAD_WAIT_OBJECTS_def)
  have 3: "KeSetEvent ob ?s2 = Some (?s2\<lparr>objs := (objs ?s2)(ob := (objs ?s2 ob)\<lparr>signal_state := 1\<rparr>)\<rparr>, - 1)"
    by (simp add: KeSetEvent_def)
  from 1 2 3 show ?thesis by fastforce
qed

theorem event_reset_race_witness:
  "\<exists>s1 s2 s3 w. wait_begin_at (\<lambda>_. Reset_between) (\<lambda>_. Quiet) 7 [0] WaitAny None False False
      (demo\<lparr>objs := (objs demo)(0 := KeInitializeEvent SynchronizationObject True)\<rparr>) = (s1, Some STATUS_WAIT_0) \<and>
    signal_state (objs s1 0) = - 1 \<and> KeWaitForSingleObject 8 0 None False s1 = (s2, None) \<and>
    KeSetEvent 0 s2 = Some (s3, - 1) \<and> signal_state (objs s3 0) = 1 \<and> wait_blocks (objs s3 0) = [(8, 0)] \<and>
    waiters s3 8 = Some w \<and> \<not> wt_done w"
  by (rule event_reset_race) (simp_all add: KeInitializeEvent_def initialize_object_def)

text \<open>C4: Setting a synchronization event that has waiters wakes exactly the one that
  waited first, takes it off the list, keeps the others queued in order, and leaves the
  event unsignalled.\<close>

theorem KeSetEvent_synchronization:
  assumes "dh_kind (objs s ob) = SynchronizationObject" "signal_state (objs s ob) = 0"
    and "wait_blocks (objs s ob) = b # bs" "linked [b] (waiters s)"
  shows "\<exists>s'. KeSetEvent ob s = Some (s', 0) \<and> signal_state (objs s' ob) = 0 \<and>
    wait_blocks (objs s' ob) = bs \<and> woken_by ob b (waiters s') \<and>
    (\<forall>t. t \<noteq> fst b \<longrightarrow> waiters s' t = waiters s t)"
proof -
  let ?dh = "(objs s ob)\<lparr>signal_state := 1\<rparr>"
  have sc: "scan_waiters (\<lambda>dh t. grab_object dh t True) ?dh (b # bs) = (?dh\<lparr>signal_state := 0\<rparr>, bs, [b])"
    using assms(1) scan_nobody [of "?dh\<lparr>signal_state := 0\<rparr>" bs] by (simp add: grab_object_def)
  from wake_all_linked [OF assms(4), of ob] obtain W' where
    W': "wake_all ob [b] (waiters s) = Some W'" "woken_by ob b W'" by auto
  have "\<forall>t. t \<noteq> fst b \<longrightarrow> W' t = waiters s t"
    using W'(1) by (cases b) (auto split: option.splits if_splits)
  with W' sc assms show ?thesis
    by (auto simp: KeSetEvent_def object_signaled_def Let_def)
qed

definition waiting :: dstate where
  "waiting = fst (wait_begin 8 [0] WaitAny None False False
                   (fst (wait_begin 7 [0] WaitAny None False False demo)))"

lemmas wait_eval = waiting_def wait_begin_def wait_begin_at_def demo_def grab_object_def KeInitializeMutex_def
  KeInitializeSemaphore_def KeInitializeEvent_def initialize_object_def MAX_WAIT_OBJECTS_def THREAD_WAIT_OBJECTS_def

theorem KeSetEvent_synchronization_witness:
  "\<exists>s'. KeSetEvent 0 waiting = Some (s', 0) \<and> signal_state (objs s' 0) = 0 \<and>
    wait_blocks (objs s' 0) = [(8, 0)] \<and> woken_by 0 (7, 0) (waiters s') \<and>
    (\<forall>t. t \<noteq> fst (7 :: nat, 0 :: nat) \<longrightarrow> waiters s' t = waiters waiting t)"
  by (rule KeSetEvent_synchronization) (simp_all add: wait_eval linked_def)

text \<open>Setting an event that is not signalled: a notification event wakes all, a synchronization event the first waiter, which takes the signal.\<close>

lemma set_event_fires:
  assumes k: "dh_kind (objs s ob) = NotificationObject \<or> dh_kind (objs s ob) = SynchronizationObject" and z: "signal_state (objs s ob) = 0"
    and l: "linked (wait_blocks (objs s ob)) (waiters s)"
  shows "\<exists>s'. KeSetEvent ob s = Some (s', 0) \<and>
    signal_state (objs s' ob) = (if dh_kind (objs s ob) = NotificationObject \<or> wait_blocks (objs s ob) = [] then 1 else 0) \<and>
    wait_blocks (objs s' ob) = (if dh_kind (objs s ob) = NotificationObject then [] else tl (wait_blocks (objs s ob))) \<and>
    (\<forall>b\<in>set (if dh_kind (objs s ob) = NotificationObject then wait_blocks (objs s ob) else take 1 (wait_blocks (objs s ob))). woken_by ob b (waiters s'))"
proof -
  let ?dh = "(objs s ob)\<lparr>signal_state := 1\<rparr>"
  let ?ws = "wait_blocks (objs s ob)"
  let ?woken = "if dh_kind (objs s ob) = NotificationObject then ?ws else take 1 ?ws"
  let ?kept = "if dh_kind (objs s ob) = NotificationObject then [] else tl ?ws"
  let ?sig = "if dh_kind (objs s ob) = NotificationObject \<or> ?ws = [] then 1 else 0"
  have sc: "scan_waiters (\<lambda>dh t. grab_object dh t True) ?dh ?ws = (?dh\<lparr>signal_state := ?sig\<rparr>, ?kept, ?woken)"
  proof (cases "dh_kind (objs s ob) = NotificationObject")
    case True
    then show ?thesis by (simp add: scan_everybody)
  next
    case False
    then have sk: "dh_kind (objs s ob) = SynchronizationObject" using k by simp
    show ?thesis
    proof (cases ?ws)
      case (Cons b bs)
      then show ?thesis using sk scan_nobody [of "?dh\<lparr>signal_state := 0\<rparr>" bs] by (simp add: grab_object_def)
    qed (simp add: False)
  qed
  have "linked ?woken (waiters s)" using l by (auto simp: linked_def dest: in_set_takeD)
  from wake_all_linked [OF this, of ob] sc z show ?thesis by (auto simp: KeSetEvent_def object_signaled_def Let_def)
qed

lemma set_notification_event:
  assumes "dh_kind (objs s ob) = NotificationObject" "signal_state (objs s ob) = 0"
    and "linked (wait_blocks (objs s ob)) (waiters s)"
  shows "\<exists>s'. KeSetEvent ob s = Some (s', 0) \<and> signal_state (objs s' ob) = 1 \<and>
    wait_blocks (objs s' ob) = [] \<and> (\<forall>b\<in>set (wait_blocks (objs s ob)). woken_by ob b (waiters s'))"
proof -
  let ?dh = "(objs s ob)\<lparr>signal_state := 1\<rparr>"
  have sc: "scan_waiters (\<lambda>dh t. grab_object dh t True) ?dh (wait_blocks (objs s ob)) =
      (?dh, [], wait_blocks (objs s ob))"
    using assms(1) by (simp add: scan_everybody)
  from wake_all_linked [OF assms(3), of ob] sc assms(2) show ?thesis
    by (auto simp: KeSetEvent_def object_signaled_def Let_def)
qed

text \<open>Setting a notification event wakes every waiter, empties the wait list and leaves
  the event signalled.\<close>

theorem KeSetEvent_notification:
  assumes "dh_kind (objs s ob) = NotificationObject" "signal_state (objs s ob) = 0"
    and "linked (wait_blocks (objs s ob)) (waiters s)"
  shows "\<exists>s'. KeSetEvent ob s = Some (s', 0) \<and> signal_state (objs s' ob) = 1 \<and>
    wait_blocks (objs s' ob) = [] \<and> (\<forall>b\<in>set (wait_blocks (objs s ob)). woken_by ob b (waiters s'))"
  using assms by (rule set_notification_event)

definition waiting_two :: dstate where
  "waiting_two = fst (wait_begin 8 [3] WaitAny None False False
                      (fst (wait_begin 7 [3] WaitAny None False False demo)))"

theorem KeSetEvent_notification_witness:
  "\<exists>s'. KeSetEvent 3 waiting_two = Some (s', 0) \<and> signal_state (objs s' 3) = 1 \<and>
    wait_blocks (objs s' 3) = [] \<and> (\<forall>b\<in>set (wait_blocks (objs waiting_two 3)). woken_by 3 b (waiters s'))"
  by (rule KeSetEvent_notification) (simp_all add: wait_eval waiting_two_def linked_def)


text \<open>A thread that waits for an unsignalled event goes to sleep; when the event is set,
  its wait returns STATUS_WAIT_0, the event's list is empty again and the thread no
  longer counts as waiting.\<close>

theorem wait_then_set_returns:
  assumes "is_event (objs s ob)" "signal_state (objs s ob) = 0" "wait_blocks (objs s ob) = []"
    and "timeout \<noteq> Some 0"
  shows "\<exists>s1 s2 s3. KeWaitForSingleObject t ob timeout False s = (s1, None) \<and>
    KeSetEvent ob s1 = Some (s2, 0) \<and> wait_resume t res s2 = Some (s3, Some STATUS_WAIT_0) \<and>
    waiters s3 t = None \<and> wait_blocks (objs s3 ob) = []"
proof -
  let ?dh = "objs s ob"
  let ?w = "\<lparr>wt_type = WaitAny, wt_objects = [ob], wt_blocks = [\<lparr>wb_thread = True, wb_object = None\<rparr>],
             wt_done = False, wt_count = 1\<rparr>"
  let ?s1 = "s\<lparr>objs := (objs s)(ob := ?dh\<lparr>wait_blocks := [(t, 0)]\<rparr>), waiters := (waiters s)(t \<mapsto> ?w)\<rparr>"
  have k: "dh_kind ?dh \<noteq> MutexObject" "dh_kind ?dh \<noteq> SemaphoreObject"
    using assms(1) by (auto simp: is_event_def)
  have 1: "KeWaitForSingleObject t ob timeout False s = (?s1, None)"
    using k assms by (auto simp: KeWaitForSingleObject_def wait_begin_def wait_begin_at_def grab_object_def
        MAX_WAIT_OBJECTS_def THREAD_WAIT_OBJECTS_def)
  let ?g = "?dh\<lparr>signal_state := (if dh_kind ?dh = SynchronizationObject then 0 else 1), wait_blocks := []\<rparr>"
  let ?w2 = "?w\<lparr>wt_blocks := [\<lparr>wb_thread = True, wb_object = Some ob\<rparr>], wt_done := True\<rparr>"
  let ?s2 = "s\<lparr>objs := (objs s)(ob := ?g), waiters := (waiters s)(t \<mapsto> ?w2)\<rparr>"
  have 2: "KeSetEvent ob ?s1 = Some (?s2, 0)"
    using k assms(2) by (simp add: KeSetEvent_def object_signaled_def grab_object_def)
  have 3: "wait_resume t res ?s2 = Some (?s2\<lparr>waiters := (waiters ?s2)(t := None)\<rparr>, Some STATUS_WAIT_0)"
    by (simp add: wait_resume_def)
  from 1 2 3 show ?thesis by fastforce
qed

theorem wait_then_set_returns_witness:
  "\<exists>s1 s2 s3. KeWaitForSingleObject 7 0 None False demo = (s1, None) \<and>
    KeSetEvent 0 s1 = Some (s2, 0) \<and> wait_resume 7 1 s2 = Some (s3, Some STATUS_WAIT_0) \<and>
    waiters s3 7 = None \<and> wait_blocks (objs s3 0) = []"
  by (rule wait_then_set_returns) (simp_all add: wait_eval is_event_def)

text \<open>A run of KeWaitForMultipleObjects for three notification events 3, 4 and 5 with
  WaitAll, in which 3 and then 4 are set and the thread is woken each time.\<close>

definition wait_all_run :: "(dstate \<times> NTSTATUS option) option" where
  "wait_all_run =
     do { let s1 = fst (wait_begin 7 [3, 4, 5] WaitAll None False False demo);
          (s2, _) \<leftarrow> KeSetEvent 3 s1;
          (s3, _) \<leftarrow> wait_resume 7 1 s2;
          (s4, _) \<leftarrow> KeSetEvent 4 s3;
          wait_resume 7 1 s4 }"

text \<open>A WaitAll for three objects can return STATUS_SUCCESS while the third object was
  never signalled, and leaves a wait block of the finished call queued on it: a block
  that was satisfied in an earlier round is counted again in the next one.\<close>

theorem WaitAll_returns_early:
  "\<exists>s. wait_all_run = Some (s, Some STATUS_SUCCESS) \<and> signal_state (objs s 5) = 0 \<and>
       wait_blocks (objs s 5) = [(7, 2)] \<and> waiters s 7 = None"
  by (simp add: wait_all_run_def wait_eval KeSetEvent_def object_signaled_def wait_resume_def)

text \<open>When two synchronization events that a WaitAny waits for are both set before the
  thread runs again, the wait returns for the first and the signal of the second is
  consumed without being reported.\<close>

theorem WaitAny_consumes_two_events:
  assumes "a \<noteq> b" "objs s a = KeInitializeEvent SynchronizationObject False"
    and "objs s b = KeInitializeEvent SynchronizationObject False"
  shows "\<exists>s1 s2 s3 s4. wait_begin t [a, b] WaitAny None False False s = (s1, None) \<and>
    KeSetEvent a s1 = Some (s2, 0) \<and> KeSetEvent b s2 = Some (s3, 0) \<and>
    wait_resume t res s3 = Some (s4, Some STATUS_WAIT_0) \<and>
    signal_state (objs s4 a) = 0 \<and> signal_state (objs s4 b) = 0"
  using assms
  by (auto simp: wait_begin_def wait_begin_at_def grab_object_def KeInitializeEvent_def initialize_object_def
      MAX_WAIT_OBJECTS_def THREAD_WAIT_OBJECTS_def KeSetEvent_def object_signaled_def wait_resume_def)

theorem WaitAny_consumes_two_events_witness:
  "let s = demo\<lparr>objs := (objs demo)(1 := KeInitializeEvent SynchronizationObject False)\<rparr> in
   \<exists>s1 s2 s3 s4. wait_begin 7 [0, 1] WaitAny None False False s = (s1, None) \<and>
    KeSetEvent 0 s1 = Some (s2, 0) \<and> KeSetEvent 1 s2 = Some (s3, 0) \<and>
    wait_resume 7 1 s3 = Some (s4, Some STATUS_WAIT_0) \<and>
    signal_state (objs s4 0) = 0 \<and> signal_state (objs s4 1) = 0"
  unfolding Let_def by (rule WaitAny_consumes_two_events) (simp_all add: demo_def)

text \<open>A wait attempted at raised IRQL fails with STATUS_INVALID_PARAMETER only after its
  wait blocks have been queued: the block of a call that has returned stays on the
  object, and setting the event then touches freed memory.\<close>

theorem wait_raised_leaves_block:
  assumes "is_event (objs s ob)" "signal_state (objs s ob) = 0" "wait_blocks (objs s ob) = []"
    and "timeout \<noteq> Some 0" "waiters s t = None"
  shows "\<exists>s1. KeWaitForSingleObject t ob timeout True s = (s1, Some STATUS_INVALID_PARAMETER) \<and>
    wait_blocks (objs s1 ob) = [(t, 0)] \<and> KeSetEvent ob s1 = None"
  using assms
  by (auto simp: KeWaitForSingleObject_def wait_begin_def wait_begin_at_def grab_object_def is_event_def
      MAX_WAIT_OBJECTS_def THREAD_WAIT_OBJECTS_def KeSetEvent_def object_signaled_def)

theorem wait_raised_leaves_block_witness:
  "\<exists>s1. KeWaitForSingleObject 7 0 None True demo = (s1, Some STATUS_INVALID_PARAMETER) \<and>
    wait_blocks (objs s1 0) = [(7, 0)] \<and> KeSetEvent 0 s1 = None"
  by (rule wait_raised_leaves_block) (simp_all add: wait_eval is_event_def)

end
