(* ===== verification/Byte_Image.thy ===== *)
theory Byte_Image
  imports Prelude
begin

text \<open>
  Little-endian integers and C strings inside a byte block, the way the driver overlays
  structures on an image or a data buffer.  A field access outside the block is \<open>None\<close>.
  The locale \<open>field\<close> states the laws of a typed field (what a read returns after a write
  at the same place, and that a write leaves every disjoint field alone); it is
  interpreted for the 16-, 32- and 64-bit fields.
\<close>

primrec le_val :: "u8 list \<Rightarrow> int" where
  "le_val [] = 0"
| "le_val (b # bs) = uint b + 256 * le_val bs"

primrec le_put :: "nat \<Rightarrow> int \<Rightarrow> u8 list" where
  "le_put 0 v = []"
| "le_put (Suc n) v = word_of_int (v mod 256) # le_put n (v div 256)"

definition rdn :: "nat \<Rightarrow> u8 list \<Rightarrow> nat \<Rightarrow> int option" where
  "rdn n b off = (if off + n \<le> length b then Some (le_val (take n (drop off b))) else None)"

definition wrn :: "nat \<Rightarrow> u8 list \<Rightarrow> nat \<Rightarrow> int \<Rightarrow> u8 list option" where
  "wrn n b off v =
     (if off + n \<le> length b then Some (take off b @ le_put n v @ drop (off + n) b) else None)"

definition rd16 :: "u8 list \<Rightarrow> nat \<Rightarrow> u16 option" where
  "rd16 b off = map_option word_of_int (rdn 2 b off)"
definition rd32 :: "u8 list \<Rightarrow> nat \<Rightarrow> u32 option" where
  "rd32 b off = map_option word_of_int (rdn 4 b off)"
definition rd64 :: "u8 list \<Rightarrow> nat \<Rightarrow> u64 option" where
  "rd64 b off = map_option word_of_int (rdn 8 b off)"

definition wr16 :: "u8 list \<Rightarrow> nat \<Rightarrow> u16 \<Rightarrow> u8 list option" where
  "wr16 b off v = wrn 2 b off (uint v)"
definition wr32 :: "u8 list \<Rightarrow> nat \<Rightarrow> u32 \<Rightarrow> u8 list option" where
  "wr32 b off v = wrn 4 b off (uint v)"
definition wr64 :: "u8 list \<Rightarrow> nat \<Rightarrow> u64 \<Rightarrow> u8 list option" where
  "wr64 b off v = wrn 8 b off (uint v)"

text \<open>The NUL-terminated string at the start of a block, without its terminator.\<close>

primrec cstr :: "u8 list \<Rightarrow> u8 list option" where
  "cstr [] = None"
| "cstr (c # cs) = (if c = 0 then Some [] else map_option ((#) c) (cstr cs))"

definition cstr_at :: "u8 list \<Rightarrow> nat \<Rightarrow> u8 list option" where
  "cstr_at b off = cstr (drop off b)"

lemma cstr_of_prefix: "0 \<notin> set s \<Longrightarrow> cstr (s @ 0 # r) = Some s"
  by (induction s) auto

section \<open>Encoding\<close>

lemma le_put_length [simp]: "length (le_put n v) = n"
  by (induction n arbitrary: v) auto

lemma le_val_put: "le_val (le_put n v) = v mod 256 ^ n"
proof (induction n arbitrary: v)
  case (Suc n)
  have "uint (word_of_int (v mod 256) :: u8) = v mod 256"
    by (simp add: unsigned_of_int take_bit_eq_mod)
  then show ?case
    using Suc [of "v div 256"] by (simp add: zmod_zmult2_eq)
qed simp

lemma le_put_val: "le_put (length bs) (le_val bs) = bs"
proof (induction bs)
  case (Cons b bs)
  have u: "uint b < 256" using unsigned_less [of b] by simp
  then have "(uint b + 256 * le_val bs) div 256 = le_val bs"
    by simp
  moreover have "(uint b + 256 * le_val bs) mod 256 = uint b"
    using u by simp
  ultimately show ?case using Cons by simp
qed simp

lemma le_val_bound: "0 \<le> le_val bs \<and> le_val bs < 256 ^ length bs"
proof (induction bs)
  case (Cons b bs)
  have u: "uint b < 256" using unsigned_less [of b] by simp
  have "256 * le_val bs + 256 \<le> 256 * 256 ^ length bs"
    using Cons by simp
  with u Cons show ?case by simp
qed simp

lemma wrn_length: "wrn n b off v = Some b' \<Longrightarrow> length b' = length b"
  by (auto simp: wrn_def split: if_splits)

lemma wrn_defined: "off + n \<le> length b \<longleftrightarrow> (\<exists>b'. wrn n b off v = Some b')"
  by (auto simp: wrn_def)

lemma rdn_wrn_same: "wrn n b off v = Some b' \<Longrightarrow> rdn n b' off = Some (v mod 256 ^ n)"
  by (auto simp: wrn_def rdn_def le_val_put split: if_splits)

lemma wrn_frame:
  assumes "wrn n b off v = Some b'" "i < off \<or> off + n \<le> i"
  shows "drop i b' ! 0 = drop i b ! 0 \<or> length b \<le> i" "i < length b \<Longrightarrow> b' ! i = b ! i"
proof -
  have b': "b' = take off b @ le_put n v @ drop (off + n) b" and len: "off + n \<le> length b"
    using assms(1) by (auto simp: wrn_def split: if_splits)
  show "i < length b \<Longrightarrow> b' ! i = b ! i"
    using assms(2) len by (auto simp: b' nth_append min_def)
  then show "drop i b' ! 0 = drop i b ! 0 \<or> length b \<le> i"
    using wrn_length [OF assms(1)] by (cases "i < length b") (auto simp: nth_drop)
qed

lemma slice_cong:
  assumes "length b' = length b" "\<And>i. off \<le> i \<Longrightarrow> i < off + n \<Longrightarrow> i < length b \<Longrightarrow> b' ! i = b ! i"
  shows "take n (drop off b') = take n (drop off b)"
  using assms by (intro nth_equalityI) auto

lemma rdn_wrn_other:
  assumes "wrn n b off v = Some b'" "off' + m \<le> off \<or> off + n \<le> off'"
  shows "rdn m b' off' = rdn m b off'"
proof -
  have "take m (drop off' b') = take m (drop off' b)"
    using assms wrn_length [OF assms(1)]
    by (intro slice_cong) (auto intro!: wrn_frame(2) [OF assms(1)])
  then show ?thesis
    using wrn_length [OF assms(1)] by (simp add: rdn_def)
qed

lemma wrn_id: "rdn n b off = Some v \<Longrightarrow> wrn n b off v = Some b"
proof -
  assume r: "rdn n b off = Some v"
  then have len: "off + n \<le> length b" and v: "v = le_val (take n (drop off b))"
    by (auto simp: rdn_def split: if_splits)
  have "le_put n v = take n (drop off b)"
    using le_put_val [of "take n (drop off b)"] len v by simp
  moreover have "take off b @ take n (drop off b) @ drop (off + n) b = b"
    by (metis append_take_drop_id drop_drop add.commute)
  ultimately show ?thesis using len by (simp add: wrn_def)
qed

lemma rdn_defined: "rdn n b off = Some v \<Longrightarrow> off + n \<le> length b \<and> 0 \<le> v \<and> v < 256 ^ n"
proof -
  assume r: "rdn n b off = Some v"
  then have "off + n \<le> length b" "v = le_val (take n (drop off b))"
    by (auto simp: rdn_def split: if_splits)
  moreover from this have "length (take n (drop off b)) = n" by simp
  ultimately show ?thesis using le_val_bound [of "take n (drop off b)"] by simp
qed

section \<open>The contract of a field\<close>

locale field =
  fixes width :: nat and get :: "u8 list \<Rightarrow> nat \<Rightarrow> 'w option" and put :: "u8 list \<Rightarrow> nat \<Rightarrow> 'w \<Rightarrow> u8 list option"
  assumes get_dom: "get b off = Some w \<Longrightarrow> off + width \<le> length b"
    and get_ex: "off + width \<le> length b \<Longrightarrow> \<exists>w. get b off = Some w"
    and put_ex: "off + width \<le> length b \<Longrightarrow> \<exists>b'. put b off w = Some b'"
    and put_dom: "put b off w = Some b' \<Longrightarrow> off + width \<le> length b \<and> length b' = length b"
    and get_put: "put b off w = Some b' \<Longrightarrow> get b' off = Some w"
    and put_put: "put b off w = Some b' \<Longrightarrow> put b' off v = put b off v"
    and put_get: "get b off = Some w \<Longrightarrow> put b off w = Some b"
    and put_frame: "put b off w = Some b' \<Longrightarrow> i < off \<or> off + width \<le> i \<Longrightarrow> i < length b \<Longrightarrow> b' ! i = b ! i"
    and get_local: "length b' = length b \<Longrightarrow> (\<And>i. off \<le> i \<Longrightarrow> i < off + width \<Longrightarrow> i < length b \<Longrightarrow> b' ! i = b ! i) \<Longrightarrow>
          get b' off = get b off"
    and get_inj: "get b off = Some w \<Longrightarrow> get b' off = Some w \<Longrightarrow> off \<le> i \<Longrightarrow> i < off + width \<Longrightarrow> b' ! i = b ! i"
begin

lemma get_put_other:
  assumes "put b off w = Some b'" "off' + width \<le> off \<or> off + width \<le> off'"
  shows "get b' off' = get b off'"
  using assms put_dom [OF assms(1)] by (intro get_local) (auto intro!: put_frame [OF assms(1)])

lemma put_undo:
  assumes "get b off = Some v" "put b off w = Some b'"
  shows "put b' off v = Some b"
proof -
  obtain b2 where b2: "put b' off v = Some b2"
    using put_ex put_dom [OF assms(2)] by metis
  then have "put b off v = Some b2" using put_put [OF assms(2)] by simp
  with put_get [OF assms(1)] b2 show ?thesis by simp
qed

lemma get_put_iff:
  assumes "put b off w = Some b'"
  shows "get b' off = Some v \<longleftrightarrow> v = w"
  using get_put [OF assms] by auto

end

text \<open>Every width whose words are exactly the values of that many bytes gives a field.\<close>

lemma wrn_put_put: "wrn n b off w = Some b' \<Longrightarrow> wrn n b' off v = wrn n b off v"
  by (auto simp: wrn_def min_def split: if_splits)

lemma rdn_local:
  "length b' = length b \<Longrightarrow> (\<And>i. off \<le> i \<Longrightarrow> i < off + n \<Longrightarrow> i < length b \<Longrightarrow> b' ! i = b ! i) \<Longrightarrow>
   rdn n b' off = rdn n b off"
  using slice_cong [of b' b off n] by (auto simp: rdn_def)

lemma rdn_inj:
  assumes "rdn n b off = Some v" "rdn n b' off = Some v" "off \<le> i" "i < off + n"
  shows "b' ! i = b ! i"
proof -
  have len: "off + n \<le> length b" "off + n \<le> length b'"
    using assms(1,2) rdn_defined by blast+
  have "take n (drop off b) = take n (drop off b')"
    using assms(1,2) len le_put_val [of "take n (drop off b)"] le_put_val [of "take n (drop off b')"]
    by (simp add: rdn_def)
  then have "take n (drop off b) ! (i - off) = take n (drop off b') ! (i - off)" by simp
  with assms(3,4) len show ?thesis by simp
qed

lemma word_field:
  assumes n: "256 ^ n = (2 :: int) ^ LENGTH('w::len)"
  shows "field n (\<lambda>b off. map_option word_of_int (rdn n b off) :: 'w word option) (\<lambda>b off w. wrn n b off (uint w))"
proof
  fix b off and w :: "'w word" and b' i v
  show "map_option word_of_int (rdn n b off) = Some w \<Longrightarrow> off + n \<le> length b"
    by (auto dest: rdn_defined)
  show "off + n \<le> length b \<Longrightarrow> \<exists>w :: 'w word. map_option word_of_int (rdn n b off) = Some w"
    by (auto simp: rdn_def)
  show "off + n \<le> length b \<Longrightarrow> \<exists>b'. wrn n b off (uint w) = Some b'"
    by (auto simp: wrn_def)
  show "wrn n b off (uint w) = Some b' \<Longrightarrow> off + n \<le> length b \<and> length b' = length b"
    by (auto simp: wrn_def split: if_splits)
  show "wrn n b off (uint w) = Some b' \<Longrightarrow> map_option word_of_int (rdn n b' off) = Some w"
    using n unsigned_less [of w] by (auto dest!: rdn_wrn_same)
  show "map_option word_of_int (rdn n b off) = Some w \<Longrightarrow> wrn n b off (uint w) = Some b"
    using n rdn_defined [of n b off] by (auto intro!: wrn_id simp: unsigned_of_int take_bit_int_eq_self)
  show "wrn n b off (uint w) = Some b' \<Longrightarrow> i < off \<or> off + n \<le> i \<Longrightarrow> i < length b \<Longrightarrow> b' ! i = b ! i"
    by (rule wrn_frame(2))
  show "wrn n b off (uint w) = Some b' \<Longrightarrow> wrn n b' off (uint v) = wrn n b off (uint (v :: 'w word))"
    by (rule wrn_put_put)
  show "length b' = length b \<Longrightarrow> (\<And>i. off \<le> i \<Longrightarrow> i < off + n \<Longrightarrow> i < length b \<Longrightarrow> b' ! i = b ! i) \<Longrightarrow>
      (map_option word_of_int (rdn n b' off) :: 'w word option) = map_option word_of_int (rdn n b off)"
    by (rule arg_cong [where f = "map_option word_of_int"], rule rdn_local)
  show "map_option word_of_int (rdn n b off) = Some w \<Longrightarrow> map_option word_of_int (rdn n b' off) = Some w \<Longrightarrow>
      off \<le> i \<Longrightarrow> i < off + n \<Longrightarrow> b' ! i = b ! i"
    using n rdn_inj [of n b off _ b' i] rdn_defined [of n b off] rdn_defined [of n b' off]
    by (auto simp: word_of_int_eq_iff take_bit_int_eq_self)
qed

interpretation f16: field 2 rd16 wr16
  unfolding rd16_def [abs_def] wr16_def [abs_def] by (rule word_field) simp

interpretation f32: field 4 rd32 wr32
  unfolding rd32_def [abs_def] wr32_def [abs_def] by (rule word_field) simp

interpretation f64: field 8 rd64 wr64
  unfolding rd64_def [abs_def] wr64_def [abs_def] by (rule word_field) simp

end
