(* ===== verification/Pe_Linker.thy ===== *)
theory Pe_Linker
  imports Byte_Image
begin

text \<open>
  The PE loader of \<^verbatim>\<open>pe_linker.c\<close> (x86-64 build): header validation, the expansion of a driver
  file to its memory image, base relocations, import binding, the export table that
  driver images share, and \<^verbatim>\<open>link_pe_images\<close>.

  An image is the list of its bytes together with the address it is mapped at; every
  pointer the source forms into an image is an offset of that list, and a read or write
  outside the list is \<open>None\<close>.  The structures of \<^verbatim>\<open>pe_linker.h\<close> are read at their offsets.
  The wrapper tables \<^verbatim>\<open>ntoskernel_exports\<close>, \<^verbatim>\<open>ndis_exports\<close>, ... are generated by the build, so
  they are one parameter \<open>tbl\<close>, the concatenation of the tables in the order in which
  get_export tries them; \<^verbatim>\<open>nvmalloc\<close> is the parameter \<open>alloc\<close>, indexed by the image it is called for.
\<close>

section \<open>State and constants\<close>

record pe_image =
  pe_name :: "u8 list"
  pe_entry :: ptr
  pe_base :: ptr
  pe_bytes :: "u8 list"
  pe_size :: u32
  pe_type :: int
  nt_hdr :: nat

text \<open>An entry of \<^verbatim>\<open>pe_exports\<close>: the name of its image, the place of the symbol's name (the address
  of the image and the offset in it), and the symbol's address.\<close>

record pe_export =
  ex_dll :: "u8 list"
  ex_name :: "ptr \<times> nat"
  ex_addr :: ptr

definition MAX_PE_EXPORTS :: nat where "MAX_PE_EXPORTS = 40"

abbreviation EINVAL :: int where "EINVAL \<equiv> 22"
abbreviation ENOMEM :: int where "ENOMEM \<equiv> 12"
abbreviation EOPNOTSUPP :: int where "EOPNOTSUPP \<equiv> 95"

definition IMAGE_FILE_RELOCS_STRIPPED :: u16 where "IMAGE_FILE_RELOCS_STRIPPED = 0x0001"
definition IMAGE_FILE_EXECUTABLE_IMAGE :: u16 where "IMAGE_FILE_EXECUTABLE_IMAGE = 0x0002"
definition IMAGE_FILE_LARGE_ADDRESS_AWARE :: u16 where "IMAGE_FILE_LARGE_ADDRESS_AWARE = 0x0020"
definition IMAGE_FILE_DLL :: u16 where "IMAGE_FILE_DLL = 0x2000"
definition IMAGE_ORDINAL_FLAG :: u64 where "IMAGE_ORDINAL_FLAG = 0x8000000000000000"
definition KI_USER_SHARED_DATA :: u64 where "KI_USER_SHARED_DATA = 0xfffff78000000000"

text \<open>\<^verbatim>\<open>sizeof(kuser_shared_data)\<close> with the alignment of the x86-64 ABI.\<close>

definition sizeof_kuser_shared_data :: u64 where "sizeof_kuser_shared_data = 816"

section \<open>Exported symbols\<close>

text \<open>\<^verbatim>\<open>strcmp(a, b) == 0\<close>; running off the end of a block before the comparison is decided is a fault.\<close>

fun strcmp_eq :: "u8 list \<Rightarrow> u8 list \<Rightarrow> bool option" where
  "strcmp_eq (a # as) (b # bs) =
     (if a \<noteq> b then Some False else if a = 0 then Some True else strcmp_eq as bs)"
| "strcmp_eq _ _ = None"

definition export_name :: "pe_image list \<Rightarrow> pe_export \<Rightarrow> u8 list option" where
  "export_name pes e =
     map_option (\<lambda>p. drop (snd (ex_name e)) (pe_bytes p)) (find (\<lambda>p. pe_base p = fst (ex_name e)) pes)"

fun find_wrap :: "(u8 list \<times> ptr) list \<Rightarrow> u8 list \<Rightarrow> ptr option option" where
  "find_wrap [] name = Some None"
| "find_wrap ((n, f) # r) name =
     do { eq \<leftarrow> strcmp_eq n name; if eq then Some (Some f) else find_wrap r name }"

fun find_pe :: "pe_image list \<Rightarrow> pe_export list \<Rightarrow> u8 list \<Rightarrow> ptr option option" where
  "find_pe pes [] name = Some None"
| "find_pe pes (e # r) name =
     do { n \<leftarrow> export_name pes e; eq \<leftarrow> strcmp_eq n name;
          if eq then Some (Some (ex_addr e)) else find_pe pes r name }"

text \<open>\<open>Some None\<close> is the result \<^verbatim>\<open>-1\<close>.\<close>

definition get_export :: "(u8 list \<times> ptr) list \<Rightarrow> pe_export list \<Rightarrow> pe_image list \<Rightarrow> u8 list \<Rightarrow> ptr option option" where
  "get_export tbl exps pes name =
     do { w \<leftarrow> find_wrap tbl name;
          case w of Some f \<Rightarrow> Some (Some f) | None \<Rightarrow> find_pe pes exps name }"

definition DllInitialize :: "u8 list" where
  "DllInitialize = map (of_nat \<circ> of_char) ''DllInitialize'' @ [0]"

fun get_dll_init :: "pe_image list \<Rightarrow> pe_export list \<Rightarrow> u8 list \<Rightarrow> ptr option" where
  "get_dll_init pes [] name = Some NULL"
| "get_dll_init pes (e # r) name =
     (if ex_dll e = name then
        do { n \<leftarrow> export_name pes e; eq \<leftarrow> strcmp_eq n DllInitialize;
             if eq then Some (ex_addr e) else get_dll_init pes r name }
      else get_dll_init pes r name)"

section \<open>Header validation\<close>

definition check_nt_hdr :: "u8 list \<Rightarrow> nat \<Rightarrow> int option" where
  "check_nt_hdr im nt =
     do { sig \<leftarrow> rd32 im nt;
          if sig \<noteq> 0x4550 then Some (- EINVAL) else
     do { magic \<leftarrow> rd16 im (nt + 24);
          if magic \<noteq> 0x20b then Some (- EINVAL) else
     do { machine \<leftarrow> rd16 im (nt + 4);
          if machine \<noteq> 0x8664 then Some (- EINVAL) else
     do { chars \<leftarrow> rd16 im (nt + 22);
          let attr = IMAGE_FILE_EXECUTABLE_IMAGE OR IMAGE_FILE_LARGE_ADDRESS_AWARE in
          if chars AND attr \<noteq> attr then Some (- EINVAL)
          else if chars AND IMAGE_FILE_RELOCS_STRIPPED \<noteq> 0 then Some (- EINVAL) else
     do { nsec \<leftarrow> rd16 im (nt + 6);
          if nsec = 0 then Some (- EINVAL) else
     do { salign \<leftarrow> rd32 im (nt + 56);
          falign \<leftarrow> rd32 im (nt + 60);
          if salign < falign then Some (- EINVAL)
          else if chars AND IMAGE_FILE_EXECUTABLE_IMAGE \<noteq> 0 then Some (uint IMAGE_FILE_EXECUTABLE_IMAGE)
          else if chars AND IMAGE_FILE_DLL \<noteq> 0 then Some (uint IMAGE_FILE_DLL)
          else Some (- EINVAL) } } } } } }"

section \<open>Imports\<close>

text \<open>The loop of \<^verbatim>\<open>import\<close> over image \<open>k\<close>, whose bytes are \<open>im\<close>: \<open>lk\<close> and \<open>ad\<close> are the offsets of the
  lookup and the address table.  Names of exported symbols are read in the current images.\<close>

function import_loop ::
  "(u8 list \<times> ptr) list \<Rightarrow> pe_export list \<Rightarrow> pe_image list \<Rightarrow> nat \<Rightarrow> nat \<Rightarrow> nat \<Rightarrow> nat \<Rightarrow> int \<Rightarrow> u8 list \<Rightarrow>
   (u8 list \<times> int) option" where
  "import_loop tbl exps pes k lk ad i ret im =
     do { e \<leftarrow> rd64 im (lk + 8 * i);
          if e = 0 then Some (im, ret)
          else if e AND IMAGE_ORDINAL_FLAG \<noteq> 0 then Some (im, - 1) else
     do { f \<leftarrow> get_export tbl exps (pes[k := (pes ! k)\<lparr>pe_bytes := im\<rparr>])
                 (drop (unat ((e AND NOT IMAGE_ORDINAL_FLAG) + 2)) im);
          case f of
            None \<Rightarrow> import_loop tbl exps pes k lk ad (Suc i) (- 1) im
          | Some a \<Rightarrow>
              do { im' \<leftarrow> wr64 im (ad + 8 * i) a;
                   import_loop tbl exps pes k lk ad (Suc i) ret im' } } }"
  by pat_completeness auto
termination
  by (relation "measure (\<lambda>(tbl, exps, pes, k, lk, ad, i, ret, im). length im - (lk + 8 * i))")
    (auto dest!: f64.get_dom f64.put_dom)

declare import_loop.simps [simp del]

definition import ::
  "(u8 list \<times> ptr) list \<Rightarrow> pe_export list \<Rightarrow> pe_image list \<Rightarrow> nat \<Rightarrow> nat \<Rightarrow> u8 list \<Rightarrow> (u8 list \<times> int) option" where
  "import tbl exps pes k d im =
     do { lk \<leftarrow> rd32 im d; ad \<leftarrow> rd32 im (d + 16);
          import_loop tbl exps pes k (unat lk) (unat ad) 0 0 im }"

lemma import_loop_length:
  "import_loop tbl exps pes k lk ad i ret im = Some (im', r) \<Longrightarrow> length im' = length im"
proof (induction "length im - (lk + 8 * i)" arbitrary: i ret im rule: less_induct)
  case less
  obtain e where e: "rd64 im (lk + 8 * i) = Some e"
    using less.prems by (subst (asm) import_loop.simps) (auto simp: bind_eq_Some_conv)
  have dec: "length im2 - (lk + 8 * Suc i) < length im - (lk + 8 * i)" if "length im2 = length im" for im2
    using f64.get_dom [OF e] that by (simp add: algebra_simps; arith)
  show ?case
    using less.prems e by (subst (asm) import_loop.simps)
      (auto simp: bind_eq_Some_conv f64.put_dom dest!: less.hyps [OF dec, rotated]
        split: if_splits option.splits)
qed

lemma import_length: "import tbl exps pes k d im = Some (im', r) \<Longrightarrow> length im' = length im"
  by (auto simp: import_def bind_eq_Some_conv dest: import_loop_length)

text \<open>The loop over the import descriptors from offset \<open>d\<close> on.\<close>

function imports_loop ::
  "(u8 list \<times> ptr) list \<Rightarrow> pe_export list \<Rightarrow> pe_image list \<Rightarrow> nat \<Rightarrow> nat \<Rightarrow> int \<Rightarrow> u8 list \<Rightarrow> (u8 list \<times> int) option" where
  "imports_loop tbl exps pes k d ret im =
     do { name \<leftarrow> rd32 im (d + 12);
          if name = 0 then Some (im, ret) else
     do { (im', r) \<leftarrow> import tbl exps pes k d im;
          imports_loop tbl exps pes k (d + 20) (ret + r) im' } }"
  by pat_completeness auto
termination
  by (relation "measure (\<lambda>(tbl, exps, pes, k, d, ret, im). length im - d)")
    (auto dest!: f32.get_dom import_length)

declare imports_loop.simps [simp del]

definition fixup_imports ::
  "(u8 list \<times> ptr) list \<Rightarrow> pe_export list \<Rightarrow> pe_image list \<Rightarrow> nat \<Rightarrow> nat \<Rightarrow> u8 list \<Rightarrow> (u8 list \<times> int) option" where
  "fixup_imports tbl exps pes k nt im =
     do { d \<leftarrow> rd32 im (nt + 136 + 8 * 1); imports_loop tbl exps pes k (unat d) 0 im }"

lemma imports_loop_length:
  "imports_loop tbl exps pes k d ret im = Some (im', r) \<Longrightarrow> length im' = length im"
proof (induction "length im - d" arbitrary: d ret im rule: less_induct)
  case less
  obtain n where n: "rd32 im (d + 12) = Some n"
    using less.prems by (subst (asm) imports_loop.simps) (auto simp: bind_eq_Some_conv)
  have dec: "length im2 - (d + 20) < length im - d" if "length im2 = length im" for im2
    using f32.get_dom [OF n] that by linarith
  show ?case
    using less.prems n by (subst (asm) imports_loop.simps)
      (auto simp: bind_eq_Some_conv import_length dest!: less.hyps [OF dec, rotated] split: if_splits)
qed

section \<open>Exports\<close>

text \<open>The loop over \<open>n\<close> names: \<open>nm\<close> and \<open>fn\<close> are the offsets of the current entries of the name and
  function tables.  Writing past the 40 entries of \<^verbatim>\<open>pe_exports\<close> is a fault.\<close>

primrec exports_loop :: "pe_image \<Rightarrow> nat \<Rightarrow> nat \<Rightarrow> nat \<Rightarrow> pe_export list \<Rightarrow> pe_export list option" where
  "exports_loop pe nm fn 0 exps = Some exps"
| "exports_loop pe nm fn (Suc n) exps =
     do { name \<leftarrow> rd32 (pe_bytes pe) nm;
          addr \<leftarrow> rd32 (pe_bytes pe) fn;
          if length exps < MAX_PE_EXPORTS
          then exports_loop pe (nm + 4) (fn + 4) n
                 (exps @ [\<lparr>ex_dll = pe_name pe, ex_name = (pe_base pe, unat name), ex_addr = pe_base pe + ucast addr\<rparr>])
          else None }"

definition read_exports :: "pe_image \<Rightarrow> pe_export list \<Rightarrow> (pe_export list \<times> int) option" where
  "read_exports pe exps =
     do { sz \<leftarrow> rd32 (pe_bytes pe) (nt_hdr pe + 136 + 4);
          if sz = 0 then Some (exps, 0) else
     do { va \<leftarrow> rd32 (pe_bytes pe) (nt_hdr pe + 136);
          names \<leftarrow> rd32 (pe_bytes pe) (unat va + 32);
          funs \<leftarrow> rd32 (pe_bytes pe) (unat va + 28);
          n \<leftarrow> rd32 (pe_bytes pe) (unat va + 24);
          exps' \<leftarrow> exports_loop pe (unat names) (unat funs) (unat n) exps;
          Some (exps', 0) } }"

section \<open>Base relocations\<close>

text \<open>One entry of a relocation block: \<open>base\<close> is the address of the image, \<open>ib\<close> its preferred address,
  \<open>rva\<close> the address of the page the block describes.\<close>

definition reloc_one :: "ptr \<Rightarrow> u64 \<Rightarrow> u32 \<Rightarrow> u16 \<Rightarrow> u8 list \<Rightarrow> (u8 list \<times> int) option" where
  "reloc_one base ib rva fixup im =
     (let offset = fixup AND 0xfff;
          typ = drop_bit 12 fixup AND 0xf;
          loc = unat (rva + ucast offset) in
      if typ = 0 then Some (im, 0)
      else if typ = 3 then
        do { v \<leftarrow> rd32 im loc; im' \<leftarrow> wr32 im loc (ucast (base + (ucast v - ib))); Some (im', 0) }
      else if typ = 10 then
        do { v \<leftarrow> rd64 im loc; im' \<leftarrow> wr64 im loc (base + (v - ib)); Some (im', 0) }
      else Some (im, - EOPNOTSUPP))"

primrec reloc_entries :: "ptr \<Rightarrow> u64 \<Rightarrow> nat \<Rightarrow> nat \<Rightarrow> nat \<Rightarrow> u8 list \<Rightarrow> (u8 list \<times> int) option" where
  "reloc_entries base ib blk i 0 im = Some (im, 0)"
| "reloc_entries base ib blk i (Suc n) im =
     do { fixup \<leftarrow> rd16 im (blk + 8 + 2 * i);
          rva \<leftarrow> rd32 im blk;
          (im', r) \<leftarrow> reloc_one base ib rva fixup im;
          if r \<noteq> 0 then Some (im', r) else reloc_entries base ib blk (Suc i) n im' }"

lemma reloc_one_length: "reloc_one base ib rva fixup im = Some (im', r) \<Longrightarrow> length im' = length im"
  by (auto simp: reloc_one_def Let_def bind_eq_Some_conv dest: f32.put_dom f64.put_dom split: if_splits)

lemma reloc_entries_length:
  "reloc_entries base ib blk i n im = Some (im', r) \<Longrightarrow> length im' = length im"
  by (induction n arbitrary: i im)
    (auto simp: bind_eq_Some_conv dest: reloc_one_length split: if_splits prod.splits)

text \<open>The loop over the blocks.  \<^verbatim>\<open>SizeOfBlock - sizeof(IMAGE_BASE_RELOCATION)\<close> is a 64-bit difference.
  The size is read again to find the next block; if a relocation has cleared it the loop
  condition is false and the loop ends.\<close>

function reloc_blocks :: "ptr \<Rightarrow> u64 \<Rightarrow> nat \<Rightarrow> u8 list \<Rightarrow> (u8 list \<times> int) option" where
  "reloc_blocks base ib blk im =
     do { sz \<leftarrow> rd32 im (blk + 4);
          if sz = 0 then Some (im, 0) else
     do { (im', r) \<leftarrow> reloc_entries base ib blk 0 (unat ((ucast sz - 8 :: u64) div 2)) im;
          if r \<noteq> 0 then Some (im', r) else
     do { sz' \<leftarrow> rd32 im' (blk + 4);
          if sz' = 0 then Some (im', 0) else reloc_blocks base ib (blk + unat sz') im' } } }"
  by pat_completeness auto
termination
  by (relation "measure (\<lambda>(base, ib, blk, im). length im - blk)")
    (auto dest!: f32.get_dom reloc_entries_length simp: unat_eq_0 intro!: diff_less_mono2 simp: unat_gt_0)

declare reloc_blocks.simps [simp del]

definition fixup_reloc :: "ptr \<Rightarrow> nat \<Rightarrow> u8 list \<Rightarrow> (u8 list \<times> int) option" where
  "fixup_reloc base nt im =
     do { ib \<leftarrow> rd64 im (nt + 48);
          sz \<leftarrow> rd32 im (nt + 136 + 8 * 5 + 4);
          if sz = 0 then Some (im, 0) else
     do { va \<leftarrow> rd32 im (nt + 136 + 8 * 5);
          reloc_blocks base ib (unat va) im } }"

section \<open>Expansion of a driver file\<close>

text \<open>\<^verbatim>\<open>IMAGE_FIRST_SECTION(nt_hdr)\<close>, with the size of the optional header.\<close>

definition IMAGE_FIRST_SECTION :: "nat \<Rightarrow> u16 \<Rightarrow> nat" where
  "IMAGE_FIRST_SECTION nt sooh = nt + 24 + unat sooh"

text \<open>The copy loop over \<open>n\<close> section headers at \<open>sh\<close> of the file; \<open>Some None\<close> is the result \<^verbatim>\<open>-EINVAL\<close>.  The
  bound check adds two 32-bit numbers.\<close>

primrec copy_sections :: "u8 list \<Rightarrow> u32 \<Rightarrow> nat \<Rightarrow> nat \<Rightarrow> u8 list \<Rightarrow> u8 list option option" where
  "copy_sections file image_size sh 0 img = Some (Some img)"
| "copy_sections file image_size sh (Suc n) img =
     do { va \<leftarrow> rd32 file (sh + 12);
          rsz \<leftarrow> rd32 file (sh + 16);
          if va + rsz > image_size then Some None else
     do { ptr \<leftarrow> rd32 file (sh + 20);
          img' \<leftarrow> blk_copy img (unat va) file (unat ptr) (unat rsz);
          copy_sections file image_size (sh + 40) n img' } }"

definition fix_pe_image :: "(u64 \<Rightarrow> ptr option) \<Rightarrow> pe_image \<Rightarrow> (pe_image \<times> int) option" where
  "fix_pe_image nvmalloc pe =
     (let file = pe_bytes pe; nt = nt_hdr pe in
      do { image_size \<leftarrow> rd32 file (nt + 80);
           if pe_size pe = image_size then Some (pe, 0) else
           case nvmalloc (scast image_size) of
             None \<Rightarrow> Some (pe, - ENOMEM)
           | Some newimage \<Rightarrow>
      do { sections \<leftarrow> rd16 file (nt + 6);
           sooh \<leftarrow> rd16 file (nt + 20);
           let sect_hdr = IMAGE_FIRST_SECTION nt sooh in
      do { hdrs \<leftarrow> rd32 file (sect_hdr + 20);
           img \<leftarrow> blk_copy (replicate (unat (scast image_size :: u64)) 0) 0 file 0 (unat hdrs);
           res \<leftarrow> copy_sections file image_size sect_hdr (unat sections) img;
           case res of
             None \<Rightarrow> Some (pe, - EINVAL)
           | Some img' \<Rightarrow>
               do { lfanew \<leftarrow> rd32 img' 0x3c;
                    Some (pe\<lparr>pe_base := newimage, pe_bytes := img', pe_size := image_size,
                             nt_hdr := unat lfanew\<rparr>, 0) } } } })"

section \<open>The shared user data page\<close>

text \<open>Every 8-byte window that points into the Windows page is redirected to \<open>ksd\<close>, the address of
  \<^verbatim>\<open>kuser_shared_data\<close>; the flag is its field \<^verbatim>\<open>reserved1\<close>.\<close>

primrec usd_loop :: "u64 \<Rightarrow> nat \<Rightarrow> nat \<Rightarrow> u8 list \<Rightarrow> bool \<Rightarrow> (u8 list \<times> bool) option" where
  "usd_loop ksd i 0 im used = Some (im, used)"
| "usd_loop ksd i (Suc n) im used =
     do { addr \<leftarrow> rd64 im i;
          if addr \<ge> KI_USER_SHARED_DATA \<and> addr < KI_USER_SHARED_DATA + sizeof_kuser_shared_data
          then do { im' \<leftarrow> wr64 im i (addr - KI_USER_SHARED_DATA + ksd); usd_loop ksd (Suc i) n im' True }
          else usd_loop ksd (Suc i) n im used }"

definition fix_user_shared_data_addr :: "u64 \<Rightarrow> u8 list \<Rightarrow> u32 \<Rightarrow> bool \<Rightarrow> (u8 list \<times> bool) option" where
  "fix_user_shared_data_addr ksd driver len used = usd_loop ksd 0 (unat (scast len - 8 :: u64)) driver used"

section \<open>Linking\<close>

record link_state =
  ls_images :: "pe_image list"
  ls_exports :: "pe_export list"
  ls_shared_data_used :: bool

text \<open>The first loop: validate, expand, collect exports.  The result is 0 or \<^verbatim>\<open>-EINVAL\<close>.\<close>

definition link_one :: "(u64 \<Rightarrow> ptr option) \<Rightarrow> nat \<Rightarrow> link_state \<Rightarrow> (link_state \<times> int) option" where
  "link_one nvmalloc i s =
     (let pe = ls_images s ! i in
      if (scast (pe_size pe) :: u64) < 64 then Some (s, - EINVAL) else
      do { lfanew \<leftarrow> rd32 (pe_bytes pe) 0x3c;
           t \<leftarrow> check_nt_hdr (pe_bytes pe) (unat lfanew);
           let pe1 = pe\<lparr>nt_hdr := unat lfanew, pe_type := t\<rparr>;
               s1 = s\<lparr>ls_images := (ls_images s)[i := pe1]\<rparr> in
           if t \<le> 0 then Some (s1, - EINVAL) else
      do { (pe2, r) \<leftarrow> fix_pe_image nvmalloc pe1;
           let s2 = s1\<lparr>ls_images := (ls_images s)[i := pe2]\<rparr> in
           if r \<noteq> 0 then Some (s2, - EINVAL) else
      do { (exps, r) \<leftarrow> read_exports pe2 (ls_exports s2);
           Some (s2\<lparr>ls_exports := exps\<rparr>, if r \<noteq> 0 then - EINVAL else 0) } } })"

primrec link_first :: "(nat \<Rightarrow> u64 \<Rightarrow> ptr option) \<Rightarrow> nat \<Rightarrow> nat \<Rightarrow> link_state \<Rightarrow> (link_state \<times> int) option" where
  "link_first alloc i 0 s = Some (s, 0)"
| "link_first alloc i (Suc n) s =
     do { (s', r) \<leftarrow> link_one (alloc i) i s;
          if r \<noteq> 0 then Some (s', r) else link_first alloc (Suc i) n s' }"

text \<open>The second loop: relocate, bind imports, redirect the shared page, set the entry point.\<close>

definition bind_one :: "(u8 list \<times> ptr) list \<Rightarrow> u64 \<Rightarrow> nat \<Rightarrow> link_state \<Rightarrow> (link_state \<times> int) option" where
  "bind_one tbl ksd i s =
     (let pe = ls_images s ! i in
      do { (im1, r) \<leftarrow> fixup_reloc (pe_base pe) (nt_hdr pe) (pe_bytes pe);
           let s1 = s\<lparr>ls_images := (ls_images s)[i := pe\<lparr>pe_bytes := im1\<rparr>]\<rparr> in
           if r \<noteq> 0 then Some (s1, - EINVAL) else
      do { (im2, r) \<leftarrow> fixup_imports tbl (ls_exports s1) (ls_images s1) i (nt_hdr pe) im1;
           let s2 = s1\<lparr>ls_images := (ls_images s1)[i := pe\<lparr>pe_bytes := im2\<rparr>]\<rparr> in
           if r \<noteq> 0 then Some (s2, - EINVAL) else
      do { (im3, used) \<leftarrow> fix_user_shared_data_addr ksd im2 (pe_size pe) (ls_shared_data_used s2);
           aep \<leftarrow> rd32 im3 (nt_hdr pe + 40);
           Some (s2\<lparr>ls_images := (ls_images s2)[i := pe\<lparr>pe_bytes := im3, pe_entry := pe_base pe + ucast aep\<rparr>],
                    ls_shared_data_used := used\<rparr>, 0) } } })"

primrec link_second :: "(u8 list \<times> ptr) list \<Rightarrow> u64 \<Rightarrow> nat \<Rightarrow> nat \<Rightarrow> link_state \<Rightarrow> (link_state \<times> int) option" where
  "link_second tbl ksd i 0 s = Some (s, 0)"
| "link_second tbl ksd i (Suc n) s =
     do { (s', r) \<leftarrow> bind_one tbl ksd i s;
          if r \<noteq> 0 then Some (s', r) else link_second tbl ksd (Suc i) n s' }"

text \<open>The third loop: the entry points of DLL initialisers that are called.\<close>

fun link_third :: "link_state \<Rightarrow> pe_image list \<Rightarrow> ptr list option" where
  "link_third s [] = Some []"
| "link_third s (pe # r) =
     (if pe_type pe = uint IMAGE_FILE_DLL
      then do { f \<leftarrow> get_dll_init (ls_images s) (ls_exports s) (pe_name pe);
                calls \<leftarrow> link_third s r;
                Some (if f = NULL then calls else f # calls) }
      else link_third s r)"

definition link_pe_images ::
  "(nat \<Rightarrow> u64 \<Rightarrow> ptr option) \<Rightarrow> (u8 list \<times> ptr) list \<Rightarrow> u64 \<Rightarrow> link_state \<Rightarrow> (link_state \<times> int \<times> ptr list) option" where
  "link_pe_images alloc tbl ksd s =
     (let n = length (ls_images s) in
      do { (s1, r) \<leftarrow> link_first alloc 0 n s;
           if r \<noteq> 0 then Some (s1, r, []) else
      do { (s2, r) \<leftarrow> link_second tbl ksd 0 n s1;
           if r \<noteq> 0 then Some (s2, r, []) else
      do { calls \<leftarrow> link_third s2 (ls_images s2);
           Some (s2, 0, calls) } } })"

section \<open>Specification of the relocation directory\<close>

text \<open>A relocation site is a type and an offset in the image.  \<open>parse_blocks\<close> reads the directory of an
  image as a list of sites and the offset where it ends; \<open>apply_sites\<close> relocates them one after the
  other.  \<open>fixup_reloc\<close> interleaves the two; it refines \<open>apply_sites\<close> when the sites lie outside the directory.\<close>

type_synonym site = "u16 \<times> nat"

definition site_of :: "u32 \<Rightarrow> u16 \<Rightarrow> site" where
  "site_of rva fixup = (drop_bit 12 fixup AND 0xf, unat (rva + ucast (fixup AND 0xfff)))"

definition site_width :: "u16 \<Rightarrow> nat" where
  "site_width t = (if t = 3 then 4 else if t = 10 then 8 else 0)"

definition apply_site :: "ptr \<Rightarrow> u64 \<Rightarrow> site \<Rightarrow> u8 list \<Rightarrow> (u8 list \<times> int) option" where
  "apply_site base ib st im =
     (case st of (t, l) \<Rightarrow>
        if t = 0 then Some (im, 0)
        else if t = 3 then do { v \<leftarrow> rd32 im l; im' \<leftarrow> wr32 im l (v + ucast (base - ib)); Some (im', 0) }
        else if t = 10 then do { v \<leftarrow> rd64 im l; im' \<leftarrow> wr64 im l (v + (base - ib)); Some (im', 0) }
        else Some (im, - EOPNOTSUPP))"

primrec apply_sites :: "ptr \<Rightarrow> u64 \<Rightarrow> site list \<Rightarrow> u8 list \<Rightarrow> (u8 list \<times> int) option" where
  "apply_sites base ib [] im = Some (im, 0)"
| "apply_sites base ib (st # r) im =
     do { (im', x) \<leftarrow> apply_site base ib st im;
          if x \<noteq> 0 then Some (im', x) else apply_sites base ib r im' }"

primrec parse_entries :: "u8 list \<Rightarrow> nat \<Rightarrow> nat \<Rightarrow> nat \<Rightarrow> site list option" where
  "parse_entries im blk i 0 = Some []"
| "parse_entries im blk i (Suc n) =
     do { fixup \<leftarrow> rd16 im (blk + 8 + 2 * i); rva \<leftarrow> rd32 im blk;
          r \<leftarrow> parse_entries im blk (Suc i) n; Some (site_of rva fixup # r) }"

function parse_blocks :: "u8 list \<Rightarrow> nat \<Rightarrow> (site list \<times> nat) option" where
  "parse_blocks im blk =
     do { sz \<leftarrow> rd32 im (blk + 4);
          if sz = 0 then Some ([], blk + 8)
          else if sz < 8 then None else
     do { es \<leftarrow> parse_entries im blk 0 ((unat sz - 8) div 2);
          (r, e) \<leftarrow> parse_blocks im (blk + unat sz);
          Some (es @ r, e) } }"
  by pat_completeness auto
termination
  by (relation "measure (\<lambda>(im, blk). length im - blk)")
    (auto dest!: f32.get_dom simp: unat_eq_0 unat_gt_0 intro!: diff_less_mono2)

declare parse_blocks.simps [simp del]

definition agree :: "nat \<Rightarrow> nat \<Rightarrow> u8 list \<Rightarrow> u8 list \<Rightarrow> bool" where
  "agree lo hi im im' \<longleftrightarrow> length im' = length im \<and> (\<forall>i. lo \<le> i \<longrightarrow> i < hi \<longrightarrow> i < length im \<longrightarrow> im' ! i = im ! i)"

definition avoids :: "nat \<Rightarrow> nat \<Rightarrow> site \<Rightarrow> bool" where
  "avoids lo hi st \<longleftrightarrow> site_width (fst st) = 0 \<or> snd st + site_width (fst st) \<le> lo \<or> hi \<le> snd st"

lemma agree_refl [simp]: "agree lo hi im im"
  by (simp add: agree_def)

lemma agree_trans: "agree lo hi a b \<Longrightarrow> agree lo hi b c \<Longrightarrow> agree lo hi a c"
  by (auto simp: agree_def)

lemma agree_sub: "agree lo hi a b \<Longrightarrow> lo \<le> lo' \<Longrightarrow> hi' \<le> hi \<Longrightarrow> agree lo' hi' a b"
  by (auto simp: agree_def)

lemma avoids_sub: "avoids lo hi st \<Longrightarrow> lo \<le> lo' \<Longrightarrow> hi' \<le> hi \<Longrightarrow> avoids lo' hi' st"
  by (auto simp: avoids_def)

lemma agree_read:
  assumes "agree lo hi im im'" "lo \<le> off"
  shows "off + 2 \<le> hi \<Longrightarrow> rd16 im' off = rd16 im off" "off + 4 \<le> hi \<Longrightarrow> rd32 im' off = rd32 im off"
    "off + 8 \<le> hi \<Longrightarrow> rd64 im' off = rd64 im off"
  using assms by (auto simp: agree_def intro!: f16.get_local f32.get_local f64.get_local)

lemma ucast_reloc: "ucast (base + (ucast (v :: u32) - ib) :: u64) = v + (ucast (base - ib) :: u32)"
proof -
  have wide: "(y mod 18446744073709551616) mod 4294967296 = y mod (4294967296 :: int)" for y
    by (simp add: mod_mod_cancel)
  have inner: "(b + (v mod 4294967296 - c)) mod 4294967296 = (v + (b - c) mod 18446744073709551616) mod (4294967296 :: int)"
    for b v c
  proof -
    have "(b + (v mod 4294967296 - c)) mod 4294967296 = (v mod 4294967296 + (b - c)) mod (4294967296 :: int)"
      by (simp add: algebra_simps)
    also have "\<dots> = (v + (b - c) mod 18446744073709551616 mod 4294967296) mod 4294967296"
      unfolding wide by (simp add: mod_simps)
    finally show ?thesis by (simp add: mod_simps)
  qed
  show ?thesis
    by transfer (simp add: take_bit_eq_mod mod_mod_cancel inner)
qed

lemma reloc_one_site: "reloc_one base ib rva fixup im = apply_site base ib (site_of rva fixup) im"
proof -
  have comm: "b + (v - c) = v + (b - c)" for b v c :: u64 by (simp add: algebra_simps)
  show ?thesis
    by (simp add: reloc_one_def apply_site_def site_of_def Let_def comm
        ucast_reloc [unfolded comm])
qed

lemma apply_site_length: "apply_site base ib st im = Some (im', x) \<Longrightarrow> length im' = length im"
  by (auto simp: apply_site_def bind_eq_Some_conv dest: f32.put_dom f64.put_dom
      split: prod.splits if_splits)

lemma apply_site_agree:
  assumes "apply_site base ib st im = Some (im', x)" "avoids lo hi st"
  shows "agree lo hi im im'"
  using assms apply_site_length [OF assms(1)]
  by (auto simp: agree_def avoids_def apply_site_def site_width_def bind_eq_Some_conv
      intro: f32.put_frame f64.put_frame split: prod.splits if_splits)

lemma apply_sites_agree:
  "apply_sites base ib es im = Some (im', x) \<Longrightarrow> \<forall>st \<in> set es. avoids lo hi st \<Longrightarrow> agree lo hi im im'"
  by (induction es arbitrary: im)
    (auto simp: bind_eq_Some_conv split: if_splits dest: apply_site_agree intro: agree_trans)

lemma apply_sites_append:
  "apply_sites base ib (es @ fs) im =
     do { (im', x) \<leftarrow> apply_sites base ib es im; if x \<noteq> 0 then Some (im', x) else apply_sites base ib fs im' }"
  by (induction es arbitrary: im) (auto intro!: Option.bind_cong)

lemma parse_entries_local:
  "agree blk (blk + 8 + 2 * (i + n)) im im' \<Longrightarrow> parse_entries im' blk i n = parse_entries im blk i n"
proof (induction n arbitrary: i)
  case (Suc n)
  have "parse_entries im' blk (Suc i) n = parse_entries im blk (Suc i) n"
    using Suc by simp
  with Suc.prems show ?case by (simp add: agree_read)
qed simp

lemma reloc_entries_sites:
  assumes "parse_entries im blk i n = Some es" "\<forall>st \<in> set es. avoids blk (blk + 8 + 2 * (i + n)) st"
  shows "reloc_entries base ib blk i n im = apply_sites base ib es im"
  using assms
proof (induction n arbitrary: i es im)
  case (Suc n)
  from Suc.prems(1) obtain fx rva r where
    fx: "rd16 im (blk + 8 + 2 * i) = Some fx" and rva: "rd32 im blk = Some rva" and
    r: "parse_entries im blk (Suc i) n = Some r" and es: "es = site_of rva fx # r"
    by (auto simp: bind_eq_Some_conv)
  have "reloc_entries base ib blk (Suc i) n im1 = apply_sites base ib r im1"
    if "apply_site base ib (site_of rva fx) im = Some (im1, x)" for im1 x
  proof (rule Suc.IH)
    have "agree blk (blk + 8 + 2 * (Suc i + n)) im im1"
      using apply_site_agree [OF that] Suc.prems(2) es by simp
    then show "parse_entries im1 blk (Suc i) n = Some r"
      using r parse_entries_local [of blk "Suc i" n im im1] by simp
    show "\<forall>st \<in> set r. avoids blk (blk + 8 + 2 * (Suc i + n)) st"
      using Suc.prems(2) es by simp
  qed
  then show ?case
    by (auto simp: fx rva es reloc_one_site intro!: Option.bind_cong)
qed simp

lemma block_count:
  "\<not> (sz :: u32) < 8 \<Longrightarrow> unat ((ucast sz - 8 :: u64) div 2) = (unat sz - 8) div 2"
proof -
  assume sz: "\<not> sz < 8"
  have w: "unat (ucast sz :: u64) = unat sz"
    using unat_bounds(3) [of sz] by (simp add: unsigned_ucast_eq take_bit_nat_eq_self)
  with sz show ?thesis
    by (simp add: unat_div_distrib unat_sub word_le_nat_alt word_less_nat_alt)
qed

lemma parse_blocks_end: "parse_blocks im blk = Some (es, e) \<Longrightarrow> blk + 8 \<le> e"
proof (induction "length im - blk" arbitrary: blk es rule: less_induct)
  case less
  obtain sz where sz: "rd32 im (blk + 4) = Some sz"
    using less.prems by (subst (asm) parse_blocks.simps) (auto simp: bind_eq_Some_conv)
  have dec: "length im - (blk + unat sz) < length im - blk" if "sz \<noteq> 0"
    using f32.get_dom [OF sz] that by (simp add: unat_gt_0 diff_less_mono2)
  show ?case
    using less.prems sz by (subst (asm) parse_blocks.simps)
      (auto simp: bind_eq_Some_conv dest!: less.hyps [OF dec] split: if_splits)
qed

lemma parse_blocks_local:
  "parse_blocks im blk = Some (es, e) \<Longrightarrow> agree blk e im im' \<Longrightarrow> parse_blocks im' blk = Some (es, e)"
proof (induction "length im - blk" arbitrary: blk es rule: less_induct)
  case less
  obtain sz where sz: "rd32 im (blk + 4) = Some sz"
    using less.prems by (subst (asm) parse_blocks.simps) (auto simp: bind_eq_Some_conv)
  have sz': "rd32 im' (blk + 4) = Some sz"
    using agree_read(2) [OF less.prems(2)] parse_blocks_end [OF less.prems(1)] sz by simp
  show ?case
  proof (cases "sz = 0")
    case True
    with less.prems(1) sz sz' show ?thesis by (simp add: parse_blocks.simps)
  next
    case False
    with less.prems(1) sz obtain fs r where
      ge: "\<not> sz < 8" and fs: "parse_entries im blk 0 ((unat sz - 8) div 2) = Some fs" and
      r: "parse_blocks im (blk + unat sz) = Some (r, e)" and es: "es = fs @ r"
      by (subst (asm) parse_blocks.simps) (auto simp: bind_eq_Some_conv split: if_splits)
    have dec: "length im - (blk + unat sz) < length im - blk"
      using f32.get_dom [OF sz] False by (simp add: unat_gt_0 diff_less_mono2)
    have "agree blk (blk + 8 + 2 * (0 + (unat sz - 8) div 2)) im im'"
      using less.prems(2) parse_blocks_end [OF r] ge
      by (elim agree_sub) (auto simp: word_less_nat_alt)
    then have "parse_entries im' blk 0 ((unat sz - 8) div 2) = Some fs"
      using fs parse_entries_local by metis
    moreover have "parse_blocks im' (blk + unat sz) = Some (r, e)"
      using less.hyps [OF dec r] less.prems(2) by (simp add: agree_sub)
    ultimately show ?thesis
      using ge False sz' es by (simp add: parse_blocks.simps [of im' blk])
  qed
qed

lemma reloc_blocks_sites:
  assumes "parse_blocks im blk = Some (es, e)" "\<forall>st \<in> set es. avoids lo e st" "lo \<le> blk"
  shows "reloc_blocks base ib blk im = apply_sites base ib es im"
  using assms
proof (induction "length im - blk" arbitrary: blk es im rule: less_induct)
  case less
  obtain sz where sz: "rd32 im (blk + 4) = Some sz"
    using less.prems(1) by (subst (asm) parse_blocks.simps) (auto simp: bind_eq_Some_conv)
  show ?case
  proof (cases "sz = 0")
    case True
    with less.prems(1) sz show ?thesis
      by (simp add: parse_blocks.simps [of im blk] reloc_blocks.simps [of _ _ blk])
  next
    case False
    with less.prems(1) sz obtain fs r where
      ge: "\<not> sz < 8" and fs: "parse_entries im blk 0 ((unat sz - 8) div 2) = Some fs" and
      r: "parse_blocks im (blk + unat sz) = Some (r, e)" and es: "es = fs @ r"
      by (subst (asm) parse_blocks.simps) (auto simp: bind_eq_Some_conv split: if_splits)
    have e: "blk + unat sz + 8 \<le> e" by (rule parse_blocks_end [OF r])
    have "avoids blk (blk + 8 + 2 * (0 + (unat sz - 8) div 2)) st" if "st \<in> set fs" for st
    proof (rule avoids_sub)
      show "avoids lo e st" using less.prems(2) that es by simp
      show "blk + 8 + 2 * (0 + (unat sz - 8) div 2) \<le> e"
        using e ge by (auto simp: word_less_nat_alt)
    qed (rule less.prems(3))
    then have ent: "reloc_entries base ib blk 0 ((unat sz - 8) div 2) im = apply_sites base ib fs im"
      using reloc_entries_sites [OF fs] by blast
    have rest: "rd32 im1 (blk + 4) = Some sz \<and> reloc_blocks base ib (blk + unat sz) im1 = apply_sites base ib r im1"
      if "apply_sites base ib fs im = Some (im1, x)" for im1 x
    proof
      have ag: "agree lo e im im1"
        using apply_sites_agree [OF that] less.prems(2) es by simp
      then show "rd32 im1 (blk + 4) = Some sz"
        using agree_read(2) [OF ag, of "blk + 4"] sz e less.prems(3) by simp
      show "reloc_blocks base ib (blk + unat sz) im1 = apply_sites base ib r im1"
      proof (rule less.hyps)
        show "length im1 - (blk + unat sz) < length im - blk"
          using f32.get_dom [OF sz] False ag by (simp add: unat_gt_0 diff_less_mono2 agree_def)
        show "parse_blocks im1 (blk + unat sz) = Some (r, e)"
          using parse_blocks_local [OF r] ag less.prems(3) by (simp add: agree_sub)
      qed (use less.prems es in auto)
    qed
    show ?thesis
      using False sz rest
      by (auto simp: reloc_blocks.simps [of _ _ blk im] block_count [OF ge] ent es apply_sites_append
          intro!: Option.bind_cong)
  qed
qed

text \<open>What relocating a list of sites does, when the sites are known types, lie in the image and do not overlap.\<close>

definition apart :: "site \<Rightarrow> site \<Rightarrow> bool" where
  "apart st st' \<longleftrightarrow> site_width (fst st) = 0 \<or> avoids (snd st) (snd st + site_width (fst st)) st'"

definition sites_ok :: "nat \<Rightarrow> site list \<Rightarrow> bool" where
  "sites_ok n es \<longleftrightarrow> sorted_wrt apart es \<and>
     (\<forall>(t, l) \<in> set es. t \<in> {0, 3, 10} \<and> l + site_width t \<le> n)"

definition relocated :: "u64 \<Rightarrow> u8 list \<Rightarrow> u8 list \<Rightarrow> site \<Rightarrow> bool" where
  "relocated delta im im' st \<longleftrightarrow>
     (case st of (t, l) \<Rightarrow>
        (t = 3 \<longrightarrow> rd32 im' l = map_option (\<lambda>v. v + ucast delta) (rd32 im l)) \<and>
        (t = 10 \<longrightarrow> rd64 im' l = map_option (\<lambda>v. v + delta) (rd64 im l)))"

definition untouched :: "site list \<Rightarrow> nat \<Rightarrow> bool" where
  "untouched es i \<longleftrightarrow> (\<forall>(t, l) \<in> set es. i < l \<or> l + site_width t \<le> i)"

lemma apply_site_ok:
  assumes "t \<in> {0, 3, 10}" "l + site_width t \<le> length im"
  shows "\<exists>im'. apply_site base ib (t, l) im = Some (im', 0) \<and> relocated (base - ib) im im' (t, l)"
proof -
  consider "t = 0" | "t = 3" | "t = 10" using assms(1) by auto
  then show ?thesis
  proof cases
    case 2
    then obtain v where v: "rd32 im l = Some v"
      using assms(2) f32.get_ex by (metis site_width_def)
    moreover obtain im' where "wr32 im l (v + ucast (base - ib)) = Some im'"
      using f32.put_ex f32.get_dom [OF v] by metis
    ultimately show ?thesis
      using 2 by (simp add: apply_site_def relocated_def f32.get_put)
  next
    case 3
    then obtain v where v: "rd64 im l = Some v"
      using assms(2) f64.get_ex by (auto simp: site_width_def)
    moreover obtain im' where "wr64 im l (v + (base - ib)) = Some im'"
      using f64.put_ex f64.get_dom [OF v] by metis
    ultimately show ?thesis
      using 3 by (simp add: apply_site_def relocated_def f64.get_put)
  qed (simp add: apply_site_def relocated_def)
qed

lemma relocated_cong:
  assumes "relocated d im im' st"
    "agree (snd st) (snd st + site_width (fst st)) im im1" "agree (snd st) (snd st + site_width (fst st)) im' im2"
  shows "relocated d im1 im2 st"
  using assms agree_read(2,3) [OF assms(2)] agree_read(2,3) [OF assms(3)]
  by (auto simp: relocated_def site_width_def split: prod.splits)

lemma agree_sym: "agree lo hi a b \<Longrightarrow> agree lo hi b a"
  by (simp add: agree_def)

lemma apart_sym: "apart st st' \<Longrightarrow> apart st' st"
  by (auto simp: apart_def avoids_def)

lemma apply_sites_length: "apply_sites base ib es im = Some (im', x) \<Longrightarrow> length im' = length im"
  using apply_sites_agree [of base ib es im im' x 0 0] by (simp add: agree_def avoids_def)

lemma apart_agree:
  assumes "apply_sites base ib es im = Some (im', x)" "\<forall>st' \<in> set es. apart st st'"
  shows "agree (snd st) (snd st + site_width (fst st)) im im'"
proof (cases "site_width (fst st) = 0")
  case True
  then show ?thesis using apply_sites_length [OF assms(1)] by (simp add: agree_def)
next
  case False
  then show ?thesis using apply_sites_agree [OF assms(1)] assms(2) by (simp add: apart_def)
qed

lemma apply_sites_ok:
  assumes "sites_ok (length im) es"
  shows "\<exists>im'. apply_sites base ib es im = Some (im', 0) \<and> (\<forall>st \<in> set es. relocated (base - ib) im im' st)"
  using assms
proof (induction es arbitrary: im)
  case (Cons st r)
  obtain t l where st: "st = (t, l)" by (cases st)
  have ap: "\<forall>st' \<in> set r. apart st st'" and tl: "t \<in> {0, 3, 10}" "l + site_width t \<le> length im"
    using Cons.prems by (auto simp: sites_ok_def st)
  obtain im1 where im1: "apply_site base ib st im = Some (im1, 0)" and
    first: "relocated (base - ib) im im1 st"
    using apply_site_ok [OF tl] st by metis
  have "sites_ok (length im1) r"
    using Cons.prems apply_site_length [OF im1] by (auto simp: sites_ok_def)
  then obtain im' where im': "apply_sites base ib r im1 = Some (im', 0)" and
    rest: "\<forall>st \<in> set r. relocated (base - ib) im1 im' st"
    using Cons.IH by blast
  have "agree (snd st) (snd st + site_width (fst st)) im1 im'"
    by (rule apart_agree [OF im' ap])
  then have "relocated (base - ib) im im' st"
    using relocated_cong [OF first] by simp
  moreover have "relocated (base - ib) im im' st'" if st': "st' \<in> set r" for st'
  proof -
    have "agree (snd st') (snd st' + site_width (fst st')) im im1"
      using im1 ap st' apart_sym by (intro apart_agree [of base ib "[st]" im im1 0]) auto
    then show ?thesis
      using relocated_cong [of _ im1 im' st' im im'] rest st' agree_sym by simp
  qed
  ultimately show ?case using im1 im' by auto
qed simp

lemma apply_sites_untouched:
  assumes "apply_sites base ib es im = Some (im', x)" "untouched es i" "i < length im"
  shows "im' ! i = im ! i"
proof -
  have "agree i (Suc i) im im'"
    using assms(2) by (intro apply_sites_agree [OF assms(1)]) (auto simp: untouched_def avoids_def)
  with assms(3) show ?thesis by (simp add: agree_def)
qed

lemma relocated_back:
  assumes "relocated d im im' st" "relocated (- d) im' im'' st" "fst st \<in> {0, 3, 10}"
    "snd st + site_width (fst st) \<le> length im" "snd st \<le> i" "i < snd st + site_width (fst st)"
  shows "im'' ! i = im ! i"
proof -
  obtain t l where st: "st = (t, l)" by (cases st)
  have "(- k) mod 4294967296 = (- (k mod 18446744073709551616)) mod (4294967296 :: int)" for k
  proof -
    have "k mod 18446744073709551616 mod 4294967296 = k mod (4294967296 :: int)"
      by (simp add: mod_mod_cancel)
    then show ?thesis by (metis mod_minus_eq)
  qed
  then have "ucast (- d) = - (ucast d :: u32)"
    by transfer (simp add: take_bit_eq_mod mod_mod_cancel)
  then show ?thesis
    using assms f32.get_ex [of l im] f64.get_ex [of l im] st
      f32.get_inj [of im l _ im'' i] f64.get_inj [of im l _ im'' i]
    by (auto simp: relocated_def site_width_def)
qed

lemma touched_site:
  assumes "\<not> untouched es i" "sites_ok n es"
  obtains st where "st \<in> set es" "fst st \<in> {0, 3, 10}" "snd st + site_width (fst st) \<le> n"
    "snd st \<le> i" "i < snd st + site_width (fst st)"
  using assms by (fastforce simp: untouched_def sites_ok_def not_less not_le)

lemma sites_back:
  assumes ok: "sites_ok (length im) es"
    and im1: "apply_sites b a es im = Some (im1, x)" "\<forall>st \<in> set es. relocated (b - a) im im1 st"
    and im2: "apply_sites a' b' es im1 = Some (im2, y)" "\<forall>st \<in> set es. relocated (a - b) im1 im2 st"
  shows "im2 = im"
proof (rule nth_equalityI)
  show len: "length im2 = length im"
    using apply_sites_length [OF im1(1)] apply_sites_length [OF im2(1)] by simp
  fix i assume i: "i < length im2"
  show "im2 ! i = im ! i"
  proof (cases "untouched es i")
    case True
    then show ?thesis
      using apply_sites_untouched [OF im1(1)] apply_sites_untouched [OF im2(1)] i len
        apply_sites_length [OF im1(1)] by simp
  next
    case False
    then obtain st where st: "st \<in> set es" "fst st \<in> {0, 3, 10}" "snd st + site_width (fst st) \<le> length im"
      "snd st \<le> i" "i < snd st + site_width (fst st)"
      using touched_site [OF _ ok] by blast
    have "relocated (b - a) im im1 st" "relocated (- (b - a)) im1 im2 st"
      using im1(2) im2(2) st(1) by simp_all
    then show ?thesis using relocated_back st(2-5) by blast
  qed
qed

lemma apply_sites_zero: "apply_sites a a es im = Some (im', x) \<Longrightarrow> im' = im"
proof (induction es arbitrary: im)
  case (Cons st r)
  have "im1 = im" if "apply_site a a st im = Some (im1, y)" for im1 y
    using that by (auto simp: apply_site_def bind_eq_Some_conv f32.put_get f64.put_get
        split: prod.splits if_splits)
  with Cons show ?case by (auto simp: bind_eq_Some_conv split: if_splits)
qed simp

section \<open>Properties: relocation\<close>

text \<open>An image of 240 bytes with its NT header at offset 0, preferred address \<open>0x10000\<close>, and a
  relocation directory at 192 with a 64-bit site at 216 and a 32-bit site at 224.\<close>

definition layout :: "(nat \<times> int) list \<Rightarrow> u8 list" where
  "layout fs = concat (map (\<lambda>(n, v). le_put n v) fs)"

definition reloc_demo :: "u8 list" where
  "reloc_demo = layout [(48, 0), (8, 0x10000), (120, 0), (4, 192), (4, 20), (8, 0),
     (4, 0), (4, 12), (2, 0xA0D8), (2, 0x30E0), (12, 0), (8, 0x10123), (4, 0x10456), (12, 0)]"

text \<open>C5: When the relocation directory parses, its sites are of known types, lie inside the image,
  do not overlap one another and stay off the directory, fixup_reloc succeeds; it adds the difference
  of the actual and the preferred address to every 64-bit and 32-bit site and changes no other byte.\<close>
theorem fixup_reloc_correct:
  assumes "rd64 im (nt + 48) = Some ib" "rd32 im (nt + 180) = Some sz" "sz \<noteq> 0"
    "rd32 im (nt + 176) = Some va" "parse_blocks im (unat va) = Some (es, e)"
    "\<forall>st \<in> set es. avoids (unat va) e st" "sites_ok (length im) es"
  shows "\<exists>im'. fixup_reloc base nt im = Some (im', 0) \<and> length im' = length im \<and>
     (\<forall>st \<in> set es. relocated (base - ib) im im' st) \<and>
     (\<forall>i < length im. untouched es i \<longrightarrow> im' ! i = im ! i)"
proof -
  have "reloc_blocks base ib (unat va) im = apply_sites base ib es im"
    using reloc_blocks_sites [OF assms(5,6)] by simp
  then have run: "fixup_reloc base nt im = apply_sites base ib es im"
    using assms(1-4) by (simp add: fixup_reloc_def add.assoc)
  obtain im' where "apply_sites base ib es im = Some (im', 0)" "\<forall>st \<in> set es. relocated (base - ib) im im' st"
    using apply_sites_ok [OF assms(7)] by blast
  then show ?thesis
    using run apply_sites_length apply_sites_untouched by metis
qed

lemma reloc_demo_parse: "parse_blocks reloc_demo 192 = Some ([(10, 216), (3, 224)], 212)"
  by code_simp

lemma reloc_demo_fields:
  "rd64 reloc_demo 48 = Some 0x10000" "rd32 reloc_demo 180 = Some 20" "rd32 reloc_demo 176 = Some 192"
  "length reloc_demo = 240"
  by code_simp+

lemma reloc_demo_sites:
  "\<forall>st \<in> set [(10, 216), (3, 224)]. avoids 192 212 st" "sites_ok 240 [(10, 216), (3, 224)]"
  by code_simp+

theorem fixup_reloc_correct_witness:
  "\<exists>im'. fixup_reloc 0x7fff0000 0 reloc_demo = Some (im', 0) \<and>
     relocated (0x7fff0000 - 0x10000) reloc_demo im' (10, 216)"
  using fixup_reloc_correct [of reloc_demo 0 "0x10000" 20 192 "[(10, 216), (3, 224)]" 212 "0x7fff0000"]
    reloc_demo_parse reloc_demo_fields reloc_demo_sites by auto

text \<open>Relocation is reversible: moving a well-formed image from address \<open>a\<close> to \<open>b\<close> and back to \<open>a\<close> restores
  every byte; in particular an image loaded at its preferred address is not changed.\<close>
theorem reloc_roundtrip:
  assumes "parse_blocks im blk = Some (es, e)" "\<forall>st \<in> set es. avoids blk e st" "sites_ok (length im) es"
  shows "\<exists>im'. reloc_blocks b a blk im = Some (im', 0) \<and> reloc_blocks a b blk im' = Some (im, 0) \<and>
     (a = b \<longrightarrow> im' = im)"
proof -
  obtain im1 where im1: "apply_sites b a es im = Some (im1, 0)" "\<forall>st \<in> set es. relocated (b - a) im im1 st"
    using apply_sites_ok [OF assms(3)] by blast
  have len1: "length im1 = length im" by (rule apply_sites_length [OF im1(1)])
  have ok1: "sites_ok (length im1) es" using assms(3) len1 by simp
  obtain im2 where im2: "apply_sites a b es im1 = Some (im2, 0)" "\<forall>st \<in> set es. relocated (a - b) im1 im2 st"
    using apply_sites_ok [OF ok1] by blast
  have "parse_blocks im1 blk = Some (es, e)"
    using parse_blocks_local [OF assms(1)] apply_sites_agree [OF im1(1) assms(2)] by blast
  then have run: "reloc_blocks b a blk im = Some (im1, 0)" "reloc_blocks a b blk im1 = Some (im2, 0)"
    using reloc_blocks_sites [OF _ assms(2)] assms(1) im1(1) im2(1) by auto
  have "im2 = im"
    by (rule sites_back [OF assms(3) im1 im2(1)]) (use im2(2) in simp)
  moreover have "im1 = im" if "a = b"
    using im1(1) that apply_sites_zero by blast
  ultimately show ?thesis using run by auto
qed

theorem reloc_roundtrip_witness:
  "\<exists>im'. reloc_blocks 0x7fff0000 0x10000 192 reloc_demo = Some (im', 0) \<and>
     reloc_blocks 0x10000 0x7fff0000 192 im' = Some (reloc_demo, 0)"
  using reloc_roundtrip [of reloc_demo 192 "[(10, 216), (3, 224)]" 212 "0x7fff0000" "0x10000"]
    reloc_demo_parse reloc_demo_fields(4) reloc_demo_sites by auto

section \<open>Properties: header validation\<close>

text \<open>What check_nt_hdr accepts, field by field.\<close>

definition valid_nt_hdr :: "u8 list \<Rightarrow> nat \<Rightarrow> bool" where
  "valid_nt_hdr im nt \<longleftrightarrow>
     rd32 im nt = Some 0x4550 \<and> rd16 im (nt + 24) = Some 0x20b \<and> rd16 im (nt + 4) = Some 0x8664 \<and>
     (case rd16 im (nt + 22) of None \<Rightarrow> False | Some c \<Rightarrow> bit c 1 \<and> bit c 5 \<and> \<not> bit c 0) \<and>
     (case rd16 im (nt + 6) of None \<Rightarrow> False | Some n \<Rightarrow> n \<noteq> 0) \<and>
     (case (rd32 im (nt + 56), rd32 im (nt + 60)) of (Some s, Some f) \<Rightarrow> f \<le> s | _ \<Rightarrow> False)"

lemma mask_bit:
  fixes c :: u16
  shows "c AND 1 = 0 \<longleftrightarrow> \<not> bit c 0" "c AND 2 = 0 \<longleftrightarrow> \<not> bit c 1" "c AND 0x22 = 0x22 \<longleftrightarrow> bit c 1 \<and> bit c 5"
proof -
  show "c AND 1 = 0 \<longleftrightarrow> \<not> bit c 0" "c AND 2 = 0 \<longleftrightarrow> \<not> bit c 1"
    using and_exp_eq_0_iff_not_bit [of c 0] and_exp_eq_0_iff_not_bit [of c 1] by simp_all
  have "(0x22 :: u16) = 2 ^ 1 OR 2 ^ 5" by simp
  then have b: "bit (0x22 :: u16) n \<longleftrightarrow> n = 1 \<or> n = 5" for n
    by (simp only: bit_or_iff bit_exp_iff) auto
  show "c AND 0x22 = 0x22 \<longleftrightarrow> bit c 1 \<and> bit c 5"
  proof
    assume eq: "c AND 0x22 = 0x22"
    have "bit (c AND 0x22) 1" "bit (c AND 0x22) 5" unfolding eq b by blast+
    then show "bit c 1 \<and> bit c 5" unfolding bit_and_iff by blast
  next
    assume "bit c 1 \<and> bit c 5"
    then have "bit (c AND 0x22) n \<longleftrightarrow> bit (0x22 :: u16) n" for n
      unfolding bit_and_iff b by blast
    then show "c AND 0x22 = 0x22" by (rule bit_word_eqI)
  qed
qed

text \<open>On an image that holds the header, check_nt_hdr returns IMAGE_FILE_EXECUTABLE_IMAGE for exactly the
  valid x86-64 headers (signature, magic, machine, executable and large-address-aware, relocations not
  stripped, at least one section, section alignment not below the file alignment) and \<open>-EINVAL\<close> for all others.\<close>
theorem check_nt_hdr_valid:
  assumes "nt + 64 \<le> length im"
  shows "check_nt_hdr im nt = Some (if valid_nt_hdr im nt then uint IMAGE_FILE_EXECUTABLE_IMAGE else - EINVAL)"
proof -
  obtain sig magic machine c n sa fa where
    "rd32 im nt = Some sig" "rd16 im (nt + 24) = Some magic" "rd16 im (nt + 4) = Some machine"
    "rd16 im (nt + 22) = Some c" "rd16 im (nt + 6) = Some n" "rd32 im (nt + 56) = Some sa" "rd32 im (nt + 60) = Some fa"
    using assms f16.get_ex [of "nt + 24" im] f16.get_ex [of "nt + 4" im] f16.get_ex [of "nt + 22" im]
      f16.get_ex [of "nt + 6" im] f32.get_ex [of nt im] f32.get_ex [of "nt + 56" im] f32.get_ex [of "nt + 60" im]
    by auto
  then show ?thesis
    by (simp add: check_nt_hdr_def valid_nt_hdr_def Let_def IMAGE_FILE_EXECUTABLE_IMAGE_def
        IMAGE_FILE_LARGE_ADDRESS_AWARE_def IMAGE_FILE_RELOCS_STRIPPED_def mask_bit) auto
qed

definition hdr_demo :: "u8 list" where
  "hdr_demo = layout [(60, 0), (4, 64), (4, 0x4550), (2, 0x8664), (2, 1), (14, 0), (2, 0x22), (2, 0x20b), (30, 0),
     (4, 0x1000), (4, 0x200), (16, 0), (4, 248), (100, 0)]"

theorem check_nt_hdr_valid_witness:
  "valid_nt_hdr hdr_demo 64 \<and> check_nt_hdr hdr_demo 64 = Some 2"
proof -
  have "valid_nt_hdr hdr_demo 64" "64 + 64 \<le> length hdr_demo" by code_simp+
  then show ?thesis
    using check_nt_hdr_valid [of 64 hdr_demo] by (simp add: IMAGE_FILE_EXECUTABLE_IMAGE_def)
qed

section \<open>Properties: expansion to the memory image\<close>

text \<open>The section table as a list of (virtual address, raw size, raw pointer).\<close>

primrec section_table :: "u8 list \<Rightarrow> nat \<Rightarrow> nat \<Rightarrow> (u32 \<times> u32 \<times> u32) list option" where
  "section_table file sh 0 = Some []"
| "section_table file sh (Suc n) =
     do { va \<leftarrow> rd32 file (sh + 12); rsz \<leftarrow> rd32 file (sh + 16); p \<leftarrow> rd32 file (sh + 20);
          r \<leftarrow> section_table file (sh + 40) n; Some ((va, rsz, p) # r) }"

definition in_section :: "u32 \<times> u32 \<times> u32 \<Rightarrow> nat \<Rightarrow> bool" where
  "in_section sec i = (case sec of (va, rsz, p) \<Rightarrow> unat va \<le> i \<and> i < unat va + unat rsz)"

definition section_fits :: "nat \<Rightarrow> nat \<Rightarrow> u32 \<times> u32 \<times> u32 \<Rightarrow> bool" where
  "section_fits image_len file_len sec =
     (case sec of (va, rsz, p) \<Rightarrow> unat va + unat rsz \<le> image_len \<and> unat p + unat rsz \<le> file_len)"

text \<open>The byte of the image at \<open>i\<close>: from the last section that covers \<open>i\<close>, else what was there.\<close>

fun section_byte :: "u8 list \<Rightarrow> (u32 \<times> u32 \<times> u32) list \<Rightarrow> nat \<Rightarrow> u8 \<Rightarrow> u8" where
  "section_byte file [] i b = b"
| "section_byte file ((va, rsz, p) # r) i b =
     section_byte file r i (if in_section (va, rsz, p) i then file ! (unat p + (i - unat va)) else b)"

lemma blk_copy_nth:
  assumes "blk_copy d doff s soff n = Some d'" "i < length d"
  shows "d' ! i = (if doff \<le> i \<and> i < doff + n then s ! (soff + (i - doff)) else d ! i)"
  using assms by (auto simp: blk_copy_Some_iff nth_append min_absorb2)

lemma copy_sections_spec:
  assumes "section_table file sh n = Some secs" "\<forall>sec \<in> set secs. section_fits (length img) (length file) sec"
    "length img = unat image_size"
  shows "\<exists>img'. copy_sections file image_size sh n img = Some (Some img') \<and> length img' = length img \<and>
     (\<forall>i < length img. img' ! i = section_byte file secs i (img ! i))"
  using assms
proof (induction n arbitrary: sh secs img)
  case (Suc n)
  from Suc.prems(1) obtain va rsz p r where
    rd: "rd32 file (sh + 12) = Some va" "rd32 file (sh + 16) = Some rsz" "rd32 file (sh + 20) = Some p" and
    r: "section_table file (sh + 40) n = Some r" and secs: "secs = (va, rsz, p) # r"
    by (auto simp: bind_eq_Some_conv)
  have fits: "unat va + unat rsz \<le> unat image_size" "unat p + unat rsz \<le> length file"
    using Suc.prems(2,3) secs by (auto simp: section_fits_def)
  then have "unat (va + rsz) = unat va + unat rsz"
    using unat_bounds(3) [of image_size] by (intro unat_add_lem [THEN iffD1]) simp
  then have chk: "\<not> va + rsz > image_size"
    using fits by (simp add: word_less_nat_alt)
  obtain img1 where img1: "blk_copy img (unat va) file (unat p) (unat rsz) = Some img1"
    using fits Suc.prems(3) by (simp add: blk_copy_def)
  have len1: "length img1 = length img" using blk_copy_length [OF img1] .
  obtain img' where img': "copy_sections file image_size (sh + 40) n img1 = Some (Some img')"
    "length img' = length img1" "\<forall>i < length img1. img' ! i = section_byte file r i (img1 ! i)"
    using Suc.IH [OF r, of img1] Suc.prems(2,3) secs len1 by auto
  have "img' ! i = section_byte file secs i (img ! i)" if "i < length img" for i
    using img'(3) that len1 blk_copy_nth [OF img1 that] by (simp add: secs in_section_def)
  then show ?case using img' len1 rd chk img1 by simp
qed simp

lemma scast_size: "(w :: u32) < 0x80000000 \<Longrightarrow> unat (scast w :: u64) = unat w"
proof -
  assume w: "w < 0x80000000"
  then have u: "uint w < 2147483648" by (simp add: word_less_alt)
  have "- (2 ^ 31) \<le> uint w" using unsigned_greater_eq [of w] by (rule order_trans [rotated]) simp
  with u have "sint w = uint w" by (simp add: sint_uint signed_take_bit_int_eq_self)
  then have "uint (scast w :: u64) = take_bit 64 (uint w)"
    unfolding scast_eq by (simp only: unsigned_of_int) simp
  also have "\<dots> = uint w" using u by (intro take_bit_int_eq_self) auto
  finally have "uint (scast w :: u64) = uint w" .
  then show ?thesis by (simp only: unat_eq_nat_uint)
qed

text \<open>C6: When the size of the file differs from SizeOfImage, the allocation succeeds and the headers and all
  sections fit both the file and the image, fix_pe_image succeeds with an image of SizeOfImage bytes at the new
  address, in which every byte comes from the last section that covers it, or from the headers, or is zero.\<close>
theorem fix_pe_image_correct:
  assumes "rd32 (pe_bytes pe) (nt_hdr pe + 80) = Some isz" "pe_size pe \<noteq> isz" "isz < 0x80000000" "64 \<le> unat isz"
    "nvmalloc (scast isz) = Some base" "rd16 (pe_bytes pe) (nt_hdr pe + 6) = Some nsec"
    "rd16 (pe_bytes pe) (nt_hdr pe + 20) = Some sooh"
    "rd32 (pe_bytes pe) (IMAGE_FIRST_SECTION (nt_hdr pe) sooh + 20) = Some hdrs"
    "unat hdrs \<le> length (pe_bytes pe)" "unat hdrs \<le> unat isz"
    "section_table (pe_bytes pe) (IMAGE_FIRST_SECTION (nt_hdr pe) sooh) (unat nsec) = Some secs"
    "\<forall>sec \<in> set secs. section_fits (unat isz) (length (pe_bytes pe)) sec"
  shows "\<exists>pe'. fix_pe_image nvmalloc pe = Some (pe', 0) \<and> pe_base pe' = base \<and> pe_size pe' = isz \<and>
     length (pe_bytes pe') = unat isz \<and>
     (\<forall>i < unat isz. pe_bytes pe' ! i =
        section_byte (pe_bytes pe) secs i (if i < unat hdrs then pe_bytes pe ! i else 0))"
proof -
  define fl where "fl = pe_bytes pe"
  have z: "unat (scast isz :: u64) = unat isz" by (rule scast_size [OF assms(3)])
  obtain img where img: "blk_copy (replicate (unat isz) 0) 0 fl 0 (unat hdrs) = Some img"
    using assms(9,10) by (simp add: blk_copy_def fl_def)
  have len: "length img = unat isz" using blk_copy_length [OF img] by simp
  have hdr: "img ! i = (if i < unat hdrs then fl ! i else 0)" if "i < unat isz" for i
    using blk_copy_nth [OF img] that by simp
  obtain img' where img': "copy_sections fl isz (IMAGE_FIRST_SECTION (nt_hdr pe) sooh) (unat nsec) img = Some (Some img')"
    "length img' = length img" "\<forall>i < length img. img' ! i = section_byte fl secs i (img ! i)"
    using copy_sections_spec [OF assms(11), of img isz] assms(12) len by (auto simp: fl_def)
  obtain lf where lf: "rd32 img' 0x3c = Some lf"
    using f32.get_ex [of "0x3c" img'] img'(2) len assms(4) by auto
  show ?thesis
    using assms(1,2,5-8) img img' lf len hdr by (simp add: fix_pe_image_def Let_def fl_def z)
qed

definition expand_demo :: "int \<Rightarrow> int \<Rightarrow> pe_image" where
  "expand_demo va rsz =
     \<lparr>pe_name = [], pe_entry = 0, pe_base = 0x1000,
      pe_bytes = layout [(60, 0), (4, 64), (6, 0), (2, 1), (12, 0), (2, 160), (58, 0), (4, 320), (112, 0),
        (4, va), (4, rsz), (4, 296), (24, 0), (8, 0xABCD)],
      pe_size = 304, pe_type = 2, nt_hdr = 64\<rparr>"

theorem fix_pe_image_correct_witness:
  "\<exists>pe'. fix_pe_image (\<lambda>_. Some 0x9000) (expand_demo 312 8) = Some (pe', 0) \<and>
     length (pe_bytes pe') = 320 \<and> pe_bytes pe' ! 312 = 0xCD"
proof -
  have v: "rd32 (pe_bytes (expand_demo 312 8)) (nt_hdr (expand_demo 312 8) + 80) = Some 320"
    "rd16 (pe_bytes (expand_demo 312 8)) (nt_hdr (expand_demo 312 8) + 6) = Some 1"
    "rd16 (pe_bytes (expand_demo 312 8)) (nt_hdr (expand_demo 312 8) + 20) = Some 160"
    "rd32 (pe_bytes (expand_demo 312 8)) (IMAGE_FIRST_SECTION (nt_hdr (expand_demo 312 8)) 160 + 20) = Some 296"
    "section_table (pe_bytes (expand_demo 312 8)) (IMAGE_FIRST_SECTION (nt_hdr (expand_demo 312 8)) 160) (unat (1 :: u16))
       = Some [(312, 8, 296)]"
    "pe_size (expand_demo 312 8) \<noteq> 320" "length (pe_bytes (expand_demo 312 8)) = 304"
    "section_fits (unat (320 :: u32)) 304 (312, 8, 296)"
    "section_byte (pe_bytes (expand_demo 312 8)) [(312, 8, 296)] 312 0 = 0xCD"
    by code_simp+
  show ?thesis
    using fix_pe_image_correct [OF v(1) v(6) _ _ _ v(2,3,4) _ _ v(5), of "\<lambda>_. Some 0x9000" "0x9000"] v(7-9)
    by (auto simp del: section_byte.simps)
qed

text \<open>The bound check of fix_pe_image adds two 32-bit numbers.  A section whose virtual address and raw size
  add up past \<open>2^32\<close> to a small sum passes the check, and the copy then leaves the new image (or the file).\<close>
theorem fix_pe_image_overflow:
  assumes "rd32 (pe_bytes pe) (nt_hdr pe + 80) = Some isz" "pe_size pe \<noteq> isz" "isz < 0x80000000"
    "nvmalloc (scast isz) = Some base" "rd16 (pe_bytes pe) (nt_hdr pe + 6) = Some nsec"
    "rd16 (pe_bytes pe) (nt_hdr pe + 20) = Some sooh" "nsec \<noteq> 0"
    "rd32 (pe_bytes pe) (IMAGE_FIRST_SECTION (nt_hdr pe) sooh + 12) = Some va"
    "rd32 (pe_bytes pe) (IMAGE_FIRST_SECTION (nt_hdr pe) sooh + 16) = Some rsz"
    "va + rsz \<le> isz" "2 ^ 32 \<le> unat va + unat rsz"
  shows "fix_pe_image nvmalloc pe = None"
proof -
  obtain n where n: "unat nsec = Suc n"
    using assms(7) by (metis not0_implies_Suc unat_eq_0)
  have stuck: "copy_sections (pe_bytes pe) isz (IMAGE_FIRST_SECTION (nt_hdr pe) sooh) (unat nsec) img = None"
    if "length img = unat isz" for img
  proof -
    have "blk_copy img (unat va) (pe_bytes pe) p (unat rsz) = None" for p
      using assms(11) that unat_bounds(3) [of isz] by (simp add: blk_copy_def)
    then show ?thesis using assms(8-10) by (simp add: n not_less [symmetric] bind_eq_None_conv)
  qed
  have "unat (scast isz :: u64) = unat isz" by (rule scast_size [OF assms(3)])
  moreover have "length img = unat isz" if "blk_copy (replicate (unat isz) 0) 0 (pe_bytes pe) 0 h = Some img" for img h
    using blk_copy_length [OF that] by simp
  ultimately show ?thesis
    using assms(1,2,4-6) stuck
    by (cases "fix_pe_image nvmalloc pe") (auto simp: fix_pe_image_def Let_def bind_eq_Some_conv split: option.splits)
qed

theorem fix_pe_image_overflow_witness:
  "fix_pe_image (\<lambda>_. Some 0x9000) (expand_demo 0xfffffff0 0x20) = None"
proof -
  have v: "rd32 (pe_bytes (expand_demo 0xfffffff0 0x20)) (nt_hdr (expand_demo 0xfffffff0 0x20) + 80) = Some 320"
    "pe_size (expand_demo 0xfffffff0 0x20) \<noteq> 320"
    "rd16 (pe_bytes (expand_demo 0xfffffff0 0x20)) (nt_hdr (expand_demo 0xfffffff0 0x20) + 6) = Some 1"
    "rd16 (pe_bytes (expand_demo 0xfffffff0 0x20)) (nt_hdr (expand_demo 0xfffffff0 0x20) + 20) = Some 160"
    "rd32 (pe_bytes (expand_demo 0xfffffff0 0x20)) (IMAGE_FIRST_SECTION (nt_hdr (expand_demo 0xfffffff0 0x20)) 160 + 12) = Some 0xfffffff0"
    "rd32 (pe_bytes (expand_demo 0xfffffff0 0x20)) (IMAGE_FIRST_SECTION (nt_hdr (expand_demo 0xfffffff0 0x20)) 160 + 16) = Some 0x20"
    by code_simp+
  show ?thesis
    using fix_pe_image_overflow [OF v(1,2) _ _ v(3,4) _ v(5,6), of "\<lambda>_. Some 0x9000" "0x9000"] by simp
qed

section \<open>Properties: import binding\<close>

lemma cstr_prefix: "cstr b = Some s \<Longrightarrow> length s < length b \<and> take (Suc (length s)) b = s @ [0] \<and> 0 \<notin> set s"
  by (induction b arbitrary: s) (auto split: if_splits)

lemma strcmp_cstr: "cstr a = Some x \<Longrightarrow> cstr b = Some s \<Longrightarrow> strcmp_eq a b = Some (x = s)"
  by (induction a b arbitrary: x s rule: strcmp_eq.induct) (auto split: if_splits)

text \<open>The wrapper tables hold C strings.\<close>

lemma find_wrap_cstr:
  assumes "cstr b = Some s" "\<forall>(n, f) \<in> set syms. 0 \<notin> set n"
  shows "find_wrap (map (\<lambda>(n, f). (n @ [0], f)) syms) b = Some (map_of syms s)"
  using assms(2)
proof (induction syms)
  case (Cons y syms)
  obtain n f where y: "y = (n, f)" by (cases y)
  have "strcmp_eq (n @ [0]) b = Some (n = s)"
    using Cons.prems y by (intro strcmp_cstr [OF cstr_of_prefix assms(1)]) simp
  then show ?case using Cons y by auto
qed simp

definition agree_outside :: "nat \<Rightarrow> nat \<Rightarrow> u8 list \<Rightarrow> u8 list \<Rightarrow> bool" where
  "agree_outside lo hi im im' \<longleftrightarrow> agree 0 lo im im' \<and> agree hi (length im) im im'"

lemma agree_outside_sub:
  "agree_outside lo hi im im' \<Longrightarrow> a + n \<le> lo \<or> hi \<le> a \<Longrightarrow> agree a (a + n) im im'"
  by (auto simp: agree_outside_def agree_def)

lemma agree_outside_mono:
  "agree_outside lo hi im im' \<Longrightarrow> lo' \<le> lo \<Longrightarrow> hi \<le> hi' \<Longrightarrow> agree_outside lo' hi' im im'"
  by (auto simp: agree_outside_def agree_def)

lemma agree_outside_trans: "agree_outside lo hi a b \<Longrightarrow> agree_outside lo hi b c \<Longrightarrow> agree_outside lo hi a c"
  by (auto simp: agree_outside_def agree_def)

lemma cstr_at_local:
  assumes "cstr_at im off = Some s" "agree off (off + Suc (length s)) im im'"
  shows "cstr_at im' off = Some s"
proof -
  have c: "length s < length (drop off im)" "take (Suc (length s)) (drop off im) = s @ [0]" "0 \<notin> set s"
    using cstr_prefix [of "drop off im" s] assms(1) by (simp_all add: cstr_at_def)
  have "take (Suc (length s)) (drop off im') = take (Suc (length s)) (drop off im)"
    using assms(2) by (intro slice_cong) (auto simp: agree_def)
  then have "drop off im' = s @ 0 # drop (Suc (length s)) (drop off im')"
    using c(2) append_take_drop_id [of "Suc (length s)" "drop off im'"] by simp
  then show ?thesis using cstr_of_prefix [OF c(3)] by (metis cstr_at_def)
qed

definition name_off :: "u64 \<Rightarrow> nat" where
  "name_off e = unat ((e AND NOT IMAGE_ORDINAL_FLAG) + 2)"

text \<open>Image \<open>k\<close> with the bytes \<open>im\<close>.\<close>

definition with_bytes :: "pe_image list \<Rightarrow> nat \<Rightarrow> u8 list \<Rightarrow> pe_image list" where
  "with_bytes pes k im = pes[k := (pes ! k)\<lparr>pe_bytes := im\<rparr>]"

text \<open>The symbols of \<^verbatim>\<open>pe_exports\<close> have the names \<open>xs\<close>; those in image \<open>k\<close> itself lie outside its address table
  between \<open>ad\<close> and \<open>hi\<close>.\<close>

definition exports_named :: "nat \<Rightarrow> nat \<Rightarrow> pe_image list \<Rightarrow> nat \<Rightarrow> u8 list \<Rightarrow> pe_export list \<Rightarrow> u8 list list \<Rightarrow> bool" where
  "exports_named ad hi pes k im exps xs \<longleftrightarrow>
     list_all2 (\<lambda>e x. Option.bind (export_name (with_bytes pes k im) e) cstr = Some x \<and>
       (fst (ex_name e) = pe_base (pes ! k) \<longrightarrow>
          snd (ex_name e) + Suc (length x) \<le> ad \<or> hi \<le> snd (ex_name e))) exps xs"

lemma find_with_bytes:
  assumes "find (\<lambda>p. pe_base p = b) (with_bytes pes k im) = Some p"
  shows "find (\<lambda>p. pe_base p = b) (with_bytes pes k im') = Some p \<or>
    b = pe_base (pes ! k) \<and> p = (pes ! k)\<lparr>pe_bytes := im\<rparr> \<and>
    find (\<lambda>p. pe_base p = b) (with_bytes pes k im') = Some ((pes ! k)\<lparr>pe_bytes := im'\<rparr>)"
  using assms unfolding with_bytes_def
proof (induction pes arbitrary: k)
  case (Cons q pes)
  then show ?case by (cases k) (auto split: if_splits)
qed simp

lemma export_name_local:
  assumes "Option.bind (export_name (with_bytes pes k im) e) cstr = Some x" "agree_outside ad hi im im'"
    "fst (ex_name e) = pe_base (pes ! k) \<longrightarrow> snd (ex_name e) + Suc (length x) \<le> ad \<or> hi \<le> snd (ex_name e)"
  shows "Option.bind (export_name (with_bytes pes k im') e) cstr = Some x"
proof -
  obtain p where p: "find (\<lambda>p. pe_base p = fst (ex_name e)) (with_bytes pes k im) = Some p"
    "cstr_at (pe_bytes p) (snd (ex_name e)) = Some x"
    using assms(1) by (auto simp: export_name_def bind_eq_Some_conv cstr_at_def)
  have "cstr_at im' (snd (ex_name e)) = Some x"
    if "cstr_at im (snd (ex_name e)) = Some x" "fst (ex_name e) = pe_base (pes ! k)"
    using that assms(3) by (intro cstr_at_local [OF that(1) agree_outside_sub [OF assms(2)]]) simp
  then show ?thesis
    using find_with_bytes [OF p(1), of im'] p(2)
    by (auto simp: export_name_def simp flip: cstr_at_def)
qed

lemma exports_named_local:
  "exports_named ad hi pes k im exps xs \<Longrightarrow> agree_outside ad hi im im' \<Longrightarrow> exports_named ad hi pes k im' exps xs"
  unfolding exports_named_def by (erule list_all2_mono) (blast intro: export_name_local)

lemma find_pe_cstr:
  assumes "cstr b = Some s" "exports_named ad hi pes k im exps xs"
  shows "find_pe (with_bytes pes k im) exps b = Some (map_of (zip xs (map ex_addr exps)) s)"
  using assms(2) unfolding exports_named_def
proof (induction rule: list_all2_induct)
  case (Cons e exps x xs)
  then obtain n where "export_name (with_bytes pes k im) e = Some n" "cstr n = Some x"
    by (auto simp: bind_eq_Some_conv)
  then show ?case using Cons strcmp_cstr [OF _ assms(1), of n x] by auto
qed simp

text \<open>The symbols a driver can be bound to: those of the wrapper tables first, then those of the images loaded.\<close>

definition symbols :: "(u8 list \<times> ptr) list \<Rightarrow> pe_export list \<Rightarrow> u8 list list \<Rightarrow> u8 list \<Rightarrow> ptr option" where
  "symbols syms exps xs = map_of (syms @ zip xs (map ex_addr exps))"

lemma get_export_cstr:
  assumes "cstr b = Some s" "\<forall>(n, f) \<in> set syms. 0 \<notin> set n" "exports_named ad hi pes k im exps xs"
  shows "get_export (map (\<lambda>(n, f). (n @ [0], f)) syms) exps (with_bytes pes k im) b = Some (symbols syms exps xs s)"
  using find_wrap_cstr [OF assms(1,2)] find_pe_cstr [OF assms(1,3)]
  by (auto simp: get_export_def symbols_def map_add_def split: option.splits)

text \<open>The lookup table at \<open>lk\<close> names the symbols \<open>ns\<close> and then ends, with a null entry or with one that imports by
  ordinal (\<open>ord\<close>); the table and the names lie outside the address table between \<open>ad\<close> and \<open>hi\<close>.\<close>

primrec thunks :: "nat \<Rightarrow> nat \<Rightarrow> bool \<Rightarrow> u8 list \<Rightarrow> nat \<Rightarrow> u8 list list \<Rightarrow> bool" where
  "thunks ad hi ord im p [] \<longleftrightarrow>
     (case rd64 im p of None \<Rightarrow> False
      | Some e \<Rightarrow> (if ord then e AND IMAGE_ORDINAL_FLAG \<noteq> 0 else e = 0)) \<and> (p + 8 \<le> ad \<or> hi \<le> p)"
| "thunks ad hi ord im p (s # ns) \<longleftrightarrow>
     (case rd64 im p of None \<Rightarrow> False
      | Some e \<Rightarrow> e \<noteq> 0 \<and> e AND IMAGE_ORDINAL_FLAG = 0 \<and> cstr_at im (name_off e) = Some s \<and>
          (p + 8 \<le> ad \<or> hi \<le> p) \<and> (name_off e + Suc (length s) \<le> ad \<or> hi \<le> name_off e)) \<and>
     thunks ad hi ord im (p + 8) ns"

lemma thunks_local: "thunks ad hi ord im p ns \<Longrightarrow> agree_outside ad hi im im' \<Longrightarrow> thunks ad hi ord im' p ns"
proof (induction ns arbitrary: p)
  case Nil
  then show ?case using agree_read(3) [OF agree_outside_sub [OF Nil(2), of p 8]] by simp
next
  case (Cons s ns)
  then obtain e where e: "rd64 im p = Some e" "cstr_at im (name_off e) = Some s"
    "p + 8 \<le> ad \<or> hi \<le> p" "name_off e + Suc (length s) \<le> ad \<or> hi \<le> name_off e"
    by (auto split: option.splits)
  have "rd64 im' p = Some e"
    using agree_read(3) [OF agree_outside_sub [OF Cons.prems(2) e(3)]] e(1) by simp
  moreover have "cstr_at im' (name_off e) = Some s"
    using cstr_at_local [OF e(2) agree_outside_sub [OF Cons.prems(2) e(4)]] .
  ultimately show ?case using Cons e by auto
qed

lemma import_loop_spec:
  assumes "thunks ad hi ord im (lk + 8 * i) ns" "hi = ad + 8 * (i + length ns)" "hi \<le> length im"
    "\<forall>(n, f) \<in> set syms. 0 \<notin> set n" "exports_named ad hi pes k im exps xs"
  shows "\<exists>im'. import_loop (map (\<lambda>(n, f). (n @ [0], f)) syms) exps pes k lk ad i ret im =
       Some (im', if ord \<or> (\<exists>s \<in> set ns. symbols syms exps xs s = None) then - 1 else ret) \<and>
     agree_outside (ad + 8 * i) hi im im' \<and>
     (\<forall>j < length ns. rd64 im' (ad + 8 * (i + j)) =
        (case symbols syms exps xs (ns ! j) of Some f \<Rightarrow> Some f | None \<Rightarrow> rd64 im (ad + 8 * (i + j))))"
  using assms
proof (induction ns arbitrary: i ret im)
  case Nil
  then show ?case
    by (subst import_loop.simps) (auto simp: agree_outside_def split: option.splits if_splits)
next
  case (Cons s ns)
  let ?tbl = "map (\<lambda>(n, f). (n @ [0], f)) syms"
  obtain e where e: "rd64 im (lk + 8 * i) = Some e" "e \<noteq> 0" "e AND IMAGE_ORDINAL_FLAG = 0"
    "cstr_at im (name_off e) = Some s"
    using Cons.prems(1) by (auto split: option.splits)
  have rest: "thunks ad hi ord im (lk + 8 * Suc i) ns"
    using Cons.prems(1) by (simp add: algebra_simps)
  have hi: "hi = ad + 8 * (Suc i + length ns)" using Cons.prems(2) by simp
  define r where "r = symbols syms exps xs s"
  have found: "get_export ?tbl exps (pes[k := (pes ! k)\<lparr>pe_bytes := im\<rparr>]) (drop (name_off e) im) = Some r"
    using get_export_cstr [OF _ Cons.prems(4,5)] e(4) by (simp add: cstr_at_def r_def with_bytes_def)
  obtain im1 where im1: "(case r of None \<Rightarrow> im1 = im | Some f \<Rightarrow> wr64 im (ad + 8 * i) f = Some im1)"
    using f64.put_ex [of "ad + 8 * i" im] hi Cons.prems(3) by (cases r) auto
  define ret1 where "ret1 = (if r = None then - 1 else ret)"
  have step: "import_loop ?tbl exps pes k lk ad i ret im = import_loop ?tbl exps pes k lk ad (Suc i) ret1 im1"
    using e found im1 by (subst import_loop.simps) (auto simp: name_off_def ret1_def split: option.splits)
  have ag1: "agree_outside (ad + 8 * i) (ad + 8 * Suc i) im im1"
    using im1 f64.put_frame [of im "ad + 8 * i" _ im1] f64.put_dom [of im "ad + 8 * i" _ im1]
    by (auto simp: agree_outside_def agree_def split: option.splits)
  have slot: "rd64 im1 (ad + 8 * i) = (case r of Some f \<Rightarrow> Some f | None \<Rightarrow> rd64 im (ad + 8 * i))"
    using im1 f64.get_put by (auto split: option.splits)
  have others: "rd64 im1 (ad + 8 * (Suc i + j)) = rd64 im (ad + 8 * (Suc i + j))" for j
    by (rule agree_read(3) [OF agree_outside_sub [OF ag1, of "ad + 8 * (Suc i + j)" 8]]) simp_all
  have ag: "agree_outside ad hi im im1"
    by (rule agree_outside_mono [OF ag1]) (use hi in simp_all)
  have len: "length im1 = length im" using ag by (simp add: agree_outside_def agree_def)
  obtain im' where im': "import_loop ?tbl exps pes k lk ad (Suc i) ret1 im1 =
       Some (im', if ord \<or> (\<exists>s \<in> set ns. symbols syms exps xs s = None) then - 1 else ret1)"
    "agree_outside (ad + 8 * Suc i) hi im1 im'"
    "\<forall>j < length ns. rd64 im' (ad + 8 * (Suc i + j)) =
       (case symbols syms exps xs (ns ! j) of Some f \<Rightarrow> Some f | None \<Rightarrow> rd64 im1 (ad + 8 * (Suc i + j)))"
    using Cons.IH [OF thunks_local [OF rest ag] hi _ Cons.prems(4) exports_named_local [OF Cons.prems(5) ag], of ret1]
      Cons.prems(3) len by auto
  have "rd64 im' (ad + 8 * i) = rd64 im1 (ad + 8 * i)"
    by (rule agree_read(3) [OF agree_outside_sub [OF im'(2), of "ad + 8 * i" 8]]) simp_all
  then have "\<forall>j < Suc (length ns). rd64 im' (ad + 8 * (i + j)) =
      (case symbols syms exps xs ((s # ns) ! j) of Some f \<Rightarrow> Some f | None \<Rightarrow> rd64 im (ad + 8 * (i + j)))"
    unfolding All_less_Suc2 using slot im'(3) others by (simp add: r_def cong: option.case_cong)
  moreover have "agree_outside (ad + 8 * i) hi im im'"
    by (rule agree_outside_trans) (rule agree_outside_mono [OF ag1], use hi in simp_all,
        rule agree_outside_mono [OF im'(2)], simp_all)
  ultimately show ?case using step im'(1) by (auto simp: ret1_def r_def)
qed

text \<open>C7: For a descriptor whose lookup table names the symbols \<open>ns\<close> and then ends, with a null entry or with one
  that imports by ordinal, where the lookup table, the names and the names the image itself exports lie outside its
  address table: import binds every slot whose symbol is known (exported by the wrapper tables, whose names are C
  strings, or else by an image loaded before, the first entry of that name deciding), leaves the slots of unknown
  symbols and all bytes outside the address table as they are, and returns \<open>-1\<close> exactly when some symbol is unknown
  or an entry imports by ordinal, at which it stops.\<close>
theorem import_binds:
  assumes "rd32 im d = Some lk" "rd32 im (d + 16) = Some ad"
    "thunks (unat ad) (unat ad + 8 * length ns) ord im (unat lk) ns" "unat ad + 8 * length ns \<le> length im"
    "\<forall>(n, f) \<in> set syms. 0 \<notin> set n"
    "exports_named (unat ad) (unat ad + 8 * length ns) pes k im exps xs"
  shows "\<exists>im'. import (map (\<lambda>(n, f). (n @ [0], f)) syms) exps pes k d im =
       Some (im', if ord \<or> (\<exists>s \<in> set ns. symbols syms exps xs s = None) then - 1 else 0) \<and>
     agree_outside (unat ad) (unat ad + 8 * length ns) im im' \<and>
     (\<forall>j < length ns. rd64 im' (unat ad + 8 * j) =
        (case symbols syms exps xs (ns ! j) of Some f \<Rightarrow> Some f | None \<Rightarrow> rd64 im (unat ad + 8 * j)))"
  using import_loop_spec [of "unat ad" _ ord im "unat lk" 0 ns syms pes k exps xs 0] assms
  by (simp add: import_def cong: option.case_cong)

text \<open>Three symbols, \<open>ab\<close> exported by the wrapper, \<open>cd\<close> unknown and \<open>ef\<close> exported by the image of a driver loaded
  before, and then an import by ordinal; descriptor at 0, lookup table at 24, address table at 56, names at 80.\<close>

definition import_demo :: "u8 list" where
  "import_demo = layout [(4, 24), (12, 0), (4, 56), (4, 0), (8, 80), (8, 88), (8, 96), (8, 0x8000000000000005),
     (8, 80), (8, 88), (8, 96), (2, 0), (2, 0x6261), (4, 0), (2, 0), (2, 0x6463), (4, 0), (2, 0), (2, 0x6665), (4, 0)]"

definition import_pes :: "pe_image list" where
  "import_pes =
     [\<lparr>pe_name = [0x70], pe_entry = 0, pe_base = 0x1000, pe_bytes = [0, 0x65, 0x66, 0], pe_size = 4, pe_type = 2,
       nt_hdr = 0\<rparr>,
      \<lparr>pe_name = [0x71], pe_entry = 0, pe_base = 0x2000, pe_bytes = import_demo, pe_size = 104, pe_type = 2,
       nt_hdr = 0\<rparr>]"

definition import_exps :: "pe_export list" where
  "import_exps = [\<lparr>ex_dll = [0x70], ex_name = (0x1000, 1), ex_addr = 0xbeef\<rparr>]"

theorem import_binds_witness:
  "\<exists>im'. import [([0x61, 0x62, 0], 0xdead)] import_exps import_pes 1 0 import_demo = Some (im', - 1) \<and>
     rd64 im' 56 = Some 0xdead \<and> rd64 im' 64 = Some 88 \<and> rd64 im' 72 = Some 0xbeef"
proof -
  let ?ns = "[[0x61, 0x62], [0x63, 0x64], [0x65, 0x66 :: u8]]"
  let ?syms = "[([0x61, 0x62], 0xdead)] :: (u8 list \<times> ptr) list"
  have v: "rd32 import_demo 0 = Some 24" "rd32 import_demo (0 + 16) = Some 56"
    "thunks (unat (56 :: u32)) (unat (56 :: u32) + 8 * length ?ns) True import_demo (unat (24 :: u32)) ?ns"
    "unat (56 :: u32) + 8 * length ?ns \<le> length import_demo"
    "\<forall>(n, f) \<in> set ?syms. 0 \<notin> set n"
    "exports_named (unat (56 :: u32)) (unat (56 :: u32) + 8 * length ?ns) import_pes 1 import_demo import_exps [[0x65, 0x66]]"
    by code_simp+
  have w: "symbols ?syms import_exps [[0x65, 0x66]] [0x61, 0x62] = Some 0xdead"
    "symbols ?syms import_exps [[0x65, 0x66]] [0x63, 0x64] = None"
    "symbols ?syms import_exps [[0x65, 0x66]] [0x65, 0x66] = Some 0xbeef" "rd64 import_demo 64 = Some 88"
    by code_simp+
  obtain im' where im': "import [([0x61, 0x62, 0], 0xdead)] import_exps import_pes 1 0 import_demo = Some (im', - 1)"
    "\<forall>j < length ?ns. rd64 im' (unat (56 :: u32) + 8 * j) =
       (case symbols ?syms import_exps [[0x65, 0x66]] (?ns ! j) of Some f \<Rightarrow> Some f
        | None \<Rightarrow> rd64 import_demo (unat (56 :: u32) + 8 * j))"
    using import_binds [OF v] by auto
  then show ?thesis
    using im'(2) [rule_format, of 0] im'(2) [rule_format, of 1] im'(2) [rule_format, of 2] w by auto
qed

section \<open>Properties: exports and linking\<close>

lemma check_nt_hdr_values: "check_nt_hdr im nt = Some t \<Longrightarrow> t = 2 \<or> t = - EINVAL"
  by (auto simp: check_nt_hdr_def Let_def bind_eq_Some_conv IMAGE_FILE_EXECUTABLE_IMAGE_def
      IMAGE_FILE_LARGE_ADDRESS_AWARE_def mask_bit split: if_splits)

lemma fix_pe_image_keeps: "fix_pe_image al pe = Some (pe', r) \<Longrightarrow> pe_type pe' = pe_type pe \<and> pe_name pe' = pe_name pe"
  by (auto simp: fix_pe_image_def Let_def bind_eq_Some_conv split: if_splits option.splits)

lemma link_one_spec:
  assumes "link_one al i s = Some (s', r)"
  shows "(r = 0 \<or> r = - EINVAL) \<and>
    (\<exists>pe. ls_images s' = (ls_images s)[i := pe] \<and> (r = 0 \<longrightarrow> pe_type pe = 2))"
proof (cases "(scast (pe_size (ls_images s ! i)) :: u64) < 64")
  case True
  with assms have "s' = s" "r = - EINVAL" by (auto simp: link_one_def Let_def)
  then show ?thesis by (metis list_update_id neg_equal_0_iff_equal zero_neq_numeral)
next
  case False
  then show ?thesis
    using assms unfolding link_one_def Let_def
    by (auto simp: bind_eq_Some_conv split: if_splits dest!: check_nt_hdr_values fix_pe_image_keeps)
qed

lemma link_first_spec:
  "link_first al i n s = Some (s', r) \<Longrightarrow>
   (r = 0 \<or> r = - EINVAL) \<and> length (ls_images s') = length (ls_images s) \<and>
   (r = 0 \<longrightarrow> (\<forall>j < length (ls_images s). pe_type (ls_images s' ! j) =
      (if i \<le> j \<and> j < i + n then 2 else pe_type (ls_images s ! j))))"
proof (induction n arbitrary: i s)
  case (Suc n)
  then obtain s1 r1 where s1: "link_one (al i) i s = Some (s1, r1)" and
    rest: "if r1 \<noteq> 0 then (s', r) = (s1, r1) else link_first al (Suc i) n s1 = Some (s', r)"
    by (auto simp: bind_eq_Some_conv split: if_splits)
  obtain pe where pe: "ls_images s1 = (ls_images s)[i := pe]" "r1 = 0 \<longrightarrow> pe_type pe = 2" "r1 = 0 \<or> r1 = - EINVAL"
    using link_one_spec [OF s1] by blast
  show ?case
  proof (cases "r1 = 0")
    case True
    with rest have "link_first al (Suc i) n s1 = Some (s', r)" by simp
    from Suc.IH [OF this] pe True show ?thesis by (auto simp: nth_list_update)
  qed (use rest pe in auto)
qed auto

lemma bind_one_spec:
  assumes "bind_one tbl ksd i s = Some (s', r)"
  shows "(r = 0 \<or> r = - EINVAL) \<and> map pe_type (ls_images s') = map pe_type (ls_images s)"
proof -
  have "map pe_type ((ls_images s)[i := pe]) = map pe_type (ls_images s)"
    if "pe_type pe = pe_type (ls_images s ! i)" for pe
    using that by (simp add: map_update) (metis list_update_beyond list_update_id not_less nth_map length_map)
  then show ?thesis
    using assms unfolding bind_one_def Let_def
    by (auto simp: bind_eq_Some_conv split: if_splits)
qed

lemma link_second_spec:
  "link_second tbl ksd i n s = Some (s', r) \<Longrightarrow>
   (r = 0 \<or> r = - EINVAL) \<and> map pe_type (ls_images s') = map pe_type (ls_images s)"
  by (induction n arbitrary: i s)
    (auto simp: bind_eq_Some_conv split: if_splits dest!: bind_one_spec)

lemma link_third_none: "\<forall>pe \<in> set pes. pe_type pe \<noteq> uint IMAGE_FILE_DLL \<Longrightarrow> link_third s pes = Some []"
  by (induction pes) auto

text \<open>link_pe_images returns 0 or \<open>-EINVAL\<close>; after success every image has the type
  IMAGE_FILE_EXECUTABLE_IMAGE, because a header that passes the checks always has that bit, so the branch that runs
  DllInitialize is never taken and no initialiser of an imported DLL is called.\<close>
theorem link_pe_images_no_dll_init:
  assumes "link_pe_images alloc tbl ksd s = Some (s', r, calls)"
  shows "(r = 0 \<or> r = - EINVAL) \<and> calls = [] \<and> (r = 0 \<longrightarrow> (\<forall>pe \<in> set (ls_images s'). pe_type pe = 2))"
proof -
  obtain s1 r1 where s1: "link_first alloc 0 (length (ls_images s)) s = Some (s1, r1)"
    using assms by (auto simp: link_pe_images_def Let_def bind_eq_Some_conv)
  note f = link_first_spec [OF s1]
  show ?thesis
  proof (cases "r1 = 0")
    case False
    then show ?thesis using assms s1 f by (auto simp: link_pe_images_def Let_def)
  next
    case True
    then obtain s2 r2 where s2: "link_second tbl ksd 0 (length (ls_images s)) s1 = Some (s2, r2)"
      using assms s1 by (auto simp: link_pe_images_def Let_def bind_eq_Some_conv)
    note g = link_second_spec [OF s2]
    have "\<forall>t \<in> set (map pe_type (ls_images s1)). t = 2"
      using f True by (auto simp: in_set_conv_nth)
    then have types: "\<forall>pe \<in> set (ls_images s2). pe_type pe = 2"
      using g by (metis image_eqI list.set_map)
    then have "link_third s2 (ls_images s2) = Some []"
      by (intro link_third_none) (simp add: IMAGE_FILE_DLL_def)
    with assms s1 s2 True g types show ?thesis
      by (auto simp: link_pe_images_def Let_def split: if_splits)
  qed
qed

definition link_demo :: link_state where
  "link_demo = \<lparr>ls_images = [\<lparr>pe_name = [0x61], pe_entry = 0, pe_base = 0x5000, pe_bytes = hdr_demo, pe_size = 248,
     pe_type = 0, nt_hdr = 0\<rparr>], ls_exports = [], ls_shared_data_used = False\<rparr>"

theorem link_pe_images_no_dll_init_witness:
  "\<exists>s'. link_pe_images (\<lambda>_ _. None) [] 0 link_demo = Some (s', 0, []) \<and> pe_type (ls_images s' ! 0) = 2"
proof -
  have "map_option (\<lambda>(s, r, c). (length (ls_images s), r)) (link_pe_images (\<lambda>_ _. None) [] 0 link_demo) = Some (1, 0)"
    by code_simp
  then obtain s' c where s': "link_pe_images (\<lambda>_ _. None) [] 0 link_demo = Some (s', 0, c)" "length (ls_images s') = 1"
    by auto
  with link_pe_images_no_dll_init [OF s'(1)] show ?thesis
    by (cases "ls_images s'") auto
qed

definition export_entry :: "pe_image \<Rightarrow> nat \<Rightarrow> nat \<Rightarrow> nat \<Rightarrow> pe_export" where
  "export_entry pe names funs i =
     \<lparr>ex_dll = pe_name pe, ex_name = (pe_base pe, unat (the (rd32 (pe_bytes pe) (names + 4 * i)))),
      ex_addr = pe_base pe + ucast (the (rd32 (pe_bytes pe) (funs + 4 * i)))\<rparr>"

lemma exports_loop_spec:
  "names + 4 * n \<le> length (pe_bytes pe) \<Longrightarrow> funs + 4 * n \<le> length (pe_bytes pe) \<Longrightarrow>
   exports_loop pe names funs n exps =
     (if length exps + n \<le> MAX_PE_EXPORTS \<or> n = 0 then Some (exps @ map (export_entry pe names funs) [0..<n]) else None)"
proof (induction n arbitrary: names funs exps)
  case (Suc n)
  obtain v w where v: "rd32 (pe_bytes pe) names = Some v" "rd32 (pe_bytes pe) funs = Some w"
    using f32.get_ex [of names "pe_bytes pe"] f32.get_ex [of funs "pe_bytes pe"] Suc.prems by auto
  have shift: "map (export_entry pe (names + 4) (funs + 4)) [0..<n] = map (export_entry pe names funs) [Suc 0..<Suc n]"
    by (simp only: map_Suc_upt [symmetric] map_map) (simp add: export_entry_def add.assoc)
  show ?case
    using Suc.IH [of "names + 4" "funs + 4"] Suc.prems v shift
    by (simp add: export_entry_def [of _ _ _ 0] upt_rec [of 0 "Suc n"] del: upt_Suc)
qed simp

text \<open>With readable export tables, read_exports appends one entry per exported name, with its name and its
  address, as long as the table of 40 entries has room; one name too many and it writes behind the table.\<close>
theorem read_exports_capacity:
  assumes "rd32 (pe_bytes pe) (nt_hdr pe + 140) = Some sz" "sz \<noteq> 0"
    "rd32 (pe_bytes pe) (nt_hdr pe + 136) = Some va" "rd32 (pe_bytes pe) (unat va + 32) = Some names"
    "rd32 (pe_bytes pe) (unat va + 28) = Some funs" "rd32 (pe_bytes pe) (unat va + 24) = Some n" "n \<noteq> 0"
    "unat names + 4 * unat n \<le> length (pe_bytes pe)" "unat funs + 4 * unat n \<le> length (pe_bytes pe)"
  shows "read_exports pe exps =
     (if length exps + unat n \<le> 40
      then Some (exps @ map (export_entry pe (unat names) (unat funs)) [0..<unat n], 0) else None)"
  using assms by (simp add: read_exports_def exports_loop_spec add.assoc MAX_PE_EXPORTS_def unat_eq_0)

definition export_demo :: pe_image where
  "export_demo = \<lparr>pe_name = [0x61], pe_entry = 0, pe_base = 0x5000,
     pe_bytes = layout [(24, 0), (4, 2), (4, 40), (4, 48), (4, 0), (4, 0x11), (4, 0x22), (4, 60), (4, 62), (4, 0),
       (2, 0x61), (2, 0x62), (72, 0), (4, 0), (4, 40)],
     pe_size = 144, pe_type = 2, nt_hdr = 0\<rparr>"

theorem read_exports_capacity_witness:
  "read_exports export_demo [] = Some ([
      \<lparr>ex_dll = [0x61], ex_name = (0x5000, 60), ex_addr = 0x5011\<rparr>,
      \<lparr>ex_dll = [0x61], ex_name = (0x5000, 62), ex_addr = 0x5022\<rparr>], 0)"
proof -
  have v: "rd32 (pe_bytes export_demo) (nt_hdr export_demo + 140) = Some 40"
    "rd32 (pe_bytes export_demo) (nt_hdr export_demo + 136) = Some 0"
    "rd32 (pe_bytes export_demo) (unat (0 :: u32) + 32) = Some 48"
    "rd32 (pe_bytes export_demo) (unat (0 :: u32) + 28) = Some 40"
    "rd32 (pe_bytes export_demo) (unat (0 :: u32) + 24) = Some 2"
    "unat (48 :: u32) + 4 * unat (2 :: u32) \<le> length (pe_bytes export_demo)"
    "unat (40 :: u32) + 4 * unat (2 :: u32) \<le> length (pe_bytes export_demo)"
    by code_simp+
  have "map (export_entry export_demo 48 40) [0..<2] = [
      \<lparr>ex_dll = [0x61], ex_name = (0x5000, 60), ex_addr = 0x5011\<rparr>,
      \<lparr>ex_dll = [0x61], ex_name = (0x5000, 62), ex_addr = 0x5022\<rparr>]"
    by code_simp
  then show ?thesis
    using read_exports_capacity [OF v(1) _ v(2-5) _ v(6,7), of "[]"] by simp
qed

end
