(* ===== verification/Irp.thy ===== *)
theory Irp
  imports Prelude
begin

text \<open>
  I/O request packets of \<^verbatim>\<open>ntoskernel_io.c\<close> and \<^verbatim>\<open>winnt_types.h\<close>: allocation, the stack of I/O
  locations, passing an IRP to a driver, completing it, cancelling and freeing it.

  An IRP is a record with the list of its stack locations; \<open>csl\<close> is the index the pointer
  \<^verbatim>\<open>tail.overlay.csl\<close> has in that list, \<open>stack_count\<close> and \<open>current_location\<close> are 8-bit signed
  numbers.  Allocated IRPs live in a store; reading a freed IRP or a stack location
  outside the packet is \<open>None\<close>.  The routines that belong to drivers (dispatch, completion
  and cancel routines) are one parameter \<open>run\<close>: it gets the address of the routine, the
  device object, the IRP and the context and returns the new state and a status.  The
  queue of IRPs of a thread is the list of its members (the pointer structure is the one
  of \<^verbatim>\<open>nt_list\<close>).  What the functions do to the rest of the system is recorded in \<open>io_log\<close>.
\<close>

section \<open>Data\<close>

datatype io_params =
    Params_None
  | Params_RW u32 u64
  | Params_Ioctl u32 u32 u32 ptr
  | Params_Power u32 u32

record io_stack_location =
  major_fn :: u8
  minor_fn :: u8
  sl_flags :: u8
  control :: u8
  params :: io_params
  sl_dev_obj :: ptr
  file_obj :: ptr
  completion_routine :: ptr
  sl_context :: ptr

record irp =
  ir_size :: u16
  mdl :: "ptr list"
  ir_flags :: u32
  system_buffer :: ptr
  ir_status :: NTSTATUS
  ir_info :: u64
  pending_returned :: bool
  stack_count :: int
  current_location :: int
  csl :: int
  ir_stack :: "io_stack_location list"
  cancel :: bool
  alloc_flags :: u8
  user_status :: ptr
  user_event :: ptr
  cancel_routine :: ptr
  user_buf :: ptr
  ir_thread :: ptr

datatype io_event =
    Set_Event ptr
  | Free_Pool ptr
  | Free_Mdl ptr
  | Call_Dispatch ptr ptr ptr
  | Call_Completion ptr ptr ptr
  | Call_Cancel ptr ptr ptr
  | Free_Irp ptr

record io_state =
  io_irps :: "ptr \<Rightarrow> irp option"
  io_thread_irps :: "ptr \<Rightarrow> ptr list"
  io_user_status :: "ptr \<Rightarrow> NTSTATUS \<times> u64"
  io_major_func :: "ptr \<Rightarrow> u8 \<Rightarrow> ptr"
  io_log :: "io_event list"

type_synonym driver = "ptr \<Rightarrow> ptr \<Rightarrow> ptr \<Rightarrow> ptr \<Rightarrow> io_state \<Rightarrow> io_state \<times> NTSTATUS"

definition SL_PENDING_RETURNED :: u8 where "SL_PENDING_RETURNED = 0x01"
definition SL_INVOKE_ON_CANCEL :: u8 where "SL_INVOKE_ON_CANCEL = 0x20"
definition SL_INVOKE_ON_SUCCESS :: u8 where "SL_INVOKE_ON_SUCCESS = 0x40"
definition SL_INVOKE_ON_ERROR :: u8 where "SL_INVOKE_ON_ERROR = 0x80"
definition IRP_SYNCHRONOUS_API :: u32 where "IRP_SYNCHRONOUS_API = 0x00000004"
definition IRP_BUFFERED_IO :: u32 where "IRP_BUFFERED_IO = 0x00000010"
definition IRP_DEALLOCATE_BUFFER :: u32 where "IRP_DEALLOCATE_BUFFER = 0x00000020"
definition IRP_INPUT_OPERATION :: u32 where "IRP_INPUT_OPERATION = 0x00000040"
definition IRP_MJ_READ :: u32 where "IRP_MJ_READ = 0x03"
definition IRP_MJ_WRITE :: u32 where "IRP_MJ_WRITE = 0x04"
definition IRP_MJ_DEVICE_CONTROL :: u8 where "IRP_MJ_DEVICE_CONTROL = 0x0E"
definition IRP_MJ_INTERNAL_DEVICE_CONTROL :: u8 where "IRP_MJ_INTERNAL_DEVICE_CONTROL = 0x0F"
definition IRP_MJ_POWER :: u8 where "IRP_MJ_POWER = 0x16"
definition IRP_MJ_MAXIMUM_FUNCTION :: u8 where "IRP_MJ_MAXIMUM_FUNCTION = 0x1b"
definition DO_BUFFERED_IO :: u32 where "DO_BUFFERED_IO = 0x00000004"
definition DO_DIRECT_IO :: u32 where "DO_DIRECT_IO = 0x00000010"

text \<open>8-bit signed wrap-around of \<^verbatim>\<open>CHAR\<close> sums.\<close>

definition char_add :: "int \<Rightarrow> int \<Rightarrow> int" where
  "char_add a b = sint (word_of_int (a + b) :: u8)"

text \<open>\<^verbatim>\<open>sizeof(struct irp)\<close> and \<^verbatim>\<open>sizeof(struct io_stack_location)\<close> with the x86-64 ABI.\<close>

definition sizeof_irp :: int where "sizeof_irp = 208"
definition sizeof_sl :: int where "sizeof_sl = 72"

definition IoSizeOfIrp :: "int \<Rightarrow> u16" where
  "IoSizeOfIrp n = word_of_int (sizeof_irp + n * sizeof_sl)"

definition zero_sl :: io_stack_location where
  "zero_sl = \<lparr>major_fn = 0, minor_fn = 0, sl_flags = 0, control = 0, params = Params_None, sl_dev_obj = 0,
     file_obj = 0, completion_routine = 0, sl_context = 0\<rparr>"

section \<open>Stack locations\<close>

text \<open>Access to the stack location at an index that may be negative.\<close>

definition sl_at :: "irp \<Rightarrow> int \<Rightarrow> io_stack_location option" where
  "sl_at ir i = (if 0 \<le> i then rd (ir_stack ir) (nat i) else None)"

definition sl_put :: "irp \<Rightarrow> int \<Rightarrow> io_stack_location \<Rightarrow> irp option" where
  "sl_put ir i sl = (if 0 \<le> i then map_option (\<lambda>st. ir\<lparr>ir_stack := st\<rparr>) (wr (ir_stack ir) (nat i) sl) else None)"

definition IoGetCurrentIrpStackLocation :: "irp \<Rightarrow> io_stack_location option" where
  "IoGetCurrentIrpStackLocation ir = sl_at ir (csl ir)"

definition IoSetNextIrpStackLocation :: "irp \<Rightarrow> irp" where
  "IoSetNextIrpStackLocation ir = ir\<lparr>current_location := char_add (current_location ir) (- 1), csl := csl ir - 1\<rparr>"

definition IoSkipCurrentIrpStackLocation :: "irp \<Rightarrow> irp" where
  "IoSkipCurrentIrpStackLocation ir = ir\<lparr>current_location := char_add (current_location ir) 1, csl := csl ir + 1\<rparr>"

definition IoMarkIrpPending :: "irp \<Rightarrow> irp option" where
  "IoMarkIrpPending ir =
     do { sl \<leftarrow> sl_at ir (csl ir); sl_put ir (csl ir) (sl\<lparr>control := control sl OR SL_PENDING_RETURNED\<rparr>) }"

definition IoCopyCurrentIrpStackLocationToNext :: "irp \<Rightarrow> irp option" where
  "IoCopyCurrentIrpStackLocationToNext ir =
     do { cur \<leftarrow> sl_at ir (csl ir);
          next \<leftarrow> sl_at ir (csl ir - 1);
          sl_put ir (csl ir - 1) (cur\<lparr>completion_routine := completion_routine next, sl_context := sl_context next,
                                     control := 0\<rparr>) }"

definition IoSetCompletionRoutine :: "irp \<Rightarrow> ptr \<Rightarrow> ptr \<Rightarrow> bool \<Rightarrow> bool \<Rightarrow> bool \<Rightarrow> irp option" where
  "IoSetCompletionRoutine ir routine context success err canc =
     do { sl \<leftarrow> sl_at ir (csl ir - 1);
          let c0 = 0; c1 = (if success then c0 OR SL_INVOKE_ON_SUCCESS else c0);
              c2 = (if err then c1 OR SL_INVOKE_ON_ERROR else c1);
              c3 = (if canc then c2 OR SL_INVOKE_ON_CANCEL else c2) in
          sl_put ir (csl ir - 1) (sl\<lparr>completion_routine := routine, sl_context := context, control := c3\<rparr>) }"

section \<open>Allocation and cancellation\<close>

text \<open>A packet of \<open>size\<close> bytes after \<^verbatim>\<open>memset\<close>.  Sizes other than those of IoSizeOfIrp are outside the model.\<close>

definition IoInitializeIrp :: "irp \<Rightarrow> u16 \<Rightarrow> int \<Rightarrow> irp option" where
  "IoInitializeIrp ir sz count =
     (let n = (uint sz - sizeof_irp) div sizeof_sl in
      if uint sz < sizeof_irp \<or> (uint sz - sizeof_irp) mod sizeof_sl \<noteq> 0 \<or> int (length (ir_stack ir)) < n then None
      else Some (ir\<lparr>ir_size := sz, mdl := [], ir_flags := 0, system_buffer := 0, ir_status := 0, ir_info := 0,
             pending_returned := False, stack_count := count, current_location := count, csl := count,
             ir_stack := replicate (nat n) zero_sl @ drop (nat n) (ir_stack ir),
             cancel := False, alloc_flags := 0, user_status := 0, user_event := 0, cancel_routine := 0,
             user_buf := 0, ir_thread := 0\<rparr>))"

definition IoReuseIrp :: "irp \<Rightarrow> NTSTATUS \<Rightarrow> irp option" where
  "IoReuseIrp ir status =
     map_option (\<lambda>i. i\<lparr>alloc_flags := alloc_flags ir, ir_status := status\<rparr>) (IoInitializeIrp ir (ir_size ir) (stack_count ir))"

text \<open>The fresh memory of \<open>size\<close> bytes that \<^verbatim>\<open>kmalloc\<close> returns; its content is overwritten at once.\<close>

definition raw_irp :: "u16 \<Rightarrow> irp" where
  "raw_irp sz = \<lparr>ir_size = 0, mdl = [], ir_flags = 0, system_buffer = 0, ir_status = 0, ir_info = 0,
     pending_returned = False, stack_count = 0, current_location = 0, csl = 0,
     ir_stack = replicate (nat ((uint sz - sizeof_irp) div sizeof_sl)) zero_sl, cancel = False, alloc_flags = 0,
     user_status = 0, user_event = 0, cancel_routine = 0, user_buf = 0, ir_thread = 0\<rparr>"

text \<open>\<open>kmalloc\<close> is the address the allocator returns, 0 when it fails.\<close>

definition IoAllocateIrp :: "ptr \<Rightarrow> int \<Rightarrow> io_state \<Rightarrow> (io_state \<times> ptr) option" where
  "IoAllocateIrp kmalloc count s =
     (let n = char_add count 1; sz = IoSizeOfIrp n in
      if kmalloc = NULL then Some (s, NULL)
      else do { ir \<leftarrow> IoInitializeIrp (raw_irp sz) sz n;
                Some (s\<lparr>io_irps := (io_irps s)(kmalloc \<mapsto> ir)\<rparr>, kmalloc) })"

definition io_logged :: "io_event \<Rightarrow> io_state \<Rightarrow> io_state" where
  "io_logged e s = s\<lparr>io_log := io_log s @ [e]\<rparr>"

definition io_put :: "ptr \<Rightarrow> irp \<Rightarrow> io_state \<Rightarrow> io_state" where
  "io_put p ir s = s\<lparr>io_irps := (io_irps s)(p \<mapsto> ir)\<rparr>"

definition IoCancelIrp :: "driver \<Rightarrow> ptr \<Rightarrow> io_state \<Rightarrow> (io_state \<times> bool) option" where
  "IoCancelIrp run p s =
     (if p = NULL then Some (s, False) else
      do { ir \<leftarrow> io_irps s p;
           let r = cancel_routine ir; s1 = io_put p (ir\<lparr>cancel_routine := 0, cancel := True\<rparr>) s in
           if r = NULL then Some (s1, False) else
      do { dev \<leftarrow> (if 0 \<le> current_location ir \<and> current_location ir < stack_count ir
                   then map_option sl_dev_obj (IoGetCurrentIrpStackLocation ir) else Some NULL);
           let s2 = fst (run r dev p 0 (io_logged (Call_Cancel r dev p) s1)) in
      do { ir2 \<leftarrow> io_irps s2 p;
           Some (io_put p (ir2\<lparr>cancel := True\<rparr>) s2, cancel ir2) } } })"

definition IoQueueThreadIrp :: "ptr \<Rightarrow> ptr \<Rightarrow> io_state \<Rightarrow> io_state option" where
  "IoQueueThreadIrp thread p s =
     do { ir \<leftarrow> io_irps s p;
          if thread \<noteq> NULL
          then Some ((io_put p (ir\<lparr>ir_flags := ir_flags ir OR IRP_SYNCHRONOUS_API, ir_thread := thread\<rparr>) s)
                 \<lparr>io_thread_irps := (io_thread_irps s)(thread := io_thread_irps s thread @ [p])\<rparr>)
          else Some (io_put p (ir\<lparr>ir_thread := 0\<rparr>) s) }"

text \<open>Unlinking an IRP that is not linked is a fault.\<close>

definition IoDequeueThreadIrp :: "ptr \<Rightarrow> io_state \<Rightarrow> io_state option" where
  "IoDequeueThreadIrp p s =
     do { ir \<leftarrow> io_irps s p;
          let t = ir_thread ir in
          if t = NULL then Some s
          else if p \<in> set (io_thread_irps s t)
          then Some (s\<lparr>io_thread_irps := (io_thread_irps s)(t := remove1 p (io_thread_irps s t))\<rparr>)
          else None }"

definition IoFreeIrp :: "driver \<Rightarrow> ptr \<Rightarrow> io_state \<Rightarrow> io_state option" where
  "IoFreeIrp run p s =
     (if p = NULL then Some s else
      do { ir \<leftarrow> io_irps s p;
           s1 \<leftarrow> (if ir_flags ir AND IRP_SYNCHRONOUS_API \<noteq> 0 then IoDequeueThreadIrp p s else Some s);
           (s2, r) \<leftarrow> IoCancelIrp run p s1;
           Some (io_logged (Free_Irp p) (s2\<lparr>io_irps := (io_irps s2)(p := None)\<rparr>)) })"

section \<open>Building requests\<close>

text \<open>The device fields the builders read are passed along: \<open>dev_stack_count\<close> and \<open>dev_flags\<close>.  \<open>pool\<close> is the result of
  ExAllocatePoolWithTag for the system buffer, \<open>newmdl\<close> that of allocate_init_mdl.\<close>

definition IoAllocateMdl :: "ptr \<Rightarrow> bool \<Rightarrow> ptr \<Rightarrow> io_state \<Rightarrow> (io_state \<times> ptr) option" where
  "IoAllocateMdl newmdl second_buf p s =
     (if newmdl = NULL then Some (s, NULL)
      else if p = NULL then Some (s, newmdl)
      else do { ir \<leftarrow> io_irps s p;
                if second_buf
                then if mdl ir = [] then None else Some (io_put p (ir\<lparr>mdl := mdl ir @ [newmdl]\<rparr>) s, newmdl)
                else Some (io_put p (ir\<lparr>mdl := [newmdl]\<rparr>) s, newmdl) })"

definition IoBuildAsynchronousFsdRequest ::
  "driver \<Rightarrow> ptr \<Rightarrow> ptr \<Rightarrow> u32 \<Rightarrow> ptr \<Rightarrow> int \<Rightarrow> u32 \<Rightarrow> ptr \<Rightarrow> u32 \<Rightarrow> u64 \<Rightarrow> ptr \<Rightarrow> io_state \<Rightarrow> (io_state \<times> ptr) option" where
  "IoBuildAsynchronousFsdRequest run kmalloc newmdl mj dev dev_stack_count dev_flags buffer len offset ustatus s =
     (if dev = NULL then Some (s, NULL) else
      do { (s1, p) \<leftarrow> IoAllocateIrp kmalloc dev_stack_count s;
           if p = NULL then Some (s1, NULL) else
      do { ir \<leftarrow> io_irps s1 p;
           sl \<leftarrow> sl_at ir (csl ir - 1);
           ir1 \<leftarrow> sl_put ir (csl ir - 1) (sl\<lparr>major_fn := ucast mj, minor_fn := 0, sl_flags := 0, control := 0,
                    sl_dev_obj := dev, file_obj := 0, completion_routine := 0,
                    params := (if mj = IRP_MJ_READ \<or> mj = IRP_MJ_WRITE then Params_RW len offset else params sl)\<rparr>);
           let s2 = io_put p ir1 s1 in
      do { (s3, ok) \<leftarrow>
             (if dev_flags AND DO_DIRECT_IO \<noteq> 0 then
                do { (s', m) \<leftarrow> IoAllocateMdl newmdl False p s2;
                     if m = NULL then do { s'' \<leftarrow> IoFreeIrp run p s'; Some (s'', False) } else Some (s', True) }
              else if dev_flags AND DO_BUFFERED_IO \<noteq> 0 then
                Some (io_put p (ir1\<lparr>system_buffer := buffer, ir_flags := IRP_BUFFERED_IO, mdl := []\<rparr>) s2, True)
              else Some (s2, True));
           if \<not> ok then Some (s3, NULL) else
      do { ir3 \<leftarrow> io_irps s3 p;
           Some (io_put p (ir3\<lparr>user_status := ustatus\<rparr>) s3, p) } } } })"

definition IoBuildSynchronousFsdRequest ::
  "driver \<Rightarrow> ptr \<Rightarrow> ptr \<Rightarrow> ptr \<Rightarrow> u32 \<Rightarrow> ptr \<Rightarrow> int \<Rightarrow> u32 \<Rightarrow> ptr \<Rightarrow> u32 \<Rightarrow> u64 \<Rightarrow> ptr \<Rightarrow> ptr \<Rightarrow> io_state \<Rightarrow>
   (io_state \<times> ptr) option" where
  "IoBuildSynchronousFsdRequest run kmalloc newmdl thread mj dev dev_stack_count dev_flags buffer len offset event ustatus s =
     do { (s1, p) \<leftarrow> IoBuildAsynchronousFsdRequest run kmalloc newmdl mj dev dev_stack_count dev_flags buffer len offset ustatus s;
          if p = NULL then Some (s1, NULL) else
     do { ir \<leftarrow> io_irps s1 p;
          s2 \<leftarrow> IoQueueThreadIrp thread p (io_put p (ir\<lparr>user_event := event\<rparr>) s1);
          Some (s2, p) } }"

text \<open>The method of an I/O control code.\<close>

definition IO_METHOD_FROM_CTL_CODE :: "u32 \<Rightarrow> u32" where
  "IO_METHOD_FROM_CTL_CODE code = code AND 3"

text \<open>The switch over the method: \<open>None\<close> inside is the early return after a failed allocation.  \<open>poolin\<close> and
  \<open>poolout\<close> are the results of the one or two pool allocations.\<close>

definition ioctl_buffers ::
  "u32 \<Rightarrow> ptr \<Rightarrow> ptr \<Rightarrow> ptr \<Rightarrow> u32 \<Rightarrow> ptr \<Rightarrow> u32 \<Rightarrow> irp \<Rightarrow> irp option" where
  "ioctl_buffers ioctl poolin poolout input_buf input_len output_buf output_len ir =
     (let meth = IO_METHOD_FROM_CTL_CODE ioctl in
      if meth = 0 then
        if max input_len output_len \<noteq> 0 then
          if poolin = NULL then None
          else Some (ir\<lparr>system_buffer := input_buf,
                 ir_flags := (if output_buf \<noteq> NULL then IRP_INPUT_OPERATION else IRP_BUFFERED_IO OR IRP_DEALLOCATE_BUFFER),
                 user_buf := output_buf\<rparr>)
        else Some (ir\<lparr>user_buf := 0\<rparr>)
      else if meth = 1 \<or> meth = 2 then
        do { ir1 \<leftarrow> (if input_buf \<noteq> NULL then
                       if poolin = NULL then None
                       else Some (ir\<lparr>system_buffer := poolin, ir_flags := IRP_BUFFERED_IO OR IRP_DEALLOCATE_BUFFER\<rparr>)
                     else Some ir);
             if output_buf \<noteq> NULL then
               if poolout = NULL then None
               else Some (ir1\<lparr>system_buffer := poolout, ir_flags := IRP_BUFFERED_IO OR IRP_DEALLOCATE_BUFFER\<rparr>)
             else Some ir1 }
      else Some (ir\<lparr>user_buf := output_buf\<rparr>))"

definition IoBuildDeviceIoControlRequest ::
  "driver \<Rightarrow> ptr \<Rightarrow> ptr \<Rightarrow> ptr \<Rightarrow> ptr \<Rightarrow> u32 \<Rightarrow> ptr \<Rightarrow> int \<Rightarrow> ptr \<Rightarrow> u32 \<Rightarrow> ptr \<Rightarrow> u32 \<Rightarrow> bool \<Rightarrow> ptr \<Rightarrow> ptr \<Rightarrow>
   io_state \<Rightarrow> (io_state \<times> ptr) option" where
  "IoBuildDeviceIoControlRequest run kmalloc poolin poolout thread ioctl dev dev_stack_count
       input_buf input_len output_buf output_len internal event iostatus s =
     (if dev = NULL then Some (s, NULL) else
      do { (s1, p) \<leftarrow> IoAllocateIrp kmalloc dev_stack_count s;
           if p = NULL then Some (s1, NULL) else
      do { ir \<leftarrow> io_irps s1 p;
           sl \<leftarrow> sl_at ir (csl ir - 1);
           ir1 \<leftarrow> sl_put ir (csl ir - 1) (sl\<lparr>
                    params := Params_Ioctl ioctl input_len output_len
                      (if IO_METHOD_FROM_CTL_CODE ioctl = 3 then input_buf else 0),
                    major_fn := (if internal then IRP_MJ_INTERNAL_DEVICE_CONTROL else IRP_MJ_DEVICE_CONTROL)\<rparr>);
           case ioctl_buffers ioctl poolin poolout input_buf input_len output_buf output_len ir1 of
             None \<Rightarrow> do { s2 \<leftarrow> IoFreeIrp run p (io_put p ir1 s1); Some (s2, NULL) }
           | Some ir2 \<Rightarrow>
               do { s3 \<leftarrow> IoQueueThreadIrp thread p (io_put p (ir2\<lparr>user_status := iostatus, user_event := event\<rparr>) s1);
                    Some (s3, p) } } })"

section \<open>Passing an IRP to a driver\<close>

text \<open>\<open>io_major_func dev fn\<close> is \<^verbatim>\<open>dev->drv_obj->major_func[fn]\<close>, an array of IRP_MJ_MAXIMUM_FUNCTION + 1 entries.\<close>

definition IofCallDriver :: "driver \<Rightarrow> ptr \<Rightarrow> ptr \<Rightarrow> io_state \<Rightarrow> (io_state \<times> NTSTATUS) option" where
  "IofCallDriver run dev p s =
     do { ir \<leftarrow> io_irps s p;
          if current_location ir \<le> 0 then Some (s, STATUS_INVALID_PARAMETER) else
     do { let ir1 = IoSetNextIrpStackLocation ir in
     do { sl \<leftarrow> IoGetCurrentIrpStackLocation ir1;
          ir2 \<leftarrow> sl_put ir1 (csl ir1) (sl\<lparr>sl_dev_obj := dev\<rparr>);
          if major_fn sl > IRP_MJ_MAXIMUM_FUNCTION then None else
     do { let s1 = io_put p ir2 s; f = io_major_func s dev (major_fn sl) in
          if f \<noteq> NULL then Some (run f dev p 0 (io_logged (Call_Dispatch f dev p) s1))
          else Some (s1, STATUS_NOT_SUPPORTED) } } } }"

definition IoPassIrpDown :: "driver \<Rightarrow> ptr \<Rightarrow> ptr \<Rightarrow> io_state \<Rightarrow> (io_state \<times> NTSTATUS) option" where
  "IoPassIrpDown run dev p s =
     do { ir \<leftarrow> io_irps s p; IofCallDriver run dev p (io_put p (IoSkipCurrentIrpStackLocation ir) s) }"

definition IoAsyncForwardIrp :: "driver \<Rightarrow> ptr \<Rightarrow> ptr \<Rightarrow> io_state \<Rightarrow> (io_state \<times> NTSTATUS) option" where
  "IoAsyncForwardIrp run dev p s =
     do { ir \<leftarrow> io_irps s p; ir1 \<leftarrow> IoCopyCurrentIrpStackLocationToNext ir; IofCallDriver run dev p (io_put p ir1 s) }"

text \<open>PoRequestPowerIrp; \<open>kmalloc\<close> is the address of the new IRP.\<close>

definition PoRequestPowerIrp ::
  "driver \<Rightarrow> ptr \<Rightarrow> ptr \<Rightarrow> int \<Rightarrow> u8 \<Rightarrow> u32 \<Rightarrow> ptr \<Rightarrow> io_state \<Rightarrow> (io_state \<times> ptr \<times> NTSTATUS) option" where
  "PoRequestPowerIrp run kmalloc dev dev_stack_count minor power_state completion s =
     do { (s1, p) \<leftarrow> IoAllocateIrp kmalloc dev_stack_count s;
          if p = NULL then Some (s1, NULL, STATUS_INSUFFICIENT_RESOURCES) else
     do { ir \<leftarrow> io_irps s1 p;
          sl \<leftarrow> sl_at ir (csl ir - 1);
          ir1 \<leftarrow> sl_put ir (csl ir - 1) (sl\<lparr>major_fn := IRP_MJ_POWER, minor_fn := minor,
                   params := Params_Power (if minor = 0 then 0 else 1) power_state, completion_routine := completion\<rparr>);
          (s2, st) \<leftarrow> IofCallDriver run dev p (io_put p (ir1\<lparr>ir_status := STATUS_NOT_SUPPORTED\<rparr>) s1);
          Some (s2, p, st) } }"

section \<open>Completion\<close>

text \<open>When the completion routine of a location is called.\<close>

definition invokes :: "irp \<Rightarrow> io_stack_location \<Rightarrow> bool" where
  "invokes ir sl \<longleftrightarrow> completion_routine sl \<noteq> NULL \<and>
     ((ir_status ir = STATUS_SUCCESS \<and> control sl AND SL_INVOKE_ON_SUCCESS \<noteq> 0) \<or>
      (ir_status ir \<noteq> STATUS_SUCCESS \<and> control sl AND SL_INVOKE_ON_ERROR \<noteq> 0) \<or>
      (cancel ir \<and> control sl AND SL_INVOKE_ON_CANCEL \<noteq> 0))"

text \<open>One turn of the loop over the stack locations, for the location at \<open>i\<close>: \<open>Inl\<close> the state with which the
  function returns because a completion routine asked for more processing, \<open>Inr\<close> the state of the next turn.\<close>

definition complete_step :: "driver \<Rightarrow> ptr \<Rightarrow> int \<Rightarrow> io_state \<Rightarrow> (io_state + io_state) option" where
  "complete_step run p i s =
     do { ir \<leftarrow> io_irps s p;
          sl \<leftarrow> sl_at ir i;
          let ir1 = (if control sl AND SL_PENDING_RETURNED \<noteq> 0 then ir\<lparr>pending_returned := True\<rparr> else ir);
              ir2 = IoSkipCurrentIrpStackLocation ir1 in
     do { dev \<leftarrow> (if current_location ir2 < stack_count ir2
                  then map_option sl_dev_obj (IoGetCurrentIrpStackLocation ir2) else Some NULL);
          if invokes ir2 sl then
            (case run (completion_routine sl) dev p (sl_context sl)
                  (io_logged (Call_Completion (completion_routine sl) dev (sl_context sl)) (io_put p ir2 s)) of
               (s3, st) \<Rightarrow> Some (if st = STATUS_MORE_PROCESSING_REQUIRED then Inl s3 else Inr s3))
          else if pending_returned ir2 \<and> current_location ir2 < stack_count ir2
          then do { ir3 \<leftarrow> IoMarkIrpPending ir2; Some (Inr (io_put p ir3 s)) }
          else Some (Inr (io_put p ir2 s)) } }"

text \<open>The loop.  A completion routine may move the IRP anywhere, so nothing bounds the number of turns:
  \<open>None\<close> is a fault or a loop that does not end.\<close>

partial_function (option) complete_loop :: "driver \<Rightarrow> ptr \<Rightarrow> int \<Rightarrow> io_state \<Rightarrow> (io_state + io_state) option" where
  "complete_loop run p i s =
     do { ir \<leftarrow> io_irps s p;
          if \<not> current_location ir < stack_count ir then Some (Inr s) else
     do { t \<leftarrow> complete_step run p i s;
          case t of Inl s' \<Rightarrow> Some (Inl s') | Inr s' \<Rightarrow> complete_loop run p (i + 1) s' } }"

text \<open>What follows the loop: report to the requestor, release the buffers, free the packet.\<close>

definition complete_finish :: "driver \<Rightarrow> ptr \<Rightarrow> io_state \<Rightarrow> io_state option" where
  "complete_finish run p s =
     do { ir \<leftarrow> io_irps s p;
          let s1 = (if user_status ir \<noteq> NULL
                    then s\<lparr>io_user_status := (io_user_status s)(user_status ir := (ir_status ir, ir_info ir))\<rparr> else s);
              s2 = (if user_event ir \<noteq> NULL then io_logged (Set_Event (user_event ir)) s1 else s1);
              s3 = (if system_buffer ir \<noteq> NULL \<and> ir_flags ir AND IRP_DEALLOCATE_BUFFER \<noteq> 0
                    then io_logged (Free_Pool (system_buffer ir)) s2
                    else fold (\<lambda>m. io_logged (Free_Mdl m)) (mdl ir) (io_put p (ir\<lparr>mdl := []\<rparr>) s2)) in
          IoFreeIrp run p s3 }"

definition IofCompleteRequest :: "driver \<Rightarrow> ptr \<Rightarrow> io_state \<Rightarrow> io_state option" where
  "IofCompleteRequest run p s =
     do { ir \<leftarrow> io_irps s p;
          t \<leftarrow> complete_loop run p (csl ir) s;
          case t of Inl s' \<Rightarrow> Some s' | Inr s' \<Rightarrow> complete_finish run p s' }"

definition IoInvalidDeviceRequest :: "driver \<Rightarrow> ptr \<Rightarrow> io_state \<Rightarrow> (io_state \<times> NTSTATUS) option" where
  "IoInvalidDeviceRequest run p s =
     do { ir \<leftarrow> io_irps s p;
          sl \<leftarrow> IoGetCurrentIrpStackLocation ir;
          s' \<leftarrow> IofCompleteRequest run p (io_put p (ir\<lparr>ir_status := STATUS_SUCCESS, ir_info := 0\<rparr>) s);
          Some (s', STATUS_SUCCESS) }"

text \<open>IoSyncForwardIrp up to the wait: the completion routine is IoIrpSyncComplete at address \<open>sync\<close>, which sets \<open>event\<close> when
  the IRP was marked pending and keeps the packet.  The flag tells whether the caller waits for \<open>event\<close>.\<close>

definition IoIrpSyncComplete :: "ptr \<Rightarrow> ptr \<Rightarrow> io_state \<Rightarrow> (io_state \<times> NTSTATUS) option" where
  "IoIrpSyncComplete p event s =
     do { ir \<leftarrow> io_irps s p;
          Some (if pending_returned ir then io_logged (Set_Event event) s else s, STATUS_MORE_PROCESSING_REQUIRED) }"

definition IoSyncForwardIrp :: "driver \<Rightarrow> ptr \<Rightarrow> ptr \<Rightarrow> ptr \<Rightarrow> ptr \<Rightarrow> io_state \<Rightarrow> (io_state \<times> NTSTATUS \<times> bool) option" where
  "IoSyncForwardIrp run sync event dev p s =
     do { ir \<leftarrow> io_irps s p;
          ir1 \<leftarrow> IoCopyCurrentIrpStackLocationToNext ir;
          ir2 \<leftarrow> IoSetCompletionRoutine ir1 sync event True True True;
          (s1, st) \<leftarrow> IofCallDriver run dev p (io_put p ir2 s);
          Some (s1, st, st = STATUS_PENDING) }"

section \<open>The stack discipline\<close>

text \<open>The pointer to the current location and its number agree and stay inside the packet.\<close>

definition irp_inv :: "irp \<Rightarrow> bool" where
  "irp_inv ir \<longleftrightarrow> csl ir = current_location ir \<and> 0 \<le> current_location ir \<and> current_location ir \<le> stack_count ir \<and>
     stack_count ir \<le> int (length (ir_stack ir)) \<and> stack_count ir \<le> 127"

lemma char_add_small: "- 128 \<le> a + b \<Longrightarrow> a + b \<le> 127 \<Longrightarrow> char_add a b = a + b"
  unfolding char_add_def signed_of_int by (simp add: signed_take_bit_int_eq_self)

lemma sl_at_Some: "sl_at ir i = Some sl \<longleftrightarrow> 0 \<le> i \<and> nat i < length (ir_stack ir) \<and> ir_stack ir ! nat i = sl"
  by (auto simp: sl_at_def rd_Some_iff)

lemma sl_put_Some:
  "sl_put ir i sl = Some ir' \<longleftrightarrow> 0 \<le> i \<and> nat i < length (ir_stack ir) \<and> ir' = ir\<lparr>ir_stack := (ir_stack ir)[nat i := sl]\<rparr>"
  by (auto simp: sl_put_def wr_def)

lemma irp_inv_next:
  "irp_inv ir \<Longrightarrow> 0 < current_location ir \<Longrightarrow>
   irp_inv (IoSetNextIrpStackLocation ir) \<and> current_location (IoSetNextIrpStackLocation ir) = current_location ir - 1"
  by (simp add: irp_inv_def IoSetNextIrpStackLocation_def char_add_small)

lemma irp_inv_skip:
  "irp_inv ir \<Longrightarrow> current_location ir < stack_count ir \<Longrightarrow>
   irp_inv (IoSkipCurrentIrpStackLocation ir) \<and> current_location (IoSkipCurrentIrpStackLocation ir) = current_location ir + 1"
  by (simp add: irp_inv_def IoSkipCurrentIrpStackLocation_def char_add_small)

lemma irp_inv_put [simp]: "sl_put ir i sl = Some ir' \<Longrightarrow> irp_inv ir' = irp_inv ir"
  by (auto simp: sl_put_Some irp_inv_def)

lemma IoSizeOfIrp_count:
  "0 \<le> n \<Longrightarrow> n \<le> 127 \<Longrightarrow> uint (IoSizeOfIrp n) = sizeof_irp + n * sizeof_sl"
  unfolding IoSizeOfIrp_def unsigned_of_int
  by (simp add: sizeof_irp_def sizeof_sl_def take_bit_int_eq_self)

lemma IoAllocateIrp_spec:
  assumes "0 \<le> count" "count < 127" "a \<noteq> NULL"
  shows "\<exists>ir. IoAllocateIrp a count s = Some (io_put a ir s, a) \<and> irp_inv ir \<and>
     current_location ir = count + 1 \<and> stack_count ir = count + 1 \<and> ir_stack ir = replicate (nat (count + 1)) zero_sl \<and>
     ir_flags ir = 0 \<and> system_buffer ir = 0 \<and> mdl ir = [] \<and> cancel_routine ir = 0 \<and> cancel ir = False"
  using assms IoSizeOfIrp_count [of "count + 1"]
  by (auto simp: IoAllocateIrp_def Let_def char_add_small IoInitializeIrp_def raw_irp_def sizeof_irp_def sizeof_sl_def
      io_put_def irp_inv_def)

text \<open>IofCallDriver gives the next lower stack location, with the target device recorded in it, to the dispatch routine
  of the device's driver; it fails with STATUS_INVALID_PARAMETER when no location is left and with STATUS_NOT_SUPPORTED
  when the driver has no routine.  On a well-formed packet it never leaves the stack of the packet.\<close>
theorem IofCallDriver_discipline:
  assumes "io_irps s p = Some ir" "irp_inv ir"
    "0 < current_location ir \<Longrightarrow> major_fn (ir_stack ir ! nat (current_location ir - 1)) \<le> IRP_MJ_MAXIMUM_FUNCTION"
  shows "if current_location ir = 0 then IofCallDriver run dev p s = Some (s, STATUS_INVALID_PARAMETER)
     else \<exists>ir' sl. irp_inv ir' \<and> current_location ir' = current_location ir - 1 \<and>
       sl = ir_stack ir ! nat (current_location ir - 1) \<and>
       ir_stack ir' = (ir_stack ir)[nat (current_location ir - 1) := sl\<lparr>sl_dev_obj := dev\<rparr>] \<and>
       IofCallDriver run dev p s =
         (let f = io_major_func s dev (major_fn sl) in
          if f \<noteq> NULL then Some (run f dev p 0 (io_logged (Call_Dispatch f dev p) (io_put p ir' s)))
          else Some (io_put p ir' s, STATUS_NOT_SUPPORTED))"
proof (cases "current_location ir = 0")
  case True
  then show ?thesis using assms(1) by (simp add: IofCallDriver_def)
next
  case False
  then have pos: "0 < current_location ir" using assms(2) by (simp add: irp_inv_def)
  define ir1 where "ir1 = IoSetNextIrpStackLocation ir"
  define i where "i = current_location ir - 1"
  have inv1: "irp_inv ir1" "current_location ir1 = i"
    using irp_inv_next [OF assms(2) pos] by (simp_all add: ir1_def i_def)
  moreover have st1: "ir_stack ir1 = ir_stack ir"
    by (simp add: ir1_def IoSetNextIrpStackLocation_def)
  ultimately have i: "csl ir1 = i" "0 \<le> i" "nat i < length (ir_stack ir)"
    using pos assms(2) by (auto simp: irp_inv_def i_def)
  define sl where "sl = ir_stack ir ! nat i"
  have at: "IoGetCurrentIrpStackLocation ir1 = Some sl"
    using i st1 by (simp add: IoGetCurrentIrpStackLocation_def sl_at_Some sl_def)
  define ir' where "ir' = ir1\<lparr>ir_stack := (ir_stack ir)[nat i := sl\<lparr>sl_dev_obj := dev\<rparr>]\<rparr>"
  have put: "sl_put ir1 (csl ir1) (sl\<lparr>sl_dev_obj := dev\<rparr>) = Some ir'"
    using i st1 by (simp add: sl_put_Some ir'_def)
  have inv': "irp_inv ir'" "current_location ir' = i"
    using irp_inv_put [OF put] inv1 by (simp_all add: ir'_def)
  have "\<not> IRP_MJ_MAXIMUM_FUNCTION < major_fn sl"
    using assms(3) [OF pos] by (simp add: sl_def i_def not_less)
  then have "IofCallDriver run dev p s =
         (let f = io_major_func s dev (major_fn sl) in
          if f \<noteq> NULL then Some (run f dev p 0 (io_logged (Call_Dispatch f dev p) (io_put p ir' s)))
          else Some (io_put p ir' s, STATUS_NOT_SUPPORTED))"
    using assms(1) pos at put by (simp add: IofCallDriver_def Let_def ir1_def [symmetric])
  moreover have "ir_stack ir' = (ir_stack ir)[nat i := sl\<lparr>sl_dev_obj := dev\<rparr>]"
    by (simp add: ir'_def)
  ultimately show ?thesis
    unfolding if_not_P [OF False] i_def [symmetric] using inv' sl_def by blast
qed

definition demo_driver :: driver where
  "demo_driver r dev p ctx s = (s, STATUS_PENDING)"

definition demo_io :: io_state where
  "demo_io = \<lparr>io_irps = (\<lambda>_. None), io_thread_irps = (\<lambda>_. []), io_user_status = (\<lambda>_. (0, 0)),
     io_major_func = (\<lambda>dev fn. if dev = 0x100 then 0x42 else 0), io_log = []\<rparr>"

definition demo_irp :: irp where
  "demo_irp = (raw_irp (IoSizeOfIrp 2))\<lparr>ir_size := IoSizeOfIrp 2, stack_count := 2, current_location := 2, csl := 2\<rparr>"

theorem IofCallDriver_discipline_witness:
  "\<exists>s'. IofCallDriver demo_driver 0x100 0x10 (io_put 0x10 demo_irp demo_io) = Some (s', STATUS_PENDING) \<and>
     io_log s' = [Call_Dispatch 0x42 0x100 0x10]"
proof -
  have v: "io_irps (io_put 0x10 demo_irp demo_io) 0x10 = Some demo_irp" "irp_inv demo_irp" "current_location demo_irp = 2"
    "major_fn (ir_stack demo_irp ! nat (current_location demo_irp - 1)) \<le> IRP_MJ_MAXIMUM_FUNCTION"
    "io_major_func (io_put 0x10 demo_irp demo_io) 0x100 (major_fn (ir_stack demo_irp ! nat (2 - 1))) = 0x42"
    by code_simp+
  then show ?thesis
    using IofCallDriver_discipline [of "io_put 0x10 demo_irp demo_io" "0x10" demo_irp demo_driver "0x100"]
    by (auto simp: Let_def demo_driver_def io_logged_def io_put_def demo_io_def)
qed

section \<open>Completion order\<close>

text \<open>When a driver asked, by the control byte of its stack location, that its completion routine be called: bit 6 for a
  success, bit 7 for a failure, bit 5 for a packet that was cancelled.\<close>

definition wanted :: "io_stack_location \<Rightarrow> NTSTATUS \<Rightarrow> bool \<Rightarrow> bool" where
  "wanted sl st cancelled \<longleftrightarrow> completion_routine sl \<noteq> NULL \<and>
     (bit (control sl) (if st = STATUS_SUCCESS then 6 else 7) \<or> cancelled \<and> bit (control sl) 5)"

text \<open>What a completion routine does, given its context and the status and information of the packet: the events it
  causes, the status and information it leaves, and its answer.\<close>

type_synonym routines = "ptr \<Rightarrow> ptr \<Rightarrow> NTSTATUS \<times> u64 \<Rightarrow> io_event list \<times> (NTSTATUS \<times> u64) \<times> NTSTATUS"

text \<open>The completion calls for the locations from \<open>i\<close> up with what the routines do, and the status and information of
  the packet at the end, or \<open>None\<close> when a routine keeps the packet.\<close>

fun expected :: "routines \<Rightarrow> irp \<Rightarrow> NTSTATUS \<times> u64 \<Rightarrow> nat \<Rightarrow> nat \<Rightarrow> io_event list \<times> (NTSTATUS \<times> u64) option" where
  "expected beh ir v i 0 = ([], Some v)"
| "expected beh ir v i (Suc n) =
     (let sl = ir_stack ir ! i;
          dev = (if int (Suc i) < stack_count ir then sl_dev_obj (ir_stack ir ! Suc i) else NULL);
          e = Call_Completion (completion_routine sl) dev (sl_context sl) in
      if wanted sl (fst v) (cancel ir) then
        (case beh (completion_routine sl) (sl_context sl) v of (es, v', a) \<Rightarrow>
           if a = STATUS_MORE_PROCESSING_REQUIRED then (e # es, None)
           else (case expected beh ir v' (Suc i) n of (fs, k) \<Rightarrow> (e # es @ fs, k)))
      else expected beh ir v (Suc i) n)"

definition io_logs :: "io_event list \<Rightarrow> io_state \<Rightarrow> io_state" where
  "io_logs es s = s\<lparr>io_log := io_log s @ es\<rparr>"

text \<open>Locations that differ at most in the pending mark.\<close>

definition same_sl :: "io_stack_location \<Rightarrow> io_stack_location \<Rightarrow> bool" where
  "same_sl a b \<longleftrightarrow> completion_routine b = completion_routine a \<and> sl_context b = sl_context a \<and> sl_dev_obj b = sl_dev_obj a \<and>
     (\<forall>k \<in> {5, 6, 7}. bit (control b) k = bit (control a) k)"

definition sim :: "irp \<Rightarrow> irp \<Rightarrow> bool" where
  "sim ir ir' \<longleftrightarrow> (\<exists>stk c l pd. list_all2 same_sl (ir_stack ir) stk \<and>
     ir' = ir\<lparr>ir_stack := stk, csl := c, current_location := l, pending_returned := pd\<rparr>)"

lemma same_sl_refl [simp]: "same_sl a a"
  by (simp add: same_sl_def)

lemma same_sl_trans: "same_sl a b \<Longrightarrow> same_sl b c \<Longrightarrow> same_sl a c"
  by (simp add: same_sl_def)

lemma sim_trans: "sim a b \<Longrightarrow> sim b c \<Longrightarrow> sim a c"
  unfolding sim_def
proof (elim exE conjE)
  fix stk c' l pd stk2 c2 l2 pd2
  assume 1: "list_all2 same_sl (ir_stack a) stk" "b = a\<lparr>ir_stack := stk, csl := c', current_location := l, pending_returned := pd\<rparr>"
    and 2: "list_all2 same_sl (ir_stack b) stk2" "c = b\<lparr>ir_stack := stk2, csl := c2, current_location := l2, pending_returned := pd2\<rparr>"
  have "list_all2 same_sl (ir_stack a) stk2"
    using list_all2_trans [of same_sl same_sl same_sl, OF same_sl_trans 1(1)] 1(2) 2(1) by simp
  moreover have "c = a\<lparr>ir_stack := stk2, csl := c2, current_location := l2, pending_returned := pd2\<rparr>"
    using 1(2) 2(2) by simp
  ultimately show "\<exists>stk c' l pd. list_all2 same_sl (ir_stack a) stk \<and>
      c = a\<lparr>ir_stack := stk, csl := c', current_location := l, pending_returned := pd\<rparr>" by blast
qed

lemma sim_refl [simp]: "sim ir ir"
  unfolding sim_def by (rule exI [of _ "ir_stack ir"], rule exI [of _ "csl ir"], rule exI [of _ "current_location ir"],
      rule exI [of _ "pending_returned ir"]) (simp add: list.rel_refl)

lemma invokes_wanted: "invokes ir sl = wanted sl (ir_status ir) (cancel ir)"
proof -
  have "(c AND 0x20 \<noteq> 0) = bit c 5" "(c AND 0x40 \<noteq> 0) = bit c 6" "(c AND 0x80 \<noteq> 0) = bit c 7" for c :: u8
    using and_exp_eq_0_iff_not_bit [of c 5] and_exp_eq_0_iff_not_bit [of c 6] and_exp_eq_0_iff_not_bit [of c 7] by simp_all
  then show ?thesis
    by (auto simp: invokes_def wanted_def SL_INVOKE_ON_SUCCESS_def SL_INVOKE_ON_ERROR_def SL_INVOKE_ON_CANCEL_def)
qed

lemma sim_fields:
  assumes "sim ir ir'"
  shows "ir_status ir' = ir_status ir" "cancel ir' = cancel ir" "stack_count ir' = stack_count ir"
    "length (ir_stack ir') = length (ir_stack ir)" "i < length (ir_stack ir) \<Longrightarrow> same_sl (ir_stack ir ! i) (ir_stack ir' ! i)"
  using assms unfolding sim_def
  by (auto dest: list_all2_lengthD list_all2_nthD)

lemma expected_sim:
  assumes "sim (ir\<lparr>ir_status := st, ir_info := info\<rparr>) ir'" "i + n \<le> length (ir_stack ir)"
    "stack_count ir \<le> int (length (ir_stack ir))"
  shows "expected beh ir' v i n = expected beh ir v i n"
  using assms(2)
proof (induction n arbitrary: i v)
  case (Suc n)
  have a: "same_sl (ir_stack ir ! i) (ir_stack ir' ! i)"
    using Suc.prems sim_fields(5) [OF assms(1), of i] by simp
  have b: "int (Suc i) < stack_count ir \<Longrightarrow> same_sl (ir_stack ir ! Suc i) (ir_stack ir' ! Suc i)"
    using assms(3) sim_fields(5) [OF assms(1), of "Suc i"] by simp
  have "wanted (ir_stack ir' ! i) (fst v) (cancel ir') = wanted (ir_stack ir ! i) (fst v) (cancel ir)"
    using a sim_fields(2) [OF assms(1)] by (auto simp: same_sl_def wanted_def)
  then show ?case
    using Suc a b sim_fields(3) [OF assms(1)] by (simp add: Let_def same_sl_def split: prod.splits)
qed simp

lemma same_sl_mark: "same_sl sl (sl\<lparr>control := control sl OR SL_PENDING_RETURNED\<rparr>)"
  by (auto simp: same_sl_def SL_PENDING_RETURNED_def bit_or_iff bit_1_iff)

lemma nat_int_Suc [simp]: "nat (1 + int i) = Suc i"
  by simp

lemma list_all2_same_upd:
  "i < length xs \<Longrightarrow> same_sl (xs ! i) y \<Longrightarrow> list_all2 same_sl xs (xs[i := y])"
  by (auto simp: list_all2_conv_all_nth nth_list_update)

lemma complete_step_spec:
  assumes "io_irps s p = Some ir" "irp_inv ir" "current_location ir < stack_count ir" "i = nat (current_location ir)"
  shows "\<exists>ir'. sim ir ir' \<and> irp_inv ir' \<and> current_location ir' = current_location ir + 1 \<and>
     complete_step run p (current_location ir) s =
       (let sl = ir_stack ir ! i;
            dev = (if int (Suc i) < stack_count ir then sl_dev_obj (ir_stack ir ! Suc i) else NULL);
            e = Call_Completion (completion_routine sl) dev (sl_context sl) in
        if wanted sl (ir_status ir) (cancel ir) then
          (case run (completion_routine sl) dev p (sl_context sl) (io_logs [e] (io_put p ir' s)) of (s3, st) \<Rightarrow>
             Some (if st = STATUS_MORE_PROCESSING_REQUIRED then Inl s3 else Inr s3))
        else Some (Inr (io_put p ir' s)))"
proof -
  define sl where "sl = ir_stack ir ! i"
  define ir1 where "ir1 = (if control sl AND SL_PENDING_RETURNED \<noteq> 0 then ir\<lparr>pending_returned := True\<rparr> else ir)"
  define ir2 where "ir2 = IoSkipCurrentIrpStackLocation ir1"
  have at: "sl_at ir (current_location ir) = Some sl" and il: "i < length (ir_stack ir)" "current_location ir = int i"
    using assms by (auto simp: sl_at_Some irp_inv_def sl_def)
  have inv1: "irp_inv ir1" "current_location ir1 = current_location ir" "stack_count ir1 = stack_count ir"
    using assms(2) by (simp_all add: ir1_def irp_inv_def)
  have ir2: "irp_inv ir2" "current_location ir2 = int (Suc i)" "csl ir2 = int (Suc i)"
    using irp_inv_skip [OF inv1(1)] inv1 assms(3) il by (auto simp: ir2_def irp_inv_def)
  have same2: "stack_count ir2 = stack_count ir" "ir_stack ir2 = ir_stack ir" "ir_status ir2 = ir_status ir" "cancel ir2 = cancel ir"
    by (simp_all add: ir2_def ir1_def IoSkipCurrentIrpStackLocation_def)
  have sim2: "sim ir ir2"
    unfolding sim_def
    by (rule exI [of _ "ir_stack ir"], rule exI [of _ "csl ir2"], rule exI [of _ "current_location ir2"],
        rule exI [of _ "pending_returned ir2"])
      (simp add: list_all2_same_upd list.rel_refl ir2_def ir1_def IoSkipCurrentIrpStackLocation_def)
  define dev where "dev = (if int (Suc i) < stack_count ir then sl_dev_obj (ir_stack ir ! Suc i) else NULL)"
  have dev: "(if current_location ir2 < stack_count ir2 then map_option sl_dev_obj (IoGetCurrentIrpStackLocation ir2)
      else Some NULL) = Some dev"
    using ir2 same2 assms(2) by (auto simp: dev_def IoGetCurrentIrpStackLocation_def sl_at_def rd_def irp_inv_def)
  define w where "w = wanted sl (ir_status ir) (cancel ir)"
  have inv: "invokes ir2 sl = w" using same2 by (simp add: invokes_wanted w_def)
  define s2 where "s2 = io_logs [Call_Completion (completion_routine sl) dev (sl_context sl)] (io_put p ir2 s)"
  have eq: "complete_step run p (current_location ir) s =
      (if w then
         (case run (completion_routine sl) dev p (sl_context sl) s2 of (s3, st) \<Rightarrow>
            Some (if st = STATUS_MORE_PROCESSING_REQUIRED then Inl s3 else Inr s3))
       else if pending_returned ir2 \<and> current_location ir2 < stack_count ir2
       then do { ir3 \<leftarrow> IoMarkIrpPending ir2; Some (Inr (io_put p ir3 s)) } else Some (Inr (io_put p ir2 s)))"
    by (simp only: complete_step_def assms(1) at Let_def ir1_def [symmetric] ir2_def [symmetric] Option.bind.simps dev inv
        io_logs_def io_logged_def s2_def)
  show ?thesis
  proof (cases "\<not> w \<and> pending_returned ir2 \<and> current_location ir2 < stack_count ir2")
    case False
    then show ?thesis
      unfolding eq using sim2 ir2 il
      by (intro exI [of _ ir2]) (auto simp: Let_def sl_def dev_def s2_def w_def)
  next
    case True
    define ir3 where "ir3 = ir2\<lparr>ir_stack := (ir_stack ir)[Suc i :=
        (ir_stack ir ! Suc i)\<lparr>control := control (ir_stack ir ! Suc i) OR SL_PENDING_RETURNED\<rparr>]\<rparr>"
    have len: "Suc i < length (ir_stack ir)"
      using True ir2 same2 assms(2) by (auto simp: irp_inv_def)
    then have mark: "IoMarkIrpPending ir2 = Some ir3"
      using ir2 same2 by (simp add: IoMarkIrpPending_def sl_at_def rd_def sl_put_Some ir3_def)
    have "sim ir2 ir3"
      unfolding sim_def
      by (rule exI [of _ "ir_stack ir3"], rule exI [of _ "csl ir2"], rule exI [of _ "current_location ir2"],
          rule exI [of _ "pending_returned ir2"])
        (use len same2 in \<open>simp add: ir3_def list_all2_same_upd same_sl_mark\<close>)
    then have "sim ir ir3" using sim2 sim_trans by blast
    moreover have "irp_inv ir3" "current_location ir3 = int (Suc i)"
      using ir2 same2 by (simp_all add: ir3_def irp_inv_def)
    ultimately show ?thesis
      unfolding eq using True mark il by (intro exI [of _ ir3]) (auto simp: Let_def sl_def w_def)
  qed
qed

lemma io_logs_simps [simp]:
  "io_logs [] s = s" "io_irps (io_logs es s) = io_irps s" "io_logs es (io_logs fs s) = io_logs (fs @ es) s"
  "io_thread_irps (io_logs es s) = io_thread_irps s" "io_log (io_logs es s) = io_log s @ es"
  "io_put p ir (io_logs es s) = io_logs es (io_put p ir s)" "io_put p ir (io_put p ir' s) = io_put p ir s"
  "io_irps (io_put p ir s) = (io_irps s)(p \<mapsto> ir)" "io_log (io_put p ir s) = io_log s"
  "io_thread_irps (io_put p ir s) = io_thread_irps s" "io_logged e s = io_logs [e] s"
  by (simp_all add: io_logs_def io_put_def io_logged_def)

text \<open>Drivers whose completion routines do what \<open>beh\<close> says.  A routine may change anything; one that does not ask for
  more processing gives the packet back with its stack position: it may have set the status and the pending marks, and
  the packet is still linked to its thread.\<close>

definition gives_back :: "routines \<Rightarrow> ptr \<Rightarrow> driver \<Rightarrow> bool" where
  "gives_back beh p run \<longleftrightarrow> (\<forall>r dev ctx s ir. io_irps s p = Some ir \<longrightarrow> irp_inv ir \<longrightarrow>
     (case beh r ctx (ir_status ir, ir_info ir) of (es, (st, info), a) \<Rightarrow>
        \<exists>s'. run r dev p ctx s = (s', a) \<and> io_log s' = io_log s @ es \<and>
          (a \<noteq> STATUS_MORE_PROCESSING_REQUIRED \<longrightarrow>
             (\<forall>t. p \<in> set (io_thread_irps s t) \<longrightarrow> p \<in> set (io_thread_irps s' t)) \<and>
             (\<exists>ir'. io_irps s' p = Some ir' \<and> sim (ir\<lparr>ir_status := st, ir_info := info\<rparr>) ir' \<and> irp_inv ir' \<and>
                current_location ir' = current_location ir))))"

text \<open>What is left after the loop, in terms of \<open>expected\<close>.\<close>

definition loop_ends :: "driver \<Rightarrow> ptr \<Rightarrow> irp \<Rightarrow> io_state \<Rightarrow> io_event list \<Rightarrow> (NTSTATUS \<times> u64) option \<Rightarrow>
    (io_state + io_state) option \<Rightarrow> bool" where
  "loop_ends run p ir s es k t \<longleftrightarrow>
     (case k of
        None \<Rightarrow> (\<exists>s'. t = Some (Inl s') \<and> io_log s' = io_log s @ es \<and>
          (\<exists>r dev ctx s0. run r dev p ctx s0 = (s', STATUS_MORE_PROCESSING_REQUIRED)))
      | Some (st, info) \<Rightarrow> (\<exists>s' ir'. t = Some (Inr s') \<and> io_log s' = io_log s @ es \<and>
          io_irps s' p = Some ir' \<and> sim (ir\<lparr>ir_status := st, ir_info := info\<rparr>) ir' \<and>
          (\<forall>t. p \<in> set (io_thread_irps s t) \<longrightarrow> p \<in> set (io_thread_irps s' t))))"

lemma sim_status: "sim a b \<Longrightarrow> sim (a\<lparr>ir_status := st, ir_info := info\<rparr>) (b\<lparr>ir_status := st, ir_info := info\<rparr>)"
  unfolding sim_def
proof (elim exE conjE)
  fix stk c l pd
  assume "list_all2 same_sl (ir_stack a) stk" "b = a\<lparr>ir_stack := stk, csl := c, current_location := l, pending_returned := pd\<rparr>"
  then show "\<exists>stk c l pd. list_all2 same_sl (ir_stack (a\<lparr>ir_status := st, ir_info := info\<rparr>)) stk \<and>
      b\<lparr>ir_status := st, ir_info := info\<rparr> =
        a\<lparr>ir_status := st, ir_info := info, ir_stack := stk, csl := c, current_location := l, pending_returned := pd\<rparr>"
    by (intro exI [of _ stk] exI [of _ c] exI [of _ l] exI [of _ pd]) simp
qed

lemma loop_ends_step:
  assumes "loop_ends run p ir1 s1 es k t" "sim (ir\<lparr>ir_status := st, ir_info := info\<rparr>) ir1" "io_log s1 = io_log s @ fs"
    "\<forall>t. p \<in> set (io_thread_irps s t) \<longrightarrow> p \<in> set (io_thread_irps s1 t)"
  shows "loop_ends run p ir s (fs @ es) k t"
proof (cases k)
  case None
  then show ?thesis using assms by (auto simp: loop_ends_def)
next
  case (Some v)
  have "sim (ir\<lparr>ir_status := fst v, ir_info := snd v\<rparr>) ir'" if "sim (ir1\<lparr>ir_status := fst v, ir_info := snd v\<rparr>) ir'" for ir'
    using sim_trans [OF _ that] sim_status [OF assms(2), where st = "fst v" and info = "snd v"] by simp
  then show ?thesis using assms Some by (cases v) (auto simp: loop_ends_def)
qed

lemma complete_loop_spec:
  assumes "gives_back beh p run" "io_irps s p = Some ir" "irp_inv ir" "n = nat (stack_count ir - current_location ir)"
    "expected beh ir (ir_status ir, ir_info ir) (nat (current_location ir)) n = (es, k)"
  shows "loop_ends run p ir s es k (complete_loop run p (current_location ir) s)"
  using assms(2-)
proof (induction n arbitrary: s ir es k)
  case 0
  then show ?case by (auto simp: complete_loop.simps loop_ends_def)
next
  case (Suc n)
  then have lt: "current_location ir < stack_count ir" by simp
  define i where "i = nat (current_location ir)"
  define sl where "sl = ir_stack ir ! i"
  define dev where "dev = (if int (Suc i) < stack_count ir then sl_dev_obj (ir_stack ir ! Suc i) else NULL)"
  define e where "e = Call_Completion (completion_routine sl) dev (sl_context sl)"
  obtain ir1 where ir1: "sim ir ir1" "irp_inv ir1" "current_location ir1 = current_location ir + 1" and
    step: "complete_step run p (current_location ir) s =
        (if wanted sl (ir_status ir) (cancel ir) then
          (case run (completion_routine sl) dev p (sl_context sl) (io_logs [e] (io_put p ir1 s)) of (s3, st) \<Rightarrow>
             Some (if st = STATUS_MORE_PROCESSING_REQUIRED then Inl s3 else Inr s3))
        else Some (Inr (io_put p ir1 s)))"
    using complete_step_spec [OF Suc.prems(1,2) lt i_def, of run]
    unfolding Let_def sl_def [symmetric] dev_def [symmetric] e_def [symmetric] by (elim exE conjE) (rule that)
  have loop: "complete_loop run p (current_location ir) s =
      (case complete_step run p (current_location ir) s of None \<Rightarrow> None
       | Some (Inl s') \<Rightarrow> Some (Inl s') | Some (Inr s') \<Rightarrow> complete_loop run p (current_location ir + 1) s')"
    using Suc.prems(1) lt by (simp add: complete_loop.simps [of run p "current_location ir" s] split: option.splits)
  have st1: "ir_status ir1 = ir_status ir" "ir_info ir1 = ir_info ir" "stack_count ir1 = stack_count ir"
    using ir1(1) by (auto simp: sim_def)
  have next_loop: "loop_ends run p ir s (gs @ fs) k (complete_loop run p (current_location ir + 1) s1)"
    if "io_irps s1 p = Some ir2" "sim (ir\<lparr>ir_status := st, ir_info := info\<rparr>) ir2" "irp_inv ir2"
      "current_location ir2 = current_location ir1" "expected beh ir (st, info) (Suc i) n = (fs, k)"
      "io_log s1 = io_log s @ gs" "\<forall>t. p \<in> set (io_thread_irps s t) \<longrightarrow> p \<in> set (io_thread_irps s1 t)"
    for s1 ir2 st info fs k gs
  proof -
    have f: "ir_status ir2 = st" "ir_info ir2 = info" "stack_count ir2 = stack_count ir"
      using that(2) by (auto simp: sim_def)
    have c: "nat (current_location ir2) = Suc i" "current_location ir2 = current_location ir + 1"
      using that(4) ir1(3) Suc.prems(2) by (simp_all add: i_def irp_inv_def nat_add_distrib)
    have "Suc i + n \<le> length (ir_stack ir)" "stack_count ir \<le> int (length (ir_stack ir))"
      using Suc.prems(2,3) unfolding irp_inv_def i_def by linarith+
    then have "expected beh ir2 (ir_status ir2, ir_info ir2) (nat (current_location ir2)) n = (fs, k)"
      using expected_sim [OF that(2)] that(5) f c by simp
    moreover have "n = nat (stack_count ir2 - current_location ir2)" using Suc.prems(3) f c by simp
    ultimately have "loop_ends run p ir2 s1 fs k (complete_loop run p (current_location ir2) s1)"
      using Suc.IH [OF that(1,3)] by blast
    then show ?thesis using loop_ends_step [OF _ that(2,6,7)] c by simp
  qed
  show ?case
  proof (cases "wanted sl (ir_status ir) (cancel ir)")
    case False
    have "expected beh ir (ir_status ir, ir_info ir) (Suc i) n = (es, k)"
      using Suc.prems(4) False by (simp add: i_def [symmetric] sl_def [symmetric] Let_def)
    moreover have "ir\<lparr>ir_status := ir_status ir, ir_info := ir_info ir\<rparr> = ir" by simp
    ultimately have "loop_ends run p ir s ([] @ es) k (complete_loop run p (current_location ir + 1) (io_put p ir1 s))"
      using ir1 by (intro next_loop [where st = "ir_status ir" and info = "ir_info ir"]) simp_all
    then show ?thesis using False loop step by simp
  next
    case True
    let ?s = "io_logs [e] (io_put p ir1 s)"
    obtain fs st info a where b: "beh (completion_routine sl) (sl_context sl) (ir_status ir, ir_info ir) = (fs, (st, info), a)"
      by (metis prod.exhaust)
    obtain s' where s': "run (completion_routine sl) dev p (sl_context sl) ?s = (s', a)" "io_log s' = io_log s @ e # fs"
      "a \<noteq> STATUS_MORE_PROCESSING_REQUIRED \<Longrightarrow>
         (\<forall>t. p \<in> set (io_thread_irps s t) \<longrightarrow> p \<in> set (io_thread_irps s' t)) \<and>
         (\<exists>ir'. io_irps s' p = Some ir' \<and> sim (ir1\<lparr>ir_status := st, ir_info := info\<rparr>) ir' \<and> irp_inv ir' \<and>
            current_location ir' = current_location ir1)"
      using assms(1) [unfolded gives_back_def, rule_format, of ?s ir1 "completion_routine sl" dev "sl_context sl"]
        ir1(2) st1 b by auto
    show ?thesis
    proof (cases "a = STATUS_MORE_PROCESSING_REQUIRED")
      case True': True
      have "es = e # fs" "k = None"
        using Suc.prems(4) True True' b by (auto simp: i_def [symmetric] sl_def [symmetric] dev_def e_def Let_def)
      then show ?thesis using loop step True True' s' by (auto simp: loop_ends_def)
    next
      case False
      obtain gs where g: "expected beh ir (st, info) (Suc i) n = (gs, k)" "es = e # fs @ gs"
        using Suc.prems(4) True False b
        by (auto simp: i_def [symmetric] sl_def [symmetric] dev_def e_def Let_def split: prod.splits)
      obtain ir2 where ir2: "io_irps s' p = Some ir2" "sim (ir1\<lparr>ir_status := st, ir_info := info\<rparr>) ir2" "irp_inv ir2"
        "current_location ir2 = current_location ir1" using s'(3) [OF False] by blast
      show ?thesis
        using next_loop [OF ir2(1) sim_trans [OF sim_status [OF ir1(1)] ir2(2)] ir2(3,4) g(1) s'(2)] s'(3) [OF False]
          loop step True False s'(1) g(2) by simp
    qed
  qed
qed

definition finish_events :: "irp \<Rightarrow> io_event list" where
  "finish_events ir =
     (if user_event ir \<noteq> NULL then [Set_Event (user_event ir)] else []) @
     (if system_buffer ir \<noteq> NULL \<and> ir_flags ir AND IRP_DEALLOCATE_BUFFER \<noteq> 0 then [Free_Pool (system_buffer ir)]
      else map Free_Mdl (mdl ir))"

definition thread_ok :: "ptr \<Rightarrow> irp \<Rightarrow> io_state \<Rightarrow> bool" where
  "thread_ok p ir s \<longleftrightarrow> ir_flags ir AND IRP_SYNCHRONOUS_API = 0 \<or> ir_thread ir = NULL \<or> p \<in> set (io_thread_irps s (ir_thread ir))"

lemma fold_io_logged: "fold (\<lambda>m. io_logged (Free_Mdl m)) ms s = io_logs (map Free_Mdl ms) s"
  by (induction ms arbitrary: s) simp_all

lemma IoFreeIrp_plain:
  assumes "io_irps s p = Some ir" "p \<noteq> NULL" "cancel_routine ir = NULL" "thread_ok p ir s"
  shows "\<exists>s'. IoFreeIrp run p s = Some s' \<and> io_irps s' p = None \<and> io_log s' = io_log s @ [Free_Irp p] \<and>
     io_user_status s' = io_user_status s"
proof -
  have "\<exists>s1. (if ir_flags ir AND IRP_SYNCHRONOUS_API \<noteq> 0 then IoDequeueThreadIrp p s else Some s) = Some s1 \<and>
    io_irps s1 = io_irps s \<and> io_log s1 = io_log s \<and> io_user_status s1 = io_user_status s"
    using assms(1,4) by (cases "ir_flags ir AND IRP_SYNCHRONOUS_API = 0"; cases "ir_thread ir = NULL")
      (simp_all add: thread_ok_def IoDequeueThreadIrp_def Let_def)
  then obtain s1 where "(if ir_flags ir AND IRP_SYNCHRONOUS_API \<noteq> 0 then IoDequeueThreadIrp p s else Some s) = Some s1"
    "io_irps s1 = io_irps s" "io_log s1 = io_log s" "io_user_status s1 = io_user_status s" by blast
  then show ?thesis
    using assms(1-3) by (simp add: IoFreeIrp_def IoCancelIrp_def Let_def) (simp add: io_logs_def io_put_def)
qed

lemma complete_finish_plain:
  assumes "io_irps s p = Some ir" "p \<noteq> NULL" "cancel_routine ir = NULL" "thread_ok p ir s"
  shows "\<exists>s'. complete_finish run p s = Some s' \<and> io_irps s' p = None \<and>
     io_log s' = io_log s @ finish_events ir @ [Free_Irp p] \<and>
     (user_status ir \<noteq> NULL \<longrightarrow> io_user_status s' (user_status ir) = (ir_status ir, ir_info ir))"
proof -
  define s1 where "s1 = (if user_status ir \<noteq> NULL
      then s\<lparr>io_user_status := (io_user_status s)(user_status ir := (ir_status ir, ir_info ir))\<rparr> else s)"
  define s2 where "s2 = (if user_event ir \<noteq> NULL then io_logged (Set_Event (user_event ir)) s1 else s1)"
  define s3 where "s3 = (if system_buffer ir \<noteq> NULL \<and> ir_flags ir AND IRP_DEALLOCATE_BUFFER \<noteq> 0
      then io_logged (Free_Pool (system_buffer ir)) s2
      else fold (\<lambda>m. io_logged (Free_Mdl m)) (mdl ir) (io_put p (ir\<lparr>mdl := []\<rparr>) s2))"
  have s3: "complete_finish run p s = IoFreeIrp run p s3"
    by (simp only: complete_finish_def assms(1) Option.bind.simps Let_def s1_def [symmetric] s2_def [symmetric] s3_def [symmetric])
  define ir3 where "ir3 = (if system_buffer ir \<noteq> NULL \<and> ir_flags ir AND IRP_DEALLOCATE_BUFFER \<noteq> 0 then ir else ir\<lparr>mdl := []\<rparr>)"
  have "io_irps s3 p = Some ir3" "cancel_routine ir3 = NULL" "thread_ok p ir3 s3"
    using assms by (auto simp: s3_def s2_def s1_def ir3_def fold_io_logged thread_ok_def)
  moreover have "io_log s3 = io_log s @ finish_events ir"
    by (simp add: s3_def s2_def s1_def finish_events_def fold_io_logged)
  moreover have "user_status ir \<noteq> NULL \<longrightarrow> io_user_status s3 (user_status ir) = (ir_status ir, ir_info ir)"
    by (simp add: s3_def s2_def s1_def fold_io_logged io_logs_def io_put_def)
  ultimately show ?thesis
    using IoFreeIrp_plain [of s3 p ir3 run] assms(2) s3 by auto
qed

lemma complete_request_spec:
  assumes "gives_back beh p run" "io_irps s p = Some ir" "irp_inv ir" "p \<noteq> NULL" "cancel_routine ir = NULL" "thread_ok p ir s"
    "expected beh ir (ir_status ir, ir_info ir) (nat (current_location ir)) (nat (stack_count ir - current_location ir)) = (es, k)"
  shows "\<exists>s'. IofCompleteRequest run p s = Some s' \<and>
     (case k of
        None \<Rightarrow> io_log s' = io_log s @ es \<and>
          (\<exists>r dev ctx s0. run r dev p ctx s0 = (s', STATUS_MORE_PROCESSING_REQUIRED))
      | Some v \<Rightarrow> io_log s' = io_log s @ es @ finish_events ir @ [Free_Irp p] \<and> io_irps s' p = None \<and>
          (if user_status ir = NULL then True else io_user_status s' (user_status ir) = v))"
proof -
  have cl: "csl ir = current_location ir" using assms(3) by (simp add: irp_inv_def)
  have loop: "loop_ends run p ir s es k (complete_loop run p (current_location ir) s)"
    by (rule complete_loop_spec [OF assms(1-3) refl assms(7)])
  show ?thesis
  proof (cases k)
    case None
    then obtain s' r dev ctx s0 where "complete_loop run p (current_location ir) s = Some (Inl s')" "io_log s' = io_log s @ es"
      "run r dev p ctx s0 = (s', STATUS_MORE_PROCESSING_REQUIRED)"
      using loop by (auto simp: loop_ends_def)
    then show ?thesis using None assms(2) cl by (intro exI [of _ s']) (simp add: IofCompleteRequest_def, blast)
  next
    case (Some v)
    then obtain s1 ir' where s1: "complete_loop run p (current_location ir) s = Some (Inr s1)" "io_log s1 = io_log s @ es"
      "io_irps s1 p = Some ir'" "sim (ir\<lparr>ir_status := fst v, ir_info := snd v\<rparr>) ir'"
      "\<forall>t. p \<in> set (io_thread_irps s t) \<longrightarrow> p \<in> set (io_thread_irps s1 t)"
      using loop by (auto simp: loop_ends_def split: prod.splits)
    have "finish_events ir' = finish_events ir" "cancel_routine ir' = NULL" "thread_ok p ir' s1"
      "user_status ir' = user_status ir" "(ir_status ir', ir_info ir') = v"
      using s1(4,5) assms(5,6) by (auto simp: sim_def finish_events_def thread_ok_def)
    then show ?thesis
      using complete_finish_plain [OF s1(3) assms(4), of run] s1 Some assms(2) cl
      by (auto simp: IofCompleteRequest_def)
  qed
qed







section \<open>Buffers of device control requests\<close>

lemma thread_ok_queued:
  assumes "IoQueueThreadIrp thread p s = Some s'" "io_irps s p = Some ir"
  shows "\<exists>ir'. io_irps s' p = Some ir' \<and> thread_ok p ir' s' \<and> io_log s' = io_log s \<and>
     ir' = ir\<lparr>ir_flags := ir_flags ir', ir_thread := thread\<rparr> \<and>
     (\<forall>m. IRP_SYNCHRONOUS_API AND m = 0 \<longrightarrow> ir_flags ir' AND m = ir_flags ir AND m)"
  using assms by (auto simp: IoQueueThreadIrp_def thread_ok_def bit.conj_disj_distrib2 split: if_splits)

text \<open>Drivers whose completion routines only answer: routine \<open>r\<close> with context \<open>c\<close> returns \<open>st r c\<close>.\<close>

definition quiet :: "(ptr \<Rightarrow> ptr \<Rightarrow> NTSTATUS) \<Rightarrow> driver" where
  "quiet st r dev p ctx s = (s, st r ctx)"

lemma quiet_gives_back: "gives_back (\<lambda>r c v. ([], v, st r c)) p (quiet st)"
proof -
  have "ir\<lparr>ir_status := ir_status ir, ir_info := ir_info ir\<rparr> = ir" for ir by simp
  then show ?thesis by (auto simp: gives_back_def quiet_def)
qed

text \<open>A buffered device control request without an output buffer owns the caller's input buffer instead of the system
  buffer that was allocated for it: completing the request frees the input buffer, and the allocated buffer is never freed.\<close>
theorem ioctl_buffered_frees_caller:
  assumes "IO_METHOD_FROM_CTL_CODE ioctl = 0" "input_len \<noteq> 0" "input_buf \<noteq> NULL" "pool \<noteq> NULL" "pool \<noteq> input_buf"
    "dev \<noteq> NULL" "kmalloc \<noteq> NULL" "0 \<le> count" "count < 127"
  shows "\<exists>s1 s2. IoBuildDeviceIoControlRequest run kmalloc pool poolout thread ioctl dev count
        input_buf input_len NULL 0 internal event iostatus s = Some (s1, kmalloc) \<and>
      IofCompleteRequest (quiet st) kmalloc s1 = Some s2 \<and>
      Free_Pool input_buf \<in> set (drop (length (io_log s)) (io_log s2)) \<and>
      Free_Pool pool \<notin> set (drop (length (io_log s)) (io_log s2))"
proof -
  obtain ir where ir: "IoAllocateIrp kmalloc count s = Some (io_put kmalloc ir s, kmalloc)" "irp_inv ir"
    "current_location ir = count + 1" "stack_count ir = count + 1" "ir_stack ir = replicate (nat (count + 1)) zero_sl"
    "ir_flags ir = 0" "mdl ir = []" "cancel_routine ir = 0"
    using IoAllocateIrp_spec [OF assms(8,9,7)] by metis
  have i: "sl_at ir (csl ir - 1) = Some zero_sl"
    using ir(2-5) assms(8) by (simp add: sl_at_Some irp_inv_def)
  define sl where "sl = zero_sl\<lparr>params := Params_Ioctl ioctl input_len 0 0,
      major_fn := (if internal then IRP_MJ_INTERNAL_DEVICE_CONTROL else IRP_MJ_DEVICE_CONTROL)\<rparr>"
  define ir1 where "ir1 = ir\<lparr>ir_stack := (ir_stack ir)[nat (csl ir - 1) := sl]\<rparr>"
  have put: "sl_put ir (csl ir - 1) sl = Some ir1"
    using i by (simp add: sl_put_Some sl_at_Some ir1_def)
  define ir2 where "ir2 = ir1\<lparr>system_buffer := input_buf, ir_flags := IRP_BUFFERED_IO OR IRP_DEALLOCATE_BUFFER, user_buf := 0\<rparr>"
  have buf: "ioctl_buffers ioctl pool poolout input_buf input_len NULL 0 ir1 = Some ir2"
    using assms(1,2,4) by (simp add: ioctl_buffers_def Let_def ir2_def max_def)
  define ir3 where "ir3 = ir2\<lparr>user_status := iostatus, user_event := event\<rparr>"
  define s3 where "s3 = io_put kmalloc ir3 s"
  obtain s1 where s1: "IoQueueThreadIrp thread kmalloc s3 = Some s1"
    by (cases "thread = NULL") (auto simp: IoQueueThreadIrp_def s3_def)
  have build: "IoBuildDeviceIoControlRequest run kmalloc pool poolout thread ioctl dev count
        input_buf input_len NULL 0 internal event iostatus s = Some (s1, kmalloc)"
    using assms(1,6,7) ir(1) i put buf s1
    by (simp add: IoBuildDeviceIoControlRequest_def sl_def s3_def ir3_def)
  have k3: "io_irps s3 kmalloc = Some ir3" by (simp add: s3_def)
  obtain ir4 fl where ir4: "io_irps s1 kmalloc = Some ir4" "thread_ok kmalloc ir4 s1" "io_log s1 = io_log s"
    "ir4 = ir3\<lparr>ir_flags := fl, ir_thread := thread\<rparr>" "IRP_SYNCHRONOUS_API AND m = 0 \<Longrightarrow> fl AND m = ir_flags ir3 AND m" for m
    using thread_ok_queued [OF s1 k3] by (auto simp: s3_def)
  have inv: "irp_inv ir4" "cancel_routine ir4 = 0" "system_buffer ir4 = input_buf" "stack_count ir4 = current_location ir4"
    "mdl ir4 = []"
    using ir put by (auto simp: ir4(4) ir3_def ir2_def ir1_def irp_inv_def)
  have "fl AND IRP_DEALLOCATE_BUFFER = (IRP_BUFFERED_IO OR IRP_DEALLOCATE_BUFFER) AND IRP_DEALLOCATE_BUFFER"
    using ir4(5) [of IRP_DEALLOCATE_BUFFER] by (simp add: IRP_SYNCHRONOUS_API_def IRP_DEALLOCATE_BUFFER_def ir3_def ir2_def)
  then have "finish_events ir4 = (if event \<noteq> NULL then [Set_Event event] else []) @ [Free_Pool input_buf]"
    using inv assms(3) by (simp add: finish_events_def ir4(4) ir3_def IRP_BUFFERED_IO_def IRP_DEALLOCATE_BUFFER_def)
  moreover have none: "expected beh ir4 v (nat (current_location ir4)) (nat (stack_count ir4 - current_location ir4)) = ([], Some v)" for beh v
    using inv(4) by simp
  ultimately show ?thesis
    using complete_request_spec [OF quiet_gives_back ir4(1) inv(1) assms(7) inv(2) ir4(2) none, of st] build ir4(3) assms(5) by auto
qed

theorem ioctl_buffered_frees_caller_witness:
  "\<exists>s1 s2. IoBuildDeviceIoControlRequest demo_driver 0x10 0x2000 0 0 0x220000 0x100 1 0x3000 16 NULL 0 False 0 0 demo_io = Some (s1, 0x10) \<and>
     IofCompleteRequest (quiet (\<lambda>_ _. 0)) 0x10 s1 = Some s2 \<and> Free_Pool 0x3000 \<in> set (io_log s2)"
  using ioctl_buffered_frees_caller [of "0x220000" 16 "0x3000" "0x2000" "0x100" "0x10" 1 demo_driver 0 0 False 0 0 demo_io "\<lambda>_ _. 0"]
  by (auto simp: IO_METHOD_FROM_CTL_CODE_def demo_io_def)

section \<open>Forwarding and waiting\<close>

lemma sync_completion:
  assumes "irp_inv ir" "0 < current_location ir" "current_location ir < stack_count ir" "sync \<noteq> NULL"
    and lw: "low = ir\<lparr>current_location := int i, csl := int i, ir_stack := (ir_stack ir)[i := slp]\<rparr>"
    and i: "i = nat (current_location ir - 1)"
    and slp: "completion_routine slp = sync" "sl_context slp = event" "control slp = 0xE1"
    and run: "\<And>dev s' t r. IoIrpSyncComplete p event s' = Some (t, r) \<Longrightarrow> run sync dev p event s' = (t, r)"
  shows "\<exists>s'. IofCompleteRequest run p (io_put p (low\<lparr>ir_status := st\<rparr>) s) = Some s' \<and>
     Set_Event event \<in> set (io_log s') \<and> io_irps s' p \<noteq> None"
proof -
  have il: "Suc i < length (ir_stack ir)" "csl ir = int (Suc i)" "current_location ir = int (Suc i)" "int (Suc i) < stack_count ir"
    "stack_count ir \<le> 127"
    using assms(1-3) i by (auto simp: irp_inv_def)
  define q where "q = low\<lparr>ir_status := st\<rparr>"
  have bits: "control slp AND SL_PENDING_RETURNED \<noteq> 0" "control slp AND SL_INVOKE_ON_SUCCESS \<noteq> 0" "control slp AND SL_INVOKE_ON_ERROR \<noteq> 0"
    by (simp_all add: slp SL_PENDING_RETURNED_def SL_INVOKE_ON_SUCCESS_def SL_INVOKE_ON_ERROR_def)
  have at: "sl_at q (int i) = Some slp" using il by (simp add: sl_at_Some q_def lw)
  define q2 where "q2 = IoSkipCurrentIrpStackLocation (q\<lparr>pending_returned := True\<rparr>)"
  have q2: "current_location q2 = int (Suc i)" "csl q2 = int (Suc i)" "stack_count q2 = stack_count ir" "pending_returned q2"
    using il by (simp_all add: q2_def q_def lw IoSkipCurrentIrpStackLocation_def char_add_small)
  obtain dev where dev: "(if current_location q2 < stack_count q2 then map_option sl_dev_obj (IoGetCurrentIrpStackLocation q2)
      else Some NULL) = Some dev"
  proof -
    have "length (ir_stack q2) = length (ir_stack ir)"
      by (simp add: q2_def q_def lw IoSkipCurrentIrpStackLocation_def)
    then have "IoGetCurrentIrpStackLocation q2 = Some (ir_stack q2 ! Suc i)"
      using q2(2) il by (simp add: IoGetCurrentIrpStackLocation_def sl_at_Some)
    then show ?thesis by (cases "current_location q2 < stack_count q2") (auto intro: that)
  qed
  have inv: "invokes q2 slp"
    using bits assms(4) slp(1) by (cases "ir_status q2 = STATUS_SUCCESS") (simp_all add: invokes_def)
  define s2 where "s2 = io_logs [Call_Completion sync dev event] (io_put p q2 (io_put p q s))"
  have "IoIrpSyncComplete p event s2 = Some (io_logged (Set_Event event) s2, STATUS_MORE_PROCESSING_REQUIRED)"
    using q2(4) by (simp add: IoIrpSyncComplete_def s2_def)
  from run [OF this] have r: "run sync dev p event s2 = (io_logged (Set_Event event) s2, STATUS_MORE_PROCESSING_REQUIRED)" .
  have q: "io_irps (io_put p q s) p = Some q" "csl q = int i" "current_location q < stack_count q"
    using il by (simp_all add: q_def lw)
  have "complete_step run p (int i) (io_put p q s) = Some (Inl (io_logged (Set_Event event) s2))"
    by (simp only: complete_step_def q(1) at Option.bind.simps Let_def bits if_True q2_def [symmetric] dev inv slp(1,2) not_False_eq_True
        io_logged_def [of "Call_Completion sync dev event"] io_logs_def [symmetric] s2_def [symmetric] r prod.case)
      simp
  then show ?thesis
    unfolding q_def [symmetric] using q
    by (simp add: IofCompleteRequest_def complete_loop.simps [of run p "int i"]) (simp add: s2_def)
qed

lemma sync_forward_prepares:
  assumes "irp_inv ir" "0 < current_location ir" "current_location ir < stack_count ir" "i = nat (current_location ir - 1)"
    "slp = (ir_stack ir ! Suc i)\<lparr>completion_routine := sync, sl_context := event, control := 0xE0\<rparr>"
  shows "do { ir1 \<leftarrow> IoCopyCurrentIrpStackLocationToNext ir; IoSetCompletionRoutine ir1 sync event True True True } =
     Some (ir\<lparr>ir_stack := (ir_stack ir)[i := slp]\<rparr>)"
proof -
  have il: "Suc i < length (ir_stack ir)" "csl ir = int (Suc i)" "current_location ir = int (Suc i)"
    using assms(1-4) by (auto simp: irp_inv_def)
  then show ?thesis
    by (simp add: IoCopyCurrentIrpStackLocationToNext_def IoSetCompletionRoutine_def Let_def sl_put_def wr_def sl_at_def rd_def
        SL_INVOKE_ON_SUCCESS_def SL_INVOKE_ON_ERROR_def SL_INVOKE_ON_CANCEL_def assms(5))
qed

text \<open>C9: IoSyncForwardIrp does not lose its wake-up.  When the lower driver marks the packet pending and returns
  STATUS_PENDING, the caller waits for the event; when the lower driver later completes the packet, with whatever status,
  the first completion routine is IoIrpSyncComplete, which sets that event and keeps the packet for the waiter.\<close>
theorem sync_forward_wakes:
  assumes "io_irps s p = Some ir" "irp_inv ir" "0 < current_location ir" "current_location ir < stack_count ir" "sync \<noteq> NULL"
    "major_fn (ir_stack ir ! nat (current_location ir)) \<le> IRP_MJ_MAXIMUM_FUNCTION"
    "f = io_major_func s dev (major_fn (ir_stack ir ! nat (current_location ir)))" "f \<noteq> NULL"
    and disp: "\<And>t q q'. io_irps t p = Some q \<Longrightarrow> IoMarkIrpPending q = Some q' \<Longrightarrow> run f dev p 0 t = (io_put p q' t, STATUS_PENDING)"
    and comp: "\<And>d t x r. IoIrpSyncComplete p event t = Some (x, r) \<Longrightarrow> run sync d p event t = (x, r)"
  shows "\<exists>s1 q. IoSyncForwardIrp run sync event dev p s = Some (s1, STATUS_PENDING, True) \<and> io_irps s1 p = Some q \<and>
     (\<exists>s2. IofCompleteRequest run p (io_put p (q\<lparr>ir_status := st\<rparr>) s1) = Some s2 \<and>
        Set_Event event \<in> set (io_log s2) \<and> io_irps s2 p \<noteq> None)"
proof -
  define i where "i = nat (current_location ir - 1)"
  define sl where "sl = (ir_stack ir ! Suc i)\<lparr>completion_routine := sync, sl_context := event, control := 0xE0\<rparr>"
  define ir2 where "ir2 = ir\<lparr>ir_stack := (ir_stack ir)[i := sl]\<rparr>"
  have prep: "do { ir1 \<leftarrow> IoCopyCurrentIrpStackLocationToNext ir; IoSetCompletionRoutine ir1 sync event True True True } = Some ir2"
    unfolding ir2_def by (rule sync_forward_prepares [OF assms(2-4) i_def sl_def])
  have il: "Suc i < length (ir_stack ir)" "csl ir = int (Suc i)" "current_location ir = int (Suc i)" "stack_count ir \<le> 127"
    "nat (current_location ir) = Suc i"
    using assms(2-4) by (auto simp: irp_inv_def i_def)
  define slp where "slp = sl\<lparr>sl_dev_obj := dev, control := 0xE1\<rparr>"
  define ir3 where "ir3 = ir\<lparr>current_location := int i, csl := int i, ir_stack := (ir_stack ir)[i := sl\<lparr>sl_dev_obj := dev\<rparr>]\<rparr>"
  define low where "low = ir\<lparr>current_location := int i, csl := int i, ir_stack := (ir_stack ir)[i := slp]\<rparr>"
  define t where "t = io_logs [Call_Dispatch f dev p] (io_put p ir3 s)"
  have mark: "IoMarkIrpPending ir3 = Some low"
    using il by (simp add: IoMarkIrpPending_def sl_at_def rd_def sl_put_def wr_def ir3_def low_def slp_def sl_def SL_PENDING_RETURNED_def)
  have ca: "char_add (1 + int i) (- 1) = int i"
    using il(3,4) assms(4) by (simp add: char_add_small)
  have "IofCallDriver run dev p (io_put p ir2 s) = Some (run f dev p 0 t)"
    using assms(6-8) il ca
    by (simp add: IofCallDriver_def IoSetNextIrpStackLocation_def Let_def ir2_def IoGetCurrentIrpStackLocation_def sl_at_def rd_def
        sl_put_def wr_def char_add_small sl_def ir3_def t_def not_less [symmetric]) (simp add: io_put_def)
  moreover have "run f dev p 0 t = (io_put p low t, STATUS_PENDING)"
    by (rule disp [OF _ mark]) (simp add: t_def)
  ultimately have fwd: "IoSyncForwardIrp run sync event dev p s = Some (io_put p low t, STATUS_PENDING, True)"
    using prep assms(1) by (simp add: IoSyncForwardIrp_def bind_eq_Some_conv) blast
  have "\<exists>s2. IofCompleteRequest run p (io_put p (low\<lparr>ir_status := st\<rparr>) (io_put p low t)) = Some s2 \<and>
      Set_Event event \<in> set (io_log s2) \<and> io_irps s2 p \<noteq> None"
    by (rule sync_completion [OF assms(2-5) low_def i_def]) (simp_all add: slp_def sl_def comp)
  with fwd show ?thesis by (intro exI [of _ "io_put p low t"] exI [of _ low]) simp
qed

definition pend_driver :: driver where
  "pend_driver r dev p ctx s =
     (if r = 0x42 then (case io_irps s p of None \<Rightarrow> (s, 0) | Some q \<Rightarrow>
        (case IoMarkIrpPending q of None \<Rightarrow> (s, 0) | Some q' \<Rightarrow> (io_put p q' s, STATUS_PENDING)))
      else (case IoIrpSyncComplete p ctx s of None \<Rightarrow> (s, 0) | Some x \<Rightarrow> x))"

theorem sync_forward_wakes_witness:
  "\<exists>s1 q s2. IoSyncForwardIrp pend_driver 0x99 0x55 0x100 0x10 (io_put 0x10 (demo_irp\<lparr>current_location := 1, csl := 1\<rparr>) demo_io)
       = Some (s1, STATUS_PENDING, True) \<and> io_irps s1 0x10 = Some q \<and>
     IofCompleteRequest pend_driver 0x10 (io_put 0x10 (q\<lparr>ir_status := STATUS_FAILURE\<rparr>) s1) = Some s2 \<and> Set_Event 0x55 \<in> set (io_log s2)"
proof -
  let ?ir = "demo_irp\<lparr>current_location := 1, csl := 1\<rparr>"
  have v: "io_irps (io_put 0x10 ?ir demo_io) 0x10 = Some ?ir" "irp_inv ?ir" "0 < current_location ?ir"
    "current_location ?ir < stack_count ?ir" "(0x99 :: ptr) \<noteq> NULL"
    "major_fn (ir_stack ?ir ! nat (current_location ?ir)) \<le> IRP_MJ_MAXIMUM_FUNCTION"
    "0x42 = io_major_func (io_put 0x10 ?ir demo_io) 0x100 (major_fn (ir_stack ?ir ! nat (current_location ?ir)))" "(0x42 :: ptr) \<noteq> NULL"
    by code_simp+
  show ?thesis
    using sync_forward_wakes [OF v, of pend_driver "0x55" STATUS_FAILURE] by (auto simp: pend_driver_def)
qed

end
