(* ===== verification/Kdpc.thy ===== *)
theory Kdpc
  imports Nt_List
begin

text \<open>
  Deferred procedure calls and work items of \<^verbatim>\<open>ntoskernel.c\<close>.  A \<^verbatim>\<open>struct kdpc\<close> is named by its
  address; it is linked into \<^verbatim>\<open>kdpc_list\<close> through the \<^verbatim>\<open>list\<close> member at offset 8 of the x86-64
  layout, so the queue itself is the pointer heap of \<open>Nt_List\<close>.  What the source does while it holds
  \<^verbatim>\<open>kdpc_list_lock\<close> is one atomic function, and what it does outside the lock is a step of its own; the loop of \<^verbatim>\<open>kdpc_worker\<close> is the repetition of
  \<open>dpc_next\<close> and of the call of the Windows function, which is a parameter.  \<open>dpc_step\<close>
  interleaves the calls of any number of threads with any number of workers.

  \<open>dpc_rep s ds\<close> says that the linked list denotes the queue \<open>ds\<close> and that the \<^verbatim>\<open>queued\<close> flags agree
  with it.  The theorems show that the operations are those of a queue with two priorities, that no
  DPC is ever left in the queue without a worker that will run it or a thread about to request one, and that a worker runs every
  queued DPC once, in order, and returns.
\<close>

section \<open>The state\<close>

datatype kdpc_importance = LowImportance | MediumImportance | HighImportance

record kdpc =
  importance :: kdpc_importance
  dpc_func :: ptr
  dpc_ctx :: ptr
  dpc_arg1 :: ptr
  dpc_arg2 :: ptr
  queued :: bool

text \<open>\<open>kdpc_list\<close> is the address of the list head, \<open>kdpc_work\<close> whether \<^verbatim>\<open>kdpc_work\<close> is pending on the
  work queue, \<open>dpc_workers\<close> the number of running calls of \<^verbatim>\<open>kdpc_worker\<close>, \<open>dpc_kicks\<close> the number of calls of
  \<^verbatim>\<open>queue_kdpc\<close> that have released the lock after queueing and have not called \<^verbatim>\<open>queue_work\<close> yet.\<close>

record dpc_state =
  dpc_heap :: nt_heap
  kdpc_list :: ptr
  kdpcs :: "ptr \<Rightarrow> kdpc option"
  kdpc_work :: bool
  dpc_workers :: nat
  dpc_kicks :: nat

type_synonym dpc_call = "ptr \<times> ptr \<times> ptr \<times> ptr \<times> ptr"

definition dpc_entry :: "ptr \<Rightarrow> ptr" where "dpc_entry d = d + 8"

definition kdpc_of :: "ptr \<Rightarrow> ptr" where "kdpc_of e = e - 8"

section \<open>Operations\<close>

definition KeInitializeDpc :: "ptr \<Rightarrow> ptr \<Rightarrow> ptr \<Rightarrow> dpc_state \<Rightarrow> dpc_state" where
  "KeInitializeDpc d func ctx s =
     s\<lparr>dpc_heap := InitializeListHead (dpc_entry d) (dpc_heap s),
       kdpcs := (kdpcs s)(d \<mapsto> \<lparr>importance = LowImportance, dpc_func = func, dpc_ctx = ctx, dpc_arg1 = 0, dpc_arg2 = 0,
                             queued = False\<rparr>)\<rparr>"

text \<open>\<^verbatim>\<open>queue_kdpc\<close> up to the release of the lock, and the whole call.\<close>

definition link_kdpc :: "ptr \<Rightarrow> dpc_state \<Rightarrow> (dpc_state \<times> bool) option" where
  "link_kdpc d s =
     do { k \<leftarrow> kdpcs s d;
          if queued k then Some (s, False)
          else let h = fst (if importance k = HighImportance then InsertHeadList (kdpc_list s) (dpc_entry d) (dpc_heap s)
                            else InsertTailList (kdpc_list s) (dpc_entry d) (dpc_heap s))
               in Some (s\<lparr>dpc_heap := h, kdpcs := (kdpcs s)(d \<mapsto> k\<lparr>queued := True\<rparr>)\<rparr>, True) }"

definition queue_kdpc :: "ptr \<Rightarrow> dpc_state \<Rightarrow> (dpc_state \<times> bool) option" where
  "queue_kdpc d s = do { (s1, ret) \<leftarrow> link_kdpc d s; Some (if ret then s1\<lparr>kdpc_work := True\<rparr> else s1, ret) }"

definition dequeue_kdpc :: "ptr \<Rightarrow> dpc_state \<Rightarrow> (dpc_state \<times> bool) option" where
  "dequeue_kdpc d s =
     do { k \<leftarrow> kdpcs s d;
          if queued k
          then Some (s\<lparr>dpc_heap := RemoveEntryList (dpc_entry d) (dpc_heap s), kdpcs := (kdpcs s)(d \<mapsto> k\<lparr>queued := False\<rparr>)\<rparr>, True)
          else Some (s, False) }"

definition set_dpc_args :: "ptr \<Rightarrow> ptr \<Rightarrow> ptr \<Rightarrow> dpc_state \<Rightarrow> dpc_state option" where
  "set_dpc_args d arg1 arg2 s = do { k \<leftarrow> kdpcs s d; Some (s\<lparr>kdpcs := (kdpcs s)(d \<mapsto> k\<lparr>dpc_arg1 := arg1, dpc_arg2 := arg2\<rparr>)\<rparr>) }"

definition KeInsertQueueDpc :: "ptr \<Rightarrow> ptr \<Rightarrow> ptr \<Rightarrow> dpc_state \<Rightarrow> (dpc_state \<times> bool) option" where
  "KeInsertQueueDpc d arg1 arg2 s = do { s1 \<leftarrow> set_dpc_args d arg1 arg2 s; queue_kdpc d s1 }"

definition KeRemoveQueueDpc :: "ptr \<Rightarrow> dpc_state \<Rightarrow> (dpc_state \<times> bool) option" where
  "KeRemoveQueueDpc d s = dequeue_kdpc d s"

definition KeSetImportanceDpc :: "ptr \<Rightarrow> kdpc_importance \<Rightarrow> dpc_state \<Rightarrow> dpc_state option" where
  "KeSetImportanceDpc d imp s =
     do { k \<leftarrow> kdpcs s d; Some (s\<lparr>kdpcs := (kdpcs s)(d \<mapsto> k\<lparr>importance := imp\<rparr>)\<rparr>) }"

text \<open>One turn of the worker under the lock: the DPC taken from the list, if any.\<close>

definition dpc_next :: "dpc_state \<Rightarrow> (dpc_state \<times> ptr option) option" where
  "dpc_next s =
     (case RemoveHeadList (kdpc_list s) (dpc_heap s) of
        (h, e) \<Rightarrow>
          if e = NULL then Some (s\<lparr>dpc_heap := h\<rparr>, None)
          else do { k \<leftarrow> kdpcs s (kdpc_of e);
                    Some (s\<lparr>dpc_heap := h, kdpcs := (kdpcs s)(kdpc_of e \<mapsto> k\<lparr>queued := False\<rparr>)\<rparr>, Some (kdpc_of e)) })"

text \<open>The arguments of the call \<^verbatim>\<open>kdpc->func(kdpc, ctx, arg1, arg2)\<close>.\<close>

definition dpc_call :: "ptr \<Rightarrow> kdpc \<Rightarrow> dpc_call" where
  "dpc_call d k = (dpc_func k, d, dpc_ctx k, dpc_arg1 k, dpc_arg2 k)"

text \<open>The Windows function works on the memory of its driver, of some type \<open>'w\<close>, and may call the operations above.\<close>

type_synonym 'w dpc_driver = "dpc_call \<Rightarrow> 'w \<times> dpc_state \<Rightarrow> 'w \<times> dpc_state"

text \<open>The loop, with the calls it makes.  A DPC may queue itself again, so the loop need not end: that, and a
  fault, is \<open>None\<close>.\<close>

partial_function (option) dpc_loop ::
  "'w dpc_driver \<Rightarrow> dpc_call list \<Rightarrow> 'w \<times> dpc_state \<Rightarrow> (dpc_call list \<times> 'w \<times> dpc_state) option" where
  "dpc_loop run calls ws =
     do { r \<leftarrow> dpc_next (snd ws);
          case snd r of
            None \<Rightarrow> Some (calls, fst ws, fst r)
          | Some d \<Rightarrow> do { k \<leftarrow> kdpcs (fst r) d;
                           dpc_loop run (calls @ [dpc_call d k]) (run (dpc_call d k) (fst ws, fst r)) } }"

definition kdpc_worker :: "'w dpc_driver \<Rightarrow> 'w \<times> dpc_state \<Rightarrow> (dpc_call list \<times> 'w \<times> dpc_state) option" where
  "kdpc_worker run ws = dpc_loop run [] ws"

definition KeFlushQueuedDpcs :: "'w dpc_driver \<Rightarrow> 'w \<times> dpc_state \<Rightarrow> (dpc_call list \<times> 'w \<times> dpc_state) option" where
  "KeFlushQueuedDpcs run ws = kdpc_worker run ws"

section \<open>Work items\<close>

text \<open>\<^verbatim>\<open>struct ntos_work_item\<close>: its list member is the first, so an item has the address of its list entry.
  \<open>work_items\<close> holds the items that are allocated.\<close>

record work_item =
  wi_func :: ptr
  wi_arg1 :: ptr
  wi_arg2 :: ptr

record work_state =
  work_heap :: nt_heap
  ntos_work_list :: ptr
  work_items :: "ptr \<Rightarrow> work_item option"
  ntos_work :: bool

text \<open>\<open>kmalloc\<close> is the address the allocator returns, 0 when it fails; the result is 0 or \<^verbatim>\<open>-ENOMEM\<close>.\<close>

definition schedule_ntos_work_item :: "ptr \<Rightarrow> ptr \<Rightarrow> ptr \<Rightarrow> ptr \<Rightarrow> work_state \<Rightarrow> work_state \<times> int" where
  "schedule_ntos_work_item kmalloc func arg1 arg2 s =
     (if kmalloc = NULL then (s, - 12)
      else (s\<lparr>work_heap := fst (InsertTailList (ntos_work_list s) kmalloc (work_heap s)),
              work_items := (work_items s)(kmalloc \<mapsto> \<lparr>wi_func = func, wi_arg1 = arg1, wi_arg2 = arg2\<rparr>),
              ntos_work := True\<rparr>, 0))"

partial_function (option) ntos_work_worker ::
  "(work_item \<Rightarrow> 'w \<times> work_state \<Rightarrow> 'w \<times> work_state) \<Rightarrow> work_item list \<Rightarrow> 'w \<times> work_state \<Rightarrow> (work_item list \<times> 'w \<times> work_state) option" where
  "ntos_work_worker run calls ws =
     (case RemoveHeadList (ntos_work_list (snd ws)) (work_heap (snd ws)) of
        (h, cur) \<Rightarrow>
          if cur = NULL then Some (calls, fst ws, (snd ws)\<lparr>work_heap := h\<rparr>)
          else do { it \<leftarrow> work_items (snd ws) cur;
                    let ws1 = run it (fst ws, (snd ws)\<lparr>work_heap := h\<rparr>) in
                    ntos_work_worker run (calls @ [it]) (fst ws1, (snd ws1)\<lparr>work_items := (work_items (snd ws1))(cur := None)\<rparr>) })"

section \<open>The queue the list denotes\<close>

definition is_queued :: "dpc_state \<Rightarrow> ptr \<Rightarrow> bool" where
  "is_queued s d \<longleftrightarrow> (\<exists>k. kdpcs s d = Some k \<and> queued k)"

definition dpc_rep :: "dpc_state \<Rightarrow> ptr list \<Rightarrow> bool" where
  "dpc_rep s ds \<longleftrightarrow> nt_ring (dpc_heap s) (kdpc_list s) (map dpc_entry ds) \<and> (\<forall>d. is_queued s d \<longleftrightarrow> d \<in> set ds)"

text \<open>A kdpc whose list entry can be linked.\<close>

definition dpc_valid :: "dpc_state \<Rightarrow> ptr \<Rightarrow> bool" where
  "dpc_valid s d \<longleftrightarrow> kdpcs s d \<noteq> None \<and> dpc_entry d \<noteq> NULL \<and> dpc_entry d \<noteq> kdpc_list s"

lemma kdpc_of_entry [simp]: "kdpc_of (dpc_entry d) = d" "dpc_entry (kdpc_of e) = e"
  by (simp_all add: kdpc_of_def dpc_entry_def)

lemma dpc_entry_inject [simp]: "dpc_entry d = dpc_entry e \<longleftrightarrow> d = e"
  by (simp add: dpc_entry_def)

lemma entry_in_map [simp]: "dpc_entry d \<in> set (map dpc_entry ds) \<longleftrightarrow> d \<in> set ds"
  by auto

lemma remove1_map_entry: "remove1 (dpc_entry d) (map dpc_entry ds) = map dpc_entry (remove1 d ds)"
  by (induction ds) auto

lemma dpc_rep_distinct: "dpc_rep s ds \<Longrightarrow> distinct ds"
  by (auto simp: dpc_rep_def nt_ring_def distinct_map)

lemma dpc_rep_queued: "dpc_rep s ds \<Longrightarrow> kdpcs s d = Some k \<Longrightarrow> queued k \<longleftrightarrow> d \<in> set ds"
  unfolding dpc_rep_def is_queued_def by force

lemma InitializeListHead_frame:
  "e \<notin> set (a # xs) \<Longrightarrow> nt_ring (InitializeListHead e h) a xs = nt_ring h a xs"
  by (auto simp: nt_ring_def InitializeListHead_def chain_upd)

lemma KeInitializeDpc_rep:
  assumes "dpc_rep s ds" "\<not> is_queued s d" "dpc_entry d \<noteq> kdpc_list s"
  shows "dpc_rep (KeInitializeDpc d func ctx s) ds"
proof -
  have "dpc_entry d \<notin> set (kdpc_list s # map dpc_entry ds)"
    using assms by (auto simp: dpc_rep_def)
  then show ?thesis
    using assms by (auto simp: dpc_rep_def KeInitializeDpc_def InitializeListHead_frame is_queued_def)
qed

lemma link_kdpc_rep:
  assumes "dpc_rep s ds" "dpc_valid s d" "kdpcs s d = Some k"
  shows "\<exists>s'. link_kdpc d s = Some (s', d \<notin> set ds) \<and> kdpc_list s' = kdpc_list s \<and> dpc_workers s' = dpc_workers s \<and> dpc_kicks s' = dpc_kicks s \<and>
     kdpcs s' = (kdpcs s)(d \<mapsto> k\<lparr>queued := True\<rparr>) \<and> kdpc_work s' = kdpc_work s \<and>
     dpc_rep s' (if d \<in> set ds then ds else if importance k = HighImportance then d # ds else ds @ [d])"
proof (cases "queued k")
  case True
  with assms have "d \<in> set ds" "k\<lparr>queued := True\<rparr> = k" by (simp_all add: dpc_rep_queued)
  with True assms show ?thesis by (auto simp: link_kdpc_def)
next
  case False
  with assms have d: "d \<notin> set ds" "dpc_entry d \<notin> set (map dpc_entry ds)" "dpc_entry d \<noteq> NULL \<and> dpc_entry d \<noteq> kdpc_list s"
    using dpc_rep_queued [OF assms(1,3)] by (auto simp: dpc_valid_def)
  from assms(1) have r: "nt_ring (dpc_heap s) (kdpc_list s) (map dpc_entry ds)" by (simp add: dpc_rep_def)
  show ?thesis
    using ring.rep_ins_head [OF r d(3,2)] ring.rep_ins_tail [OF r d(3,2)] False assms d(1)
    by (auto simp: link_kdpc_def dpc_rep_def is_queued_def Let_def)
qed

lemma dpc_rep_work [simp]: "dpc_rep (s\<lparr>kdpc_work := w\<rparr>) ds = dpc_rep s ds" "dpc_rep (s\<lparr>dpc_workers := n\<rparr>) ds = dpc_rep s ds"
  "dpc_rep (s\<lparr>dpc_kicks := n\<rparr>) ds = dpc_rep s ds"
  by (simp_all add: dpc_rep_def is_queued_def)

lemma queue_kdpc_rep:
  assumes "dpc_rep s ds" "dpc_valid s d" "kdpcs s d = Some k"
  shows "\<exists>s'. queue_kdpc d s = Some (s', d \<notin> set ds) \<and> kdpc_list s' = kdpc_list s \<and> dpc_workers s' = dpc_workers s \<and>
     kdpcs s' = (kdpcs s)(d \<mapsto> k\<lparr>queued := True\<rparr>) \<and> kdpc_work s' = (kdpc_work s \<or> d \<notin> set ds) \<and>
     dpc_rep s' (if d \<in> set ds then ds else if importance k = HighImportance then d # ds else ds @ [d])"
  using link_kdpc_rep [OF assms] by (auto simp: queue_kdpc_def)

lemma dequeue_kdpc_rep:
  assumes "dpc_rep s ds" "kdpcs s d = Some k"
  shows "\<exists>s'. dequeue_kdpc d s = Some (s', d \<in> set ds) \<and> kdpc_list s' = kdpc_list s \<and> dpc_workers s' = dpc_workers s \<and> dpc_kicks s' = dpc_kicks s \<and>
     kdpcs s' = (kdpcs s)(d \<mapsto> k\<lparr>queued := False\<rparr>) \<and> kdpc_work s' = kdpc_work s \<and> dpc_rep s' (remove1 d ds)"
proof (cases "queued k")
  case True
  with assms have d: "d \<in> set ds" by (simp add: dpc_rep_queued [symmetric])
  then have e: "dpc_entry d \<in> set (map dpc_entry ds)" by simp
  from assms(1) have r: "nt_ring (dpc_heap s) (kdpc_list s) (map dpc_entry ds)" by (simp add: dpc_rep_def)
  have "set (remove1 d ds) = set ds - {d}" using dpc_rep_distinct [OF assms(1)] by simp
  then show ?thesis
    using ring.rep_del [OF r e] True assms d
    by (auto simp: dequeue_kdpc_def dpc_rep_def is_queued_def remove1_map_entry)
next
  case False
  with assms have "d \<notin> set ds" "k\<lparr>queued := False\<rparr> = k" by (simp_all add: dpc_rep_queued [symmetric])
  with False assms show ?thesis by (auto simp: dequeue_kdpc_def remove1_idem)
qed

lemma dpc_next_rep:
  assumes "dpc_rep s ds"
  shows "\<exists>s'. dpc_next s = Some (s', hd_opt ds) \<and> kdpc_list s' = kdpc_list s \<and> dpc_workers s' = dpc_workers s \<and> dpc_kicks s' = dpc_kicks s \<and>
     kdpcs s' = (case ds of [] \<Rightarrow> kdpcs s | d # _ \<Rightarrow> (kdpcs s)(d := map_option (\<lambda>k. k\<lparr>queued := False\<rparr>) (kdpcs s d))) \<and>
     kdpc_work s' = kdpc_work s \<and> dpc_rep s' (tl ds)"
proof -
  obtain h e where he: "RemoveHeadList (kdpc_list s) (dpc_heap s) = (h, e)" by (cases "RemoveHeadList (kdpc_list s) (dpc_heap s)")
  from assms have r: "nt_ring (dpc_heap s) (kdpc_list s) (map dpc_entry ds)" by (simp add: dpc_rep_def)
  have q: "nt_ring h (kdpc_list s) (tl (map dpc_entry ds))" "opt_of_ptr e = hd_opt (map dpc_entry ds)"
    using ring.rep_deq_head [OF r, of h "opt_of_ptr e"] he by auto
  show ?thesis
  proof (cases ds)
    case Nil
    with q he assms show ?thesis by (auto simp: dpc_next_def dpc_rep_def opt_of_ptr_def is_queued_def split: if_splits)
  next
    case (Cons d ds')
    with q(2) have e: "e = dpc_entry d" "e \<noteq> NULL" by (auto simp: opt_of_ptr_def split: if_splits)
    from assms Cons have "is_queued s d" "d \<notin> set ds'" using dpc_rep_distinct [OF assms] by (auto simp: dpc_rep_def)
    then obtain k where "kdpcs s d = Some k" "queued k" by (auto simp: is_queued_def)
    then show ?thesis
      using q(1) he e assms Cons \<open>d \<notin> set ds'\<close> by (auto simp: dpc_next_def dpc_rep_def is_queued_def)
  qed
qed


lemma KeInsertQueueDpc_rep:
  assumes "dpc_rep s ds" "dpc_valid s d" "kdpcs s d = Some k"
  shows "\<exists>s'. KeInsertQueueDpc d arg1 arg2 s = Some (s', d \<notin> set ds) \<and> kdpc_list s' = kdpc_list s \<and> dpc_workers s' = dpc_workers s \<and>
     kdpcs s' = (kdpcs s)(d \<mapsto> k\<lparr>dpc_arg1 := arg1, dpc_arg2 := arg2, queued := True\<rparr>) \<and> kdpc_work s' = (kdpc_work s \<or> d \<notin> set ds) \<and>
     dpc_rep s' (if d \<in> set ds then ds else if importance k = HighImportance then d # ds else ds @ [d])"
proof -
  define k1 where "k1 = k\<lparr>dpc_arg1 := arg1, dpc_arg2 := arg2\<rparr>"
  define s1 where "s1 = s\<lparr>kdpcs := (kdpcs s)(d \<mapsto> k1)\<rparr>"
  have "dpc_rep s1 ds"
    using assms(1,3) dpc_rep_queued [OF assms(1,3)] by (auto simp: dpc_rep_def is_queued_def s1_def k1_def)
  moreover have "dpc_valid s1 d" "kdpcs s1 d = Some k1" "importance k1 = importance k"
    using assms(2) by (auto simp: dpc_valid_def s1_def k1_def)
  moreover have "KeInsertQueueDpc d arg1 arg2 s = queue_kdpc d s1"
    using assms(3) by (simp add: KeInsertQueueDpc_def set_dpc_args_def s1_def k1_def)
  ultimately show ?thesis
    using queue_kdpc_rep [of s1 ds d k1] by (simp only:) (simp add: s1_def k1_def)
qed

section \<open>Interleavings\<close>

text \<open>The steps of the system: drivers initialise DPCs, store their arguments, queue them under the lock and request a worker after its release, and remove DPCs; the work queue starts a worker for a pending
  \<^verbatim>\<open>kdpc_work\<close>, KeFlushQueuedDpcs starts one at once, a worker takes a DPC or finds the list empty and returns.\<close>

inductive dpc_step :: "dpc_state \<Rightarrow> dpc_state \<Rightarrow> bool" where
  init: "\<not> is_queued s d \<Longrightarrow> dpc_entry d \<noteq> NULL \<Longrightarrow> dpc_entry d \<noteq> kdpc_list s \<Longrightarrow> dpc_step s (KeInitializeDpc d func ctx s)"
| args: "set_dpc_args d arg1 arg2 s = Some s' \<Longrightarrow> dpc_step s s'"
| link: "link_kdpc d s = Some (s', r) \<Longrightarrow> dpc_step s (if r then s'\<lparr>dpc_kicks := dpc_kicks s' + 1\<rparr> else s')"
| kick: "0 < dpc_kicks s \<Longrightarrow> dpc_step s (s\<lparr>kdpc_work := True, dpc_kicks := dpc_kicks s - 1\<rparr>)"
| remove: "KeRemoveQueueDpc d s = Some (s', r) \<Longrightarrow> dpc_step s s'"
| importance: "KeSetImportanceDpc d imp s = Some s' \<Longrightarrow> dpc_step s s'"
| work_start: "kdpc_work s \<Longrightarrow> dpc_step s (s\<lparr>kdpc_work := False, dpc_workers := dpc_workers s + 1\<rparr>)"
| flush_start: "dpc_step s (s\<lparr>dpc_workers := dpc_workers s + 1\<rparr>)"
| take_dpc: "0 < dpc_workers s \<Longrightarrow> dpc_next s = Some (s', Some d) \<Longrightarrow> dpc_step s s'"
| worker_exit: "0 < dpc_workers s \<Longrightarrow> dpc_next s = Some (s', None) \<Longrightarrow> dpc_step s (s'\<lparr>dpc_workers := dpc_workers s' - 1\<rparr>)"

inductive dpc_reachable :: "dpc_state \<Rightarrow> bool" where
  start: "kdpc_list s \<noteq> NULL \<Longrightarrow> kdpcs s = Map.empty \<Longrightarrow> dpc_workers s = 0 \<Longrightarrow>
     dpc_heap s = InitializeListHead (kdpc_list s) h \<Longrightarrow> dpc_reachable s"
| step: "dpc_reachable s \<Longrightarrow> dpc_step s s' \<Longrightarrow> dpc_reachable s'"

definition dpc_inv :: "dpc_state \<Rightarrow> bool" where
  "dpc_inv s \<longleftrightarrow> (\<exists>ds. dpc_rep s ds \<and> (ds \<noteq> [] \<longrightarrow> kdpc_work s \<or> 0 < dpc_workers s \<or> 0 < dpc_kicks s)) \<and> (\<forall>d. kdpcs s d \<noteq> None \<longrightarrow> dpc_valid s d)"

lemma dpc_valid_upd: "\<forall>d. kdpcs s d \<noteq> None \<longrightarrow> dpc_valid s d \<Longrightarrow> kdpc_list s' = kdpc_list s \<Longrightarrow>
    (\<And>d. kdpcs s' d \<noteq> None \<Longrightarrow> kdpcs s d \<noteq> None) \<Longrightarrow> \<forall>d. kdpcs s' d \<noteq> None \<longrightarrow> dpc_valid s' d"
  by (simp add: dpc_valid_def)

lemma dpc_step_inv:
  assumes "dpc_step s s'" "dpc_inv s"
  shows "dpc_inv s'"
proof -
  from assms(2) obtain ds where ds: "dpc_rep s ds" "ds \<noteq> [] \<longrightarrow> kdpc_work s \<or> 0 < dpc_workers s \<or> 0 < dpc_kicks s"
    and v: "\<forall>d. kdpcs s d \<noteq> None \<longrightarrow> dpc_valid s d" by (auto simp: dpc_inv_def)
  from assms(1) show ?thesis
  proof cases
    case (init d func ctx)
    then show ?thesis
      unfolding dpc_inv_def using KeInitializeDpc_rep [OF ds(1), of d func ctx] ds(2) v
      by (intro conjI exI [of _ ds]) (auto simp: KeInitializeDpc_def dpc_valid_def)
  next
    case (args d arg1 arg2)
    then obtain k where k: "kdpcs s d = Some k" "s' = s\<lparr>kdpcs := (kdpcs s)(d \<mapsto> k\<lparr>dpc_arg1 := arg1, dpc_arg2 := arg2\<rparr>)\<rparr>"
      by (auto simp: set_dpc_args_def split: Option.bind_splits)
    then have "dpc_rep s' ds"
      using ds(1) dpc_rep_queued [OF ds(1) k(1)] by (auto simp: dpc_rep_def is_queued_def)
    with ds(2) k show ?thesis unfolding dpc_inv_def
      by (intro conjI dpc_valid_upd [OF v] exI [of _ ds]) (auto split: if_splits)
  next
    case (link d t r)
    then obtain k where k: "kdpcs s d = Some k" by (auto simp: link_kdpc_def split: Option.bind_splits)
    with v have "dpc_valid s d" by auto
    from link_kdpc_rep [OF ds(1) this k] link(2) have t: "r = (d \<notin> set ds)" "kdpc_list t = kdpc_list s" "dpc_workers t = dpc_workers s" "dpc_kicks t = dpc_kicks s"
      "kdpcs t = (kdpcs s)(d \<mapsto> k\<lparr>queued := True\<rparr>)" "kdpc_work t = kdpc_work s" "dpc_rep t (if d \<in> set ds then ds else if importance k = HighImportance then d # ds else ds @ [d])"
      by auto
    have "dpc_rep s' (if d \<in> set ds then ds else if importance k = HighImportance then d # ds else ds @ [d])"
      using t(7) unfolding link(1) by (cases r) (simp_all only: if_True if_False dpc_rep_work)
    moreover have "kdpc_work s' \<or> 0 < dpc_workers s' \<or> 0 < dpc_kicks s'" if "(if d \<in> set ds then ds else if importance k = HighImportance then d # ds else ds @ [d]) \<noteq> []"
      using that ds(2) t(1,3,4,6) link(1) by (auto split: if_splits)
    moreover have "\<forall>d. kdpcs s' d \<noteq> None \<longrightarrow> dpc_valid s' d" using t(2,5) link(1) k by (intro dpc_valid_upd [OF v]) (auto split: if_splits)
    ultimately show ?thesis unfolding dpc_inv_def by blast
  next
    case kick
    then show ?thesis using ds v by (auto simp: dpc_inv_def dpc_valid_def)
  next
    case (remove d r)
    then obtain k where k: "kdpcs s d = Some k" by (auto simp: KeRemoveQueueDpc_def dequeue_kdpc_def split: Option.bind_splits)
    from dequeue_kdpc_rep [OF ds(1) k] remove ds(2)
    show ?thesis unfolding dpc_inv_def KeRemoveQueueDpc_def
      by (intro conjI dpc_valid_upd [OF v]) (force simp: k split: if_splits)+
  next
    case (importance d imp)
    then obtain k where k: "kdpcs s d = Some k" "s' = s\<lparr>kdpcs := (kdpcs s)(d \<mapsto> k\<lparr>importance := imp\<rparr>)\<rparr>"
      by (auto simp: KeSetImportanceDpc_def split: Option.bind_splits)
    then have "dpc_rep s' ds"
      using ds(1) dpc_rep_queued [OF ds(1) k(1)] by (auto simp: dpc_rep_def is_queued_def)
    with ds(2) k show ?thesis unfolding dpc_inv_def
      by (intro conjI dpc_valid_upd [OF v] exI [of _ ds]) (auto split: if_splits)
  next
    case work_start
    then show ?thesis using ds v by (auto simp: dpc_inv_def dpc_rep_def is_queued_def dpc_valid_def)
  next
    case flush_start
    then show ?thesis using ds v by (auto simp: dpc_inv_def dpc_rep_def is_queued_def dpc_valid_def)
  next
    case (take_dpc d)
    with dpc_next_rep [OF ds(1)] ds(2) show ?thesis unfolding dpc_inv_def
      by (intro conjI dpc_valid_upd [OF v]) (auto split: list.splits if_splits)
  next
    case (worker_exit t)
    with dpc_next_rep [OF ds(1)] have t: "ds = []" "dpc_rep t []" "kdpc_list t = kdpc_list s" "kdpcs t = kdpcs s"
      by (cases ds; auto)+
    then have "dpc_rep s' []" using worker_exit(1) by (simp add: dpc_rep_def is_queued_def)
    with t worker_exit(1) show ?thesis unfolding dpc_inv_def
      by (intro conjI dpc_valid_upd [OF v] exI [of _ "[]"]) auto
  qed
qed

lemma dpc_reachable_inv: "dpc_reachable s \<Longrightarrow> dpc_inv s"
proof (induction rule: dpc_reachable.induct)
  case (start s h)
  then have "dpc_rep s []"
    using InitializeListHead_ring [of "kdpc_list s" h] by (simp add: dpc_rep_def is_queued_def)
  with start show ?case by (auto simp: dpc_inv_def dpc_valid_def)
next
  case (step s s')
  then show ?case by (blast intro: dpc_step_inv)
qed


section \<open>What a worker does\<close>

text \<open>The calls for the DPCs of a queue, with the arguments they were last given.\<close>

definition calls_of :: "dpc_state \<Rightarrow> ptr list \<Rightarrow> dpc_call list" where
  "calls_of s ds = map (\<lambda>d. dpc_call d (the (kdpcs s d))) ds"

lemma dpc_call_unqueue [simp]: "dpc_call d (k\<lparr>queued := b\<rparr>) = dpc_call d k"
  by (simp add: dpc_call_def)

text \<open>A turn of the loop, for a DPC at the head of the queue and for an empty queue.\<close>

lemma dpc_loop_turn:
  assumes "dpc_rep s (d # ds)"
  shows "\<exists>s' k. kdpcs s d = Some k \<and> kdpcs s' = (kdpcs s)(d \<mapsto> k\<lparr>queued := False\<rparr>) \<and> dpc_rep s' ds \<and>
     dpc_loop run calls (w, s) = dpc_loop run (calls @ [dpc_call d k]) (run (dpc_call d k) (w, s'))"
proof -
  from assms have "is_queued s d" by (simp add: dpc_rep_def)
  then obtain k where k: "kdpcs s d = Some k" by (auto simp: is_queued_def)
  from dpc_next_rep [OF assms] k obtain s' where s': "dpc_next s = Some (s', Some d)" "kdpcs s' = (kdpcs s)(d \<mapsto> k\<lparr>queued := False\<rparr>)"
    "dpc_rep s' ds"
    by auto
  then have "dpc_loop run calls (w, s) = dpc_loop run (calls @ [dpc_call d k]) (run (dpc_call d k) (w, s'))"
    by (subst dpc_loop.simps) simp
  with k s' show ?thesis by blast
qed

lemma dpc_loop_empty:
  assumes "dpc_rep s []"
  shows "\<exists>s'. dpc_loop run calls (w, s) = Some (calls, w, s') \<and> dpc_rep s' [] \<and> kdpcs s' = kdpcs s"
  using dpc_next_rep [OF assms] by (subst dpc_loop.simps) auto

lemma dpc_loop_runs:
  assumes "dpc_rep s ds" "\<And>c w t. snd (run c (w, t)) = t"
  shows "\<exists>w' s'. dpc_loop run calls (w, s) = Some (calls @ calls_of s ds, w', s') \<and> dpc_rep s' []"
  using assms(1)
proof (induction ds arbitrary: s calls w)
  case Nil
  then show ?case using dpc_loop_empty [of s run calls w] by (auto simp: calls_of_def)
next
  case (Cons d ds)
  from dpc_loop_turn [OF Cons.prems, of run calls w] obtain s' k where s': "kdpcs s d = Some k"
    "kdpcs s' = (kdpcs s)(d \<mapsto> k\<lparr>queued := False\<rparr>)" "dpc_rep s' ds"
    "dpc_loop run calls (w, s) = dpc_loop run (calls @ [dpc_call d k]) (run (dpc_call d k) (w, s'))" by blast
  obtain w1 where w1: "run (dpc_call d k) (w, s') = (w1, s')" using assms(2) [of "dpc_call d k" w s'] by (metis prod.collapse)
  have "calls_of s' ds = calls_of s ds"
    using s'(2) dpc_rep_distinct [OF Cons.prems] by (auto simp: calls_of_def)
  moreover have "calls_of s (d # ds) = dpc_call d k # calls_of s ds" using s'(1) by (simp add: calls_of_def)
  ultimately show ?case using Cons.IH [OF s'(3), of "calls @ [dpc_call d k]" w1] s'(4) w1 by simp
qed

text \<open>Termination when DPCs queue DPCs: \<open>budget\<close> bounds how many more the driver may still queue.\<close>

lemma dpc_loop_terminates:
  assumes run: "\<And>c w t xs w' t'. dpc_rep t xs \<Longrightarrow> run c (w, t) = (w', t') \<Longrightarrow>
      \<exists>ys. dpc_rep t' ys \<and> budget w' + length ys \<le> budget w + length xs"
  shows "dpc_rep s ds \<Longrightarrow> budget w + length ds \<le> n \<Longrightarrow>
     \<exists>cs w' s'. dpc_loop run calls (w, s) = Some (calls @ cs, w', s') \<and> dpc_rep s' [] \<and> length cs \<le> n"
proof (induction n arbitrary: w s ds calls)
  case 0
  then show ?case using dpc_loop_empty [of s run calls w] by auto
next
  case (Suc n)
  show ?case
  proof (cases ds)
    case Nil
    with Suc.prems show ?thesis using dpc_loop_empty [of s run calls w] by auto
  next
    case (Cons d zs)
    with dpc_loop_turn [of s d zs run calls w] Suc.prems(1) obtain s' k where s': "dpc_rep s' zs"
      "dpc_loop run calls (w, s) = dpc_loop run (calls @ [dpc_call d k]) (run (dpc_call d k) (w, s'))" by blast
    obtain w1 s1 where r: "run (dpc_call d k) (w, s') = (w1, s1)" by (cases "run (dpc_call d k) (w, s')")
    from run [OF s'(1) r] obtain ys where ys: "dpc_rep s1 ys" "budget w1 + length ys \<le> budget w + length zs" by blast
    with Suc.prems(2) Cons have "budget w1 + length ys \<le> n" by simp
    from Suc.IH [OF ys(1) this, of "calls @ [dpc_call d k]"] s'(2) r show ?thesis by auto
  qed
qed

section \<open>Properties\<close>

text \<open>C10: In every state that any interleaving of the DPC operations of any number of threads and workers can reach,
  the linked list of queued DPCs is intact and holds exactly the DPCs whose \<^verbatim>\<open>queued\<close> flag is set, each once; and when
  it is not empty, a worker is running, the work item that starts one is pending, or a thread that has released the lock is about to request it with
  \<^verbatim>\<open>queue_work\<close>; so no queued DPC is left behind.\<close>
theorem dpc_queue_invariant:
  assumes "dpc_reachable s"
  shows "\<exists>ds. nt_ring (dpc_heap s) (kdpc_list s) (map dpc_entry ds) \<and> distinct ds \<and> set ds = {d. is_queued s d} \<and>
     (ds \<noteq> [] \<longrightarrow> kdpc_work s \<or> 0 < dpc_workers s \<or> 0 < dpc_kicks s)"
proof -
  from dpc_reachable_inv [OF assms] obtain ds where "dpc_rep s ds" "ds \<noteq> [] \<longrightarrow> kdpc_work s \<or> 0 < dpc_workers s \<or> 0 < dpc_kicks s"
    by (auto simp: dpc_inv_def)
  then show ?thesis using dpc_rep_distinct [of s ds] by (auto simp: dpc_rep_def)
qed

definition dpc_demo0 :: dpc_state where
  "dpc_demo0 = \<lparr>dpc_heap = InitializeListHead 0x100 \<lparr>nxt = (\<lambda>_. 0), prv = (\<lambda>_. 0)\<rparr>, kdpc_list = 0x100, kdpcs = Map.empty,
     kdpc_work = False, dpc_workers = 0, dpc_kicks = 0\<rparr>"

definition dpc_demo1 :: dpc_state where
  "dpc_demo1 = KeInitializeDpc 0x200 0x1000 0x11 (KeInitializeDpc 0x300 0x2000 0x22 dpc_demo0)"

definition dpc_demo2 :: dpc_state where
  "dpc_demo2 = fst (the (KeInsertQueueDpc 0x200 7 8 (the (KeSetImportanceDpc 0x200 HighImportance
     (fst (the (KeInsertQueueDpc 0x300 5 6 dpc_demo1)))))))"

text \<open>A whole call of KeInsertQueueDpc is three steps.\<close>

lemma insert_reachable:
  assumes "dpc_reachable s" "KeInsertQueueDpc d arg1 arg2 s = Some (s', r)"
  shows "dpc_reachable s'"
proof -
  obtain s1 s2 where s: "set_dpc_args d arg1 arg2 s = Some s1" "link_kdpc d s1 = Some (s2, r)" "s' = (if r then s2\<lparr>kdpc_work := True\<rparr> else s2)"
    using assms(2) by (auto simp: KeInsertQueueDpc_def queue_kdpc_def bind_eq_Some_conv)
  have "dpc_reachable s1" using dpc_reachable.step [OF assms(1) dpc_step.args [OF s(1)]] .
  from dpc_reachable.step [OF this dpc_step.link [OF s(2)]] have l: "dpc_reachable (if r then s2\<lparr>dpc_kicks := dpc_kicks s2 + 1\<rparr> else s2)" .
  show ?thesis
  proof (cases r)
    case True
    then have "dpc_reachable (s2\<lparr>dpc_kicks := dpc_kicks s2 + 1\<rparr>)" using l by simp
    from dpc_reachable.step [OF this dpc_step.kick] show ?thesis using True s(3) by simp
  qed (use l s(3) in simp)
qed

lemma dpc_demo_reachable: "dpc_reachable dpc_demo2"
proof -
  have r0: "dpc_reachable dpc_demo0" by (rule dpc_reachable.start) (simp_all add: dpc_demo0_def)
  have "dpc_reachable (KeInitializeDpc 0x300 0x2000 0x22 dpc_demo0)"
    by (rule dpc_reachable.step [OF r0 dpc_step.init]) (simp_all add: dpc_demo0_def is_queued_def dpc_entry_def)
  then have r1: "dpc_reachable dpc_demo1" unfolding dpc_demo1_def
    by (rule dpc_reachable.step [OF _ dpc_step.init]) (simp_all add: KeInitializeDpc_def dpc_demo0_def is_queued_def dpc_entry_def)
  have "KeInsertQueueDpc 0x300 5 6 dpc_demo1 = Some (fst (the (KeInsertQueueDpc 0x300 5 6 dpc_demo1)), True)"
    by (simp add: dpc_demo1_def KeInitializeDpc_def KeInsertQueueDpc_def queue_kdpc_def link_kdpc_def set_dpc_args_def)
  then have r2: "dpc_reachable (fst (the (KeInsertQueueDpc 0x300 5 6 dpc_demo1)))"
    by (rule insert_reachable [OF r1])
  let ?s = "the (KeSetImportanceDpc 0x200 HighImportance (fst (the (KeInsertQueueDpc 0x300 5 6 dpc_demo1))))"
  have "KeSetImportanceDpc 0x200 HighImportance (fst (the (KeInsertQueueDpc 0x300 5 6 dpc_demo1))) = Some ?s"
    by (simp add: dpc_demo1_def KeInitializeDpc_def KeInsertQueueDpc_def queue_kdpc_def link_kdpc_def set_dpc_args_def KeSetImportanceDpc_def)
  then have r3: "dpc_reachable ?s" by (rule dpc_reachable.step [OF r2 dpc_step.importance])
  have "KeInsertQueueDpc 0x200 7 8 ?s = Some (dpc_demo2, True)" unfolding dpc_demo2_def
    by (simp add: dpc_demo1_def KeInitializeDpc_def KeInsertQueueDpc_def queue_kdpc_def link_kdpc_def set_dpc_args_def KeSetImportanceDpc_def)
  then show ?thesis by (rule insert_reachable [OF r3])
qed

lemma dpc_demo_queued: "is_queued dpc_demo2 d \<longleftrightarrow> d = 0x200 \<or> d = 0x300"
  by (simp add: dpc_demo2_def dpc_demo1_def dpc_demo0_def KeInitializeDpc_def KeInsertQueueDpc_def queue_kdpc_def link_kdpc_def set_dpc_args_def KeSetImportanceDpc_def is_queued_def)

theorem dpc_queue_invariant_witness:
  "\<exists>ds. set ds = {0x200, 0x300} \<and> distinct ds \<and> nt_ring (dpc_heap dpc_demo2) (kdpc_list dpc_demo2) (map dpc_entry ds)"
  using dpc_queue_invariant [OF dpc_demo_reachable] unfolding dpc_demo_queued by blast

lemma dpc_demo_rep: "dpc_rep dpc_demo2 [0x200, 0x300]"
proof -
  have "nt_ring (dpc_heap dpc_demo2) (kdpc_list dpc_demo2) (map dpc_entry [0x200, 0x300])"
    by (simp add: nt_ring_def dpc_demo2_def dpc_demo1_def dpc_demo0_def KeInitializeDpc_def KeInsertQueueDpc_def queue_kdpc_def link_kdpc_def set_dpc_args_def
        KeSetImportanceDpc_def dpc_entry_def InsertHeadList_def InsertTailList_def InsertListEntry_def InitializeListHead_def Let_def)
  then show ?thesis by (simp add: dpc_rep_def dpc_demo_queued)
qed

text \<open>KeInsertQueueDpc and KeRemoveQueueDpc implement a queue with two priorities.  Inserting stores the two
  arguments; a DPC that is already queued stays where it is and the result is FALSE; otherwise it goes to the front when its
  importance is high, to the back when not, the work item is scheduled and the result is TRUE.  Removing takes exactly that DPC
  out, wherever it is, and tells whether it was queued.\<close>
theorem dpc_queue_operations:
  assumes "dpc_rep s ds" "dpc_valid s d" "kdpcs s d = Some k"
  shows "(\<exists>s'. KeInsertQueueDpc d arg1 arg2 s = Some (s', d \<notin> set ds) \<and>
       kdpcs s' = (kdpcs s)(d \<mapsto> k\<lparr>dpc_arg1 := arg1, dpc_arg2 := arg2, queued := True\<rparr>) \<and> kdpc_work s' = (kdpc_work s \<or> d \<notin> set ds) \<and>
       dpc_rep s' (if d \<in> set ds then ds else if importance k = HighImportance then d # ds else ds @ [d])) \<and>
     (\<exists>s'. KeRemoveQueueDpc d s = Some (s', d \<in> set ds) \<and> kdpcs s' = (kdpcs s)(d \<mapsto> k\<lparr>queued := False\<rparr>) \<and>
       dpc_rep s' (remove1 d ds))"
  using KeInsertQueueDpc_rep [OF assms] dequeue_kdpc_rep [OF assms(1,3)] unfolding KeRemoveQueueDpc_def by blast

lemma dpc_demo_valid: "dpc_valid dpc_demo2 0x300" "kdpcs dpc_demo2 0x300 = Some \<lparr>importance = LowImportance, dpc_func = 0x2000, dpc_ctx = 0x22,
    dpc_arg1 = 5, dpc_arg2 = 6, queued = True\<rparr>"
  by (simp_all add: dpc_valid_def dpc_demo2_def dpc_demo1_def dpc_demo0_def KeInitializeDpc_def KeInsertQueueDpc_def queue_kdpc_def link_kdpc_def set_dpc_args_def
      KeSetImportanceDpc_def dpc_entry_def)

theorem dpc_queue_operations_witness:
  "\<exists>s'. KeRemoveQueueDpc 0x300 dpc_demo2 = Some (s', True) \<and> dpc_rep s' [0x200]"
  using dpc_queue_operations [OF dpc_demo_rep dpc_demo_valid] by auto

text \<open>C11: A worker runs every queued DPC exactly once, from the head of the queue to its end, each with the context of its
  initialisation and the arguments it was last queued with, and returns with an empty queue (for DPC functions that do not
  queue DPCs themselves).\<close>
theorem kdpc_worker_runs_all:
  assumes "dpc_rep s ds" "\<And>c w t. snd (run c (w, t)) = t"
  shows "\<exists>w' s'. kdpc_worker run (w, s) = Some (map (\<lambda>d. dpc_call d (the (kdpcs s d))) ds, w', s') \<and> dpc_rep s' []"
  using dpc_loop_runs [where run = run and calls = "[]" and w = w, OF assms] by (simp add: kdpc_worker_def calls_of_def)

theorem kdpc_worker_runs_all_witness:
  "\<exists>w s'. kdpc_worker (\<lambda>c ws. (Suc (fst ws), snd ws)) (0 :: nat, dpc_demo2) =
     Some ([(0x1000, 0x200, 0x11, 7, 8), (0x2000, 0x300, 0x22, 5, 6)], w, s') \<and> dpc_rep s' []"
  using kdpc_worker_runs_all [OF dpc_demo_rep, of "\<lambda>c ws. (Suc (fst ws), snd ws)" 0]
  by (simp add: dpc_call_def dpc_demo2_def dpc_demo1_def KeInitializeDpc_def KeInsertQueueDpc_def queue_kdpc_def link_kdpc_def set_dpc_args_def KeSetImportanceDpc_def)

text \<open>C12: A worker returns, with an empty queue, also when DPC functions queue further DPCs, as long as the driver queues
  only boundedly many more (\<open>budget\<close>, on the memory of the driver, pays for each).\<close>
theorem kdpc_worker_terminates:
  assumes "\<And>c w t xs w' t'. dpc_rep t xs \<Longrightarrow> run c (w, t) = (w', t') \<Longrightarrow>
      \<exists>ys. dpc_rep t' ys \<and> budget w' + length ys \<le> budget w + length xs"
    and "dpc_rep s ds"
  shows "\<exists>calls w' s'. kdpc_worker run (w, s) = Some (calls, w', s') \<and> dpc_rep s' [] \<and> length calls \<le> budget w + length ds"
  using dpc_loop_terminates [where run = run and budget = budget and calls = "[]", OF assms(1) assms(2) le_refl]
  by (simp add: kdpc_worker_def)

definition requeue :: "nat dpc_driver" where
  "requeue c ws = (case c of (f, d, x) \<Rightarrow>
     if fst ws = 0 \<or> \<not> dpc_valid (snd ws) d then ws
     else (case KeInsertQueueDpc d 1 2 (snd ws) of None \<Rightarrow> ws | Some (t, r) \<Rightarrow> (fst ws - 1, t)))"

theorem kdpc_worker_terminates_witness:
  "\<exists>calls w' s'. kdpc_worker requeue (3, dpc_demo2) = Some (calls, w', s') \<and> dpc_rep s' [] \<and> length calls \<le> 5"
proof -
  have "\<exists>ys. dpc_rep t' ys \<and> id w' + length ys \<le> id w + length xs"
    if "dpc_rep t xs" "requeue c (w, t) = (w', t')" for c w t xs w' t'
  proof (cases "w = 0 \<or> \<not> dpc_valid t (fst (snd c))")
    case True
    with that show ?thesis by (auto simp: requeue_def split: prod.splits)
  next
    case False
    then obtain k where k: "dpc_valid t (fst (snd c))" "kdpcs t (fst (snd c)) = Some k" by (auto simp: dpc_valid_def)
    from KeInsertQueueDpc_rep [OF that(1) k, of 1 2] obtain u r where u: "KeInsertQueueDpc (fst (snd c)) 1 2 t = Some (u, r)"
      "dpc_rep u (if fst (snd c) \<in> set xs then xs else if importance k = HighImportance then fst (snd c) # xs else xs @ [fst (snd c)])"
      by blast
    with False that(2) have "w' = w - 1" "t' = u" by (auto simp: requeue_def split: prod.splits)
    with u(2) False show ?thesis by (simp only:) (rule exI, rule conjI, assumption, auto)
  qed
  from kdpc_worker_terminates [where run = requeue and budget = id and w = 3, OF this dpc_demo_rep] show ?thesis by simp
qed


section \<open>Work items run in order\<close>

definition work_rep :: "work_state \<Rightarrow> ptr list \<Rightarrow> bool" where
  "work_rep s es \<longleftrightarrow> nt_ring (work_heap s) (ntos_work_list s) es \<and> dom (work_items s) = set es"

lemma schedule_rep:
  assumes "work_rep s es" "e \<noteq> NULL" "e \<noteq> ntos_work_list s" "e \<notin> set es"
    and "schedule_ntos_work_item e func arg1 arg2 s = (s', r)"
  shows "work_rep s' (es @ [e])" "r = 0" "ntos_work_list s' = ntos_work_list s" "ntos_work s'"
    "work_items s' = (work_items s)(e \<mapsto> \<lparr>wi_func = func, wi_arg1 = arg1, wi_arg2 = arg2\<rparr>)"
proof -
  have s': "s' = s\<lparr>work_heap := fst (InsertTailList (ntos_work_list s) e (work_heap s)),
      work_items := (work_items s)(e \<mapsto> \<lparr>wi_func = func, wi_arg1 = arg1, wi_arg2 = arg2\<rparr>), ntos_work := True\<rparr>" "r = 0"
    using assms(2,5) by (simp_all add: schedule_ntos_work_item_def)
  have "insert e (dom (work_items s)) = set (es @ [e])" using assms(1) by (simp add: work_rep_def)
  then show "work_rep s' (es @ [e])"
    using assms(1-4) ring.rep_ins_tail [of "work_heap s" "ntos_work_list s" es e] unfolding work_rep_def s'(1) by simp
qed (use assms(2,5) in \<open>auto simp: schedule_ntos_work_item_def\<close>)

lemma work_worker_runs:
  assumes "work_rep s es" "\<And>i w t. snd (run i (w, t)) = t"
  shows "\<exists>w' s'. ntos_work_worker run calls (w, s) = Some (calls @ map (\<lambda>e. the (work_items s e)) es, w', s') \<and> work_rep s' []"
  using assms(1)
proof (induction es arbitrary: s calls w)
  case Nil
  then have "RemoveHeadList (ntos_work_list s) (work_heap s) = (work_heap s, NULL)"
    by (simp add: work_rep_def nt_ring_def RemoveHeadList_def Let_def)
  with Nil show ?case by (subst ntos_work_worker.simps) (simp add: work_rep_def)
next
  case (Cons e es)
  obtain h c where hc: "RemoveHeadList (ntos_work_list s) (work_heap s) = (h, c)"
    by (cases "RemoveHeadList (ntos_work_list s) (work_heap s)")
  from Cons.prems have r: "nt_ring (work_heap s) (ntos_work_list s) (e # es)" by (simp add: work_rep_def)
  from ring.rep_deq_head [OF r, of h "opt_of_ptr c"] hc have q: "nt_ring h (ntos_work_list s) es" "c = e" "e \<noteq> NULL"
    by (auto simp: opt_of_ptr_def split: if_splits)
  from Cons.prems obtain it where it: "work_items s e = Some it" by (auto simp: work_rep_def dom_def)
  define s1 where "s1 = s\<lparr>work_heap := h\<rparr>"
  define s2 where "s2 = s1\<lparr>work_items := (work_items s1)(e := None)\<rparr>"
  obtain w1 where w1: "run it (w, s1) = (w1, s1)" using assms(2) [of it w s1] by (metis prod.collapse)
  have "work_rep s2 es" using q Cons.prems r by (auto simp: work_rep_def s2_def s1_def nt_ring_def)
  from Cons.IH [OF this, of "calls @ [it]" w1] obtain w' s' where
    IH: "ntos_work_worker run (calls @ [it]) (w1, s2) = Some (calls @ it # map (\<lambda>e. the (work_items s2 e)) es, w', s')" "work_rep s' []"
    by auto
  have eq: "map (\<lambda>e. the (work_items s2 e)) es = map (\<lambda>e. the (work_items s e)) es"
    using r by (auto simp: s2_def s1_def nt_ring_def)
  have "ntos_work_worker run calls (w, s) = ntos_work_worker run (calls @ [it]) (w1, s2)"
    by (subst ntos_work_worker.simps) (simp add: hc q it s1_def [symmetric] w1 Let_def s2_def)
  with IH it eq show ?case by simp
qed

lemma schedule_all:
  "work_rep s es \<Longrightarrow> distinct (es @ map fst its) \<Longrightarrow> \<forall>(e, it)\<in>set its. e \<noteq> NULL \<and> e \<noteq> ntos_work_list s \<Longrightarrow>
   \<exists>t. fold (\<lambda>(e, it) t. fst (schedule_ntos_work_item e (wi_func it) (wi_arg1 it) (wi_arg2 it) t)) its s = t \<and>
      work_rep t (es @ map fst its) \<and> (\<forall>e it. (e, it) \<in> set its \<longrightarrow> work_items t e = Some it) \<and>
      (\<forall>e\<in>set es. work_items t e = work_items s e)"
proof (induction its arbitrary: s es)
  case Nil
  then show ?case by simp
next
  case (Cons p its)
  obtain e it where p: "p = (e, it)" by (cases p)
  obtain s1 r where s1: "schedule_ntos_work_item e (wi_func it) (wi_arg1 it) (wi_arg2 it) s = (s1, r)"
    by (cases "schedule_ntos_work_item e (wi_func it) (wi_arg1 it) (wi_arg2 it) s")
  have e: "e \<noteq> NULL" "e \<noteq> ntos_work_list s" "e \<notin> set es" using Cons.prems p by auto
  note S = schedule_rep [OF Cons.prems(1) e s1]
  have "distinct ((es @ [e]) @ map fst its)" "\<forall>(e, it)\<in>set its. e \<noteq> NULL \<and> e \<noteq> ntos_work_list s1"
    using Cons.prems(2,3) p S(3) by auto
  from Cons.IH [OF S(1) this] e show ?case using p s1 S(5) by (auto split: if_splits)
qed

text \<open>Work items run in the order in which they were scheduled, each once, and each item's memory is freed:
  scheduling items at fresh addresses succeeds, and the worker then calls their functions in that order with their
  arguments and returns with an empty list and no item allocated.\<close>
theorem work_items_fifo:
  assumes "work_rep s []" "distinct (map fst its)" "\<forall>(e, it)\<in>set its. e \<noteq> NULL \<and> e \<noteq> ntos_work_list s"
    and "\<And>i w t. snd (run i (w, t)) = t"
  shows "\<exists>w' s'. ntos_work_worker run [] (w, fold (\<lambda>(e, it) t. fst (schedule_ntos_work_item e (wi_func it) (wi_arg1 it) (wi_arg2 it) t)) its s)
      = Some (map snd its, w', s') \<and> work_rep s' []"
proof -
  from schedule_all [of s "[]" its] assms(1-3) obtain t where t: "fold (\<lambda>(e, it) t. fst (schedule_ntos_work_item e (wi_func it) (wi_arg1 it) (wi_arg2 it) t)) its s = t"
    "work_rep t (map fst its)" "\<forall>e it. (e, it) \<in> set its \<longrightarrow> work_items t e = Some it" by auto
  have "map (\<lambda>e. the (work_items t e)) (map fst its) = map snd its" using t(3) by auto
  with work_worker_runs [where run = run and calls = "[]" and w = w, OF t(2) assms(4)] t(1) show ?thesis
    by (simp only: append_Nil)
qed

definition work_demo :: work_state where
  "work_demo = \<lparr>work_heap = InitializeListHead 0x100 \<lparr>nxt = (\<lambda>_. 0), prv = (\<lambda>_. 0)\<rparr>, ntos_work_list = 0x100, work_items = Map.empty,
     ntos_work = False\<rparr>"

theorem work_items_fifo_witness:
  "\<exists>w' s'. ntos_work_worker (\<lambda>i ws. ws) [] ((), fst (schedule_ntos_work_item 0x30 3 4 5 (fst (schedule_ntos_work_item 0x20 1 2 3 work_demo)))) =
     Some ([\<lparr>wi_func = 1, wi_arg1 = 2, wi_arg2 = 3\<rparr>, \<lparr>wi_func = 3, wi_arg1 = 4, wi_arg2 = 5\<rparr>], w', s') \<and> work_rep s' []"
proof -
  have "work_rep work_demo []"
    using InitializeListHead_ring [of "0x100" "\<lparr>nxt = (\<lambda>_. 0), prv = (\<lambda>_. 0)\<rparr>"] by (simp add: work_rep_def work_demo_def)
  then show ?thesis
    using work_items_fifo [where s = work_demo and run = "\<lambda>i ws. ws" and w = "()" and
        its = "[(0x20, \<lparr>wi_func = 1, wi_arg1 = 2, wi_arg2 = 3\<rparr>), (0x30, \<lparr>wi_func = 3, wi_arg1 = 4, wi_arg2 = 5\<rparr>)]"]
    by (simp add: work_demo_def)
qed

end
