(* ===== verification/Timer.thy ===== *)
theory Timer
  imports Dispatcher Kdpc
begin

text \<open>
  Kernel timers of \<^verbatim>\<open>ntoskernel.c\<close> and the time conversions of \<^verbatim>\<open>ntoskernel.h\<close>.  An nt_timer embeds a
  dispatcher header, so it is a dispatcher object of \<open>Dispatcher\<close> with two more fields, and it carries a pointer to the
  wrap_timer that holds the Linux timer.  When the Linux timer expires, \<^verbatim>\<open>timer_proc\<close> signals the object, re-arms a periodic
  timer and queues the DPC of \<open>Kdpc\<close>.

  The Linux timer wheel is not part of the program: \<open>'k\<close> is its timer and the record \<open>kernel_timer\<close> its operations, which are
  arguments of the definitions.  \<open>timer_laws\<close> states their documented behaviour: \<^verbatim>\<open>mod_timer\<close> arms the timer and tells whether
  it was pending, \<^verbatim>\<open>del_timer_sync\<close> disarms it.  \<open>HZ\<close>, the tick frequency, is a constant of the kernel configuration.
\<close>

section \<open>Time conversions\<close>

definition TICKSPERSEC :: u64 where "TICKSPERSEC = 10000000"

definition TICKSPERJIFFY :: "u64 \<Rightarrow> u64" where
  "TICKSPERJIFFY HZ = (TICKSPERSEC + HZ - 1) div HZ"

definition int_div_round :: "u64 \<Rightarrow> u64 \<Rightarrow> u64" where
  "int_div_round x y = (x + (y - 1)) div y"

definition ticks_1601 :: "u64 \<Rightarrow> u64 \<Rightarrow> u64 \<Rightarrow> u64" where
  "ticks_1601 HZ wrap_ticks_to_boot jiffies = wrap_ticks_to_boot + jiffies * TICKSPERJIFFY HZ"

text \<open>\<^verbatim>\<open>sys_time\<close> is a signed 64-bit number of ticks of 100 ns, kept as the word of its bits.  The second branch is
  unsigned too: the difference with the u64 clock converts \<^verbatim>\<open>sys_time\<close>.\<close>

definition SYSTEM_TIME_TO_HZ :: "u64 \<Rightarrow> u64 \<Rightarrow> u64 \<Rightarrow> u64" where
  "SYSTEM_TIME_TO_HZ HZ now sys_time =
     (if sint sys_time \<le> 0 then int_div_round (HZ * (- sys_time)) TICKSPERSEC
      else int_div_round (HZ * (sys_time - now)) TICKSPERSEC)"

text \<open>Milliseconds are a LONG and the arithmetic is that of 32-bit ints (which wrap in the kernel's build); the
  result is converted to unsigned long.\<close>

definition MSEC_TO_HZ :: "u64 \<Rightarrow> u32 \<Rightarrow> u64" where
  "MSEC_TO_HZ HZ ms =
     (let x = sint (word_of_int (sint (word_of_int (sint ms * uint HZ) :: u32) + 999) :: u32)
      in word_of_int (if x < 0 then - ((- x) div 1000) else x div 1000))"

section \<open>State\<close>

record 'k kernel_timer =
  timer_setup :: 'k
  mod_timer :: "'k \<Rightarrow> u64 \<Rightarrow> 'k \<times> bool"
  del_timer_sync :: "'k \<Rightarrow> 'k \<times> bool"

record 'k wrap_timer =
  wtm_timer :: 'k
  wtm_nt_timer :: oid
  wtm_repeat :: u64

record nt_timer =
  ntt_wrap_timer :: ptr
  ntt_kdpc :: ptr

record 'k timer_state =
  t_disp :: dstate
  t_dpc :: dpc_state
  nt_timers :: "oid \<Rightarrow> nt_timer option"
  wrap_timers :: "ptr \<Rightarrow> 'k wrap_timer option"
  wrap_timer_slist :: "ptr list"
  wnd_timer_slist :: "ptr \<Rightarrow> ptr list"
  jiffies :: u64
  ticks_to_boot :: u64

section \<open>Operations\<close>

text \<open>\<open>alloc\<close> is the address kzalloc or slack_kzalloc returns, 0 when it fails; \<open>nmb\<close> the adapter whose list takes the
  timer, \<open>None\<close> for the global list.\<close>

definition wrap_init_timer :: "'k kernel_timer \<Rightarrow> ptr \<Rightarrow> oid \<Rightarrow> dh_type \<Rightarrow> ptr option \<Rightarrow> 'k timer_state \<Rightarrow> 'k timer_state" where
  "wrap_init_timer K alloc ob type nmb s =
     (if alloc = NULL then s
      else let s1 = s\<lparr>t_disp := (t_disp s)\<lparr>objs := (objs (t_disp s))(ob := initialize_object type 0)\<rparr>,
                      nt_timers := (nt_timers s)(ob \<mapsto> \<lparr>ntt_wrap_timer = alloc, ntt_kdpc = NULL\<rparr>),
                      wrap_timers := (wrap_timers s)(alloc \<mapsto> \<lparr>wtm_timer = timer_setup K, wtm_nt_timer = ob, wtm_repeat = 0\<rparr>)\<rparr>
           in case nmb of
                None \<Rightarrow> s1\<lparr>wrap_timer_slist := alloc # wrap_timer_slist s1\<rparr>
              | Some n \<Rightarrow> s1\<lparr>wnd_timer_slist := (wnd_timer_slist s1)(n := alloc # wnd_timer_slist s1 n)\<rparr>)"

definition KeInitializeTimerEx :: "'k kernel_timer \<Rightarrow> ptr \<Rightarrow> oid \<Rightarrow> dh_type \<Rightarrow> 'k timer_state \<Rightarrow> 'k timer_state" where
  "KeInitializeTimerEx K alloc ob type s = wrap_init_timer K alloc ob type None s"

definition KeInitializeTimer :: "'k kernel_timer \<Rightarrow> ptr \<Rightarrow> oid \<Rightarrow> 'k timer_state \<Rightarrow> 'k timer_state" where
  "KeInitializeTimer K alloc ob s = wrap_init_timer K alloc ob NotificationObject None s"

definition wrap_set_timer :: "'k kernel_timer \<Rightarrow> oid \<Rightarrow> u64 \<Rightarrow> u64 \<Rightarrow> ptr \<Rightarrow> 'k timer_state \<Rightarrow> ('k timer_state \<times> bool) option" where
  "wrap_set_timer K ob expires_hz repeat_hz kdpc s =
     do { nt \<leftarrow> nt_timers s ob;
          wt \<leftarrow> wrap_timers s (ntt_wrap_timer nt);
          let (k, pending) = mod_timer K (wtm_timer wt) (jiffies s + expires_hz) in
          Some (s\<lparr>t_disp := KeClearEvent ob (t_disp s), nt_timers := (nt_timers s)(ob \<mapsto> nt\<lparr>ntt_kdpc := kdpc\<rparr>),
                  wrap_timers := (wrap_timers s)(ntt_wrap_timer nt \<mapsto> wt\<lparr>wtm_repeat := repeat_hz, wtm_timer := k\<rparr>)\<rparr>, pending) }"

definition KeSetTimerEx :: "'k kernel_timer \<Rightarrow> u64 \<Rightarrow> oid \<Rightarrow> u64 \<Rightarrow> u32 \<Rightarrow> ptr \<Rightarrow> 'k timer_state \<Rightarrow> ('k timer_state \<times> bool) option" where
  "KeSetTimerEx K HZ ob duetime_ticks period_ms kdpc s =
     wrap_set_timer K ob (SYSTEM_TIME_TO_HZ HZ (ticks_1601 HZ (ticks_to_boot s) (jiffies s)) duetime_ticks)
       (MSEC_TO_HZ HZ period_ms) kdpc s"

definition KeSetTimer :: "'k kernel_timer \<Rightarrow> u64 \<Rightarrow> oid \<Rightarrow> u64 \<Rightarrow> ptr \<Rightarrow> 'k timer_state \<Rightarrow> ('k timer_state \<times> bool) option" where
  "KeSetTimer K HZ ob duetime_ticks kdpc s = KeSetTimerEx K HZ ob duetime_ticks 0 kdpc s"

definition KeCancelTimer :: "'k kernel_timer \<Rightarrow> oid \<Rightarrow> 'k timer_state \<Rightarrow> ('k timer_state \<times> bool) option" where
  "KeCancelTimer K ob s =
     do { nt \<leftarrow> nt_timers s ob;
          if ntt_wrap_timer nt = NULL then Some (s, True)
          else do { wt \<leftarrow> wrap_timers s (ntt_wrap_timer nt);
                    let (k, ret) = del_timer_sync K (wtm_timer wt) in
                    Some (s\<lparr>wrap_timers := (wrap_timers s)(ntt_wrap_timer nt \<mapsto> wt\<lparr>wtm_repeat := 0, wtm_timer := k\<rparr>)\<rparr>, ret) } }"

definition KeReadStateTimer :: "oid \<Rightarrow> 'k timer_state \<Rightarrow> bool" where
  "KeReadStateTimer ob s \<longleftrightarrow> signal_state (objs (t_disp s) ob) \<noteq> 0"

text \<open>The function of the Linux timer.\<close>

definition timer_proc :: "'k kernel_timer \<Rightarrow> ptr \<Rightarrow> 'k timer_state \<Rightarrow> 'k timer_state option" where
  "timer_proc K w s =
     do { wt \<leftarrow> wrap_timers s w;
          nt \<leftarrow> nt_timers s (wtm_nt_timer wt);
          (d, old) \<leftarrow> KeSetEvent (wtm_nt_timer wt) (t_disp s);
          let s1 = s\<lparr>t_disp := d\<rparr>;
              s2 = (if wtm_repeat wt \<noteq> 0
                    then s1\<lparr>wrap_timers := (wrap_timers s1)(w \<mapsto> wt\<lparr>wtm_timer := fst (mod_timer K (wtm_timer wt) (jiffies s + wtm_repeat wt))\<rparr>)\<rparr>
                    else s1) in
          if ntt_kdpc nt \<noteq> NULL
          then do { (q, r) \<leftarrow> queue_kdpc (ntt_kdpc nt) (t_dpc s2); Some (s2\<lparr>t_dpc := q\<rparr>) }
          else Some s2 }"


section \<open>Conversions round up\<close>

lemma int_div_round_unat:
  assumes "0 < y" "unat x + unat y \<le> 2 ^ 64"
  shows "unat (int_div_round x y) = (unat x + (unat y - 1)) div unat y"
proof -
  have y: "unat (y - 1) = unat y - 1" using assms(1) by (simp add: unat_minus_one word_greater_zero_iff)
  have "0 < unat y" using assms(1) by (simp add: unat_gt_0 word_greater_zero_iff)
  then have "unat (x + (y - 1)) = unat x + (unat y - 1)"
    using assms(2) y by (subst unat_plus_simple [THEN iffD1]) (auto simp: word_le_nat_alt unat_word_ariths)
  then show ?thesis by (simp add: int_div_round_def unat_div)
qed

lemma div_round_up:
  fixes n d :: nat
  assumes "0 < d"
  shows "n \<le> (n + (d - 1)) div d * d" "(n + (d - 1)) div d * d < n + d"
proof -
  have e: "(n + (d - 1)) div d * d + (n + (d - 1)) mod d = n + (d - 1)" by simp
  have m: "(n + (d - 1)) mod d < d" using assms by simp
  show "n \<le> (n + (d - 1)) div d * d" using e m assms by linarith
  show "(n + (d - 1)) div d * d < n + d" using e assms by linarith
qed

lemma unat_mult_no_overflow: "unat (a :: u64) * unat b < 2 ^ 64 \<Longrightarrow> unat (a * b) = unat a * unat b"
  by (simp add: unat_word_ariths)

lemma unat_uminus64:
  assumes "(x :: u64) \<noteq> 0"
  shows "unat (- x) = 2 ^ 64 - unat x"
proof -
  have "0 < uint x" "uint x < 2 ^ 64"
    using assms uint_bounded [of x] by (simp_all add: word_greater_zero_iff less_le uint_0_iff)
  moreover have "uint (- x) = (- uint x) mod 2 ^ 64" by (simp add: uint_word_ariths)
  ultimately have "uint (- x) = 2 ^ 64 - uint x" by (simp add: zmod_zminus1_eq_if)
  then have "int (unat (- x)) = 2 ^ 64 - int (unat x)" by (simp only: uint_nat)
  then have "int (unat (- x)) = int (2 ^ 64 - unat x)" using unat_bounds(4) [of x] by (simp add: of_nat_diff)
  then show ?thesis by (simp only: of_nat_eq_iff)
qed

lemma ticks_to_hz:
  fixes HZ t :: u64
  assumes "unat HZ * unat t + 10000000 \<le> 2 ^ 64"
  defines "r \<equiv> unat (int_div_round (HZ * t) TICKSPERSEC)"
  shows "unat HZ * unat t \<le> r * 10000000" "r * 10000000 < unat HZ * unat t + 10000000"
proof -
  have "unat (HZ * t) = unat HZ * unat t" using assms(1) by (intro unat_mult_no_overflow) simp
  then have "r = (unat HZ * unat t + (10000000 - 1)) div 10000000"
    unfolding r_def using assms(1) by (subst int_div_round_unat) (simp_all add: TICKSPERSEC_def)
  with div_round_up [of 10000000 "unat HZ * unat t"] show
    "unat HZ * unat t \<le> r * 10000000" "r * 10000000 < unat HZ * unat t + 10000000" by simp_all
qed

text \<open>A due time is converted to clock ticks so that the timer never fires early and less than one tick late:
  for a relative time (negative) of \<open>t\<close> units of 100 ns, and for an absolute time \<open>t\<close> units in the future, the
  result \<open>r\<close> satisfies \<open>HZ t \<le> 10000000 r < HZ t + 10000000\<close>, provided \<open>HZ t\<close> fits 64 bits.\<close>
theorem SYSTEM_TIME_TO_HZ_rounds_up:
  assumes "if sint sys_time \<le> 0 then t = - sys_time else now \<le> sys_time \<and> t = sys_time - now"
    and "unat HZ * unat t + 10000000 \<le> 2 ^ 64"
  shows "unat HZ * unat t \<le> unat (SYSTEM_TIME_TO_HZ HZ now sys_time) * 10000000 \<and>
     unat (SYSTEM_TIME_TO_HZ HZ now sys_time) * 10000000 < unat HZ * unat t + 10000000"
  using assms(1) ticks_to_hz [OF assms(2)] by (auto simp: SYSTEM_TIME_TO_HZ_def split: if_splits)

theorem SYSTEM_TIME_TO_HZ_rounds_up_witness:
  "250 * 40000 \<le> unat (SYSTEM_TIME_TO_HZ 250 0 (- 40000)) * 10000000 \<and>
   unat (SYSTEM_TIME_TO_HZ 250 0 (- 40000)) * 10000000 < 250 * 40000 + 10000000"
  using SYSTEM_TIME_TO_HZ_rounds_up [of "- 40000" 40000 0 250] by simp

text \<open>An absolute due time in the past should give a timer that fires at once.  When it lies more than one tick back, the
  unsigned difference wraps around instead, and the timer is armed for a time at least 1844674407369 ticks away.\<close>

lemma SYSTEM_TIME_TO_HZ_past:
  assumes "0 < sint sys_time" "sys_time < now" "10000000 \<le> unat HZ * unat (now - sys_time)" "unat HZ * unat (now - sys_time) < 10000000000000"
  shows "1844673407369 \<le> unat (SYSTEM_TIME_TO_HZ HZ now sys_time)"
proof -
  let ?d = "now - sys_time"
  have hd: "unat (HZ * ?d) = unat HZ * unat ?d" using assms(4) by (intro unat_mult_no_overflow) simp
  have "HZ * (sys_time - now) = - (HZ * ?d)" by (simp add: algebra_simps)
  moreover have "unat (- (HZ * ?d)) = 2 ^ 64 - unat (HZ * ?d)"
    using hd assms(3) by (intro unat_uminus64) auto
  ultimately have u: "unat (HZ * (sys_time - now)) = 2 ^ 64 - unat HZ * unat ?d" using hd by simp
  have "unat (int_div_round (HZ * (sys_time - now)) TICKSPERSEC) = (2 ^ 64 - unat HZ * unat ?d + 9999999) div 10000000"
    using u assms(3) by (subst int_div_round_unat) (simp_all add: TICKSPERSEC_def)
  moreover have "(2 ^ 64 - 10000000000000 :: nat) div 10000000 \<le> (2 ^ 64 - unat HZ * unat ?d + 9999999) div 10000000"
    using assms(4) by (intro div_le_mono) simp
  ultimately show ?thesis using assms(1) by (simp add: SYSTEM_TIME_TO_HZ_def)
qed


section \<open>Setting, firing and cancelling\<close>

text \<open>The documented behaviour of Linux timers: \<open>due t\<close> is the expiry time of a pending timer.\<close>

definition timer_laws :: "'k kernel_timer \<Rightarrow> ('k \<Rightarrow> u64 option) \<Rightarrow> bool" where
  "timer_laws K due \<longleftrightarrow> due (timer_setup K) = None \<and>
     (\<forall>t e. due (fst (mod_timer K t e)) = Some e \<and> snd (mod_timer K t e) = (due t \<noteq> None)) \<and>
     (\<forall>t. due (fst (del_timer_sync K t)) = None \<and> snd (del_timer_sync K t) = (due t \<noteq> None))"

text \<open>The timer object \<open>ob\<close> and its wrap_timer \<open>w\<close> point at each other.\<close>

definition timer_wf :: "oid \<Rightarrow> ptr \<Rightarrow> 'k timer_state \<Rightarrow> bool" where
  "timer_wf ob w s \<longleftrightarrow> w \<noteq> NULL \<and> (\<exists>nt wt. nt_timers s ob = Some nt \<and> ntt_wrap_timer nt = w \<and> wrap_timers s w = Some wt \<and> wtm_nt_timer wt = ob)"

definition due_at :: "('k \<Rightarrow> u64 option) \<Rightarrow> ptr \<Rightarrow> 'k timer_state \<Rightarrow> u64 option" where
  "due_at due w s = (case wrap_timers s w of None \<Rightarrow> None | Some wt \<Rightarrow> due (wtm_timer wt))"

text \<open>The timer wheel removes the timer \<open>w\<close> at time \<open>j\<close> and is about to call its function; \<open>k\<close> is the timer then.\<close>

definition expired :: "ptr \<Rightarrow> 'k \<Rightarrow> u64 \<Rightarrow> 'k timer_state \<Rightarrow> 'k timer_state" where
  "expired w k j s = s\<lparr>wrap_timers := (wrap_timers s)(w := map_option (\<lambda>wt. wt\<lparr>wtm_timer := k\<rparr>) (wrap_timers s w)), jiffies := j\<rparr>"

lemma wrap_init_timer_wf:
  assumes "timer_laws K due" "alloc \<noteq> NULL"
  shows "timer_wf ob alloc (wrap_init_timer K alloc ob type nmb s)" "due_at due alloc (wrap_init_timer K alloc ob type nmb s) = None"
  using assms by (auto simp: timer_wf_def due_at_def wrap_init_timer_def Let_def timer_laws_def split: option.splits)

lemma wrap_set_timer_spec:
  assumes "timer_laws K due" "timer_wf ob w s"
  shows "\<exists>s'. wrap_set_timer K ob expires_hz repeat_hz kdpc s = Some (s', due_at due w s \<noteq> None) \<and> timer_wf ob w s' \<and>
     due_at due w s' = Some (jiffies s + expires_hz) \<and> t_disp s' = KeClearEvent ob (t_disp s) \<and> t_dpc s' = t_dpc s \<and>
     map_option ntt_kdpc (nt_timers s' ob) = Some kdpc \<and> map_option wtm_repeat (wrap_timers s' w) = Some repeat_hz"
proof -
  obtain nt wt where "nt_timers s ob = Some nt" "ntt_wrap_timer nt = w" "wrap_timers s w = Some wt" "wtm_nt_timer wt = ob" "w \<noteq> NULL"
    using assms(2) by (auto simp: timer_wf_def)
  with assms(1) show ?thesis
    by (simp add: wrap_set_timer_def timer_wf_def timer_laws_def due_at_def Let_def case_prod_unfold)
qed

lemma timer_proc_spec:
  assumes "timer_laws K due" "timer_wf ob w s" "map_option ntt_kdpc (nt_timers s ob) = Some kdpc"
    "map_option wtm_repeat (wrap_timers s w) = Some rep" "KeSetEvent ob (t_disp s) = Some (d, old)"
    "if kdpc = NULL then q = t_dpc s else \<exists>r. queue_kdpc kdpc (t_dpc s) = Some (q, r)"
  shows "\<exists>s'. timer_proc K w s = Some s' \<and> timer_wf ob w s' \<and> t_disp s' = d \<and> t_dpc s' = q \<and>
     due_at due w s' = (if rep = 0 then due_at due w s else Some (jiffies s + rep)) \<and>
     map_option wtm_repeat (wrap_timers s' w) = Some rep \<and> map_option ntt_kdpc (nt_timers s' ob) = Some kdpc"
proof -
  obtain nt wt where "nt_timers s ob = Some nt" "ntt_wrap_timer nt = w" "wrap_timers s w = Some wt" "wtm_nt_timer wt = ob" "w \<noteq> NULL"
    "ntt_kdpc nt = kdpc" "wtm_repeat wt = rep"
    using assms(2-4) by (auto simp: timer_wf_def)
  with assms show ?thesis
    by (cases "rep = 0"; cases "kdpc = NULL") (auto simp: timer_proc_def timer_wf_def timer_laws_def due_at_def Let_def)
qed


lemma KeCancelTimer_spec:
  assumes "timer_laws K due" "timer_wf ob w s"
  shows "\<exists>s'. KeCancelTimer K ob s = Some (s', due_at due w s \<noteq> None) \<and> timer_wf ob w s' \<and> due_at due w s' = None \<and>
     map_option wtm_repeat (wrap_timers s' w) = Some 0 \<and> t_disp s' = t_disp s \<and> t_dpc s' = t_dpc s \<and> nt_timers s' = nt_timers s"
proof -
  obtain nt wt where "nt_timers s ob = Some nt" "ntt_wrap_timer nt = w" "wrap_timers s w = Some wt" "wtm_nt_timer wt = ob" "w \<noteq> NULL"
    using assms(2) by (auto simp: timer_wf_def)
  with assms(1) show ?thesis
    by (simp add: KeCancelTimer_def timer_wf_def timer_laws_def due_at_def Let_def case_prod_unfold)
qed

text \<open>A function of the timer that still runs when KeCancelTimer sets the period to 0 does not arm it again.\<close>

lemma cancelled_stays_cancelled:
  assumes "timer_laws K due" "timer_wf ob w s" "KeCancelTimer K ob s = Some (s', r)" "timer_proc K w s' = Some s''"
  shows "due_at due w s'' = None"
proof -
  from KeCancelTimer_spec [OF assms(1,2)] assms(3) obtain wt nt where s': "wrap_timers s' w = Some wt" "wtm_repeat wt = 0"
    "nt_timers s' (wtm_nt_timer wt) = Some nt" "due (wtm_timer wt) = None"
    by (auto simp: timer_wf_def due_at_def)
  with assms(4) show ?thesis
    by (auto simp: timer_proc_def due_at_def Let_def split: Option.bind_splits if_splits)
qed

text \<open>C13: A timer works, for both kinds of timers and with or without a DPC.  KeSetTimerEx tells whether the timer was already set, clears the timer object and arms it for
  the converted due time.  When it expires at time \<open>j\<close>, a notification timer becomes signalled and wakes every thread that waits for it; a synchronization timer
  wakes the thread that waited first, which takes the signal and leaves the others queued, and becomes signalled when nobody waits.  The DPC is queued if there is one, no DPC is touched
  otherwise, and the timer is armed again for \<open>j\<close> plus the period exactly when there is a period.\<close>
theorem timer_set_and_fire:
  assumes "timer_laws K due" "timer_wf ob w s" and kind: "dh_kind (objs (t_disp s) ob) \<in> {NotificationObject, SynchronizationObject}"
    and "linked (wait_blocks (objs (t_disp s) ob)) (waiters (t_disp s))"
    and dpc: "kdpc = NULL \<or> dpc_rep (t_dpc s) ds \<and> dpc_valid (t_dpc s) kdpc" and "due k = None"
  shows "\<exists>s1 s2. KeSetTimerEx K HZ ob duetime period kdpc s = Some (s1, due_at due w s \<noteq> None) \<and> \<not> KeReadStateTimer ob s1 \<and>
     due_at due w s1 = Some (jiffies s + SYSTEM_TIME_TO_HZ HZ (ticks_1601 HZ (ticks_to_boot s) (jiffies s)) duetime) \<and>
     timer_proc K w (expired w k j s1) = Some s2 \<and>
     (if dh_kind (objs (t_disp s) ob) = NotificationObject
      then KeReadStateTimer ob s2 \<and> wait_blocks (objs (t_disp s2) ob) = [] \<and> (\<forall>b\<in>set (wait_blocks (objs (t_disp s) ob)). woken_by ob b (waiters (t_disp s2)))
      else KeReadStateTimer ob s2 = (wait_blocks (objs (t_disp s) ob) = []) \<and> wait_blocks (objs (t_disp s2) ob) = tl (wait_blocks (objs (t_disp s) ob)) \<and>
        (\<forall>b\<in>set (take 1 (wait_blocks (objs (t_disp s) ob))). woken_by ob b (waiters (t_disp s2)))) \<and>
     (if kdpc = NULL then t_dpc s2 = t_dpc s else is_queued (t_dpc s2) kdpc) \<and>
     due_at due w s2 = (if MSEC_TO_HZ HZ period = 0 then None else Some (j + MSEC_TO_HZ HZ period))"
proof -
  let ?e = "SYSTEM_TIME_TO_HZ HZ (ticks_1601 HZ (ticks_to_boot s) (jiffies s)) duetime"
  let ?p = "MSEC_TO_HZ HZ period"
  from wrap_set_timer_spec [OF assms(1,2), of ?e ?p kdpc] obtain s1 where
    s1: "KeSetTimerEx K HZ ob duetime period kdpc s = Some (s1, due_at due w s \<noteq> None)" "timer_wf ob w s1"
    "due_at due w s1 = Some (jiffies s + ?e)" "t_disp s1 = KeClearEvent ob (t_disp s)" "t_dpc s1 = t_dpc s"
    "map_option ntt_kdpc (nt_timers s1 ob) = Some kdpc" "map_option wtm_repeat (wrap_timers s1 w) = Some ?p"
    unfolding KeSetTimerEx_def by blast
  let ?x = "expired w k j s1"
  have x: "timer_wf ob w ?x" "map_option ntt_kdpc (nt_timers ?x ob) = Some kdpc" "map_option wtm_repeat (wrap_timers ?x w) = Some ?p"
    "t_disp ?x = KeClearEvent ob (t_disp s)" "t_dpc ?x = t_dpc s" "due_at due w ?x = None" "jiffies ?x = j"
    using s1(2-7) assms(6) by (auto simp: expired_def timer_wf_def due_at_def split: option.splits)
  have c: "dh_kind (objs (t_disp ?x) ob) = dh_kind (objs (t_disp s) ob)" "signal_state (objs (t_disp ?x) ob) = 0"
    "wait_blocks (objs (t_disp ?x) ob) = wait_blocks (objs (t_disp s) ob)" "waiters (t_disp ?x) = waiters (t_disp s)"
    using x(4) by (simp_all add: KeClearEvent_def)
  obtain d where d: "KeSetEvent ob (t_disp ?x) = Some (d, 0)"
    "signal_state (objs d ob) = (if dh_kind (objs (t_disp s) ob) = NotificationObject \<or> wait_blocks (objs (t_disp s) ob) = [] then 1 else 0)"
    "wait_blocks (objs d ob) = (if dh_kind (objs (t_disp s) ob) = NotificationObject then [] else tl (wait_blocks (objs (t_disp s) ob)))"
    "\<forall>b\<in>set (if dh_kind (objs (t_disp s) ob) = NotificationObject then wait_blocks (objs (t_disp s) ob) else take 1 (wait_blocks (objs (t_disp s) ob))). woken_by ob b (waiters d)"
    using set_event_fires [of "t_disp ?x" ob] kind assms(4) by (auto simp only: c insert_iff empty_iff)
  obtain q where q: "if kdpc = NULL then q = t_dpc ?x else \<exists>r. queue_kdpc kdpc (t_dpc ?x) = Some (q, r)" "kdpc \<noteq> NULL \<Longrightarrow> is_queued q kdpc"
  proof (cases "kdpc = NULL")
    case False
    then have v: "dpc_rep (t_dpc s) ds" "dpc_valid (t_dpc s) kdpc" using dpc by simp_all
    then obtain kd where "kdpcs (t_dpc s) kdpc = Some kd" by (auto simp: dpc_valid_def)
    from queue_kdpc_rep [OF v this] obtain q r where "queue_kdpc kdpc (t_dpc ?x) = Some (q, r)" "is_queued q kdpc" using x(5) by (auto simp: is_queued_def)
    then show ?thesis using that [of q] False by auto
  qed (use that in simp)
  from timer_proc_spec [OF assms(1) x(1-3) d(1) q(1)] x(6,7) obtain s2 where
    "timer_proc K w ?x = Some s2" "t_disp s2 = d" "t_dpc s2 = q" "due_at due w s2 = (if ?p = 0 then None else Some (j + ?p))" by auto
  then show ?thesis using s1 d(2-4) q x(5) by (auto simp: KeReadStateTimer_def KeClearEvent_def)
qed

definition demo_ktimer :: "u64 option kernel_timer" where
  "demo_ktimer = \<lparr>timer_setup = None, mod_timer = (\<lambda>t e. (Some e, t \<noteq> None)), del_timer_sync = (\<lambda>t. (None, t \<noteq> None))\<rparr>"

definition demo_timer_state :: "u64 option timer_state" where
  "demo_timer_state = wrap_init_timer demo_ktimer 0x500 4 NotificationObject None
     \<lparr>t_disp = \<lparr>objs = (\<lambda>_. KeInitializeEvent NotificationObject False), waiters = (\<lambda>_. None)\<rparr>, t_dpc = dpc_demo1, nt_timers = Map.empty,
      wrap_timers = Map.empty, wrap_timer_slist = [], wnd_timer_slist = (\<lambda>_. []), jiffies = 1000, ticks_to_boot = 0\<rparr>"

lemma demo_timer_laws: "timer_laws demo_ktimer (\<lambda>t. t)"
  by (simp add: timer_laws_def demo_ktimer_def)

lemma dpc_demo1_rep: "dpc_rep dpc_demo1 []" "dpc_valid dpc_demo1 0x300"
proof -
  have "dpc_rep dpc_demo0 []"
    using InitializeListHead_ring [of "0x100" "\<lparr>nxt = (\<lambda>_. 0), prv = (\<lambda>_. 0)\<rparr>"]
    by (simp add: dpc_rep_def dpc_demo0_def is_queued_def)
  then have "dpc_rep (KeInitializeDpc 0x300 0x2000 0x22 dpc_demo0) []"
    by (rule KeInitializeDpc_rep) (simp_all add: dpc_demo0_def is_queued_def dpc_entry_def)
  then show "dpc_rep dpc_demo1 []" unfolding dpc_demo1_def
    by (rule KeInitializeDpc_rep) (simp_all add: KeInitializeDpc_def dpc_demo0_def is_queued_def dpc_entry_def)
  show "dpc_valid dpc_demo1 0x300"
    by (simp add: dpc_valid_def dpc_demo1_def KeInitializeDpc_def dpc_demo0_def dpc_entry_def)
qed

theorem timer_set_and_fire_witness:
  "\<exists>s1 s2. KeSetTimerEx demo_ktimer 250 4 (- 40000) 8 0x300 demo_timer_state = Some (s1, False) \<and>
     timer_proc demo_ktimer 0x500 (expired 0x500 None 1002 s1) = Some s2 \<and> KeReadStateTimer 4 s2 \<and> is_queued (t_dpc s2) 0x300 \<and>
     due_at (\<lambda>t. t) 0x500 s2 = Some 1004"
proof -
  have "timer_wf 4 0x500 demo_timer_state" "due_at (\<lambda>t. t) 0x500 demo_timer_state = None"
    unfolding demo_timer_state_def by (intro wrap_init_timer_wf [OF demo_timer_laws], simp)+
  moreover have "dh_kind (objs (t_disp demo_timer_state) 4) = NotificationObject"
    "linked (wait_blocks (objs (t_disp demo_timer_state) 4)) (waiters (t_disp demo_timer_state))" "t_dpc demo_timer_state = dpc_demo1"
    by (simp_all add: demo_timer_state_def wrap_init_timer_def initialize_object_def linked_def Let_def)
  moreover have "MSEC_TO_HZ 250 8 = 2" by (simp add: MSEC_TO_HZ_def Let_def signed_take_bit_int_eq_self)
  ultimately show ?thesis
    using timer_set_and_fire [OF demo_timer_laws, of 4 "0x500" demo_timer_state "0x300" "[]" None 250 "- 40000" 8 1002] dpc_demo1_rep
    by (auto simp: MSEC_TO_HZ_def)
qed

end
