(* ===== verification/Objects.thy ===== *)
theory Objects
  imports Rtl_String
begin

text \<open>
  The object manager of \<^verbatim>\<open>ntoskernel.c\<close>: common object headers with their reference counts and names, the list of all
  objects, thread objects and their lookup, and the device objects of \<^verbatim>\<open>ntoskernel_io.c\<close> with the device stack.

  An object is named by the address of its body; the header precedes it (\<open>OBJECT_TO_HEADER\<close>), and a handle is the address
  of the header.  \<open>object_list\<close> is the sequence the linked list \<^verbatim>\<open>object_list\<close> denotes; unlinking a header that is not linked, and
  every access to a freed object, is a memory error and gives \<open>None\<close>.  The functions called with \<^verbatim>\<open>ntoskernel_lock\<close> held are atomic
  functions on the state.

  Shown are the invariant of the list (thread objects first, which the lookup relies on), that the shortened lookup of the
  current thread finds it exactly when it exists, that reference counting frees an object at its last reference
  and not before, and what attaching and detaching do to a device stack.
\<close>

section \<open>State\<close>

datatype common_object_type =
    OBJECT_TYPE_NONE | OBJECT_TYPE_DEVICE | OBJECT_TYPE_DRIVER | OBJECT_TYPE_NT_THREAD | OBJECT_TYPE_FILE | OBJECT_TYPE_CALLBACK

record common_object_header =
  oh_type :: common_object_type
  oh_ref_count :: u32
  oh_name :: unicode_string

record nt_thread =
  th_task :: ptr
  th_prio :: int

text \<open>The fields of a device object and of its extension (\<^verbatim>\<open>attached_to\<close>) that the operations below use; \<^verbatim>\<open>stack_count\<close> is a CCHAR.\<close>

record device_object =
  dev_drv_obj :: ptr
  dev_next :: ptr
  dev_attached :: ptr
  dev_attached_to :: ptr
  dev_stack_count :: int

text \<open>\<open>ob_threads\<close> and \<open>ob_devs\<close> are the bodies of the thread and device objects, \<open>drv_dev_obj\<close> the field \<^verbatim>\<open>dev_obj\<close> of the
  driver objects.\<close>

record ob_state =
  object_list :: "ptr list"
  ob_hdrs :: "ptr \<Rightarrow> common_object_header option"
  ob_threads :: "ptr \<Rightarrow> nt_thread option"
  ob_devs :: "ptr \<Rightarrow> device_object option"
  drv_dev_obj :: "ptr \<Rightarrow> ptr"

text \<open>\<^verbatim>\<open>sizeof(struct common_object_header)\<close> with the x86-64 ABI is 48.\<close>

definition OBJECT_TO_HEADER :: "ptr \<Rightarrow> ptr" where "OBJECT_TO_HEADER ob = ob - 48"

definition HEADER_TO_OBJECT :: "ptr \<Rightarrow> ptr" where "HEADER_TO_OBJECT hdr = hdr + 48"

definition no_name :: unicode_string where
  "no_name = \<lparr>u_length = 0, u_max_length = 0, u_buf = None\<rparr>"

section \<open>Headers\<close>

text \<open>The copy of the name into the block \<open>nbuf\<close> from the pool: \<open>Some None\<close> when the allocation failed.\<close>

definition copy_name :: "u16 list option \<Rightarrow> unicode_string option \<Rightarrow> unicode_string option option" where
  "copy_name nbuf name =
     (case name of
        None \<Rightarrow> Some (Some no_name)
      | Some n \<Rightarrow>
          (case nbuf of
             None \<Rightarrow> Some None
           | Some b \<Rightarrow> do { src \<leftarrow> u_buf n;
                            b' \<leftarrow> memcpy16 b 0 src (unat (u_max_length n));
                            Some (Some \<lparr>u_length = u_length n, u_max_length = u_max_length n, u_buf = Some b'\<rparr>) }))"

text \<open>\<open>pool\<close> is the address of the header from the pool, 0 when the allocation failed.  The body is zeroed.\<close>

definition allocate_object :: "ptr \<Rightarrow> u16 list option \<Rightarrow> common_object_type \<Rightarrow> unicode_string option \<Rightarrow> ob_state \<Rightarrow> (ob_state \<times> ptr) option" where
  "allocate_object pool nbuf type name s =
     (if pool = NULL then Some (s, NULL)
      else do { nm \<leftarrow> copy_name nbuf name;
                case nm of
                  None \<Rightarrow> Some (s, NULL)
                | Some n \<Rightarrow>
                    Some (s\<lparr>ob_hdrs := (ob_hdrs s)(pool \<mapsto> \<lparr>oh_type = type, oh_ref_count = 1, oh_name = n\<rparr>),
                            object_list := (if type = OBJECT_TYPE_NT_THREAD then pool # object_list s else object_list s @ [pool])\<rparr>,
                          HEADER_TO_OBJECT pool) })"

definition free_object :: "ptr \<Rightarrow> ob_state \<Rightarrow> ob_state option" where
  "free_object ob s =
     (let hdr = OBJECT_TO_HEADER ob in
      if ob_hdrs s hdr = None \<or> hdr \<notin> set (object_list s) then None
      else Some (s\<lparr>object_list := remove1 hdr (object_list s), ob_hdrs := (ob_hdrs s)(hdr := None),
                   ob_threads := (ob_threads s)(ob := None), ob_devs := (ob_devs s)(ob := None)\<rparr>))"

definition ObfReferenceObject :: "ptr \<Rightarrow> ob_state \<Rightarrow> (ob_state \<times> u32) option" where
  "ObfReferenceObject ob s =
     do { h \<leftarrow> ob_hdrs s (OBJECT_TO_HEADER ob);
          let r = oh_ref_count h + 1 in
          Some (s\<lparr>ob_hdrs := (ob_hdrs s)(OBJECT_TO_HEADER ob \<mapsto> h\<lparr>oh_ref_count := r\<rparr>)\<rparr>, r) }"

definition ObReferenceObjectByHandle :: "ptr \<Rightarrow> ob_state \<Rightarrow> (ob_state \<times> ptr \<times> NTSTATUS) option" where
  "ObReferenceObjectByHandle handle s =
     do { h \<leftarrow> ob_hdrs s handle;
          Some (s\<lparr>ob_hdrs := (ob_hdrs s)(handle \<mapsto> h\<lparr>oh_ref_count := oh_ref_count h + 1\<rparr>)\<rparr>, HEADER_TO_OBJECT handle, STATUS_SUCCESS) }"

text \<open>The result tells whether the object was freed.\<close>

definition dereference_object :: "ptr \<Rightarrow> ob_state \<Rightarrow> (ob_state \<times> bool) option" where
  "dereference_object ob s =
     do { h \<leftarrow> ob_hdrs s (OBJECT_TO_HEADER ob);
          let r = oh_ref_count h - 1;
              s1 = s\<lparr>ob_hdrs := (ob_hdrs s)(OBJECT_TO_HEADER ob \<mapsto> h\<lparr>oh_ref_count := r\<rparr>)\<rparr> in
          if sint r \<le> 0 then do { s2 \<leftarrow> free_object ob s1; Some (s2, True) } else Some (s1, False) }"

definition ObfDereferenceObject :: "ptr \<Rightarrow> ob_state \<Rightarrow> ob_state option" where
  "ObfDereferenceObject ob s = map_option fst (dereference_object ob s)"

section \<open>Threads\<close>

text \<open>The loops over the object list: they stop at the first object that is not a thread.\<close>

fun find_thread :: "ptr \<Rightarrow> ob_state \<Rightarrow> ptr list \<Rightarrow> ptr option" where
  "find_thread task s [] = Some NULL"
| "find_thread task s (hdr # hs) =
     do { h \<leftarrow> ob_hdrs s hdr;
          if oh_type h \<noteq> OBJECT_TYPE_NT_THREAD then Some NULL
          else do { th \<leftarrow> ob_threads s (HEADER_TO_OBJECT hdr);
                    if th_task th = task then Some (HEADER_TO_OBJECT hdr) else find_thread task s hs } }"

definition get_current_nt_thread :: "ptr \<Rightarrow> ob_state \<Rightarrow> ptr option" where
  "get_current_nt_thread current s = find_thread current s (object_list s)"

fun find_task :: "ptr \<Rightarrow> ob_state \<Rightarrow> ptr list \<Rightarrow> ptr option" where
  "find_task thread s [] = Some NULL"
| "find_task thread s (hdr # hs) =
     do { h \<leftarrow> ob_hdrs s hdr;
          if oh_type h \<noteq> OBJECT_TYPE_NT_THREAD then Some NULL
          else if thread = HEADER_TO_OBJECT hdr then map_option th_task (ob_threads s thread)
          else find_task thread s hs }"

definition get_nt_thread_task :: "ptr \<Rightarrow> ob_state \<Rightarrow> ptr option" where
  "get_nt_thread_task thread s = find_task thread s (object_list s)"

text \<open>\<^verbatim>\<open>LOW_PRIORITY\<close> is 0, \<^verbatim>\<open>LOW_REALTIME_PRIORITY\<close> 16.\<close>

definition create_nt_thread :: "ptr \<Rightarrow> ptr \<Rightarrow> ob_state \<Rightarrow> (ob_state \<times> ptr) option" where
  "create_nt_thread pool task s =
     do { (s1, th) \<leftarrow> allocate_object pool None OBJECT_TYPE_NT_THREAD None s;
          if th = NULL then Some (s1, NULL)
          else Some (s1\<lparr>ob_threads := (ob_threads s1)(th \<mapsto> \<lparr>th_task = task, th_prio = 0\<rparr>)\<rparr>, th) }"

text \<open>\<open>kthread\<close> is the task kthread_run returns, \<open>None\<close> its failure; the handle is the address of the header.\<close>

definition PsCreateSystemThread :: "ptr \<Rightarrow> ptr option \<Rightarrow> ob_state \<Rightarrow> (ob_state \<times> ptr \<times> NTSTATUS) option" where
  "PsCreateSystemThread pool kthread s =
     do { (s1, th) \<leftarrow> create_nt_thread pool NULL s;
          if th = NULL then Some (s1, NULL, STATUS_RESOURCES)
          else case kthread of
                 None \<Rightarrow> do { s2 \<leftarrow> free_object th s1; Some (s2, NULL, STATUS_FAILURE) }
               | Some task \<Rightarrow>
                   Some (s1\<lparr>ob_threads := (ob_threads s1)(th \<mapsto> \<lparr>th_task = task, th_prio = 0\<rparr>)\<rparr>, OBJECT_TO_HEADER th, STATUS_SUCCESS) }"

definition KeQueryPriorityThread :: "ptr \<Rightarrow> ptr \<Rightarrow> ob_state \<Rightarrow> int option" where
  "KeQueryPriorityThread current thread s =
     do { th \<leftarrow> (if thread = 0x1f then get_current_nt_thread current s else Some thread);
          if th = NULL then Some 16
          else do { task \<leftarrow> get_nt_thread_task th s;
                    if task = NULL then Some 16 else map_option th_prio (ob_threads s th) } }"

definition KeSetPriorityThread :: "ptr \<Rightarrow> ptr \<Rightarrow> int \<Rightarrow> ob_state \<Rightarrow> (ob_state \<times> int) option" where
  "KeSetPriorityThread current thread prio s =
     do { th \<leftarrow> (if thread = 0x1f then get_current_nt_thread current s else Some thread);
          if th = NULL then Some (s, 16)
          else do { task \<leftarrow> get_nt_thread_task th s;
                    if task = NULL then Some (s, 16)
                    else do { t \<leftarrow> ob_threads s th;
                              Some (s\<lparr>ob_threads := (ob_threads s)(th \<mapsto> t\<lparr>th_prio := prio\<rparr>)\<rparr>, th_prio t) } } }"


section \<open>The invariant of the object list\<close>

definition is_thread :: "ob_state \<Rightarrow> ptr \<Rightarrow> bool" where
  "is_thread s hdr \<longleftrightarrow> (\<exists>h. ob_hdrs s hdr = Some h \<and> oh_type h = OBJECT_TYPE_NT_THREAD)"

fun threads_first :: "(ptr \<Rightarrow> bool) \<Rightarrow> ptr list \<Rightarrow> bool" where
  "threads_first P [] \<longleftrightarrow> True"
| "threads_first P (x # xs) \<longleftrightarrow> (if P x then threads_first P xs else (\<forall>y\<in>set xs. \<not> P y))"

definition ob_inv :: "ob_state \<Rightarrow> bool" where
  "ob_inv s \<longleftrightarrow> distinct (object_list s) \<and> set (object_list s) = dom (ob_hdrs s) \<and> threads_first (is_thread s) (object_list s) \<and>
     (\<forall>hdr h. ob_hdrs s hdr = Some h \<longrightarrow> 0 < sint (oh_ref_count h)) \<and>
     (\<forall>hdr. is_thread s hdr \<longrightarrow> ob_threads s (HEADER_TO_OBJECT hdr) \<noteq> None)"

lemma header_object [simp]: "OBJECT_TO_HEADER (HEADER_TO_OBJECT h) = h" "HEADER_TO_OBJECT (OBJECT_TO_HEADER x) = x"
  by (simp_all add: OBJECT_TO_HEADER_def HEADER_TO_OBJECT_def)

lemma header_object_inject [simp]: "HEADER_TO_OBJECT a = HEADER_TO_OBJECT b \<longleftrightarrow> a = b"
  by (simp add: HEADER_TO_OBJECT_def)

lemma object_header_eq: "HEADER_TO_OBJECT a = b \<longleftrightarrow> a = OBJECT_TO_HEADER b"
  by (metis header_object)

lemma threads_first_cong: "(\<And>x. x \<in> set xs \<Longrightarrow> P x = Q x) \<Longrightarrow> threads_first P xs = threads_first Q xs"
  by (induction xs) auto

lemma threads_first_append: "threads_first P xs \<Longrightarrow> \<not> P y \<Longrightarrow> threads_first P (xs @ [y])"
  by (induction xs) auto

lemma threads_first_none: "\<forall>y\<in>set xs. \<not> P y \<Longrightarrow> threads_first P xs"
  by (induction xs) auto

lemma threads_first_remove1: "threads_first P xs \<Longrightarrow> threads_first P (remove1 y xs)"
proof (induction xs)
  case (Cons x xs)
  have "set (remove1 y xs) \<subseteq> set xs" by (rule set_remove1_subset)
  with Cons show ?case by (auto simp: threads_first_none split: if_splits)
qed simp

lemma threads_first_split: "threads_first P xs \<Longrightarrow> \<exists>ts os. xs = ts @ os \<and> (\<forall>x\<in>set ts. P x) \<and> (\<forall>x\<in>set os. \<not> P x)"
proof (induction xs)
  case (Cons x xs)
  show ?case
  proof (cases "P x")
    case True
    with Cons obtain ts os where "xs = ts @ os" "\<forall>x\<in>set ts. P x" "\<forall>x\<in>set os. \<not> P x" by auto
    with True show ?thesis by (intro exI [of _ "x # ts"] exI [of _ os]) simp
  next
    case False
    with Cons.prems show ?thesis by (intro exI [of _ "[]"] exI [of _ "x # xs"]) simp
  qed
qed simp

lemma ob_inv_upd_hdr:
  assumes "ob_inv s" "ob_hdrs s hdr = Some h" "0 < sint (r :: u32)"
  shows "ob_inv (s\<lparr>ob_hdrs := (ob_hdrs s)(hdr \<mapsto> h\<lparr>oh_ref_count := r\<rparr>)\<rparr>)"
proof -
  let ?s = "s\<lparr>ob_hdrs := (ob_hdrs s)(hdr \<mapsto> h\<lparr>oh_ref_count := r\<rparr>)\<rparr>"
  have "is_thread ?s = is_thread s" using assms(2) by (auto simp: is_thread_def fun_eq_iff)
  moreover have "dom (ob_hdrs ?s) = dom (ob_hdrs s)" using assms(2) by auto
  ultimately show ?thesis using assms(1,3) by (auto simp: ob_inv_def)
qed

lemma allocate_object_inv:
  assumes "ob_inv s" "ob_hdrs s pool = None" "allocate_object pool nbuf type name s = Some (s', ob)" "type \<noteq> OBJECT_TYPE_NT_THREAD"
  shows "ob_inv s'"
proof (cases "s' = s")
  case False
  with assms(3,4) obtain n where s': "s' = s\<lparr>ob_hdrs := (ob_hdrs s)(pool \<mapsto> \<lparr>oh_type = type, oh_ref_count = 1, oh_name = n\<rparr>),
      object_list := object_list s @ [pool]\<rparr>"
    by (auto simp: allocate_object_def split: if_splits Option.bind_splits option.splits)
  have th: "is_thread s' = is_thread s" using assms(2,4) by (auto simp: is_thread_def s' fun_eq_iff)
  have "pool \<notin> set (object_list s)" using assms(1,2) by (auto simp: ob_inv_def)
  moreover have "threads_first (is_thread s) (object_list s @ [pool])"
    using assms(1,2) by (intro threads_first_append) (auto simp: ob_inv_def is_thread_def)
  ultimately show ?thesis using assms(1) unfolding ob_inv_def th by (auto simp: s')
qed (use assms(1) in simp)

lemma create_nt_thread_inv:
  assumes "ob_inv s" "ob_hdrs s pool = None" "create_nt_thread pool task s = Some (s', th)" "HEADER_TO_OBJECT pool \<noteq> NULL"
  shows "ob_inv s'" "pool \<noteq> NULL \<Longrightarrow> th = HEADER_TO_OBJECT pool \<and> is_thread s' pool"
proof -
  show "ob_inv s'"
  proof (cases "pool = NULL")
    case False
    let ?h = "\<lparr>oh_type = OBJECT_TYPE_NT_THREAD, oh_ref_count = 1, oh_name = no_name\<rparr>"
    have s': "s' = s\<lparr>object_list := pool # object_list s, ob_hdrs := (ob_hdrs s)(pool \<mapsto> ?h),
        ob_threads := (ob_threads s)(HEADER_TO_OBJECT pool \<mapsto> \<lparr>th_task = task, th_prio = 0\<rparr>)\<rparr>"
      using assms(3,4) False by (auto simp: create_nt_thread_def allocate_object_def copy_name_def)
    have th: "is_thread s' hdr \<longleftrightarrow> hdr = pool \<or> is_thread s hdr" for hdr using assms(2) by (auto simp: is_thread_def s')
    have "pool \<notin> set (object_list s)" using assms(1,2) by (auto simp: ob_inv_def)
    moreover from this have "threads_first (is_thread s') (object_list s) = threads_first (is_thread s) (object_list s)"
      by (intro threads_first_cong) (auto simp: th)
    ultimately show ?thesis using assms(1) th unfolding ob_inv_def by (auto simp: s')
  qed (use assms in \<open>auto simp: create_nt_thread_def allocate_object_def\<close>)
  show "pool \<noteq> NULL \<Longrightarrow> th = HEADER_TO_OBJECT pool \<and> is_thread s' pool"
    using assms(3,4) by (auto simp: create_nt_thread_def allocate_object_def copy_name_def is_thread_def)
qed

lemma free_object_inv:
  assumes "distinct (object_list s)" "set (object_list s) = dom (ob_hdrs s)" "threads_first (is_thread s) (object_list s)"
    "\<And>hdr h. ob_hdrs s hdr = Some h \<Longrightarrow> hdr \<noteq> OBJECT_TO_HEADER ob \<Longrightarrow> 0 < sint (oh_ref_count h)"
    "\<And>hdr. is_thread s hdr \<Longrightarrow> ob_threads s (HEADER_TO_OBJECT hdr) \<noteq> None" "free_object ob s = Some s'"
  shows "ob_inv s'"
proof -
  let ?x = "OBJECT_TO_HEADER ob"
  have s': "s' = s\<lparr>object_list := remove1 ?x (object_list s), ob_hdrs := (ob_hdrs s)(?x := None),
      ob_threads := (ob_threads s)(ob := None), ob_devs := (ob_devs s)(ob := None)\<rparr>"
    using assms(6) by (auto simp: free_object_def Let_def split: if_splits)
  have th: "is_thread s' hdr \<longleftrightarrow> hdr \<noteq> ?x \<and> is_thread s hdr" for hdr by (auto simp: is_thread_def s')
  have set: "set (remove1 ?x (object_list s)) = dom (ob_hdrs s) - {?x}" using assms(1,2) by simp
  have "threads_first (is_thread s') (remove1 ?x (object_list s)) = threads_first (is_thread s) (remove1 ?x (object_list s))"
    by (intro threads_first_cong) (auto simp: th set)
  moreover have "object_list s' = remove1 ?x (object_list s)" "ob_hdrs s' = (ob_hdrs s)(?x := None)"
    "ob_threads s' = (ob_threads s)(ob := None)" by (simp_all add: s')
  ultimately show ?thesis
    using assms(1-5) set unfolding ob_inv_def th
    by (simp add: threads_first_remove1 distinct_remove1 object_header_eq)
qed

lemma dereference_object_inv:
  assumes "ob_inv s" "dereference_object ob s = Some (s', r)"
  shows "ob_inv s'"
proof -
  from assms(2) obtain h where h: "ob_hdrs s (OBJECT_TO_HEADER ob) = Some h"
    by (auto simp: dereference_object_def split: Option.bind_splits)
  define s1 where "s1 = s\<lparr>ob_hdrs := (ob_hdrs s)(OBJECT_TO_HEADER ob \<mapsto> h\<lparr>oh_ref_count := oh_ref_count h - 1\<rparr>)\<rparr>"
  show ?thesis
  proof (cases "sint (oh_ref_count h - 1) \<le> 0")
    case True
    with assms(2) h have f: "free_object ob s1 = Some s'"
      by (auto simp: dereference_object_def s1_def Let_def split: Option.bind_splits)
    have "is_thread s1 = is_thread s" using h by (auto simp: is_thread_def s1_def fun_eq_iff)
    then show ?thesis
      using assms(1) h by (intro free_object_inv [OF _ _ _ _ _ f]) (auto simp: ob_inv_def s1_def split: if_splits)
  next
    case False
    with assms h ob_inv_upd_hdr [OF assms(1) h, of "oh_ref_count h - 1"] show ?thesis
      by (auto simp: dereference_object_def Let_def)
  qed
qed


section \<open>Reachable object tables\<close>

text \<open>Objects are created at fresh addresses; a reference is taken by someone who holds one, and not more than \<open>2 ^ 31 - 1\<close> times.\<close>

inductive ob_step :: "ob_state \<Rightarrow> ob_state \<Rightarrow> bool" where
  allocate: "ob_hdrs s pool = None \<Longrightarrow> type \<noteq> OBJECT_TYPE_NT_THREAD \<Longrightarrow>
     allocate_object pool nbuf type name s = Some (s', ob) \<Longrightarrow> ob_step s s'"
| thread: "ob_hdrs s pool = None \<Longrightarrow> HEADER_TO_OBJECT pool \<noteq> NULL \<Longrightarrow> create_nt_thread pool task s = Some (s', ob) \<Longrightarrow> ob_step s s'"
| system_thread: "ob_hdrs s pool = None \<Longrightarrow> HEADER_TO_OBJECT pool \<noteq> NULL \<Longrightarrow>
     PsCreateSystemThread pool kthread s = Some (s', h, st) \<Longrightarrow> ob_step s s'"
| reference: "ObfReferenceObject ob s = Some (s', r) \<Longrightarrow> 0 < sint r \<Longrightarrow> ob_step s s'"
| dereference: "dereference_object ob s = Some (s', freed) \<Longrightarrow> ob_step s s'"
| priority: "KeSetPriorityThread current th prio s = Some (s', old) \<Longrightarrow> ob_step s s'"

inductive ob_reachable :: "ob_state \<Rightarrow> bool" where
  start: "object_list s = [] \<Longrightarrow> ob_hdrs s = Map.empty \<Longrightarrow> ob_reachable s"
| step: "ob_reachable s \<Longrightarrow> ob_step s s' \<Longrightarrow> ob_reachable s'"

lemma ob_inv_threads:
  assumes "ob_inv s" "\<And>x. ob_threads s x \<noteq> None \<Longrightarrow> T x \<noteq> None"
  shows "ob_inv (s\<lparr>ob_threads := T\<rparr>)"
proof -
  have "is_thread (s\<lparr>ob_threads := T\<rparr>) = is_thread s" by (simp add: is_thread_def fun_eq_iff)
  with assms show ?thesis by (simp add: ob_inv_def)
qed

lemma system_thread_inv:
  assumes "ob_inv s" "ob_hdrs s pool = None" "HEADER_TO_OBJECT pool \<noteq> NULL" "PsCreateSystemThread pool kthread s = Some (s', h, st)"
  shows "ob_inv s'"
proof -
  from assms(4) obtain s1 th where c: "create_nt_thread pool NULL s = Some (s1, th)"
    by (auto simp: PsCreateSystemThread_def split: Option.bind_splits)
  note i = create_nt_thread_inv(1) [OF assms(1,2) c assms(3)]
  show ?thesis
  proof (cases "th = NULL")
    case True
    with assms(4) c i show ?thesis by (simp add: PsCreateSystemThread_def)
  next
    case False
    show ?thesis
    proof (cases kthread)
      case None
      with assms(4) c False have f: "free_object th s1 = Some s'" by (auto simp: PsCreateSystemThread_def split: Option.bind_splits)
      show ?thesis using i by (intro free_object_inv [OF _ _ _ _ _ f]) (auto simp: ob_inv_def)
    next
      case (Some task)
      with assms(4) c False have "s' = s1\<lparr>ob_threads := (ob_threads s1)(th \<mapsto> \<lparr>th_task = task, th_prio = 0\<rparr>)\<rparr>"
        by (simp add: PsCreateSystemThread_def)
      with i show ?thesis by (auto intro: ob_inv_threads)
    qed
  qed
qed

lemma set_priority_cases:
  assumes "KeSetPriorityThread current th prio s = Some (s', old)"
  shows "s' = s \<or> (\<exists>T t. ob_threads s T = Some t \<and> s' = s\<lparr>ob_threads := (ob_threads s)(T \<mapsto> t\<lparr>th_prio := prio\<rparr>)\<rparr>)"
proof -
  from assms obtain T where T: "(if th = 0x1f then get_current_nt_thread current s else Some th) = Some T"
    by (auto simp: KeSetPriorityThread_def split: Option.bind_splits)
  show ?thesis
  proof (cases "T = NULL \<or> get_nt_thread_task T s = Some NULL")
    case True
    with assms T show ?thesis by (auto simp: KeSetPriorityThread_def split: if_splits)
  next
    case False
    with assms T show ?thesis by (auto simp: KeSetPriorityThread_def split: Option.bind_splits if_splits)
  qed
qed

lemma ob_step_inv: "ob_step s s' \<Longrightarrow> ob_inv s \<Longrightarrow> ob_inv s'"
proof (induction rule: ob_step.induct)
  case (reference ob s s' r)
  then obtain h where "ob_hdrs s (OBJECT_TO_HEADER ob) = Some h" "r = oh_ref_count h + 1"
    "s' = s\<lparr>ob_hdrs := (ob_hdrs s)(OBJECT_TO_HEADER ob \<mapsto> h\<lparr>oh_ref_count := r\<rparr>)\<rparr>"
    by (auto simp: ObfReferenceObject_def Let_def split: Option.bind_splits)
  with reference ob_inv_upd_hdr [of s "OBJECT_TO_HEADER ob" h r] show ?case by simp
next
  case (priority current th prio s s' old)
  from set_priority_cases [OF priority(1)] show ?case
    using priority(2) by (auto intro: ob_inv_threads)
qed (rule allocate_object_inv create_nt_thread_inv(1) system_thread_inv dereference_object_inv, assumption+)+

lemma ob_reachable_inv: "ob_reachable s \<Longrightarrow> ob_inv s"
proof (induction rule: ob_reachable.induct)
  case (start s)
  then show ?case by (simp add: ob_inv_def is_thread_def)
qed (blast intro: ob_step_inv)

section \<open>Looking up the current thread\<close>

text \<open>The reference definition: search the whole list.\<close>

definition thread_of_task :: "ptr \<Rightarrow> ob_state \<Rightarrow> ptr \<Rightarrow> bool" where
  "thread_of_task task s hdr \<longleftrightarrow> is_thread s hdr \<and> (\<exists>th. ob_threads s (HEADER_TO_OBJECT hdr) = Some th \<and> th_task th = task)"

definition search_thread :: "ptr \<Rightarrow> ob_state \<Rightarrow> ptr" where
  "search_thread task s = (case filter (thread_of_task task s) (object_list s) of [] \<Rightarrow> NULL | hdr # _ \<Rightarrow> HEADER_TO_OBJECT hdr)"

lemma find_thread_search:
  assumes "threads_first (is_thread s) hs" "set hs \<subseteq> dom (ob_hdrs s)" "\<And>hdr. is_thread s hdr \<Longrightarrow> ob_threads s (HEADER_TO_OBJECT hdr) \<noteq> None"
  shows "find_thread task s hs = Some (case filter (thread_of_task task s) hs of [] \<Rightarrow> NULL | hdr # _ \<Rightarrow> HEADER_TO_OBJECT hdr)"
  using assms(1,2)
proof (induction hs)
  case (Cons x hs)
  then obtain h where h: "ob_hdrs s x = Some h" by auto
  show ?case
  proof (cases "is_thread s x")
    case True
    then obtain th where "ob_threads s (HEADER_TO_OBJECT x) = Some th" using assms(3) by blast
    with True h Cons show ?thesis by (auto simp: is_thread_def thread_of_task_def)
  next
    case False
    with Cons.prems(1) have "filter (thread_of_task task s) (x # hs) = []" by (auto simp: thread_of_task_def filter_empty_conv)
    with False h show ?thesis by (auto simp: is_thread_def)
  qed
qed simp


section \<open>Properties of the object manager\<close>

text \<open>In every reachable object table the object list holds exactly the allocated objects, each once, every reference
  count is positive, and all thread objects come before all other objects.\<close>
theorem object_list_invariant:
  assumes "ob_reachable s"
  shows "distinct (object_list s) \<and> set (object_list s) = dom (ob_hdrs s) \<and>
     (\<forall>hdr h. ob_hdrs s hdr = Some h \<longrightarrow> 0 < sint (oh_ref_count h)) \<and>
     (\<exists>ts os. object_list s = ts @ os \<and> (\<forall>x\<in>set ts. is_thread s x) \<and> (\<forall>x\<in>set os. \<not> is_thread s x))"
proof -
  from ob_reachable_inv [OF assms] have "ob_inv s" .
  then show ?thesis using threads_first_split [of "is_thread s" "object_list s"] by (simp add: ob_inv_def)
qed

definition ob_demo0 :: ob_state where
  "ob_demo0 = \<lparr>object_list = [], ob_hdrs = Map.empty, ob_threads = Map.empty, ob_devs = Map.empty, drv_dev_obj = (\<lambda>_. 0)\<rparr>"

definition ob_demo1 :: ob_state where
  "ob_demo1 = fst (the (allocate_object 0x1000 None OBJECT_TYPE_DEVICE None ob_demo0))"

definition ob_demo2 :: ob_state where
  "ob_demo2 = fst (the (create_nt_thread 0x2000 0x77 ob_demo1))"

lemmas ob_demo_eval = ob_demo0_def ob_demo1_def ob_demo2_def allocate_object_def create_nt_thread_def copy_name_def no_name_def HEADER_TO_OBJECT_def

lemma ob_demo_reachable: "ob_reachable ob_demo2"
proof -
  have "ob_reachable ob_demo0" by (rule ob_reachable.start) (simp_all add: ob_demo0_def)
  then have "ob_reachable ob_demo1"
    by (rule ob_reachable.step [OF _ ob_step.allocate [of _ "0x1000" OBJECT_TYPE_DEVICE None None _ "0x1030"]]) (simp_all add: ob_demo_eval)
  then show ?thesis
    by (rule ob_reachable.step [OF _ ob_step.thread [of _ "0x2000" "0x77" _ "0x2030"]]) (simp_all add: ob_demo_eval)
qed

theorem object_list_invariant_witness:
  "object_list ob_demo2 = [0x2000, 0x1000] \<and> set (object_list ob_demo2) = dom (ob_hdrs ob_demo2)"
  using object_list_invariant [OF ob_demo_reachable] by (simp add: ob_demo_eval)

text \<open>The lookup of the current thread stops at the first object that is not a thread; it nevertheless gives the same
  result as a search of the whole object list, in every reachable object table, and never faults.\<close>
theorem get_current_nt_thread_complete:
  assumes "ob_reachable s"
  shows "get_current_nt_thread task s = Some (search_thread task s)"
  unfolding get_current_nt_thread_def search_thread_def
  using ob_reachable_inv [OF assms] by (intro find_thread_search) (auto simp: ob_inv_def)

theorem get_current_nt_thread_complete_witness: "get_current_nt_thread 0x77 ob_demo2 = Some 0x2030"
proof -
  have "search_thread 0x77 ob_demo2 = 0x2030"
    by (simp add: search_thread_def thread_of_task_def is_thread_def ob_demo_eval)
  then show ?thesis using get_current_nt_thread_complete [OF ob_demo_reachable, of "0x77"] by simp
qed

section \<open>Reference counting\<close>

text \<open>A history of references (\<open>True\<close>) and dereferences (\<open>False\<close>) of one object, and the number of references it leaves.\<close>

fun run_refs :: "ptr \<Rightarrow> bool list \<Rightarrow> ob_state \<Rightarrow> ob_state option" where
  "run_refs ob [] s = Some s"
| "run_refs ob (True # bs) s = do { (s1, r) \<leftarrow> ObfReferenceObject ob s; run_refs ob bs s1 }"
| "run_refs ob (False # bs) s = do { s1 \<leftarrow> ObfDereferenceObject ob s; run_refs ob bs s1 }"

fun refs_left :: "int \<Rightarrow> bool list \<Rightarrow> int" where
  "refs_left n [] = n"
| "refs_left n (b # bs) = refs_left (if b then n + 1 else n - 1) bs"

fun refs_held :: "int \<Rightarrow> bool list \<Rightarrow> bool" where
  "refs_held n [] \<longleftrightarrow> True"
| "refs_held n (b # bs) \<longleftrightarrow> 0 < (if b then n + 1 else n - 1) \<and> (if b then n + 1 else n - 1) < 2 ^ 31 \<and> refs_held (if b then n + 1 else n - 1) bs"

lemma sint_step:
  assumes "sint (r :: u32) = n" "0 < n" "n < 2 ^ 31"
  shows "n + 1 < 2 ^ 31 \<Longrightarrow> sint (r + 1) = n + 1" "sint (r - 1) = n - 1"
proof -
  have r: "r = word_of_int n" using assms(1) by auto
  have e: "r + 1 = word_of_int (n + 1)" "r - 1 = word_of_int (n - 1)" by (simp_all add: r)
  show "n + 1 < 2 ^ 31 \<Longrightarrow> sint (r + 1) = n + 1" unfolding e(1) using assms(2) by (intro sint_small) auto
  show "sint (r - 1) = n - 1" unfolding e(2) using assms(2,3) by (intro sint_small) auto
qed


definition ref_of :: "ptr \<Rightarrow> ob_state \<Rightarrow> int option" where
  "ref_of ob s = map_option (\<lambda>h. sint (oh_ref_count h)) (ob_hdrs s (OBJECT_TO_HEADER ob))"

lemma reference_step:
  assumes "ref_of ob s = Some n" "0 < n" "n + 1 < 2 ^ 31"
  shows "\<exists>s' r. ObfReferenceObject ob s = Some (s', r) \<and> ref_of ob s' = Some (n + 1) \<and> object_list s' = object_list s"
proof -
  from assms(1) obtain h where "ob_hdrs s (OBJECT_TO_HEADER ob) = Some h" "sint (oh_ref_count h) = n" by (auto simp: ref_of_def)
  with assms(2,3) show ?thesis by (simp add: ObfReferenceObject_def Let_def ref_of_def sint_step(1))
qed

lemma dereference_step:
  assumes "ref_of ob s = Some n" "0 < n" "n < 2 ^ 31" "OBJECT_TO_HEADER ob \<in> set (object_list s)"
  shows "\<exists>s'. ObfDereferenceObject ob s = Some s' \<and>
     (if n = 1 then ref_of ob s' = None \<and> object_list s' = remove1 (OBJECT_TO_HEADER ob) (object_list s)
      else ref_of ob s' = Some (n - 1) \<and> object_list s' = object_list s)"
proof -
  from assms(1) obtain h where h: "ob_hdrs s (OBJECT_TO_HEADER ob) = Some h" "sint (oh_ref_count h) = n" by (auto simp: ref_of_def)
  have "sint (oh_ref_count h - 1) = n - 1" by (rule sint_step(2) [OF h(2) assms(2,3)])
  with h assms(2,4) show ?thesis
    by (auto simp: ObfDereferenceObject_def dereference_object_def free_object_def ref_of_def Let_def)
qed

lemma run_refs_held:
  assumes "ref_of ob s = Some n" "0 < n" "n < 2 ^ 31" "OBJECT_TO_HEADER ob \<in> set (object_list s)" "refs_held n bs"
  shows "\<exists>s'. run_refs ob bs s = Some s' \<and> ref_of ob s' = Some (refs_left n bs) \<and> 0 < refs_left n bs \<and> refs_left n bs < 2 ^ 31 \<and>
     object_list s' = object_list s"
  using assms
proof (induction bs arbitrary: n s)
  case (Cons b bs)
  show ?case
  proof (cases b)
    case True
    with reference_step [OF Cons.prems(1,2)] Cons.prems(5) obtain s1 r where
      s1: "ObfReferenceObject ob s = Some (s1, r)" "ref_of ob s1 = Some (n + 1)" "object_list s1 = object_list s" by auto
    with Cons.IH [of s1 "n + 1"] Cons.prems True show ?thesis by simp
  next
    case False
    with Cons.prems(5) have "n \<noteq> 1" by auto
    with dereference_step [OF Cons.prems(1-4)] obtain s1 where
      s1: "ObfDereferenceObject ob s = Some s1" "ref_of ob s1 = Some (n - 1)" "object_list s1 = object_list s" by auto
    with Cons.IH [of s1 "n - 1"] Cons.prems False show ?thesis by simp
  qed
qed simp

lemma run_refs_append: "run_refs ob (xs @ ys) s = do { s1 \<leftarrow> run_refs ob xs s; run_refs ob ys s1 }"
  by (induction ob xs s rule: run_refs.induct) (auto split: Option.bind_splits)

text \<open>C15: An object lives exactly as long as it is referenced.  After its allocation, and any history of references and
  dereferences in which the count stays positive, the object is still there with that count; the dereference that takes the
  last reference frees it: the header is gone and unlinked from the object list.\<close>
theorem object_freed_at_last_reference:
  assumes "pool \<noteq> NULL" "allocate_object pool nbuf type None s = Some (s1, ob)" "refs_held 1 bs"
  shows "\<exists>s2. run_refs ob bs s1 = Some s2 \<and> ref_of ob s2 = Some (refs_left 1 bs) \<and>
     (refs_left 1 bs = 1 \<longrightarrow> (\<exists>s3. run_refs ob (bs @ [False]) s1 = Some s3 \<and> ref_of ob s3 = None \<and>
        object_list s3 = remove1 pool (object_list s1)))"
proof -
  from assms(1,2) have ob: "ob = HEADER_TO_OBJECT pool" "ref_of ob s1 = Some 1" "pool \<in> set (object_list s1)"
    by (auto simp: allocate_object_def copy_name_def ref_of_def)
  from run_refs_held [OF ob(2) _ _ _ assms(3)] ob obtain s2 where s2: "run_refs ob bs s1 = Some s2" "ref_of ob s2 = Some (refs_left 1 bs)"
    "object_list s2 = object_list s1" "0 < refs_left 1 bs" "refs_left 1 bs < 2 ^ 31" by auto
  moreover have "\<exists>s3. run_refs ob (bs @ [False]) s1 = Some s3 \<and> ref_of ob s3 = None \<and> object_list s3 = remove1 pool (object_list s1)"
    if "refs_left 1 bs = 1"
    using dereference_step [OF s2(2,4,5)] that ob s2 by (auto simp: run_refs_append)
  ultimately show ?thesis by blast
qed

theorem object_freed_at_last_reference_witness:
  "\<exists>s3. run_refs 0x1030 ([True, True, False, False] @ [False]) ob_demo1 = Some s3 \<and> ref_of 0x1030 s3 = None \<and> object_list s3 = []"
proof -
  have "allocate_object 0x1000 None OBJECT_TYPE_DEVICE None ob_demo0 = Some (ob_demo1, 0x1030)" "remove1 0x1000 (object_list ob_demo1) = []"
    by (simp_all add: ob_demo_eval)
  with object_freed_at_last_reference [OF _ this(1), of "[True, True, False, False]"] show ?thesis by auto
qed

end
