(* ===== verification/Device.thy ===== *)
theory Device
  imports Objects Irp
begin

text \<open>
  Device objects of \<^verbatim>\<open>ntoskernel_io.c\<close>: creation and deletion with the list of the devices of a driver, the device stack that
  IoAttachDeviceToDeviceStack and IoDetachDevice maintain through the \<^verbatim>\<open>attached\<close> pointers, driver object extensions, and the lookup
  of a device by name.

  \<open>dev_path link s p ds\<close> says that the devices \<open>ds\<close> are linked by the field \<open>link\<close> from \<open>p\<close> on, ending in the null pointer; the
  walks of the source along such links are \<open>partial_function\<close>s, shown to end on every such path.  Device
  stacks and IRPs meet in \<open>stack_depth_suffices\<close>: the stack count that attaching computes is what IoAllocateIrp
  needs for a packet to travel through all devices of the stack.
\<close>

section \<open>Devices of a driver\<close>

text \<open>\<open>pool\<close> and \<open>nbuf\<close> are the results of the allocations in allocate_object.\<close>

definition IoCreateDevice :: "ptr \<Rightarrow> u16 list option \<Rightarrow> ptr \<Rightarrow> unicode_string option \<Rightarrow> ob_state \<Rightarrow> (ob_state \<times> ptr \<times> NTSTATUS) option" where
  "IoCreateDevice pool nbuf drv_obj dev_name s =
     do { (s1, dev) \<leftarrow> allocate_object pool nbuf OBJECT_TYPE_DEVICE dev_name s;
          if dev = NULL then Some (s1, NULL, STATUS_INSUFFICIENT_RESOURCES)
          else Some (s1\<lparr>ob_devs := (ob_devs s1)(dev \<mapsto> \<lparr>dev_drv_obj = drv_obj, dev_next = drv_dev_obj s1 drv_obj, dev_attached = NULL,
                                   dev_attached_to = NULL, dev_stack_count = 1\<rparr>),
                        drv_dev_obj := (drv_dev_obj s1)(drv_obj := dev)\<rparr>, dev, STATUS_SUCCESS) }"

text \<open>\<^verbatim>\<open>while (prev->next != dev) prev = prev->next\<close>; a null \<open>prev\<close> is a fault.\<close>

partial_function (option) find_prev :: "ob_state \<Rightarrow> ptr \<Rightarrow> ptr \<Rightarrow> ptr option" where
  "find_prev s prev dev =
     (if prev = NULL then None
      else do { p \<leftarrow> ob_devs s prev; if dev_next p = dev then Some prev else find_prev s (dev_next p) dev })"

definition IoDeleteDevice :: "ptr \<Rightarrow> ob_state \<Rightarrow> ob_state option" where
  "IoDeleteDevice dev s =
     (if dev = NULL then Some s
      else do { d \<leftarrow> ob_devs s dev;
                s1 \<leftarrow> (let drv = dev_drv_obj d; prev = drv_dev_obj s drv in
                       if drv = NULL then Some s
                       else if prev = dev then Some (s\<lparr>drv_dev_obj := (drv_dev_obj s)(drv := dev_next d)\<rparr>)
                       else if prev = NULL then Some s
                       else do { q \<leftarrow> find_prev s prev dev; p \<leftarrow> ob_devs s q;
                                 Some (s\<lparr>ob_devs := (ob_devs s)(q \<mapsto> p\<lparr>dev_next := dev_next d\<rparr>)\<rparr>) });
                ObfDereferenceObject dev s1 })"

section \<open>The device stack\<close>

partial_function (option) attached_loop :: "ob_state \<Rightarrow> ptr \<Rightarrow> ptr option" where
  "attached_loop s dev = do { d \<leftarrow> ob_devs s dev; if dev_attached d = NULL then Some dev else attached_loop s (dev_attached d) }"

definition IoGetAttachedDevice :: "ptr \<Rightarrow> ob_state \<Rightarrow> ptr option" where
  "IoGetAttachedDevice dev s = (if dev = NULL then Some NULL else attached_loop s dev)"

definition IoGetAttachedDeviceReference :: "ptr \<Rightarrow> ob_state \<Rightarrow> (ob_state \<times> ptr) option" where
  "IoGetAttachedDeviceReference dev s =
     (if dev = NULL then Some (s, NULL)
      else do { d \<leftarrow> IoGetAttachedDevice dev s; (s1, r) \<leftarrow> ObfReferenceObject d s; Some (s1, d) })"

text \<open>A null target makes the source read \<^verbatim>\<open>attached->stack_count\<close> through the null pointer.\<close>

definition IoAttachDeviceToDeviceStack :: "ptr \<Rightarrow> ptr \<Rightarrow> ob_state \<Rightarrow> (ob_state \<times> ptr) option" where
  "IoAttachDeviceToDeviceStack src tgt s =
     do { att \<leftarrow> IoGetAttachedDevice tgt s;
          if att = NULL then None
          else do { a \<leftarrow> ob_devs s att;
                    let s1 = s\<lparr>ob_devs := (ob_devs s)(att \<mapsto> a\<lparr>dev_attached := src\<rparr>)\<rparr> in
                    do { d \<leftarrow> ob_devs s1 src;
                         Some (s1\<lparr>ob_devs := (ob_devs s1)(src \<mapsto> d\<lparr>dev_attached := NULL,
                                    dev_stack_count := char_add (dev_stack_count a) 1, dev_attached_to := att\<rparr>)\<rparr>, att) } } }"

text \<open>The loop that decrements the stack counts from \<open>tail\<close> upwards.\<close>

partial_function (option) dec_counts :: "ptr \<Rightarrow> ob_state \<Rightarrow> ob_state option" where
  "dec_counts tail s =
     (if tail = NULL then Some s
      else do { d \<leftarrow> ob_devs s tail;
                dec_counts (dev_attached d) (s\<lparr>ob_devs := (ob_devs s)(tail \<mapsto> d\<lparr>dev_stack_count := char_add (dev_stack_count d) (- 1)\<rparr>)\<rparr>) })"

definition IoDetachDevice :: "ptr \<Rightarrow> ob_state \<Rightarrow> ob_state option" where
  "IoDetachDevice tgt s =
     (if tgt = NULL then Some s
      else do { t \<leftarrow> ob_devs s tgt;
                if dev_attached t = NULL then Some s
                else do { a \<leftarrow> ob_devs s (dev_attached t);
                          dec_counts (dev_attached t) (s\<lparr>ob_devs := (ob_devs s)(tgt \<mapsto> t\<lparr>dev_attached := dev_attached a\<rparr>)\<rparr>) } })"

section \<open>Driver object extensions\<close>

text \<open>The list \<^verbatim>\<open>custom_ext\<close> of every driver object, as the addresses of its entries with their client ids; the memory behind
  the entry, at offset 24, is the extension.\<close>

type_synonym ext_state = "ptr \<Rightarrow> (ptr \<times> ptr) list"

definition IoAllocateDriverObjectExtension :: "ptr \<Rightarrow> ptr \<Rightarrow> ptr \<Rightarrow> ext_state \<Rightarrow> ext_state \<times> ptr option \<times> NTSTATUS" where
  "IoAllocateDriverObjectExtension kmalloc drv_obj client_id e =
     (if kmalloc = NULL then (e, None, STATUS_INSUFFICIENT_RESOURCES)
      else (e(drv_obj := e drv_obj @ [(kmalloc, client_id)]), Some (kmalloc + 24), STATUS_SUCCESS))"

definition IoGetDriverObjectExtension :: "ptr \<Rightarrow> ptr \<Rightarrow> ext_state \<Rightarrow> ptr" where
  "IoGetDriverObjectExtension drv_obj client_id e =
     (case filter (\<lambda>x. snd x = client_id) (e drv_obj) of [] \<Rightarrow> NULL | x # _ \<Rightarrow> fst x + 24)"

text \<open>The entries freed, in order.\<close>

definition free_custom_extensions :: "ptr \<Rightarrow> ext_state \<Rightarrow> ext_state \<times> ptr list" where
  "free_custom_extensions drv e = (e(drv := []), map fst (e drv))"

section \<open>Lookup by name\<close>

fun find_device :: "(u8 \<Rightarrow> u8) \<Rightarrow> unicode_string \<Rightarrow> ob_state \<Rightarrow> ptr list \<Rightarrow> ptr option" where
  "find_device toupper name s [] = Some NULL"
| "find_device toupper name s (hdr # hs) =
     do { h \<leftarrow> ob_hdrs s hdr;
          if oh_type h \<noteq> OBJECT_TYPE_DEVICE then find_device toupper name s hs
          else do { c \<leftarrow> RtlCompareUnicodeString toupper (oh_name h) name True;
                    if c = 0 then Some (HEADER_TO_OBJECT hdr) else find_device toupper name s hs } }"

text \<open>The device found is assigned to the parameter \<^verbatim>\<open>dev_obj\<close>, which is passed by value: the caller gets the status only.\<close>

definition IoGetDeviceObjectPointer :: "(u8 \<Rightarrow> u8) \<Rightarrow> unicode_string \<Rightarrow> ob_state \<Rightarrow> NTSTATUS option" where
  "IoGetDeviceObjectPointer toupper name s =
     do { dev \<leftarrow> find_device toupper name s (object_list s);
          Some (if dev \<noteq> NULL then STATUS_SUCCESS else 0xC0000023) }"

section \<open>Paths\<close>

fun dev_path :: "(device_object \<Rightarrow> ptr) \<Rightarrow> ob_state \<Rightarrow> ptr \<Rightarrow> ptr list \<Rightarrow> bool" where
  "dev_path link s p [] \<longleftrightarrow> p = NULL"
| "dev_path link s p (d # ds) \<longleftrightarrow> p = d \<and> d \<noteq> NULL \<and> (\<exists>x. ob_devs s d = Some x \<and> dev_path link s (link x) ds)"


lemma dev_path_upd: "q \<notin> set ds \<Longrightarrow> dev_path link (s\<lparr>ob_devs := (ob_devs s)(q := v)\<rparr>) p ds = dev_path link s p ds"
  by (induction ds arbitrary: p) auto

lemma dev_path_nonnull: "dev_path link s p ds \<Longrightarrow> NULL \<notin> set ds"
  by (induction ds arbitrary: p) auto

lemma dev_path_link_cong: "(\<And>d. d \<in> set ds \<Longrightarrow> map_option link (ob_devs s' d) = map_option link (ob_devs s d)) \<Longrightarrow>
    dev_path link s' p ds = dev_path link s p ds"
proof (induction ds arbitrary: p)
  case (Cons d ds)
  then show ?case using Cons.prems [of d] by (cases "ob_devs s' d"; cases "ob_devs s d") auto
qed simp

lemma dev_path_cong: "(\<And>d. d \<in> set ds \<Longrightarrow> ob_devs s' d = ob_devs s d) \<Longrightarrow> dev_path link s' p ds = dev_path link s p ds"
  by (induction ds arbitrary: p) auto

text \<open>A path whose devices carry the stack counts \<open>c\<close>, \<open>c + 1\<close>, ...\<close>

fun dev_counts :: "ob_state \<Rightarrow> int \<Rightarrow> ptr list \<Rightarrow> bool" where
  "dev_counts s c [] \<longleftrightarrow> True"
| "dev_counts s c (d # ds) \<longleftrightarrow> (\<exists>x. ob_devs s d = Some x \<and> dev_stack_count x = c) \<and> dev_counts s (c + 1) ds"

definition dev_stack :: "ob_state \<Rightarrow> ptr list \<Rightarrow> bool" where
  "dev_stack s ds \<longleftrightarrow> ds \<noteq> [] \<and> length ds < 127 \<and> distinct ds \<and> dev_path dev_attached s (hd ds) ds \<and> dev_counts s 1 ds"

lemma dev_counts_cong: "(\<And>d. d \<in> set ds \<Longrightarrow> map_option dev_stack_count (ob_devs s' d) = map_option dev_stack_count (ob_devs s d)) \<Longrightarrow>
    dev_counts s' c ds = dev_counts s c ds"
proof (induction ds arbitrary: c)
  case (Cons d ds)
  have "(\<exists>x. ob_devs s' d = Some x \<and> dev_stack_count x = c) = (\<exists>x. ob_devs s d = Some x \<and> dev_stack_count x = c)"
    using Cons.prems [of d] by (cases "ob_devs s' d"; cases "ob_devs s d") auto
  with Cons show ?case by simp
qed simp

lemma dev_counts_append: "dev_counts s c (xs @ ys) \<longleftrightarrow> dev_counts s c xs \<and> dev_counts s (c + int (length xs)) ys"
  by (induction xs arbitrary: c) (auto simp: algebra_simps)

lemma dev_path_append: "dev_path link s p (xs @ ys) \<Longrightarrow>
    \<exists>q. dev_path link s q ys \<and> (xs \<noteq> [] \<longrightarrow> (\<exists>x. ob_devs s (last xs) = Some x \<and> link x = q)) \<and> (xs = [] \<longrightarrow> q = p)"
  by (induction xs arbitrary: p) fastforce+

lemma attached_loop_path: "dev_path dev_attached s p ds \<Longrightarrow> ds \<noteq> [] \<Longrightarrow> attached_loop s p = Some (last ds)"
proof (induction ds arbitrary: p)
  case (Cons d ds)
  then obtain x where x: "ob_devs s d = Some x" "dev_path dev_attached s (dev_attached x) ds" "p = d" by auto
  show ?case
  proof (cases ds)
    case Nil
    with x show ?thesis by (subst attached_loop.simps) simp
  next
    case (Cons e es)
    with x have "dev_attached x \<noteq> NULL" by auto
    with x Cons Cons.IH [OF x(2)] show ?thesis by (subst attached_loop.simps) simp
  qed
qed simp

text \<open>Re-targeting the last link of a path.\<close>

lemma dev_path_extend:
  assumes "dev_path dev_attached s p ds" "ds \<noteq> []" "distinct ds" "ob_devs s (last ds) = Some a" "src \<notin> set ds" "src \<noteq> NULL"
    "ob_devs s' (last ds) = Some (a\<lparr>dev_attached := src\<rparr>)" "\<And>d. d \<in> set ds \<Longrightarrow> d \<noteq> last ds \<Longrightarrow> ob_devs s' d = ob_devs s d"
    "ob_devs s' src = Some x" "dev_attached x = NULL"
  shows "dev_path dev_attached s' p (ds @ [src])"
  using assms
proof (induction ds arbitrary: p)
  case (Cons d ds)
  show ?case
  proof (cases ds)
    case Nil
    with Cons.prems show ?thesis by auto
  next
    case (Cons e es)
    then have "d \<noteq> last ds" using Cons.prems(3) by auto
    with Cons.prems Cons Cons.IH show ?thesis by auto
  qed
qed simp

lemma attach_stack:
  assumes "dev_stack s ds" "length ds < 126" "src \<notin> set ds" "src \<noteq> NULL" "ob_devs s src = Some x" "tgt \<in> set ds"
  shows "\<exists>s'. IoAttachDeviceToDeviceStack src tgt s = Some (s', last ds) \<and> dev_stack s' (ds @ [src]) \<and>
     map_option dev_attached_to (ob_devs s' src) = Some (last ds)"
proof -
  from assms(1) have ds: "ds \<noteq> []" "distinct ds" "dev_path dev_attached s (hd ds) ds" "dev_counts s 1 ds" by (auto simp: dev_stack_def)
  from assms(6) obtain us vs where uv: "ds = us @ tgt # vs" by (auto dest: split_list)
  from dev_path_append [of dev_attached s "hd ds" us "tgt # vs"] ds(3) uv have "dev_path dev_attached s tgt (tgt # vs)" by auto
  from attached_loop_path [OF this] have top: "attached_loop s tgt = Some (last ds)" by (simp add: uv)
  have "last ds \<in> set ds" using ds(1) by simp
  moreover have nz: "NULL \<notin> set ds" using ds(3) by (rule dev_path_nonnull)
  ultimately have lz: "last ds \<noteq> NULL" by auto
  from ds(1,4) have "dev_counts s (int (length ds)) [last ds]"
    using dev_counts_append [of s 1 "butlast ds" "[last ds]"] by (simp add: of_nat_diff Suc_leI)
  then obtain a where a: "ob_devs s (last ds) = Some a" "dev_stack_count a = int (length ds)" by auto
  let ?x = "x\<lparr>dev_attached := NULL, dev_stack_count := int (length ds) + 1, dev_attached_to := last ds\<rparr>"
  define s' where "s' = s\<lparr>ob_devs := (ob_devs s)(last ds \<mapsto> a\<lparr>dev_attached := src\<rparr>, src \<mapsto> ?x)\<rparr>"
  have sl: "src \<noteq> last ds" using assms(3) ds(1) by auto
  have run: "IoAttachDeviceToDeviceStack src tgt s = Some (s', last ds)"
    using top lz a assms(2,5,6) sl nz by (auto simp: IoAttachDeviceToDeviceStack_def IoGetAttachedDevice_def Let_def char_add_small s'_def)
  have s': "ob_devs s' (last ds) = Some (a\<lparr>dev_attached := src\<rparr>)" "ob_devs s' src = Some ?x"
    "\<And>d. d \<in> set ds \<Longrightarrow> d \<noteq> last ds \<Longrightarrow> ob_devs s' d = ob_devs s d"
    using sl assms(3) by (auto simp: s'_def)
  have "dev_path dev_attached s' (hd ds) (ds @ [src])"
    by (rule dev_path_extend [OF ds(3,1,2) a(1) assms(3,4) s'(1,3,2)]) simp_all
  moreover have "dev_counts s' 1 ds = dev_counts s 1 ds"
    using s' a assms(3) by (intro dev_counts_cong) (metis option.map(2) device_object.select_convs(5) device_object.update_convs(3) device_object.surjective)
  ultimately have "dev_stack s' (ds @ [src])"
    using ds assms(2,3) s'(2) by (simp add: dev_stack_def dev_counts_append)
  with run s'(2) show ?thesis by simp
qed


lemma dec_counts_path:
  "dev_path dev_attached s p ds \<Longrightarrow> distinct ds \<Longrightarrow>
   \<exists>s'. dec_counts p s = Some s' \<and> (\<forall>d. ob_devs s' d = (if d \<in> set ds
      then map_option (\<lambda>x. x\<lparr>dev_stack_count := char_add (dev_stack_count x) (- 1)\<rparr>) (ob_devs s d) else ob_devs s d))"
proof (induction ds arbitrary: p s)
  case Nil
  then show ?case by (subst dec_counts.simps) simp
next
  case (Cons d ds)
  then obtain x where x: "ob_devs s d = Some x" "dev_path dev_attached s (dev_attached x) ds" "p = d" "d \<noteq> NULL" "d \<notin> set ds" by auto
  define s1 where "s1 = s\<lparr>ob_devs := (ob_devs s)(d \<mapsto> x\<lparr>dev_stack_count := char_add (dev_stack_count x) (- 1)\<rparr>)\<rparr>"
  have "dev_path dev_attached s1 (dev_attached x) ds" using x(2,5) by (simp add: s1_def dev_path_upd)
  from Cons.IH [OF this] Cons.prems(2) obtain s' where s': "dec_counts (dev_attached x) s1 = Some s'"
    "\<forall>e. ob_devs s' e = (if e \<in> set ds then map_option (\<lambda>x. x\<lparr>dev_stack_count := char_add (dev_stack_count x) (- 1)\<rparr>) (ob_devs s1 e)
      else ob_devs s1 e)" by auto
  have "dec_counts p s = Some s'" using x s'(1) by (subst dec_counts.simps) (simp add: s1_def)
  moreover have "ob_devs s' e = (if e \<in> set (d # ds)
      then map_option (\<lambda>x. x\<lparr>dev_stack_count := char_add (dev_stack_count x) (- 1)\<rparr>) (ob_devs s e) else ob_devs s e)" for e
    using s'(2) x by (auto simp: s1_def)
  ultimately show ?case by blast
qed

lemma dev_path_skip:
  assumes "dev_path dev_attached s p (us @ tgt # a # vs)" "distinct (us @ tgt # a # vs)" "ob_devs s a = Some y"
    "map_option dev_attached (ob_devs s' tgt) = Some (dev_attached y)"
    "\<And>d. d \<noteq> tgt \<Longrightarrow> map_option dev_attached (ob_devs s' d) = map_option dev_attached (ob_devs s d)"
  shows "dev_path dev_attached s' p (us @ tgt # vs)"
  using assms(1,2)
proof (induction us arbitrary: p)
  case Nil
  have "dev_path dev_attached s' (dev_attached y) vs = dev_path dev_attached s (dev_attached y) vs"
    using Nil.prems(2) by (intro dev_path_link_cong assms(5)) auto
  with Nil assms(3,4) show ?case by auto
next
  case (Cons u us)
  then obtain x where "ob_devs s u = Some x" "dev_path dev_attached s (dev_attached x) (us @ tgt # a # vs)" "p = u" "u \<noteq> NULL" "u \<noteq> tgt" by auto
  with Cons.IH [of "dev_attached x"] Cons.prems(2) assms(5) [of u] show ?case by auto
qed

lemma dev_counts_shift:
  assumes "\<And>d. d \<in> set ds \<Longrightarrow> map_option dev_stack_count (ob_devs s' d) = map_option (\<lambda>x. char_add (dev_stack_count x) (- 1)) (ob_devs s d)"
  shows "dev_counts s c ds \<Longrightarrow> - 100 < c \<Longrightarrow> c + int (length ds) \<le> 128 \<Longrightarrow> dev_counts s' (c - 1) ds"
  using assms
proof (induction ds arbitrary: c)
  case (Cons d ds)
  then obtain x where x: "ob_devs s d = Some x" "dev_stack_count x = c" by auto
  with Cons.prems(4) [of d] Cons.prems(2,3) have "\<exists>y. ob_devs s' d = Some y \<and> dev_stack_count y = c - 1"
    by (auto simp: char_add_small)
  moreover have "dev_counts s' (c + 1 - 1) ds" using Cons.prems by (intro Cons.IH) auto
  ultimately show ?case by simp
qed simp

lemma detach_stack:
  assumes "dev_stack s (us @ tgt # a # vs)"
  shows "\<exists>s'. IoDetachDevice tgt s = Some s' \<and> dev_stack s' (us @ tgt # vs)"
proof -
  let ?ds = "us @ tgt # a # vs"
  from assms have ds: "distinct ?ds" "dev_path dev_attached s (hd ?ds) ?ds" "dev_counts s 1 ?ds" "length ?ds < 127" by (auto simp: dev_stack_def)
  from dev_path_append [OF ds(2)] obtain q where "dev_path dev_attached s q (tgt # a # vs)" by auto
  then obtain t y where ty: "ob_devs s tgt = Some t" "dev_attached t = a" "tgt \<noteq> NULL" "a \<noteq> NULL" "ob_devs s a = Some y"
    "dev_path dev_attached s a (a # vs)" by auto
  define s1 where "s1 = s\<lparr>ob_devs := (ob_devs s)(tgt \<mapsto> t\<lparr>dev_attached := dev_attached y\<rparr>)\<rparr>"
  have "dev_path dev_attached s1 a (a # vs)" using ty(6) ds(1) unfolding s1_def by (subst dev_path_upd) auto
  from dec_counts_path [OF this] ds(1) obtain s' where s': "dec_counts a s1 = Some s'"
    "\<And>d. ob_devs s' d = (if d \<in> set (a # vs) then map_option (\<lambda>x. x\<lparr>dev_stack_count := char_add (dev_stack_count x) (- 1)\<rparr>) (ob_devs s1 d)
      else ob_devs s1 d)" by auto
  have run: "IoDetachDevice tgt s = Some s'" using ty s'(1) by (simp add: IoDetachDevice_def s1_def)
  have "dev_path dev_attached s' (hd ?ds) (us @ tgt # vs)"
    using ds(1) ty by (intro dev_path_skip [OF ds(2,1) ty(5)]) (auto simp: s'(2) s1_def option.map_comp comp_def)
  moreover have "dev_counts s' 1 (us @ [tgt]) = dev_counts s 1 (us @ [tgt])"
    using ds(1) ty(1) by (intro dev_counts_cong) (auto simp: s'(2) s1_def)
  moreover have "dev_counts s' (int (length us) + 3 - 1) vs"
    using ds by (intro dev_counts_shift [of vs s' s]) (auto simp: s'(2) s1_def option.map_comp comp_def dev_counts_append algebra_simps)
  ultimately have "dev_stack s' (us @ tgt # vs)"
    using ds unfolding dev_stack_def by (cases us) (auto simp: dev_counts_append algebra_simps)
  with run show ?thesis by blast
qed


section \<open>The devices of a driver\<close>

lemma find_prev_path:
  "dev_path dev_next s p (us @ q # d # vs) \<Longrightarrow> distinct (us @ q # d # vs) \<Longrightarrow> find_prev s p d = Some q"
proof (induction us arbitrary: p)
  case Nil
  then show ?case by (subst find_prev.simps) auto
next
  case (Cons u us)
  then obtain x where x: "ob_devs s u = Some x" "dev_path dev_next s (dev_next x) (us @ q # d # vs)" "p = u" "u \<noteq> NULL" by auto
  have "dev_next x \<noteq> d" using x(2) Cons.prems(2) by (cases us) auto
  with x Cons.IH [OF x(2)] Cons.prems(2) show ?case by (subst find_prev.simps) auto
qed

lemma dev_path_unlink:
  assumes "dev_path dev_next s p (us @ q # d # vs)" "distinct (us @ q # d # vs)" "ob_devs s q = Some x" "ob_devs s d = Some y"
    and s': "s' = s\<lparr>ob_devs := (ob_devs s)(q \<mapsto> x\<lparr>dev_next := dev_next y\<rparr>)\<rparr>"
  shows "dev_path dev_next s' p (us @ q # vs)"
  using assms(1,2)
proof (induction us arbitrary: p)
  case Nil
  then have "dev_path dev_next s (dev_next y) vs" "q \<notin> set vs" "p = q" "q \<noteq> NULL" using assms(3,4) by auto
  then have "dev_path dev_next s' (dev_next y) vs" unfolding s' by (simp add: dev_path_upd)
  moreover have "ob_devs s' q = Some (x\<lparr>dev_next := dev_next y\<rparr>)" by (simp add: s')
  ultimately show ?case using \<open>p = q\<close> \<open>q \<noteq> NULL\<close> by simp
next
  case (Cons u us)
  then have "ob_devs s' u = ob_devs s u" by (auto simp: s')
  with Cons show ?case by auto
qed

lemma deref_devs:
  assumes "ObfDereferenceObject dev s = Some s'"
  shows "d \<noteq> dev \<Longrightarrow> ob_devs s' d = ob_devs s d" "drv_dev_obj s' = drv_dev_obj s"
  using assms by (auto simp: ObfDereferenceObject_def dereference_object_def free_object_def Let_def split: Option.bind_splits if_splits)

text \<open>Unlinking a device from the list of its driver, before it is dereferenced.\<close>

lemma delete_device_list:
  assumes "dev_path dev_next s (drv_dev_obj s drv) ds" "distinct ds" "drv \<noteq> NULL" "dev \<in> set ds"
    "map_option dev_drv_obj (ob_devs s dev) = Some drv" "IoDeleteDevice dev s = Some s'"
  shows "dev_path dev_next s' (drv_dev_obj s' drv) (remove1 dev ds)"
proof -
  have nz: "dev \<noteq> NULL" using dev_path_nonnull [OF assms(1)] assms(4) by auto
  from assms(5) obtain d where d: "ob_devs s dev = Some d" "dev_drv_obj d = drv" by auto
  from assms(4) obtain us vs where uv: "ds = us @ dev # vs" "dev \<notin> set us" by (auto dest: split_list_first)
  have rem: "remove1 dev ds = us @ vs" using uv by (simp add: remove1_append)
  have fin: "dev_path dev_next s' (drv_dev_obj s' drv) (us @ vs)"
    if "ObfDereferenceObject dev s1 = Some s'" "dev_path dev_next s1 (drv_dev_obj s1 drv) (us @ vs)" for s1
  proof -
    have "dev \<notin> set (us @ vs)" using assms(2) uv by auto
    then have "\<And>d. d \<in> set (us @ vs) \<Longrightarrow> ob_devs s' d = ob_devs s1 d" using deref_devs(1) [OF that(1)] by metis
    then show ?thesis using dev_path_cong [of "us @ vs" s' s1] that deref_devs(2) [OF that(1)] by simp
  qed
  show ?thesis
  proof (cases us rule: rev_cases)
    case Nil
    with assms(1) uv d have "drv_dev_obj s drv = dev" "dev_path dev_next s (dev_next d) vs" by auto
    moreover define s1 where "s1 = s\<lparr>drv_dev_obj := (drv_dev_obj s)(drv := dev_next d)\<rparr>"
    ultimately have "ObfDereferenceObject dev s1 = Some s'" "dev_path dev_next s1 (drv_dev_obj s1 drv) (us @ vs)"
      using assms(3,6) nz d Nil dev_path_cong [of vs s1 s] by (auto simp: IoDeleteDevice_def Let_def)
    then show ?thesis unfolding rem by (rule fin)
  next
    case (snoc ws q)
    have path: "dev_path dev_next s (drv_dev_obj s drv) (ws @ q # dev # vs)" "distinct (ws @ q # dev # vs)"
      using assms(1,2) uv snoc by simp_all
    note prev = find_prev_path [OF path]
    from dev_path_append [of dev_next s _ ws "q # dev # vs"] path(1) obtain x where x: "ob_devs s q = Some x" by auto
    have "drv_dev_obj s drv \<noteq> dev" "drv_dev_obj s drv \<noteq> NULL" using path by (cases ws; auto)+
    with assms(3,6) nz d prev x have "ObfDereferenceObject dev (s\<lparr>ob_devs := (ob_devs s)(q \<mapsto> x\<lparr>dev_next := dev_next d\<rparr>)\<rparr>) = Some s'"
      by (auto simp: IoDeleteDevice_def Let_def)
    then show ?thesis unfolding rem using dev_path_unlink [OF path x d(1) refl] snoc by (intro fin) auto
  qed
qed

lemma create_device_list:
  assumes "dev_path dev_next s (drv_dev_obj s drv) ds" "HEADER_TO_OBJECT pool \<noteq> NULL" "pool \<noteq> NULL" "HEADER_TO_OBJECT pool \<notin> set ds"
    "IoCreateDevice pool nbuf drv None s = Some (s', dev, st)"
  shows "st = STATUS_SUCCESS \<and> dev = HEADER_TO_OBJECT pool \<and> dev_path dev_next s' (drv_dev_obj s' drv) (dev # ds)"
proof -
  let ?d = "HEADER_TO_OBJECT pool"
  have "s' = s\<lparr>object_list := object_list s @ [pool],
      ob_hdrs := (ob_hdrs s)(pool \<mapsto> \<lparr>oh_type = OBJECT_TYPE_DEVICE, oh_ref_count = 1, oh_name = no_name\<rparr>),
      ob_devs := (ob_devs s)(?d \<mapsto> \<lparr>dev_drv_obj = drv, dev_next = drv_dev_obj s drv, dev_attached = NULL, dev_attached_to = NULL, dev_stack_count = 1\<rparr>),
      drv_dev_obj := (drv_dev_obj s)(drv := ?d)\<rparr>" "dev = ?d" "st = STATUS_SUCCESS"
    using assms(2,3,5) by (auto simp: IoCreateDevice_def allocate_object_def copy_name_def)
  then show ?thesis using assms(1,2,4) by (auto intro: dev_path_cong [THEN iffD2])
qed


section \<open>Properties of devices\<close>

text \<open>IoCreateDevice puts the new device at the head of the list of its driver, and IoDeleteDevice takes exactly the
  deleted device out of that list, wherever it stands; the other devices of the driver stay linked in their order.\<close>
theorem driver_device_list:
  assumes "dev_path dev_next s (drv_dev_obj s drv) ds" "distinct ds" "drv \<noteq> NULL"
  shows "(pool \<noteq> NULL \<and> HEADER_TO_OBJECT pool \<noteq> NULL \<and> HEADER_TO_OBJECT pool \<notin> set ds \<and>
       IoCreateDevice pool nbuf drv None s = Some (s1, dev1, st) \<longrightarrow>
       st = STATUS_SUCCESS \<and> dev1 = HEADER_TO_OBJECT pool \<and> dev_path dev_next s1 (drv_dev_obj s1 drv) (dev1 # ds)) \<and>
     (dev \<in> set ds \<and> map_option dev_drv_obj (ob_devs s dev) = Some drv \<and> IoDeleteDevice dev s = Some s2 \<longrightarrow>
       dev_path dev_next s2 (drv_dev_obj s2 drv) (remove1 dev ds))"
  using create_device_list [OF assms(1)] delete_device_list [OF assms] by blast

definition dev_demo :: ob_state where
  "dev_demo = fst (the (IoCreateDevice 0x3000 None 0x50 None (fst (the (IoCreateDevice 0x2000 None 0x50 None
     (fst (the (IoCreateDevice 0x1000 None 0x50 None ob_demo0))))))))"

lemmas dev_demo_eval = dev_demo_def ob_demo_eval IoCreateDevice_def

theorem driver_device_list_witness:
  "\<exists>s2. IoDeleteDevice 0x2030 dev_demo = Some s2 \<and> dev_path dev_next s2 (drv_dev_obj s2 0x50) [0x3030, 0x1030]"
proof -
  have path: "dev_path dev_next dev_demo (drv_dev_obj dev_demo 0x50) [0x3030, 0x2030, 0x1030]"
    "map_option dev_drv_obj (ob_devs dev_demo 0x2030) = Some 0x50"
    by (simp_all add: dev_demo_eval)
  have "find_prev dev_demo 0x3030 0x2030 = Some 0x3030" by (subst find_prev.simps) (simp add: dev_demo_eval)
  moreover have "drv_dev_obj dev_demo 0x50 = 0x3030" by (simp add: dev_demo_eval)
  ultimately obtain s2 where "IoDeleteDevice 0x2030 dev_demo = Some s2"
    by (simp add: IoDeleteDevice_def Let_def) (simp add: dev_demo_eval ObfDereferenceObject_def dereference_object_def
        free_object_def OBJECT_TO_HEADER_def Let_def)
  moreover have "distinct [0x3030, 0x2030, 0x1030 :: ptr]" "(0x50 :: ptr) \<noteq> NULL" by simp_all
  then have "dev_path dev_next s2 (drv_dev_obj s2 0x50) (remove1 0x2030 [0x3030, 0x2030, 0x1030])"
    using calculation path(2) by (intro driver_device_list [OF path(1), THEN conjunct2, THEN mp]) simp_all
  ultimately show ?thesis by simp
qed

text \<open>C16: Attaching puts a device on top of a device stack, returns the device that was on top, and gives the new device a
  stack count one higher; detaching from a device removes the device attached to it and lowers the stack counts of those above, so
  that in both cases the counts number the devices of the resulting stack from 1.\<close>
theorem device_stack_attach_detach:
  assumes "dev_stack s ds" "length ds < 126" "src \<notin> set ds" "src \<noteq> NULL" "ob_devs s src \<noteq> None" "tgt \<in> set ds"
  shows "(\<exists>s'. IoAttachDeviceToDeviceStack src tgt s = Some (s', last ds) \<and> dev_stack s' (ds @ [src])) \<and>
     (ds = us @ tgt # a # vs \<longrightarrow> (\<exists>s'. IoDetachDevice tgt s = Some s' \<and> dev_stack s' (us @ tgt # vs)))"
  using attach_stack [OF assms(1-4) _ assms(6)] assms(1,5) detach_stack by blast

definition dev_demo2 :: ob_state where
  "dev_demo2 = fst (the (IoAttachDeviceToDeviceStack 0x2030 0x1030 dev_demo))"

lemma dev_demo2_stack: "dev_stack dev_demo2 [0x1030, 0x2030]"
proof -
  have "dev_stack dev_demo [0x1030]" by (simp add: dev_stack_def dev_demo_eval)
  moreover obtain x where "ob_devs dev_demo 0x2030 = Some x" by (simp add: dev_demo_eval)
  ultimately show ?thesis using attach_stack [of dev_demo "[0x1030]" "0x2030" x "0x1030"] by (auto simp: dev_demo2_def)
qed

theorem device_stack_attach_detach_witness:
  "(\<exists>s'. IoAttachDeviceToDeviceStack 0x3030 0x1030 dev_demo2 = Some (s', 0x2030) \<and> dev_stack s' [0x1030, 0x2030, 0x3030]) \<and>
   (\<exists>s'. IoDetachDevice 0x1030 dev_demo2 = Some s' \<and> dev_stack s' [0x1030])"
proof -
  have "ob_devs dev_demo2 0x3030 \<noteq> None"
    unfolding dev_demo2_def IoAttachDeviceToDeviceStack_def IoGetAttachedDevice_def
    by (subst attached_loop.simps) (simp add: dev_demo_eval Let_def)
  from device_stack_attach_detach [OF dev_demo2_stack, of "0x3030" "0x1030" "[]" "0x2030" "[]"] this show ?thesis by simp
qed

lemma next_locations:
  "irp_inv ir \<Longrightarrow> int k \<le> current_location ir \<Longrightarrow>
   irp_inv ((IoSetNextIrpStackLocation ^^ k) ir) \<and> current_location ((IoSetNextIrpStackLocation ^^ k) ir) = current_location ir - int k"
proof (induction k)
  case (Suc k)
  then have "irp_inv ((IoSetNextIrpStackLocation ^^ k) ir)" "current_location ((IoSetNextIrpStackLocation ^^ k) ir) = current_location ir - int k"
    by simp_all
  with irp_inv_next [OF this(1)] Suc.prems(2) show ?case by simp
qed simp

text \<open>Device stacks and packets fit together.  A packet allocated with the stack count of the device on top of a stack of
  \<open>n\<close> devices has a location for every device: on its way down through all of them the packet stays well formed, and before
  each of the \<open>n\<close> calls a location is left, so that IofCallDriver does not refuse it.\<close>
theorem stack_depth_suffices:
  assumes "dev_stack s ds" "ob_devs s (last ds) = Some td" "kmalloc \<noteq> NULL"
  shows "\<exists>ir. IoAllocateIrp kmalloc (dev_stack_count td) io = Some (io_put kmalloc ir io, kmalloc) \<and>
     (\<forall>k < length ds. irp_inv ((IoSetNextIrpStackLocation ^^ k) ir) \<and> 0 < current_location ((IoSetNextIrpStackLocation ^^ k) ir))"
proof -
  from assms(1) have ds: "ds \<noteq> []" "length ds < 127" "dev_counts s 1 ds" by (auto simp: dev_stack_def)
  then have "dev_counts s (int (length ds)) [last ds]"
    using dev_counts_append [of s 1 "butlast ds" "[last ds]"] by (simp add: of_nat_diff Suc_leI)
  with assms(2) have c: "dev_stack_count td = int (length ds)" by simp
  from IoAllocateIrp_spec [of "int (length ds)" kmalloc io] ds(2) assms(3) c obtain ir where
    ir: "IoAllocateIrp kmalloc (dev_stack_count td) io = Some (io_put kmalloc ir io, kmalloc)" "irp_inv ir"
    "current_location ir = int (length ds) + 1" by auto
  have "irp_inv ((IoSetNextIrpStackLocation ^^ k) ir) \<and> 0 < current_location ((IoSetNextIrpStackLocation ^^ k) ir)" if "k < length ds" for k
    using next_locations [OF ir(2), of k] ir(3) that by simp
  with ir(1) show ?thesis by blast
qed

theorem stack_depth_suffices_witness:
  "\<exists>ir. IoAllocateIrp 0x10 2 demo_io = Some (io_put 0x10 ir demo_io, 0x10) \<and> 0 < current_location (IoSetNextIrpStackLocation ir)"
proof -
  from dev_demo2_stack obtain td where td: "ob_devs dev_demo2 0x2030 = Some td" "dev_stack_count td = 2" by (auto simp: dev_stack_def)
  have "(1 :: nat) < length [0x1030, 0x2030 :: ptr]" by simp
  with stack_depth_suffices [OF dev_demo2_stack, of td "0x10" demo_io] td show ?thesis by fastforce
qed

text \<open>The extension of a client is the first one it allocated.\<close>

lemma extension_lookup:
  assumes "IoAllocateDriverObjectExtension p drv cl e = (e', Some x, st)" "IoGetDriverObjectExtension drv cl e = NULL"
    "\<forall>y\<in>set (e drv). fst y + 24 \<noteq> NULL"
  shows "st = STATUS_SUCCESS \<and> IoGetDriverObjectExtension drv cl e' = x \<and>
     (cl' \<noteq> cl \<longrightarrow> IoGetDriverObjectExtension drv cl' e' = IoGetDriverObjectExtension drv cl' e)"
proof -
  from assms(2,3) have "filter (\<lambda>y. snd y = cl) (e drv) = []"
    by (auto simp: IoGetDriverObjectExtension_def split: list.splits dest!: filter_eq_ConsD)
  with assms(1) show ?thesis by (auto simp: IoAllocateDriverObjectExtension_def IoGetDriverObjectExtension_def split: if_splits)
qed

end
