(* ===== verification/Workqueue.thy ===== *)
theory Workqueue
  imports Prelude "HOL-Library.Sublist"
begin

text \<open>
  The work queues of \<^verbatim>\<open>workqueue.c\<close>: a work queue has one worker thread per CPU (or a single one), each with a list of
  pending works; \<^verbatim>\<open>wrap_queue_work\<close> distributes works over the threads in turn.  The worker \<^verbatim>\<open>workq_thread\<close> is the state machine
  \<open>thread_step\<close> over its program point \<open>wq_pc\<close>.  Its section under the lock is one step where only other locked sections
  could interfere; the part for an empty list is cut at each access to \<^verbatim>\<open>pending\<close> and \<^verbatim>\<open>completion\<close> (\<open>Wq_Idle\<close>, \<open>Wq_Take\<close>,
  \<open>Wq_Clear\<close>, all with the lock held), because \<^verbatim>\<open>wrap_flush_wq_on\<close> and \<^verbatim>\<open>wrap_destroy_wq_on\<close> write them without the lock,
  and what follows the unlocking is a step of its own (\<open>Wq_Signal\<close>, \<open>Wq_Out\<close>).  The two halves of \<^verbatim>\<open>wrap_cancel_work\<close>
  are two steps.  \<open>wq_step\<close> interleaves the worker with all callers, for a queue with a single thread: all queues of the wrapper
  are created by \<^verbatim>\<open>create_singlethread_workqueue\<close>.

  Shown are the invariant that a work is linked in exactly the list its \<^verbatim>\<open>thread\<close> field names (or is being cancelled) and that the
  thread does not sleep on a non-empty list, that a flush is answered after the works queued before it, and four races: a work
  that is cancelled and queued again at the same time is linked twice, a request to stop may be overwritten, a flush may be
  forgotten when another one starts, and one may be lost when the worker is about to clear the completion.
\<close>

section \<open>State\<close>

datatype wq_pc = Wq_Waiting | Wq_Scan | Wq_Idle | Wq_Take | Wq_Clear "nat option" | Wq_Signal "nat option"
  | Wq_Running ptr | Wq_Out | Wq_Exited

text \<open>\<open>wq_completion\<close> is the completion object of the flush being served, \<open>wq_pid\<close> 0 for a thread that does not run.\<close>

record workqueue_thread =
  wq_work_list :: "ptr list"
  wq_pending :: int
  wq_completion :: "nat option"
  wq_pid :: nat
  wq_pc :: wq_pc

record wrap_workqueue_struct =
  wq_singlethread :: bool
  wq_qon :: u8
  wq_num_cpus :: nat
  wq_threads :: "workqueue_thread list"

text \<open>\<open>work_thread\<close> is the field \<^verbatim>\<open>thread\<close> of the works, as the index of the thread; \<open>wq_done\<close> are the completions signalled and
  \<open>wq_executed\<close> the works executed.  \<open>wq_cancelling\<close> are the calls of \<^verbatim>\<open>wrap_cancel_work\<close> between their exchange and their
  unlinking: the work, and the thread the exchange returned.\<close>

record wq_state =
  wq :: wrap_workqueue_struct
  work_thread :: "ptr \<Rightarrow> nat option"
  wq_done :: "nat set"
  wq_executed :: "ptr list"
  wq_cancelling :: "(ptr \<times> nat) list"

definition upd_thread :: "nat \<Rightarrow> (workqueue_thread \<Rightarrow> workqueue_thread) \<Rightarrow> wq_state \<Rightarrow> wq_state" where
  "upd_thread i f s = s\<lparr>wq := (wq s)\<lparr>wq_threads := (wq_threads (wq s))[i := f (wq_threads (wq s) ! i)]\<rparr>\<rparr>"

definition thread_of :: "wq_state \<Rightarrow> nat \<Rightarrow> workqueue_thread option" where
  "thread_of s i = rd (wq_threads (wq s)) i"

section \<open>Callers\<close>

definition wrap_queue_work_on :: "ptr \<Rightarrow> nat \<Rightarrow> wq_state \<Rightarrow> (wq_state \<times> bool) option" where
  "wrap_queue_work_on work cpu s =
     do { th \<leftarrow> thread_of s cpu;
          if work_thread s work \<noteq> None then Some (s, False)
          else Some (upd_thread cpu (\<lambda>t. t\<lparr>wq_work_list := wq_work_list t @ [work], wq_pending := 1\<rparr>)
                       (s\<lparr>work_thread := (work_thread s)(work \<mapsto> cpu)\<rparr>), True) }"

text \<open>The loop that picks a thread; it counts in the 8-bit field \<^verbatim>\<open>qon\<close> until it meets a running thread.\<close>

partial_function (option) pick_thread :: "wrap_workqueue_struct \<Rightarrow> (wrap_workqueue_struct \<times> nat) option" where
  "pick_thread q =
     (if wq_num_cpus q = 0 then None
      else do { let i = unat (wq_qon q) mod wq_num_cpus q;
                th \<leftarrow> rd (wq_threads q) i;
                if wq_pid th = 0 then pick_thread (q\<lparr>wq_qon := wq_qon q + 1\<rparr>)
                else Some (q\<lparr>wq_qon := wq_qon q + 1\<rparr>, i) })"

definition wrap_queue_work :: "nat \<Rightarrow> ptr \<Rightarrow> wq_state \<Rightarrow> (wq_state \<times> bool) option" where
  "wrap_queue_work online work s =
     (if online = 1 \<or> wq_singlethread (wq s) then wrap_queue_work_on work 0 s
      else do { (q, i) \<leftarrow> pick_thread (wq s); wrap_queue_work_on work i (s\<lparr>wq := q\<rparr>) })"

text \<open>The two halves of \<^verbatim>\<open>wrap_cancel_work\<close>: the exchange before the lock, and the unlinking under it; \<^verbatim>\<open>list_del\<close> of a
  work that is not linked is a fault.\<close>

definition cancel_xchg :: "ptr \<Rightarrow> wq_state \<Rightarrow> wq_state" where
  "cancel_xchg work s =
     s\<lparr>work_thread := (work_thread s)(work := None),
       wq_cancelling := (case work_thread s work of None \<Rightarrow> [] | Some i \<Rightarrow> [(work, i)]) @ wq_cancelling s\<rparr>"

definition cancel_unlink :: "ptr \<Rightarrow> nat \<Rightarrow> wq_state \<Rightarrow> wq_state option" where
  "cancel_unlink work i s =
     do { th \<leftarrow> thread_of s i;
          if work \<in> set (wq_work_list th)
          then Some (upd_thread i (\<lambda>t. t\<lparr>wq_work_list := remove1 work (wq_work_list t)\<rparr>)
                       (s\<lparr>wq_cancelling := remove1 (work, i) (wq_cancelling s)\<rparr>)) else None }"

text \<open>The call as a whole, when nothing interferes.\<close>

definition wrap_cancel_work :: "ptr \<Rightarrow> wq_state \<Rightarrow> wq_state option" where
  "wrap_cancel_work work s =
     (case work_thread s work of None \<Rightarrow> Some (cancel_xchg work s) | Some i \<Rightarrow> cancel_unlink work i (cancel_xchg work s))"

text \<open>\<^verbatim>\<open>wrap_flush_wq_on\<close> up to its wait for the completion \<open>done\<close>: two unlocked writes.\<close>

definition flush_begin :: "nat \<Rightarrow> nat \<Rightarrow> wq_state \<Rightarrow> wq_state" where
  "flush_begin i done s = upd_thread i (\<lambda>t. t\<lparr>wq_completion := Some done\<rparr>) s"

definition flush_pend :: "nat \<Rightarrow> wq_state \<Rightarrow> wq_state" where
  "flush_pend i s = upd_thread i (\<lambda>t. t\<lparr>wq_pending := 1\<rparr>) s"

definition wrap_flush_wq_on :: "nat \<Rightarrow> nat \<Rightarrow> wq_state \<Rightarrow> wq_state" where
  "wrap_flush_wq_on i done s = flush_pend i (flush_begin i done s)"

text \<open>\<^verbatim>\<open>wrap_destroy_wq_on\<close> up to the loop in which it waits for the thread to be gone.\<close>

definition wrap_destroy_wq_on :: "nat \<Rightarrow> wq_state \<Rightarrow> wq_state option" where
  "wrap_destroy_wq_on i s =
     do { th \<leftarrow> thread_of s i; Some (if wq_pid th = 0 then s else upd_thread i (\<lambda>t. t\<lparr>wq_pending := - 1\<rparr>) s) }"

section \<open>The worker thread\<close>

text \<open>\<^verbatim>\<open>wrap_create_wq\<close>: the threads wait with empty lists.  \<open>pids\<close> are the process ids of the created threads.\<close>

definition new_thread :: "nat \<Rightarrow> workqueue_thread" where
  "new_thread p = \<lparr>wq_work_list = [], wq_pending = 0, wq_completion = None, wq_pid = p, wq_pc = Wq_Waiting\<rparr>"

definition wrap_create_wq :: "bool \<Rightarrow> nat list \<Rightarrow> wrap_workqueue_struct" where
  "wrap_create_wq single pids =
     (let ps = (if single then take 1 pids else pids) in
      \<lparr>wq_singlethread = single, wq_qon = 0, wq_num_cpus = length ps, wq_threads = map new_thread ps\<rparr>)"

definition thread_step :: "nat \<Rightarrow> wq_state \<Rightarrow> wq_state option" where
  "thread_step i s =
     do { th \<leftarrow> thread_of s i;
          case wq_pc th of
            Wq_Waiting \<Rightarrow> if wq_pending th \<noteq> 0 then Some (upd_thread i (\<lambda>t. t\<lparr>wq_pc := Wq_Scan\<rparr>) s) else None
          | Wq_Scan \<Rightarrow>
              (case wq_work_list th of
                 [] \<Rightarrow> Some (upd_thread i (\<lambda>t. t\<lparr>wq_pc := (if wq_pending th < 0 then Wq_Out else Wq_Idle)\<rparr>) s)
               | work # ws \<Rightarrow>
                   if work_thread s work \<noteq> None
                   then Some (upd_thread i (\<lambda>t. t\<lparr>wq_work_list := ws, wq_pc := Wq_Running work\<rparr>)
                                (s\<lparr>work_thread := (work_thread s)(work := None)\<rparr>))
                   else Some s)
          | Wq_Idle \<Rightarrow> Some (upd_thread i (\<lambda>t. t\<lparr>wq_pending := 0, wq_pc := Wq_Take\<rparr>) s)
          | Wq_Take \<Rightarrow> Some (upd_thread i (\<lambda>t. t\<lparr>wq_pc := Wq_Clear (wq_completion t)\<rparr>) s)
          | Wq_Clear c \<Rightarrow> Some (upd_thread i (\<lambda>t. t\<lparr>wq_completion := None, wq_pc := Wq_Signal c\<rparr>) s)
          | Wq_Signal c \<Rightarrow>
              Some (upd_thread i (\<lambda>t. t\<lparr>wq_pc := Wq_Waiting\<rparr>) (s\<lparr>wq_done := wq_done s \<union> set_option c\<rparr>))
          | Wq_Running work \<Rightarrow> Some (upd_thread i (\<lambda>t. t\<lparr>wq_pc := Wq_Scan\<rparr>) (s\<lparr>wq_executed := wq_executed s @ [work]\<rparr>))
          | Wq_Out \<Rightarrow> Some (upd_thread i (\<lambda>t. t\<lparr>wq_pid := 0, wq_pc := Wq_Exited\<rparr>) s)
          | Wq_Exited \<Rightarrow> None }"

text \<open>Whether a worker holds its lock between two of its steps.\<close>

fun locked_pc :: "wq_pc \<Rightarrow> bool" where
  "locked_pc Wq_Idle = True"
| "locked_pc Wq_Take = True"
| "locked_pc (Wq_Clear c) = True"
| "locked_pc _ = False"

definition unlocked :: "wq_state \<Rightarrow> nat \<Rightarrow> bool" where
  "unlocked s i \<longleftrightarrow> (\<forall>th. thread_of s i = Some th \<longrightarrow> \<not> locked_pc (wq_pc th))"

text \<open>The steps of a queue.  The one restriction on callers is that a work is not queued while a call that cancels it has done
  its exchange and not yet unlinked it.\<close>

inductive wq_step :: "wq_state \<Rightarrow> wq_state \<Rightarrow> bool" where
  queue: "unlocked s i \<Longrightarrow> work \<notin> fst ` set (wq_cancelling s) \<Longrightarrow> wrap_queue_work_on work i s = Some (s', r) \<Longrightarrow> wq_step s s'"
| cancel: "wq_step s (cancel_xchg work s)"
| unlink: "(work, i) \<in> set (wq_cancelling s) \<Longrightarrow> unlocked s i \<Longrightarrow> cancel_unlink work i s = Some s' \<Longrightarrow> wq_step s s'"
| flush_begin: "i < length (wq_threads (wq s)) \<Longrightarrow> wq_step s (flush_begin i c s)"
| flush_pend: "i < length (wq_threads (wq s)) \<Longrightarrow> wq_step s (flush_pend i s)"
| destroy: "wrap_destroy_wq_on i s = Some s' \<Longrightarrow> wq_step s s'"
| worker: "thread_step i s = Some s' \<Longrightarrow> wq_step s s'"

text \<open>The states of a queue made by \<^verbatim>\<open>create_singlethread_workqueue\<close>.\<close>

inductive wq_reachable :: "wq_state \<Rightarrow> bool" where
  start: "wq s = wrap_create_wq True pids \<Longrightarrow> work_thread s = Map.empty \<Longrightarrow> wq_cancelling s = [] \<Longrightarrow> wq_reachable s"
| step: "wq_reachable s \<Longrightarrow> wq_step s s' \<Longrightarrow> wq_reachable s'"

section \<open>The invariant\<close>

text \<open>The works linked in the list of a thread: those whose \<^verbatim>\<open>thread\<close> field names it, and those being cancelled.\<close>

definition linked_on :: "(ptr \<Rightarrow> nat option) \<Rightarrow> (ptr \<times> nat) list \<Rightarrow> nat \<Rightarrow> ptr \<Rightarrow> bool" where
  "linked_on W C i w \<longleftrightarrow> W w = Some i \<or> (w, i) \<in> set C"

definition thread_inv :: "(ptr \<Rightarrow> nat option) \<Rightarrow> (ptr \<times> nat) list \<Rightarrow> nat \<Rightarrow> workqueue_thread \<Rightarrow> bool" where
  "thread_inv W C i th \<longleftrightarrow> distinct (wq_work_list th) \<and> (\<forall>w. w \<in> set (wq_work_list th) \<longleftrightarrow> linked_on W C i w) \<and>
     (locked_pc (wq_pc th) \<longrightarrow> wq_work_list th = []) \<and>
     (wq_pc th = Wq_Waiting \<or> (\<exists>c. wq_pc th = Wq_Signal c) \<longrightarrow> wq_work_list th = [] \<or> wq_pending th \<noteq> 0)"

definition wq_inv :: "wq_state \<Rightarrow> bool" where
  "wq_inv s \<longleftrightarrow> (\<forall>i th. thread_of s i = Some th \<longrightarrow> thread_inv (work_thread s) (wq_cancelling s) i th) \<and>
     (\<forall>w i. linked_on (work_thread s) (wq_cancelling s) i w \<longrightarrow> i < length (wq_threads (wq s))) \<and>
     (\<forall>w \<in> fst ` set (wq_cancelling s). work_thread s w = None) \<and> distinct (map fst (wq_cancelling s))"

lemma thread_of_upd: "thread_of (upd_thread i f s) j = (if j = i then map_option f (thread_of s i) else thread_of s j)"
  by (simp add: thread_of_def upd_thread_def rd_def)

lemma upd_thread_simps [simp]:
  "work_thread (upd_thread i f s) = work_thread s" "wq_done (upd_thread i f s) = wq_done s"
  "wq_cancelling (upd_thread i f s) = wq_cancelling s"
  "wq_executed (upd_thread i f s) = wq_executed s" "length (wq_threads (wq (upd_thread i f s))) = length (wq_threads (wq s))"
  by (simp_all add: upd_thread_def)

lemma thread_of_simps [simp]:
  "thread_of (s\<lparr>work_thread := W\<rparr>) i = thread_of s i" "thread_of (s\<lparr>wq_done := D\<rparr>) i = thread_of s i"
  "thread_of (s\<lparr>wq_executed := E\<rparr>) i = thread_of s i" "thread_of (s\<lparr>wq_cancelling := C\<rparr>) i = thread_of s i"
  by (simp_all add: thread_of_def)

lemma upd_thread_out: "thread_of s i = None \<Longrightarrow> upd_thread i f s = s"
  by (cases s, cases "wq s") (simp add: upd_thread_def thread_of_def rd_None_iff list_update_beyond)

lemma thread_of_Some_less: "thread_of s i = Some th \<Longrightarrow> i < length (wq_threads (wq s))"
  by (simp add: thread_of_def rd_Some_iff)

text \<open>Changing one thread: only its own clause, the \<^verbatim>\<open>thread\<close> fields and the works being cancelled need care.\<close>

lemma wq_inv_upd:
  assumes "wq_inv s" "thread_of s i = Some th" "thread_inv W C i (f th)"
    "\<And>j w. j \<noteq> i \<Longrightarrow> linked_on W C j w = linked_on (work_thread s) (wq_cancelling s) j w"
    "\<forall>w \<in> fst ` set C. W w = None" "distinct (map fst C)"
  shows "wq_inv (upd_thread i f (s\<lparr>work_thread := W, wq_done := D, wq_executed := E, wq_cancelling := C\<rparr>))"
proof -
  let ?s = "upd_thread i f (s\<lparr>work_thread := W, wq_done := D, wq_executed := E, wq_cancelling := C\<rparr>)"
  have "thread_inv (work_thread ?s) (wq_cancelling ?s) j t" if t: "thread_of ?s j = Some t" for j t
  proof (cases "j = i")
    case True
    with t assms(2,3) show ?thesis by (simp add: thread_of_upd)
  next
    case False
    with t have "thread_of s j = Some t" by (simp add: thread_of_upd)
    with assms(1) have "thread_inv (work_thread s) (wq_cancelling s) j t" by (simp add: wq_inv_def)
    with assms(4) [OF False] show ?thesis by (simp add: thread_inv_def)
  qed
  moreover have "j < length (wq_threads (wq ?s))" if "linked_on (work_thread ?s) (wq_cancelling ?s) j w" for w j
    using that assms(1,4) thread_of_Some_less [OF assms(2)] by (cases "j = i") (auto simp: wq_inv_def)
  ultimately show ?thesis using assms(5,6) by (simp add: wq_inv_def)
qed

lemma wq_inv_upd':
  assumes "wq_inv s" "thread_of s i = Some th" "thread_inv (work_thread s) (wq_cancelling s) i (f th)"
  shows "wq_inv (upd_thread i f (s\<lparr>wq_done := D, wq_executed := E\<rparr>))"
  using wq_inv_upd [where W = "work_thread s" and C = "wq_cancelling s" and f = f and D = D and E = E, OF assms(1,2)] assms(1,3)
  by (simp add: wq_inv_def)

lemma wq_inv_upd'':
  assumes "wq_inv s" "thread_of s i = Some th" "thread_inv (work_thread s) (wq_cancelling s) i (f th)"
  shows "wq_inv (upd_thread i f s)"
  using wq_inv_upd' [where f = f and D = "wq_done s" and E = "wq_executed s", OF assms] by simp

lemma queue_inv:
  assumes "wq_inv s" "unlocked s i" "work \<notin> fst ` set (wq_cancelling s)" "wrap_queue_work_on work i s = Some (s', r)"
  shows "wq_inv s'"
proof -
  from assms(4) obtain th where th: "thread_of s i = Some th" by (auto simp: wrap_queue_work_on_def split: Option.bind_splits)
  with assms(1) have inv: "thread_inv (work_thread s) (wq_cancelling s) i th" by (simp add: wq_inv_def)
  have pc: "\<not> locked_pc (wq_pc th)" using assms(2) th by (simp add: unlocked_def)
  show ?thesis
  proof (cases "work_thread s work")
    case None
    let ?f = "\<lambda>t. t\<lparr>wq_work_list := wq_work_list t @ [work], wq_pending := 1\<rparr>"
    let ?W = "(work_thread s)(work \<mapsto> i)"
    have nl: "\<not> linked_on (work_thread s) (wq_cancelling s) j work" for j using None assms(3) by (force simp: linked_on_def)
    have l: "linked_on ?W (wq_cancelling s) j w = (if w = work then j = i else linked_on (work_thread s) (wq_cancelling s) j w)" for j w
      using nl by (auto simp: linked_on_def)
    have "thread_inv ?W (wq_cancelling s) i (?f th)"
      using inv nl pc by (auto simp: thread_inv_def l)
    then have "wq_inv (upd_thread i ?f (s\<lparr>work_thread := ?W, wq_done := wq_done s, wq_executed := wq_executed s,
        wq_cancelling := wq_cancelling s\<rparr>))"
      using assms(1,3) nl by (intro wq_inv_upd [OF assms(1) th]) (auto simp: l wq_inv_def)
    moreover have "s' = upd_thread i ?f (s\<lparr>work_thread := ?W\<rparr>)" using assms(4) th None by (simp add: wrap_queue_work_on_def)
    ultimately show ?thesis by simp
  next
    case (Some j)
    with assms th show ?thesis by (simp add: wrap_queue_work_on_def)
  qed
qed

lemma cancel_inv:
  assumes "wq_inv s"
  shows "wq_inv (cancel_xchg work s)"
proof -
  let ?s = "cancel_xchg work s"
  have th: "thread_of ?s i = thread_of s i" "length (wq_threads (wq ?s)) = length (wq_threads (wq s))" for i
    by (simp_all add: cancel_xchg_def thread_of_def)
  have nc: "w \<in> fst ` set (wq_cancelling s) \<Longrightarrow> work_thread s w = None" for w using assms by (auto simp: wq_inv_def)
  have l: "linked_on (work_thread ?s) (wq_cancelling ?s) i w = linked_on (work_thread s) (wq_cancelling s) i w" for i w
    by (cases "w = work") (auto simp: linked_on_def cancel_xchg_def split: option.splits)
  have "\<forall>w \<in> fst ` set (wq_cancelling ?s). work_thread ?s w = None"
    using nc by (auto simp: cancel_xchg_def split: option.splits if_splits)
  moreover have "distinct (map fst (wq_cancelling ?s))"
    using assms nc by (force simp: cancel_xchg_def wq_inv_def split: option.splits)
  ultimately show ?thesis
    using assms by (simp add: wq_inv_def th l thread_inv_def)
qed

lemma unlink_inv:
  assumes "wq_inv s" "(work, i) \<in> set (wq_cancelling s)" "unlocked s i"
  shows "\<exists>s'. cancel_unlink work i s = Some s' \<and> wq_inv s'"
proof -
  have "linked_on (work_thread s) (wq_cancelling s) i work" using assms(2) by (simp add: linked_on_def)
  then obtain th where th: "thread_of s i = Some th" using assms(1) by (auto simp: wq_inv_def thread_of_def rd_def)
  with assms(1) have inv: "thread_inv (work_thread s) (wq_cancelling s) i th" by (simp add: wq_inv_def)
  let ?C = "remove1 (work, i) (wq_cancelling s)"
  let ?f = "\<lambda>t. t\<lparr>wq_work_list := remove1 work (wq_work_list t)\<rparr>"
  have w: "work \<in> set (wq_work_list th)" using inv \<open>linked_on (work_thread s) (wq_cancelling s) i work\<close> by (simp add: thread_inv_def)
  have d: "distinct (map fst (wq_cancelling s))" "work_thread s work = None" using assms(1,2) by (force simp: wq_inv_def)+
  then have C: "set ?C = set (wq_cancelling s) - {(work, i)}" "distinct (map fst ?C)"
    by (simp_all add: distinct_map set_remove1_eq inj_on_diff)
  have u: "(work, j) \<in> set (wq_cancelling s) \<Longrightarrow> j = i" for j
    by (rule eq_key_imp_eq_value [OF d(1) _ assms(2)])
  have l: "linked_on (work_thread s) ?C j w = (linked_on (work_thread s) (wq_cancelling s) j w \<and> w \<noteq> work)" for j w
    using C(1) u d(2) by (auto simp: linked_on_def)
  have "thread_inv (work_thread s) ?C i (?f th)"
    using inv by (auto simp: thread_inv_def l set_remove1_eq)
  moreover have "linked_on (work_thread s) ?C j w = linked_on (work_thread s) (wq_cancelling s) j w" if "j \<noteq> i" for j w
    using u that d(2) by (auto simp: l linked_on_def)
  ultimately have "wq_inv (upd_thread i ?f (s\<lparr>work_thread := work_thread s, wq_done := wq_done s, wq_executed := wq_executed s,
      wq_cancelling := ?C\<rparr>))"
    using C assms(1) by (intro wq_inv_upd [OF assms(1) th]) (auto simp: wq_inv_def)
  then show ?thesis using th w by (simp add: cancel_unlink_def)
qed

lemma thread_step_inv:
  assumes "wq_inv s" "thread_step i s = Some s'"
  shows "wq_inv s'"
proof -
  from assms(2) obtain th where th: "thread_of s i = Some th" by (auto simp: thread_step_def split: Option.bind_splits)
  with assms(1) have inv: "thread_inv (work_thread s) (wq_cancelling s) i th" by (simp add: wq_inv_def)
  note upd = wq_inv_upd'' [OF assms(1) th]
  show ?thesis
  proof (cases "wq_pc th")
    case Wq_Scan
    show ?thesis
    proof (cases "wq_work_list th")
      case Nil
      with Wq_Scan assms(2) th inv show ?thesis
        by (auto simp: thread_step_def thread_inv_def intro!: upd)
    next
      case (Cons work ws)
      then have lk: "linked_on (work_thread s) (wq_cancelling s) i work" using inv by (auto simp: thread_inv_def)
      show ?thesis
      proof (cases "work_thread s work")
        case None
        then show ?thesis using Wq_Scan Cons assms th by (simp add: thread_step_def)
      next
        case (Some j)
        have nc: "work \<notin> fst ` set (wq_cancelling s)" using assms(1) Some by (auto simp: wq_inv_def)
        then have [simp]: "j = i" using lk Some by (force simp: linked_on_def)
        let ?W = "(work_thread s)(work := None)"
        let ?f = "\<lambda>t. t\<lparr>wq_work_list := ws, wq_pc := Wq_Running work\<rparr>"
        have s': "s' = upd_thread i ?f (s\<lparr>work_thread := ?W\<rparr>)"
          using Wq_Scan Cons Some assms(2) th by (simp add: thread_step_def)
        have l: "linked_on ?W (wq_cancelling s) j w = (linked_on (work_thread s) (wq_cancelling s) j w \<and> w \<noteq> work)" for j w
          using nc by (force simp: linked_on_def)
        have "thread_inv ?W (wq_cancelling s) i (?f th)"
          using inv Cons by (auto simp: thread_inv_def l)
        moreover have "\<not> linked_on (work_thread s) (wq_cancelling s) k work" if "k \<noteq> i" for k using that nc Some by (force simp: linked_on_def)
        ultimately have "wq_inv (upd_thread i ?f (s\<lparr>work_thread := ?W, wq_done := wq_done s, wq_executed := wq_executed s,
            wq_cancelling := wq_cancelling s\<rparr>))"
          using assms(1) by (intro wq_inv_upd [OF assms(1) th]) (auto simp: l wq_inv_def)
        then show ?thesis using s' by simp
      qed
    qed
  next
    case (Wq_Signal c)
    with assms(2) th have s': "s' = upd_thread i (\<lambda>t. t\<lparr>wq_pc := Wq_Waiting\<rparr>) (s\<lparr>wq_done := wq_done s \<union> set_option c\<rparr>)"
      by (simp add: thread_step_def)
    show ?thesis unfolding s' using inv Wq_Signal
        wq_inv_upd' [OF assms(1) th, where D = "wq_done s \<union> set_option c" and E = "wq_executed s"]
      by (auto simp: thread_inv_def)
  next
    case (Wq_Running work)
    with assms(2) th have s': "s' = upd_thread i (\<lambda>t. t\<lparr>wq_pc := Wq_Scan\<rparr>) (s\<lparr>wq_executed := wq_executed s @ [work]\<rparr>)"
      by (simp add: thread_step_def)
    show ?thesis unfolding s' using inv
        wq_inv_upd' [OF assms(1) th, where D = "wq_done s" and E = "wq_executed s @ [work]"]
      by (auto simp: thread_inv_def)
  qed (use assms(2) th inv in \<open>auto simp: thread_step_def thread_inv_def split: if_splits intro!: upd\<close>)
qed

lemma pending_inv:
  assumes "wq_inv s" "v \<noteq> 0"
  shows "wq_inv (upd_thread i (\<lambda>t. t\<lparr>wq_pending := v\<rparr>) s)"
proof (cases "thread_of s i")
  case None
  then show ?thesis using assms(1) by (simp add: upd_thread_out)
next
  case (Some th)
  with assms have "thread_inv (work_thread s) (wq_cancelling s) i th" by (simp add: wq_inv_def)
  with assms(2) show ?thesis by (intro wq_inv_upd'' [OF assms(1) Some]) (auto simp: thread_inv_def)
qed

lemma completion_inv:
  assumes "wq_inv s"
  shows "wq_inv (upd_thread i (\<lambda>t. t\<lparr>wq_completion := c\<rparr>) s)"
proof (cases "thread_of s i")
  case None
  then show ?thesis using assms(1) by (simp add: upd_thread_out)
next
  case (Some th)
  with assms have "thread_inv (work_thread s) (wq_cancelling s) i th" by (simp add: wq_inv_def)
  then show ?thesis by (intro wq_inv_upd'' [OF assms(1) Some]) (auto simp: thread_inv_def)
qed

lemma wq_step_inv: "wq_step s s' \<Longrightarrow> wq_inv s \<Longrightarrow> wq_inv s'"
proof (induction rule: wq_step.induct)
  case (unlink work i s s')
  then show ?case using unlink_inv [of s work i] by auto
next
  case (destroy i s s')
  then show ?case by (auto simp: wrap_destroy_wq_on_def split: Option.bind_splits if_splits intro: pending_inv)
qed (auto simp: flush_begin_def flush_pend_def intro: queue_inv cancel_inv thread_step_inv pending_inv completion_inv)

lemma wq_reachable_inv: "wq_reachable s \<Longrightarrow> wq_inv s"
proof (induction rule: wq_reachable.induct)
  case (start s pids)
  then show ?case
    by (auto simp: wq_inv_def thread_inv_def linked_on_def thread_of_def wrap_create_wq_def Let_def rd_Some_iff new_thread_def)
next
  case (step s s')
  then show ?case by (blast intro: wq_step_inv)
qed

section \<open>A flush while others queue\<close>

fun run_thread :: "nat \<Rightarrow> nat \<Rightarrow> wq_state \<Rightarrow> wq_state option" where
  "run_thread i 0 s = Some s"
| "run_thread i (Suc n) s = do { s1 \<leftarrow> thread_step i s; run_thread i n s1 }"

text \<open>What happens to thread \<open>i\<close> while nobody cancels, flushes or stops: works are queued and the worker runs.\<close>

inductive served :: "nat \<Rightarrow> wq_state \<Rightarrow> wq_state \<Rightarrow> bool" where
  refl: "served i s s"
| queue: "served i s s1 \<Longrightarrow> unlocked s1 i \<Longrightarrow> wrap_queue_work_on work i s1 = Some (s2, r) \<Longrightarrow> served i s s2"
| worker: "served i s s1 \<Longrightarrow> thread_step i s1 = Some s2 \<Longrightarrow> served i s s2"

text \<open>The works a thread has executed, is executing and has on its list, in this order.\<close>

fun running :: "wq_pc \<Rightarrow> ptr list" where
  "running (Wq_Running w) = [w]"
| "running _ = []"

definition work_order :: "wq_state \<Rightarrow> workqueue_thread \<Rightarrow> ptr list" where
  "work_order s th = wq_executed s @ running (wq_pc th) @ wq_work_list th"

text \<open>Where the worker stands with a flush \<open>c\<close> that came after the works \<open>P\<close>: it has taken it, and then \<open>P\<close> is executed; or
  it will come to it.  \<open>woken\<close> tells that the flush has written \<^verbatim>\<open>pending\<close>.\<close>

fun will_take :: "bool \<Rightarrow> int \<Rightarrow> wq_pc \<Rightarrow> bool" where
  "will_take woken pending Wq_Waiting = (woken \<longrightarrow> pending \<noteq> 0)"
| "will_take woken pending (Wq_Signal d) = (woken \<longrightarrow> pending \<noteq> 0)"
| "will_take woken pending (Wq_Clear d) = False"
| "will_take woken pending Wq_Out = False"
| "will_take woken pending Wq_Exited = False"
| "will_take woken pending _ = True"

definition flush_owed :: "nat \<Rightarrow> ptr list \<Rightarrow> bool \<Rightarrow> wq_state \<Rightarrow> workqueue_thread \<Rightarrow> bool" where
  "flush_owed c P woken s th \<longleftrightarrow>
     (if c \<in> wq_done s \<or> wq_pc th = Wq_Clear (Some c) \<or> wq_pc th = Wq_Signal (Some c) then prefix P (wq_executed s)
      else wq_completion th = Some c \<and> 0 \<le> wq_pending th \<and> prefix P (work_order s th) \<and>
        will_take woken (wq_pending th) (wq_pc th))"

lemma owed_queue:
  assumes "flush_owed c P b s th" "thread_of s i = Some th" "wrap_queue_work_on work i s = Some (s', r)"
  shows "\<exists>th'. thread_of s' i = Some th' \<and> flush_owed c P b s' th' \<and> wq_cancelling s' = wq_cancelling s"
proof (cases "work_thread s work")
  case None
  have "will_take b 1 pc" if "will_take b p pc" for p pc using that by (cases pc) auto
  moreover have "prefix P (xs @ ys @ zs @ [work])" if "prefix P (xs @ ys @ zs)" for xs ys zs
    using prefix_prefix [OF that, of "[work]"] by simp
  ultimately have "flush_owed c P b s' (th\<lparr>wq_work_list := wq_work_list th @ [work], wq_pending := 1\<rparr>)"
    using assms None by (auto simp: wrap_queue_work_on_def flush_owed_def work_order_def split: if_splits)
  then show ?thesis using assms None by (auto simp: wrap_queue_work_on_def thread_of_upd)
next
  case (Some j)
  then show ?thesis using assms by (auto simp: wrap_queue_work_on_def)
qed

lemma owed_worker:
  assumes "flush_owed c P b s th" "thread_of s i = Some th" "thread_step i s = Some s'" "thread_inv W C i th"
  shows "\<exists>th'. thread_of s' i = Some th' \<and> flush_owed c P b s' th' \<and> wq_cancelling s' = wq_cancelling s"
  using assms
  by (cases "wq_pc th"; cases "wq_work_list th")
    (auto simp: thread_step_def thread_of_upd flush_owed_def work_order_def thread_inv_def prefix_def split: if_splits)

lemma served_owed:
  assumes "served i s s'" "wq_inv s" "wq_cancelling s = []" "thread_of s i = Some th" "flush_owed c P b s th"
  shows "wq_inv s' \<and> wq_cancelling s' = [] \<and> (\<exists>th'. thread_of s' i = Some th' \<and> flush_owed c P b s' th')"
  using assms
proof (induction rule: served.induct)
  case (queue i s s1 work s2 r)
  then obtain th1 where "thread_of s1 i = Some th1" "flush_owed c P b s1 th1" "wq_inv s1" "wq_cancelling s1 = []" by blast
  with queue show ?case using owed_queue [of c P b s1 th1 i work s2 r] queue_inv [of s1 i work s2 r] by auto
next
  case (worker i s s1 s2)
  then obtain th1 where th1: "thread_of s1 i = Some th1" "flush_owed c P b s1 th1" "wq_inv s1" "wq_cancelling s1 = []" by blast
  moreover have "thread_inv (work_thread s1) (wq_cancelling s1) i th1" using th1 by (simp add: wq_inv_def)
  ultimately show ?case using owed_worker [OF th1(2,1) worker(2)] thread_step_inv [OF th1(3) worker(2)] by auto
qed blast

text \<open>How many steps the worker is away from signalling the flush.\<close>

fun steps_left :: "nat \<Rightarrow> nat \<Rightarrow> wq_pc \<Rightarrow> nat" where
  "steps_left c n (Wq_Signal d) = (if d = Some c then 1 else 2 * n + 7)"
| "steps_left c n (Wq_Clear d) = 2"
| "steps_left c n Wq_Take = 3"
| "steps_left c n Wq_Idle = 4"
| "steps_left c n Wq_Scan = 2 * n + 5"
| "steps_left c n _ = 2 * n + 6"

lemma owed_progress:
  assumes "flush_owed c P True s th" "thread_of s i = Some th" "wq_inv s" "wq_cancelling s = []" "c \<notin> wq_done s"
  shows "\<exists>s' th'. thread_step i s = Some s' \<and> thread_of s' i = Some th' \<and>
     (c \<in> wq_done s' \<or> steps_left c (length (wq_work_list th')) (wq_pc th') < steps_left c (length (wq_work_list th)) (wq_pc th))"
proof -
  have inv: "thread_inv (work_thread s) [] i th" using assms(2-4) by (auto simp: wq_inv_def)
  show ?thesis
  proof (cases "wq_pc th")
    case Wq_Scan
    have "work_thread s w \<noteq> None" if "wq_work_list th = w # ws" for w ws
      using inv that by (auto simp: thread_inv_def linked_on_def)
    then show ?thesis
      using Wq_Scan assms by (cases "wq_work_list th") (auto simp: thread_step_def thread_of_upd flush_owed_def)
  qed (use assms in \<open>auto simp: thread_step_def thread_of_upd flush_owed_def split: if_splits\<close>)
qed

lemma owed_run:
  assumes "flush_owed c P True s th" "thread_of s i = Some th" "wq_inv s" "wq_cancelling s = []" "c \<notin> wq_done s"
  shows "\<exists>n s'. n \<le> steps_left c (length (wq_work_list th)) (wq_pc th) \<and> run_thread i n s = Some s' \<and> c \<in> wq_done s' \<and>
     prefix P (wq_executed s')"
  using assms
proof (induction "steps_left c (length (wq_work_list th)) (wq_pc th)" arbitrary: s th rule: less_induct)
  case less
  from owed_progress [OF less.prems] obtain s1 th1 where
    step: "thread_step i s = Some s1" "thread_of s1 i = Some th1" and
    left: "c \<in> wq_done s1 \<or> steps_left c (length (wq_work_list th1)) (wq_pc th1) < steps_left c (length (wq_work_list th)) (wq_pc th)"
    by blast
  have "thread_inv (work_thread s) (wq_cancelling s) i th" using less.prems by (simp add: wq_inv_def)
  then have owed: "flush_owed c P True s1 th1" "wq_cancelling s1 = []" "wq_inv s1"
    using owed_worker [OF less.prems(1,2) step(1)] step(2) less.prems(3,4) thread_step_inv [OF less.prems(3) step(1)] by auto
  have pos: "0 < steps_left c (length (wq_work_list th)) (wq_pc th)" by (cases "wq_pc th") auto
  show ?case
  proof (cases "c \<in> wq_done s1")
    case True
    then show ?thesis using owed(1) step(1) pos by (intro exI [of _ 1] exI [of _ s1]) (auto simp: flush_owed_def)
  next
    case False
    with left have lt: "steps_left c (length (wq_work_list th1)) (wq_pc th1) < steps_left c (length (wq_work_list th)) (wq_pc th)" by simp
    from less.hyps [OF lt owed(1) step(2) owed(3,2) False] obtain n s' where
      "n \<le> steps_left c (length (wq_work_list th1)) (wq_pc th1)" "run_thread i n s1 = Some s'" "c \<in> wq_done s'" "prefix P (wq_executed s')"
      by blast
    then show ?thesis using step(1) lt by (intro exI [of _ "Suc n"] exI [of _ s']) auto
  qed
qed

lemma owed_begin:
  assumes "thread_of s i = Some th" "0 \<le> wq_pending th" "will_take False 0 (wq_pc th)" "wq_pc th \<noteq> Wq_Signal (Some c)" "c \<notin> wq_done s"
  shows "\<exists>th'. thread_of (flush_begin i c s) i = Some th' \<and> flush_owed c (work_order s th) False (flush_begin i c s) th'"
proof -
  have "will_take False p pc = will_take False q pc" for p q pc by (cases pc) auto
  then show ?thesis using assms by (auto simp: flush_begin_def thread_of_upd flush_owed_def work_order_def)
qed

lemma owed_pend:
  assumes "thread_of s i = Some th" "flush_owed c P False s th"
  shows "\<exists>th'. thread_of (flush_pend i s) i = Some th' \<and> flush_owed c P True (flush_pend i s) th'"
proof -
  have "will_take True 1 pc" if "will_take False p pc" for p pc using that by (cases pc) auto
  then show ?thesis using assms by (auto simp: flush_pend_def thread_of_upd flush_owed_def work_order_def split: if_splits)
qed

section \<open>Properties\<close>

text \<open>C17: In every state that the worker of a queue and its callers reach, however their steps interleave, as long as no work is
  queued between the two halves of a call that cancels it: a work is linked in the list of the thread, once, exactly when its
  \<^verbatim>\<open>thread\<close> field names the thread or a call that cancels it has cleared the field and not yet unlinked it; that call then finds the
  work linked; and the thread does not wait while works are on its list and nothing wakes it.\<close>
theorem workqueue_invariant:
  assumes "wq_reachable s" "thread_of s i = Some th"
  shows "distinct (wq_work_list th) \<and>
     (\<forall>w. w \<in> set (wq_work_list th) \<longleftrightarrow> work_thread s w = Some i \<or> (w, i) \<in> set (wq_cancelling s)) \<and>
     (\<forall>(w, j) \<in> set (wq_cancelling s). j = i \<longrightarrow> unlocked s i \<longrightarrow> cancel_unlink w j s \<noteq> None) \<and>
     (wq_pc th = Wq_Waiting \<and> wq_work_list th \<noteq> [] \<longrightarrow> thread_step i s \<noteq> None)"
proof -
  have "wq_inv s" by (rule wq_reachable_inv [OF assms(1)])
  moreover from this have "cancel_unlink w i s \<noteq> None" if "(w, i) \<in> set (wq_cancelling s)" "unlocked s i" for w
    using unlink_inv [OF _ that] by auto
  ultimately show ?thesis using assms(2) by (auto simp: wq_inv_def thread_inv_def linked_on_def thread_step_def)
qed

definition wq_demo :: wq_state where
  "wq_demo = \<lparr>wq = wrap_create_wq True [11], work_thread = Map.empty, wq_done = {}, wq_executed = [], wq_cancelling = []\<rparr>"

definition wq_demo1 :: wq_state where
  "wq_demo1 = fst (the (wrap_queue_work_on 0x20 0 (fst (the (wrap_queue_work_on 0x10 0 wq_demo)))))"

lemmas wq_demo_eval = wq_demo_def wq_demo1_def wrap_create_wq_def new_thread_def wrap_queue_work_on_def thread_of_def upd_thread_def rd_def

lemma wq_demo_reachable: "wq_reachable wq_demo1"
proof -
  have "wq_reachable wq_demo" by (rule wq_reachable.start [of _ "[11]"]) (simp_all add: wq_demo_def)
  then have "wq_reachable (fst (the (wrap_queue_work_on 0x10 0 wq_demo)))"
    by (rule wq_reachable.step [OF _ wq_step.queue [of _ 0 "0x10" _ True]]) (simp_all add: unlocked_def wq_demo_eval)
  then show ?thesis unfolding wq_demo1_def
    by (rule wq_reachable.step [OF _ wq_step.queue [of _ 0 "0x20" _ True]]) (simp_all add: unlocked_def wq_demo_eval)
qed

theorem workqueue_invariant_witness:
  "\<exists>th. thread_of (cancel_xchg 0x10 wq_demo1) 0 = Some th \<and> wq_work_list th = [0x10, 0x20] \<and> distinct (wq_work_list th) \<and>
     cancel_unlink 0x10 0 (cancel_xchg 0x10 wq_demo1) \<noteq> None \<and> thread_step 0 (cancel_xchg 0x10 wq_demo1) \<noteq> None"
proof -
  let ?s = "cancel_xchg 0x10 wq_demo1"
  have r: "wq_reachable ?s" by (rule wq_reachable.step [OF wq_demo_reachable wq_step.cancel])
  obtain th where th: "thread_of ?s 0 = Some th" "wq_work_list th = [0x10, 0x20]" "wq_pc th = Wq_Waiting"
    by (simp add: cancel_xchg_def wq_demo_eval)
  moreover have "(0x10, 0) \<in> set (wq_cancelling ?s)" by (simp add: cancel_xchg_def wq_demo_eval)
  moreover have "unlocked ?s 0" using th by (simp add: unlocked_def)
  ultimately show ?thesis using workqueue_invariant [OF r th(1)] by auto
qed

text \<open>C18: A flush is answered, and not before the works queued until then are done, when it is the only flush of the thread, nobody
  cancels a work or stops the thread meanwhile, and it does not start while the worker is about to clear the completion it has read.
  Works may be queued and the worker may run at any time, also between the two writes of the flush.  Whenever the flush is signalled,
  the works that were executed, running and queued when it began have been executed, in this order and before all later ones; and
  at any moment after its writes until it is signalled, the worker, with \<open>n\<close> works on its list, signals it within \<open>2 n + 7\<close>
  further steps of its own.\<close>
theorem flush_completes:
  assumes "wq_reachable s" "wq_cancelling s = []" "thread_of s i = Some th" "0 \<le> wq_pending th"
    "will_take False 0 (wq_pc th)" "wq_pc th \<noteq> Wq_Signal (Some c)" "c \<notin> wq_done s"
    "served i (flush_begin i c s) s1" "served i (flush_pend i s1) s2" "thread_of s2 i = Some th2"
  shows "if c \<in> wq_done s2 then prefix (wq_executed s @ running (wq_pc th) @ wq_work_list th) (wq_executed s2)
     else \<exists>n s3. n \<le> 2 * length (wq_work_list th2) + 7 \<and> run_thread i n s2 = Some s3 \<and> c \<in> wq_done s3 \<and>
       prefix (wq_executed s @ running (wq_pc th) @ wq_work_list th) (wq_executed s3)"
proof -
  have inv: "wq_inv s" by (rule wq_reachable_inv [OF assms(1)])
  have inv1: "wq_inv (flush_begin i c s)" "wq_cancelling (flush_begin i c s) = []"
    using inv assms(2) completion_inv by (simp_all add: flush_begin_def)
  from owed_begin [OF assms(3-7)] served_owed [OF assms(8) inv1] obtain t1 where
    t1: "wq_inv s1" "wq_cancelling s1 = []" "thread_of s1 i = Some t1" "flush_owed c (work_order s th) False s1 t1" by blast
  have inv2: "wq_inv (flush_pend i s1)" "wq_cancelling (flush_pend i s1) = []"
    using t1 pending_inv [OF t1(1), of 1] by (simp_all add: flush_pend_def)
  from owed_pend [OF t1(3,4)] served_owed [OF assms(9) inv2] assms(10) have
    t2: "wq_inv s2" "wq_cancelling s2 = []" "flush_owed c (work_order s th) True s2 th2" by fastforce+
  have left: "steps_left c n pc \<le> 2 * n + 7" for n pc by (cases pc) auto
  show ?thesis
  proof (cases "c \<in> wq_done s2")
    case True
    then show ?thesis using t2(3) by (simp add: flush_owed_def work_order_def)
  next
    case False
    then show ?thesis
      using owed_run [OF t2(3) assms(10) t2(1,2)] left order_trans by (fastforce simp: work_order_def)
  qed
qed

definition wq_demo2 :: wq_state where
  "wq_demo2 = fst (the (wrap_queue_work_on 0x30 0 (flush_begin 0 5 wq_demo1)))"

theorem flush_completes_witness:
  "\<exists>n s3. run_thread 0 n (flush_pend 0 wq_demo2) = Some s3 \<and> 5 \<in> wq_done s3 \<and> prefix [0x10, 0x20] (wq_executed s3)"
proof -
  obtain th where th: "thread_of wq_demo1 0 = Some th" "wq_work_list th = [0x10, 0x20]" "wq_pc th = Wq_Waiting" "wq_pending th = 1"
    by (simp add: wq_demo_eval)
  obtain th2 where th2: "thread_of (flush_pend 0 wq_demo2) 0 = Some th2"
    by (simp add: wq_demo2_def flush_begin_def flush_pend_def wq_demo_eval)
  have e: "wq_executed wq_demo1 = []" "wq_cancelling wq_demo1 = []" "wq_done wq_demo1 = {}" "wq_done (flush_pend 0 wq_demo2) = {}"
    by (simp_all add: wq_demo2_def flush_begin_def flush_pend_def wq_demo_eval)
  have q: "served 0 (flush_begin 0 5 wq_demo1) wq_demo2"
    by (rule served.queue [OF served.refl, where work = "0x30" and r = True])
      (simp_all add: wq_demo2_def unlocked_def flush_begin_def wq_demo_eval)
  show ?thesis
    using flush_completes [OF wq_demo_reachable e(2) th(1) _ _ _ _ q served.refl th2] th(2-4) e by auto
qed

section \<open>Races\<close>

text \<open>The exchange in wrap_cancel_work is done before the lock is taken.  When the work is queued again between the exchange and
  the unlinking, it is added to the list while it is still linked.\<close>

lemma cancel_queue_race:
  assumes "wq_inv s" "work_thread s work = Some i"
  shows "\<exists>s' th. wrap_queue_work_on work i (cancel_xchg work s) = Some (s', True) \<and> thread_of s' i = Some th \<and>
     \<not> distinct (wq_work_list th)"
proof -
  have l: "linked_on (work_thread s) (wq_cancelling s) i work" using assms(2) by (simp add: linked_on_def)
  with assms(1) obtain th where th: "thread_of s i = Some th" by (auto simp: wq_inv_def thread_of_def rd_def)
  with assms(1) l have "work \<in> set (wq_work_list th)" by (auto simp: wq_inv_def thread_inv_def)
  with th show ?thesis by (simp add: wrap_queue_work_on_def cancel_xchg_def thread_of_upd)
qed

text \<open>wrap_destroy_wq_on writes \<^verbatim>\<open>pending\<close> without the lock.  When the thread has just tested it, it overwrites the
  request with 0 and goes to sleep; wrap_destroy_wq_on then waits for ever.\<close>

lemma destroy_lost:
  assumes "thread_of s i = Some th" "wq_pc th = Wq_Idle" "0 < wq_pid th" "wrap_destroy_wq_on i s = Some s1"
  shows "\<exists>s2 th2. run_thread i 4 s1 = Some s2 \<and> thread_of s2 i = Some th2 \<and> wq_pc th2 = Wq_Waiting \<and> 0 < wq_pid th2 \<and>
     thread_step i s2 = None"
  using assms by (auto simp: wrap_destroy_wq_on_def thread_step_def thread_of_upd numeral_eq_Suc)

text \<open>A second flush of the same thread replaces the completion of the first, which nobody signals any more.\<close>

lemma flush_forgotten:
  assumes "thread_of s i = Some th" "wq_pc th = Wq_Waiting" "wq_work_list th = []" "c1 \<noteq> c2" "c1 \<notin> wq_done s"
  shows "\<exists>s'. run_thread i 6 (wrap_flush_wq_on i c2 (wrap_flush_wq_on i c1 s)) = Some s' \<and>
     c2 \<in> wq_done s' \<and> c1 \<notin> wq_done s' \<and> thread_step i s' = None"
  using assms by (simp add: wrap_flush_wq_on_def flush_begin_def flush_pend_def thread_step_def thread_of_upd numeral_eq_Suc)

text \<open>The flush stores its completion without the lock.  When the worker has just read the field and is about to clear it, the
  completion is overwritten: the worker goes round once more and sleeps, and the caller of the flush waits for ever.\<close>

lemma flush_lost:
  assumes "thread_of s i = Some th" "wq_pc th = Wq_Clear None" "wq_work_list th = []" "c \<notin> wq_done s"
  shows "\<exists>s1 s2. thread_step i (flush_begin i c s) = Some s1 \<and> run_thread i 7 (flush_pend i s1) = Some s2 \<and>
     c \<notin> wq_done s2 \<and> thread_step i s2 = None"
  using assms by (simp add: flush_begin_def flush_pend_def thread_step_def thread_of_upd numeral_eq_Suc)

end
