(* ===== verification/Wrapmem.thy ===== *)
theory Wrapmem
  imports Prelude
begin

text \<open>
  The allocation wrappers of \<^verbatim>\<open>wrapmem.c\<close> as built with \<^verbatim>\<open>ALLOC_DEBUG\<close> 2: every allocation carries an
  \<^verbatim>\<open>alloc_info\<close> in front of it, which is linked into the list \<^verbatim>\<open>allocs\<close>, and its size is added to the 32-bit counter
  of its type; slack allocations, which the driver need not free, are linked into \<^verbatim>\<open>slack_allocs\<close>.  The kernel
  allocators are parameters: each function takes the address the allocator returns (0 when it fails), and
  \<open>released\<close> records what is handed back to them.  The flag values and the address range of vmalloc are those of
  the kernel, the record \<open>mem_env\<close>.

  Shown are the invariant that each counter is the sum of the sizes of the live allocations of its type (modulo
  \<open>2 ^ 32\<close>), that a block that is allocated and freed is released to the allocator it came from and leaves lists and
  counters as they were, and that wrapmem_exit releases every block that is left, once.
\<close>

section \<open>State\<close>

datatype alloc_type =
    ALLOC_TYPE_KMALLOC_ATOMIC | ALLOC_TYPE_KMALLOC_NON_ATOMIC | ALLOC_TYPE_VMALLOC_ATOMIC | ALLOC_TYPE_VMALLOC_NON_ATOMIC
  | ALLOC_TYPE_SLACK | ALLOC_TYPE_PAGES

record alloc_info =
  ai_type :: alloc_type
  ai_size :: u64
  ai_file :: string
  ai_line :: int
  ai_tag :: u32

datatype release = Kfree ptr | Vfree ptr | Free_Pages ptr u64

record mem_env =
  GFP_ATOMIC :: u32
  GFP_KERNEL :: u32
  VMALLOC_START :: u64
  VMALLOC_END :: u64
  PAGE_SIZE :: u64

text \<open>\<open>bytes\<close> is the contents of memory, which only the zeroing allocators change.\<close>

record mem_state =
  allocs :: "ptr list"
  alloc_infos :: "ptr \<Rightarrow> alloc_info option"
  slack_allocs :: "ptr list"
  slack_infos :: "ptr \<Rightarrow> u64 option"
  alloc_sizes :: "alloc_type \<Rightarrow> u32"
  bytes :: "ptr \<Rightarrow> u8"
  released :: "release list"

text \<open>\<^verbatim>\<open>sizeof(struct alloc_info)\<close> is 48, \<^verbatim>\<open>sizeof(struct slack_alloc_info)\<close> 24 with the x86-64 ABI.\<close>

definition sizeof_alloc_info :: u64 where "sizeof_alloc_info = 48"
definition sizeof_slack_info :: u64 where "sizeof_slack_info = 24"

definition count_add :: "alloc_type \<Rightarrow> u32 \<Rightarrow> mem_state \<Rightarrow> mem_state" where
  "count_add t n s = s\<lparr>alloc_sizes := (alloc_sizes s)(t := alloc_sizes s t + n)\<rparr>"

definition memset_0 :: "ptr \<Rightarrow> u64 \<Rightarrow> mem_state \<Rightarrow> mem_state" where
  "memset_0 p n s = s\<lparr>bytes := (\<lambda>a. if a - p < n then 0 else bytes s a)\<rparr>"

definition irql_gfp :: "mem_env \<Rightarrow> bool \<Rightarrow> u32" where
  "irql_gfp e in_atomic = (if in_atomic then GFP_ATOMIC e else GFP_KERNEL e)"

section \<open>Slack allocations\<close>

definition slack_kmalloc :: "ptr \<Rightarrow> u64 \<Rightarrow> mem_state \<Rightarrow> mem_state \<times> ptr" where
  "slack_kmalloc info sz s =
     (if info = NULL then (s, NULL)
      else (count_add ALLOC_TYPE_SLACK (ucast sz)
              (s\<lparr>slack_allocs := slack_allocs s @ [info], slack_infos := (slack_infos s)(info \<mapsto> sz)\<rparr>),
            info + sizeof_slack_info))"

definition slack_kfree :: "ptr \<Rightarrow> mem_state \<Rightarrow> mem_state option" where
  "slack_kfree p s =
     (let info = p - sizeof_slack_info in
      do { sz \<leftarrow> slack_infos s info;
           if info \<notin> set (slack_allocs s) then None
           else Some (count_add ALLOC_TYPE_SLACK (- ucast sz)
                  (s\<lparr>slack_allocs := remove1 info (slack_allocs s), slack_infos := (slack_infos s)(info := None),
                     released := released s @ [Kfree info]\<rparr>)) })"

definition slack_kzalloc :: "ptr \<Rightarrow> u64 \<Rightarrow> mem_state \<Rightarrow> mem_state \<times> ptr" where
  "slack_kzalloc info sz s =
     (let (s1, p) = slack_kmalloc info sz s in (if p \<noteq> NULL then memset_0 p sz s1 else s1, p))"

section \<open>Tracked allocations\<close>

text \<open>What all allocation functions do with the block at \<open>info\<close>, and what all release functions do before they hand
  it back: the statements that are textually the same in each of them.\<close>

definition track :: "ptr \<Rightarrow> alloc_type \<Rightarrow> u64 \<Rightarrow> string \<Rightarrow> int \<Rightarrow> mem_state \<Rightarrow> mem_state \<times> ptr" where
  "track info t sz fl ln s =
     (if info = NULL then (s, NULL)
      else (count_add t (ucast sz)
              (s\<lparr>allocs := allocs s @ [info],
                 alloc_infos := (alloc_infos s)(info \<mapsto> \<lparr>ai_type = t, ai_size = sz, ai_file = fl, ai_line = ln, ai_tag = 0\<rparr>)\<rparr>),
            info + sizeof_alloc_info))"

definition untrack :: "ptr \<Rightarrow> mem_state \<Rightarrow> (mem_state \<times> alloc_info) option" where
  "untrack info s =
     do { ai \<leftarrow> alloc_infos s info;
          if info \<notin> set (allocs s) then None
          else Some (count_add (ai_type ai) (- ucast (ai_size ai))
                 (s\<lparr>allocs := remove1 info (allocs s), alloc_infos := (alloc_infos s)(info := None)\<rparr>), ai) }"

definition wrap_kmalloc :: "mem_env \<Rightarrow> ptr \<Rightarrow> u64 \<Rightarrow> u32 \<Rightarrow> string \<Rightarrow> int \<Rightarrow> mem_state \<Rightarrow> mem_state \<times> ptr" where
  "wrap_kmalloc e info sz flags fl ln s =
     track info (if flags AND GFP_ATOMIC e \<noteq> 0 then ALLOC_TYPE_KMALLOC_ATOMIC else ALLOC_TYPE_KMALLOC_NON_ATOMIC) sz fl ln s"

definition wrap_kzalloc :: "mem_env \<Rightarrow> ptr \<Rightarrow> u64 \<Rightarrow> u32 \<Rightarrow> string \<Rightarrow> int \<Rightarrow> mem_state \<Rightarrow> mem_state \<times> ptr" where
  "wrap_kzalloc e info sz flags fl ln s =
     (let (s1, p) = wrap_kmalloc e info sz flags fl ln s in (if p \<noteq> NULL then memset_0 p sz s1 else s1, p))"

definition wrap_kfree :: "ptr \<Rightarrow> mem_state \<Rightarrow> mem_state option" where
  "wrap_kfree p s =
     (if p = NULL then Some s
      else do { (s1, ai) \<leftarrow> untrack (p - sizeof_alloc_info) s;
                Some (if ai_type ai = ALLOC_TYPE_KMALLOC_ATOMIC \<or> ai_type ai = ALLOC_TYPE_KMALLOC_NON_ATOMIC
                      then s1\<lparr>released := released s1 @ [Kfree (p - sizeof_alloc_info)]\<rparr> else s1) })"

definition wrap_vmalloc :: "ptr \<Rightarrow> u64 \<Rightarrow> string \<Rightarrow> int \<Rightarrow> mem_state \<Rightarrow> mem_state \<times> ptr" where
  "wrap_vmalloc info sz fl ln s = track info ALLOC_TYPE_VMALLOC_NON_ATOMIC sz fl ln s"

definition wrap__vmalloc :: "mem_env \<Rightarrow> ptr \<Rightarrow> u64 \<Rightarrow> u32 \<Rightarrow> string \<Rightarrow> int \<Rightarrow> mem_state \<Rightarrow> mem_state \<times> ptr" where
  "wrap__vmalloc e info sz gfp_mask fl ln s =
     track info (if gfp_mask AND GFP_ATOMIC e \<noteq> 0 then ALLOC_TYPE_VMALLOC_ATOMIC else ALLOC_TYPE_VMALLOC_NON_ATOMIC) sz fl ln s"

definition wrap_vfree :: "ptr \<Rightarrow> mem_state \<Rightarrow> mem_state option" where
  "wrap_vfree p s =
     do { (s1, ai) \<leftarrow> untrack (p - sizeof_alloc_info) s;
          Some (if ai_type ai = ALLOC_TYPE_VMALLOC_ATOMIC \<or> ai_type ai = ALLOC_TYPE_VMALLOC_NON_ATOMIC
                then s1\<lparr>released := released s1 @ [Vfree (p - sizeof_alloc_info)]\<rparr> else s1) }"

text \<open>The size of a page allocation is an unsigned int and includes the info.\<close>

definition wrap_alloc_pages :: "ptr \<Rightarrow> u32 \<Rightarrow> string \<Rightarrow> int \<Rightarrow> mem_state \<Rightarrow> mem_state \<times> ptr" where
  "wrap_alloc_pages info sz fl ln s = track info ALLOC_TYPE_PAGES (ucast (sz + ucast sizeof_alloc_info)) fl ln s"

definition wrap_free_pages :: "ptr \<Rightarrow> mem_state \<Rightarrow> mem_state option" where
  "wrap_free_pages p s =
     do { (s1, ai) \<leftarrow> untrack (p - sizeof_alloc_info) s;
          Some (if ai_type ai = ALLOC_TYPE_PAGES
                then s1\<lparr>released := released s1 @ [Free_Pages (p - sizeof_alloc_info) (ai_size ai)]\<rparr> else s1) }"

text \<open>The pool allocator of \<^verbatim>\<open>ntoskernel.c\<close>.  \<^verbatim>\<open>nvmalloc.c\<close> does not include \<^verbatim>\<open>wrapmem.h\<close>, so a block from \<^verbatim>\<open>nvmalloc\<close> has no
  \<^verbatim>\<open>alloc_info\<close> in front of it.  The three addresses are what kmalloc, nvmalloc and vmalloc return.\<close>

definition ExAllocatePoolWithTag ::
  "mem_env \<Rightarrow> bool \<Rightarrow> ptr \<Rightarrow> ptr \<Rightarrow> ptr \<Rightarrow> u64 \<Rightarrow> mem_state \<Rightarrow> mem_state \<times> ptr" where
  "ExAllocatePoolWithTag e in_atomic k nv v sz s =
     (if sz < PAGE_SIZE e then wrap_kmalloc e k sz (irql_gfp e in_atomic) ''ntoskernel.c'' 822 s
      else if irql_gfp e in_atomic AND GFP_ATOMIC e \<noteq> 0 then (s, nv)
      else wrap_vmalloc v sz ''ntoskernel.c'' 829 s)"

definition wrap_ExAllocatePoolWithTag ::
  "mem_env \<Rightarrow> bool \<Rightarrow> ptr \<Rightarrow> ptr \<Rightarrow> ptr \<Rightarrow> u64 \<Rightarrow> u32 \<Rightarrow> string \<Rightarrow> int \<Rightarrow> mem_state \<Rightarrow> (mem_state \<times> ptr) option" where
  "wrap_ExAllocatePoolWithTag e in_atomic k nv v sz tag fl ln s =
     (let (s1, addr) = ExAllocatePoolWithTag e in_atomic k nv v sz s in
      if addr = NULL then Some (s1, NULL)
      else do { ai \<leftarrow> alloc_infos s1 (addr - sizeof_alloc_info);
                Some (s1\<lparr>alloc_infos := (alloc_infos s1)(addr - sizeof_alloc_info \<mapsto> ai\<lparr>ai_file := fl, ai_line := ln, ai_tag := tag\<rparr>)\<rparr>, addr) })"

definition ExFreePoolWithTag :: "mem_env \<Rightarrow> ptr \<Rightarrow> mem_state \<Rightarrow> mem_state option" where
  "ExFreePoolWithTag e addr s = (if addr < VMALLOC_START e \<or> VMALLOC_END e \<le> addr then wrap_kfree addr s else wrap_vfree addr s)"

definition ExFreePool :: "mem_env \<Rightarrow> ptr \<Rightarrow> mem_state \<Rightarrow> mem_state option" where
  "ExFreePool e addr s = ExFreePoolWithTag e addr s"

text \<open>\<^verbatim>\<open>alloc_size\<close> reads the counter of a type given as an \<^verbatim>\<open>int\<close>, \<open>-22\<close> is \<^verbatim>\<open>-EINVAL\<close>.\<close>

definition alloc_types :: "alloc_type list" where
  "alloc_types = [ALLOC_TYPE_KMALLOC_ATOMIC, ALLOC_TYPE_KMALLOC_NON_ATOMIC, ALLOC_TYPE_VMALLOC_ATOMIC, ALLOC_TYPE_VMALLOC_NON_ATOMIC,
     ALLOC_TYPE_SLACK, ALLOC_TYPE_PAGES]"

definition alloc_size :: "int \<Rightarrow> mem_state \<Rightarrow> int" where
  "alloc_size t s = (if 0 \<le> t \<and> t < 6 then sint (alloc_sizes s (alloc_types ! nat t)) else - 22)"

definition wrapmem_init :: "mem_state \<Rightarrow> mem_state" where
  "wrapmem_init s = s\<lparr>allocs := [], slack_allocs := []\<rparr>"

text \<open>The state at module load: nothing is allocated, the counters are static zeros.\<close>

definition wrapmem_load :: "(ptr \<Rightarrow> u8) \<Rightarrow> mem_state" where
  "wrapmem_load m = wrapmem_init
     \<lparr>allocs = [], alloc_infos = Map.empty, slack_allocs = [], slack_infos = Map.empty, alloc_sizes = (\<lambda>_. 0), bytes = m, released = []\<rparr>"

text \<open>The two loops of \<^verbatim>\<open>wrapmem_exit\<close> over the lists; the second subtracts the sizes of leaked blocks from the slack counter.\<close>

definition release_of :: "ptr \<Rightarrow> alloc_info \<Rightarrow> release list" where
  "release_of info ai =
     (case ai_type ai of
        ALLOC_TYPE_KMALLOC_ATOMIC \<Rightarrow> [Kfree info] | ALLOC_TYPE_KMALLOC_NON_ATOMIC \<Rightarrow> [Kfree info]
      | ALLOC_TYPE_VMALLOC_ATOMIC \<Rightarrow> [Vfree info] | ALLOC_TYPE_VMALLOC_NON_ATOMIC \<Rightarrow> [Vfree info]
      | ALLOC_TYPE_PAGES \<Rightarrow> [Free_Pages info (ai_size ai)] | ALLOC_TYPE_SLACK \<Rightarrow> [])"

fun exit_slack :: "ptr list \<Rightarrow> mem_state \<Rightarrow> mem_state option" where
  "exit_slack [] s = Some s"
| "exit_slack (info # is) s =
     do { sz \<leftarrow> slack_infos s info;
          exit_slack is (count_add ALLOC_TYPE_SLACK (- ucast sz)
            (s\<lparr>slack_allocs := is, slack_infos := (slack_infos s)(info := None), released := released s @ [Kfree info]\<rparr>)) }"

fun exit_allocs :: "ptr list \<Rightarrow> mem_state \<Rightarrow> mem_state option" where
  "exit_allocs [] s = Some s"
| "exit_allocs (info # is) s =
     do { ai \<leftarrow> alloc_infos s info;
          exit_allocs is (count_add ALLOC_TYPE_SLACK (- ucast (ai_size ai))
            (s\<lparr>allocs := is, alloc_infos := (alloc_infos s)(info := None), released := released s @ release_of info ai\<rparr>)) }"

text \<open>The warnings in between: the types whose counter is not zero.\<close>

definition leaking :: "mem_state \<Rightarrow> alloc_type list" where
  "leaking s = filter (\<lambda>t. alloc_sizes s t \<noteq> 0) alloc_types"

definition wrapmem_exit :: "mem_state \<Rightarrow> (mem_state \<times> alloc_type list) option" where
  "wrapmem_exit s =
     do { s1 \<leftarrow> exit_slack (slack_allocs s) s;
          s2 \<leftarrow> exit_allocs (allocs s1) s1;
          Some (s2, leaking s1) }"

section \<open>The counters\<close>

text \<open>The size that the block at \<open>p\<close> contributes to a counter, \<open>w\<close> being the weight of its info.\<close>

definition weight :: "('a \<Rightarrow> u32) \<Rightarrow> (ptr \<Rightarrow> 'a option) \<Rightarrow> ptr \<Rightarrow> u32" where
  "weight w m p = (case m p of Some v \<Rightarrow> w v | None \<Rightarrow> 0)"

definition size_as :: "alloc_type \<Rightarrow> alloc_info \<Rightarrow> u32" where
  "size_as t ai = (if ai_type ai = t then ucast (ai_size ai) else 0)"

definition total :: "('a \<Rightarrow> u32) \<Rightarrow> (ptr \<Rightarrow> 'a option) \<Rightarrow> ptr list \<Rightarrow> u32" where
  "total w m ps = sum_list (map (weight w m) ps)"

text \<open>The list of a kind holds each live block once.\<close>

definition registered :: "ptr list \<Rightarrow> (ptr \<Rightarrow> 'a option) \<Rightarrow> bool" where
  "registered xs m \<longleftrightarrow> distinct xs \<and> set xs = dom m"

definition wm_inv :: "mem_state \<Rightarrow> bool" where
  "wm_inv s \<longleftrightarrow> registered (allocs s) (alloc_infos s) \<and> registered (slack_allocs s) (slack_infos s) \<and>
     (\<forall>p ai. alloc_infos s p = Some ai \<longrightarrow> ai_type ai \<noteq> ALLOC_TYPE_SLACK) \<and>
     (\<forall>t. t \<noteq> ALLOC_TYPE_SLACK \<longrightarrow> alloc_sizes s t = total (size_as t) (alloc_infos s) (allocs s)) \<and>
     alloc_sizes s ALLOC_TYPE_SLACK = total ucast (slack_infos s) (slack_allocs s)"

lemma registered_add:
  "registered xs m \<Longrightarrow> m p = None \<Longrightarrow> registered (xs @ [p]) (m(p \<mapsto> v))"
  unfolding registered_def by auto

lemma registered_remove:
  "registered xs m \<Longrightarrow> registered (remove1 p xs) (m(p := None))"
  unfolding registered_def by auto

lemma registered_set: "registered xs m \<Longrightarrow> p \<in> set xs \<longleftrightarrow> m p \<noteq> None"
  by (auto simp: registered_def)

text \<open>A sum over a list of blocks when the entry of one block changes.\<close>

lemma total_cong: "(\<And>p. p \<in> set ps \<Longrightarrow> m p = m' p) \<Longrightarrow> total w m ps = total w m' ps"
  unfolding total_def by (rule arg_cong [where f = sum_list], rule map_cong) (auto simp: weight_def)

lemma total_add:
  assumes "registered ps m" "m p = None"
  shows "total w (m(p \<mapsto> v)) (ps @ [p]) = total w m ps + w v"
proof -
  have "total w (m(p \<mapsto> v)) ps = total w m ps" using assms by (intro total_cong) (auto simp: registered_set)
  thus ?thesis by (simp add: total_def weight_def)
qed

lemma total_remove:
  assumes "registered ps m" "m p = Some v"
  shows "total w (m(p := None)) (remove1 p ps) = total w m ps - w v"
proof -
  have p: "p \<in> set ps" "distinct ps" using assms by (auto simp: registered_set registered_def)
  have "total w (m(p := None)) (remove1 p ps) = total w m (remove1 p ps)" using p by (intro total_cong) auto
  moreover have "total w m ps = weight w m p + total w m (remove1 p ps)"
    unfolding total_def by (rule sum_list_map_remove1 [OF p(1)])
  ultimately show ?thesis using assms(2) by (simp add: weight_def)
qed

lemma track_inv [inv_intros]:
  assumes "wm_inv s" "alloc_infos s info = None" "t \<noteq> ALLOC_TYPE_SLACK"
  shows "wm_inv (fst (track info t sz fl ln s))"
proof (cases "info = NULL")
  case False
  let ?ai = "\<lparr>ai_type = t, ai_size = sz, ai_file = fl, ai_line = ln, ai_tag = 0\<rparr>"
  have f: "allocs (fst (track info t sz fl ln s)) = allocs s @ [info]"
    "alloc_infos (fst (track info t sz fl ln s)) = (alloc_infos s)(info \<mapsto> ?ai)"
    "alloc_sizes (fst (track info t sz fl ln s)) = (alloc_sizes s)(t := alloc_sizes s t + ucast sz)"
    "slack_allocs (fst (track info t sz fl ln s)) = slack_allocs s" "slack_infos (fst (track info t sz fl ln s)) = slack_infos s"
    using False by (simp_all add: track_def count_add_def)
  have r: "registered (allocs s) (alloc_infos s)" using assms(1) by (simp add: wm_inv_def)
  show ?thesis
    using assms(1,3) registered_add [OF r assms(2), of ?ai] unfolding wm_inv_def f total_add [OF r assms(2)]
    by (simp add: size_as_def)
qed (use assms in \<open>simp add: track_def\<close>)

lemma untrack_inv [inv_intros]:
  assumes "wm_inv s" "untrack info s = Some (s', ai)"
  shows "wm_inv s'"
proof -
  from assms(2) have ai: "alloc_infos s info = Some ai"
    and f: "allocs s' = remove1 info (allocs s)" "alloc_infos s' = (alloc_infos s)(info := None)"
      "alloc_sizes s' = (alloc_sizes s)(ai_type ai := alloc_sizes s (ai_type ai) + - ucast (ai_size ai))"
      "slack_allocs s' = slack_allocs s" "slack_infos s' = slack_infos s"
    by (auto simp: untrack_def count_add_def split: Option.bind_splits if_splits)
  have r: "registered (allocs s) (alloc_infos s)" and t: "ai_type ai \<noteq> ALLOC_TYPE_SLACK"
    using assms(1) ai by (auto simp: wm_inv_def)
  show ?thesis
    using assms(1) t registered_remove [OF r, of info] unfolding wm_inv_def f total_remove [OF r ai] by (auto simp: size_as_def)
qed

lemma slack_kmalloc_inv [inv_intros]:
  assumes "wm_inv s" "slack_infos s info = None"
  shows "wm_inv (fst (slack_kmalloc info sz s))"
proof (cases "info = NULL")
  case False
  have r: "registered (slack_allocs s) (slack_infos s)" using assms(1) by (simp add: wm_inv_def)
  show ?thesis
    using assms(1) False registered_add [OF r assms(2), of sz] total_add [OF r assms(2), of ucast sz]
    by (simp add: wm_inv_def slack_kmalloc_def count_add_def)
qed (use assms in \<open>simp add: slack_kmalloc_def\<close>)

lemma slack_kfree_inv [inv_intros]:
  assumes "wm_inv s" "slack_kfree p s = Some s'"
  shows "wm_inv s'"
proof -
  define info where "info = p - sizeof_slack_info"
  from assms(2) obtain sz where sz: "slack_infos s info = Some sz"
    and f: "allocs s' = allocs s" "alloc_infos s' = alloc_infos s"
      "alloc_sizes s' = (alloc_sizes s)(ALLOC_TYPE_SLACK := alloc_sizes s ALLOC_TYPE_SLACK + - ucast sz)"
      "slack_allocs s' = remove1 info (slack_allocs s)" "slack_infos s' = (slack_infos s)(info := None)"
    by (auto simp: slack_kfree_def Let_def count_add_def info_def split: Option.bind_splits if_splits)
  have r: "registered (slack_allocs s) (slack_infos s)" using assms(1) by (simp add: wm_inv_def)
  show ?thesis
    using assms(1) registered_remove [OF r, of info] unfolding wm_inv_def f total_remove [OF r sz] by auto
qed

lemma memset_0_inv [inv_intros]: "wm_inv s \<Longrightarrow> wm_inv (memset_0 p n s)"
  and released_inv [inv_intros]: "wm_inv s \<Longrightarrow> wm_inv (s\<lparr>released := rs\<rparr>)"
  by (simp_all add: wm_inv_def memset_0_def)

lemma retag_inv [inv_intros]:
  assumes "wm_inv s" "alloc_infos s p = Some ai"
  shows "wm_inv (s\<lparr>alloc_infos := (alloc_infos s)(p \<mapsto> ai\<lparr>ai_file := fl, ai_line := ln, ai_tag := tg\<rparr>)\<rparr>)"
proof -
  have "weight (size_as t) ((alloc_infos s)(p \<mapsto> ai\<lparr>ai_file := fl, ai_line := ln, ai_tag := tg\<rparr>)) = weight (size_as t) (alloc_infos s)" for t
    using assms(2) by (auto simp: weight_def size_as_def fun_eq_iff)
  thus ?thesis using assms by (auto simp: wm_inv_def total_def registered_def)
qed

text \<open>The operations as the rest of the driver calls them.  An allocator never returns an address that holds the info of a
  live block; that is all that is assumed of it.\<close>

inductive wm_step :: "mem_env \<Rightarrow> mem_state \<Rightarrow> mem_state \<Rightarrow> bool" for e where
  slack_kmalloc_step: "slack_infos s info = None \<Longrightarrow> wm_step e s (fst (slack_kmalloc info sz s))"
| slack_kzalloc_step: "slack_infos s info = None \<Longrightarrow> wm_step e s (fst (slack_kzalloc info sz s))"
| slack_kfree_step: "slack_kfree p s = Some s' \<Longrightarrow> wm_step e s s'"
| wrap_kmalloc_step: "alloc_infos s info = None \<Longrightarrow> wm_step e s (fst (wrap_kmalloc e info sz flags fl ln s))"
| wrap_kzalloc_step: "alloc_infos s info = None \<Longrightarrow> wm_step e s (fst (wrap_kzalloc e info sz flags fl ln s))"
| wrap_kfree_step: "wrap_kfree p s = Some s' \<Longrightarrow> wm_step e s s'"
| wrap_vmalloc_step: "alloc_infos s info = None \<Longrightarrow> wm_step e s (fst (wrap_vmalloc info sz fl ln s))"
| wrap__vmalloc_step: "alloc_infos s info = None \<Longrightarrow> wm_step e s (fst (wrap__vmalloc e info sz flags fl ln s))"
| wrap_vfree_step: "wrap_vfree p s = Some s' \<Longrightarrow> wm_step e s s'"
| wrap_alloc_pages_step: "alloc_infos s info = None \<Longrightarrow> wm_step e s (fst (wrap_alloc_pages info sz32 fl ln s))"
| wrap_free_pages_step: "wrap_free_pages p s = Some s' \<Longrightarrow> wm_step e s s'"
| pool_alloc_step: "alloc_infos s k = None \<Longrightarrow> alloc_infos s v = None \<Longrightarrow>
    wrap_ExAllocatePoolWithTag e in_atomic k nv v sz tag fl ln s = Some (s', p) \<Longrightarrow> wm_step e s s'"
| pool_free_step: "ExFreePoolWithTag e p s = Some s' \<Longrightarrow> wm_step e s s'"

inductive wm_reachable :: "mem_env \<Rightarrow> mem_state \<Rightarrow> bool" for e where
  load: "wm_reachable e (wrapmem_load m)"
| step: "wm_reachable e s \<Longrightarrow> wm_step e s s' \<Longrightarrow> wm_reachable e s'"

lemma slack_kzalloc_inv [inv_intros]: "wm_inv s \<Longrightarrow> slack_infos s info = None \<Longrightarrow> wm_inv (fst (slack_kzalloc info sz s))"
  using slack_kmalloc_inv [of s info sz] by (auto simp: slack_kzalloc_def memset_0_inv split: prod.splits)

lemma alloc_inv [inv_intros]:
  assumes "wm_inv s" "alloc_infos s info = None"
  shows "wm_inv (fst (wrap_kmalloc e info sz flags fl ln s))" "wm_inv (fst (wrap_kzalloc e info sz flags fl ln s))"
    "wm_inv (fst (wrap_vmalloc info sz fl ln s))" "wm_inv (fst (wrap__vmalloc e info sz flags fl ln s))"
    "wm_inv (fst (wrap_alloc_pages info sz32 fl ln s))"
proof -
  show k: "wm_inv (fst (wrap_kmalloc e info sz flags fl ln s))"
    unfolding wrap_kmalloc_def by (rule track_inv) (use assms in auto)
  show "wm_inv (fst (wrap_kzalloc e info sz flags fl ln s))"
    using k by (auto simp: wrap_kzalloc_def memset_0_inv split: prod.splits)
  show "wm_inv (fst (wrap_vmalloc info sz fl ln s))"
    unfolding wrap_vmalloc_def by (rule track_inv) (use assms in auto)
  show "wm_inv (fst (wrap__vmalloc e info sz flags fl ln s))"
    unfolding wrap__vmalloc_def by (rule track_inv) (use assms in auto)
  show "wm_inv (fst (wrap_alloc_pages info sz32 fl ln s))"
    unfolding wrap_alloc_pages_def by (rule track_inv) (use assms in auto)
qed

lemma free_inv [inv_intros]:
  assumes "wm_inv s"
  shows "wrap_kfree p s = Some s' \<Longrightarrow> wm_inv s'" "wrap_vfree p s = Some s' \<Longrightarrow> wm_inv s'" "wrap_free_pages p s = Some s' \<Longrightarrow> wm_inv s'"
  using assms
  by (auto simp: wrap_kfree_def wrap_vfree_def wrap_free_pages_def dest: untrack_inv
      split: if_splits Option.bind_splits intro!: released_inv)

lemma pool_inv [inv_intros]:
  assumes "wm_inv s"
  shows "alloc_infos s k = None \<Longrightarrow> alloc_infos s v = None \<Longrightarrow>
      wrap_ExAllocatePoolWithTag e in_atomic k nv v sz tag fl ln s = Some (s', p) \<Longrightarrow> wm_inv s'"
    and "ExFreePoolWithTag e p s = Some s' \<Longrightarrow> wm_inv s'"
proof -
  assume "alloc_infos s k = None" "alloc_infos s v = None"
  hence "wm_inv (fst (ExAllocatePoolWithTag e in_atomic k nv v sz s))"
    using assms by (simp add: ExAllocatePoolWithTag_def alloc_inv)
  moreover assume "wrap_ExAllocatePoolWithTag e in_atomic k nv v sz tag fl ln s = Some (s', p)"
  ultimately show "wm_inv s'"
    by (auto simp: wrap_ExAllocatePoolWithTag_def retag_inv split: prod.splits if_splits Option.bind_splits)
next
  show "ExFreePoolWithTag e p s = Some s' \<Longrightarrow> wm_inv s'"
    using free_inv(1,2) [OF assms, of p s'] unfolding ExFreePoolWithTag_def by presburger
qed

lemma wm_step_inv:
  assumes "wm_step e s s'" "wm_inv s"
  shows "wm_inv s'"
  using assms(1)
proof cases
  case slack_kfree_step thus ?thesis by (rule slack_kfree_inv [OF assms(2)])
next
  case wrap_kfree_step thus ?thesis by (rule free_inv(1) [OF assms(2)])
next
  case wrap_vfree_step thus ?thesis by (rule free_inv(2) [OF assms(2)])
next
  case wrap_free_pages_step thus ?thesis by (rule free_inv(3) [OF assms(2)])
next
  case pool_alloc_step thus ?thesis by (rule pool_inv(1) [OF assms(2)])
next
  case pool_free_step thus ?thesis by (rule pool_inv(2) [OF assms(2)])
qed (simp_all add: assms(2) slack_kmalloc_inv slack_kzalloc_inv alloc_inv)

lemma wm_reachable_inv: "wm_reachable e s \<Longrightarrow> wm_inv s"
proof (induction rule: wm_reachable.induct)
  case (load m)
  show ?case by (simp add: wm_inv_def wrapmem_load_def wrapmem_init_def registered_def total_def)
qed (rule wm_step_inv)

section \<open>Unloading\<close>

lemma exit_slack_all:
  assumes "registered is (slack_infos s)" "slack_allocs s = is"
  shows "exit_slack is s = Some (s\<lparr>slack_allocs := [], slack_infos := Map.empty,
    alloc_sizes := (alloc_sizes s)(ALLOC_TYPE_SLACK := alloc_sizes s ALLOC_TYPE_SLACK - total ucast (slack_infos s) is),
    released := released s @ map Kfree is\<rparr>)"
  using assms
proof (induction "is" arbitrary: s)
  case Nil
  hence "slack_infos s = Map.empty" by (auto simp: registered_def)
  thus ?case using Nil by (simp add: total_def)
next
  case (Cons i "is")
  obtain sz where sz: "slack_infos s i = Some sz" using Cons.prems(1) by (auto simp: registered_def)
  have r: "registered is ((slack_infos s)(i := None))" using Cons.prems(1) by (auto simp: registered_def)
  have "total ucast ((slack_infos s)(i := None)) is = total ucast (slack_infos s) is"
    using Cons.prems(1) by (intro total_cong) (auto simp: registered_def)
  hence "total ucast (slack_infos s) (i # is) = ucast sz + total ucast ((slack_infos s)(i := None)) is"
    using sz by (simp add: total_def weight_def)
  hence u: "alloc_sizes s ALLOC_TYPE_SLACK - total ucast (slack_infos s) (i # is) =
    alloc_sizes s ALLOC_TYPE_SLACK + - ucast sz - total ucast ((slack_infos s)(i := None)) is" by simp
  let ?s = "count_add ALLOC_TYPE_SLACK (- ucast sz)
    (s\<lparr>slack_allocs := is, slack_infos := (slack_infos s)(i := None), released := released s @ [Kfree i]\<rparr>)"
  have f: "slack_infos ?s = (slack_infos s)(i := None)" "slack_allocs ?s = is" "released ?s = released s @ [Kfree i]"
    "alloc_sizes ?s = (alloc_sizes s)(ALLOC_TYPE_SLACK := alloc_sizes s ALLOC_TYPE_SLACK + - ucast sz)"
    by (simp_all add: count_add_def)
  have "exit_slack (i # is) s = exit_slack is ?s" using sz by simp
  also note Cons.IH [of ?s, unfolded f, OF r refl]
  finally show ?case unfolding u by (simp add: count_add_def fun_upd_same del: fun_upd_apply exit_slack.simps)
qed

lemma exit_allocs_all:
  assumes "registered is (alloc_infos s)" "allocs s = is"
  shows "exit_allocs is s = Some (s\<lparr>allocs := [], alloc_infos := Map.empty,
    alloc_sizes := (alloc_sizes s)(ALLOC_TYPE_SLACK := alloc_sizes s ALLOC_TYPE_SLACK - total (\<lambda>ai. ucast (ai_size ai)) (alloc_infos s) is),
    released := released s @ concat (map (\<lambda>i. release_of i (the (alloc_infos s i))) is)\<rparr>)"
  using assms
proof (induction "is" arbitrary: s)
  case Nil
  hence "alloc_infos s = Map.empty" by (auto simp: registered_def)
  thus ?case using Nil by (simp add: total_def)
next
  case (Cons i "is")
  let ?m = "(alloc_infos s)(i := None)"
  obtain ai where ai: "alloc_infos s i = Some ai" using Cons.prems(1) by (auto simp: registered_def)
  have r: "registered is ?m" and n: "i \<notin> set is" using Cons.prems(1) by (auto simp: registered_def)
  have "total (\<lambda>ai. ucast (ai_size ai)) ?m is = total (\<lambda>ai. ucast (ai_size ai)) (alloc_infos s) is"
    using n by (intro total_cong) auto
  hence "total (\<lambda>ai. ucast (ai_size ai)) (alloc_infos s) (i # is) = ucast (ai_size ai) + total (\<lambda>ai. ucast (ai_size ai)) ?m is"
    using ai by (simp add: total_def weight_def)
  moreover have "concat (map (\<lambda>i. release_of i (the (?m i))) is) = concat (map (\<lambda>i. release_of i (the (alloc_infos s i))) is)"
    using n by (intro arg_cong [where f = concat] map_cong) auto
  ultimately have u: "alloc_sizes s ALLOC_TYPE_SLACK - total (\<lambda>ai. ucast (ai_size ai)) (alloc_infos s) (i # is) =
      alloc_sizes s ALLOC_TYPE_SLACK + - ucast (ai_size ai) - total (\<lambda>ai. ucast (ai_size ai)) ?m is"
    "concat (map (\<lambda>i. release_of i (the (alloc_infos s i))) (i # is)) =
      release_of i ai @ concat (map (\<lambda>i. release_of i (the (?m i))) is)"
    using ai by simp_all
  let ?s = "count_add ALLOC_TYPE_SLACK (- ucast (ai_size ai))
    (s\<lparr>allocs := is, alloc_infos := ?m, released := released s @ release_of i ai\<rparr>)"
  have f: "alloc_infos ?s = ?m" "allocs ?s = is" "released ?s = released s @ release_of i ai"
    "alloc_sizes ?s = (alloc_sizes s)(ALLOC_TYPE_SLACK := alloc_sizes s ALLOC_TYPE_SLACK + - ucast (ai_size ai))"
    by (simp_all add: count_add_def)
  have "exit_allocs (i # is) s = exit_allocs is ?s" using ai by simp
  also note Cons.IH [of ?s, unfolded f, OF r refl]
  finally show ?case unfolding u by (simp add: count_add_def fun_upd_same del: fun_upd_apply exit_allocs.simps)
qed

text \<open>C19: In every state that the allocation wrappers reach, each list holds exactly the live blocks of its kind, once, and
  the counter of each type is the sum of the sizes of its live blocks modulo \<open>2 ^ 32\<close>.\<close>

theorem alloc_counters_exact:
  assumes "wm_reachable e s"
  shows "distinct (allocs s) \<and> set (allocs s) = dom (alloc_infos s) \<and>
    distinct (slack_allocs s) \<and> set (slack_allocs s) = dom (slack_infos s) \<and>
    (\<forall>t. alloc_sizes s t = (if t = ALLOC_TYPE_SLACK then total ucast (slack_infos s) (slack_allocs s)
                            else total (size_as t) (alloc_infos s) (allocs s)))"
  using wm_reachable_inv [OF assms] by (auto simp: wm_inv_def registered_def)

definition wm_env :: mem_env where
  "wm_env = \<lparr>GFP_ATOMIC = 0x20, GFP_KERNEL = 0xD0, VMALLOC_START = 0x9000, VMALLOC_END = 0xF000, PAGE_SIZE = 4096\<rparr>"

definition wm_demo :: mem_state where
  "wm_demo = fst (wrap_vmalloc 0x9100 5000 ''loader.c'' 1 (fst (slack_kmalloc 0x2000 64
     (fst (wrap_kmalloc wm_env 0x1000 100 0x20 ''ndis.c'' 7 (wrapmem_load (\<lambda>_. 0)))))))"

lemmas wm_demo_simps = wm_demo_def wm_env_def wrapmem_load_def wrapmem_init_def wrap_kmalloc_def wrap_vmalloc_def slack_kmalloc_def
  track_def count_add_def sizeof_alloc_info_def sizeof_slack_info_def

lemma wm_demo_reachable: "wm_reachable wm_env wm_demo"
proof -
  define s0 where "s0 = wrapmem_load (\<lambda>_. 0)"
  define s1 where "s1 = fst (wrap_kmalloc wm_env 0x1000 100 0x20 ''ndis.c'' 7 s0)"
  define s2 where "s2 = fst (slack_kmalloc 0x2000 64 s1)"
  have "wm_reachable wm_env s0" unfolding s0_def by (rule wm_reachable.load)
  moreover have "wm_step wm_env s0 s1" unfolding s1_def by (rule wrap_kmalloc_step) (simp add: s0_def wm_demo_simps)
  moreover have "wm_step wm_env s1 s2" unfolding s2_def by (rule slack_kmalloc_step) (simp add: s1_def s0_def wm_demo_simps)
  moreover have "wm_step wm_env s2 wm_demo"
    unfolding wm_demo_def s0_def [symmetric] s1_def [symmetric] s2_def [symmetric]
    by (rule wrap_vmalloc_step) (simp add: s2_def s1_def s0_def wm_demo_simps)
  ultimately show ?thesis by (blast intro: wm_reachable.step)
qed

theorem alloc_counters_exact_witness:
  "allocs wm_demo = [0x1000, 0x9100] \<and> alloc_sizes wm_demo ALLOC_TYPE_KMALLOC_ATOMIC = 100 \<and> alloc_sizes wm_demo ALLOC_TYPE_SLACK = 64 \<and>
   total (size_as ALLOC_TYPE_KMALLOC_ATOMIC) (alloc_infos wm_demo) (allocs wm_demo) = 100 \<and> set (allocs wm_demo) = dom (alloc_infos wm_demo)"
proof -
  have f: "allocs wm_demo = [0x1000, 0x9100]" "alloc_sizes wm_demo ALLOC_TYPE_KMALLOC_ATOMIC = 100" "alloc_sizes wm_demo ALLOC_TYPE_SLACK = 64"
    by (simp_all add: wm_demo_simps)
  show ?thesis using alloc_counters_exact [OF wm_demo_reachable] f(1,3) f(2) [symmetric] by auto
qed

text \<open>When the module is unloaded every live block is handed back, once, to the allocator it came from, slack blocks first,
  and nothing stays registered.  The types that are reported as leaking are those whose live blocks do not sum up to zero
  modulo \<open>2 ^ 32\<close>; slack memory is never reported.  The counter of the slack type, however, ends as minus the size of all
  leaked blocks, because the second loop subtracts from it instead of from the counter of the type.\<close>

theorem wrapmem_exit_releases_all:
  assumes "wm_reachable e s"
  shows "\<exists>s' leaks. wrapmem_exit s = Some (s', leaks) \<and>
    allocs s' = [] \<and> alloc_infos s' = Map.empty \<and> slack_allocs s' = [] \<and> slack_infos s' = Map.empty \<and>
    released s' = released s @ map Kfree (slack_allocs s) @ concat (map (\<lambda>i. release_of i (the (alloc_infos s i))) (allocs s)) \<and>
    leaks = filter (\<lambda>t. t \<noteq> ALLOC_TYPE_SLACK \<and> total (size_as t) (alloc_infos s) (allocs s) \<noteq> 0) alloc_types \<and>
    alloc_sizes s' ALLOC_TYPE_SLACK = - total (\<lambda>ai. ucast (ai_size ai)) (alloc_infos s) (allocs s)"
proof -
  have inv: "wm_inv s" using assms by (rule wm_reachable_inv)
  hence r: "registered (slack_allocs s) (slack_infos s)" "registered (allocs s) (alloc_infos s)"
    and sl: "alloc_sizes s ALLOC_TYPE_SLACK = total ucast (slack_infos s) (slack_allocs s)"
    and c: "\<And>t. t \<noteq> ALLOC_TYPE_SLACK \<Longrightarrow> alloc_sizes s t = total (size_as t) (alloc_infos s) (allocs s)"
    by (auto simp: wm_inv_def)
  define s1 where "s1 = s\<lparr>slack_allocs := [], slack_infos := Map.empty,
    alloc_sizes := (alloc_sizes s)(ALLOC_TYPE_SLACK := alloc_sizes s ALLOC_TYPE_SLACK - total ucast (slack_infos s) (slack_allocs s)),
    released := released s @ map Kfree (slack_allocs s)\<rparr>"
  have f: "allocs s1 = allocs s" "alloc_infos s1 = alloc_infos s" "slack_allocs s1 = []" "slack_infos s1 = Map.empty"
    "released s1 = released s @ map Kfree (slack_allocs s)" "alloc_sizes s1 = (alloc_sizes s)(ALLOC_TYPE_SLACK := 0)"
    using sl by (simp_all add: s1_def)
  have "exit_slack (slack_allocs s) s = Some s1" using exit_slack_all [OF r(1) refl] by (simp add: s1_def)
  moreover have "leaking s1 = filter (\<lambda>t. t \<noteq> ALLOC_TYPE_SLACK \<and> total (size_as t) (alloc_infos s) (allocs s) \<noteq> 0) alloc_types"
    unfolding leaking_def by (rule filter_cong) (auto simp: f c)
  ultimately show ?thesis
    using exit_allocs_all [OF r(2) [folded f(1,2)] refl] by (simp add: wrapmem_exit_def f)
qed

theorem wrapmem_exit_releases_all_witness:
  "\<exists>s' leaks. wrapmem_exit wm_demo = Some (s', leaks) \<and> allocs s' = [] \<and>
     released s' = [Kfree 0x2000, Kfree 0x1000, Vfree 0x9100] \<and> leaks = [ALLOC_TYPE_KMALLOC_ATOMIC, ALLOC_TYPE_VMALLOC_NON_ATOMIC] \<and>
     alloc_sizes s' ALLOC_TYPE_SLACK = - 5100"
proof -
  have f: "allocs wm_demo = [0x1000, 0x9100]" "slack_allocs wm_demo = [0x2000]" "released wm_demo = []"
    "alloc_infos wm_demo 0x1000 = Some \<lparr>ai_type = ALLOC_TYPE_KMALLOC_ATOMIC, ai_size = 100, ai_file = ''ndis.c'', ai_line = 7, ai_tag = 0\<rparr>"
    "alloc_infos wm_demo 0x9100 = Some \<lparr>ai_type = ALLOC_TYPE_VMALLOC_NON_ATOMIC, ai_size = 5000, ai_file = ''loader.c'', ai_line = 1, ai_tag = 0\<rparr>"
    by (simp_all add: wm_demo_simps)
  show ?thesis using wrapmem_exit_releases_all [OF wm_demo_reachable]
    by (simp add: f total_def weight_def size_as_def release_of_def alloc_types_def) blast
qed

section \<open>Allocating and freeing\<close>

text \<open>The contract of an allocator and its release function: freeing the block it returned restores the registration of all other
  blocks and all counters, and the memory is handed back where it came from.  \<open>ok\<close> is the promise of the kernel's
  allocator about the address it returns.\<close>

locale alloc_free =
  fixes malloc :: "ptr \<Rightarrow> mem_state \<Rightarrow> mem_state \<times> ptr"
    and mfree :: "ptr \<Rightarrow> mem_state \<Rightarrow> mem_state option"
    and ok :: "ptr \<Rightarrow> mem_state \<Rightarrow> bool"
    and rel :: "ptr \<Rightarrow> release"
  assumes round_trip: "ok info s \<Longrightarrow> mfree (snd (malloc info s)) (fst (malloc info s)) = Some (s\<lparr>released := released s @ [rel info]\<rparr>)"
    and ok_fresh: "ok info s \<Longrightarrow> ok info (s\<lparr>released := rs\<rparr>)"
begin

text \<open>A client that allocates and frees block after block, as a driver does per packet, never moves a counter.\<close>

fun use_each :: "ptr list \<Rightarrow> mem_state \<Rightarrow> mem_state option" where
  "use_each [] s = Some s"
| "use_each (i # is) s = do { s1 \<leftarrow> mfree (snd (malloc i s)) (fst (malloc i s)); use_each is s1 }"

lemma use_each_restores:
  "\<forall>i\<in>set is. ok i s \<Longrightarrow> use_each is s = Some (s\<lparr>released := released s @ map rel is\<rparr>)"
  by (induction "is" arbitrary: s) (auto simp: round_trip ok_fresh)

end

definition fresh :: "ptr \<Rightarrow> mem_state \<Rightarrow> bool" where
  "fresh info s \<longleftrightarrow> info \<noteq> NULL \<and> info + sizeof_alloc_info \<noteq> NULL \<and> alloc_infos s info = None \<and> info \<notin> set (allocs s)"

lemma track_untrack:
  assumes "fresh info s"
  shows "untrack info (fst (track info t sz fl ln s)) = Some (s, \<lparr>ai_type = t, ai_size = sz, ai_file = fl, ai_line = ln, ai_tag = 0\<rparr>)"
    "snd (track info t sz fl ln s) = info + sizeof_alloc_info"
  using assms by (simp_all add: fresh_def untrack_def track_def count_add_def remove1_append fun_upd_idem)

interpretation km: alloc_free "\<lambda>i. wrap_kmalloc e i sz flags fl ln" wrap_kfree fresh Kfree
  by unfold_locales (auto simp: wrap_kmalloc_def wrap_kfree_def track_untrack, auto simp: fresh_def)

interpretation vm: alloc_free "\<lambda>i. wrap_vmalloc i sz fl ln" wrap_vfree fresh Vfree
  by unfold_locales (auto simp: wrap_vmalloc_def wrap_vfree_def track_untrack, auto simp: fresh_def)

interpretation vm2: alloc_free "\<lambda>i. wrap__vmalloc e i sz flags fl ln" wrap_vfree fresh Vfree
  by unfold_locales (auto simp: wrap__vmalloc_def wrap_vfree_def track_untrack, auto simp: fresh_def)

interpretation pg: alloc_free "\<lambda>i. wrap_alloc_pages i sz32 fl ln" wrap_free_pages fresh
  "\<lambda>i. Free_Pages i (ucast (sz32 + ucast sizeof_alloc_info :: u32))"
  by unfold_locales (auto simp: wrap_alloc_pages_def wrap_free_pages_def track_untrack, auto simp: fresh_def)

definition slack_fresh :: "ptr \<Rightarrow> mem_state \<Rightarrow> bool" where
  "slack_fresh info s \<longleftrightarrow> info \<noteq> NULL \<and> slack_infos s info = None \<and> info \<notin> set (slack_allocs s)"

interpretation sl: alloc_free "\<lambda>i. slack_kmalloc i sz" slack_kfree slack_fresh Kfree
  by unfold_locales (auto simp: slack_kmalloc_def slack_kfree_def slack_fresh_def Let_def count_add_def remove1_append fun_upd_idem)

text \<open>What the pool allocator relies on: kmalloc returns addresses outside the vmalloc range, vmalloc addresses inside it.\<close>

definition pool_addr :: "mem_env \<Rightarrow> u64 \<Rightarrow> ptr \<Rightarrow> mem_state \<Rightarrow> bool" where
  "pool_addr e sz i s \<longleftrightarrow> fresh i s \<and>
     (sz < PAGE_SIZE e \<longleftrightarrow> i + sizeof_alloc_info < VMALLOC_START e \<or> VMALLOC_END e \<le> i + sizeof_alloc_info)"

definition pool_tracked :: "mem_env \<Rightarrow> bool \<Rightarrow> u64 \<Rightarrow> bool" where
  "pool_tracked e in_atomic sz \<longleftrightarrow> sz < PAGE_SIZE e \<or> irql_gfp e in_atomic AND GFP_ATOMIC e = 0"

definition pool_type_of :: "mem_env \<Rightarrow> bool \<Rightarrow> u64 \<Rightarrow> alloc_type" where
  "pool_type_of e in_atomic sz = (if sz < PAGE_SIZE e
     then if irql_gfp e in_atomic AND GFP_ATOMIC e \<noteq> 0 then ALLOC_TYPE_KMALLOC_ATOMIC else ALLOC_TYPE_KMALLOC_NON_ATOMIC
     else ALLOC_TYPE_VMALLOC_NON_ATOMIC)"

lemma pool_alloc_track:
  "pool_tracked e in_atomic sz \<Longrightarrow> \<exists>ln. ExAllocatePoolWithTag e in_atomic i nv i sz s = track i (pool_type_of e in_atomic sz) sz ''ntoskernel.c'' ln s"
  by (auto simp: ExAllocatePoolWithTag_def pool_tracked_def pool_type_of_def wrap_kmalloc_def wrap_vmalloc_def)

lemma untrack_retag:
  assumes "untrack i s = Some (s', ai)"
  shows "alloc_infos s i = Some ai"
    "untrack i (s\<lparr>alloc_infos := (alloc_infos s)(i \<mapsto> ai\<lparr>ai_file := fl, ai_line := ln, ai_tag := tg\<rparr>)\<rparr>) =
     Some (s', ai\<lparr>ai_file := fl, ai_line := ln, ai_tag := tg\<rparr>)"
  using assms by (auto simp: untrack_def count_add_def split: if_splits Option.bind_splits)

text \<open>A block of the pool that is allocated and freed again goes back to the allocator it came from, \<^verbatim>\<open>kfree\<close> below a page and
  \<^verbatim>\<open>vfree\<close> from a page on, and lists, counters and infos are as they were.  A block of \<^verbatim>\<open>nvmalloc\<close>, however, has no info
  in front of it, and writing the tag of such a block goes out of its memory.\<close>

theorem pool_round_trip:
  assumes "pool_addr e sz i s"
  shows "if pool_tracked e in_atomic sz
    then \<exists>s1. wrap_ExAllocatePoolWithTag e in_atomic i nv i sz tag fl ln s = Some (s1, i + sizeof_alloc_info) \<and>
        alloc_infos s1 i = Some \<lparr>ai_type = pool_type_of e in_atomic sz, ai_size = sz, ai_file = fl, ai_line = ln, ai_tag = tag\<rparr> \<and>
        ExFreePool e (i + sizeof_alloc_info) s1 = Some (s\<lparr>released := released s @ [if sz < PAGE_SIZE e then Kfree i else Vfree i]\<rparr>)
    else nv \<noteq> NULL \<longrightarrow> alloc_infos s (nv - sizeof_alloc_info) = None \<longrightarrow>
        wrap_ExAllocatePoolWithTag e in_atomic i nv i sz tag fl ln s = None"
proof (cases "pool_tracked e in_atomic sz")
  case True
  have fr: "fresh i s" and nz: "i + sizeof_alloc_info \<noteq> NULL" using assms by (auto simp: pool_addr_def fresh_def)
  obtain l where l: "ExAllocatePoolWithTag e in_atomic i nv i sz s = track i (pool_type_of e in_atomic sz) sz ''ntoskernel.c'' l s"
    using pool_alloc_track [OF True] by blast
  define s0 where "s0 = fst (track i (pool_type_of e in_atomic sz) sz ''ntoskernel.c'' l s)"
  let ?ai = "\<lparr>ai_type = pool_type_of e in_atomic sz, ai_size = sz, ai_file = ''ntoskernel.c'', ai_line = l, ai_tag = 0\<rparr>"
  let ?s1 = "s0\<lparr>alloc_infos := (alloc_infos s0)(i \<mapsto> ?ai\<lparr>ai_file := fl, ai_line := ln, ai_tag := tag\<rparr>)\<rparr>"
  have u: "untrack i s0 = Some (s, ?ai)" unfolding s0_def by (rule track_untrack(1) [OF fr])
  have "track i (pool_type_of e in_atomic sz) sz ''ntoskernel.c'' l s = (s0, i + sizeof_alloc_info)"
    using track_untrack(2) [OF fr] by (simp add: s0_def prod_eq_iff)
  hence "wrap_ExAllocatePoolWithTag e in_atomic i nv i sz tag fl ln s = Some (?s1, i + sizeof_alloc_info)"
    using untrack_retag(1) [OF u] nz by (simp add: wrap_ExAllocatePoolWithTag_def l)
  moreover have "ExFreePool e (i + sizeof_alloc_info) ?s1 = Some (s\<lparr>released := released s @ [if sz < PAGE_SIZE e then Kfree i else Vfree i]\<rparr>)"
    using untrack_retag(2) [OF u, where fl = fl and ln = ln and tg = tag] assms nz
    by (auto simp: ExFreePool_def ExFreePoolWithTag_def wrap_kfree_def wrap_vfree_def pool_addr_def pool_type_of_def)
  ultimately show ?thesis using True by simp
next
  case False
  thus ?thesis by (auto simp: pool_tracked_def wrap_ExAllocatePoolWithTag_def ExAllocatePoolWithTag_def)
qed

theorem pool_round_trip_witness:
  "(\<exists>s1. wrap_ExAllocatePoolWithTag wm_env True 0x3000 0 0x3000 200 0x4e444953 ''ndis.c'' 158 wm_demo = Some (s1, 0x3030) \<and>
     ExFreePool wm_env 0x3030 s1 = Some (wm_demo\<lparr>released := [Kfree 0x3000]\<rparr>)) \<and>
   wrap_ExAllocatePoolWithTag wm_env True 0xA000 0xA000 0xA000 8192 0x4e444953 ''ndis.c'' 158 wm_demo = None"
proof -
  have "pool_addr wm_env 200 0x3000 wm_demo" "pool_tracked wm_env True 200" "released wm_demo = []"
    by (simp_all add: pool_addr_def pool_tracked_def fresh_def wm_demo_simps)
  note p = pool_round_trip [OF this(1), of True 0 "0x4e444953" "''ndis.c''" 158, unfolded if_P [OF this(2)] this(3) sizeof_alloc_info_def]
  have "pool_addr wm_env 8192 0xA000 wm_demo" "\<not> pool_tracked wm_env True 8192" "alloc_infos wm_demo (0xA000 - sizeof_alloc_info) = None"
    by (simp_all add: pool_addr_def pool_tracked_def irql_gfp_def fresh_def wm_demo_simps)
  note q = pool_round_trip [OF this(1), of True "0xA000" "0x4e444953" "''ndis.c''" 158, unfolded if_not_P [OF this(2)]]
  have "wrap_ExAllocatePoolWithTag wm_env True 0xA000 0xA000 0xA000 8192 0x4e444953 ''ndis.c'' 158 wm_demo = None"
    using q \<open>alloc_infos wm_demo (0xA000 - sizeof_alloc_info) = None\<close> by simp
  moreover have "(200 :: u64) < PAGE_SIZE wm_env" by (simp add: wm_env_def)
  ultimately show ?thesis using p by auto
qed

end
