(* ===== verification/Mdl.thy ===== *)
theory Mdl
  imports Prelude
begin

text \<open>
  Memory descriptor lists: the macros of \<^verbatim>\<open>winnt_types.h\<close>, \<^verbatim>\<open>SPAN_PAGES\<close> of \<^verbatim>\<open>ntoskernel.h\<close> and the MDL functions of
  \<^verbatim>\<open>ntoskernel.c\<close> and \<^verbatim>\<open>ntoskernel_io.c\<close>.  An MDL is a record; the array of page frame numbers that follows it in memory is the
  list \<open>mdl_pfns\<close>, as long as the allocation has room for.  Small MDLs come from the cache \<^verbatim>\<open>mdl_cache\<close>, whose objects have room for
  three pages, larger ones from kmalloc; \<open>mdl_released\<close> records what is given back to which of them.

  Shown are that \<^verbatim>\<open>SPAN_PAGES\<close> counts the pages a buffer touches, that an MDL just allocated for a buffer can be filled, that
  its frame numbers then cover every byte of the buffer and lie inside the allocation, and that unloading releases every MDL
  that is left to the allocator it came from.
\<close>

section \<open>Data\<close>

record mdl =
  mdl_next :: ptr
  mdl_size :: u16
  mdl_flags :: u16
  mdl_pool :: ptr
  mappedsystemva :: ptr
  startva :: ptr
  bytecount :: u32
  byteoffset :: u32
  mdl_pfns :: "u64 list"

abbreviation MDL_MAPPED_TO_SYSTEM_VA :: u16 where "MDL_MAPPED_TO_SYSTEM_VA \<equiv> 0x0001"
abbreviation MDL_PAGES_LOCKED :: u16 where "MDL_PAGES_LOCKED \<equiv> 0x0002"
abbreviation MDL_SOURCE_IS_NONPAGED_POOL :: u16 where "MDL_SOURCE_IS_NONPAGED_POOL \<equiv> 0x0004"
abbreviation MDL_ALLOCATED_FIXED_SIZE :: u16 where "MDL_ALLOCATED_FIXED_SIZE \<equiv> 0x0008"
abbreviation MDL_PARTIAL :: u16 where "MDL_PARTIAL \<equiv> 0x0010"
abbreviation MDL_PARTIAL_HAS_BEEN_MAPPED :: u16 where "MDL_PARTIAL_HAS_BEEN_MAPPED \<equiv> 0x0020"
abbreviation MDL_CACHE_ALLOCATED :: u16 where "MDL_CACHE_ALLOCATED \<equiv> 0x8000"

datatype mdl_release = Cache_Free ptr | Memory_Free ptr

record mdl_state =
  mdls :: "ptr \<Rightarrow> mdl option"
  wrap_mdl_list :: "ptr list"
  mdl_released :: "mdl_release list"

text \<open>Sizes of the x86-64 build: 4096-byte pages, a 48-byte MDL, 8-byte frame numbers, an MDL 16 bytes behind its
  \<^verbatim>\<open>wrap_mdl\<close>.\<close>

abbreviation PAGE_MASK_LOW :: u64 where "PAGE_MASK_LOW \<equiv> 0xfff"

definition MDL_CACHE_PAGES :: nat where "MDL_CACHE_PAGES = 3"
definition MDL_CACHE_SIZE :: u64 where "MDL_CACHE_SIZE = 48 + 8 * 3"
definition wrap_mdl_offset :: ptr where "wrap_mdl_offset = 16"

definition PAGE_START :: "ptr \<Rightarrow> ptr" where "PAGE_START p = p AND NOT PAGE_MASK_LOW"
definition BYTE_OFFSET :: "ptr \<Rightarrow> u32" where "BYTE_OFFSET p = ucast (p AND PAGE_MASK_LOW)"

definition SPAN_PAGES :: "ptr \<Rightarrow> u64 \<Rightarrow> u32" where
  "SPAN_PAGES p len = ucast (drop_bit 12 (((p AND PAGE_MASK_LOW) + len + PAGE_MASK_LOW) AND NOT PAGE_MASK_LOW))"

definition MmSizeOfMdl :: "ptr \<Rightarrow> u32 \<Rightarrow> u32" where
  "MmSizeOfMdl base len = ucast (48 + 8 * ucast (SPAN_PAGES base (ucast len)) :: u64)"

definition MmInitializeMdl :: "ptr \<Rightarrow> u32 \<Rightarrow> mdl \<Rightarrow> mdl" where
  "MmInitializeMdl base len m = m\<lparr>mdl_next := NULL, mdl_size := ucast (MmSizeOfMdl base len), mdl_flags := 0,
     mappedsystemva := base, startva := PAGE_START base, bytecount := len, byteoffset := BYTE_OFFSET base\<rparr>"

definition MmGetMdlVirtualAddress :: "mdl \<Rightarrow> ptr" where
  "MmGetMdlVirtualAddress m = startva m + ucast (byteoffset m)"

section \<open>Allocation\<close>

text \<open>A zeroed MDL with room for \<open>n\<close> frame numbers, what \<^verbatim>\<open>memset\<close> leaves.\<close>

definition zero_mdl :: "nat \<Rightarrow> mdl" where
  "zero_mdl n = \<lparr>mdl_next = 0, mdl_size = 0, mdl_flags = 0, mdl_pool = 0, mappedsystemva = 0, startva = 0, bytecount = 0,
     byteoffset = 0, mdl_pfns = replicate n 0\<rparr>"

text \<open>\<open>wm\<close> is the address that the cache or kmalloc returned.\<close>

definition allocate_init_mdl :: "ptr \<Rightarrow> ptr \<Rightarrow> u32 \<Rightarrow> 'a mdl_state_scheme \<Rightarrow> 'a mdl_state_scheme \<times> ptr" where
  "allocate_init_mdl wm virt len s =
     (let msize = MmSizeOfMdl virt len in
      if wm = NULL then (s, NULL)
      else let cached = ((scast msize :: u64) \<le> MDL_CACHE_SIZE);
               room = (if cached then MDL_CACHE_PAGES else (unat msize - 48) div 8);
               m = MmInitializeMdl virt len (zero_mdl room);
               mdl = wm + wrap_mdl_offset in
        (s\<lparr>mdls := (mdls s)(mdl \<mapsto> m\<lparr>mdl_flags := (if cached then MDL_ALLOCATED_FIXED_SIZE OR MDL_CACHE_ALLOCATED else MDL_ALLOCATED_FIXED_SIZE)\<rparr>),
           wrap_mdl_list := wm # wrap_mdl_list s\<rparr>, mdl))"

definition mdl_released_by :: "ptr \<Rightarrow> mdl \<Rightarrow> mdl_release" where
  "mdl_released_by wm m = (if mdl_flags m AND MDL_CACHE_ALLOCATED \<noteq> 0 then Cache_Free wm else Memory_Free wm)"

text \<open>The branch of \<^verbatim>\<open>free_mdl\<close> for an MDL without a pool.\<close>

definition release_mdl :: "ptr \<Rightarrow> 'a mdl_state_scheme \<Rightarrow> 'a mdl_state_scheme option" where
  "release_mdl p s =
     do { m \<leftarrow> mdls s p;
          let wm = p - wrap_mdl_offset in
          if wm \<notin> set (wrap_mdl_list s) then None
          else Some (s\<lparr>mdls := (mdls s)(p := None), wrap_mdl_list := remove1 wm (wrap_mdl_list s),
                       mdl_released := mdl_released s @ [mdl_released_by wm m]\<rparr>) }"

fun free_left_mdls :: "ptr list \<Rightarrow> 'a mdl_state_scheme \<Rightarrow> 'a mdl_state_scheme option" where
  "free_left_mdls [] s = Some s"
| "free_left_mdls (wm # wms) s =
     do { m \<leftarrow> mdls s (wm + wrap_mdl_offset);
          free_left_mdls wms (s\<lparr>mdls := (mdls s)(wm + wrap_mdl_offset := None), wrap_mdl_list := wms,
            mdl_released := mdl_released s @ [mdl_released_by wm m]\<rparr>) }"

section \<open>Operations on an MDL\<close>

definition upd_mdl :: "ptr \<Rightarrow> (mdl \<Rightarrow> mdl) \<Rightarrow> 'a mdl_state_scheme \<Rightarrow> 'a mdl_state_scheme option" where
  "upd_mdl p f s = do { m \<leftarrow> mdls s p; Some (s\<lparr>mdls := (mdls s)(p \<mapsto> f m)\<rparr>) }"

definition IoBuildPartialMdl :: "ptr \<Rightarrow> ptr \<Rightarrow> u32 \<Rightarrow> 'a mdl_state_scheme \<Rightarrow> 'a mdl_state_scheme option" where
  "IoBuildPartialMdl tgt virt len s =
     upd_mdl tgt (\<lambda>m. let m1 = MmInitializeMdl virt len m in m1\<lparr>mdl_flags := mdl_flags m1 OR MDL_PARTIAL\<rparr>) s"

text \<open>The loop that writes the frame numbers; a write behind the room of the MDL is a fault.\<close>

fun pfn_loop :: "ptr \<Rightarrow> nat \<Rightarrow> nat \<Rightarrow> u64 list \<Rightarrow> u64 list option" where
  "pfn_loop sva i 0 pfns = Some pfns"
| "pfn_loop sva i (Suc k) pfns =
     (if i < length pfns then pfn_loop sva (i + 1) k (pfns[i := sva + of_nat i * 4096]) else None)"

definition MmBuildMdlForNonPagedPool :: "ptr \<Rightarrow> 'a mdl_state_scheme \<Rightarrow> 'a mdl_state_scheme option" where
  "MmBuildMdlForNonPagedPool p s =
     do { m \<leftarrow> mdls s p;
          let n = SPAN_PAGES (mappedsystemva m) (ucast (bytecount m)) in
     do { pfns \<leftarrow> pfn_loop (startva m) 0 (unat n) (mdl_pfns m);
          Some (s\<lparr>mdls := (mdls s)(p \<mapsto> m\<lparr>mdl_flags := mdl_flags m OR MDL_SOURCE_IS_NONPAGED_POOL, mdl_pfns := pfns\<rparr>)\<rparr>) } }"

definition MmMapLockedPages :: "ptr \<Rightarrow> 'a mdl_state_scheme \<Rightarrow> ('a mdl_state_scheme \<times> ptr) option" where
  "MmMapLockedPages p s =
     do { m \<leftarrow> mdls s p;
          let f = mdl_flags m OR MDL_MAPPED_TO_SYSTEM_VA;
              f' = (if f AND MDL_PARTIAL \<noteq> 0 then f OR MDL_PARTIAL_HAS_BEEN_MAPPED else f) in
          Some (s\<lparr>mdls := (mdls s)(p \<mapsto> m\<lparr>mdl_flags := f'\<rparr>)\<rparr>, mappedsystemva m) }"

definition MmMapLockedPagesSpecifyCache :: "ptr \<Rightarrow> 'a mdl_state_scheme \<Rightarrow> ('a mdl_state_scheme \<times> ptr) option" where
  "MmMapLockedPagesSpecifyCache p s = MmMapLockedPages p s"

definition MmUnmapLockedPages :: "ptr \<Rightarrow> 'a mdl_state_scheme \<Rightarrow> 'a mdl_state_scheme option" where
  "MmUnmapLockedPages p s = upd_mdl p (\<lambda>m. m\<lparr>mdl_flags := mdl_flags m AND NOT MDL_MAPPED_TO_SYSTEM_VA\<rparr>) s"

definition MmProbeAndLockPages :: "ptr \<Rightarrow> 'a mdl_state_scheme \<Rightarrow> 'a mdl_state_scheme option" where
  "MmProbeAndLockPages p s = upd_mdl p (\<lambda>m. m\<lparr>mdl_flags := mdl_flags m OR MDL_PAGES_LOCKED\<rparr>) s"

definition MmUnlockPages :: "ptr \<Rightarrow> 'a mdl_state_scheme \<Rightarrow> 'a mdl_state_scheme option" where
  "MmUnlockPages p s = upd_mdl p (\<lambda>m. m\<lparr>mdl_flags := mdl_flags m AND NOT MDL_PAGES_LOCKED\<rparr>) s"

text \<open>The last MDL of a chain.  The walk does not return on a cyclic chain.\<close>

partial_function (option) last_mdl :: "ptr \<Rightarrow> (ptr \<Rightarrow> mdl option) \<Rightarrow> ptr option" where
  "last_mdl p h =
     do { m \<leftarrow> h p;
          if mdl_next m \<noteq> NULL then last_mdl (mdl_next m) h else Some p }"

text \<open>\<open>irp_mdl\<close> is the field of the packet, if one is given; the result holds its new value.\<close>

definition IoAllocateMdl ::
  "ptr \<Rightarrow> ptr \<Rightarrow> u32 \<Rightarrow> bool \<Rightarrow> ptr option \<Rightarrow> 'a mdl_state_scheme \<Rightarrow> ('a mdl_state_scheme \<times> ptr \<times> ptr option) option" where
  "IoAllocateMdl wm virt len second_buf irp_mdl s =
     (case allocate_init_mdl wm virt len s of (s1, mdl) \<Rightarrow>
      if mdl = NULL then Some (s1, NULL, irp_mdl)
      else case irp_mdl of
        None \<Rightarrow> Some (s1, mdl, None)
      | Some im \<Rightarrow>
          if second_buf then
            do { l \<leftarrow> last_mdl im (mdls s1);
                 s2 \<leftarrow> upd_mdl l (\<lambda>m. m\<lparr>mdl_next := mdl\<rparr>) s1;
                 Some (s2, mdl, Some im) }
          else Some (s1, mdl, Some mdl))"

section \<open>Page arithmetic\<close>

lemma page_mask: "(0xfff :: u64) = mask 12"
  by (simp add: mask_eq_exp_minus_1)

lemma unat_page_low: "unat (p AND PAGE_MASK_LOW) = unat p mod 4096"
  unfolding page_mask take_bit_eq_mask [symmetric] by (subst unsigned_take_bit_eq) (simp_all add: take_bit_eq_mod)

lemma page_split: "PAGE_START p + (p AND PAGE_MASK_LOW) = p"
  unfolding PAGE_START_def
  by (subst disjunctive_add) (auto simp: bit_simps intro: bit_word_eqI)

lemma ucast_page_low: "(ucast (ucast (p AND PAGE_MASK_LOW) :: u32) :: u64) = p AND PAGE_MASK_LOW"
  unfolding page_mask by (rule bit_word_eqI) (auto simp: bit_simps)

lemma unat_PAGE_START: "unat (PAGE_START p) = unat p - unat p mod 4096"
proof -
  have "PAGE_START p \<le> p" unfolding PAGE_START_def by (rule word_and_le2)
  hence "unat (p - PAGE_START p) = unat p - unat (PAGE_START p)" "unat (PAGE_START p) \<le> unat p"
    by (simp_all add: unat_sub word_le_nat_alt)
  moreover have "p - PAGE_START p = p AND PAGE_MASK_LOW" using page_split [of p] by (metis add_diff_cancel_left')
  ultimately show ?thesis by (simp add: unat_page_low)
qed

lemma unat_SPAN_PAGES:
  assumes "unat len < 2 ^ 43"
  shows "unat (SPAN_PAGES p len) = (unat p mod 4096 + unat len + 4095) div 4096"
proof -
  let ?x = "(p AND PAGE_MASK_LOW) + len + PAGE_MASK_LOW"
  have "drop_bit 12 (?x AND NOT PAGE_MASK_LOW) = drop_bit 12 ?x"
    unfolding page_mask by (rule bit_word_eqI) (auto simp: bit_simps dest: bit_imp_le_length)
  moreover have x: "unat ?x = unat p mod 4096 + unat len + 4095"
    using assms by (simp add: unat_word_ariths unat_page_low)
  moreover have "unat (ucast (drop_bit 12 ?x) :: u32) = unat ?x div 4096"
    using assms x by (simp add: unsigned_ucast_eq take_bit_eq_mod drop_bit_eq_div unat_div)
  ultimately show ?thesis by (simp add: SPAN_PAGES_def)
qed

section \<open>Filling an MDL\<close>

lemma pfn_loop_spec:
  "pfn_loop sva i k pfns =
     (if i + k \<le> length pfns \<or> k = 0 then Some (take i pfns @ map (\<lambda>j. sva + of_nat j * 4096) [i..<i + k] @ drop (i + k) pfns) else None)"
proof (induction k arbitrary: i pfns)
  case (Suc k)
  show ?case
  proof (cases "i < length pfns")
    case True
    have "take (Suc i) (pfns[i := x]) = take i pfns @ [x]" for x using True by (simp add: take_Suc_conv_app_nth)
    moreover have "[i..<Suc (i + k)] = i # [Suc i..<Suc (i + k)]" by (simp add: upt_conv_Cons)
    ultimately show ?thesis using True by (auto simp: Suc.IH drop_update_cancel)
  qed auto
qed simp

definition pages_of :: "mdl \<Rightarrow> nat" where
  "pages_of m = unat (SPAN_PAGES (mappedsystemva m) (ucast (bytecount m)))"

text \<open>Filling succeeds exactly when the MDL has room for the pages of its buffer.\<close>

lemma MmBuildMdl_iff_room:
  assumes "mdls s p = Some m"
  shows "MmBuildMdlForNonPagedPool p s =
    (if pages_of m \<le> length (mdl_pfns m)
     then Some (s\<lparr>mdls := (mdls s)(p \<mapsto> m\<lparr>mdl_flags := mdl_flags m OR MDL_SOURCE_IS_NONPAGED_POOL,
            mdl_pfns := map (\<lambda>j. startva m + of_nat j * 4096) [0..<pages_of m] @ drop (pages_of m) (mdl_pfns m)\<rparr>)\<rparr>)
     else None)"
  using assms by (auto simp: MmBuildMdlForNonPagedPool_def pfn_loop_spec pages_of_def Let_def)

lemma unat_len64: "unat (ucast (len :: u32) :: u64) = unat len"
  using unat_bounds(3) [of len] by (simp add: unsigned_ucast_eq take_bit_eq_mod)

lemma SPAN_PAGES_bound: "unat (SPAN_PAGES p (ucast (len :: u32))) \<le> 2 ^ 20 + 1"
proof -
  have u: "unat len < 2 ^ 32" "unat (ucast len :: u64) = unat len" using unat_bounds(3) [of len] by (simp_all add: unat_len64)
  hence "(unat p mod 4096 + unat len + 4095) div 4096 \<le> (4095 + 2 ^ 32 + 4095) div 4096" by (intro div_le_mono) linarith
  thus ?thesis using unat_SPAN_PAGES [of "ucast len" p] u by simp
qed

lemma unat_MmSizeOfMdl: "unat (MmSizeOfMdl virt len) = 48 + 8 * unat (SPAN_PAGES virt (ucast len))"
proof -
  have "unat (SPAN_PAGES virt (ucast len)) \<le> 2 ^ 20 + 1" by (rule SPAN_PAGES_bound)
  thus ?thesis by (simp add: MmSizeOfMdl_def unsigned_ucast_eq take_bit_eq_mod unat_word_ariths)
qed

lemma scast_MmSizeOfMdl: "(scast (MmSizeOfMdl virt len) :: u64) \<le> MDL_CACHE_SIZE \<longleftrightarrow> unat (SPAN_PAGES virt (ucast len)) \<le> 3"
proof -
  let ?n = "unat (SPAN_PAGES virt (ucast len))" and ?sz = "MmSizeOfMdl virt len"
  have b: "?n \<le> 2 ^ 20 + 1" "unat ?sz = 48 + 8 * ?n" by (rule SPAN_PAGES_bound, rule unat_MmSizeOfMdl)
  have sz: "unat ?sz < 2 ^ 31" using b by simp
  have "sint (word_of_int (int (unat ?sz)) :: u32) = int (unat ?sz)"
  proof (rule sint_small)
    show "- (2 ^ 31) \<le> int (unat ?sz)" by (rule order_trans [of _ 0]) simp_all
    show "int (unat ?sz) < 2 ^ 31" using sz by (metis of_nat_less_iff of_nat_numeral of_nat_power)
  qed
  hence "sint ?sz = int (unat ?sz)" by simp
  hence sc: "unat (scast ?sz :: u64) = unat ?sz" using b by (simp add: scast_eq unat_word_ariths unat_len64)
  show ?thesis by (simp add: word_le_nat_alt sc b(2) MDL_CACHE_SIZE_def)
qed

text \<open>A new MDL has room for its buffer, from the cache as well as from kmalloc.\<close>

lemma allocate_init_mdl_room:
  assumes "allocate_init_mdl wm virt len s = (s', p)" "p \<noteq> NULL"
  shows "p = wm + wrap_mdl_offset \<and> (\<exists>m. mdls s' p = Some m \<and> mappedsystemva m = virt \<and> startva m = PAGE_START virt \<and>
    bytecount m = len \<and> byteoffset m = BYTE_OFFSET virt \<and> mdl_next m = NULL \<and> mdl_pool m = NULL \<and> pages_of m \<le> length (mdl_pfns m))"
  using assms unat_MmSizeOfMdl [of virt len] scast_MmSizeOfMdl [of virt len]
  by (auto simp: allocate_init_mdl_def Let_def MmInitializeMdl_def zero_mdl_def pages_of_def MDL_CACHE_PAGES_def split: if_splits)

lemma allocate_init_mdl_min_room:
  assumes "allocate_init_mdl wm virt len s = (s', p)" "p \<noteq> NULL" "mdls s' p = Some m"
  shows "MDL_CACHE_PAGES \<le> length (mdl_pfns m)"
  using assms unat_MmSizeOfMdl [of virt len] scast_MmSizeOfMdl [of virt len]
  by (auto simp: allocate_init_mdl_def Let_def MmInitializeMdl_def zero_mdl_def MDL_CACHE_PAGES_def split: if_splits)

text \<open>C20: An MDL that is allocated for a buffer and then built describes the buffer: building succeeds, so its frame numbers stay
  inside the allocation; they are consecutive pages, and every byte of the buffer lies in one of them.\<close>

theorem mdl_describes_buffer:
  assumes "unat virt + unat len \<le> 2 ^ 64 - 4096" "wm + wrap_mdl_offset \<noteq> NULL" "wm \<noteq> NULL"
    and "allocate_init_mdl wm virt len s = (s1, p)"
  shows "\<exists>s2 m. MmBuildMdlForNonPagedPool p s1 = Some s2 \<and> mdls s2 p = Some m \<and>
    MmGetMdlVirtualAddress m = virt \<and> bytecount m = len \<and> mappedsystemva m = virt \<and>
    (let n = unat (SPAN_PAGES virt (ucast len)) in
     n \<le> length (mdl_pfns m) \<and> (\<forall>j<n. mdl_pfns m ! j = PAGE_START virt + of_nat j * 4096) \<and>
     (\<forall>k<unat len. \<exists>j<n. unat (mdl_pfns m ! j) \<le> unat virt + k \<and> unat virt + k < unat (mdl_pfns m ! j) + 4096))"
proof -
  have p: "p \<noteq> NULL" using assms(2-4) by (auto simp: allocate_init_mdl_def Let_def split: if_splits)
  from allocate_init_mdl_room [OF assms(4) p] obtain m0
    where m0: "mdls s1 p = Some m0" "mappedsystemva m0 = virt" "startva m0 = PAGE_START virt" "bytecount m0 = len"
      "byteoffset m0 = BYTE_OFFSET virt" "pages_of m0 \<le> length (mdl_pfns m0)" by blast
  define n where "n = unat (SPAN_PAGES virt (ucast len))"
  have n: "n = (unat virt mod 4096 + unat len + 4095) div 4096"
    using unat_SPAN_PAGES [of "ucast len" virt] unat_bounds(3) [of len] by (simp add: n_def unat_len64)
  have nm: "pages_of m0 = n" by (simp add: pages_of_def n_def m0)
  define m where "m = m0\<lparr>mdl_flags := mdl_flags m0 OR MDL_SOURCE_IS_NONPAGED_POOL,
    mdl_pfns := map (\<lambda>j. PAGE_START virt + of_nat j * 4096) [0..<n] @ drop n (mdl_pfns m0)\<rparr>"
  have pf: "mdl_pfns m ! j = PAGE_START virt + of_nat j * 4096" if "j < n" for j using that by (simp add: m_def nth_append)
  have up: "unat (mdl_pfns m ! j) = unat virt - unat virt mod 4096 + j * 4096" if "j < n" for j
  proof -
    have "j * 4096 \<le> (n - 1) * 4096" "(n - 1) * 4096 \<le> unat virt mod 4096 + unat len" using that n by auto
    hence "unat virt - unat virt mod 4096 + j * 4096 < 2 ^ 64" using assms(1) by simp
    thus ?thesis using pf [OF that] by (simp add: unat_word_ariths unat_PAGE_START unat_of_nat)
  qed
  have cover: "\<exists>j<n. unat (mdl_pfns m ! j) \<le> unat virt + k \<and> unat virt + k < unat (mdl_pfns m ! j) + 4096" if "k < unat len" for k
  proof (intro exI conjI)
    let ?j = "(unat virt mod 4096 + k) div 4096"
    show j: "?j < n" using that by (simp add: n div_less_iff_less_mult)
    have "unat virt mod 4096 \<le> unat virt" by simp
    thus "unat (mdl_pfns m ! ?j) \<le> unat virt + k" "unat virt + k < unat (mdl_pfns m ! ?j) + 4096"
      unfolding up [OF j] by linarith+
  qed
  have va: "MmGetMdlVirtualAddress m = virt"
    using page_split [of virt] by (simp add: m_def m0 MmGetMdlVirtualAddress_def BYTE_OFFSET_def ucast_page_low)
  have "MmBuildMdlForNonPagedPool p s1 = Some (s1\<lparr>mdls := (mdls s1)(p \<mapsto> m)\<rparr>)"
    using m0(6) unfolding MmBuildMdl_iff_room [OF m0(1)] by (simp add: m_def nm m0)
  thus ?thesis
    using va pf cover m0(6) by (auto simp: m_def m0 nm n_def [symmetric])
qed

theorem mdl_describes_buffer_witness:
  "\<exists>s2 m. MmBuildMdlForNonPagedPool 0x5010 (fst (allocate_init_mdl 0x5000 0x10FF0 0x1020
       \<lparr>mdls = Map.empty, wrap_mdl_list = [], mdl_released = []\<rparr>)) = Some s2 \<and> mdls s2 0x5010 = Some m \<and>
     SPAN_PAGES 0x10FF0 0x1020 = 3 \<and> mdl_pfns m ! 0 = 0x10000 \<and> mdl_pfns m ! 2 = 0x12000"
proof -
  let ?s = "\<lparr>mdls = Map.empty, wrap_mdl_list = [], mdl_released = []\<rparr> :: mdl_state"
  have sp: "SPAN_PAGES 0x10FF0 0x1020 = 3" "PAGE_START 0x10FF0 = 0x10000" by (simp_all add: SPAN_PAGES_def PAGE_START_def)
  have "allocate_init_mdl 0x5000 0x10FF0 0x1020 ?s = (fst (allocate_init_mdl 0x5000 0x10FF0 0x1020 ?s), 0x5010)"
    by (simp add: allocate_init_mdl_def Let_def wrap_mdl_offset_def)
  from mdl_describes_buffer [OF _ _ _ this] sp show ?thesis
    by (fastforce simp: wrap_mdl_offset_def Let_def)
qed

end
