(* ===== verification/Ndis_Buffer.thy ===== *)
theory Ndis_Buffer
  imports Mdl
begin

text \<open>
  The buffer pools of \<^verbatim>\<open>ndis.c\<close>.  A pool hands out MDLs; freed ones are chained through their next field and handed out again,
  and once more than \<^verbatim>\<open>MAX_ALLOCATED_NDIS_BUFFERS\<close> exist they are released instead.  The state extends that of the MDLs by the
  pools.  A definition is a whole call.  The lock of a pool covers only its free list, the limit is tested and the counter is
  changed outside it; so what is said of sequences of calls holds for calls that do not overlap, and \<open>buffer_pool_limit_race\<close>
  shows what two calls that overlap do to the limit.

  The contract of such a pool is the interface \<open>desc_pool\<close>: a descriptor is handed out only while nobody uses it, and can be
  given back.  Shown are that buffer pools meet it, that the count of a pool is the number of its descriptors and exceeds its
  maximum by at most one while calls do not overlap, that freeing the pool releases the free descriptors, and that a buffer of more than three pages may
  be given an MDL that is too small for it.
\<close>

section \<open>Pools of descriptors\<close>

text \<open>\<open>rep s fs us\<close>: the pool has the free descriptors \<open>fs\<close>, next one first, and \<open>us\<close> are in use.  \<open>alloc\<close> takes a request and
  the address of the memory that the kernel provides if a new descriptor is needed, whose descriptor is at \<open>addr\<close>.\<close>

locale desc_pool =
  fixes rep :: "'s \<Rightarrow> ptr list \<Rightarrow> ptr list \<Rightarrow> bool"
    and alloc :: "'r \<Rightarrow> ptr \<Rightarrow> 's \<Rightarrow> ('s \<times> ptr) option"
    and dfree :: "ptr \<Rightarrow> 's \<Rightarrow> 's option"
    and fresh :: "ptr \<Rightarrow> 's \<Rightarrow> bool"
    and addr :: "ptr \<Rightarrow> ptr"
    and fits :: "'r \<Rightarrow> bool"
  assumes alloc_law: "rep s fs us \<Longrightarrow> fresh a s \<Longrightarrow> alloc r a s = Some (s', p) \<Longrightarrow>
      p = NULL \<and> rep s' fs us \<or> p \<noteq> NULL \<and> p = (case fs of [] \<Rightarrow> addr a | f # _ \<Rightarrow> f) \<and> rep s' (tl fs) (p # us)"
    and alloc_returns: "rep s fs us \<Longrightarrow> fresh a s \<Longrightarrow> fits r \<Longrightarrow> alloc r a s \<noteq> None"
    and free_law: "rep s fs us \<Longrightarrow> p \<in> set us \<Longrightarrow>
      \<exists>s'. dfree p s = Some s' \<and> (rep s' (p # fs) (remove1 p us) \<or> rep s' fs (remove1 p us))"
    and rep_ok: "rep s fs us \<Longrightarrow> distinct (fs @ us) \<and> NULL \<notin> set (fs @ us)"
begin

text \<open>No descriptor is handed out while it is in use.\<close>

lemma alloc_not_in_use:
  assumes "rep s fs us" "fresh a s" "alloc r a s = Some (s', p)" "p \<noteq> NULL"
  shows "p \<notin> set us"
  using alloc_law [OF assms(1-3)] assms(4) rep_ok by fastforce

text \<open>What is freed is handed out again, last first, unless the pool released it.\<close>

lemma free_then_alloc:
  assumes "rep s fs us" "p \<in> set us" "dfree p s = Some s1" "fresh a s1" "alloc r a s1 = Some (s2, q)" "q \<noteq> NULL"
  shows "q = p \<or> q = (case fs of [] \<Rightarrow> addr a | f # _ \<Rightarrow> f)"
  using free_law [OF assms(1,2)] assms(3-6) alloc_law by fastforce

end

section \<open>State and operations\<close>

record ndis_buffer_pool =
  bp_free_descr :: ptr
  bp_max_descr :: u32
  bp_num_allocated_descr :: u32

record nb_state = mdl_state +
  buffer_pools :: "ptr \<Rightarrow> ndis_buffer_pool option"

abbreviation NDIS_STATUS_SUCCESS :: u32 where "NDIS_STATUS_SUCCESS \<equiv> 0"
abbreviation NDIS_STATUS_FAILURE :: u32 where "NDIS_STATUS_FAILURE \<equiv> 0xC0000001"
abbreviation NDIS_STATUS_RESOURCES :: u32 where "NDIS_STATUS_RESOURCES \<equiv> 0xC000009A"

definition MAX_ALLOCATED_NDIS_BUFFERS :: u32 where "MAX_ALLOCATED_NDIS_BUFFERS = 16"

definition put_pool :: "ptr \<Rightarrow> ndis_buffer_pool \<Rightarrow> 'a nb_state_scheme \<Rightarrow> 'a nb_state_scheme" where
  "put_pool pool bp s = s\<lparr>buffer_pools := (buffer_pools s)(pool \<mapsto> bp)\<rparr>"

definition NdisAllocateBufferPool :: "ptr \<Rightarrow> u32 \<Rightarrow> 'a nb_state_scheme \<Rightarrow> 'a nb_state_scheme \<times> u32 \<times> ptr option" where
  "NdisAllocateBufferPool a num_descr s =
     (if a = NULL then (s, NDIS_STATUS_RESOURCES, None)
      else (put_pool a \<lparr>bp_free_descr = NULL, bp_max_descr = num_descr, bp_num_allocated_descr = 0\<rparr> s, NDIS_STATUS_SUCCESS, Some a))"

text \<open>The end of \<^verbatim>\<open>NdisAllocateBuffer\<close>, for a new and a reused descriptor.\<close>

definition finish_buffer :: "ptr \<Rightarrow> ptr \<Rightarrow> 'a nb_state_scheme \<Rightarrow> ('a nb_state_scheme \<times> u32 \<times> ptr) option" where
  "finish_buffer pool descr s =
     do { s1 \<leftarrow> MmBuildMdlForNonPagedPool descr s;
          s2 \<leftarrow> upd_mdl descr (\<lambda>m. m\<lparr>mdl_pool := pool\<rparr>) s1;
          Some (s2, NDIS_STATUS_SUCCESS, descr) }"

text \<open>Reinitialisation of a reused descriptor: \<^verbatim>\<open>memset\<close> clears the MDL but not the frame numbers behind it.\<close>

definition reinit_mdl :: "ptr \<Rightarrow> u32 \<Rightarrow> mdl \<Rightarrow> mdl" where
  "reinit_mdl virt len m =
     (let m1 = MmInitializeMdl virt len (zero_mdl 0\<lparr>mdl_pfns := mdl_pfns m\<rparr>) in
      if mdl_flags m AND MDL_CACHE_ALLOCATED \<noteq> 0 then m1\<lparr>mdl_flags := mdl_flags m1 OR MDL_CACHE_ALLOCATED\<rparr> else m1)"

definition NdisAllocateBuffer ::
  "ptr \<Rightarrow> ptr \<Rightarrow> ptr \<Rightarrow> u32 \<Rightarrow> 'a nb_state_scheme \<Rightarrow> ('a nb_state_scheme \<times> u32 \<times> ptr) option" where
  "NdisAllocateBuffer wm pool virt len s =
     (if pool = NULL then Some (s, NDIS_STATUS_FAILURE, NULL) else
      do { bp \<leftarrow> buffer_pools s pool;
           let descr = bp_free_descr bp in
           if descr \<noteq> NULL then
             do { m \<leftarrow> mdls s descr;
                  let s1 = put_pool pool (bp\<lparr>bp_free_descr := mdl_next m\<rparr>) s in
                  finish_buffer pool descr (s1\<lparr>mdls := (mdls s1)(descr \<mapsto> reinit_mdl virt len m)\<rparr>) }
           else if bp_num_allocated_descr bp > bp_max_descr bp then Some (s, NDIS_STATUS_FAILURE, NULL)
           else case allocate_init_mdl wm virt len s of (s1, d) \<Rightarrow>
             if d = NULL then Some (s1, NDIS_STATUS_FAILURE, NULL)
             else finish_buffer pool d (put_pool pool (bp\<lparr>bp_num_allocated_descr := bp_num_allocated_descr bp + 1\<rparr>) s1) })"

definition NdisFreeBuffer :: "ptr \<Rightarrow> 'a nb_state_scheme \<Rightarrow> 'a nb_state_scheme option" where
  "NdisFreeBuffer b s =
     (if b = NULL then Some s else
      do { m \<leftarrow> mdls s b;
           if mdl_pool m = NULL then Some s else
      do { bp \<leftarrow> buffer_pools s (mdl_pool m);
           if bp_num_allocated_descr bp > MAX_ALLOCATED_NDIS_BUFFERS then
             do { s1 \<leftarrow> upd_mdl b (\<lambda>m. m\<lparr>mdl_pool := NULL\<rparr>)
                         (put_pool (mdl_pool m) (bp\<lparr>bp_num_allocated_descr := bp_num_allocated_descr bp - 1\<rparr>) s);
                  release_mdl b s1 }
           else
             do { s1 \<leftarrow> upd_mdl b (\<lambda>m. m\<lparr>mdl_next := bp_free_descr bp\<rparr>) s;
                  Some (put_pool (mdl_pool m) (bp\<lparr>bp_free_descr := b\<rparr>) s1) } } })"

definition free_mdl :: "ptr \<Rightarrow> 'a nb_state_scheme \<Rightarrow> 'a nb_state_scheme option" where
  "free_mdl p s =
     (if p = NULL then Some s else
      do { m \<leftarrow> mdls s p; if mdl_pool m \<noteq> NULL then NdisFreeBuffer p s else release_mdl p s })"

definition IoFreeMdl :: "ptr \<Rightarrow> 'a nb_state_scheme \<Rightarrow> 'a nb_state_scheme option" where
  "IoFreeMdl p s = free_mdl p s"

partial_function (option) free_pool_loop :: "ptr \<Rightarrow> 'a nb_state_scheme \<Rightarrow> 'a nb_state_scheme option" where
  "free_pool_loop cur s =
     (if cur = NULL then Some s else
      do { m \<leftarrow> mdls s cur;
           s1 \<leftarrow> upd_mdl cur (\<lambda>m. m\<lparr>mdl_pool := NULL\<rparr>) s;
           s2 \<leftarrow> free_mdl cur s1;
           free_pool_loop (mdl_next m) s2 })"

definition NdisFreeBufferPool :: "ptr \<Rightarrow> 'a nb_state_scheme \<Rightarrow> 'a nb_state_scheme option" where
  "NdisFreeBufferPool pool s =
     (if pool = NULL then Some s else
      do { bp \<leftarrow> buffer_pools s pool;
           s1 \<leftarrow> free_pool_loop (bp_free_descr bp) s;
           Some (s1\<lparr>buffer_pools := (buffer_pools s1)(pool := None)\<rparr>) })"

definition NdisAdjustBufferLength :: "ptr \<Rightarrow> u32 \<Rightarrow> 'a nb_state_scheme \<Rightarrow> 'a nb_state_scheme option" where
  "NdisAdjustBufferLength b len s = upd_mdl b (\<lambda>m. m\<lparr>bytecount := len\<rparr>) s"

definition NdisQueryBuffer :: "ptr \<Rightarrow> 'a nb_state_scheme \<Rightarrow> (ptr \<times> u32) option" where
  "NdisQueryBuffer b s = map_option (\<lambda>m. (mappedsystemva m, bytecount m)) (mdls s b)"

definition NdisQueryBufferOffset :: "ptr \<Rightarrow> 'a nb_state_scheme \<Rightarrow> (u32 \<times> u32) option" where
  "NdisQueryBufferOffset b s = map_option (\<lambda>m. (byteoffset m, bytecount m)) (mdls s b)"

definition NDIS_BUFFER_TO_SPAN_PAGES :: "ptr \<Rightarrow> 'a nb_state_scheme \<Rightarrow> u32 option" where
  "NDIS_BUFFER_TO_SPAN_PAGES b s =
     (if b = NULL then Some 0
      else map_option (\<lambda>m. if bytecount m = 0 then 1 else SPAN_PAGES (MmGetMdlVirtualAddress m) (ucast (bytecount m))) (mdls s b))"

section \<open>The state of a pool\<close>

definition mdl_chain :: "(ptr \<Rightarrow> mdl option) \<Rightarrow> ptr \<Rightarrow> ptr list \<Rightarrow> bool" where
  "mdl_chain h = chain (\<lambda>x. map_option mdl_next (h x))"

lemma mdl_chain_simps [simp]: "mdl_chain h p [] \<longleftrightarrow> p = NULL"
  "mdl_chain h p (x # xs) \<longleftrightarrow> p = x \<and> x \<noteq> NULL \<and> (\<exists>m. h x = Some m \<and> mdl_chain h (mdl_next m) xs)"
  by (auto simp: mdl_chain_def)

lemma mdl_chain_upd: "d \<notin> set xs \<Longrightarrow> mdl_chain (h(d := v)) p xs \<longleftrightarrow> mdl_chain h p xs"
  unfolding mdl_chain_def by (rule chain_cong) auto

lemma mdl_chain_nonnull: "p \<noteq> NULL \<Longrightarrow> mdl_chain h p xs \<longleftrightarrow> (\<exists>m ys. xs = p # ys \<and> h p = Some m \<and> mdl_chain h (mdl_next m) ys)"
  by (auto simp: mdl_chain_def chain_nonnull)

lemma mdl_chain_no_null: "mdl_chain h p xs \<Longrightarrow> NULL \<notin> set xs"
  unfolding mdl_chain_def by (rule chain_no_null)

text \<open>A descriptor of the pool: live, marked with its pool, linked, and with room for at least the pages of a cache object.\<close>

definition desc_ok :: "ptr \<Rightarrow> (ptr \<Rightarrow> mdl option) \<Rightarrow> ptr list \<Rightarrow> ptr \<Rightarrow> bool" where
  "desc_ok pool h wms p \<longleftrightarrow> (\<exists>m. h p = Some m \<and> mdl_pool m = pool \<and> p - wrap_mdl_offset \<in> set wms \<and> MDL_CACHE_PAGES \<le> length (mdl_pfns m))"

definition bp_rep :: "ptr \<Rightarrow> 'a nb_state_scheme \<Rightarrow> ptr list \<Rightarrow> ptr list \<Rightarrow> bool" where
  "bp_rep pool s fs us \<longleftrightarrow> pool \<noteq> NULL \<and> distinct (fs @ us) \<and> NULL \<notin> set us \<and> distinct (wrap_mdl_list s) \<and>
     (\<forall>p\<in>set (fs @ us). desc_ok pool (mdls s) (wrap_mdl_list s) p) \<and>
     (\<exists>bp. buffer_pools s pool = Some bp \<and> mdl_chain (mdls s) (bp_free_descr bp) fs \<and>
        unat (bp_num_allocated_descr bp) = length fs + length us \<and>
        unat (bp_num_allocated_descr bp) \<le> unat (bp_max_descr bp) + 1 \<and> bp_max_descr bp \<noteq> - 1)"

definition mdl_fresh :: "ptr \<Rightarrow> 'a nb_state_scheme \<Rightarrow> bool" where
  "mdl_fresh wm s \<longleftrightarrow> mdls s (wm + wrap_mdl_offset) = None \<and> wm \<notin> set (wrap_mdl_list s) \<and> wm + wrap_mdl_offset \<noteq> NULL"

lemma descs_ok_upd: "d \<notin> A \<Longrightarrow> (\<forall>p\<in>A. desc_ok pool (h(d := v)) wms p) \<longleftrightarrow> (\<forall>p\<in>A. desc_ok pool h wms p)"
  by (auto simp: desc_ok_def)

lemma desc_ok_live: "desc_ok pool h wms p \<Longrightarrow> h p \<noteq> None"
  by (auto simp: desc_ok_def)

definition built :: "ptr \<Rightarrow> mdl \<Rightarrow> mdl" where
  "built pool m = m\<lparr>mdl_flags := mdl_flags m OR MDL_SOURCE_IS_NONPAGED_POOL,
     mdl_pfns := map (\<lambda>j. startva m + of_nat j * 4096) [0..<pages_of m] @ drop (pages_of m) (mdl_pfns m), mdl_pool := pool\<rparr>"

lemma finish_buffer_spec:
  "mdls s d = Some m \<Longrightarrow> finish_buffer pool d s =
     (if pages_of m \<le> length (mdl_pfns m) then Some (s\<lparr>mdls := (mdls s)(d \<mapsto> built pool m)\<rparr>, NDIS_STATUS_SUCCESS, d) else None)"
  by (simp add: finish_buffer_def MmBuildMdl_iff_room upd_mdl_def built_def)

lemma built_simps [simp]: "mdl_pool (built pool m) = pool" "mdl_next (built pool m) = mdl_next m"
  "pages_of m \<le> length (mdl_pfns m) \<Longrightarrow> length (mdl_pfns (built pool m)) = length (mdl_pfns m)"
  by (simp_all add: built_def)

lemma reinit_simps [simp]: "mdl_pfns (reinit_mdl virt len m) = mdl_pfns m"
  "pages_of (reinit_mdl virt len m) = unat (SPAN_PAGES virt (ucast len))"
  by (simp_all add: reinit_mdl_def MmInitializeMdl_def Let_def pages_of_def)

text \<open>The two ways in which \<^verbatim>\<open>NdisAllocateBuffer\<close> succeeds, on the abstraction.\<close>

lemma alloc_reuse:
  assumes "bp_rep pool s (f # fs) us"
  shows "\<exists>m bp. mdls s f = Some m \<and> buffer_pools s pool = Some bp \<and> NdisAllocateBuffer wm pool virt len s =
    (if unat (SPAN_PAGES virt (ucast len)) \<le> length (mdl_pfns m)
     then Some ((put_pool pool (bp\<lparr>bp_free_descr := mdl_next m\<rparr>) s)\<lparr>mdls := (mdls s)(f \<mapsto> built pool (reinit_mdl virt len m))\<rparr>,
                NDIS_STATUS_SUCCESS, f)
     else None)"
proof -
  from assms obtain bp m where b: "buffer_pools s pool = Some bp" "bp_free_descr bp = f" "f \<noteq> NULL" "mdls s f = Some m" "pool \<noteq> NULL"
    by (auto simp: bp_rep_def)
  have "mdls (s\<lparr>buffer_pools := g, mdls := (mdls s)(f \<mapsto> r)\<rparr>) f = Some r" for g r by simp
  thus ?thesis using b by (simp add: NdisAllocateBuffer_def put_pool_def finish_buffer_spec)
qed

lemma alloc_reuse_rep:
  assumes "bp_rep pool s (f # fs) us" "NdisAllocateBuffer wm pool virt len s = Some (s', st, p)"
  shows "p = f \<and> bp_rep pool s' fs (f # us)"
proof -
  from alloc_reuse [OF assms(1), of wm virt len] obtain m bp where m: "mdls s f = Some m" "buffer_pools s pool = Some bp"
    "unat (SPAN_PAGES virt (ucast len)) \<le> length (mdl_pfns m)"
    "s' = (put_pool pool (bp\<lparr>bp_free_descr := mdl_next m\<rparr>) s)\<lparr>mdls := (mdls s)(f \<mapsto> built pool (reinit_mdl virt len m))\<rparr>" "p = f"
    using assms(2) by (auto split: if_splits)
  have g: "mdls s' = (mdls s)(f \<mapsto> built pool (reinit_mdl virt len m))" "wrap_mdl_list s' = wrap_mdl_list s"
    "buffer_pools s' = (buffer_pools s)(pool \<mapsto> bp\<lparr>bp_free_descr := mdl_next m\<rparr>)"
    by (simp_all add: m(4) put_pool_def)
  have ok: "desc_ok pool (mdls s) (wrap_mdl_list s) f" using assms(1) by (simp add: bp_rep_def)
  hence "desc_ok pool (mdls s') (wrap_mdl_list s') f" using m(1,3) by (auto simp: desc_ok_def g)
  moreover have "\<forall>p\<in>set (fs @ us). desc_ok pool (mdls s') (wrap_mdl_list s') p"
    unfolding g using assms(1) by (subst descs_ok_upd) (auto simp: bp_rep_def)
  ultimately have "\<forall>p\<in>set (fs @ f # us). desc_ok pool (mdls s') (wrap_mdl_list s') p" by auto
  thus ?thesis
    using assms(1) m(1,2,5) unfolding bp_rep_def g by (simp add: mdl_chain_upd)
qed

lemma allocate_init_mdl_fields:
  assumes "allocate_init_mdl wm virt len s = (s1, d)" "d \<noteq> NULL"
  shows "\<exists>m. mdls s1 = (mdls s)(d \<mapsto> m) \<and> wrap_mdl_list s1 = wm # wrap_mdl_list s \<and> buffer_pools s1 = buffer_pools s \<and>
    d = wm + wrap_mdl_offset \<and> pages_of m \<le> length (mdl_pfns m) \<and> MDL_CACHE_PAGES \<le> length (mdl_pfns m) \<and>
    mdl_released s1 = mdl_released s"
proof -
  from allocate_init_mdl_room [OF assms] obtain m where m: "d = wm + wrap_mdl_offset" "mdls s1 d = Some m" "pages_of m \<le> length (mdl_pfns m)"
    by blast
  have "mdls s1 = (mdls s)(d \<mapsto> m)" "wrap_mdl_list s1 = wm # wrap_mdl_list s" "buffer_pools s1 = buffer_pools s" "mdl_released s1 = mdl_released s"
    using assms m(2) by (auto simp: allocate_init_mdl_def Let_def split: if_splits)
  moreover have "MDL_CACHE_PAGES \<le> length (mdl_pfns m)"
    using allocate_init_mdl_min_room [OF assms m(2)] .
  ultimately show ?thesis using m by blast
qed

lemma alloc_new_rep:
  assumes "bp_rep pool s [] us" "mdl_fresh wm s"
  shows "\<exists>s' st p. NdisAllocateBuffer wm pool virt len s = Some (s', st, p) \<and>
    (p = NULL \<and> s' = s \<or> p = wm + wrap_mdl_offset \<and> p \<noteq> NULL \<and> bp_rep pool s' [] (p # us))"
proof -
  from assms(1) obtain bp where b: "buffer_pools s pool = Some bp" "bp_free_descr bp = NULL" "pool \<noteq> NULL"
      "unat (bp_num_allocated_descr bp) = length us" "bp_max_descr bp \<noteq> - 1"
    by (auto simp: bp_rep_def)
  obtain s1 d where d: "allocate_init_mdl wm virt len s = (s1, d)" by fastforce
  show ?thesis
  proof (cases "bp_num_allocated_descr bp > bp_max_descr bp \<or> d = NULL")
    case True
    have "d = NULL \<Longrightarrow> s1 = s" using d assms(2) by (auto simp: allocate_init_mdl_def Let_def mdl_fresh_def split: if_splits)
    thus ?thesis using True b d by (auto simp: NdisAllocateBuffer_def Let_def)
  next
    case False
    then obtain m where m: "mdls s1 = (mdls s)(d \<mapsto> m)" "wrap_mdl_list s1 = wm # wrap_mdl_list s" "buffer_pools s1 = buffer_pools s"
      "d = wm + wrap_mdl_offset" "pages_of m \<le> length (mdl_pfns m)" "MDL_CACHE_PAGES \<le> length (mdl_pfns m)"
      using allocate_init_mdl_fields [OF d] by blast
    define s' where "s' = (put_pool pool (bp\<lparr>bp_num_allocated_descr := bp_num_allocated_descr bp + 1\<rparr>) s1)\<lparr>mdls := (mdls s)(d \<mapsto> built pool m)\<rparr>"
    have g: "mdls s' = (mdls s)(d \<mapsto> built pool m)" "wrap_mdl_list s' = wm # wrap_mdl_list s"
      "buffer_pools s' = (buffer_pools s)(pool \<mapsto> bp\<lparr>bp_num_allocated_descr := bp_num_allocated_descr bp + 1\<rparr>)"
      by (simp_all add: s'_def put_pool_def m)
    have "NdisAllocateBuffer wm pool virt len s = Some (s', NDIS_STATUS_SUCCESS, d)"
      using False b d m by (simp add: NdisAllocateBuffer_def finish_buffer_spec s'_def put_pool_def)
    moreover have n: "unat (bp_num_allocated_descr bp + 1) = length us + 1" "unat (bp_num_allocated_descr bp) \<le> unat (bp_max_descr bp)"
      using False b(4) unat_plus_one_max [of "bp_max_descr bp" "bp_num_allocated_descr bp"] b(5) by (simp_all add: word_less_nat_alt)
    moreover have "d \<notin> set us" using assms by (auto simp: bp_rep_def mdl_fresh_def m(4) dest: desc_ok_live)
    moreover have "desc_ok pool (mdls s') (wrap_mdl_list s') d" using m(5,6) by (simp add: desc_ok_def g m(4))
    moreover have "\<forall>p\<in>set us. desc_ok pool (mdls s') (wrap_mdl_list s') p"
      unfolding g using assms(1) \<open>d \<notin> set us\<close> by (subst descs_ok_upd) (auto simp: bp_rep_def desc_ok_def)
    ultimately show ?thesis
      using assms b False unfolding bp_rep_def by (auto simp: g m(4) mdl_fresh_def)
  qed
qed

lemma NdisFreeBuffer_rep:
  assumes "bp_rep pool s fs us" "p \<in> set us"
  shows "\<exists>s'. NdisFreeBuffer p s = Some s' \<and> (bp_rep pool s' (p # fs) (remove1 p us) \<or> bp_rep pool s' fs (remove1 p us))"
proof -
  from assms(1) obtain bp where b: "buffer_pools s pool = Some bp" "mdl_chain (mdls s) (bp_free_descr bp) fs" "pool \<noteq> NULL"
      "unat (bp_num_allocated_descr bp) = length fs + length us" "unat (bp_num_allocated_descr bp) \<le> unat (bp_max_descr bp) + 1" "bp_max_descr bp \<noteq> - 1"
    by (auto simp: bp_rep_def)
  from assms obtain m where m: "mdls s p = Some m" "mdl_pool m = pool" "p - wrap_mdl_offset \<in> set (wrap_mdl_list s)"
      "MDL_CACHE_PAGES \<le> length (mdl_pfns m)" by (auto simp: bp_rep_def desc_ok_def)
  have d: "p \<noteq> NULL" "p \<notin> set fs" "p \<notin> set (remove1 p us)" "distinct (fs @ us)" "NULL \<notin> set us" "distinct (wrap_mdl_list s)"
    and ok: "\<forall>q\<in>set (fs @ us). desc_ok pool (mdls s) (wrap_mdl_list s) q"
    using assms by (auto simp: bp_rep_def)
  have len: "length us = Suc (length (remove1 p us))" using length_pos_if_in_set [OF assms(2)] assms(2) by (simp add: length_remove1)
  show ?thesis
  proof (cases "bp_num_allocated_descr bp > MAX_ALLOCATED_NDIS_BUFFERS")
    case True
    let ?bp = "bp\<lparr>bp_num_allocated_descr := bp_num_allocated_descr bp - 1\<rparr>"
    define s' where "s' = (put_pool pool ?bp s)\<lparr>mdls := (mdls s)(p := None), wrap_mdl_list := remove1 (p - wrap_mdl_offset) (wrap_mdl_list s),
      mdl_released := mdl_released s @ [mdl_released_by (p - wrap_mdl_offset) (m\<lparr>mdl_pool := NULL\<rparr>)]\<rparr>"
    have "NdisFreeBuffer p s = Some s'"
      using True b m d by (simp add: NdisFreeBuffer_def upd_mdl_def release_mdl_def put_pool_def s'_def Let_def)
    moreover have "bp_num_allocated_descr bp \<noteq> 0" using True by auto
    hence "unat (bp_num_allocated_descr bp - 1) = length fs + length (remove1 p us)" using b(4) len by (simp add: unat_minus_one)
    moreover have "\<forall>q\<in>set (fs @ remove1 p us). desc_ok pool (mdls s') (wrap_mdl_list s') q"
      using ok d(2,3,6) set_remove1_subset [of p us] by (force simp: s'_def desc_ok_def)
    ultimately show ?thesis
      using b len d set_remove1_subset [of p us]
      by (intro exI [of _ s'] conjI disjI2) (auto simp: bp_rep_def s'_def put_pool_def mdl_chain_upd)
  next
    case False
    define s' where "s' = put_pool pool (bp\<lparr>bp_free_descr := p\<rparr>) (s\<lparr>mdls := (mdls s)(p \<mapsto> m\<lparr>mdl_next := bp_free_descr bp\<rparr>)\<rparr>)"
    have g: "mdls s' = (mdls s)(p \<mapsto> m\<lparr>mdl_next := bp_free_descr bp\<rparr>)" "wrap_mdl_list s' = wrap_mdl_list s"
      "buffer_pools s' = (buffer_pools s)(pool \<mapsto> bp\<lparr>bp_free_descr := p\<rparr>)" by (simp_all add: s'_def put_pool_def)
    have "NdisFreeBuffer p s = Some s'"
      using False b m d by (simp add: NdisFreeBuffer_def upd_mdl_def s'_def)
    moreover have "\<forall>q\<in>set (fs @ us) - {p}. desc_ok pool (mdls s') (wrap_mdl_list s') q"
      unfolding g using ok by (subst descs_ok_upd) auto
    moreover have "desc_ok pool (mdls s') (wrap_mdl_list s') p" using m by (simp add: desc_ok_def g)
    ultimately show ?thesis
      using b len d set_remove1_subset [of p us]
      by (intro exI [of _ s'] conjI disjI1) (auto simp: bp_rep_def g mdl_chain_upd)
  qed
qed

definition alloc_buffer :: "ptr \<Rightarrow> ptr \<times> u32 \<Rightarrow> ptr \<Rightarrow> 'a nb_state_scheme \<Rightarrow> ('a nb_state_scheme \<times> ptr) option" where
  "alloc_buffer pool r wm s = map_option (\<lambda>(s', st, p). (s', p)) (NdisAllocateBuffer wm pool (fst r) (snd r) s)"

interpretation bufpool: desc_pool "bp_rep pool" "alloc_buffer pool" NdisFreeBuffer mdl_fresh "\<lambda>wm. wm + wrap_mdl_offset"
  "\<lambda>r. unat (SPAN_PAGES (fst r) (ucast (snd r))) \<le> MDL_CACHE_PAGES"
proof (unfold_locales, goal_cases)
  case (1 s fs us a r s' p)
  then obtain st where st: "NdisAllocateBuffer a pool (fst r) (snd r) s = Some (s', st, p)" by (auto simp: alloc_buffer_def)
  show ?case
  proof (cases fs)
    case Nil
    from alloc_new_rep [OF 1(1) [unfolded Nil] 1(2), of "fst r" "snd r"] st
    have "p = NULL \<and> s' = s \<or> p = a + wrap_mdl_offset \<and> p \<noteq> NULL \<and> bp_rep pool s' [] (p # us)" by simp
    thus ?thesis using Nil 1(1) by auto
  next
    case (Cons f fs')
    hence "f \<noteq> NULL" using 1(1) by (auto simp: bp_rep_def)
    thus ?thesis using alloc_reuse_rep [OF 1(1) [unfolded Cons] st] Cons by simp
  qed
next
  case (2 s fs us a r)
  show ?case
  proof (cases fs)
    case Nil
    show ?thesis using alloc_new_rep [OF 2(1) [unfolded Nil] 2(2), of "fst r" "snd r"] by (auto simp: alloc_buffer_def)
  next
    case (Cons f fs')
    from 2(1) have "desc_ok pool (mdls s) (wrap_mdl_list s) f" by (simp add: bp_rep_def Cons)
    thus ?thesis using alloc_reuse [OF 2(1) [unfolded Cons], of a "fst r" "snd r"] 2(3) by (auto simp: alloc_buffer_def desc_ok_def)
  qed
next
  case (3 s fs us p)
  thus ?case by (rule NdisFreeBuffer_rep)
next
  case (4 s fs us)
  thus ?case by (auto simp: bp_rep_def dest: mdl_chain_no_null)
qed

text \<open>A pool in use by a driver that frees only buffers it was given and whose calls do not overlap: \<open>us\<close> are the buffers it
  holds.\<close>

inductive buf_run :: "ptr \<Rightarrow> nb_state \<Rightarrow> ptr list \<Rightarrow> bool" for pool where
  new: "distinct (wrap_mdl_list s) \<Longrightarrow> num_descr \<noteq> - 1 \<Longrightarrow>
    NdisAllocateBufferPool pool num_descr s = (s', NDIS_STATUS_SUCCESS, Some pool) \<Longrightarrow> buf_run pool s' []"
| alloc: "buf_run pool s us \<Longrightarrow> mdl_fresh wm s \<Longrightarrow> NdisAllocateBuffer wm pool virt len s = Some (s', st, p) \<Longrightarrow>
    buf_run pool s' (if p = NULL then us else p # us)"
| free: "buf_run pool s us \<Longrightarrow> p \<in> set us \<Longrightarrow> NdisFreeBuffer p s = Some s' \<Longrightarrow> buf_run pool s' (remove1 p us)"

lemma buf_run_rep: "buf_run pool s us \<Longrightarrow> \<exists>fs. bp_rep pool s fs us"
proof (induction rule: buf_run.induct)
  case (new s n s')
  hence "bp_rep pool s' [] []" by (auto simp: bp_rep_def NdisAllocateBufferPool_def put_pool_def split: if_splits)
  thus ?case by blast
next
  case (alloc s us wm virt len s' st p)
  then obtain fs where fs: "bp_rep pool s fs us" by blast
  have "alloc_buffer pool (virt, len) wm s = Some (s', p)" using alloc(3) by (simp add: alloc_buffer_def)
  from bufpool.alloc_law [OF fs alloc(2) this] show ?case by auto
next
  case (free s us p s')
  then obtain fs where "bp_rep pool s fs us" by blast
  from bufpool.free_law [OF this free(2)] free(3) show ?case by auto
qed

text \<open>C21: After every sequence of allocations and frees of a buffer pool that do not overlap, by a driver that frees only
  buffers it holds and created the pool for fewer than \<open>2 ^ 32 - 1\<close> descriptors, the buffers in use are distinct live MDLs that belong to the pool, none of them is on the free
  list, and the pool counts exactly the descriptors that exist, at most one more than the driver asked for.\<close>

theorem buffer_pool_invariant:
  assumes "buf_run pool s us"
  shows "distinct us \<and> (\<forall>p\<in>set us. \<exists>m. mdls s p = Some m \<and> mdl_pool m = pool) \<and>
    (\<exists>bp fs. buffer_pools s pool = Some bp \<and> mdl_chain (mdls s) (bp_free_descr bp) fs \<and> distinct fs \<and> set fs \<inter> set us = {} \<and>
       unat (bp_num_allocated_descr bp) = length fs + length us \<and> length fs + length us \<le> unat (bp_max_descr bp) + 1)"
  using buf_run_rep [OF assms] by (fastforce simp: bp_rep_def desc_ok_def)

definition nb_demo0 :: nb_state where
  "nb_demo0 = fst (NdisAllocateBufferPool 0x100 4 \<lparr>mdls = Map.empty, wrap_mdl_list = [], mdl_released = [], buffer_pools = Map.empty\<rparr>)"

definition nb_demo :: nb_state where
  "nb_demo = fst (the (NdisAllocateBuffer 0x5000 0x100 0x20010 100 nb_demo0))"

lemmas nb_demo_simps = nb_demo0_def NdisAllocateBufferPool_def put_pool_def NdisAllocateBuffer_def allocate_init_mdl_def Let_def
  MmInitializeMdl_def zero_mdl_def MmSizeOfMdl_def SPAN_PAGES_def MDL_CACHE_SIZE_def MDL_CACHE_PAGES_def wrap_mdl_offset_def
  finish_buffer_def MmBuildMdlForNonPagedPool_def upd_mdl_def PAGE_START_def BYTE_OFFSET_def

definition nb_demo_mdl :: mdl where
  "nb_demo_mdl = \<lparr>mdl_next = 0, mdl_size = 56, mdl_flags = 0x800C, mdl_pool = 0x100, mappedsystemva = 0x20010, startva = 0x20000,
     bytecount = 100, byteoffset = 0x10, mdl_pfns = [0x20000, 0, 0]\<rparr>"

lemma nb_demo_alloc: "NdisAllocateBuffer 0x5000 0x100 0x20010 100 nb_demo0 =
    Some (\<lparr>mdls = [0x5010 \<mapsto> nb_demo_mdl], wrap_mdl_list = [0x5000], mdl_released = [],
       buffer_pools = [0x100 \<mapsto> \<lparr>bp_free_descr = 0, bp_max_descr = 4, bp_num_allocated_descr = 1\<rparr>]\<rparr>, NDIS_STATUS_SUCCESS, 0x5010)"
  by (simp add: nb_demo_simps nb_demo_mdl_def numeral_3_eq_3)

lemma nb_demo_run: "buf_run 0x100 nb_demo [0x5010]" "buf_run 0x100 nb_demo0 []"
proof -
  show r: "buf_run 0x100 nb_demo0 []"
    by (rule buf_run.new [of "\<lparr>mdls = Map.empty, wrap_mdl_list = [], mdl_released = [], buffer_pools = Map.empty\<rparr>" 4])
      (simp_all add: nb_demo0_def NdisAllocateBufferPool_def)
  have "NdisAllocateBuffer 0x5000 0x100 0x20010 100 nb_demo0 = Some (nb_demo, NDIS_STATUS_SUCCESS, 0x5010)"
    by (simp add: nb_demo_def nb_demo_alloc)
  from buf_run.alloc [OF r _ this] show "buf_run 0x100 nb_demo [0x5010]"
    by (simp add: mdl_fresh_def nb_demo0_def NdisAllocateBufferPool_def put_pool_def wrap_mdl_offset_def)
qed

theorem buffer_pool_invariant_witness:
  "\<exists>bp fs. buffer_pools nb_demo 0x100 = Some bp \<and> mdl_chain (mdls nb_demo) (bp_free_descr bp) fs \<and>
     unat (bp_num_allocated_descr bp) = length fs + 1"
  using buffer_pool_invariant [OF nb_demo_run(1)] by auto

text \<open>The test of the limit and the creation of a descriptor as the two separate steps that they are: between them another call may
  create descriptors.\<close>

definition pool_full :: "ptr \<Rightarrow> 'a nb_state_scheme \<Rightarrow> bool option" where
  "pool_full pool s = map_option (\<lambda>bp. bp_num_allocated_descr bp > bp_max_descr bp) (buffer_pools s pool)"

definition new_buffer :: "ptr \<Rightarrow> ptr \<Rightarrow> ptr \<Rightarrow> u32 \<Rightarrow> 'a nb_state_scheme \<Rightarrow> ('a nb_state_scheme \<times> u32 \<times> ptr) option" where
  "new_buffer wm pool virt len s =
     do { bp \<leftarrow> buffer_pools s pool;
          case allocate_init_mdl wm virt len s of (s1, d) \<Rightarrow>
            if d = NULL then Some (s1, NDIS_STATUS_FAILURE, NULL)
            else finish_buffer pool d (put_pool pool (bp\<lparr>bp_num_allocated_descr := bp_num_allocated_descr bp + 1\<rparr>) s1) }"

lemma NdisAllocateBuffer_steps:
  assumes "pool \<noteq> NULL" "buffer_pools s pool = Some bp" "bp_free_descr bp = NULL"
  shows "NdisAllocateBuffer wm pool virt len s =
     do { full \<leftarrow> pool_full pool s; if full then Some (s, NDIS_STATUS_FAILURE, NULL) else new_buffer wm pool virt len s }"
  using assms by (simp add: NdisAllocateBuffer_def pool_full_def new_buffer_def Let_def)

lemma finish_buffer_pools: "finish_buffer pool d s = Some (s', st, p) \<Longrightarrow> buffer_pools s' = buffer_pools s \<and> p = d"
  by (auto simp: finish_buffer_def MmBuildMdlForNonPagedPool_def upd_mdl_def Let_def split: Option.bind_splits)

lemma new_buffer_counts:
  assumes "new_buffer wm pool virt len s = Some (s', st, p)" "p \<noteq> NULL" "buffer_pools s pool = Some bp"
  shows "buffer_pools s' pool = Some (bp\<lparr>bp_num_allocated_descr := bp_num_allocated_descr bp + 1\<rparr>)"
  using assms by (auto simp: new_buffer_def put_pool_def split: prod.splits if_splits dest!: finish_buffer_pools)

text \<open>The limit is not kept when calls overlap: two calls that both find the pool not yet full create two descriptors, and the
  count exceeds the maximum by two.\<close>

lemma buffer_pool_limit_race:
  assumes "buffer_pools s pool = Some bp" "bp_num_allocated_descr bp = bp_max_descr bp"
    "new_buffer a pool virt len s = Some (s1, st1, p1)" "p1 \<noteq> NULL" "new_buffer b pool virt len s1 = Some (s2, st2, p2)" "p2 \<noteq> NULL"
  shows "pool_full pool s = Some False \<and>
     (\<exists>bp2. buffer_pools s2 pool = Some bp2 \<and> bp_num_allocated_descr bp2 = bp_max_descr bp2 + 2)"
  using new_buffer_counts [OF assms(3,4,1)] new_buffer_counts [OF assms(5,6)] assms(1,2) by (simp add: pool_full_def)

text \<open>A buffer of at most three pages can always be allocated or is refused; it is never one that is in use, and the one freed last
  is reused first.\<close>

theorem NdisAllocateBuffer_exclusive:
  assumes "buf_run pool s us" "mdl_fresh wm s" "unat (SPAN_PAGES virt (ucast len)) \<le> MDL_CACHE_PAGES"
  shows "\<exists>s' st p. NdisAllocateBuffer wm pool virt len s = Some (s', st, p) \<and> (p \<noteq> NULL \<longrightarrow> p \<notin> set us) \<and>
    (\<forall>bp. buffer_pools s pool = Some bp \<longrightarrow> bp_free_descr bp \<noteq> NULL \<longrightarrow> p = bp_free_descr bp)"
proof -
  from buf_run_rep [OF assms(1)] obtain fs where r: "bp_rep pool s fs us" by blast
  from bufpool.alloc_returns [OF r assms(2), of "(virt, len)"] assms(3) obtain s' st p
    where a: "NdisAllocateBuffer wm pool virt len s = Some (s', st, p)" by (auto simp: alloc_buffer_def)
  hence a': "alloc_buffer pool (virt, len) wm s = Some (s', p)" by (simp add: alloc_buffer_def)
  have "p = f" if "fs = f # fs'" for f fs' using alloc_reuse_rep [OF r [unfolded that] a] by simp
  moreover have "p \<noteq> NULL \<longrightarrow> p \<notin> set us" using bufpool.alloc_not_in_use [OF r assms(2) a'] by blast
  ultimately show ?thesis using a r by (auto simp: bp_rep_def mdl_chain_nonnull)
qed

theorem NdisAllocateBuffer_exclusive_witness:
  "\<exists>s' st p. NdisAllocateBuffer 0x6000 0x100 0x30000 1500 nb_demo = Some (s', st, p) \<and> (p \<noteq> NULL \<longrightarrow> p \<notin> set [0x5010])"
  using NdisAllocateBuffer_exclusive [OF nb_demo_run(1), of "0x6000" "0x30000" 1500]
  by (auto simp: mdl_fresh_def nb_demo_def nb_demo_alloc wrap_mdl_offset_def SPAN_PAGES_def MDL_CACHE_PAGES_def)

text \<open>A reused descriptor is not checked against the size of the new buffer: when the free descriptor at the head of the pool has
  room for fewer pages than the buffer spans, filling in the frame numbers writes behind it.\<close>

theorem NdisAllocateBuffer_reuse_overflow:
  assumes "pool \<noteq> NULL" "buffer_pools s pool = Some bp" "bp_free_descr bp \<noteq> NULL" "mdls s (bp_free_descr bp) = Some m"
  shows "NdisAllocateBuffer wm pool virt len s = None \<longleftrightarrow> length (mdl_pfns m) < unat (SPAN_PAGES virt (ucast len))"
  using assms by (simp add: NdisAllocateBuffer_def put_pool_def finish_buffer_spec not_le Let_def)

definition nb_demo_freed :: nb_state where
  "nb_demo_freed = the (NdisFreeBuffer 0x5010 nb_demo)"

theorem NdisAllocateBuffer_reuse_overflow_witness:
  "NdisAllocateBuffer 0x6000 0x100 0x30000 16384 nb_demo_freed = None"
proof -
  have f: "buffer_pools nb_demo_freed 0x100 = Some \<lparr>bp_free_descr = 0x5010, bp_max_descr = 4, bp_num_allocated_descr = 1\<rparr>"
    "mdls nb_demo_freed 0x5010 = Some nb_demo_mdl"
    by (simp_all add: nb_demo_freed_def NdisFreeBuffer_def nb_demo_def nb_demo_alloc nb_demo_mdl_def MAX_ALLOCATED_NDIS_BUFFERS_def
        upd_mdl_def put_pool_def)
  show ?thesis
    using NdisAllocateBuffer_reuse_overflow [OF _ f(1), of nb_demo_mdl "0x6000" "0x30000" 16384] f(2)
    by (simp add: nb_demo_mdl_def SPAN_PAGES_def)
qed

lemma free_pool_loop_releases:
  assumes "mdl_chain (mdls s) p fs" "distinct fs" "distinct (wrap_mdl_list s)" "\<forall>q\<in>set fs. q - wrap_mdl_offset \<in> set (wrap_mdl_list s)"
  shows "\<exists>s'. free_pool_loop p s = Some s' \<and> mdls s' = (\<lambda>q. if q \<in> set fs then None else mdls s q) \<and> buffer_pools s' = buffer_pools s \<and>
    mdl_released s' = mdl_released s @ map (\<lambda>q. mdl_released_by (q - wrap_mdl_offset) (the (mdls s q))) fs"
  using assms
proof (induction fs arbitrary: p s)
  case Nil
  thus ?case by (simp add: free_pool_loop.simps)
next
  case (Cons f fs)
  from Cons.prems obtain m where m: "p = f" "f \<noteq> NULL" "mdls s f = Some m" "mdl_chain (mdls s) (mdl_next m) fs" "f \<notin> set fs" by auto
  define s1 where "s1 = s\<lparr>mdls := (mdls s)(f := None), wrap_mdl_list := remove1 (f - wrap_mdl_offset) (wrap_mdl_list s),
    mdl_released := mdl_released s @ [mdl_released_by (f - wrap_mdl_offset) (m\<lparr>mdl_pool := NULL\<rparr>)]\<rparr>"
  have g: "mdls s1 = (mdls s)(f := None)" "wrap_mdl_list s1 = remove1 (f - wrap_mdl_offset) (wrap_mdl_list s)"
    "buffer_pools s1 = buffer_pools s" by (simp_all add: s1_def)
  have "free_pool_loop p s = free_pool_loop (mdl_next m) s1"
    using m Cons.prems(4) by (subst free_pool_loop.simps) (simp add: upd_mdl_def free_mdl_def release_mdl_def s1_def Let_def)
  moreover have "mdl_chain (mdls s1) (mdl_next m) fs" using m by (simp add: g mdl_chain_upd)
  moreover have "\<forall>q\<in>set fs. q - wrap_mdl_offset \<in> set (wrap_mdl_list s1)" using Cons.prems(3,4) m(5) by (auto simp: g)
  moreover have "mdl_released_by w (m\<lparr>mdl_pool := NULL\<rparr>) = mdl_released_by w m" for w by (simp add: mdl_released_by_def)
  moreover have "map (\<lambda>q. mdl_released_by (q - wrap_mdl_offset) (the (mdls s1 q))) fs = map (\<lambda>q. mdl_released_by (q - wrap_mdl_offset) (the (mdls s q))) fs"
    using m(5) by (auto simp: g)
  ultimately show ?case
    using Cons.IH [of s1 "mdl_next m"] Cons.prems(2,3) m(3) by (fastforce simp: g s1_def)
qed

text \<open>Freeing a pool returns: it releases the descriptors on the free list, each once and to where it came from, and leaves those in
  use alone.\<close>

theorem NdisFreeBufferPool_releases:
  assumes "buf_run pool s us"
  shows "\<exists>s' bp fs. NdisFreeBufferPool pool s = Some s' \<and> buffer_pools s pool = Some bp \<and> mdl_chain (mdls s) (bp_free_descr bp) fs \<and>
    buffer_pools s' pool = None \<and> (\<forall>p\<in>set fs. mdls s' p = None) \<and> (\<forall>p\<in>set us. mdls s' p = mdls s p) \<and>
    mdl_released s' = mdl_released s @ map (\<lambda>q. mdl_released_by (q - wrap_mdl_offset) (the (mdls s q))) fs"
proof -
  from buf_run_rep [OF assms] obtain fs bp where r: "bp_rep pool s fs us" "buffer_pools s pool = Some bp" "mdl_chain (mdls s) (bp_free_descr bp) fs"
    by (auto simp: bp_rep_def)
  hence "distinct fs" "distinct (wrap_mdl_list s)" "\<forall>q\<in>set fs. q - wrap_mdl_offset \<in> set (wrap_mdl_list s)" "pool \<noteq> NULL" "set fs \<inter> set us = {}"
    by (auto simp: bp_rep_def desc_ok_def)
  thus ?thesis using free_pool_loop_releases [OF r(3)] r(2,3) by (fastforce simp: NdisFreeBufferPool_def)
qed

theorem NdisFreeBufferPool_releases_witness:
  "\<exists>s'. NdisFreeBufferPool 0x100 nb_demo = Some s' \<and> buffer_pools s' 0x100 = None \<and> mdls s' 0x5010 = mdls nb_demo 0x5010"
  using NdisFreeBufferPool_releases [OF nb_demo_run(1)] by auto

end
