(* ===== verification/Ndis_Packet.thy ===== *)
theory Ndis_Packet
  imports Ndis_Buffer
begin

text \<open>
  The packet pools of \<^verbatim>\<open>ndis.c\<close> and the chains of buffers in packets.  A packet is a descriptor with a chain of MDLs and, behind the
  bytes reserved for the protocol, the out-of-band data; freed packets are chained through \<^verbatim>\<open>reserved[0]\<close>, and
  \<^verbatim>\<open>reserved[1]\<close> points to the packet stacks of intermediate drivers.  The state extends that of the buffer pools.

  Shown are that packet pools meet the contract \<open>desc_pool\<close> of descriptor pools, with both counts of the pool exact, that the
  out-of-band data lies inside its packet, that unchaining buffers takes the last or the first buffer of a chain and that the
  reported length is the sum over the chain, and that the first packet stack of a packet is handed out twice.
\<close>

section \<open>State and operations\<close>

record ndis_packet =
  buffer_head :: ptr
  buffer_tail :: ptr
  pk_pool :: ptr
  valid_counts :: bool
  packet_flags :: u8
  oob_offset :: u16
  reserved0 :: ptr
  reserved1 :: ptr
  pk_len :: u32
  pk_flags :: u32
  pk_status :: u32
  pk_size :: nat

record ndis_packet_pool =
  pp_free_descr :: ptr
  pp_max_descr :: u32
  pp_num_allocated_descr :: u32
  pp_num_used_descr :: u32
  pp_proto_rsvd_length :: u32

text \<open>Two packet stacks are allocated together; of each the model keeps \<^verbatim>\<open>ndis_reserved[0]\<close>.\<close>

record np_state = nb_state +
  packets :: "ptr \<Rightarrow> ndis_packet option"
  packet_pools :: "ptr \<Rightarrow> ndis_packet_pool option"
  packet_stacks :: "ptr \<Rightarrow> (bool \<times> bool) option"

definition MAX_ALLOCATED_NDIS_PACKETS :: u32 where "MAX_ALLOCATED_NDIS_PACKETS = 16"
abbreviation fPACKET_ALLOCATED_BY_NDIS :: u8 where "fPACKET_ALLOCATED_BY_NDIS \<equiv> 0x80"

text \<open>Sizes of the x86-64 build: a packet has 104 bytes, one of which is the first reserved for the protocol, the out-of-band data
  160, two packet stacks 48 each.\<close>

definition sizeof_ndis_packet :: nat where "sizeof_ndis_packet = 104"
definition sizeof_oob_data :: nat where "sizeof_oob_data = 160"
definition sizeof_packet_stack :: ptr where "sizeof_packet_stack = 48"

definition put_ppool :: "ptr \<Rightarrow> ndis_packet_pool \<Rightarrow> 'a np_state_scheme \<Rightarrow> 'a np_state_scheme" where
  "put_ppool pool pp s = s\<lparr>packet_pools := (packet_pools s)(pool \<mapsto> pp)\<rparr>"

definition put_packet :: "ptr \<Rightarrow> ndis_packet \<Rightarrow> 'a np_state_scheme \<Rightarrow> 'a np_state_scheme" where
  "put_packet p pk s = s\<lparr>packets := (packets s)(p \<mapsto> pk)\<rparr>"

definition NdisAllocatePacketPoolEx :: "ptr \<Rightarrow> u32 \<Rightarrow> u32 \<Rightarrow> 'a np_state_scheme \<Rightarrow> 'a np_state_scheme \<times> u32 \<times> ptr option" where
  "NdisAllocatePacketPoolEx a num_descr proto_rsvd_length s =
     (if a = NULL then (s, NDIS_STATUS_RESOURCES, None)
      else (put_ppool a \<lparr>pp_free_descr = NULL, pp_max_descr = num_descr, pp_num_allocated_descr = 0, pp_num_used_descr = 0,
              pp_proto_rsvd_length = proto_rsvd_length\<rparr> s, NDIS_STATUS_SUCCESS, Some a))"

definition NdisAllocatePacketPool :: "ptr \<Rightarrow> u32 \<Rightarrow> u32 \<Rightarrow> 'a np_state_scheme \<Rightarrow> 'a np_state_scheme \<times> u32 \<times> ptr option" where
  "NdisAllocatePacketPool a num_descr proto_rsvd_length s = NdisAllocatePacketPoolEx a num_descr proto_rsvd_length s"

definition NdisPacketPoolUsage :: "ptr \<Rightarrow> 'a np_state_scheme \<Rightarrow> u32 option" where
  "NdisPacketPoolUsage pool s = map_option pp_num_used_descr (packet_pools s pool)"

text \<open>The size of the packets of a pool, an \<^verbatim>\<open>int\<close>; the offset of the out-of-band data is stored in 16 bits.\<close>

definition packet_length :: "ndis_packet_pool \<Rightarrow> u32" where
  "packet_length pp = of_nat (sizeof_ndis_packet - 1) + pp_proto_rsvd_length pp + of_nat sizeof_oob_data"

definition init_packet :: "ptr \<Rightarrow> u32 \<Rightarrow> nat \<Rightarrow> ndis_packet" where
  "init_packet pool len sz = \<lparr>buffer_head = NULL, buffer_tail = NULL, pk_pool = pool, valid_counts = False,
     packet_flags = fPACKET_ALLOCATED_BY_NDIS, oob_offset = ucast (len - of_nat sizeof_oob_data), reserved0 = NULL, reserved1 = NULL,
     pk_len = 0, pk_flags = 0, pk_status = 0, pk_size = sz\<rparr>"

text \<open>\<open>a\<close> is the address that kmalloc returns if a new packet is needed.  A reused packet is cleared to the length of its pool.\<close>

definition NdisAllocatePacket :: "ptr \<Rightarrow> ptr \<Rightarrow> 'a np_state_scheme \<Rightarrow> ('a np_state_scheme \<times> u32 \<times> ptr) option" where
  "NdisAllocatePacket a pool s =
     (if pool = NULL then Some (s, NDIS_STATUS_RESOURCES, NULL) else
      do { pp \<leftarrow> packet_pools s pool;
           if pp_num_used_descr pp > pp_max_descr pp then Some (s, NDIS_STATUS_RESOURCES, NULL)
           else let len = packet_length pp; p = pp_free_descr pp in
           if p \<noteq> NULL then
             do { pk \<leftarrow> packets s p;
                  if pk_size pk < unat len then None
                  else Some (put_packet p (init_packet pool len (pk_size pk))
                         (put_ppool pool (pp\<lparr>pp_free_descr := reserved0 pk, pp_num_used_descr := pp_num_used_descr pp + 1\<rparr>) s),
                       NDIS_STATUS_SUCCESS, p) }
           else if a = NULL then Some (s, NDIS_STATUS_RESOURCES, NULL)
           else Some (put_packet a (init_packet pool len (unat len))
                  (put_ppool pool (pp\<lparr>pp_num_allocated_descr := pp_num_allocated_descr pp + 1, pp_num_used_descr := pp_num_used_descr pp + 1\<rparr>) s),
                NDIS_STATUS_SUCCESS, a) })"

definition NdisDprAllocatePacket :: "ptr \<Rightarrow> ptr \<Rightarrow> 'a np_state_scheme \<Rightarrow> ('a np_state_scheme \<times> u32 \<times> ptr) option" where
  "NdisDprAllocatePacket a pool s = NdisAllocatePacket a pool s"

definition free_stacks :: "ptr \<Rightarrow> 'a np_state_scheme \<Rightarrow> 'a np_state_scheme" where
  "free_stacks st s = (if st \<noteq> NULL then s\<lparr>packet_stacks := (packet_stacks s)(st := None)\<rparr> else s)"

definition NdisFreePacket :: "ptr \<Rightarrow> 'a np_state_scheme \<Rightarrow> 'a np_state_scheme option" where
  "NdisFreePacket p s =
     do { pk \<leftarrow> packets s p;
          if pk_pool pk = NULL then Some s else
     do { pp \<leftarrow> packet_pools s (pk_pool pk);
          let pp1 = pp\<lparr>pp_num_used_descr := pp_num_used_descr pp - 1\<rparr>;
              pk1 = pk\<lparr>reserved1 := NULL\<rparr>;
              s1 = free_stacks (reserved1 pk) s in
          Some (if pp_num_allocated_descr pp > MAX_ALLOCATED_NDIS_PACKETS
                then put_ppool (pk_pool pk) (pp1\<lparr>pp_num_allocated_descr := pp_num_allocated_descr pp - 1\<rparr>)
                       (s1\<lparr>packets := (packets s1)(p := None)\<rparr>)
                else put_ppool (pk_pool pk) (pp1\<lparr>pp_free_descr := p\<rparr>)
                       (put_packet p (pk1\<lparr>reserved0 := pp_free_descr pp\<rparr>) s1)) } }"

partial_function (option) free_packets_loop :: "ptr \<Rightarrow> 'a np_state_scheme \<Rightarrow> 'a np_state_scheme option" where
  "free_packets_loop p s =
     (if p = NULL then Some s
      else do { pk \<leftarrow> packets s p; free_packets_loop (reserved0 pk) (s\<lparr>packets := (packets s)(p := None)\<rparr>) })"

definition NdisFreePacketPool :: "ptr \<Rightarrow> 'a np_state_scheme \<Rightarrow> 'a np_state_scheme option" where
  "NdisFreePacketPool pool s =
     (if pool = NULL then Some s else
      do { pp \<leftarrow> packet_pools s pool;
           s1 \<leftarrow> free_packets_loop (pp_free_descr pp) s;
           Some (s1\<lparr>packet_pools := (packet_pools s1)(pool := None)\<rparr>) })"

text \<open>\<open>a\<close> is the address of two zeroed stacks.  The result is the stack and whether one remained.\<close>

definition NdisIMGetCurrentPacketStack :: "ptr \<Rightarrow> ptr \<Rightarrow> 'a np_state_scheme \<Rightarrow> ('a np_state_scheme \<times> ptr \<times> bool) option" where
  "NdisIMGetCurrentPacketStack a p s =
     do { pk \<leftarrow> packets s p;
          if reserved1 pk = NULL then
            let s1 = put_packet p (pk\<lparr>reserved1 := a\<rparr>) s;
                s2 = (if a \<noteq> NULL then s1\<lparr>packet_stacks := (packet_stacks s1)(a \<mapsto> (False, False))\<rparr> else s1) in
            Some (s2, a, a \<noteq> NULL)
          else
            do { (u0, u1) \<leftarrow> packet_stacks s (reserved1 pk);
                 let mark = (\<lambda>v. s\<lparr>packet_stacks := (packet_stacks s)(reserved1 pk \<mapsto> v)\<rparr>) in
                 Some (if \<not> u0 then (mark (True, u1), reserved1 pk, True)
                       else if \<not> u1 then (mark (True, True), reserved1 pk + sizeof_packet_stack, True)
                       else (mark (True, True), NULL, False)) } }"

section \<open>Chains of buffers\<close>

partial_function (option) before_tail :: "ptr \<Rightarrow> ptr \<Rightarrow> (ptr \<Rightarrow> mdl option) \<Rightarrow> ptr option" where
  "before_tail btail b h =
     do { m \<leftarrow> h b; if mdl_next m \<noteq> btail then before_tail btail (mdl_next m) h else Some b }"

definition NdisUnchainBufferAtBack :: "ptr \<Rightarrow> 'a np_state_scheme \<Rightarrow> ('a np_state_scheme \<times> ptr) option" where
  "NdisUnchainBufferAtBack p s =
     do { pk \<leftarrow> packets s p;
          let b = buffer_head pk; btail = buffer_tail pk in
          if b = NULL then Some (s, NULL)
          else if b = btail then
            Some (put_packet p (pk\<lparr>buffer_head := NULL, buffer_tail := NULL, valid_counts := False\<rparr>) s, btail)
          else do { b' \<leftarrow> before_tail btail b (mdls s);
                    s1 \<leftarrow> upd_mdl b' (\<lambda>m. m\<lparr>mdl_next := NULL\<rparr>) s;
                    Some (put_packet p (pk\<lparr>buffer_tail := b', valid_counts := False\<rparr>) s1, btail) } }"

definition NdisUnchainBufferAtFront :: "ptr \<Rightarrow> 'a np_state_scheme \<Rightarrow> ('a np_state_scheme \<times> ptr) option" where
  "NdisUnchainBufferAtFront p s =
     do { pk \<leftarrow> packets s p;
          let b = buffer_head pk in
          if b = NULL then Some (s, NULL)
          else if b = buffer_tail pk then
            Some (put_packet p (pk\<lparr>buffer_head := NULL, buffer_tail := NULL, valid_counts := False\<rparr>) s, b)
          else do { m \<leftarrow> mdls s b; Some (put_packet p (pk\<lparr>buffer_head := mdl_next m, valid_counts := False\<rparr>) s, b) } }"

partial_function (option) add_lengths :: "ptr \<Rightarrow> u32 \<Rightarrow> (ptr \<Rightarrow> mdl option) \<Rightarrow> u32 option" where
  "add_lengths b n h =
     (if b = NULL then Some n else do { m \<leftarrow> h b; add_lengths (mdl_next m) (n + bytecount m) h })"

text \<open>The result is the first buffer, its address and length, and the length of the whole chain.\<close>

definition NdisGetFirstBufferFromPacketSafe :: "ptr \<Rightarrow> 'a np_state_scheme \<Rightarrow> (ptr \<times> ptr \<times> u32 \<times> u32) option" where
  "NdisGetFirstBufferFromPacketSafe p s =
     do { pk \<leftarrow> packets s p;
          let b = buffer_head pk in
          if b \<noteq> NULL then
            do { m \<leftarrow> mdls s b;
                 n \<leftarrow> add_lengths (mdl_next m) (bytecount m) (mdls s);
                 Some (b, mappedsystemva m, bytecount m, n) }
          else Some (NULL, NULL, 0, 0) }"

definition NdisGetFirstBufferFromPacket :: "ptr \<Rightarrow> 'a np_state_scheme \<Rightarrow> (ptr \<times> ptr \<times> u32 \<times> u32) option" where
  "NdisGetFirstBufferFromPacket p s = NdisGetFirstBufferFromPacketSafe p s"

section \<open>The state of a packet pool\<close>

definition pk_chain :: "(ptr \<Rightarrow> ndis_packet option) \<Rightarrow> ptr \<Rightarrow> ptr list \<Rightarrow> bool" where
  "pk_chain h = chain (\<lambda>x. map_option reserved0 (h x))"

lemma pk_chain_simps [simp]: "pk_chain h p [] \<longleftrightarrow> p = NULL"
  "pk_chain h p (x # xs) \<longleftrightarrow> p = x \<and> x \<noteq> NULL \<and> (\<exists>pk. h x = Some pk \<and> pk_chain h (reserved0 pk) xs)"
  by (auto simp: pk_chain_def)

lemma pk_chain_upd: "d \<notin> set xs \<Longrightarrow> pk_chain (h(d := v)) p xs \<longleftrightarrow> pk_chain h p xs"
  unfolding pk_chain_def by (rule chain_cong) auto

definition packet_ok :: "ptr \<Rightarrow> nat \<Rightarrow> (ptr \<Rightarrow> ndis_packet option) \<Rightarrow> ptr \<Rightarrow> bool" where
  "packet_ok pool len h p \<longleftrightarrow> (\<exists>pk. h p = Some pk \<and> pk_pool pk = pool \<and> len \<le> pk_size pk)"

definition pp_rep :: "ptr \<Rightarrow> 'a np_state_scheme \<Rightarrow> ptr list \<Rightarrow> ptr list \<Rightarrow> bool" where
  "pp_rep pool s fs us \<longleftrightarrow> pool \<noteq> NULL \<and> distinct (fs @ us) \<and> NULL \<notin> set us \<and>
     (\<exists>pp. packet_pools s pool = Some pp \<and> pk_chain (packets s) (pp_free_descr pp) fs \<and>
        (\<forall>p\<in>set (fs @ us). packet_ok pool (unat (packet_length pp)) (packets s) p) \<and>
        unat (pp_num_allocated_descr pp) = length fs + length us \<and> unat (pp_num_used_descr pp) = length us \<and>
        length us \<le> unat (pp_max_descr pp) + 1 \<and> pp_max_descr pp \<noteq> - 1)"

definition packet_fresh :: "ptr \<Rightarrow> 'a np_state_scheme \<Rightarrow> bool" where
  "packet_fresh a s \<longleftrightarrow> packets s a = None"

definition alloc_packet :: "ptr \<Rightarrow> unit \<Rightarrow> ptr \<Rightarrow> 'a np_state_scheme \<Rightarrow> ('a np_state_scheme \<times> ptr) option" where
  "alloc_packet pool r a s = map_option (\<lambda>(s', st, p). (s', p)) (NdisAllocatePacket a pool s)"

lemma packets_ok_upd: "d \<notin> A \<Longrightarrow> (\<forall>p\<in>A. packet_ok pool len (h(d := v)) p) \<longleftrightarrow> (\<forall>p\<in>A. packet_ok pool len h p)"
  by (auto simp: packet_ok_def)

lemma packet_length_upd [simp]:
  "packet_length (pp\<lparr>pp_free_descr := f\<rparr>) = packet_length pp" "packet_length (pp\<lparr>pp_num_used_descr := n\<rparr>) = packet_length pp"
  "packet_length (pp\<lparr>pp_num_allocated_descr := n\<rparr>) = packet_length pp"
  by (simp_all add: packet_length_def)

lemma init_packet_simps [simp]: "pk_pool (init_packet pool len sz) = pool" "pk_size (init_packet pool len sz) = sz"
  by (simp_all add: init_packet_def)

lemma NdisAllocatePacket_rep:
  assumes "pp_rep pool s fs us" "packet_fresh a s"
  shows "\<exists>s' st p. NdisAllocatePacket a pool s = Some (s', st, p) \<and>
    (p = NULL \<and> s' = s \<or> p \<noteq> NULL \<and> p = (case fs of [] \<Rightarrow> a | f # _ \<Rightarrow> f) \<and> pp_rep pool s' (tl fs) (p # us))"
proof -
  from assms(1) obtain pp where b: "packet_pools s pool = Some pp" "pk_chain (packets s) (pp_free_descr pp) fs" "pool \<noteq> NULL"
      "\<forall>p\<in>set (fs @ us). packet_ok pool (unat (packet_length pp)) (packets s) p"
      "unat (pp_num_allocated_descr pp) = length fs + length us" "unat (pp_num_used_descr pp) = length us" "pp_max_descr pp \<noteq> - 1"
      "distinct (fs @ us)" "NULL \<notin> set us"
    by (auto simp: pp_rep_def)
  show ?thesis
  proof (cases "pp_num_used_descr pp > pp_max_descr pp \<or> fs = [] \<and> a = NULL")
    case True
    thus ?thesis using b by (auto simp: NdisAllocatePacket_def Let_def)
  next
    case False
    hence nf: "\<not> pp_num_used_descr pp > pp_max_descr pp" by simp
    note nu = unat_plus_one_max [OF nf b(7)]
    have le: "length us \<le> unat (pp_max_descr pp)" using nf b(6) by (simp add: word_less_nat_alt)
    show ?thesis
    proof (cases fs)
      case Nil
      let ?pk = "init_packet pool (packet_length pp) (unat (packet_length pp))"
      let ?pp = "pp\<lparr>pp_num_allocated_descr := pp_num_allocated_descr pp + 1, pp_num_used_descr := pp_num_used_descr pp + 1\<rparr>"
      have a: "a \<noteq> NULL" "a \<notin> set us" using False Nil b(4) assms(2) by (auto simp: packet_fresh_def packet_ok_def)
      have "pp_num_allocated_descr pp = pp_num_used_descr pp" using b(5,6) Nil by (simp add: word_unat_eq_iff)
      hence "unat (pp_num_allocated_descr pp + 1) = Suc (length us)" using nu b(6) by simp
      moreover have "\<forall>p\<in>set us. packet_ok pool (unat (packet_length pp)) ((packets s)(a \<mapsto> ?pk)) p"
        using b(4) Nil a(2) by (subst packets_ok_upd) auto
      moreover have "packet_ok pool (unat (packet_length pp)) ((packets s)(a \<mapsto> ?pk)) a" by (simp add: packet_ok_def)
      ultimately have "pp_rep pool (put_packet a ?pk (put_ppool pool ?pp s)) [] (a # us)"
        using b nu le a Nil by (auto simp: pp_rep_def put_packet_def put_ppool_def)
      thus ?thesis using False Nil a b(1-3) by (simp add: NdisAllocatePacket_def Let_def)
    next
      case (Cons f fs')
      then obtain pk where pk: "pp_free_descr pp = f" "f \<noteq> NULL" "packets s f = Some pk" "pk_chain (packets s) (reserved0 pk) fs'"
        using b(2) by auto
      have sz: "unat (packet_length pp) \<le> pk_size pk" using b(4) pk(3) Cons by (auto simp: packet_ok_def)
      let ?pk = "init_packet pool (packet_length pp) (pk_size pk)"
      let ?pp = "pp\<lparr>pp_free_descr := reserved0 pk, pp_num_used_descr := pp_num_used_descr pp + 1\<rparr>"
      have "\<forall>p\<in>set (fs' @ us). packet_ok pool (unat (packet_length pp)) ((packets s)(f \<mapsto> ?pk)) p"
        using b(4,8) Cons by (subst packets_ok_upd) auto
      moreover have "packet_ok pool (unat (packet_length pp)) ((packets s)(f \<mapsto> ?pk)) f" using sz by (simp add: packet_ok_def)
      ultimately have "pp_rep pool (put_packet f ?pk (put_ppool pool ?pp s)) fs' (f # us)"
        using b nu le pk Cons by (auto simp: pp_rep_def put_packet_def put_ppool_def pk_chain_upd)
      thus ?thesis using False Cons pk sz b(1-3) by (simp add: NdisAllocatePacket_def Let_def)
    qed
  qed
qed

lemma NdisFreePacket_rep:
  assumes "pp_rep pool s fs us" "p \<in> set us"
  shows "\<exists>s'. NdisFreePacket p s = Some s' \<and> (pp_rep pool s' (p # fs) (remove1 p us) \<or> pp_rep pool s' fs (remove1 p us))"
proof -
  from assms(1) obtain pp where b: "packet_pools s pool = Some pp" "pk_chain (packets s) (pp_free_descr pp) fs" "pool \<noteq> NULL"
      "\<forall>q\<in>set (fs @ us). packet_ok pool (unat (packet_length pp)) (packets s) q"
      "unat (pp_num_allocated_descr pp) = length fs + length us" "unat (pp_num_used_descr pp) = length us" "pp_max_descr pp \<noteq> - 1"
      "length us \<le> unat (pp_max_descr pp) + 1" "distinct (fs @ us)" "NULL \<notin> set us"
    by (auto simp: pp_rep_def)
  from b(4) assms(2) obtain pk where pk: "packets s p = Some pk" "pk_pool pk = pool" "unat (packet_length pp) \<le> pk_size pk"
    by (auto simp: packet_ok_def)
  have d: "p \<noteq> NULL" "p \<notin> set fs" "p \<notin> set (remove1 p us)" using assms(2) b(9,10) by auto
  have len: "length us = Suc (length (remove1 p us))" using length_pos_if_in_set [OF assms(2)] assms(2) by (simp add: length_remove1)
  have "pp_num_used_descr pp \<noteq> 0" "pp_num_allocated_descr pp \<noteq> 0" using b(5,6) len by auto
  hence n: "unat (pp_num_used_descr pp - 1) = length (remove1 p us)" "unat (pp_num_allocated_descr pp - 1) = length fs + length (remove1 p us)"
    using b(5,6) len by (simp_all add: unat_minus_one)
  let ?pp = "pp\<lparr>pp_num_used_descr := pp_num_used_descr pp - 1\<rparr>"
  let ?s = "free_stacks (reserved1 pk) s"
  have fs: "packets ?s = packets s" "packet_pools ?s = packet_pools s" by (simp_all add: free_stacks_def)
  show ?thesis
  proof (cases "pp_num_allocated_descr pp > MAX_ALLOCATED_NDIS_PACKETS")
    case True
    have ok: "\<forall>q\<in>set (fs @ remove1 p us). packet_ok pool (unat (packet_length pp)) ((packets s)(p := None)) q"
      using b(4) d set_remove1_subset [of p us] by (subst packets_ok_upd) auto
    have "pp_rep pool (put_ppool pool (?pp\<lparr>pp_num_allocated_descr := pp_num_allocated_descr pp - 1\<rparr>)
        (?s\<lparr>packets := (packets ?s)(p := None)\<rparr>)) fs (remove1 p us)"
      using b n d ok len set_remove1_subset [of p us] by (auto simp: pp_rep_def put_ppool_def fs pk_chain_upd)
    thus ?thesis using True pk b by (simp add: NdisFreePacket_def Let_def)
  next
    case False
    let ?pk = "pk\<lparr>reserved1 := NULL, reserved0 := pp_free_descr pp\<rparr>"
    have "\<forall>q\<in>set (fs @ remove1 p us). packet_ok pool (unat (packet_length pp)) ((packets s)(p \<mapsto> ?pk)) q"
      using b(4) d set_remove1_subset [of p us] by (subst packets_ok_upd) auto
    moreover have "packet_ok pool (unat (packet_length pp)) ((packets s)(p \<mapsto> ?pk)) p" using pk by (simp add: packet_ok_def)
    ultimately have "pp_rep pool (put_ppool pool (?pp\<lparr>pp_free_descr := p\<rparr>) (put_packet p ?pk ?s)) (p # fs) (remove1 p us)"
      using b n d len set_remove1_subset [of p us] by (auto simp: pp_rep_def put_ppool_def put_packet_def fs pk_chain_upd)
    thus ?thesis using False pk b by (simp add: NdisFreePacket_def Let_def)
  qed
qed

interpretation packetpool: desc_pool "pp_rep pool" "alloc_packet pool" NdisFreePacket packet_fresh "\<lambda>a. a" "\<lambda>_. True"
proof (unfold_locales, goal_cases)
  case (1 s fs us a r s' p)
  then obtain st where "NdisAllocatePacket a pool s = Some (s', st, p)" by (auto simp: alloc_packet_def)
  thus ?case using NdisAllocatePacket_rep [OF 1(1,2)] 1(1) by auto
next
  case (2 s fs us a r)
  thus ?case using NdisAllocatePacket_rep [OF 2(1,2)] by (auto simp: alloc_packet_def)
next
  case (3 s fs us p)
  thus ?case by (rule NdisFreePacket_rep)
next
  case (4 s fs us)
  thus ?case by (auto simp: pp_rep_def pk_chain_def dest: chain_no_null)
qed

text \<open>A packet pool in use by a driver that frees only packets it was given, \<open>us\<close> the ones it holds.\<close>

inductive pkt_run :: "ptr \<Rightarrow> np_state \<Rightarrow> ptr list \<Rightarrow> bool" for pool where
  new: "num_descr \<noteq> - 1 \<Longrightarrow> NdisAllocatePacketPoolEx pool num_descr rsvd s = (s', NDIS_STATUS_SUCCESS, Some pool) \<Longrightarrow> pkt_run pool s' []"
| alloc: "pkt_run pool s us \<Longrightarrow> packet_fresh a s \<Longrightarrow> NdisAllocatePacket a pool s = Some (s', st, p) \<Longrightarrow>
    pkt_run pool s' (if p = NULL then us else p # us)"
| free: "pkt_run pool s us \<Longrightarrow> p \<in> set us \<Longrightarrow> NdisFreePacket p s = Some s' \<Longrightarrow> pkt_run pool s' (remove1 p us)"

lemma pkt_run_rep: "pkt_run pool s us \<Longrightarrow> \<exists>fs. pp_rep pool s fs us"
proof (induction rule: pkt_run.induct)
  case (new n rsvd s s')
  hence "pp_rep pool s' [] []" by (auto simp: pp_rep_def NdisAllocatePacketPoolEx_def put_ppool_def split: if_splits)
  thus ?case by blast
next
  case (alloc s us a s' st p)
  then obtain fs where fs: "pp_rep pool s fs us" by blast
  have "alloc_packet pool () a s = Some (s', p)" using alloc(3) by (simp add: alloc_packet_def)
  from packetpool.alloc_law [OF fs alloc(2) this] show ?case by auto
next
  case (free s us p s')
  then obtain fs where "pp_rep pool s fs us" by blast
  from packetpool.free_law [OF this free(2)] free(3) show ?case by auto
qed

text \<open>C22: In every state of a packet pool the number of packets it reports as used is the number of packets that the driver holds; they are
  distinct live packets of the pool and not on its free list.  An allocation always returns, with a packet that nobody holds, the one
  freed last if there is one, or without a packet when more than the maximum are in use or memory is short.\<close>

theorem packet_pool_exclusive:
  assumes "pkt_run pool s us" "packet_fresh a s"
  shows "distinct us \<and> (\<forall>p\<in>set us. \<exists>pk. packets s p = Some pk \<and> pk_pool pk = pool) \<and>
    (\<exists>n. NdisPacketPoolUsage pool s = Some n \<and> unat n = length us) \<and>
    (\<exists>s' st p pp. packet_pools s pool = Some pp \<and> NdisAllocatePacket a pool s = Some (s', st, p) \<and>
       (if p = NULL then s' = s \<and> (length us = unat (pp_max_descr pp) + 1 \<or> pp_free_descr pp = NULL \<and> a = NULL)
        else p \<notin> set us \<and> p = (if pp_free_descr pp = NULL then a else pp_free_descr pp) \<and> length us \<le> unat (pp_max_descr pp)))"
proof -
  from pkt_run_rep [OF assms(1)] obtain fs pp where r: "pp_rep pool s fs us" and pp: "packet_pools s pool = Some pp"
      "pk_chain (packets s) (pp_free_descr pp) fs" "unat (pp_num_used_descr pp) = length us" "length us \<le> unat (pp_max_descr pp) + 1"
    by (auto simp: pp_rep_def)
  from NdisAllocatePacket_rep [OF r assms(2)] obtain s' st p where a: "NdisAllocatePacket a pool s = Some (s', st, p)"
    and c: "p = NULL \<and> s' = s \<or> p \<noteq> NULL \<and> p = (case fs of [] \<Rightarrow> a | f # _ \<Rightarrow> f) \<and> pp_rep pool s' (tl fs) (p # us)" by blast
  have hd: "(case fs of [] \<Rightarrow> a | f # _ \<Rightarrow> f) = (if pp_free_descr pp = NULL then a else pp_free_descr pp)"
    using pp(2) by (cases fs) (auto simp: pk_chain_def)
  have "if p = NULL then length us = unat (pp_max_descr pp) + 1 \<or> pp_free_descr pp = NULL \<and> a = NULL else length us \<le> unat (pp_max_descr pp)"
    using a pp r by (auto simp: NdisAllocatePacket_def Let_def pp_rep_def word_less_nat_alt split: if_splits Option.bind_splits)
  moreover have "p \<noteq> NULL \<Longrightarrow> p \<notin> set us" using c by (auto simp: pp_rep_def)
  ultimately show ?thesis
    using r a c pp(1,3) hd by (auto simp: pp_rep_def packet_ok_def NdisPacketPoolUsage_def)
qed

definition np_demo0 :: np_state where
  "np_demo0 = fst (NdisAllocatePacketPoolEx 0x200 4 32
     \<lparr>mdls = Map.empty, wrap_mdl_list = [], mdl_released = [], buffer_pools = Map.empty, packets = Map.empty, packet_pools = Map.empty,
       packet_stacks = Map.empty\<rparr>)"

definition np_demo :: np_state where
  "np_demo = fst (the (NdisAllocatePacket 0x7000 0x200 np_demo0))"

lemmas np_demo_simps = np_demo0_def np_demo_def NdisAllocatePacketPoolEx_def NdisAllocatePacket_def put_ppool_def put_packet_def Let_def
  packet_length_def sizeof_ndis_packet_def sizeof_oob_data_def init_packet_def

lemma np_demo_run: "pkt_run 0x200 np_demo [0x7000]"
proof -
  have "NdisAllocatePacketPoolEx 0x200 4 32 \<lparr>mdls = Map.empty, wrap_mdl_list = [], mdl_released = [], buffer_pools = Map.empty,
      packets = Map.empty, packet_pools = Map.empty, packet_stacks = Map.empty\<rparr> = (np_demo0, NDIS_STATUS_SUCCESS, Some 0x200)"
    by (simp add: np_demo0_def NdisAllocatePacketPoolEx_def)
  hence r: "pkt_run 0x200 np_demo0 []" by (rule pkt_run.new [rotated]) simp
  have "NdisAllocatePacket 0x7000 0x200 np_demo0 = Some (np_demo, NDIS_STATUS_SUCCESS, 0x7000)" by (simp add: np_demo_simps)
  from pkt_run.alloc [OF r _ this] show ?thesis by (simp add: packet_fresh_def np_demo_simps)
qed

theorem packet_pool_exclusive_witness:
  "NdisPacketPoolUsage 0x200 np_demo = Some 1 \<and> (\<exists>s' st p. NdisAllocatePacket 0x8000 0x200 np_demo = Some (s', st, p) \<and> p \<notin> {0x7000 :: ptr})"
proof -
  have "packet_fresh 0x8000 np_demo" "packet_pools np_demo 0x200 = Some \<lparr>pp_free_descr = 0, pp_max_descr = 4, pp_num_allocated_descr = 1,
      pp_num_used_descr = 1, pp_proto_rsvd_length = 32\<rparr>"
    by (simp_all add: packet_fresh_def np_demo_simps)
  thus ?thesis using packet_pool_exclusive [OF np_demo_run, of "0x8000"] by (auto simp: NdisPacketPoolUsage_def split: if_splits)
qed

text \<open>The out-of-band data of a packet, at the offset that \<^verbatim>\<open>NDIS_PACKET_OOB_DATA\<close> reads from it, lies inside the packet and behind the bytes
  reserved for the protocol, for every packet of a pool with fewer than 65433 reserved bytes.\<close>

theorem oob_data_in_packet:
  assumes "pkt_run pool s us" "packet_fresh a s" "NdisAllocatePacket a pool s = Some (s', st, p)" "p \<noteq> NULL"
    and "packet_pools s pool = Some pp" "unat (pp_proto_rsvd_length pp) < 2 ^ 16 - sizeof_ndis_packet + 1"
  shows "\<exists>pk. packets s' p = Some pk \<and> unat (oob_offset pk) + sizeof_oob_data \<le> pk_size pk \<and>
    unat (oob_offset pk) = sizeof_ndis_packet - 1 + unat (pp_proto_rsvd_length pp) \<and> buffer_head pk = NULL \<and> pk_pool pk = pool"
proof -
  have len: "unat (packet_length pp) = 263 + unat (pp_proto_rsvd_length pp)"
    using assms(6) by (simp add: packet_length_def sizeof_ndis_packet_def sizeof_oob_data_def unat_word_ariths)
  have "packet_length pp - of_nat sizeof_oob_data = of_nat (103 + unat (pp_proto_rsvd_length pp))"
    by (simp add: packet_length_def sizeof_ndis_packet_def sizeof_oob_data_def)
  hence oob: "unat (ucast (packet_length pp - of_nat sizeof_oob_data) :: u16) = 103 + unat (pp_proto_rsvd_length pp)"
    using assms(6) by (simp add: sizeof_ndis_packet_def unsigned_ucast_eq take_bit_eq_mod unat_word_ariths)
  from pkt_run_rep [OF assms(1)] obtain fs where "pp_rep pool s fs us" by blast
  hence "pool \<noteq> NULL" by (simp add: pp_rep_def)
  with assms(3-5) have "\<exists>sz. packets s' p = Some (init_packet pool (packet_length pp) sz) \<and> unat (packet_length pp) \<le> sz"
    by (auto simp: NdisAllocatePacket_def Let_def put_packet_def put_ppool_def split: if_splits Option.bind_splits)
  thus ?thesis using oob len by (auto simp: init_packet_def sizeof_ndis_packet_def sizeof_oob_data_def)
qed

theorem oob_data_in_packet_witness:
  "\<exists>s' pk. NdisAllocatePacket 0x8000 0x200 np_demo = Some (s', NDIS_STATUS_SUCCESS, 0x8000) \<and> packets s' 0x8000 = Some pk \<and>
     unat (oob_offset pk) + sizeof_oob_data \<le> pk_size pk"
proof -
  define s' where "s' = fst (the (NdisAllocatePacket 0x8000 0x200 np_demo))"
  have a: "NdisAllocatePacket 0x8000 0x200 np_demo = Some (s', NDIS_STATUS_SUCCESS, 0x8000)" "packet_fresh 0x8000 np_demo"
    "packet_pools np_demo 0x200 = Some \<lparr>pp_free_descr = 0, pp_max_descr = 4, pp_num_allocated_descr = 1, pp_num_used_descr = 1, pp_proto_rsvd_length = 32\<rparr>"
    by (simp_all add: s'_def packet_fresh_def np_demo_simps)
  from oob_data_in_packet [OF np_demo_run a(2,1) _ a(3)] a(1) show ?thesis by (auto simp: sizeof_ndis_packet_def)
qed

text \<open>The first packet stack is handed out twice: the call that allocates the stacks does not mark the one it returns.\<close>

theorem packet_stack_handed_out_twice:
  assumes "packets s p = Some pk" "reserved1 pk = NULL" "a \<noteq> NULL"
  shows "\<exists>s1 s2 s3 s4. NdisIMGetCurrentPacketStack a p s = Some (s1, a, True) \<and> NdisIMGetCurrentPacketStack b p s1 = Some (s2, a, True) \<and>
    NdisIMGetCurrentPacketStack c p s2 = Some (s3, a + sizeof_packet_stack, True) \<and> NdisIMGetCurrentPacketStack d p s3 = Some (s4, NULL, False)"
  using assms by (simp add: NdisIMGetCurrentPacketStack_def put_packet_def Let_def)

theorem packet_stack_handed_out_twice_witness:
  "\<exists>s1 s2. NdisIMGetCurrentPacketStack 0x9000 0x7000 np_demo = Some (s1, 0x9000, True) \<and>
     NdisIMGetCurrentPacketStack 0xA000 0x7000 s1 = Some (s2, 0x9000, True)"
proof -
  obtain pk where "packets np_demo 0x7000 = Some pk" "reserved1 pk = NULL" by (simp add: np_demo_simps)
  from packet_stack_handed_out_twice [OF this, of "0x9000" "0xA000" 0 0] show ?thesis by auto
qed

section \<open>Unchaining buffers\<close>

text \<open>A packet whose buffers are the chain \<open>bs\<close>.\<close>

definition packet_buffers :: "ptr \<Rightarrow> 'a np_state_scheme \<Rightarrow> ptr list \<Rightarrow> bool" where
  "packet_buffers p s bs \<longleftrightarrow> (\<exists>pk. packets s p = Some pk \<and> mdl_chain (mdls s) (buffer_head pk) bs \<and> distinct bs \<and>
     (bs \<noteq> [] \<longrightarrow> buffer_tail pk = last bs))"

lemma mdl_chain_append:
  "mdl_chain h p (xs @ [x]) \<Longrightarrow> x \<notin> set xs \<Longrightarrow> xs \<noteq> [] \<Longrightarrow> distinct xs \<Longrightarrow>
     before_tail x p h = Some (last xs) \<and> (\<exists>m. h (last xs) = Some m \<and> mdl_chain (h(last xs \<mapsto> m\<lparr>mdl_next := NULL\<rparr>)) p xs)"
proof (induction xs arbitrary: p)
  case (Cons y ys)
  then obtain m where m: "p = y" "y \<noteq> NULL" "h y = Some m" "mdl_chain h (mdl_next m) (ys @ [x])" by auto
  show ?case
  proof (cases "ys = []")
    case True
    thus ?thesis using m by (subst before_tail.simps) auto
  next
    case False
    then obtain z zs where "ys = z # zs" by (cases ys) auto
    hence "mdl_next m = z" "z \<noteq> x" using m(4) Cons.prems by auto
    moreover have "last ys \<noteq> y" using False Cons.prems(4) by auto
    ultimately show ?thesis
      using Cons.IH [OF m(4)] Cons.prems m False
      by (subst before_tail.simps) (auto simp: fun_upd_other simp del: fun_upd_apply)
  qed
qed simp

lemma add_lengths_sum:
  "mdl_chain h p bs \<Longrightarrow> add_lengths p n h = Some (n + sum_list (map (\<lambda>b. bytecount (the (h b))) bs))"
proof (induction bs arbitrary: p n)
  case Nil
  thus ?case by (subst add_lengths.simps) simp
next
  case (Cons b bs)
  thus ?case by (subst add_lengths.simps) (auto simp: add.assoc)
qed

text \<open>For a packet with the buffers \<open>bs\<close>: \<^verbatim>\<open>NdisUnchainBufferAtBack\<close> takes the last and leaves the others, \<^verbatim>\<open>NdisUnchainBufferAtFront\<close> takes the
  first and leaves the others, each returning no buffer for an empty packet, and \<^verbatim>\<open>NdisGetFirstBufferFromPacketSafe\<close> reports the first
  buffer and the sum of the lengths modulo \<open>2 ^ 32\<close>.  All three walks end.\<close>

theorem unchain_buffers:
  assumes "packet_buffers p s bs"
  shows "(\<exists>s'. NdisUnchainBufferAtBack p s = Some (s', if bs = [] then NULL else last bs) \<and> packet_buffers p s' (butlast bs)) \<and>
    (\<exists>s'. NdisUnchainBufferAtFront p s = Some (s', if bs = [] then NULL else hd bs) \<and> packet_buffers p s' (tl bs)) \<and>
    (\<exists>va n. NdisGetFirstBufferFromPacketSafe p s = Some (if bs = [] then NULL else hd bs, va, n, sum_list (map (\<lambda>b. bytecount (the (mdls s b))) bs)))"
proof (cases bs rule: rev_cases)
  case Nil
  thus ?thesis using assms
    by (auto simp: packet_buffers_def NdisUnchainBufferAtBack_def NdisUnchainBufferAtFront_def NdisGetFirstBufferFromPacketSafe_def)
next
  case (snoc xs x)
  from assms obtain pk where pk: "packets s p = Some pk" "mdl_chain (mdls s) (buffer_head pk) bs" "distinct bs" "buffer_tail pk = x"
    by (auto simp: packet_buffers_def snoc)
  have "bs \<noteq> []" using snoc by simp
  then obtain b ys where bs: "bs = b # ys" by (cases bs) simp_all
  then obtain m where m: "buffer_head pk = b" "b \<noteq> NULL" "mdls s b = Some m" "mdl_chain (mdls s) (mdl_next m) ys" using pk(2) by auto
  have front: "\<exists>s'. NdisUnchainBufferAtFront p s = Some (s', b) \<and> packet_buffers p s' ys"
  proof (cases "ys = []")
    case True
    hence "b = x" using snoc bs by auto
    thus ?thesis using pk m True by (auto simp: NdisUnchainBufferAtFront_def packet_buffers_def put_packet_def Let_def)
  next
    case False
    then obtain zs where "ys = zs @ [x]" using snoc bs by (cases ys rule: rev_cases) auto
    hence "b \<noteq> x" "last ys = x" using bs pk(3) by auto
    thus ?thesis using pk m bs False by (auto simp: NdisUnchainBufferAtFront_def packet_buffers_def put_packet_def Let_def)
  qed
  have rear: "\<exists>s'. NdisUnchainBufferAtBack p s = Some (s', x) \<and> packet_buffers p s' xs"
  proof (cases "xs = []")
    case True
    thus ?thesis using pk m snoc bs by (auto simp: NdisUnchainBufferAtBack_def packet_buffers_def put_packet_def Let_def)
  next
    case False
    then obtain zs where "xs = b # zs" using snoc bs by (cases xs) auto
    hence "b \<noteq> x" using snoc pk(3) by auto
    moreover obtain m' where "before_tail x b (mdls s) = Some (last xs)" "mdls s (last xs) = Some m'"
        "mdl_chain ((mdls s)(last xs \<mapsto> m'\<lparr>mdl_next := NULL\<rparr>)) b xs"
      using mdl_chain_append [of "mdls s" b xs x] pk(2,3) m(1) snoc False by auto
    ultimately show ?thesis
      using pk m snoc False by (auto simp: NdisUnchainBufferAtBack_def packet_buffers_def put_packet_def upd_mdl_def Let_def fun_upd_same simp del: fun_upd_apply)
  qed
  have "NdisGetFirstBufferFromPacketSafe p s = Some (b, mappedsystemva m, bytecount m, sum_list (map (\<lambda>b. bytecount (the (mdls s b))) bs))"
    using add_lengths_sum [OF m(4)] pk(1) m by (simp add: NdisGetFirstBufferFromPacketSafe_def Let_def bs)
  moreover have "last bs = x" "butlast bs = xs" "hd bs = b" "tl bs = ys" "bs \<noteq> []" using snoc bs by (simp_all, metis list.sel(1), metis list.sel(3))
  ultimately show ?thesis using front rear by auto
qed

text \<open>The demonstration packet with a buffer of 14 and one of 46 bytes.\<close>

definition np_demo_chain :: np_state where
  "np_demo_chain = np_demo\<lparr>mdls := [0x5010 \<mapsto> zero_mdl 0\<lparr>mdl_next := 0x5110, bytecount := 14\<rparr>, 0x5110 \<mapsto> zero_mdl 0\<lparr>bytecount := 46\<rparr>],
     packets := (packets np_demo)(0x7000 \<mapsto> (the (packets np_demo 0x7000))\<lparr>buffer_head := 0x5010, buffer_tail := 0x5110\<rparr>)\<rparr>"

theorem unchain_buffers_witness:
  "(\<exists>s'. NdisUnchainBufferAtBack 0x7000 np_demo_chain = Some (s', 0x5110) \<and> packet_buffers 0x7000 s' [0x5010]) \<and>
   (\<exists>va n. NdisGetFirstBufferFromPacketSafe 0x7000 np_demo_chain = Some (0x5010, va, n, 60))"
proof -
  have "packet_buffers 0x7000 np_demo_chain [0x5010, 0x5110]"
    by (simp add: packet_buffers_def np_demo_chain_def zero_mdl_def)
  moreover have "mdls np_demo_chain = [0x5010 \<mapsto> zero_mdl 0\<lparr>mdl_next := 0x5110, bytecount := 14\<rparr>, 0x5110 \<mapsto> zero_mdl 0\<lparr>bytecount := 46\<rparr>]"
    by (simp add: np_demo_chain_def)
  ultimately show ?thesis using unchain_buffers [of "0x7000" np_demo_chain "[0x5010, 0x5110]"] by simp
qed

end
