(* ===== verification/Ndis_Copy.thy ===== *)
theory Ndis_Copy
  imports Ndis_Packet
begin

text \<open>
  \<^verbatim>\<open>NdisCopyFromPacketToPacketSafe\<close> of \<^verbatim>\<open>ndis.c\<close>: a copy between the buffer chains of two packets whose buffers are cut at different
  places.  Memory is a function from addresses to bytes.  The specification is on the byte addresses that the two chains cover: the
  copy is one simultaneous assignment along the two lists of addresses, of as many bytes as were asked for or as the shorter chain has.
\<close>

section \<open>The code\<close>

type_synonym memory = "ptr \<Rightarrow> u8"

definition memcpy :: "ptr \<Rightarrow> ptr \<Rightarrow> u32 \<Rightarrow> memory \<Rightarrow> memory" where
  "memcpy dst src n mem = (\<lambda>a. if unat (a - dst) < unat n then mem (src + (a - dst)) else mem a)"

text \<open>What the loop does with each of its two cursors once \<open>n\<close> bytes are left in the current buffer: stay, go to the next buffer, or
  stop at the end of the chain.\<close>

definition next_buf :: "(ptr \<Rightarrow> mdl option) \<Rightarrow> ptr \<Rightarrow> u32 \<Rightarrow> u32 \<Rightarrow> (ptr \<times> u32 \<times> u32) option option" where
  "next_buf h b n off =
     (if n = 0 then
        do { m \<leftarrow> h b;
             if mdl_next m = NULL then Some None
             else do { m' \<leftarrow> h (mdl_next m); Some (Some (mdl_next m, bytecount m', 0)) } }
      else Some (Some (b, n, off)))"

partial_function (option) copy_loop ::
  "(ptr \<Rightarrow> mdl option) \<Rightarrow> ptr \<Rightarrow> ptr \<Rightarrow> u32 \<Rightarrow> u32 \<Rightarrow> u32 \<Rightarrow> u32 \<Rightarrow> u32 \<Rightarrow> u32 \<Rightarrow> memory \<Rightarrow> (memory \<times> u32) option" where
  "copy_loop h dst_buf src_buf dst_offset src_offset dst_n src_n n left mem =
     (if left = 0 then Some (mem, left) else
      do { d \<leftarrow> next_buf h dst_buf (dst_n - n) (dst_offset + n);
           case d of None \<Rightarrow> Some (mem, left)
           | Some (dst_buf', dst_n', dst_offset') \<Rightarrow>
      do { s \<leftarrow> next_buf h src_buf (src_n - n) (src_offset + n);
           case s of None \<Rightarrow> Some (mem, left)
           | Some (src_buf', src_n', src_offset') \<Rightarrow>
      do { let n' = min (min src_n' dst_n') left in
      do { dm \<leftarrow> h dst_buf';
           sm \<leftarrow> h src_buf';
           copy_loop h dst_buf' src_buf' dst_offset' src_offset' dst_n' src_n' n' (left - n')
             (memcpy (mappedsystemva dm + ucast dst_offset') (mappedsystemva sm + ucast src_offset') n' mem) } } } })"

text \<open>The result is the memory and the number of bytes copied.\<close>

definition NdisCopyFromPacketToPacketSafe ::
  "ptr \<Rightarrow> u32 \<Rightarrow> u32 \<Rightarrow> ptr \<Rightarrow> u32 \<Rightarrow> 'a np_state_scheme \<Rightarrow> memory \<Rightarrow> (memory \<times> u32) option" where
  "NdisCopyFromPacketToPacketSafe dst dst_offset num_to_copy src src_offset s mem =
     (if dst = NULL \<or> src = NULL then Some (mem, 0) else
      do { dpk \<leftarrow> packets s dst;
           spk \<leftarrow> packets s src;
           if buffer_head dpk = NULL \<or> buffer_head spk = NULL then Some (mem, 0) else
      do { dm \<leftarrow> mdls s (buffer_head dpk);
           sm \<leftarrow> mdls s (buffer_head spk);
           let dst_n = bytecount dm - dst_offset;
               src_n = bytecount sm - src_offset;
               n = min (min src_n dst_n) num_to_copy in
      do { (mem', left) \<leftarrow> copy_loop (mdls s) (buffer_head dpk) (buffer_head spk) dst_offset src_offset dst_n src_n n (num_to_copy - n)
             (memcpy (mappedsystemva dm + ucast dst_offset) (mappedsystemva sm + ucast src_offset) n mem);
           Some (mem', num_to_copy - left) } } })"

definition NdisCopyFromPacketToPacket ::
  "ptr \<Rightarrow> u32 \<Rightarrow> u32 \<Rightarrow> ptr \<Rightarrow> u32 \<Rightarrow> 'a np_state_scheme \<Rightarrow> memory \<Rightarrow> (memory \<times> u32) option" where
  "NdisCopyFromPacketToPacket dst dst_offset num_to_copy src src_offset s mem =
     NdisCopyFromPacketToPacketSafe dst dst_offset num_to_copy src src_offset s mem"

section \<open>The specification\<close>

text \<open>The addresses of \<open>n\<close> bytes from \<open>p\<close>, of a buffer, and of a chain of buffers.\<close>

definition seg :: "ptr \<Rightarrow> nat \<Rightarrow> ptr list" where
  "seg p n = map (\<lambda>i. p + of_nat i) [0..<n]"

definition buf_bytes :: "(ptr \<Rightarrow> mdl option) \<Rightarrow> ptr \<Rightarrow> ptr list" where
  "buf_bytes h b = seg (mappedsystemva (the (h b))) (unat (bytecount (the (h b))))"

definition chain_bytes :: "(ptr \<Rightarrow> mdl option) \<Rightarrow> ptr list \<Rightarrow> ptr list" where
  "chain_bytes h bs = concat (map (buf_bytes h) bs)"

text \<open>The memory after the bytes at \<open>ss\<close> are copied to \<open>ds\<close>.\<close>

definition copied :: "ptr list \<Rightarrow> ptr list \<Rightarrow> memory \<Rightarrow> memory" where
  "copied ds ss mem = (\<lambda>a. case map_of (zip ds ss) a of Some s \<Rightarrow> mem s | None \<Rightarrow> mem a)"

section \<open>Equivalence\<close>

lemma length_seg [simp]: "length (seg p n) = n"
  by (simp add: seg_def)

lemma seg_split: "k \<le> n \<Longrightarrow> seg p n = seg p k @ seg (p + of_nat k) (n - k)"
  unfolding seg_def
  by (rule nth_equalityI) (auto simp: nth_append)

lemma copied_append:
  assumes "length d1 = length s1" "distinct (d1 @ d2)" "set d1 \<inter> set s2 = {}"
  shows "copied d2 s2 (copied d1 s1 mem) = copied (d1 @ d2) (s1 @ s2) mem"
proof
  fix a
  have n: "map_of (zip d1 s1) x = None" if "x \<notin> set d1" for x using that assms(1) by (simp add: map_of_zip_is_None)
  show "copied d2 s2 (copied d1 s1 mem) a = copied (d1 @ d2) (s1 @ s2) mem a"
  proof (cases "map_of (zip d2 s2) a")
    case None
    show ?thesis
    proof (cases "map_of (zip d1 s1) a")
      case e: None
      thus ?thesis by (simp add: copied_def map_add_def None e assms(1))
    next
      case (Some y)
      thus ?thesis by (simp add: copied_def map_add_def None Some assms(1))
    qed
  next
    case (Some x)
    have "x \<in> set s2" "a \<in> set d2" using map_of_SomeD [OF Some] by (auto dest: set_zip_leftD set_zip_rightD)
    hence e: "map_of (zip d1 s1) x = None" "map_of (zip d1 s1) a = None" using assms(2,3) by (auto intro!: n)
    show ?thesis by (simp add: copied_def map_add_def Some e assms(1))
  qed
qed

lemma of_nat_eq64: "i < 2 ^ 64 \<Longrightarrow> j < 2 ^ 64 \<Longrightarrow> (of_nat i :: u64) = of_nat j \<longleftrightarrow> i = j"
  by (simp add: word_unat_eq_iff unat_of_nat)

lemma memcpy_copied: "memcpy d s n mem = copied (seg d (unat n)) (seg s (unat n)) mem"
proof
  fix a
  let ?xs = "map (\<lambda>i. (d + of_nat i, s + of_nat i)) [0..<unat n]"
  have z: "zip (seg d (unat n)) (seg s (unat n)) = ?xs"
    by (rule nth_equalityI) (simp_all add: seg_def)
  have n: "unat n < 2 ^ 64" using unat_bounds(3) [of n] by simp
  have dist: "distinct (map fst ?xs)"
    using n by (auto simp: distinct_map comp_def inj_on_def of_nat_eq64)
  have "map_of ?xs a = (if unat (a - d) < unat n then Some (s + (a - d)) else None)"
  proof (cases "unat (a - d) < unat n")
    case True
    have "(d + of_nat (unat (a - d)), s + of_nat (unat (a - d))) \<in> set ?xs"
      unfolding set_map set_upt by (rule imageI) (use True in simp)
    from map_of_is_SomeI [OF dist, of "d + of_nat (unat (a - d))"] this show ?thesis using True by simp
  next
    case False
    have "a \<notin> fst ` set ?xs" using False n by (auto simp: unat_of_nat)
    thus ?thesis using False by (simp only: map_of_eq_None_iff [symmetric] if_False)
  qed
  thus "memcpy d s n mem a = copied (seg d (unat n)) (seg s (unat n)) mem a"
    by (simp add: memcpy_def copied_def z)
qed

text \<open>A cursor at offset \<open>off\<close> of buffer \<open>b\<close> with \<open>n\<close> bytes left in it stands before the addresses \<open>L\<close>; \<open>k\<close> buffers follow.\<close>

definition cursor :: "(ptr \<Rightarrow> mdl option) \<Rightarrow> ptr \<Rightarrow> u32 \<Rightarrow> u32 \<Rightarrow> nat \<Rightarrow> ptr list \<Rightarrow> bool" where
  "cursor h b off n k L \<longleftrightarrow> unat off + unat n < 2 ^ 32 \<and> (\<exists>m bs. h b = Some m \<and> mdl_chain h (mdl_next m) bs \<and> length bs = k \<and>
     L = seg (mappedsystemva m + ucast off) (unat n) @ chain_bytes h bs)"

lemma cursor_next:
  assumes "cursor h b off n k L"
  shows "\<exists>r. next_buf h b n off = Some r \<and>
    (case r of None \<Rightarrow> L = [] | Some (b', n', off') \<Rightarrow> \<exists>k'. cursor h b' off' n' k' L \<and> k' \<le> k \<and> (n = 0 \<longrightarrow> k' < k))"
proof (cases "n = 0")
  case True
  from assms obtain m bs where m: "h b = Some m" "mdl_chain h (mdl_next m) bs" "length bs = k" "L = chain_bytes h bs"
    by (auto simp: cursor_def True seg_def)
  show ?thesis
  proof (cases bs)
    case Nil
    thus ?thesis using m True by (simp add: next_buf_def chain_bytes_def)
  next
    case (Cons c cs)
    then obtain mc where "mdl_next m = c" "c \<noteq> NULL" "h c = Some mc" "mdl_chain h (mdl_next mc) cs" using m(2) by auto
    moreover from this have "cursor h c 0 (bytecount mc) (length cs) L"
      using m(4) Cons unat_bounds(3) [of "bytecount mc"] by (auto simp: cursor_def chain_bytes_def buf_bytes_def)
    ultimately show ?thesis using m True Cons by (auto simp: next_buf_def)
  qed
next
  case False
  thus ?thesis using assms by (auto simp: next_buf_def)
qed

lemma cursor_advance:
  assumes "cursor h b off n k L" "j \<le> n"
  shows "cursor h b (off + j) (n - j) k (drop (unat j) L) \<and> (\<exists>m. h b = Some m \<and> take (unat j) L = seg (mappedsystemva m + ucast off) (unat j)) \<and> unat j \<le> length L"
proof -
  from assms(1) obtain m bs where m: "unat off + unat n < 2 ^ 32" "h b = Some m" "mdl_chain h (mdl_next m) bs" "length bs = k"
      "L = seg (mappedsystemva m + ucast off) (unat n) @ chain_bytes h bs" by (auto simp: cursor_def)
  have j: "unat j \<le> unat n" using assms(2) by (simp add: word_le_nat_alt)
  have u: "unat (n - j) = unat n - unat j" using assms(2) by (simp add: unat_sub)
  have o: "unat (off + j) = unat off + unat j" using j m(1) by (simp add: unat_word_ariths)
  have "unat (ucast off + ucast j :: u64) = unat off + unat j" using m(1) j by (simp add: unat_word_ariths unat_len64)
  hence "(ucast (off + j) :: u64) = ucast off + ucast j" unfolding word_unat_eq_iff unat_len64 o by simp
  hence p: "mappedsystemva m + ucast (off + j) = mappedsystemva m + ucast off + of_nat (unat j)" by (simp add: add.assoc)
  define A where "A = seg (mappedsystemva m + ucast off) (unat j)"
  define B where "B = seg (mappedsystemva m + ucast (off + j)) (unat (n - j)) @ chain_bytes h bs"
  have "seg (mappedsystemva m + ucast off) (unat n) = A @ seg (mappedsystemva m + ucast (off + j)) (unat (n - j))"
    unfolding A_def p u by (rule seg_split [OF j])
  hence L: "L = A @ B" "length A = unat j" by (simp_all add: m(5) A_def B_def)
  have "cursor h b (off + j) (n - j) k B"
    unfolding cursor_def o u using m(1-4) j by (intro conjI exI [of _ m] exI [of _ bs]) (simp_all add: B_def u)
  thus ?thesis using L m(2) by (simp add: A_def [symmetric])
qed

lemma copied_step:
  assumes "n \<le> length D" "n \<le> length S" "distinct D" "set D \<inter> set S = {}"
  shows "copied (take c (drop n D)) (take c (drop n S)) (copied (take n D) (take n S) mem) = copied (take (n + c) D) (take (n + c) S) mem"
proof (subst copied_append)
  show "distinct (take n D @ take c (drop n D))" using assms(3) by (simp only: take_add [symmetric] distinct_take)
  show "set (take n D) \<inter> set (take c (drop n S)) = {}" using assms(4) by (meson disjoint_iff in_set_dropD in_set_takeD)
qed (use assms(1,2) in \<open>simp_all only: take_add [symmetric] length_take min_absorb2\<close>)

lemma copy_loop_spec:
  assumes "cursor h db (doff + n) (dn - n) kd D" "cursor h sb (soff + n) (sn - n) ks S"
    and "left = 0 \<or> dn = n \<or> sn = n" "distinct D" "set D \<inter> set S = {}"
    and "c = min (unat left) (min (length D) (length S))"
  shows "copy_loop h db sb doff soff dn sn n left mem = Some (copied (take c D) (take c S) mem, left - of_nat c)"
  using assms
proof (induction "kd + ks" arbitrary: db sb doff soff dn sn n kd ks D S left mem c rule: less_induct)
  case less
  note dcur = less.prems(1) and scur = less.prems(2)
  show ?case
  proof (cases "left = 0")
    case True
    thus ?thesis using less.prems(6) by (subst copy_loop.simps) (simp add: copied_def)
  next
    case False
    from cursor_next [OF dcur] obtain rd where rd: "next_buf h db (dn - n) (doff + n) = Some rd"
      "case rd of None \<Rightarrow> D = [] | Some (b', n', off') \<Rightarrow> \<exists>k'. cursor h b' off' n' k' D \<and> k' \<le> kd \<and> (dn - n = 0 \<longrightarrow> k' < kd)" by blast
    from cursor_next [OF scur] obtain rs where rs: "next_buf h sb (sn - n) (soff + n) = Some rs"
      "case rs of None \<Rightarrow> S = [] | Some (b', n', off') \<Rightarrow> \<exists>k'. cursor h b' off' n' k' S \<and> k' \<le> ks \<and> (sn - n = 0 \<longrightarrow> k' < ks)" by blast
    show ?thesis
    proof (cases "rd = None \<or> rs = None")
      case True
      hence "c = 0" using rd(2) rs(2) less.prems(6) by auto
      thus ?thesis using True False rd(1) rs(1) by (subst copy_loop.simps) (auto simp: copied_def split: option.split)
    next
      case n: False
      then obtain db' dn' doff' kd' sb' sn' soff' ks' where d: "rd = Some (db', dn', doff')" "cursor h db' doff' dn' kd' D" "kd' \<le> kd" "dn - n = 0 \<longrightarrow> kd' < kd"
        and s: "rs = Some (sb', sn', soff')" "cursor h sb' soff' sn' ks' S" "ks' \<le> ks" "sn - n = 0 \<longrightarrow> ks' < ks"
        using rd(2) rs(2) by (auto split: option.splits)
      define n' where "n' = min (min sn' dn') left"
      define c' where "c' = c - unat n'"
      have le: "n' \<le> dn'" "n' \<le> sn'" "n' \<le> left" by (simp_all add: n'_def min.coboundedI1)
      from cursor_advance [OF d(2) le(1)] obtain dm where dm: "cursor h db' (doff' + n') (dn' - n') kd' (drop (unat n') D)" "h db' = Some dm"
        "take (unat n') D = seg (mappedsystemva dm + ucast doff') (unat n')" "unat n' \<le> length D" by blast
      from cursor_advance [OF s(2) le(2)] obtain sm where sm: "cursor h sb' (soff' + n') (sn' - n') ks' (drop (unat n') S)" "h sb' = Some sm"
        "take (unat n') S = seg (mappedsystemva sm + ucast soff') (unat n')" "unat n' \<le> length S" by blast
      let ?mem = "copied (take (unat n') D) (take (unat n') S) mem"
      have "copy_loop h db sb doff soff dn sn n left mem = copy_loop h db' sb' doff' soff' dn' sn' n' (left - n') ?mem"
        using False rd(1) rs(1) d(1) s(1) dm(2) sm(2)
        by (subst copy_loop.simps) (simp add: n'_def [symmetric] memcpy_copied dm(3) sm(3) Let_def)
      moreover have ul: "unat (left - n') = unat left - unat n'" "unat n' \<le> unat left" using le(3) by (simp_all add: unat_sub word_le_nat_alt)
      have "kd' + ks' < kd + ks" using less.prems(3) False d(3,4) s(3,4) by fastforce
      hence "copy_loop h db' sb' doff' soff' dn' sn' n' (left - n') ?mem =
        Some (copied (take c' (drop (unat n') D)) (take c' (drop (unat n') S)) ?mem, left - n' - of_nat c')"
      proof (rule less.hyps [OF _ dm(1) sm(1)])
        show "left - n' = 0 \<or> dn' = n' \<or> sn' = n'" by (auto simp: n'_def min_def)
        show "distinct (drop (unat n') D)" using less.prems(4) by simp
        show "set (drop (unat n') D) \<inter> set (drop (unat n') S) = {}" using less.prems(5) set_drop_subset by fast
        show "c' = min (unat (left - n')) (min (length (drop (unat n') D)) (length (drop (unat n') S)))"
          using less.prems(6) ul(1) by (simp add: c'_def min_diff)
      qed
      moreover have c: "c = unat n' + c'" using less.prems(6) ul(2) dm(4) sm(4) by (simp add: c'_def)
      moreover have "copied (take c' (drop (unat n') D)) (take c' (drop (unat n') S)) ?mem = copied (take c D) (take c S) mem"
        unfolding c by (rule copied_step [OF dm(4) sm(4) less.prems(4,5)])
      ultimately show ?thesis by (simp add: algebra_simps)
    qed
  qed
qed

text \<open>C23: The copy from packet to packet always ends.  When the offsets lie in the first buffers and the destination does not overlap itself or
  the source, it copies, byte for byte and across all buffer boundaries, as many bytes as were asked for or as both packets have behind
  the offsets, changes no other byte of memory, and returns that number.\<close>

theorem copy_packet_correct:
  assumes "dst \<noteq> NULL" "src \<noteq> NULL" "packet_buffers dst s (db # dbs)" "packet_buffers src s (sb # sbs)"
    and "unat dst_offset \<le> length (buf_bytes (mdls s) db)" "unat src_offset \<le> length (buf_bytes (mdls s) sb)"
    and "D = drop (unat dst_offset) (chain_bytes (mdls s) (db # dbs))" "S = drop (unat src_offset) (chain_bytes (mdls s) (sb # sbs))"
    and "distinct D" "set D \<inter> set S = {}"
    and "c = min (unat num_to_copy) (min (length D) (length S))"
  shows "NdisCopyFromPacketToPacketSafe dst dst_offset num_to_copy src src_offset s mem = Some (copied (take c D) (take c S) mem, of_nat c)"
proof -
  from assms(3) obtain dpk dm where d: "packets s dst = Some dpk" "buffer_head dpk = db" "db \<noteq> NULL" "mdls s db = Some dm" "mdl_chain (mdls s) (mdl_next dm) dbs"
    by (auto simp: packet_buffers_def)
  from assms(4) obtain spk sm where s: "packets s src = Some spk" "buffer_head spk = sb" "sb \<noteq> NULL" "mdls s sb = Some sm" "mdl_chain (mdls s) (mdl_next sm) sbs"
    by (auto simp: packet_buffers_def)
  have start: "cursor (mdls s) b off (bytecount m - off) (length bs) (drop (unat off) (chain_bytes (mdls s) (b # bs)))"
    if "mdls s b = Some m" "mdl_chain (mdls s) (mdl_next m) bs" "unat off \<le> length (buf_bytes (mdls s) b)" for b m bs off
  proof -
    have "cursor (mdls s) b 0 (bytecount m) (length bs) (chain_bytes (mdls s) (b # bs))"
      using that unat_bounds(3) [of "bytecount m"] by (auto simp: cursor_def chain_bytes_def buf_bytes_def)
    moreover have "off \<le> bytecount m" using that(1,3) by (simp add: buf_bytes_def word_le_nat_alt)
    ultimately show ?thesis using cursor_advance by fastforce
  qed
  define dn where "dn = bytecount dm - dst_offset"
  define sn where "sn = bytecount sm - src_offset"
  define n where "n = min (min sn dn) num_to_copy"
  have le: "n \<le> dn" "n \<le> sn" "n \<le> num_to_copy" by (simp_all add: n_def min.coboundedI1)
  have dc: "cursor (mdls s) db dst_offset dn (length dbs) D" unfolding assms(7) dn_def by (rule start [OF d(4,5) assms(5)])
  have sc: "cursor (mdls s) sb src_offset sn (length sbs) S" unfolding assms(8) sn_def by (rule start [OF s(4,5) assms(6)])
  from cursor_advance [OF dc le(1)] d(4) have da: "cursor (mdls s) db (dst_offset + n) (dn - n) (length dbs) (drop (unat n) D)"
    "take (unat n) D = seg (mappedsystemva dm + ucast dst_offset) (unat n)" "unat n \<le> length D" by auto
  from cursor_advance [OF sc le(2)] s(4) have sa: "cursor (mdls s) sb (src_offset + n) (sn - n) (length sbs) (drop (unat n) S)"
    "take (unat n) S = seg (mappedsystemva sm + ucast src_offset) (unat n)" "unat n \<le> length S" by auto
  let ?mem = "copied (take (unat n) D) (take (unat n) S) mem"
  have ul: "unat (num_to_copy - n) = unat num_to_copy - unat n" "unat n \<le> unat num_to_copy" using le(3) by (simp_all add: unat_sub word_le_nat_alt)
  define c' where "c' = c - unat n"
  have c: "c = unat n + c'" using assms(11) ul(2) da(3) sa(3) by (simp add: c'_def)
  have "copy_loop (mdls s) db sb dst_offset src_offset dn sn n (num_to_copy - n) ?mem =
    Some (copied (take c' (drop (unat n) D)) (take c' (drop (unat n) S)) ?mem, num_to_copy - n - of_nat c')"
  proof (rule copy_loop_spec [OF da(1) sa(1)])
    show "num_to_copy - n = 0 \<or> dn = n \<or> sn = n" by (auto simp: n_def min_def)
    show "set (drop (unat n) D) \<inter> set (drop (unat n) S) = {}" using assms(10) set_drop_subset by fast
    show "c' = min (unat (num_to_copy - n)) (min (length (drop (unat n) D)) (length (drop (unat n) S)))"
      using assms(11) ul(1) by (simp add: c'_def min_diff)
  qed (use assms(9) in simp)
  moreover have "copied (take c' (drop (unat n) D)) (take c' (drop (unat n) S)) ?mem = copied (take c D) (take c S) mem"
    unfolding c by (rule copied_step [OF da(3) sa(3) assms(9,10)])
  moreover have "num_to_copy - (num_to_copy - n - of_nat c') = of_nat c" by (simp add: c)
  ultimately show ?thesis
    using assms(1,2) d s
    by (simp add: NdisCopyFromPacketToPacketSafe_def dn_def [symmetric] sn_def [symmetric] n_def [symmetric] Let_def memcpy_copied da(2) [symmetric] sa(2) [symmetric])
qed

text \<open>A destination with buffers of two and three bytes and a source with buffers of three and one.\<close>

definition copy_demo :: np_state where
  "copy_demo = np_demo\<lparr>mdls := [0x10 \<mapsto> zero_mdl 0\<lparr>mdl_next := 0x20, mappedsystemva := 0x1000, bytecount := 2\<rparr>,
       0x20 \<mapsto> zero_mdl 0\<lparr>mappedsystemva := 0x2000, bytecount := 3\<rparr>,
       0x30 \<mapsto> zero_mdl 0\<lparr>mdl_next := 0x40, mappedsystemva := 0x3000, bytecount := 3\<rparr>,
       0x40 \<mapsto> zero_mdl 0\<lparr>mappedsystemva := 0x4000, bytecount := 1\<rparr>],
     packets := [0x100 \<mapsto> (init_packet 0x200 0 0)\<lparr>buffer_head := 0x10, buffer_tail := 0x20\<rparr>,
       0x200 \<mapsto> (init_packet 0x200 0 0)\<lparr>buffer_head := 0x30, buffer_tail := 0x40\<rparr>]\<rparr>"

theorem copy_packet_correct_witness:
  "\<exists>mem. NdisCopyFromPacketToPacketSafe 0x100 1 8 0x200 0 copy_demo (\<lambda>a. if a < 0x3000 then 0 else ucast (a AND 0xff) + 1) = Some (mem, 4) \<and>
     map mem [0x1000, 0x1001, 0x2000, 0x2001, 0x2002] = [0, 1, 2, 3, 1]"
proof -
  have m: "mdls copy_demo = [0x10 \<mapsto> zero_mdl 0\<lparr>mdl_next := 0x20, mappedsystemva := 0x1000, bytecount := 2\<rparr>,
       0x20 \<mapsto> zero_mdl 0\<lparr>mappedsystemva := 0x2000, bytecount := 3\<rparr>,
       0x30 \<mapsto> zero_mdl 0\<lparr>mdl_next := 0x40, mappedsystemva := 0x3000, bytecount := 3\<rparr>,
       0x40 \<mapsto> zero_mdl 0\<lparr>mappedsystemva := 0x4000, bytecount := 1\<rparr>]"
    by (simp add: copy_demo_def)
  have b: "packet_buffers 0x100 copy_demo [0x10, 0x20]" "packet_buffers 0x200 copy_demo [0x30, 0x40]"
    by (simp_all add: packet_buffers_def copy_demo_def zero_mdl_def)
  have c: "chain_bytes (mdls copy_demo) [0x10, 0x20] = [0x1000, 0x1001, 0x2000, 0x2001, 0x2002]"
    "chain_bytes (mdls copy_demo) [0x30, 0x40] = [0x3000, 0x3001, 0x3002, 0x4000]"
    "length (buf_bytes (mdls copy_demo) 0x10) = 2" "length (buf_bytes (mdls copy_demo) 0x30) = 3"
    by (simp_all add: m chain_bytes_def buf_bytes_def seg_def upt_conv_Cons)
  have "NdisCopyFromPacketToPacketSafe 0x100 1 8 0x200 0 copy_demo mem =
      Some (copied [0x1001, 0x2000, 0x2001, 0x2002] [0x3000, 0x3001, 0x3002, 0x4000] mem, 4)" for mem
  proof -
    have ds: "[0x1001, 0x2000, 0x2001, 0x2002] = drop (unat (1 :: u32)) (chain_bytes (mdls copy_demo) [0x10, 0x20])"
      "[0x3000, 0x3001, 0x3002, 0x4000] = drop (unat (0 :: u32)) (chain_bytes (mdls copy_demo) [0x30, 0x40])" by (simp_all add: c(1,2))
    have "NdisCopyFromPacketToPacketSafe 0x100 1 8 0x200 0 copy_demo mem =
        Some (copied (take 4 [0x1001, 0x2000, 0x2001, 0x2002]) (take 4 [0x3000, 0x3001, 0x3002, 0x4000]) mem, of_nat 4)"
      by (rule copy_packet_correct [OF _ _ b _ _ ds]) (simp_all add: c(3,4))
    thus ?thesis by simp
  qed
  thus ?thesis by (simp add: copied_def)
qed

end
