(* ===== verification/Ndis_Config.thy ===== *)
theory Ndis_Config
  imports Rtl_String Ndis_Buffer
begin

text \<open>
  Configuration parameters of \<^verbatim>\<open>ndis.c\<close>: the settings of a device and of its driver, which a miniport reads and writes by name
  with \<^verbatim>\<open>NdisReadConfiguration\<close> and \<^verbatim>\<open>NdisWriteConfiguration\<close>, the cached encoding of a setting, and the network address.  A setting
  has fixed-size buffers for name and value (128 and 256 bytes); an access outside them is the fault \<open>None\<close>.

  The formatting and parsing functions of the kernel are parameters, the record \<open>cfg_env\<close>.  Shown are which setting a key finds, that
  what is written is read back unless the setting was read as an integer before, in which case the old value is returned, that the
  network address is parsed digit by digit, and that a key of 128 characters or more overruns the name of a new setting.
\<close>

section \<open>Data\<close>

datatype ndis_parameter_type =
    NdisParameterInteger | NdisParameterHexInteger | NdisParameterString | NdisParameterMultiString | NdisParameterBinary

datatype param_data = PInteger u32 | PString unicode_string

record ndis_configuration_parameter =
  p_type :: ndis_parameter_type
  p_data :: param_data

record wrap_device_setting =
  set_name :: "u8 list"
  set_value :: "u8 list"
  set_encoded :: "ndis_configuration_parameter option"

definition MAX_SETTING_NAME_LEN :: nat where "MAX_SETTING_NAME_LEN = 128"
definition MAX_SETTING_VALUE_LEN :: nat where "MAX_SETTING_VALUE_LEN = 256"

text \<open>What the code uses of the kernel: \<^verbatim>\<open>simple_strtol\<close> on the characters before the terminator, the characters that
  \<^verbatim>\<open>snprintf\<close> prints for \<^verbatim>\<open>%u\<close> and \<^verbatim>\<open>%x\<close>, \<^verbatim>\<open>tolower\<close>, the pool, and \<^verbatim>\<open>sscanf\<close> of \<^verbatim>\<open>%x\<close> on two characters.\<close>

record cfg_env =
  simple_strtol :: "u8 list \<Rightarrow> nat \<Rightarrow> u32"
  print_u :: "u32 \<Rightarrow> u8 list"
  print_x :: "u32 \<Rightarrow> u8 list"
  to_lower :: "u8 \<Rightarrow> u8"
  pool8 :: "nat \<Rightarrow> u8 list option"
  pool16 :: "nat \<Rightarrow> u16 list option"
  scan_x :: "u8 \<Rightarrow> u8 \<Rightarrow> u32 option"

record cfg_state =
  dev_settings :: "wrap_device_setting list"
  drv_settings :: "wrap_device_setting list"
  wnd_mac :: "u8 list"

definition no_ansi :: ansi_string where "no_ansi = \<lparr>a_length = 0, a_max_length = 0, a_buf = None\<rparr>"
definition no_unicode :: unicode_string where "no_unicode = \<lparr>u_length = 0, u_max_length = 0, u_buf = None\<rparr>"

definition cstr :: "u8 list \<Rightarrow> u8 list option" where
  "cstr b = do { i \<leftarrow> scan0 (\<lambda>c. c = 0) b; Some (take i b) }"

text \<open>Whether \<^verbatim>\<open>strncasecmp\<close> returns 0.\<close>

fun strncase_eq :: "(u8 \<Rightarrow> u8) \<Rightarrow> u8 list \<Rightarrow> u8 list \<Rightarrow> nat \<Rightarrow> bool option" where
  "strncase_eq lo a b 0 = Some True"
| "strncase_eq lo (x # xs) (y # ys) (Suc n) =
     (if lo x \<noteq> lo y then Some False else if lo x = 0 then Some True else strncase_eq lo xs ys n)"
| "strncase_eq lo _ _ (Suc n) = None"

section \<open>Encoding and decoding\<close>

definition encode_as :: "cfg_env \<Rightarrow> ndis_parameter_type \<Rightarrow> wrap_device_setting \<Rightarrow>
    (wrap_device_setting \<times> ndis_configuration_parameter option) option" where
  "encode_as e ty st =
     (let int_param = (\<lambda>base. do { v \<leftarrow> cstr (set_value st);
             let p = \<lparr>p_type = ty, p_data = PInteger (simple_strtol e v base)\<rparr> in
             Some (st\<lparr>set_encoded := Some p\<rparr>, Some p) }) in
      case ty of
        NdisParameterInteger \<Rightarrow> int_param 0
      | NdisParameterHexInteger \<Rightarrow> int_param 16
      | NdisParameterBinary \<Rightarrow> int_param 2
      | NdisParameterString \<Rightarrow>
          do { ansi \<leftarrow> RtlInitAnsiString (Some (set_value st));
               (u, status) \<leftarrow> RtlAnsiStringToUnicodeString (pool16 e) no_unicode ansi True;
               if status \<noteq> STATUS_SUCCESS then Some (st, None)
               else let p = \<lparr>p_type = ty, p_data = PString u\<rparr> in Some (st\<lparr>set_encoded := Some p\<rparr>, Some p) }
      | NdisParameterMultiString \<Rightarrow> Some (st, None))"

text \<open>\<open>ok\<close>: memory for a parameter is available.  A parameter of another type is reused.\<close>

definition ndis_encode_setting :: "cfg_env \<Rightarrow> bool \<Rightarrow> ndis_parameter_type \<Rightarrow> wrap_device_setting \<Rightarrow>
    (wrap_device_setting \<times> ndis_configuration_parameter option) option" where
  "ndis_encode_setting e ok ty st =
     (case set_encoded st of
        Some p \<Rightarrow> if p_type p = ty then Some (st, Some p) else encode_as e ty (st\<lparr>set_encoded := None\<rparr>)
      | None \<Rightarrow> if \<not> ok then Some (st, None) else encode_as e ty st)"

definition snprintf_value :: "u8 list \<Rightarrow> u8 list \<Rightarrow> u8 list option" where
  "snprintf_value b cs = wr_all b 0 (take (MAX_SETTING_VALUE_LEN - 1) cs @ [0])"

definition ndis_decode_setting :: "cfg_env \<Rightarrow> wrap_device_setting \<Rightarrow> ndis_configuration_parameter \<Rightarrow> (wrap_device_setting \<times> int) option" where
  "ndis_decode_setting e st param =
     (let st1 = (case set_encoded st of
                   Some prev \<Rightarrow> if p_type prev = NdisParameterString then st\<lparr>set_encoded := None\<rparr> else st
                 | None \<Rightarrow> st) in
      case (p_type param, p_data param) of
        (NdisParameterInteger, PInteger n) \<Rightarrow> do { v \<leftarrow> snprintf_value (set_value st1) (print_u e n); Some (st1\<lparr>set_value := v\<rparr>, 0) }
      | (NdisParameterHexInteger, PInteger n) \<Rightarrow> do { v \<leftarrow> snprintf_value (set_value st1) (print_x e n); Some (st1\<lparr>set_value := v\<rparr>, 0) }
      | (NdisParameterString, PString u) \<Rightarrow>
          do { (ansi, status) \<leftarrow> RtlUnicodeStringToAnsiString (pool8 e)
                 \<lparr>a_length = 0, a_max_length = of_nat MAX_SETTING_VALUE_LEN, a_buf = Some (set_value st1)\<rparr> u False;
               v \<leftarrow> a_buf ansi;
               if status \<noteq> STATUS_SUCCESS \<or> MAX_SETTING_VALUE_LEN \<le> unat (a_length ansi) then Some (st1\<lparr>set_value := v\<rparr>, - 1)
               else do { v' \<leftarrow> wr v (unat (a_length ansi)) 0; Some (st1\<lparr>set_value := v'\<rparr>, 0) } }
      | (NdisParameterMultiString, _) \<Rightarrow> Some (st1, - 1)
      | (NdisParameterBinary, _) \<Rightarrow> Some (st1, - 1)
      | _ \<Rightarrow> None)"

section \<open>Reading and writing settings\<close>

text \<open>The parameter of the first setting that matches the key, none if there is no such setting or it cannot be encoded.\<close>

fun read_setting :: "cfg_env \<Rightarrow> bool \<Rightarrow> u8 list \<Rightarrow> nat \<Rightarrow> ndis_parameter_type \<Rightarrow> wrap_device_setting list \<Rightarrow>
    (wrap_device_setting list \<times> ndis_configuration_parameter option) option" where
  "read_setting e ok keyname len ty [] = Some ([], None)"
| "read_setting e ok keyname len ty (st # sts) =
     do { eq \<leftarrow> strncase_eq (to_lower e) keyname (set_name st) len;
          if eq then do { (st', p) \<leftarrow> ndis_encode_setting e ok ty st; Some (st' # sts, p) }
          else do { (sts', p) \<leftarrow> read_setting e ok keyname len ty sts; Some (st # sts', p) } }"

definition NdisReadConfiguration :: "cfg_env \<Rightarrow> bool \<Rightarrow> unicode_string \<Rightarrow> ndis_parameter_type \<Rightarrow> cfg_state \<Rightarrow>
    (cfg_state \<times> u32 \<times> ndis_configuration_parameter option) option" where
  "NdisReadConfiguration e ok key ty c =
     do { (ansi, ret) \<leftarrow> RtlUnicodeStringToAnsiString (pool8 e) no_ansi key True;
          case a_buf ansi of
            None \<Rightarrow> Some (c, NDIS_STATUS_FAILURE, None)
          | Some buf \<Rightarrow>
              if ret \<noteq> STATUS_SUCCESS then Some (c, NDIS_STATUS_FAILURE, None)
              else do { (ds, p) \<leftarrow> read_setting e ok buf (unat (a_length ansi)) ty (dev_settings c);
                        if p \<noteq> None then Some (c\<lparr>dev_settings := ds\<rparr>, NDIS_STATUS_SUCCESS, p)
                        else do { (vs, q) \<leftarrow> read_setting e ok buf (unat (a_length ansi)) ty (drv_settings c);
                                  Some (c\<lparr>dev_settings := ds, drv_settings := vs\<rparr>,
                                        if q \<noteq> None then NDIS_STATUS_SUCCESS else NDIS_STATUS_FAILURE, q) } } }"

fun write_setting :: "cfg_env \<Rightarrow> u8 list \<Rightarrow> nat \<Rightarrow> ndis_configuration_parameter \<Rightarrow> wrap_device_setting list \<Rightarrow>
    (wrap_device_setting list \<times> int option) option" where
  "write_setting e keyname len param [] = Some ([], None)"
| "write_setting e keyname len param (st # sts) =
     do { eq \<leftarrow> strncase_eq (to_lower e) keyname (set_name st) len;
          if eq then do { (st', r) \<leftarrow> ndis_decode_setting e st param; Some (st' # sts, Some r) }
          else do { (sts', r) \<leftarrow> write_setting e keyname len param sts; Some (st # sts', r) } }"

definition new_setting :: wrap_device_setting where
  "new_setting = \<lparr>set_name = replicate MAX_SETTING_NAME_LEN 0, set_value = replicate MAX_SETTING_VALUE_LEN 0, set_encoded = None\<rparr>"

definition NdisWriteConfiguration :: "cfg_env \<Rightarrow> bool \<Rightarrow> unicode_string \<Rightarrow> ndis_configuration_parameter \<Rightarrow> cfg_state \<Rightarrow> (cfg_state \<times> u32) option" where
  "NdisWriteConfiguration e ok key param c =
     do { (ansi, ret) \<leftarrow> RtlUnicodeStringToAnsiString (pool8 e) no_ansi key True;
          if ret \<noteq> STATUS_SUCCESS then Some (c, NDIS_STATUS_FAILURE) else
     do { keyname \<leftarrow> a_buf ansi;
          (ds, r) \<leftarrow> write_setting e keyname (unat (a_length ansi)) param (dev_settings c);
          case r of
            Some r' \<Rightarrow> Some (c\<lparr>dev_settings := ds\<rparr>, if r' \<noteq> 0 then NDIS_STATUS_FAILURE else NDIS_STATUS_SUCCESS)
          | None \<Rightarrow>
              if \<not> ok then Some (c, NDIS_STATUS_RESOURCES)
              else let len = (if a_length ansi = a_max_length ansi then a_length ansi - 1 else a_length ansi) in
              do { n1 \<leftarrow> blk_copy (set_name new_setting) 0 keyname 0 (unat len);
                   n2 \<leftarrow> wr n1 (unat len) 0;
                   (st, r') \<leftarrow> ndis_decode_setting e (new_setting\<lparr>set_name := n2\<rparr>) param;
                   Some (if r' \<noteq> 0 then (c, NDIS_STATUS_FAILURE)
                         else (c\<lparr>dev_settings := dev_settings c @ [st]\<rparr>, NDIS_STATUS_SUCCESS)) } } }"

text \<open>The bytes that the loop of \<^verbatim>\<open>NdisReadNetworkAddress\<close> parses before it stops.\<close>

fun parse_mac :: "cfg_env \<Rightarrow> u8 list \<Rightarrow> nat \<Rightarrow> u8 list" where
  "parse_mac e cs 0 = []"
| "parse_mac e (a # b # cs) (Suc n) = (case scan_x e a b of Some x \<Rightarrow> ucast x # parse_mac e cs n | None \<Rightarrow> [])"
| "parse_mac e cs (Suc n) = []"

definition NetworkAddress :: "u8 list" where
  "NetworkAddress = [78, 101, 116, 119, 111, 114, 107, 65, 100, 100, 114, 101, 115, 115, 0]"

definition NdisReadNetworkAddress :: "cfg_env \<Rightarrow> bool \<Rightarrow> cfg_state \<Rightarrow> (cfg_state \<times> u32 \<times> u8 list option) option" where
  "NdisReadNetworkAddress e ok c =
     do { a0 \<leftarrow> RtlInitAnsiString (Some NetworkAddress);
          (key, r) \<leftarrow> RtlAnsiStringToUnicodeString (pool16 e) no_unicode a0 True;
          if r \<noteq> STATUS_SUCCESS then Some (c, NDIS_STATUS_FAILURE, None) else
     do { (c1, ret, param) \<leftarrow> NdisReadConfiguration e ok key NdisParameterString c;
          if ret \<noteq> NDIS_STATUS_SUCCESS then Some (c1, NDIS_STATUS_FAILURE, None) else
          case map_option p_data param of
            Some (PString u) \<Rightarrow>
              do { (ansi, r2) \<leftarrow> RtlUnicodeStringToAnsiString (pool8 e) no_ansi u True;
                   if r2 \<noteq> STATUS_SUCCESS then Some (c1, NDIS_STATUS_FAILURE, None) else
              do { b \<leftarrow> a_buf ansi;
                   let mac = (if 12 \<le> unat (a_length ansi) then parse_mac e (take 12 b) 6 else []) in
                   Some (if length mac = 6 then (c1\<lparr>wnd_mac := mac\<rparr>, NDIS_STATUS_SUCCESS, Some mac)
                         else (c1, NDIS_STATUS_FAILURE, None)) } }
          | _ \<Rightarrow> None } }"

definition ndis_exit_device :: "cfg_state \<Rightarrow> cfg_state" where
  "ndis_exit_device c = c\<lparr>dev_settings := map (\<lambda>st. st\<lparr>set_encoded := None\<rparr>) (dev_settings c)\<rparr>"

section \<open>Which setting a key finds\<close>

definition setting_ok :: "wrap_device_setting \<Rightarrow> bool" where
  "setting_ok st \<longleftrightarrow> length (set_name st) = MAX_SETTING_NAME_LEN \<and> length (set_value st) = MAX_SETTING_VALUE_LEN \<and> 0 \<in> set (set_name st)"

definition name_of :: "wrap_device_setting \<Rightarrow> u8 list" where
  "name_of st = takeWhile (\<lambda>c. c \<noteq> 0) (set_name st)"

text \<open>The key is a prefix of the name, up to case.\<close>

definition key_matches :: "cfg_env \<Rightarrow> u8 list \<Rightarrow> wrap_device_setting \<Rightarrow> bool" where
  "key_matches e k st \<longleftrightarrow> length k \<le> length (name_of st) \<and> map (to_lower e) k = map (to_lower e) (take (length k) (name_of st))"

definition lower_ok :: "cfg_env \<Rightarrow> bool" where
  "lower_ok e \<longleftrightarrow> (\<forall>c. to_lower e c = 0 \<longleftrightarrow> c = 0)"

lemma strncase_prefix:
  assumes "\<And>c. lo c = 0 \<longleftrightarrow> c = 0" "\<forall>c\<in>set k. c \<noteq> 0" "\<forall>c\<in>set nm. c \<noteq> 0"
  shows "strncase_eq lo (k @ r) (nm @ 0 # rest) (length k) = Some (length k \<le> length nm \<and> map lo k = map lo (take (length k) nm))"
  using assms(2,3)
proof (induction k arbitrary: nm)
  case (Cons x xs)
  have "x \<noteq> 0" using Cons.prems(1) by simp
  hence "lo x \<noteq> lo 0" by (metis assms(1))
  thus ?case using Cons assms(1) by (cases nm) auto
qed simp

lemma key_matches_code:
  assumes "lower_ok e" "\<forall>c\<in>set k. c \<noteq> 0" "setting_ok st"
  shows "strncase_eq (to_lower e) (k @ [0]) (set_name st) (length k) = Some (key_matches e k st)"
proof -
  from split_list_first [of 0 "set_name st"] assms(3) obtain nm rest where n: "set_name st = nm @ 0 # rest" "0 \<notin> set nm"
    by (auto simp: setting_ok_def)
  have "\<forall>c\<in>set nm. c \<noteq> 0" using n(2) by metis
  hence "name_of st = nm" by (simp add: name_of_def n(1) takeWhile_tail)
  thus ?thesis
    using strncase_prefix [of "to_lower e" k nm "[0]" rest] assms(1,2) n by (auto simp: lower_ok_def key_matches_def)
qed

lemma read_setting_first:
  assumes "lower_ok e" "\<forall>c\<in>set k. c \<noteq> 0" "\<forall>st\<in>set (pre @ st # post). setting_ok st"
    and "\<forall>s\<in>set pre. \<not> key_matches e k s" "key_matches e k st"
  shows "read_setting e ok (k @ [0]) (length k) ty (pre @ st # post) =
    map_option (\<lambda>(st', p). (pre @ st' # post, p)) (ndis_encode_setting e ok ty st)"
  using assms(3,4)
proof (induction pre)
  case Nil
  thus ?case using assms by (cases "ndis_encode_setting e ok ty st") (auto simp: key_matches_code)
next
  case (Cons s pre)
  thus ?case using assms by (cases "ndis_encode_setting e ok ty st") (auto simp: key_matches_code)
qed

lemma write_setting_first:
  assumes "lower_ok e" "\<forall>c\<in>set k. c \<noteq> 0" "\<forall>st\<in>set (pre @ st # post). setting_ok st"
    and "\<forall>s\<in>set pre. \<not> key_matches e k s" "key_matches e k st"
  shows "write_setting e (k @ [0]) (length k) param (pre @ st # post) =
    map_option (\<lambda>(st', r). (pre @ st' # post, Some r)) (ndis_decode_setting e st param)"
  using assms(3,4)
proof (induction pre)
  case Nil
  thus ?case using assms by (cases "ndis_decode_setting e st param") (auto simp: key_matches_code)
next
  case (Cons s pre)
  thus ?case using assms by (cases "ndis_decode_setting e st param") (auto simp: key_matches_code)
qed

lemma write_setting_none:
  assumes "lower_ok e" "\<forall>c\<in>set k. c \<noteq> 0" "\<forall>st\<in>set sts. setting_ok st \<and> \<not> key_matches e k st"
  shows "write_setting e (k @ [0]) (length k) param sts = Some (sts, None)"
  using assms(3) by (induction sts) (auto simp: key_matches_code [OF assms(1,2)])

section \<open>Writing and reading back\<close>

text \<open>The key \<open>k\<close> in the structure the driver passes, converted to a terminated ANSI string in pool memory.\<close>

definition key_is :: "cfg_env \<Rightarrow> unicode_string \<Rightarrow> u8 list \<Rightarrow> bool" where
  "key_is e key k \<longleftrightarrow> (\<exists>ks b. unicode_holds key ks \<and> k = map ucast ks \<and> length k < 32767 \<and> (\<forall>c\<in>set k. c \<noteq> 0) \<and>
     pool8 e (length k + 1) = Some b \<and> length b = length k + 1)"

lemma key_is_ansi:
  assumes "key_is e key k"
  shows "\<exists>a. RtlUnicodeStringToAnsiString (pool8 e) no_ansi key True = Some (a, STATUS_SUCCESS) \<and>
    unat (a_length a) = length k \<and> a_length a \<noteq> a_max_length a \<and> a_buf a = Some (k @ [0])"
proof -
  from assms obtain ks b where k: "unicode_holds key ks" "k = map ucast ks" "length ks < 32767" "pool8 e (length ks + 1) = Some b" "length b = length ks + 1"
    by (auto simp: key_is_def)
  from RtlUnicodeStringToAnsiString_alloc [where kalloc = "pool8 e", OF k(1,3-5), of no_ansi] obtain a where
    a: "RtlUnicodeStringToAnsiString (pool8 e) no_ansi key True = Some (a, STATUS_SUCCESS)" "a_length a = of_nat (length ks)"
      "a_max_length a = of_nat (length ks + 1)" "a_buf a = Some (map ucast ks @ [0])" by blast
  have "unat (a_length a) = length ks" "unat (a_max_length a) = length ks + 1"
    using k(3) unat_of_nat_small [of "length ks"] unat_of_nat_small [of "length ks + 1"] by (simp_all add: a)
  thus ?thesis using a k(2) by (intro exI [of _ a]) auto
qed

text \<open>The documented behaviour of the kernel's \<^verbatim>\<open>snprintf\<close> and \<^verbatim>\<open>simple_strtol\<close>: a printed number fits and is parsed back.\<close>

definition prints_decimal :: "cfg_env \<Rightarrow> bool" where
  "prints_decimal e \<longleftrightarrow> (\<forall>n. length (print_u e n) < MAX_SETTING_VALUE_LEN \<and> 0 \<notin> set (print_u e n) \<and> simple_strtol e (print_u e n) 0 = n)"

lemma snprintf_cstr:
  assumes "length b = MAX_SETTING_VALUE_LEN" "length cs < MAX_SETTING_VALUE_LEN" "0 \<notin> set cs"
  shows "\<exists>v. snprintf_value b cs = Some v \<and> length v = MAX_SETTING_VALUE_LEN \<and> cstr v = Some cs"
proof -
  have "snprintf_value b cs = Some (cs @ 0 # drop (Suc (length cs)) b)"
    using assms(1,2) wr_all_eq [of 0 "cs @ [0]" b] by (simp add: snprintf_value_def)
  moreover have "cstr (cs @ 0 # drop (Suc (length cs)) b) = Some cs"
  proof -
    have "\<forall>c\<in>set cs. c \<noteq> 0" using assms(3) by metis
    thus ?thesis by (simp add: cstr_def scan0_append)
  qed
  ultimately show ?thesis using assms(1,2) by simp
qed

lemma decode_integer:
  assumes "prints_decimal e" "setting_ok st"
  shows "\<exists>v. ndis_decode_setting e st \<lparr>p_type = NdisParameterInteger, p_data = PInteger n\<rparr> =
      Some (st\<lparr>set_encoded := (case set_encoded st of Some q \<Rightarrow> if p_type q = NdisParameterString then None else Some q | None \<Rightarrow> None),
               set_value := v\<rparr>, 0) \<and> length v = MAX_SETTING_VALUE_LEN \<and> cstr v = Some (print_u e n)"
proof -
  from snprintf_cstr [of "set_value st" "print_u e n"] assms obtain v where
    v: "snprintf_value (set_value st) (print_u e n) = Some v" "length v = MAX_SETTING_VALUE_LEN" "cstr v = Some (print_u e n)"
    by (auto simp: prints_decimal_def setting_ok_def)
  show ?thesis
    using v by (intro exI [of _ v]) (auto simp: ndis_decode_setting_def Let_def split: option.split)
qed

section \<open>An environment\<close>

text \<open>Decimal digits of a number and the number that a string of digits denotes, for the witnesses.\<close>

fun dec_digits :: "nat \<Rightarrow> u8 list" where
  "dec_digits n = (if n < 10 then [of_nat (48 + n)] else dec_digits (n div 10) @ [of_nat (48 + n mod 10)])"

declare dec_digits.simps [simp del]

definition dec_value :: "u8 list \<Rightarrow> nat" where
  "dec_value cs = foldl (\<lambda>acc c. 10 * acc + (unat c - 48)) 0 cs"

definition cfg_demo :: cfg_env where
  "cfg_demo = \<lparr>simple_strtol = (\<lambda>cs base. of_nat (dec_value cs)), print_u = (\<lambda>n. dec_digits (unat n)), print_x = (\<lambda>n. dec_digits (unat n)),
     to_lower = (\<lambda>c. if 65 \<le> c \<and> c \<le> 90 then c + 32 else c), pool8 = (\<lambda>n. Some (replicate n 0)), pool16 = (\<lambda>n. Some (replicate n 0)),
     scan_x = (\<lambda>a b. Some (of_nat (dec_value [a, b])))\<rparr>"

text \<open>A setting named \<^verbatim>\<open>ch\<close> with the value \<^verbatim>\<open>6\<close>, and the key \<^verbatim>\<open>Ch\<close>.\<close>

definition cfg_demo_setting :: wrap_device_setting where
  "cfg_demo_setting = \<lparr>set_name = 99 # 104 # replicate 126 0, set_value = 54 # replicate 255 0, set_encoded = None\<rparr>"

definition cfg_demo_state :: cfg_state where
  "cfg_demo_state = \<lparr>dev_settings = [cfg_demo_setting], drv_settings = [], wnd_mac = replicate 6 0\<rparr>"

definition demo_key :: "u16 list \<Rightarrow> unicode_string" where
  "demo_key cs = \<lparr>u_length = of_nat (2 * length cs), u_max_length = of_nat (2 * length cs + 2), u_buf = Some (cs @ [0])\<rparr>"

lemma dec_digits_range: "c \<in> set (dec_digits n) \<Longrightarrow> 48 \<le> unat c \<and> unat c < 58"
proof (induction n rule: dec_digits.induct)
  case (1 n)
  have d: "m < 10 \<Longrightarrow> unat (of_nat (48 + m) :: u8) = 48 + m" for m
    by (simp add: unat_of_nat del: of_nat_add)
  show ?case
  proof (cases "n < 10")
    case True
    thus ?thesis using 1(2) d [of n] by (auto simp: dec_digits.simps [of n] simp del: of_nat_add)
  next
    case False
    thus ?thesis using 1 d [of "n mod 10"] by (auto simp: dec_digits.simps [of n] simp del: of_nat_add)
  qed
qed

lemma dec_digits_length: "n < 10 ^ k \<Longrightarrow> 0 < k \<Longrightarrow> length (dec_digits n) \<le> k"
proof (induction k arbitrary: n)
  case (Suc k)
  show ?case
  proof (cases "n < 10")
    case False
    hence "n div 10 < 10 ^ k" "0 < k" using Suc.prems by (auto simp: less_mult_imp_div_less mult.commute intro: gr0I)
    thus ?thesis using Suc.IH [of "n div 10"] False by (subst dec_digits.simps) simp
  qed (simp add: dec_digits.simps)
qed simp

lemma dec_value_digits: "dec_value (dec_digits n) = n"
proof (induction n rule: dec_digits.induct)
  case (1 n)
  have d: "m < 10 \<Longrightarrow> unat (of_nat (48 + m) :: u8) = 48 + m" for m
    by (simp add: unat_of_nat del: of_nat_add)
  show ?case
  proof (cases "n < 10")
    case True
    thus ?thesis using d [of n] by (simp add: dec_digits.simps [of n] dec_value_def del: of_nat_add)
  next
    case False
    have "dec_value (dec_digits n) = 10 * dec_value (dec_digits (n div 10)) + (unat (of_nat (48 + n mod 10) :: u8) - 48)"
      using False by (subst dec_digits.simps) (simp add: dec_value_def del: of_nat_add)
    thus ?thesis using 1 False d [of "n mod 10"] by (simp del: of_nat_add)
  qed
qed

lemma prints_decimal_demo: "prints_decimal cfg_demo"
proof -
  have "unat n < 10 ^ 10" for n :: u32 using unsigned_less [of n] by (auto intro: less_trans)
  hence l: "length (dec_digits (unat n)) \<le> 10" for n :: u32 by (intro dec_digits_length) auto
  have "length (dec_digits (unat n)) < MAX_SETTING_VALUE_LEN" for n :: u32
    using l [of n] by (simp add: MAX_SETTING_VALUE_LEN_def)
  moreover have "0 \<notin> set (dec_digits (unat n))" for n :: u32
    using dec_digits_range [of 0 "unat n"] by auto
  ultimately show ?thesis
    by (simp add: prints_decimal_def cfg_demo_def dec_value_digits)
qed

lemma lower_ok_demo: "lower_ok cfg_demo"
proof -
  have "c + 32 \<noteq> 0" if "65 \<le> c" "c \<le> 90" for c :: u8
  proof
    assume "c + 32 = 0"
    hence "c = - 32" by (simp add: eq_neg_iff_add_eq_0)
    thus False using that by simp
  qed
  thus ?thesis by (auto simp: lower_ok_def cfg_demo_def)
qed

lemma demo_key_is:
  assumes "length cs < 32767" "\<forall>c\<in>set cs. (ucast c :: u8) \<noteq> 0"
  shows "key_is cfg_demo (demo_key cs) (map ucast cs)"
proof -
  have "unat (of_nat (2 * length cs) :: u16) = 2 * length cs" "unat (of_nat (2 * length cs + 2) :: u16) = 2 * length cs + 2"
    using assms(1) by (intro unat_of_nat_small; simp)+
  moreover have "\<forall>c\<in>set cs. c \<noteq> 0" using assms(2) by auto
  ultimately have "unicode_holds (demo_key cs) cs" by (simp add: unicode_holds_def demo_key_def del: of_nat_mult of_nat_add)
  thus ?thesis using assms by (auto simp: key_is_def cfg_demo_def)
qed

text \<open>A number that a driver writes to a setting of the device and reads back is found under the same key, and it is the number
  written, unless the setting was read as an integer before: then the parameter encoded at that time is returned again, because
  decoding forgets only encoded strings.  No other setting changes.\<close>

theorem config_write_read:
  assumes "lower_ok e" "prints_decimal e" "key_is e key k" "dev_settings c = pre @ st # post"
    and "\<forall>s\<in>set (pre @ st # post). setting_ok s" "\<forall>s\<in>set pre. \<not> key_matches e k s" "key_matches e k st"
  shows "\<exists>c1 c2 st' p. NdisWriteConfiguration e ok key \<lparr>p_type = NdisParameterInteger, p_data = PInteger n\<rparr> c = Some (c1, NDIS_STATUS_SUCCESS) \<and>
    NdisReadConfiguration e True key NdisParameterInteger c1 = Some (c2, NDIS_STATUS_SUCCESS, Some p) \<and>
    dev_settings c2 = pre @ st' # post \<and> drv_settings c2 = drv_settings c \<and> p_type p = NdisParameterInteger \<and>
    p_data p = (case set_encoded st of Some q \<Rightarrow> if p_type q = NdisParameterInteger then p_data q else PInteger n | None \<Rightarrow> PInteger n)"
proof -
  from key_is_ansi [OF assms(3)] obtain a where a: "RtlUnicodeStringToAnsiString (pool8 e) no_ansi key True = Some (a, STATUS_SUCCESS)"
    "unat (a_length a) = length k" "a_length a \<noteq> a_max_length a" "a_buf a = Some (k @ [0])" by blast
  have k: "\<forall>c\<in>set k. c \<noteq> 0" using assms(3) by (auto simp: key_is_def)
  have ok: "setting_ok st" using assms(5) by simp
  let ?enc = "case set_encoded st of Some q \<Rightarrow> if p_type q = NdisParameterString then None else Some q | None \<Rightarrow> None"
  from decode_integer [OF assms(2) ok, of n] obtain v where v: "ndis_decode_setting e st \<lparr>p_type = NdisParameterInteger, p_data = PInteger n\<rparr> =
      Some (st\<lparr>set_encoded := ?enc, set_value := v\<rparr>, 0)" "length v = MAX_SETTING_VALUE_LEN" "cstr v = Some (print_u e n)" by blast
  define st1 where "st1 = st\<lparr>set_encoded := ?enc, set_value := v\<rparr>"
  have s1: "set_name st1 = set_name st" "set_value st1 = v" "set_encoded st1 = ?enc" by (simp_all add: st1_def)
  have w: "NdisWriteConfiguration e ok key \<lparr>p_type = NdisParameterInteger, p_data = PInteger n\<rparr> c = Some (c\<lparr>dev_settings := pre @ st1 # post\<rparr>, NDIS_STATUS_SUCCESS)"
    using write_setting_first [OF assms(1) k assms(5,6,7)] v(1) a by (simp add: NdisWriteConfiguration_def assms(4) st1_def)
  have "\<exists>st' p. ndis_encode_setting e True NdisParameterInteger st1 = Some (st', Some p) \<and> p_type p = NdisParameterInteger \<and>
      p_data p = (case set_encoded st of Some q \<Rightarrow> if p_type q = NdisParameterInteger then p_data q else PInteger n | None \<Rightarrow> PInteger n)"
    using v(3) assms(2) s1 by (auto simp: ndis_encode_setting_def encode_as_def Let_def prints_decimal_def split: option.split)
  then obtain st' p where enc: "ndis_encode_setting e True NdisParameterInteger st1 = Some (st', Some p)" "p_type p = NdisParameterInteger"
      "p_data p = (case set_encoded st of Some q \<Rightarrow> if p_type q = NdisParameterInteger then p_data q else PInteger n | None \<Rightarrow> PInteger n)" by blast
  have "setting_ok st1" "key_matches e k st1" using ok v(2) s1 assms(7) by (auto simp: setting_ok_def key_matches_def name_of_def)
  hence "read_setting e True (k @ [0]) (length k) NdisParameterInteger (pre @ st1 # post) = Some (pre @ st' # post, Some p)"
    using read_setting_first [OF assms(1) k _ assms(6), of st1 post] assms(5) enc(1) by auto
  thus ?thesis using w enc(2,3) a by (simp add: NdisReadConfiguration_def)
qed

theorem config_write_read_witness:
  "\<exists>c1 c2 st' p. NdisWriteConfiguration cfg_demo True (demo_key [67, 104]) \<lparr>p_type = NdisParameterInteger, p_data = PInteger 11\<rparr> cfg_demo_state =
      Some (c1, NDIS_STATUS_SUCCESS) \<and>
    NdisReadConfiguration cfg_demo True (demo_key [67, 104]) NdisParameterInteger c1 = Some (c2, NDIS_STATUS_SUCCESS, Some p) \<and>
    dev_settings c2 = [st'] \<and> p_data p = PInteger 11"
proof -
  have "key_is cfg_demo (demo_key [67, 104]) [67, 104]" using demo_key_is [of "[67, 104]"] by simp
  moreover have "setting_ok cfg_demo_setting"
    by (simp add: setting_ok_def cfg_demo_setting_def MAX_SETTING_NAME_LEN_def MAX_SETTING_VALUE_LEN_def)
  moreover have "key_matches cfg_demo [67, 104] cfg_demo_setting"
    by (simp add: key_matches_def name_of_def cfg_demo_setting_def cfg_demo_def)
  moreover have "dev_settings cfg_demo_state = [] @ cfg_demo_setting # []" by (simp add: cfg_demo_state_def)
  ultimately show ?thesis
    using config_write_read [OF lower_ok_demo prints_decimal_demo, of "demo_key [67, 104]" "[67, 104]" cfg_demo_state "[]" cfg_demo_setting "[]" True 11]
    by (simp add: cfg_demo_setting_def) blast
qed

text \<open>The name of a setting has room for 127 characters, but a new setting takes its name from the key without a check: writing a
  parameter under a longer key that matches no setting runs over the end of the name.\<close>

theorem config_key_overrun:
  assumes "lower_ok e" "key_is e key k" "\<forall>st\<in>set (dev_settings c). setting_ok st \<and> \<not> key_matches e k st"
    and "MAX_SETTING_NAME_LEN \<le> length k"
  shows "NdisWriteConfiguration e True key param c = None"
proof -
  from key_is_ansi [OF assms(2)] obtain a where a: "RtlUnicodeStringToAnsiString (pool8 e) no_ansi key True = Some (a, STATUS_SUCCESS)"
    "unat (a_length a) = length k" "a_length a \<noteq> a_max_length a" "a_buf a = Some (k @ [0])" by blast
  have "\<forall>c\<in>set k. c \<noteq> 0" using assms(2) by (auto simp: key_is_def)
  from write_setting_none [OF assms(1) this assms(3)] show ?thesis
    using a assms(4) by (auto simp: NdisWriteConfiguration_def new_setting_def blk_copy_def wr_def Let_def)
qed

theorem config_key_overrun_witness:
  "NdisWriteConfiguration cfg_demo True (demo_key (replicate 200 65)) \<lparr>p_type = NdisParameterInteger, p_data = PInteger 11\<rparr> cfg_demo_state = None"
proof (rule config_key_overrun [OF lower_ok_demo])
  show "key_is cfg_demo (demo_key (replicate 200 65)) (map ucast (replicate 200 65 :: u16 list))"
    by (rule demo_key_is) auto
  show "\<forall>st\<in>set (dev_settings cfg_demo_state). setting_ok st \<and> \<not> key_matches cfg_demo (map ucast (replicate 200 65 :: u16 list)) st"
    by (simp add: cfg_demo_state_def setting_ok_def cfg_demo_setting_def MAX_SETTING_NAME_LEN_def MAX_SETTING_VALUE_LEN_def
        key_matches_def name_of_def)
qed (simp add: MAX_SETTING_NAME_LEN_def)

end
