(* ===== verification/Tx_Packet.thy ===== *)
theory Tx_Packet
  imports Ndis_Packet
begin

text \<open>
  Packets for transmission in \<^verbatim>\<open>wrapndis.c\<close>: \<^verbatim>\<open>alloc_tx_packet\<close> wraps a socket buffer into a packet of the packet pool with one buffer of
  the buffer pool, maps it for DMA if the driver asked for scatter and gather lists, and sets the checksum information;
  \<^verbatim>\<open>free_tx_packet\<close> undoes this and wakes the network queue.  The state extends that of the pools.

  Shown are that the two pools, the packets, their buffers and their socket buffers stay together through every sequence of the two
  operations, that a socket buffer is freed exactly once, that a DMA mapping of an unfragmented buffer is undone, and that for a
  fragmented one the first mapping is undone twice and the last never.
\<close>

section \<open>Data\<close>

record ndis_sg_element =
  sg_address :: u64
  sg_length :: u32

text \<open>Where \<^verbatim>\<open>info[ScatterGatherListPacketInfo]\<close> points: nowhere, to the list inside the out-of-band data, or to an allocated one.\<close>

datatype sg_ref = No_Sg | Wrap_Sg | Heap_Sg ptr

record ndis_packet_oob_data =
  tx_skb :: ptr
  wrap_tx_sg_list :: "ndis_sg_element list"
  sg_info :: sg_ref
  csum_info :: u32

text \<open>A socket buffer: linear data, total length, length of the linear part, fragments with the address and size of each, whether the
  checksum is left to the device, and the protocol field in host order.\<close>

record sk_buff =
  skb_data :: ptr
  skb_len :: u32
  skb_headlen :: u32
  skb_frags :: "(ptr \<times> u32) list"
  skb_csum_partial :: bool
  skb_protocol :: u16

text \<open>\<open>dma_mapped\<close> are the mappings of the device that are in place, \<open>dma_bad_unmaps\<close> those that were undone without being in place.\<close>

record tx_state = np_state +
  tx_packet_pool :: ptr
  tx_buffer_pool :: ptr
  sg_dma_size :: u32
  max_tx_packets :: u32
  oob_data :: "ptr \<Rightarrow> ndis_packet_oob_data"
  sg_lists :: "ptr \<Rightarrow> ndis_sg_element list option"
  dma_mapped :: "ndis_sg_element list"
  dma_bad_unmaps :: "ndis_sg_element list"
  skbs :: "ptr \<Rightarrow> sk_buff option"
  tx_bytes :: u64
  tx_packets :: u64
  tx_dropped :: u64
  queue_stopped :: bool
  wakeq_pending :: bool

abbreviation NDIS_PROTOCOL_ID_TCP_IP :: u32 where "NDIS_PROTOCOL_ID_TCP_IP \<equiv> 2"
abbreviation NDIS_STATUS_CLOSING :: u32 where "NDIS_STATUS_CLOSING \<equiv> 0xC0010002"

section \<open>Scatter and gather lists\<close>

text \<open>\<open>dma\<close> is the bus address that the kernel assigns to a mapping.\<close>

definition dma_map_single :: "(ptr \<Rightarrow> u32 \<Rightarrow> u64) \<Rightarrow> ptr \<Rightarrow> u32 \<Rightarrow> 'a tx_state_scheme \<Rightarrow> 'a tx_state_scheme \<times> ndis_sg_element" where
  "dma_map_single dma p n s = (let e = \<lparr>sg_address = dma p n, sg_length = n\<rparr> in (s\<lparr>dma_mapped := dma_mapped s @ [e]\<rparr>, e))"

definition dma_unmap :: "ndis_sg_element \<Rightarrow> 'a tx_state_scheme \<Rightarrow> 'a tx_state_scheme" where
  "dma_unmap e s = (if e \<in> set (dma_mapped s) then s\<lparr>dma_mapped := remove1 e (dma_mapped s)\<rparr> else s\<lparr>dma_bad_unmaps := dma_bad_unmaps s @ [e]\<rparr>)"

fun map_frags :: "(ptr \<Rightarrow> u32 \<Rightarrow> u64) \<Rightarrow> (ptr \<times> u32) list \<Rightarrow> 'a tx_state_scheme \<Rightarrow> 'a tx_state_scheme \<times> ndis_sg_element list" where
  "map_frags dma [] s = (s, [])"
| "map_frags dma ((p, n) # fr) s =
     (let (s1, e) = dma_map_single dma p n s; (s2, es) = map_frags dma fr s1 in (s2, e # es))"

text \<open>\<open>a\<close> is the address that kmalloc returns for a list.  The result is whether it succeeded.\<close>

definition setup_tx_sg_list :: "(ptr \<Rightarrow> u32 \<Rightarrow> u64) \<Rightarrow> ptr \<Rightarrow> sk_buff \<Rightarrow> ndis_packet_oob_data \<Rightarrow> 'a tx_state_scheme \<Rightarrow>
    'a tx_state_scheme \<times> ndis_packet_oob_data \<times> bool" where
  "setup_tx_sg_list dma a skb oob s =
     (if length (skb_frags skb) \<le> 1 then
        let (s1, e) = dma_map_single dma (skb_data skb) (skb_len skb) s in
        (s1, oob\<lparr>wrap_tx_sg_list := [e], sg_info := Wrap_Sg\<rparr>, True)
      else if a = NULL then (s, oob, False)
      else let (s1, e) = dma_map_single dma (skb_data skb) (skb_headlen skb) s;
               (s2, es) = map_frags dma (skb_frags skb) s1 in
        (s2\<lparr>sg_lists := (sg_lists s2)(a \<mapsto> e # es)\<rparr>, oob\<lparr>sg_info := Heap_Sg a\<rparr>, True))"

text \<open>The loop of \<^verbatim>\<open>free_tx_sg_list\<close>: the counter starts at one, the element at the first.\<close>

fun unmap_loop :: "ndis_sg_element list \<Rightarrow> nat \<Rightarrow> nat \<Rightarrow> 'a tx_state_scheme \<Rightarrow> 'a tx_state_scheme option" where
  "unmap_loop els k 0 s = Some s"
| "unmap_loop els k (Suc n) s = do { e \<leftarrow> rd els k; unmap_loop els (Suc k) n (dma_unmap e s) }"

definition free_tx_sg_list :: "ndis_packet_oob_data \<Rightarrow> 'a tx_state_scheme \<Rightarrow> 'a tx_state_scheme option" where
  "free_tx_sg_list oob s =
     do { els \<leftarrow> (case sg_info oob of No_Sg \<Rightarrow> None | Wrap_Sg \<Rightarrow> Some (wrap_tx_sg_list oob) | Heap_Sg a \<Rightarrow> sg_lists s a);
          e \<leftarrow> rd els 0;
          let s1 = dma_unmap e s in
          if length els = 1 then Some s1 else
     do { s2 \<leftarrow> unmap_loop els 0 (length els - 1) s1;
          case sg_info oob of Heap_Sg a \<Rightarrow> Some (s2\<lparr>sg_lists := (sg_lists s2)(a := None)\<rparr>) | _ \<Rightarrow> None } }"

section \<open>Allocation and release\<close>

definition zero_oob :: ndis_packet_oob_data where
  "zero_oob = \<lparr>tx_skb = NULL, wrap_tx_sg_list = [], sg_info = No_Sg, csum_info = 0\<rparr>"

text \<open>The flags of \<^verbatim>\<open>struct ndis_tcp_ip_checksum_packet_info\<close>: bit 0 for IPv4, 2 for TCP, 3 for UDP.  The code compares the protocol of
  the socket buffer with the IP protocol numbers 6 and 17.\<close>

definition tx_csum_value :: "u16 \<Rightarrow> u32" where
  "tx_csum_value protocol = (if protocol = 6 then 1 OR 4 else if protocol = 17 then 1 OR 8 else 1)"

text \<open>\<open>pa\<close>, \<open>wm\<close> and \<open>sa\<close> are the addresses of memory for a new packet, a new MDL and a list.  \<^verbatim>\<open>NdisAllocatePacket\<close> clears the
  out-of-band data with the packet.\<close>

definition alloc_tx_packet :: "(ptr \<Rightarrow> u32 \<Rightarrow> u64) \<Rightarrow> ptr \<Rightarrow> ptr \<Rightarrow> ptr \<Rightarrow> ptr \<Rightarrow> 'a tx_state_scheme \<Rightarrow> ('a tx_state_scheme \<times> ptr) option" where
  "alloc_tx_packet dma pa wm sa k s =
     do { (s1, status1, packet) \<leftarrow> NdisAllocatePacket pa (tx_packet_pool s) s;
          if status1 \<noteq> NDIS_STATUS_SUCCESS then Some (s1, NULL) else
     do { skb \<leftarrow> skbs s1 k;
          (s2, status2, buffer) \<leftarrow> NdisAllocateBuffer wm (tx_buffer_pool s1) (skb_data skb) (skb_len skb) s1;
          if status2 \<noteq> NDIS_STATUS_SUCCESS then do { s3 \<leftarrow> NdisFreePacket packet s2; Some (s3, NULL) } else
     do { pk \<leftarrow> packets s2 packet;
          let s3 = put_packet packet (pk\<lparr>buffer_head := buffer, buffer_tail := buffer\<rparr>) s2;
              (s4, oob, ok) = (if sg_dma_size s3 \<noteq> 0 then setup_tx_sg_list dma sa skb (zero_oob\<lparr>tx_skb := k\<rparr>) s3
                               else (s3, zero_oob\<lparr>tx_skb := k\<rparr>, True)) in
          if \<not> ok then do { s5 \<leftarrow> NdisFreeBuffer buffer s4; s6 \<leftarrow> NdisFreePacket packet s5; Some (s6, NULL) } else
     do { pk4 \<leftarrow> packets s4 packet;
          Some (if skb_csum_partial skb
                then (put_packet packet (pk4\<lparr>pk_flags := pk_flags pk4 OR NDIS_PROTOCOL_ID_TCP_IP\<rparr>)
                        (s4\<lparr>oob_data := (oob_data s4)(packet := oob\<lparr>csum_info := tx_csum_value (skb_protocol skb)\<rparr>)\<rparr>), packet)
                else (s4\<lparr>oob_data := (oob_data s4)(packet := oob)\<rparr>, packet)) } } } }"

definition dev_kfree_skb_any :: "ptr \<Rightarrow> 'a tx_state_scheme \<Rightarrow> 'a tx_state_scheme option" where
  "dev_kfree_skb_any k s = (if skbs s k = None then None else Some (s\<lparr>skbs := (skbs s)(k := None)\<rparr>))"

definition count_tx :: "u32 \<Rightarrow> u32 \<Rightarrow> 'a tx_state_scheme \<Rightarrow> 'a tx_state_scheme" where
  "count_tx status len s =
     (if status = NDIS_STATUS_SUCCESS then s\<lparr>tx_bytes := tx_bytes s + ucast len, tx_packets := tx_packets s + 1\<rparr>
      else s\<lparr>tx_dropped := tx_dropped s + 1\<rparr>)"

definition free_tx_packet :: "ptr \<Rightarrow> u32 \<Rightarrow> 'a tx_state_scheme \<Rightarrow> 'a tx_state_scheme option" where
  "free_tx_packet packet status s =
     do { pk \<leftarrow> packets s packet;
          let oob = oob_data s packet; s1 = count_tx status (pk_len pk) s in
     do { s2 \<leftarrow> (if sg_dma_size s1 \<noteq> 0 then free_tx_sg_list oob s1 else Some s1);
          s3 \<leftarrow> NdisFreeBuffer (buffer_head pk) s2;
          s4 \<leftarrow> dev_kfree_skb_any (tx_skb oob) s3;
          s5 \<leftarrow> NdisFreePacket packet s4;
          pool \<leftarrow> packet_pools s5 (pk_pool pk);
          Some (if queue_stopped s5 \<and> max_tx_packets s5 div 4 \<le> pp_max_descr pool - pp_num_used_descr pool
                then s5\<lparr>wakeq_pending := True\<rparr> else s5) } }"


text \<open>The part of \<^verbatim>\<open>ndis_start_device\<close> that creates the pools.  \<open>answer\<close> is what the driver answers to the query for the number of packets
  it accepts at once, if it answers; \<open>pa\<close> and \<open>ba\<close> are the addresses of the pools.\<close>

definition TX_RING_SIZE :: nat where "TX_RING_SIZE = 16"

definition max_send_packets :: "bool \<Rightarrow> u32 option \<Rightarrow> u32" where
  "max_send_packets deserialized answer =
     (if deserialized then of_nat TX_RING_SIZE
      else let n = (case answer of Some v \<Rightarrow> v | None \<Rightarrow> 1) in if n > of_nat TX_RING_SIZE then of_nat TX_RING_SIZE else n)"

definition setup_tx_pools :: "bool \<Rightarrow> u32 option \<Rightarrow> ptr \<Rightarrow> ptr \<Rightarrow> 'a tx_state_scheme \<Rightarrow> ('a tx_state_scheme \<times> u32) option" where
  "setup_tx_pools deserialized answer pa ba s =
     (let n = max_send_packets deserialized answer in
      case NdisAllocatePacketPoolEx pa n 32 s of
        (s1, status, Some pool) \<Rightarrow>
          (case NdisAllocateBufferPool ba (n + 4) s1 of
             (s2, status2, Some bpool) \<Rightarrow>
               Some (s2\<lparr>max_tx_packets := n, tx_packet_pool := pool, tx_buffer_pool := bpool\<rparr>, NDIS_STATUS_SUCCESS)
           | (s2, status2, None) \<Rightarrow>
               do { s3 \<leftarrow> NdisFreePacketPool pool s2;
                    Some (s3\<lparr>max_tx_packets := 0, tx_packet_pool := NULL, tx_buffer_pool := NULL\<rparr>, NDIS_STATUS_FAILURE) })
      | (s1, status, None) \<Rightarrow> Some (s1\<lparr>max_tx_packets := 0\<rparr>, NDIS_STATUS_FAILURE))"

section \<open>What each operation leaves alone\<close>

lemma NdisAllocateBuffer_more: "NdisAllocateBuffer wm pool virt len s = Some (s', st, p) \<Longrightarrow> nb_state.more s' = nb_state.more s"
  by (auto simp: NdisAllocateBuffer_def finish_buffer_def MmBuildMdlForNonPagedPool_def upd_mdl_def put_pool_def allocate_init_mdl_def Let_def
      split: if_splits Option.bind_splits option.splits)

lemma NdisFreeBuffer_more: "NdisFreeBuffer b s = Some s' \<Longrightarrow> nb_state.more s' = nb_state.more s"
  by (auto simp: NdisFreeBuffer_def upd_mdl_def put_pool_def release_mdl_def Let_def split: if_splits Option.bind_splits option.splits)

lemma nb_more_fields:
  assumes "nb_state.more s' = nb_state.more s"
  shows "packets s' = packets s" "packet_pools s' = packet_pools s" "np_state.more s' = np_state.more s"
  using assms by (cases s; cases s'; simp)+

lemma np_more_fields:
  assumes "np_state.more s' = np_state.more s"
  shows "tx_packet_pool s' = tx_packet_pool s" "tx_buffer_pool s' = tx_buffer_pool s" "sg_dma_size s' = sg_dma_size s"
    "max_tx_packets s' = max_tx_packets s" "oob_data s' = oob_data s" "sg_lists s' = sg_lists s" "dma_mapped s' = dma_mapped s"
    "dma_bad_unmaps s' = dma_bad_unmaps s" "skbs s' = skbs s" "queue_stopped s' = queue_stopped s" "tx_state.more s' = tx_state.more s"
    "tx_bytes s' = tx_bytes s" "tx_packets s' = tx_packets s" "tx_dropped s' = tx_dropped s" "wakeq_pending s' = wakeq_pending s"
  using assms by (cases s; cases s'; simp)+

lemma NdisAllocatePacket_frame:
  assumes "NdisAllocatePacket a pool s = Some (s', st, p)"
  shows "mdls s' = mdls s" "wrap_mdl_list s' = wrap_mdl_list s" "buffer_pools s' = buffer_pools s" "np_state.more s' = np_state.more s"
    "st = NDIS_STATUS_SUCCESS \<longleftrightarrow> p \<noteq> NULL"
  using assms by (auto simp: NdisAllocatePacket_def put_packet_def put_ppool_def Let_def split: if_splits Option.bind_splits)

lemma NdisFreePacket_frame:
  assumes "NdisFreePacket p s = Some s'"
  shows "mdls s' = mdls s" "wrap_mdl_list s' = wrap_mdl_list s" "buffer_pools s' = buffer_pools s" "np_state.more s' = np_state.more s"
  using assms by (auto simp: NdisFreePacket_def put_packet_def put_ppool_def free_stacks_def Let_def split: if_splits Option.bind_splits)

lemma NdisAllocateBuffer_status:
  "NdisAllocateBuffer wm pool virt len s = Some (s', st, b) \<Longrightarrow> st = NDIS_STATUS_SUCCESS \<longleftrightarrow> b \<noteq> NULL"
  by (auto simp: NdisAllocateBuffer_def finish_buffer_def Let_def split: if_splits Option.bind_splits prod.splits)

lemma NdisFreePacket_others: "NdisFreePacket p s = Some s' \<Longrightarrow> q \<noteq> p \<Longrightarrow> packets s' q = packets s q"
  by (auto simp: NdisFreePacket_def put_packet_def put_ppool_def free_stacks_def Let_def split: if_splits Option.bind_splits)

lemma NdisAllocatePacket_others: "NdisAllocatePacket a pool s = Some (s', st, p) \<Longrightarrow> q \<noteq> p \<Longrightarrow> packets s' q = packets s q"
  by (auto simp: NdisAllocatePacket_def put_packet_def put_ppool_def Let_def split: if_splits Option.bind_splits)

lemma bp_rep_cong: "mdls s' = mdls s \<Longrightarrow> wrap_mdl_list s' = wrap_mdl_list s \<Longrightarrow> buffer_pools s' = buffer_pools s \<Longrightarrow>
    bp_rep pool s' fs us \<longleftrightarrow> bp_rep pool s fs us"
  by (simp add: bp_rep_def)

lemma pp_rep_cong: "packets s' = packets s \<Longrightarrow> packet_pools s' = packet_pools s \<Longrightarrow> pp_rep pool s' fs us \<longleftrightarrow> pp_rep pool s fs us"
  by (simp add: pp_rep_def)

text \<open>The fields of a packet that its pool does not use may change.\<close>

lemma pp_rep_put:
  assumes "pp_rep pool s fs us" "packets s p = Some pk" "pk_pool pk' = pk_pool pk" "reserved0 pk' = reserved0 pk" "pk_size pk' = pk_size pk"
  shows "pp_rep pool (put_packet p pk' s) fs us"
proof -
  have "pk_chain ((packets s)(p \<mapsto> pk')) q xs \<longleftrightarrow> pk_chain (packets s) q xs" for q xs
    unfolding pk_chain_def by (rule chain_cong) (use assms in auto)
  moreover have "packet_ok pool len ((packets s)(p \<mapsto> pk')) q \<longleftrightarrow> packet_ok pool len (packets s) q" for len q
    using assms by (auto simp: packet_ok_def)
  ultimately show ?thesis using assms(1) by (simp add: pp_rep_def put_packet_def del: fun_upd_apply)
qed


section \<open>Packets in flight\<close>

text \<open>A packet in flight with its buffer and its socket buffer.\<close>

type_synonym flight = "ptr \<times> ptr \<times> ptr"

abbreviation fl_packet :: "flight \<Rightarrow> ptr" where "fl_packet \<equiv> fst"
abbreviation fl_buffer :: "flight \<Rightarrow> ptr" where "fl_buffer \<equiv> (\<lambda>t. fst (snd t))"
abbreviation fl_skb :: "flight \<Rightarrow> ptr" where "fl_skb \<equiv> (\<lambda>t. snd (snd t))"

text \<open>The scatter and gather list that the out-of-band data refers to is there.\<close>

definition sg_ok :: "(ptr \<Rightarrow> ndis_sg_element list option) \<Rightarrow> ndis_packet_oob_data \<Rightarrow> bool" where
  "sg_ok h oob \<longleftrightarrow> (case sg_info oob of No_Sg \<Rightarrow> False | Wrap_Sg \<Rightarrow> length (wrap_tx_sg_list oob) = 1
     | Heap_Sg a \<Rightarrow> \<exists>els. h a = Some els \<and> 2 \<le> length els)"

definition flight_ok :: "'a tx_state_scheme \<Rightarrow> flight \<Rightarrow> bool" where
  "flight_ok s t \<longleftrightarrow> skbs s (fl_skb t) \<noteq> None \<and> tx_skb (oob_data s (fl_packet t)) = fl_skb t \<and>
     (\<exists>pk. packets s (fl_packet t) = Some pk \<and> buffer_head pk = fl_buffer t) \<and>
     (sg_dma_size s \<noteq> 0 \<longrightarrow> sg_ok (sg_lists s) (oob_data s (fl_packet t)))"

text \<open>No two packets in flight share an allocated list.\<close>

definition sg_apart :: "'a tx_state_scheme \<Rightarrow> flight list \<Rightarrow> bool" where
  "sg_apart s ts \<longleftrightarrow> (\<forall>t\<in>set ts. \<forall>u\<in>set ts. \<forall>a. sg_info (oob_data s (fl_packet t)) = Heap_Sg a \<longrightarrow>
     sg_info (oob_data s (fl_packet u)) = Heap_Sg a \<longrightarrow> t = u)"

definition tx_rep :: "'a tx_state_scheme \<Rightarrow> flight list \<Rightarrow> bool" where
  "tx_rep s ts \<longleftrightarrow> (\<exists>fs. pp_rep (tx_packet_pool s) s fs (map fl_packet ts)) \<and> (\<exists>fs. bp_rep (tx_buffer_pool s) s fs (map fl_buffer ts)) \<and>
     distinct (map fl_skb ts) \<and> (\<forall>t\<in>set ts. flight_ok s t) \<and> sg_apart s ts"

lemma remove1_map: "distinct (map f ts) \<Longrightarrow> t \<in> set ts \<Longrightarrow> remove1 (f t) (map f ts) = map f (remove1 t ts)"
  by (induction ts) (auto simp: rev_image_eqI)

lemma pp_rep_distinct: "pp_rep pool s fs us \<Longrightarrow> distinct us"
  by (simp add: pp_rep_def)

lemma pp_rep_pool: "pp_rep pool s fs us \<Longrightarrow> p \<in> set us \<Longrightarrow> packets s p = Some pk \<Longrightarrow> pk_pool pk = pool"
  unfolding pp_rep_def packet_ok_def by (metis Un_iff option.inject set_append)

lemma bp_rep_distinct: "bp_rep pool s fs us \<Longrightarrow> distinct us"
  by (simp add: bp_rep_def)

lemma dma_unmap_eq: "dma_unmap e s = s\<lparr>dma_mapped := remove1 e (dma_mapped s),
    dma_bad_unmaps := (if e \<in> set (dma_mapped s) then dma_bad_unmaps s else dma_bad_unmaps s @ [e])\<rparr>"
  by (simp add: dma_unmap_def remove1_idem)

lemma unmap_loop_frame:
  "k + n \<le> length els \<Longrightarrow> \<exists>m b. unmap_loop els k n s = Some (s\<lparr>dma_mapped := m, dma_bad_unmaps := b\<rparr>)"
proof (induction n arbitrary: k s)
  case 0
  show ?case by (intro exI [of _ "dma_mapped s"] exI [of _ "dma_bad_unmaps s"]) simp
next
  case (Suc n)
  show ?case using Suc.IH [of "Suc k" "dma_unmap (els ! k) s"] Suc.prems by (auto simp: rd_def dma_unmap_eq)
qed

lemma free_tx_sg_list_frame:
  assumes "sg_ok (sg_lists s) oob"
  shows "\<exists>m b. free_tx_sg_list oob s = Some (s\<lparr>dma_mapped := m, dma_bad_unmaps := b,
    sg_lists := (case sg_info oob of Heap_Sg a \<Rightarrow> (sg_lists s)(a := None) | _ \<Rightarrow> sg_lists s)\<rparr>)"
proof -
  have d: "\<exists>m b. dma_unmap e s = s\<lparr>dma_mapped := m, dma_bad_unmaps := b\<rparr>" for e
    by (subst dma_unmap_eq) blast
  show ?thesis
  proof (cases "sg_info oob")
    case Wrap_Sg
    then obtain e where "wrap_tx_sg_list oob = [e]" using assms by (auto simp: sg_ok_def length_Suc_conv)
    moreover obtain m b where "dma_unmap e s = s\<lparr>dma_mapped := m, dma_bad_unmaps := b\<rparr>" using d by blast
    ultimately have "free_tx_sg_list oob s = Some (s\<lparr>dma_mapped := m, dma_bad_unmaps := b, sg_lists := sg_lists s\<rparr>)"
      using Wrap_Sg by (simp add: free_tx_sg_list_def rd_def)
    thus ?thesis using Wrap_Sg by auto
  next
    case (Heap_Sg a)
    then obtain els where els: "sg_lists s a = Some els" "2 \<le> length els" using assms by (auto simp: sg_ok_def)
    obtain m b where u: "dma_unmap (els ! 0) s = s\<lparr>dma_mapped := m, dma_bad_unmaps := b\<rparr>" using d by blast
    obtain m' b' where "unmap_loop els 0 (length els - 1) (s\<lparr>dma_mapped := m, dma_bad_unmaps := b\<rparr>) =
        Some (s\<lparr>dma_mapped := m', dma_bad_unmaps := b'\<rparr>)"
      using unmap_loop_frame [of 0 "length els - 1" els "s\<lparr>dma_mapped := m, dma_bad_unmaps := b\<rparr>"] by auto
    moreover have "rd els 0 = Some (els ! 0)" "length els \<noteq> 1" using els(2) by (auto simp: rd_def)
    ultimately have "free_tx_sg_list oob s = Some (s\<lparr>dma_mapped := m', dma_bad_unmaps := b', sg_lists := (sg_lists s)(a := None)\<rparr>)"
      using els Heap_Sg u by (simp add: free_tx_sg_list_def)
    thus ?thesis using Heap_Sg by auto
  qed (use assms in \<open>simp add: sg_ok_def\<close>)
qed


text \<open>What releasing the mapping leaves of the state.\<close>

definition unmapped :: "'a tx_state_scheme \<Rightarrow> ndis_packet_oob_data \<Rightarrow> ptr \<Rightarrow> ndis_sg_element list option" where
  "unmapped s oob = (if sg_dma_size s = 0 then sg_lists s else case sg_info oob of Heap_Sg a \<Rightarrow> (sg_lists s)(a := None) | _ \<Rightarrow> sg_lists s)"

lemma release_mapping:
  assumes "sg_dma_size s \<noteq> 0 \<longrightarrow> sg_ok (sg_lists s) oob"
  shows "\<exists>s2. (if sg_dma_size (count_tx st n s) \<noteq> 0 then free_tx_sg_list oob (count_tx st n s) else Some (count_tx st n s)) = Some s2 \<and>
    mdls s2 = mdls s \<and> wrap_mdl_list s2 = wrap_mdl_list s \<and> buffer_pools s2 = buffer_pools s \<and> packets s2 = packets s \<and>
    packet_pools s2 = packet_pools s \<and> skbs s2 = skbs s \<and> oob_data s2 = oob_data s \<and> sg_dma_size s2 = sg_dma_size s \<and>
    tx_packet_pool s2 = tx_packet_pool s \<and> tx_buffer_pool s2 = tx_buffer_pool s \<and> tx_state.more s2 = tx_state.more s \<and>
    sg_lists s2 = unmapped s oob \<and> queue_stopped s2 = queue_stopped s \<and> max_tx_packets s2 = max_tx_packets s"
proof (cases "sg_dma_size s = 0")
  case True
  thus ?thesis by (simp add: count_tx_def unmapped_def)
next
  case False
  hence "sg_ok (sg_lists (count_tx st n s)) oob" using assms by (simp add: count_tx_def)
  from free_tx_sg_list_frame [OF this] obtain m b where f: "free_tx_sg_list oob (count_tx st n s) = Some (count_tx st n s\<lparr>dma_mapped := m,
    dma_bad_unmaps := b, sg_lists := (case sg_info oob of Heap_Sg a \<Rightarrow> (sg_lists (count_tx st n s))(a := None) | _ \<Rightarrow> sg_lists (count_tx st n s))\<rparr>)"
    by blast
  show ?thesis unfolding f using False by (simp add: count_tx_def unmapped_def split: sg_ref.split)
qed

text \<open>Releasing a packet in flight returns its descriptors to the pools and frees its socket buffer, once.\<close>

lemma free_tx_packet_rep:
  assumes "tx_rep s ts" "t \<in> set ts"
  shows "\<exists>s'. free_tx_packet (fl_packet t) st s = Some s' \<and> tx_rep s' (remove1 t ts) \<and> skbs s' = (skbs s)(fl_skb t := None) \<and>
    tx_state.more s' = tx_state.more s \<and> sg_dma_size s' = sg_dma_size s \<and> tx_packet_pool s' = tx_packet_pool s \<and>
    tx_buffer_pool s' = tx_buffer_pool s"
proof -
  let ?p = "fl_packet t" and ?oob = "oob_data s (fl_packet t)"
  from assms obtain pfs bfs where r: "pp_rep (tx_packet_pool s) s pfs (map fl_packet ts)" "bp_rep (tx_buffer_pool s) s bfs (map fl_buffer ts)"
    and ds: "distinct (map fl_skb ts)" and ok: "\<forall>t\<in>set ts. flight_ok s t" and ap: "sg_apart s ts" by (auto simp: tx_rep_def)
  have ft: "flight_ok s t" using ok assms(2) by blast
  then obtain pk where pk: "packets s ?p = Some pk" "buffer_head pk = fl_buffer t" by (auto simp: flight_ok_def)
  have pool: "pk_pool pk = tx_packet_pool s" using pp_rep_pool [OF r(1) _ pk(1)] assms(2) by simp
  have "sg_dma_size s \<noteq> 0 \<longrightarrow> sg_ok (sg_lists s) ?oob" using ft by (simp add: flight_ok_def)
  from release_mapping [OF this, of st "pk_len pk"] obtain s2 where
    e2: "(if sg_dma_size (count_tx st (pk_len pk) s) \<noteq> 0 then free_tx_sg_list ?oob (count_tx st (pk_len pk) s) else Some (count_tx st (pk_len pk) s)) = Some s2"
    and f2: "mdls s2 = mdls s" "wrap_mdl_list s2 = wrap_mdl_list s" "buffer_pools s2 = buffer_pools s" "packets s2 = packets s"
      "packet_pools s2 = packet_pools s" "skbs s2 = skbs s" "oob_data s2 = oob_data s" "sg_dma_size s2 = sg_dma_size s"
      "tx_packet_pool s2 = tx_packet_pool s" "tx_buffer_pool s2 = tx_buffer_pool s" "tx_state.more s2 = tx_state.more s"
      "sg_lists s2 = unmapped s ?oob"
    by blast
  have "bp_rep (tx_buffer_pool s) s2 bfs (map fl_buffer ts)" using r(2) bp_rep_cong [OF f2(1-3)] by simp
  from NdisFreeBuffer_rep [OF this, of "fl_buffer t"] assms(2) obtain s3 bfs' where
    e3: "NdisFreeBuffer (fl_buffer t) s2 = Some s3" "bp_rep (tx_buffer_pool s) s3 bfs' (remove1 (fl_buffer t) (map fl_buffer ts))" by auto
  note f3 = NdisFreeBuffer_more [OF e3(1)]
  note f3' = nb_more_fields [OF f3] np_more_fields [OF nb_more_fields(3) [OF f3]]
  define s4 where "s4 = s3\<lparr>skbs := (skbs s3)(fl_skb t := None)\<rparr>"
  have e4: "dev_kfree_skb_any (fl_skb t) s3 = Some s4"
    using ft f2(6) f3' by (auto simp: dev_kfree_skb_any_def s4_def flight_ok_def)
  have "pp_rep (tx_packet_pool s) s4 pfs (map fl_packet ts)"
    using r(1) by (subst pp_rep_cong [of s4 s]) (simp_all add: s4_def f3' f2)
  from NdisFreePacket_rep [OF this, of ?p] assms(2) obtain s5 pfs' where
    e5: "NdisFreePacket ?p s4 = Some s5" "pp_rep (tx_packet_pool s) s5 pfs' (remove1 ?p (map fl_packet ts))" by auto
  note f5 = NdisFreePacket_frame [OF e5(1)] and f5' = np_more_fields [OF NdisFreePacket_frame(4) [OF e5(1)]]
  obtain pool5 where p5: "packet_pools s5 (tx_packet_pool s) = Some pool5" using e5(2) by (auto simp: pp_rep_def)
  define s6 where "s6 = (if queue_stopped s5 \<and> max_tx_packets s5 div 4 \<le> pp_max_descr pool5 - pp_num_used_descr pool5
      then s5\<lparr>wakeq_pending := True\<rparr> else s5)"
  have run: "free_tx_packet ?p st s = Some s6"
    using pk pool e2 e3(1) e4 e5(1) p5 ft by (simp add: free_tx_packet_def s6_def flight_ok_def)
  have g: "packets s6 = packets s5" "skbs s6 = (skbs s)(fl_skb t := None)" "oob_data s6 = oob_data s" "sg_lists s6 = unmapped s ?oob"
    "tx_state.more s6 = tx_state.more s" "sg_dma_size s6 = sg_dma_size s" "tx_packet_pool s6 = tx_packet_pool s" "tx_buffer_pool s6 = tx_buffer_pool s"
    by (simp_all add: s6_def f5' s4_def f3' f2)
  have po: "packets s6 q = packets s q" if "q \<noteq> ?p" for q
    using NdisFreePacket_others [OF e5(1) that] by (simp add: g(1) s4_def f3' f2)
  have d: "distinct (map fl_packet ts)" using r(1) by (rule pp_rep_distinct)
  have "distinct ts" using ds by (simp add: distinct_map)
  have rest: "u \<in> set ts \<and> u \<noteq> t \<and> fl_packet u \<noteq> ?p \<and> fl_skb u \<noteq> fl_skb t" if "u \<in> set (remove1 t ts)" for u
    using that d ds assms(2) \<open>distinct ts\<close> by (auto simp: distinct_map dest: inj_onD)
  have "pp_rep (tx_packet_pool s6) s6 pfs' (map fl_packet (remove1 t ts))"
    unfolding g(7) using e5(2) d assms(2) by (subst pp_rep_cong [of s6 s5]) (auto simp: remove1_map s6_def)
  moreover have "bp_rep (tx_buffer_pool s6) s6 bfs' (map fl_buffer (remove1 t ts))"
    unfolding g(8) using e3(2) remove1_map [OF bp_rep_distinct [OF r(2)] assms(2)] by (subst bp_rep_cong [of s6 s3]) (auto simp: s6_def f5 s4_def)
  moreover have "flight_ok s6 u" if "u \<in> set (remove1 t ts)" for u
  proof -
    have u: "flight_ok s u" "fl_packet u \<noteq> ?p" "fl_skb u \<noteq> fl_skb t" "u \<in> set ts" "u \<noteq> t" using rest [OF that] ok by auto
    have "sg_dma_size s \<noteq> 0 \<longrightarrow> sg_ok (unmapped s ?oob) (oob_data s (fl_packet u))"
      using u(1,4,5) ap assms(2) by (auto simp: flight_ok_def sg_ok_def unmapped_def sg_apart_def split: sg_ref.splits)
    thus ?thesis using u(1-3) po [OF u(2)] by (auto simp: flight_ok_def g(2-6))
  qed
  moreover have "distinct (map fl_skb (remove1 t ts))"
    using remove1_map [OF ds assms(2)] distinct_remove1 [OF ds, of "fl_skb t"] by simp
  moreover have "sg_apart s6 (remove1 t ts)" using ap rest unfolding sg_apart_def g(3) by metis
  ultimately have "tx_rep s6 (remove1 t ts)" by (auto simp: tx_rep_def)
  thus ?thesis using run g by blast
qed


text \<open>The elements that a socket buffer is mapped to.\<close>

definition frag_elements :: "(ptr \<Rightarrow> u32 \<Rightarrow> u64) \<Rightarrow> (ptr \<times> u32) list \<Rightarrow> ndis_sg_element list" where
  "frag_elements dma fr = map (\<lambda>(p, n). \<lparr>sg_address = dma p n, sg_length = n\<rparr>) fr"

definition skb_elements :: "(ptr \<Rightarrow> u32 \<Rightarrow> u64) \<Rightarrow> sk_buff \<Rightarrow> ndis_sg_element list" where
  "skb_elements dma skb = (if length (skb_frags skb) \<le> 1 then frag_elements dma [(skb_data skb, skb_len skb)]
     else frag_elements dma ((skb_data skb, skb_headlen skb) # skb_frags skb))"

lemma map_frags_eq: "map_frags dma fr s = (s\<lparr>dma_mapped := dma_mapped s @ frag_elements dma fr\<rparr>, frag_elements dma fr)"
  by (induction fr arbitrary: s) (auto simp: dma_map_single_def Let_def frag_elements_def)

text \<open>Setting up the mapping changes only the mappings and the lists.\<close>

lemma setup_tx_sg_list_eq:
  "setup_tx_sg_list dma sa skb oob s =
    (if 1 < length (skb_frags skb) \<and> sa = NULL then (s, oob, False)
     else (s\<lparr>dma_mapped := dma_mapped s @ skb_elements dma skb,
             sg_lists := (if length (skb_frags skb) \<le> 1 then sg_lists s else (sg_lists s)(sa \<mapsto> skb_elements dma skb))\<rparr>,
           if length (skb_frags skb) \<le> 1 then oob\<lparr>wrap_tx_sg_list := skb_elements dma skb, sg_info := Wrap_Sg\<rparr> else oob\<lparr>sg_info := Heap_Sg sa\<rparr>, True))"
  by (auto simp: setup_tx_sg_list_def dma_map_single_def Let_def map_frags_eq skb_elements_def frag_elements_def)

lemma setup_tx_sg_list_frame:
  assumes "setup_tx_sg_list dma sa skb oob s = (s', oob', ok)"
  shows "\<exists>m l. s' = s\<lparr>dma_mapped := m, sg_lists := l\<rparr> \<and> (\<forall>a. a \<noteq> sa \<longrightarrow> l a = sg_lists s a) \<and> tx_skb oob' = tx_skb oob \<and>
    (ok \<longrightarrow> sg_ok l oob' \<and> sg_info oob' \<in> {Wrap_Sg, Heap_Sg sa}) \<and> (\<not> ok \<longrightarrow> l = sg_lists s)"
proof (cases "1 < length (skb_frags skb) \<and> sa = NULL")
  case True
  thus ?thesis using assms by (intro exI [of _ "dma_mapped s"] exI [of _ "sg_lists s"]) (auto simp: setup_tx_sg_list_eq)
next
  case False
  have "length (skb_elements dma skb) = (if length (skb_frags skb) \<le> 1 then 1 else Suc (length (skb_frags skb)))"
    by (simp add: skb_elements_def frag_elements_def)
  moreover define l where "l = (if length (skb_frags skb) \<le> 1 then sg_lists s else (sg_lists s)(sa \<mapsto> skb_elements dma skb))"
  moreover have "s' = s\<lparr>dma_mapped := dma_mapped s @ skb_elements dma skb, sg_lists := l\<rparr>" "ok"
    "oob' = (if length (skb_frags skb) \<le> 1 then oob\<lparr>wrap_tx_sg_list := skb_elements dma skb, sg_info := Wrap_Sg\<rparr> else oob\<lparr>sg_info := Heap_Sg sa\<rparr>)"
    using assms False unfolding setup_tx_sg_list_eq l_def by auto
  ultimately show ?thesis
    by (intro exI [of _ "dma_mapped s @ skb_elements dma skb"] exI [of _ l]) (simp add: sg_ok_def)
qed

text \<open>Packets in flight are not touched by a change of the pools that keeps their fields.\<close>

lemma flights_frame:
  assumes "tx_rep s ts"
    and "\<And>u. u \<in> set ts \<Longrightarrow> packets s' (fl_packet u) = packets s (fl_packet u) \<and> oob_data s' (fl_packet u) = oob_data s (fl_packet u)"
    and "skbs s' = skbs s" "sg_dma_size s' = sg_dma_size s" "\<And>a. sg_lists s a \<noteq> None \<Longrightarrow> sg_lists s' a = sg_lists s a"
  shows "(\<forall>u\<in>set ts. flight_ok s' u) \<and> sg_apart s' ts"
proof -
  have "sg_ok (sg_lists s) oob \<Longrightarrow> sg_ok (sg_lists s') oob" for oob
    using assms(5) by (fastforce simp: sg_ok_def split: sg_ref.splits)
  hence "flight_ok s u \<Longrightarrow> u \<in> set ts \<Longrightarrow> flight_ok s' u" for u using assms(2) [of u] by (simp add: flight_ok_def assms(3,4))
  moreover have "sg_apart s' ts"
  proof -
    have "sg_info (oob_data s' (fl_packet u)) = sg_info (oob_data s (fl_packet u))" if "u \<in> set ts" for u using assms(2) [OF that] by simp
    thus ?thesis using assms(1) unfolding tx_rep_def sg_apart_def by metis
  qed
  ultimately show ?thesis using assms(1) by (auto simp: tx_rep_def)
qed

lemma tx_rep_frame:
  assumes "tx_rep s ts" "pp_rep (tx_packet_pool s') s' pfs (map fl_packet ts)" "bp_rep (tx_buffer_pool s') s' bfs (map fl_buffer ts)"
    and "\<And>u. u \<in> set ts \<Longrightarrow> packets s' (fl_packet u) = packets s (fl_packet u) \<and> oob_data s' (fl_packet u) = oob_data s (fl_packet u)"
    and "skbs s' = skbs s" "sg_dma_size s' = sg_dma_size s" "\<And>a. sg_lists s a \<noteq> None \<Longrightarrow> sg_lists s' a = sg_lists s a"
  shows "tx_rep s' ts"
  using flights_frame [of s ts s', OF assms(1,4-7)] assms(1-3) by (auto simp: tx_rep_def)

lemma sg_apart_Cons:
  assumes "sg_apart s ts" "\<And>u a. u \<in> set ts \<Longrightarrow> sg_info (oob_data s (fl_packet t)) = Heap_Sg a \<Longrightarrow> sg_info (oob_data s (fl_packet u)) \<noteq> Heap_Sg a"
  shows "sg_apart s (t # ts)"
  using assms unfolding sg_apart_def by (metis set_ConsD)

text \<open>A packet joins the packets in flight.\<close>

lemma tx_rep_join:
  assumes "tx_rep s ts" "pp_rep (tx_packet_pool s') s' pfs (p # map fl_packet ts)" "bp_rep (tx_buffer_pool s') s' bfs (b # map fl_buffer ts)"
    and "\<And>u. u \<in> set ts \<Longrightarrow> packets s' (fl_packet u) = packets s (fl_packet u) \<and> oob_data s' (fl_packet u) = oob_data s (fl_packet u)"
    and "skbs s' = skbs s" "sg_dma_size s' = sg_dma_size s" "\<And>a. a \<noteq> sa \<Longrightarrow> sg_lists s' a = sg_lists s a" "sg_lists s sa = None"
    and "flight_ok s' (p, b, k)" "k \<notin> fl_skb ` set ts" "sg_info (oob_data s' p) \<in> {No_Sg, Wrap_Sg, Heap_Sg sa}" "sg_dma_size s = 0 \<longrightarrow> sg_info (oob_data s' p) = No_Sg"
  shows "tx_rep s' ((p, b, k) # ts)"
proof -
  have f: "(\<forall>u\<in>set ts. flight_ok s' u) \<and> sg_apart s' ts"
  proof (rule flights_frame [OF assms(1,4-6)])
    show "sg_lists s' a = sg_lists s a" if "sg_lists s a \<noteq> None" for a using assms(7) [of a] assms(8) that by (cases "a = sa") auto
  qed
  have "sg_info (oob_data s' (fl_packet u)) \<noteq> Heap_Sg sa \<or> sg_dma_size s = 0" if "u \<in> set ts" for u
    using assms(1,4,8) that by (fastforce simp: tx_rep_def flight_ok_def sg_ok_def)
  hence "sg_info (oob_data s' (fl_packet u)) \<noteq> Heap_Sg a" if "u \<in> set ts" "sg_info (oob_data s' p) = Heap_Sg a" for u a
    using that assms(11,12) by auto
  hence "sg_apart s' ((p, b, k) # ts)" using f by (intro sg_apart_Cons) auto
  thus ?thesis using f assms(1-3,9,10) by (auto simp: tx_rep_def)
qed

lemma mapping_frame:
  assumes "(if sg_dma_size s \<noteq> 0 then setup_tx_sg_list dma sa skb (zero_oob\<lparr>tx_skb := k\<rparr>) s else (s, zero_oob\<lparr>tx_skb := k\<rparr>, True)) = (s', oob, ok)"
  shows "\<exists>m l. s' = s\<lparr>dma_mapped := m, sg_lists := l\<rparr> \<and> (\<forall>a. a \<noteq> sa \<longrightarrow> l a = sg_lists s a) \<and> tx_skb oob = k \<and>
    (ok \<longrightarrow> (sg_dma_size s \<noteq> 0 \<longrightarrow> sg_ok l oob) \<and> sg_info oob \<in> {No_Sg, Wrap_Sg, Heap_Sg sa}) \<and> (\<not> ok \<longrightarrow> l = sg_lists s)"
proof (cases "sg_dma_size s = 0")
  case True
  thus ?thesis using assms by (intro exI [of _ "dma_mapped s"] exI [of _ "sg_lists s"]) (auto simp: zero_oob_def)
next
  case False
  thus ?thesis using setup_tx_sg_list_frame [of dma sa skb "zero_oob\<lparr>tx_skb := k\<rparr>" s s' oob ok] assms by simp blast
qed

text \<open>Allocating a packet for a socket buffer either leaves the packets in flight as they are or adds one.\<close>

lemma alloc_tx_packet_rep:
  assumes "tx_rep s ts" "packet_fresh pa s" "mdl_fresh wm s" "skbs s k = Some skb" "k \<notin> fl_skb ` set ts" "sg_lists s sa = None"
    and "unat (SPAN_PAGES (skb_data skb) (ucast (skb_len skb))) \<le> MDL_CACHE_PAGES"
  shows "\<exists>s' p. alloc_tx_packet dma pa wm sa k s = Some (s', p) \<and> skbs s' = skbs s \<and> tx_state.more s' = tx_state.more s \<and>
    sg_dma_size s' = sg_dma_size s \<and> (if p = NULL then tx_rep s' ts else \<exists>b. tx_rep s' ((p, b, k) # ts))"
proof -
  from assms(1) obtain pfs bfs where r: "pp_rep (tx_packet_pool s) s pfs (map fl_packet ts)" "bp_rep (tx_buffer_pool s) s bfs (map fl_buffer ts)"
    by (auto simp: tx_rep_def)
  from NdisAllocatePacket_rep [OF r(1) assms(2)] obtain s1 st1 p where e1: "NdisAllocatePacket pa (tx_packet_pool s) s = Some (s1, st1, p)"
    and c1: "p = NULL \<and> s1 = s \<or> p \<noteq> NULL \<and> pp_rep (tx_packet_pool s) s1 (tl pfs) (p # map fl_packet ts)" by blast
  note f1 = NdisAllocatePacket_frame [OF e1] and f1' = np_more_fields [OF NdisAllocatePacket_frame(4) [OF e1]]
  show ?thesis
  proof (cases "p = NULL")
    case True
    thus ?thesis using e1 c1 f1(5) assms(1) by (auto simp: alloc_tx_packet_def)
  next
    case False
    hence p1: "pp_rep (tx_packet_pool s) s1 (tl pfs) (p # map fl_packet ts)" using c1 by blast
    hence pn: "fl_packet u \<noteq> p" if "u \<in> set ts" for u using that by (auto simp: pp_rep_def)
    hence o1: "packets s1 (fl_packet u) = packets s (fl_packet u)" if "u \<in> set ts" for u using NdisAllocatePacket_others [OF e1] that by blast
    have b1: "bp_rep (tx_buffer_pool s) s1 bfs (map fl_buffer ts)" "mdl_fresh wm s1"
      using r(2) assms(3) f1 by (auto simp: bp_rep_cong [OF f1(1-3)] mdl_fresh_def)
    let ?r = "(skb_data skb, skb_len skb)"
    from bufpool.alloc_returns [OF b1, of ?r] assms(7) obtain s2 st2 b where
      e2: "NdisAllocateBuffer wm (tx_buffer_pool s) (skb_data skb) (skb_len skb) s1 = Some (s2, st2, b)" by (auto simp: alloc_buffer_def)
    hence a2: "alloc_buffer (tx_buffer_pool s) ?r wm s1 = Some (s2, b)" by (simp add: alloc_buffer_def)
    note f2 = NdisAllocateBuffer_more [OF e2]
    note f2' = nb_more_fields [OF f2] np_more_fields [OF nb_more_fields(3) [OF f2]]
    have p2: "pp_rep (tx_packet_pool s) s2 (tl pfs) (p # map fl_packet ts)" using p1 pp_rep_cong [OF f2'(1,2)] by blast
    note st2 = NdisAllocateBuffer_status [OF e2]
    show ?thesis
    proof (cases "b = NULL")
      case True
      hence b2: "bp_rep (tx_buffer_pool s) s2 bfs (map fl_buffer ts)" using bufpool.alloc_law [OF b1 a2] by simp
      from NdisFreePacket_rep [OF p2, of p] obtain s3 pfs' where e3: "NdisFreePacket p s2 = Some s3" "pp_rep (tx_packet_pool s) s3 pfs' (map fl_packet ts)"
        by auto
      note f3 = NdisFreePacket_frame [OF e3(1)] and f3' = np_more_fields [OF NdisFreePacket_frame(4) [OF e3(1)]]
      have "tx_rep s3 ts"
      proof (rule tx_rep_frame [OF assms(1)])
        show "pp_rep (tx_packet_pool s3) s3 pfs' (map fl_packet ts)" using e3(2) by (simp add: f3' f2' f1')
        show "bp_rep (tx_buffer_pool s3) s3 bfs (map fl_buffer ts)" using b2 bp_rep_cong [OF f3(1-3)] by (simp add: f3' f2' f1')
      qed (auto simp: f3' f2' f1' o1 pn NdisFreePacket_others [OF e3(1)])
      thus ?thesis using e1 e2 e3(1) f1(5) f1' f2' f3' st2 True False assms(4) by (auto simp: alloc_tx_packet_def)
    next
      case bn: False
      then obtain bfs' where b2: "bp_rep (tx_buffer_pool s) s2 bfs' (b # map fl_buffer ts)" using bufpool.alloc_law [OF b1 a2] by blast
      obtain pk where pk: "packets s2 p = Some pk" using p2 by (auto simp: pp_rep_def packet_ok_def)
      define s3 where "s3 = put_packet p (pk\<lparr>buffer_head := b, buffer_tail := b\<rparr>) s2"
      have p3: "pp_rep (tx_packet_pool s) s3 (tl pfs) (p # map fl_packet ts)" unfolding s3_def using p2 pk by (rule pp_rep_put) simp_all
      have f3: "mdls s3 = mdls s2" "wrap_mdl_list s3 = wrap_mdl_list s2" "buffer_pools s3 = buffer_pools s2" "np_state.more s3 = np_state.more s2"
        by (simp_all add: s3_def put_packet_def)
      note f3' = np_more_fields [OF f3(4)]
      obtain s4 oob ok where m: "(if sg_dma_size s3 \<noteq> 0 then setup_tx_sg_list dma sa skb (zero_oob\<lparr>tx_skb := k\<rparr>) s3 else (s3, zero_oob\<lparr>tx_skb := k\<rparr>, True)) = (s4, oob, ok)"
        by (meson prod_cases3)
      from mapping_frame [OF m] obtain dm l where s4: "s4 = s3\<lparr>dma_mapped := dm, sg_lists := l\<rparr>" "\<forall>a. a \<noteq> sa \<longrightarrow> l a = sg_lists s3 a" "tx_skb oob = k"
        "ok \<Longrightarrow> (sg_dma_size s3 \<noteq> 0 \<longrightarrow> sg_ok l oob) \<and> sg_info oob \<in> {No_Sg, Wrap_Sg, Heap_Sg sa}" "\<not> ok \<Longrightarrow> l = sg_lists s3" by blast
      have p4: "pp_rep (tx_packet_pool s) s4 (tl pfs) (p # map fl_packet ts)" "bp_rep (tx_buffer_pool s) s4 bfs' (b # map fl_buffer ts)"
        using p3 b2 pp_rep_cong [of s4 s3] bp_rep_cong [of s4 s2] by (simp_all add: s4(1) f3)
      show ?thesis
      proof (cases ok)
        case no: False
        from NdisFreeBuffer_rep [OF p4(2), of b] obtain s5 bfs5 where e5: "NdisFreeBuffer b s4 = Some s5" "bp_rep (tx_buffer_pool s) s5 bfs5 (map fl_buffer ts)"
          by auto
        note f5 = NdisFreeBuffer_more [OF e5(1)]
        note f5' = nb_more_fields [OF f5] np_more_fields [OF nb_more_fields(3) [OF f5]]
        have "pp_rep (tx_packet_pool s) s5 (tl pfs) (p # map fl_packet ts)" using p4(1) pp_rep_cong [OF f5'(1,2)] by blast
        from NdisFreePacket_rep [OF this, of p] obtain s6 pfs6 where e6: "NdisFreePacket p s5 = Some s6" "pp_rep (tx_packet_pool s) s6 pfs6 (map fl_packet ts)"
          by auto
        note f6 = NdisFreePacket_frame [OF e6(1)] and f6' = np_more_fields [OF NdisFreePacket_frame(4) [OF e6(1)]]
        have "tx_rep s6 ts"
        proof (rule tx_rep_frame [OF assms(1)])
          show "pp_rep (tx_packet_pool s6) s6 pfs6 (map fl_packet ts)" using e6(2) by (simp add: f6' f5' s4(1) f3' f2' f1')
          show "bp_rep (tx_buffer_pool s6) s6 bfs5 (map fl_buffer ts)" using e5(2) bp_rep_cong [OF f6(1-3)] by (simp add: f6' f5' s4(1) f3' f2' f1')
        qed (auto simp: f6' f5' s4(1) s4(5) [OF no] f3' f2' f1' o1 pn NdisFreePacket_others [OF e6(1)] s3_def put_packet_def)
        moreover have "alloc_tx_packet dma pa wm sa k s = Some (s6, NULL)"
          using e1 e2 e5(1) e6(1) f1(5) f1' st2 bn False assms(4) pk m no by (simp add: alloc_tx_packet_def s3_def [symmetric])
        ultimately show ?thesis by (simp add: f6' f5' s4(1) f3' f2' f1')
      next
        case yes: True
        define s' where "s' = (if skb_csum_partial skb
          then put_packet p (pk\<lparr>buffer_head := b, buffer_tail := b, pk_flags := pk_flags pk OR NDIS_PROTOCOL_ID_TCP_IP\<rparr>)
                 (s4\<lparr>oob_data := (oob_data s4)(p := oob\<lparr>csum_info := tx_csum_value (skb_protocol skb)\<rparr>)\<rparr>)
          else s4\<lparr>oob_data := (oob_data s4)(p := oob)\<rparr>)"
        have pk4: "packets s4 p = Some (pk\<lparr>buffer_head := b, buffer_tail := b\<rparr>)" by (simp add: s4(1) s3_def put_packet_def)
        have run: "alloc_tx_packet dma pa wm sa k s = Some (s', p)"
          using e1 e2 f1(5) f1' st2 bn False assms(4) pk m yes pk4 by (simp add: alloc_tx_packet_def s3_def [symmetric] s'_def)
        have g: "skbs s' = skbs s" "sg_dma_size s' = sg_dma_size s" "tx_state.more s' = tx_state.more s" "tx_packet_pool s' = tx_packet_pool s"
          "tx_buffer_pool s' = tx_buffer_pool s" "sg_lists s' = l" "mdls s' = mdls s4" "wrap_mdl_list s' = wrap_mdl_list s4" "buffer_pools s' = buffer_pools s4"
          by (simp_all add: s'_def put_packet_def s4(1) f3' f2' f1')
        have go: "oob_data s' p = (if skb_csum_partial skb then oob\<lparr>csum_info := tx_csum_value (skb_protocol skb)\<rparr> else oob)"
          "\<exists>pk. packets s' p = Some pk \<and> buffer_head pk = b" using pk4 by (simp_all add: s'_def put_packet_def)
        have "tx_rep s' ((p, b, k) # ts)"
        proof (rule tx_rep_join [OF assms(1)])
          show "pp_rep (tx_packet_pool s') s' (tl pfs) (p # map fl_packet ts)"
          proof (cases "skb_csum_partial skb")
            case True
            have "pp_rep (tx_packet_pool s) (s4\<lparr>oob_data := x\<rparr>) (tl pfs) (p # map fl_packet ts)" for x
              using p4(1) pp_rep_cong [of "s4\<lparr>oob_data := x\<rparr>" s4] by simp
            from pp_rep_put [OF this] pk4 True show ?thesis by (simp add: g(4)) (simp add: s'_def)
          next
            case False
            thus ?thesis using p4(1) pp_rep_cong [of s' s4] by (simp add: g(4)) (simp add: s'_def)
          qed
          show "bp_rep (tx_buffer_pool s') s' bfs' (b # map fl_buffer ts)" using p4(2) bp_rep_cong [OF g(7-9)] by (simp add: g)
          show "flight_ok s' (p, b, k)" using go s4(3,4) yes assms(4) by (auto simp: flight_ok_def g sg_ok_def f3' f2' f1')
          show "sg_info (oob_data s' p) \<in> {No_Sg, Wrap_Sg, Heap_Sg sa}" using go(1) s4(4) [OF yes] by auto
          show "sg_dma_size s = 0 \<longrightarrow> sg_info (oob_data s' p) = No_Sg" using m go(1) by (auto simp: f3' f2' f1' zero_oob_def)
        qed (use assms s4(2) in \<open>auto simp: g f3' f2' f1' s'_def put_packet_def pn o1 s4(1) s3_def\<close>)
        thus ?thesis using run g False by auto
      qed
    qed
  qed
qed


text \<open>Fields that a record extending the state adds are kept by both operations.\<close>

lemma unmap_loop_more: "unmap_loop els k n s = Some s' \<Longrightarrow> tx_state.more s' = tx_state.more s \<and> max_tx_packets s' = max_tx_packets s"
proof (induction n arbitrary: k s)
  case (Suc n)
  from Suc.prems obtain e where "unmap_loop els (Suc k) n (dma_unmap e s) = Some s'" by (auto split: Option.bind_splits)
  from Suc.IH [OF this] show ?case by (simp add: dma_unmap_eq)
qed simp

lemma free_tx_sg_list_more: "free_tx_sg_list oob s = Some s' \<Longrightarrow> tx_state.more s' = tx_state.more s \<and> max_tx_packets s' = max_tx_packets s"
  by (auto simp: free_tx_sg_list_def Let_def dma_unmap_eq dest!: unmap_loop_more split: Option.bind_splits if_splits sg_ref.splits)

lemma free_tx_packet_more:
  assumes "free_tx_packet p st s = Some s'"
  shows "tx_state.more s' = tx_state.more s \<and> max_tx_packets s' = max_tx_packets s"
proof -
  obtain pk where pk: "packets s p = Some pk" using assms by (cases "packets s p") (auto simp: free_tx_packet_def)
  define s1 where "s1 = count_tx st (pk_len pk) s"
  have c: "tx_state.more s1 = tx_state.more s" "max_tx_packets s1 = max_tx_packets s" by (simp_all add: s1_def count_tx_def)
  note run = assms [unfolded free_tx_packet_def pk, simplified, folded s1_def, unfolded Let_def]
  obtain a1 where a1: "(if sg_dma_size s1 \<noteq> 0 then free_tx_sg_list (oob_data s p) s1 else Some s1) = Some a1"
    using run by (cases "if sg_dma_size s1 \<noteq> 0 then free_tx_sg_list (oob_data s p) s1 else Some s1") (auto simp: s1_def)
  have m1: "tx_state.more a1 = tx_state.more s1" "max_tx_packets a1 = max_tx_packets s1"
    using a1 free_tx_sg_list_more [of "oob_data s p" s1 a1] by (auto split: if_splits)
  obtain a2 where a2: "NdisFreeBuffer (buffer_head pk) a1 = Some a2"
    using run a1 by (cases "NdisFreeBuffer (buffer_head pk) a1") (auto simp: s1_def)
  obtain a3 where a3: "dev_kfree_skb_any (tx_skb (oob_data s p)) a2 = Some a3"
    using run a1 a2 by (cases "dev_kfree_skb_any (tx_skb (oob_data s p)) a2") (auto simp: s1_def)
  obtain a4 where a4: "NdisFreePacket p a3 = Some a4" using run a1 a2 a3 by (cases "NdisFreePacket p a3") (auto simp: s1_def)
  have "tx_state.more s' = tx_state.more a4" "max_tx_packets s' = max_tx_packets a4"
    using run a1 a2 a3 a4 by (auto simp: s1_def split: if_splits Option.bind_splits)
  moreover have "tx_state.more a3 = tx_state.more a2" "max_tx_packets a3 = max_tx_packets a2"
    using a3 by (auto simp: dev_kfree_skb_any_def split: if_splits)
  moreover note np_more_fields(4,11) [OF nb_more_fields(3) [OF NdisFreeBuffer_more [OF a2]]] np_more_fields(4,11) [OF NdisFreePacket_frame(4) [OF a4]]
  ultimately show ?thesis using m1 c by simp
qed

lemma put_packet_more: "tx_state.more (put_packet q pk s) = tx_state.more s" "max_tx_packets (put_packet q pk s) = max_tx_packets s"
  by (simp_all add: put_packet_def)

lemma alloc_tx_packet_more:
  assumes "alloc_tx_packet dma pa wm sa k s = Some (s', p)"
  shows "tx_state.more s' = tx_state.more s \<and> max_tx_packets s' = max_tx_packets s"
proof -
  from assms obtain a1 st1 q where e1: "NdisAllocatePacket pa (tx_packet_pool s) s = Some (a1, st1, q)"
    by (auto simp: alloc_tx_packet_def Let_def split: if_splits Option.bind_splits prod.splits)
  note f1 = np_more_fields(4,11) [OF NdisAllocatePacket_frame(4) [OF e1]]
  show ?thesis
  proof (cases "st1 = NDIS_STATUS_SUCCESS")
    case False
    thus ?thesis using assms e1 f1 by (auto simp: alloc_tx_packet_def)
  next
    case True
    from assms e1 True obtain skb a2 st2 b where e2: "skbs a1 k = Some skb" "NdisAllocateBuffer wm (tx_buffer_pool a1) (skb_data skb) (skb_len skb) a1 = Some (a2, st2, b)"
      by (auto simp: alloc_tx_packet_def Let_def split: if_splits Option.bind_splits)
    note f2 = np_more_fields(4,11) [OF nb_more_fields(3) [OF NdisAllocateBuffer_more [OF e2(2)]]]
    show ?thesis
    proof (cases "st2 = NDIS_STATUS_SUCCESS")
      case False
      then obtain a3 where "NdisFreePacket q a2 = Some a3" "s' = a3" using assms e1 e2 True
        by (auto simp: alloc_tx_packet_def split: Option.bind_splits)
      thus ?thesis using f1 f2 np_more_fields(4,11) [OF NdisFreePacket_frame(4)] by metis
    next
      case ok2: True
      obtain pk where pk: "packets a2 q = Some pk" using assms e1 e2 True ok2 by (cases "packets a2 q") (auto simp: alloc_tx_packet_def)
      define a3 where "a3 = put_packet q (pk\<lparr>buffer_head := b, buffer_tail := b\<rparr>) a2"
      have f3: "tx_state.more a3 = tx_state.more a2" "max_tx_packets a3 = max_tx_packets a2" by (simp_all add: a3_def put_packet_def)
      obtain a4 oob ok where m: "(if sg_dma_size a3 \<noteq> 0 then setup_tx_sg_list dma sa skb (zero_oob\<lparr>tx_skb := k\<rparr>) a3 else (a3, zero_oob\<lparr>tx_skb := k\<rparr>, True)) = (a4, oob, ok)"
        by (meson prod_cases3)
      from mapping_frame [OF m] have f4: "tx_state.more a4 = tx_state.more a3" "max_tx_packets a4 = max_tx_packets a3" by auto
      show ?thesis
      proof (cases ok)
        case True
        thus ?thesis using assms e1 e2 ok2 \<open>st1 = 0\<close> pk m f1 f2 f3 f4
          by (auto simp: alloc_tx_packet_def a3_def [symmetric] put_packet_more split: if_splits Option.bind_splits)
      next
        case False
        then obtain a5 where a5: "NdisFreeBuffer b a4 = Some a5" "NdisFreePacket q a5 = Some s'" using assms e1 e2 ok2 \<open>st1 = 0\<close> pk m
          by (auto simp: alloc_tx_packet_def a3_def [symmetric] split: Option.bind_splits)
        thus ?thesis using f1 f2 f3 f4 np_more_fields(4,11) [OF NdisFreePacket_frame(4) [OF a5(2)]]
            np_more_fields(4,11) [OF nb_more_fields(3) [OF NdisFreeBuffer_more [OF a5(1)]]] by simp
      qed
    qed
  qed
qed

section \<open>Runs\<close>

lemma max_send_packets_le: "unat (max_send_packets d a) \<le> TX_RING_SIZE"
  by (auto simp: max_send_packets_def TX_RING_SIZE_def Let_def word_less_nat_alt split: option.split)

lemma setup_tx_pools_rep:
  assumes "setup_tx_pools d answer pa ba s = Some (s', NDIS_STATUS_SUCCESS)" "distinct (wrap_mdl_list s)"
  shows "tx_rep s' [] \<and> unat (max_tx_packets s') \<le> TX_RING_SIZE"
proof -
  let ?n = "max_send_packets d answer"
  have le: "unat ?n \<le> 16" using max_send_packets_le [of d answer] by (simp add: TX_RING_SIZE_def)
  hence "unat (?n + 4) = unat ?n + 4" by (subst unat_add_lem [THEN iffD1]) auto
  moreover have "unat (- 1 :: u32) = 4294967295" by (simp add: unsigned_minus_1_eq_mask mask_eq_exp_minus_1)
  ultimately have "unat ?n \<noteq> unat (- 1 :: u32)" "unat (?n + 4) \<noteq> unat (- 1 :: u32)" using le by auto
  hence n: "?n \<noteq> - 1" "?n + 4 \<noteq> - 1" by metis+
  have s': "pa \<noteq> NULL" "ba \<noteq> NULL" "s' = (put_pool ba \<lparr>bp_free_descr = NULL, bp_max_descr = ?n + 4, bp_num_allocated_descr = 0\<rparr>
      (put_ppool pa \<lparr>pp_free_descr = NULL, pp_max_descr = ?n, pp_num_allocated_descr = 0, pp_num_used_descr = 0, pp_proto_rsvd_length = 32\<rparr> s))
      \<lparr>max_tx_packets := ?n, tx_packet_pool := pa, tx_buffer_pool := ba\<rparr>"
    using assms(1) by (auto simp: setup_tx_pools_def NdisAllocatePacketPoolEx_def NdisAllocateBufferPool_def Let_def split: if_splits Option.bind_splits)
  have "pp_rep pa s' [] []" "bp_rep ba s' [] []" "tx_packet_pool s' = pa" "tx_buffer_pool s' = ba" "max_tx_packets s' = ?n"
    using s' n assms(2) by (auto simp: pp_rep_def bp_rep_def put_pool_def put_ppool_def)
  thus ?thesis using max_send_packets_le [of d answer] by (auto simp: tx_rep_def sg_apart_def)
qed

text \<open>A device whose socket buffers come and go: the kernel hands over a live socket buffer that is not in flight, and packets in flight are
  released in any order.\<close>

inductive tx_run :: "(ptr \<Rightarrow> u32 \<Rightarrow> u64) \<Rightarrow> tx_state \<Rightarrow> flight list \<Rightarrow> bool" for dma where
  start: "distinct (wrap_mdl_list s) \<Longrightarrow> setup_tx_pools d answer pa ba s = Some (s', NDIS_STATUS_SUCCESS) \<Longrightarrow> tx_run dma s' []"
| skb: "tx_run dma s ts \<Longrightarrow> skbs s k = None \<Longrightarrow> tx_run dma (s\<lparr>skbs := (skbs s)(k \<mapsto> v)\<rparr>) ts"
| alloc: "tx_run dma s ts \<Longrightarrow> packet_fresh pa s \<Longrightarrow> mdl_fresh wm s \<Longrightarrow> skbs s k = Some v \<Longrightarrow> k \<notin> fl_skb ` set ts \<Longrightarrow> sg_lists s sa = None \<Longrightarrow>
    unat (SPAN_PAGES (skb_data v) (ucast (skb_len v))) \<le> MDL_CACHE_PAGES \<Longrightarrow> alloc_tx_packet dma pa wm sa k s = Some (s', p) \<Longrightarrow>
    tx_run dma s' (if p = NULL then ts else (p, (case packets s' p of Some pk \<Rightarrow> buffer_head pk | None \<Rightarrow> NULL), k) # ts)"
| free: "tx_run dma s ts \<Longrightarrow> t \<in> set ts \<Longrightarrow> free_tx_packet (fl_packet t) st s = Some s' \<Longrightarrow> tx_run dma s' (remove1 t ts)"

lemma tx_run_rep: "tx_run dma s ts \<Longrightarrow> tx_rep s ts"
proof (induction rule: tx_run.induct)
  case (start s d answer pa ba s')
  thus ?case using setup_tx_pools_rep by blast
next
  case (skb s ts k v)
  have "pp_rep pool (s\<lparr>skbs := f\<rparr>) fs us \<longleftrightarrow> pp_rep pool s fs us" "bp_rep pool (s\<lparr>skbs := f\<rparr>) fs us \<longleftrightarrow> bp_rep pool s fs us" for pool f fs us
    by (auto simp: pp_rep_def bp_rep_def)
  thus ?case using skb(2,3) by (auto simp: tx_rep_def flight_ok_def sg_apart_def)
next
  case (alloc s ts pa wm k v sa s' p)
  from alloc_tx_packet_rep [OF alloc(9,2-7), of dma] alloc(8)
  have r: "if p = NULL then tx_rep s' ts else \<exists>b. tx_rep s' ((p, b, k) # ts)" by simp
  show ?case
  proof (cases "p = NULL")
    case False
    then obtain b where b: "tx_rep s' ((p, b, k) # ts)" using r by auto
    hence "flight_ok s' (p, b, k)" by (simp add: tx_rep_def)
    thus ?thesis using b False by (auto simp: flight_ok_def)
  qed (use r in simp)
next
  case (free s ts t st s')
  from free_tx_packet_rep [OF free(4,2), of st] free(3) show ?case by auto
qed

text \<open>C24: In every state of the transmit path the packets in flight, their buffers and their socket buffers are pairwise distinct and live, and the
  pool reports exactly their number.  Any of them can be released, whatever the status: the call does not fault, frees the socket buffer of
  that packet and no other, and leaves the other packets in flight.\<close>

theorem tx_packets_in_flight:
  assumes "tx_run dma s ts"
  shows "distinct (map fl_packet ts) \<and> distinct (map fl_buffer ts) \<and> distinct (map fl_skb ts) \<and>
    (\<exists>n. NdisPacketPoolUsage (tx_packet_pool s) s = Some n \<and> unat n = length ts) \<and>
    (\<forall>t\<in>set ts. skbs s (fl_skb t) \<noteq> None \<and> (\<exists>s'. free_tx_packet (fl_packet t) st s = Some s' \<and>
       skbs s' = (skbs s)(fl_skb t := None) \<and> tx_run dma s' (remove1 t ts)))"
proof -
  note r = tx_run_rep [OF assms]
  then obtain pfs bfs where pb: "pp_rep (tx_packet_pool s) s pfs (map fl_packet ts)" "bp_rep (tx_buffer_pool s) s bfs (map fl_buffer ts)"
    by (auto simp: tx_rep_def)
  have "\<exists>s'. free_tx_packet (fl_packet t) st s = Some s' \<and> skbs s' = (skbs s)(fl_skb t := None) \<and> tx_run dma s' (remove1 t ts)" if "t \<in> set ts" for t
    using free_tx_packet_rep [OF r that, of st] tx_run.free [OF assms that] by blast
  moreover have "\<exists>n. NdisPacketPoolUsage (tx_packet_pool s) s = Some n \<and> unat n = length ts"
    using pb(1) by (auto simp: pp_rep_def NdisPacketPoolUsage_def)
  moreover have "\<forall>t\<in>set ts. skbs s (fl_skb t) \<noteq> None" "distinct (map fl_skb ts)" using r by (auto simp: tx_rep_def flight_ok_def)
  ultimately show ?thesis using pp_rep_distinct [OF pb(1)] bp_rep_distinct [OF pb(2)] by blast
qed


section \<open>DMA mappings\<close>

lemma unmap_loop_drop:
  assumes "dma_mapped s = m @ drop k els" "distinct els" "set els \<inter> set m = {}" "k + n \<le> length els"
  shows "unmap_loop els k n s = Some (s\<lparr>dma_mapped := m @ drop (k + n) els\<rparr>)"
  using assms(1,4)
proof (induction n arbitrary: k s)
  case (Suc n)
  have k: "k < length els" using Suc.prems(2) by simp
  have "els ! k \<notin> set m" using assms(3) nth_mem [OF k] by blast
  hence "els ! k \<in> set (dma_mapped s)" "els ! k \<notin> set m" using Suc.prems(1) by (simp_all add: Cons_nth_drop_Suc [OF k, symmetric])
  moreover have "remove1 (els ! k) (m @ drop k els) = m @ drop (Suc k) els"
    using calculation(2) by (simp add: remove1_append Cons_nth_drop_Suc [OF k, symmetric])
  ultimately have "dma_unmap (els ! k) s = s\<lparr>dma_mapped := m @ drop (Suc k) els\<rparr>" using Suc.prems(1) by (simp add: dma_unmap_def)
  thus ?case using Suc.IH [of "s\<lparr>dma_mapped := m @ drop (Suc k) els\<rparr>" "Suc k"] Suc.prems(2) k by (simp add: rd_def)
qed simp

text \<open>Undoing the mapping of a list of several elements: the first is undone twice, the last not.\<close>

lemma unmap_twice:
  assumes "dma_mapped s = m @ els" "distinct els" "set els \<inter> set m = {}" "2 \<le> length els"
  shows "unmap_loop els 0 (length els - 1) (dma_unmap (els ! 0) s) =
    Some (s\<lparr>dma_mapped := m @ [last els], dma_bad_unmaps := dma_bad_unmaps s @ [hd els]\<rparr>)"
proof -
  obtain e es where els: "els = e # es" "es \<noteq> []" using assms(4) by (cases els) (auto simp: Suc_le_eq)
  let ?s = "s\<lparr>dma_mapped := m @ es, dma_bad_unmaps := dma_bad_unmaps s @ [e]\<rparr>"
  have e: "e \<notin> set m" "e \<notin> set es" using assms(2,3) els by auto
  have "dma_unmap e s = s\<lparr>dma_mapped := m @ es\<rparr>" using assms(1) els e by (simp add: dma_unmap_def remove1_append)
  moreover have "dma_unmap e (s\<lparr>dma_mapped := m @ es\<rparr>) = ?s" using e by (simp add: dma_unmap_def)
  ultimately have "unmap_loop els 0 (length els - 1) (dma_unmap (els ! 0) s) = unmap_loop els 1 (length es - 1) ?s"
    using els by (cases "length es") (auto simp: rd_def)
  also have "\<dots> = Some (?s\<lparr>dma_mapped := m @ drop (1 + (length es - 1)) els\<rparr>)"
    by (rule unmap_loop_drop) (use assms els in auto)
  also have "drop (1 + (length es - 1)) els = [last els]"
    using els by (cases es rule: rev_cases) auto
  finally show ?thesis using els by simp
qed

lemma alloc_tx_packet_sg:
  assumes "alloc_tx_packet dma pa wm sa k s = Some (s1, p)" "p \<noteq> NULL" "sg_dma_size s \<noteq> 0" "skbs s k = Some skb"
  shows "dma_mapped s1 = dma_mapped s @ skb_elements dma skb \<and> dma_bad_unmaps s1 = dma_bad_unmaps s \<and> sg_dma_size s1 = sg_dma_size s \<and>
    (if length (skb_frags skb) \<le> 1 then sg_info (oob_data s1 p) = Wrap_Sg \<and> wrap_tx_sg_list (oob_data s1 p) = skb_elements dma skb
     else sg_info (oob_data s1 p) = Heap_Sg sa \<and> sg_lists s1 sa = Some (skb_elements dma skb))"
proof -
  from assms(1,2) obtain a1 st1 where e1: "NdisAllocatePacket pa (tx_packet_pool s) s = Some (a1, st1, p)"
    by (auto simp: alloc_tx_packet_def Let_def split: if_splits Option.bind_splits prod.splits)
  note f1 = np_more_fields [OF NdisAllocatePacket_frame(4) [OF e1]]
  from assms e1 f1 obtain a2 st2 b where e2: "NdisAllocateBuffer wm (tx_buffer_pool a1) (skb_data skb) (skb_len skb) a1 = Some (a2, st2, b)"
    by (auto simp: alloc_tx_packet_def Let_def split: if_splits Option.bind_splits)
  note f2 = np_more_fields [OF nb_more_fields(3) [OF NdisAllocateBuffer_more [OF e2]]]
  show ?thesis
    using assms e1 e2 f1 f2
    by (auto simp: alloc_tx_packet_def Let_def setup_tx_sg_list_eq put_packet_def split: if_splits Option.bind_splits)
qed


lemma free_tx_packet_sg:
  assumes "free_tx_packet p st s = Some s2" "sg_dma_size s \<noteq> 0"
  shows "\<exists>n s1. free_tx_sg_list (oob_data s p) (count_tx st n s) = Some s1 \<and> dma_mapped s2 = dma_mapped s1 \<and> dma_bad_unmaps s2 = dma_bad_unmaps s1"
proof -
  have c: "sg_dma_size (count_tx st n s) = sg_dma_size s" for n by (simp add: count_tx_def)
  obtain pk where pk: "packets s p = Some pk" using assms(1) by (cases "packets s p") (auto simp: free_tx_packet_def)
  from assms pk obtain a1 where a1: "free_tx_sg_list (oob_data s p) (count_tx st (pk_len pk) s) = Some a1"
    by (cases "free_tx_sg_list (oob_data s p) (count_tx st (pk_len pk) s)") (auto simp: free_tx_packet_def Let_def c)
  from assms pk a1 obtain a2 where a2: "NdisFreeBuffer (buffer_head pk) a1 = Some a2"
    by (cases "NdisFreeBuffer (buffer_head pk) a1") (auto simp: free_tx_packet_def Let_def c)
  from assms pk a1 a2 obtain a3 where a3: "dev_kfree_skb_any (tx_skb (oob_data s p)) a2 = Some a3"
    by (cases "dev_kfree_skb_any (tx_skb (oob_data s p)) a2") (auto simp: free_tx_packet_def Let_def c)
  from assms pk a1 a2 a3 obtain a4 where a4: "NdisFreePacket p a3 = Some a4"
    by (cases "NdisFreePacket p a3") (auto simp: free_tx_packet_def Let_def c)
  have "dma_mapped s2 = dma_mapped a4" "dma_bad_unmaps s2 = dma_bad_unmaps a4"
    using assms pk a1 a2 a3 a4 by (auto simp: free_tx_packet_def Let_def c split: if_splits Option.bind_splits)
  moreover have "dma_mapped a3 = dma_mapped a2" "dma_bad_unmaps a3 = dma_bad_unmaps a2"
    using a3 by (auto simp: dev_kfree_skb_any_def split: if_splits)
  moreover note np_more_fields(7,8) [OF nb_more_fields(3) [OF NdisFreeBuffer_more [OF a2]]] np_more_fields(7,8) [OF NdisFreePacket_frame(4) [OF a4]]
  ultimately show ?thesis using a1 by metis
qed

text \<open>The DMA mappings of a packet: the device maps every part of the socket buffer, one element if it has at most one fragment.  When the packet
  is released such a mapping is undone.  For a socket buffer with two or more fragments, though, the mapping of the linear part is undone
  twice, the second time when it is not in place any more, and that of the last fragment is never undone.\<close>

theorem tx_dma_mappings:
  assumes "alloc_tx_packet dma pa wm sa k s = Some (s1, p)" "p \<noteq> NULL" "sg_dma_size s \<noteq> 0" "skbs s k = Some skb"
    and "free_tx_packet p st s1 = Some s2" "distinct (skb_elements dma skb)" "set (skb_elements dma skb) \<inter> set (dma_mapped s) = {}"
  shows "dma_mapped s1 = dma_mapped s @ skb_elements dma skb \<and>
    (if length (skb_frags skb) \<le> 1 then dma_mapped s2 = dma_mapped s \<and> dma_bad_unmaps s2 = dma_bad_unmaps s
     else dma_mapped s2 = dma_mapped s @ [last (skb_elements dma skb)] \<and> dma_bad_unmaps s2 = dma_bad_unmaps s @ [hd (skb_elements dma skb)])"
proof -
  let ?els = "skb_elements dma skb"
  note a = alloc_tx_packet_sg [OF assms(1-4)]
  from free_tx_packet_sg [OF assms(5)] a assms(3) obtain n s' where
    f: "free_tx_sg_list (oob_data s1 p) (count_tx st n s1) = Some s'" "dma_mapped s2 = dma_mapped s'" "dma_bad_unmaps s2 = dma_bad_unmaps s'" by auto
  have c: "dma_mapped (count_tx st n s1) = dma_mapped s @ ?els" "dma_bad_unmaps (count_tx st n s1) = dma_bad_unmaps s"
      "sg_lists (count_tx st n s1) = sg_lists s1" using a by (simp_all add: count_tx_def)
  show ?thesis
  proof (cases "length (skb_frags skb) \<le> 1")
    case True
    then obtain e where e: "?els = [e]" by (simp add: skb_elements_def frag_elements_def)
    moreover have "e \<notin> set (dma_mapped s)" using assms(7) e by simp
    ultimately show ?thesis using True a f c by (auto simp: free_tx_sg_list_def rd_def dma_unmap_def remove1_append)
  next
    case False
    hence len: "2 \<le> length ?els" by (simp add: skb_elements_def frag_elements_def)
    hence "length ?els \<noteq> 1" "rd ?els 0 = Some (?els ! 0)" by (auto simp: rd_def)
    moreover have "sg_info (oob_data s1 p) = Heap_Sg sa" "sg_lists s1 sa = Some ?els" using a False by auto
    ultimately show ?thesis
      using f c a unmap_twice [OF c(1) assms(6,7) len] False by (auto simp: free_tx_sg_list_def)
  qed
qed

definition tx_demo0 :: tx_state where
  "tx_demo0 = \<lparr>mdls = Map.empty, wrap_mdl_list = [], mdl_released = [], buffer_pools = Map.empty, packets = Map.empty, packet_pools = Map.empty,
     packet_stacks = Map.empty, tx_packet_pool = 0, tx_buffer_pool = 0, sg_dma_size = 4096, max_tx_packets = 0, oob_data = (\<lambda>_. zero_oob),
     sg_lists = Map.empty, dma_mapped = [], dma_bad_unmaps = [], skbs = Map.empty, tx_bytes = 0, tx_packets = 0, tx_dropped = 0, queue_stopped = False,
     wakeq_pending = False\<rparr>"

text \<open>A socket buffer with two fragments.\<close>

definition demo_skb :: sk_buff where
  "demo_skb = \<lparr>skb_data = 0x9000, skb_len = 300, skb_headlen = 100, skb_frags = [(0xa000, 120), (0xb000, 80)], skb_csum_partial = False, skb_protocol = 0x800\<rparr>"

definition tx_demo1 :: tx_state where
  "tx_demo1 = (let s = fst (the (setup_tx_pools True None 0x100 0x200 tx_demo0)) in s\<lparr>skbs := (skbs s)(0x50 \<mapsto> demo_skb)\<rparr>)"

definition tx_demo :: tx_state where
  "tx_demo = fst (the (alloc_tx_packet (\<lambda>p n. p) 0x7000 0x8000 0x6000 0x50 tx_demo1))"


lemmas tx_demo_simps = tx_demo1_def setup_tx_pools_def max_send_packets_def tx_demo0_def NdisAllocatePacketPoolEx_def NdisAllocateBufferPool_def
  put_pool_def put_ppool_def TX_RING_SIZE_def NdisAllocatePacket_def packet_length_def sizeof_ndis_packet_def sizeof_oob_data_def init_packet_def
  put_packet_def demo_skb_def NdisAllocateBuffer_def allocate_init_mdl_def finish_buffer_spec setup_tx_sg_list_eq skb_elements_def frag_elements_def
  Let_def MmSizeOfMdl_def SPAN_PAGES_def MDL_CACHE_SIZE_def wrap_mdl_offset_def pages_of_def MmInitializeMdl_def zero_mdl_def MDL_CACHE_PAGES_def

lemma tx_demo_alloc: "alloc_tx_packet (\<lambda>p n. p) 0x7000 0x8000 0x6000 0x50 tx_demo1 = Some (tx_demo, 0x7000)"
proof -
  have "\<exists>s. alloc_tx_packet (\<lambda>p n. p) 0x7000 0x8000 0x6000 0x50 tx_demo1 = Some (s, 0x7000)"
    by (simp add: tx_demo_simps alloc_tx_packet_def)
  thus ?thesis by (auto simp: tx_demo_def)
qed

lemma tx_demo1_fields: "skbs tx_demo1 0x50 = Some demo_skb" "sg_lists tx_demo1 = Map.empty" "packet_fresh 0x7000 tx_demo1" "mdl_fresh 0x8000 tx_demo1"
  "sg_dma_size tx_demo1 = 4096" "dma_mapped tx_demo1 = []" "dma_bad_unmaps tx_demo1 = []"
  by (simp_all add: tx_demo_simps packet_fresh_def mdl_fresh_def)

lemma tx_demo1_run: "tx_run (\<lambda>p n. p) tx_demo1 []"
proof -
  have "\<exists>s. setup_tx_pools True None 0x100 0x200 tx_demo0 = Some (s, NDIS_STATUS_SUCCESS)" by (simp add: tx_demo_simps)
  then obtain s where s: "setup_tx_pools True None 0x100 0x200 tx_demo0 = Some (s, NDIS_STATUS_SUCCESS)" by blast
  have "skbs s 0x50 = None" using s by (auto simp: tx_demo_simps)
  moreover have "tx_run (\<lambda>p n. p) s []" by (rule tx_run.start [OF _ s]) (simp add: tx_demo0_def)
  ultimately show ?thesis using tx_run.skb [of "\<lambda>p n. p" s "[]" "0x50" demo_skb] s by (simp add: tx_demo1_def)
qed

lemma demo_skb_fits: "unat (SPAN_PAGES (skb_data demo_skb) (ucast (skb_len demo_skb))) \<le> MDL_CACHE_PAGES"
  by (simp add: demo_skb_def SPAN_PAGES_def MDL_CACHE_PAGES_def)

lemma tx_demo_run: "\<exists>b. tx_run (\<lambda>p n. p) tx_demo [(0x7000, b, 0x50)]"
  using tx_run.alloc [OF tx_demo1_run tx_demo1_fields(3,4,1) _ _ demo_skb_fits tx_demo_alloc] by (auto simp: tx_demo1_fields(2))

theorem tx_packets_in_flight_witness:
  "\<exists>s'. free_tx_packet 0x7000 NDIS_STATUS_SUCCESS tx_demo = Some s' \<and> skbs s' 0x50 = None \<and> NdisPacketPoolUsage (tx_packet_pool tx_demo) tx_demo = Some 1"
proof -
  obtain b where "tx_run (\<lambda>p n. p) tx_demo [(0x7000, b, 0x50)]" using tx_demo_run by blast
  from tx_packets_in_flight [OF this, of NDIS_STATUS_SUCCESS] show ?thesis by (auto simp: word_unat_eq_iff)
qed

theorem tx_dma_mappings_witness:
  "dma_mapped tx_demo = [\<lparr>sg_address = 0x9000, sg_length = 100\<rparr>, \<lparr>sg_address = 0xa000, sg_length = 120\<rparr>, \<lparr>sg_address = 0xb000, sg_length = 80\<rparr>] \<and>
   (\<exists>s'. free_tx_packet 0x7000 NDIS_STATUS_SUCCESS tx_demo = Some s' \<and> dma_mapped s' = [\<lparr>sg_address = 0xb000, sg_length = 80\<rparr>] \<and>
      dma_bad_unmaps s' = [\<lparr>sg_address = 0x9000, sg_length = 100\<rparr>])"
proof -
  obtain b where "tx_run (\<lambda>p n. p) tx_demo [(0x7000, b, 0x50)]" using tx_demo_run by blast
  hence "tx_rep tx_demo [(0x7000, b, 0x50)]" by (rule tx_run_rep)
  from free_tx_packet_rep [OF this] obtain s' where "free_tx_packet 0x7000 NDIS_STATUS_SUCCESS tx_demo = Some s'" by fastforce
  thus ?thesis
    using tx_dma_mappings [OF tx_demo_alloc _ _ tx_demo1_fields(1), of NDIS_STATUS_SUCCESS s'] tx_demo1_fields(5-7)
    by (simp add: demo_skb_def skb_elements_def frag_elements_def)
qed

end
