(* ===== verification/Tx_Ring.thy ===== *)
theory Tx_Ring
  imports Tx_Packet
begin

text \<open>
  The transmit ring of \<^verbatim>\<open>wrapndis.c\<close>: \<^verbatim>\<open>tx_skbuff\<close> puts packets into a ring of 16 slots, the worker \<^verbatim>\<open>tx_worker\<close> takes them out in groups
  that do not wrap around and hands them to the driver, and \<^verbatim>\<open>ndis_remove_device\<close> empties the ring.  With it come the completion
  handlers of \<^verbatim>\<open>ndis.c\<close> that a driver calls.

  The driver is a parameter, the record \<open>miniport\<close>.  \<open>ring_rep s xs\<close> says that the ring holds the packets \<open>xs\<close>, oldest first.  Shown are
  that putting and taking are those of a queue, that packets reach the driver once and in order when the steps of the worker interleave
  with packets that are put, except in the cases in which packets are lost: putting into a full ring, filling the ring between the
  two writes with which the worker ends a round, and removal of a full ring; and that the worker ends when the driver takes what it is
  given.
\<close>

section \<open>State and driver\<close>

record wnd_state = tx_state +
  tx_ring :: "ptr list"
  tx_ring_start :: u8
  tx_ring_end :: u8
  is_tx_ring_full :: bool
  tx_ok :: bool
  tx_work_queued :: bool

abbreviation NDIS_STATUS_PENDING :: u32 where "NDIS_STATUS_PENDING \<equiv> 0x103"
abbreviation NDIS_STATUS_NOT_RECOGNIZED :: u32 where "NDIS_STATUS_NOT_RECOGNIZED \<equiv> 0x10001"

text \<open>The entry points of a driver.  They may call back into the NDIS library, so they take and return the state.\<close>

record miniport =
  mp_deserialized :: bool
  mp_send_packets :: "(ptr list \<Rightarrow> wnd_state \<Rightarrow> wnd_state) option"
  mp_send :: "ptr \<Rightarrow> u32 \<Rightarrow> wnd_state \<Rightarrow> wnd_state \<times> u32"

section \<open>Operations\<close>

text \<open>The section of \<^verbatim>\<open>tx_skbuff\<close> under the ring lock.\<close>

definition ring_put :: "ptr \<Rightarrow> wnd_state \<Rightarrow> wnd_state option" where
  "ring_put packet s =
     do { ring \<leftarrow> wr (tx_ring s) (unat (tx_ring_end s)) packet;
          let e1 = tx_ring_end s + 1;
              e2 = (if e1 = of_nat TX_RING_SIZE then 0 else e1);
              s1 = s\<lparr>tx_ring := ring, tx_ring_end := e2\<rparr> in
          Some (if e2 = tx_ring_start s then s1\<lparr>is_tx_ring_full := True, queue_stopped := True\<rparr> else s1) }"

text \<open>The result is whether the socket buffer was accepted.\<close>

definition tx_skbuff :: "(ptr \<Rightarrow> u32 \<Rightarrow> u64) \<Rightarrow> ptr \<Rightarrow> ptr \<Rightarrow> ptr \<Rightarrow> ptr \<Rightarrow> wnd_state \<Rightarrow> (wnd_state \<times> bool) option" where
  "tx_skbuff dma pa wm sa k s =
     do { (s1, packet) \<leftarrow> alloc_tx_packet dma pa wm sa k s;
          if packet = NULL then Some (s1\<lparr>queue_stopped := True\<rparr>, False)
          else do { s2 \<leftarrow> ring_put packet s1; Some (s2\<lparr>tx_work_queued := True\<rparr>, True) } }"

text \<open>The two loops of \<^verbatim>\<open>mp_tx_packets\<close>.  After \<^verbatim>\<open>NDIS_STATUS_RESOURCES\<close> the count is decremented and incremented again and the loop ends
  because \<^verbatim>\<open>tx_ok\<close> is cleared.\<close>

function check_sent :: "nat \<Rightarrow> nat \<Rightarrow> nat \<Rightarrow> wnd_state \<Rightarrow> (wnd_state \<times> nat) option" where
  "check_sent start n sent s =
     (if sent < n \<and> tx_ok s then
        do { packet \<leftarrow> rd (tx_ring s) (start + sent);
             pk \<leftarrow> packets s packet;
             let res = pk_status pk; s1 = put_packet packet (pk\<lparr>pk_status := NDIS_STATUS_NOT_RECOGNIZED\<rparr>) s in
             if res = NDIS_STATUS_SUCCESS then do { s2 \<leftarrow> free_tx_packet packet NDIS_STATUS_SUCCESS s1; check_sent start n (Suc sent) s2 }
             else if res = NDIS_STATUS_PENDING then check_sent start n (Suc sent) s1
             else if res = NDIS_STATUS_RESOURCES then Some (s1\<lparr>tx_ok := False\<rparr>, sent)
             else if res = NDIS_STATUS_FAILURE then do { s2 \<leftarrow> free_tx_packet packet NDIS_STATUS_FAILURE s1; check_sent start n (Suc sent) s2 }
             else do { s2 \<leftarrow> free_tx_packet packet NDIS_STATUS_NOT_RECOGNIZED s1; check_sent start n (Suc sent) s2 } }
      else Some (s, sent))"
  by pat_completeness auto
termination by (relation "measure (\<lambda>(start, n, sent, s). n - sent)") auto

function send_loop :: "miniport \<Rightarrow> nat \<Rightarrow> nat \<Rightarrow> nat \<Rightarrow> wnd_state \<Rightarrow> (wnd_state \<times> nat) option" where
  "send_loop mp start n sent s =
     (if sent < n \<and> tx_ok s then
        do { packet \<leftarrow> rd (tx_ring s) (start + sent);
             pk \<leftarrow> packets s packet;
             let (s2, res) = mp_send mp packet (pk_flags pk) (put_packet packet (pk\<lparr>pk_status := NDIS_STATUS_NOT_RECOGNIZED\<rparr>) s) in
             if res = NDIS_STATUS_SUCCESS \<or> res = NDIS_STATUS_FAILURE
             then do { s3 \<leftarrow> free_tx_packet packet res s2; send_loop mp start n (Suc sent) s3 }
             else if res = NDIS_STATUS_RESOURCES then Some (s2\<lparr>tx_ok := False\<rparr>, sent)
             else send_loop mp start n (Suc sent) s2 }
      else Some (s, sent))"
  by pat_completeness auto
termination by (relation "measure (\<lambda>(mp, start, n, sent, s). n - sent)") auto

declare check_sent.simps [simp del] send_loop.simps [simp del]

definition mp_tx_packets :: "miniport \<Rightarrow> nat \<Rightarrow> nat \<Rightarrow> wnd_state \<Rightarrow> (wnd_state \<times> nat) option" where
  "mp_tx_packets mp start n s =
     (case mp_send_packets mp of
        Some send_packets \<Rightarrow>
          if length (tx_ring s) < start + n then None
          else let s1 = send_packets (take n (drop start (tx_ring s))) s in
               if mp_deserialized mp then Some (s1, n) else check_sent start n 0 s1
      | None \<Rightarrow> send_loop mp start n 0 s)"

text \<open>The number of packets that \<^verbatim>\<open>tx_worker\<close> finds in the ring up to its end, computed in a signed byte; none means that it stops.\<close>

definition tx_avail :: "wnd_state \<Rightarrow> nat option" where
  "tx_avail s =
     (let n = sint (tx_ring_end s - tx_ring_start s); room = TX_RING_SIZE - unat (tx_ring_start s) in
      if n = 0 then if is_tx_ring_full s then Some room else None
      else if n < 0 then Some room else Some (nat n))"

definition advance_start :: "nat \<Rightarrow> wnd_state \<Rightarrow> wnd_state" where
  "advance_start n s = s\<lparr>tx_ring_start := of_nat ((unat (tx_ring_start s) + n) mod TX_RING_SIZE)\<rparr>"

definition clear_full :: "wnd_state \<Rightarrow> wnd_state" where
  "clear_full s = s\<lparr>is_tx_ring_full := False\<rparr>"

text \<open>One round of \<^verbatim>\<open>tx_worker\<close>, and whether the loop goes on.\<close>

definition tx_round :: "miniport \<Rightarrow> wnd_state \<Rightarrow> (wnd_state \<times> bool) option" where
  "tx_round mp s =
     (if \<not> tx_ok s then Some (s, False) else
      case tx_avail s of
        None \<Rightarrow> Some (s, False)
      | Some n \<Rightarrow>
          do { (s1, sent) \<leftarrow> mp_tx_packets mp (unat (tx_ring_start s)) (min n (unat (max_tx_packets s))) s;
               Some (if sent \<noteq> 0 then clear_full (advance_start sent s1) else s1, True) })"

partial_function (option) tx_worker :: "miniport \<Rightarrow> wnd_state \<Rightarrow> wnd_state option" where
  "tx_worker mp s = do { (s1, more) \<leftarrow> tx_round mp s; if more then tx_worker mp s1 else Some s1 }"

section \<open>Completion\<close>

text \<open>The exchange of the status word of a packet.\<close>

definition xchg_status :: "ptr \<Rightarrow> u32 \<Rightarrow> wnd_state \<Rightarrow> (wnd_state \<times> u32) option" where
  "xchg_status p v s = do { pk \<leftarrow> packets s p; Some (put_packet p (pk\<lparr>pk_status := v\<rparr>) s, pk_status pk) }"

definition NdisMSendComplete :: "miniport \<Rightarrow> ptr \<Rightarrow> u32 \<Rightarrow> wnd_state \<Rightarrow> wnd_state option" where
  "NdisMSendComplete mp p status s =
     (if mp_deserialized mp then free_tx_packet p status s
      else do { (s1, old) \<leftarrow> xchg_status p status s;
                s2 \<leftarrow> (if old = NDIS_STATUS_NOT_RECOGNIZED then free_tx_packet p status s1 else Some s1);
                Some (if tx_ok s2 then s2 else s2\<lparr>tx_ok := True, tx_work_queued := True\<rparr>) })"

definition NdisMSendResourcesAvailable :: "wnd_state \<Rightarrow> wnd_state" where
  "NdisMSendResourcesAvailable s = s\<lparr>tx_ok := True, tx_work_queued := True\<rparr>"

definition NdisMIndicateStatusComplete :: "wnd_state \<Rightarrow> wnd_state" where
  "NdisMIndicateStatusComplete s = (if tx_ok s then s\<lparr>tx_work_queued := True\<rparr> else s)"

text \<open>\<^verbatim>\<open>NdisSend\<close> hands a single packet to the driver.\<close>

definition NdisSend :: "miniport \<Rightarrow> ptr \<Rightarrow> wnd_state \<Rightarrow> (wnd_state \<times> u32) option" where
  "NdisSend mp p s =
     (let finish = (\<lambda>s status.
            if status = NDIS_STATUS_PENDING then Some (s, status)
            else if status = NDIS_STATUS_RESOURCES then Some (s\<lparr>tx_ok := False\<rparr>, status)
            else do { s' \<leftarrow> free_tx_packet p status s; Some (s', status) }) in
      case mp_send_packets mp of
        Some send_packets \<Rightarrow>
          let s1 = send_packets [p] s in
          if mp_deserialized mp then Some (s1, NDIS_STATUS_PENDING)
          else do { pk \<leftarrow> packets s1 p; finish s1 (pk_status pk) }
      | None \<Rightarrow> (case mp_send mp p 0 s of (s1, status) \<Rightarrow> finish s1 status))"

section \<open>Removal\<close>

text \<open>The number of packets \<^verbatim>\<open>ndis_remove_device\<close> throws away, a signed byte, and the loop that does it.\<close>

definition tx_pending :: "wnd_state \<Rightarrow> nat" where
  "tx_pending s =
     (let n = sint (tx_ring_end s - tx_ring_start s) in
      if n < 0 then nat (n + int TX_RING_SIZE) else if n = 0 \<and> is_tx_ring_full s then TX_RING_SIZE - 1 else nat n)"

fun drain_ring :: "nat \<Rightarrow> wnd_state \<Rightarrow> wnd_state option" where
  "drain_ring 0 s = Some s"
| "drain_ring (Suc n) s =
     do { packet \<leftarrow> rd (tx_ring s) (unat (tx_ring_start s));
          s1 \<leftarrow> free_tx_packet packet NDIS_STATUS_CLOSING s;
          drain_ring n (advance_start 1 s1) }"

text \<open>The part of \<^verbatim>\<open>ndis_remove_device\<close> that concerns the ring.\<close>

definition remove_pending :: "wnd_state \<Rightarrow> wnd_state option" where
  "remove_pending s = drain_ring (tx_pending s) (clear_full (s\<lparr>tx_ok := False\<rparr>))"


section \<open>The ring as a queue\<close>

text \<open>The ring holds \<open>xs\<close>, oldest packet first.\<close>

definition ring_rep :: "wnd_state \<Rightarrow> ptr list \<Rightarrow> bool" where
  "ring_rep s xs \<longleftrightarrow> length (tx_ring s) = TX_RING_SIZE \<and> unat (tx_ring_start s) < TX_RING_SIZE \<and> length xs \<le> TX_RING_SIZE \<and>
     unat (tx_ring_end s) = (unat (tx_ring_start s) + length xs) mod TX_RING_SIZE \<and> (is_tx_ring_full s \<longleftrightarrow> length xs = TX_RING_SIZE) \<and>
     (\<forall>i<length xs. xs ! i = tx_ring s ! ((unat (tx_ring_start s) + i) mod TX_RING_SIZE))"

lemma ring_rep_cong:
  assumes "tx_ring s' = tx_ring s" "tx_ring_start s' = tx_ring_start s" "tx_ring_end s' = tx_ring_end s" "is_tx_ring_full s' = is_tx_ring_full s"
  shows "ring_rep s' xs \<longleftrightarrow> ring_rep s xs"
  using assms by (simp add: ring_rep_def)

lemma ring_mod: "a < 32 \<Longrightarrow> a mod 16 = (if a < 16 then a else a - 16)" for a :: nat
  by (simp add: le_mod_geq)

lemma ring_rep_unique: "ring_rep s xs \<Longrightarrow> ring_rep s ys \<Longrightarrow> xs = ys"
proof -
  assume a: "ring_rep s xs" "ring_rep s ys"
  let ?b = "unat (tx_ring_start s)"
  have "(?b + length xs) mod 16 = (?b + length ys) mod 16" "length xs \<le> 16" "length ys \<le> 16" "length xs = 16 \<longleftrightarrow> length ys = 16"
    using a by (auto simp: ring_rep_def TX_RING_SIZE_def)
  moreover have "?b < 16" using a(1) by (simp add: ring_rep_def TX_RING_SIZE_def)
  ultimately have "length xs = length ys" by (auto simp: ring_mod split: if_splits)
  thus "xs = ys" using a by (intro nth_equalityI) (auto simp: ring_rep_def)
qed

lemma unat_ring_index: "n < TX_RING_SIZE \<Longrightarrow> unat (of_nat n :: u8) = n"
  by (simp add: TX_RING_SIZE_def unat_of_nat)

text \<open>Putting a packet into a ring that is not full appends it, and the ring is marked full and the queue stopped when the last slot is used.\<close>

lemma ring_put_rep:
  assumes "ring_rep s xs" "length xs < TX_RING_SIZE"
  shows "\<exists>s'. ring_put p s = Some s' \<and> ring_rep s' (xs @ [p]) \<and> tx_ok s' = tx_ok s \<and> max_tx_packets s' = max_tx_packets s \<and>
    (queue_stopped s' \<longleftrightarrow> queue_stopped s \<or> length xs + 1 = TX_RING_SIZE)"
proof -
  let ?b = "unat (tx_ring_start s)" and ?e = "unat (tx_ring_end s)"
  note r = assms(1) [unfolded ring_rep_def]
  have e: "?e = (?b + length xs) mod 16" "?b < 16" "length xs < 16" "length (tx_ring s) = 16" "?e < 16"
    using r assms(2) by (auto simp: TX_RING_SIZE_def)
  have e1: "unat (tx_ring_end s + 1) = ?e + 1" using e(5) by (simp add: unat_word_ariths)
  define e2 where "e2 = (if tx_ring_end s + 1 = of_nat TX_RING_SIZE then 0 else tx_ring_end s + 1)"
  have "tx_ring_end s + 1 = 16 \<longleftrightarrow> ?e + 1 = 16" using e1 by (auto simp: word_unat_eq_iff)
  hence e2: "unat e2 = (?b + length (xs @ [p])) mod 16" using e e1 by (auto simp: e2_def TX_RING_SIZE_def mod_Suc)
  have full: "e2 = tx_ring_start s \<longleftrightarrow> length (xs @ [p]) = 16"
  proof -
    have "e2 = tx_ring_start s \<longleftrightarrow> (?b + length (xs @ [p])) mod 16 = ?b" using e2 by (simp add: word_unat_eq_iff)
    also have "\<dots> \<longleftrightarrow> length (xs @ [p]) = 16" using e(2,3) by (auto simp: ring_mod)
    finally show ?thesis .
  qed
  define s' where "s' = (let s1 = s\<lparr>tx_ring := (tx_ring s)[?e := p], tx_ring_end := e2\<rparr> in
      if e2 = tx_ring_start s then s1\<lparr>is_tx_ring_full := True, queue_stopped := True\<rparr> else s1)"
  have run: "ring_put p s = Some s'" using e by (simp add: ring_put_def s'_def e2_def wr_def Let_def)
  have nf: "\<not> is_tx_ring_full s" using r assms(2) by simp
  have f: "tx_ring s' = (tx_ring s)[?e := p]" "tx_ring_start s' = tx_ring_start s" "tx_ring_end s' = e2"
    "is_tx_ring_full s' \<longleftrightarrow> length (xs @ [p]) = 16" "tx_ok s' = tx_ok s" "max_tx_packets s' = max_tx_packets s"
    "queue_stopped s' \<longleftrightarrow> queue_stopped s \<or> length xs + 1 = 16"
    using nf full by (auto simp: s'_def)
  have "(xs @ [p]) ! i = (tx_ring s)[?e := p] ! ((?b + i) mod 16)" if "i < length (xs @ [p])" for i
  proof (cases "i = length xs")
    case True
    thus ?thesis using e by simp
  next
    case False
    hence "i < length xs" using that by simp
    moreover have "(?b + i) mod 16 \<noteq> ?e" using e(1-3) \<open>i < length xs\<close> by (auto simp: ring_mod)
    ultimately show ?thesis using r by (simp add: nth_append TX_RING_SIZE_def)
  qed
  hence "ring_rep s' (xs @ [p])" using e e2 f by (simp add: ring_rep_def TX_RING_SIZE_def)
  thus ?thesis using run f by (auto simp: TX_RING_SIZE_def)
qed

lemma sint_small8: "- 128 \<le> k \<Longrightarrow> k < 128 \<Longrightarrow> sint (word_of_int k :: u8) = k"
  by (simp add: signed_of_int signed_take_bit_int_eq_self)

text \<open>The distance of the indices, in a signed byte.\<close>

lemma ring_distance:
  assumes "ring_rep s xs"
  shows "sint (tx_ring_end s - tx_ring_start s) = int (unat (tx_ring_end s)) - int (unat (tx_ring_start s))"
proof -
  let ?b = "unat (tx_ring_start s)" and ?e = "unat (tx_ring_end s)"
  have lt: "?e < 16" "?b < 16" using assms by (auto simp: ring_rep_def TX_RING_SIZE_def)
  have u: "uint (tx_ring_end s) = int ?e" "uint (tx_ring_start s) = int ?b" by simp_all
  have "sint (word_of_int (int ?e - int ?b) :: u8) = int ?e - int ?b" by (rule sint_small8) (use lt in linarith)+
  thus ?thesis unfolding word_sub_wi u .
qed

text \<open>The worker finds the packets up to the end of the array.\<close>

lemma tx_avail_rep:
  assumes "ring_rep s xs"
  shows "tx_avail s = (if xs = [] then None else Some (min (length xs) (TX_RING_SIZE - unat (tx_ring_start s))))"
proof -
  let ?b = "unat (tx_ring_start s)" and ?e = "unat (tx_ring_end s)" and ?n = "length xs"
  have e: "?e = (?b + ?n) mod 16" "?b < 16" "?n \<le> 16" "is_tx_ring_full s \<longleftrightarrow> ?n = 16" using assms by (auto simp: ring_rep_def TX_RING_SIZE_def)
  thus ?thesis using ring_distance [OF assms]
    by (cases "?b + ?n < 16") (auto simp: tx_avail_def Let_def TX_RING_SIZE_def ring_mod min_def)
qed

text \<open>Ending a round that sent \<open>n\<close> packets removes them.\<close>

lemma finish_round_rep:
  assumes "ring_rep s xs" "0 < n" "n \<le> length xs"
  shows "ring_rep (clear_full (advance_start n s)) (drop n xs)"
proof -
  let ?b = "unat (tx_ring_start s)"
  note r = assms(1) [unfolded ring_rep_def]
  have b': "unat (tx_ring_start (clear_full (advance_start n s))) = (?b + n) mod 16"
    by (simp add: clear_full_def advance_start_def unat_ring_index TX_RING_SIZE_def)
  have "drop n xs ! i = tx_ring s ! (((?b + n) mod 16 + i) mod 16)" if "i < length (drop n xs)" for i
  proof -
    have "((?b + n) mod 16 + i) mod 16 = (?b + (n + i)) mod 16" by (simp add: mod_add_left_eq add.assoc)
    thus ?thesis using that r assms(3) by (simp add: TX_RING_SIZE_def)
  qed
  moreover have "((?b + n) mod 16 + (length xs - n)) mod 16 = (?b + length xs) mod 16"
    using mod_add_left_eq [of "?b + n" 16 "length xs - n"] assms(3) by simp
  ultimately show ?thesis
    using r assms by (simp add: ring_rep_def b' TX_RING_SIZE_def) (auto simp: clear_full_def advance_start_def)
qed


section \<open>Rounds of the worker\<close>

lemma tx_more_fields:
  assumes "tx_state.more s' = tx_state.more s"
  shows "tx_ring s' = tx_ring s" "tx_ring_start s' = tx_ring_start s" "tx_ring_end s' = tx_ring_end s" "is_tx_ring_full s' = is_tx_ring_full s"
    "tx_ok s' = tx_ok s"
  using assms by (cases s; cases s'; simp)+

lemma ring_rep_more: "tx_state.more s' = tx_state.more s \<Longrightarrow> ring_rep s' xs \<longleftrightarrow> ring_rep s xs"
  by (rule ring_rep_cong) (auto dest: tx_more_fields)

text \<open>The part of the state that the worker relies on: the driver may change anything else while it runs.\<close>

definition ring_kept :: "wnd_state \<Rightarrow> wnd_state \<Rightarrow> bool" where
  "ring_kept s s' \<longleftrightarrow> tx_ring s' = tx_ring s \<and> tx_ring_start s' = tx_ring_start s \<and> tx_ring_end s' = tx_ring_end s \<and>
     is_tx_ring_full s' = is_tx_ring_full s \<and> max_tx_packets s' = max_tx_packets s"

text \<open>While the driver runs, packets may be put into the ring, and that is all that happens to it.\<close>

definition ring_grown :: "wnd_state \<Rightarrow> wnd_state \<Rightarrow> bool" where
  "ring_grown s s' \<longleftrightarrow> tx_ring_start s' = tx_ring_start s \<and> max_tx_packets s' = max_tx_packets s \<and> (\<forall>xs. ring_rep s xs \<longrightarrow> (\<exists>ys. ring_rep s' (xs @ ys)))"

definition driver_ok :: "miniport \<Rightarrow> bool" where
  "driver_ok mp \<longleftrightarrow> (\<forall>f ps s. mp_send_packets mp = Some f \<longrightarrow> ring_grown s (f ps s)) \<and> (\<forall>p fl s. ring_grown s (fst (mp_send mp p fl s)))"

lemma ring_kept_refl: "ring_kept s s"
  by (simp add: ring_kept_def)

lemma ring_kept_trans: "ring_kept s s1 \<Longrightarrow> ring_kept s1 s2 \<Longrightarrow> ring_kept s s2"
  by (simp add: ring_kept_def)

lemma ring_kept_grown: "ring_kept s s' \<Longrightarrow> ring_grown s s'"
  by (auto simp: ring_kept_def ring_grown_def ring_rep_def intro!: exI [of _ "[]"])

lemma ring_grown_trans: "ring_grown s s1 \<Longrightarrow> ring_grown s1 s2 \<Longrightarrow> ring_grown s s2"
  by (simp add: ring_grown_def) (metis append.assoc)

lemma ring_kept_free: "free_tx_packet p st s = Some s' \<Longrightarrow> ring_kept s s'"
  by (drule free_tx_packet_more) (auto simp: ring_kept_def dest: tx_more_fields)

lemma ring_kept_put: "ring_kept s (put_packet p pk s)"
  by (simp add: ring_kept_def put_packet_def)

lemma ring_kept_ok: "ring_kept s (s\<lparr>tx_ok := b\<rparr>)"
  by (simp add: ring_kept_def)

lemmas ring_kept_intros = ring_kept_refl ring_kept_put ring_kept_ok ring_kept_free

lemma check_sent_kept:
  "check_sent start n sent s = Some (s', k) \<Longrightarrow> sent \<le> n \<Longrightarrow> ring_kept s s' \<and> sent \<le> k \<and> k \<le> n"
proof (induction d \<equiv> "n - sent" arbitrary: sent s)
  case 0
  thus ?case by (auto simp: check_sent.simps ring_kept_refl)
next
  case (Suc d)
  have IH: "ring_kept s2 s' \<and> Suc sent \<le> k \<and> k \<le> n" if "check_sent start n (Suc sent) s2 = Some (s', k)" for s2
    using Suc.hyps(1) [of "Suc sent" s2] Suc.hyps(2) that by simp
  show ?case
  proof (cases "tx_ok s")
    case False
    thus ?thesis using Suc.prems by (auto simp: check_sent.simps [of start n sent s] ring_kept_refl)
  next
    case True
    have lt: "sent < n" using Suc.hyps(2) by simp
    then obtain p pk where p: "rd (tx_ring s) (start + sent) = Some p" "packets s p = Some pk"
      using Suc.prems True by (auto simp: check_sent.simps [of start n sent s] split: Option.bind_splits)
    let ?s1 = "put_packet p (pk\<lparr>pk_status := NDIS_STATUS_NOT_RECOGNIZED\<rparr>) s"
    have "check_sent start n (Suc sent) ?s1 = Some (s', k) \<or> (\<exists>st s2. free_tx_packet p st ?s1 = Some s2 \<and> check_sent start n (Suc sent) s2 = Some (s', k)) \<or>
        s' = ?s1\<lparr>tx_ok := False\<rparr> \<and> k = sent"
      using Suc.prems True lt p by (simp add: check_sent.simps [of start n sent s] Let_def split: if_splits Option.bind_splits) metis+
    then consider "check_sent start n (Suc sent) ?s1 = Some (s', k)"
      | st s2 where "free_tx_packet p st ?s1 = Some s2" "check_sent start n (Suc sent) s2 = Some (s', k)" | "s' = ?s1\<lparr>tx_ok := False\<rparr>" "k = sent" by blast
    thus ?thesis
    proof cases
      case 1
      thus ?thesis using IH [OF 1] ring_kept_trans [OF ring_kept_put] by auto
    next
      case 2
      thus ?thesis using IH [OF 2(2)] ring_kept_trans [OF ring_kept_put ring_kept_trans [OF ring_kept_free [OF 2(1)]]] by auto
    next
      case 3
      thus ?thesis using lt ring_kept_trans [OF ring_kept_put ring_kept_ok] by auto
    qed
  qed
qed

lemma send_loop_grown:
  "send_loop mp start n sent s = Some (s', k) \<Longrightarrow> sent \<le> n \<Longrightarrow> driver_ok mp \<Longrightarrow> ring_grown s s' \<and> sent \<le> k \<and> k \<le> n"
proof (induction d \<equiv> "n - sent" arbitrary: sent s)
  case 0
  thus ?case by (auto simp: send_loop.simps intro: ring_kept_grown ring_kept_refl)
next
  case (Suc d)
  have IH: "ring_grown s2 s' \<and> Suc sent \<le> k \<and> k \<le> n" if "send_loop mp start n (Suc sent) s2 = Some (s', k)" for s2
    using Suc.hyps(1) [of "Suc sent" s2] Suc.hyps(2) Suc.prems(3) that by simp
  show ?case
  proof (cases "tx_ok s")
    case False
    thus ?thesis using Suc.prems by (auto simp: send_loop.simps [of mp start n sent s] intro: ring_kept_grown ring_kept_refl)
  next
    case True
    have lt: "sent < n" using Suc.hyps(2) by simp
    then obtain p pk where p: "rd (tx_ring s) (start + sent) = Some p" "packets s p = Some pk"
      using Suc.prems True by (auto simp: send_loop.simps [of mp start n sent s] split: Option.bind_splits)
    let ?s1 = "put_packet p (pk\<lparr>pk_status := NDIS_STATUS_NOT_RECOGNIZED\<rparr>) s"
    obtain s2 res where d: "mp_send mp p (pk_flags pk) ?s1 = (s2, res)" by fastforce
    have g: "ring_grown s s2" using Suc.prems(3) d ring_grown_trans [OF ring_kept_grown [OF ring_kept_put]]
      by (metis driver_ok_def fst_conv)
    have "send_loop mp start n (Suc sent) s2 = Some (s', k) \<or> (\<exists>s3. free_tx_packet p res s2 = Some s3 \<and> send_loop mp start n (Suc sent) s3 = Some (s', k)) \<or>
        s' = s2\<lparr>tx_ok := False\<rparr> \<and> k = sent"
      using Suc.prems True lt p d by (simp add: send_loop.simps [of mp start n sent s] Let_def split: if_splits Option.bind_splits)
    then consider "send_loop mp start n (Suc sent) s2 = Some (s', k)"
      | s3 where "free_tx_packet p res s2 = Some s3" "send_loop mp start n (Suc sent) s3 = Some (s', k)" | "s' = s2\<lparr>tx_ok := False\<rparr>" "k = sent" by blast
    thus ?thesis
    proof cases
      case 1
      thus ?thesis using IH [OF 1] ring_grown_trans [OF g] by auto
    next
      case 2
      thus ?thesis using IH [OF 2(2)] ring_grown_trans [OF ring_grown_trans [OF g ring_kept_grown [OF ring_kept_free [OF 2(1)]]]] by auto
    next
      case 3
      thus ?thesis using lt ring_grown_trans [OF g ring_kept_grown [OF ring_kept_ok]] by auto
    qed
  qed
qed

lemma mp_tx_packets_grown:
  assumes "mp_tx_packets mp start n s = Some (s', k)" "driver_ok mp"
  shows "ring_grown s s' \<and> k \<le> n"
proof (cases "mp_send_packets mp")
  case None
  thus ?thesis using assms send_loop_grown [of mp start n 0 s s' k] by (simp add: mp_tx_packets_def)
next
  case (Some f)
  let ?s1 = "f (take n (drop start (tx_ring s))) s"
  have g: "ring_grown s ?s1" using assms(2) Some by (simp add: driver_ok_def)
  show ?thesis
  proof (cases "mp_deserialized mp")
    case True
    thus ?thesis using assms(1) Some g by (auto simp: mp_tx_packets_def Let_def split: if_splits)
  next
    case False
    hence "check_sent start n 0 ?s1 = Some (s', k)" using assms(1) Some by (auto simp: mp_tx_packets_def Let_def split: if_splits)
    from check_sent_kept [OF this] g show ?thesis by (auto intro: ring_grown_trans ring_kept_grown)
  qed
qed

lemma ring_slice:
  assumes "ring_rep s xs" "n \<le> length xs" "unat (tx_ring_start s) + n \<le> TX_RING_SIZE"
  shows "take n (drop (unat (tx_ring_start s)) (tx_ring s)) = take n xs"
proof (rule nth_equalityI)
  show "length (take n (drop (unat (tx_ring_start s)) (tx_ring s))) = length (take n xs)" using assms by (simp add: ring_rep_def)
  fix i assume "i < length (take n (drop (unat (tx_ring_start s)) (tx_ring s)))"
  hence i: "i < n" "i < length xs" "unat (tx_ring_start s) + i < TX_RING_SIZE" using assms by auto
  thus "take n (drop (unat (tx_ring_start s)) (tx_ring s)) ! i = take n xs ! i" using assms(1) by (simp add: ring_rep_def)
qed

section \<open>Packets reach the driver once and in order\<close>

text \<open>Where the worker stands in a round: outside one; with \<open>n\<close> packets found in the ring, after it released the ring lock; with \<open>k\<close>
  packets taken by the driver, before the first of its two writes; and between them.\<close>

datatype tx_phase = Tx_Idle | Tx_Found nat | Tx_Sent nat | Tx_Advanced

text \<open>The transmit path of a device: \<open>qs\<close> are the packets that were queued and \<open>acc\<close> those that the driver has taken, both in order: of the
  slots handed to it as many as \<^verbatim>\<open>mp_tx_packets\<close> counts (all for a deserialized driver, otherwise those before the first one for which the driver
  had no resources).  Packets are put at any time, also while the driver runs (\<open>ys\<close>), with two restrictions: none comes while the
  ring is full, since the queue is stopped then, and none fills the ring between the two writes.\<close>

inductive tx_path :: "miniport \<Rightarrow> tx_phase \<Rightarrow> wnd_state \<Rightarrow> ptr list \<Rightarrow> ptr list \<Rightarrow> bool" for mp where
  init: "ring_rep s [] \<Longrightarrow> tx_path mp Tx_Idle s [] []"
| put: "tx_path mp ph s qs acc \<Longrightarrow> ph \<noteq> Tx_Advanced \<Longrightarrow> \<not> is_tx_ring_full s \<Longrightarrow> tx_skbuff dma pa wm sa k s = Some (s', True) \<Longrightarrow>
    tx_path mp ph s' (qs @ [tx_ring s' ! unat (tx_ring_end s)]) acc"
| put_between: "tx_path mp Tx_Advanced s qs acc \<Longrightarrow> tx_skbuff dma pa wm sa k s = Some (s', True) \<Longrightarrow> tx_ring_end s' \<noteq> tx_ring_start s' \<Longrightarrow>
    tx_path mp Tx_Advanced s' (qs @ [tx_ring s' ! unat (tx_ring_end s)]) acc"
| busy: "tx_path mp ph s qs acc \<Longrightarrow> tx_skbuff dma pa wm sa k s = Some (s', False) \<Longrightarrow> tx_path mp ph s' qs acc"
| found: "tx_path mp Tx_Idle s qs acc \<Longrightarrow> tx_ok s \<Longrightarrow> tx_avail s = Some n \<Longrightarrow> tx_path mp (Tx_Found n) s qs acc"
| send: "tx_path mp (Tx_Found n) s qs acc \<Longrightarrow> m = min n (unat (max_tx_packets s)) \<Longrightarrow>
    mp_tx_packets mp (unat (tx_ring_start s)) m s = Some (s1, k) \<Longrightarrow> ring_rep s xs \<Longrightarrow> ring_rep s1 (xs @ ys) \<Longrightarrow>
    tx_path mp (if k = 0 then Tx_Idle else Tx_Sent k) s1 (qs @ ys) (acc @ take k (take m (drop (unat (tx_ring_start s)) (tx_ring s))))"
| advance: "tx_path mp (Tx_Sent k) s qs acc \<Longrightarrow> tx_path mp Tx_Advanced (advance_start k s) qs acc"
| clear: "tx_path mp Tx_Advanced s qs acc \<Longrightarrow> tx_path mp Tx_Idle (clear_full s) qs acc"
| complete: "tx_path mp ph s qs acc \<Longrightarrow> NdisMSendComplete mp p st s = Some s' \<Longrightarrow> tx_path mp ph s' qs acc"
| resources: "tx_path mp ph s qs acc \<Longrightarrow> tx_path mp ph (NdisMSendResourcesAvailable s) qs acc"
| status: "tx_path mp ph s qs acc \<Longrightarrow> tx_path mp ph (NdisMIndicateStatusComplete s) qs acc"

text \<open>The ring and what is accounted for, in each phase.  Between the two writes the full flag may be stale.\<close>

fun tx_account :: "tx_phase \<Rightarrow> wnd_state \<Rightarrow> ptr list \<Rightarrow> ptr list \<Rightarrow> ptr list \<Rightarrow> bool" where
  "tx_account Tx_Idle s qs acc xs \<longleftrightarrow> ring_rep s xs \<and> qs = acc @ xs"
| "tx_account (Tx_Found n) s qs acc xs \<longleftrightarrow> ring_rep s xs \<and> qs = acc @ xs \<and> n \<le> length xs \<and> unat (tx_ring_start s) + n \<le> TX_RING_SIZE"
| "tx_account (Tx_Sent k) s qs acc xs \<longleftrightarrow> ring_rep s xs \<and> 0 < k \<and> k \<le> length xs \<and> qs = acc @ drop k xs"
| "tx_account Tx_Advanced s qs acc xs \<longleftrightarrow> ring_rep (clear_full s) xs \<and> qs = acc @ xs"

lemma tx_account_cong:
  assumes "tx_ring s' = tx_ring s" "tx_ring_start s' = tx_ring_start s" "tx_ring_end s' = tx_ring_end s" "is_tx_ring_full s' = is_tx_ring_full s"
  shows "tx_account ph s' qs acc xs \<longleftrightarrow> tx_account ph s qs acc xs"
  using assms ring_rep_cong [of s' s xs] ring_rep_cong [of "clear_full s'" "clear_full s" xs] by (cases ph) (simp_all add: clear_full_def)

lemma tx_skbuff_put:
  assumes "tx_skbuff dma pa wm sa k s = Some (s', True)" "ring_rep s xs" "length xs < TX_RING_SIZE"
  shows "\<exists>p. ring_rep s' (xs @ [p]) \<and> p = tx_ring s' ! unat (tx_ring_end s)"
proof -
  from assms(1) obtain s1 p s2 where a: "alloc_tx_packet dma pa wm sa k s = Some (s1, p)" "ring_put p s1 = Some s2" "s' = s2\<lparr>tx_work_queued := True\<rparr>"
    by (auto simp: tx_skbuff_def split: Option.bind_splits if_splits)
  note m = tx_more_fields [OF conjunct1 [OF alloc_tx_packet_more [OF a(1)]]]
  have r1: "ring_rep s1 xs" using assms(2) ring_rep_cong [of s1 s xs] m by simp
  from ring_put_rep [OF this assms(3), of p] a(2) have r2: "ring_rep s2 (xs @ [p])" by auto
  hence r': "ring_rep s' (xs @ [p])" using ring_rep_cong [of s' s2 "xs @ [p]"] a(3) by simp
  have "tx_ring s2 = (tx_ring s1)[unat (tx_ring_end s1) := p]" "unat (tx_ring_end s1) < length (tx_ring s1)"
    using a(2) by (auto simp: ring_put_def wr_def Let_def split: if_splits Option.bind_splits)
  hence "p = tx_ring s' ! unat (tx_ring_end s)" using a(3) m by simp
  thus ?thesis using r' by blast
qed

lemma NdisMSendComplete_kept: "NdisMSendComplete mp p st s = Some s' \<Longrightarrow> ring_kept s s'"
proof -
  assume a: "NdisMSendComplete mp p st s = Some s'"
  show ?thesis
  proof (cases "mp_deserialized mp")
    case True
    thus ?thesis using a by (simp add: NdisMSendComplete_def ring_kept_free)
  next
    case False
    then obtain pk s2 where p: "packets s p = Some pk" and s2: "(if pk_status pk = NDIS_STATUS_NOT_RECOGNIZED
        then free_tx_packet p st (put_packet p (pk\<lparr>pk_status := st\<rparr>) s) else Some (put_packet p (pk\<lparr>pk_status := st\<rparr>) s)) = Some s2"
      and s': "s' = (if tx_ok s2 then s2 else s2\<lparr>tx_ok := True, tx_work_queued := True\<rparr>)"
      using a by (auto simp: NdisMSendComplete_def xchg_status_def split: Option.bind_splits)
    have "ring_kept s s2" using s2 ring_kept_trans [OF ring_kept_put ring_kept_free] ring_kept_put by (auto split: if_splits)
    thus ?thesis using s' by (simp add: ring_kept_def)
  qed
qed

lemma ring_put_between:
  assumes "ring_put p s = Some s'" "tx_ring_end s' \<noteq> tx_ring_start s'"
  shows "ring_put p (clear_full s) = Some (clear_full s')"
proof -
  define e2 where "e2 = (if tx_ring_end s + 1 = of_nat TX_RING_SIZE then 0 else tx_ring_end s + 1)"
  obtain ring where w: "wr (tx_ring s) (unat (tx_ring_end s)) p = Some ring"
    using assms(1) by (auto simp: ring_put_def split: Option.bind_splits)
  have s': "s' = (let s1 = s\<lparr>tx_ring := ring, tx_ring_end := e2\<rparr> in
      if e2 = tx_ring_start s then s1\<lparr>is_tx_ring_full := True, queue_stopped := True\<rparr> else s1)"
    using assms(1) w by (simp only: ring_put_def Let_def e2_def Option.bind.simps option.inject)
  have ne: "e2 \<noteq> tx_ring_start s" using assms(2) unfolding s' Let_def by (rule contrapos_nn) simp
  show ?thesis using w ne by (simp add: s' ring_put_def clear_full_def e2_def [symmetric])
qed

lemma tx_skbuff_between:
  assumes "tx_skbuff dma pa wm sa k s = Some (s', True)" "ring_rep (clear_full s) xs" "tx_ring_end s' \<noteq> tx_ring_start s'"
  shows "\<exists>p. ring_rep (clear_full s') (xs @ [p]) \<and> p = tx_ring s' ! unat (tx_ring_end s)"
proof -
  from assms(1) obtain s1 p s2 where a: "alloc_tx_packet dma pa wm sa k s = Some (s1, p)" "ring_put p s1 = Some s2" "s' = s2\<lparr>tx_work_queued := True\<rparr>"
    by (auto simp: tx_skbuff_def split: Option.bind_splits if_splits)
  note m = tx_more_fields [OF conjunct1 [OF alloc_tx_packet_more [OF a(1)]]]
  have r1: "ring_rep (clear_full s1) xs"
    using assms(2) ring_rep_cong [of "clear_full s1" "clear_full s" xs] m by (simp add: clear_full_def)
  have p: "ring_put p (clear_full s1) = Some (clear_full s2)" using ring_put_between [OF a(2)] assms(3) a(3) by simp
  have "length xs < TX_RING_SIZE" using r1 by (auto simp: ring_rep_def clear_full_def)
  from ring_put_rep [OF r1 this, of p] p have r2: "ring_rep (clear_full s2) (xs @ [p])" by simp
  hence r': "ring_rep (clear_full s') (xs @ [p])"
    using ring_rep_cong [of "clear_full s'" "clear_full s2" "xs @ [p]"] a(3) by (simp add: clear_full_def)
  have "tx_ring s2 = (tx_ring s1)[unat (tx_ring_end s1) := p]" "unat (tx_ring_end s1) < length (tx_ring s1)"
    using a(2) by (auto simp: ring_put_def wr_def Let_def split: if_splits Option.bind_splits)
  hence "p = tx_ring s' ! unat (tx_ring_end s)" using a(3) m by simp
  thus ?thesis using r' by blast
qed

lemma tx_account_put:
  assumes "tx_account ph s qs acc xs" "ph \<noteq> Tx_Advanced" "\<not> is_tx_ring_full s" "tx_skbuff dma pa wm sa k s = Some (s', True)"
  shows "\<exists>xs'. tx_account ph s' (qs @ [tx_ring s' ! unat (tx_ring_end s)]) acc xs'"
proof -
  have r: "ring_rep s xs" using assms(1,2) by (cases ph) auto
  hence "length xs < TX_RING_SIZE" using assms(3) by (auto simp: ring_rep_def)
  from tx_skbuff_put [OF assms(4) r this] have r': "ring_rep s' (xs @ [tx_ring s' ! unat (tx_ring_end s)])" by blast
  have "tx_ring_start s' = tx_ring_start s"
    using assms(4) by (auto simp: tx_skbuff_def ring_put_def Let_def split: Option.bind_splits if_splits dest!: alloc_tx_packet_more tx_more_fields(2))
  with r' assms(1,2) show ?thesis by (cases ph) (auto intro!: exI [of _ "xs @ [tx_ring s' ! unat (tx_ring_end s)]"])
qed

lemma tx_account_send:
  assumes "tx_account (Tx_Found n) s qs acc xs" "driver_ok mp" "m = min n (unat (max_tx_packets s))"
    "mp_tx_packets mp (unat (tx_ring_start s)) m s = Some (s1, k)" "ring_rep s1 (xs @ ys)"
  shows "tx_account (if k = 0 then Tx_Idle else Tx_Sent k) s1 (qs @ ys)
    (acc @ take k (take m (drop (unat (tx_ring_start s)) (tx_ring s)))) (xs @ ys)"
proof -
  have k: "k \<le> m" using mp_tx_packets_grown [OF assms(4,2)] by simp
  have m: "m \<le> length xs" "unat (tx_ring_start s) + m \<le> TX_RING_SIZE" using assms(1,3) by auto
  have "take k (take m (drop (unat (tx_ring_start s)) (tx_ring s))) = take k xs"
    using ring_slice [OF _ m] assms(1) k by (simp add: min_def)
  thus ?thesis using assms(1,5) k m by auto
qed

lemma tx_account_found: "tx_account Tx_Idle s qs acc xs \<Longrightarrow> tx_avail s = Some n \<Longrightarrow> tx_account (Tx_Found n) s qs acc xs"
  using tx_avail_rep [of s xs] by (auto simp: ring_rep_def split: if_splits)

text \<open>C25: As long as no packet comes while the ring is full and none fills the ring between the two writes that end a round of the worker (both
  lose packets), in every state that the steps of the worker, of \<^verbatim>\<open>tx_skbuff\<close> and of the completion handlers reach, the packets queued so far are
  those the driver has taken followed by those that wait in the ring: none is lost, duplicated or overtaken, whatever the driver returns and
  whatever is queued while it runs.  Taken are, of the slots handed to the driver, as many as mp_tx_packets counts; until the worker has moved the
  start of the ring they are still its first ones.\<close>

theorem tx_ring_fifo:
  assumes "tx_path mp ph s qs acc" "driver_ok mp"
  shows "\<exists>xs. case ph of
      Tx_Sent k \<Rightarrow> ring_rep s xs \<and> k \<le> length xs \<and> qs = acc @ drop k xs
    | Tx_Advanced \<Rightarrow> ring_rep (clear_full s) xs \<and> qs = acc @ xs
    | _ \<Rightarrow> ring_rep s xs \<and> qs = acc @ xs"
proof -
  from assms(1) have "\<exists>xs. tx_account ph s qs acc xs"
  proof (induction rule: tx_path.induct)
    case (put ph s qs acc dma pa wm sa k s')
    thus ?case using tx_account_put by blast
  next
    case (put_between s qs acc dma pa wm sa k s')
    then obtain xs where "ring_rep (clear_full s) xs" "qs = acc @ xs" by auto
    with tx_skbuff_between [OF put_between(2) _ put_between(3)] show ?case by fastforce
  next
    case (busy ph s qs acc dma pa wm sa k s')
    then obtain s1 p where "alloc_tx_packet dma pa wm sa k s = Some (s1, p)" "s' = s1\<lparr>queue_stopped := True\<rparr>"
      by (auto simp: tx_skbuff_def split: Option.bind_splits if_splits)
    hence "tx_state.more s' = tx_state.more s" by (auto dest: alloc_tx_packet_more)
    thus ?case using busy tx_account_cong [OF tx_more_fields(1-4)] by blast
  next
    case (found s qs acc n)
    thus ?case using tx_account_found by blast
  next
    case (send n s qs acc m s1 k xs ys)
    from send(6) obtain xs' where x: "tx_account (Tx_Found n) s qs acc xs'" by blast
    hence "xs' = xs" using ring_rep_unique send(4) by auto
    thus ?case using tx_account_send [OF _ assms(2) send(2,3,5)] x by blast
  next
    case (advance k s qs acc)
    then obtain xs where "ring_rep s xs" "0 < k" "k \<le> length xs" "qs = acc @ drop k xs" by auto
    thus ?case using finish_round_rep [of s xs k] by auto
  next
    case (complete ph s qs acc p st s')
    have "tx_account ph s' qs acc xs \<longleftrightarrow> tx_account ph s qs acc xs" for xs
      using NdisMSendComplete_kept [OF complete(2)] by (intro tx_account_cong) (auto simp: ring_kept_def)
    thus ?case using complete by blast
  next
    case (resources ph s qs acc)
    have "tx_account ph (NdisMSendResourcesAvailable s) qs acc xs \<longleftrightarrow> tx_account ph s qs acc xs" for xs
      by (intro tx_account_cong) (auto simp: NdisMSendResourcesAvailable_def)
    thus ?case using resources by blast
  next
    case (status ph s qs acc)
    have "tx_account ph (NdisMIndicateStatusComplete s) qs acc xs \<longleftrightarrow> tx_account ph s qs acc xs" for xs
      by (intro tx_account_cong) (auto simp: NdisMIndicateStatusComplete_def)
    thus ?case using status by blast
  qed auto
  thus ?thesis by (cases ph) auto
qed

text \<open>A device with an empty ring and a driver that takes packets and does nothing.\<close>

definition wnd_demo :: wnd_state where
  "wnd_demo = tx_state.extend tx_demo1 \<lparr>tx_ring = replicate 16 0, tx_ring_start = 0, tx_ring_end = 0, is_tx_ring_full = False, tx_ok = True,
     tx_work_queued = False\<rparr>"

definition mp_demo :: miniport where
  "mp_demo = \<lparr>mp_deserialized = True, mp_send_packets = Some (\<lambda>ps s. s), mp_send = (\<lambda>p fl s. (s, NDIS_STATUS_PENDING))\<rparr>"

lemma mp_demo_ok: "driver_ok mp_demo"
  by (simp add: driver_ok_def mp_demo_def ring_kept_grown ring_kept_refl)

lemma wnd_demo_rep: "ring_rep wnd_demo []"
  by (simp add: ring_rep_def wnd_demo_def tx_state.defs TX_RING_SIZE_def)

lemma wnd_demo_alloc: "\<exists>s'. alloc_tx_packet (\<lambda>p n. p) 0x7000 0x8000 0x6000 0x50 wnd_demo = Some (s', 0x7000)"
  by (simp add: wnd_demo_def tx_state.defs tx_demo_simps alloc_tx_packet_def)

lemma wnd_demo_put: "\<exists>s'. tx_skbuff (\<lambda>p n. p) 0x7000 0x8000 0x6000 0x50 wnd_demo = Some (s', True) \<and> tx_ring s' ! 0 = 0x7000"
proof -
  from wnd_demo_alloc obtain s1 where a: "alloc_tx_packet (\<lambda>p n. p) 0x7000 0x8000 0x6000 0x50 wnd_demo = Some (s1, 0x7000)" by blast
  note m = tx_more_fields [OF conjunct1 [OF alloc_tx_packet_more [OF a]]]
  have "ring_rep s1 []" using wnd_demo_rep ring_rep_cong [of s1 wnd_demo "[]"] m by simp
  from ring_put_rep [OF this, of "0x7000"] obtain s2 where s2: "ring_put 0x7000 s1 = Some s2" by (auto simp: TX_RING_SIZE_def)
  moreover have "tx_ring s2 ! 0 = 0x7000"
    using s2 m by (auto simp: ring_put_def wr_def Let_def wnd_demo_def tx_state.defs split: if_splits)
  ultimately show ?thesis using a by (simp add: tx_skbuff_def)
qed

theorem tx_ring_fifo_witness:
  "\<exists>s. tx_path mp_demo Tx_Idle s [0x7000] [] \<and> ring_rep s [0x7000]"
proof -
  obtain s where s: "tx_skbuff (\<lambda>p n. p) 0x7000 0x8000 0x6000 0x50 wnd_demo = Some (s, True)" "tx_ring s ! 0 = 0x7000" using wnd_demo_put by blast
  have e: "\<not> is_tx_ring_full wnd_demo" "tx_ring_end wnd_demo = 0" by (simp_all add: wnd_demo_def tx_state.defs)
  have p: "tx_path mp_demo Tx_Idle s [0x7000] []" using tx_path.put [OF tx_path.init [OF wnd_demo_rep] _ e(1) s(1)] e(2) s(2) by simp
  from tx_ring_fifo [OF p mp_demo_ok] p show ?thesis by auto
qed

section \<open>The worker ends\<close>

definition alive_kept :: "wnd_state \<Rightarrow> wnd_state \<Rightarrow> bool" where
  "alive_kept s s' \<longleftrightarrow> (\<forall>p. packets s p \<noteq> None \<longrightarrow> packets s' p \<noteq> None)"

text \<open>A driver that takes what it is given, to complete it later, with a record \<open>log\<close> of what it was given: one for groups of packets,
  deserialized or setting the status of each packet to pending, or one for single packets that answers pending.  It leaves
  the ring alone and the packets in place and keeps the transmit path open.\<close>

definition takes_all :: "miniport \<Rightarrow> (wnd_state \<Rightarrow> ptr list) \<Rightarrow> bool" where
  "takes_all mp log \<longleftrightarrow>
     (case mp_send_packets mp of
        Some f \<Rightarrow> (\<forall>ps s. ring_kept s (f ps s) \<and> alive_kept s (f ps s) \<and> tx_ok (f ps s) = tx_ok s \<and> log (f ps s) = log s @ ps \<and>
          (mp_deserialized mp \<or> (\<forall>p\<in>set ps. \<forall>pk. packets (f ps s) p = Some pk \<longrightarrow> pk_status pk = NDIS_STATUS_PENDING)))
      | None \<Rightarrow> (\<forall>p fl s. \<exists>s'. mp_send mp p fl s = (s', NDIS_STATUS_PENDING) \<and> ring_kept s s' \<and> alive_kept s s' \<and> tx_ok s' = tx_ok s \<and>
          log s' = log s @ [p])) \<and>
     (\<forall>n s. log (clear_full (advance_start n s)) = log s) \<and> (\<forall>p pk s. log (put_packet p pk s) = log s)"

lemma alive_kept_refl: "alive_kept s s"
  by (simp add: alive_kept_def)

lemma alive_kept_trans: "alive_kept s s1 \<Longrightarrow> alive_kept s1 s2 \<Longrightarrow> alive_kept s s2"
  by (simp add: alive_kept_def)

lemma put_packet_kept:
  "ring_kept s (put_packet p pk s)" "alive_kept s (put_packet p pk s)" "tx_ok (put_packet p pk s) = tx_ok s"
  "packets (put_packet p pk s) = (packets s)(p \<mapsto> pk)" "tx_ring (put_packet p pk s) = tx_ring s"
  by (simp_all add: ring_kept_put) (auto simp: put_packet_def alive_kept_def)

text \<open>What a call of \<^verbatim>\<open>mp_tx_packets\<close> leaves behind when the driver took all packets.\<close>

definition took :: "(wnd_state \<Rightarrow> ptr list) \<Rightarrow> ptr list \<Rightarrow> wnd_state \<Rightarrow> wnd_state \<Rightarrow> bool" where
  "took log ps s s' \<longleftrightarrow> ring_kept s s' \<and> alive_kept s s' \<and> tx_ok s' = tx_ok s \<and> log s' = log s @ ps"

lemma took_trans: "took log ps s s1 \<Longrightarrow> took log qs s1 s2 \<Longrightarrow> took log (ps @ qs) s s2"
  by (auto simp: took_def intro: ring_kept_trans alive_kept_trans)

lemma took_put: "\<forall>p pk s. log (put_packet p pk s) = log s \<Longrightarrow> took log [] s (put_packet p pk s)"
  by (simp add: took_def put_packet_kept)

lemma ring_window:
  "sent < n \<Longrightarrow> start + n \<le> length r \<Longrightarrow> drop sent (take n (drop start r)) = r ! (start + sent) # drop (Suc sent) (take n (drop start r))"
  using Cons_nth_drop_Suc [of sent "take n (drop start r)"] by simp

lemma check_sent_pending:
  assumes "\<forall>p pk s. log (put_packet p pk s) = log s" "tx_ok s" "start + n \<le> length (tx_ring s)" "sent \<le> n"
    "distinct (drop sent (take n (drop start (tx_ring s))))"
    "\<forall>p \<in> set (drop sent (take n (drop start (tx_ring s)))). \<exists>pk. packets s p = Some pk \<and> pk_status pk = NDIS_STATUS_PENDING"
  shows "\<exists>s'. check_sent start n sent s = Some (s', n) \<and> took log [] s s'"
  using assms(2-)
proof (induction d \<equiv> "n - sent" arbitrary: sent s)
  case 0
  thus ?case by (auto simp: check_sent.simps took_def ring_kept_refl alive_kept_refl)
next
  case (Suc d)
  let ?ps = "take n (drop start (tx_ring s))"
  have lt: "sent < n" using Suc.hyps(2) by simp
  have split: "drop sent ?ps = tx_ring s ! (start + sent) # drop (Suc sent) ?ps"
    using lt Suc.prems(2) ring_window by blast
  then obtain pk where pk: "packets s (tx_ring s ! (start + sent)) = Some pk" "pk_status pk = NDIS_STATUS_PENDING"
    using Suc.prems(5) by auto
  define s1 where "s1 = put_packet (tx_ring s ! (start + sent)) (pk\<lparr>pk_status := NDIS_STATUS_NOT_RECOGNIZED\<rparr>) s"
  have "check_sent start n sent s = check_sent start n (Suc sent) s1"
    using lt Suc.prems(1,2) pk by (simp add: check_sent.simps [of start n sent s] rd_def Let_def s1_def)
  moreover have "\<exists>s'. check_sent start n (Suc sent) s1 = Some (s', n) \<and> took log [] s1 s'"
  proof (rule Suc.hyps(1))
    have "tx_ring s ! (start + sent) \<notin> set (drop (Suc sent) ?ps)" using Suc.prems(4) split by simp
    thus "\<forall>p\<in>set (drop (Suc sent) (take n (drop start (tx_ring s1)))). \<exists>pk. packets s1 p = Some pk \<and> pk_status pk = NDIS_STATUS_PENDING"
      using Suc.prems(5) split by (auto simp: s1_def put_packet_kept)
  qed (use Suc.hyps(2) Suc.prems split lt in \<open>auto simp: s1_def put_packet_kept\<close>)
  moreover have "took log [] s s1" unfolding s1_def by (rule took_put [OF assms(1)])
  ultimately show ?case using took_trans by fastforce
qed

lemma send_loop_pending:
  assumes "takes_all mp log" "mp_send_packets mp = None" "tx_ok s" "start + n \<le> length (tx_ring s)" "sent \<le> n"
    "\<forall>p \<in> set (drop sent (take n (drop start (tx_ring s)))). packets s p \<noteq> None"
  shows "\<exists>s'. send_loop mp start n sent s = Some (s', n) \<and> took log (drop sent (take n (drop start (tx_ring s)))) s s'"
  using assms(3-)
proof (induction d \<equiv> "n - sent" arbitrary: sent s)
  case 0
  thus ?case by (auto simp: send_loop.simps took_def ring_kept_refl alive_kept_refl)
next
  case (Suc d)
  let ?ps = "take n (drop start (tx_ring s))" and ?p = "tx_ring s ! (start + sent)"
  have lt: "sent < n" using Suc.hyps(2) by simp
  have split: "drop sent ?ps = ?p # drop (Suc sent) ?ps"
    using lt Suc.prems(2) ring_window by blast
  then obtain pk where pk: "packets s ?p = Some pk" using Suc.prems(4) by auto
  define s1 where "s1 = put_packet ?p (pk\<lparr>pk_status := NDIS_STATUS_NOT_RECOGNIZED\<rparr>) s"
  have "\<exists>s2. mp_send mp ?p (pk_flags pk) s1 = (s2, NDIS_STATUS_PENDING) \<and> took log [?p] s1 s2"
    using assms(1,2) by (simp add: takes_all_def took_def)
  then obtain s2 where s2: "mp_send mp ?p (pk_flags pk) s1 = (s2, NDIS_STATUS_PENDING)" "took log [?p] s1 s2" by blast
  have t: "took log [?p] s s2"
    using took_trans [OF took_put s2(2) [unfolded s1_def]] assms(1) by (auto simp: takes_all_def)
  hence r: "tx_ring s2 = tx_ring s" "tx_ok s2" "\<And>q. packets s q \<noteq> None \<Longrightarrow> packets s2 q \<noteq> None"
    using Suc.prems(1) by (auto simp: took_def ring_kept_def alive_kept_def)
  have "send_loop mp start n sent s = send_loop mp start n (Suc sent) s2"
    using lt Suc.prems(1,2) pk s2(1) by (simp add: send_loop.simps [of mp start n sent s] rd_def Let_def s1_def)
  moreover have "\<exists>s'. send_loop mp start n (Suc sent) s2 = Some (s', n) \<and> took log (drop (Suc sent) ?ps) s2 s'"
    using Suc.hyps(1) [of "Suc sent" s2] Suc.hyps(2) Suc.prems split lt r by auto
  ultimately show ?case using took_trans [OF t] split by fastforce
qed

lemma mp_tx_packets_takes:
  assumes "takes_all mp log" "tx_ok s" "start + n \<le> length (tx_ring s)"
    "distinct (take n (drop start (tx_ring s)))" "\<forall>p \<in> set (take n (drop start (tx_ring s))). packets s p \<noteq> None"
  shows "\<exists>s'. mp_tx_packets mp start n s = Some (s', n) \<and> took log (take n (drop start (tx_ring s))) s s'"
proof (cases "mp_send_packets mp")
  case None
  thus ?thesis using send_loop_pending [OF assms(1) None assms(2,3), of 0] assms(5) by (simp add: mp_tx_packets_def)
next
  case (Some f)
  let ?ps = "take n (drop start (tx_ring s))"
  have t: "took log ?ps s (f ?ps s)" using assms(1) Some by (simp add: takes_all_def took_def)
  hence r: "tx_ring (f ?ps s) = tx_ring s" "tx_ok (f ?ps s)" using assms(2) by (auto simp: took_def ring_kept_def)
  show ?thesis
  proof (cases "mp_deserialized mp")
    case True
    thus ?thesis using Some t assms(3) by (simp add: mp_tx_packets_def)
  next
    case False
    have "\<exists>pk. packets (f ?ps s) p = Some pk \<and> pk_status pk = NDIS_STATUS_PENDING" if "p \<in> set ?ps" for p
      using assms(1,5) t that False Some by (fastforce simp: takes_all_def took_def alive_kept_def)
    moreover have "\<forall>p pk s. log (put_packet p pk s) = log s" using assms(1) by (simp add: takes_all_def)
    ultimately obtain s' where "check_sent start n 0 (f ?ps s) = Some (s', n)" "took log [] (f ?ps s) s'"
      using check_sent_pending [of log "f ?ps s" start n 0] r assms(3,4) by auto
    thus ?thesis using Some False assms(3) took_trans [OF t, of "[]" s'] by (simp add: mp_tx_packets_def)
  qed
qed

lemma tx_round_takes:
  assumes "ring_rep s xs" "xs \<noteq> []" "tx_ok s" "takes_all mp log" "max_tx_packets s \<noteq> 0" "distinct xs" "\<forall>p \<in> set xs. packets s p \<noteq> None"
  shows "\<exists>s' n. tx_round mp s = Some (s', True) \<and> 0 < n \<and> n \<le> length xs \<and> ring_rep s' (drop n xs) \<and> tx_ok s' \<and>
    max_tx_packets s' = max_tx_packets s \<and> log s' = log s @ take n xs \<and> (\<forall>p \<in> set (drop n xs). packets s' p \<noteq> None)"
proof -
  let ?b = "unat (tx_ring_start s)"
  define n where "n = min (min (length xs) (TX_RING_SIZE - ?b)) (unat (max_tx_packets s))"
  have b: "?b < TX_RING_SIZE" "length (tx_ring s) = TX_RING_SIZE" using assms(1) by (auto simp: ring_rep_def)
  have "unat (max_tx_packets s) \<noteq> 0" using assms(5) by (simp add: unat_eq_0)
  hence n: "0 < n" "n \<le> length xs" "?b + n \<le> TX_RING_SIZE" using assms(2) b by (auto simp: n_def)
  note sl = ring_slice [OF assms(1) n(2,3)]
  obtain s1 where s1: "mp_tx_packets mp ?b n s = Some (s1, n)" "took log (take n xs) s s1"
    using mp_tx_packets_takes [OF assms(4,3), of ?b n] n b sl assms(6,7) by (auto dest: in_set_takeD)
  hence run: "tx_round mp s = Some (clear_full (advance_start n s1), True)"
    using assms(2,3) tx_avail_rep [OF assms(1)] n(1) by (simp add: tx_round_def n_def)
  have k: "ring_kept s s1" "tx_ok s1" "log s1 = log s @ take n xs" "alive_kept s s1" using s1(2) assms(3) by (auto simp: took_def)
  have "ring_rep s1 xs" using assms(1) k(1) by (simp add: ring_kept_def ring_rep_def)
  from finish_round_rep [OF this n(1,2)] have "ring_rep (clear_full (advance_start n s1)) (drop n xs)" .
  moreover have "tx_ok (clear_full (advance_start n s1))" "max_tx_packets (clear_full (advance_start n s1)) = max_tx_packets s"
    "packets (clear_full (advance_start n s1)) = packets s1"
    using k(1,2) by (simp_all add: clear_full_def advance_start_def ring_kept_def)
  moreover have "log (clear_full (advance_start n s1)) = log s @ take n xs" using k(3) assms(4) by (simp add: takes_all_def)
  moreover have "packets s1 p \<noteq> None" if "p \<in> set (drop n xs)" for p
    using that assms(7) k(4) by (auto simp: alive_kept_def dest: in_set_dropD)
  ultimately show ?thesis using run n by (intro exI [of _ "clear_full (advance_start n s1)"] exI [of _ n]) simp
qed

text \<open>C26: With a driver that takes every packet it is given (one for groups, deserialized or answering pending in each packet, or one for single
  packets that answers pending) and leaves the ring alone, a positive limit, and a ring of distinct packets to which none is added meanwhile, the
  worker ends, with an empty ring and the transmit path still open, and has handed every packet of the ring to the driver exactly once and in order.\<close>

theorem tx_worker_drains:
  assumes "ring_rep s xs" "tx_ok s" "takes_all mp log" "max_tx_packets s \<noteq> 0" "distinct xs" "\<forall>p \<in> set xs. packets s p \<noteq> None"
  shows "\<exists>s'. tx_worker mp s = Some s' \<and> ring_rep s' [] \<and> tx_ok s' \<and> log s' = log s @ xs"
  using assms(1,2,4-)
proof (induction "length xs" arbitrary: s xs rule: less_induct)
  case less
  show ?case
  proof (cases "xs = []")
    case True
    hence "tx_worker mp s = Some s" using tx_avail_rep [OF less.prems(1)] less.prems(2) by (subst tx_worker.simps) (simp add: tx_round_def)
    thus ?thesis using less.prems True by auto
  next
    case False
    from tx_round_takes [OF less.prems(1) False less.prems(2) assms(3) less.prems(3-)] obtain s1 n where
      r: "tx_round mp s = Some (s1, True)" "0 < n" "n \<le> length xs" "ring_rep s1 (drop n xs)" "tx_ok s1" "max_tx_packets s1 = max_tx_packets s"
        "log s1 = log s @ take n xs" "\<forall>p \<in> set (drop n xs). packets s1 p \<noteq> None" by blast
    have "tx_worker mp s = tx_worker mp s1" by (subst tx_worker.simps) (simp add: r(1))
    moreover have "\<exists>s'. tx_worker mp s1 = Some s' \<and> ring_rep s' [] \<and> tx_ok s' \<and> log s' = log s1 @ drop n xs"
      by (rule less.hyps) (use r less.prems in auto)
    ultimately show ?thesis using r(7) by auto
  qed
qed

text \<open>A driver that notes the packets in the list of DMA mappings.\<close>

definition mp_log :: miniport where
  "mp_log = mp_demo\<lparr>mp_send_packets := Some (\<lambda>ps s. s\<lparr>dma_mapped := dma_mapped s @ map (\<lambda>p. \<lparr>sg_address = p, sg_length = 0\<rparr>) ps\<rparr>)\<rparr>"

text \<open>Three packets, the last one behind the wrap-around.\<close>

definition wnd_three :: wnd_state where
  "wnd_three = wnd_demo\<lparr>packets := (\<lambda>p. Some \<lparr>buffer_head = 0, buffer_tail = 0, pk_pool = 0, valid_counts = True, packet_flags = 0,
       oob_offset = 0, reserved0 = 0, reserved1 = 0, pk_len = 0, pk_flags = 0, pk_status = 0, pk_size = 0\<rparr>), tx_ring := (replicate 16 0)[14 := 0x1000, 15 := 0x2000, 0 := 0x3000], tx_ring_start := 14, tx_ring_end := 1\<rparr>"

lemma wnd_three_rep: "ring_rep wnd_three [0x1000, 0x2000, 0x3000]"
  by (auto simp: ring_rep_def wnd_three_def wnd_demo_def tx_state.defs TX_RING_SIZE_def less_Suc_eq)

lemma wnd_three_fields: "tx_ok wnd_three" "max_tx_packets wnd_three = 16" "dma_mapped wnd_three = []"
  by (simp_all add: wnd_three_def wnd_demo_def tx_state.defs tx_demo_simps)

theorem tx_worker_drains_witness:
  "\<exists>s'. tx_worker mp_log wnd_three = Some s' \<and> ring_rep s' [] \<and> map sg_address (dma_mapped s') = [0x1000, 0x2000, 0x3000]"
proof -
  have "takes_all mp_log (\<lambda>s. map sg_address (dma_mapped s))"
    by (simp add: takes_all_def mp_log_def mp_demo_def ring_kept_def alive_kept_def clear_full_def advance_start_def put_packet_def comp_def)
  moreover have "packets wnd_three p \<noteq> None" for p by (simp add: wnd_three_def)
  ultimately show ?thesis
    using tx_worker_drains [OF wnd_three_rep wnd_three_fields(1), of mp_log "\<lambda>s. map sg_address (dma_mapped s)"] wnd_three_fields(2,3) by auto
qed

text \<open>If the driver reports that it accepts no packets at once, the limit is zero, and the worker repeats a round that changes nothing: it never
  ends.\<close>

lemma tx_worker_repeats: "tx_round mp s = Some (s, True) \<Longrightarrow> tx_worker mp s = None"
proof (rule ccontr)
  assume r: "tx_round mp s = Some (s, True)" and "tx_worker mp s \<noteq> None"
  then obtain s' where "tx_worker mp s = Some s'" by blast
  hence "tx_round mp s \<noteq> Some (s, True)"
    by (rule tx_worker.raw_induct [rotated]) (auto split: Option.bind_splits if_splits)
  thus False using r by blast
qed

theorem tx_worker_spins:
  assumes "ring_rep s xs" "xs \<noteq> []" "tx_ok s" "mp_send_packets mp = None" "max_send_packets (mp_deserialized mp) (Some 0) = max_tx_packets s"
    "\<not> mp_deserialized mp"
  shows "tx_worker mp s = None"
proof -
  have "max_tx_packets s = 0" using assms(5,6) by (simp add: max_send_packets_def Let_def)
  hence "tx_round mp s = Some (s, True)"
    using assms(2-4) tx_avail_rep [OF assms(1)] by (simp add: tx_round_def mp_tx_packets_def send_loop.simps)
  thus ?thesis by (rule tx_worker_repeats)
qed

theorem tx_worker_spins_witness:
  "tx_worker (mp_demo\<lparr>mp_deserialized := False, mp_send_packets := None\<rparr>) (wnd_three\<lparr>max_tx_packets := 0\<rparr>) = None"
proof (rule tx_worker_spins)
  show "ring_rep (wnd_three\<lparr>max_tx_packets := 0\<rparr>) [0x1000, 0x2000, 0x3000]" using wnd_three_rep by (simp add: ring_rep_def)
qed (simp_all add: mp_demo_def wnd_three_fields max_send_packets_def Let_def)

section \<open>Lost packets\<close>

text \<open>The worker ends a round with two writes outside the ring lock.  If packets are put between them and fill the ring, the second write makes a
  full ring look empty: its 16 packets are not sent, and the next packets overwrite them.\<close>

theorem tx_ring_race:
  assumes "ring_rep s xs" "length xs = 15"
  shows "\<exists>s1 s2. ring_put p (advance_start 1 s) = Some s1 \<and> ring_put q s1 = Some s2 \<and> ring_rep s2 (tl xs @ [p, q]) \<and> ring_rep (clear_full s2) []"
proof -
  have "\<not> is_tx_ring_full s" using assms by (simp add: ring_rep_def TX_RING_SIZE_def)
  hence "clear_full (advance_start 1 s) = advance_start 1 s" by (simp add: clear_full_def advance_start_def)
  with finish_round_rep [OF assms(1), of 1] assms(2) have a: "ring_rep (advance_start 1 s) (tl xs)" by (simp add: drop_Suc)
  from ring_put_rep [OF this, of p] assms(2) obtain s1 where s1: "ring_put p (advance_start 1 s) = Some s1" "ring_rep s1 (tl xs @ [p])"
    by (auto simp: TX_RING_SIZE_def)
  from ring_put_rep [OF s1(2), of q] assms(2) obtain s2 where s2: "ring_put q s1 = Some s2" "ring_rep s2 (tl xs @ [p, q])"
    by (auto simp: TX_RING_SIZE_def)
  have "length (tl xs @ [p, q]) = TX_RING_SIZE" using assms(2) by (simp add: TX_RING_SIZE_def)
  hence "ring_rep (clear_full s2) []" using s2(2) by (simp add: ring_rep_def clear_full_def TX_RING_SIZE_def)
  thus ?thesis using s1(1) s2 by blast
qed


definition wnd_full :: "nat \<Rightarrow> wnd_state" where
  "wnd_full n = wnd_demo\<lparr>tx_ring := map of_nat [1..<17], tx_ring_end := of_nat (n mod 16), is_tx_ring_full := (n = 16)\<rparr>"

lemma wnd_full_rep: "n \<le> 16 \<Longrightarrow> ring_rep (wnd_full n) (map of_nat [1..<Suc n])"
  by (auto simp: ring_rep_def wnd_full_def wnd_demo_def tx_state.defs TX_RING_SIZE_def unat_of_nat nth_append simp del: upt_Suc)

theorem tx_ring_race_witness:
  "\<exists>s1 s2. ring_put 0x1000 (advance_start 1 (wnd_full 15)) = Some s1 \<and> ring_put 0x2000 s1 = Some s2 \<and> is_tx_ring_full s2 \<and> ring_rep (clear_full s2) []"
proof -
  from tx_ring_race [OF wnd_full_rep [of 15], of "0x1000" "0x2000"] obtain s1 s2 where
    r: "ring_put 0x1000 (advance_start 1 (wnd_full 15)) = Some s1" "ring_put 0x2000 s1 = Some s2" "ring_rep s2 (tl (map of_nat [1..<Suc 15]) @ [0x1000, 0x2000])"
      "ring_rep (clear_full s2) []" by auto
  moreover have "is_tx_ring_full s2" using r(3) by (simp add: ring_rep_def TX_RING_SIZE_def)
  ultimately show ?thesis by blast
qed

section \<open>Removal of the device\<close>

definition ring_slots :: "wnd_state \<Rightarrow> ptr list \<Rightarrow> bool" where
  "ring_slots s xs \<longleftrightarrow> length (tx_ring s) = TX_RING_SIZE \<and> unat (tx_ring_start s) < TX_RING_SIZE \<and>
     (\<forall>i<length xs. xs ! i = tx_ring s ! ((unat (tx_ring_start s) + i) mod TX_RING_SIZE))"

lemma tx_rep_cong:
  assumes "tx_state.truncate s' = tx_state.truncate s"
  shows "tx_rep s' ts \<longleftrightarrow> tx_rep s ts"
proof -
  have e: "mdls s' = mdls s" "wrap_mdl_list s' = wrap_mdl_list s" "buffer_pools s' = buffer_pools s" "packets s' = packets s" "packet_pools s' = packet_pools s"
    "tx_packet_pool s' = tx_packet_pool s" "tx_buffer_pool s' = tx_buffer_pool s" "skbs s' = skbs s" "oob_data s' = oob_data s" "sg_dma_size s' = sg_dma_size s"
    "sg_lists s' = sg_lists s"
    using assms by (simp_all add: tx_state.defs)
  show ?thesis
    by (simp add: tx_rep_def e pp_rep_cong [OF e(4,5)] bp_rep_cong [OF e(1-3)] flight_ok_def sg_apart_def)
qed

lemma drain_ring_rep:
  assumes "tx_rep s ts" "ring_slots s xs" "n \<le> length xs" "distinct xs" "set xs \<subseteq> fl_packet ` set ts"
  shows "\<exists>s'. drain_ring n s = Some s' \<and> tx_rep s' (filter (\<lambda>t. fl_packet t \<notin> set (take n xs)) ts)"
  using assms
proof (induction n arbitrary: s ts xs)
  case 0
  thus ?case by simp
next
  case (Suc n)
  then obtain x xs' where xs: "xs = x # xs'" by (cases xs) auto
  then obtain t where t: "t \<in> set ts" "fl_packet t = x" using Suc.prems(5) by auto
  have rd: "rd (tx_ring s) (unat (tx_ring_start s)) = Some x" using Suc.prems(2) by (auto simp: ring_slots_def rd_def xs)
  from free_tx_packet_rep [OF Suc.prems(1) t(1), of NDIS_STATUS_CLOSING] t(2) obtain s1 where
    s1: "free_tx_packet x NDIS_STATUS_CLOSING s = Some s1" "tx_rep s1 (remove1 t ts)" "tx_state.more s1 = tx_state.more s" by blast
  have d: "distinct (map fl_packet ts)" using Suc.prems(1) by (auto simp: tx_rep_def dest: pp_rep_distinct)
  hence rm: "remove1 t ts = filter (\<lambda>u. fl_packet u \<noteq> x) ts"
    using t by (subst distinct_remove1_removeAll) (auto simp: distinct_map removeAll_filter_not_eq dest: inj_onD intro!: filter_cong)
  let ?s = "advance_start 1 s1"
  have b: "unat (tx_ring_start ?s) = (unat (tx_ring_start s) + 1) mod TX_RING_SIZE"
    using tx_more_fields(2) [OF s1(3)] by (simp add: advance_start_def unat_ring_index TX_RING_SIZE_def)
  have "ring_slots ?s xs'"
  proof -
    have "xs' ! i = tx_ring s ! (((unat (tx_ring_start s) + 1) mod TX_RING_SIZE + i) mod TX_RING_SIZE)" if "i < length xs'" for i
    proof -
      have "xs' ! i = xs ! Suc i" by (simp add: xs)
      also have "\<dots> = tx_ring s ! ((unat (tx_ring_start s) + Suc i) mod TX_RING_SIZE)" 
        using Suc.prems(2) that unfolding ring_slots_def by (metis Suc_less_eq length_Cons xs)
      also have "(unat (tx_ring_start s) + Suc i) mod TX_RING_SIZE = ((unat (tx_ring_start s) + 1) mod TX_RING_SIZE + i) mod TX_RING_SIZE"
        by (simp add: mod_add_left_eq)
      finally show ?thesis .
    qed
    moreover have r: "tx_ring ?s = tx_ring s" using tx_more_fields(1) [OF s1(3)] by (simp add: advance_start_def)
    ultimately show ?thesis using Suc.prems(2) unfolding ring_slots_def b r by (simp add: TX_RING_SIZE_def)
  qed
  moreover have "tx_rep ?s (remove1 t ts)" using s1(2) by (subst tx_rep_cong [of _ s1]) (simp_all add: advance_start_def tx_state.defs)
  moreover have "set xs' \<subseteq> fl_packet ` set (remove1 t ts)"
  proof
    fix y assume y: "y \<in> set xs'"
    then obtain u where "u \<in> set ts" "fl_packet u = y" using Suc.prems(5) by (auto simp: xs)
    moreover have "y \<noteq> x" using y Suc.prems(4) by (auto simp: xs)
    ultimately show "y \<in> fl_packet ` set (remove1 t ts)" unfolding rm by force
  qed
  ultimately obtain s' where "drain_ring n ?s = Some s'" "tx_rep s' (filter (\<lambda>u. fl_packet u \<notin> set (take n xs')) (remove1 t ts))"
    using Suc.IH [of ?s "remove1 t ts" xs'] Suc.prems(3,4) by (auto simp: xs)
  thus ?case using rd s1(1) by (auto simp: rm xs conj_commute)
qed

lemma tx_pending_rep:
  assumes "ring_rep s xs"
  shows "tx_pending s = (if length xs = TX_RING_SIZE then TX_RING_SIZE - 1 else length xs)"
proof -
  let ?b = "unat (tx_ring_start s)" and ?e = "unat (tx_ring_end s)" and ?n = "length xs"
  have e: "?e = (?b + ?n) mod 16" "?b < 16" "?n \<le> 16" "is_tx_ring_full s \<longleftrightarrow> ?n = 16" using assms by (auto simp: ring_rep_def TX_RING_SIZE_def)
  thus ?thesis using ring_distance [OF assms]
    by (cases "?b + ?n < 16") (auto simp: tx_pending_def Let_def TX_RING_SIZE_def ring_mod)
qed

text \<open>Removing the device throws away the packets in the ring, each with its buffer and socket buffer, except that of a full ring only 15 are thrown
  away: the last one stays in flight, and its pool is freed with the packet in use.\<close>

theorem remove_pending_frees:
  assumes "tx_rep s ts" "ring_rep s xs" "distinct xs" "set xs \<subseteq> fl_packet ` set ts"
  shows "\<exists>s'. remove_pending s = Some s' \<and>
    tx_rep s' (filter (\<lambda>t. fl_packet t \<notin> set (if length xs = TX_RING_SIZE then butlast xs else xs)) ts)"
proof -
  let ?s = "clear_full (s\<lparr>tx_ok := False\<rparr>)"
  have "tx_rep ?s ts" using assms(1) by (subst tx_rep_cong [of _ s]) (simp_all add: clear_full_def tx_state.defs)
  moreover have "ring_slots ?s xs" using assms(2) by (simp add: ring_slots_def ring_rep_def clear_full_def)
  moreover have "tx_pending s \<le> length xs" using tx_pending_rep [OF assms(2)] by (simp add: TX_RING_SIZE_def)
  ultimately obtain s' where "drain_ring (tx_pending s) ?s = Some s'" "tx_rep s' (filter (\<lambda>t. fl_packet t \<notin> set (take (tx_pending s) xs)) ts)"
    using drain_ring_rep assms(3,4) by blast
  moreover have "take (tx_pending s) xs = (if length xs = TX_RING_SIZE then butlast xs else xs)"
    using tx_pending_rep [OF assms(2)] by (simp add: butlast_conv_take)
  ultimately show ?thesis by (simp add: remove_pending_def)
qed


theorem remove_pending_frees_witness:
  "\<exists>s s'. ring_rep s [0x7000] \<and> skbs s 0x50 \<noteq> None \<and> remove_pending s = Some s' \<and> tx_rep s' []"
proof -
  have "tx_rep wnd_demo []" using tx_run_rep [OF tx_demo1_run] by (subst tx_rep_cong [of _ tx_demo1]) (simp_all add: wnd_demo_def tx_state.defs)
  moreover have "skbs wnd_demo = skbs tx_demo1" "sg_lists wnd_demo = sg_lists tx_demo1" "packets wnd_demo = packets tx_demo1" "mdls wnd_demo = mdls tx_demo1"
    "wrap_mdl_list wnd_demo = wrap_mdl_list tx_demo1" by (simp_all add: wnd_demo_def tx_state.defs)
  ultimately obtain s1 where a: "alloc_tx_packet (\<lambda>p n. p) 0x7000 0x8000 0x6000 0x50 wnd_demo = Some (s1, 0x7000)" "skbs s1 0x50 \<noteq> None"
      "\<exists>b. tx_rep s1 [(0x7000, b, 0x50)]"
    using alloc_tx_packet_rep [of wnd_demo "[]" "0x7000" "0x8000" "0x50" demo_skb "0x6000" "\<lambda>p n. p"] demo_skb_fits tx_demo1_fields(1-4) wnd_demo_alloc
    by (auto simp: packet_fresh_def mdl_fresh_def)
  then obtain b where b: "tx_rep s1 [(0x7000, b, 0x50)]" by blast
  have "ring_rep s1 []" using wnd_demo_rep ring_rep_more [OF conjunct1 [OF alloc_tx_packet_more [OF a(1)]]] by simp
  from ring_put_rep [OF this, of "0x7000"] obtain s2 where s2: "ring_put 0x7000 s1 = Some s2" "ring_rep s2 [0x7000]" by (auto simp: TX_RING_SIZE_def)
  have "\<not> is_tx_ring_full s2" using s2(2) by (simp add: ring_rep_def TX_RING_SIZE_def)
  hence "tx_state.truncate s2 = tx_state.truncate s1" using s2(1) by (auto simp: ring_put_def Let_def tx_state.defs split: Option.bind_splits if_splits)
  hence r2: "tx_rep s2 [(0x7000, b, 0x50)]" "skbs s2 0x50 \<noteq> None" using b a(2) tx_rep_cong [of s2 s1] by (auto simp: tx_state.defs)
  from remove_pending_frees [OF r2(1) s2(2)] s2(2) r2(2) show ?thesis by (auto simp: TX_RING_SIZE_def)
qed

end
