(* ===== verification/Mp_Request.thy ===== *)
theory Mp_Request
  imports Byte_Image Tx_Ring
begin

text \<open>
  Requests to the miniport driver, \<^verbatim>\<open>mp_request\<close> of \<^verbatim>\<open>wrapndis.c\<close> and its inline wrappers in \<^verbatim>\<open>wrapndis.h\<close>, with the
  completion handlers of \<^verbatim>\<open>ndis.c\<close>.

  The driver is a parameter: the record \<open>ndis_miniport\<close> of its entry points over a driver state \<open>'d\<close>.  A query or set call gets the request
  buffer and answers with a status and the bytes it writes at the start of the buffer; it does not write beyond the length it was given.
  When it answers \<^verbatim>\<open>NDIS_STATUS_PENDING\<close> the caller sleeps, and \<open>mp_wait\<close> says how that sleep ends.  Taking a mutex that is held, and a
  sleep that never ends, block the caller for good: the operation is \<open>None\<close>.  Each request takes and releases \<^verbatim>\<open>ndis_req_mutex\<close>, so an
  operation that returns has left the mutex free and touched nothing else of the device (\<open>mp_request_frame\<close>).
\<close>

section \<open>The driver and the request channel\<close>

type_synonym ndis_oid = u32

datatype ndis_request_type = NdisRequestQueryInformation | NdisRequestSetInformation | NdisRequestOther

text \<open>How the sleep for a pending call ends: the driver calls the completion handler with a status and the value that becomes
  \<^verbatim>\<open>ndis_req_done\<close>, a signal arrives, or neither ever happens.\<close>

datatype mp_wait = Completed u32 int | Interrupted | Never

record mp_reply =
  rp_status :: u32
  rp_wait :: mp_wait
  rp_out :: "u8 list"
  rp_written :: u32
  rp_needed :: u32

text \<open>What the initialisation of a driver leaves behind in the device besides its status: the attributes and check interval it passed to
  \<^verbatim>\<open>NdisMSetAttributesEx\<close>, whether it registered an interrupt, and the timers it initialised.\<close>

record mp_init_reply =
  ir_status :: u32
  ir_no_halt_on_suspend :: bool
  ir_surprise_remove_ok :: bool
  ir_hangcheck_interval :: nat
  ir_interrupt :: bool
  ir_timers :: "nat list"

text \<open>The entry points of a driver. \<^verbatim>\<open>mp_halt_fn\<close> says whether the driver deregistered its interrupt;
  an absent function pointer is \<open>None\<close>.\<close>

record 'd ndis_miniport =
  mp_queryinfo :: "ndis_oid \<Rightarrow> u8 list \<Rightarrow> 'd \<Rightarrow> mp_reply \<times> 'd"
  mp_setinfo :: "ndis_oid \<Rightarrow> u8 list \<Rightarrow> 'd \<Rightarrow> mp_reply \<times> 'd"
  mp_init_fn :: "('d \<Rightarrow> mp_init_reply \<times> 'd) option"
  mp_halt_fn :: "'d \<Rightarrow> bool \<times> 'd"
  mp_reset_fn :: "'d \<Rightarrow> u32 \<times> mp_wait \<times> u8 \<times> 'd"
  mp_hangcheck_fn :: "('d \<Rightarrow> bool \<times> 'd) option"
  mp_pnp_event_fn :: "(nat \<Rightarrow> u8 list \<Rightarrow> 'd \<Rightarrow> 'd) option"

record 'd req_state =
  drv :: 'd
  ndis_req_mutex :: bool
  tx_ring_mutex :: bool
  ndis_req_done :: int
  ndis_req_status :: u32

abbreviation NDIS_STATUS_NOT_SUPPORTED :: u32 where "NDIS_STATUS_NOT_SUPPORTED \<equiv> 0xC00000BB"
abbreviation NDIS_STATUS_INVALID_LENGTH :: u32 where "NDIS_STATUS_INVALID_LENGTH \<equiv> 0xC0010014"
abbreviation NDIS_STATUS_BUFFER_TOO_SHORT :: u32 where "NDIS_STATUS_BUFFER_TOO_SHORT \<equiv> 0xC0010016"
abbreviation NDIS_STATUS_INVALID_DATA :: u32 where "NDIS_STATUS_INVALID_DATA \<equiv> 0xC0010015"

text \<open>\<^verbatim>\<open>mutex_lock\<close> by a task that already holds the mutex, or whose holder never releases it, does not return.\<close>

definition lock_req :: "('d, 'z) req_state_scheme \<Rightarrow> ('d, 'z) req_state_scheme option" where
  "lock_req w = (if ndis_req_mutex w then None else Some (w\<lparr>ndis_req_mutex := True\<rparr>))"

text \<open>\<^verbatim>\<open>mutex_unlock\<close>.  Unlocking a mutex that is not held is an error of the caller, which the kernel does not detect without its mutex
  debugging; the mutex is then free as before.  \<^verbatim>\<open>mp_halt\<close> does this.\<close>

definition unlock_req :: "('d, 'z) req_state_scheme \<Rightarrow> ('d, 'z) req_state_scheme" where
  "unlock_req w = w\<lparr>ndis_req_mutex := False\<rparr>"

definition lock_tx :: "('d, 'z) req_state_scheme \<Rightarrow> ('d, 'z) req_state_scheme option" where
  "lock_tx w = (if tx_ring_mutex w then None else Some (w\<lparr>tx_ring_mutex := True\<rparr>))"

definition unlock_tx :: "('d, 'z) req_state_scheme \<Rightarrow> ('d, 'z) req_state_scheme" where
  "unlock_tx w = w\<lparr>tx_ring_mutex := False\<rparr>"

text \<open>The completion handlers a driver calls, which record the status and wake the sleeper.\<close>

definition NdisMQueryInformationComplete :: "u32 \<Rightarrow> ('d, 'z) req_state_scheme \<Rightarrow> ('d, 'z) req_state_scheme" where
  "NdisMQueryInformationComplete status w = w\<lparr>ndis_req_status := status, ndis_req_done := 1\<rparr>"

definition NdisMSetInformationComplete :: "u32 \<Rightarrow> ('d, 'z) req_state_scheme \<Rightarrow> ('d, 'z) req_state_scheme" where
  "NdisMSetInformationComplete status w = w\<lparr>ndis_req_status := status, ndis_req_done := 1\<rparr>"

definition NdisMResetComplete :: "u32 \<Rightarrow> u8 \<Rightarrow> ('d, 'z) req_state_scheme \<Rightarrow> ('d, 'z) req_state_scheme" where
  "NdisMResetComplete status address_reset w = w\<lparr>ndis_req_status := status, ndis_req_done := uint address_reset + 1\<rparr>"

text \<open>\<^verbatim>\<open>wait_condition (ndis_req_done > 0)\<close> after a pending call; the status is the one the caller goes on with.\<close>

definition req_wait :: "mp_wait \<Rightarrow> ('d, 'z) req_state_scheme \<Rightarrow> (u32 \<times> ('d, 'z) req_state_scheme) option" where
  "req_wait e w =
     (case e of
        Completed st done \<Rightarrow> if done > 0 then Some (st, w\<lparr>ndis_req_status := st, ndis_req_done := done\<rparr>) else None
      | Interrupted \<Rightarrow> Some (NDIS_STATUS_FAILURE, w)
      | Never \<Rightarrow> None)"

definition overlay :: "u8 list \<Rightarrow> u8 list \<Rightarrow> u8 list" where
  "overlay out buf = take (length buf) out @ drop (length out) buf"

section \<open>Requests\<close>

text \<open>The \<^verbatim>\<open>switch\<close> of \<^verbatim>\<open>mp_request\<close>.\<close>

definition miniport_call :: "'d ndis_miniport \<Rightarrow> ndis_request_type \<Rightarrow> ndis_oid \<Rightarrow> u8 list \<Rightarrow> 'd \<Rightarrow> mp_reply \<times> 'd" where
  "miniport_call m request oid buf d =
     (case request of
        NdisRequestQueryInformation \<Rightarrow> mp_queryinfo m oid buf d
      | NdisRequestSetInformation \<Rightarrow> mp_setinfo m oid buf d
      | NdisRequestOther \<Rightarrow> (\<lparr>rp_status = NDIS_STATUS_NOT_SUPPORTED, rp_wait = Never, rp_out = [], rp_written = 0, rp_needed = 0\<rparr>, d))"

definition mp_request :: "'d ndis_miniport \<Rightarrow> ndis_request_type \<Rightarrow> ndis_oid \<Rightarrow> u8 list \<Rightarrow> ('d, 'z) req_state_scheme
    \<Rightarrow> (u32 \<times> u8 list \<times> u32 \<times> u32 \<times> ('d, 'z) req_state_scheme) option" where
  "mp_request m request oid buf w =
     do { w1 \<leftarrow> lock_req w;
          let (rp, d) = miniport_call m request oid buf (drv w1);
              w2 = w1\<lparr>ndis_req_done := 0, drv := d\<rparr>;
              buf1 = (if request = NdisRequestQueryInformation then overlay (rp_out rp) buf else buf) in
          do { (res, w3) \<leftarrow> (if rp_status rp = NDIS_STATUS_PENDING then req_wait (rp_wait rp) w2 else Some (rp_status rp, w2));
               Some (res, buf1, rp_written rp, rp_needed rp, unlock_req w3) } }"

definition mp_query_info :: "'d ndis_miniport \<Rightarrow> ndis_oid \<Rightarrow> u8 list \<Rightarrow> ('d, 'z) req_state_scheme
    \<Rightarrow> (u32 \<times> u8 list \<times> u32 \<times> u32 \<times> ('d, 'z) req_state_scheme) option" where
  "mp_query_info m oid buf w = mp_request m NdisRequestQueryInformation oid buf w"

definition mp_set_info :: "'d ndis_miniport \<Rightarrow> ndis_oid \<Rightarrow> u8 list \<Rightarrow> ('d, 'z) req_state_scheme
    \<Rightarrow> (u32 \<times> u8 list \<times> u32 \<times> u32 \<times> ('d, 'z) req_state_scheme) option" where
  "mp_set_info m oid buf w = mp_request m NdisRequestSetInformation oid buf w"

definition mp_query :: "'d ndis_miniport \<Rightarrow> ndis_oid \<Rightarrow> u8 list \<Rightarrow> ('d, 'z) req_state_scheme
    \<Rightarrow> (u32 \<times> u8 list \<times> ('d, 'z) req_state_scheme) option" where
  "mp_query m oid buf w = do { (res, buf1, wn, nd, w1) \<leftarrow> mp_request m NdisRequestQueryInformation oid buf w; Some (res, buf1, w1) }"

definition mp_set :: "'d ndis_miniport \<Rightarrow> ndis_oid \<Rightarrow> u8 list \<Rightarrow> ('d, 'z) req_state_scheme
    \<Rightarrow> (u32 \<times> ('d, 'z) req_state_scheme) option" where
  "mp_set m oid buf w = do { (res, buf1, wn, nd, w1) \<leftarrow> mp_request m NdisRequestSetInformation oid buf w; Some (res, w1) }"

definition ulong_bytes :: "u32 \<Rightarrow> u8 list" where
  "ulong_bytes v = le_put 4 (uint v)"

definition ulong_of :: "u8 list \<Rightarrow> u32" where
  "ulong_of bs = word_of_int (le_val (take 4 bs))"

text \<open>\<open>data\<close> is what the caller's variable holds before the call; it is also what it holds after a call that writes nothing.\<close>

definition mp_query_int :: "'d ndis_miniport \<Rightarrow> ndis_oid \<Rightarrow> u32 \<Rightarrow> ('d, 'z) req_state_scheme
    \<Rightarrow> (u32 \<times> u32 \<times> ('d, 'z) req_state_scheme) option" where
  "mp_query_int m oid data w = do { (res, buf, w1) \<leftarrow> mp_query m oid (ulong_bytes data) w; Some (res, ulong_of buf, w1) }"

definition mp_set_int :: "'d ndis_miniport \<Rightarrow> ndis_oid \<Rightarrow> u32 \<Rightarrow> ('d, 'z) req_state_scheme
    \<Rightarrow> (u32 \<times> ('d, 'z) req_state_scheme) option" where
  "mp_set_int m oid data w = mp_set m oid (ulong_bytes data) w"

section \<open>Laws\<close>

lemma ulong_of_bytes [simp]: "ulong_of (ulong_bytes v) = v"
proof -
  have "uint v < 256 ^ 4" using uint_lt2p [of v] by simp
  then show ?thesis by (simp add: ulong_of_def ulong_bytes_def le_val_put)
qed

lemma ulong_bytes_length [simp]: "length (ulong_bytes v) = 4"
  by (simp add: ulong_bytes_def)

lemma overlay_length [simp]: "length (overlay out buf) = length buf"
  by (simp add: overlay_def)

lemma overlay_nil [simp]: "overlay [] buf = buf"
  by (simp add: overlay_def)

lemma overlay_full: "length out = length buf \<Longrightarrow> overlay out buf = out"
  by (simp add: overlay_def)

text \<open>\<open>same_dev w w'\<close>: only the driver state and the words of the request protocol may differ.\<close>

definition same_dev :: "('d, 'z) req_state_scheme \<Rightarrow> ('d, 'z) req_state_scheme \<Rightarrow> bool" where
  "same_dev w w' \<longleftrightarrow> tx_ring_mutex w' = tx_ring_mutex w \<and> req_state.more w' = req_state.more w"

lemma same_dev_refl [simp]: "same_dev w w" by (simp add: same_dev_def)

lemma same_dev_trans: "same_dev a b \<Longrightarrow> same_dev b c \<Longrightarrow> same_dev a c"
  by (simp add: same_dev_def)

lemma req_wait_frame: "req_wait e w = Some (st, w') \<Longrightarrow> same_dev w w' \<and> drv w' = drv w \<and> ndis_req_mutex w' = ndis_req_mutex w"
  by (auto simp: req_wait_def same_dev_def split: mp_wait.splits if_splits)

lemma lock_req_iff: "lock_req w = Some w1 \<longleftrightarrow> \<not> ndis_req_mutex w \<and> w1 = w\<lparr>ndis_req_mutex := True\<rparr>"
  by (auto simp: lock_req_def)

lemma lock_tx_iff: "lock_tx w = Some w1 \<longleftrightarrow> \<not> tx_ring_mutex w \<and> w1 = w\<lparr>tx_ring_mutex := True\<rparr>"
  by (auto simp: lock_tx_def)

lemma mp_request_frame:
  assumes "mp_request m rq oid buf w = Some (res, buf1, wn, nd, w')"
  shows "\<not> ndis_req_mutex w \<and> \<not> ndis_req_mutex w' \<and> same_dev w w' \<and> length buf1 = length buf"
proof -
  obtain w1 where 1: "lock_req w = Some w1" using assms by (auto simp: mp_request_def bind_eq_Some_conv)
  obtain rp d where c: "miniport_call m rq oid buf (drv w1) = (rp, d)" by fastforce
  define w2 where "w2 = w1\<lparr>ndis_req_done := 0, drv := d\<rparr>"
  obtain w4 where 2: "(if rp_status rp = NDIS_STATUS_PENDING then req_wait (rp_wait rp) w2 else Some (rp_status rp, w2)) = Some (res, w4)"
    and 3: "w' = unlock_req w4" and 4: "length buf1 = length buf"
    using assms 1 unfolding mp_request_def w2_def by (auto simp: c Let_def bind_eq_Some_conv)
  have "same_dev w2 w4" using 2 by (auto split: if_splits dest: req_wait_frame)
  then have "same_dev w1 w4" by (simp add: w2_def same_dev_def)
  with 1 3 4 show ?thesis by (auto simp: lock_req_iff unlock_req_def same_dev_def)
qed

lemma mp_query_frame:
  "mp_query m oid buf w = Some (res, buf1, w') \<Longrightarrow> \<not> ndis_req_mutex w \<and> \<not> ndis_req_mutex w' \<and> same_dev w w' \<and> length buf1 = length buf"
  unfolding mp_query_def by (auto simp: bind_eq_Some_conv dest!: mp_request_frame)

lemma mp_set_frame:
  "mp_set m oid buf w = Some (res, w') \<Longrightarrow> \<not> ndis_req_mutex w \<and> \<not> ndis_req_mutex w' \<and> same_dev w w'"
  unfolding mp_set_def by (auto simp: bind_eq_Some_conv dest!: mp_request_frame)

lemma mp_query_int_frame:
  "mp_query_int m oid v w = Some (res, v1, w') \<Longrightarrow> \<not> ndis_req_mutex w \<and> \<not> ndis_req_mutex w' \<and> same_dev w w'"
  unfolding mp_query_int_def by (auto simp: bind_eq_Some_conv dest!: mp_query_frame)

lemma mp_set_int_frame:
  "mp_set_int m oid v w = Some (res, w') \<Longrightarrow> \<not> ndis_req_mutex w \<and> \<not> ndis_req_mutex w' \<and> same_dev w w'"
  unfolding mp_set_int_def by (rule mp_set_frame)

text \<open>A driver answers when no sleep for it lasts forever.\<close>

definition reply_ends :: "mp_reply \<Rightarrow> bool" where
  "reply_ends rp \<longleftrightarrow> rp_status rp = NDIS_STATUS_PENDING \<longrightarrow> (case rp_wait rp of Completed st done \<Rightarrow> done > 0 | Interrupted \<Rightarrow> True | Never \<Rightarrow> False)"

definition answers :: "'d ndis_miniport \<Rightarrow> bool" where
  "answers m \<longleftrightarrow> (\<forall>oid buf d. reply_ends (fst (mp_queryinfo m oid buf d)) \<and> reply_ends (fst (mp_setinfo m oid buf d)))"

lemma req_wait_ends: "reply_ends rp \<Longrightarrow> rp_status rp = NDIS_STATUS_PENDING \<Longrightarrow> \<exists>st w'. req_wait (rp_wait rp) w = Some (st, w')"
  by (auto simp: reply_ends_def req_wait_def split: mp_wait.splits)

lemma miniport_call_ends: "answers m \<Longrightarrow> reply_ends (fst (miniport_call m rq oid buf d))"
  by (cases rq) (auto simp: miniport_call_def answers_def reply_ends_def)

lemma mp_request_returns:
  assumes "answers m" "\<not> ndis_req_mutex w"
  shows "\<exists>res buf1 wn nd w'. mp_request m rq oid buf w = Some (res, buf1, wn, nd, w')"
proof -
  obtain rp d where c: "miniport_call m rq oid buf (drv w) = (rp, d)" by fastforce
  then have "reply_ends rp" using miniport_call_ends [OF assms(1), of rq oid buf "drv w"] by simp
  then have "\<exists>res w4. (if rp_status rp = NDIS_STATUS_PENDING then req_wait (rp_wait rp) w2 else Some (rp_status rp, w2)) = Some (res, w4)"
    for w2 :: "('a, 'b) req_state_scheme" using req_wait_ends [of rp w2] by auto
  then obtain res w4 where "(if rp_status rp = NDIS_STATUS_PENDING then req_wait (rp_wait rp) (w\<lparr>ndis_req_mutex := True, ndis_req_done := 0, drv := d\<rparr>)
      else Some (rp_status rp, w\<lparr>ndis_req_mutex := True, ndis_req_done := 0, drv := d\<rparr>)) = Some (res, w4)" by blast
  with c assms(2) show ?thesis by (simp add: mp_request_def lock_req_def Let_def)
qed

lemma mp_query_returns: "answers m \<Longrightarrow> \<not> ndis_req_mutex w \<Longrightarrow> \<exists>res buf1 w'. mp_query m oid buf w = Some (res, buf1, w')"
  using mp_request_returns [of m w NdisRequestQueryInformation oid buf] by (auto simp: mp_query_def)

lemma mp_set_returns: "answers m \<Longrightarrow> \<not> ndis_req_mutex w \<Longrightarrow> \<exists>res w'. mp_set m oid buf w = Some (res, w')"
  using mp_request_returns [of m w NdisRequestSetInformation oid buf] by (auto simp: mp_set_def)

lemma mp_query_int_returns: "answers m \<Longrightarrow> \<not> ndis_req_mutex w \<Longrightarrow> \<exists>res v1 w'. mp_query_int m oid v w = Some (res, v1, w')"
  using mp_query_returns [of m w oid "ulong_bytes v"] by (auto simp: mp_query_int_def)

lemma mp_set_int_returns: "answers m \<Longrightarrow> \<not> ndis_req_mutex w \<Longrightarrow> \<exists>res w'. mp_set_int m oid v w = Some (res, w')"
  by (simp add: mp_set_int_def mp_set_returns)

lemma mp_request_held: "ndis_req_mutex w \<Longrightarrow> mp_request m rq oid buf w = None"
  by (simp add: mp_request_def lock_req_def)

lemma mp_set_held: "ndis_req_mutex w \<Longrightarrow> mp_set m oid buf w = None"
  by (simp add: mp_set_def mp_request_held)

lemma mp_set_int_held: "ndis_req_mutex w \<Longrightarrow> mp_set_int m oid v w = None"
  by (simp add: mp_set_int_def mp_set_held)

end
