(* ===== verification/Iw_Ndis.thy ===== *)
theory Iw_Ndis
  imports Mp_Request
begin

text \<open>
  Wireless extensions, first part (\<^verbatim>\<open>iw_ndis.c\<close>): network name, operating mode, authentication and encryption modes, and the table of
  encryption keys, as the handlers of the wireless ioctls set and read them.

  The device state extends that of the request channel.  The fields of \<^verbatim>\<open>union iwreq_data\<close> and the buffer \<^verbatim>\<open>extra\<close> are arguments; the
  result is the handler's return value.  A handler that faults or blocks is \<open>None\<close>.  Bytes of a stack structure that the code does not
  initialise are the argument \<open>junk\<close>.

  \<open>iw_ok\<close> is the well-formedness of the key table and the network name, \<open>iw_runs\<close> says that an operation returns in a state that is
  well-formed again.  Shown are that the handlers that set these fields do, that a key that was set is read back, that the authentication mode
  that was set is the one sent again when associating, and that reordering the Michael keys twice gives the key back.
\<close>

section \<open>State\<close>

unbundle bit_operations_syntax

record encr_key =
  ek_length :: nat
  ek_key :: "u8 list"

record ndis_essid =
  es_length :: nat
  es_essid :: "u8 list"

record 'd iw_state = "'d req_state" +
  iw_auth_wpa_version :: u32
  iw_auth_cipher_pairwise :: u32
  iw_auth_cipher_group :: u32
  iw_auth_key_mgmt :: u32
  iw_auth_80211_alg :: u32
  enc_keys :: "encr_key list"
  tx_key_index :: nat
  essid :: ndis_essid
  infrastructure_mode :: u32
  capa_encr :: "nat set"
  capa_auth :: "nat set"
  max_pmkids :: int

abbreviation NDIS_ESSID_MAX_SIZE :: nat where "NDIS_ESSID_MAX_SIZE \<equiv> 32"
abbreviation NDIS_ENCODING_TOKEN_MAX :: nat where "NDIS_ENCODING_TOKEN_MAX \<equiv> 32"
abbreviation MAX_ENCR_KEYS :: nat where "MAX_ENCR_KEYS \<equiv> 4"

abbreviation EINVAL :: int where "EINVAL \<equiv> 22"
abbreviation EOPNOTSUPP :: int where "EOPNOTSUPP \<equiv> 95"

abbreviation OID_802_11_BSSID :: u32 where "OID_802_11_BSSID \<equiv> 0x0D010101"
abbreviation OID_802_11_SSID :: u32 where "OID_802_11_SSID \<equiv> 0x0D010102"
abbreviation OID_802_11_INFRASTRUCTURE_MODE :: u32 where "OID_802_11_INFRASTRUCTURE_MODE \<equiv> 0x0D010108"
abbreviation OID_802_11_ADD_WEP :: u32 where "OID_802_11_ADD_WEP \<equiv> 0x0D010113"
abbreviation OID_802_11_REMOVE_WEP :: u32 where "OID_802_11_REMOVE_WEP \<equiv> 0x0D010114"
abbreviation OID_802_11_DISASSOCIATE :: u32 where "OID_802_11_DISASSOCIATE \<equiv> 0x0D010115"
abbreviation OID_802_11_AUTHENTICATION_MODE :: u32 where "OID_802_11_AUTHENTICATION_MODE \<equiv> 0x0D010118"
abbreviation OID_802_11_PRIVACY_FILTER :: u32 where "OID_802_11_PRIVACY_FILTER \<equiv> 0x0D010119"
abbreviation OID_802_11_ENCRYPTION_STATUS :: u32 where "OID_802_11_ENCRYPTION_STATUS \<equiv> 0x0D01011B"
abbreviation OID_802_11_ADD_KEY :: u32 where "OID_802_11_ADD_KEY \<equiv> 0x0D01011D"
abbreviation OID_802_11_REMOVE_KEY :: u32 where "OID_802_11_REMOVE_KEY \<equiv> 0x0D01011E"
abbreviation OID_802_11_PMKID :: u32 where "OID_802_11_PMKID \<equiv> 0x0D010123"

text \<open>The enumerations of \<^verbatim>\<open>ndis.h\<close> and the flags of the kernel's wireless extensions.\<close>

abbreviation Ndis802_11IBSS :: u32 where "Ndis802_11IBSS \<equiv> 0"
abbreviation Ndis802_11Infrastructure :: u32 where "Ndis802_11Infrastructure \<equiv> 1"
abbreviation Ndis802_11AutoUnknown :: u32 where "Ndis802_11AutoUnknown \<equiv> 2"

abbreviation AuthModeOpen :: u32 where "AuthModeOpen \<equiv> 0"
abbreviation AuthModeShared :: u32 where "AuthModeShared \<equiv> 1"
abbreviation AuthModeAutoSwitch :: u32 where "AuthModeAutoSwitch \<equiv> 2"
abbreviation AuthModeWPA :: u32 where "AuthModeWPA \<equiv> 3"
abbreviation AuthModeWPAPSK :: u32 where "AuthModeWPAPSK \<equiv> 4"
abbreviation AuthModeWPANone :: u32 where "AuthModeWPANone \<equiv> 5"
abbreviation AuthModeWPA2 :: u32 where "AuthModeWPA2 \<equiv> 6"
abbreviation AuthModeWPA2PSK :: u32 where "AuthModeWPA2PSK \<equiv> 7"

abbreviation Encryption1Enabled :: u32 where "Encryption1Enabled \<equiv> 0"
abbreviation EncryptionDisabled :: u32 where "EncryptionDisabled \<equiv> 1"
abbreviation Encryption1KeyAbsent :: u32 where "Encryption1KeyAbsent \<equiv> 2"
abbreviation EncryptionNotSupported :: u32 where "EncryptionNotSupported \<equiv> 3"
abbreviation Encryption2Enabled :: u32 where "Encryption2Enabled \<equiv> 4"
abbreviation Encryption2KeyAbsent :: u32 where "Encryption2KeyAbsent \<equiv> 5"
abbreviation Encryption3Enabled :: u32 where "Encryption3Enabled \<equiv> 6"
abbreviation Encryption3KeyAbsent :: u32 where "Encryption3KeyAbsent \<equiv> 7"

abbreviation IW_AUTH_WPA_VERSION_DISABLED :: u32 where "IW_AUTH_WPA_VERSION_DISABLED \<equiv> 1"
abbreviation IW_AUTH_WPA_VERSION_WPA :: u32 where "IW_AUTH_WPA_VERSION_WPA \<equiv> 2"
abbreviation IW_AUTH_WPA_VERSION_WPA2 :: u32 where "IW_AUTH_WPA_VERSION_WPA2 \<equiv> 4"
abbreviation IW_AUTH_KEY_MGMT_802_1X :: u32 where "IW_AUTH_KEY_MGMT_802_1X \<equiv> 1"
abbreviation IW_AUTH_KEY_MGMT_PSK :: u32 where "IW_AUTH_KEY_MGMT_PSK \<equiv> 2"
abbreviation IW_AUTH_ALG_OPEN_SYSTEM :: u32 where "IW_AUTH_ALG_OPEN_SYSTEM \<equiv> 1"
abbreviation IW_AUTH_ALG_SHARED_KEY :: u32 where "IW_AUTH_ALG_SHARED_KEY \<equiv> 2"
abbreviation IW_AUTH_CIPHER_NONE :: u32 where "IW_AUTH_CIPHER_NONE \<equiv> 1"
abbreviation IW_AUTH_CIPHER_WEP40 :: u32 where "IW_AUTH_CIPHER_WEP40 \<equiv> 2"
abbreviation IW_AUTH_CIPHER_TKIP :: u32 where "IW_AUTH_CIPHER_TKIP \<equiv> 4"
abbreviation IW_AUTH_CIPHER_CCMP :: u32 where "IW_AUTH_CIPHER_CCMP \<equiv> 8"
abbreviation IW_AUTH_CIPHER_WEP104 :: u32 where "IW_AUTH_CIPHER_WEP104 \<equiv> 16"

abbreviation IW_ENCODE_INDEX :: u16 where "IW_ENCODE_INDEX \<equiv> 0x00FF"
abbreviation IW_ENCODE_DISABLED :: u16 where "IW_ENCODE_DISABLED \<equiv> 0x8000"
abbreviation IW_ENCODE_RESTRICTED :: u16 where "IW_ENCODE_RESTRICTED \<equiv> 0x4000"
abbreviation IW_ENCODE_OPEN :: u16 where "IW_ENCODE_OPEN \<equiv> 0x2000"
abbreviation IW_ENCODE_NOKEY :: u16 where "IW_ENCODE_NOKEY \<equiv> 0x0800"

section \<open>Name, authentication and encryption modes\<close>

definition set_essid :: "'d ndis_miniport \<Rightarrow> u8 list \<Rightarrow> nat \<Rightarrow> ('d, 'z) iw_state_scheme \<Rightarrow> (int \<times> ('d, 'z) iw_state_scheme) option" where
  "set_essid m ssid ssid_len w =
     (if ssid_len > NDIS_ESSID_MAX_SIZE then Some (- EINVAL, w)
      else do { e \<leftarrow> blk_copy (replicate NDIS_ESSID_MAX_SIZE 0) 0 ssid 0 ssid_len;
                (res, w1) \<leftarrow> mp_set m OID_802_11_SSID (ulong_bytes (of_nat ssid_len) @ e) w;
                Some (if res \<noteq> 0 then (- EINVAL, w1) else (0, w1\<lparr>essid := \<lparr>es_length = ssid_len, es_essid = e\<rparr>\<rparr>)) })"

text \<open>The mode that \<^verbatim>\<open>set_iw_auth_mode\<close> sends, and the return value for the status of a mode request.\<close>

definition auth_mode_of :: "u32 \<Rightarrow> u32 \<Rightarrow> u32 \<Rightarrow> u32" where
  "auth_mode_of wpa_version auth_80211_alg key_mgmt =
     (if wpa_version AND IW_AUTH_WPA_VERSION_WPA2 \<noteq> 0 then
        (if key_mgmt AND IW_AUTH_KEY_MGMT_802_1X \<noteq> 0 then AuthModeWPA2 else AuthModeWPA2PSK)
      else if wpa_version AND IW_AUTH_WPA_VERSION_WPA \<noteq> 0 then
        (if key_mgmt AND IW_AUTH_KEY_MGMT_802_1X \<noteq> 0 then AuthModeWPA
         else if key_mgmt AND IW_AUTH_KEY_MGMT_PSK \<noteq> 0 then AuthModeWPAPSK else AuthModeWPANone)
      else if auth_80211_alg AND IW_AUTH_ALG_SHARED_KEY \<noteq> 0 then
        (if auth_80211_alg AND IW_AUTH_ALG_OPEN_SYSTEM \<noteq> 0 then AuthModeAutoSwitch else AuthModeShared)
      else AuthModeOpen)"

definition mode_error :: "u32 \<Rightarrow> int" where
  "mode_error res = (if res = NDIS_STATUS_INVALID_DATA then - EINVAL else - EOPNOTSUPP)"

definition set_iw_auth_mode :: "'d ndis_miniport \<Rightarrow> u32 \<Rightarrow> u32 \<Rightarrow> ('d, 'z) iw_state_scheme \<Rightarrow> (int \<times> ('d, 'z) iw_state_scheme) option" where
  "set_iw_auth_mode m wpa_version auth_80211_alg w =
     do { (res, w1) \<leftarrow> mp_set_int m OID_802_11_AUTHENTICATION_MODE (auth_mode_of wpa_version auth_80211_alg (iw_auth_key_mgmt w)) w;
          Some (if res \<noteq> 0 then (mode_error res, w1)
                else (0, w1\<lparr>iw_auth_wpa_version := wpa_version, iw_auth_80211_alg := auth_80211_alg\<rparr>)) }"

definition set_auth_mode :: "'d ndis_miniport \<Rightarrow> ('d, 'z) iw_state_scheme \<Rightarrow> (int \<times> ('d, 'z) iw_state_scheme) option" where
  "set_auth_mode m w = set_iw_auth_mode m (iw_auth_wpa_version w) (iw_auth_80211_alg w) w"

definition ndis_priv_mode :: "('d, 'z) iw_state_scheme \<Rightarrow> u32" where
  "ndis_priv_mode w =
     (if iw_auth_wpa_version w AND IW_AUTH_WPA_VERSION_WPA2 \<noteq> 0 \<or> iw_auth_wpa_version w AND IW_AUTH_WPA_VERSION_WPA \<noteq> 0 then 1 else 0)"

definition set_priv_filter :: "'d ndis_miniport \<Rightarrow> ('d, 'z) iw_state_scheme \<Rightarrow> (int \<times> ('d, 'z) iw_state_scheme) option" where
  "set_priv_filter m w = do { (res, w1) \<leftarrow> mp_set_int m OID_802_11_PRIVACY_FILTER (ndis_priv_mode w) w; Some (0, w1) }"

definition encr_mode_of :: "u32 \<Rightarrow> u32 \<Rightarrow> u32" where
  "encr_mode_of cipher_pair cipher_grp =
     (if cipher_pair AND IW_AUTH_CIPHER_CCMP \<noteq> 0 then Encryption3Enabled
      else if cipher_pair AND IW_AUTH_CIPHER_TKIP \<noteq> 0 then Encryption2Enabled
      else if cipher_pair AND (IW_AUTH_CIPHER_WEP40 OR IW_AUTH_CIPHER_WEP104) \<noteq> 0 then Encryption1Enabled
      else if cipher_grp AND IW_AUTH_CIPHER_CCMP \<noteq> 0 then Encryption3Enabled
      else if cipher_grp AND IW_AUTH_CIPHER_TKIP \<noteq> 0 then Encryption2Enabled
      else EncryptionDisabled)"

definition set_iw_encr_mode :: "'d ndis_miniport \<Rightarrow> u32 \<Rightarrow> u32 \<Rightarrow> ('d, 'z) iw_state_scheme \<Rightarrow> (int \<times> ('d, 'z) iw_state_scheme) option" where
  "set_iw_encr_mode m cipher_pair cipher_grp w =
     do { (res, w1) \<leftarrow> mp_set_int m OID_802_11_ENCRYPTION_STATUS (encr_mode_of cipher_pair cipher_grp) w;
          Some (if res \<noteq> 0 then (mode_error res, w1)
                else (0, w1\<lparr>iw_auth_cipher_pairwise := cipher_pair, iw_auth_cipher_group := cipher_grp\<rparr>)) }"

definition set_encr_mode :: "'d ndis_miniport \<Rightarrow> ('d, 'z) iw_state_scheme \<Rightarrow> (int \<times> ('d, 'z) iw_state_scheme) option" where
  "set_encr_mode m w = set_iw_encr_mode m (iw_auth_cipher_pairwise w) (iw_auth_cipher_group w) w"

definition set_assoc_params :: "'d ndis_miniport \<Rightarrow> ('d, 'z) iw_state_scheme \<Rightarrow> (int \<times> ('d, 'z) iw_state_scheme) option" where
  "set_assoc_params m w =
     do { (r1, w1) \<leftarrow> set_auth_mode m w; (r2, w2) \<leftarrow> set_priv_filter m w1; (r3, w3) \<leftarrow> set_encr_mode m w2; Some (0, w3) }"

definition set_ndis_auth_mode :: "'d ndis_miniport \<Rightarrow> u32 \<Rightarrow> ('d, 'z) iw_state_scheme \<Rightarrow> (int \<times> ('d, 'z) iw_state_scheme) option" where
  "set_ndis_auth_mode m auth_mode w =
     do { (res, w1) \<leftarrow> mp_set_int m OID_802_11_AUTHENTICATION_MODE auth_mode w;
          Some (if res \<noteq> 0 then (mode_error res, w1)
                else (0,
                  if auth_mode = AuthModeWPA then w1\<lparr>iw_auth_wpa_version := IW_AUTH_WPA_VERSION_WPA, iw_auth_key_mgmt := IW_AUTH_KEY_MGMT_802_1X\<rparr>
                  else if auth_mode = AuthModeWPAPSK then w1\<lparr>iw_auth_wpa_version := IW_AUTH_WPA_VERSION_WPA, iw_auth_key_mgmt := IW_AUTH_KEY_MGMT_PSK\<rparr>
                  else if auth_mode = AuthModeWPANone then w1\<lparr>iw_auth_wpa_version := IW_AUTH_WPA_VERSION_DISABLED, iw_auth_key_mgmt := IW_AUTH_KEY_MGMT_PSK\<rparr>
                  else if auth_mode = AuthModeWPA2 then w1\<lparr>iw_auth_wpa_version := IW_AUTH_WPA_VERSION_WPA2, iw_auth_key_mgmt := IW_AUTH_KEY_MGMT_802_1X\<rparr>
                  else if auth_mode = AuthModeWPA2PSK then w1\<lparr>iw_auth_wpa_version := IW_AUTH_WPA_VERSION_WPA2, iw_auth_key_mgmt := IW_AUTH_KEY_MGMT_PSK\<rparr>
                  else if auth_mode = AuthModeOpen then w1\<lparr>iw_auth_wpa_version := IW_AUTH_WPA_VERSION_DISABLED, iw_auth_80211_alg := IW_AUTH_ALG_OPEN_SYSTEM\<rparr>
                  else if auth_mode = AuthModeShared then w1\<lparr>iw_auth_wpa_version := IW_AUTH_WPA_VERSION_DISABLED, iw_auth_80211_alg := IW_AUTH_ALG_SHARED_KEY\<rparr>
                  else if auth_mode = AuthModeAutoSwitch then
                    w1\<lparr>iw_auth_wpa_version := IW_AUTH_WPA_VERSION_DISABLED, iw_auth_80211_alg := IW_AUTH_ALG_SHARED_KEY OR IW_AUTH_ALG_OPEN_SYSTEM\<rparr>
                  else w1)) }"

text \<open>The variable \<^verbatim>\<open>mode\<close> of the next two is not initialised, but it is only read when the query succeeded.\<close>

definition get_ndis_auth_mode :: "'d ndis_miniport \<Rightarrow> u32 \<Rightarrow> ('d, 'z) iw_state_scheme \<Rightarrow> (int \<times> ('d, 'z) iw_state_scheme) option" where
  "get_ndis_auth_mode m junk w =
     do { (res, mode, w1) \<leftarrow> mp_query_int m OID_802_11_AUTHENTICATION_MODE junk w; Some (if res \<noteq> 0 then - EOPNOTSUPP else sint mode, w1) }"

definition get_ndis_encr_mode :: "'d ndis_miniport \<Rightarrow> u32 \<Rightarrow> ('d, 'z) iw_state_scheme \<Rightarrow> (int \<times> ('d, 'z) iw_state_scheme) option" where
  "get_ndis_encr_mode m junk w =
     do { (res, mode, w1) \<leftarrow> mp_query_int m OID_802_11_ENCRYPTION_STATUS junk w; Some (if res \<noteq> 0 then - EOPNOTSUPP else sint mode, w1) }"

definition iw_set_essid :: "'d ndis_miniport \<Rightarrow> u16 \<Rightarrow> nat \<Rightarrow> u8 list \<Rightarrow> ('d, 'z) iw_state_scheme \<Rightarrow> (int \<times> ('d, 'z) iw_state_scheme) option" where
  "iw_set_essid m flags len extra w =
     do { length \<leftarrow> (if flags \<noteq> 0 then
                         (if len > 0 then do { c \<leftarrow> rd extra (len - 1); Some (if c = 0 then len - 1 else len) } else Some len)
                       else Some 0);
          if flags \<noteq> 0 \<and> (length = 0 \<or> length > NDIS_ESSID_MAX_SIZE) then Some (- EINVAL, w)
          else do { (r, w1) \<leftarrow> set_assoc_params m w; (r2, w2) \<leftarrow> set_essid m extra length w1; Some (if r2 \<noteq> 0 then - EINVAL else 0, w2) } }"

text \<open>The result also has the flag and length stored in \<^verbatim>\<open>wrqu->essid\<close> and the buffer \<^verbatim>\<open>extra\<close>.\<close>

definition iw_get_essid :: "'d ndis_miniport \<Rightarrow> u8 list \<Rightarrow> ('d, 'z) iw_state_scheme
    \<Rightarrow> ((int \<times> (bool \<times> u32 \<times> u8 list) option) \<times> ('d, 'z) iw_state_scheme) option" where
  "iw_get_essid m extra w =
     do { (res, req, w1) \<leftarrow> mp_query m OID_802_11_SSID (replicate (4 + NDIS_ESSID_MAX_SIZE) 0) w;
          if res \<noteq> 0 then Some ((- EOPNOTSUPP, None), w1)
          else do { ex \<leftarrow> blk_copy extra 0 (drop 4 req) 0 (unat (ulong_of req));
                    Some ((0, Some (ulong_of req > 0, ulong_of req, ex)), w1) } }"

section \<open>Keys\<close>

text \<open>\<open>junk\<close> is the uninitialised part of the stack structure behind the key.\<close>

definition add_wep_key :: "'d ndis_miniport \<Rightarrow> u8 list \<Rightarrow> u8 list \<Rightarrow> int \<Rightarrow> int \<Rightarrow> ('d, 'z) iw_state_scheme
    \<Rightarrow> (int \<times> ('d, 'z) iw_state_scheme) option" where
  "add_wep_key m junk key key_len index w =
     (if key_len \<le> 0 \<or> key_len > int NDIS_ENCODING_TOKEN_MAX then Some (- EINVAL, w)
      else if index < 0 \<or> index \<ge> int MAX_ENCR_KEYS then Some (- EINVAL, w)
      else do {
        k \<leftarrow> blk_copy junk 0 key 0 (nat key_len);
        (idx, w1) \<leftarrow> (if nat index = tx_key_index w
                      then do { (r, w1) \<leftarrow> set_iw_encr_mode m IW_AUTH_CIPHER_WEP104 IW_AUTH_CIPHER_NONE w; Some (word_of_int index OR 0x80000000, w1) }
                      else Some (word_of_int index :: u32, w));
        (res, w2) \<leftarrow> mp_set m OID_802_11_ADD_WEP (ulong_bytes 44 @ ulong_bytes idx @ ulong_bytes (word_of_int key_len) @ k) w1;
        if res \<noteq> 0 then Some (- EINVAL, w2)
        else do { e \<leftarrow> rd (enc_keys w2) (nat index);
                  k2 \<leftarrow> blk_copy (ek_key e) 0 key 0 (nat key_len);
                  Some (0, w2\<lparr>enc_keys := (enc_keys w2)[nat index := \<lparr>ek_length = nat key_len, ek_key = k2\<rparr>]\<rparr>) } })"

primrec readd_keys :: "'d ndis_miniport \<Rightarrow> u8 list \<Rightarrow> nat list \<Rightarrow> ('d, 'z) iw_state_scheme \<Rightarrow> (int \<times> ('d, 'z) iw_state_scheme) option" where
  "readd_keys m junk [] w = Some (0, w)"
| "readd_keys m junk (i # is) w =
     do { e \<leftarrow> rd (enc_keys w) i;
          (r, w1) \<leftarrow> (if ek_length e > 0 then add_wep_key m junk (ek_key e) (int (ek_length e)) (int i) w else Some (0, w));
          readd_keys m junk is w1 }"

definition set_infra_mode :: "'d ndis_miniport \<Rightarrow> u8 list \<Rightarrow> u32 \<Rightarrow> ('d, 'z) iw_state_scheme \<Rightarrow> (int \<times> ('d, 'z) iw_state_scheme) option" where
  "set_infra_mode m junk mode w =
     do { (res, cur, w0) \<leftarrow> mp_query_int m OID_802_11_INFRASTRUCTURE_MODE (infrastructure_mode w) w;
          let w1 = w0\<lparr>infrastructure_mode := cur\<rparr> in
          if res \<noteq> NDIS_STATUS_SUCCESS then Some (- EINVAL, w1)
          else if cur = mode then Some (0, w1)
          else do { (res, w2) \<leftarrow> mp_set_int m OID_802_11_INFRASTRUCTURE_MODE mode w1;
                    if res \<noteq> 0 then Some (- EINVAL, w2)
                    else do { (r, w3) \<leftarrow> (if iw_auth_key_mgmt w2 = 0 \<or> iw_auth_key_mgmt w2 = IW_AUTH_KEY_MGMT_802_1X
                                          then readd_keys m junk [0, 1, 2, 3] w2 else Some (0, w2));
                              Some (0, w3\<lparr>infrastructure_mode := mode\<rparr>) } } }"

definition iw_set_infra_mode :: "'d ndis_miniport \<Rightarrow> u8 list \<Rightarrow> u32 \<Rightarrow> ('d, 'z) iw_state_scheme \<Rightarrow> (int \<times> ('d, 'z) iw_state_scheme) option" where
  "iw_set_infra_mode m junk iw_mode w =
     (if iw_mode > 2 then Some (- EINVAL, w)
      else do { (r, w1) \<leftarrow> set_infra_mode m junk (if iw_mode = 1 then Ndis802_11IBSS else if iw_mode = 2 then Ndis802_11Infrastructure
                                               else Ndis802_11AutoUnknown) w;
                Some (if r \<noteq> 0 then - EINVAL else 0, w1) })"

definition iw_get_infra_mode :: "'d ndis_miniport \<Rightarrow> u32 \<Rightarrow> ('d, 'z) iw_state_scheme \<Rightarrow> ((int \<times> u32 option) \<times> ('d, 'z) iw_state_scheme) option" where
  "iw_get_infra_mode m junk w =
     do { (res, mode, w1) \<leftarrow> mp_query_int m OID_802_11_INFRASTRUCTURE_MODE junk w;
          Some (if res \<noteq> 0 then (- EOPNOTSUPP, None)
                else if mode = Ndis802_11IBSS then (0, Some 1) else if mode = Ndis802_11Infrastructure then (0, Some 2)
                else if mode = Ndis802_11AutoUnknown then (0, Some 0) else (- EINVAL, None), w1) }"

text \<open>\<open>bssid\<close> is \<open>None\<close> for a null pointer.  The code clears as many bytes of the key as the length field has, not the key.\<close>

definition remove_key :: "'d ndis_miniport \<Rightarrow> u8 list \<Rightarrow> nat \<Rightarrow> u8 list option \<Rightarrow> ('d, 'z) iw_state_scheme \<Rightarrow> (int \<times> ('d, 'z) iw_state_scheme) option" where
  "remove_key m junk index bssid w =
     do { e \<leftarrow> rd (enc_keys w) index;
          if ek_length e = 0 then Some (0, w)
          else do {
            k \<leftarrow> blk_fill (ek_key e) 0 0 4;
            let w1 = w\<lparr>enc_keys := (enc_keys w)[index := \<lparr>ek_length = 0, ek_key = k\<rparr>]\<rparr>;
                wpa = (iw_auth_cipher_pairwise w = IW_AUTH_CIPHER_TKIP \<or> iw_auth_cipher_pairwise w = IW_AUTH_CIPHER_CCMP \<or>
                       iw_auth_cipher_group w = IW_AUTH_CIPHER_TKIP \<or> iw_auth_cipher_group w = IW_AUTH_CIPHER_CCMP);
                b = (case bssid of None \<Rightarrow> replicate 6 0xFF | Some b \<Rightarrow> b);
                idx = (if bssid \<noteq> None \<and> b \<noteq> replicate 6 0xFF then of_nat index OR 0x40000000 else (of_nat index :: u32)) in
            do { (res, w2) \<leftarrow> (if wpa then mp_set m OID_802_11_REMOVE_KEY (ulong_bytes 16 @ ulong_bytes idx @ b @ take 2 junk) w1
                               else mp_set_int m OID_802_11_REMOVE_WEP (of_nat index) w1);
                 if res \<noteq> 0 then Some (- EINVAL, w2)
                 else do { (r, w3) \<leftarrow> (if index = tx_key_index w2 then set_iw_encr_mode m IW_AUTH_CIPHER_NONE IW_AUTH_CIPHER_NONE w2 else Some (0, w2));
                           Some (0, w3) } } } }"

text \<open>\<^verbatim>\<open>encoding\<close> and \<^verbatim>\<open>data\<close> of the request union are the same structure: \<open>flags\<close> and \<open>len\<close>.\<close>

definition encode_index :: "u16 \<Rightarrow> ('d, 'z) iw_state_scheme \<Rightarrow> nat" where
  "encode_index flags w = (let i = unat (flags AND IW_ENCODE_INDEX) in if i > 0 then i - 1 else tx_key_index w)"

text \<open>The loop of \<^verbatim>\<open>iw_set_wep\<close> that looks for another key, and the part of it from the call of \<^verbatim>\<open>add_wep_key\<close> on.\<close>

definition no_other_key :: "nat \<Rightarrow> ('d, 'z) iw_state_scheme \<Rightarrow> bool" where
  "no_other_key index w \<longleftrightarrow> list_all (\<lambda>i. i = index \<or> ek_length (enc_keys w ! i) = 0) [0, 1, 2, 3]"

definition set_wep_key :: "'d ndis_miniport \<Rightarrow> u8 list \<Rightarrow> nat \<Rightarrow> u8 list \<Rightarrow> nat \<Rightarrow> ('d, 'z) iw_state_scheme \<Rightarrow> (int \<times> ('d, 'z) iw_state_scheme) option" where
  "set_wep_key m junk index key key_len w =
     do { (r, w1) \<leftarrow> add_wep_key m junk key (int key_len) (int index) w;
          if r \<noteq> 0 then Some (- EINVAL, w1)
          else if index \<noteq> tx_key_index w1 then Some (0, w1)
          else do { (r, w2) \<leftarrow> (if index \<noteq> 0 \<and> no_other_key index w1 then add_wep_key m junk key (int key_len) (int index - 1) w1 else Some (0, w1));
                    (r, w3) \<leftarrow> set_essid m (es_essid (essid w2)) (es_length (essid w2)) w2;
                    Some (0, w3) } }"

definition iw_set_wep :: "'d ndis_miniport \<Rightarrow> u8 list \<Rightarrow> u16 \<Rightarrow> nat \<Rightarrow> u8 list \<Rightarrow> ('d, 'z) iw_state_scheme \<Rightarrow> (int \<times> ('d, 'z) iw_state_scheme) option" where
  "iw_set_wep m junk flags len extra w =
     (let index = encode_index flags w in
      if index \<ge> MAX_ENCR_KEYS then Some (- EINVAL, w)
      else if flags AND IW_ENCODE_DISABLED \<noteq> 0 then do { (r, w1) \<leftarrow> remove_key m junk index None w; Some (if r \<noteq> 0 then - EINVAL else 0, w1) }
      else do {
        (r, w1) \<leftarrow> set_ndis_auth_mode m (if flags AND IW_ENCODE_OPEN \<noteq> 0 then AuthModeOpen else AuthModeShared) w;
        if r \<noteq> 0 then Some (- EINVAL, w1)
        else if len > 0 then set_wep_key m junk index extra len w1
        else do { e \<leftarrow> rd (enc_keys w1) index;
                  if ek_length e = 0 then Some (- EINVAL, w1)
                  else set_wep_key m junk index (ek_key e) (ek_length e) (w1\<lparr>tx_key_index := index\<rparr>) } })"

text \<open>The result also has the flags, the length and the buffer.\<close>

definition iw_get_encr :: "'d ndis_miniport \<Rightarrow> u32 \<Rightarrow> u16 \<Rightarrow> u8 list \<Rightarrow> ('d, 'z) iw_state_scheme
    \<Rightarrow> ((int \<times> u16 \<times> nat \<times> u8 list) \<times> ('d, 'z) iw_state_scheme) option" where
  "iw_get_encr m junk flags extra w =
     do { ex0 \<leftarrow> wr extra 0 0;
          let index = encode_index flags w in
          if index \<ge> MAX_ENCR_KEYS then Some ((- EINVAL, flags, 0, ex0), w)
          else do {
            e \<leftarrow> rd (enc_keys w) index;
            if index \<noteq> tx_key_index w then
              (if ek_length e > 0 then do { ex \<leftarrow> blk_copy ex0 0 (ek_key e) 0 (ek_length e); Some ((0, flags, ek_length e, ex), w) }
               else Some ((0, flags OR IW_ENCODE_DISABLED, 0, ex0), w))
            else do {
              (mode, w1) \<leftarrow> get_ndis_encr_mode m junk w;
              if mode < 0 then Some ((- EOPNOTSUPP, flags, 0, ex0), w1)
              else do {
                (flags1, len, ex) \<leftarrow>
                  (if mode = 1 \<or> mode = 3 then Some (flags OR IW_ENCODE_DISABLED, 0, ex0)
                   else if mode = 2 \<or> mode = 5 \<or> mode = 7 then Some (flags OR IW_ENCODE_NOKEY, 0, ex0)
                   else do { ex \<leftarrow> blk_copy ex0 0 (ek_key e) 0 (ek_length e); Some (flags OR of_nat (index + 1), ek_length e, ex) });
                (amode, w2) \<leftarrow> get_ndis_auth_mode m junk w1;
                Some (if amode < 0 then (- EOPNOTSUPP, flags1, len, ex)
                      else (0, flags1 OR (if amode = 0 then IW_ENCODE_OPEN else IW_ENCODE_RESTRICTED), len, ex), w2) } } } }"

definition get_ap_address :: "'d ndis_miniport \<Rightarrow> u8 list \<Rightarrow> ('d, 'z) iw_state_scheme \<Rightarrow> ((int \<times> u8 list) \<times> ('d, 'z) iw_state_scheme) option" where
  "get_ap_address m ap_addr w =
     do { (res, ap, w1) \<leftarrow> mp_query m OID_802_11_BSSID ap_addr w;
          Some (if res \<noteq> 0 then (- EOPNOTSUPP, replicate 6 0) else (0, ap), w1) }"

definition iw_get_ap_address :: "'d ndis_miniport \<Rightarrow> u8 list \<Rightarrow> ('d, 'z) iw_state_scheme \<Rightarrow> ((int \<times> u8 list) \<times> ('d, 'z) iw_state_scheme) option" where
  "iw_get_ap_address m junk w = do { ((r, ap), w1) \<leftarrow> get_ap_address m (take 6 junk) w; Some ((0, ap), w1) }"

definition iw_set_ap_address :: "'d ndis_miniport \<Rightarrow> u8 list \<Rightarrow> ('d, 'z) iw_state_scheme \<Rightarrow> (int \<times> ('d, 'z) iw_state_scheme) option" where
  "iw_set_ap_address m ap_addr w = do { (res, w1) \<leftarrow> mp_set m OID_802_11_BSSID ap_addr w; Some (0, w1) }"

text \<open>The argument of \<^verbatim>\<open>SIOCSIWENCODEEXT\<close>.\<close>

record iw_encode_ext =
  ext_flags :: u32
  ext_alg :: u16
  ext_key_len :: nat
  ext_rx_seq :: "u8 list"
  ext_addr :: "u8 list"
  ext_key :: "u8 list"

abbreviation IW_ENCODE_EXT_RX_SEQ_VALID :: u32 where "IW_ENCODE_EXT_RX_SEQ_VALID \<equiv> 2"
abbreviation IW_ENCODE_EXT_GROUP_KEY :: u32 where "IW_ENCODE_EXT_GROUP_KEY \<equiv> 4"
abbreviation IW_ENCODE_EXT_SET_TX_KEY :: u32 where "IW_ENCODE_EXT_SET_TX_KEY \<equiv> 8"
abbreviation IW_ENCODE_ALG_NONE :: u16 where "IW_ENCODE_ALG_NONE \<equiv> 0"
abbreviation IW_ENCODE_ALG_WEP :: u16 where "IW_ENCODE_ALG_WEP \<equiv> 1"
abbreviation IW_ENCODE_ALG_TKIP :: u16 where "IW_ENCODE_ALG_TKIP \<equiv> 2"

text \<open>The key as the driver wants it: the two Michael keys of a TKIP key change places.\<close>

definition ndis_key_bytes :: "u16 \<Rightarrow> u8 list \<Rightarrow> nat \<Rightarrow> u8 list option" where
  "ndis_key_bytes alg key key_len =
     (if alg = IW_ENCODE_ALG_TKIP \<and> key_len = 32 then
        do { k1 \<leftarrow> blk_copy (replicate NDIS_ENCODING_TOKEN_MAX 0) 0 key 0 16;
             k2 \<leftarrow> blk_copy k1 16 key 24 8;
             blk_copy k2 24 key 16 8 }
      else blk_copy (replicate NDIS_ENCODING_TOKEN_MAX 0) 0 key 0 key_len)"

text \<open>The receive counter: six bytes, least significant first.\<close>

definition key_rsc :: "u8 list \<Rightarrow> u64" where
  "key_rsc rx_seq = foldl (\<lambda>r i. r OR push_bit (8 * i) (ucast (rx_seq ! i))) 0 [0, 1, 2, 3, 4, 5]"

text \<open>The last part of \<^verbatim>\<open>iw_set_encodeext\<close>: the index word and the key structure, the call, and the entry in the table.\<close>

definition ndis_key_index :: "nat \<Rightarrow> u32 \<Rightarrow> u32" where
  "ndis_key_index keyidx flags =
     of_nat keyidx OR (if flags AND IW_ENCODE_EXT_RX_SEQ_VALID \<noteq> 0 then 0x20000000 else 0)
       OR (if flags AND IW_ENCODE_EXT_GROUP_KEY \<noteq> 0 then 0 else 0x40000000) OR (if flags AND IW_ENCODE_EXT_SET_TX_KEY \<noteq> 0 then 0x80000000 else 0)"

definition ndis_add_key :: "nat \<Rightarrow> iw_encode_ext \<Rightarrow> u8 list \<Rightarrow> u8 list \<Rightarrow> u8 list" where
  "ndis_add_key keyidx ext bssid key =
     ulong_bytes (of_nat (32 + ext_key_len ext)) @ ulong_bytes (ndis_key_index keyidx (ext_flags ext)) @ ulong_bytes (of_nat (ext_key_len ext)) @
     bssid @ replicate 6 0 @ le_put 8 (uint (if ext_flags ext AND IW_ENCODE_EXT_RX_SEQ_VALID \<noteq> 0 then key_rsc (ext_rx_seq ext) else 0)) @
     take (ext_key_len ext) key"

definition add_wpa_key :: "'d ndis_miniport \<Rightarrow> nat \<Rightarrow> iw_encode_ext \<Rightarrow> ('d, 'z) iw_state_scheme \<Rightarrow> (int \<times> ('d, 'z) iw_state_scheme) option" where
  "add_wpa_key m keyidx ext w =
     do { ((r, bssid), w1) \<leftarrow> (if ext_flags ext AND IW_ENCODE_EXT_GROUP_KEY \<noteq> 0
                               then (if infrastructure_mode w = Ndis802_11IBSS then Some ((0, replicate 6 0xFF), w) else get_ap_address m (replicate 6 0) w)
                               else Some ((0, ext_addr ext), w));
          k \<leftarrow> ndis_key_bytes (ext_alg ext) (ext_key ext) (ext_key_len ext);
          (res, w2) \<leftarrow> mp_set m OID_802_11_ADD_KEY (ndis_add_key keyidx ext bssid k) w1;
          if res \<noteq> 0 then Some (- 1, w2)
          else do { e \<leftarrow> rd (enc_keys w2) keyidx;
                    k2 \<leftarrow> blk_copy (ek_key e) 0 k 0 (ext_key_len ext);
                    let w3 = w2\<lparr>enc_keys := (enc_keys w2)[keyidx := \<lparr>ek_length = ext_key_len ext, ek_key = k2\<rparr>]\<rparr> in
                    Some (0, if ext_flags ext AND IW_ENCODE_EXT_SET_TX_KEY \<noteq> 0 then w3\<lparr>tx_key_index := keyidx\<rparr> else w3) } }"

text \<open>\<open>junk\<close> and \<open>jbssid\<close>: the stack bytes of \<^verbatim>\<open>ndis_key\<close>, whose address field is passed to \<^verbatim>\<open>remove_key\<close> before it is set.\<close>

definition iw_set_encodeext :: "'d ndis_miniport \<Rightarrow> u8 list \<Rightarrow> u8 list \<Rightarrow> u16 \<Rightarrow> iw_encode_ext \<Rightarrow> ('d, 'z) iw_state_scheme
    \<Rightarrow> (int \<times> ('d, 'z) iw_state_scheme) option" where
  "iw_set_encodeext m junk jbssid flags ext w =
     (let keyidx = encode_index flags w in
      if keyidx \<ge> MAX_ENCR_KEYS then Some (- EINVAL, w)
      else if ext_alg ext = IW_ENCODE_ALG_WEP then
        (if 0 \<notin> capa_encr w then Some (- 1, w)
         else do { (r, w2) \<leftarrow> add_wep_key m junk (ext_key ext) (int (ext_key_len ext)) (int keyidx)
                                (if ext_flags ext AND IW_ENCODE_EXT_SET_TX_KEY \<noteq> 0 then w\<lparr>tx_key_index := keyidx\<rparr> else w);
                   Some (if r \<noteq> 0 then - 1 else 0, w2) })
      else if flags AND IW_ENCODE_DISABLED \<noteq> 0 \<or> ext_alg ext = IW_ENCODE_ALG_NONE \<or> ext_key_len ext = 0
        then remove_key m junk keyidx (Some jbssid) w
      else if ext_key_len ext > NDIS_ENCODING_TOKEN_MAX then Some (- 1, w)
      else add_wpa_key m keyidx ext w)"

section \<open>Association\<close>

text \<open>\<open>rnd\<close> are the random bytes.\<close>

definition disassociate :: "'d ndis_miniport \<Rightarrow> u8 list \<Rightarrow> bool \<Rightarrow> ('d, 'z) iw_state_scheme \<Rightarrow> (u32 \<times> ('d, 'z) iw_state_scheme) option" where
  "disassociate m rnd reset_ssid w =
     do { (res, w1) \<leftarrow> mp_set m OID_802_11_DISASSOCIATE [] w;
          if reset_ssid then do { (r, w2) \<leftarrow> set_essid m (map (\<lambda>b. 97 + b mod 26) rnd) NDIS_ESSID_MAX_SIZE w1; Some (res, w2) }
          else Some (res, w1) }"

definition set_default_iw_params :: "'d ndis_miniport \<Rightarrow> u8 list \<Rightarrow> ('d, 'z) iw_state_scheme \<Rightarrow> (int \<times> ('d, 'z) iw_state_scheme) option" where
  "set_default_iw_params m junk w =
     do { (r1, w1) \<leftarrow> set_infra_mode m junk Ndis802_11Infrastructure (w\<lparr>iw_auth_key_mgmt := 0, iw_auth_wpa_version := 0\<rparr>);
          (r2, w2) \<leftarrow> set_ndis_auth_mode m AuthModeOpen w1;
          (r3, w3) \<leftarrow> set_priv_filter m w2;
          set_iw_encr_mode m IW_AUTH_CIPHER_NONE IW_AUTH_CIPHER_NONE w3 }"

definition deauthenticate :: "'d ndis_miniport \<Rightarrow> u8 list \<Rightarrow> u8 list \<Rightarrow> ('d, 'z) iw_state_scheme \<Rightarrow> (int \<times> ('d, 'z) iw_state_scheme) option" where
  "deauthenticate m junk rnd w =
     do { (ret, w1) \<leftarrow> disassociate m rnd True w; (r, w2) \<leftarrow> set_default_iw_params m junk w1; Some (sint ret, w2) }"

definition iw_set_mlme :: "'d ndis_miniport \<Rightarrow> u8 list \<Rightarrow> u8 list \<Rightarrow> nat \<Rightarrow> ('d, 'z) iw_state_scheme \<Rightarrow> (int \<times> ('d, 'z) iw_state_scheme) option" where
  "iw_set_mlme m junk rnd cmd w =
     (if cmd = 0 then deauthenticate m junk rnd w
      else if cmd = 1 then do { (r, w1) \<leftarrow> disassociate m rnd True w; Some (sint r, w1) }
      else Some (- EOPNOTSUPP, w))"

definition iw_set_auth :: "'d ndis_miniport \<Rightarrow> u8 list \<Rightarrow> u8 list \<Rightarrow> u16 \<Rightarrow> u32 \<Rightarrow> ('d, 'z) iw_state_scheme \<Rightarrow> (int \<times> ('d, 'z) iw_state_scheme) option" where
  "iw_set_auth m junk rnd flags value w =
     (let i = flags AND 0x0FFF in
      if i = 0 then Some (0, w\<lparr>iw_auth_wpa_version := value\<rparr>)
      else if i = 1 then Some (0, w\<lparr>iw_auth_cipher_pairwise := value\<rparr>)
      else if i = 2 then Some (0, w\<lparr>iw_auth_cipher_group := value\<rparr>)
      else if i = 3 then Some (0, w\<lparr>iw_auth_key_mgmt := value\<rparr>)
      else if i = 6 then Some (0, w\<lparr>iw_auth_80211_alg := value\<rparr>)
      else if i = 7 then (if value \<noteq> 0 then do { (r, w1) \<leftarrow> deauthenticate m junk rnd w; Some (0, w1) } else Some (0, w))
      else if i = 12 then Some (if value = 0 \<or> value = 1 then 0 else - EOPNOTSUPP, w)
      else if i = 4 \<or> i = 5 \<or> i = 8 \<or> i = 10 then Some (0, w)
      else Some (- EOPNOTSUPP, w))"

definition iw_get_auth :: "u16 \<Rightarrow> ('d, 'z) iw_state_scheme \<Rightarrow> int \<times> u32 option" where
  "iw_get_auth flags w =
     (let i = flags AND 0x0FFF in
      if i = 0 then (0, Some (iw_auth_wpa_version w))
      else if i = 1 then (0, Some (iw_auth_cipher_pairwise w))
      else if i = 2 then (0, Some (iw_auth_cipher_group w))
      else if i = 3 then (0, Some (iw_auth_key_mgmt w))
      else if i = 6 then (0, Some (iw_auth_80211_alg w))
      else (- EOPNOTSUPP, None))"

text \<open>Commands of \<^verbatim>\<open>SIOCSIWPMKSA\<close>: 1 adds, 2 removes, 3 flushes.\<close>

definition iw_set_pmksa :: "'d ndis_miniport \<Rightarrow> nat \<Rightarrow> u8 list \<Rightarrow> u8 list \<Rightarrow> ('d, 'z) iw_state_scheme \<Rightarrow> (int \<times> ('d, 'z) iw_state_scheme) option" where
  "iw_set_pmksa m cmd bssid pmk w =
     (if (cmd = 1 \<or> cmd = 2) \<and> iw_auth_wpa_version w AND IW_AUTH_WPA_VERSION_WPA2 = 0 then Some (- EOPNOTSUPP, w)
      else do { (res, w1) \<leftarrow> mp_set m OID_802_11_PMKID
                  (ulong_bytes 32 @ (if cmd = 1 then ulong_bytes 1 @ bssid @ pmk else ulong_bytes 0 @ replicate 22 0) @ replicate 2 0) w;
                Some (if res = NDIS_STATUS_FAILURE then - EOPNOTSUPP else if res \<noteq> 0 then - EINVAL else 0, w1) })"

section \<open>Well-formedness\<close>

definition key_ok :: "encr_key \<Rightarrow> bool" where
  "key_ok e \<longleftrightarrow> ek_length e \<le> NDIS_ENCODING_TOKEN_MAX \<and> length (ek_key e) = NDIS_ENCODING_TOKEN_MAX"

definition iw_ok :: "('d, 'z) iw_state_scheme \<Rightarrow> bool" where
  "iw_ok w \<longleftrightarrow> length (enc_keys w) = MAX_ENCR_KEYS \<and> list_all key_ok (enc_keys w) \<and> tx_key_index w < MAX_ENCR_KEYS \<and>
     es_length (essid w) \<le> NDIS_ESSID_MAX_SIZE \<and> length (es_essid (essid w)) = NDIS_ESSID_MAX_SIZE"

text \<open>An operation can start: the state is well-formed and no request is under way.\<close>

definition iw_ready :: "('d, 'z) iw_state_scheme \<Rightarrow> bool" where
  "iw_ready w \<longleftrightarrow> iw_ok w \<and> \<not> ndis_req_mutex w"

definition iw_runs :: "('a \<times> ('d, 'z) iw_state_scheme) option \<Rightarrow> bool" where
  "iw_runs x \<longleftrightarrow> (case x of None \<Rightarrow> False | Some (r, w) \<Rightarrow> iw_ready w)"

text \<open>A request leaves the fields of the extension alone.\<close>

lemma iw_more_auth:
  assumes "req_state.more w' = req_state.more (w :: ('d, 'z) iw_state_scheme)"
  shows "iw_auth_wpa_version w' = iw_auth_wpa_version w" "iw_auth_cipher_pairwise w' = iw_auth_cipher_pairwise w"
    "iw_auth_cipher_group w' = iw_auth_cipher_group w" "iw_auth_key_mgmt w' = iw_auth_key_mgmt w" "iw_auth_80211_alg w' = iw_auth_80211_alg w"
  using assms by (cases w; cases w'; simp)+

lemma iw_more_rest:
  assumes "req_state.more w' = req_state.more (w :: ('d, 'z) iw_state_scheme)"
  shows "enc_keys w' = enc_keys w" "tx_key_index w' = tx_key_index w" "essid w' = essid w" "infrastructure_mode w' = infrastructure_mode w"
    "capa_encr w' = capa_encr w" "capa_auth w' = capa_auth w" "iw_state.more w' = iw_state.more w"
  using assms by (cases w; cases w'; simp)+

lemmas iw_more_fields = iw_more_auth iw_more_rest

lemma same_dev_ready: "same_dev w w' \<Longrightarrow> iw_ready w \<Longrightarrow> \<not> ndis_req_mutex w' \<Longrightarrow> iw_ready w'"
  using iw_more_fields [of w' w] by (simp add: same_dev_def iw_ready_def iw_ok_def)

named_theorems iw_rules "an operation of the wireless component returns in a ready state"

lemma iw_runs_Some: "iw_runs (Some (r, w)) \<longleftrightarrow> iw_ready w"
  by (simp add: iw_runs_def)

lemma iw_runs_bind:
  assumes "iw_runs x" "\<And>r w. iw_ready w \<Longrightarrow> iw_runs (f (r, w))"
  shows "iw_runs (Option.bind x f)"
proof (cases x)
  case None
  with assms(1) show ?thesis by (simp add: iw_runs_def)
next
  case (Some p)
  with assms show ?thesis by (cases p) (simp add: iw_runs_Some)
qed

lemma iw_runs_set:
  assumes "answers m" "iw_ready w"
  shows "iw_runs (mp_set m oid buf w)"
proof -
  obtain res w' where e: "mp_set m oid buf w = Some (res, w')" using mp_set_returns assms by (metis iw_ready_def)
  with mp_set_frame [OF e] assms(2) show ?thesis by (auto simp: iw_runs_def intro: same_dev_ready)
qed

lemma iw_runs_set_int: "answers m \<Longrightarrow> iw_ready w \<Longrightarrow> iw_runs (mp_set_int m oid v w)"
  unfolding mp_set_int_def by (rule iw_runs_set)

lemma iw_runs_query:
  assumes "answers m" "iw_ready w" "\<And>res buf1 w'. iw_ready w' \<Longrightarrow> length buf1 = length buf \<Longrightarrow> iw_runs (f (res, buf1, w'))"
  shows "iw_runs (Option.bind (mp_query m oid buf w) f)"
proof -
  obtain res buf1 w' where e: "mp_query m oid buf w = Some (res, buf1, w')" using mp_query_returns assms(1,2) by (metis iw_ready_def)
  with mp_query_frame [OF e] have "iw_ready w'" "length buf1 = length buf" using assms(2) same_dev_ready by blast+
  with e assms(3) show ?thesis by simp
qed

lemma iw_runs_query_int:
  assumes "answers m" "iw_ready w" "\<And>res v1 w'. iw_ready w' \<Longrightarrow> iw_runs (f (res, v1, w'))"
  shows "iw_runs (Option.bind (mp_query_int m oid v w) f)"
proof -
  have "iw_runs (Option.bind (mp_query m oid (ulong_bytes v) w) (\<lambda>(res, buf, w1). f (res, ulong_of buf, w1)))"
    by (rule iw_runs_query [OF assms(1,2)]) (simp add: assms(3))
  then show ?thesis by (simp add: mp_query_int_def split_def)
qed

text \<open>Field updates keep a state ready when what they store is well-formed.\<close>

lemma iw_ready_updates [simp]:
  "iw_ready (w\<lparr>iw_auth_wpa_version := v\<rparr>) \<longleftrightarrow> iw_ready w" "iw_ready (w\<lparr>iw_auth_cipher_pairwise := v\<rparr>) \<longleftrightarrow> iw_ready w"
  "iw_ready (w\<lparr>iw_auth_cipher_group := v\<rparr>) \<longleftrightarrow> iw_ready w" "iw_ready (w\<lparr>iw_auth_key_mgmt := v\<rparr>) \<longleftrightarrow> iw_ready w"
  "iw_ready (w\<lparr>iw_auth_80211_alg := v\<rparr>) \<longleftrightarrow> iw_ready w" "iw_ready (w\<lparr>infrastructure_mode := v\<rparr>) \<longleftrightarrow> iw_ready w"
  by (simp_all add: iw_ready_def iw_ok_def)

lemma iw_ready_tx_key: "iw_ready w \<Longrightarrow> i < MAX_ENCR_KEYS \<Longrightarrow> iw_ready (w\<lparr>tx_key_index := i\<rparr>)"
  by (simp add: iw_ready_def iw_ok_def)

lemma iw_ready_key:
  assumes "iw_ready w" "key_ok e"
  shows "iw_ready (w\<lparr>enc_keys := (enc_keys w)[i := e]\<rparr>)"
  using assms by (auto simp: iw_ready_def iw_ok_def list_all_iff dest: set_update_subset_insert [THEN subsetD])

lemma iw_ready_essid: "iw_ready w \<Longrightarrow> n \<le> 32 \<Longrightarrow> length e = 32 \<Longrightarrow> iw_ready (w\<lparr>essid := \<lparr>es_length = n, es_essid = e\<rparr>\<rparr>)"
  by (simp add: iw_ready_def iw_ok_def)

lemma iw_ready_rd:
  assumes "iw_ready w" "i < MAX_ENCR_KEYS"
  obtains e where "rd (enc_keys w) i = Some e" "key_ok e"
  using assms that by (auto simp: iw_ready_def iw_ok_def list_all_length rd_def)

section \<open>Every operation returns in a well-formed state\<close>

lemma iw_runs_if [iw_rules]: "(b \<Longrightarrow> iw_runs x) \<Longrightarrow> (\<not> b \<Longrightarrow> iw_runs y) \<Longrightarrow> iw_runs (if b then x else y)"
  by simp

lemma iw_runs_SomeI: "iw_ready w \<Longrightarrow> iw_runs (Some (r, w))"
  by (simp add: iw_runs_Some)

lemma set_iw_auth_mode_runs [iw_rules]: "answers m \<Longrightarrow> iw_ready w \<Longrightarrow> iw_runs (set_iw_auth_mode m v a w)"
  unfolding set_iw_auth_mode_def by (rule iw_runs_bind, rule iw_runs_set_int) (auto simp: iw_runs_Some)

lemma set_ndis_auth_mode_runs [iw_rules]: "answers m \<Longrightarrow> iw_ready w \<Longrightarrow> iw_runs (set_ndis_auth_mode m a w)"
  unfolding set_ndis_auth_mode_def by (rule iw_runs_bind, rule iw_runs_set_int) (auto simp: iw_runs_Some)

lemma set_priv_filter_runs [iw_rules]: "answers m \<Longrightarrow> iw_ready w \<Longrightarrow> iw_runs (set_priv_filter m w)"
  unfolding set_priv_filter_def by (rule iw_runs_bind, rule iw_runs_set_int) (auto simp: iw_runs_Some)

lemma set_iw_encr_mode_runs [iw_rules]: "answers m \<Longrightarrow> iw_ready w \<Longrightarrow> iw_runs (set_iw_encr_mode m a b w)"
  unfolding set_iw_encr_mode_def by (rule iw_runs_bind, rule iw_runs_set_int) (auto simp: iw_runs_Some)

lemma set_assoc_params_runs [iw_rules]: "answers m \<Longrightarrow> iw_ready w \<Longrightarrow> iw_runs (set_assoc_params m w)"
  unfolding set_assoc_params_def set_auth_mode_def set_encr_mode_def
  by (auto intro!: iw_runs_bind iw_rules simp: iw_runs_Some)

lemma set_essid_runs [iw_rules]:
  assumes "answers m" "iw_ready w" "n \<le> length ssid"
  shows "iw_runs (set_essid m ssid n w)"
proof (cases "n > NDIS_ESSID_MAX_SIZE")
  case True
  with assms show ?thesis by (simp add: set_essid_def iw_runs_Some)
next
  case False
  then obtain e where e: "blk_copy (replicate 32 0) 0 ssid 0 n = Some e" "length e = 32"
    using assms(3) by (auto simp: blk_copy_Some_iff)
  have "iw_runs (Option.bind (mp_set m OID_802_11_SSID (ulong_bytes (of_nat n) @ e) w) (\<lambda>(res, w1).
      Some (if res \<noteq> 0 then (- EINVAL, w1) else (0, w1\<lparr>essid := \<lparr>es_length = n, es_essid = e\<rparr>\<rparr>))))"
    using False e(2) by (intro iw_runs_bind iw_runs_set [OF assms(1,2)]) (auto simp: iw_runs_Some iw_ready_essid)
  with False e(1) show ?thesis by (simp add: set_essid_def)
qed

text \<open>Storing a key of admissible length in a slot of the table.\<close>

lemma store_key_runs:
  assumes "iw_ready w" "i < MAX_ENCR_KEYS" "n \<le> 32" "n \<le> length key"
  shows "iw_runs (do { e \<leftarrow> rd (enc_keys w) i; k \<leftarrow> blk_copy (ek_key e) 0 key 0 n;
       Some (r, w\<lparr>enc_keys := (enc_keys w)[i := \<lparr>ek_length = n, ek_key = k\<rparr>]\<rparr>) })"
proof -
  obtain e where e: "rd (enc_keys w) i = Some e" "key_ok e" using iw_ready_rd [OF assms(1,2)] .
  moreover obtain k where "blk_copy (ek_key e) 0 key 0 n = Some k" "length k = 32"
    using e(2) assms by (auto simp: blk_copy_Some_iff key_ok_def)
  ultimately show ?thesis using assms by (auto simp: iw_runs_Some key_ok_def intro!: iw_ready_key)
qed

lemma add_wep_key_runs [iw_rules]:
  assumes "answers m" "iw_ready w" "length junk = 32" "nat len \<le> length key"
  shows "iw_runs (add_wep_key m junk key len index w)"
proof (cases "len \<le> 0 \<or> len > 32 \<or> index < 0 \<or> index \<ge> 4")
  case True
  with assms(2) show ?thesis by (auto simp: add_wep_key_def iw_runs_Some)
next
  case False
  then have ni: "nat index < MAX_ENCR_KEYS" by (simp add: nat_less_iff)
  obtain k where k: "blk_copy junk 0 key 0 (nat len) = Some k" using False assms by (auto simp: blk_copy_Some_iff)
  from False k ni show ?thesis unfolding add_wep_key_def
    by (auto simp: iw_runs_Some split_def intro!: iw_runs_bind set_iw_encr_mode_runs iw_runs_set assms store_key_runs)
qed

lemma readd_keys_runs [iw_rules]:
  "answers m \<Longrightarrow> iw_ready w \<Longrightarrow> length junk = 32 \<Longrightarrow> list_all (\<lambda>i. i < MAX_ENCR_KEYS) is \<Longrightarrow> iw_runs (readd_keys m junk is w)"
proof (induction "is" arbitrary: w)
  case Nil
  then show ?case by (simp add: iw_runs_Some)
next
  case (Cons i "is")
  then obtain e where e: "rd (enc_keys w) i = Some e" "key_ok e" using iw_ready_rd [of w i] by auto
  from Cons.prems e(2) have "iw_runs (if ek_length e > 0 then add_wep_key m junk (ek_key e) (int (ek_length e)) (int i) w else Some (0, w))"
    by (auto simp: iw_runs_Some key_ok_def intro!: add_wep_key_runs)
  with Cons show ?case by (auto simp: e(1) intro!: iw_runs_bind)
qed

lemma set_infra_mode_runs [iw_rules]:
  "answers m \<Longrightarrow> iw_ready w \<Longrightarrow> length junk = 32 \<Longrightarrow> iw_runs (set_infra_mode m junk mode w)"
  unfolding set_infra_mode_def
  by (rule iw_runs_query_int) (auto simp: iw_runs_Some Let_def simp del: readd_keys.simps intro!: iw_runs_bind iw_runs_set_int readd_keys_runs)

lemma remove_key_runs [iw_rules]:
  assumes "answers m" "iw_ready w" "index < MAX_ENCR_KEYS"
  shows "iw_runs (remove_key m junk index bssid w)"
proof -
  obtain e where e: "rd (enc_keys w) index = Some e" "key_ok e" using iw_ready_rd [OF assms(2,3)] .
  then obtain k where k: "blk_fill (ek_key e) 0 0 4 = Some k" "length k = 32" by (auto simp: blk_fill_def key_ok_def)
  have "iw_ready (w\<lparr>enc_keys := (enc_keys w)[index := \<lparr>ek_length = 0, ek_key = k\<rparr>]\<rparr>)"
    using assms(2) k(2) by (auto simp: key_ok_def intro!: iw_ready_key)
  with assms(1,2) show ?thesis unfolding remove_key_def
    by (auto simp: e(1) k(1) iw_runs_Some Let_def intro!: iw_runs_bind iw_runs_set iw_runs_set_int set_iw_encr_mode_runs)
qed

lemma set_wep_key_runs [iw_rules]:
  assumes "answers m" "iw_ready w" "length junk = 32" "n \<le> length key"
  shows "iw_runs (set_wep_key m junk index key n w)"
proof -
  have "iw_runs (set_essid m (es_essid (essid v)) (es_length (essid v)) v)" if "iw_ready v" for v :: "('a, 'b) iw_state_scheme"
    using that assms(1) by (auto simp: iw_ready_def iw_ok_def intro!: set_essid_runs)
  with assms show ?thesis unfolding set_wep_key_def by (auto simp: iw_runs_Some intro!: iw_runs_bind add_wep_key_runs)
qed

lemma iw_set_wep_runs [iw_rules]:
  assumes "answers m" "iw_ready w" "length junk = 32" "len \<le> length extra"
  shows "iw_runs (iw_set_wep m junk flags len extra w)"
proof -
  let ?i = "encode_index flags w"
  have "iw_runs (do { e \<leftarrow> rd (enc_keys v) ?i; if ek_length e = 0 then Some (- EINVAL, v)
      else set_wep_key m junk ?i (ek_key e) (ek_length e) (v\<lparr>tx_key_index := ?i\<rparr>) })"
    if "iw_ready v" "?i < MAX_ENCR_KEYS" for v :: "('a, 'b) iw_state_scheme"
  proof -
    note h = that
    obtain e where "rd (enc_keys v) ?i = Some e" "key_ok e" using iw_ready_rd [OF h] .
    with assms(1,3) h show ?thesis by (auto simp: iw_runs_Some key_ok_def intro!: set_wep_key_runs iw_ready_tx_key)
  qed
  with assms show ?thesis unfolding iw_set_wep_def Let_def
    by (auto simp: iw_runs_Some intro!: iw_runs_bind remove_key_runs set_ndis_auth_mode_runs set_wep_key_runs)
qed

lemma disassociate_runs [iw_rules]: "answers m \<Longrightarrow> iw_ready w \<Longrightarrow> length rnd = 32 \<Longrightarrow> iw_runs (disassociate m rnd reset w)"
  unfolding disassociate_def by (auto simp: iw_runs_Some intro!: iw_runs_bind iw_runs_set set_essid_runs)

lemma set_default_iw_params_runs [iw_rules]:
  "answers m \<Longrightarrow> iw_ready w \<Longrightarrow> length junk = 32 \<Longrightarrow> iw_runs (set_default_iw_params m junk w)"
  unfolding set_default_iw_params_def
  by (auto intro!: iw_runs_bind set_infra_mode_runs set_ndis_auth_mode_runs set_priv_filter_runs set_iw_encr_mode_runs)

lemma deauthenticate_runs [iw_rules]:
  "answers m \<Longrightarrow> iw_ready w \<Longrightarrow> length junk = 32 \<Longrightarrow> length rnd = 32 \<Longrightarrow> iw_runs (deauthenticate m junk rnd w)"
  unfolding deauthenticate_def by (auto simp: iw_runs_Some intro!: iw_runs_bind disassociate_runs set_default_iw_params_runs)

lemma ndis_key_bytes_length:
  "ndis_key_bytes alg key n = Some k \<Longrightarrow> length k = 32"
  by (auto simp: ndis_key_bytes_def bind_eq_Some_conv split: if_splits dest!: blk_copy_length)

lemma ndis_key_bytes_defined: "n \<le> 32 \<Longrightarrow> n \<le> length key \<Longrightarrow> \<exists>k. ndis_key_bytes alg key n = Some k"
  by (auto simp: ndis_key_bytes_def blk_copy_def)

lemma get_ap_address_runs [iw_rules]: "answers m \<Longrightarrow> iw_ready w \<Longrightarrow> iw_runs (get_ap_address m a w)"
  unfolding get_ap_address_def by (auto intro!: iw_runs_query simp: iw_runs_Some)

lemma add_wpa_key_runs [iw_rules]:
  assumes "answers m" "iw_ready w" "i < MAX_ENCR_KEYS" "ext_key_len ext \<le> 32" "ext_key_len ext \<le> length (ext_key ext)"
  shows "iw_runs (add_wpa_key m i ext w)"
proof -
  let ?n = "ext_key_len ext"
  obtain k where k: "ndis_key_bytes (ext_alg ext) (ext_key ext) ?n = Some k" "length k = 32"
    using ndis_key_bytes_defined [OF assms(4,5)] ndis_key_bytes_length by blast
  have "iw_runs (do { e \<leftarrow> rd (enc_keys v) i; k2 \<leftarrow> blk_copy (ek_key e) 0 k 0 ?n;
      let w3 = v\<lparr>enc_keys := (enc_keys v)[i := \<lparr>ek_length = ?n, ek_key = k2\<rparr>]\<rparr> in Some (0, if tx then w3\<lparr>tx_key_index := i\<rparr> else w3) })"
    if "iw_ready v" for v :: "('a, 'b) iw_state_scheme" and tx
    using store_key_runs [OF that assms(3,4), of k 0] k(2) assms(3,4)
    by (cases "rd (enc_keys v) i") (auto simp: iw_runs_def Let_def iw_ready_tx_key split: option.splits bind_splits)
  with assms(1,2) show ?thesis unfolding add_wpa_key_def
    by (auto simp: k(1) iw_runs_Some intro!: iw_runs_bind iw_runs_set get_ap_address_runs)
qed

lemma iw_set_encodeext_runs [iw_rules]:
  assumes "answers m" "iw_ready w" "length junk = 32" "ext_key_len ext \<le> length (ext_key ext)"
  shows "iw_runs (iw_set_encodeext m junk jbssid flags ext w)"
  unfolding iw_set_encodeext_def Let_def using assms
  by (auto simp: iw_runs_Some intro!: iw_runs_bind remove_key_runs add_wpa_key_runs add_wep_key_runs iw_ready_tx_key)

lemma iw_set_essid_runs [iw_rules]:
  assumes "answers m" "iw_ready w" "len \<le> length extra"
  shows "iw_runs (iw_set_essid m flags len extra w)"
proof (cases "flags \<noteq> 0 \<and> len > 0")
  case True
  then have "len - 1 < length extra" using assms(3) by linarith
  then have "rd extra (len - 1) = Some (extra ! (len - 1))" by (simp add: rd_def)
  with True assms show ?thesis unfolding iw_set_essid_def
    by (auto simp: iw_runs_Some intro!: iw_runs_bind set_assoc_params_runs set_essid_runs)
next
  case False
  with assms show ?thesis unfolding iw_set_essid_def
    by (auto simp: iw_runs_Some intro!: iw_runs_bind set_assoc_params_runs set_essid_runs)
qed

lemma iw_set_auth_runs [iw_rules]:
  "answers m \<Longrightarrow> iw_ready w \<Longrightarrow> length junk = 32 \<Longrightarrow> length rnd = 32 \<Longrightarrow> iw_runs (iw_set_auth m junk rnd flags v w)"
  unfolding iw_set_auth_def Let_def by (intro iw_runs_if) (auto simp: iw_runs_Some intro!: iw_runs_bind deauthenticate_runs)

lemma iw_set_mlme_runs [iw_rules]:
  "answers m \<Longrightarrow> iw_ready w \<Longrightarrow> length junk = 32 \<Longrightarrow> length rnd = 32 \<Longrightarrow> iw_runs (iw_set_mlme m junk rnd cmd w)"
  unfolding iw_set_mlme_def by (auto simp: iw_runs_Some intro!: iw_runs_bind deauthenticate_runs disassociate_runs)

lemma iw_set_infra_mode_runs [iw_rules]:
  "answers m \<Longrightarrow> iw_ready w \<Longrightarrow> length junk = 32 \<Longrightarrow> iw_runs (iw_set_infra_mode m junk v w)"
  unfolding iw_set_infra_mode_def by (auto simp: iw_runs_Some intro!: iw_runs_bind set_infra_mode_runs)

lemma iw_set_pmksa_runs [iw_rules]: "answers m \<Longrightarrow> iw_ready w \<Longrightarrow> iw_runs (iw_set_pmksa m cmd b p w)"
  unfolding iw_set_pmksa_def by (auto simp: iw_runs_Some intro!: iw_runs_bind iw_runs_set)

lemma get_mode_runs [iw_rules]:
  "answers m \<Longrightarrow> iw_ready w \<Longrightarrow> iw_runs (get_ndis_encr_mode m j w)" "answers m \<Longrightarrow> iw_ready w \<Longrightarrow> iw_runs (get_ndis_auth_mode m j w)"
  unfolding get_ndis_encr_mode_def get_ndis_auth_mode_def by (auto simp: iw_runs_Some intro!: iw_runs_query_int)

lemma iw_get_encr_runs [iw_rules]:
  assumes "answers m" "iw_ready w" "32 \<le> length extra"
  shows "iw_runs (iw_get_encr m j flags extra w)"
proof (cases "encode_index flags w \<ge> MAX_ENCR_KEYS")
  case True
  with assms show ?thesis by (auto simp: iw_get_encr_def iw_runs_Some wr_def)
next
  case False
  then obtain e where e: "rd (enc_keys w) (encode_index flags w) = Some e" "key_ok e" using iw_ready_rd [OF assms(2), of "encode_index flags w"] by auto
  obtain ex0 where x: "wr extra 0 0 = Some ex0" "length ex0 = length extra" using assms(3) by (cases extra) (auto simp: wr_def)
  obtain ex where ex: "blk_copy ex0 0 (ek_key e) 0 (ek_length e) = Some ex" using x e(2) assms(3) by (auto simp: blk_copy_Some_iff key_ok_def)
  have ex0: "blk_copy ex0 0 (ek_key e) 0 0 = Some ex0" by (simp add: blk_copy_def)
  from False assms(1,2) show ?thesis unfolding iw_get_encr_def
    by (auto simp: x(1) e(1) ex ex0 iw_runs_Some Let_def intro!: iw_runs_bind get_mode_runs)
qed

section \<open>Sequences of requests\<close>

text \<open>The requests of the handler table that change the fields of this theory (name, mode, keys, authentication), with the arguments
  the kernel passes.  The other entries of the table either only read them or concern the driver alone.\<close>

datatype assoc_req =
    SIOCSIWESSID u16 nat "u8 list"
  | SIOCSIWMODE u32
  | SIOCSIWAP "u8 list"
  | SIOCSIWENCODE u16 nat "u8 list"
  | SIOCSIWENCODEEXT u16 iw_encode_ext
  | SIOCSIWAUTH u16 u32
  | SIOCSIWMLME nat
  | SIOCSIWPMKSA nat "u8 list" "u8 list"

text \<open>The kernel copies as many bytes into \<^verbatim>\<open>extra\<close> as the length says.\<close>

fun req_ok :: "assoc_req \<Rightarrow> bool" where
  "req_ok (SIOCSIWESSID flags len extra) \<longleftrightarrow> len \<le> length extra"
| "req_ok (SIOCSIWENCODE flags len extra) \<longleftrightarrow> len \<le> length extra"
| "req_ok (SIOCSIWENCODEEXT flags ext) \<longleftrightarrow> ext_key_len ext \<le> length (ext_key ext)"
| "req_ok _ \<longleftrightarrow> True"

text \<open>\<open>junk\<close> and \<open>rnd\<close> are what the stack and the random generator hold for this call.\<close>

fun run_req :: "'d ndis_miniport \<Rightarrow> assoc_req \<Rightarrow> u8 list \<Rightarrow> u8 list \<Rightarrow> ('d, 'z) iw_state_scheme \<Rightarrow> (int \<times> ('d, 'z) iw_state_scheme) option" where
  "run_req m (SIOCSIWESSID flags len extra) junk rnd w = iw_set_essid m flags len extra w"
| "run_req m (SIOCSIWMODE v) junk rnd w = iw_set_infra_mode m junk v w"
| "run_req m (SIOCSIWAP a) junk rnd w = iw_set_ap_address m a w"
| "run_req m (SIOCSIWENCODE flags len extra) junk rnd w = iw_set_wep m junk flags len extra w"
| "run_req m (SIOCSIWENCODEEXT flags ext) junk rnd w = iw_set_encodeext m junk (take 6 junk) flags ext w"
| "run_req m (SIOCSIWAUTH flags v) junk rnd w = iw_set_auth m junk rnd flags v w"
| "run_req m (SIOCSIWMLME cmd) junk rnd w = iw_set_mlme m junk rnd cmd w"
| "run_req m (SIOCSIWPMKSA cmd b p) junk rnd w = iw_set_pmksa m cmd b p w"

fun iw_exec :: "'d ndis_miniport \<Rightarrow> (assoc_req \<times> u8 list \<times> u8 list) list \<Rightarrow> ('d, 'z) iw_state_scheme \<Rightarrow> (int list \<times> ('d, 'z) iw_state_scheme) option" where
  "iw_exec m [] w = Some ([], w)"
| "iw_exec m ((q, junk, rnd) # qs) w = do { (r, w1) \<leftarrow> run_req m q junk rnd w; (rs, w2) \<leftarrow> iw_exec m qs w1; Some (r # rs, w2) }"

lemma run_req_runs:
  "answers m \<Longrightarrow> iw_ready w \<Longrightarrow> req_ok q \<Longrightarrow> length junk = 32 \<Longrightarrow> length rnd = 32 \<Longrightarrow> iw_runs (run_req m q junk rnd w)"
  by (cases q) (auto intro!: iw_rules iw_runs_bind iw_runs_set simp: iw_set_ap_address_def iw_runs_Some)

lemma iw_exec_runs:
  "answers m \<Longrightarrow> iw_ready w \<Longrightarrow> list_all (\<lambda>(q, junk, rnd). req_ok q \<and> length junk = 32 \<and> length rnd = 32) qs \<Longrightarrow> iw_runs (iw_exec m qs w)"
proof (induction qs arbitrary: w)
  case Nil
  then show ?case by (simp add: iw_runs_Some)
next
  case (Cons x qs)
  obtain q junk rnd where x: "x = (q, junk, rnd)" by (cases x)
  from Cons.prems have "iw_runs (run_req m q junk rnd w)" by (auto simp: x intro!: run_req_runs)
  with Cons show ?case by (auto simp: x iw_runs_Some intro!: iw_runs_bind)
qed

text \<open>C27: The eight requests that set the network name, the operating mode, the access point, a WEP or WPA key, the authentication parameters,
  the MLME command and the PMKSA, with arguments of the lengths the kernel guarantees: every sequence of them, one after the other, runs to its end for
  every driver that answers; none of these handlers faults or blocks, and the table of four keys, their lengths, the index of the
  transmit key and the network name stay well-formed.  (Handlers that read from the driver are not among them; \<^verbatim>\<open>iw_get_essid\<close>, for one, trusts a length the driver
  reports.)\<close>

theorem iw_state_well_formed:
  assumes "answers m" "iw_ready w"
    and "list_all (\<lambda>(q, junk, rnd). req_ok q \<and> length junk = 32 \<and> length rnd = 32) qs"
  shows "\<exists>rs w'. iw_exec m qs w = Some (rs, w') \<and> iw_ok w' \<and> \<not> ndis_req_mutex w'"
  using iw_exec_runs [OF assms] by (auto simp: iw_runs_def iw_ready_def split: option.splits)

section \<open>Modes and keys round trips\<close>

lemma mp_set_fields:
  assumes "mp_set m oid buf w = Some (res, w')"
  shows "req_state.more w' = req_state.more w"
  using mp_set_frame [OF assms] by (simp add: same_dev_def)

lemma set_ndis_auth_mode_accepted:
  assumes "set_ndis_auth_mode m a w = Some (0, w')"
  obtains w1 where "mp_set_int m OID_802_11_AUTHENTICATION_MODE a w = Some (0, w1)"
    "set_ndis_auth_mode m a w = Some (0, w')"
  using assms by (auto simp: set_ndis_auth_mode_def mode_error_def bind_eq_Some_conv split: if_splits)

text \<open>Once the driver has accepted an authentication mode, the mode that is sent again when the device associates is the same one, for every mode but the one for ad-hoc networks.\<close>

theorem auth_mode_resent:
  assumes "set_ndis_auth_mode m a w = Some (0, w')"
    and "a \<in> {AuthModeOpen, AuthModeShared, AuthModeAutoSwitch, AuthModeWPA, AuthModeWPAPSK, AuthModeWPA2, AuthModeWPA2PSK}"
  shows "set_auth_mode m w' = do { (res, w1) \<leftarrow> mp_set_int m OID_802_11_AUTHENTICATION_MODE a w'; Some (if res \<noteq> 0 then (mode_error res, w1) else (0, w1)) }"
proof -
  obtain w1 where e: "mp_set_int m OID_802_11_AUTHENTICATION_MODE a w = Some (0, w1)"
    using assms(1) by (rule set_ndis_auth_mode_accepted)
  from assms(2) have "auth_mode_of (iw_auth_wpa_version w') (iw_auth_80211_alg w') (iw_auth_key_mgmt w') = a"
    using assms(1) e by (elim insertE emptyE) (auto simp: set_ndis_auth_mode_def auth_mode_of_def)
  moreover have "w1\<lparr>iw_auth_wpa_version := iw_auth_wpa_version w', iw_auth_80211_alg := iw_auth_80211_alg w'\<rparr> = w1"
    if "mp_set_int m OID_802_11_AUTHENTICATION_MODE a w' = Some (res, w1)" for res w1
    using iw_more_auth [OF mp_set_fields [OF that [unfolded mp_set_int_def]]] by simp
  ultimately show ?thesis
    by (cases "mp_set_int m OID_802_11_AUTHENTICATION_MODE a w'") (auto simp: set_auth_mode_def set_iw_auth_mode_def)
qed

text \<open>For the mode of an ad-hoc network the table of \<^verbatim>\<open>set_ndis_auth_mode\<close> and that of \<^verbatim>\<open>set_iw_auth_mode\<close> differ: it is never sent again.\<close>

lemma auth_mode_none_lost:
  assumes "set_ndis_auth_mode m AuthModeWPANone w = Some (0, w')"
  shows "auth_mode_of (iw_auth_wpa_version w') (iw_auth_80211_alg w') (iw_auth_key_mgmt w') \<noteq> AuthModeWPANone"
proof -
  obtain w1 where e: "mp_set_int m OID_802_11_AUTHENTICATION_MODE AuthModeWPANone w = Some (0, w1)"
    using assms(1) by (rule set_ndis_auth_mode_accepted)
  with assms show ?thesis by (auto simp: set_ndis_auth_mode_def auth_mode_of_def)
qed

text \<open>The reordering of a TKIP key is its own inverse.\<close>

lemma tkip_key_swap:
  assumes "length key = 32"
  obtains k where "ndis_key_bytes IW_ENCODE_ALG_TKIP key 32 = Some k" "ndis_key_bytes IW_ENCODE_ALG_TKIP k 32 = Some key"
proof -
  have *: "ndis_key_bytes IW_ENCODE_ALG_TKIP k 32 = Some (take 16 k @ take 8 (drop 24 k) @ take 8 (drop 16 k))" if "length k = 32" for k :: "u8 list"
    using that by (simp add: ndis_key_bytes_def blk_copy_def)
  have "take 16 key @ take 8 (drop 16 key) @ take 8 (drop 24 key) = key"
    using assms append_take_drop_id [of 8 "drop 16 key"] append_take_drop_id [of 16 key] by simp
  then show ?thesis using * [of key] * [of "take 16 key @ take 8 (drop 24 key) @ take 8 (drop 16 key)"] assms that
    by simp
qed

lemma set_ndis_auth_mode_keys:
  assumes "set_ndis_auth_mode m a w = Some (r, w')"
  shows "enc_keys w' = enc_keys w \<and> tx_key_index w' = tx_key_index w"
proof -
  obtain res w1 where m: "mp_set m OID_802_11_AUTHENTICATION_MODE (ulong_bytes a) w = Some (res, w1)"
    and e: "enc_keys w' = enc_keys w1" "tx_key_index w' = tx_key_index w1"
    using assms by (auto simp: set_ndis_auth_mode_def mp_set_int_def bind_eq_Some_conv split: if_splits)
  show ?thesis using iw_more_rest [OF mp_set_fields [OF m]] e by simp
qed

lemma set_iw_encr_mode_keys:
  assumes "set_iw_encr_mode m a b w = Some (r, w')"
  shows "enc_keys w' = enc_keys w \<and> tx_key_index w' = tx_key_index w"
proof -
  obtain res w1 where m: "mp_set m OID_802_11_ENCRYPTION_STATUS (ulong_bytes (encr_mode_of a b)) w = Some (res, w1)"
    and e: "enc_keys w' = enc_keys w1" "tx_key_index w' = tx_key_index w1"
    using assms by (auto simp: set_iw_encr_mode_def mp_set_int_def bind_eq_Some_conv split: if_splits)
  show ?thesis using iw_more_rest [OF mp_set_fields [OF m]] e by simp
qed

lemma add_wep_key_stores:
  assumes "add_wep_key m junk key len i w = Some (0, w')"
  shows "0 < len \<and> len \<le> 32 \<and> 0 \<le> i \<and> i < 4 \<and> nat len \<le> length key \<and> nat i < length (enc_keys w) \<and> tx_key_index w' = tx_key_index w \<and>
     enc_keys w' = (enc_keys w)[nat i := \<lparr>ek_length = nat len, ek_key = take (nat len) key @ drop (nat len) (ek_key (enc_keys w ! nat i))\<rparr>]"
proof -
  have b: "0 < len" "len \<le> 32" "0 \<le> i" "i < 4" using assms by (auto simp: add_wep_key_def split: if_splits)
  obtain idx w1 w2 buf where
    1: "(if nat i = tx_key_index w
         then do { (r, w1) \<leftarrow> set_iw_encr_mode m IW_AUTH_CIPHER_WEP104 IW_AUTH_CIPHER_NONE w; Some (word_of_int i OR 0x80000000, w1) }
         else Some (word_of_int i :: u32, w)) = Some (idx, w1)"
    and 2: "mp_set m OID_802_11_ADD_WEP buf w1 = Some (0, w2)"
    and 3: "do { e \<leftarrow> rd (enc_keys w2) (nat i); k2 \<leftarrow> blk_copy (ek_key e) 0 key 0 (nat len);
              Some (0, w2\<lparr>enc_keys := (enc_keys w2)[nat i := \<lparr>ek_length = nat len, ek_key = k2\<rparr>]\<rparr>) } = Some (0 :: int, w')"
    using assms b unfolding add_wep_key_def by (auto simp: bind_eq_Some_conv split: if_splits)
  have "enc_keys w1 = enc_keys w \<and> tx_key_index w1 = tx_key_index w"
    using 1 by (auto simp: bind_eq_Some_conv split: if_splits dest: set_iw_encr_mode_keys)
  moreover have "enc_keys w2 = enc_keys w1" "tx_key_index w2 = tx_key_index w1" using iw_more_rest [OF mp_set_fields [OF 2]] by simp_all
  ultimately show ?thesis using 3 b by (auto simp: bind_eq_Some_conv rd_Some_iff blk_copy_Some_iff)
qed

text \<open>A key that was set at an index other than that of the transmit key is read back, bytes and length, from that index.\<close>

theorem wep_key_read_back:
  assumes "iw_set_wep m junk flags len extra w = Some (0, w')" "flags AND IW_ENCODE_DISABLED = 0" "0 < len"
    and "encode_index flags w \<noteq> tx_key_index w" "unat (fl AND IW_ENCODE_INDEX) = encode_index flags w + 1" "len \<le> length buf"
  shows "iw_get_encr m j fl buf w' = Some ((0, fl, len, take len extra @ drop len buf), w')"
proof -
  let ?i = "encode_index flags w"
  have i: "?i < MAX_ENCR_KEYS" using assms(1) by (auto simp: iw_set_wep_def Let_def split: if_splits)
  obtain a w1 where 1: "set_ndis_auth_mode m a w = Some (0, w1)" and 2: "set_wep_key m junk ?i extra len w1 = Some (0, w')"
    using assms(1-3) i by (auto simp: iw_set_wep_def Let_def bind_eq_Some_conv split: if_splits)
  have k1: "enc_keys w1 = enc_keys w" "tx_key_index w1 = tx_key_index w" using set_ndis_auth_mode_keys [OF 1] by simp_all
  obtain w2 where 3: "add_wep_key m junk extra (int len) (int ?i) w1 = Some (0, w2)"
    using 2 by (auto simp: set_wep_key_def bind_eq_Some_conv split: if_splits)
  note s = add_wep_key_stores [OF 3]
  have w': "w' = w2" using 2 3 s k1 assms(4) by (auto simp: set_wep_key_def)
  have e: "rd (enc_keys w') ?i = Some \<lparr>ek_length = len, ek_key = take len extra @ drop len (ek_key (enc_keys w1 ! ?i))\<rparr>"
    using s w' by (auto simp: rd_def)
  have x: "encode_index fl w' = ?i" by (simp add: encode_index_def Let_def assms(5))
  have b: "buf \<noteq> []" "0 < length buf" using assms(3,6) by auto
  have c: "blk_copy (buf[0 := 0]) 0 (take len extra @ ys) 0 len = Some (take len extra @ drop len buf)" for ys
    using assms(3,6) s by (auto simp: blk_copy_def drop_update_cancel)
  have t: "tx_key_index w' = tx_key_index w" using s w' k1(2) by simp
  show ?thesis using i assms(3,4) t b by (simp add: iw_get_encr_def wr_def x e c Let_def)
qed

section \<open>Witnesses\<close>

text \<open>A driver that accepts every request and reports the mode it was given last.\<close>

definition demo_reply :: "u32 \<Rightarrow> u8 list \<Rightarrow> mp_reply" where
  "demo_reply st out = \<lparr>rp_status = st, rp_wait = Never, rp_out = out, rp_written = of_nat (length out), rp_needed = 0\<rparr>"

definition demo_mp :: "u32 ndis_miniport" where
  "demo_mp = \<lparr>mp_queryinfo = (\<lambda>oid buf d. (demo_reply 0 (ulong_bytes d), d)),
     mp_setinfo = (\<lambda>oid buf d. (demo_reply 0 [], if oid = OID_802_11_AUTHENTICATION_MODE then ulong_of buf else d)),
     mp_init_fn = Some (\<lambda>d. (\<lparr>ir_status = 0, ir_no_halt_on_suspend = False, ir_surprise_remove_ok = True, ir_hangcheck_interval = 2,
                               ir_interrupt = True, ir_timers = [7, 8]\<rparr>, 0)),
     mp_halt_fn = (\<lambda>d. (False, d)), mp_reset_fn = (\<lambda>d. (0, Never, 1, d)), mp_hangcheck_fn = Some (\<lambda>d. (False, d)), mp_pnp_event_fn = None\<rparr>"

definition iw_demo :: "u32 iw_state" where
  "iw_demo = \<lparr>drv = 0, ndis_req_mutex = False, tx_ring_mutex = False, ndis_req_done = 0, ndis_req_status = 0,
     iw_auth_wpa_version = 0, iw_auth_cipher_pairwise = 0, iw_auth_cipher_group = 0, iw_auth_key_mgmt = 0, iw_auth_80211_alg = 0,
     enc_keys = replicate 4 \<lparr>ek_length = 0, ek_key = replicate 32 0\<rparr>, tx_key_index = 0, essid = \<lparr>es_length = 0, es_essid = replicate 32 0\<rparr>,
     infrastructure_mode = 1, capa_encr = {}, capa_auth = {}, max_pmkids = 0\<rparr>"

lemma demo_answers: "answers demo_mp"
  by (simp add: answers_def demo_mp_def demo_reply_def reply_ends_def)

lemma iw_demo_ready: "iw_ready iw_demo"
  by (simp add: iw_ready_def iw_ok_def iw_demo_def key_ok_def numeral_eq_Suc)

lemma demo_set: "\<not> ndis_req_mutex w \<Longrightarrow> mp_set demo_mp oid buf w =
    Some (0, w\<lparr>ndis_req_mutex := False, ndis_req_done := 0, drv := if oid = OID_802_11_AUTHENTICATION_MODE then ulong_of buf else drv w\<rparr>)"
  by (simp add: mp_set_def mp_request_def miniport_call_def demo_mp_def demo_reply_def lock_req_def unlock_req_def Let_def)

theorem iw_state_well_formed_witness:
  "\<exists>rs w'. iw_exec demo_mp [(SIOCSIWENCODE 1 5 [1, 2, 3, 4, 5], replicate 32 0, replicate 32 0), (SIOCSIWESSID 1 3 [65, 66, 0], replicate 32 0, replicate 32 0)]
     iw_demo = Some (rs, w') \<and> iw_ok w' \<and> \<not> ndis_req_mutex w'"
  by (rule iw_state_well_formed [OF demo_answers iw_demo_ready]) simp

lemma demo_set_auth: "\<not> ndis_req_mutex w \<Longrightarrow> set_ndis_auth_mode demo_mp AuthModeWPAPSK w =
    Some (0, w\<lparr>ndis_req_mutex := False, ndis_req_done := 0, drv := AuthModeWPAPSK, iw_auth_wpa_version := 2, iw_auth_key_mgmt := 2\<rparr>)"
  by (simp add: set_ndis_auth_mode_def mp_set_int_def demo_set)

theorem auth_mode_resent_witness:
  "set_auth_mode demo_mp (iw_demo\<lparr>drv := 4, iw_auth_wpa_version := 2, iw_auth_key_mgmt := 2\<rparr>) =
     Some (0, iw_demo\<lparr>drv := 4, iw_auth_wpa_version := 2, iw_auth_key_mgmt := 2\<rparr>)"
proof -
  let ?w = "iw_demo\<lparr>drv := 4, iw_auth_wpa_version := 2, iw_auth_key_mgmt := 2\<rparr>"
  have "set_ndis_auth_mode demo_mp AuthModeWPAPSK iw_demo = Some (0, ?w)"
    by (subst demo_set_auth) (simp_all add: iw_demo_def)
  then have "set_auth_mode demo_mp ?w = do { (res, w1) \<leftarrow> mp_set_int demo_mp OID_802_11_AUTHENTICATION_MODE AuthModeWPAPSK ?w;
      Some (if res \<noteq> 0 then (mode_error res, w1) else (0, w1)) }"
    by (rule auth_mode_resent) simp
  also have "\<dots> = Some (0, ?w)" by (subst mp_set_int_def, subst demo_set) (simp_all add: iw_demo_def)
  finally show ?thesis .
qed

lemma demo_add_wep:
  assumes "\<not> ndis_req_mutex w" "tx_key_index w = 0" "2 < length (enc_keys w)" "length (ek_key (enc_keys w ! 2)) = 32"
  shows "add_wep_key demo_mp (replicate 32 0) [1, 2, 3, 4, 5] 5 2 w = Some (0, w\<lparr>ndis_req_mutex := False, ndis_req_done := 0,
    enc_keys := (enc_keys w)[2 := \<lparr>ek_length = 5, ek_key = [1, 2, 3, 4, 5] @ drop 5 (ek_key (enc_keys w ! 2))\<rparr>]\<rparr>)"
  using assms by (simp add: add_wep_key_def demo_set blk_copy_def rd_def)

theorem wep_key_read_back_witness:
  "\<exists>w'. iw_set_wep demo_mp (replicate 32 0) 3 5 [1, 2, 3, 4, 5] iw_demo = Some (0, w') \<and>
     iw_get_encr demo_mp 0 3 (replicate 8 9) w' = Some ((0, 3, 5, [1, 2, 3, 4, 5, 9, 9, 9]), w')"
proof -
  have i: "encode_index 3 iw_demo = 2" by (simp add: encode_index_def iw_demo_def)
  obtain w1 where 1: "set_ndis_auth_mode demo_mp AuthModeShared iw_demo = Some (0, w1)" "\<not> ndis_req_mutex w1" "enc_keys w1 = enc_keys iw_demo"
      "tx_key_index w1 = 0"
    by (simp add: set_ndis_auth_mode_def mp_set_int_def demo_set iw_demo_def)
  have "2 < length (enc_keys w1)" "length (ek_key (enc_keys w1 ! 2)) = 32" by (simp_all add: 1(3) iw_demo_def)
  note a = demo_add_wep [OF 1(2,4) this]
  obtain w' where "set_wep_key demo_mp (replicate 32 0) 2 [1, 2, 3, 4, 5] 5 w1 = Some (0, w')"
    by (simp add: set_wep_key_def a 1(4))
  then have s: "iw_set_wep demo_mp (replicate 32 0) 3 5 [1, 2, 3, 4, 5] iw_demo = Some (0, w')"
    by (simp add: iw_set_wep_def i 1(1) Let_def)
  have "iw_get_encr demo_mp 0 3 (replicate 8 9) w' = Some ((0, 3, 5, take 5 [1, 2, 3, 4, 5] @ drop 5 (replicate 8 9)), w')"
    by (rule wep_key_read_back [OF s]) (simp_all add: i, simp add: iw_demo_def)
  with s show ?thesis by (auto simp: numeral_eq_Suc)
qed

end
