(* ===== verification/Wnd_Control.thy ===== *)
theory Wnd_Control
  imports Iw_Ndis
begin

text \<open>
  The control path of the network device (\<^verbatim>\<open>wrapndis.c\<close>): starting and halting a driver, suspend and resume, packet filter and
  multicast list, media state, the periodic checks and the worker that carries out what interrupt handlers have put off.

  The device state extends that of the wireless component.  \<^verbatim>\<open>hw_status\<close>, \<^verbatim>\<open>attributes\<close> and \<^verbatim>\<open>ndis_pending_work\<close> are bit sets in the code
  and separate flags, or a set, here.  A timer is \<open>None\<close> when it is not armed, otherwise the delay it was armed with.  \<open>None\<close> as a
  result is a fault or a mutex that is never released.

  Shown are that the search for an acceptable packet filter ends and gives up nothing but the optional receive modes, that suspend
  holds both mutexes and resume releases them, when no wireless network has to be left, that suspending a halting wireless PCI device
  blocks on a mutex its own task holds, that the worker carries out every request and leaves none pending, that
  the power profile is not announced on start, that the start of a device never sets the largest packet size the driver allows, and that a driver
  which offers WPA-PSK authentication is taken to offer TKIP encryption.
\<close>

unbundle bit_operations_syntax

section \<open>State\<close>

datatype wrap_bus = WRAP_PCI_BUS | WRAP_USB_BUS | WRAP_INTERNAL_BUS

datatype wrapper_work = LINK_STATUS_OFF | LINK_STATUS_ON | SET_MULTICAST_LIST | COLLECT_IW_STATS | HANGCHECK | NETIF_WAKEQ

datatype device_power_state = PowerDeviceUnspecified | PowerDeviceD3

datatype iw_event = IWEVASSOCREQIE "u8 list" | IWEVASSOCRESPIE "u8 list" | Ev_SIOCGIWAP "u8 list"

record iw_statistics =
  iw_level :: u8
  iw_noise :: u8
  iw_qual :: u8
  iw_discard_retries :: u32
  iw_discard_misc :: u32

record 'd wnd = "'d iw_state" +
  HW_INITIALIZED :: bool
  HW_SUSPENDED :: bool
  HW_HALTED :: bool
  HW_DISABLED :: bool
  NO_HALT_ON_SUSPEND :: bool
  SURPRISE_REMOVE_OK :: bool
  physical_medium :: u32
  dev_bus :: wrap_bus
  wake_state :: device_power_state
  pnp_capa :: "u8 list"
  ndis_wolopts :: u32
  packet_filter :: u32
  multicast_size :: int
  IFF_PROMISC :: bool
  IFF_ALLMULTI :: bool
  mc_list :: "u8 list list"
  mtu :: int
  carrier_ok :: bool
  txq_stopped :: bool
  dev_attached :: bool
  may_tx :: bool
  ndis_pending_work :: "wrapper_work set"
  ndis_work_queued :: bool
  hangcheck_interval :: int
  hangcheck_timer :: "int option"
  iw_stats_interval :: int
  iw_stats_timer :: "int option"
  iw_stats_enabled :: bool
  iw_stats :: iw_statistics
  mp_interrupt :: bool
  wrap_timer_slist :: "nat list"
  iw_events :: "iw_event list"

text \<open>What the module was loaded with: the tick frequency and the parameter \<^verbatim>\<open>hangcheck_interval\<close>.\<close>

record wrap_config =
  cfg_HZ :: int
  cfg_hangcheck_interval :: int

abbreviation OID_GEN_CURRENT_PACKET_FILTER :: u32 where "OID_GEN_CURRENT_PACKET_FILTER \<equiv> 0x0001010E"
abbreviation OID_GEN_MAXIMUM_TOTAL_SIZE :: u32 where "OID_GEN_MAXIMUM_TOTAL_SIZE \<equiv> 0x00010111"
abbreviation OID_GEN_MEDIA_CONNECT_STATUS :: u32 where "OID_GEN_MEDIA_CONNECT_STATUS \<equiv> 0x00010114"
abbreviation OID_802_3_MULTICAST_LIST :: u32 where "OID_802_3_MULTICAST_LIST \<equiv> 0x01010103"
abbreviation OID_802_11_NETWORK_TYPES_SUPPORTED :: u32 where "OID_802_11_NETWORK_TYPES_SUPPORTED \<equiv> 0x0D010203"
abbreviation OID_802_11_NETWORK_TYPE_IN_USE :: u32 where "OID_802_11_NETWORK_TYPE_IN_USE \<equiv> 0x0D010204"
abbreviation OID_802_11_RSSI :: u32 where "OID_802_11_RSSI \<equiv> 0x0D010206"
abbreviation OID_802_11_STATISTICS :: u32 where "OID_802_11_STATISTICS \<equiv> 0x0D020212"
abbreviation OID_802_11_POWER_MODE :: u32 where "OID_802_11_POWER_MODE \<equiv> 0x0D010216"
abbreviation OID_802_11_ASSOCIATION_INFORMATION :: u32 where "OID_802_11_ASSOCIATION_INFORMATION \<equiv> 0x0D01011F"
abbreviation OID_802_11_CAPABILITY :: u32 where "OID_802_11_CAPABILITY \<equiv> 0x0D010122"
abbreviation OID_PNP_CAPABILITIES :: u32 where "OID_PNP_CAPABILITIES \<equiv> 0xFD010100"
abbreviation OID_PNP_SET_POWER :: u32 where "OID_PNP_SET_POWER \<equiv> 0xFD010101"
abbreviation OID_PNP_ENABLE_WAKE_UP :: u32 where "OID_PNP_ENABLE_WAKE_UP \<equiv> 0xFD010106"

abbreviation NDIS_PACKET_TYPE_MULTICAST :: u32 where "NDIS_PACKET_TYPE_MULTICAST \<equiv> 0x2"
abbreviation NDIS_PACKET_TYPE_ALL_MULTICAST :: u32 where "NDIS_PACKET_TYPE_ALL_MULTICAST \<equiv> 0x4"
abbreviation NDIS_PACKET_TYPE_PROMISCUOUS :: u32 where "NDIS_PACKET_TYPE_PROMISCUOUS \<equiv> 0x20"
abbreviation NDIS_PACKET_TYPE_ALL_LOCAL :: u32 where "NDIS_PACKET_TYPE_ALL_LOCAL \<equiv> 0x80"
abbreviation NDIS_PACKET_TYPE_ALL_FUNCTIONAL :: u32 where "NDIS_PACKET_TYPE_ALL_FUNCTIONAL \<equiv> 0x2000"

abbreviation NdisPhysicalMediumWirelessLan :: u32 where "NdisPhysicalMediumWirelessLan \<equiv> 1"
abbreviation NdisMediaStateConnected :: int where "NdisMediaStateConnected \<equiv> 0"
abbreviation NdisMediaStateDisconnected :: int where "NdisMediaStateDisconnected \<equiv> 1"
abbreviation NdisDeviceStateD0 :: u32 where "NdisDeviceStateD0 \<equiv> 1"
abbreviation NdisDeviceStateD3 :: u32 where "NdisDeviceStateD3 \<equiv> 4"
abbreviation NdisDevicePnPEventSurpriseRemoved :: nat where "NdisDevicePnPEventSurpriseRemoved \<equiv> 2"
abbreviation NdisDevicePnPEventPowerProfileChanged :: nat where "NdisDevicePnPEventPowerProfileChanged \<equiv> 5"
abbreviation ETH_HLEN :: int where "ETH_HLEN \<equiv> 14"
abbreviation ETH_ZLEN :: int where "ETH_ZLEN \<equiv> 60"

section \<open>Periodic checks\<close>

definition queue_ndis_work :: "wrapper_work \<Rightarrow> 'd wnd \<Rightarrow> 'd wnd" where
  "queue_ndis_work b w = w\<lparr>ndis_pending_work := insert b (ndis_pending_work w), ndis_work_queued := True\<rparr>"

definition hangcheck_proc :: "'d wnd \<Rightarrow> 'd wnd" where
  "hangcheck_proc w = (let w1 = (if hangcheck_interval w > 0 then queue_ndis_work HANGCHECK w else w) in w1\<lparr>hangcheck_timer := Some (hangcheck_interval w1)\<rparr>)"

definition hangcheck_add :: "'d ndis_miniport \<Rightarrow> wrap_config \<Rightarrow> 'd wnd \<Rightarrow> 'd wnd" where
  "hangcheck_add m cfg w =
     (if mp_hangcheck_fn m = None \<or> cfg_hangcheck_interval cfg < 0 then w
      else let i1 = (if cfg_hangcheck_interval cfg > 0 then cfg_hangcheck_interval cfg * cfg_HZ cfg else hangcheck_interval w);
               i2 = (if i1 < 0 then - i1 else i1) in
           w\<lparr>hangcheck_interval := i2, hangcheck_timer := Some i2\<rparr>)"

definition hangcheck_del :: "'d wnd \<Rightarrow> 'd wnd" where
  "hangcheck_del w = w\<lparr>hangcheck_interval := (if hangcheck_interval w > 0 then - hangcheck_interval w else hangcheck_interval w), hangcheck_timer := None\<rparr>"

definition iw_stats_timer_proc :: "'d wnd \<Rightarrow> 'd wnd" where
  "iw_stats_timer_proc w =
     (let w1 = (if iw_stats_interval w > 0 then queue_ndis_work COLLECT_IW_STATS w else w) in w1\<lparr>iw_stats_timer := Some (iw_stats_interval w1)\<rparr>)"

definition add_iw_stats_timer :: "'d wnd \<Rightarrow> 'd wnd" where
  "add_iw_stats_timer w =
     (if physical_medium w \<noteq> NdisPhysicalMediumWirelessLan then w
      else let i = (if iw_stats_interval w < 0 then - iw_stats_interval w else iw_stats_interval w) in
           w\<lparr>iw_stats_interval := i, iw_stats_timer := Some i\<rparr>)"

definition del_iw_stats_timer :: "'d wnd \<Rightarrow> 'd wnd" where
  "del_iw_stats_timer w = w\<lparr>iw_stats_interval := - iw_stats_interval w, iw_stats_timer := None\<rparr>"

section \<open>Packet filter and multicast list\<close>

text \<open>The filter \<^verbatim>\<open>set_packet_filter\<close> tries next when the driver rejects one.\<close>

definition relax_filter :: "u32 \<Rightarrow> u32 option" where
  "relax_filter pf =
     (if pf AND NDIS_PACKET_TYPE_PROMISCUOUS \<noteq> 0 then Some (pf AND NOT NDIS_PACKET_TYPE_PROMISCUOUS)
      else if pf AND NDIS_PACKET_TYPE_ALL_LOCAL \<noteq> 0 then Some (pf AND NOT NDIS_PACKET_TYPE_ALL_LOCAL)
      else if pf AND NDIS_PACKET_TYPE_ALL_FUNCTIONAL \<noteq> 0 then Some (pf AND NOT NDIS_PACKET_TYPE_ALL_FUNCTIONAL)
      else if pf AND NDIS_PACKET_TYPE_MULTICAST \<noteq> 0 then Some ((pf AND NOT NDIS_PACKET_TYPE_MULTICAST) OR NDIS_PACKET_TYPE_ALL_MULTICAST)
      else if pf AND NDIS_PACKET_TYPE_ALL_MULTICAST \<noteq> 0 then Some (pf AND NOT NDIS_PACKET_TYPE_ALL_MULTICAST)
      else None)"

definition filter_weight :: "u32 \<Rightarrow> nat" where
  "filter_weight pf = of_bool (bit pf 5) + of_bool (bit pf 7) + of_bool (bit pf 13) + 2 * of_bool (bit pf 1) + of_bool (bit pf 2)"

lemma and_flag_bit: "(pf :: u32) AND 2 ^ n = 0 \<longleftrightarrow> \<not> bit pf n"
  by (rule and_exp_eq_0_iff_not_bit)

lemma flag_bits:
  "(pf :: u32) AND 0x20 = 0 \<longleftrightarrow> \<not> bit pf 5" "pf AND 0x80 = 0 \<longleftrightarrow> \<not> bit pf 7" "pf AND 0x2000 = 0 \<longleftrightarrow> \<not> bit pf 13"
  "pf AND 0x2 = 0 \<longleftrightarrow> \<not> bit pf 1" "pf AND 0x4 = 0 \<longleftrightarrow> \<not> bit pf 2"
  using and_flag_bit [of pf 5] and_flag_bit [of pf 7] and_flag_bit [of pf 13] and_flag_bit [of pf 1] and_flag_bit [of pf 2] by simp_all

lemma relax_filter_weight: "relax_filter pf = Some pf' \<Longrightarrow> filter_weight pf' < filter_weight pf"
  by (auto simp: relax_filter_def filter_weight_def flag_bits bit_simps split: if_splits)

text \<open>The loop of \<^verbatim>\<open>set_packet_filter\<close>: the filter it ends with.\<close>

function filter_loop :: "'d ndis_miniport \<Rightarrow> u32 \<Rightarrow> 'd wnd \<Rightarrow> (u32 \<times> 'd wnd) option" where
  "filter_loop m pf w =
     do { (res, w1) \<leftarrow> mp_set_int m OID_GEN_CURRENT_PACKET_FILTER pf w;
          if res = NDIS_STATUS_SUCCESS then Some (pf, w1)
          else (case relax_filter pf of Some pf' \<Rightarrow> filter_loop m pf' w1 | None \<Rightarrow> Some (pf, w1)) }"
  by pat_completeness auto
termination by (relation "measure (\<lambda>(m, pf, w). filter_weight pf)") (auto dest: relax_filter_weight)

declare filter_loop.simps [simp del]

definition set_packet_filter :: "'d ndis_miniport \<Rightarrow> u32 \<Rightarrow> 'd wnd \<Rightarrow> (int \<times> 'd wnd) option" where
  "set_packet_filter m pf w =
     do { (pf1, w1) \<leftarrow> filter_loop m pf w;
          (res, pf2, w2) \<leftarrow> mp_query_int m OID_GEN_CURRENT_PACKET_FILTER pf1 (w1\<lparr>packet_filter := pf1\<rparr>);
          let w3 = (if pf2 \<noteq> packet_filter w2 then w2\<lparr>packet_filter := pf2\<rparr> else w2) in
          Some (if packet_filter w3 \<noteq> 0 then 0 else - 1, w3) }"

text \<open>\<open>mem\<close>: whether the kernel has memory for the address buffer.\<close>

definition set_multicast_list :: "'d ndis_miniport \<Rightarrow> bool \<Rightarrow> 'd wnd \<Rightarrow> (unit \<times> 'd wnd) option" where
  "set_multicast_list m mem w =
     (let pf = packet_filter w; n = int (length (mc_list w)) in
      if IFF_PROMISC w then do { (r, w1) \<leftarrow> set_packet_filter m (pf OR NDIS_PACKET_TYPE_PROMISCUOUS OR NDIS_PACKET_TYPE_ALL_LOCAL) w; Some ((), w1) }
      else if IFF_ALLMULTI w \<or> n > multicast_size w
        then do { (r, w1) \<leftarrow> set_packet_filter m (pf OR NDIS_PACKET_TYPE_ALL_MULTICAST) w; Some ((), w1) }
      else if n > 0 then
        (if \<not> mem then Some ((), w)
         else do { let size = nat (min (multicast_size w) n); addrs = take size (mc_list w) in
                   do { (res, w1) \<leftarrow> mp_set m OID_802_3_MULTICAST_LIST (concat addrs) w;
                        (r, w2) \<leftarrow> set_packet_filter m (pf OR (if res = NDIS_STATUS_SUCCESS \<and> length addrs > 0 then NDIS_PACKET_TYPE_MULTICAST
                                                              else NDIS_PACKET_TYPE_ALL_MULTICAST)) w1;
                        Some ((), w2) } })
      else do { (r, w1) \<leftarrow> set_packet_filter m pf w; Some ((), w1) })"

definition ndis_set_multicast_list :: "'d wnd \<Rightarrow> 'd wnd" where
  "ndis_set_multicast_list w = queue_ndis_work SET_MULTICAST_LIST w"

section \<open>Reset\<close>

text \<open>The status and the value of \<^verbatim>\<open>reset_address\<close> after the call of the driver, and after the sleep when it is pending.\<close>

definition reset_wait :: "u32 \<Rightarrow> mp_wait \<Rightarrow> u8 \<Rightarrow> 'd wnd \<Rightarrow> (u32 \<times> bool \<times> 'd wnd) option" where
  "reset_wait st e address w =
     (if st = NDIS_STATUS_PENDING
      then do { (res, w1) \<leftarrow> req_wait e w; Some (res, if e = Interrupted then address \<noteq> 0 else ndis_req_done w1 - 1 \<noteq> 0, w1) }
      else Some (st, address \<noteq> 0, w))"

definition mp_reset :: "'d ndis_miniport \<Rightarrow> bool \<Rightarrow> 'd wnd \<Rightarrow> (u32 \<times> 'd wnd) option" where
  "mp_reset m mem w =
     do { w1 \<leftarrow> lock_tx w;
          w2 \<leftarrow> lock_req w1;
          let (st, e, address, d) = mp_reset_fn m (drv w2) in
          do { (res, reset_address, w3) \<leftarrow> reset_wait st e address (w2\<lparr>ndis_req_done := 0, drv := d\<rparr>);
               let w4 = unlock_req w3 in
               if res = NDIS_STATUS_SUCCESS \<and> reset_address
               then do { (r, w5) \<leftarrow> set_packet_filter m (packet_filter w4) w4; (r, w6) \<leftarrow> set_multicast_list m mem w5; Some (res, unlock_tx w6) }
               else Some (res, unlock_tx w4) } }"

section \<open>Media state and the network interface\<close>

definition set_media_state :: "int \<Rightarrow> 'd wnd \<Rightarrow> 'd wnd" where
  "set_media_state state w =
     (if state = NdisMediaStateConnected then
        (if carrier_ok w then w
         else let w1 = w\<lparr>carrier_ok := True, may_tx := True, txq_stopped := False\<rparr> in
              if physical_medium w = NdisPhysicalMediumWirelessLan then queue_ndis_work LINK_STATUS_ON w1 else w1)
      else if state = NdisMediaStateDisconnected then
        (if \<not> carrier_ok w then w
         else let w1 = w\<lparr>carrier_ok := False, txq_stopped := True, may_tx := False\<rparr> in
              if physical_medium w = NdisPhysicalMediumWirelessLan
              then queue_ndis_work LINK_STATUS_OFF (w1\<lparr>essid := \<lparr>es_length = 0, es_essid = replicate NDIS_ESSID_MAX_SIZE 0\<rparr>\<rparr>) else w1)
      else w)"

definition ndis_net_dev_open :: "'d ndis_miniport \<Rightarrow> u32 \<Rightarrow> 'd wnd \<Rightarrow> (int \<times> 'd wnd) option" where
  "ndis_net_dev_open m junk w =
     do { (res, status, w1) \<leftarrow> mp_query_int m OID_GEN_MEDIA_CONNECT_STATUS junk w;
          let w2 = (if res = NDIS_STATUS_SUCCESS \<and> sint status \<ge> NdisMediaStateConnected \<and> sint status \<le> NdisMediaStateDisconnected
                    then set_media_state (sint status) w1 else w1) in
          Some (0, w2\<lparr>txq_stopped := False\<rparr>) }"

definition ndis_net_dev_close :: "'d wnd \<Rightarrow> int \<times> 'd wnd" where
  "ndis_net_dev_close w = (0, w\<lparr>txq_stopped := True\<rparr>)"

definition ndis_change_mtu :: "'d ndis_miniport \<Rightarrow> u32 \<Rightarrow> int \<Rightarrow> 'd wnd \<Rightarrow> (int \<times> 'd wnd) option" where
  "ndis_change_mtu m junk new_mtu w =
     (if new_mtu < ETH_ZLEN then Some (- EINVAL, w)
      else do { (res, v, w1) \<leftarrow> mp_query_int m OID_GEN_MAXIMUM_TOTAL_SIZE junk w;
                if res \<noteq> NDIS_STATUS_SUCCESS then Some (- EOPNOTSUPP, w1)
                else let max = sint v - ETH_HLEN in
                     if max \<le> ETH_ZLEN then Some (- EINVAL, w1)
                     else if new_mtu + ETH_HLEN > max then Some (- EINVAL, w1)
                     else Some (0, w1\<lparr>mtu := new_mtu\<rparr>) })"

text \<open>The call of \<^verbatim>\<open>ndis_start_device\<close>.\<close>

definition start_mtu :: "'d ndis_miniport \<Rightarrow> u32 \<Rightarrow> u32 \<Rightarrow> 'd wnd \<Rightarrow> (unit \<times> 'd wnd) option" where
  "start_mtu m n0 junk w =
     do { (res, n, w1) \<leftarrow> mp_query_int m OID_GEN_MAXIMUM_TOTAL_SIZE n0 w;
          if res = NDIS_STATUS_SUCCESS \<and> sint n > ETH_HLEN then do { (r, w2) \<leftarrow> ndis_change_mtu m junk (sint n - ETH_HLEN) w1; Some ((), w2) }
          else Some ((), w1) }"

section \<open>Deferred work\<close>

text \<open>\<^verbatim>\<open>100 * (rssi - WL_NOISE) / (WL_SIGMAX - WL_NOISE)\<close>, clamped; C division rounds towards zero, and what it rounds towards zero is clamped.\<close>

definition signal_qual :: "int \<Rightarrow> int" where
  "signal_qual rssi = (let q = sint (word_of_int (100 * (rssi + 96)) :: u32) div 64 in if q < 0 then 0 else if q > 100 then 100 else q)"

definition sum64 :: "u8 list \<Rightarrow> nat list \<Rightarrow> u64 option" where
  "sum64 b offs = foldl (\<lambda>a off. do { x \<leftarrow> a; y \<leftarrow> rd64 b off; Some (x + y) }) (Some 0) offs"

text \<open>\<open>rssi0\<close> and \<open>junk\<close> are the uninitialised local variables.\<close>

definition update_iw_stats :: "'d ndis_miniport \<Rightarrow> u32 \<Rightarrow> u8 list \<Rightarrow> 'd wnd \<Rightarrow> (unit \<times> 'd wnd) option" where
  "update_iw_stats m rssi0 junk w =
     (if \<not> iw_stats_enabled w \<or> \<not> carrier_ok w
      then Some ((), w\<lparr>iw_stats := \<lparr>iw_level = 0, iw_noise = 0, iw_qual = 0, iw_discard_retries = 0, iw_discard_misc = 0\<rparr>\<rparr>)
      else do {
        (res, rssi, w1) \<leftarrow> mp_query_int m OID_802_11_RSSI rssi0 w;
        let s1 = (if res = NDIS_STATUS_SUCCESS then (iw_stats w1)\<lparr>iw_level := ucast rssi\<rparr> else iw_stats w1);
            w2 = w1\<lparr>iw_stats := s1\<lparr>iw_noise := - 96, iw_qual := word_of_int (signal_qual (sint rssi))\<rparr>\<rparr> in
        do { (res, st, w3) \<leftarrow> mp_query m OID_802_11_STATISTICS junk w2;
             if res \<noteq> NDIS_STATUS_SUCCESS then Some ((), w3)
             else do { rt \<leftarrow> sum64 st [32, 40]; ms \<leftarrow> sum64 st [96, 56, 64, 72];
                       Some ((), w3\<lparr>iw_stats := (iw_stats w3)\<lparr>iw_discard_retries := ucast rt, iw_discard_misc := ucast ms\<rparr>\<rparr>) } } })"

definition link_status_off :: "'d wnd \<Rightarrow> 'd wnd" where
  "link_status_off w = w\<lparr>iw_events := iw_events w @ [Ev_SIOCGIWAP (replicate 6 0)]\<rparr>"

text \<open>The information elements an event carries: the offset and the length come from the driver.\<close>

definition assoc_ies :: "u8 list \<Rightarrow> nat \<Rightarrow> nat \<Rightarrow> (u8 list \<Rightarrow> iw_event) \<Rightarrow> 'd wnd \<Rightarrow> 'd wnd option" where
  "assoc_ies info len_at off_at ev w =
     do { len \<leftarrow> rd32 info len_at; off \<leftarrow> rd32 info off_at;
          if len > 0 then let n = unat (ucast len :: u16) in
            (if unat off + n \<le> length info then Some (w\<lparr>iw_events := iw_events w @ [ev (take n (drop (unat off) info))]\<rparr>) else None)
          else Some w }"

definition link_status_on :: "'d ndis_miniport \<Rightarrow> bool \<Rightarrow> 'd wnd \<Rightarrow> (unit \<times> 'd wnd) option" where
  "link_status_on m mem w =
     do { w3 \<leftarrow> (if \<not> mem then Some w
                 else do { (res, info, w1) \<leftarrow> mp_query m OID_802_11_ASSOCIATION_INFORMATION (replicate 328 0) w;
                           if res \<noteq> 0 then Some w1
                           else do { w2 \<leftarrow> assoc_ies info 16 20 IWEVASSOCREQIE w1; assoc_ies info 32 36 IWEVASSOCRESPIE w2 } });
          ((r, ap), w4) \<leftarrow> get_ap_address m (replicate 6 0) w3;
          Some ((), w4\<lparr>iw_events := iw_events w4 @ [Ev_SIOCGIWAP ap]\<rparr>) }"

text \<open>The value of \<^verbatim>\<open>test_and_clear_bit\<close>, the handler and the state with the bit cleared.\<close>

definition do_work :: "wrapper_work \<Rightarrow> ('d wnd \<Rightarrow> (unit \<times> 'd wnd) option) \<Rightarrow> 'd wnd \<Rightarrow> (unit \<times> 'd wnd) option" where
  "do_work b f w = (if b \<in> ndis_pending_work w then f (w\<lparr>ndis_pending_work := ndis_pending_work w - {b}\<rparr>) else Some ((), w))"

definition do_hangcheck :: "'d ndis_miniport \<Rightarrow> bool \<Rightarrow> 'd wnd \<Rightarrow> (unit \<times> 'd wnd) option" where
  "do_hangcheck m mem w =
     do { f \<leftarrow> mp_hangcheck_fn m;
          let (reset, d) = f (drv w); w1 = w\<lparr>drv := d\<rparr> in
          if reset then do { (r, w2) \<leftarrow> mp_reset m mem w1; Some ((), w2) } else Some ((), w1) }"

definition wrapndis_worker :: "'d ndis_miniport \<Rightarrow> bool \<Rightarrow> u32 \<Rightarrow> u8 list \<Rightarrow> 'd wnd \<Rightarrow> (unit \<times> 'd wnd) option" where
  "wrapndis_worker m mem rssi0 junk w =
     do { (u, w1) \<leftarrow> do_work NETIF_WAKEQ (\<lambda>w. Some ((), w\<lparr>txq_stopped := False\<rparr>)) (w\<lparr>ndis_work_queued := False\<rparr>);
          (u, w2) \<leftarrow> do_work LINK_STATUS_OFF (\<lambda>w. Some ((), link_status_off w)) w1;
          (u, w3) \<leftarrow> do_work LINK_STATUS_ON (link_status_on m mem) w2;
          (u, w4) \<leftarrow> do_work COLLECT_IW_STATS (update_iw_stats m rssi0 junk) w3;
          (u, w5) \<leftarrow> do_work SET_MULTICAST_LIST (set_multicast_list m mem) w4;
          do_work HANGCHECK (do_hangcheck m mem) w5 }"

section \<open>Start, halt and power\<close>

definition mp_pnp_event :: "'d ndis_miniport \<Rightarrow> nat \<Rightarrow> u32 \<Rightarrow> 'd wnd \<Rightarrow> u32 \<times> 'd wnd" where
  "mp_pnp_event m event power_profile w =
     (case mp_pnp_event_fn m of
        None \<Rightarrow> (NDIS_STATUS_FAILURE, w)
      | Some f \<Rightarrow>
          if \<not> HW_INITIALIZED w then (NDIS_STATUS_SUCCESS, w)
          else if event = NdisDevicePnPEventSurpriseRemoved
            then (NDIS_STATUS_SUCCESS, if SURPRISE_REMOVE_OK w \<and> \<not> HW_DISABLED w then w\<lparr>drv := f event [] (drv w)\<rparr> else w)
          else if event = NdisDevicePnPEventPowerProfileChanged
            then (NDIS_STATUS_SUCCESS, w\<lparr>drv := f event (ulong_bytes (if power_profile \<noteq> 0 then 1 else 0)) (drv w)\<rparr>)
          else (NDIS_STATUS_SUCCESS, w))"

text \<open>What the calls of \<^verbatim>\<open>NdisMSetAttributesEx\<close>, \<^verbatim>\<open>NdisMRegisterInterrupt\<close> and \<^verbatim>\<open>NdisMInitializeTimer\<close> leave in the device.\<close>

definition init_effects :: "wrap_config \<Rightarrow> mp_init_reply \<Rightarrow> 'd wnd \<Rightarrow> 'd wnd" where
  "init_effects cfg ir w = w\<lparr>NO_HALT_ON_SUSPEND := ir_no_halt_on_suspend ir, SURPRISE_REMOVE_OK := ir_surprise_remove_ok ir,
     hangcheck_interval := 2 * (if ir_hangcheck_interval ir > 0 then int (ir_hangcheck_interval ir) else 1) * cfg_HZ cfg,
     mp_interrupt := ir_interrupt ir, wrap_timer_slist := ir_timers ir @ wrap_timer_slist w\<rparr>"

text \<open>The part of \<^verbatim>\<open>mp_init\<close> that asks for the power capabilities.\<close>

definition wake_capa :: "'d ndis_miniport \<Rightarrow> 'd wnd \<Rightarrow> 'd wnd option" where
  "wake_capa m w =
     do { (status, capa, w1) \<leftarrow> mp_query m OID_PNP_CAPABILITIES (pnp_capa w) w;
          let w2 = w1\<lparr>pnp_capa := capa\<rparr> in
          if status = NDIS_STATUS_SUCCESS
          then do { (st, wol, w3) \<leftarrow> mp_query_int m OID_PNP_ENABLE_WAKE_UP (ndis_wolopts w2) (w2\<lparr>NO_HALT_ON_SUSPEND := True\<rparr>); Some (w3\<lparr>ndis_wolopts := wol\<rparr>) }
          else if status = NDIS_STATUS_NOT_SUPPORTED then Some (w2\<lparr>NO_HALT_ON_SUSPEND := False\<rparr>)
          else Some w2 }"

definition mp_init :: "'d ndis_miniport \<Rightarrow> wrap_config \<Rightarrow> 'd wnd \<Rightarrow> (u32 \<times> 'd wnd) option" where
  "mp_init m cfg w =
     (if HW_INITIALIZED w then Some (NDIS_STATUS_FAILURE, w)
      else case mp_init_fn m of
        None \<Rightarrow> Some (NDIS_STATUS_NOT_RECOGNIZED, w)
      | Some f \<Rightarrow>
          let (ir, d) = f (drv w); w1 = init_effects cfg ir (w\<lparr>drv := d\<rparr>) in
          if ir_status ir \<noteq> NDIS_STATUS_SUCCESS then Some (NDIS_STATUS_FAILURE, w1)
          else do {
            w2 \<leftarrow> wake_capa m ((snd (mp_pnp_event m NdisDevicePnPEventPowerProfileChanged 1 w1))\<lparr>HW_INITIALIZED := True\<rparr>);
            (st, w3) \<leftarrow> mp_set_int m OID_802_11_POWER_MODE 0
                         (if dev_bus w2 = WRAP_USB_BUS then w2\<lparr>NO_HALT_ON_SUSPEND := False, ndis_wolopts := 0\<rparr> else w2);
            Some (NDIS_STATUS_SUCCESS, w3) })"

text \<open>The loop that frees the timers a driver has left.\<close>

primrec free_wrap_timers :: "nat list \<Rightarrow> 'd wnd \<Rightarrow> 'd wnd" where
  "free_wrap_timers [] w = w\<lparr>wrap_timer_slist := []\<rparr>"
| "free_wrap_timers (t # ts) w = free_wrap_timers ts (w\<lparr>wrap_timer_slist := ts\<rparr>)"

definition mp_halt :: "'d ndis_miniport \<Rightarrow> 'd wnd \<Rightarrow> (unit \<times> 'd wnd) option" where
  "mp_halt m w =
     (if \<not> HW_INITIALIZED w then Some ((), w)
      else do {
        let w1 = del_iw_stats_timer (hangcheck_del (w\<lparr>HW_INITIALIZED := False\<rparr>)) in
        do { w2 \<leftarrow> (if physical_medium w1 = NdisPhysicalMediumWirelessLan \<and> dev_bus w1 = WRAP_PCI_BUS
                    then do { (r, v) \<leftarrow> disassociate m [] False (unlock_req w1); lock_req v }
                    else Some w1);
             let (deregistered, d) = mp_halt_fn m (drv w2) in
             Some ((), free_wrap_timers (wrap_timer_slist w2) (w2\<lparr>drv := d, mp_interrupt := False\<rparr>)) } })"

text \<open>The two branches of \<^verbatim>\<open>mp_set_power_state\<close>.\<close>

definition resumed :: "'d ndis_miniport \<Rightarrow> wrap_config \<Rightarrow> 'd wnd \<Rightarrow> 'd wnd" where
  "resumed m cfg w = add_iw_stats_timer (hangcheck_add m cfg (unlock_tx w\<lparr>dev_attached := True\<rparr>))"

definition mp_resume :: "'d ndis_miniport \<Rightarrow> wrap_config \<Rightarrow> bool \<Rightarrow> 'd wnd \<Rightarrow> (u32 \<times> 'd wnd) option" where
  "mp_resume m cfg mem w =
     (let w1 = unlock_req w in
      if HW_HALTED w1 then do {
        (status, w2) \<leftarrow> mp_init m cfg (w1\<lparr>HW_HALTED := False\<rparr>);
        if status = NDIS_STATUS_SUCCESS
        then do { (r, w3) \<leftarrow> set_packet_filter m (packet_filter w2) w2; (r, w4) \<leftarrow> set_multicast_list m mem w3; Some (status, resumed m cfg w4) }
        else Some (status, w2) }
      else if HW_SUSPENDED w1 then do {
        (status, w2) \<leftarrow> mp_set_int m OID_PNP_SET_POWER NdisDeviceStateD0 (w1\<lparr>HW_SUSPENDED := False\<rparr>);
        Some (status, if status = NDIS_STATUS_SUCCESS then resumed m cfg w2 else w2) }
      else Some (NDIS_STATUS_FAILURE, w1))"

text \<open>Suspending without halting: wake-up options and power state are the driver's business.\<close>

definition suspend_driver :: "'d ndis_miniport \<Rightarrow> u32 \<Rightarrow> 'd wnd \<Rightarrow> (u32 \<times> 'd wnd) option" where
  "suspend_driver m state w =
     (if NO_HALT_ON_SUSPEND w then do {
        (st, w1) \<leftarrow> mp_set_int m OID_PNP_ENABLE_WAKE_UP (ndis_wolopts w) w;
        let w2 = (if st = NDIS_STATUS_SUCCESS \<and> dev_bus w1 = WRAP_PCI_BUS
                  then w1\<lparr>wake_state := if ndis_wolopts w1 \<noteq> 0 then PowerDeviceD3 else PowerDeviceUnspecified\<rparr> else w1) in
        do { (st, w3) \<leftarrow> mp_set_int m OID_PNP_SET_POWER state w2;
             Some (st, if st = NDIS_STATUS_SUCCESS then w3\<lparr>HW_SUSPENDED := True\<rparr> else w3) } }
      else Some (NDIS_STATUS_NOT_SUPPORTED, w))"

definition mp_suspend :: "'d ndis_miniport \<Rightarrow> u32 \<Rightarrow> 'd wnd \<Rightarrow> (u32 \<times> 'd wnd) option" where
  "mp_suspend m state w =
     do { w1 \<leftarrow> lock_tx w;
          (status, w2) \<leftarrow> suspend_driver m state (del_iw_stats_timer (hangcheck_del (w1\<lparr>dev_attached := False\<rparr>)));
          w3 \<leftarrow> (if status \<noteq> NDIS_STATUS_SUCCESS then do { (u, v) \<leftarrow> mp_halt m w2; Some (v\<lparr>HW_HALTED := True\<rparr>) } else Some w2);
          w4 \<leftarrow> lock_req w3;
          Some (NDIS_STATUS_SUCCESS, w4) }"

definition mp_set_power_state :: "'d ndis_miniport \<Rightarrow> wrap_config \<Rightarrow> bool \<Rightarrow> u32 \<Rightarrow> 'd wnd \<Rightarrow> (u32 \<times> 'd wnd) option" where
  "mp_set_power_state m cfg mem state w = (if state = NdisDeviceStateD0 then mp_resume m cfg mem w else mp_suspend m state w)"

definition ndis_reinit :: "'d ndis_miniport \<Rightarrow> wrap_config \<Rightarrow> bool \<Rightarrow> 'd wnd \<Rightarrow> (u32 \<times> 'd wnd) option" where
  "ndis_reinit m cfg mem w =
     do { (status, w1) \<leftarrow> mp_set_power_state m cfg mem NdisDeviceStateD3 (w\<lparr>NO_HALT_ON_SUSPEND := False\<rparr>);
          if status \<noteq> NDIS_STATUS_SUCCESS then Some (status, w1) else mp_set_power_state m cfg mem NdisDeviceStateD0 w1 }"

section \<open>Wake on LAN\<close>

abbreviation WAKE_MAGIC :: u32 where "WAKE_MAGIC \<equiv> 0x20"

definition min_magic_packet_wakeup :: "'d wnd \<Rightarrow> u32" where
  "min_magic_packet_wakeup w = ulong_of (drop 4 (pnp_capa w))"

text \<open>The pair of what is supported and what is switched on.\<close>

definition ndis_get_wol :: "'d wnd \<Rightarrow> u32 \<times> u32" where
  "ndis_get_wol w =
     (if \<not> NO_HALT_ON_SUSPEND w \<or> dev_bus w \<noteq> WRAP_PCI_BUS \<or> min_magic_packet_wakeup w < NdisDeviceStateD3 then (0, 0)
      else (WAKE_MAGIC, if ndis_wolopts w AND 1 \<noteq> 0 then WAKE_MAGIC else 0))"

definition ndis_set_wol :: "u32 \<Rightarrow> 'd wnd \<Rightarrow> int \<times> 'd wnd" where
  "ndis_set_wol wolopts w =
     (if \<not> NO_HALT_ON_SUSPEND w \<or> min_magic_packet_wakeup w < NdisDeviceStateD3 then (- EOPNOTSUPP, w)
      else if wolopts AND WAKE_MAGIC \<noteq> 0 then (0, w\<lparr>ndis_wolopts := ndis_wolopts w OR 1\<rparr>)
      else if wolopts = 0 then (0, w\<lparr>ndis_wolopts := 0\<rparr>)
      else (- EOPNOTSUPP, w))"

section \<open>Encryption capabilities\<close>

text \<open>The bits that the answer to \<^verbatim>\<open>OID_802_11_NETWORK_TYPES_SUPPORTED\<close> sets in a word on the stack; a bit beyond the word is a fault.\<close>

primrec collect_types :: "u8 list \<Rightarrow> nat \<Rightarrow> nat \<Rightarrow> nat set \<Rightarrow> nat set option" where
  "collect_types buf 0 i acc = Some acc"
| "collect_types buf (Suc k) i acc = do { t \<leftarrow> rd32 buf (4 + 4 * i); if unat t < 64 then collect_types buf k (Suc i) (insert (unat t) acc) else None }"

definition network_mode :: "nat set \<Rightarrow> u32" where
  "network_mode types = (if 3 \<in> types then 3 else if 1 \<in> types then 1 else if 2 \<in> types then 2 else 1)"

text \<open>Setting a mode and reading it back: \<open>None\<close> when setting it failed.\<close>

definition probe_encr :: "'d ndis_miniport \<Rightarrow> u32 \<Rightarrow> u32 \<Rightarrow> 'd wnd \<Rightarrow> (int option \<times> 'd wnd) option" where
  "probe_encr m cipher j w =
     do { (r, w1) \<leftarrow> set_iw_encr_mode m cipher IW_AUTH_CIPHER_NONE w;
          if r = 0 then do { (i, w2) \<leftarrow> get_ndis_encr_mode m j w1; Some (Some i, w2) } else Some (None, w1) }"

definition probe_auth :: "'d ndis_miniport \<Rightarrow> u32 \<Rightarrow> u32 \<Rightarrow> 'd wnd \<Rightarrow> (bool \<times> 'd wnd) option" where
  "probe_auth m mode j w =
     do { (r, w1) \<leftarrow> set_ndis_auth_mode m mode w;
          if r = 0 then do { (i, w2) \<leftarrow> get_ndis_auth_mode m j w1; Some (i = sint mode, w2) } else Some (False, w1) }"

text \<open>The cascade that looks for the highest encryption; the last mode of it has the number 0, which is also the mark of failure.\<close>

definition highest_encr :: "'d ndis_miniport \<Rightarrow> u32 \<Rightarrow> 'd wnd \<Rightarrow> (nat \<times> 'd wnd) option" where
  "highest_encr m j w =
     do { (p, w1) \<leftarrow> probe_encr m IW_AUTH_CIPHER_CCMP j w;
          if p = Some 7 \<or> p = Some 6 then Some (6, w1)
          else do { (p, w2) \<leftarrow> probe_encr m IW_AUTH_CIPHER_TKIP j w1;
                    if p = Some 5 \<or> p = Some 4 then Some (4, w2)
                    else do { (p, w3) \<leftarrow> probe_encr m IW_AUTH_CIPHER_WEP104 j w2; Some (0, w3) } } }"

text \<open>The loop over the pairs of authentication and encryption modes; it stops at the end of the buffer.\<close>

primrec auth_encr_pairs :: "u8 list \<Rightarrow> nat \<Rightarrow> nat \<Rightarrow> 'd wnd \<Rightarrow> (unit \<times> 'd wnd) option" where
  "auth_encr_pairs buf 0 i w = Some ((), w)"
| "auth_encr_pairs buf (Suc k) i w =
     (if 16 + 8 * (i + 1) > length buf then Some ((), w)
      else do { a \<leftarrow> rd32 buf (16 + 8 * i); e \<leftarrow> rd32 buf (20 + 8 * i);
                let w1 = (if unat a \<in> {0, 1, 3, 4, 5, 6, 7} then w\<lparr>capa_auth := insert (unat a) (capa_auth w)\<rparr> else w);
                    w2 = (if unat e \<in> {0, 1, 4, 6} then w1\<lparr>capa_encr := insert (unat e) (capa_encr w1)\<rparr> else w1) in
                auth_encr_pairs buf k (Suc i) w2 })"

text \<open>From the probe of a WPA key on.\<close>

definition wpa_capa :: "'d ndis_miniport \<Rightarrow> nat \<Rightarrow> u8 list \<Rightarrow> 'd wnd \<Rightarrow> (unit \<times> 'd wnd) option" where
  "wpa_capa m mode junk w =
     do { (res, w1) \<leftarrow> mp_set m OID_802_11_ADD_KEY (ulong_bytes 64 @ ulong_bytes 0xC0000001 @ ulong_bytes 32 @ drop 12 junk) w;
          if res \<noteq> 0 \<and> res \<noteq> NDIS_STATUS_INVALID_DATA then Some ((), w1)
          else do { (res, ai, w2) \<leftarrow> mp_query m OID_802_11_ASSOCIATION_INFORMATION (take 40 junk) w1;
                    if res = NDIS_STATUS_NOT_SUPPORTED then Some ((), w2)
                    else do {
                      let w3 = w2\<lparr>capa_encr := capa_encr w2 \<union> {4} \<union> (if mode = 6 then {6} else {}), capa_auth := insert 4 (capa_auth w2), max_pmkids := 1\<rparr> in
                      do { (res, c, w4) \<leftarrow> mp_query m OID_802_11_CAPABILITY (replicate 256 0) w3;
                           ver \<leftarrow> rd32 c 4; np \<leftarrow> rd32 c 8; n \<leftarrow> rd32 c 12;
                           if res = NDIS_STATUS_SUCCESS \<and> ver = 2 then auth_encr_pairs c (unat n) 0 (w4\<lparr>max_pmkids := sint np\<rparr>) else Some ((), w4) } } } }"

definition get_encryption_capa :: "'d ndis_miniport \<Rightarrow> u32 \<Rightarrow> u8 list \<Rightarrow> u8 list \<Rightarrow> 'd wnd \<Rightarrow> (unit \<times> 'd wnd) option" where
  "get_encryption_capa m j junk buf w =
     do { (res, b, w1) \<leftarrow> mp_query m OID_802_11_NETWORK_TYPES_SUPPORTED buf w;
          (u, w2) \<leftarrow> (if res = NDIS_STATUS_SUCCESS
                     then do { n \<leftarrow> rd32 b 0; types \<leftarrow> collect_types b (unat n) 0 {}; mp_set_int m OID_802_11_NETWORK_TYPE_IN_USE (network_mode types) w1 }
                     else Some (0, w1));
          (p, w3) \<leftarrow> probe_encr m IW_AUTH_CIPHER_WEP104 j w2;
          let w4 = (if p = Some 2 then w3\<lparr>capa_encr := insert 0 (capa_encr w3)\<rparr> else w3) in
          do { (wpa, w5) \<leftarrow> probe_auth m AuthModeWPA j w4;
               if \<not> wpa then Some ((), w5)
               else do { (psk, w6) \<leftarrow> probe_auth m AuthModeWPAPSK j (w5\<lparr>capa_encr := insert 3 (capa_encr w5)\<rparr>);
                         (mode, w7) \<leftarrow> highest_encr m j (if psk then w6\<lparr>capa_encr := insert 4 (capa_encr w6)\<rparr> else w6);
                         if mode = 0 then Some ((), w7) else wpa_capa m mode junk (w7\<lparr>capa_encr := insert 0 (capa_encr w7)\<rparr>) } } }"

section \<open>Packet filter\<close>

text \<open>The numbers of the flags that may be given up: multicast, all multicast, promiscuous, all local, all functional.\<close>

definition optional_flags :: "nat set" where "optional_flags = {1, 2, 5, 7, 13}"

lemma flag_bit: "m < 32 \<Longrightarrow> bit ((2 :: u32) ^ m) n \<longleftrightarrow> n = m"
  by (auto simp: bit_exp_iff)

lemma set_flag_bit: "bit (pf OR 0x4 :: u32) n \<longleftrightarrow> bit pf n \<or> n = 2"
  using flag_bit [of 2 n] by (simp add: bit_or_iff)

lemma and_not_bit: "bit (pf AND NOT k :: u32) n \<longleftrightarrow> bit pf n \<and> \<not> bit k n"
  by (auto simp: bit_and_iff bit_not_iff dest: bit_imp_possible_bit)

lemma clear_flag_bits:
  "bit (pf AND - 33 :: u32) n \<longleftrightarrow> bit pf n \<and> n \<noteq> 5" "bit (pf AND - 129 :: u32) n \<longleftrightarrow> bit pf n \<and> n \<noteq> 7"
  "bit (pf AND - 8193 :: u32) n \<longleftrightarrow> bit pf n \<and> n \<noteq> 13" "bit (pf AND - 3 :: u32) n \<longleftrightarrow> bit pf n \<and> n \<noteq> 1"
  "bit (pf AND - 5 :: u32) n \<longleftrightarrow> bit pf n \<and> n \<noteq> 2"
  subgoal using and_not_bit [of pf "0x20" n] flag_bit [of 5 n] by auto
  subgoal using and_not_bit [of pf "0x80" n] flag_bit [of 7 n] by auto
  subgoal using and_not_bit [of pf "0x2000" n] flag_bit [of 13 n] by auto
  subgoal using and_not_bit [of pf "0x2" n] flag_bit [of 1 n] by auto
  subgoal using and_not_bit [of pf "0x4" n] flag_bit [of 2 n] by auto
  done

lemma relax_filter_keeps: "relax_filter pf = Some pf' \<Longrightarrow> n \<notin> optional_flags \<Longrightarrow> bit pf' n \<longleftrightarrow> bit pf n"
  unfolding relax_filter_def optional_flags_def by (auto simp: clear_flag_bits set_flag_bit split: if_splits)

lemma relax_filter_None: "relax_filter pf = None \<longleftrightarrow> (\<forall>n \<in> optional_flags. \<not> bit pf n)"
  by (auto simp: relax_filter_def optional_flags_def flag_bits)

text \<open>The fields of the device that a request leaves alone.\<close>

lemma wnd_more_hw:
  assumes "req_state.more w' = req_state.more (w :: 'd wnd)"
  shows "HW_INITIALIZED w' = HW_INITIALIZED w" "HW_SUSPENDED w' = HW_SUSPENDED w" "HW_HALTED w' = HW_HALTED w"
    "NO_HALT_ON_SUSPEND w' = NO_HALT_ON_SUSPEND w" "physical_medium w' = physical_medium w" "dev_bus w' = dev_bus w"
    "packet_filter w' = packet_filter w" "dev_attached w' = dev_attached w"
  using assms by (cases w; cases w'; simp)+

lemma wnd_more_rest:
  assumes "req_state.more w' = req_state.more (w :: 'd wnd)"
  shows "ndis_pending_work w' = ndis_pending_work w" "hangcheck_timer w' = hangcheck_timer w" "iw_stats_timer w' = iw_stats_timer w"
    "wrap_timer_slist w' = wrap_timer_slist w" "mtu w' = mtu w" "carrier_ok w' = carrier_ok w" "mp_interrupt w' = mp_interrupt w"
  using assms by (cases w; cases w'; simp)+

lemmas wnd_more_fields = wnd_more_hw wnd_more_rest

lemma same_dev_more: "same_dev w w' \<Longrightarrow> req_state.more w' = req_state.more w"
  by (simp add: same_dev_def)

lemma filter_loop_spec:
  assumes "answers m" "\<not> ndis_req_mutex w"
  shows "\<exists>pf1 w'. filter_loop m pf w = Some (pf1, w') \<and> same_dev w w' \<and> \<not> ndis_req_mutex w' \<and>
    (\<forall>n. n \<notin> optional_flags \<longrightarrow> bit pf1 n = bit pf n) \<and>
    ((\<exists>v. mp_set_int m OID_GEN_CURRENT_PACKET_FILTER pf1 v = Some (NDIS_STATUS_SUCCESS, w')) \<or> (\<forall>n \<in> optional_flags. \<not> bit pf1 n))"
  using assms
proof (induction m pf w rule: filter_loop.induct)
  case (1 m pf w)
  obtain res w1 where e: "mp_set_int m OID_GEN_CURRENT_PACKET_FILTER pf w = Some (res, w1)" using mp_set_int_returns 1(2,3) by blast
  have f: "same_dev w w1" "\<not> ndis_req_mutex w1" using mp_set_int_frame [OF e] by auto
  consider (ok) "res = NDIS_STATUS_SUCCESS" | (stop) "res \<noteq> NDIS_STATUS_SUCCESS" "relax_filter pf = None"
    | (again) pf' where "res \<noteq> NDIS_STATUS_SUCCESS" "relax_filter pf = Some pf'" by (cases "relax_filter pf") auto
  then show ?case
  proof cases
    case ok
    with e f show ?thesis by (subst filter_loop.simps) auto
  next
    case stop
    then have "filter_loop m pf w = Some (pf, w1)" by (subst filter_loop.simps) (simp add: e)
    with f stop(2) show ?thesis by (auto simp: relax_filter_None)
  next
    case (again pf')
    have s: "filter_loop m pf w = filter_loop m pf' w1" by (subst filter_loop.simps) (simp add: e again)
    from 1(1) [OF e refl again 1(2) f(2)] obtain pf1 w' where "filter_loop m pf' w1 = Some (pf1, w')" "same_dev w1 w'" "\<not> ndis_req_mutex w'"
      "\<forall>n. n \<notin> optional_flags \<longrightarrow> bit pf1 n = bit pf' n"
      "(\<exists>v. mp_set_int m OID_GEN_CURRENT_PACKET_FILTER pf1 v = Some (NDIS_STATUS_SUCCESS, w')) \<or> (\<forall>n \<in> optional_flags. \<not> bit pf1 n)"
      by blast
    with s again(2) f(1) show ?thesis by (auto simp: relax_filter_keeps intro: same_dev_trans)
  qed
qed

lemma set_packet_filter_spec:
  assumes "answers m" "\<not> ndis_req_mutex w"
  shows "\<exists>r w' pf2. set_packet_filter m pf w = Some (r, w') \<and> \<not> ndis_req_mutex w' \<and> same_dev (w\<lparr>packet_filter := pf2\<rparr>) w'"
proof -
  obtain pf1 w1 where 1: "filter_loop m pf w = Some (pf1, w1)" "same_dev w w1" "\<not> ndis_req_mutex w1"
    using filter_loop_spec [OF assms] by blast
  have "\<not> ndis_req_mutex (w1\<lparr>packet_filter := pf1\<rparr>)" using 1(3) by simp
  then obtain res pf2 w2 where 2: "mp_query_int m OID_GEN_CURRENT_PACKET_FILTER pf1 (w1\<lparr>packet_filter := pf1\<rparr>) = Some (res, pf2, w2)"
    using mp_query_int_returns [OF assms(1)] by blast
  note f = mp_query_int_frame [OF 2]
  define w3 where "w3 = (if pf2 \<noteq> packet_filter w2 then w2\<lparr>packet_filter := pf2\<rparr> else w2)"
  have "w3 = w2\<lparr>packet_filter := pf2\<rparr>" by (simp add: w3_def)
  moreover have "same_dev (w\<lparr>packet_filter := pf2\<rparr>) (w2\<lparr>packet_filter := pf2\<rparr>)"
    using f 1(2) by (cases w; cases w1; cases w2) (simp add: same_dev_def)
  ultimately show ?thesis using 1 2 f by (auto simp: set_packet_filter_def Let_def simp flip: w3_def)
qed

text \<open>C28: Setting the packet filter ends for every driver that answers its requests, with the request mutex free.  The filter it settles on differs from the one asked for in the optional receive modes only, so directed and broadcast reception are never given up, and either the driver has accepted it or no optional mode is left in it.\<close>

theorem set_packet_filter_terminates:
  assumes "answers m" "\<not> ndis_req_mutex w"
  shows "\<exists>r w' pf1 w1. set_packet_filter m pf w = Some (r, w') \<and> \<not> ndis_req_mutex w' \<and> filter_loop m pf w = Some (pf1, w1) \<and>
    (\<forall>n. n \<notin> optional_flags \<longrightarrow> bit pf1 n = bit pf n) \<and>
    ((\<exists>v. mp_set_int m OID_GEN_CURRENT_PACKET_FILTER pf1 v = Some (NDIS_STATUS_SUCCESS, w1)) \<or> (\<forall>n \<in> optional_flags. \<not> bit pf1 n))"
proof -
  obtain r w' where "set_packet_filter m pf w = Some (r, w')" "\<not> ndis_req_mutex w'" using set_packet_filter_spec [OF assms] by blast
  with filter_loop_spec [OF assms, of pf] show ?thesis by blast
qed

lemma set_multicast_list_spec:
  assumes "answers m" "\<not> ndis_req_mutex w"
  shows "\<exists>w' pf2. set_multicast_list m mem w = Some ((), w') \<and> \<not> ndis_req_mutex w' \<and> same_dev (w\<lparr>packet_filter := pf2\<rparr>) w'"
proof -
  have one: "\<exists>w' pf2. do { (r, w1) \<leftarrow> set_packet_filter m pf v; Some ((), w1) } = Some ((), w') \<and> \<not> ndis_req_mutex w' \<and> same_dev (w\<lparr>packet_filter := pf2\<rparr>) w'"
    if "same_dev w v" "\<not> ndis_req_mutex v" for pf v
  proof -
    note h = that
    obtain r w' pf2 where "set_packet_filter m pf v = Some (r, w')" "\<not> ndis_req_mutex w'" "same_dev (v\<lparr>packet_filter := pf2\<rparr>) w'"
      using set_packet_filter_spec [OF assms(1) h(2)] by blast
    moreover have "same_dev (w\<lparr>packet_filter := pf2\<rparr>) (v\<lparr>packet_filter := pf2\<rparr>)"
      using h(1) by (cases w; cases v) (simp add: same_dev_def)
    ultimately show ?thesis by (auto intro: same_dev_trans)
  qed
  show ?thesis
  proof (cases "\<not> IFF_PROMISC w \<and> \<not> (IFF_ALLMULTI w \<or> int (length (mc_list w)) > multicast_size w) \<and> int (length (mc_list w)) > 0")
    case True
    then show ?thesis
    proof (cases mem)
      case False
      with True assms(2) show ?thesis by (auto simp: set_multicast_list_def Let_def intro!: exI [of _ "packet_filter w"])
    next
      case m: True
      obtain res w1 where s: "mp_set m OID_802_3_MULTICAST_LIST (concat (mc_list w)) w = Some (res, w1)" using mp_set_returns [OF assms] by blast
      with mp_set_frame [OF s] True m one [of w1] show ?thesis by (auto simp: set_multicast_list_def Let_def)
    qed
  next
    case False
    with one [of w] assms(2) show ?thesis by (auto simp: set_multicast_list_def Let_def)
  qed
qed

section \<open>Suspend and resume\<close>

lemma free_wrap_timers_eq: "free_wrap_timers ts w = w\<lparr>wrap_timer_slist := []\<rparr>"
  by (induction ts arbitrary: w) simp_all

lemma hangcheck_del_fields [simp]:
  "ndis_req_mutex (hangcheck_del w) = ndis_req_mutex w" "tx_ring_mutex (hangcheck_del w) = tx_ring_mutex w"
  "HW_INITIALIZED (hangcheck_del w) = HW_INITIALIZED w" "HW_SUSPENDED (hangcheck_del w) = HW_SUSPENDED w" "HW_HALTED (hangcheck_del w) = HW_HALTED w"
  "NO_HALT_ON_SUSPEND (hangcheck_del w) = NO_HALT_ON_SUSPEND w" "physical_medium (hangcheck_del w) = physical_medium w"
  "dev_bus (hangcheck_del w) = dev_bus w" "dev_attached (hangcheck_del w) = dev_attached w" "hangcheck_timer (hangcheck_del w) = None"
  "iw_stats_timer (hangcheck_del w) = iw_stats_timer w"
  by (simp_all add: hangcheck_del_def)

lemma del_iw_stats_timer_fields [simp]:
  "ndis_req_mutex (del_iw_stats_timer w) = ndis_req_mutex w" "tx_ring_mutex (del_iw_stats_timer w) = tx_ring_mutex w"
  "HW_INITIALIZED (del_iw_stats_timer w) = HW_INITIALIZED w" "HW_SUSPENDED (del_iw_stats_timer w) = HW_SUSPENDED w"
  "HW_HALTED (del_iw_stats_timer w) = HW_HALTED w"
  "NO_HALT_ON_SUSPEND (del_iw_stats_timer w) = NO_HALT_ON_SUSPEND w" "physical_medium (del_iw_stats_timer w) = physical_medium w"
  "dev_bus (del_iw_stats_timer w) = dev_bus w" "dev_attached (del_iw_stats_timer w) = dev_attached w"
  "hangcheck_timer (del_iw_stats_timer w) = hangcheck_timer w" "iw_stats_timer (del_iw_stats_timer w) = None"
  by (simp_all add: del_iw_stats_timer_def)

lemma add_timers_fields [simp]:
  "ndis_req_mutex (add_iw_stats_timer (hangcheck_add m cfg w)) = ndis_req_mutex w"
  "tx_ring_mutex (add_iw_stats_timer (hangcheck_add m cfg w)) = tx_ring_mutex w"
  "dev_attached (add_iw_stats_timer (hangcheck_add m cfg w)) = dev_attached w"
  by (simp_all add: add_iw_stats_timer_def hangcheck_add_def Let_def)

text \<open>A driver whose device has to leave its network before it is halted.\<close>

definition leaves_network :: "'d wnd \<Rightarrow> bool" where
  "leaves_network w \<longleftrightarrow> physical_medium w = NdisPhysicalMediumWirelessLan \<and> dev_bus w = WRAP_PCI_BUS"

lemma mp_halt_wired:
  assumes "\<not> leaves_network w"
  obtains w' where "mp_halt m w = Some ((), w')" "ndis_req_mutex w' = ndis_req_mutex w" "tx_ring_mutex w' = tx_ring_mutex w" "\<not> HW_INITIALIZED w'"
    "dev_attached w' = dev_attached w" "hangcheck_timer w = None \<Longrightarrow> hangcheck_timer w' = None" "iw_stats_timer w = None \<Longrightarrow> iw_stats_timer w' = None"
proof (cases "HW_INITIALIZED w")
  case False
  with that [of w] show thesis by (simp add: mp_halt_def)
next
  case True
  define w1 where "w1 = del_iw_stats_timer (hangcheck_del (w\<lparr>HW_INITIALIZED := False\<rparr>))"
  have "\<not> (physical_medium w1 = NdisPhysicalMediumWirelessLan \<and> dev_bus w1 = WRAP_PCI_BUS)" using assms by (simp add: w1_def leaves_network_def)
  then have "mp_halt m w = Some ((), w1\<lparr>drv := snd (mp_halt_fn m (drv w1)), mp_interrupt := False, wrap_timer_slist := []\<rparr>)"
    using True by (auto simp: mp_halt_def free_wrap_timers_eq split_beta simp flip: w1_def)
  then show thesis by (rule that) (simp_all add: w1_def)
qed

lemma init_effects_mutex:
  "ndis_req_mutex (init_effects cfg ir w) = ndis_req_mutex w" "tx_ring_mutex (init_effects cfg ir w) = tx_ring_mutex w"
  by (simp_all add: init_effects_def)

lemma wake_capa_spec:
  assumes "answers m" "\<not> ndis_req_mutex w"
  shows "\<exists>w'. wake_capa m w = Some w' \<and> \<not> ndis_req_mutex w' \<and> tx_ring_mutex w' = tx_ring_mutex w"
proof -
  obtain status capa w1 where 1: "mp_query m OID_PNP_CAPABILITIES (pnp_capa w) w = Some (status, capa, w1)" using mp_query_returns [OF assms] by blast
  define w2 where "w2 = w1\<lparr>pnp_capa := capa, NO_HALT_ON_SUSPEND := True\<rparr>"
  have f: "\<not> ndis_req_mutex w1" "tx_ring_mutex w1 = tx_ring_mutex w" using mp_query_frame [OF 1] by (auto simp: same_dev_def)
  then have "\<not> ndis_req_mutex w2" by (simp add: w2_def)
  then obtain st wol w3 where 2: "mp_query_int m OID_PNP_ENABLE_WAKE_UP (ndis_wolopts w1) w2 = Some (st, wol, w3)"
    using mp_query_int_returns [OF assms(1)] by blast
  have "\<not> ndis_req_mutex w3" "tx_ring_mutex w3 = tx_ring_mutex w" using mp_query_int_frame [OF 2] f by (auto simp: same_dev_def w2_def)
  with 1 2 f show ?thesis by (auto simp: wake_capa_def Let_def w2_def)
qed

lemma mp_init_spec:
  assumes "answers m" "\<not> ndis_req_mutex w"
  shows "\<exists>st w'. mp_init m cfg w = Some (st, w') \<and> \<not> ndis_req_mutex w' \<and> tx_ring_mutex w' = tx_ring_mutex w"
proof (cases "mp_init_fn m")
  case None
  with assms(2) show ?thesis by (simp add: mp_init_def)
next
  case (Some f)
  obtain ir d where f: "f (drv w) = (ir, d)" by fastforce
  define w1 where "w1 = (snd (mp_pnp_event m NdisDevicePnPEventPowerProfileChanged 1 (init_effects cfg ir (w\<lparr>drv := d\<rparr>))))\<lparr>HW_INITIALIZED := True\<rparr>"
  have w1: "\<not> ndis_req_mutex w1" "tx_ring_mutex w1 = tx_ring_mutex w"
    using assms(2) by (auto simp: w1_def mp_pnp_event_def init_effects_def split: option.splits)
  obtain w2 where 2: "wake_capa m w1 = Some w2" "\<not> ndis_req_mutex w2" "tx_ring_mutex w2 = tx_ring_mutex w"
    using wake_capa_spec [OF assms(1) w1(1)] w1(2) by auto
  define v where "v = (if dev_bus w2 = WRAP_USB_BUS then w2\<lparr>NO_HALT_ON_SUSPEND := False, ndis_wolopts := 0\<rparr> else w2)"
  have v: "\<not> ndis_req_mutex v" "tx_ring_mutex v = tx_ring_mutex w" using 2 by (simp_all add: v_def)
  obtain st w3 where 3: "mp_set_int m OID_802_11_POWER_MODE 0 v = Some (st, w3)" using mp_set_int_returns [OF assms(1) v(1)] by blast
  have "\<not> ndis_req_mutex w3" "tx_ring_mutex w3 = tx_ring_mutex w" using mp_set_int_frame [OF 3] v(2) by (auto simp: same_dev_def)
  with assms(2) 2(1) 3 show ?thesis
    by (auto simp: mp_init_def Some f v_def w1_def Let_def init_effects_mutex)
qed

lemma suspend_driver_spec:
  assumes "answers m" "\<not> ndis_req_mutex w"
  obtains st w' where "suspend_driver m state w = Some (st, w')" "\<not> ndis_req_mutex w'" "tx_ring_mutex w' = tx_ring_mutex w"
    "HW_INITIALIZED w' = HW_INITIALIZED w" "dev_attached w' = dev_attached w" "physical_medium w' = physical_medium w" "dev_bus w' = dev_bus w"
    "st = NDIS_STATUS_SUCCESS \<Longrightarrow> HW_SUSPENDED w'" "hangcheck_timer w' = hangcheck_timer w" "iw_stats_timer w' = iw_stats_timer w"
proof (cases "NO_HALT_ON_SUSPEND w")
  case False
  show thesis by (rule that [of NDIS_STATUS_NOT_SUPPORTED w]) (simp_all add: suspend_driver_def False assms(2))
next
  case True
  obtain st1 w1 where 1: "mp_set_int m OID_PNP_ENABLE_WAKE_UP (ndis_wolopts w) w = Some (st1, w1)" using mp_set_int_returns [OF assms] by blast
  define w2 where "w2 = (if st1 = NDIS_STATUS_SUCCESS \<and> dev_bus w1 = WRAP_PCI_BUS
      then w1\<lparr>wake_state := if ndis_wolopts w1 \<noteq> 0 then PowerDeviceD3 else PowerDeviceUnspecified\<rparr> else w1)"
  note f1 = mp_set_int_frame [OF 1]
  then have 2: "\<not> ndis_req_mutex w2" by (simp add: w2_def)
  then obtain st w3 where 3: "mp_set_int m OID_PNP_SET_POWER state w2 = Some (st, w3)" using mp_set_int_returns [OF assms(1)] by blast
  note f3 = mp_set_int_frame [OF 3]
  note m1 = wnd_more_fields [OF same_dev_more, of w w1] and m3 = wnd_more_fields [OF same_dev_more, of w2 w3]
  have e: "suspend_driver m state w = Some (st, if st = NDIS_STATUS_SUCCESS then w3\<lparr>HW_SUSPENDED := True\<rparr> else w3)"
    using True 1 3 by (simp add: suspend_driver_def w2_def Let_def)
  have "tx_ring_mutex w3 = tx_ring_mutex w" "HW_INITIALIZED w3 = HW_INITIALIZED w" "dev_attached w3 = dev_attached w"
    "physical_medium w3 = physical_medium w" "dev_bus w3 = dev_bus w" "hangcheck_timer w3 = hangcheck_timer w" "iw_stats_timer w3 = iw_stats_timer w"
    using f1 f3 m1 m3 by (auto simp: w2_def same_dev_def)
  with f3 show thesis by (intro that [OF e]) simp_all
qed

text \<open>A suspended device: the two mutexes are held, the interface is detached, nothing is scheduled.\<close>

definition suspended :: "'d wnd \<Rightarrow> bool" where
  "suspended w \<longleftrightarrow> tx_ring_mutex w \<and> ndis_req_mutex w \<and> \<not> dev_attached w \<and> (HW_SUSPENDED w \<or> HW_HALTED w \<and> \<not> HW_INITIALIZED w) \<and>
     hangcheck_timer w = None \<and> iw_stats_timer w = None"

lemma mp_suspend_spec:
  assumes "answers m" "\<not> ndis_req_mutex w" "\<not> tx_ring_mutex w" "\<not> leaves_network w"
  shows "\<exists>w'. mp_suspend m state w = Some (NDIS_STATUS_SUCCESS, w') \<and> suspended w'"
proof -
  define w1 where "w1 = del_iw_stats_timer (hangcheck_del (w\<lparr>tx_ring_mutex := True, dev_attached := False\<rparr>))"
  have "\<not> ndis_req_mutex w1" using assms(2) by (simp add: w1_def)
  from suspend_driver_spec [OF assms(1) this] obtain st w2 where 2: "suspend_driver m state w1 = Some (st, w2)" "\<not> ndis_req_mutex w2"
    "tx_ring_mutex w2 = tx_ring_mutex w1" "dev_attached w2 = dev_attached w1" "physical_medium w2 = physical_medium w1" "dev_bus w2 = dev_bus w1"
    "st = NDIS_STATUS_SUCCESS \<Longrightarrow> HW_SUSPENDED w2" "hangcheck_timer w2 = hangcheck_timer w1" "iw_stats_timer w2 = iw_stats_timer w1" by metis
  have f1: "tx_ring_mutex w1" "\<not> dev_attached w1" "hangcheck_timer w1 = None" "iw_stats_timer w1 = None" by (simp_all add: w1_def)
  have nl: "\<not> leaves_network w2" using assms(4) 2(5,6) by (simp add: leaves_network_def w1_def)
  have "\<exists>w3. (if st \<noteq> NDIS_STATUS_SUCCESS then do { (u, v) \<leftarrow> mp_halt m w2; Some (v\<lparr>HW_HALTED := True\<rparr>) } else Some w2) = Some w3 \<and>
      \<not> ndis_req_mutex w3 \<and> suspended (w3\<lparr>ndis_req_mutex := True\<rparr>)"
  proof (cases "st = NDIS_STATUS_SUCCESS")
    case True
    with 2 f1 show ?thesis by (simp add: suspended_def)
  next
    case False
    obtain v where "mp_halt m w2 = Some ((), v)" "ndis_req_mutex v = ndis_req_mutex w2" "tx_ring_mutex v = tx_ring_mutex w2" "\<not> HW_INITIALIZED v"
      "dev_attached v = dev_attached w2" "hangcheck_timer v = None" "iw_stats_timer v = None"
      using mp_halt_wired [OF nl, of m] 2(8,9) f1(3,4) by metis
    with False 2 f1 show ?thesis by (simp add: suspended_def)
  qed
  then show ?thesis using 2(1) assms(3) by (auto simp: mp_suspend_def lock_tx_def lock_req_def bind_eq_Some_conv simp flip: w1_def split: if_splits)
qed

lemma resumed_fields: "\<not> ndis_req_mutex w \<Longrightarrow> \<not> ndis_req_mutex (resumed m cfg w) \<and> \<not> tx_ring_mutex (resumed m cfg w) \<and> dev_attached (resumed m cfg w)"
  by (simp add: resumed_def unlock_tx_def)

lemma mp_resume_spec:
  assumes "answers m"
  shows "\<exists>st w'. mp_resume m cfg mem w = Some (st, w') \<and> \<not> ndis_req_mutex w' \<and>
    (st = NDIS_STATUS_SUCCESS \<longrightarrow> \<not> tx_ring_mutex w' \<and> dev_attached w') \<and> (st \<noteq> NDIS_STATUS_SUCCESS \<longrightarrow> tx_ring_mutex w' = tx_ring_mutex w)"
proof -
  have free: "\<not> ndis_req_mutex ((unlock_req w)\<lparr>HW_HALTED := b\<rparr>)" "\<not> ndis_req_mutex ((unlock_req w)\<lparr>HW_SUSPENDED := b\<rparr>)" for b
    by (simp_all add: unlock_req_def)
  consider (halted) "HW_HALTED w" | (susp) "\<not> HW_HALTED w" "HW_SUSPENDED w" | (none) "\<not> HW_HALTED w" "\<not> HW_SUSPENDED w" by blast
  then show ?thesis
  proof cases
    case halted
    obtain st w2 where 2: "mp_init m cfg ((unlock_req w)\<lparr>HW_HALTED := False\<rparr>) = Some (st, w2)" "\<not> ndis_req_mutex w2" "tx_ring_mutex w2 = tx_ring_mutex w"
      using mp_init_spec [OF assms free(1) [of False], of cfg] by (auto simp: unlock_req_def)
    obtain r w3 where 3: "set_packet_filter m (packet_filter w2) w2 = Some (r, w3)" "\<not> ndis_req_mutex w3"
      using set_packet_filter_spec [OF assms 2(2)] by blast
    obtain w4 where "set_multicast_list m mem w3 = Some ((), w4)" "\<not> ndis_req_mutex w4"
      using set_multicast_list_spec [OF assms 3(2)] by blast
    with halted 2 3 resumed_fields [of w4 m cfg] show ?thesis by (auto simp: mp_resume_def Let_def unlock_req_def)
  next
    case susp
    obtain st w2 where 2: "mp_set_int m OID_PNP_SET_POWER NdisDeviceStateD0 ((unlock_req w)\<lparr>HW_SUSPENDED := False\<rparr>) = Some (st, w2)"
      using mp_set_int_returns [OF assms free(2) [of False]] by blast
    from mp_set_int_frame [OF 2] susp 2 resumed_fields [of w2 m cfg] show ?thesis
      by (auto simp: mp_resume_def Let_def unlock_req_def same_dev_def)
  next
    case none
    then show ?thesis by (simp add: mp_resume_def Let_def unlock_req_def)
  qed
qed

text \<open>C29: A device that need not leave a wireless network before it is halted suspends and resumes without blocking.  Suspended, both mutexes are held, the interface is detached and no timer is armed; resuming releases the request mutex, and when it succeeds also the transmit mutex, and attaches the interface.\<close>

theorem suspend_resume_mutexes:
  assumes "answers m" "\<not> ndis_req_mutex w" "\<not> tx_ring_mutex w" "\<not> leaves_network w"
  shows "\<exists>w1 st w2. mp_set_power_state m cfg mem NdisDeviceStateD3 w = Some (NDIS_STATUS_SUCCESS, w1) \<and> suspended w1 \<and>
    mp_set_power_state m cfg mem NdisDeviceStateD0 w1 = Some (st, w2) \<and> \<not> ndis_req_mutex w2 \<and>
    (st = NDIS_STATUS_SUCCESS \<longrightarrow> \<not> tx_ring_mutex w2 \<and> dev_attached w2) \<and> (st \<noteq> NDIS_STATUS_SUCCESS \<longrightarrow> tx_ring_mutex w2)"
proof -
  obtain w1 where 1: "mp_suspend m NdisDeviceStateD3 w = Some (NDIS_STATUS_SUCCESS, w1)" "suspended w1" using mp_suspend_spec [OF assms] by blast
  then show ?thesis using mp_resume_spec [OF assms(1), of cfg mem w1] by (auto simp: mp_set_power_state_def suspended_def)
qed

text \<open>C30: Reinitialising a running wireless PCI device never returns, whatever the driver does: halting it takes the request mutex and does not release it, and the suspend that called it takes the mutex again.\<close>

theorem reinit_deadlock:
  assumes "HW_INITIALIZED w" "leaves_network w"
  shows "ndis_reinit m cfg mem w = None"
proof -
  define w1 where "w1 = del_iw_stats_timer (hangcheck_del (w\<lparr>NO_HALT_ON_SUSPEND := False, tx_ring_mutex := True, dev_attached := False\<rparr>))"
  have s: "suspend_driver m state w1 = Some (NDIS_STATUS_NOT_SUPPORTED, w1)" for state by (simp add: suspend_driver_def w1_def)
  have "ndis_req_mutex v" if "mp_halt m w1 = Some ((), v)" for v
    using that assms by (auto simp: mp_halt_def w1_def leaves_network_def bind_eq_Some_conv lock_req_iff free_wrap_timers_eq split_beta)
  then have "mp_suspend m NdisDeviceStateD3 (w\<lparr>NO_HALT_ON_SUSPEND := False\<rparr>) = None"
    using s by (auto simp: mp_suspend_def lock_tx_def lock_req_def simp flip: w1_def split: bind_splits)
  then show ?thesis by (simp add: ndis_reinit_def mp_set_power_state_def)
qed

section \<open>The worker\<close>

text \<open>The result of a handler: it returns, both mutexes are free, and the pending work is \<open>P\<close>.\<close>

definition work_done :: "wrapper_work set \<Rightarrow> (unit \<times> 'd wnd) option \<Rightarrow> bool" where
  "work_done P x \<longleftrightarrow> (\<exists>w. x = Some ((), w) \<and> \<not> ndis_req_mutex w \<and> \<not> tx_ring_mutex w \<and> ndis_pending_work w = P)"

definition reset_ends :: "'d ndis_miniport \<Rightarrow> bool" where
  "reset_ends m \<longleftrightarrow> (\<forall>d. case mp_reset_fn m d of (st, e, a, d') \<Rightarrow>
     st = NDIS_STATUS_PENDING \<longrightarrow> (case e of Completed s n \<Rightarrow> n > 0 | Interrupted \<Rightarrow> True | Never \<Rightarrow> False))"

lemma work_done_bind:
  "work_done P x \<Longrightarrow> (\<And>w. \<not> ndis_req_mutex w \<Longrightarrow> \<not> tx_ring_mutex w \<Longrightarrow> ndis_pending_work w = P \<Longrightarrow> work_done Q (f ((), w))) \<Longrightarrow> work_done Q (Option.bind x f)"
  by (auto simp: work_done_def)

lemma do_work_done:
  assumes "\<not> ndis_req_mutex w" "\<not> tx_ring_mutex w"
    and "\<And>v. \<not> ndis_req_mutex v \<Longrightarrow> \<not> tx_ring_mutex v \<Longrightarrow> work_done (ndis_pending_work v) (f v)"
  shows "work_done (ndis_pending_work w - {b}) (do_work b f w)"
proof (cases "b \<in> ndis_pending_work w")
  case True
  with assms(3) [of "w\<lparr>ndis_pending_work := ndis_pending_work w - {b}\<rparr>"] assms(1,2) show ?thesis by (simp add: do_work_def)
next
  case False
  with assms show ?thesis by (simp add: do_work_def work_done_def)
qed

lemma set_multicast_list_done:
  assumes "answers m" "\<not> ndis_req_mutex w" "\<not> tx_ring_mutex w"
  shows "work_done (ndis_pending_work w) (set_multicast_list m mem w)"
proof -
  obtain w' pf where "set_multicast_list m mem w = Some ((), w')" "\<not> ndis_req_mutex w'" and s: "same_dev (w\<lparr>packet_filter := pf\<rparr>) w'"
    using set_multicast_list_spec [OF assms(1,2)] by blast
  with assms(3) wnd_more_rest(1) [OF same_dev_more [OF s]] show ?thesis by (auto simp: work_done_def same_dev_def)
qed

lemma update_iw_stats_done:
  assumes "answers m" "\<not> ndis_req_mutex w" "\<not> tx_ring_mutex w" "length junk = 200"
  shows "work_done (ndis_pending_work w) (update_iw_stats m rssi0 junk w)"
proof (cases "\<not> iw_stats_enabled w \<or> \<not> carrier_ok w")
  case True
  with assms(2,3) show ?thesis by (simp add: update_iw_stats_def work_done_def)
next
  case False
  obtain res rssi w1 where 1: "mp_query_int m OID_802_11_RSSI rssi0 w = Some (res, rssi, w1)" using mp_query_int_returns [OF assms(1,2)] by blast
  define w2 where "w2 = w1\<lparr>iw_stats := (if res = NDIS_STATUS_SUCCESS then (iw_stats w1)\<lparr>iw_level := ucast rssi\<rparr> else iw_stats w1)
      \<lparr>iw_noise := - 96, iw_qual := word_of_int (signal_qual (sint rssi))\<rparr>\<rparr>"
  note f1 = mp_query_int_frame [OF 1]
  then have "\<not> ndis_req_mutex w2" by (simp add: w2_def)
  then obtain res2 st w3 where 3: "mp_query m OID_802_11_STATISTICS junk w2 = Some (res2, st, w3)" using mp_query_returns [OF assms(1)] by blast
  note f3 = mp_query_frame [OF 3]
  have p: "\<not> ndis_req_mutex w3" "\<not> tx_ring_mutex w3" "ndis_pending_work w3 = ndis_pending_work w"
    using f1 f3 assms(3) wnd_more_rest(1) [OF same_dev_more, of w w1] wnd_more_rest(1) [OF same_dev_more, of w2 w3] by (auto simp: w2_def same_dev_def)
  have r: "rd64 st k \<noteq> None" if "k + 8 \<le> 200" for k using that f3 assms(4) by (simp add: rd64_def rdn_def)
  have "\<exists>a. sum64 st [32, 40] = Some a" "\<exists>a. sum64 st [96, 56, 64, 72] = Some a"
    using r [of 32] r [of 40] r [of 96] r [of 56] r [of 64] r [of 72] by (auto simp: sum64_def)
  with False 1 3 p show ?thesis by (auto simp: update_iw_stats_def w2_def work_done_def Let_def)
qed

lemma mp_reset_done:
  assumes "answers m" "reset_ends m" "\<not> ndis_req_mutex w" "\<not> tx_ring_mutex w"
  shows "\<exists>res w'. mp_reset m mem w = Some (res, w') \<and> \<not> ndis_req_mutex w' \<and> \<not> tx_ring_mutex w' \<and> ndis_pending_work w' = ndis_pending_work w"
proof -
  obtain st e a d where r: "mp_reset_fn m (drv w) = (st, e, a, d)" by (cases "mp_reset_fn m (drv w)")
  define w3 where "w3 = w\<lparr>tx_ring_mutex := True, ndis_req_mutex := True, ndis_req_done := 0, drv := d\<rparr>"
  have "\<exists>res b w4. reset_wait st e a w3 = Some (res, b, w4) \<and> ndis_pending_work w4 = ndis_pending_work w"
    using assms(2) r by (auto simp: reset_ends_def reset_wait_def req_wait_def w3_def split: mp_wait.splits dest: spec [of _ "drv w"])
  then obtain res b w4 where 4: "reset_wait st e a w3 = Some (res, b, w4)" "ndis_pending_work w4 = ndis_pending_work w" by blast
  define w5 where "w5 = unlock_req w4"
  have f5: "\<not> ndis_req_mutex w5" "ndis_pending_work w5 = ndis_pending_work w" using 4(2) by (simp_all add: w5_def unlock_req_def)
  obtain r6 w6 pf where 6: "set_packet_filter m (packet_filter w5) w5 = Some (r6, w6)" "\<not> ndis_req_mutex w6" and s6: "same_dev (w5\<lparr>packet_filter := pf\<rparr>) w6"
    using set_packet_filter_spec [OF assms(1) f5(1)] by blast
  obtain w7 pf7 where 7: "set_multicast_list m mem w6 = Some ((), w7)" "\<not> ndis_req_mutex w7" and s7: "same_dev (w6\<lparr>packet_filter := pf7\<rparr>) w7"
    using set_multicast_list_spec [OF assms(1) 6(2)] by blast
  have "ndis_pending_work w7 = ndis_pending_work w"
    using f5(2) wnd_more_rest(1) [OF same_dev_more [OF s6]] wnd_more_rest(1) [OF same_dev_more [OF s7]] by simp
  moreover have "mp_reset m mem w = (if res = NDIS_STATUS_SUCCESS \<and> b then Some (res, unlock_tx w7) else Some (res, unlock_tx w5))"
    using assms(3,4) r 4(1) 6(1) 7(1) by (auto simp: mp_reset_def lock_tx_def lock_req_def Let_def w5_def w3_def)
  ultimately show ?thesis using f5 7(2) by (simp add: unlock_tx_def)
qed

lemma do_hangcheck_done:
  assumes "answers m" "reset_ends m" "mp_hangcheck_fn m = Some f" "\<not> ndis_req_mutex w" "\<not> tx_ring_mutex w"
  shows "work_done (ndis_pending_work w) (do_hangcheck m mem w)"
proof -
  obtain b d where f: "f (drv w) = (b, d)" by fastforce
  have "\<not> ndis_req_mutex (w\<lparr>drv := d\<rparr>)" "\<not> tx_ring_mutex (w\<lparr>drv := d\<rparr>)" using assms(4,5) by simp_all
  from mp_reset_done [OF assms(1,2) this, of mem] assms(4,5) f show ?thesis by (cases b) (auto simp: do_hangcheck_def assms(3) work_done_def)
qed

lemma work_step:
  assumes "\<not> ndis_req_mutex w" "\<not> tx_ring_mutex w"
    and "\<And>v. \<not> ndis_req_mutex v \<Longrightarrow> \<not> tx_ring_mutex v \<Longrightarrow> work_done (ndis_pending_work v) (f v)"
    and "\<And>v. \<not> ndis_req_mutex v \<Longrightarrow> \<not> tx_ring_mutex v \<Longrightarrow> ndis_pending_work v = ndis_pending_work w - {b} \<Longrightarrow> work_done Q (k v)"
  shows "work_done Q (do { (u, v) \<leftarrow> do_work b f w; k v })"
  by (rule work_done_bind [OF do_work_done [OF assms(1-3)]]) (auto intro: assms(4))

text \<open>The worker carries out every kind of deferred work that is pending and leaves none pending, with both mutexes free, for a driver that answers, ends its resets, has a hang check, and reports association information that can be read.\<close>

theorem worker_handles_all:
  assumes "answers m" "reset_ends m" "mp_hangcheck_fn m \<noteq> None" "length junk = 200" "\<not> ndis_req_mutex w" "\<not> tx_ring_mutex w"
    and "\<And>v. \<not> ndis_req_mutex v \<Longrightarrow> \<not> tx_ring_mutex v \<Longrightarrow> work_done (ndis_pending_work v) (link_status_on m mem v)"
  shows "\<exists>w'. wrapndis_worker m mem rssi0 junk w = Some ((), w') \<and> ndis_pending_work w' = {} \<and> \<not> ndis_req_mutex w' \<and> \<not> tx_ring_mutex w'"
proof -
  obtain f where f: "mp_hangcheck_fn m = Some f" using assms(3) by blast
  have last: "work_done {} (do_work HANGCHECK (do_hangcheck m mem) v)"
    if "\<not> ndis_req_mutex v" "\<not> tx_ring_mutex v" "ndis_pending_work v \<subseteq> {HANGCHECK}" for v
    using do_work_done [where f = "do_hangcheck m mem" and b = HANGCHECK, OF that(1,2) do_hangcheck_done [OF assms(1,2) f]] that(3)
    by (metis Diff_eq_empty_iff)
  have "ndis_pending_work w \<subseteq> {LINK_STATUS_OFF, LINK_STATUS_ON, SET_MULTICAST_LIST, COLLECT_IW_STATS, HANGCHECK, NETIF_WAKEQ}"
    using wrapper_work.exhaust by blast
  then have "work_done {} (wrapndis_worker m mem rssi0 junk w)"
    unfolding wrapndis_worker_def using assms(5,6)
    by (auto intro!: work_step assms(1,7) update_iw_stats_done [OF assms(1) _ _ assms(4)] set_multicast_list_done [OF assms(1)] last
        simp: work_done_def [of _ "Some _"] link_status_off_def)
  then show ?thesis by (auto simp: work_done_def)
qed

section \<open>Packet size and power profile at the start\<close>

definition reports_size :: "'d ndis_miniport \<Rightarrow> u32 \<Rightarrow> bool" where
  "reports_size m n \<longleftrightarrow> (\<forall>buf d. rp_status (fst (mp_queryinfo m OID_GEN_MAXIMUM_TOTAL_SIZE buf d)) = NDIS_STATUS_SUCCESS \<and>
     rp_out (fst (mp_queryinfo m OID_GEN_MAXIMUM_TOTAL_SIZE buf d)) = ulong_bytes n)"

lemma query_size:
  assumes "reports_size m n" "\<not> ndis_req_mutex w"
  obtains w' where "mp_query_int m OID_GEN_MAXIMUM_TOTAL_SIZE v w = Some (NDIS_STATUS_SUCCESS, n, w')" "\<not> ndis_req_mutex w'" "same_dev w w'"
proof -
  obtain rp d where r: "mp_queryinfo m OID_GEN_MAXIMUM_TOTAL_SIZE (ulong_bytes v) (drv w) = (rp, d)" by fastforce
  then have s: "rp_status rp = 0" "rp_out rp = ulong_bytes n" using assms(1) by (auto simp: reports_size_def) (metis fst_conv)+
  have e: "mp_query_int m OID_GEN_MAXIMUM_TOTAL_SIZE v w = Some (NDIS_STATUS_SUCCESS, n, w\<lparr>ndis_req_mutex := False, ndis_req_done := 0, drv := d\<rparr>)"
    using assms(2) r s
    by (simp add: mp_query_int_def mp_query_def mp_request_def lock_req_def unlock_req_def miniport_call_def overlay_full Let_def)
  show thesis by (rule that [OF e]) (simp_all add: same_dev_def)
qed

text \<open>With a driver that reports a largest frame of n bytes the accepted packet sizes are those from 60 to n - 28: the header of 14 bytes is taken off twice.\<close>

theorem change_mtu_limit:
  assumes "reports_size m n" "\<not> ndis_req_mutex w"
  shows "\<exists>w'. ndis_change_mtu m junk v w = Some (if ETH_ZLEN \<le> v \<and> ETH_ZLEN + ETH_HLEN < sint n \<and> v \<le> sint n - 2 * ETH_HLEN then 0 else - EINVAL, w') \<and>
    mtu w' = (if ETH_ZLEN \<le> v \<and> ETH_ZLEN + ETH_HLEN < sint n \<and> v \<le> sint n - 2 * ETH_HLEN then v else mtu w)"
proof -
  obtain w1 where "mp_query_int m OID_GEN_MAXIMUM_TOTAL_SIZE junk w = Some (NDIS_STATUS_SUCCESS, n, w1)" "same_dev w w1"
    using query_size [OF assms] by blast
  moreover have "mtu w1 = mtu w" using \<open>same_dev w w1\<close> by (rule wnd_more_rest(5) [OF same_dev_more])
  ultimately show ?thesis by (auto simp: ndis_change_mtu_def Let_def)
qed

text \<open>The largest size that the start of a device asks for is always refused.\<close>

lemma start_mtu_refused:
  assumes "reports_size m n" "\<not> ndis_req_mutex w"
  shows "\<exists>w'. start_mtu m n0 junk w = Some ((), w') \<and> mtu w' = mtu w"
proof -
  obtain w1 where 1: "mp_query_int m OID_GEN_MAXIMUM_TOTAL_SIZE n0 w = Some (NDIS_STATUS_SUCCESS, n, w1)" "\<not> ndis_req_mutex w1" "same_dev w w1"
    using query_size [OF assms] by blast
  obtain w2 where "mp_query_int m OID_GEN_MAXIMUM_TOTAL_SIZE junk w1 = Some (NDIS_STATUS_SUCCESS, n, w2)" "same_dev w1 w2"
    using query_size [OF assms(1) 1(2)] by blast
  moreover have "mtu w1 = mtu w" "mtu w2 = mtu w1"
    using wnd_more_rest(5) [OF same_dev_more [OF 1(3)]] wnd_more_rest(5) [OF same_dev_more [OF \<open>same_dev w1 w2\<close>]] .
  ultimately show ?thesis using 1(1) by (auto simp: start_mtu_def ndis_change_mtu_def Let_def)
qed

text \<open>The notification of \<^verbatim>\<open>mp_init\<close> never reaches the driver: the device is not yet marked initialised when it is sent.\<close>

lemma mp_request_pnp_event: "mp_request (m\<lparr>mp_pnp_event_fn := f\<rparr>) rq oid buf w = mp_request m rq oid buf w"
proof -
  have "miniport_call (m\<lparr>mp_pnp_event_fn := f\<rparr>) rq oid buf d = miniport_call m rq oid buf d" for d by (cases rq) (simp_all add: miniport_call_def)
  then show ?thesis by (simp add: mp_request_def)
qed

lemma mp_query_pnp_event: "mp_query (m\<lparr>mp_pnp_event_fn := f\<rparr>) oid buf w = mp_query m oid buf w"
  by (simp add: mp_query_def mp_request_pnp_event)

lemma requests_pnp_event:
  "mp_query (m\<lparr>mp_pnp_event_fn := f\<rparr>) oid buf w = mp_query m oid buf w" "mp_query_int (m\<lparr>mp_pnp_event_fn := f\<rparr>) oid x w = mp_query_int m oid x w"
  "mp_set_int (m\<lparr>mp_pnp_event_fn := f\<rparr>) oid x w = mp_set_int m oid x w"
  by (simp_all add: mp_query_int_def mp_set_int_def mp_set_def mp_query_pnp_event mp_request_pnp_event)

lemma mp_init_no_profile: "mp_init (m\<lparr>mp_pnp_event_fn := f\<rparr>) cfg w = mp_init m cfg w"
proof -
  have "wake_capa (m\<lparr>mp_pnp_event_fn := f\<rparr>) v = wake_capa m v" for v unfolding wake_capa_def requests_pnp_event ..
  moreover have "snd (mp_pnp_event m' e 1 (init_effects cfg ir (w\<lparr>drv := d\<rparr>))) = init_effects cfg ir (w\<lparr>drv := d\<rparr>)"
    if "\<not> HW_INITIALIZED w" for m' e ir d using that by (simp add: mp_pnp_event_def init_effects_def split: option.splits)
  ultimately show ?thesis by (cases "HW_INITIALIZED w"; cases "mp_init_fn m") (simp_all add: mp_init_def requests_pnp_event Let_def split_beta)
qed

section \<open>Witnesses\<close>

definition ctl_demo :: "u32 wnd" where
  "ctl_demo = \<lparr>drv = 0, ndis_req_mutex = False, tx_ring_mutex = False, ndis_req_done = 0, ndis_req_status = 0,
     iw_auth_wpa_version = 0, iw_auth_cipher_pairwise = 0, iw_auth_cipher_group = 0, iw_auth_key_mgmt = 0, iw_auth_80211_alg = 0,
     enc_keys = replicate 4 \<lparr>ek_length = 0, ek_key = replicate 32 0\<rparr>, tx_key_index = 0, essid = \<lparr>es_length = 0, es_essid = replicate 32 0\<rparr>,
     infrastructure_mode = 1, capa_encr = {}, capa_auth = {}, max_pmkids = 0,
     HW_INITIALIZED = True, HW_SUSPENDED = False, HW_HALTED = False, HW_DISABLED = False, NO_HALT_ON_SUSPEND = False, SURPRISE_REMOVE_OK = True,
     physical_medium = NdisPhysicalMediumWirelessLan, dev_bus = WRAP_PCI_BUS, wake_state = PowerDeviceUnspecified, pnp_capa = replicate 16 0, ndis_wolopts = 0,
     packet_filter = 0xB, multicast_size = 32, IFF_PROMISC = False, IFF_ALLMULTI = False, mc_list = [[1, 0, 94, 0, 0, 1]], mtu = 1500,
     carrier_ok = True, txq_stopped = False, dev_attached = True, may_tx = True, ndis_pending_work = {LINK_STATUS_ON, HANGCHECK}, ndis_work_queued = True,
     hangcheck_interval = 500, hangcheck_timer = Some 500, iw_stats_interval = 2500, iw_stats_timer = Some 2500, iw_stats_enabled = True,
     iw_stats = \<lparr>iw_level = 0, iw_noise = 0, iw_qual = 0, iw_discard_retries = 0, iw_discard_misc = 0\<rparr>,
     mp_interrupt = True, wrap_timer_slist = [7, 8], iw_events = []\<rparr>"

abbreviation demo_cfg :: wrap_config where "demo_cfg \<equiv> \<lparr>cfg_HZ = 250, cfg_hangcheck_interval = 0\<rparr>"

lemma ctl_demo_fields: "\<not> ndis_req_mutex ctl_demo" "\<not> tx_ring_mutex ctl_demo" "HW_INITIALIZED ctl_demo" "leaves_network ctl_demo"
  by (simp_all add: ctl_demo_def leaves_network_def)

theorem set_packet_filter_terminates_witness:
  "\<exists>r w' pf1 w1. set_packet_filter demo_mp 0x2B ctl_demo = Some (r, w') \<and> \<not> ndis_req_mutex w' \<and> filter_loop demo_mp 0x2B ctl_demo = Some (pf1, w1) \<and>
    (\<forall>n. n \<notin> optional_flags \<longrightarrow> bit pf1 n = bit (0x2B :: u32) n) \<and>
    ((\<exists>v. mp_set_int demo_mp OID_GEN_CURRENT_PACKET_FILTER pf1 v = Some (NDIS_STATUS_SUCCESS, w1)) \<or> (\<forall>n \<in> optional_flags. \<not> bit pf1 n))"
  by (rule set_packet_filter_terminates [OF demo_answers ctl_demo_fields(1)])

theorem suspend_resume_mutexes_witness:
  "\<exists>w1 st w2. mp_set_power_state demo_mp demo_cfg True NdisDeviceStateD3 (ctl_demo\<lparr>dev_bus := WRAP_USB_BUS\<rparr>) = Some (NDIS_STATUS_SUCCESS, w1) \<and> suspended w1 \<and>
    mp_set_power_state demo_mp demo_cfg True NdisDeviceStateD0 w1 = Some (st, w2) \<and> \<not> ndis_req_mutex w2 \<and>
    (st = NDIS_STATUS_SUCCESS \<longrightarrow> \<not> tx_ring_mutex w2 \<and> dev_attached w2) \<and> (st \<noteq> NDIS_STATUS_SUCCESS \<longrightarrow> tx_ring_mutex w2)"
  by (rule suspend_resume_mutexes [OF demo_answers]) (simp_all add: ctl_demo_def leaves_network_def)

theorem reinit_deadlock_witness: "ndis_reinit demo_mp demo_cfg True ctl_demo = None"
  by (rule reinit_deadlock [OF ctl_demo_fields(3,4)])

definition refusing_mp :: "u32 ndis_miniport" where
  "refusing_mp = demo_mp\<lparr>mp_queryinfo := (\<lambda>oid buf d. (demo_reply NDIS_STATUS_FAILURE [], d))\<rparr>"

lemma refusing_query: "\<not> ndis_req_mutex w \<Longrightarrow>
    mp_query refusing_mp oid buf w = Some (NDIS_STATUS_FAILURE, buf, w\<lparr>ndis_req_mutex := False, ndis_req_done := 0\<rparr>)"
  by (simp add: mp_query_def mp_request_def miniport_call_def refusing_mp_def demo_reply_def lock_req_def unlock_req_def Let_def)

lemma refusing_answers: "answers refusing_mp" "reset_ends refusing_mp" "mp_hangcheck_fn refusing_mp \<noteq> None"
  by (simp_all add: answers_def reset_ends_def refusing_mp_def demo_mp_def demo_reply_def reply_ends_def)

lemma refusing_link: "\<not> ndis_req_mutex v \<Longrightarrow> \<not> tx_ring_mutex v \<Longrightarrow> work_done (ndis_pending_work v) (link_status_on refusing_mp True v)"
  by (simp add: link_status_on_def get_ap_address_def refusing_query work_done_def)

theorem worker_handles_all_witness:
  "\<exists>w'. wrapndis_worker refusing_mp True 0 (replicate 200 0) ctl_demo = Some ((), w') \<and> ndis_pending_work w' = {} \<and> \<not> ndis_req_mutex w' \<and> \<not> tx_ring_mutex w'"
  by (rule worker_handles_all [OF refusing_answers _ ctl_demo_fields(1,2) refusing_link]) simp_all

theorem change_mtu_limit_witness:
  "\<exists>w'. ndis_change_mtu (demo_mp\<lparr>mp_queryinfo := \<lambda>oid buf d. (demo_reply 0 (ulong_bytes 1514), d)\<rparr>) 0 1500 ctl_demo = Some (- EINVAL, w') \<and> mtu w' = mtu ctl_demo"
proof -
  have "reports_size (demo_mp\<lparr>mp_queryinfo := \<lambda>oid buf d. (demo_reply 0 (ulong_bytes 1514), d)\<rparr>) 1514"
    by (simp add: reports_size_def demo_reply_def)
  from change_mtu_limit [OF this ctl_demo_fields(1), of 0 1500] show ?thesis by simp
qed

text \<open>A driver that knows the two WPA authentication modes but no encryption other than WEP: the state is the authentication mode it was given last.\<close>

definition wep_mp :: "u32 ndis_miniport" where
  "wep_mp = demo_mp\<lparr>
     mp_queryinfo := (\<lambda>oid buf d. (if oid = OID_802_11_AUTHENTICATION_MODE then demo_reply 0 (ulong_bytes d)
                                   else if oid = OID_802_11_ENCRYPTION_STATUS then demo_reply 0 (ulong_bytes Encryption1KeyAbsent)
                                   else demo_reply NDIS_STATUS_NOT_SUPPORTED [], d)),
     mp_setinfo := (\<lambda>oid buf d. if oid = OID_802_11_AUTHENTICATION_MODE then (demo_reply 0 [], ulong_of buf)
                                else if oid = OID_802_11_ENCRYPTION_STATUS \<and> ulong_of buf \<noteq> Encryption1Enabled then (demo_reply NDIS_STATUS_NOT_SUPPORTED [], d)
                                else (demo_reply 0 [], d))\<rparr>"

lemma wep_requests:
  "\<not> ndis_req_mutex w \<Longrightarrow> mp_query wep_mp OID_802_11_NETWORK_TYPES_SUPPORTED buf w = Some (NDIS_STATUS_NOT_SUPPORTED, buf, w\<lparr>ndis_req_mutex := False, ndis_req_done := 0\<rparr>)"
  "\<not> ndis_req_mutex w \<Longrightarrow> mp_query_int wep_mp OID_802_11_AUTHENTICATION_MODE x w = Some (0, drv w, w\<lparr>ndis_req_mutex := False, ndis_req_done := 0\<rparr>)"
  "\<not> ndis_req_mutex w \<Longrightarrow> mp_query_int wep_mp OID_802_11_ENCRYPTION_STATUS x w = Some (0, Encryption1KeyAbsent, w\<lparr>ndis_req_mutex := False, ndis_req_done := 0\<rparr>)"
  "\<not> ndis_req_mutex w \<Longrightarrow> mp_set_int wep_mp OID_802_11_AUTHENTICATION_MODE x w = Some (0, w\<lparr>ndis_req_mutex := False, ndis_req_done := 0, drv := x\<rparr>)"
  "\<not> ndis_req_mutex w \<Longrightarrow> mp_set_int wep_mp OID_802_11_ENCRYPTION_STATUS x w =
     Some (if x = Encryption1Enabled then 0 else NDIS_STATUS_NOT_SUPPORTED, w\<lparr>ndis_req_mutex := False, ndis_req_done := 0\<rparr>)"
  by (simp_all add: mp_query_int_def mp_query_def mp_set_int_def mp_set_def mp_request_def miniport_call_def wep_mp_def demo_reply_def
      lock_req_def unlock_req_def Let_def overlay_full)

lemma wep_driver_claims_tkip:
  "\<exists>w'. get_encryption_capa wep_mp j junk buf ctl_demo = Some ((), w') \<and> unat Encryption2Enabled \<in> capa_encr w'"
  by (simp add: get_encryption_capa_def probe_encr_def probe_auth_def highest_encr_def set_iw_encr_mode_def set_ndis_auth_mode_def
      get_ndis_encr_mode_def get_ndis_auth_mode_def encr_mode_of_def mode_error_def wep_requests ctl_demo_def Let_def)

end
