(* ===== verification/Iw_Scan.thy ===== *)
theory Iw_Scan
  imports Wnd_Control
begin

text \<open>
  Wireless extensions, second part (\<^verbatim>\<open>iw_ndis.c\<close>): frequency, rates, transmit power, thresholds, power saving, nickname, and
  the scan: asking the driver for the list of networks and turning each item into the event stream of the kernel.

  An item is a byte list that starts at the item and reaches to the end of the buffer of the list; a read beyond the buffer is a fault, \<open>None\<close>.
  Whether the kernel still has room for an event is the parameter \<open>fits\<close>, a function of the kernel's event stream.  The text of
  two custom events is represented by the number that is printed into it.

  Shown are that a scan item with well-formed information elements gives exactly these elements (\<open>scan_elements_roundtrip\<close>), that elements of 254 and
  255 bytes are cut off, that a frequency set by channel number is read back, which transmit powers switch the radio off, and that the loop
  which enlarges the scan buffer frees it twice when the driver wants more memory every time.
\<close>

unbundle bit_operations_syntax

section \<open>State and constants\<close>

record 'd scan_dev = "'d wnd" +
  scan_timestamp :: u64
  nick :: "u8 list"

abbreviation OID_GEN_LINK_SPEED :: u32 where "OID_GEN_LINK_SPEED \<equiv> 0x00010107"
abbreviation OID_802_11_TX_POWER_LEVEL :: u32 where "OID_802_11_TX_POWER_LEVEL \<equiv> 0x0D010205"
abbreviation OID_802_11_RSSI_TRIGGER :: u32 where "OID_802_11_RSSI_TRIGGER \<equiv> 0x0D010207"
abbreviation OID_802_11_FRAGMENTATION_THRESHOLD :: u32 where "OID_802_11_FRAGMENTATION_THRESHOLD \<equiv> 0x0D010209"
abbreviation OID_802_11_RTS_THRESHOLD :: u32 where "OID_802_11_RTS_THRESHOLD \<equiv> 0x0D01020A"
abbreviation OID_802_11_SUPPORTED_RATES :: u32 where "OID_802_11_SUPPORTED_RATES \<equiv> 0x0D01020E"
abbreviation OID_802_11_DESIRED_RATES :: u32 where "OID_802_11_DESIRED_RATES \<equiv> 0x0D010210"
abbreviation OID_802_11_CONFIGURATION :: u32 where "OID_802_11_CONFIGURATION \<equiv> 0x0D010211"
abbreviation OID_802_11_BSSID_LIST :: u32 where "OID_802_11_BSSID_LIST \<equiv> 0x0D010217"
abbreviation OID_802_11_BSSID_LIST_SCAN :: u32 where "OID_802_11_BSSID_LIST_SCAN \<equiv> 0x0D01011A"
abbreviation OID_802_11_RELOAD_DEFAULTS :: u32 where "OID_802_11_RELOAD_DEFAULTS \<equiv> 0x0D01011C"
abbreviation OID_802_11_MEDIA_STREAM_MODE :: u32 where "OID_802_11_MEDIA_STREAM_MODE \<equiv> 0x0D010121"

abbreviation ENOTSUPP :: int where "ENOTSUPP \<equiv> 524"
abbreviation EAGAIN :: int where "EAGAIN \<equiv> 11"
abbreviation ENOMEM :: int where "ENOMEM \<equiv> 12"
abbreviation E2BIG :: int where "E2BIG \<equiv> 7"

abbreviation NDIS_MAX_RATES :: nat where "NDIS_MAX_RATES \<equiv> 8"
abbreviation NDIS_MAX_RATES_EX :: nat where "NDIS_MAX_RATES_EX \<equiv> 16"

definition freq_chan :: "int list" where
  "freq_chan = [2412, 2417, 2422, 2427, 2432, 2437, 2442, 2447, 2452, 2457, 2462, 2467, 2472, 2484]"

definition network_names :: "string list" where
  "network_names = [''IEEE 802.11FH'', ''IEEE 802.11b'', ''IEEE 802.11a'', ''IEEE 802.11g'', ''Auto'']"

definition network_type_to_name :: "int \<Rightarrow> string" where
  "network_type_to_name net_type =
     (if net_type \<ge> 0 \<and> net_type < int (length network_names) then network_names ! nat net_type else network_names ! (length network_names - 1))"

section \<open>Reading and setting parameters\<close>

definition iw_get_network_type :: "'d ndis_miniport \<Rightarrow> u32 \<Rightarrow> ('d, 'z) iw_state_scheme \<Rightarrow> ((int \<times> string) \<times> ('d, 'z) iw_state_scheme) option" where
  "iw_get_network_type m junk w =
     do { (res, t, w1) \<leftarrow> mp_query_int m OID_802_11_NETWORK_TYPE_IN_USE junk w;
          Some ((0, take 15 (network_type_to_name (sint (if res \<noteq> 0 then - 1 else t)))), w1) }"

text \<open>Mantissa and exponent of the kernel's frequency format for a frequency in kHz.\<close>

definition iw_freq_of :: "u32 \<Rightarrow> int \<times> int" where
  "iw_freq_of ds_config = (if ds_config > 1000000 then (uint (ds_config div 10), 4) else (uint ds_config, 3))"

text \<open>\<^verbatim>\<open>struct ndis_configuration\<close> has 32 bytes, the frequency at offset 12.\<close>

definition iw_get_freq :: "'d ndis_miniport \<Rightarrow> ('d, 'z) iw_state_scheme \<Rightarrow> ((int \<times> (int \<times> int) option) \<times> ('d, 'z) iw_state_scheme) option" where
  "iw_get_freq m w =
     do { (res, req, w1) \<leftarrow> mp_query m OID_802_11_CONFIGURATION (replicate 32 0) w;
          if res \<noteq> 0 then Some ((- EOPNOTSUPP, None), w1)
          else do { ds \<leftarrow> rd32 req 12; Some ((0, Some (iw_freq_of ds)), w1) } }"

text \<open>The frequency in kHz that a request stands for; a mantissa below 1000 without an exponent is a channel number.\<close>

primrec times10 :: "nat \<Rightarrow> u32 \<Rightarrow> u32" where
  "times10 0 x = x"
| "times10 (Suc n) x = times10 n (x * 10)"

definition freq_ds_config :: "int \<Rightarrow> int \<Rightarrow> u32 option" where
  "freq_ds_config m e =
     (if m < 1000 \<and> e = 0 then (if m \<ge> 1 \<and> m \<le> int (length freq_chan) then Some (word_of_int (freq_chan ! nat (m - 1) * 1000)) else None)
      else Some (times10 (nat e) (word_of_int m) div 1000))"

definition iw_set_freq :: "'d ndis_miniport \<Rightarrow> int \<Rightarrow> int \<Rightarrow> ('d, 'z) wnd_scheme \<Rightarrow> (int \<times> ('d, 'z) wnd_scheme) option" where
  "iw_set_freq m fm fe w =
     (if carrier_ok w then Some (0, w)
      else do { (res, req, w1) \<leftarrow> mp_query m OID_802_11_CONFIGURATION (replicate 32 0) w;
                if res \<noteq> 0 then Some (0, w1)
                else case freq_ds_config fm fe of
                       None \<Rightarrow> Some (- EINVAL, w1)
                     | Some ds \<Rightarrow> do { req1 \<leftarrow> wr32 req 12 ds; (res, w2) \<leftarrow> mp_set m OID_802_11_CONFIGURATION req1 w1; Some (0, w2) } })"

definition iw_get_tx_power :: "'d ndis_miniport \<Rightarrow> u32 \<Rightarrow> ('d, 'z) iw_state_scheme \<Rightarrow> ((int \<times> u32 option) \<times> ('d, 'z) iw_state_scheme) option" where
  "iw_get_tx_power m junk w =
     do { (res, p, w1) \<leftarrow> mp_query_int m OID_802_11_TX_POWER_LEVEL junk w; Some (if res \<noteq> 0 then (- EOPNOTSUPP, None) else (0, Some p), w1) }"

text \<open>The level that \<^verbatim>\<open>iw_set_tx_power\<close> sends.  \<open>mwatt\<close>: the value is in milliwatts, otherwise in dBm; the arithmetic is in a signed byte.\<close>

definition tx_power_level :: "bool \<Rightarrow> bool \<Rightarrow> int \<Rightarrow> u32" where
  "tx_power_level disabled mwatt value =
     (if disabled then 0
      else if mwatt then word_of_int value
      else if value > 20 then 128
      else if value < - 43 then 127
      else let t1 = (word_of_int value :: u8); t2 = - 12 - t1; t3 = push_bit 2 t2 in ucast t3)"

definition iw_set_tx_power :: "'d ndis_miniport \<Rightarrow> bool \<Rightarrow> bool \<Rightarrow> int \<Rightarrow> ('d, 'z) iw_state_scheme \<Rightarrow> (int \<times> ('d, 'z) iw_state_scheme) option" where
  "iw_set_tx_power m disabled mwatt value w =
     (let p = tx_power_level disabled mwatt value in
      do { (res, w1) \<leftarrow> mp_set_int m OID_802_11_TX_POWER_LEVEL p w;
           if res \<noteq> 0 then Some (- EOPNOTSUPP, w1)
           else if p = 0 then do { (r, w2) \<leftarrow> disassociate m [] False w1; Some (0, w2) }
           else Some (0, w1) })"

definition iw_get_bitrate :: "'d ndis_miniport \<Rightarrow> u32 \<Rightarrow> ('d, 'z) iw_state_scheme \<Rightarrow> ((int \<times> u32) \<times> ('d, 'z) iw_state_scheme) option" where
  "iw_get_bitrate m junk w =
     do { (res, rate, w1) \<leftarrow> mp_query_int m OID_GEN_LINK_SPEED junk w; Some ((0, (if res \<noteq> 0 then 0 else rate) * 100), w1) }"

text \<open>The loop that clears the rates above the wanted one, over the first \<open>n\<close> bytes; the driver says how many it wrote.\<close>

primrec clear_rates :: "int \<Rightarrow> nat \<Rightarrow> nat \<Rightarrow> u8 list \<Rightarrow> u8 list option" where
  "clear_rates value 0 i rates = Some rates"
| "clear_rates value (Suc n) i rates =
     do { r \<leftarrow> rd rates i;
          rates1 \<leftarrow> (if r AND 0x80 \<noteq> 0 then Some rates else if uint (r AND 0x7F) * 500000 > value then wr rates i 0 else Some rates);
          clear_rates value n (Suc i) rates1 }"

definition iw_set_bitrate :: "'d ndis_miniport \<Rightarrow> u8 list \<Rightarrow> bool \<Rightarrow> int \<Rightarrow> ('d, 'z) iw_state_scheme \<Rightarrow> (int \<times> ('d, 'z) iw_state_scheme) option" where
  "iw_set_bitrate m junk fixed value w =
     (if \<not> fixed then Some (0, w)
      else do { (res, rates, n, nd, w1) \<leftarrow> mp_query_info m OID_802_11_SUPPORTED_RATES (take NDIS_MAX_RATES_EX junk) w;
                if res \<noteq> 0 then Some (0, w1)
                else do { rates1 \<leftarrow> clear_rates value (nat (sint n)) 0 rates;
                          (res, w2) \<leftarrow> mp_set m OID_802_11_DESIRED_RATES (take (nat (sint n)) rates1) w1;
                          Some (0, w2) } })"

text \<open>Four parameters are read and set in the same way: a value of 32 bits behind an object identifier.\<close>

definition iw_get_value :: "u32 \<Rightarrow> int \<Rightarrow> 'd ndis_miniport \<Rightarrow> u32 \<Rightarrow> ('d, 'z) iw_state_scheme \<Rightarrow> ((int \<times> u32 option) \<times> ('d, 'z) iw_state_scheme) option" where
  "iw_get_value oid err m junk w =
     do { (res, v, w1) \<leftarrow> mp_query_int m oid junk w; Some (if res \<noteq> 0 then (- err, None) else (0, Some v), w1) }"

definition iw_set_value :: "u32 \<Rightarrow> 'd ndis_miniport \<Rightarrow> u32 \<Rightarrow> ('d, 'z) iw_state_scheme \<Rightarrow> (int \<times> ('d, 'z) iw_state_scheme) option" where
  "iw_set_value oid m v w = do { (res, w1) \<leftarrow> mp_set_int m oid v w; Some (if res = 0 then 0 else mode_error res, w1) }"

definition iw_get_rts_threshold :: "'d ndis_miniport \<Rightarrow> u32 \<Rightarrow> ('d, 'z) iw_state_scheme \<Rightarrow> ((int \<times> u32 option) \<times> ('d, 'z) iw_state_scheme) option" where
  "iw_get_rts_threshold = iw_get_value OID_802_11_RTS_THRESHOLD EOPNOTSUPP"
definition iw_set_rts_threshold :: "'d ndis_miniport \<Rightarrow> u32 \<Rightarrow> ('d, 'z) iw_state_scheme \<Rightarrow> (int \<times> ('d, 'z) iw_state_scheme) option" where
  "iw_set_rts_threshold = iw_set_value OID_802_11_RTS_THRESHOLD"
definition iw_get_frag_threshold :: "'d ndis_miniport \<Rightarrow> u32 \<Rightarrow> ('d, 'z) iw_state_scheme \<Rightarrow> ((int \<times> u32 option) \<times> ('d, 'z) iw_state_scheme) option" where
  "iw_get_frag_threshold = iw_get_value OID_802_11_FRAGMENTATION_THRESHOLD ENOTSUPP"
definition iw_set_frag_threshold :: "'d ndis_miniport \<Rightarrow> u32 \<Rightarrow> ('d, 'z) iw_state_scheme \<Rightarrow> (int \<times> ('d, 'z) iw_state_scheme) option" where
  "iw_set_frag_threshold = iw_set_value OID_802_11_FRAGMENTATION_THRESHOLD"

text \<open>The pair of the value and the flag \<^verbatim>\<open>disabled\<close>.\<close>

definition iw_get_sensitivity :: "'d ndis_miniport \<Rightarrow> u32 \<Rightarrow> ('d, 'z) iw_state_scheme \<Rightarrow> ((int \<times> (u32 \<times> bool) option) \<times> ('d, 'z) iw_state_scheme) option" where
  "iw_get_sensitivity m junk w =
     do { (res, v, w1) \<leftarrow> mp_query_int m OID_802_11_RSSI_TRIGGER junk w; Some (if res \<noteq> 0 then (- EOPNOTSUPP, None) else (0, Some (v, v = 0)), w1) }"

definition iw_set_sensitivity :: "'d ndis_miniport \<Rightarrow> bool \<Rightarrow> u32 \<Rightarrow> ('d, 'z) iw_state_scheme \<Rightarrow> (int \<times> ('d, 'z) iw_state_scheme) option" where
  "iw_set_sensitivity m disabled v w = iw_set_value OID_802_11_RSSI_TRIGGER m (if disabled then 0 else v) w"

abbreviation IW_POWER_MIN :: u16 where "IW_POWER_MIN \<equiv> 0x0001"
abbreviation IW_POWER_MAX :: u16 where "IW_POWER_MAX \<equiv> 0x0002"
abbreviation IW_POWER_ALL_R :: u16 where "IW_POWER_ALL_R \<equiv> 0x0300"
abbreviation IW_POWER_TIMEOUT :: u16 where "IW_POWER_TIMEOUT \<equiv> 0x2000"

definition iw_set_power_mode :: "'d ndis_miniport \<Rightarrow> bool \<Rightarrow> u16 \<Rightarrow> ('d, 'z) iw_state_scheme \<Rightarrow> (int \<times> ('d, 'z) iw_state_scheme) option" where
  "iw_set_power_mode m disabled flags w =
     do { (res, w1) \<leftarrow> mp_set_int m OID_802_11_POWER_MODE (if disabled then 0 else if flags AND IW_POWER_MIN \<noteq> 0 then 2 else 1) w; Some (0, w1) }"

text \<open>The result: the flags and whether power saving is off.\<close>

definition iw_get_power_mode :: "'d ndis_miniport \<Rightarrow> u32 \<Rightarrow> u16 \<Rightarrow> bool \<Rightarrow> ('d, 'z) iw_state_scheme
    \<Rightarrow> ((int \<times> u16 \<times> bool) \<times> ('d, 'z) iw_state_scheme) option" where
  "iw_get_power_mode m junk flags disabled w =
     do { (res, p, w1) \<leftarrow> mp_query_int m OID_802_11_POWER_MODE junk w;
          Some (if res \<noteq> 0 then (- ENOTSUPP, flags, disabled)
                else if p = 0 then (0, flags, True)
                else if flags \<noteq> 0 then (0, flags, disabled)
                else (0, IW_POWER_ALL_R OR IW_POWER_TIMEOUT OR (if p = 2 then IW_POWER_MIN else IW_POWER_MAX), False), w1) }"

text \<open>The field \<^verbatim>\<open>nick\<close> has 33 bytes.\<close>

definition iw_set_nick :: "nat \<Rightarrow> u8 list \<Rightarrow> ('d, 'z) scan_dev_scheme \<Rightarrow> (int \<times> ('d, 'z) scan_dev_scheme) option" where
  "iw_set_nick len extra w =
     (if len \<ge> 33 then Some (- EINVAL, w)
      else do { n1 \<leftarrow> blk_copy (nick w) 0 extra 0 len; n2 \<leftarrow> wr n1 len 0; Some (0, w\<lparr>nick := n2\<rparr>) })"

definition iw_get_nick :: "u8 list \<Rightarrow> ('d, 'z) scan_dev_scheme \<Rightarrow> (int \<times> nat \<times> u8 list) option" where
  "iw_get_nick extra w = do { s \<leftarrow> cstr (nick w); ex \<leftarrow> blk_copy extra 0 (nick w) 0 (length s); Some (0, length s, ex) }"

definition priv_network_type :: "'d ndis_miniport \<Rightarrow> char \<Rightarrow> ('d, 'z) iw_state_scheme \<Rightarrow> (int \<times> ('d, 'z) iw_state_scheme) option" where
  "priv_network_type m t w =
     do { (res, w1) \<leftarrow> mp_set_int m OID_802_11_NETWORK_TYPE_IN_USE
            (if t = CHR ''f'' then 0 else if t = CHR ''b'' then 1 else if t = CHR ''a'' then 2 else if t = CHR ''g'' \<or> t = CHR ''n'' then 3 else 4) w;
          Some (if res \<noteq> 0 then - EINVAL else 0, w1) }"

definition priv_media_stream_mode :: "'d ndis_miniport \<Rightarrow> int \<Rightarrow> ('d, 'z) iw_state_scheme \<Rightarrow> (int \<times> ('d, 'z) iw_state_scheme) option" where
  "priv_media_stream_mode m v w =
     do { (res, w1) \<leftarrow> mp_set_int m OID_802_11_MEDIA_STREAM_MODE (if v > 0 then 1 else 0) w; Some (if res \<noteq> 0 then - EINVAL else 0, w1) }"

definition priv_reload_defaults :: "'d ndis_miniport \<Rightarrow> ('d, 'z) iw_state_scheme \<Rightarrow> (int \<times> ('d, 'z) iw_state_scheme) option" where
  "priv_reload_defaults m w = do { (res, w1) \<leftarrow> mp_set_int m OID_802_11_RELOAD_DEFAULTS 0 w; Some (if res \<noteq> 0 then - EOPNOTSUPP else 0, w1) }"

definition priv_reset :: "'d ndis_miniport \<Rightarrow> bool \<Rightarrow> 'd wnd \<Rightarrow> (int \<times> 'd wnd) option" where
  "priv_reset m mem w = do { (res, w1) \<leftarrow> mp_reset m mem w; Some (if res \<noteq> 0 then - EOPNOTSUPP else 0, w1) }"

definition priv_power_profile :: "'d ndis_miniport \<Rightarrow> int \<Rightarrow> ('d, 'z) iw_state_scheme \<Rightarrow> int \<times> ('d, 'z) iw_state_scheme" where
  "priv_power_profile m v w =
     (case mp_pnp_event_fn m of
        None \<Rightarrow> (- EOPNOTSUPP, w)
      | Some f \<Rightarrow> (0, w\<lparr>drv := f NdisDevicePnPEventPowerProfileChanged (ulong_bytes (if v \<noteq> 0 then 1 else 0)) (drv w)\<rparr>))"


section \<open>Scan items as events\<close>

text \<open>The value of a key event says whether the network encrypts.\<close>

datatype scan_event =
    EvAP "u8 list"
  | EvESSID "u8 list"
  | EvName string
  | EvMode nat
  | EvFreq "int \<times> int"
  | EvQual u8 u8 u8
  | EvKey bool
  | EvRates "int list"
  | EvBeacon int
  | EvAtim int
  | EvGenIE "u8 list"

abbreviation scan_fixed_off :: nat where "scan_fixed_off \<equiv> 116"
abbreviation scan_var_off :: nat where "scan_var_off \<equiv> 128"

definition rd_slice :: "u8 list \<Rightarrow> nat \<Rightarrow> nat \<Rightarrow> u8 list option" where
  "rd_slice b off n = (if off + n \<le> length b then Some (take n (drop off b)) else None)"

text \<open>Adding events one after the other, each read when its turn comes; the inner \<open>None\<close> is the null pointer: no room in the stream.\<close>

fun stream_add :: "(scan_event list \<Rightarrow> scan_event \<Rightarrow> bool) \<Rightarrow> scan_event option list \<Rightarrow> scan_event list \<Rightarrow> scan_event list option option" where
  "stream_add fits [] evs = Some (Some evs)"
| "stream_add fits (None # xs) evs = None"
| "stream_add fits (Some e # xs) evs = (if fits evs e then stream_add fits xs (evs @ [e]) else Some None)"

definition scan_essid_length :: "u32 \<Rightarrow> nat" where
  "scan_essid_length len = min 32 (unat (ucast len :: u16))"

text \<open>Signal quality in per cent; the division of C truncates.\<close>

definition scan_quality :: "u32 \<Rightarrow> int" where
  "scan_quality rssi =
     (let v = sint (100 * (rssi - (- 96)) :: u32); i = (if v < 0 then - (- v div 64) else v div 64)
      in if i < 0 then 0 else if i > 100 then 100 else i)"

definition scan_head :: "u8 list \<Rightarrow> scan_event option list" where
  "scan_head item =
     [map_option EvAP (rd_slice item 4 6),
      do { len \<leftarrow> rd32 item 12; map_option EvESSID (rd_slice item 16 (scan_essid_length len)) },
      do { t \<leftarrow> rd32 item 56; Some (EvName (take 15 (network_type_to_name (sint t)))) },
      do { md \<leftarrow> rd32 item 92; Some (EvMode (if md = 0 then 1 else if md = 1 then 3 else 0)) },
      do { ds \<leftarrow> rd32 item 72; Some (EvFreq (iw_freq_of ds)) },
      do { rssi \<leftarrow> rd32 item 52; Some (EvQual (word_of_int (scan_quality rssi)) (ucast rssi) (- 96)) },
      do { p \<leftarrow> rd32 item 48; Some (EvKey (p \<noteq> 0)) }]"

text \<open>The rates: one event whose values are added one by one; without a value there is no event.\<close>

primrec scan_rates :: "(scan_event list \<Rightarrow> scan_event \<Rightarrow> bool) \<Rightarrow> u8 list \<Rightarrow> nat \<Rightarrow> nat \<Rightarrow> scan_event list \<Rightarrow> int list \<Rightarrow> scan_event list option option" where
  "scan_rates fits item 0 i evs vals = Some (Some (if vals = [] then evs else evs @ [EvRates vals]))"
| "scan_rates fits item (Suc n) i evs vals =
     (case rd item (96 + i) of
        None \<Rightarrow> None
      | Some r \<Rightarrow>
          if r AND 0x7F = 0 then scan_rates fits item n (Suc i) evs vals
          else let v = uint (r AND 0x7F) * 500000 in
               if fits evs (EvRates (vals @ [v])) then scan_rates fits item n (Suc i) evs (vals @ [v]) else Some None)"

definition scan_config :: "u8 list \<Rightarrow> scan_event option list" where
  "scan_config item =
     [do { b \<leftarrow> rd32 item 64; Some (EvBeacon (sint b)) },
      do { a \<leftarrow> rd32 item 68; Some (EvAtim (uint a)) }]"

text \<open>The walk over the information elements from offset \<open>p\<close> to the offset \<open>e\<close>; the number of bytes of the event is kept in 8 bits.\<close>

function scan_ies :: "(scan_event list \<Rightarrow> scan_event \<Rightarrow> bool) \<Rightarrow> u8 list \<Rightarrow> nat \<Rightarrow> nat \<Rightarrow> scan_event list \<Rightarrow> scan_event list option option" where
  "scan_ies fits item e p evs =
     (if p + 1 < e
      then (case rd item (p + 1) of
              None \<Rightarrow> None
            | Some len \<Rightarrow>
                if p + 2 + unat len \<le> e
                then (case rd_slice item p (unat (len + 2)) of
                        None \<Rightarrow> None
                      | Some ie \<Rightarrow>
                          if fits evs (EvGenIE ie) then scan_ies fits item e (p + 2 + unat len) (evs @ [EvGenIE ie]) else Some None)
                else Some (Some evs))
      else Some (Some evs))"
  by pat_completeness auto
termination by (relation "measure (\<lambda>(fits, item, e, p, evs). e - p)") auto

declare scan_ies.simps [simp del]

definition and_then :: "'a option option \<Rightarrow> ('a \<Rightarrow> 'a option option) \<Rightarrow> 'a option option" where
  "and_then x f = (case x of Some (Some evs) \<Rightarrow> f evs | _ \<Rightarrow> x)"

definition ndis_translate_scan :: "(scan_event list \<Rightarrow> scan_event \<Rightarrow> bool) \<Rightarrow> u8 list \<Rightarrow> scan_event list \<Rightarrow> scan_event list option option" where
  "ndis_translate_scan fits item evs =
     do { len \<leftarrow> rd32 item 0;
          let extended = (len > of_nat scan_var_off);
              nrates = (if extended then NDIS_MAX_RATES else NDIS_MAX_RATES_EX) in
          and_then (stream_add fits (scan_head item) evs) (\<lambda>evs.
          and_then (scan_rates fits item nrates 0 evs []) (\<lambda>evs.
          and_then (stream_add fits (scan_config item) evs) (\<lambda>evs.
          if extended
          then (case rd32 item 112 of
                  None \<Rightarrow> None
                | Some ie_length \<Rightarrow> scan_ies fits item (scan_fixed_off + unat ie_length) scan_var_off evs)
          else Some (Some evs)))) }"

section \<open>Starting a scan and fetching its result\<close>

definition set_scan :: "'d ndis_miniport \<Rightarrow> u64 \<Rightarrow> ('d, 'z) scan_dev_scheme \<Rightarrow> (int \<times> ('d, 'z) scan_dev_scheme) option" where
  "set_scan m jiffies w =
     do { (res, w1) \<leftarrow> mp_set m OID_802_11_BSSID_LIST_SCAN [] w;
          Some (if res \<noteq> 0 then (- EOPNOTSUPP, w1) else (0, w1\<lparr>scan_timestamp := jiffies\<rparr>)) }"

definition iw_set_scan :: "'d ndis_miniport \<Rightarrow> u64 \<Rightarrow> ('d, 'z) scan_dev_scheme \<Rightarrow> (int \<times> ('d, 'z) scan_dev_scheme) option" where
  "iw_set_scan m jiffies w = set_scan m jiffies w"

text \<open>\<^verbatim>\<open>time_before\<close> of the kernel: the difference, read as a signed number, is negative.\<close>

definition time_before :: "u64 \<Rightarrow> u64 \<Rightarrow> bool" where
  "time_before a b = (sint (a - b) < 0)"

text \<open>
  The kernel's memory, as far as the scan uses it: the blocks that are allocated.  Freeing a block that is not allocated and reading one
  are errors of their own.  \<open>mem i\<close> is what \<^verbatim>\<open>kzalloc\<close> returns when \<open>i\<close> more tries may follow, \<open>NULL\<close> when there is no memory.
\<close>

type_synonym heap = "ptr \<Rightarrow> u8 list option"

definition kfree :: "ptr \<Rightarrow> heap \<Rightarrow> heap option" where
  "kfree p h = (if p = NULL then Some h else if h p = None then None else Some (h(p := None)))"

text \<open>The loop that enlarges the buffer, with the variables \<^verbatim>\<open>bssid_list\<close>, \<^verbatim>\<open>res\<close> and \<^verbatim>\<open>data_len\<close> that are used after it; without
  them when an allocation failed.\<close>

primrec scan_query :: "'d ndis_miniport \<Rightarrow> (nat \<Rightarrow> ptr) \<Rightarrow> nat \<Rightarrow> u32 \<Rightarrow> ptr \<times> u32 \<times> u32 \<Rightarrow> heap \<Rightarrow> ('d, 'z) req_state_scheme
    \<Rightarrow> ((heap \<times> (ptr \<times> u32 \<times> u32) option) \<times> ('d, 'z) req_state_scheme) option" where
  "scan_query m mem 0 buf_len vars h w = Some ((h, Some vars), w)"
| "scan_query m mem (Suc n) buf_len vars h w =
     (let bssid_list = mem n in
      if bssid_list = NULL then Some ((h, None), w)
      else do { (res, list, data_len, needed, w1) \<leftarrow> mp_query_info m OID_802_11_BSSID_LIST (replicate (unat buf_len) 0) w;
                let h1 = h(bssid_list \<mapsto> list) in
                if needed \<le> buf_len then Some ((h1, Some (bssid_list, res, data_len)), w1)
                else do { h2 \<leftarrow> kfree bssid_list h1; scan_query m mem n needed (bssid_list, res, data_len) h2 w1 } })"

primrec scan_items :: "(scan_event list \<Rightarrow> scan_event \<Rightarrow> bool) \<Rightarrow> u8 list \<Rightarrow> nat \<Rightarrow> nat \<Rightarrow> u32 \<Rightarrow> scan_event list \<Rightarrow> scan_event list option option" where
  "scan_items fits list 0 p data_len evs = Some (Some evs)"
| "scan_items fits list (Suc n) p data_len evs =
     do { len \<leftarrow> rd32 list p;
          if len > data_len then Some (Some evs)
          else and_then (ndis_translate_scan fits (drop p list) evs) (\<lambda>evs. scan_items fits list n (p + unat len) (data_len - len) evs) }"

text \<open>How the handler ends: with a return value, the events and the memory; or with a block freed a second time or read after the free.\<close>

datatype scan_end = Scan_Done int "scan_event list option" heap | Freed_Twice ptr | Read_Freed ptr

definition scan_free :: "ptr \<Rightarrow> int \<Rightarrow> scan_event list option \<Rightarrow> heap \<Rightarrow> scan_end" where
  "scan_free p res evs h = (case kfree p h of None \<Rightarrow> Freed_Twice p | Some h1 \<Rightarrow> Scan_Done res evs h1)"

definition scan_buf_len :: u32 where "scan_buf_len = 4 + of_nat scan_var_off * 8"

definition iw_get_scan :: "'d ndis_miniport \<Rightarrow> (scan_event list \<Rightarrow> scan_event \<Rightarrow> bool) \<Rightarrow> (nat \<Rightarrow> ptr) \<Rightarrow> u64 \<Rightarrow> u64 \<Rightarrow> heap \<Rightarrow> ('d, 'z) scan_dev_scheme
    \<Rightarrow> (scan_end \<times> ('d, 'z) scan_dev_scheme) option" where
  "iw_get_scan m fits mem HZ jiffies h w =
     (if time_before jiffies (scan_timestamp w + 3 * HZ) then Some (Scan_Done (- EAGAIN) None h, w)
      else do { ((h1, q), w1) \<leftarrow> scan_query m mem 10 scan_buf_len (NULL, 0, 0) h w;
                case q of
                  None \<Rightarrow> Some (Scan_Done (- ENOMEM) None h1, w1)
                | Some (bssid_list, res, data_len) \<Rightarrow>
                    if res \<noteq> 0 then Some (scan_free bssid_list (- EOPNOTSUPP) None h1, w1)
                    else (case h1 bssid_list of
                            None \<Rightarrow> Some (Read_Freed bssid_list, w1)
                          | Some list \<Rightarrow>
                              do { num_items \<leftarrow> rd32 list 0;
                                   r \<leftarrow> scan_items fits list (unat num_items) 4 data_len [];
                                   Some (case r of None \<Rightarrow> scan_free bssid_list (- E2BIG) None h1
                                         | Some evs \<Rightarrow> scan_free bssid_list 0 (Some evs) h1, w1) }) })"

section \<open>Statistics and capabilities\<close>

text \<open>The quality part of the statistics: quality, level, noise.\<close>

definition iw_get_ndis_stats :: "('d, 'z) wnd_scheme \<Rightarrow> int \<times> (u8 \<times> u8 \<times> u8)" where
  "iw_get_ndis_stats w = (0, (iw_qual (iw_stats w), iw_level (iw_stats w), iw_noise (iw_stats w)))"

abbreviation IW_MAX_BITRATES :: nat where "IW_MAX_BITRATES \<equiv> 32"
abbreviation IW_MAX_FREQUENCIES :: nat where "IW_MAX_FREQUENCIES \<equiv> 32"

text \<open>\<^verbatim>\<open>struct iw_range\<close> without the version numbers of the kernel and its masks of event capabilities.\<close>

record iw_range =
  rg_txpower :: "u32 list"
  rg_retry :: "nat \<times> nat"
  rg_num_channels :: nat
  rg_max_qual :: "nat \<times> nat \<times> nat"
  rg_sensitivity :: nat
  rg_max_encoding_tokens :: nat
  rg_encoding_size :: "nat list"
  rg_bitrate :: "int list"
  rg_freq :: "(nat \<times> int \<times> nat) list"
  rg_rts :: "nat \<times> nat"
  rg_frag :: "nat \<times> nat"
  rg_enc_capa :: u32

text \<open>The loop over the rates: \<open>n\<close> bytes from \<open>i\<close> on, as long as the table has room; a read beyond the sixteen bytes is a fault.\<close>

primrec range_rates :: "u8 list \<Rightarrow> nat \<Rightarrow> nat \<Rightarrow> int list \<Rightarrow> int list option" where
  "range_rates rates 0 i acc = Some acc"
| "range_rates rates (Suc n) i acc =
     (if length acc < IW_MAX_BITRATES
      then do { r \<leftarrow> rd rates i;
                range_rates rates n (Suc i) (if r AND 0x80 \<noteq> 0 then acc else if r AND 0x7F \<noteq> 0 then acc @ [uint (r AND 0x7F) * 500000] else acc) }
      else Some acc)"

definition range_enc_capa :: "nat set \<Rightarrow> nat set \<Rightarrow> u32" where
  "range_enc_capa encr auth =
     (if unat Encryption2Enabled \<in> encr then 4 else 0) OR
     (if unat Encryption3Enabled \<in> encr then 8 else 0) OR
     (if unat AuthModeWPA \<in> auth \<or> unat AuthModeWPAPSK \<in> auth then 1 else 0) OR
     (if unat AuthModeWPA2 \<in> auth \<or> unat AuthModeWPA2PSK \<in> auth then 2 else 0)"

definition range_freqs :: "(nat \<times> int \<times> nat) list" where
  "range_freqs = map (\<lambda>i. (i + 1, freq_chan ! i * 100000, 1)) [0..<min (length freq_chan) IW_MAX_FREQUENCIES]"

definition iw_get_range :: "'d ndis_miniport \<Rightarrow> u32 \<Rightarrow> ('d, 'z) iw_state_scheme \<Rightarrow> ((int \<times> iw_range) \<times> ('d, 'z) iw_state_scheme) option" where
  "iw_get_range m junk w =
     do { (res, p, w1) \<leftarrow> mp_query_int m OID_802_11_TX_POWER_LEVEL junk w;
          (res2, rates, n, nd, w2) \<leftarrow> mp_query_info m OID_802_11_SUPPORTED_RATES (replicate NDIS_MAX_RATES_EX 0) w1;
          bs \<leftarrow> (if res2 \<noteq> 0 then Some [] else range_rates rates (unat n) 0 []);
          Some ((0, \<lparr>rg_txpower = (if res \<noteq> 0 then [] else [p]), rg_retry = (0, 255), rg_num_channels = length freq_chan, rg_max_qual = (100, 154, 154),
                     rg_sensitivity = 3, rg_max_encoding_tokens = 4, rg_encoding_size = [5, 13], rg_bitrate = bs, rg_freq = range_freqs,
                     rg_rts = (0, 2347), rg_frag = (256, 2346), rg_enc_capa = range_enc_capa (capa_encr w2) (capa_auth w2)\<rparr>), w2) }"

section \<open>Information elements\<close>

text \<open>An element: identifier, length, contents.\<close>

definition ie_bytes :: "u8 \<times> u8 list \<Rightarrow> u8 list" where
  "ie_bytes e = fst e # of_nat (length (snd e)) # snd e"

lemma length_ie_bytes [simp]: "length (ie_bytes e) = length (snd e) + 2"
  by (simp add: ie_bytes_def)

text \<open>One round of the walk over an element at offset \<open>p\<close>: the event has as many bytes as fit into 8 bits.\<close>

lemma scan_ies_step:
  assumes at: "drop p item = ie_bytes e @ rest" and len: "length (snd e) < 256" and fit: "p + 2 + length (snd e) \<le> en"
    and room: "fits evs (EvGenIE (take ((length (snd e) + 2) mod 256) (ie_bytes e)))"
  shows "scan_ies fits item en p evs =
           scan_ies fits item en (p + 2 + length (snd e)) (evs @ [EvGenIE (take ((length (snd e) + 2) mod 256) (ie_bytes e))])"
proof -
  have lb: "length item = p + 2 + length (snd e) + length rest"
  proof -
    have "length (drop p item) = 2 + length (snd e) + length rest" using at by simp
    then show ?thesis by simp
  qed
  have nth: "item ! (p + 1) = of_nat (length (snd e))"
  proof -
    have "drop p item ! 1 = of_nat (length (snd e))" by (simp add: at ie_bytes_def)
    then show ?thesis using lb by (simp add: add.commute)
  qed
  have u: "unat (of_nat (length (snd e)) :: u8) = length (snd e)"
    using len by (simp add: unat_of_nat)
  have u2: "unat (of_nat (length (snd e)) + 2 :: u8) = (length (snd e) + 2) mod 256"
    using u by (simp add: unat_word_ariths)
  have "rd item (p + 1) = Some (of_nat (length (snd e)))" using lb nth by (simp add: rd_def)
  moreover have "rd_slice item p ((length (snd e) + 2) mod 256) = Some (take ((length (snd e) + 2) mod 256) (ie_bytes e))"
  proof -
    have "(length (snd e) + 2) mod 256 \<le> length (snd e) + 2" by simp
    then show ?thesis using lb by (simp add: rd_slice_def at)
  qed
  ultimately show ?thesis using fit room by (subst scan_ies.simps) (simp add: u u2)
qed


lemma scan_ies_end: "en \<le> p + 1 \<Longrightarrow> scan_ies fits item en p evs = Some (Some evs)"
  by (subst scan_ies.simps) simp

lemma scan_ies_elements:
  "drop p item = concat (map ie_bytes es) @ rest \<Longrightarrow> (\<And>e. e \<in> set es \<Longrightarrow> length (snd e) \<le> 253) \<Longrightarrow> en = p + length (concat (map ie_bytes es)) \<Longrightarrow>
    scan_ies (\<lambda>_ _. True) item en p evs = Some (Some (evs @ map (EvGenIE \<circ> ie_bytes) es))"
proof (induction es arbitrary: p evs)
  case Nil
  then show ?case by (simp add: scan_ies_end)
next
  case (Cons e es)
  have l: "length (snd e) \<le> 253" using Cons.prems(2) by simp
  have at: "drop p item = ie_bytes e @ (concat (map ie_bytes es) @ rest)" using Cons.prems(1) by simp
  have tk: "take ((length (snd e) + 2) mod 256) (ie_bytes e) = ie_bytes e" using l by simp
  have nx: "drop (p + 2 + length (snd e)) item = concat (map ie_bytes es) @ rest"
  proof -
    have "drop (p + 2 + length (snd e)) item = drop (2 + length (snd e)) (drop p item)" by (simp add: add.commute add.left_commute)
    then show ?thesis by (simp add: at)
  qed
  have "scan_ies (\<lambda>_ _. True) item en p evs = scan_ies (\<lambda>_ _. True) item en (p + 2 + length (snd e)) (evs @ [EvGenIE (ie_bytes e)])"
    using scan_ies_step [OF at, of en "\<lambda>_ _. True" evs] l Cons.prems(3) by (simp add: tk)
  also have "\<dots> = Some (Some ((evs @ [EvGenIE (ie_bytes e)]) @ map (EvGenIE \<circ> ie_bytes) es))"
    by (rule Cons.IH [OF nx]) (use Cons.prems in auto)
  finally show ?case by simp
qed

lemma stream_add_room: "stream_add (\<lambda>_ _. True) (map Some es) evs = Some (Some (evs @ es))"
  by (induction es arbitrary: evs) auto

lemma scan_rates_room:
  "96 + i + n \<le> length item \<Longrightarrow> \<exists>rs. scan_rates (\<lambda>_ _. True) item n i evs vals = Some (Some (evs @ rs)) \<and> (\<forall>e \<in> set rs. \<exists>v. e = EvRates v)"
proof (induction n arbitrary: i vals)
  case (Suc n)
  then show ?case by (simp add: rd_def Let_def)
qed simp

lemma rd32_defined: "off + 4 \<le> length b \<Longrightarrow> rd32 b off = Some (word_of_int (le_val (take 4 (drop off b))))"
  by (simp add: rd32_def rdn_def)

lemma scan_head_defined:
  assumes "116 \<le> length item"
  shows "\<exists>hd. scan_head item = map Some hd \<and> (\<forall>ie. EvGenIE ie \<notin> set hd)"
proof -
  have "16 + scan_essid_length len \<le> length item" for len using assms by (simp add: scan_essid_length_def)
  then have "scan_head item = map Some (map the (scan_head item))" and "\<forall>ie. EvGenIE ie \<notin> set (map the (scan_head item))"
    using assms by (simp_all add: scan_head_def rd32_defined rd_slice_def)
  then show ?thesis by blast
qed

lemma scan_config_defined: "116 \<le> length item \<Longrightarrow> \<exists>cf. scan_config item = map Some cf \<and> (\<forall>ie. EvGenIE ie \<notin> set cf)"
  by (rule exI [of _ "map the (scan_config item)"]) (simp add: scan_config_def rd32_defined)

text \<open>C31: the translation of an item of a scan that ends with well-formed information elements of at most 253 bytes of contents: with room in the kernel's
  event stream, the events about the network are followed by exactly one event for each element, with the bytes of the element, in their order, and no
  event of that kind comes before.
\<close>
theorem scan_elements_roundtrip:
  assumes ext: "rd32 item 0 = Some len" "len > 128"
    and ies: "drop 128 item = concat (map ie_bytes es) @ rest" "\<forall>e \<in> set es. length (snd e) \<le> 253"
    and il: "rd32 item 112 = Some il" "unat il = 12 + length (concat (map ie_bytes es))"
    and size: "128 \<le> length item"
  shows "\<exists>hd. ndis_translate_scan (\<lambda>_ _. True) item evs = Some (Some (evs @ hd @ map (EvGenIE \<circ> ie_bytes) es)) \<and> (\<forall>ie. EvGenIE ie \<notin> set hd)"
proof -
  obtain hd where hd: "scan_head item = map Some hd" "\<forall>ie. EvGenIE ie \<notin> set hd" using scan_head_defined [of item] size by auto
  obtain cf where cf: "scan_config item = map Some cf" "\<forall>ie. EvGenIE ie \<notin> set cf" using scan_config_defined [of item] size by auto
  obtain rs where rs: "scan_rates (\<lambda>_ _. True) item NDIS_MAX_RATES 0 (evs @ hd) [] = Some (Some ((evs @ hd) @ rs))" "\<forall>e \<in> set rs. \<exists>v. e = EvRates v"
    using scan_rates_room [of 0 NDIS_MAX_RATES item "evs @ hd" "[]"] size by auto
  have "scan_ies (\<lambda>_ _. True) item (scan_fixed_off + unat il) scan_var_off (evs @ hd @ rs @ cf) =
      Some (Some ((evs @ hd @ rs @ cf) @ map (EvGenIE \<circ> ie_bytes) es))"
    by (rule scan_ies_elements [OF ies(1)]) (use ies(2) il(2) in auto)
  then have "ndis_translate_scan (\<lambda>_ _. True) item evs = Some (Some (evs @ (hd @ rs @ cf) @ map (EvGenIE \<circ> ie_bytes) es))"
    using ext il(1) by (simp add: ndis_translate_scan_def Let_def and_then_def hd(1) cf(1) rs(1) stream_add_room)
  moreover have "\<forall>ie. EvGenIE ie \<notin> set (hd @ rs @ cf)" using hd(2) cf(2) rs(2) by auto
  ultimately show ?thesis by blast
qed

text \<open>An element with 254 bytes of contents becomes an event without any byte, one with 255 bytes an event of one byte.\<close>

lemma long_element_cut:
  assumes "drop p item = ie_bytes e @ rest" "length (snd e) \<in> {254, 255}" "p + 2 + length (snd e) \<le> en"
  shows "scan_ies (\<lambda>_ _. True) item en p evs =
           scan_ies (\<lambda>_ _. True) item en (p + 2 + length (snd e)) (evs @ [EvGenIE (if length (snd e) = 254 then [] else [fst e])])"
proof -
  have "take ((length (snd e) + 2) mod 256) (ie_bytes e) = (if length (snd e) = 254 then [] else [fst e])"
    using assms(2) by (auto simp: ie_bytes_def)
  then show ?thesis using scan_ies_step [OF assms(1) _ assms(3), of "\<lambda>_ _. True" evs] assms(2) by auto
qed

section \<open>The growing buffer\<close>

text \<open>Each of \<open>n\<close> queries is answered with a demand for more room than it gave, as when networks appear between the queries.\<close>

primrec asks_more :: "'d ndis_miniport \<Rightarrow> nat \<Rightarrow> u32 \<Rightarrow> ('d, 'z) req_state_scheme \<Rightarrow> bool" where
  "asks_more m 0 buf_len w = True"
| "asks_more m (Suc n) buf_len w =
     (case mp_query_info m OID_802_11_BSSID_LIST (replicate (unat buf_len) 0) w of
        None \<Rightarrow> False
      | Some (res, list, data_len, needed, w1) \<Rightarrow> needed > buf_len \<and> asks_more m n needed w1)"

lemma scan_query_blocks:
  assumes "\<forall>i<n. h (mem i) = None"
  shows "let more = (\<forall>i<n. mem i \<noteq> NULL) \<and> asks_more m n buf_len w in
     case scan_query m mem n buf_len vars h w of
       None \<Rightarrow> \<not> more
     | Some ((h', None), w') \<Rightarrow> \<not> more \<and> h' = h
     | Some ((h', Some (p, res, data_len)), w') \<Rightarrow>
         if more then h' = h \<and> p = (if n = 0 then fst vars else mem 0)
         else p \<noteq> NULL \<and> h p = None \<and> (\<exists>list. h' = h(p \<mapsto> list))"
  using assms
proof (induction n arbitrary: buf_len vars w)
  case 0
  show ?case by (cases vars) (simp add: Let_def)
next
  case (Suc n)
  show ?case
  proof (cases "mem n = NULL")
    case True
    then show ?thesis by (auto simp: Let_def)
  next
    case mem: False
    show ?thesis
    proof (cases "mp_query_info m OID_802_11_BSSID_LIST (replicate (unat buf_len) 0) w")
      case None
      then show ?thesis using mem by (simp add: Let_def)
    next
      case (Some x)
      obtain res list data_len needed w1 where x: "x = (res, list, data_len, needed, w1)" by (metis prod_cases5)
      have fresh: "h (mem n) = None" using Suc.prems by simp
      show ?thesis
      proof (cases "needed \<le> buf_len")
        case True
        then show ?thesis using mem fresh Some x by (auto simp: Let_def)
      next
        case False
        then have step: "scan_query m mem (Suc n) buf_len vars h w = scan_query m mem n needed (mem n, res, data_len) h w1"
          "asks_more m (Suc n) buf_len w = asks_more m n needed w1"
          using mem fresh Some x not_le [of needed buf_len] by (simp_all add: Let_def kfree_def fun_upd_idem)
        have all: "(\<forall>i<Suc n. mem i \<noteq> NULL) = (\<forall>i<n. mem i \<noteq> NULL)" using mem by (auto simp: less_Suc_eq)
        have "n = 0 \<Longrightarrow> mem n = mem 0" by simp
        then show ?thesis unfolding step all
          using Suc.IH [of needed w1 "(mem n, res, data_len)"] Suc.prems by (auto simp: Let_def split: option.splits if_splits)
      qed
    qed
  qed
qed

text \<open>C32: Fetching the scan result works on a freed block exactly when each of the ten allocations succeeds and each of the ten queries is
  answered with a demand for more room (any size; the driver may answer at once or later): the block of the last try, which the loop has
  freed, is then freed a second time when the last query failed, and read when it succeeded.  In all other cases the blocks that were allocated are freed
  once each, however the handler ends.  (A block the kernel hands out is one that is not allocated.)
\<close>
theorem scan_buffer_use_after_free:
  assumes "\<forall>i<10. h (mem i) = None" "\<not> time_before jiffies (scan_timestamp w + 3 * HZ)"
  shows "if (\<forall>i<10. mem i \<noteq> NULL) \<and> asks_more m 10 scan_buf_len w
     then \<exists>r w'. iw_get_scan m fits mem HZ jiffies h w = Some (r, w') \<and> (r = Freed_Twice (mem 0) \<or> r = Read_Freed (mem 0))
     else \<forall>r w'. iw_get_scan m fits mem HZ jiffies h w = Some (r, w') \<longrightarrow> (\<exists>res evs. r = Scan_Done res evs h)"
proof (cases "(\<forall>i<10. mem i \<noteq> NULL) \<and> asks_more m 10 scan_buf_len w")
  case True
  note b = scan_query_blocks [OF assms(1), of m scan_buf_len w "(NULL, 0, 0)"]
  obtain h1 q w1 where q: "scan_query m mem 10 scan_buf_len (NULL, 0, 0) h w = Some ((h1, q), w1)"
    using b True by (auto simp: Let_def split: option.splits)
  then obtain res data_len where "q = Some (mem 0, res, data_len)" "h1 = h"
    using b True by (auto simp: Let_def split: option.splits)
  moreover have "kfree (mem 0) h = None" "h (mem 0) = None" using True assms(1) by (auto simp: kfree_def)
  ultimately have "\<exists>r w'. iw_get_scan m fits mem HZ jiffies h w = Some (r, w') \<and> (r = Freed_Twice (mem 0) \<or> r = Read_Freed (mem 0))"
    using assms(2) q by (simp add: iw_get_scan_def scan_free_def)
  then show ?thesis using True by simp
next
  case False
  note b = scan_query_blocks [OF assms(1), of m scan_buf_len w "(NULL, 0, 0)"]
  have "\<exists>res evs. r = Scan_Done res evs h" if "iw_get_scan m fits mem HZ jiffies h w = Some (r, w')" for r w'
  proof (cases "scan_query m mem 10 scan_buf_len (NULL, 0, 0) h w")
    case None
    then show ?thesis using that assms(2) by (simp add: iw_get_scan_def)
  next
    case (Some y)
    then obtain h1 q w1 where y: "y = ((h1, q), w1)" by (metis prod.exhaust)
    show ?thesis
    proof (cases q)
      case None
      then show ?thesis using that assms(2) Some y b False by (auto simp: iw_get_scan_def Let_def)
    next
      case q: (Some v)
      obtain p res data_len where v: "v = (p, res, data_len)" by (metis prod.exhaust)
      then obtain list where p: "p \<noteq> NULL" "h p = None" "h1 = h(p \<mapsto> list)" using b False Some y q by (auto simp: Let_def)
      then have "scan_free p r' e h1 = Scan_Done r' e h" for r' e by (simp add: scan_free_def kfree_def fun_upd_idem)
      then show ?thesis using that assms(2) Some y q v p
        by (auto simp: iw_get_scan_def split: if_splits Option.bind_splits option.splits)
    qed
  qed
  then show ?thesis using False by auto
qed

section \<open>Frequencies, power, nickname\<close>

lemma times10_value: "times10 n x = x * 10 ^ n"
  by (induction n arbitrary: x) (simp_all add: mult.assoc)

text \<open>C33: the frequency sent for a mantissa and exponent is computed in 32 bits: it is the wanted one in kHz only below 4.29 GHz, and what is sent is always
  below that limit; the channels of the 5 GHz band cannot be requested.
\<close>
theorem freq_wraps:
  assumes "\<not> (fm < 1000 \<and> fe = 0)" "0 \<le> fm" "0 \<le> fe" "freq_ds_config fm fe = Some ds"
  shows "uint ds = fm * 10 ^ nat fe mod 2 ^ 32 div 1000 \<and> uint ds \<le> 4294967 \<and> (fm * 10 ^ nat fe < 2 ^ 32 \<longrightarrow> uint ds = fm * 10 ^ nat fe div 1000)"
proof -
  have w: "uint (word_of_int x :: u32) = x mod 2 ^ 32" for x by (simp add: unsigned_of_int take_bit_eq_mod)
  have "ds = (word_of_int (fm * 10 ^ nat fe) :: u32) div 1000" using assms(1,4) by (auto simp: freq_ds_config_def times10_value)
  then have "uint ds = uint (word_of_int (fm * 10 ^ nat fe) :: u32) div uint (1000 :: u32)" by (simp only: uint_div)
  then have u: "uint ds = fm * 10 ^ nat fe mod 2 ^ 32 div 1000" unfolding w by simp
  have "fm * 10 ^ nat fe mod 2 ^ 32 < 4294967296" by simp
  then have "uint ds \<le> 4294967" unfolding u by linarith
  moreover have "fm * 10 ^ nat fe < 2 ^ 32 \<longrightarrow> uint ds = fm * 10 ^ nat fe div 1000"
    using assms(2) unfolding u by simp
  ultimately show ?thesis using u by blast
qed

theorem freq_wraps_witness:
  "freq_ds_config 5180 6 = Some 885032 \<and> uint (885032 :: u32) = 5180 * 10 ^ nat 6 mod 2 ^ 32 div 1000"
proof -
  have e: "freq_ds_config 5180 6 = Some 885032" by (simp add: freq_ds_config_def times10_value)
  show ?thesis using freq_wraps [OF _ _ _ e] e by simp
qed

text \<open>A driver that keeps the configuration of 32 bytes it is given; \<open>cfg\<close> is the configuration in its state.\<close>

definition keeps_config :: "'d ndis_miniport \<Rightarrow> ('d \<Rightarrow> u8 list) \<Rightarrow> bool" where
  "keeps_config m cfg \<longleftrightarrow>
     (\<forall>buf d. rp_status (fst (mp_queryinfo m OID_802_11_CONFIGURATION buf d)) = 0 \<and> rp_out (fst (mp_queryinfo m OID_802_11_CONFIGURATION buf d)) = cfg d \<and>
        length (cfg d) = 32 \<and>
        (length buf = 32 \<longrightarrow> rp_status (fst (mp_setinfo m OID_802_11_CONFIGURATION buf d)) = 0 \<and> cfg (snd (mp_setinfo m OID_802_11_CONFIGURATION buf d)) = buf))"

lemma keeps_config_query:
  assumes "keeps_config m cfg" "\<not> ndis_req_mutex w"
  shows "\<exists>w'. mp_query m OID_802_11_CONFIGURATION (replicate 32 0) w = Some (0, cfg (drv w), w') \<and> \<not> ndis_req_mutex w'"
proof -
  obtain rp d where c: "mp_queryinfo m OID_802_11_CONFIGURATION (replicate 32 0) (drv w) = (rp, d)" by fastforce
  then have "rp_status rp = 0" "rp_out rp = cfg (drv w)" "length (cfg (drv w)) = 32" using assms(1) by (metis keeps_config_def fst_conv)+
  then show ?thesis using assms(2) c
    by (simp add: mp_query_def mp_request_def miniport_call_def lock_req_def unlock_req_def Let_def overlay_def)
qed

lemma keeps_config_set:
  assumes "keeps_config m cfg" "\<not> ndis_req_mutex w" "length buf = 32"
  shows "\<exists>w'. mp_set m OID_802_11_CONFIGURATION buf w = Some (0, w') \<and> \<not> ndis_req_mutex w' \<and> cfg (drv w') = buf"
proof -
  obtain rp d where c: "mp_setinfo m OID_802_11_CONFIGURATION buf (drv w) = (rp, d)" by fastforce
  then have "rp_status rp = 0" "cfg d = buf" using assms(1,3) by (metis keeps_config_def fst_conv snd_conv)+
  then show ?thesis using assms(2) c
    by (simp add: mp_set_def mp_request_def miniport_call_def lock_req_def unlock_req_def Let_def)
qed

lemma freq_chan_range: "f \<in> set freq_chan \<Longrightarrow> 2000 < f \<and> f < 3000"
  by (auto simp: freq_chan_def)

lemma iw_freq_of_mhz:
  assumes "1000 < f" "f < 4000000"
  shows "iw_freq_of (word_of_int (f * 1000)) = (f * 100, 4)"
proof -
  have u: "uint (word_of_int (f * 1000) :: u32) = f * 1000"
    using assms by (simp only: unsigned_of_int take_bit_eq_mod) simp
  then have "(word_of_int (f * 1000) :: u32) > 1000000" using assms by (simp add: word_less_def)
  moreover have "uint ((word_of_int (f * 1000) :: u32) div 10) = f * 100" unfolding uint_div u by simp
  ultimately show ?thesis by (simp only: iw_freq_of_def if_True)
qed

lemma freq_chan_reported:
  assumes "1 \<le> ch" "ch \<le> 14"
  shows "freq_ds_config ch 0 = Some (word_of_int (freq_chan ! nat (ch - 1) * 1000)) \<and>
    iw_freq_of (word_of_int (freq_chan ! nat (ch - 1) * 1000)) = (freq_chan ! nat (ch - 1) * 100, 4)"
proof -
  have l: "length freq_chan = 14" by (simp add: freq_chan_def)
  then have "freq_chan ! nat (ch - 1) \<in> set freq_chan" using assms by (intro nth_mem) auto
  from freq_chan_range [OF this] show ?thesis using iw_freq_of_mhz assms l by (simp add: freq_ds_config_def)
qed

text \<open>setting the frequency by a channel number of the 2.4 GHz band, while not associated, and reading the frequency back through a driver that keeps
  its configuration gives the frequency of the channel, in Hz.
\<close>
theorem freq_channel_read_back:
  assumes keeps: "keeps_config m cfg" and free: "\<not> ndis_req_mutex w" and off: "\<not> carrier_ok w" and ch: "1 \<le> ch" "ch \<le> 14"
  shows "\<exists>w1 w2 fm fe. iw_set_freq m ch 0 w = Some (0, w1) \<and> iw_get_freq m w1 = Some ((0, Some (fm, fe)), w2) \<and>
           fm * 10 ^ nat fe = freq_chan ! nat (ch - 1) * 10 ^ 6"
proof -
  obtain ds where ds: "freq_ds_config ch 0 = Some ds" "iw_freq_of ds = (freq_chan ! nat (ch - 1) * 100, 4)"
    using freq_chan_reported [OF ch] by blast
  obtain w0 where q: "mp_query m OID_802_11_CONFIGURATION (replicate 32 0) w = Some (0, cfg (drv w), w0)" and f0: "\<not> ndis_req_mutex w0"
    using keeps_config_query [OF keeps free] by blast
  have l: "length (cfg (drv w)) = 32" using keeps by (simp add: keeps_config_def)
  obtain req where req: "wr32 (cfg (drv w)) 12 ds = Some req" "rd32 req 12 = Some ds" "length req = 32"
    using f32.put_ex [of 12 "cfg (drv w)" ds] f32.put_dom f32.get_put l by fastforce
  obtain w1 where s: "mp_set m OID_802_11_CONFIGURATION req w0 = Some (0, w1)" "\<not> ndis_req_mutex w1" "cfg (drv w1) = req"
    using keeps_config_set [OF keeps f0 req(3)] by blast
  obtain w2 where g: "mp_query m OID_802_11_CONFIGURATION (replicate 32 0) w1 = Some (0, req, w2)"
    using keeps_config_query [OF keeps s(2)] s(3) by auto
  have "iw_set_freq m ch 0 w = Some (0, w1)" using off by (simp add: iw_set_freq_def q ds(1) req(1) s(1))
  moreover have "iw_get_freq m w1 = Some ((0, Some (iw_freq_of ds)), w2)" by (simp add: iw_get_freq_def g req(2))
  ultimately show ?thesis using ds(2) by simp
qed

lemma tx_power_off_level:
  "tx_power_level False False v = 0 \<longleftrightarrow> v = - 12"
proof (cases "v > 20 \<or> v < - 43")
  case False
  then have "- 43 \<le> v \<and> v \<le> 20" by linarith
  then have "v \<in> set [- 43..20]" by (simp only: set_upto atLeastAtMost_iff)
  then show ?thesis by (auto simp: upto.simps tx_power_level_def Let_def mask_eq_exp_minus_1 not_eq_complement)
qed (auto simp: tx_power_level_def)

lemma nick_read_back:
  assumes "iw_set_nick len ex w = Some (0, w')" "length (nick w) = 33" "0 \<notin> set (take len ex)" "len \<le> length buf"
  shows "iw_get_nick buf w' = Some (0, len, take len ex @ drop len buf)"
proof -
  have le: "len < 33" "len \<le> length ex" and w': "nick w' = take len ex @ 0 # drop (Suc len) (nick w)"
    using assms(1,2) by (auto simp: iw_set_nick_def blk_copy_def wr_def bind_eq_Some_conv list_update_append Cons_nth_drop_Suc [symmetric] split: if_splits)
  then show ?thesis using assms(2-4) cstr_of_prefix [OF assms(3)] by (simp add: iw_get_nick_def blk_copy_def)
qed


section \<open>Examples\<close>

text \<open>An item with two information elements.\<close>

definition scan_item :: "u8 list" where
  "scan_item = ulong_bytes 137 @ [0, 1, 2, 3, 4, 5, 0, 0] @ replicate 100 0 @ ulong_bytes 21 @ replicate 12 0 @ ie_bytes (0, [65, 66, 67]) @ ie_bytes (3, [6, 7])"

lemma rd32_ulong_bytes: "rd32 (p @ ulong_bytes v @ r) (length p) = Some v"
  using ulong_of_bytes [of v] by (simp add: rd32_def rdn_def ulong_of_def)

theorem scan_elements_roundtrip_witness:
  "\<exists>hd. ndis_translate_scan (\<lambda>_ _. True) scan_item [] = Some (Some ([] @ hd @ map (EvGenIE \<circ> ie_bytes) [(0, [65, 66, 67]), (3, [6, 7])])) \<and>
     (\<forall>ie. EvGenIE ie \<notin> set hd)"
proof (rule scan_elements_roundtrip)
  show "rd32 scan_item 0 = Some 137"
    using rd32_ulong_bytes [of "[]" 137] by (simp add: scan_item_def)
  show "rd32 scan_item 112 = Some 21"
    using rd32_ulong_bytes [of "ulong_bytes 137 @ [0, 1, 2, 3, 4, 5, 0, 0] @ replicate 100 0" 21] by (simp add: scan_item_def)
  show "drop 128 scan_item = concat (map ie_bytes [(0, [65, 66, 67]), (3, [6, 7])]) @ []" by (simp add: scan_item_def ie_bytes_def)
qed (simp_all add: scan_item_def ie_bytes_def)

definition scan_demo :: "u32 scan_dev" where
  "scan_demo = wnd.extend ctl_demo \<lparr>scan_timestamp = 0, nick = replicate 33 0\<rparr>"

lemma scan_demo_fields: "\<not> ndis_req_mutex scan_demo" "scan_timestamp scan_demo = 0"
  by (simp_all add: scan_demo_def wnd.defs ctl_demo_def)

text \<open>A driver that asks for one byte more than it is given, and a kernel that hands out the same block again after it was freed.\<close>

definition hungry_mp :: "u32 ndis_miniport" where
  "hungry_mp = demo_mp\<lparr>mp_queryinfo := \<lambda>oid buf d. ((demo_reply NDIS_STATUS_FAILURE [])\<lparr>rp_needed := of_nat (length buf) + 1\<rparr>, d)\<rparr>"

lemma hungry_asks: "\<not> ndis_req_mutex w \<Longrightarrow> unat buf_len + n < 2 ^ 32 \<Longrightarrow> asks_more hungry_mp n buf_len w"
proof (induction n arbitrary: buf_len w)
  case (Suc n)
  have lt: "unat (buf_len + 1) = unat buf_len + 1" using Suc.prems(2) by (simp add: unat_word_ariths)
  then have "buf_len < buf_len + 1" by (simp add: word_less_nat_alt)
  moreover have "asks_more hungry_mp n (buf_len + 1) w1" if "\<not> ndis_req_mutex w1" for w1 :: "(u32, 'a) req_state_scheme"
    using Suc.IH [OF that, of "buf_len + 1"] Suc.prems lt by simp
  ultimately show ?case
    using Suc.prems(1) by (simp add: hungry_mp_def mp_query_info_def mp_request_def miniport_call_def lock_req_def unlock_req_def demo_reply_def Let_def)
qed simp

theorem scan_buffer_use_after_free_witness:
  "\<exists>r w'. iw_get_scan hungry_mp (\<lambda>_ _. True) (\<lambda>i. 0x1000) 250 1000 Map.empty scan_demo = Some (r, w') \<and>
     (r = Freed_Twice 0x1000 \<or> r = Read_Freed 0x1000)"
proof -
  have "asks_more hungry_mp 10 scan_buf_len scan_demo"
    by (rule hungry_asks) (simp_all add: scan_demo_fields scan_buf_len_def)
  then show ?thesis
    using scan_buffer_use_after_free [of Map.empty "\<lambda>i. 0x1000" 1000 scan_demo 250 hungry_mp "\<lambda>_ _. True"]
    by (simp add: scan_demo_fields time_before_def)
qed

text \<open>A driver whose state is its configuration.\<close>

definition config_mp :: "u8 list ndis_miniport" where
  "config_mp = \<lparr>mp_queryinfo = (\<lambda>oid buf d. (demo_reply 0 (take 32 (d @ replicate 32 0)), d)), mp_setinfo = (\<lambda>oid buf d. (demo_reply 0 [], buf)),
     mp_init_fn = None, mp_halt_fn = (\<lambda>d. (False, d)), mp_reset_fn = (\<lambda>d. (0, Never, 1, d)), mp_hangcheck_fn = None, mp_pnp_event_fn = None\<rparr>"

lemma config_mp_keeps: "keeps_config config_mp (\<lambda>d. take 32 (d @ replicate 32 0))"
  by (auto simp: keeps_config_def config_mp_def demo_reply_def min_def)

definition config_dev :: "u8 list wnd" where
  "config_dev = \<lparr>drv = [], ndis_req_mutex = False, tx_ring_mutex = False, ndis_req_done = 0, ndis_req_status = 0,
     iw_auth_wpa_version = 0, iw_auth_cipher_pairwise = 0, iw_auth_cipher_group = 0, iw_auth_key_mgmt = 0, iw_auth_80211_alg = 0,
     enc_keys = replicate 4 \<lparr>ek_length = 0, ek_key = replicate 32 0\<rparr>, tx_key_index = 0, essid = \<lparr>es_length = 0, es_essid = replicate 32 0\<rparr>,
     infrastructure_mode = 1, capa_encr = {}, capa_auth = {}, max_pmkids = 0,
     HW_INITIALIZED = True, HW_SUSPENDED = False, HW_HALTED = False, HW_DISABLED = False, NO_HALT_ON_SUSPEND = False, SURPRISE_REMOVE_OK = True,
     physical_medium = NdisPhysicalMediumWirelessLan, dev_bus = WRAP_PCI_BUS, wake_state = PowerDeviceUnspecified, pnp_capa = replicate 16 0, ndis_wolopts = 0,
     packet_filter = 0xB, multicast_size = 32, IFF_PROMISC = False, IFF_ALLMULTI = False, mc_list = [], mtu = 1500,
     carrier_ok = False, txq_stopped = False, dev_attached = True, may_tx = True, ndis_pending_work = {}, ndis_work_queued = False,
     hangcheck_interval = 500, hangcheck_timer = None, iw_stats_interval = 2500, iw_stats_timer = None, iw_stats_enabled = True,
     iw_stats = \<lparr>iw_level = 0, iw_noise = 0, iw_qual = 0, iw_discard_retries = 0, iw_discard_misc = 0\<rparr>,
     mp_interrupt = True, wrap_timer_slist = [], iw_events = []\<rparr>"

theorem freq_channel_read_back_witness:
  "\<exists>w1 w2 fm fe. iw_set_freq config_mp 6 0 config_dev = Some (0, w1) \<and> iw_get_freq config_mp w1 = Some ((0, Some (fm, fe)), w2) \<and>
     fm * 10 ^ nat fe = freq_chan ! nat (6 - 1) * 10 ^ 6"
  by (rule freq_channel_read_back [OF config_mp_keeps]) (simp_all add: config_dev_def)

end
