(* ===== verification/Divdi3.thy ===== *)
theory Divdi3
  imports Prelude "HOL-Library.Signed_Division"
begin

text \<open>
  The 64-bit division of the 32-bit build (\<^verbatim>\<open>divdi3.c\<close>) and the two-word arithmetic below it (\<^verbatim>\<open>longlong.h\<close>).

  The division is written over four primitives, the record \<open>ll_ops\<close>.  The header has two sets of them that matter here: the
  instructions of the i386, whose machine semantics is written down, and macros in C.  The interface \<open>ll_prims\<close> states what the division needs of them;
  it is interpreted for both sets.  The table of the macro that counts leading zeros belongs to the compiler's library and is a parameter, with the
  interface \<open>clz_table\<close>.

  Shown is that the unsigned routine computes quotient and remainder and faults on a zero divisor only, for both sets, and that the signed routines
  truncate towards zero.
\<close>

unbundle bit_operations_syntax

section \<open>Words and double words\<close>

abbreviation W_TYPE_SIZE :: nat where "W_TYPE_SIZE \<equiv> 32"

definition dw_low :: "u64 \<Rightarrow> u32" where "dw_low x = ucast x"
definition dw_high :: "u64 \<Rightarrow> u32" where "dw_high x = ucast (drop_bit 32 x)"
definition dw_ll :: "u32 \<Rightarrow> u32 \<Rightarrow> u64" where "dw_ll high low = push_bit 32 (ucast high) OR ucast low"

record ll_ops =
  udiv_qrnnd :: "u32 \<Rightarrow> u32 \<Rightarrow> u32 \<Rightarrow> (u32 \<times> u32) option"
  umul_ppmm :: "u32 \<Rightarrow> u32 \<Rightarrow> u32 \<times> u32"
  sub_ddmmss :: "u32 \<Rightarrow> u32 \<Rightarrow> u32 \<Rightarrow> u32 \<Rightarrow> u32 \<times> u32"
  count_leading_zeros :: "u32 \<Rightarrow> nat"
  UDIV_NEEDS_NORMALIZATION :: bool

section \<open>The instructions of the i386\<close>

text \<open>\<^verbatim>\<open>divl\<close> raises an exception when the quotient does not fit or the divisor is zero.\<close>

definition divl :: "u32 \<Rightarrow> u32 \<Rightarrow> u32 \<Rightarrow> (u32 \<times> u32) option" where
  "divl n1 n0 d =
     (if d = 0 then None
      else let n = dw_ll n1 n0; q = n div ucast d in if q > 0xFFFFFFFF then None else Some (ucast q, ucast (n mod ucast d)))"

definition mull :: "u32 \<Rightarrow> u32 \<Rightarrow> u32 \<times> u32" where
  "mull u v = (let p = (ucast u * ucast v :: u64) in (dw_high p, dw_low p))"

text \<open>\<^verbatim>\<open>subl\<close> and \<^verbatim>\<open>sbbl\<close>: a subtraction with the borrow of the low words.\<close>

definition subl_sbbl :: "u32 \<Rightarrow> u32 \<Rightarrow> u32 \<Rightarrow> u32 \<Rightarrow> u32 \<times> u32" where
  "subl_sbbl ah al bh bl = (ah - bh - (if al < bl then 1 else 0), al - bl)"

text \<open>\<^verbatim>\<open>bsrl\<close>: the index of the highest bit that is set (the result is undefined for 0).\<close>

fun bsrl_from :: "nat \<Rightarrow> u32 \<Rightarrow> nat" where
  "bsrl_from 0 x = 0"
| "bsrl_from (Suc n) x = (if bit x (Suc n) then Suc n else bsrl_from n x)"

definition bsrl :: "u32 \<Rightarrow> nat" where "bsrl x = bsrl_from 31 x"

definition clz_bsrl :: "u32 \<Rightarrow> nat" where "clz_bsrl x = unat ((of_nat (bsrl x) :: u32) XOR 31)"

definition i386_ops :: ll_ops where
  "i386_ops = \<lparr>udiv_qrnnd = divl, umul_ppmm = mull, sub_ddmmss = subl_sbbl, count_leading_zeros = clz_bsrl, UDIV_NEEDS_NORMALIZATION = False\<rparr>"

section \<open>The macros in C\<close>

definition ll_B :: u32 where "ll_B = 0x10000"
definition ll_lowpart :: "u32 \<Rightarrow> u32" where "ll_lowpart t = t AND 0xFFFF"
definition ll_highpart :: "u32 \<Rightarrow> u32" where "ll_highpart t = drop_bit 16 t"

definition sub_ddmmss_c :: "u32 \<Rightarrow> u32 \<Rightarrow> u32 \<Rightarrow> u32 \<Rightarrow> u32 \<times> u32" where
  "sub_ddmmss_c ah al bh bl = (let x = al - bl in (ah - bh - (if x > al then 1 else 0), x))"

definition umul_ppmm_c :: "u32 \<Rightarrow> u32 \<Rightarrow> u32 \<times> u32" where
  "umul_ppmm_c u v =
     (let ul = ll_lowpart u; uh = ll_highpart u; vl = ll_lowpart v; vh = ll_highpart v;
          x0 = ul * vl; x1 = ul * vh; x2 = uh * vl; x3 = uh * vh;
          x1a = x1 + ll_highpart x0; x1b = x1a + x2;
          x3a = (if x1b < x2 then x3 + ll_B else x3)
      in (x3a + ll_highpart x1b, ll_lowpart x1b * ll_B + ll_lowpart x0))"

text \<open>One digit of \<^verbatim>\<open>__udiv_qrnnd_c\<close>; the macro has the same text for both digits.  A division by a zero half word is a fault.\<close>

definition qrnnd_digit :: "u32 \<Rightarrow> u32 \<Rightarrow> u32 \<Rightarrow> (u32 \<times> u32) option" where
  "qrnnd_digit n1 nh d =
     (let d1 = ll_highpart d; d0 = ll_lowpart d in
      if d1 = 0 then None
      else let r = n1 mod d1; q = n1 div d1; m = q * d0; r1 = r * ll_B OR nh;
               (q', r') = (if r1 < m
                           then (let qa = q - 1; ra = r1 + d in
                                 if ra \<ge> d \<and> ra < m then (qa - 1, ra + d) else (qa, ra))
                           else (q, r1))
           in Some (q', r' - m))"

definition udiv_qrnnd_c :: "u32 \<Rightarrow> u32 \<Rightarrow> u32 \<Rightarrow> (u32 \<times> u32) option" where
  "udiv_qrnnd_c n1 n0 d =
     do { (q1, r1) \<leftarrow> qrnnd_digit n1 (ll_highpart n0) d;
          (q0, r0) \<leftarrow> qrnnd_digit r1 (ll_lowpart n0) d;
          Some (q1 * ll_B OR q0, r0) }"

definition count_leading_zeros_c :: "(nat \<Rightarrow> nat) \<Rightarrow> u32 \<Rightarrow> nat" where
  "count_leading_zeros_c clz_tab x =
     (let a = (if x < 0x10000 then (if x < 0x100 then 0 else 8) else (if x < 0x1000000 then 16 else 24))
      in W_TYPE_SIZE - (clz_tab (unat (drop_bit a x)) + a))"

definition c_ops :: "(nat \<Rightarrow> nat) \<Rightarrow> ll_ops" where
  "c_ops clz_tab = \<lparr>udiv_qrnnd = udiv_qrnnd_c, umul_ppmm = umul_ppmm_c, sub_ddmmss = sub_ddmmss_c,
     count_leading_zeros = count_leading_zeros_c clz_tab, UDIV_NEEDS_NORMALIZATION = True\<rparr>"

section \<open>Division\<close>

text \<open>A divisor of one word, without normalisation: quotient words and remainder.\<close>

definition udivmod_word :: "ll_ops \<Rightarrow> u32 \<Rightarrow> u32 \<Rightarrow> u32 \<Rightarrow> (u32 \<times> u32 \<times> u32) option" where
  "udivmod_word ops n1 n0 d0 =
     (if d0 > n1 then do { (q0, r) \<leftarrow> udiv_qrnnd ops n1 n0 d0; Some (0, q0, r) }
      else if d0 = 0 then None
      else do { (q1, n1) \<leftarrow> udiv_qrnnd ops 0 n1 d0; (q0, r) \<leftarrow> udiv_qrnnd ops n1 n0 d0; Some (q1, q0, r) })"

text \<open>The same with the divisor shifted until its highest bit is set.\<close>

definition udivmod_word_norm :: "ll_ops \<Rightarrow> u32 \<Rightarrow> u32 \<Rightarrow> u32 \<Rightarrow> (u32 \<times> u32 \<times> u32) option" where
  "udivmod_word_norm ops n1 n0 d0 =
     (if d0 > n1
      then let bm = count_leading_zeros ops d0;
               (d0, n1, n0) = (if bm \<noteq> 0 then (push_bit bm d0, push_bit bm n1 OR drop_bit (W_TYPE_SIZE - bm) n0, push_bit bm n0) else (d0, n1, n0))
           in do { (q0, r) \<leftarrow> udiv_qrnnd ops n1 n0 d0; Some (0, q0, drop_bit bm r) }
      else if d0 = 0 then None
      else let bm = count_leading_zeros ops d0 in
           if bm = 0
           then do { (q0, r) \<leftarrow> udiv_qrnnd ops (n1 - d0) n0 d0; Some (1, q0, drop_bit bm r) }
           else let b = W_TYPE_SIZE - bm; d0 = push_bit bm d0; n2 = drop_bit b n1; n1 = push_bit bm n1 OR drop_bit b n0; n0 = push_bit bm n0
                in do { (q1, n1) \<leftarrow> udiv_qrnnd ops n2 n1 d0; (q0, r) \<leftarrow> udiv_qrnnd ops n1 n0 d0; Some (q1, q0, drop_bit bm r) })"

text \<open>A divisor of two words: the quotient has one word.\<close>

definition udivmod_dword :: "ll_ops \<Rightarrow> u32 \<Rightarrow> u32 \<Rightarrow> u32 \<Rightarrow> u32 \<Rightarrow> (u32 \<times> u32 \<times> u32) option" where
  "udivmod_dword ops n1 n0 d1 d0 =
     (if d1 > n1 then Some (0, n1, n0)
      else let bm = count_leading_zeros ops d1 in
           if bm = 0
           then if n1 > d1 \<or> n0 \<ge> d0 then (let (r1, r0) = sub_ddmmss ops n1 n0 d1 d0 in Some (1, r1, r0)) else Some (0, n1, n0)
           else let b = W_TYPE_SIZE - bm; d1 = push_bit bm d1 OR drop_bit b d0; d0 = push_bit bm d0;
                    n2 = drop_bit b n1; n1 = push_bit bm n1 OR drop_bit b n0; n0 = push_bit bm n0
                in do { (q0, n1) \<leftarrow> udiv_qrnnd ops n2 n1 d1;
                        let (m1, m0) = umul_ppmm ops q0 d0;
                            (q0, m1, m0) = (if m1 > n1 \<or> m1 = n1 \<and> m0 > n0 then (let (a, c) = sub_ddmmss ops m1 m0 d1 d0 in (q0 - 1, a, c)) else (q0, m1, m0));
                            (n1, n0) = sub_ddmmss ops n1 n0 m1 m0
                        in Some (q0, drop_bit bm n1, push_bit b n1 OR drop_bit bm n0) })"

text \<open>\<^verbatim>\<open>__udivmoddi4\<close>: quotient and remainder.\<close>

definition udivmoddi4 :: "ll_ops \<Rightarrow> u64 \<Rightarrow> u64 \<Rightarrow> (u64 \<times> u64) option" where
  "udivmoddi4 ops n d =
     (let d0 = dw_low d; d1 = dw_high d; n0 = dw_low n; n1 = dw_high n in
      if d1 = 0
      then do { (q1, q0, r) \<leftarrow> (if UDIV_NEEDS_NORMALIZATION ops then udivmod_word_norm ops n1 n0 d0 else udivmod_word ops n1 n0 d0);
                Some (dw_ll q1 q0, dw_ll 0 r) }
      else do { (q0, r1, r0) \<leftarrow> udivmod_dword ops n1 n0 d1 d0; Some (dw_ll 0 q0, dw_ll r1 r0) })"

definition divdi3 :: "ll_ops \<Rightarrow> u64 \<Rightarrow> u64 \<Rightarrow> u64 option" where
  "divdi3 ops u v =
     (let c = False;
          (c, u) = (if sint u < 0 then (\<not> c, - u) else (c, u));
          (c, v) = (if sint v < 0 then (\<not> c, - v) else (c, v))
      in do { (w, r) \<leftarrow> udivmoddi4 ops u v; Some (if c then - w else w) })"

definition moddi3 :: "ll_ops \<Rightarrow> u64 \<Rightarrow> u64 \<Rightarrow> u64 option" where
  "moddi3 ops u v =
     (let c = False;
          (c, u) = (if sint u < 0 then (\<not> c, - u) else (c, u));
          v = (if sint v < 0 then - v else v)
      in do { (q, w) \<leftarrow> udivmoddi4 ops u v; Some (if c then - w else w) })"

definition udivdi3 :: "ll_ops \<Rightarrow> u64 \<Rightarrow> u64 \<Rightarrow> u64 option" where
  "udivdi3 ops u v = map_option fst (udivmoddi4 ops u v)"

definition umoddi3 :: "ll_ops \<Rightarrow> u64 \<Rightarrow> u64 \<Rightarrow> u64 option" where
  "umoddi3 ops u v = map_option snd (udivmoddi4 ops u v)"

section \<open>Values of double words\<close>

lemma unat_dw_ll: "unat (dw_ll h l) = unat h * 2 ^ 32 + unat l"
proof -
  have "push_bit 32 (ucast h :: u64) AND ucast l = 0"
    by (rule bit_word_eqI) (auto simp: bit_simps dest: bit_imp_le_length)
  then have "dw_ll h l = push_bit 32 (ucast h) + ucast l"
    unfolding dw_ll_def by (simp add: disjunctive_add_eq_or)
  moreover have "unat (push_bit 32 (ucast h :: u64)) = unat h * 2 ^ 32"
    using unat_bounds(3) [of h] unfolding unsigned_push_bit_eq by (simp add: unsigned_ucast_eq take_bit_eq_mod push_bit_eq_mult)
  ultimately show ?thesis using unat_bounds(3) [of h] unat_bounds(3) [of l]
    by (simp add: unat_word_ariths unsigned_ucast_eq take_bit_eq_mod)
qed

lemma unat_dw_parts: "unat (dw_high x) = unat x div 2 ^ 32" "unat (dw_low x) = unat x mod 2 ^ 32"
  using unat_bounds(4) [of x]
  by (simp_all add: dw_high_def dw_low_def unsigned_ucast_eq take_bit_eq_mod drop_bit_eq_div unat_div)

lemma dw_parts_value: "unat x = unat (dw_high x) * 2 ^ 32 + unat (dw_low x)"
  by (simp add: unat_dw_parts)


section \<open>Shifts\<close>

lemma unat_shl: "unat (push_bit bm (x :: u32)) = unat x * 2 ^ bm mod 2 ^ 32"
  unfolding unsigned_push_bit_eq by (simp add: take_bit_eq_mod push_bit_eq_mult)

lemma unat_shr: "unat (drop_bit b (x :: u32)) = unat x div 2 ^ b"
  unfolding unat_drop_bit_eq by (simp add: drop_bit_eq_div)

lemma unat_shl_or:
  assumes "0 < bm" "bm < 32"
  shows "unat (push_bit bm a OR drop_bit (32 - bm) c :: u32) = unat a * 2 ^ bm mod 2 ^ 32 + unat c div 2 ^ (32 - bm)"
proof -
  have p: "(2 :: nat) ^ 32 = 2 ^ bm * 2 ^ (32 - bm)" using assms by (simp flip: power_add)
  have "push_bit bm a AND drop_bit (32 - bm) c = 0"
    using assms by (intro bit_word_eqI) (auto simp: bit_simps dest: bit_imp_le_length)
  then have "push_bit bm a OR drop_bit (32 - bm) c = push_bit bm a + drop_bit (32 - bm) c" by (simp add: disjunctive_add_eq_or)
  moreover have "unat (push_bit bm a) + unat (drop_bit (32 - bm) c) < 2 ^ 32"
  proof -
    have "unat a * 2 ^ bm mod 2 ^ 32 = 2 ^ bm * (unat a mod 2 ^ (32 - bm))" unfolding p by (metis mult.commute mult_mod_right)
    moreover have "unat a mod 2 ^ (32 - bm) + 1 \<le> 2 ^ (32 - bm)" by (simp add: Suc_leI)
    moreover have "unat c div 2 ^ (32 - bm) < 2 ^ bm"
      using unsigned_less [of c, where ?'a = nat] p by (intro less_mult_imp_div_less) (simp add: mult.commute)
    moreover have "2 ^ bm * (unat a mod 2 ^ (32 - bm)) + 2 ^ bm \<le> 2 ^ bm * 2 ^ (32 - bm)"
      using calculation(2) by (metis add_mult_distrib2 mult.right_neutral mult_le_mono2)
    ultimately show ?thesis unfolding unat_shl unat_shr p by linarith
  qed
  ultimately show ?thesis by (simp add: unat_word_ariths unat_shl unat_shr)
qed

text \<open>Shifting a double word by \<open>bm\<close> bits gives three words with the value times \<open>2 ^ bm\<close>.\<close>

lemma shifted_high:
  assumes "0 < bm" "bm < 32"
  shows "unat x * 2 ^ bm = unat (drop_bit (32 - bm) x :: u32) * 2 ^ 32 + unat x * 2 ^ bm mod 2 ^ 32"
proof -
  have p: "(2 :: nat) ^ 32 = 2 ^ bm * 2 ^ (32 - bm)" using assms by (simp flip: power_add)
  have "unat x * 2 ^ bm div 2 ^ 32 = unat x div 2 ^ (32 - bm)" unfolding p by (simp add: mult.commute [of "unat x"])
  then show ?thesis using div_mult_mod_eq [of "unat x * 2 ^ bm" "2 ^ 32"] by (simp add: unat_shr)
qed

lemma shifted_value:
  assumes "0 < bm" "bm < 32"
  shows "(unat (drop_bit (32 - bm) n1) * 2 ^ 32 + unat (push_bit bm n1 OR drop_bit (32 - bm) n0 :: u32)) * 2 ^ 32 + unat (push_bit bm n0) =
           (unat n1 * 2 ^ 32 + unat n0) * 2 ^ bm"
proof -
  have "(unat n1 * 2 ^ 32 + unat n0) * 2 ^ bm = unat n1 * 2 ^ bm * 2 ^ 32 + unat n0 * 2 ^ bm" by (simp add: algebra_simps)
  also have "\<dots> = (unat (drop_bit (32 - bm) n1) * 2 ^ 32 + unat n1 * 2 ^ bm mod 2 ^ 32) * 2 ^ 32 +
      (unat (drop_bit (32 - bm) n0) * 2 ^ 32 + unat n0 * 2 ^ bm mod 2 ^ 32)"
    using shifted_high [OF assms, of n1] shifted_high [OF assms, of n0] by (metis (no_types))
  also have "\<dots> = (unat (drop_bit (32 - bm) n1) * 2 ^ 32 + unat (push_bit bm n1 OR drop_bit (32 - bm) n0)) * 2 ^ 32 + unat (push_bit bm n0)"
    unfolding unat_shl_or [OF assms] unat_shl by (simp add: unat_shr algebra_simps)
  finally show ?thesis by simp
qed

text \<open>Shifting back: the remainder.\<close>

lemma unshifted_value:
  assumes "0 < bm" "bm < 32"
  shows "unat (drop_bit bm r1) * 2 ^ 32 + unat (push_bit (32 - bm) r1 OR drop_bit bm r0 :: u32) = (unat r1 * 2 ^ 32 + unat r0) div 2 ^ bm"
proof -
  have p: "(2 :: nat) ^ 32 = 2 ^ bm * 2 ^ (32 - bm)" using assms by (simp flip: power_add)
  have c: "0 < 32 - bm" "32 - bm < 32" "32 - (32 - bm) = bm" using assms by auto
  have "unat (drop_bit bm r1) * 2 ^ 32 + unat (push_bit (32 - bm) r1 OR drop_bit bm r0 :: u32) = unat r1 * 2 ^ (32 - bm) + unat r0 div 2 ^ bm"
    using unat_shl_or [OF c(1,2), of r1 r0] shifted_high [OF c(1,2), of r1] by (simp add: c(3))
  also have "\<dots> = (unat r1 * 2 ^ 32 + unat r0) div 2 ^ bm"
    unfolding p using div_mult_self1 [of "2 ^ bm" "unat r0" "unat r1 * 2 ^ (32 - bm)"] by (simp add: ac_simps)
  finally show ?thesis .
qed

lemma dw_ll_bound: "unat (h :: u32) * 2 ^ 32 + unat (l :: u32) < 2 ^ 64"
  using unat_bounds(3) [of h] unat_bounds(3) [of l] by simp

lemma shr_zero:
  assumes "unat (x :: u32) * 2 ^ bm < 2 ^ 32" "bm < 32"
  shows "unat (drop_bit (32 - bm) x) = 0"
proof -
  have p: "(2 :: nat) ^ 32 = 2 ^ (32 - bm) * 2 ^ bm" using assms(2) by (simp flip: power_add)
  have "unat x < 2 ^ (32 - bm)" using assms(1) unfolding p by simp
  then show ?thesis by (simp only: unat_shr div_less)
qed

lemma dw_ll_of_nat: "dw_ll h l = of_nat (unat h * 2 ^ 32 + unat l)"
proof -
  have "unat (of_nat (unat h * 2 ^ 32 + unat l) :: u64) = unat h * 2 ^ 32 + unat l"
    using dw_ll_bound [of h l] by (subst unat_of_nat) simp
  then show ?thesis by (metis unat_dw_ll word_unat_eq_iff)
qed

lemma top_less:
  fixes a :: nat
  assumes "a * k + c = e" "e < f * k"
  shows "a < f"
proof -
  have "a * k < f * k" using assms by linarith
  then show ?thesis by simp
qed

lemma two_digits:
  fixes a :: nat
  assumes "a * k + b = q1 * d + r1" "r1 * k + c = q0 * d + r"
  shows "(a * k + b) * k + c = (q1 * k + q0) * d + r"
  using assms(2) unfolding assms(1) by (simp add: algebra_simps)

text \<open>Undoing the normalisation of a division.\<close>

lemma rem_shift:
  fixes n q d r p :: nat
  assumes "n * p = q * (d * p) + r" "0 < p"
  shows "n = q * d + r div p"
proof -
  have "r = (n - q * d) * p" using assms(1) by (simp add: diff_mult_distrib algebra_simps)
  moreover have "q * d \<le> n" using assms by (metis le_add1 mult.assoc mult_le_cancel2)
  ultimately show ?thesis using assms(2) by simp
qed

text \<open>The estimate of the quotient from the high words is too large by at most one.\<close>

lemma estimate_bound:
  fixes q d1 d0 n bm :: nat
  assumes "q * d1 \<le> n" "n < 2 ^ bm * 2 ^ 32" "2 ^ 31 \<le> d1" "d0 < 2 ^ 32" "bm < 32" "bm = 31 \<Longrightarrow> d0 \<le> 2 ^ 31"
  shows "q * d0 \<le> d1 * 2 ^ 32 + d0"
proof -
  have "2147483648 \<le> d1" "n < 2 ^ bm * 4294967296" using assms(2,3) by simp_all
  then have q: "q < 2 ^ bm * 2" using mult_le_mono2 [of 2147483648 d1 q] assms(1) by linarith
  have d: "2 ^ 31 * 2 ^ 32 \<le> d1 * 2 ^ 32" using assms(3) by simp
  show ?thesis
  proof (cases "bm = 31")
    case True
    have "q * d0 \<le> 2 ^ 32 * 2 ^ 31" using q assms(6) [OF True] True by (intro mult_le_mono) auto
    then show ?thesis using d by simp
  next
    case False
    then have "(2 :: nat) ^ bm \<le> 2 ^ 30" using assms(5) by (intro power_increasing) auto
    then have "q * d0 \<le> 2 ^ 31 * 2 ^ 32" using q assms(4) by (intro mult_le_mono) auto
    then show ?thesis using d by simp
  qed
qed

lemma word_of_uint: "word_of_int (uint (x :: u64)) = x"
  by simp

lemma uint_magnitude: "uint (if sint u < 0 then - u else u) = \<bar>sint (u :: u64)\<bar>"
proof -
  have r: "- (2 ^ 63) \<le> sint u" "sint u < 2 ^ 63" using sint_greater_eq [of u] sint_less [of u] by simp_all
  have u: "uint u = sint u mod 2 ^ 64" by (simp add: uint_sint take_bit_eq_mod)
  have "uint (- u) = - uint u mod 2 ^ 64" by (simp add: uint_word_ariths)
  then have "uint (- u) = - sint u mod 2 ^ 64" unfolding u by (simp only: mod_minus_eq)
  then show ?thesis using r u by auto
qed

section \<open>The interface of the primitives\<close>

text \<open>What the division needs; a set that needs normalisation divides only by words with the highest bit set.\<close>

locale ll_prims =
  fixes ops :: ll_ops
  assumes udiv: "n1 < d \<Longrightarrow> (UDIV_NEEDS_NORMALIZATION ops \<Longrightarrow> 2 ^ 31 \<le> unat d) \<Longrightarrow>
      \<exists>q r. udiv_qrnnd ops n1 n0 d = Some (q, r) \<and> unat n1 * 2 ^ 32 + unat n0 = unat q * unat d + unat r \<and> r < d"
    and umul: "unat (fst (umul_ppmm ops u v)) * 2 ^ 32 + unat (snd (umul_ppmm ops u v)) = unat u * unat v"
    and sub: "dw_ll (fst (sub_ddmmss ops ah al bh bl)) (snd (sub_ddmmss ops ah al bh bl)) = dw_ll ah al - dw_ll bh bl"
    and clz: "x \<noteq> 0 \<Longrightarrow> count_leading_zeros ops x < 32 \<and> 2 ^ 31 \<le> unat x * 2 ^ count_leading_zeros ops x \<and> unat x * 2 ^ count_leading_zeros ops x < 2 ^ 32"
begin

lemma word_correct:
  assumes "d0 \<noteq> 0" "\<not> UDIV_NEEDS_NORMALIZATION ops"
  shows "\<exists>q1 q0 r. udivmod_word ops n1 n0 d0 = Some (q1, q0, r) \<and>
           unat n1 * 2 ^ 32 + unat n0 = (unat q1 * 2 ^ 32 + unat q0) * unat d0 + unat r \<and> r < d0"
proof (cases "d0 > n1")
  case True
  obtain q r where "udiv_qrnnd ops n1 n0 d0 = Some (q, r)" "unat n1 * 2 ^ 32 + unat n0 = unat q * unat d0 + unat r" "r < d0"
    using udiv [OF True, of n0] assms(2) by blast
  then show ?thesis using True by (simp add: udivmod_word_def)
next
  case False
  have "0 < d0" using assms(1) by (simp add: word_gt_0)
  then obtain q1 r1 where 1: "udiv_qrnnd ops 0 n1 d0 = Some (q1, r1)" "unat n1 = unat q1 * unat d0 + unat r1" "r1 < d0"
    using udiv [of 0 d0 n1] assms(2) by auto
  obtain q0 r where 2: "udiv_qrnnd ops r1 n0 d0 = Some (q0, r)" "unat r1 * 2 ^ 32 + unat n0 = unat q0 * unat d0 + unat r" "r < d0"
    using udiv [OF 1(3), of n0] assms(2) by blast
  have "unat n1 * 2 ^ 32 + unat n0 = (unat q1 * 2 ^ 32 + unat q0) * unat d0 + unat r"
    using 1(2) 2(2) by (simp add: algebra_simps)
  then show ?thesis using False assms(1) 1(1) 2(1,3) by (simp add: udivmod_word_def)
qed

lemma word_norm_correct:
  assumes "d0 \<noteq> 0" 
  shows "\<exists>q1 q0 r. udivmod_word_norm ops n1 n0 d0 = Some (q1, q0, r) \<and>
           unat n1 * 2 ^ 32 + unat n0 = (unat q1 * 2 ^ 32 + unat q0) * unat d0 + unat r \<and> unat r < unat d0"
proof -
  define bm where "bm = count_leading_zeros ops d0"
  have bm: "bm < 32" "2 ^ 31 \<le> unat d0 * 2 ^ bm" "unat d0 * 2 ^ bm < 2 ^ 32" using clz [OF assms] by (auto simp: bm_def)
  have d': "unat (push_bit bm d0) = unat d0 * 2 ^ bm" using bm(3) by (simp add: unat_shl)
  have sh: "(unat (drop_bit (32 - bm) n1) * 2 ^ 32 + unat (push_bit bm n1 OR drop_bit (32 - bm) n0)) * 2 ^ 32 + unat (push_bit bm n0) =
           (unat n1 * 2 ^ 32 + unat n0) * 2 ^ bm" if "bm \<noteq> 0" using shifted_value [of bm n1 n0] that bm(1) by simp
  show ?thesis
  proof (cases "d0 > n1")
    case small: True
    show ?thesis
    proof (cases "bm = 0")
      case True
      obtain q r where "udiv_qrnnd ops n1 n0 d0 = Some (q, r)" "unat n1 * 2 ^ 32 + unat n0 = unat q * unat d0 + unat r" "r < d0"
        using udiv [OF small, of n0] bm(2) True by auto
      then show ?thesis using small True by (simp add: udivmod_word_norm_def bm_def [symmetric] word_less_nat_alt)
    next
      case False
      have n1: "unat n1 < unat d0" using small by (simp add: word_less_nat_alt)
      then have "unat n1 * 2 ^ bm \<le> unat d0 * 2 ^ bm" by (intro mult_le_mono1) simp
      then have "unat n1 * 2 ^ bm < 2 ^ 32" using bm(3) by (rule le_less_trans)
      then have z: "unat (drop_bit (32 - bm) n1) = 0" using bm(1) by (rule shr_zero)
      have lt: "push_bit bm n1 OR drop_bit (32 - bm) n0 < push_bit bm d0"
      proof -
        have "unat n1 * 2 ^ 32 + unat n0 < unat d0 * 2 ^ 32" using n1 unat_bounds(3) [of n0] by simp
        then have a: "(unat n1 * 2 ^ 32 + unat n0) * 2 ^ bm < unat d0 * 2 ^ 32 * 2 ^ bm" by simp
        have "unat (push_bit bm n1 OR drop_bit (32 - bm) n0) * 2 ^ 32 + unat (push_bit bm n0) = (unat n1 * 2 ^ 32 + unat n0) * 2 ^ bm"
          using sh [OF False] z by (simp only: mult_zero_left add_0)
        then have "unat (push_bit bm n1 OR drop_bit (32 - bm) n0) < unat d0 * 2 ^ bm"
          by (rule top_less) (use a in \<open>simp only: ac_simps\<close>)
        then show ?thesis by (simp only: word_less_nat_alt d')
      qed
      obtain q r where q: "udiv_qrnnd ops (push_bit bm n1 OR drop_bit (32 - bm) n0) (push_bit bm n0) (push_bit bm d0) = Some (q, r)"
        and e: "(unat n1 * 2 ^ 32 + unat n0) * 2 ^ bm = unat q * (unat d0 * 2 ^ bm) + unat r" and r: "unat r < unat d0 * 2 ^ bm"
        using udiv [OF lt, of "push_bit bm n0"] bm(2) sh [OF False] z d' by (auto simp: word_less_nat_alt)
      have "unat r div 2 ^ bm < unat d0" using r by (simp add: less_mult_imp_div_less)
      then show ?thesis using small False q rem_shift [OF e] by (simp add: udivmod_word_norm_def bm_def [symmetric] unat_shr)
    qed
  next
    case big: False
    show ?thesis
    proof (cases "bm = 0")
      case True
      have ge: "unat d0 \<le> unat n1" "2 ^ 31 \<le> unat d0" using big bm(2) True by (simp_all add: word_le_nat_alt not_less)
      then have v: "unat (n1 - d0) = unat n1 - unat d0" by (simp add: unat_sub word_le_nat_alt)
      have lt: "n1 - d0 < d0" using ge v unat_bounds(3) [of n1] by (simp add: word_less_nat_alt)
      obtain q r where q: "udiv_qrnnd ops (n1 - d0) n0 d0 = Some (q, r)" "(unat n1 - unat d0) * 2 ^ 32 + unat n0 = unat q * unat d0 + unat r" "r < d0"
        using udiv [OF lt, of n0] ge(2) v by auto
      have "unat n1 * 2 ^ 32 + unat n0 = (unat (1 :: u32) * 2 ^ 32 + unat q) * unat d0 + unat r"
        using q(2) ge(1) by (simp add: algebra_simps diff_mult_distrib)
      then show ?thesis using big True assms q(1,3) by (simp add: udivmod_word_norm_def bm_def [symmetric] word_less_nat_alt Let_def)
    next
      case False
      let ?n2 = "drop_bit (32 - bm) n1" and ?n1 = "push_bit bm n1 OR drop_bit (32 - bm) n0" and ?n0 = "push_bit bm n0" and ?d = "push_bit bm d0"
      have "?n2 < ?d"
      proof -
        have p: "(2 :: nat) ^ 32 = 2 ^ bm * 2 ^ (32 - bm)" using bm(1) by (simp flip: power_add)
        have "unat n1 div 2 ^ (32 - bm) < 2 ^ bm" using unsigned_less [of n1, where ?'a = nat] p by (intro less_mult_imp_div_less) simp
        moreover have "(2 :: nat) ^ bm \<le> 2 ^ 31" using bm(1) by (intro power_increasing) auto
        ultimately show ?thesis using bm(2) d' by (simp add: word_less_nat_alt unat_shr)
      qed
      then obtain q1 r1 where 1: "udiv_qrnnd ops ?n2 ?n1 ?d = Some (q1, r1)" "unat ?n2 * 2 ^ 32 + unat ?n1 = unat q1 * unat ?d + unat r1" "r1 < ?d"
        using udiv [of ?n2 ?d ?n1] bm(2) d' by auto
      obtain q0 r where 2: "udiv_qrnnd ops r1 ?n0 ?d = Some (q0, r)" "unat r1 * 2 ^ 32 + unat ?n0 = unat q0 * unat ?d + unat r" "r < ?d"
        using udiv [OF 1(3), of ?n0] bm(2) d' by auto
      have e: "(unat n1 * 2 ^ 32 + unat n0) * 2 ^ bm = (unat q1 * 2 ^ 32 + unat q0) * (unat d0 * 2 ^ bm) + unat r"
        using two_digits [OF 1(2) 2(2)] unfolding sh [OF False] d' .
      have "unat r div 2 ^ bm < unat d0" using 2(3) d' by (intro less_mult_imp_div_less) (simp add: word_less_nat_alt)
      then show ?thesis using big False assms 1(1) 2(1) rem_shift [OF e] by (simp add: udivmod_word_norm_def bm_def [symmetric] unat_shr Let_def)
    qed
  qed
qed

text \<open>The value of a double word that two subtractions of primitives give.\<close>

lemma sub_value:
  assumes "unat bh * 2 ^ 32 + unat bl \<le> unat ah * 2 ^ 32 + unat al" "sub_ddmmss ops ah al bh bl = (rh, rl)"
  shows "unat rh * 2 ^ 32 + unat rl = unat ah * 2 ^ 32 + unat al - (unat bh * 2 ^ 32 + unat bl)"
proof -
  have "dw_ll rh rl = dw_ll ah al - dw_ll bh bl" using sub [of ah al bh bl] assms(2) by simp
  moreover have "dw_ll bh bl \<le> dw_ll ah al" using assms(1) by (simp add: word_le_nat_alt unat_dw_ll)
  ultimately show ?thesis by (metis unat_dw_ll unat_sub)
qed

lemma sub_sub_value:
  assumes "sub_ddmmss ops mh ml dh dl = (m1, m0)" "sub_ddmmss ops ah al m1 m0 = (rh, rl)"
    and le: "unat mh * 2 ^ 32 + unat ml \<le> unat ah * 2 ^ 32 + unat al + (unat dh * 2 ^ 32 + unat dl)"
    and lt: "unat ah * 2 ^ 32 + unat al < unat mh * 2 ^ 32 + unat ml"
  shows "unat rh * 2 ^ 32 + unat rl = unat ah * 2 ^ 32 + unat al + (unat dh * 2 ^ 32 + unat dl) - (unat mh * 2 ^ 32 + unat ml)"
proof -
  let ?a = "unat ah * 2 ^ 32 + unat al" and ?d = "unat dh * 2 ^ 32 + unat dl" and ?m = "unat mh * 2 ^ 32 + unat ml"
  have "dw_ll rh rl = dw_ll ah al - (dw_ll mh ml - dw_ll dh dl)"
    using sub [of mh ml dh dl] sub [of ah al m1 m0] assms(1,2) by simp
  also have "\<dots> = of_nat ?a + of_nat ?d - of_nat ?m" by (simp add: dw_ll_of_nat [of ah al] dw_ll_of_nat [of dh dl] dw_ll_of_nat [of mh ml])
  also have "\<dots> = of_nat (?a + ?d - ?m)" using le by (simp only: of_nat_diff of_nat_add)
  finally have e: "dw_ll rh rl = of_nat (?a + ?d - ?m)" .
  have "?a + ?d - ?m < 2 ^ 64" using lt dw_ll_bound [of dh dl] by linarith
  then have "unat (of_nat (?a + ?d - ?m) :: u64) = ?a + ?d - ?m" by (subst unat_of_nat) simp
  then show ?thesis using e by (metis unat_dw_ll)
qed

lemma dword_shifted:
  assumes nz: "d1 \<noteq> 0" and ge: "\<not> d1 > n1" and ne: "count_leading_zeros ops d1 \<noteq> 0"
  shows "\<exists>q r1 r0. udivmod_dword ops n1 n0 d1 d0 = Some (q, r1, r0) \<and>
           unat n1 * 2 ^ 32 + unat n0 = unat q * (unat d1 * 2 ^ 32 + unat d0) + (unat r1 * 2 ^ 32 + unat r0) \<and>
           unat r1 * 2 ^ 32 + unat r0 < unat d1 * 2 ^ 32 + unat d0"
proof -
  define bm where "bm = count_leading_zeros ops d1"
  have bm: "bm < 32" "2 ^ 31 \<le> unat d1 * 2 ^ bm" "unat d1 * 2 ^ bm < 2 ^ 32" using clz [OF nz] by (auto simp: bm_def)
  define D1 D0 N2 N1 N0 where "D1 = push_bit bm d1 OR drop_bit (32 - bm) d0" and "D0 = push_bit bm d0"
    and "N2 = drop_bit (32 - bm) n1" and "N1 = push_bit bm n1 OR drop_bit (32 - bm) n0" and "N0 = push_bit bm n0"
  have b: "0 < bm" using ne by (simp add: bm_def)
  let ?N = "unat n1 * 2 ^ 32 + unat n0" and ?D = "unat d1 * 2 ^ 32 + unat d0"
  have N: "(unat N2 * 2 ^ 32 + unat N1) * 2 ^ 32 + unat N0 = ?N * 2 ^ bm"
    unfolding N2_def N1_def N0_def by (rule shifted_value [OF b bm(1)])
  have D: "unat D1 * 2 ^ 32 + unat D0 = ?D * 2 ^ bm"
    using shifted_value [OF b bm(1), of d1 d0] shr_zero [OF bm(3,1)] unfolding D1_def D0_def by simp
  have D1: "2 ^ 31 \<le> unat D1" using bm(2,3) unfolding D1_def unat_shl_or [OF b bm(1)] by simp
  have pw: "(2 :: nat) ^ bm \<le> 2 ^ 31" using bm(1) by (intro power_increasing) auto
  have top: "unat N2 * 2 ^ 32 + unat N1 < 2 ^ bm * 2 ^ 32"
  proof -
    have "?N * 2 ^ bm < 2 ^ 64 * 2 ^ bm" using dw_ll_bound [of n1 n0] by (intro mult_strict_right_mono) simp_all
    then have "?N * 2 ^ bm < 2 ^ bm * 2 ^ 32 * 2 ^ 32" by (simp add: ac_simps)
    with N show ?thesis by (rule top_less)
  qed
  then have "unat N2 < 2 ^ bm" by simp
  then have "N2 < D1" using pw D1 by (simp only: word_less_nat_alt)
  then obtain q h where q: "udiv_qrnnd ops N2 N1 D1 = Some (q, h)" "unat N2 * 2 ^ 32 + unat N1 = unat q * unat D1 + unat h" "unat h < unat D1"
    using udiv [of N2 D1 N1] D1 by (auto simp: word_less_nat_alt)
  obtain M1 M0 where m: "umul_ppmm ops q D0 = (M1, M0)" by fastforce
  have M: "unat M1 * 2 ^ 32 + unat M0 = unat q * unat D0" using umul [of q D0] m by simp
  have key: "unat q * unat D0 \<le> unat D1 * 2 ^ 32 + unat D0"
  proof (rule estimate_bound [OF _ top D1 _ bm(1)])
    show "unat q * unat D1 \<le> unat N2 * 2 ^ 32 + unat N1" using q(2) by simp
    show "unat D0 < 2 ^ 32" using unat_bounds(3) [of D0] by simp
    show "unat D0 \<le> 2 ^ 31" if "bm = 31" 
      using mult_mod_left [of "unat d0" 2 "2 ^ 31"] that by (simp add: D0_def unat_shl)
  qed
  have step: "unat q * unat D1 * 2 ^ 32 + (unat h * 2 ^ 32 + unat N0) = ?N * 2 ^ bm"
    using N unfolding q(2) by (simp add: algebra_simps)
  have hi: "unat h * 2 ^ 32 + unat N0 < unat D1 * 2 ^ 32 + unat D0" using q(3) unat_bounds(3) [of N0] by simp
  have res: ?thesis
    if u: "udivmod_dword ops n1 n0 d1 d0 = Some (q', drop_bit bm r1, push_bit (32 - bm) r1 OR drop_bit bm r0)"
      and e: "?N * 2 ^ bm = unat q' * (?D * 2 ^ bm) + (unat r1 * 2 ^ 32 + unat r0)" and l: "unat r1 * 2 ^ 32 + unat r0 < ?D * 2 ^ bm" for q' r1 r0
  proof -
    have "?N = unat q' * ?D + (unat r1 * 2 ^ 32 + unat r0) div 2 ^ bm" using e by (rule rem_shift) simp
    moreover have "(unat r1 * 2 ^ 32 + unat r0) div 2 ^ bm < ?D" using l by (rule less_mult_imp_div_less)
    ultimately show ?thesis using u unshifted_value [OF b bm(1), of r1 r0] by metis
  qed
  show ?thesis
  proof (cases "M1 > h \<or> M1 = h \<and> M0 > N0")
    case True
    have gt: "unat h * 2 ^ 32 + unat N0 < unat M1 * 2 ^ 32 + unat M0"
      using True unat_bounds(3) [of N0] by (auto simp: word_less_nat_alt)
    obtain m1 m0 where s1: "sub_ddmmss ops M1 M0 D1 D0 = (m1, m0)" by fastforce
    obtain r1 r0 where s2: "sub_ddmmss ops h N0 m1 m0 = (r1, r0)" by fastforce
    have "unat M1 * 2 ^ 32 + unat M0 \<le> unat h * 2 ^ 32 + unat N0 + (unat D1 * 2 ^ 32 + unat D0)" using M key by linarith
    note R = sub_sub_value [OF s1 s2 this gt]
    have "unat q \<noteq> 0" using gt unfolding M by (metis mult_0 not_less_zero)
    then have q1: "1 \<le> unat q" by linarith
    then have q2: "unat (q - 1) = unat q - 1" by (intro unat_minus_one) auto
    show ?thesis
    proof (rule res [of "q - 1" r1 r0])
      show "udivmod_dword ops n1 n0 d1 d0 = Some (q - 1, drop_bit bm r1, push_bit (32 - bm) r1 OR drop_bit bm r0)"
        using ge b True by (simp add: udivmod_dword_def bm_def [symmetric] Let_def D1_def [symmetric] D0_def [symmetric] N2_def [symmetric]
            N1_def [symmetric] N0_def [symmetric] q(1) m s1 s2)
      obtain k where k: "unat q = Suc k" using q1 by (metis Suc_le_D One_nat_def)
      have "unat r1 * 2 ^ 32 + unat r0 + unat q * unat D0 = unat h * 2 ^ 32 + unat N0 + (unat D1 * 2 ^ 32 + unat D0)" using R M key by linarith
      then show "?N * 2 ^ bm = unat (q - 1) * (?D * 2 ^ bm) + (unat r1 * 2 ^ 32 + unat r0)"
        unfolding D [symmetric] step [symmetric] q2 k by (simp add: algebra_simps)
      show "unat r1 * 2 ^ 32 + unat r0 < ?D * 2 ^ bm" using R gt M key unfolding D [symmetric] by linarith
    qed
  next
    case False
    have le: "unat M1 * 2 ^ 32 + unat M0 \<le> unat h * 2 ^ 32 + unat N0"
    proof -
      have "unat M1 < unat h \<or> M1 = h \<and> unat M0 \<le> unat N0"
        using False by (auto simp: word_less_nat_alt not_less word_unat_eq_iff le_less)
      then show ?thesis using unat_bounds(3) [of M0] by auto
    qed
    obtain r1 r0 where s: "sub_ddmmss ops h N0 M1 M0 = (r1, r0)" by fastforce
    note R = sub_value [OF le s]
    show ?thesis
    proof (rule res [of q r1 r0])
      show "udivmod_dword ops n1 n0 d1 d0 = Some (q, drop_bit bm r1, push_bit (32 - bm) r1 OR drop_bit bm r0)"
        using ge b False by (auto simp: udivmod_dword_def bm_def [symmetric] Let_def D1_def [symmetric] D0_def [symmetric] N2_def [symmetric]
            N1_def [symmetric] N0_def [symmetric] q(1) m s)
      show "?N * 2 ^ bm = unat q * (?D * 2 ^ bm) + (unat r1 * 2 ^ 32 + unat r0)"
        using step R le M unfolding D [symmetric] by (simp add: algebra_simps)
      show "unat r1 * 2 ^ 32 + unat r0 < ?D * 2 ^ bm" using R hi unfolding D [symmetric] by linarith
    qed
  qed
qed

lemma dword_correct:
  assumes "d1 \<noteq> 0"
  shows "\<exists>q r1 r0. udivmod_dword ops n1 n0 d1 d0 = Some (q, r1, r0) \<and>
           unat n1 * 2 ^ 32 + unat n0 = unat q * (unat d1 * 2 ^ 32 + unat d0) + (unat r1 * 2 ^ 32 + unat r0) \<and>
           unat r1 * 2 ^ 32 + unat r0 < unat d1 * 2 ^ 32 + unat d0"
proof -
  define bm where "bm = count_leading_zeros ops d1"
  have bm: "bm < 32" "2 ^ 31 \<le> unat d1 * 2 ^ bm" "unat d1 * 2 ^ bm < 2 ^ 32" using clz [OF assms] by (auto simp: bm_def)
  consider "d1 > n1" | "\<not> d1 > n1" "bm = 0" | "\<not> d1 > n1" "bm \<noteq> 0" by blast
  then show ?thesis
  proof cases
    case 1
    then have "unat n1 < unat d1" by (simp add: word_less_nat_alt)
    then have "unat n1 * 2 ^ 32 + unat n0 < unat d1 * 2 ^ 32 + unat d0" using unat_bounds(3) [of n0] by simp
    then show ?thesis using 1 by (simp add: udivmod_dword_def)
  next
    case 2
    have ge: "unat d1 \<le> unat n1" "2 ^ 31 \<le> unat d1" using 2 bm(2) by (simp_all add: word_le_nat_alt not_less)
    show ?thesis
    proof (cases "n1 > d1 \<or> n0 \<ge> d0")
      case True
      obtain r1 r0 where s: "sub_ddmmss ops n1 n0 d1 d0 = (r1, r0)" by fastforce
      have le: "unat d1 * 2 ^ 32 + unat d0 \<le> unat n1 * 2 ^ 32 + unat n0"
        using True ge(1) unat_bounds(3) [of d0] by (auto simp: word_less_nat_alt word_le_nat_alt)
      have "unat n1 * 2 ^ 32 + unat n0 < 2 * (unat d1 * 2 ^ 32 + unat d0)" using ge(2) dw_ll_bound [of n1 n0] by simp
      then show ?thesis using 2 True s sub_value [OF le s] le by (simp add: udivmod_dword_def bm_def [symmetric])
    next
      case False
      then have "unat n1 * 2 ^ 32 + unat n0 < unat d1 * 2 ^ 32 + unat d0" using ge(1) by (auto simp: word_less_nat_alt word_le_nat_alt)
      moreover have "udivmod_dword ops n1 n0 d1 d0 = Some (0, n1, n0)"
        unfolding udivmod_dword_def bm_def [symmetric] Let_def by (subst if_not_P [OF 2(1)], subst if_P [OF 2(2)], subst if_not_P [OF False]) (rule refl)
      ultimately show ?thesis by simp
    qed
  next
    case 3
    then show ?thesis using assms by (intro dword_shifted) (simp_all add: bm_def)
  qed
qed

lemma correct: "udivmoddi4 ops n d = (if d = 0 then None else Some (n div d, n mod d))"
proof -
  have result: "q = n div d \<and> r = n mod d" if "unat n = unat q * unat d + unat r" "unat r < unat d" for q r
    using that by (simp add: word_unat_eq_iff unat_div unat_mod)
  have nv: "unat (dw_high n) * 2 ^ 32 + unat (dw_low n) = unat n" and dv: "unat (dw_high d) * 2 ^ 32 + unat (dw_low d) = unat d"
    using dw_parts_value [of n] dw_parts_value [of d] by simp_all
  consider "d = 0" | "dw_high d = 0" "dw_low d \<noteq> 0" | "dw_high d \<noteq> 0"
    using dv by (metis add_0 mult_0 unat_eq_zero unsigned_0)
  then show ?thesis
  proof cases
    case 1
    then show ?thesis by (simp add: udivmoddi4_def Let_def dw_high_def dw_low_def udivmod_word_def udivmod_word_norm_def)
  next
    case 2
    have "\<exists>q1 q0 r. (if UDIV_NEEDS_NORMALIZATION ops then udivmod_word_norm ops (dw_high n) (dw_low n) (dw_low d)
          else udivmod_word ops (dw_high n) (dw_low n) (dw_low d)) = Some (q1, q0, r) \<and>
        unat (dw_high n) * 2 ^ 32 + unat (dw_low n) = (unat q1 * 2 ^ 32 + unat q0) * unat (dw_low d) + unat r \<and> unat r < unat (dw_low d)"
      using word_correct [OF 2(2), of "dw_high n" "dw_low n"] word_norm_correct [OF 2(2), of "dw_high n" "dw_low n"]
      by (simp add: word_less_nat_alt)
    then obtain q1 q0 r where w: "(if UDIV_NEEDS_NORMALIZATION ops then udivmod_word_norm ops (dw_high n) (dw_low n) (dw_low d)
          else udivmod_word ops (dw_high n) (dw_low n) (dw_low d)) = Some (q1, q0, r)"
        and e: "unat n = unat (dw_ll q1 q0) * unat d + unat (dw_ll 0 r)" "unat (dw_ll 0 r) < unat d"
      using dv 2(1) unfolding nv unat_dw_ll by auto
    have "d \<noteq> 0" using 2 by (auto simp: dw_low_def)
    moreover have "udivmoddi4 ops n d = Some (dw_ll q1 q0, dw_ll 0 r)" using 2(1) w by (simp add: udivmoddi4_def)
    ultimately show ?thesis using result [OF e] by simp
  next
    case 3
    obtain q r1 r0 where w: "udivmod_dword ops (dw_high n) (dw_low n) (dw_high d) (dw_low d) = Some (q, r1, r0)"
      and e: "unat n = unat (dw_ll 0 q) * unat d + unat (dw_ll r1 r0)" "unat (dw_ll r1 r0) < unat d"
      using dword_correct [OF 3, of "dw_high n" "dw_low n" "dw_low d"] unfolding nv dv unat_dw_ll by auto
    have "d \<noteq> 0" using 3 by (auto simp: dw_high_def)
    then show ?thesis using 3 w result [OF e] by (simp add: udivmoddi4_def)
  qed
qed

lemma signed_correct:
  "divdi3 ops u v = (if v = 0 then None else Some (word_of_int (sint u sdiv sint v)))"
  "moddi3 ops u v = (if v = 0 then None else Some (word_of_int (sint u smod sint v)))"
proof -
  define a b where "a = (if sint u < 0 then - u else u)" and "b = (if sint v < 0 then - v else v)"
  have ab: "uint a = \<bar>sint u\<bar>" "uint b = \<bar>sint v\<bar>" by (simp_all add: a_def b_def uint_magnitude del: if_weak_cong)
  then have w: "a div b = word_of_int (\<bar>sint u\<bar> div \<bar>sint v\<bar>)" "a mod b = word_of_int (\<bar>sint u\<bar> mod \<bar>sint v\<bar>)"
    using word_of_uint [of "a div b"] word_of_uint [of "a mod b"] by (simp_all only: uint_div uint_mod)
  have z: "b = 0 \<longleftrightarrow> v = 0" by (simp add: b_def)
  show "divdi3 ops u v = (if v = 0 then None else Some (word_of_int (sint u sdiv sint v)))"
    using w(1) z unfolding a_def b_def by (auto simp: divdi3_def correct signed_divide_int_def sgn_if)
  show "moddi3 ops u v = (if v = 0 then None else Some (word_of_int (sint u smod sint v)))"
    using w(2) z unfolding a_def b_def by (auto simp: moddi3_def correct signed_modulo_int_def sgn_if)
qed

end

section \<open>The instructions meet the interface\<close>

lemma bsrl_from_le: "bsrl_from n x \<le> n"
  by (induction n) (auto simp: le_Suc_eq)

lemma bsrl_from_bit: "\<exists>k \<le> n. bit x k \<Longrightarrow> bit x (bsrl_from n x) \<and> (\<forall>k \<le> n. bit x k \<longrightarrow> k \<le> bsrl_from n x)"
proof (induction n)
  case (Suc n)
  then show ?case by (cases "bit x (Suc n)") (auto simp: le_Suc_eq)
qed simp

lemma bsrl_value:
  assumes "x \<noteq> 0"
  shows "bsrl x \<le> 31 \<and> 2 ^ bsrl x \<le> unat x \<and> unat x < 2 ^ (bsrl x + 1)"
proof -
  obtain k where "bit x k" using assms by (metis bit_0_eq bit_eq_iff bot_apply bot_bool_def)
  moreover from this have "k \<le> 31" using bit_imp_le_length [of x k] by simp
  ultimately have b: "bit x (bsrl x)" "\<forall>k \<le> 31. bit x k \<longrightarrow> k \<le> bsrl x" using bsrl_from_bit [of 31 x] by (auto simp: bsrl_def)
  have top: "k \<le> bsrl x" if "bit x k" for k using that b(2) bit_imp_le_length [OF that] by simp
  have "odd (unat x div 2 ^ bsrl x)" using b(1) bit_iff_odd [of "unat x" "bsrl x"] by (simp add: bit_unsigned_iff)
  then have "2 ^ bsrl x \<le> unat x" by (metis div_less even_zero not_le)
  moreover have "drop_bit (bsrl x + 1) (unat x) = 0"
    by (intro bit_eqI) (auto simp: bit_simps dest: top)
  then have "unat x < 2 ^ (bsrl x + 1)" by (simp only: drop_bit_eq_div div_eq_0_iff) auto
  ultimately show ?thesis using bsrl_from_le by (simp add: bsrl_def)
qed

lemma clz_law:
  assumes "2 ^ k \<le> (x :: nat)" "x < 2 ^ (k + 1)" "k \<le> 31"
  shows "2 ^ 31 \<le> x * 2 ^ (31 - k) \<and> x * 2 ^ (31 - k) < 2 ^ 32"
proof -
  have p: "(2 :: nat) ^ 31 = 2 ^ k * 2 ^ (31 - k)" "(2 :: nat) ^ 32 = 2 ^ (k + 1) * 2 ^ (31 - k)" using assms(3) by (simp_all flip: power_add)
  show ?thesis unfolding p using assms(1,2) by simp
qed

lemma clz_bsrl_value: "k \<le> 31 \<Longrightarrow> unat ((of_nat k :: u32) XOR 31) = 31 - k"
proof -
  assume "k \<le> 31"
  then have "0 \<le> k \<and> k < 32" by linarith
  then have "k \<in> set [0..<32]" by (simp only: set_upt atLeastLessThan_iff)
  then show ?thesis by (auto simp: upt_rec)
qed


lemma divl_law:
  assumes "n1 < d"
  shows "\<exists>q r. divl n1 n0 d = Some (q, r) \<and> unat n1 * 2 ^ 32 + unat n0 = unat q * unat d + unat r \<and> r < d"
proof -
  let ?n = "unat n1 * 2 ^ 32 + unat n0"
  have d: "unat n1 < unat d" "d \<noteq> 0" using assms by (auto simp: word_less_nat_alt)
  have ud: "unat (ucast d :: u64) = unat d" using unat_bounds(3) [of d] by (simp add: unsigned_ucast_eq take_bit_eq_mod)
  have lt: "?n div unat d < 2 ^ 32" using d(1) unat_bounds(3) [of n0] by (intro less_mult_imp_div_less) simp
  have q: "unat (dw_ll n1 n0 div ucast d) = ?n div unat d" and r: "unat (dw_ll n1 n0 mod ucast d) = ?n mod unat d"
    by (simp_all only: unat_div unat_mod unat_dw_ll ud)
  have rl: "?n mod unat d < unat d" using d(1) by simp
  then have "unat (ucast (dw_ll n1 n0 div ucast d) :: u32) = ?n div unat d" "unat (ucast (dw_ll n1 n0 mod ucast d) :: u32) = ?n mod unat d"
    using lt q r unat_bounds(3) [of d] by (simp_all add: unsigned_ucast_eq take_bit_eq_mod)
  moreover have "\<not> dw_ll n1 n0 div ucast d > 0xFFFFFFFF" using lt q by (simp add: word_less_nat_alt not_less)
  ultimately show ?thesis using d(2) rl by (simp add: divl_def Let_def word_less_nat_alt)
qed

lemma mull_law: "unat (fst (mull u v)) * 2 ^ 32 + unat (snd (mull u v)) = unat u * unat v"
proof -
  have "unat u * unat v < 2 ^ 32 * 2 ^ 32" using unat_bounds(3) [of u] unat_bounds(3) [of v] by (intro mult_strict_mono') simp_all
  then have "unat (ucast u * ucast v :: u64) = unat u * unat v"
    using unat_bounds(3) [of u] unat_bounds(3) [of v] by (simp add: unat_word_ariths unsigned_ucast_eq take_bit_eq_mod)
  then show ?thesis using dw_parts_value [of "ucast u * ucast v"] by (simp add: mull_def Let_def)
qed

lemma uint_wrap: "\<exists>k. uint (word_of_int x :: u32) = x + k * 2 ^ 32"
proof -
  have "uint (word_of_int x :: u32) = x mod 2 ^ 32" by (simp add: unsigned_of_int take_bit_eq_mod)
  then have "uint (word_of_int x :: u32) = x + - (x div 2 ^ 32) * 2 ^ 32" by (simp add: minus_div_mult_eq_mod [symmetric])
  then show ?thesis by blast
qed

lemma dw_ll_of_int: "dw_ll h l = word_of_int (uint h * 2 ^ 32 + uint l)"
proof -
  have "uint h * 2 ^ 32 + uint l = int (unat h * 2 ^ 32 + unat l)" by simp
  then show ?thesis unfolding dw_ll_of_nat by (simp only: of_int_of_nat_eq)
qed

lemma word_of_int_wrap: "(word_of_int (x + k * 2 ^ 64) :: u64) = word_of_int x"
proof -
  have "uint (word_of_int (x + k * 2 ^ 64) :: u64) = uint (word_of_int x :: u64)"
    unfolding unsigned_of_int take_bit_eq_mod by simp
  then show ?thesis by (simp only: word_uint_eq_iff)
qed

lemma sub_law: "dw_ll (fst (subl_sbbl ah al bh bl)) (snd (subl_sbbl ah al bh bl)) = dw_ll ah al - dw_ll bh bl"
proof -
  define c :: int where "c = (if al < bl then 1 else 0)"
  have "ah - bh - (if al < bl then 1 else 0) = word_of_int (uint ah - uint bh - c)" by (simp add: c_def)
  then obtain k where h: "uint (ah - bh - (if al < bl then 1 else 0)) = uint ah - uint bh - c + k * 2 ^ 32" using uint_wrap by metis
  have l: "uint (al - bl) = uint al - uint bl + c * 2 ^ 32" by (simp add: uint_sub_if' word_less_def c_def word_le_def)
  have "dw_ll (ah - bh - (if al < bl then 1 else 0)) (al - bl) = word_of_int (uint ah * 2 ^ 32 + uint al - (uint bh * 2 ^ 32 + uint bl) + k * 2 ^ 64)"
    unfolding dw_ll_of_int h l by (rule arg_cong [of _ _ word_of_int]) (simp add: algebra_simps)
  also have "\<dots> = dw_ll ah al - dw_ll bh bl" unfolding word_of_int_wrap dw_ll_of_int by simp
  finally show ?thesis by (simp add: subl_sbbl_def)
qed

interpretation i386: ll_prims i386_ops
proof
  show "\<exists>q r. udiv_qrnnd i386_ops n1 n0 d = Some (q, r) \<and> unat n1 * 2 ^ 32 + unat n0 = unat q * unat d + unat r \<and> r < d" if "n1 < d" for n1 n0 d
    using divl_law [OF that] by (simp add: i386_ops_def)
  show "unat (fst (umul_ppmm i386_ops u v)) * 2 ^ 32 + unat (snd (umul_ppmm i386_ops u v)) = unat u * unat v" for u v
    using mull_law [of u v] by (simp add: i386_ops_def)
  show "dw_ll (fst (sub_ddmmss i386_ops ah al bh bl)) (snd (sub_ddmmss i386_ops ah al bh bl)) = dw_ll ah al - dw_ll bh bl" for ah al bh bl
    using sub_law [of ah al bh bl] by (simp add: i386_ops_def)
  show "count_leading_zeros i386_ops x < 32 \<and> 2 ^ 31 \<le> unat x * 2 ^ count_leading_zeros i386_ops x \<and> unat x * 2 ^ count_leading_zeros i386_ops x < 2 ^ 32"
    if "x \<noteq> 0" for x
    using bsrl_value [OF that] clz_law [of "bsrl x" "unat x"] clz_bsrl_value [of "bsrl x"] by (simp add: i386_ops_def clz_bsrl_def)
qed


section \<open>The macros meet the interface\<close>

lemma unat_parts: "unat (ll_highpart x) = unat x div 2 ^ 16" "unat (ll_lowpart x) = unat x mod 2 ^ 16"
proof -
  show "unat (ll_highpart x) = unat x div 2 ^ 16" unfolding ll_highpart_def by (rule unat_shr)
  have "x AND 0xFFFF = take_bit 16 x" by (simp add: take_bit_eq_mask mask_eq_exp_minus_1)
  then show "unat (ll_lowpart x) = unat x mod 2 ^ 16" by (simp add: ll_lowpart_def take_bit_eq_mod unat_mod)
qed

lemma unat_add_less: "unat (a :: u32) + unat b < 2 ^ 32 \<Longrightarrow> unat (a + b) = unat a + unat b"
  by (simp add: unat_word_ariths)

lemma unat_mult_less: "unat (a :: u32) * unat b < 2 ^ 32 \<Longrightarrow> unat (a * b) = unat a * unat b"
  by (simp add: unat_word_ariths)

lemma join_halves:
  assumes "unat a < 2 ^ 16" "unat b < 2 ^ 16"
  shows "unat (a * ll_B OR b) = unat a * 2 ^ 16 + unat b"
proof -
  have m: "a * ll_B = push_bit 16 a" by (simp add: ll_B_def push_bit_eq_mult)
  have "\<not> bit b n" if "n \<ge> 16" for n
  proof -
    have "unat b < 2 ^ n" using assms(2) power_increasing [OF that, of "2 :: nat"] by linarith
    then have "\<not> bit (unat b) n" by (simp add: bit_iff_odd)
    then show ?thesis by (simp add: bit_unsigned_iff)
  qed
  then have "push_bit 16 a AND b = 0" by (intro bit_word_eqI) (auto simp: bit_simps)
  then have "a * ll_B OR b = push_bit 16 a + b" unfolding m by (simp add: disjunctive_add_eq_or)
  moreover have "unat (push_bit 16 a) = unat a * 2 ^ 16" using assms(1) by (simp add: unat_shl)
  ultimately show ?thesis using assms by (simp add: unat_word_ariths)
qed

lemma half_mult: "a < 2 ^ 16 \<Longrightarrow> b < 2 ^ 16 \<Longrightarrow> a * b \<le> (2 ^ 16 - 1) * (2 ^ 16 - 1 :: nat)"
  by (intro mult_le_mono) auto

lemma umul_c_law: "unat (fst (umul_ppmm_c u v)) * 2 ^ 32 + unat (snd (umul_ppmm_c u v)) = unat u * unat v"
proof -
  define x0 x1 x2 x3 where "x0 = ll_lowpart u * ll_lowpart v" and "x1 = ll_lowpart u * ll_highpart v"
    and "x2 = ll_highpart u * ll_lowpart v" and "x3 = ll_highpart u * ll_highpart v"
  have half: "unat (ll_lowpart x) < 2 ^ 16" "unat (ll_highpart x) < 2 ^ 16" for x
    using unat_bounds(3) [of x] by (simp_all add: unat_parts less_mult_imp_div_less)
  have prod: "unat (a * b) = unat a * unat b \<and> unat a * unat b \<le> (2 ^ 16 - 1) * (2 ^ 16 - 1)" if "unat a < 2 ^ 16" "unat b < 2 ^ 16" for a b :: u32
    using half_mult [OF that] by (simp add: unat_mult_less)
  note p0 = prod [OF half(1) half(1), of u v, folded x0_def] and p1 = prod [OF half(1) half(2), of u v, folded x1_def]
    and p2 = prod [OF half(2) half(1), of u v, folded x2_def] and p3 = prod [OF half(2) half(2), of u v, folded x3_def]
  have split: "unat x = unat (ll_highpart x) * 2 ^ 16 + unat (ll_lowpart x)" for x by (simp add: unat_parts)
  have uv: "unat u * unat v = unat x3 * 2 ^ 32 + (unat x1 + unat x2) * 2 ^ 16 + unat x0"
    unfolding split [of u] split [of v] p0 [THEN conjunct1] p1 [THEN conjunct1] p2 [THEN conjunct1] p3 [THEN conjunct1] by (simp add: algebra_simps)
  define y where "y = x1 + ll_highpart x0"
  have y: "unat y = unat x1 + unat (ll_highpart x0)"
    unfolding y_def using p1 half(2) [of x0] by (intro unat_add_less) simp
  define c :: nat where "c = (if y + x2 < x2 then 1 else 0)"
  have carry: "unat y + unat x2 = c * 2 ^ 32 + unat (y + x2)"
    using unat_bounds(3) [of y] unat_bounds(3) [of x2] by (auto simp: c_def unat_plus_if' word_less_nat_alt)
  have total: "unat u * unat v = (unat x3 + c * 2 ^ 16 + unat (ll_highpart (y + x2))) * 2 ^ 32 + (unat (ll_lowpart (y + x2)) * 2 ^ 16 + unat (ll_lowpart x0))"
    using uv y carry split [of "y + x2"] split [of x0] by (simp add: algebra_simps)
  have "unat u * unat v < 2 ^ 32 * 2 ^ 32" using unat_bounds(3) [of u] unat_bounds(3) [of v] by (intro mult_strict_mono') simp_all
  then have hi: "unat x3 + c * 2 ^ 16 + unat (ll_highpart (y + x2)) < 2 ^ 32" by (rule top_less [OF total [symmetric]])
  have "fst (umul_ppmm_c u v) = (if y + x2 < x2 then x3 + ll_B else x3) + ll_highpart (y + x2)"
    and lo: "snd (umul_ppmm_c u v) = ll_lowpart (y + x2) * ll_B + ll_lowpart x0"
    by (simp_all add: umul_ppmm_c_def Let_def x0_def x1_def x2_def x3_def y_def)
  then have "unat (fst (umul_ppmm_c u v)) = unat x3 + c * 2 ^ 16 + unat (ll_highpart (y + x2))"
    using hi by (simp add: c_def ll_B_def unat_add_less split: if_splits)
  moreover have "unat (snd (umul_ppmm_c u v)) = unat (ll_lowpart (y + x2)) * 2 ^ 16 + unat (ll_lowpart x0)"
    unfolding lo using half(1) [of "y + x2"] half(1) [of x0] by (simp add: ll_B_def unat_add_less unat_mult_less)
  ultimately show ?thesis unfolding total by simp
qed

lemma unat_of_nat_less: "n < 2 ^ 32 \<Longrightarrow> unat (of_nat n :: u32) = n"
  by (simp add: unat_of_nat)

text \<open>The estimate of a digit is corrected at most twice; the sums and differences wrap around.\<close>

lemma qrnnd_fixup:
  fixes Q mw rw d :: u32
  assumes Q: "unat Q = q" and M: "unat mw = m" and R: "unat rw = R" and d: "2 ^ 31 \<le> unat d" and lt: "R < m"
    and x: "x + m = q * unat d + R" and one: "q = 1 \<Longrightarrow> m \<le> unat d"
  shows "\<exists>q' k. (if rw + d \<ge> d \<and> rw + d < mw then (Q - 1 - 1, rw + d + d - mw) else (Q - 1, rw + d - mw)) = (q', of_nat k) \<and>
           x = unat q' * unat d + k \<and> k < unat d"
proof -
  have m: "m < 2 ^ 32" using unat_bounds(3) [of mw] M by simp
  have ow: "rw = of_nat R" "mw = of_nat m" by (simp_all add: R [symmetric] M [symmetric])
  have "q \<noteq> 0" using x lt by (metis add_0 add_lessD1 mult_0 not_less_iff_gr_or_eq add.commute trans_less_add1)
  then obtain j where j: "q = Suc j" by (cases q) auto
  have Q1: "unat (Q - 1) = j" using Q j by (subst unat_minus_one) auto
  show ?thesis
  proof (cases "rw + d \<ge> d \<and> rw + d < mw")
    case False
    have ge: "m \<le> R + unat d"
    proof (cases "R + unat d < 2 ^ 32")
      case True
      then have "unat (rw + d) = R + unat d" by (simp add: unat_add_less R)
      then show ?thesis using False by (simp add: word_le_nat_alt word_less_nat_alt M)
    qed (use m in linarith)
    then have "rw + d - mw = of_nat (R + unat d - m)" unfolding ow by (subst of_nat_diff) simp_all
    moreover have "R + unat d - m < unat d" using lt ge by linarith
    moreover have "x = j * unat d + (R + unat d - m)" using x ge unfolding j by (simp only: mult_Suc)
    ultimately show ?thesis using False Q1 by auto
  next
    case True
    have "R + unat d < 2 ^ 32"
    proof (rule ccontr)
      assume n: "\<not> R + unat d < 2 ^ 32"
      then have "unat (rw + d) = R + unat d - 2 ^ 32" using unat_bounds(3) [of rw] by (simp add: unat_plus_if' R)
      then have "unat (rw + d) < unat d" using n unat_bounds(3) [of rw] R by simp
      then show False using True by (simp add: word_le_nat_alt)
    qed
    then have "unat (rw + d) = R + unat d" by (simp add: unat_add_less R)
    then have lt2: "R + unat d < m" using True by (simp add: word_less_nat_alt M)
    then have "j \<noteq> 0" using one j by auto
    then obtain i where i: "j = Suc i" by (cases j) auto
    have Q2: "unat (Q - 1 - 1) = i" using Q1 i by (subst unat_minus_one) auto
    have ge: "m \<le> R + (unat d + unat d)" using m d by simp
    then have "rw + d + d - mw = of_nat (R + (unat d + unat d) - m)" unfolding ow by (subst of_nat_diff) simp_all
    moreover have "R + (unat d + unat d) - m < unat d" using lt2 ge by linarith
    moreover have "x = i * unat d + (R + (unat d + unat d) - m)" using x ge unfolding j i by (simp only: mult_Suc)
    ultimately show ?thesis using True Q2 by auto
  qed
qed

lemma qrnnd_digit_law:
  assumes "n1 < d" "2 ^ 31 \<le> unat d" "unat nh < 2 ^ 16"
  shows "\<exists>q r. qrnnd_digit n1 nh d = Some (q, r) \<and> unat n1 * 2 ^ 16 + unat nh = unat q * unat d + unat r \<and> r < d"
proof -
  define d1 d0 q r where "d1 = unat d div 2 ^ 16" and "d0 = unat d mod 2 ^ 16" and "q = unat n1 div d1" and "r = unat n1 mod d1"
  have d: "unat d = d1 * 2 ^ 16 + d0" "d0 < 2 ^ 16" "2 ^ 15 \<le> d1" "d1 < 2 ^ 16"
    using assms(2) unat_bounds(3) [of d] by (simp_all add: d1_def d0_def less_mult_imp_div_less)
  have n: "unat n1 = q * d1 + r" "r < d1" using d(3) by (simp_all add: q_def r_def)
  have n1: "unat n1 < unat d" using assms(1) by (simp add: word_less_nat_alt)
  have q: "q \<le> 2 ^ 16 + 1"
  proof (rule ccontr)
    assume "\<not> q \<le> 2 ^ 16 + 1"
    then have "2 ^ 16 + 2 \<le> q" by simp
    then have "(2 ^ 16 + 2) * d1 \<le> q * d1" by (rule mult_le_mono1)
    then have "65538 * d1 \<le> q * d1" by (simp only: power_numeral_even) simp
    moreover have "d0 < 65536" "32768 \<le> d1" "unat d = d1 * 65536 + d0" using d by simp_all
    ultimately show False using n n1 by linarith
  qed
  have m: "q * d0 < 2 ^ 32"
  proof -
    have "q * d0 \<le> (2 ^ 16 + 1) * (2 ^ 16 - 1)" using q d(2) by (intro mult_le_mono) auto
    then show ?thesis by simp
  qed
  define R where "R = r * 2 ^ 16 + unat nh"
  have x: "unat n1 * 2 ^ 16 + unat nh + q * d0 = q * unat d + R" unfolding R_def n(1) d(1) by (simp add: algebra_simps)
  have R: "R < d1 * 2 ^ 16" using n(2) assms(3) by (simp add: R_def)
  define Q rw mw where "Q = n1 div ll_highpart d" and "rw = (n1 mod ll_highpart d) * ll_B OR nh" and "mw = Q * ll_lowpart d"
  have uQ: "unat Q = q" by (simp add: Q_def q_def d1_def unat_div unat_parts)
  have um: "unat mw = q * d0" using m unfolding mw_def by (subst unat_mult_less) (simp_all add: uQ unat_parts d0_def)
  have "unat (n1 mod ll_highpart d) = r" by (simp add: r_def d1_def unat_mod unat_parts)
  then have ur: "unat rw = R" unfolding rw_def R_def using n(2) d(4) assms(3) by (subst join_halves) simp_all
  have dig: "qrnnd_digit n1 nh d =
      Some (if rw < mw then (if rw + d \<ge> d \<and> rw + d < mw then (Q - 1 - 1, rw + d + d - mw) else (Q - 1, rw + d - mw)) else (Q, rw - mw))"
  proof -
    have "ll_highpart d \<noteq> 0" using d(3) by (metis d1_def not_less unat_eq_zero unat_parts(1) zero_less_numeral zero_less_power)
    then show ?thesis by (simp add: qrnnd_digit_def Let_def Q_def [symmetric] rw_def [symmetric] mw_def [symmetric])
  qed
  have res: ?thesis if "qrnnd_digit n1 nh d = Some (q', of_nat k)" "unat n1 * 2 ^ 16 + unat nh = unat q' * unat d + k" "k < unat d" for q' k
  proof -
    have "k < 2 ^ 32" using that(3) unat_bounds(3) [of d] by simp
    then show ?thesis using that by (simp add: unat_of_nat_less word_less_nat_alt)
  qed
  show ?thesis
  proof (cases "rw < mw")
    case False
    then have le: "q * d0 \<le> R" by (simp add: word_less_nat_alt ur um)
    have "rw = of_nat R" "mw = of_nat (q * d0)" by (simp_all add: ur [symmetric] um [symmetric] del: of_nat_mult)
    then have "rw - mw = of_nat (R - q * d0)" using le by (simp only: of_nat_diff)
    moreover have "R - q * d0 < unat d" using R d(1) by linarith
    ultimately show ?thesis using False x le dig uQ by (intro res [of Q]) simp_all
  next
    case True
    then have "R < q * d0" by (simp add: word_less_nat_alt ur um)
    then obtain q' k where f: "(if rw + d \<ge> d \<and> rw + d < mw then (Q - 1 - 1, rw + d + d - mw) else (Q - 1, rw + d - mw)) = (q', of_nat k)"
        "unat n1 * 2 ^ 16 + unat nh = unat q' * unat d + k" "k < unat d"
      using qrnnd_fixup [OF uQ um ur assms(2) _ x] d(1) by auto
    have "qrnnd_digit n1 nh d = Some (q', of_nat k)" unfolding dig if_P [OF True] f(1) ..
    then show ?thesis using f(2,3) by (rule res)
  qed
qed

lemma udiv_c_law:
  assumes "n1 < d" "2 ^ 31 \<le> unat d"
  shows "\<exists>q r. udiv_qrnnd_c n1 n0 d = Some (q, r) \<and> unat n1 * 2 ^ 32 + unat n0 = unat q * unat d + unat r \<and> r < d"
proof -
  have half: "unat (ll_lowpart x) < 2 ^ 16" "unat (ll_highpart x) < 2 ^ 16" for x
    using unat_bounds(3) [of x] by (simp_all add: unat_parts less_mult_imp_div_less)
  have digit_less: "unat q < 2 ^ 16" if "unat a * 2 ^ 16 + unat b = unat q * unat d + unat r" "a < d" "unat b < 2 ^ 16" for a b q r :: u32
  proof -
    have "unat a * 2 ^ 16 + unat b < 2 ^ 16 * unat d" using that(2,3) by (simp add: word_less_nat_alt)
    then show ?thesis by (rule top_less [OF that(1) [symmetric]])
  qed
  obtain q1 r1 where 1: "qrnnd_digit n1 (ll_highpart n0) d = Some (q1, r1)" "unat n1 * 2 ^ 16 + unat (ll_highpart n0) = unat q1 * unat d + unat r1" "r1 < d"
    using qrnnd_digit_law [OF assms half(2)] by blast
  obtain q0 r where 2: "qrnnd_digit r1 (ll_lowpart n0) d = Some (q0, r)" "unat r1 * 2 ^ 16 + unat (ll_lowpart n0) = unat q0 * unat d + unat r" "r < d"
    using qrnnd_digit_law [OF 1(3) assms(2) half(1)] by blast
  have "unat (q1 * ll_B OR q0) = unat q1 * 2 ^ 16 + unat q0"
    by (rule join_halves) (rule digit_less [OF 1(2) assms(1) half(2)], rule digit_less [OF 2(2) 1(3) half(1)])
  moreover have "(unat n1 * 2 ^ 16 + unat (ll_highpart n0)) * 2 ^ 16 + unat (ll_lowpart n0) = unat n1 * 2 ^ 32 + unat n0" by (simp add: unat_parts)
  ultimately have "unat n1 * 2 ^ 32 + unat n0 = unat (q1 * ll_B OR q0) * unat d + unat r" using two_digits [OF 1(2) 2(2)] by simp
  then show ?thesis using 1(1) 2(1,3) by (simp add: udiv_qrnnd_c_def)
qed

lemma sub_c_eq: "sub_ddmmss_c ah al bh bl = subl_sbbl ah al bh bl"
proof -
  have "al - bl > al \<longleftrightarrow> al < bl" using unat_bounds(3) [of al] unat_bounds(3) [of bl] by (auto simp: word_less_nat_alt unat_sub_if')
  then show ?thesis by (simp add: sub_ddmmss_c_def subl_sbbl_def Let_def)
qed

text \<open>The table of the compiler's library: the number of significant bits of a byte.\<close>

locale clz_table =
  fixes clz_tab :: "nat \<Rightarrow> nat"
  assumes tab: "0 < i \<Longrightarrow> i < 256 \<Longrightarrow> 0 < clz_tab i \<and> 2 ^ (clz_tab i - 1) \<le> i \<and> i < 2 ^ clz_tab i"
begin

lemma clz_c_law:
  assumes "x \<noteq> 0"
  shows "count_leading_zeros_c clz_tab x < 32 \<and> 2 ^ 31 \<le> unat x * 2 ^ count_leading_zeros_c clz_tab x \<and>
    unat x * 2 ^ count_leading_zeros_c clz_tab x < 2 ^ 32"
proof -
  define a where "a = (if x < 0x10000 then (if x < 0x100 then 0 else 8) else (if x < 0x1000000 then 16 else 24 :: nat))"
  have a: "2 ^ a \<le> unat x" "unat x < 2 ^ a * 256" "a \<le> 24"
    using assms unat_bounds(3) [of x] by (auto simp: a_def word_less_nat_alt unat_gt_0 Suc_le_eq)
  define i where "i = unat x div 2 ^ a"
  have i: "0 < i" "i < 256" using a by (auto simp: i_def div_greater_zero_iff less_mult_imp_div_less mult.commute)
  define t where "t = clz_tab i"
  have t: "0 < t" "2 ^ (t - 1) \<le> i" "i < 2 ^ t" using tab [OF i] by (auto simp: t_def)
  have "t - 1 < 8"
  proof (rule ccontr)
    assume "\<not> t - 1 < 8"
    then have "(2 :: nat) ^ 8 \<le> 2 ^ (t - 1)" by (intro power_increasing) auto
    then show False using t(2) i(2) by simp
  qed
  then have k: "t - 1 + a \<le> 31" using a(3) by linarith
  have x: "2 ^ (t - 1 + a) \<le> unat x" "unat x < 2 ^ (t - 1 + a + 1)"
  proof -
    have "2 ^ (t - 1) * 2 ^ a \<le> i * 2 ^ a" using t(2) by simp
    also have "\<dots> \<le> unat x" by (simp add: i_def)
    finally show "2 ^ (t - 1 + a) \<le> unat x" by (simp add: power_add)
    have "unat x < (i + 1) * 2 ^ a" by (simp add: i_def dividend_less_div_times add.commute)
    also have "\<dots> \<le> 2 ^ t * 2 ^ a" using t(3) by (intro mult_le_mono1) simp
    finally show "unat x < 2 ^ (t - 1 + a + 1)" using t(1) by (simp flip: power_add)
  qed
  have "count_leading_zeros_c clz_tab x = 31 - (t - 1 + a)"
    using t(1) by (simp add: count_leading_zeros_c_def Let_def a_def [symmetric] unat_shr i_def [symmetric] t_def [symmetric])
  then show ?thesis using clz_law [OF x k] by simp
qed

end

sublocale clz_table \<subseteq> c: ll_prims "c_ops clz_tab"
proof
  show "\<exists>q r. udiv_qrnnd (c_ops clz_tab) n1 n0 d = Some (q, r) \<and> unat n1 * 2 ^ 32 + unat n0 = unat q * unat d + unat r \<and> r < d"
    if "n1 < d" "UDIV_NEEDS_NORMALIZATION (c_ops clz_tab) \<Longrightarrow> 2 ^ 31 \<le> unat d" for n1 n0 d
    using udiv_c_law [OF that(1), of n0] that(2) by (simp add: c_ops_def)
  show "unat (fst (umul_ppmm (c_ops clz_tab) u v)) * 2 ^ 32 + unat (snd (umul_ppmm (c_ops clz_tab) u v)) = unat u * unat v" for u v
    using umul_c_law [of u v] by (simp add: c_ops_def)
  show "dw_ll (fst (sub_ddmmss (c_ops clz_tab) ah al bh bl)) (snd (sub_ddmmss (c_ops clz_tab) ah al bh bl)) = dw_ll ah al - dw_ll bh bl" for ah al bh bl
    using sub_law [of ah al bh bl] by (simp add: c_ops_def sub_c_eq)
  show "count_leading_zeros (c_ops clz_tab) x < 32 \<and> 2 ^ 31 \<le> unat x * 2 ^ count_leading_zeros (c_ops clz_tab) x \<and>
      unat x * 2 ^ count_leading_zeros (c_ops clz_tab) x < 2 ^ 32" if "x \<noteq> 0" for x
    using clz_c_law [OF that] by (simp add: c_ops_def)
qed

context clz_table
begin

lemma c_correct: "udivmoddi4 (c_ops clz_tab) n d = (if d = 0 then None else Some (n div d, n mod d))"
  by (rule c.correct)

end

fun significant_bits :: "nat \<Rightarrow> nat" where
  "significant_bits n = (if n = 0 then 0 else Suc (significant_bits (n div 2)))"

declare significant_bits.simps [simp del]

interpretation bits: clz_table significant_bits
proof
  have "0 < significant_bits i \<and> 2 ^ (significant_bits i - 1) \<le> i \<and> i < 2 ^ significant_bits i" if "0 < i" for i
    using that
  proof (induction i rule: significant_bits.induct)
    case (1 i)
    show ?case
    proof (cases "i div 2 = 0")
      case True
      then have "i = 1" using 1(2) by linarith
      then show ?thesis by (simp add: significant_bits.simps)
    next
      case False
      note s = significant_bits.simps [of i]
      have ih: "0 < significant_bits (i div 2)" "2 ^ (significant_bits (i div 2) - 1) \<le> i div 2" "i div 2 < 2 ^ significant_bits (i div 2)"
        using 1 False by auto
      have "2 ^ significant_bits (i div 2) = 2 * (2 :: nat) ^ (significant_bits (i div 2) - 1)" using ih(1) by (simp flip: power_Suc)
      moreover have "2 * (i div 2) \<le> i" "i < 2 * (i div 2) + 2" by linarith+
      ultimately have "2 ^ significant_bits (i div 2) \<le> i" "i < 2 * 2 ^ significant_bits (i div 2)" using ih by linarith+
      then show ?thesis using 1(2) s by simp
    qed
  qed
  then show "0 < significant_bits i \<and> 2 ^ (significant_bits i - 1) \<le> i \<and> i < 2 ^ significant_bits i" if "0 < i" "i < 256" for i using that(1) by blast
qed

section \<open>Properties\<close>

text \<open>C34: the 64-bit unsigned division of the 32-bit build returns quotient and remainder for every dividend and every divisor but zero, where it raises
  the exception of a division by zero; with the instructions of the i386 and with the macros in C, whatever
  correct table of bit counts these use.\<close>
theorem udivmoddi4_correct:
  assumes "clz_table tab"
  shows "udivmoddi4 i386_ops n d = (if d = 0 then None else Some (n div d, n mod d)) \<and>
         udivmoddi4 (c_ops tab) n d = (if d = 0 then None else Some (n div d, n mod d))"
  using i386.correct clz_table.c_correct [OF assms] by blast

theorem udivmoddi4_correct_witness:
  "udivmoddi4 i386_ops 0x123456789ABCDEF0 0x100000001 = Some (0x12345678, 0x88888878) \<and>
   udivmoddi4 (c_ops significant_bits) 0x123456789ABCDEF0 0x100000001 = Some (0x12345678, 0x88888878)"
  using udivmoddi4_correct [OF bits.clz_table_axioms, of "0x123456789ABCDEF0" "0x100000001"] by simp

text \<open>the signed division and remainder truncate towards zero, with the wrap-around of the machine for the one quotient that does not fit.\<close>
theorem signed_division_correct:
  "divdi3 i386_ops u v = (if v = 0 then None else Some (word_of_int (sint u sdiv sint v))) \<and>
   moddi3 i386_ops u v = (if v = 0 then None else Some (word_of_int (sint u smod sint v)))"
  using i386.signed_correct by simp

end
