(* ===== verification/Usb_Urb.thy ===== *)
theory Usb_Urb
  imports Prelude "HOL-Library.Multiset"
begin

text \<open>
  USB transfers (\<^verbatim>\<open>usb.c\<close>): the pool of URBs behind the requests of a driver, from allocation through submission, completion by the kernel and the
  completion worker to release.

  The state keeps the blocks with the wrapper's and the kernel's half of a URB together, the list of all URBs, the list of completed ones, the
  buffers for DMA and the request packets with the request of the driver in them.  What the kernel does is an argument: whether an allocation succeeds, what
  \<^verbatim>\<open>usb_submit_urb\<close> and \<^verbatim>\<open>usb_unlink_urb\<close> return, and the status, length and data with which it completes a URB.  A pipe is a
  transfer type, a direction and the endpoint number, the low four bits of the endpoint address, which is what the kernel's
  \<^verbatim>\<open>usb_pipeendpoint\<close> returns.  An access to a freed or absent block is \<open>None\<close>.  The branches under \<^verbatim>\<open>USB_DEBUG\<close> are left out.

  A definition is a whole call.  The code has no lock over a call (the cancel lock covers the lists), so what is said of sequences of calls holds for
  calls that do not overlap; \<open>urb_release_race\<close> shows one overlap that breaks it.

  Shown are an invariant of all such sequences of requests, completions, the worker and cancellation, that no request packet is lost or
  completed twice in them (\<open>urb_life_cycle\<close>), that data of the device reaches the buffer of the driver (\<open>transfer_in_data\<close>), that removing a
  configuration uses freed URBs (\<open>kill_all_urbs_use_after_free\<close>), and that aborting an input pipe cancels none of its URBs (\<open>abort_in_pipe_cancels_nothing\<close>).
\<close>

unbundle bit_operations_syntax

section \<open>Status codes\<close>

abbreviation USBD_STATUS_SUCCESS :: u32 where "USBD_STATUS_SUCCESS \<equiv> 0"
abbreviation USBD_STATUS_PENDING :: u32 where "USBD_STATUS_PENDING \<equiv> 0x40000000"
abbreviation USBD_STATUS_CANCELED :: u32 where "USBD_STATUS_CANCELED \<equiv> 0x00010000"
abbreviation USBD_STATUS_CRC :: u32 where "USBD_STATUS_CRC \<equiv> 0xC0000001"
abbreviation USBD_STATUS_DATA_OVERRUN :: u32 where "USBD_STATUS_DATA_OVERRUN \<equiv> 0xC0000008"
abbreviation USBD_STATUS_DATA_UNDERRUN :: u32 where "USBD_STATUS_DATA_UNDERRUN \<equiv> 0xC0000009"
abbreviation USBD_STATUS_BABBLE_DETECTED :: u32 where "USBD_STATUS_BABBLE_DETECTED \<equiv> 0xC0000012"
abbreviation USBD_STATUS_NOT_SUPPORTED :: u32 where "USBD_STATUS_NOT_SUPPORTED \<equiv> 0xC0000E00"
abbreviation USBD_STATUS_TIMEOUT :: u32 where "USBD_STATUS_TIMEOUT \<equiv> 0xC0006000"
abbreviation USBD_STATUS_DEVICE_GONE :: u32 where "USBD_STATUS_DEVICE_GONE \<equiv> 0xC0007000"
abbreviation USBD_STATUS_NO_MEMORY :: u32 where "USBD_STATUS_NO_MEMORY \<equiv> 0x80000100"
abbreviation USBD_STATUS_REQUEST_FAILED :: u32 where "USBD_STATUS_REQUEST_FAILED \<equiv> 0x80000500"
abbreviation USBD_STATUS_INVALID_PIPE_HANDLE :: u32 where "USBD_STATUS_INVALID_PIPE_HANDLE \<equiv> 0x80000600"
abbreviation USBD_STATUS_ERROR_SHORT_TRANSFER :: u32 where "USBD_STATUS_ERROR_SHORT_TRANSFER \<equiv> 0x80000900"

abbreviation STATUS_NOT_IMPLEMENTED :: NTSTATUS where "STATUS_NOT_IMPLEMENTED \<equiv> 0xC0000002"
abbreviation STATUS_DEVICE_REMOVED :: NTSTATUS where "STATUS_DEVICE_REMOVED \<equiv> 0xC00002B6"
abbreviation STATUS_CANCELLED :: NTSTATUS where "STATUS_CANCELLED \<equiv> 0xC0000120"

text \<open>Error numbers of the kernel, negative as its functions return them.\<close>

abbreviation E_NOENT :: int where "E_NOENT \<equiv> - 2"
abbreviation E_NOMEM :: int where "E_NOMEM \<equiv> - 12"
abbreviation E_NODEV :: int where "E_NODEV \<equiv> - 19"
abbreviation E_INVAL :: int where "E_INVAL \<equiv> - 22"
abbreviation E_PIPE :: int where "E_PIPE \<equiv> - 32"
abbreviation E_NOSR :: int where "E_NOSR \<equiv> - 63"
abbreviation E_COMM :: int where "E_COMM \<equiv> - 70"
abbreviation E_PROTO :: int where "E_PROTO \<equiv> - 71"
abbreviation E_OVERFLOW :: int where "E_OVERFLOW \<equiv> - 75"
abbreviation E_ILSEQ :: int where "E_ILSEQ \<equiv> - 84"
abbreviation E_CONNRESET :: int where "E_CONNRESET \<equiv> - 104"
abbreviation E_SHUTDOWN :: int where "E_SHUTDOWN \<equiv> - 108"
abbreviation E_INPROGRESS :: int where "E_INPROGRESS \<equiv> - 115"
abbreviation E_REMOTEIO :: int where "E_REMOTEIO \<equiv> - 121"

definition wrap_urb_status :: "int \<Rightarrow> u32" where
  "wrap_urb_status st =
     (if st = 0 then USBD_STATUS_SUCCESS
      else if st = E_PROTO then USBD_STATUS_TIMEOUT
      else if st = E_ILSEQ then USBD_STATUS_CRC
      else if st = E_PIPE then USBD_STATUS_INVALID_PIPE_HANDLE
      else if st = E_COMM then USBD_STATUS_DATA_OVERRUN
      else if st = E_NOSR then USBD_STATUS_DATA_UNDERRUN
      else if st = E_OVERFLOW then USBD_STATUS_BABBLE_DETECTED
      else if st = E_REMOTEIO then USBD_STATUS_ERROR_SHORT_TRANSFER
      else if st = E_NODEV \<or> st = E_SHUTDOWN \<or> st = E_NOENT then USBD_STATUS_DEVICE_GONE
      else if st = E_NOMEM then USBD_STATUS_NO_MEMORY
      else if st = E_INVAL then USBD_STATUS_REQUEST_FAILED
      else USBD_STATUS_NOT_SUPPORTED)"

definition nt_urb_irp_status :: "u32 \<Rightarrow> NTSTATUS" where
  "nt_urb_irp_status st =
     (if st = USBD_STATUS_SUCCESS then STATUS_SUCCESS
      else if st = USBD_STATUS_DEVICE_GONE then STATUS_DEVICE_REMOVED
      else if st = USBD_STATUS_PENDING then STATUS_PENDING
      else if st = USBD_STATUS_NOT_SUPPORTED then STATUS_NOT_IMPLEMENTED
      else if st = USBD_STATUS_NO_MEMORY then STATUS_NO_MEMORY
      else if st = USBD_STATUS_REQUEST_FAILED then STATUS_NOT_SUPPORTED
      else STATUS_FAILURE)"

section \<open>State\<close>

type_synonym urb_id = nat
type_synonym irp_id = nat

datatype urb_state = URB_INVALID | URB_ALLOCATED | URB_SUBMITTED | URB_COMPLETED | URB_FREE | URB_SUSPEND | URB_INT_UNLINKED

datatype pipe_type = PIPE_CONTROL | PIPE_ISOCHRONOUS | PIPE_BULK | PIPE_INTERRUPT

record usb_pipe =
  pp_type :: pipe_type
  pp_in :: bool
  pp_endpoint :: u8

record usb_endpoint_descriptor =
  bEndpointAddress :: u8
  bmAttributes :: u8
  wMaxPacketSize :: u16
  bInterval :: u8

record usb_ctrlrequest =
  bRequestType :: u8
  bRequest :: u8
  wValue :: u16
  wIndex :: u16
  wLength :: u16

text \<open>A \<^verbatim>\<open>struct wrap_urb\<close> with the \<^verbatim>\<open>struct urb\<close> it points to; \<open>u_dma\<close> is the coherent buffer behind the transfer buffer.\<close>

record wrap_urb =
  wu_state :: urb_state
  wu_copy :: bool
  wu_irp :: "irp_id option"
  u_pipe :: usb_pipe
  u_length :: u32
  u_dma :: "nat option"
  u_setup :: "usb_ctrlrequest option"
  u_short_not_ok :: bool
  u_interval :: u8
  u_status :: int
  u_actual :: u32

text \<open>The descriptors and blocks that the requests to select a configuration or an interface use.  Such a request is one block of memory: \<open>sr_size\<close> bytes, with
  the interface structures at their offsets in it.\<close>

record usb_interface_descriptor =
  id_bInterfaceNumber :: u8
  id_bAlternateSetting :: u8
  id_bNumEndpoints :: u8
  id_bInterfaceClass :: u8
  id_bInterfaceSubClass :: u8
  id_bInterfaceProtocol :: u8

record usb_config_descriptor =
  cd_wTotalLength :: u16
  cd_bNumInterfaces :: u8
  cd_bConfigurationValue :: u8

record usbd_pipe_information =
  pi_wMaxPacketSize :: u16
  pi_bEndpointAddress :: u8
  pi_bInterval :: u8
  pi_type :: u8
  pi_handle :: "usb_endpoint_descriptor option"
  pi_max_tx_size :: u32
  pi_flags :: u32

record usbd_interface_information =
  ii_bLength :: u16
  ii_bInterfaceNumber :: u8
  ii_bAlternateSetting :: u8
  ii_bInterfaceClass :: u8
  ii_bInterfaceSubClass :: u8
  ii_bInterfaceProtocol :: u8
  ii_handle :: "usb_interface_descriptor option"
  ii_bNumEndpoints :: u32
  ii_pipes :: "usbd_pipe_information list"

record usbd_select =
  sr_config :: "usb_config_descriptor option"
  sr_size :: nat
  sr_intfs :: "nat \<Rightarrow> usbd_interface_information option"

text \<open>The request of the driver: the fields of the members of \<^verbatim>\<open>union nt_urb\<close>.\<close>

record nt_urb =
  nu_function :: nat
  nu_status :: u32
  nu_flags :: u32
  nu_length :: u32
  nu_buffer :: "u8 list option"
  nu_pipe_handle :: usb_endpoint_descriptor
  nu_reserved_bits :: u8
  nu_request :: u8
  nu_value :: u16
  nu_index :: u16
  nu_feature_selector :: u16
  nu_desc_type :: u8
  nu_desc_index :: u8
  nu_language_id :: u16
  nu_select :: usbd_select

record usb_irp =
  ui_wrap_urb :: "urb_id option"
  ui_cancel_routine :: bool
  ui_cancel :: bool
  ui_status :: NTSTATUS
  ui_info :: nat
  ui_pending :: bool
  ui_nt_urb :: nt_urb

record usb_state =
  wurbs :: "urb_id \<Rightarrow> wrap_urb option"
  wrap_urb_list :: "urb_id list"
  num_alloc_urbs :: nat
  wrap_urb_complete_list :: "urb_id list"
  wrap_urb_complete_work :: bool
  uirps :: "irp_id \<Rightarrow> usb_irp option"
  dma_buffers :: "nat \<Rightarrow> u8 list option"
  usb_hw_disabled :: bool
  irps_submitted :: "irp_id multiset"
  irps_completed :: "irp_id multiset"

abbreviation MAX_ALLOCATED_URBS :: nat where "MAX_ALLOCATED_URBS \<equiv> 15"

definition upd_urb :: "urb_id \<Rightarrow> wrap_urb \<Rightarrow> usb_state \<Rightarrow> usb_state" where
  "upd_urb u w s = s\<lparr>wurbs := (wurbs s)(u \<mapsto> w)\<rparr>"

definition upd_irp :: "irp_id \<Rightarrow> usb_irp \<Rightarrow> usb_state \<Rightarrow> usb_state" where
  "upd_irp i r s = s\<lparr>uirps := (uirps s)(i \<mapsto> r)\<rparr>"

section \<open>Allocation and release\<close>

text \<open>What the kernel answers during an allocation: the new block with its URB (absent when one of the two allocations fails), whether the buffer of the
  driver can be mapped, and the coherent buffer.\<close>

record urb_env =
  en_urb :: "urb_id option"
  en_valid :: bool
  en_dma :: "nat option"

definition blank_urb :: "irp_id \<Rightarrow> u32 \<Rightarrow> wrap_urb" where
  "blank_urb i len = \<lparr>wu_state = URB_ALLOCATED, wu_copy = False, wu_irp = Some i,
     u_pipe = \<lparr>pp_type = PIPE_CONTROL, pp_in = False, pp_endpoint = 0\<rparr>, u_length = len, u_dma = None, u_setup = None,
     u_short_not_ok = False, u_interval = 0, u_status = 0, u_actual = 0\<rparr>"

text \<open>The first free URB of the list.\<close>

definition free_urb :: "usb_state \<Rightarrow> urb_id option" where
  "free_urb s = List.find (\<lambda>u. map_option wu_state (wurbs s u) = Some URB_FREE) (wrap_urb_list s)"

text \<open>Taking a URB from the list or adding a new one, and linking it with the packet.\<close>

definition take_urb :: "irp_id \<Rightarrow> u32 \<Rightarrow> urb_env \<Rightarrow> usb_state \<Rightarrow> (urb_id \<times> usb_state) option option" where
  "take_urb i len e s =
     (case uirps s i of
        None \<Rightarrow> None
      | Some r \<Rightarrow>
          let link = (\<lambda>u s. upd_irp i (r\<lparr>ui_wrap_urb := Some u, ui_cancel_routine := True\<rparr>) (upd_urb u (blank_urb i len) s)) in
          (case free_urb s of
             Some u \<Rightarrow> Some (Some (u, link u s))
           | None \<Rightarrow>
               (case en_urb e of
                  None \<Rightarrow> Some None
                | Some u \<Rightarrow> Some (Some (u, link u (s\<lparr>wrap_urb_list := wrap_urb_list s @ [u], num_alloc_urbs := Suc (num_alloc_urbs s)\<rparr>))))))"

text \<open>The transfer buffer: the buffer of the driver, or a copy when that cannot be mapped.\<close>

definition alloc_buffer :: "irp_id \<Rightarrow> usb_pipe \<Rightarrow> u8 list option \<Rightarrow> u32 \<Rightarrow> urb_env \<Rightarrow> urb_id \<Rightarrow> usb_state \<Rightarrow> (urb_id option \<times> usb_state) option" where
  "alloc_buffer i pipe buf len e u s =
     do { w \<leftarrow> wurbs s u;
          case buf of
            Some b \<Rightarrow>
              if len \<noteq> 0 \<and> \<not> en_valid e
              then (case en_dma e of
                      None \<Rightarrow>
                        do { r \<leftarrow> uirps s i;
                             Some (None, upd_irp i (r\<lparr>ui_cancel_routine := False, ui_wrap_urb := None\<rparr>) (upd_urb u (w\<lparr>wu_state := URB_FREE, wu_irp := None\<rparr>) s)) }
                    | Some d \<Rightarrow>
                        do { c \<leftarrow> (if pp_in pipe then Some (replicate (unat len) 0) else if unat len \<le> length b then Some (take (unat len) b) else None);
                             Some (Some u, (upd_urb u (w\<lparr>wu_copy := True, u_dma := Some d\<rparr>) s)\<lparr>dma_buffers := (dma_buffers s)(d \<mapsto> c)\<rparr>) })
              else Some (Some u, s)
          | None \<Rightarrow> Some (Some u, s) }"

definition wrap_alloc_urb :: "irp_id \<Rightarrow> usb_pipe \<Rightarrow> u8 list option \<Rightarrow> u32 \<Rightarrow> urb_env \<Rightarrow> usb_state \<Rightarrow> (urb_id option \<times> usb_state) option" where
  "wrap_alloc_urb i pipe buf len e s =
     (if usb_hw_disabled s then Some (None, s)
      else do { t \<leftarrow> take_urb i len e s;
                case t of None \<Rightarrow> Some (None, s) | Some (u, s1) \<Rightarrow> alloc_buffer i pipe buf len e u s1 })"

definition free_dma :: "wrap_urb \<Rightarrow> usb_state \<Rightarrow> usb_state option" where
  "free_dma w s =
     (if wu_copy w
      then do { d \<leftarrow> u_dma w; b \<leftarrow> dma_buffers s d; Some (s\<lparr>dma_buffers := (dma_buffers s)(d := None)\<rparr>) }
      else Some s)"

definition wrap_free_urb :: "urb_id \<Rightarrow> usb_state \<Rightarrow> usb_state option" where
  "wrap_free_urb u s =
     do { w \<leftarrow> wurbs s u;
          i \<leftarrow> wu_irp w;
          r \<leftarrow> uirps s i;
          s1 \<leftarrow> free_dma w (upd_irp i (r\<lparr>ui_cancel_routine := False, ui_wrap_urb := None\<rparr>) s);
          if num_alloc_urbs s1 > MAX_ALLOCATED_URBS
          then if u \<in> set (wrap_urb_list s1)
               then Some (s1\<lparr>wrap_urb_list := remove1 u (wrap_urb_list s1), num_alloc_urbs := num_alloc_urbs s1 - 1, wurbs := (wurbs s1)(u := None)\<rparr>)
               else None
          else Some (upd_urb u (w\<lparr>wu_state := URB_FREE, wu_copy := False, wu_irp := None, u_setup := None\<rparr>) s1) }"

section \<open>Submission\<close>

text \<open>\<open>ret\<close> is what \<^verbatim>\<open>usb_submit_urb\<close> returns.\<close>

definition wrap_submit_urb :: "irp_id \<Rightarrow> int \<Rightarrow> usb_state \<Rightarrow> (u32 \<times> usb_state) option" where
  "wrap_submit_urb i ret s =
     do { r \<leftarrow> uirps s i;
          u \<leftarrow> ui_wrap_urb r;
          w \<leftarrow> wurbs s u;
          let r1 = r\<lparr>ui_status := STATUS_PENDING, ui_info := 0, ui_pending := True, ui_nt_urb := (ui_nt_urb r)\<lparr>nu_status := USBD_STATUS_PENDING\<rparr>\<rparr>;
              s1 = upd_urb u (w\<lparr>wu_state := URB_SUBMITTED\<rparr>) (upd_irp i r1 s) in
          if ret \<noteq> 0
          then do { s2 \<leftarrow> wrap_free_urb u s1;
                    r2 \<leftarrow> uirps s2 i;
                    Some (wrap_urb_status ret,
                          upd_irp i (r2\<lparr>ui_pending := False, ui_nt_urb := (ui_nt_urb r2)\<lparr>nu_status := wrap_urb_status ret\<rparr>\<rparr>) s2) }
          else Some (USBD_STATUS_PENDING, s1\<lparr>irps_submitted := add_mset i (irps_submitted s1)\<rparr>) }"

abbreviation USBD_TRANSFER_DIRECTION_IN :: u32 where "USBD_TRANSFER_DIRECTION_IN \<equiv> 1"
abbreviation USBD_SHORT_TRANSFER_OK :: u32 where "USBD_SHORT_TRANSFER_OK \<equiv> 2"

definition USBD_IS_BULK_PIPE :: "usb_endpoint_descriptor \<Rightarrow> bool" where
  "USBD_IS_BULK_PIPE ep \<longleftrightarrow> bmAttributes ep AND 3 = 2"
definition USBD_IS_INT_PIPE :: "usb_endpoint_descriptor \<Rightarrow> bool" where
  "USBD_IS_INT_PIPE ep \<longleftrightarrow> bmAttributes ep AND 3 = 3"

definition mk_pipe :: "pipe_type \<Rightarrow> bool \<Rightarrow> u8 \<Rightarrow> usb_pipe" where
  "mk_pipe t inp addr = \<lparr>pp_type = t, pp_in = inp, pp_endpoint = addr AND 0xF\<rparr>"

definition wrap_bulk_or_intr_trans :: "irp_id \<Rightarrow> urb_env \<Rightarrow> int \<Rightarrow> usb_state \<Rightarrow> (u32 \<times> usb_state) option" where
  "wrap_bulk_or_intr_trans i e ret s =
     do { r \<leftarrow> uirps s i;
          let n = ui_nt_urb r; ep = nu_pipe_handle n;
              pipe = mk_pipe (if USBD_IS_BULK_PIPE ep then PIPE_BULK else PIPE_INTERRUPT) (nu_flags n AND USBD_TRANSFER_DIRECTION_IN \<noteq> 0) (bEndpointAddress ep) in
          do { (uo, s1) \<leftarrow> wrap_alloc_urb i pipe (nu_buffer n) (nu_length n) e s;
               case uo of
                 None \<Rightarrow> Some (USBD_STATUS_NO_MEMORY, s1)
               | Some u \<Rightarrow>
                   do { w \<leftarrow> wurbs s1 u;
                        wrap_submit_urb i ret
                          (upd_urb u (w\<lparr>u_short_not_ok := (pp_in pipe \<and> nu_flags n AND USBD_SHORT_TRANSFER_OK = 0), u_pipe := pipe,
                                        u_interval := (if pp_type pipe = PIPE_BULK then 0 else bInterval ep)\<rparr>) s1) } } }"

definition vendor_req_type :: "nat \<Rightarrow> u8" where
  "vendor_req_type f =
     (if f = 0x17 then 0x40 else if f = 0x18 then 0x41 else if f = 0x19 then 0x42 else if f = 0x20 then 0x43
      else if f = 0x1A then 0x20 else if f = 0x1B then 0x21 else if f = 0x1C then 0x22 else if f = 0x1F then 0x23 else 0)"

text \<open>\<open>mem\<close>: the setup packet can be allocated.\<close>

definition wrap_vendor_or_class_req :: "irp_id \<Rightarrow> urb_env \<Rightarrow> bool \<Rightarrow> int \<Rightarrow> usb_state \<Rightarrow> (u32 \<times> usb_state) option" where
  "wrap_vendor_or_class_req i e mem ret s =
     do { r \<leftarrow> uirps s i;
          let n = ui_nt_urb r; dir = (nu_flags n AND USBD_TRANSFER_DIRECTION_IN \<noteq> 0); pipe = mk_pipe PIPE_CONTROL dir 0;
              req_type = vendor_req_type (nu_function n) OR nu_reserved_bits n OR (if dir then 0x80 else 0) in
          do { (uo, s1) \<leftarrow> wrap_alloc_urb i pipe (nu_buffer n) (nu_length n) e s;
               case uo of
                 None \<Rightarrow> Some (USBD_STATUS_NO_MEMORY, s1)
               | Some u \<Rightarrow>
                   do { w \<leftarrow> wurbs s1 u;
                        let w1 = w\<lparr>u_short_not_ok := (dir \<and> nu_flags n AND USBD_SHORT_TRANSFER_OK = 0)\<rparr> in
                        if \<not> mem then do { s2 \<leftarrow> wrap_free_urb u (upd_urb u w1 s1); Some (USBD_STATUS_NO_MEMORY, s2) }
                        else wrap_submit_urb i ret
                          (upd_urb u (w1\<lparr>u_pipe := pipe,
                             u_setup := Some \<lparr>bRequestType = req_type, bRequest = nu_request n, wValue = nu_value n, wIndex = nu_index n, wLength = ucast (u_length w)\<rparr>\<rparr>) s1) } } }"

section \<open>Completion\<close>

definition wrap_urb_complete :: "urb_id \<Rightarrow> usb_state \<Rightarrow> usb_state option" where
  "wrap_urb_complete u s =
     do { w \<leftarrow> wurbs s u;
          i \<leftarrow> wu_irp w;
          r \<leftarrow> uirps s i;
          Some ((upd_urb u (w\<lparr>wu_state := URB_COMPLETED\<rparr>) (upd_irp i (r\<lparr>ui_cancel_routine := False\<rparr>) s))
                  \<lparr>wrap_urb_complete_list := wrap_urb_complete_list s @ [u], wrap_urb_complete_work := True\<rparr>) }"

text \<open>The kernel's side: it stores data of an input transfer in the transfer buffer, records status and length, and calls the handler.\<close>

definition overwrite :: "u8 list \<Rightarrow> u8 list \<Rightarrow> u8 list" where
  "overwrite d b = d @ drop (length d) b"

definition kernel_data :: "urb_id \<Rightarrow> u8 list \<Rightarrow> usb_state \<Rightarrow> usb_state option" where
  "kernel_data u data s =
     do { w \<leftarrow> wurbs s u;
          if \<not> pp_in (u_pipe w) then Some s
          else case u_dma w of
            Some d \<Rightarrow> do { b \<leftarrow> dma_buffers s d; Some (s\<lparr>dma_buffers := (dma_buffers s)(d \<mapsto> overwrite data b)\<rparr>) }
          | None \<Rightarrow> do { i \<leftarrow> wu_irp w; r \<leftarrow> uirps s i;
                         case nu_buffer (ui_nt_urb r) of
                           None \<Rightarrow> Some s
                         | Some b \<Rightarrow> Some (upd_irp i (r\<lparr>ui_nt_urb := (ui_nt_urb r)\<lparr>nu_buffer := Some (overwrite data b)\<rparr>\<rparr>) s) } }"

definition kernel_complete :: "urb_id \<Rightarrow> int \<Rightarrow> u8 list \<Rightarrow> usb_state \<Rightarrow> usb_state option" where
  "kernel_complete u st data s =
     do { s1 \<leftarrow> kernel_data u data s;
          w \<leftarrow> wurbs s1 u;
          wrap_urb_complete u (upd_urb u (w\<lparr>u_status := st, u_actual := of_nat (length data)\<rparr>) s1) }"

text \<open>What the worker writes into the packet of a finished URB.\<close>

definition copy_back :: "wrap_urb \<Rightarrow> usb_state \<Rightarrow> nt_urb \<Rightarrow> nt_urb option" where
  "copy_back w s n =
     (if wu_copy w \<and> pp_in (u_pipe w)
      then do { d \<leftarrow> u_dma w; b \<leftarrow> dma_buffers s d; dst \<leftarrow> nu_buffer n; dst1 \<leftarrow> blk_copy dst 0 b 0 (unat (u_actual w)); Some (n\<lparr>nu_buffer := Some dst1\<rparr>) }
      else Some n)"

definition finish_irp :: "wrap_urb \<Rightarrow> usb_irp \<Rightarrow> usb_state \<Rightarrow> usb_irp option" where
  "finish_irp w r s =
     (if u_status w = 0
      then do { n \<leftarrow> copy_back w s ((ui_nt_urb r)\<lparr>nu_length := u_actual w\<rparr>);
                Some (r\<lparr>ui_info := unat (u_actual w), ui_nt_urb := n\<lparr>nu_status := USBD_STATUS_SUCCESS\<rparr>, ui_status := STATUS_SUCCESS\<rparr>) }
      else if u_status w = E_NOENT \<or> u_status w = E_CONNRESET
      then Some (r\<lparr>ui_info := 0, ui_nt_urb := (ui_nt_urb r)\<lparr>nu_status := USBD_STATUS_SUCCESS\<rparr>, ui_status := STATUS_CANCELLED\<rparr>)
      else Some (r\<lparr>ui_info := 0, ui_nt_urb := (ui_nt_urb r)\<lparr>nu_status := wrap_urb_status (u_status w)\<rparr>,
                    ui_status := nt_urb_irp_status (wrap_urb_status (u_status w))\<rparr>))"

text \<open>One round of the completion worker; the completed packet is handed to the driver.\<close>

definition complete_one :: "usb_state \<Rightarrow> usb_state option" where
  "complete_one s =
     (case wrap_urb_complete_list s of
        [] \<Rightarrow> Some s
      | u # us \<Rightarrow>
          do { w \<leftarrow> wurbs s u;
               i \<leftarrow> wu_irp w;
               r \<leftarrow> uirps s i;
               r1 \<leftarrow> finish_irp w r s;
               s1 \<leftarrow> wrap_free_urb u (upd_irp i r1 (s\<lparr>wrap_urb_complete_list := us\<rparr>));
               Some (s1\<lparr>irps_completed := add_mset i (irps_completed s1)\<rparr>) })"

primrec worker_rounds :: "nat \<Rightarrow> usb_state \<Rightarrow> usb_state option" where
  "worker_rounds 0 s = Some s"
| "worker_rounds (Suc n) s = do { s1 \<leftarrow> complete_one s; worker_rounds n s1 }"

definition wrap_urb_complete_worker :: "usb_state \<Rightarrow> usb_state option" where
  "wrap_urb_complete_worker s = worker_rounds (length (wrap_urb_complete_list s)) (s\<lparr>wrap_urb_complete_work := False\<rparr>)"

section \<open>Cancellation and removal\<close>

text \<open>\<open>unlink u\<close> is what \<^verbatim>\<open>usb_unlink_urb\<close> returns; the kernel completes the URB later.\<close>

definition wrap_cancel_urb :: "(urb_id \<Rightarrow> int) \<Rightarrow> urb_id \<Rightarrow> usb_state \<Rightarrow> int option" where
  "wrap_cancel_urb unlink u s =
     do { w \<leftarrow> wurbs s u;
          Some (if wu_state w \<noteq> URB_SUBMITTED then - 1 else if unlink u = E_INPROGRESS then 0 else unlink u) }"

definition wrap_cancel_irp :: "(urb_id \<Rightarrow> int) \<Rightarrow> irp_id \<Rightarrow> usb_state \<Rightarrow> usb_state option" where
  "wrap_cancel_irp unlink i s =
     do { r \<leftarrow> uirps s i;
          u \<leftarrow> ui_wrap_urb r;
          c \<leftarrow> wrap_cancel_urb unlink u s;
          Some (if c \<noteq> 0 then upd_irp i (r\<lparr>ui_cancel := False\<rparr>) s else s) }"

text \<open>\<^verbatim>\<open>IoCancelIrp\<close> for such a packet: the routine is taken and called when it was set.\<close>

definition cancel_request :: "(urb_id \<Rightarrow> int) \<Rightarrow> irp_id \<Rightarrow> usb_state \<Rightarrow> usb_state option" where
  "cancel_request unlink i s =
     do { r \<leftarrow> uirps s i;
          let s1 = upd_irp i (r\<lparr>ui_cancel_routine := False, ui_cancel := True\<rparr>) s in
          if ui_cancel_routine r then wrap_cancel_irp unlink i s1 else Some s1 }"

text \<open>The URBs that \<^verbatim>\<open>wrap_abort_pipe\<close> cancels.\<close>

definition abort_selects :: "u8 \<Rightarrow> wrap_urb \<Rightarrow> bool" where
  "abort_selects addr w \<longleftrightarrow> pp_endpoint (u_pipe w) = addr \<or> pp_endpoint (u_pipe w) = 0"

primrec abort_urbs :: "(urb_id \<Rightarrow> int) \<Rightarrow> u8 \<Rightarrow> urb_id list \<Rightarrow> usb_state \<Rightarrow> urb_id list option" where
  "abort_urbs unlink addr [] s = Some []"
| "abort_urbs unlink addr (u # us) s =
     do { w \<leftarrow> wurbs s u;
          c \<leftarrow> (if abort_selects addr w then wrap_cancel_urb unlink u s else Some 1);
          rest \<leftarrow> abort_urbs unlink addr us s;
          Some (if c = 0 then u # rest else rest) }"

text \<open>The result: the URBs that were unlinked.\<close>

definition wrap_abort_pipe :: "(urb_id \<Rightarrow> int) \<Rightarrow> irp_id \<Rightarrow> usb_state \<Rightarrow> (u32 \<times> urb_id list \<times> usb_state) option" where
  "wrap_abort_pipe unlink i s =
     do { r \<leftarrow> uirps s i;
          us \<leftarrow> abort_urbs unlink (bEndpointAddress (nu_pipe_handle (ui_nt_urb r))) (wrap_urb_list s) s;
          Some (USBD_STATUS_SUCCESS, us, upd_irp i (r\<lparr>ui_nt_urb := (ui_nt_urb r)\<lparr>nu_status := USBD_STATUS_CANCELED\<rparr>\<rparr>) s) }"

text \<open>
  \<^verbatim>\<open>kill_all_urbs\<close>.  \<^verbatim>\<open>usb_kill_urb\<close> returns when the kernel has completed the URB with the status of a killed one; its handler runs then, unless
  the code has cleared the pointer to it.
\<close>

definition kill_urb :: "bool \<Rightarrow> urb_id \<Rightarrow> usb_state \<Rightarrow> usb_state option" where
  "kill_urb complete u s =
     do { w \<leftarrow> wurbs s u;
          s1 \<leftarrow> (if wu_state w = URB_SUBMITTED \<and> complete then kernel_complete u E_NOENT [] s else Some s);
          Some (s1\<lparr>wurbs := (wurbs s1)(u := None)\<rparr>) }"

primrec kill_urbs :: "bool \<Rightarrow> urb_id list \<Rightarrow> usb_state \<Rightarrow> usb_state option" where
  "kill_urbs complete [] s = Some s"
| "kill_urbs complete (u # us) s = do { s1 \<leftarrow> kill_urb complete u (s\<lparr>wrap_urb_list := us\<rparr>); kill_urbs complete us s1 }"

definition kill_all_urbs :: "bool \<Rightarrow> usb_state \<Rightarrow> usb_state option" where
  "kill_all_urbs complete s = do { s1 \<leftarrow> kill_urbs complete (wrap_urb_list s) s; Some (s1\<lparr>num_alloc_urbs := 0\<rparr>) }"

definition usb_init_device :: "usb_state \<Rightarrow> usb_state" where
  "usb_init_device s = s\<lparr>wrap_urb_list := [], num_alloc_urbs := 0\<rparr>"

definition usb_init :: "usb_state \<Rightarrow> usb_state" where
  "usb_init s = s\<lparr>wrap_urb_complete_list := [], wrap_urb_complete_work := False\<rparr>"

definition usb_exit_device :: "usb_state \<Rightarrow> usb_state option" where
  "usb_exit_device s = kill_all_urbs False s"

section \<open>Invariant\<close>

abbreviation busy :: "usb_state \<Rightarrow> urb_id \<Rightarrow> wrap_urb \<Rightarrow> bool" where
  "busy s u w \<equiv> wurbs s u = Some w \<and> wu_state w \<noteq> URB_FREE"

definition pool_ok :: "usb_state \<Rightarrow> bool" where
  "pool_ok s \<longleftrightarrow> distinct (wrap_urb_list s) \<and> dom (wurbs s) = set (wrap_urb_list s) \<and> num_alloc_urbs s = length (wrap_urb_list s)"

text \<open>A packet and a URB belong together; the buffers are large enough for the transfer.\<close>

definition link_ok :: "(nat \<Rightarrow> u8 list option) \<Rightarrow> urb_id \<Rightarrow> wrap_urb \<Rightarrow> usb_irp \<Rightarrow> bool" where
  "link_ok dma u w r \<longleftrightarrow> ui_wrap_urb r = Some u \<and> unat (u_actual w) \<le> unat (u_length w) \<and> (wu_copy w \<longleftrightarrow> u_dma w \<noteq> None) \<and>
     (u_dma w \<noteq> None \<longrightarrow> nu_buffer (ui_nt_urb r) \<noteq> None) \<and>
     (\<forall>b. nu_buffer (ui_nt_urb r) = Some b \<longrightarrow> unat (u_length w) \<le> length b) \<and>
     (\<forall>d. u_dma w = Some d \<longrightarrow> (\<exists>b. dma d = Some b \<and> length b = unat (u_length w)))"

definition linked :: "usb_state \<Rightarrow> urb_id \<Rightarrow> wrap_urb \<Rightarrow> bool" where
  "linked s u w \<longleftrightarrow> (\<exists>i r. wu_irp w = Some i \<and> uirps s i = Some r \<and> link_ok (dma_buffers s) u w r)"

definition links_ok :: "usb_state \<Rightarrow> bool" where
  "links_ok s \<longleftrightarrow>
     (\<forall>u w. busy s u w \<longrightarrow> linked s u w) \<and>
     (\<forall>i r u. uirps s i = Some r \<longrightarrow> ui_wrap_urb r = Some u \<longrightarrow> (\<exists>w. busy s u w \<and> wu_irp w = Some i))"

text \<open>Every coherent buffer belongs to exactly one URB in use.\<close>

definition dma_ok :: "usb_state \<Rightarrow> bool" where
  "dma_ok s \<longleftrightarrow>
     (\<forall>u w u' w' d. busy s u w \<longrightarrow> busy s u' w' \<longrightarrow> u_dma w = Some d \<longrightarrow> u_dma w' = Some d \<longrightarrow> u = u') \<and>
     (\<forall>d. dma_buffers s d \<noteq> None \<longrightarrow> (\<exists>u w. busy s u w \<and> u_dma w = Some d))"

definition urbs_ok :: "usb_state \<Rightarrow> bool" where
  "urbs_ok s \<longleftrightarrow> pool_ok s \<and> links_ok s \<and> dma_ok s"

text \<open>The list of completed URBs holds exactly those, each once.\<close>

definition complete_ok :: "usb_state \<Rightarrow> bool" where
  "complete_ok s \<longleftrightarrow> distinct (wrap_urb_complete_list s) \<and>
     set (wrap_urb_complete_list s) = {u. map_option wu_state (wurbs s u) = Some URB_COMPLETED}"

definition in_flight :: "usb_state \<Rightarrow> irp_id set" where
  "in_flight s = {i. \<exists>r u. uirps s i = Some r \<and> ui_wrap_urb r = Some u}"

text \<open>Between the operations every URB is free, with the kernel, or completed, and every packet that was submitted is completed or with a URB.\<close>

definition usb_inv :: "usb_state \<Rightarrow> bool" where
  "usb_inv s \<longleftrightarrow> urbs_ok s \<and> complete_ok s \<and>
     (\<forall>u w. wurbs s u = Some w \<longrightarrow> wu_state w \<in> {URB_FREE, URB_SUBMITTED, URB_COMPLETED}) \<and>
     finite (in_flight s) \<and> irps_submitted s = irps_completed s + mset_set (in_flight s)"

section \<open>Changes that keep the URBs in order\<close>

lemma upd_simps [simp]:
  "wurbs (upd_urb u w s) = (wurbs s)(u \<mapsto> w)" "uirps (upd_urb u w s) = uirps s" "dma_buffers (upd_urb u w s) = dma_buffers s"
  "wrap_urb_list (upd_urb u w s) = wrap_urb_list s" "num_alloc_urbs (upd_urb u w s) = num_alloc_urbs s"
  "wrap_urb_complete_list (upd_urb u w s) = wrap_urb_complete_list s" "usb_hw_disabled (upd_urb u w s) = usb_hw_disabled s"
  "irps_submitted (upd_urb u w s) = irps_submitted s" "irps_completed (upd_urb u w s) = irps_completed s"
  "wurbs (upd_irp i r s) = wurbs s" "uirps (upd_irp i r s) = (uirps s)(i \<mapsto> r)" "dma_buffers (upd_irp i r s) = dma_buffers s"
  "wrap_urb_list (upd_irp i r s) = wrap_urb_list s" "num_alloc_urbs (upd_irp i r s) = num_alloc_urbs s"
  "wrap_urb_complete_list (upd_irp i r s) = wrap_urb_complete_list s" "usb_hw_disabled (upd_irp i r s) = usb_hw_disabled s"
  "irps_submitted (upd_irp i r s) = irps_submitted s" "irps_completed (upd_irp i r s) = irps_completed s"
  by (simp_all add: upd_urb_def upd_irp_def)

text \<open>The parts of the state that \<open>urbs_ok\<close> speaks about.\<close>

lemma urbs_ok_cong:
  assumes "urbs_ok s" "wurbs s' = wurbs s" "uirps s' = uirps s" "dma_buffers s' = dma_buffers s" "wrap_urb_list s' = wrap_urb_list s"
    "num_alloc_urbs s' = num_alloc_urbs s"
  shows "urbs_ok s'"
  using assms(1) unfolding urbs_ok_def pool_ok_def links_ok_def linked_def dma_ok_def assms(2-6) .

lemma busy_linkedD: "urbs_ok s \<Longrightarrow> busy s u w \<Longrightarrow> linked s u w"
  by (simp add: urbs_ok_def links_ok_def)

lemma back_linkD:
  "urbs_ok s \<Longrightarrow> uirps s i = Some r \<Longrightarrow> ui_wrap_urb r = Some u \<Longrightarrow> \<exists>w. busy s u w \<and> wu_irp w = Some i"
  unfolding urbs_ok_def links_ok_def by blast

lemma links_okI:
  assumes "\<And>u w. busy s u w \<Longrightarrow> linked s u w"
    and "\<And>i r u. uirps s i = Some r \<Longrightarrow> ui_wrap_urb r = Some u \<Longrightarrow> \<exists>w. busy s u w \<and> wu_irp w = Some i"
  shows "links_ok s"
  using assms unfolding links_ok_def by blast

lemma dma_okI:
  assumes "\<And>u w u' w' d. busy s u w \<Longrightarrow> busy s u' w' \<Longrightarrow> u_dma w = Some d \<Longrightarrow> u_dma w' = Some d \<Longrightarrow> u = u'"
    and "\<And>d. dma_buffers s d \<noteq> None \<Longrightarrow> \<exists>u w. busy s u w \<and> u_dma w = Some d"
  shows "dma_ok s"
  using assms unfolding dma_ok_def by blast

lemma dma_owner: "urbs_ok s \<Longrightarrow> busy s u w \<Longrightarrow> busy s u' w' \<Longrightarrow> u_dma w = Some d \<Longrightarrow> u_dma w' = Some d \<Longrightarrow> u = u'"
  unfolding urbs_ok_def dma_ok_def by blast

lemma dma_owned: "urbs_ok s \<Longrightarrow> dma_buffers s d \<noteq> None \<Longrightarrow> \<exists>u w. busy s u w \<and> u_dma w = Some d"
  unfolding urbs_ok_def dma_ok_def by blast

lemma urbs_ok_upd_urb:
  assumes ok: "urbs_ok s" and w: "busy s u w" and w': "wu_state w' \<noteq> URB_FREE" "wu_irp w' = wu_irp w" "wu_copy w' = wu_copy w" "u_length w' = u_length w"
      "u_dma w' = u_dma w" "unat (u_actual w') \<le> unat (u_length w')"
  shows "urbs_ok (upd_urb u w' s)"
proof -
  have "pool_ok (upd_urb u w' s)" using ok w by (auto simp: urbs_ok_def pool_ok_def)
  moreover have "links_ok (upd_urb u w' s)"
  proof (rule links_okI)
    have "linked s u w'" using busy_linkedD [OF ok w] w' by (auto simp: linked_def link_ok_def)
    then show "linked (upd_urb u w' s) v x" if "busy (upd_urb u w' s) v x" for v x
      using that busy_linkedD [OF ok, of v x] by (cases "v = u") (auto simp: linked_def)
  next
    fix i r v assume h: "uirps (upd_urb u w' s) i = Some r" "ui_wrap_urb r = Some v"
    then obtain x where "busy s v x" "wu_irp x = Some i" using back_linkD [OF ok, of i r v] by auto
    then show "\<exists>x. busy (upd_urb u w' s) v x \<and> wu_irp x = Some i" using w w'(1,2) by (cases "v = u") auto
  qed
  moreover have "dma_ok (upd_urb u w' s)"
  proof (rule dma_okI)
    have bw: "\<exists>y. busy s v y \<and> u_dma y = u_dma x" if "busy (upd_urb u w' s) v x" for v x using that w w'(1,5) by (cases "v = u") auto
    fix v x v' x' d assume h: "busy (upd_urb u w' s) v x" "busy (upd_urb u w' s) v' x'" "u_dma x = Some d" "u_dma x' = Some d"
    obtain y y' where "busy s v y" "u_dma y = Some d" "busy s v' y'" "u_dma y' = Some d" using bw [OF h(1)] bw [OF h(2)] h(3,4) by auto
    then show "v = v'" using dma_owner [OF ok, of v y v' y' d] by simp
  next
    fix d assume "dma_buffers (upd_urb u w' s) d \<noteq> None"
    then obtain v x where "busy s v x" "u_dma x = Some d" using dma_owned [OF ok, of d] by auto
    then show "\<exists>v x. busy (upd_urb u w' s) v x \<and> u_dma x = Some d" using w w'(1,5) by (cases "v = u") auto
  qed
  ultimately show ?thesis by (simp add: urbs_ok_def)
qed

text \<open>A change of a packet that keeps its URB and the size of its buffer.\<close>

lemma urbs_ok_upd_irp:
  assumes ok: "urbs_ok s" and r: "uirps s i = Some r" and r': "ui_wrap_urb r' = ui_wrap_urb r"
      "map_option length (nu_buffer (ui_nt_urb r')) = map_option length (nu_buffer (ui_nt_urb r))"
  shows "urbs_ok (upd_irp i r' s)"
proof -
  have l: "link_ok (dma_buffers s) u w r'" if "link_ok (dma_buffers s) u w r" for u w
    using that r' by (cases "nu_buffer (ui_nt_urb r)"; cases "nu_buffer (ui_nt_urb r')") (auto simp: link_ok_def)
  have "linked (upd_irp i r' s) u w" if h: "linked s u w" for u w
    using h r l by (auto simp: linked_def split: if_splits)
  then show ?thesis using ok r r' by (auto simp: urbs_ok_def pool_ok_def dma_ok_def links_ok_def)
qed

text \<open>A packet without URB may change in any way.\<close>

lemma urbs_ok_new_irp:
  assumes ok: "urbs_ok s" and r: "\<And>r. uirps s i = Some r \<Longrightarrow> ui_wrap_urb r = None" and r': "ui_wrap_urb r' = None"
  shows "urbs_ok (upd_irp i r' s)"
proof -
  have "linked (upd_irp i r' s) u w" if h: "linked s u w" for u w
    using h r by (auto simp: linked_def link_ok_def)
  then show ?thesis using ok r r' by (auto simp: urbs_ok_def pool_ok_def dma_ok_def links_ok_def)
qed


section \<open>Linking and releasing a URB\<close>

text \<open>Linking a free or a new URB with a packet that has none.\<close>

lemma urbs_ok_link:
  assumes ok: "urbs_ok s" and r: "uirps s i = Some r" "ui_wrap_urb r = None" and free: "\<And>w. wurbs s u = Some w \<Longrightarrow> wu_state w = URB_FREE"
    and pool: "pool_ok (upd_urb u w' (s\<lparr>wrap_urb_list := l, num_alloc_urbs := n\<rparr>))"
    and w': "w' = blank_urb i len" and r': "ui_wrap_urb r' = Some u" "\<And>b. nu_buffer (ui_nt_urb r') = Some b \<Longrightarrow> unat len \<le> length b"
  shows "urbs_ok (upd_irp i r' (upd_urb u w' (s\<lparr>wrap_urb_list := l, num_alloc_urbs := n\<rparr>)))" (is "urbs_ok ?s")
proof -
  have other: "wurbs ?s v = wurbs s v" if "v \<noteq> u" for v using that by simp
  have bu: "busy ?s v x \<longleftrightarrow> (if v = u then x = w' else busy s v x)" for v x by (auto simp: w' blank_urb_def)
  have nu: "\<not> busy s u x" for x using free by auto
  have l: "linked ?s v x" if h: "linked s v x" for v x using h r by (auto simp: linked_def link_ok_def)
  have lu: "linked ?s u w'" using r' by (simp add: linked_def link_ok_def w' blank_urb_def)
  have bk: "\<exists>x. busy ?s v x \<and> wu_irp x = Some j" if h: "uirps ?s j = Some q" "ui_wrap_urb q = Some v" for j q v
  proof (cases "j = i")
    case True
    then show ?thesis using h r' bu by (auto simp: w' blank_urb_def)
  next
    case False
    then have "uirps s j = Some q" using h(1) by simp
    then obtain x where x: "busy s v x" "wu_irp x = Some j" using back_linkD [OF ok _ h(2)] by blast
    moreover have "v \<noteq> u" using nu x(1) by blast
    ultimately show ?thesis using bu by auto
  qed
  have "links_ok ?s"
  proof (rule links_okI)
    show "linked ?s v x" if "busy ?s v x" for v x using that lu l busy_linkedD [OF ok] unfolding bu by (cases "v = u") auto
  qed (rule bk)
  moreover have "dma_ok ?s"
  proof -
    have n: "u_dma w' = None" by (simp add: w' blank_urb_def)
    have "\<exists>v x. busy ?s v x \<and> u_dma x = Some d" if h: "dma_buffers ?s d \<noteq> None" for d
    proof -
      have "dma_buffers s d \<noteq> None" using h by simp
      then obtain v x where x: "busy s v x" "u_dma x = Some d" using dma_owned [OF ok] by blast
      moreover have "v \<noteq> u" using nu x(1) by blast
      ultimately show ?thesis using bu by auto
    qed
    moreover have "v = v'" if h: "busy ?s v x" "busy ?s v' x'" "u_dma x = Some d" "u_dma x' = Some d" for v x v' x' d
    proof -
      have "v \<noteq> u" "v' \<noteq> u" using h n bu by auto
      then show ?thesis using h dma_owner [OF ok] unfolding bu by auto
    qed
    ultimately show ?thesis by (intro dma_okI)
  qed
  moreover have "pool_ok ?s" using pool by (simp add: pool_ok_def)
  ultimately show ?thesis by (simp add: urbs_ok_def)
qed

text \<open>Releasing a URB: the state without it, or with it free.\<close>

lemma urbs_ok_unlink:
  assumes ok: "urbs_ok s" and b: "busy s u w" and i: "wu_irp w = Some i" and r: "uirps s i = Some r" and r': "ui_wrap_urb r' = None"
    and s': "uirps s' = (uirps s)(i \<mapsto> r')" "\<And>v. v \<noteq> u \<Longrightarrow> wurbs s' v = wurbs s v" "\<And>x. wurbs s' u = Some x \<Longrightarrow> wu_state x = URB_FREE"
    and d: "dma_buffers s' = (case u_dma w of None \<Rightarrow> dma_buffers s | Some d \<Rightarrow> (dma_buffers s)(d := None))" and pool: "pool_ok s'"
  shows "urbs_ok s'"
proof -
  have bu: "busy s' v x \<longleftrightarrow> v \<noteq> u \<and> busy s v x" for v x using s'(2,3) by (cases "v = u") auto
  have ru: "ui_wrap_urb r = Some u" using busy_linkedD [OF ok b] i r by (auto simp: linked_def link_ok_def)
  have dma: "dma_buffers s' d = dma_buffers s d" if "busy s v x" "v \<noteq> u" "u_dma x = Some d" for v x d
    using dma_owner [OF ok that(1) b that(3)] that(2) unfolding d by (auto split: option.splits)
  have l: "linked s' v x" if h: "linked s v x" "busy s v x" "v \<noteq> u" for v x
  proof -
    obtain j q where jq: "wu_irp x = Some j" "uirps s j = Some q" "link_ok (dma_buffers s) v x q" using h(1) by (auto simp: linked_def)
    then have "j \<noteq> i" using r ru h(3) by (auto simp: link_ok_def)
    moreover have "link_ok (dma_buffers s') v x q" using jq(3) dma [OF h(2,3)] by (auto simp: link_ok_def)
    ultimately show ?thesis using jq(1,2) by (auto simp: linked_def s'(1))
  qed
  have bk: "\<exists>x. busy s' v x \<and> wu_irp x = Some j" if h: "uirps s' j = Some q" "ui_wrap_urb q = Some v" for j q v
  proof -
    have j: "j \<noteq> i" using h r' by (auto simp: s'(1))
    then have "uirps s j = Some q" using h(1) by (simp add: s'(1))
    then obtain x where x: "busy s v x" "wu_irp x = Some j" using back_linkD [OF ok _ h(2)] by blast
    moreover have "v \<noteq> u" using x b i j by auto
    ultimately show ?thesis using bu by auto
  qed
  have "links_ok s'"
  proof (rule links_okI)
    show "linked s' v x" if "busy s' v x" for v x using that l busy_linkedD [OF ok] unfolding bu by auto
  qed (rule bk)
  moreover have "dma_ok s'"
  proof -
    have "\<exists>v x. busy s' v x \<and> u_dma x = Some e" if h: "dma_buffers s' e \<noteq> None" for e
    proof -
      have e: "dma_buffers s e \<noteq> None" "u_dma w \<noteq> Some e" using h unfolding d by (auto split: option.splits if_splits)
      obtain v x where x: "busy s v x" "u_dma x = Some e" using dma_owned [OF ok e(1)] by blast
      moreover have "v \<noteq> u" using x e(2) b by auto
      ultimately show ?thesis using bu by auto
    qed
    then show ?thesis using dma_owner [OF ok] bu by (intro dma_okI) auto
  qed
  ultimately show ?thesis using pool by (simp add: urbs_ok_def)
qed


lemma wrap_free_urb_ok:
  assumes ok: "urbs_ok s" and b: "busy s u w" and i: "wu_irp w = Some i" and r: "uirps s i = Some r"
  shows "\<exists>s'. wrap_free_urb u s = Some s' \<and> urbs_ok s' \<and> uirps s' = (uirps s)(i \<mapsto> r\<lparr>ui_cancel_routine := False, ui_wrap_urb := None\<rparr>) \<and>
    (\<forall>v. v \<noteq> u \<longrightarrow> wurbs s' v = wurbs s v) \<and> (\<forall>x. wurbs s' u = Some x \<longrightarrow> wu_state x = URB_FREE) \<and>
    wrap_urb_complete_list s' = wrap_urb_complete_list s \<and> irps_submitted s' = irps_submitted s \<and> irps_completed s' = irps_completed s"
proof -
  let ?r = "r\<lparr>ui_cancel_routine := False, ui_wrap_urb := None\<rparr>"
  define s1 where "s1 = (upd_irp i ?r s)\<lparr>dma_buffers := (case u_dma w of None \<Rightarrow> dma_buffers s | Some d \<Rightarrow> (dma_buffers s)(d := None))\<rparr>"
  have "wu_copy w \<longleftrightarrow> u_dma w \<noteq> None" "\<forall>d. u_dma w = Some d \<longrightarrow> dma_buffers s d \<noteq> None"
    using busy_linkedD [OF ok b] by (auto simp: linked_def link_ok_def)
  then have f: "free_dma w (upd_irp i ?r s) = Some s1" by (auto simp: free_dma_def s1_def split: option.splits)
  have s1: "wurbs s1 = wurbs s" "uirps s1 = (uirps s)(i \<mapsto> ?r)" "wrap_urb_list s1 = wrap_urb_list s" "num_alloc_urbs s1 = num_alloc_urbs s"
      "wrap_urb_complete_list s1 = wrap_urb_complete_list s" "irps_submitted s1 = irps_submitted s" "irps_completed s1 = irps_completed s"
    by (simp_all add: s1_def)
  have pool: "distinct (wrap_urb_list s)" "dom (wurbs s) = set (wrap_urb_list s)" "num_alloc_urbs s = length (wrap_urb_list s)" "u \<in> set (wrap_urb_list s)"
    using ok b by (auto simp: urbs_ok_def pool_ok_def)
  define s' where "s' = (if num_alloc_urbs s > MAX_ALLOCATED_URBS
      then s1\<lparr>wrap_urb_list := remove1 u (wrap_urb_list s1), num_alloc_urbs := num_alloc_urbs s1 - 1, wurbs := (wurbs s1)(u := None)\<rparr>
      else upd_urb u (w\<lparr>wu_state := URB_FREE, wu_copy := False, wu_irp := None, u_setup := None\<rparr>) s1)"
  have e: "wrap_free_urb u s = Some s'"
    unfolding wrap_free_urb_def using b i r f pool(4) by (simp add: s'_def s1(3,4))
  have p': "pool_ok s'" using pool by (auto simp: pool_ok_def s'_def s1 length_remove1 set_remove1_eq)
  have "urbs_ok s'"
    by (rule urbs_ok_unlink [OF ok b i r, of ?r s']) (use p' in \<open>auto simp: s'_def s1 s1_def split: if_splits\<close>)
  then show ?thesis using e by (auto simp: s'_def s1 split: if_splits)
qed

section \<open>The operations\<close>

text \<open>The accounts: \<open>x\<close> are packets that have a URB but are not submitted yet.\<close>

definition accounts :: "irp_id multiset \<Rightarrow> usb_state \<Rightarrow> bool" where
  "accounts x s \<longleftrightarrow> finite (in_flight s) \<and> irps_submitted s + x = irps_completed s + mset_set (in_flight s)"

lemma in_flight_upd:
  assumes "uirps s' = (uirps s)(i \<mapsto> r)"
  shows "in_flight s' = (if ui_wrap_urb r = None then in_flight s - {i} else insert i (in_flight s))"
  using assms by (auto simp: in_flight_def split: if_splits)

lemma accounts_link:
  assumes "accounts {#} s" "uirps s i = Some r" "ui_wrap_urb r = None" "uirps s' = (uirps s)(i \<mapsto> r')" "ui_wrap_urb r' = Some u"
    "irps_submitted s' = irps_submitted s" "irps_completed s' = irps_completed s"
  shows "accounts {#i#} s'"
proof -
  have "i \<notin> in_flight s" using assms(2,3) by (auto simp: in_flight_def)
  then show ?thesis using assms(1,5-7) in_flight_upd [OF assms(4)] by (simp add: accounts_def)
qed

lemma accounts_unlink:
  assumes "accounts x s" "uirps s i = Some r" "ui_wrap_urb r = Some u" "uirps s' = (uirps s)(i \<mapsto> r')" "ui_wrap_urb r' = None"
    "irps_submitted s' = irps_submitted s" "irps_completed s' = irps_completed s"
  shows "finite (in_flight s') \<and> irps_submitted s' + x = irps_completed s' + {#i#} + mset_set (in_flight s')"
proof -
  have "i \<in> in_flight s" using assms(2,3) by (auto simp: in_flight_def)
  then have "in_flight s = insert i (in_flight s')" "i \<notin> in_flight s'" using in_flight_upd [OF assms(4)] assms(5) by auto
  then show ?thesis using assms(1,6,7) by (simp add: accounts_def)
qed

lemma accounts_same:
  assumes "accounts x s" "in_flight s' = in_flight s" "irps_submitted s' = irps_submitted s" "irps_completed s' = irps_completed s"
  shows "accounts x s'"
  using assms by (simp add: accounts_def)


lemma usb_invD:
  assumes "usb_inv s"
  shows "urbs_ok s" "complete_ok s" "accounts {#} s"
  using assms by (simp_all add: usb_inv_def accounts_def)

text \<open>The state during a request: packet \<open>i\<close> has the allocated URB \<open>u\<close>, everything else is as in \<open>s0\<close>.\<close>

definition opened :: "irp_id \<Rightarrow> urb_id \<Rightarrow> usb_state \<Rightarrow> usb_state \<Rightarrow> bool" where
  "opened i u s0 s \<longleftrightarrow> urbs_ok s \<and> accounts {#i#} s \<and>
     (\<exists>w r. wurbs s u = Some w \<and> wu_state w = URB_ALLOCATED \<and> wu_irp w = Some i \<and> uirps s i = Some r \<and> ui_wrap_urb r = Some u) \<and>
     (\<forall>v. v \<noteq> u \<longrightarrow> wurbs s v = wurbs s0 v) \<and> map_option wu_state (wurbs s0 u) \<noteq> Some URB_COMPLETED \<and>
     wrap_urb_complete_list s = wrap_urb_complete_list s0"

text \<open>Closing a request: the URB is submitted or released.\<close>

lemma usb_inv_close:
  assumes inv: "usb_inv s0" and ok: "urbs_ok s" "accounts {#} s" and fr: "\<And>v. v \<noteq> u \<Longrightarrow> wurbs s v = wurbs s0 v"
    and u0: "map_option wu_state (wurbs s0 u) \<noteq> Some URB_COMPLETED" and u1: "\<And>w. wurbs s u = Some w \<Longrightarrow> wu_state w \<in> {URB_FREE, URB_SUBMITTED}"
    and cl: "wrap_urb_complete_list s = wrap_urb_complete_list s0"
  shows "usb_inv s"
proof -
  have "complete_ok s"
  proof -
    have "map_option wu_state (wurbs s v) = Some URB_COMPLETED \<longleftrightarrow> map_option wu_state (wurbs s0 v) = Some URB_COMPLETED" for v
      using fr u0 u1 by (cases "v = u") auto
    then show ?thesis using inv cl by (simp add: usb_inv_def complete_ok_def)
  qed
  moreover have "wu_state w \<in> {URB_FREE, URB_SUBMITTED, URB_COMPLETED}" if "wurbs s v = Some w" for v w
    using that fr u1 inv by (cases "v = u") (auto simp: usb_inv_def)
  ultimately show ?thesis using ok by (auto simp: usb_inv_def accounts_def)
qed

lemma opened_upd:
  assumes "opened i u s0 s" "wurbs s u = Some w" "wu_state w' = wu_state w" "wu_irp w' = wu_irp w" "wu_copy w' = wu_copy w" "u_length w' = u_length w"
    "u_dma w' = u_dma w" "u_actual w' = u_actual w"
  shows "opened i u s0 (upd_urb u w' s)"
proof -
  have b: "busy s u w" using assms(1,2) by (auto simp: opened_def)
  have "unat (u_actual w) \<le> unat (u_length w)" using assms(1) busy_linkedD [OF _ b] by (auto simp: opened_def linked_def link_ok_def)
  then have "urbs_ok (upd_urb u w' s)" using assms b by (intro urbs_ok_upd_urb [OF _ b]) (auto simp: opened_def)
  moreover have "accounts {#i#} (upd_urb u w' s)" using assms(1) by (auto simp: opened_def in_flight_def intro: accounts_same)
  ultimately show ?thesis using assms by (auto simp: opened_def)
qed

lemma free_opened:
  assumes inv: "usb_inv s0" and op: "opened i u s0 s"
  shows "\<exists>s'. wrap_free_urb u s = Some s' \<and> usb_inv s' \<and> (\<exists>r. uirps s' i = Some r \<and> ui_wrap_urb r = None)"
proof -
  obtain w r where w: "wurbs s u = Some w" "wu_state w = URB_ALLOCATED" "wu_irp w = Some i" "uirps s i = Some r" "ui_wrap_urb r = Some u"
    using op by (auto simp: opened_def)
  have ok: "urbs_ok s" "accounts {#i#} s" using op by (auto simp: opened_def)
  have b: "busy s u w" using w(1,2) by simp
  obtain s' where s': "wrap_free_urb u s = Some s'" "urbs_ok s'" "uirps s' = (uirps s)(i \<mapsto> r\<lparr>ui_cancel_routine := False, ui_wrap_urb := None\<rparr>)"
      "\<forall>v. v \<noteq> u \<longrightarrow> wurbs s' v = wurbs s v" "\<forall>x. wurbs s' u = Some x \<longrightarrow> wu_state x = URB_FREE"
      "wrap_urb_complete_list s' = wrap_urb_complete_list s" "irps_submitted s' = irps_submitted s" "irps_completed s' = irps_completed s"
    using wrap_free_urb_ok [OF ok(1) b w(3,4)] by blast
  have "accounts {#} s'" using accounts_unlink [OF ok(2) w(4,5) s'(3) _ s'(7,8)] by (simp add: accounts_def)
  then have "usb_inv s'" by (rule usb_inv_close [OF inv s'(2), of u]) (use op s'(4-6) in \<open>auto simp: opened_def\<close>)
  then show ?thesis using s'(1,3) by simp
qed

lemma submit_opened:
  assumes inv: "usb_inv s0" and op: "opened i u s0 s"
  shows "\<exists>st s'. wrap_submit_urb i ret s = Some (st, s') \<and> usb_inv s'"
proof -
  obtain w r where w: "wurbs s u = Some w" "wu_state w = URB_ALLOCATED" "wu_irp w = Some i" "uirps s i = Some r" "ui_wrap_urb r = Some u"
    using op by (auto simp: opened_def)
  have ok: "urbs_ok s" "accounts {#i#} s" using op by (auto simp: opened_def)
  define r1 where "r1 = r\<lparr>ui_status := STATUS_PENDING, ui_info := 0, ui_pending := True, ui_nt_urb := (ui_nt_urb r)\<lparr>nu_status := USBD_STATUS_PENDING\<rparr>\<rparr>"
  define s1 where "s1 = upd_urb u (w\<lparr>wu_state := URB_SUBMITTED\<rparr>) (upd_irp i r1 s)"
  have b: "busy s u w" using w by simp
  have a1: "urbs_ok (upd_irp i r1 s)" by (rule urbs_ok_upd_irp [OF ok(1) w(4)]) (simp_all add: r1_def)
  have "unat (u_actual w) \<le> unat (u_length w)" using busy_linkedD [OF ok(1) b] by (auto simp: linked_def link_ok_def)
  then have ok1: "urbs_ok s1" unfolding s1_def by (intro urbs_ok_upd_urb [OF a1, of u w]) (simp_all add: w)
  have fl: "in_flight s1 = in_flight s" using w by (auto simp: in_flight_def s1_def r1_def)
  show ?thesis
  proof (cases "ret = 0")
    case True
    let ?s = "s1\<lparr>irps_submitted := add_mset i (irps_submitted s1)\<rparr>"
    have f: "in_flight ?s = in_flight s" using fl by (simp add: in_flight_def)
    have "urbs_ok ?s" by (rule urbs_ok_cong [OF ok1]) simp_all
    moreover have "accounts {#} ?s" unfolding accounts_def f using ok(2) by (simp add: accounts_def s1_def)
    ultimately have "usb_inv ?s" by (rule usb_inv_close [OF inv, of _ u]) (use op in \<open>auto simp: opened_def s1_def\<close>)
    moreover have "irps_submitted s1 = irps_submitted s" by (simp add: s1_def)
    ultimately show ?thesis using True w by (simp add: wrap_submit_urb_def r1_def [symmetric] s1_def [symmetric] Let_def)
  next
    case False
    have b1: "busy s1 u (w\<lparr>wu_state := URB_SUBMITTED\<rparr>)" and r1: "uirps s1 i = Some r1" by (simp_all add: s1_def)
    obtain s2 where s2: "wrap_free_urb u s1 = Some s2" "urbs_ok s2" "uirps s2 = (uirps s1)(i \<mapsto> r1\<lparr>ui_cancel_routine := False, ui_wrap_urb := None\<rparr>)"
        "\<forall>v. v \<noteq> u \<longrightarrow> wurbs s2 v = wurbs s1 v" "\<forall>x. wurbs s2 u = Some x \<longrightarrow> wu_state x = URB_FREE"
        "wrap_urb_complete_list s2 = wrap_urb_complete_list s1" "irps_submitted s2 = irps_submitted s1" "irps_completed s2 = irps_completed s1"
      using wrap_free_urb_ok [OF ok1 b1 _ r1] w(3) by auto
    define q where "q = (r1\<lparr>ui_cancel_routine := False, ui_wrap_urb := None\<rparr>)\<lparr>ui_pending := False, ui_nt_urb := (ui_nt_urb r1)\<lparr>nu_status := wrap_urb_status ret\<rparr>\<rparr>"
    have "accounts {#i#} s1" using ok(2) fl by (rule accounts_same) (simp_all add: s1_def)
    then have "accounts {#} s2" using accounts_unlink [OF _ r1 _ s2(3) _ s2(7,8), of "{#i#}" u] w(5) by (simp add: accounts_def r1_def)
    moreover have "in_flight (upd_irp i q s2) = in_flight s2" using s2(3) by (auto simp: in_flight_def q_def split: if_splits)
    ultimately have "accounts {#} (upd_irp i q s2)" by (auto intro: accounts_same)
    moreover have "urbs_ok (upd_irp i q s2)" by (rule urbs_ok_new_irp [OF s2(2)]) (auto simp: s2(3) q_def)
    ultimately have "usb_inv (upd_irp i q s2)" by (intro usb_inv_close [OF inv, of _ u]) (use op s2(4-6) in \<open>auto simp: opened_def s1_def\<close>)
    moreover have "wrap_submit_urb i ret s = Some (wrap_urb_status ret, upd_irp i q s2)"
      using False w s2(1,3) by (simp add: wrap_submit_urb_def r1_def [symmetric] s1_def [symmetric] Let_def q_def)
    ultimately show ?thesis by blast
  qed
qed


text \<open>What an allocation may rely on: new blocks are new, and the driver's buffer is as long as it says.\<close>

definition env_ok :: "urb_env \<Rightarrow> usb_state \<Rightarrow> bool" where
  "env_ok e s \<longleftrightarrow> (\<forall>u. en_urb e = Some u \<longrightarrow> wurbs s u = None) \<and> (\<forall>d. en_dma e = Some d \<longrightarrow> dma_buffers s d = None)"

definition request_ok :: "nt_urb \<Rightarrow> bool" where
  "request_ok n \<longleftrightarrow> (\<forall>b. nu_buffer n = Some b \<longrightarrow> unat (nu_length n) \<le> length b)"

lemma take_urb_opened:
  assumes inv: "usb_inv s" and r: "uirps s i = Some r" "ui_wrap_urb r = None" and e: "env_ok e s" and len: "\<And>b. nu_buffer (ui_nt_urb r) = Some b \<Longrightarrow> unat len \<le> length b"
  shows "take_urb i len e s = Some None \<or>
    (\<exists>u s1. take_urb i len e s = Some (Some (u, s1)) \<and> opened i u s s1 \<and> wurbs s1 u = Some (blank_urb i len) \<and>
      uirps s1 i = Some (r\<lparr>ui_wrap_urb := Some u, ui_cancel_routine := True\<rparr>) \<and> dma_buffers s1 = dma_buffers s)"
proof -
  let ?r = "\<lambda>u. r\<lparr>ui_wrap_urb := Some u, ui_cancel_routine := True\<rparr>"
  note ok = usb_invD [OF inv]
  have pool: "distinct (wrap_urb_list s)" "dom (wurbs s) = set (wrap_urb_list s)" "num_alloc_urbs s = length (wrap_urb_list s)"
    using ok(1) by (auto simp: urbs_ok_def pool_ok_def)
  have main: "opened i u s (upd_irp i (?r u) (upd_urb u (blank_urb i len) (s\<lparr>wrap_urb_list := l, num_alloc_urbs := n\<rparr>)))" (is "opened i u s ?s")
    if free: "\<And>w. wurbs s u = Some w \<Longrightarrow> wu_state w = URB_FREE"
      and p: "pool_ok (upd_urb u (blank_urb i len) (s\<lparr>wrap_urb_list := l, num_alloc_urbs := n\<rparr>))" for u l n
  proof -
    have "urbs_ok ?s" by (rule urbs_ok_link [OF ok(1) r free p refl]) (use len in auto)
    moreover have "accounts {#i#} ?s" by (rule accounts_link [OF ok(3) r, of _ "?r u" u]) simp_all
    ultimately show ?thesis using free by (auto simp: opened_def blank_urb_def)
  qed
  show ?thesis
  proof (cases "free_urb s")
    case (Some u)
    then have u: "u \<in> set (wrap_urb_list s)" "map_option wu_state (wurbs s u) = Some URB_FREE"
      by (auto simp: free_urb_def find_Some_iff)
    have "opened i u s (upd_irp i (?r u) (upd_urb u (blank_urb i len) (s\<lparr>wrap_urb_list := wrap_urb_list s, num_alloc_urbs := num_alloc_urbs s\<rparr>)))"
      by (rule main) (use u pool in \<open>auto simp: pool_ok_def\<close>)
    then show ?thesis using Some r by (simp add: take_urb_def Let_def)
  next
    case None
    show ?thesis
    proof (cases "en_urb e")
      case (Some u)
      then have "wurbs s u = None" using e by (simp add: env_ok_def)
      then have "opened i u s (upd_irp i (?r u) (upd_urb u (blank_urb i len) (s\<lparr>wrap_urb_list := wrap_urb_list s @ [u], num_alloc_urbs := Suc (num_alloc_urbs s)\<rparr>)))"
        by (intro main) (use pool in \<open>auto simp: pool_ok_def\<close>)
      then show ?thesis using Some None r by (simp add: take_urb_def Let_def)
    qed (use None r in \<open>simp add: take_urb_def Let_def\<close>)
  qed
qed

text \<open>Giving a URB its own coherent buffer.\<close>

lemma opened_dma:
  assumes op: "opened i u s0 s" and w: "wurbs s u = Some w" "u_dma w = None" and d: "dma_buffers s d = None" and c: "length c = unat (u_length w)"
    and b: "uirps s i = Some r" "nu_buffer (ui_nt_urb r) \<noteq> None"
  shows "opened i u s0 ((upd_urb u (w\<lparr>wu_copy := True, u_dma := Some d\<rparr>) s)\<lparr>dma_buffers := (dma_buffers s)(d \<mapsto> c)\<rparr>)" (is "opened i u s0 ?s")
proof -
  let ?w = "w\<lparr>wu_copy := True, u_dma := Some d\<rparr>"
  have ok: "urbs_ok s" and wi: "wu_irp w = Some i" "wu_state w = URB_ALLOCATED" using op w(1) by (auto simp: opened_def)
  have bu: "busy ?s v x \<longleftrightarrow> (if v = u then x = ?w else busy s v x)" for v x using wi by auto
  have nd: "u_dma x \<noteq> Some d" if "busy s v x" for v x using busy_linkedD [OF ok that] d by (auto simp: linked_def link_ok_def)
  have lu: "linked ?s u ?w" using busy_linkedD [OF ok, of u w] w wi b c by (auto simp: linked_def link_ok_def)
  have l: "linked ?s v x" if h: "linked s v x" "busy s v x" for v x using h nd by (fastforce simp: linked_def link_ok_def)
  have "links_ok ?s"
  proof (rule links_okI)
    show "linked ?s v x" if "busy ?s v x" for v x using that lu l busy_linkedD [OF ok] unfolding bu by (cases "v = u") auto
    show "\<exists>x. busy ?s v x \<and> wu_irp x = Some j" if h: "uirps ?s j = Some q" "ui_wrap_urb q = Some v" for j q v
    proof -
      have "uirps s j = Some q" using h(1) by simp
      then obtain x where "busy s v x" "wu_irp x = Some j" using back_linkD [OF ok _ h(2)] by blast
      then show ?thesis using w(1) unfolding bu by (cases "v = u") auto
    qed
  qed
  moreover have "dma_ok ?s"
  proof (rule dma_okI)
    show "v = v'" if "busy ?s v x" "busy ?s v' x'" "u_dma x = Some a" "u_dma x' = Some a" for v x v' x' a
      using that nd dma_owner [OF ok, of v x v' x' a] unfolding bu by (auto split: if_splits)
    show "\<exists>v x. busy ?s v x \<and> u_dma x = Some a" if "dma_buffers ?s a \<noteq> None" for a
    proof (cases "a = d")
      case True
      then show ?thesis using wi by (intro exI [of _ u] exI [of _ ?w]) simp
    next
      case False
      then obtain v x where "busy s v x" "u_dma x = Some a" using dma_owned [OF ok, of a] \<open>dma_buffers ?s a \<noteq> None\<close> by auto
      then show ?thesis using w unfolding bu by (intro exI [of _ v] exI [of _ x]) auto
    qed
  qed
  moreover have "pool_ok ?s" using ok w(1) by (auto simp: urbs_ok_def pool_ok_def)
  moreover have "accounts {#i#} ?s" using op by (auto simp: opened_def in_flight_def intro: accounts_same)
  ultimately show ?thesis using op w wi by (auto simp: opened_def urbs_ok_def)
qed

text \<open>Giving up after a failed allocation of the coherent buffer.\<close>

lemma abandon_opened:
  assumes inv: "usb_inv s0" and op: "opened i u s0 s" and w: "wurbs s u = Some w" "u_dma w = None" and r: "uirps s i = Some r"
    and q: "ui_wrap_urb q = None" and w': "wu_state w' = URB_FREE"
  shows "usb_inv (upd_irp i q (upd_urb u w' s))" (is "usb_inv ?s")
proof -
  have ok: "urbs_ok s" "accounts {#i#} s" and b: "busy s u w" and wi: "wu_irp w = Some i" and ru: "ui_wrap_urb r = Some u"
    using op w r by (auto simp: opened_def)
  have p: "pool_ok ?s" using ok(1) w(1) by (auto simp: urbs_ok_def pool_ok_def)
  have "urbs_ok ?s" by (rule urbs_ok_unlink [OF ok(1) b wi r q]) (use w' w(2) p in auto)
  moreover have "accounts {#} ?s" using accounts_unlink [OF ok(2) r ru, of ?s q] q by (simp add: accounts_def)
  ultimately show ?thesis by (rule usb_inv_close [OF inv, of _ u]) (use op w' in \<open>auto simp: opened_def\<close>)
qed

lemma wrap_alloc_urb_ok:
  assumes inv: "usb_inv s" and r: "uirps s i = Some r" "ui_wrap_urb r = None" and e: "env_ok e s" and q: "request_ok (ui_nt_urb r)"
  shows "\<exists>uo s1. wrap_alloc_urb i pipe (nu_buffer (ui_nt_urb r)) (nu_length (ui_nt_urb r)) e s = Some (uo, s1) \<and>
    (case uo of None \<Rightarrow> usb_inv s1 | Some u \<Rightarrow> opened i u s s1)"
proof -
  let ?n = "ui_nt_urb r"
  consider "usb_hw_disabled s \<or> take_urb i (nu_length ?n) e s = Some None"
    | u s1 where "\<not> usb_hw_disabled s" "take_urb i (nu_length ?n) e s = Some (Some (u, s1))" "opened i u s s1" "wurbs s1 u = Some (blank_urb i (nu_length ?n))"
        "uirps s1 i = Some (r\<lparr>ui_wrap_urb := Some u, ui_cancel_routine := True\<rparr>)" "dma_buffers s1 = dma_buffers s"
    using take_urb_opened [OF inv r e, of "nu_length ?n"] q unfolding request_ok_def by blast
  then show ?thesis
  proof cases
    case 1
    then show ?thesis using inv by (auto simp: wrap_alloc_urb_def)
  next
    case 2
    define w where "w = blank_urb i (nu_length ?n)"
    have wf: "wurbs s1 u = Some w" "u_dma w = None" "u_length w = nu_length ?n" "wu_irp w = Some i" "wu_state w = URB_ALLOCATED"
      using 2(4) by (simp_all add: w_def blank_urb_def)
    have a: "wrap_alloc_urb i pipe (nu_buffer ?n) (nu_length ?n) e s = alloc_buffer i pipe (nu_buffer ?n) (nu_length ?n) e u s1"
      using 2(1,2) by (simp add: wrap_alloc_urb_def)
    show ?thesis
    proof (cases "nu_buffer ?n \<noteq> None \<and> nu_length ?n \<noteq> 0 \<and> \<not> en_valid e")
      case False
      then have "alloc_buffer i pipe (nu_buffer ?n) (nu_length ?n) e u s1 = Some (Some u, s1)"
        using wf(1) by (auto simp: alloc_buffer_def split: option.splits)
      then show ?thesis using a 2(3) by simp
    next
      case True
      then obtain b where b: "nu_buffer ?n = Some b" "unat (nu_length ?n) \<le> length b" using q by (auto simp: request_ok_def)
      show ?thesis
      proof (cases "en_dma e")
        case None
        let ?q = "r\<lparr>ui_cancel_routine := False, ui_wrap_urb := None\<rparr>"
        let ?s = "upd_irp i ?q (upd_urb u (w\<lparr>wu_state := URB_FREE, wu_irp := None\<rparr>) s1)"
        have "alloc_buffer i pipe (nu_buffer ?n) (nu_length ?n) e u s1 = Some (None, ?s)"
          using True b(1) None wf(1) 2(5) by (simp add: alloc_buffer_def)
        moreover have "usb_inv ?s" by (rule abandon_opened [OF inv 2(3) wf(1,2) 2(5)]) simp_all
        ultimately show ?thesis using a by simp
      next
        case (Some d)
        define c where "c = (if pp_in pipe then replicate (unat (nu_length ?n)) 0 else take (unat (nu_length ?n)) b)"
        have c: "length c = unat (nu_length ?n)" using b(2) by (simp add: c_def)
        let ?s = "(upd_urb u (w\<lparr>wu_copy := True, u_dma := Some d\<rparr>) s1)\<lparr>dma_buffers := (dma_buffers s1)(d \<mapsto> c)\<rparr>"
        have "alloc_buffer i pipe (nu_buffer ?n) (nu_length ?n) e u s1 = Some (Some u, ?s)"
          using True b Some wf(1) by (simp add: alloc_buffer_def c_def)
        moreover have "opened i u s ?s"
          by (rule opened_dma [OF 2(3) wf(1,2) _ _ 2(5)]) (use e Some 2(6) c wf(3) b(1) in \<open>auto simp: env_ok_def\<close>)
        ultimately show ?thesis using a by simp
      qed
    qed
  qed
qed

lemma wrap_bulk_ok:
  assumes inv: "usb_inv s" and r: "uirps s i = Some r" "ui_wrap_urb r = None" and e: "env_ok e s" and q: "request_ok (ui_nt_urb r)"
  shows "\<exists>st s'. wrap_bulk_or_intr_trans i e ret s = Some (st, s') \<and> usb_inv s'"
proof -
  define pipe where "pipe = mk_pipe (if USBD_IS_BULK_PIPE (nu_pipe_handle (ui_nt_urb r)) then PIPE_BULK else PIPE_INTERRUPT)
      (nu_flags (ui_nt_urb r) AND USBD_TRANSFER_DIRECTION_IN \<noteq> 0) (bEndpointAddress (nu_pipe_handle (ui_nt_urb r)))"
  obtain uo s1 where a: "wrap_alloc_urb i pipe (nu_buffer (ui_nt_urb r)) (nu_length (ui_nt_urb r)) e s = Some (uo, s1)"
    and o: "case uo of None \<Rightarrow> usb_inv s1 | Some u \<Rightarrow> opened i u s s1" using wrap_alloc_urb_ok [OF assms] by blast
  show ?thesis
  proof (cases uo)
    case None
    then show ?thesis using r(1) a o by (simp add: wrap_bulk_or_intr_trans_def Let_def pipe_def [symmetric])
  next
    case (Some u)
    then have op: "opened i u s s1" using o by simp
    then obtain w where w: "wurbs s1 u = Some w" by (auto simp: opened_def)
    define w' where "w' = w\<lparr>u_short_not_ok := (pp_in pipe \<and> nu_flags (ui_nt_urb r) AND USBD_SHORT_TRANSFER_OK = 0), u_pipe := pipe,
        u_interval := (if pp_type pipe = PIPE_BULK then 0 else bInterval (nu_pipe_handle (ui_nt_urb r)))\<rparr>"
    have "opened i u s (upd_urb u w' s1)" by (rule opened_upd [OF op w]) (simp_all add: w'_def)
    from submit_opened [OF inv this, of ret] show ?thesis
      using r(1) a Some w by (simp add: wrap_bulk_or_intr_trans_def Let_def pipe_def [symmetric] w'_def [symmetric])
  qed
qed

lemma wrap_vendor_ok:
  assumes inv: "usb_inv s" and r: "uirps s i = Some r" "ui_wrap_urb r = None" and e: "env_ok e s" and q: "request_ok (ui_nt_urb r)"
  shows "\<exists>st s'. wrap_vendor_or_class_req i e mem ret s = Some (st, s') \<and> usb_inv s'"
proof -
  define dir where "dir \<longleftrightarrow> nu_flags (ui_nt_urb r) AND USBD_TRANSFER_DIRECTION_IN \<noteq> 0"
  define pipe where "pipe = mk_pipe PIPE_CONTROL dir 0"
  obtain uo s1 where a: "wrap_alloc_urb i pipe (nu_buffer (ui_nt_urb r)) (nu_length (ui_nt_urb r)) e s = Some (uo, s1)"
    and o: "case uo of None \<Rightarrow> usb_inv s1 | Some u \<Rightarrow> opened i u s s1" using wrap_alloc_urb_ok [OF assms] by blast
  note d = wrap_vendor_or_class_req_def Let_def dir_def [symmetric] pipe_def [symmetric]
  show ?thesis
  proof (cases uo)
    case None
    then show ?thesis using r(1) a o by (simp add: d)
  next
    case (Some u)
    then have op: "opened i u s s1" using o by simp
    then obtain w where w: "wurbs s1 u = Some w" by (auto simp: opened_def)
    define w1 where "w1 = w\<lparr>u_short_not_ok := (dir \<and> nu_flags (ui_nt_urb r) AND USBD_SHORT_TRANSFER_OK = 0)\<rparr>"
    have op1: "opened i u s (upd_urb u (w1\<lparr>u_pipe := p, u_setup := q\<rparr>) s1)" for p q by (rule opened_upd [OF op w]) (simp_all add: w1_def)
    have "w1\<lparr>u_pipe := u_pipe w1, u_setup := u_setup w1\<rparr> = w1" by simp
    then have op2: "opened i u s (upd_urb u w1 s1)" using op1 [of "u_setup w1" "u_pipe w1"] by simp
    show ?thesis
    proof (cases mem)
      case False
      then show ?thesis using r(1) a Some w free_opened [OF inv op2] by (auto simp: d w1_def)
    next
      case True
      then show ?thesis using r(1) a Some w submit_opened [OF inv op1, of ret] by (simp add: d w1_def [symmetric])
    qed
  qed
qed


text \<open>Completion by the kernel: the URB moves to the end of the list of completed ones.\<close>

lemma kernel_data_ok:
  assumes ok: "urbs_ok s" and b: "busy s u w" and d: "length data \<le> unat (u_length w)"
  shows "\<exists>s'. kernel_data u data s = Some s' \<and> urbs_ok s' \<and> wurbs s' = wurbs s \<and> in_flight s' = in_flight s \<and> wrap_urb_complete_list s' = wrap_urb_complete_list s \<and>
    irps_submitted s' = irps_submitted s \<and> irps_completed s' = irps_completed s"
proof -
  obtain i r where ir: "wu_irp w = Some i" "uirps s i = Some r" "link_ok (dma_buffers s) u w r" using busy_linkedD [OF ok b] by (auto simp: linked_def)
  show ?thesis
  proof (cases "pp_in (u_pipe w)")
    case inp: True
    show ?thesis
    proof (cases "u_dma w")
      case None
      show ?thesis
      proof (cases "nu_buffer (ui_nt_urb r)")
        case None
        then show ?thesis using \<open>u_dma w = None\<close> inp b ir ok by (simp add: kernel_data_def)
      next
        case (Some x)
        let ?r = "r\<lparr>ui_nt_urb := (ui_nt_urb r)\<lparr>nu_buffer := Some (overwrite data x)\<rparr>\<rparr>"
        have "length (overwrite data x) = length x" using ir(3) Some d by (auto simp: link_ok_def overwrite_def)
        then have "urbs_ok (upd_irp i ?r s)" using Some by (intro urbs_ok_upd_irp [OF ok ir(2)]) simp_all
        moreover have "in_flight (upd_irp i ?r s) = in_flight s" using ir(2) by (auto simp: in_flight_def)
        ultimately show ?thesis using \<open>u_dma w = None\<close> Some inp b ir by (simp add: kernel_data_def)
      qed
    next
      case (Some d')
      then obtain x where x: "dma_buffers s d' = Some x" "length x = unat (u_length w)" using ir(3) by (auto simp: link_ok_def)
      let ?s = "s\<lparr>dma_buffers := (dma_buffers s)(d' \<mapsto> overwrite data x)\<rparr>"
      have len: "length (overwrite data x) = length x" using d x(2) by (simp add: overwrite_def)
      have "urbs_ok ?s"
      proof -
        have "linked ?s v y" if h: "linked s v y" for v y using h len x(1) by (fastforce simp: linked_def link_ok_def)
        then have "links_ok ?s" using ok by (auto simp: urbs_ok_def links_ok_def)
        moreover have "dma_ok ?s" using ok x(1) unfolding urbs_ok_def dma_ok_def by (auto split: if_splits)
        ultimately show ?thesis using ok by (simp add: urbs_ok_def pool_ok_def)
      qed
      then show ?thesis using Some x(1) inp b by (simp add: kernel_data_def in_flight_def)
    qed
  qed (use b ok in \<open>simp add: kernel_data_def\<close>)
qed

lemma kernel_complete_ok:
  assumes inv: "usb_inv s" and w: "wurbs s u = Some w" "wu_state w = URB_SUBMITTED" and d: "length data \<le> unat (u_length w)"
  shows "\<exists>s'. kernel_complete u st data s = Some s' \<and> usb_inv s'"
proof -
  note ok = usb_invD [OF inv]
  have b: "busy s u w" using w by simp
  obtain s1 where s1: "kernel_data u data s = Some s1" "urbs_ok s1" "wurbs s1 = wurbs s" "in_flight s1 = in_flight s"
      "wrap_urb_complete_list s1 = wrap_urb_complete_list s" "irps_submitted s1 = irps_submitted s" "irps_completed s1 = irps_completed s"
    using kernel_data_ok [OF ok(1) b d] by blast
  have b1: "busy s1 u w" using b s1(3) by simp
  obtain i r where ir: "wu_irp w = Some i" "uirps s1 i = Some r" "ui_wrap_urb r = Some u" using busy_linkedD [OF s1(2) b1] by (auto simp: linked_def link_ok_def)
  define w1 where "w1 = w\<lparr>u_status := st, u_actual := of_nat (length data)\<rparr>"
  define s' where "s' = (upd_urb u (w1\<lparr>wu_state := URB_COMPLETED\<rparr>) (upd_irp i (r\<lparr>ui_cancel_routine := False\<rparr>) (upd_urb u w1 s1)))
      \<lparr>wrap_urb_complete_list := wrap_urb_complete_list s @ [u], wrap_urb_complete_work := True\<rparr>"
  have e: "kernel_complete u st data s = Some s'"
    using s1(1,3,5) w(1) ir by (simp add: kernel_complete_def wrap_urb_complete_def w1_def [symmetric] s'_def)
  have ac: "unat (u_actual w1) \<le> unat (u_length w1)" using d by (simp add: w1_def unat_of_nat mod_le_divisor le_trans [OF mod_less_eq_dividend])
  have "urbs_ok (upd_urb u w1 s1)" using w(2) ac by (intro urbs_ok_upd_urb [OF s1(2) b1]) (simp_all add: w1_def)
  then have "urbs_ok (upd_irp i (r\<lparr>ui_cancel_routine := False\<rparr>) (upd_urb u w1 s1))" using ir by (intro urbs_ok_upd_irp) simp_all
  then have "urbs_ok (upd_urb u (w1\<lparr>wu_state := URB_COMPLETED\<rparr>) (upd_irp i (r\<lparr>ui_cancel_routine := False\<rparr>) (upd_urb u w1 s1)))"
    using ac w(2) by (intro urbs_ok_upd_urb [of _ u w1]) (simp_all add: w1_def)
  then have "urbs_ok s'" by (rule urbs_ok_cong) (simp_all add: s'_def)
  moreover have "in_flight s' = in_flight s1" using ir by (auto simp: s'_def in_flight_def)
  then have "accounts {#} s'" using s1(4,6,7) by (intro accounts_same [OF ok(3)]) (simp_all add: s'_def)
  moreover have "complete_ok s'"
    using ok(2) w s1(3) by (auto simp: complete_ok_def s'_def)
  moreover have "\<forall>v x. wurbs s' v = Some x \<longrightarrow> wu_state x \<in> {URB_FREE, URB_SUBMITTED, URB_COMPLETED}"
    using inv s1(3) by (auto simp: s'_def usb_inv_def)
  ultimately show ?thesis using e by (auto simp: usb_inv_def accounts_def)
qed

lemma finish_irp_ok:
  assumes "link_ok (dma_buffers s) u w r"
  shows "\<exists>r1. finish_irp w r s = Some r1 \<and> ui_wrap_urb r1 = ui_wrap_urb r \<and>
    map_option length (nu_buffer (ui_nt_urb r1)) = map_option length (nu_buffer (ui_nt_urb r))"
proof (cases "u_status w = 0 \<and> wu_copy w \<and> pp_in (u_pipe w)")
  case True
  then obtain d b c where "u_dma w = Some d" "dma_buffers s d = Some b" "length b = unat (u_length w)" "nu_buffer (ui_nt_urb r) = Some c"
      "unat (u_length w) \<le> length c" "unat (u_actual w) \<le> unat (u_length w)" using assms by (auto simp: link_ok_def)
  then show ?thesis using True by (simp add: finish_irp_def copy_back_def blk_copy_def)
qed (auto simp: finish_irp_def copy_back_def)

lemma complete_one_ok:
  assumes inv: "usb_inv s"
  shows "\<exists>s'. complete_one s = Some s' \<and> usb_inv s' \<and> wrap_urb_complete_list s' = tl (wrap_urb_complete_list s)"
proof (cases "wrap_urb_complete_list s")
  case Nil
  then show ?thesis using inv by (simp add: complete_one_def)
next
  case (Cons u us)
  note ok = usb_invD [OF inv]
  have c: "distinct (u # us)" "set (u # us) = {v. map_option wu_state (wurbs s v) = Some URB_COMPLETED}" using ok(2) Cons by (simp_all add: complete_ok_def)
  then obtain w where w: "wurbs s u = Some w" "wu_state w = URB_COMPLETED" by auto
  then have b: "busy s u w" by simp
  obtain i r where ir: "wu_irp w = Some i" "uirps s i = Some r" "link_ok (dma_buffers s) u w r" using busy_linkedD [OF ok(1) b] by (auto simp: linked_def)
  obtain r1 where r1: "finish_irp w r s = Some r1" "ui_wrap_urb r1 = ui_wrap_urb r"
      "map_option length (nu_buffer (ui_nt_urb r1)) = map_option length (nu_buffer (ui_nt_urb r))" using finish_irp_ok [OF ir(3)] by blast
  have ru: "ui_wrap_urb r = Some u" using ir(3) by (simp add: link_ok_def)
  define s1 where "s1 = upd_irp i r1 (s\<lparr>wrap_urb_complete_list := us\<rparr>)"
  have "urbs_ok (upd_irp i r1 s)" by (rule urbs_ok_upd_irp [OF ok(1) ir(2) r1(2,3)])
  then have ok1: "urbs_ok s1" by (rule urbs_ok_cong) (simp_all add: s1_def)
  have f1: "in_flight s1 = in_flight s" using ir(2) r1(2) ru by (auto simp: in_flight_def s1_def)
  have b1: "busy s1 u w" and u1: "uirps s1 i = Some r1" using b by (simp_all add: s1_def)
  obtain s2 where s2: "wrap_free_urb u s1 = Some s2" "urbs_ok s2" "uirps s2 = (uirps s1)(i \<mapsto> r1\<lparr>ui_cancel_routine := False, ui_wrap_urb := None\<rparr>)"
      "\<forall>v. v \<noteq> u \<longrightarrow> wurbs s2 v = wurbs s1 v" "\<forall>x. wurbs s2 u = Some x \<longrightarrow> wu_state x = URB_FREE"
      "wrap_urb_complete_list s2 = wrap_urb_complete_list s1" "irps_submitted s2 = irps_submitted s1" "irps_completed s2 = irps_completed s1"
    using wrap_free_urb_ok [OF ok1 b1 ir(1) u1] by blast
  let ?s = "s2\<lparr>irps_completed := add_mset i (irps_completed s2)\<rparr>"
  have e: "complete_one s = Some ?s" using Cons w(1) ir(1,2) r1(1) s2(1) by (simp add: complete_one_def s1_def)
  have "urbs_ok ?s" by (rule urbs_ok_cong [OF s2(2)]) simp_all
  moreover have "accounts {#} s1" by (rule accounts_same [OF ok(3) f1]) (simp_all add: s1_def)
  then have a2: "finite (in_flight s2)" "irps_submitted s2 + {#} = irps_completed s2 + {#i#} + mset_set (in_flight s2)"
    using accounts_unlink [OF _ u1 _ s2(3) _ s2(7,8), of "{#}" u] ru r1(2) by simp_all
  have "in_flight ?s = in_flight s2" by (simp add: in_flight_def)
  then have "finite (in_flight ?s) \<and> irps_submitted ?s = irps_completed ?s + mset_set (in_flight ?s)" using a2 by simp
  moreover have "map_option wu_state (wurbs s2 v) = Some URB_COMPLETED \<longleftrightarrow> v \<noteq> u \<and> map_option wu_state (wurbs s v) = Some URB_COMPLETED" for v
    using s2(4,5) by (cases "v = u") (auto simp: s1_def)
  then have "complete_ok ?s" using c s2(6) by (auto simp: complete_ok_def s1_def)
  moreover have "wu_state x \<in> {URB_FREE, URB_SUBMITTED, URB_COMPLETED}" if "wurbs s2 v = Some x" for v x
    using that s2(4,5) inv by (cases "v = u") (auto simp: s1_def usb_inv_def)
  ultimately have "usb_inv ?s" by (auto simp: usb_inv_def)
  then show ?thesis using e Cons s2(6) by (simp add: s1_def)
qed


lemma cancel_request_ok:
  assumes inv: "usb_inv s" and c: "cancel_request unlink i s = Some s'"
  shows "usb_inv s'"
proof -
  note ok = usb_invD [OF inv]
  obtain r where r: "uirps s i = Some r" using c by (auto simp: cancel_request_def bind_eq_Some_conv)
  obtain f g where s': "s' = upd_irp i (r\<lparr>ui_cancel_routine := f, ui_cancel := g\<rparr>) s"
    using c r by (auto simp: cancel_request_def wrap_cancel_irp_def bind_eq_Some_conv upd_irp_def Let_def split: if_splits)
  have "in_flight s' = in_flight s" using r by (auto simp: in_flight_def s')
  then have "accounts {#} s'" by (rule accounts_same [OF ok(3)]) (simp_all add: s')
  moreover have "urbs_ok s'" unfolding s' by (rule urbs_ok_upd_irp [OF ok(1) r]) simp_all
  ultimately show ?thesis using inv by (auto simp: usb_inv_def accounts_def complete_ok_def s')
qed

lemma wrap_abort_pipe_ok:
  assumes inv: "usb_inv s" and a: "wrap_abort_pipe unlink i s = Some (st, us, s')"
  shows "usb_inv s'"
proof -
  note ok = usb_invD [OF inv]
  obtain r where r: "uirps s i = Some r" and s': "s' = upd_irp i (r\<lparr>ui_nt_urb := (ui_nt_urb r)\<lparr>nu_status := USBD_STATUS_CANCELED\<rparr>\<rparr>) s"
    using a by (auto simp: wrap_abort_pipe_def bind_eq_Some_conv)
  have "in_flight s' = in_flight s" using r by (auto simp: in_flight_def s')
  then have "accounts {#} s'" by (rule accounts_same [OF ok(3)]) (simp_all add: s')
  moreover have "urbs_ok s'" unfolding s' by (rule urbs_ok_upd_irp [OF ok(1) r]) simp_all
  ultimately show ?thesis using inv by (auto simp: usb_inv_def accounts_def complete_ok_def s')
qed

lemma new_irp_ok:
  assumes inv: "usb_inv s" and r: "\<And>r. uirps s i = Some r \<Longrightarrow> ui_wrap_urb r = None" and r': "ui_wrap_urb r' = None"
  shows "usb_inv (upd_irp i r' s)"
proof -
  note ok = usb_invD [OF inv]
  have "in_flight (upd_irp i r' s) = in_flight s" using r r' by (auto simp: in_flight_def split: if_splits)
  then have "accounts {#} (upd_irp i r' s)" by (rule accounts_same [OF ok(3)]) simp_all
  moreover have "urbs_ok (upd_irp i r' s)" by (rule urbs_ok_new_irp [OF ok(1) r r'])
  ultimately show ?thesis using inv by (auto simp: usb_inv_def accounts_def complete_ok_def)
qed

section \<open>Sequences of calls\<close>

text \<open>
  Each step is a whole call, and calls do not overlap: a completion by the kernel, for one, comes after the call that submitted the URB has returned.  The driver makes up a packet and sends it down as a transfer or a control request, the kernel completes a submitted URB with no more data than was
  asked for, the worker makes a round, a packet is cancelled, a pipe is aborted.  Removing the configuration (\<^verbatim>\<open>kill_all_urbs\<close>) is not among the steps.
\<close>

inductive usb_step :: "usb_state \<Rightarrow> usb_state \<Rightarrow> bool" where
  make: "(\<forall>r. uirps s i = Some r \<longrightarrow> ui_wrap_urb r = None) \<Longrightarrow> ui_wrap_urb r' = None \<Longrightarrow> usb_step s (upd_irp i r' s)"
| transfer: "uirps s i = Some r \<Longrightarrow> ui_wrap_urb r = None \<Longrightarrow> request_ok (ui_nt_urb r) \<Longrightarrow> env_ok e s \<Longrightarrow>
    wrap_bulk_or_intr_trans i e ret s = Some (st, s') \<Longrightarrow> usb_step s s'"
| control: "uirps s i = Some r \<Longrightarrow> ui_wrap_urb r = None \<Longrightarrow> request_ok (ui_nt_urb r) \<Longrightarrow> env_ok e s \<Longrightarrow>
    wrap_vendor_or_class_req i e mem ret s = Some (st, s') \<Longrightarrow> usb_step s s'"
| finish: "wurbs s u = Some w \<Longrightarrow> wu_state w = URB_SUBMITTED \<Longrightarrow> length data \<le> unat (u_length w) \<Longrightarrow> kernel_complete u st data s = Some s' \<Longrightarrow> usb_step s s'"
| work: "complete_one s = Some s' \<Longrightarrow> usb_step s s'"
| cancel: "cancel_request unlink i s = Some s' \<Longrightarrow> usb_step s s'"
| abort: "wrap_abort_pipe unlink i s = Some (st, us, s') \<Longrightarrow> usb_step s s'"

definition usb_start :: usb_state where
  "usb_start = \<lparr>wurbs = Map.empty, wrap_urb_list = [], num_alloc_urbs = 0, wrap_urb_complete_list = [], wrap_urb_complete_work = False, uirps = Map.empty,
     dma_buffers = Map.empty, usb_hw_disabled = False, irps_submitted = {#}, irps_completed = {#}\<rparr>"

inductive usb_reach :: "usb_state \<Rightarrow> bool" where
  start: "usb_reach usb_start"
| more: "usb_reach s \<Longrightarrow> usb_step s s' \<Longrightarrow> usb_reach s'"

lemma usb_step_inv: "usb_step s s' \<Longrightarrow> usb_inv s \<Longrightarrow> usb_inv s'"
proof (induction rule: usb_step.induct)
  case (make s i r')
  then show ?case by (intro new_irp_ok) auto
next
  case (transfer s i r e ret st s')
  then show ?case using wrap_bulk_ok [of s i r e ret] by auto
next
  case (control s i r e mem ret st s')
  then show ?case using wrap_vendor_ok [of s i r e mem ret] by auto
next
  case (finish s u w data st s')
  then show ?case using kernel_complete_ok [of s u w data st] by auto
next
  case (work s s')
  then show ?case using complete_one_ok [of s] by auto
qed (auto intro: cancel_request_ok wrap_abort_pipe_ok)

lemma usb_start_inv: "usb_inv usb_start"
  by (simp add: usb_inv_def usb_start_def urbs_ok_def pool_ok_def links_ok_def dma_ok_def complete_ok_def in_flight_def)

lemma usb_reach_inv: "usb_reach s \<Longrightarrow> usb_inv s"
  by (induction rule: usb_reach.induct) (auto intro: usb_start_inv usb_step_inv)

lemma worker_rounds_ok:
  "usb_inv s \<Longrightarrow> n = length (wrap_urb_complete_list s) \<Longrightarrow> \<exists>s'. worker_rounds n s = Some s' \<and> usb_inv s' \<and> wrap_urb_complete_list s' = []"
proof (induction n arbitrary: s)
  case (Suc n)
  obtain s1 where s1: "complete_one s = Some s1" "usb_inv s1" "wrap_urb_complete_list s1 = tl (wrap_urb_complete_list s)" using complete_one_ok [OF Suc.prems(1)] by blast
  then have "n = length (wrap_urb_complete_list s1)" using Suc.prems(2) by simp
  from Suc.IH [OF s1(2) this] show ?case using s1(1) by simp
qed simp

text \<open>C35: after every sequence of requests, completions, rounds of the worker, cancellations and abortions in which no two calls overlap and
  the configuration is not removed, the packets submitted are those completed and those that a URB in use points to, each counted once: none is lost and
  none is completed twice; the list of URBs has exactly the live ones with their number, every coherent buffer belongs to exactly one URB in use, and a
  worker that runs now hands over every completed URB without a fault.\<close>
theorem urb_life_cycle:
  assumes "usb_reach s"
  shows "irps_submitted s = irps_completed s + mset_set (in_flight s) \<and>
    distinct (wrap_urb_list s) \<and> set (wrap_urb_list s) = dom (wurbs s) \<and> num_alloc_urbs s = length (wrap_urb_list s) \<and>
    (\<forall>d. dma_buffers s d \<noteq> None \<longrightarrow> (\<exists>!u. \<exists>w. wurbs s u = Some w \<and> wu_state w \<noteq> URB_FREE \<and> u_dma w = Some d)) \<and>
    (\<exists>s'. wrap_urb_complete_worker s = Some s' \<and> wrap_urb_complete_list s' = [] \<and> irps_submitted s' = irps_completed s' + mset_set (in_flight s'))"
proof -
  have inv: "usb_inv s" using assms by (rule usb_reach_inv)
  have ok: "urbs_ok s" using inv by (rule usb_invD)
  have "\<exists>!u. \<exists>w. busy s u w \<and> u_dma w = Some d" if "dma_buffers s d \<noteq> None" for d
    using dma_owned [OF ok that] dma_owner [OF ok] by blast
  moreover have "usb_inv (s\<lparr>wrap_urb_complete_work := False\<rparr>)"
  proof -
    have "urbs_ok (s\<lparr>wrap_urb_complete_work := False\<rparr>)" by (rule urbs_ok_cong [OF ok]) simp_all
    then show ?thesis using inv by (simp add: usb_inv_def complete_ok_def in_flight_def)
  qed
  then have "\<exists>s'. wrap_urb_complete_worker s = Some s' \<and> usb_inv s' \<and> wrap_urb_complete_list s' = []"
    unfolding wrap_urb_complete_worker_def by (rule worker_rounds_ok) simp
  ultimately show ?thesis using inv by (auto simp: usb_inv_def urbs_ok_def pool_ok_def)
qed


section \<open>Releasing and allocating at the same time\<close>

text \<open>The last part of \<^verbatim>\<open>wrap_free_urb\<close>, for a URB that stays in the list, writes its fields one after the other and without the cancel lock: first the
  state, then flags and packet.\<close>

definition release_mark :: "urb_id \<Rightarrow> usb_state \<Rightarrow> usb_state option" where
  "release_mark u s = do { w \<leftarrow> wurbs s u; Some (upd_urb u (w\<lparr>wu_state := URB_FREE\<rparr>) s) }"

definition release_clear :: "urb_id \<Rightarrow> usb_state \<Rightarrow> usb_state option" where
  "release_clear u s = do { w \<leftarrow> wurbs s u; Some (upd_urb u (w\<lparr>wu_copy := False, wu_irp := None\<rparr>) s) }"

text \<open>When another request takes the URB between these writes, the URB it uses points to no packet any more.\<close>

lemma urb_release_race:
  assumes "release_mark u s = Some s1" "free_urb s1 = Some u" "uirps s j = Some r"
  shows "\<exists>s2 s3 w. take_urb j len e s1 = Some (Some (u, s2)) \<and> release_clear u s2 = Some s3 \<and> wurbs s3 u = Some w \<and>
    wu_state w = URB_ALLOCATED \<and> wu_irp w = None \<and> map_option ui_wrap_urb (uirps s3 j) = Some (Some u)"
  using assms by (auto simp: release_mark_def release_clear_def take_urb_def upd_urb_def upd_irp_def blank_urb_def bind_eq_Some_conv)

section \<open>Data of an input transfer\<close>

text \<open>C36: data that the device sends for a submitted input request is found at the start of the driver's buffer when the packet is completed, whether
  the transfer went into that buffer or through a coherent copy, with its length and the status of success.\<close>
theorem transfer_in_data:
  assumes inv: "usb_reach s" and w: "wurbs s u = Some w" "wu_state w = URB_SUBMITTED" "pp_in (u_pipe w)" and i: "wu_irp w = Some i" "uirps s i = Some r"
    and b: "nu_buffer (ui_nt_urb r) = Some b" and d: "length data \<le> unat (u_length w)" and idle: "wrap_urb_complete_list s = []"
  shows "\<exists>s1 s2 r2. kernel_complete u 0 data s = Some s1 \<and> complete_one s1 = Some s2 \<and> uirps s2 i = Some r2 \<and> ui_status r2 = STATUS_SUCCESS \<and>
    ui_info r2 = length data \<and> nu_buffer (ui_nt_urb r2) = Some (data @ drop (length data) b) \<and> nu_length (ui_nt_urb r2) = of_nat (length data)"
proof -
  note ok = usb_invD [OF usb_reach_inv [OF inv]]
  have bw: "busy s u w" using w by simp
  have l: "link_ok (dma_buffers s) u w r" using busy_linkedD [OF ok(1) bw] i by (auto simp: linked_def)
  have len: "unat (of_nat (length data) :: u32) = length data" using d unat_bounds(3) [of "u_length w"] by (simp add: unat_of_nat)
  have db: "length data \<le> length b" using l b d by (auto simp: link_ok_def)
  define w1 where "w1 = w\<lparr>u_status := 0, u_actual := of_nat (length data), wu_state := URB_COMPLETED\<rparr>"
  define q where "q = (if u_dma w = None then r\<lparr>ui_nt_urb := (ui_nt_urb r)\<lparr>nu_buffer := Some (overwrite data b)\<rparr>\<rparr> else r)"
  obtain s1 where s1: "kernel_complete u 0 data s = Some s1" "wrap_urb_complete_list s1 = [u]" "wurbs s1 u = Some w1"
      "uirps s1 i = Some (q\<lparr>ui_cancel_routine := False\<rparr>)" 
      "dma_buffers s1 = (case u_dma w of None \<Rightarrow> dma_buffers s | Some a \<Rightarrow> (dma_buffers s)(a \<mapsto> overwrite data (the (dma_buffers s a))))"
    using w i b l idle by (auto simp: kernel_complete_def kernel_data_def wrap_urb_complete_def link_ok_def w1_def q_def split: option.splits)
  have inv1: "usb_inv s1" using kernel_complete_ok [OF usb_reach_inv [OF inv] w(1,2) d, of 0] s1(1) by simp
  obtain s2 where s2: "complete_one s1 = Some s2" using complete_one_ok [OF inv1] by blast
  have fin: "finish_irp w1 (q\<lparr>ui_cancel_routine := False\<rparr>) s1 = Some r1 \<Longrightarrow>
      ui_status r1 = STATUS_SUCCESS \<and> ui_info r1 = length data \<and> nu_buffer (ui_nt_urb r1) = Some (data @ drop (length data) b) \<and> nu_length (ui_nt_urb r1) = of_nat (length data)" for r1
  proof (cases "u_dma w")
    case None
    then have "\<not> wu_copy w" using l by (simp add: link_ok_def)
    then show "finish_irp w1 (q\<lparr>ui_cancel_routine := False\<rparr>) s1 = Some r1 \<Longrightarrow> ?thesis" using None by (auto simp: finish_irp_def copy_back_def w1_def q_def len overwrite_def)
  next
    case (Some a)
    then obtain c where c: "dma_buffers s a = Some c" "length c = unat (u_length w)" "wu_copy w" using l by (auto simp: link_ok_def)
    then have "dma_buffers s1 a = Some (overwrite data c)" using s1(5) Some by simp
    then show "finish_irp w1 (q\<lparr>ui_cancel_routine := False\<rparr>) s1 = Some r1 \<Longrightarrow> ?thesis"
      using Some c w(3) b db by (auto simp: finish_irp_def copy_back_def w1_def q_def len overwrite_def blk_copy_def bind_eq_Some_conv split: if_splits)
  qed
  obtain r1 s' where r1: "finish_irp w1 (q\<lparr>ui_cancel_routine := False\<rparr>) s1 = Some r1"
      and f: "wrap_free_urb u (upd_irp i r1 (s1\<lparr>wrap_urb_complete_list := []\<rparr>)) = Some s'" "s2 = s'\<lparr>irps_completed := add_mset i (irps_completed s')\<rparr>"
    using s2 s1(2-4) i(1) by (auto simp: complete_one_def w1_def bind_eq_Some_conv)
  have "uirps s' i = Some (r1\<lparr>ui_cancel_routine := False, ui_wrap_urb := None\<rparr>)"
    using f(1) s1(3) i(1) by (auto simp: wrap_free_urb_def free_dma_def w1_def bind_eq_Some_conv split: if_splits)
  then show ?thesis using s1(1) s2 fin [OF r1] f(2) by simp
qed

section \<open>Removal and abortion\<close>

lemma kernel_complete_frame:
  assumes "wurbs s u = Some w" "linked s u w"
  shows "\<exists>s'. kernel_complete u st [] s = Some s' \<and> (\<forall>v. v \<noteq> u \<longrightarrow> wurbs s' v = wurbs s v) \<and> wrap_urb_complete_list s' = wrap_urb_complete_list s @ [u] \<and>
    (\<forall>v x. v \<noteq> u \<longrightarrow> linked s v x \<longrightarrow> linked s' v x)"
proof -
  obtain i r where ir: "wu_irp w = Some i" "uirps s i = Some r" "link_ok (dma_buffers s) u w r" using assms(2) by (auto simp: linked_def)
  have o: "overwrite [] b = b" for b by (simp add: overwrite_def)
  have ov: "(dma_buffers s)(d \<mapsto> b) = dma_buffers s" if "dma_buffers s d = Some b" for d b using that by (simp add: fun_upd_idem)
  have "kernel_data u [] s = Some s"
    using assms(1) ir ov by (auto simp: kernel_data_def link_ok_def o upd_irp_def fun_upd_idem split: option.splits)
  then obtain s' where s': "kernel_complete u st [] s = Some s'" "\<forall>v. v \<noteq> u \<longrightarrow> wurbs s' v = wurbs s v"
      "wrap_urb_complete_list s' = wrap_urb_complete_list s @ [u]" "uirps s' = (uirps s)(i \<mapsto> r\<lparr>ui_cancel_routine := False\<rparr>)" "dma_buffers s' = dma_buffers s"
    using assms(1) ir(1,2) by (simp add: kernel_complete_def wrap_urb_complete_def)
  have "linked s' v x" if h: "linked s v x" "v \<noteq> u" for v x
  proof -
    obtain j q where j: "wu_irp x = Some j" "uirps s j = Some q" "link_ok (dma_buffers s) v x q" using h(1) by (auto simp: linked_def)
    then have "j \<noteq> i" using ir(2,3) h(2) by (auto simp: link_ok_def)
    then show ?thesis using j by (auto simp: linked_def s'(4,5))
  qed
  then show ?thesis using s'(1-3) by blast
qed

lemma kill_urbs_result:
  assumes "distinct l" "\<And>u. u \<in> set l \<Longrightarrow> \<exists>w. wurbs s u = Some w \<and> (wu_state w = URB_SUBMITTED \<longrightarrow> linked s u w)"
  shows "\<exists>s'. kill_urbs True l s = Some s' \<and> (\<forall>u. wurbs s' u = (if u \<in> set l then None else wurbs s u)) \<and>
    wrap_urb_complete_list s' = wrap_urb_complete_list s @ filter (\<lambda>u. map_option wu_state (wurbs s u) = Some URB_SUBMITTED) l"
  using assms
proof (induction l arbitrary: s)
  case (Cons u l)
  let ?s = "s\<lparr>wrap_urb_list := l\<rparr>"
  obtain w where w: "wurbs s u = Some w" "wu_state w = URB_SUBMITTED \<longrightarrow> linked ?s u w" using Cons.prems(2) [of u] by (auto simp: linked_def)
  obtain s1 where s1: "kill_urb True u ?s = Some s1" "\<forall>v. v \<noteq> u \<longrightarrow> wurbs s1 v = wurbs s v" "wurbs s1 u = None"
      "wrap_urb_complete_list s1 = wrap_urb_complete_list s @ (if wu_state w = URB_SUBMITTED then [u] else [])" "\<forall>v x. v \<noteq> u \<longrightarrow> linked s v x \<longrightarrow> linked s1 v x"
  proof (cases "wu_state w = URB_SUBMITTED")
    case True
    obtain t where "kernel_complete u E_NOENT [] ?s = Some t" "\<forall>v. v \<noteq> u \<longrightarrow> wurbs t v = wurbs s v" "wrap_urb_complete_list t = wrap_urb_complete_list s @ [u]"
        "\<forall>v x. v \<noteq> u \<longrightarrow> linked ?s v x \<longrightarrow> linked t v x" using kernel_complete_frame [of ?s u w E_NOENT] w True by auto
    then show ?thesis using w True by (intro that [of "t\<lparr>wurbs := (wurbs t)(u := None)\<rparr>"]) (auto simp: kill_urb_def linked_def)
  next
    case False
    then show ?thesis using w by (intro that [of "?s\<lparr>wurbs := (wurbs ?s)(u := None)\<rparr>"]) (auto simp: kill_urb_def linked_def)
  qed
  have "\<exists>x. wurbs s1 v = Some x \<and> (wu_state x = URB_SUBMITTED \<longrightarrow> linked s1 v x)" if "v \<in> set l" for v
  proof -
    have "v \<noteq> u" using that Cons.prems(1) by auto
    then show ?thesis using Cons.prems(2) [of v] that s1(2,5) by auto
  qed
  with Cons.IH [of s1] Cons.prems(1) obtain s' where s': "kill_urbs True l s1 = Some s'" "\<forall>v. wurbs s' v = (if v \<in> set l then None else wurbs s1 v)"
      "wrap_urb_complete_list s' = wrap_urb_complete_list s1 @ filter (\<lambda>v. map_option wu_state (wurbs s1 v) = Some URB_SUBMITTED) l" by auto
  have "filter (\<lambda>v. map_option wu_state (wurbs s1 v) = Some URB_SUBMITTED) l = filter (\<lambda>v. map_option wu_state (wurbs s v) = Some URB_SUBMITTED) l"
    using s1(2) Cons.prems(1) by (intro filter_cong) auto
  then show ?case using s1 s' w(1) by (auto split: if_splits)
qed simp

text \<open>C37: deselecting the configuration while a URB is submitted or waits for the worker leaves a freed URB in the list of completed ones, and the
  completion worker accesses it.\<close>
theorem kill_all_urbs_use_after_free:
  assumes "usb_reach s" "wurbs s u = Some w" "wu_state w = URB_SUBMITTED \<or> wu_state w = URB_COMPLETED"
  shows "\<exists>s'. kill_all_urbs True s = Some s' \<and> wrap_urb_complete_worker s' = None"
proof -
  have inv: "usb_inv s" using assms(1) by (rule usb_reach_inv)
  note ok = usb_invD [OF inv]
  have p: "distinct (wrap_urb_list s)" "dom (wurbs s) = set (wrap_urb_list s)" using ok(1) by (auto simp: urbs_ok_def pool_ok_def)
  have "\<exists>w. wurbs s v = Some w \<and> (wu_state w = URB_SUBMITTED \<longrightarrow> linked s v w)" if "v \<in> set (wrap_urb_list s)" for v
    using that p(2) busy_linkedD [OF ok(1)] by force
  then obtain s' where s': "kill_urbs True (wrap_urb_list s) s = Some s'" "\<forall>v. wurbs s' v = (if v \<in> set (wrap_urb_list s) then None else wurbs s v)"
      "wrap_urb_complete_list s' = wrap_urb_complete_list s @ filter (\<lambda>v. map_option wu_state (wurbs s v) = Some URB_SUBMITTED) (wrap_urb_list s)"
    using kill_urbs_result [OF p(1), of s] by blast
  have "u \<in> set (wrap_urb_complete_list s')" using assms(2,3) p(2) ok(2) by (auto simp: s'(3) complete_ok_def)
  moreover have "wurbs s' v = None" for v using s'(2) p(2) by (metis domIff)
  ultimately show ?thesis using s'(1)
    by (auto simp: kill_all_urbs_def wrap_urb_complete_worker_def complete_one_def split: list.splits)
       (cases "wrap_urb_complete_list s'"; auto simp: complete_one_def)
qed

text \<open>aborting a pipe whose endpoint address has the direction bit of an input endpoint cancels no URB of that endpoint: the addresses are
  compared with endpoint numbers.\<close>
theorem abort_in_pipe_cancels_nothing:
  assumes "\<forall>u w. wurbs s u = Some w \<longrightarrow> pp_endpoint (u_pipe w) < 16" "uirps s i = Some r" "bit (bEndpointAddress (nu_pipe_handle (ui_nt_urb r))) 7"
    "wrap_abort_pipe unlink i s = Some (st, us, s')"
  shows "\<forall>u \<in> set us. \<exists>w. wurbs s u = Some w \<and> pp_endpoint (u_pipe w) = 0"
proof -
  define a where "a = bEndpointAddress (nu_pipe_handle (ui_nt_urb r))"
  have sel: "abort_urbs unlink a l s = Some us' \<Longrightarrow> \<forall>v \<in> set us'. \<exists>x. wurbs s v = Some x \<and> abort_selects a x" for l us'
    by (induction l arbitrary: us') (auto simp: bind_eq_Some_conv split: if_splits)
  have "\<not> a < 16"
  proof
    assume "a < 16"
    then have "unat a < 2 ^ 7" by (simp add: word_less_nat_alt)
    then have "\<not> bit (unat a) 7" by (simp add: bit_iff_odd)
    then show False using assms(3) by (simp add: a_def bit_unsigned_iff)
  qed
  moreover have "abort_urbs unlink a (wrap_urb_list s) s = Some us" using assms(2,4) by (auto simp: wrap_abort_pipe_def a_def bind_eq_Some_conv)
  then have "\<forall>v \<in> set us. \<exists>x. wurbs s v = Some x \<and> abort_selects a x" by (rule sel)
  ultimately show ?thesis using assms(1) unfolding abort_selects_def by blast
qed

section \<open>Examples\<close>

definition demo_endpoint :: usb_endpoint_descriptor where
  "demo_endpoint = \<lparr>bEndpointAddress = 0x81, bmAttributes = 2, wMaxPacketSize = 512, bInterval = 0\<rparr>"

definition demo_irp :: usb_irp where
  "demo_irp = \<lparr>ui_wrap_urb = None, ui_cancel_routine = False, ui_cancel = False, ui_status = 0, ui_info = 0, ui_pending = False,
     ui_nt_urb = \<lparr>nu_function = 9, nu_status = 0, nu_flags = 3, nu_length = 4, nu_buffer = Some [0, 0, 0, 0], nu_pipe_handle = demo_endpoint,
       nu_reserved_bits = 0, nu_request = 0, nu_value = 0, nu_index = 0, nu_feature_selector = 0, nu_desc_type = 0, nu_desc_index = 0, nu_language_id = 0,
       nu_select = \<lparr>sr_config = None, sr_size = 0, sr_intfs = Map.empty\<rparr>\<rparr>\<rparr>"

definition demo_env :: urb_env where
  "demo_env = \<lparr>en_urb = Some 0, en_valid = False, en_dma = Some 0\<rparr>"

definition demo_state :: usb_state where
  "demo_state = snd (the (wrap_bulk_or_intr_trans 7 demo_env 0 (upd_irp 7 demo_irp usb_start)))"

lemmas demo_defs = demo_endpoint_def demo_irp_def demo_env_def usb_start_def wrap_bulk_or_intr_trans_def wrap_alloc_urb_def take_urb_def free_urb_def
  alloc_buffer_def wrap_submit_urb_def blank_urb_def mk_pipe_def upd_irp_def upd_urb_def USBD_IS_BULK_PIPE_def

lemma demo_submits: "wrap_bulk_or_intr_trans 7 demo_env 0 (upd_irp 7 demo_irp usb_start) = Some (USBD_STATUS_PENDING, demo_state)"
  by (simp add: demo_state_def demo_defs)

lemma demo_reachable: "usb_reach demo_state"
proof -
  have "usb_step usb_start (upd_irp 7 demo_irp usb_start)" by (rule usb_step.make) (simp_all add: usb_start_def demo_irp_def)
  moreover have "usb_step (upd_irp 7 demo_irp usb_start) demo_state"
    by (rule usb_step.transfer [of _ 7 demo_irp demo_env 0, OF _ _ _ _ demo_submits]) (simp_all add: request_ok_def env_ok_def demo_irp_def demo_env_def usb_start_def)
  ultimately show ?thesis by (meson usb_reach.intros)
qed

lemma demo_urb: "\<exists>w r. wurbs demo_state 0 = Some w \<and> wu_state w = URB_SUBMITTED \<and> pp_in (u_pipe w) \<and> u_pipe w = mk_pipe PIPE_BULK True 0x81 \<and> wu_irp w = Some 7 \<and> u_length w = 4 \<and>
    uirps demo_state 7 = Some r \<and> nu_buffer (ui_nt_urb r) = Some [0, 0, 0, 0] \<and> nu_pipe_handle (ui_nt_urb r) = demo_endpoint \<and> wrap_urb_complete_list demo_state = [] \<and>
    wrap_urb_list demo_state = [0]"
  by (simp add: demo_state_def demo_defs)

theorem urb_life_cycle_witness:
  "irps_submitted demo_state = irps_completed demo_state + mset_set (in_flight demo_state) \<and> distinct (wrap_urb_list demo_state) \<and>
    set (wrap_urb_list demo_state) = dom (wurbs demo_state) \<and> num_alloc_urbs demo_state = length (wrap_urb_list demo_state) \<and>
    (\<exists>s'. wrap_urb_complete_worker demo_state = Some s' \<and> wrap_urb_complete_list s' = [] \<and> irps_submitted s' = irps_completed s' + mset_set (in_flight s'))"
  using urb_life_cycle [OF demo_reachable] by blast

theorem transfer_in_data_witness:
  "\<exists>s1 s2 r2. kernel_complete 0 0 [1, 2, 3] demo_state = Some s1 \<and> complete_one s1 = Some s2 \<and> uirps s2 7 = Some r2 \<and> ui_status r2 = STATUS_SUCCESS \<and>
    ui_info r2 = length [1, 2, 3 :: u8] \<and> nu_buffer (ui_nt_urb r2) = Some ([1, 2, 3] @ drop (length [1, 2, 3 :: u8]) [0, 0, 0, 0]) \<and>
    nu_length (ui_nt_urb r2) = of_nat (length [1, 2, 3 :: u8])"
proof -
  obtain w r where w: "wurbs demo_state 0 = Some w" "wu_state w = URB_SUBMITTED" "pp_in (u_pipe w)" "wu_irp w = Some 7" "u_length w = 4"
      "uirps demo_state 7 = Some r" "nu_buffer (ui_nt_urb r) = Some [0, 0, 0, 0]" "wrap_urb_complete_list demo_state = []" using demo_urb by blast
  show ?thesis by (rule transfer_in_data [OF demo_reachable w(1-4,6,7) _ w(8)]) (simp add: w(5))
qed

theorem kill_all_urbs_use_after_free_witness:
  "\<exists>s'. kill_all_urbs True demo_state = Some s' \<and> wrap_urb_complete_worker s' = None"
proof -
  obtain w where "wurbs demo_state 0 = Some w" "wu_state w = URB_SUBMITTED" using demo_urb by blast
  then show ?thesis using kill_all_urbs_use_after_free [OF demo_reachable] by blast
qed

theorem abort_in_pipe_cancels_nothing_witness:
  "\<exists>st us s'. wrap_abort_pipe (\<lambda>u. E_INPROGRESS) 7 demo_state = Some (st, us, s') \<and> 0 \<notin> set us"
proof -
  obtain w r where w: "wurbs demo_state 0 = Some w" "u_pipe w = mk_pipe PIPE_BULK True 0x81" "uirps demo_state 7 = Some r"
      "nu_pipe_handle (ui_nt_urb r) = demo_endpoint" "wrap_urb_list demo_state = [0]" using demo_urb by blast
  have ep: "pp_endpoint (u_pipe w) = 1" by (simp add: w(2) mk_pipe_def)
  have "dom (wurbs demo_state) = {0}" using usb_invD(1) [OF usb_reach_inv [OF demo_reachable]] w(5) by (simp add: urbs_ok_def pool_ok_def)
  then have small: "\<forall>u w. wurbs demo_state u = Some w \<longrightarrow> pp_endpoint (u_pipe w) < 16"
  proof (intro allI impI)
    fix u x
    assume x: "wurbs demo_state u = Some x"
    then have "u = 0" using \<open>dom (wurbs demo_state) = {0}\<close> by blast
    then show "pp_endpoint (u_pipe x) < 16" using x w(1) ep by simp
  qed
  have inb: "bit (bEndpointAddress (nu_pipe_handle (ui_nt_urb r))) 7" by (simp add: w(4) demo_endpoint_def)
  have "\<not> abort_selects (bEndpointAddress demo_endpoint) w" using ep by (simp add: abort_selects_def demo_endpoint_def)
  then obtain st us s' where a: "wrap_abort_pipe (\<lambda>u. E_INPROGRESS) 7 demo_state = Some (st, us, s')"
    using w by (simp add: wrap_abort_pipe_def)
  from abort_in_pipe_cancels_nothing [OF small w(3) inb a] have "0 \<notin> set us" using w(1) ep by auto
  then show ?thesis using a by blast
qed

end
