(* ===== verification/Usb_Req.thy ===== *)
theory Usb_Req
  imports Usb_Urb
begin

text \<open>
  Requests of USB drivers (\<^verbatim>\<open>usb.c\<close>): the synchronous requests, the dispatch of a packet, the parsing of descriptors and the functions of the bus interface.

  What the kernel and the device answer is the record \<open>usb_dev\<close>: return codes, data, and the endpoints of an interface in an alternate setting.  The calls
  that change the device are results, in order.  Descriptors are bytes from the address the driver passes to the end of the allocation; a loop that does
  not end is \<open>None\<close>, an access outside is \<open>Fault\<close>.  The handles of a configuration, which this code writes and never reads, are left out.

  Shown are that a packet is reported as pending exactly when it was handed to the kernel, and is then held by a URB or was completed since (\<open>submit_irp_pending\<close>), that a request built from interface descriptors selects these
  interfaces and describes their endpoints (\<open>configuration_round_trip\<close>), that descriptors are found in order and a descriptor of length
  zero is never left by the search for an interface (\<open>parse_configuration_first\<close>, \<open>zero_length_descriptor_hangs\<close>), and which recipient a feature request has (\<open>feature_recipient_wrong\<close>).
\<close>

unbundle bit_operations_syntax

section \<open>The kernel and the device\<close>

datatype usb_speed = USB_SPEED_LOW | USB_SPEED_FULL | USB_SPEED_HIGH | USB_SPEED_OTHER

datatype usb_device_state = USB_STATE_NOTATTACHED | USB_STATE_ATTACHED | USB_STATE_POWERED | USB_STATE_DEFAULT | USB_STATE_ADDRESS | USB_STATE_CONFIGURED |
  USB_STATE_SUSPENDED

datatype usb_call = UcControl usb_pipe usb_ctrlrequest | UcClearHalt usb_pipe | UcSetInterface u8 u8 | UcResetConfiguration | UcResetDevice

record usb_dev =
  ud_speed :: usb_speed
  ud_state :: usb_device_state
  ud_control :: "nat \<Rightarrow> usb_ctrlrequest \<Rightarrow> int \<times> u8 list"
  ud_set_interface :: "u8 \<Rightarrow> u8 \<Rightarrow> int"
  ud_endpoints :: "u8 \<Rightarrow> u8 \<Rightarrow> usb_endpoint_descriptor list option"
  ud_reset_configuration :: int
  ud_get_descriptor :: "u8 \<Rightarrow> u8 \<Rightarrow> u32 \<Rightarrow> int \<times> u8 list"
  ud_get_status :: "u8 \<Rightarrow> u16 \<Rightarrow> int \<times> u8 list"
  ud_lock :: int
  ud_frame :: u32

abbreviation USB_REQ_CLEAR_FEATURE :: u8 where "USB_REQ_CLEAR_FEATURE \<equiv> 1"
abbreviation USB_REQ_SET_FEATURE :: u8 where "USB_REQ_SET_FEATURE \<equiv> 3"
abbreviation USB_REQ_GET_DESCRIPTOR :: u8 where "USB_REQ_GET_DESCRIPTOR \<equiv> 6"
abbreviation USB_REQ_SET_CONFIGURATION :: u8 where "USB_REQ_SET_CONFIGURATION \<equiv> 9"
abbreviation USB_DT_DEVICE :: u8 where "USB_DT_DEVICE \<equiv> 1"
abbreviation USB_DT_STRING :: u8 where "USB_DT_STRING \<equiv> 3"
abbreviation USB_DT_INTERFACE :: u8 where "USB_DT_INTERFACE \<equiv> 4"
abbreviation USB_DT_ENDPOINT :: u8 where "USB_DT_ENDPOINT \<equiv> 5"
abbreviation USB_DIR_IN :: u8 where "USB_DIR_IN \<equiv> 0x80"
abbreviation USB_RECIP_DEVICE :: u8 where "USB_RECIP_DEVICE \<equiv> 0"
abbreviation USB_RECIP_INTERFACE :: u8 where "USB_RECIP_INTERFACE \<equiv> 1"
abbreviation USB_RECIP_ENDPOINT :: u8 where "USB_RECIP_ENDPOINT \<equiv> 2"

section \<open>Pipes, features and status\<close>

definition wrap_reset_pipe :: "usb_endpoint_descriptor \<Rightarrow> u32 \<times> usb_call list" where
  "wrap_reset_pipe ep =
     (if USBD_IS_BULK_PIPE ep
      then (USBD_STATUS_SUCCESS, [UcClearHalt (mk_pipe PIPE_BULK True (bEndpointAddress ep)), UcClearHalt (mk_pipe PIPE_BULK False (bEndpointAddress ep))])
      else if USBD_IS_INT_PIPE ep then (USBD_STATUS_SUCCESS, [UcClearHalt (mk_pipe PIPE_INTERRUPT True (bEndpointAddress ep))])
      else (USBD_STATUS_INVALID_PIPE_HANDLE, []))"

text \<open>Request and type for a function code.\<close>

definition feature_request :: "nat \<Rightarrow> (u8 \<times> u8) option" where
  "feature_request f =
     (if f = 0x0D then Some (USB_REQ_SET_FEATURE, USB_DT_DEVICE)
      else if f = 0x0E then Some (USB_REQ_SET_FEATURE, USB_DT_INTERFACE)
      else if f = 0x0F then Some (USB_REQ_SET_FEATURE, USB_DT_ENDPOINT)
      else if f = 0x10 then Some (USB_REQ_CLEAR_FEATURE, USB_DT_DEVICE)
      else if f = 0x11 then Some (USB_REQ_CLEAR_FEATURE, USB_DT_INTERFACE)
      else if f = 0x12 then Some (USB_REQ_CLEAR_FEATURE, USB_DT_ENDPOINT)
      else None)"

definition wrap_set_clear_feature :: "usb_dev \<Rightarrow> nt_urb \<Rightarrow> u32 \<times> usb_call list \<times> nt_urb" where
  "wrap_set_clear_feature dev n =
     (case feature_request (nu_function n) of
        None \<Rightarrow> (USBD_STATUS_NOT_SUPPORTED, [], n\<lparr>nu_status := USBD_STATUS_NOT_SUPPORTED\<rparr>)
      | Some (request, typ) \<Rightarrow>
          let q = \<lparr>bRequestType = typ, bRequest = request, wValue = nu_feature_selector n, wIndex = nu_index n, wLength = 0\<rparr>;
              st = wrap_urb_status (fst (ud_control dev 0 q)) in
          (st, [UcControl (mk_pipe PIPE_CONTROL False 0) q], n\<lparr>nu_status := st\<rparr>))"

definition status_recipient :: "nat \<Rightarrow> u8 option" where
  "status_recipient f =
     (if f = 0x13 then Some USB_RECIP_DEVICE else if f = 0x14 then Some USB_RECIP_INTERFACE else if f = 0x15 then Some USB_RECIP_ENDPOINT else None)"

text \<open>Data of the device written to the start of the driver's buffer.\<close>

definition store :: "u8 list \<Rightarrow> nt_urb \<Rightarrow> nt_urb option" where
  "store data n =
     (case nu_buffer n of
        None \<Rightarrow> if data = [] then Some n else None
      | Some b \<Rightarrow> do { b1 \<leftarrow> blk_copy b 0 data 0 (length data); Some (n\<lparr>nu_buffer := Some b1\<rparr>) })"

definition wrap_get_status_request :: "usb_dev \<Rightarrow> nt_urb \<Rightarrow> (u32 \<times> usb_call list \<times> nt_urb) option" where
  "wrap_get_status_request dev n =
     (case status_recipient (nu_function n) of
        None \<Rightarrow> Some (USBD_STATUS_NOT_SUPPORTED, [], n\<lparr>nu_status := USBD_STATUS_NOT_SUPPORTED\<rparr>)
      | Some typ \<Rightarrow>
          let (ret, data) = ud_get_status dev typ (nu_index n);
              st = (if ret \<ge> 0 then USBD_STATUS_SUCCESS else wrap_urb_status ret) in
          do { n1 \<leftarrow> store data n;
               Some (st, [], n1\<lparr>nu_length := (if ret \<ge> 0 then word_of_int ret else nu_length n), nu_status := st\<rparr>) })"

section \<open>Configurations and interfaces\<close>

text \<open>The loop that computes the interval for a device of high speed.\<close>

partial_function (option) interval_loop :: "nat \<Rightarrow> nat \<Rightarrow> nat \<Rightarrow> nat option" where
  "interval_loop b j k = (if j < b then interval_loop b (j * 2) (k + 1) else Some k)"

definition pipe_interval :: "usb_speed \<Rightarrow> u8 \<Rightarrow> u8 option" where
  "pipe_interval sp b =
     (if sp = USB_SPEED_LOW then Some (b + 5) else if sp = USB_SPEED_FULL then Some b
      else do { k \<leftarrow> interval_loop (unat b) 1 1; Some (of_nat k) })"

definition set_pipe :: "usb_speed \<Rightarrow> usb_endpoint_descriptor \<Rightarrow> usbd_pipe_information \<Rightarrow> usbd_pipe_information option" where
  "set_pipe sp ep p =
     do { iv \<leftarrow> (if bmAttributes ep AND 3 = 3 then pipe_interval sp (bInterval ep) else Some (pi_bInterval p));
          Some (p\<lparr>pi_wMaxPacketSize := wMaxPacketSize ep, pi_bEndpointAddress := bEndpointAddress ep, pi_type := bmAttributes ep AND 3,
                  pi_bInterval := iv, pi_handle := Some ep\<rparr>) }"

primrec set_pipes :: "usb_speed \<Rightarrow> usb_endpoint_descriptor list \<Rightarrow> nat \<Rightarrow> usbd_interface_information \<Rightarrow> usbd_interface_information option" where
  "set_pipes sp [] i intf = Some intf"
| "set_pipes sp (ep # eps) i intf =
     (if i \<ge> unat (ii_bNumEndpoints intf) then Some intf
      else do { p \<leftarrow> rd (ii_pipes intf) i; p1 \<leftarrow> set_pipe sp ep p; ps \<leftarrow> wr (ii_pipes intf) i p1;
                set_pipes sp eps (Suc i) (intf\<lparr>ii_pipes := ps\<rparr>) })"

definition set_intf_pipe_info :: "usb_dev \<Rightarrow> usb_endpoint_descriptor list \<Rightarrow> usbd_interface_information \<Rightarrow> usbd_interface_information option" where
  "set_intf_pipe_info dev eps intf = set_pipes (ud_speed dev) eps 0 intf"

definition wrap_select_interface :: "usb_dev \<Rightarrow> nat \<Rightarrow> usbd_select \<Rightarrow> (u32 \<times> usb_call list \<times> usbd_select) option" where
  "wrap_select_interface dev off sel =
     do { intf \<leftarrow> sr_intfs sel off;
          let nr = ii_bInterfaceNumber intf; alt = ii_bAlternateSetting intf; ret = ud_set_interface dev nr alt; cs = [UcSetInterface nr alt] in
          if ret < 0 then Some (wrap_urb_status ret, cs, sel)
          else case ud_endpoints dev nr alt of
            None \<Rightarrow> Some (USBD_STATUS_REQUEST_FAILED, cs, sel)
          | Some eps \<Rightarrow> do { intf1 \<leftarrow> set_intf_pipe_info dev eps intf; Some (USBD_STATUS_SUCCESS, cs, sel\<lparr>sr_intfs := (sr_intfs sel)(off \<mapsto> intf1)\<rparr>) } }"

text \<open>The interfaces of a request for a configuration, each after the one before it; the body of the loop is that of a request for one interface.\<close>

primrec select_interfaces :: "usb_dev \<Rightarrow> nat \<Rightarrow> nat \<Rightarrow> usbd_select \<Rightarrow> (u32 \<times> usb_call list \<times> usbd_select) option" where
  "select_interfaces dev 0 off sel = Some (USBD_STATUS_SUCCESS, [], sel)"
| "select_interfaces dev (Suc n) off sel =
     do { intf \<leftarrow> sr_intfs sel off;
          if ii_bLength intf = 0 then Some (USBD_STATUS_SUCCESS, [], sel)
          else do { (st, cs, sel1) \<leftarrow> wrap_select_interface dev off sel;
                    if st \<noteq> USBD_STATUS_SUCCESS then Some (st, cs, sel1)
                    else do { (st2, cs2, sel2) \<leftarrow> select_interfaces dev n (off + unat (ii_bLength intf)) sel1; Some (st2, cs @ cs2, sel2) } } }"

abbreviation SELECT_CONF_INTF :: nat where "SELECT_CONF_INTF \<equiv> 40"
abbreviation SELECT_INTF_INTF :: nat where "SELECT_INTF_INTF \<equiv> 32"

definition select_conf :: "usb_dev \<Rightarrow> usb_config_descriptor \<Rightarrow> usbd_select \<Rightarrow> (u32 \<times> usb_call list \<times> usbd_select) option" where
  "select_conf dev config sel =
     (let q = \<lparr>bRequestType = 0, bRequest = USB_REQ_SET_CONFIGURATION, wValue = ucast (cd_bConfigurationValue config), wIndex = 0, wLength = 0\<rparr>;
          ret = fst (ud_control dev 0 q); c = UcControl (mk_pipe PIPE_CONTROL False 0) q in
      if ret < 0 then Some (wrap_urb_status ret, [c], sel)
      else do { (st, cs, sel1) \<leftarrow> select_interfaces dev (unat (cd_bNumInterfaces config)) SELECT_CONF_INTF sel; Some (st, c # cs, sel1) })"

definition wrap_select_configuration :: "usb_dev \<Rightarrow> irp_id \<Rightarrow> usb_state \<Rightarrow> (u32 \<times> usb_call list \<times> usb_state) option" where
  "wrap_select_configuration dev i s =
     do { r \<leftarrow> uirps s i;
          let n = ui_nt_urb r in
          case sr_config (nu_select n) of
            None \<Rightarrow> do { s1 \<leftarrow> kill_all_urbs True s; Some (wrap_urb_status (ud_reset_configuration dev), [UcResetConfiguration], s1) }
          | Some config \<Rightarrow>
              do { (st, cs, sel) \<leftarrow> select_conf dev config (nu_select n); Some (st, cs, upd_irp i (r\<lparr>ui_nt_urb := n\<lparr>nu_select := sel\<rparr>\<rparr>) s) } }"

section \<open>Descriptors of the device\<close>

fun get_string_tries :: "usb_dev \<Rightarrow> usb_ctrlrequest \<Rightarrow> nat \<Rightarrow> nat \<Rightarrow> int \<times> u8 list" where
  "get_string_tries dev q k n =
     (let (ret, data) = ud_control dev k q in
      if ret > 0 \<or> ret = E_PIPE \<or> n \<le> 1 then (ret, data) else get_string_tries dev q (Suc k) (n - 1))"

declare get_string_tries.simps [simp del]

definition wrap_usb_get_string :: "usb_dev \<Rightarrow> u16 \<Rightarrow> u8 \<Rightarrow> u32 \<Rightarrow> int \<times> u8 list" where
  "wrap_usb_get_string dev langid index len =
     get_string_tries dev \<lparr>bRequestType = USB_DIR_IN, bRequest = USB_REQ_GET_DESCRIPTOR, wValue = 0x300 + ucast index, wIndex = langid, wLength = ucast len\<rparr> 0 3"

definition wrap_get_descriptor :: "usb_dev \<Rightarrow> usb_irp \<Rightarrow> (u32 \<times> usb_irp) option" where
  "wrap_get_descriptor dev r =
     (let n = ui_nt_urb r;
          (ret, data) = (if nu_desc_type n = USB_DT_STRING then wrap_usb_get_string dev (nu_language_id n) (nu_desc_index n) (nu_length n)
                         else ud_get_descriptor dev (nu_desc_type n) (nu_desc_index n) (nu_length n)) in
      do { n1 \<leftarrow> store data n;
           if ret < 0 then Some (wrap_urb_status ret, r\<lparr>ui_nt_urb := n1\<lparr>nu_length := 0\<rparr>\<rparr>)
           else Some (USBD_STATUS_SUCCESS, r\<lparr>ui_nt_urb := n1\<lparr>nu_length := word_of_int ret\<rparr>, ui_info := nat ret\<rparr>) })"

section \<open>Dispatch\<close>

definition set_nt_status :: "u32 \<Rightarrow> usb_irp \<Rightarrow> usb_irp" where
  "set_nt_status st r = r\<lparr>ui_nt_urb := (ui_nt_urb r)\<lparr>nu_status := st\<rparr>\<rparr>"

text \<open>What the kernel answers to one packet: the allocations, what submitting and unlinking a URB return, and the device.\<close>

record io_env =
  io_urb :: urb_env
  io_setup :: bool
  io_submit :: int
  io_unlink :: "urb_id \<Rightarrow> int"
  io_dev :: usb_dev

definition wrap_process_nt_urb :: "io_env \<Rightarrow> irp_id \<Rightarrow> usb_state \<Rightarrow> (u32 \<times> usb_call list \<times> usb_state) option" where
  "wrap_process_nt_urb e i s =
     do { r \<leftarrow> uirps s i;
          let n = ui_nt_urb r; f = nu_function n; dev = io_dev e in
          if usb_hw_disabled s then Some (USBD_STATUS_DEVICE_GONE, [], upd_irp i (set_nt_status USBD_STATUS_DEVICE_GONE r) s)
          else if f = 0x09 then do { (st, s1) \<leftarrow> wrap_bulk_or_intr_trans i (io_urb e) (io_submit e) s; Some (st, [], s1) }
          else if f \<in> {0x17, 0x18, 0x19, 0x20, 0x1A, 0x1B, 0x1C, 0x1F}
          then do { (st, s1) \<leftarrow> wrap_vendor_or_class_req i (io_urb e) (io_setup e) (io_submit e) s; Some (st, [], s1) }
          else if f = 0x00
          then do { (st, cs, s1) \<leftarrow> wrap_select_configuration dev i s; r1 \<leftarrow> uirps s1 i; Some (st, cs, upd_irp i (set_nt_status st r1) s1) }
          else if f = 0x01
          then do { (st, cs, sel) \<leftarrow> wrap_select_interface dev SELECT_INTF_INTF (nu_select n);
                    Some (st, cs, upd_irp i (set_nt_status st (r\<lparr>ui_nt_urb := n\<lparr>nu_select := sel\<rparr>\<rparr>)) s) }
          else if f = 0x0B then do { (st, r1) \<leftarrow> wrap_get_descriptor dev r; Some (st, [], upd_irp i (set_nt_status st r1) s) }
          else if f = 0x1E then (case wrap_reset_pipe (nu_pipe_handle n) of (st, cs) \<Rightarrow> Some (st, cs, upd_irp i (set_nt_status st r) s))
          else if f = 0x02 then do { (st, us, s1) \<leftarrow> wrap_abort_pipe (io_unlink e) i s; Some (st, [], s1) }
          else if 0x0D \<le> f \<and> f \<le> 0x12
          then (case wrap_set_clear_feature dev n of (st, cs, n1) \<Rightarrow> Some (st, cs, upd_irp i (r\<lparr>ui_nt_urb := n1\<rparr>) s))
          else if 0x13 \<le> f \<and> f \<le> 0x15
          then do { (st, cs, n1) \<leftarrow> wrap_get_status_request dev n; Some (st, cs, upd_irp i (r\<lparr>ui_nt_urb := n1\<rparr>) s) }
          else Some (USBD_STATUS_NOT_SUPPORTED, [], upd_irp i (set_nt_status USBD_STATUS_NOT_SUPPORTED r) s) }"

definition wrap_reset_port :: "usb_dev \<Rightarrow> u32 \<times> usb_call list" where
  "wrap_reset_port dev = (USBD_STATUS_SUCCESS, if ud_lock dev < 0 then [] else [UcResetDevice])"

abbreviation USBD_PORT_ENABLED :: u32 where "USBD_PORT_ENABLED \<equiv> 1"
abbreviation USBD_PORT_CONNECTED :: u32 where "USBD_PORT_CONNECTED \<equiv> 2"

definition wrap_get_port_status :: "usb_dev \<Rightarrow> u32 \<Rightarrow> u32 \<times> u32" where
  "wrap_get_port_status dev status =
     (USBD_STATUS_SUCCESS,
      if ud_state dev \<noteq> USB_STATE_NOTATTACHED \<and> ud_state dev \<noteq> USB_STATE_SUSPENDED
      then (let status1 = status OR USBD_PORT_CONNECTED in if ud_state dev = USB_STATE_CONFIGURED then status1 OR USBD_PORT_ENABLED else status1)
      else status)"

abbreviation IOCTL_INTERNAL_USB_SUBMIT_URB :: u32 where "IOCTL_INTERNAL_USB_SUBMIT_URB \<equiv> 0x220003"
abbreviation IOCTL_INTERNAL_USB_RESET_PORT :: u32 where "IOCTL_INTERNAL_USB_RESET_PORT \<equiv> 0x220007"
abbreviation IOCTL_INTERNAL_USB_GET_PORT_STATUS :: u32 where "IOCTL_INTERNAL_USB_GET_PORT_STATUS \<equiv> 0x220013"
abbreviation IOCTL_INTERNAL_USB_SUBMIT_IDLE_NOTIFICATION :: u32 where "IOCTL_INTERNAL_USB_SUBMIT_IDLE_NOTIFICATION \<equiv> 0x220027"

text \<open>\<open>gone\<close>: the interface pointer of the device is null; \<open>port\<close>: the word that the argument of a port status request points to.\<close>

definition submit_ioctl :: "io_env \<Rightarrow> u32 \<Rightarrow> u32 \<Rightarrow> irp_id \<Rightarrow> usb_state \<Rightarrow> (u32 \<times> u32 \<times> usb_call list \<times> usb_state) option" where
  "submit_ioctl e code port i s =
     (if code = IOCTL_INTERNAL_USB_SUBMIT_URB then do { (st, cs, s1) \<leftarrow> wrap_process_nt_urb e i s; Some (st, port, cs, s1) }
      else if code = IOCTL_INTERNAL_USB_RESET_PORT then (case wrap_reset_port (io_dev e) of (st, cs) \<Rightarrow> Some (st, port, cs, s))
      else if code = IOCTL_INTERNAL_USB_GET_PORT_STATUS then (case wrap_get_port_status (io_dev e) port of (st, port1) \<Rightarrow> Some (st, port1, [], s))
      else if code = IOCTL_INTERNAL_USB_SUBMIT_IDLE_NOTIFICATION then Some (USBD_STATUS_NOT_SUPPORTED, port, [], s)
      else Some (USBD_STATUS_NOT_SUPPORTED, port, [], s))"

text \<open>The state is the one at the return when nothing happens meanwhile; after a pending submission the function does not touch the packet, which may be completed
  before it returns.\<close>

definition wrap_submit_irp :: "bool \<Rightarrow> io_env \<Rightarrow> u32 \<Rightarrow> u32 \<Rightarrow> irp_id \<Rightarrow> usb_state \<Rightarrow> (NTSTATUS \<times> u32 \<times> usb_call list \<times> usb_state) option" where
  "wrap_submit_irp gone e code port i s =
     (if gone
      then do { r \<leftarrow> uirps s i; Some (STATUS_DEVICE_REMOVED, port, [], upd_irp i (r\<lparr>ui_status := STATUS_DEVICE_REMOVED, ui_info := 0\<rparr>) s) }
      else do { (st, port1, cs, s1) \<leftarrow> submit_ioctl e code port i s;
                if st = USBD_STATUS_PENDING then Some (STATUS_PENDING, port1, cs, s1)
                else do { r \<leftarrow> uirps s1 i;
                          Some (nt_urb_irp_status st, port1, cs,
                            upd_irp i (r\<lparr>ui_status := nt_urb_irp_status st, ui_info := (if st \<noteq> USBD_STATUS_SUCCESS then 0 else ui_info r)\<rparr>) s1) } })"

section \<open>Parsing descriptors\<close>

datatype parse_result = Fault | NotFound | Found nat

text \<open>The conditions on an interface, \<open>- 1\<close> for any: number, alternate setting, class, subclass and protocol; they are tested from left to right.\<close>

definition field_ok :: "u8 list \<Rightarrow> nat \<Rightarrow> int \<Rightarrow> bool option" where
  "field_ok b p v = (if v = - 1 then Some True else do { x \<leftarrow> rd b p; Some (uint x = v) })"

primrec fields_ok :: "u8 list \<Rightarrow> (nat \<times> int) list \<Rightarrow> bool option" where
  "fields_ok b [] = Some True"
| "fields_ok b (f # fs) = do { c \<leftarrow> field_ok b (fst f) (snd f); if c then fields_ok b fs else Some False }"

definition intf_fields :: "nat \<Rightarrow> int list \<Rightarrow> (nat \<times> int) list" where
  "intf_fields pos m = zip [pos + 2, pos + 3, pos + 5, pos + 6, pos + 7] m"

definition intf_matches :: "u8 list \<Rightarrow> nat \<Rightarrow> int list \<Rightarrow> bool option" where
  "intf_matches b pos m = do { t \<leftarrow> rd b (pos + 1); if t = USB_DT_INTERFACE then fields_ok b (intf_fields pos m) else Some False }"

partial_function (option) parse_config :: "u8 list \<Rightarrow> nat \<Rightarrow> int list \<Rightarrow> nat \<Rightarrow> parse_result option" where
  "parse_config b e m pos =
     (if pos < e
      then (case intf_matches b pos m of
              None \<Rightarrow> Some Fault
            | Some c \<Rightarrow> if c then Some (Found pos)
                else (case rd b pos of None \<Rightarrow> Some Fault | Some len \<Rightarrow> parse_config b e m (pos + unat len)))
      else Some NotFound)"

definition total_length :: "u8 list \<Rightarrow> nat option" where
  "total_length b = do { lo \<leftarrow> rd b 2; hi \<leftarrow> rd b 3; Some (unat lo + 256 * unat hi) }"

definition USBD_ParseConfigurationDescriptorEx :: "u8 list \<Rightarrow> nat \<Rightarrow> int \<Rightarrow> int \<Rightarrow> int \<Rightarrow> int \<Rightarrow> int \<Rightarrow> parse_result option" where
  "USBD_ParseConfigurationDescriptorEx b start nr alt cl sub proto =
     (case total_length b of None \<Rightarrow> Some Fault | Some e \<Rightarrow> parse_config b e [nr, alt, cl, sub, proto] start)"

definition USBD_ParseConfigurationDescriptor :: "u8 list \<Rightarrow> u8 \<Rightarrow> u8 \<Rightarrow> parse_result option" where
  "USBD_ParseConfigurationDescriptor b nr alt = USBD_ParseConfigurationDescriptorEx b 0 (uint nr) (uint alt) (- 1) (- 1) (- 1)"

partial_function (option) USBD_ParseDescriptors :: "u8 list \<Rightarrow> nat \<Rightarrow> int \<Rightarrow> nat \<Rightarrow> parse_result option" where
  "USBD_ParseDescriptors b e ty pos =
     (if pos < e
      then (case rd b (pos + 1) of
              None \<Rightarrow> Some Fault
            | Some t \<Rightarrow> if uint t = ty then Some (Found pos)
                else (case rd b pos of None \<Rightarrow> Some Fault | Some len \<Rightarrow> if len = 0 then Some NotFound else USBD_ParseDescriptors b e ty (pos + unat len)))
      else Some NotFound)"

section \<open>Building a request for a configuration\<close>

text \<open>Sizes of the structures: 40 bytes up to the interfaces, 24 bytes of an interface up to its pipes, 24 bytes for a pipe.\<close>

definition intf_size :: "usb_interface_descriptor \<Rightarrow> nat" where
  "intf_size d = 24 + 24 * unat (id_bNumEndpoints d)"

text \<open>The first loop, over \<open>c\<close> entries from \<open>n\<close> on; an entry that is null is dereferenced.\<close>

primrec request_size :: "usb_interface_descriptor option list \<Rightarrow> nat \<Rightarrow> nat \<Rightarrow> nat option" where
  "request_size l n 0 = Some SELECT_CONF_INTF"
| "request_size l n (Suc c) = do { entry \<leftarrow> rd l n; d \<leftarrow> entry; size \<leftarrow> request_size l (Suc n) c; Some (intf_size d + size) }"

abbreviation USBD_DEFAULT_MAXIMUM_TRANSFER_SIZE :: u32 where "USBD_DEFAULT_MAXIMUM_TRANSFER_SIZE \<equiv> 4096"

definition empty_pipe :: usbd_pipe_information where
  "empty_pipe = \<lparr>pi_wMaxPacketSize = 0, pi_bEndpointAddress = 0, pi_bInterval = 0, pi_type = 0, pi_handle = None,
     pi_max_tx_size = USBD_DEFAULT_MAXIMUM_TRANSFER_SIZE, pi_flags = 0\<rparr>"

definition new_intf :: "usb_interface_descriptor \<Rightarrow> usbd_interface_information" where
  "new_intf d = \<lparr>ii_bLength = of_nat (intf_size d), ii_bInterfaceNumber = id_bInterfaceNumber d, ii_bAlternateSetting = id_bAlternateSetting d,
     ii_bInterfaceClass = id_bInterfaceClass d, ii_bInterfaceSubClass = id_bInterfaceSubClass d, ii_bInterfaceProtocol = id_bInterfaceProtocol d,
     ii_handle = Some d, ii_bNumEndpoints = ucast (id_bNumEndpoints d), ii_pipes = replicate (unat (id_bNumEndpoints d)) empty_pipe\<rparr>"

text \<open>The bytes that are written for an interface with its pipes, and writing one at an offset of the block: structures that it overlaps are destroyed.\<close>

definition intf_extent :: "usbd_interface_information \<Rightarrow> nat" where
  "intf_extent x = 24 + 24 * length (ii_pipes x)"

definition place_intf :: "nat \<Rightarrow> usbd_interface_information \<Rightarrow> usbd_select \<Rightarrow> usbd_select" where
  "place_intf off x sel =
     sel\<lparr>sr_intfs := (\<lambda>p. case sr_intfs sel p of
           None \<Rightarrow> None
         | Some y \<Rightarrow> if p < off + intf_extent x \<and> off < p + intf_extent y then None else Some y)(off \<mapsto> x)\<rparr>"

text \<open>The second loop; the result has the places of the structures, which it stores in the list of the driver.  Writing behind the block faults.\<close>

primrec request_intfs :: "usb_interface_descriptor option list \<Rightarrow> nat \<Rightarrow> nat \<Rightarrow> nat \<Rightarrow> usbd_select \<Rightarrow> (nat list \<times> usbd_select) option" where
  "request_intfs l n 0 off sel = Some ([], sel)"
| "request_intfs l n (Suc c) off sel =
     do { entry \<leftarrow> rd l n;
          case entry of
            None \<Rightarrow> Some ([], sel)
          | Some d \<Rightarrow>
              if off + intf_size d \<le> sr_size sel
              then do { (offs, sel1) \<leftarrow> request_intfs l (Suc n) c (off + unat (ii_bLength (new_intf d))) (place_intf off (new_intf d) sel);
                        Some (off # offs, sel1) }
              else None }"

text \<open>The result is the request with its length field and the places; \<open>mem\<close>: the allocation succeeds.\<close>

definition USBD_CreateConfigurationRequestEx :: "usb_config_descriptor \<Rightarrow> usb_interface_descriptor option list \<Rightarrow> bool \<Rightarrow> (usbd_select \<times> u16 \<times> nat list) option option" where
  "USBD_CreateConfigurationRequestEx config l mem =
     do { size \<leftarrow> request_size l 0 (unat (cd_bNumInterfaces config));
          if \<not> mem then Some None
          else do { (offs, sel) \<leftarrow> request_intfs l 0 (unat (cd_bNumInterfaces config)) SELECT_CONF_INTF \<lparr>sr_config = None, sr_size = size, sr_intfs = Map.empty\<rparr>;
                    Some (Some (sel\<lparr>sr_config := Some config\<rparr>, of_nat size, offs)) } }"

definition rd_config :: "u8 list \<Rightarrow> usb_config_descriptor option" where
  "rd_config b = do { n \<leftarrow> total_length b; k \<leftarrow> rd b 4; v \<leftarrow> rd b 5; Some \<lparr>cd_wTotalLength = of_nat n, cd_bNumInterfaces = k, cd_bConfigurationValue = v\<rparr> }"

definition rd_intf :: "u8 list \<Rightarrow> nat \<Rightarrow> usb_interface_descriptor option" where
  "rd_intf b p =
     do { nr \<leftarrow> rd b (p + 2); alt \<leftarrow> rd b (p + 3); k \<leftarrow> rd b (p + 4); cl \<leftarrow> rd b (p + 5); sub \<leftarrow> rd b (p + 6); pr \<leftarrow> rd b (p + 7);
          Some \<lparr>id_bInterfaceNumber = nr, id_bAlternateSetting = alt, id_bNumEndpoints = k, id_bInterfaceClass = cl, id_bInterfaceSubClass = sub, id_bInterfaceProtocol = pr\<rparr> }"

definition USBD_CreateConfigurationRequest :: "u8 list \<Rightarrow> bool \<Rightarrow> (usbd_select \<times> u16) option option" where
  "USBD_CreateConfigurationRequest b mem =
     do { config \<leftarrow> rd_config b;
          res \<leftarrow> USBD_ParseConfigurationDescriptorEx b 0 (- 1) (- 1) (- 1) (- 1) (- 1);
          first \<leftarrow> (case res of Fault \<Rightarrow> None | NotFound \<Rightarrow> Some None | Found p \<Rightarrow> map_option Some (rd_intf b p));
          t \<leftarrow> USBD_CreateConfigurationRequestEx config [first, None] mem;
          Some (map_option (\<lambda>(sel, len, offs). (sel, len)) t) }"

section \<open>The bus interface\<close>

record usbd_version_info =
  usbdi_version :: u32
  supported_usb_version :: u32

definition USBD_GetUSBDIVersion :: usbd_version_info where
  "USBD_GetUSBDIVersion = \<lparr>usbdi_version = 0x500, supported_usb_version = 0x110\<rparr>"

definition USBD_InterfaceGetUSBDIVersion :: "usb_dev \<Rightarrow> usbd_version_info \<times> u32" where
  "USBD_InterfaceGetUSBDIVersion dev = (\<lparr>usbdi_version = 0x500, supported_usb_version = (if ud_speed dev = USB_SPEED_HIGH then 0x200 else 0x110)\<rparr>, 1)"

definition USBD_InterfaceIsDeviceHighSpeed :: "usb_dev \<Rightarrow> bool" where
  "USBD_InterfaceIsDeviceHighSpeed dev \<longleftrightarrow> ud_speed dev = USB_SPEED_HIGH"

definition USBD_InterfaceQueryBusTime :: "usb_dev \<Rightarrow> NTSTATUS \<times> u32" where
  "USBD_InterfaceQueryBusTime dev = (STATUS_SUCCESS, ud_frame dev)"

text \<open>The entries of the table that \<^verbatim>\<open>usb_query_interface\<close> fills for a version.\<close>

datatype usbdi_entry = InterfaceReference | InterfaceDereference | GetUSBDIVersion | QueryBusTime | SubmitIsoOutUrb | QueryBusInformation | IsDeviceHighSpeed | LogEntry

definition usb_query_interface :: "u16 \<Rightarrow> NTSTATUS \<times> usbdi_entry list" where
  "usb_query_interface version =
     (STATUS_SUCCESS,
      [InterfaceReference, InterfaceDereference, GetUSBDIVersion, QueryBusTime, SubmitIsoOutUrb, QueryBusInformation] @
      (if version \<ge> 1 then [IsDeviceHighSpeed] else []) @ (if version \<ge> 2 then [LogEntry] else []))"

section \<open>What a packet becomes\<close>

lemma wrap_urb_status_cases: "wrap_urb_status st = USBD_STATUS_SUCCESS \<longleftrightarrow> st = 0" "wrap_urb_status st \<noteq> USBD_STATUS_PENDING"
  by (simp_all add: wrap_urb_status_def)

lemma nt_urb_irp_status_cases:
  "nt_urb_irp_status st = STATUS_PENDING \<longleftrightarrow> st = USBD_STATUS_PENDING" "nt_urb_irp_status st = STATUS_SUCCESS \<longleftrightarrow> st = USBD_STATUS_SUCCESS"
  by (simp_all add: nt_urb_irp_status_def)

lemma free_dma_accounts: "free_dma w s = Some s' \<Longrightarrow> irps_submitted s' = irps_submitted s \<and> irps_completed s' = irps_completed s"
  by (auto simp: free_dma_def bind_eq_Some_conv split: if_splits)

lemma wrap_free_urb_accounts: "wrap_free_urb u s = Some s' \<Longrightarrow> irps_submitted s' = irps_submitted s \<and> irps_completed s' = irps_completed s"
  by (auto simp: wrap_free_urb_def bind_eq_Some_conv dest!: free_dma_accounts split: if_splits)

lemma wrap_alloc_urb_accounts:
  "wrap_alloc_urb i p b len e s = Some (uo, s') \<Longrightarrow> irps_submitted s' = irps_submitted s \<and> irps_completed s' = irps_completed s"
  by (auto simp: wrap_alloc_urb_def take_urb_def alloc_buffer_def bind_eq_Some_conv Let_def split: if_splits option.splits)

text \<open>The accounts of a request: it is added exactly when the status is pending.\<close>

definition taken :: "irp_id \<Rightarrow> usb_state \<Rightarrow> u32 \<times> usb_state \<Rightarrow> bool" where
  "taken i s x \<longleftrightarrow> irps_submitted (snd x) = irps_submitted s + (if fst x = USBD_STATUS_PENDING then {#i#} else {#}) \<and> irps_completed (snd x) = irps_completed s"

lemma taken_cong:
  "taken i s x \<Longrightarrow> irps_submitted s = irps_submitted t \<Longrightarrow> irps_completed s = irps_completed t \<Longrightarrow> taken i t x"
  by (simp add: taken_def)

lemma wrap_submit_urb_taken: "wrap_submit_urb i ret s = Some x \<Longrightarrow> taken i s x"
  using wrap_urb_status_cases(2)
  by (auto simp: wrap_submit_urb_def taken_def bind_eq_Some_conv Let_def dest!: wrap_free_urb_accounts split: if_splits)

lemma wrap_bulk_taken:
  assumes "wrap_bulk_or_intr_trans i e ret s = Some x"
  shows "taken i s x"
proof -
  obtain p b len uo s1 where a: "wrap_alloc_urb i p b len e s = Some (uo, s1)" "uo = None \<Longrightarrow> x = (USBD_STATUS_NO_MEMORY, s1)"
      "\<And>u. uo = Some u \<Longrightarrow> \<exists>w. wrap_submit_urb i ret (upd_urb u w s1) = Some x"
    using assms unfolding wrap_bulk_or_intr_trans_def Let_def by (fastforce simp: bind_eq_Some_conv)
  note acc = wrap_alloc_urb_accounts [OF a(1)]
  show ?thesis
  proof (cases uo)
    case (Some u)
    then show ?thesis using acc a(3) by (auto dest!: wrap_submit_urb_taken intro: taken_cong)
  qed (simp add: taken_def acc a(2))
qed

lemma wrap_vendor_taken:
  assumes "wrap_vendor_or_class_req i e mem ret s = Some x"
  shows "taken i s x"
proof -
  obtain p b len uo s1 where a: "wrap_alloc_urb i p b len e s = Some (uo, s1)" "uo = None \<Longrightarrow> x = (USBD_STATUS_NO_MEMORY, s1)"
      "\<And>u. uo = Some u \<Longrightarrow> \<exists>w. (\<exists>s2. wrap_free_urb u (upd_urb u w s1) = Some s2 \<and> x = (USBD_STATUS_NO_MEMORY, s2)) \<or> wrap_submit_urb i ret (upd_urb u w s1) = Some x"
    using assms unfolding wrap_vendor_or_class_req_def Let_def by (fastforce simp: bind_eq_Some_conv split: if_splits)
  note acc = wrap_alloc_urb_accounts [OF a(1)]
  show ?thesis
  proof (cases uo)
    case (Some u)
    then consider w s2 where "wrap_free_urb u (upd_urb u w s1) = Some s2" "x = (USBD_STATUS_NO_MEMORY, s2)"
      | w where "wrap_submit_urb i ret (upd_urb u w s1) = Some x" using a(3) by blast
    then show ?thesis
    proof cases
      case 1
      then show ?thesis using wrap_free_urb_accounts [OF 1(1)] acc by (simp add: taken_def)
    next
      case 2
      then show ?thesis using acc by (auto dest!: wrap_submit_urb_taken intro: taken_cong)
    qed
  qed (simp add: taken_def acc a(2))
qed

text \<open>The synchronous requests never report a pending status and change the packet only.\<close>

lemma wrap_select_interface_status: "wrap_select_interface dev off sel = Some (st, cs, sel') \<Longrightarrow> st \<noteq> USBD_STATUS_PENDING"
  using wrap_urb_status_cases(2) by (auto simp: wrap_select_interface_def Let_def bind_eq_Some_conv split: if_splits option.splits)

lemma select_interfaces_status: "select_interfaces dev n off sel = Some (st, cs, sel') \<Longrightarrow> st \<noteq> USBD_STATUS_PENDING"
proof (induction n arbitrary: off sel cs)
  case (Suc n)
  then show ?case by (auto simp: bind_eq_Some_conv split: if_splits dest: wrap_select_interface_status)
qed simp

lemma select_conf_status: "select_conf dev config sel = Some (st, cs, sel') \<Longrightarrow> st \<noteq> USBD_STATUS_PENDING"
  using wrap_urb_status_cases(2) by (auto simp: select_conf_def Let_def bind_eq_Some_conv split: if_splits dest: select_interfaces_status)

lemma wrap_get_descriptor_status:
  "wrap_get_descriptor dev r = Some (st, r') \<Longrightarrow> st \<noteq> USBD_STATUS_PENDING" "wrap_get_descriptor dev r = Some (st, r') \<Longrightarrow> ui_wrap_urb r' = ui_wrap_urb r"
  using wrap_urb_status_cases(2) by (auto simp: wrap_get_descriptor_def Let_def bind_eq_Some_conv split: if_splits prod.splits)

lemma wrap_set_clear_feature_status: "wrap_set_clear_feature dev n = (st, cs, n') \<Longrightarrow> st \<noteq> USBD_STATUS_PENDING"
  using wrap_urb_status_cases(2) by (auto simp: wrap_set_clear_feature_def Let_def split: option.splits prod.splits)

lemma wrap_get_status_request_status: "wrap_get_status_request dev n = Some (st, cs, n') \<Longrightarrow> st \<noteq> USBD_STATUS_PENDING"
  using wrap_urb_status_cases(2) by (auto simp: wrap_get_status_request_def Let_def bind_eq_Some_conv split: option.splits prod.splits if_splits)

lemma wrap_reset_pipe_status: "wrap_reset_pipe ep = (st, cs) \<Longrightarrow> st \<noteq> USBD_STATUS_PENDING"
  by (auto simp: wrap_reset_pipe_def split: if_splits)

lemma upd_irp_twice [simp]: "upd_irp i r (upd_irp i r' s) = upd_irp i r s"
  by (simp add: upd_irp_def)

definition sync_result :: "irp_id \<Rightarrow> usb_irp \<Rightarrow> usb_state \<Rightarrow> u32 \<Rightarrow> usb_state \<Rightarrow> bool" where
  "sync_result i r s st s' \<longleftrightarrow> st \<noteq> USBD_STATUS_PENDING \<and> (\<exists>r'. s' = upd_irp i r' s \<and> ui_wrap_urb r' = ui_wrap_urb r)"

lemma sync_resultI: "st \<noteq> USBD_STATUS_PENDING \<Longrightarrow> ui_wrap_urb r' = ui_wrap_urb r \<Longrightarrow> sync_result i r s st (upd_irp i r' s)"
  unfolding sync_result_def by blast

lemma wrap_select_configuration_sync:
  assumes "wrap_select_configuration dev i s = Some (st, cs, s')" "uirps s i = Some r" "sr_config (nu_select (ui_nt_urb r)) \<noteq> None"
  shows "sync_result i r s st s'"
  using assms by (auto simp: wrap_select_configuration_def Let_def bind_eq_Some_conv intro!: sync_resultI dest: select_conf_status)

lemma wrap_abort_pipe_sync:
  assumes "wrap_abort_pipe unlink i s = Some (st, us, s')" "uirps s i = Some r"
  shows "sync_result i r s st s'"
  using assms by (auto simp: wrap_abort_pipe_def bind_eq_Some_conv intro!: sync_resultI)

text \<open>The configuration is not taken away: that kills the URBs.\<close>

definition keeps_configuration :: "nt_urb \<Rightarrow> bool" where
  "keeps_configuration n \<longleftrightarrow> \<not> (nu_function n = 0 \<and> sr_config (nu_select n) = None)"

lemma set_nt_status_link [simp]: "ui_wrap_urb (set_nt_status st r) = ui_wrap_urb r"
  by (simp add: set_nt_status_def)

lemma sync_result_status: "sync_result i r s st s' \<Longrightarrow> uirps s' i = Some r' \<Longrightarrow> sync_result i r s st (upd_irp i (set_nt_status st r') s')"
  unfolding sync_result_def by (metis fun_upd_same option.inject set_nt_status_link upd_irp_twice upd_simps(11))

lemma wrap_process_nt_urb_cases:
  assumes p: "wrap_process_nt_urb e i s = Some (st, cs, s')" and r: "uirps s i = Some r" and k: "keeps_configuration (ui_nt_urb r)"
  shows "wrap_bulk_or_intr_trans i (io_urb e) (io_submit e) s = Some (st, s') \<or>
    wrap_vendor_or_class_req i (io_urb e) (io_setup e) (io_submit e) s = Some (st, s') \<or> sync_result i r s st s'"
proof -
  define f where "f = nu_function (ui_nt_urb r)"
  note d = wrap_process_nt_urb_def Let_def f_def [symmetric] bind_eq_Some_conv
  consider "usb_hw_disabled s" | "\<not> usb_hw_disabled s" "f = 9 \<or> f \<in> {0x17, 0x18, 0x19, 0x20, 0x1A, 0x1B, 0x1C, 0x1F}" | "\<not> usb_hw_disabled s" "f = 0" |
    "\<not> usb_hw_disabled s" "f = 1" | "\<not> usb_hw_disabled s" "f = 0x0B" | "\<not> usb_hw_disabled s" "f = 2" | "\<not> usb_hw_disabled s" "0x0D \<le> f \<and> f \<le> 0x12" |
    "\<not> usb_hw_disabled s" "0x13 \<le> f \<and> f \<le> 0x15" | "\<not> usb_hw_disabled s" "\<not> (f = 9 \<or> f \<in> {0x17, 0x18, 0x19, 0x20, 0x1A, 0x1B, 0x1C, 0x1F})"
      "f \<noteq> 0" "f \<noteq> 1" "f \<noteq> 0x0B" "f \<noteq> 2" "\<not> (0x0D \<le> f \<and> f \<le> 0x12)" "\<not> (0x13 \<le> f \<and> f \<le> 0x15)"
    by blast
  then show ?thesis
  proof cases
    case 2
    then show ?thesis using p r by (auto simp: d)
  next
    case 3
    then show ?thesis using p r k by (auto simp: d keeps_configuration_def intro: sync_result_status dest!: wrap_select_configuration_sync)
  next
    case 4
    then show ?thesis using p r by (auto simp: d intro!: sync_resultI dest: wrap_select_interface_status)
  next
    case 5
    then obtain r1 where g: "wrap_get_descriptor (io_dev e) r = Some (st, r1)" "s' = upd_irp i (set_nt_status st r1) s" using p r by (auto simp: d)
    then have "sync_result i r s st s'" unfolding g(2) using wrap_get_descriptor_status [OF g(1)] by (intro sync_resultI) simp_all
    then show ?thesis by blast
  next
    case 6
    then show ?thesis using p r by (auto simp: d dest: wrap_abort_pipe_sync)
  next
    case 7
    then show ?thesis using p r by (auto simp: d intro!: sync_resultI dest: wrap_set_clear_feature_status split: prod.splits)
  next
    case 8
    then show ?thesis using p r by (auto simp: d intro!: sync_resultI dest: wrap_get_status_request_status)
  qed (use p r in \<open>auto simp: d intro!: sync_resultI dest: wrap_reset_pipe_status split: if_splits prod.splits\<close>)
qed

lemma wrap_process_nt_urb_ok:
  assumes inv: "usb_inv s" and r: "uirps s i = Some r" "ui_wrap_urb r = None" and e: "env_ok (io_urb e) s" and q: "request_ok (ui_nt_urb r)"
    and k: "keeps_configuration (ui_nt_urb r)" and p: "wrap_process_nt_urb e i s = Some (st, cs, s')"
  shows "usb_inv s'" "taken i s (st, s')"
proof -
  have "usb_inv s' \<and> taken i s (st, s')" if "sync_result i r s st s'"
  proof -
    from that obtain r' where "st \<noteq> USBD_STATUS_PENDING" "s' = upd_irp i r' s" "ui_wrap_urb r' = None" using r(2) by (auto simp: sync_result_def)
    then show ?thesis using new_irp_ok [OF inv, of i r'] r by (simp add: taken_def)
  qed
  then have "usb_inv s' \<and> taken i s (st, s')"
    using wrap_process_nt_urb_cases [OF p r(1) k] wrap_bulk_ok [OF inv r e q, of "io_submit e"] wrap_vendor_ok [OF inv r e q, of "io_setup e" "io_submit e"]
      wrap_bulk_taken [of i "io_urb e" "io_submit e" s "(st, s')"] wrap_vendor_taken [of i "io_urb e" "io_setup e" "io_submit e" s "(st, s')"] by auto
  then show "usb_inv s'" "taken i s (st, s')" by simp_all
qed

lemma in_flight_taken:
  assumes "usb_inv s" "usb_inv s'" "taken i s (st, s')" "i \<notin> in_flight s"
  shows "in_flight s' = (if st = USBD_STATUS_PENDING then insert i (in_flight s) else in_flight s)"
proof -
  have f: "finite (in_flight s)" "finite (in_flight s')" using assms(1,2) by (simp_all add: usb_inv_def)
  have "mset_set (in_flight s') = mset_set (if st = USBD_STATUS_PENDING then insert i (in_flight s) else in_flight s)"
  proof -
    have "irps_submitted s = irps_completed s + mset_set (in_flight s)" "irps_submitted s' = irps_completed s' + mset_set (in_flight s')" using assms(1,2) by (simp_all add: usb_inv_def)
    moreover have "irps_completed s' = irps_completed s" "irps_submitted s' = irps_submitted s + (if st = USBD_STATUS_PENDING then {#i#} else {#})" using assms(3) by (simp_all add: taken_def)
    ultimately have "irps_completed s + mset_set (in_flight s') = irps_completed s + (mset_set (in_flight s) + (if st = USBD_STATUS_PENDING then {#i#} else {#}))" by (simp add: ac_simps)
    then have "mset_set (in_flight s') = mset_set (in_flight s) + (if st = USBD_STATUS_PENDING then {#i#} else {#})" by (rule add_left_imp_eq)
    then show ?thesis using assms(4) f(1) by simp
  qed
  then have "set_mset (mset_set (in_flight s')) = set_mset (mset_set (if st = USBD_STATUS_PENDING then insert i (in_flight s) else in_flight s))" by (rule arg_cong)
  then show ?thesis using f by (simp split: if_splits)
qed

text \<open>The statuses of the two requests to the port and of unknown codes.\<close>

lemma submit_ioctl_ok:
  assumes inv: "usb_inv s" and r: "uirps s i = Some r" "ui_wrap_urb r = None" and e: "env_ok (io_urb e) s" and q: "request_ok (ui_nt_urb r)"
    and k: "keeps_configuration (ui_nt_urb r)" and p: "submit_ioctl e code port i s = Some (st, port', cs, s')"
  shows "usb_inv s' \<and> taken i s (st, s')"
  using p inv wrap_process_nt_urb_ok [OF inv r e q k, of st cs s']
  by (auto simp: submit_ioctl_def wrap_reset_port_def wrap_get_port_status_def taken_def bind_eq_Some_conv split: if_splits)

text \<open>The driver's view: besides the steps below it, packets are submitted through \<^verbatim>\<open>wrap_submit_irp\<close>, with the restrictions of those steps: calls do not
  overlap and the configuration is not removed.\<close>

inductive io_reach :: "usb_state \<Rightarrow> bool" where
  start: "io_reach usb_start"
| below: "io_reach s \<Longrightarrow> usb_step s s' \<Longrightarrow> io_reach s'"
| submit: "io_reach s \<Longrightarrow> uirps s i = Some r \<Longrightarrow> ui_wrap_urb r = None \<Longrightarrow> request_ok (ui_nt_urb r) \<Longrightarrow> env_ok (io_urb e) s \<Longrightarrow>
    keeps_configuration (ui_nt_urb r) \<Longrightarrow> wrap_submit_irp gone e code port i s = Some (st, port', cs, s') \<Longrightarrow> io_reach s'"

lemma wrap_submit_irp_ok:
  assumes inv: "usb_inv s" and r: "uirps s i = Some r" "ui_wrap_urb r = None" and e: "env_ok (io_urb e) s" and q: "request_ok (ui_nt_urb r)"
    and k: "keeps_configuration (ui_nt_urb r)" and p: "wrap_submit_irp gone e code port i s = Some (st, port', cs, s')"
  shows "usb_inv s'" "irps_completed s' = irps_completed s" "in_flight s' = (if st = STATUS_PENDING then insert i (in_flight s) else in_flight s)"
    "st \<noteq> STATUS_PENDING \<Longrightarrow> \<exists>r'. uirps s' i = Some r' \<and> ui_status r' = st \<and> (st \<noteq> STATUS_SUCCESS \<longrightarrow> ui_info r' = 0)"
proof -
  have ni: "i \<notin> in_flight s" using r by (auto simp: in_flight_def)
  have "usb_inv s' \<and> irps_completed s' = irps_completed s \<and> in_flight s' = (if st = STATUS_PENDING then insert i (in_flight s) else in_flight s) \<and>
    (st \<noteq> STATUS_PENDING \<longrightarrow> (\<exists>r'. uirps s' i = Some r' \<and> ui_status r' = st \<and> (st \<noteq> STATUS_SUCCESS \<longrightarrow> ui_info r' = 0)))"
  proof (cases gone)
    case True
    then have s': "st = STATUS_DEVICE_REMOVED" "s' = upd_irp i (r\<lparr>ui_status := STATUS_DEVICE_REMOVED, ui_info := 0\<rparr>) s" using p r(1) by (auto simp: wrap_submit_irp_def)
    have "usb_inv s'" unfolding s'(2) using r by (intro new_irp_ok [OF inv]) auto
    moreover have "in_flight s' = in_flight s" using r ni by (auto simp: in_flight_def s'(2) split: if_splits)
    ultimately show ?thesis using s' by simp
  next
    case False
    then obtain us s1 where p1: "submit_ioctl e code port i s = Some (us, port', cs, s1)" and rest: "(if us = USBD_STATUS_PENDING then Some (STATUS_PENDING, s1)
        else do { r1 \<leftarrow> uirps s1 i; Some (nt_urb_irp_status us, upd_irp i (r1\<lparr>ui_status := nt_urb_irp_status us, ui_info := (if us \<noteq> USBD_STATUS_SUCCESS then 0 else ui_info r1)\<rparr>) s1) }) =
        Some (st, s')"
      using p by (cases "submit_ioctl e code port i s") (auto simp: wrap_submit_irp_def split: if_split_asm bind_split_asm bind_splits)
    note ok = submit_ioctl_ok [OF inv r e q k p1]
    have fl: "in_flight s1 = (if us = USBD_STATUS_PENDING then insert i (in_flight s) else in_flight s)" using in_flight_taken [OF inv _ _ ni] ok by blast
    show ?thesis
    proof (cases "us = USBD_STATUS_PENDING")
      case True
      then show ?thesis using rest ok fl by (simp add: taken_def)
    next
      case np: False
      then obtain r1 where r1: "uirps s1 i = Some r1" "st = nt_urb_irp_status us"
        "s' = upd_irp i (r1\<lparr>ui_status := nt_urb_irp_status us, ui_info := (if us \<noteq> USBD_STATUS_SUCCESS then 0 else ui_info r1)\<rparr>) s1" using rest by (auto simp: bind_eq_Some_conv simp del: if_split)
      have n1: "i \<notin> in_flight s1" using fl np ni by simp
      then have w1: "ui_wrap_urb r1 = None" using r1(1) by (auto simp: in_flight_def)
      have "usb_inv s'" unfolding r1(3) using ok r1(1) w1 by (intro new_irp_ok) auto
      moreover have "in_flight s' = in_flight s1" using r1 w1 n1 by (auto simp: in_flight_def split: if_splits)
      ultimately show ?thesis using r1 ok fl np by (simp add: taken_def nt_urb_irp_status_cases)
    qed
  qed
  then show "usb_inv s'" "irps_completed s' = irps_completed s" "in_flight s' = (if st = STATUS_PENDING then insert i (in_flight s) else in_flight s)"
    "st \<noteq> STATUS_PENDING \<Longrightarrow> \<exists>r'. uirps s' i = Some r' \<and> ui_status r' = st \<and> (st \<noteq> STATUS_SUCCESS \<longrightarrow> ui_info r' = 0)" by simp_all
qed

lemma io_reach_inv: "io_reach s \<Longrightarrow> usb_inv s"
proof (induction rule: io_reach.induct)
  case (submit s i r e gone code port st port' cs s')
  then show ?case using wrap_submit_irp_ok(1) by blast
qed (auto intro: usb_start_inv usb_step_inv)

text \<open>Submissions are not forgotten by any step.\<close>

lemma kernel_complete_submitted: "kernel_complete u st data s = Some s' \<Longrightarrow> irps_submitted s' = irps_submitted s"
  by (auto simp: kernel_complete_def kernel_data_def wrap_urb_complete_def bind_eq_Some_conv split: option.splits if_splits)

lemma usb_step_submitted: "usb_step s s' \<Longrightarrow> irps_submitted s \<subseteq># irps_submitted s'"
proof (induction rule: usb_step.induct)
  case (transfer s i r e ret st s')
  then show ?case by (auto simp: taken_def dest!: wrap_bulk_taken)
next
  case (control s i r e mem ret st s')
  then show ?case by (auto simp: taken_def dest!: wrap_vendor_taken)
next
  case (finish s u w data st s')
  then show ?case using kernel_complete_submitted by auto
next
  case (work s s')
  then show ?case by (auto simp: complete_one_def bind_eq_Some_conv dest!: wrap_free_urb_accounts split: list.splits)
next
  case (cancel unlink i s s')
  then show ?case by (auto simp: cancel_request_def wrap_cancel_irp_def bind_eq_Some_conv Let_def split: if_splits)
next
  case (abort unlink i s st us s')
  then show ?case by (auto simp: wrap_abort_pipe_def bind_eq_Some_conv split: if_splits)
qed simp

lemma usb_steps_inv: "usb_step\<^sup>*\<^sup>* s s' \<Longrightarrow> usb_inv s \<Longrightarrow> usb_inv s' \<and> irps_submitted s \<subseteq># irps_submitted s'"
  by (induction rule: rtranclp_induct) (auto dest: usb_step_inv usb_step_submitted intro: subset_mset.order_trans)

lemma count_in_flight:
  assumes "usb_inv s"
  shows "count (irps_submitted s) i = count (irps_completed s) i + (if i \<in> in_flight s then 1 else 0)"
proof -
  have "finite (in_flight s)" "irps_submitted s = irps_completed s + mset_set (in_flight s)" using assms by (simp_all add: usb_inv_def)
  then show ?thesis by (auto simp: count_mset_set)
qed

text \<open>C38: a request other than the removal of the configuration, whose buffer is as long as it says, given to \<^verbatim>\<open>wrap_submit_irp\<close> in a state that calls which do
  not overlap have reached.  When the result is pending, the packet was handed to the kernel by this call; whatever the kernel, the worker and other requests do from
  then on, also before the call returns, the packet is held by a URB or it has been completed since, and the invariant of the URBs holds.  When the result is not pending, no URB
  holds the packet, it is not completed by the call, the other packets in flight stay there, the invariant holds, and the packet carries the returned status and, on an
  error, no length.\<close>
theorem submit_irp_pending:
  assumes "io_reach s" "uirps s i = Some r" "ui_wrap_urb r = None" "request_ok (ui_nt_urb r)" "env_ok (io_urb e) s" "keeps_configuration (ui_nt_urb r)"
    and "wrap_submit_irp gone e code port i s = Some (st, port', cs, s')"
  shows "if st = STATUS_PENDING
    then in_flight s' = insert i (in_flight s) \<and> irps_completed s' = irps_completed s \<and>
      (\<forall>s2. usb_step\<^sup>*\<^sup>* s' s2 \<longrightarrow> usb_inv s2 \<and> (i \<in> in_flight s2 \<or> count (irps_completed s) i < count (irps_completed s2) i))
    else usb_inv s' \<and> in_flight s' = in_flight s \<and> i \<notin> in_flight s' \<and> irps_completed s' = irps_completed s \<and>
      (\<exists>r'. uirps s' i = Some r' \<and> ui_status r' = st \<and> (st \<noteq> STATUS_SUCCESS \<longrightarrow> ui_info r' = 0))"
proof -
  note inv = io_reach_inv [OF assms(1)]
  note ok = wrap_submit_irp_ok [OF inv assms(2,3,5,4,6,7)]
  have ni: "i \<notin> in_flight s" using assms(2,3) by (auto simp: in_flight_def)
  have "i \<in> in_flight s2 \<or> count (irps_completed s) i < count (irps_completed s2) i" if "st = STATUS_PENDING" "usb_step\<^sup>*\<^sup>* s' s2" for s2
    using count_in_flight [OF ok(1), of i] count_in_flight [of s2 i] usb_steps_inv [OF that(2) ok(1)] ok(2,3) that(1)
      mset_subset_eq_count [of "irps_submitted s'" "irps_submitted s2" i] by (auto split: if_splits)
  then show ?thesis using ok ni usb_steps_inv [OF _ ok(1)] by auto
qed

section \<open>Intervals and pipes\<close>

lemma interval_loop_least:
  assumes "n = 0 \<or> 2 ^ (n - 1) < b"
  shows "\<exists>k. interval_loop b (2 ^ n) (n + 1) = Some k \<and> 0 < k \<and> b \<le> 2 ^ (k - 1) \<and> (k = 1 \<or> 2 ^ (k - 2) < b)"
  using assms
proof (induction "b - 2 ^ n" arbitrary: n rule: less_induct)
  case less
  show ?case
  proof (cases "2 ^ n < b")
    case True
    then have d: "b - 2 ^ (n + 1) < b - 2 ^ n" by (intro diff_less_mono2) (simp_all add: True)
    from less.hyps [OF this] True show ?thesis by (subst interval_loop.simps) (simp add: mult.commute)
  next
    case False
    then show ?thesis using less.prems by (subst interval_loop.simps) (auto simp: not_less)
  qed
qed

text \<open>For a device of high speed the interval is one more than the logarithm to base two, rounded up.\<close>

lemma high_speed_interval: "\<exists>k. interval_loop b 1 1 = Some k \<and> b \<le> 2 ^ (k - 1) \<and> (k = 1 \<or> 2 ^ (k - 2) < b)"
  using interval_loop_least [of 0 b] by auto

lemma set_pipe_total: "\<exists>q. set_pipe sp ep p = Some q \<and> pi_handle q = Some ep \<and> pi_bEndpointAddress q = bEndpointAddress ep \<and> pi_wMaxPacketSize q = wMaxPacketSize ep"
proof -
  have "\<exists>iv. pipe_interval sp (bInterval ep) = Some iv" using high_speed_interval [of "unat (bInterval ep)"] by (auto simp: pipe_interval_def)
  then show ?thesis by (auto simp: set_pipe_def)
qed

lemma set_pipes_all:
  assumes "i + length eps \<le> length (ii_pipes intf)" "length (ii_pipes intf) = unat (ii_bNumEndpoints intf)"
  shows "\<exists>ps. set_pipes sp eps i intf = Some (intf\<lparr>ii_pipes := ps\<rparr>) \<and> length ps = length (ii_pipes intf) \<and> take i ps = take i (ii_pipes intf) \<and>
    map pi_handle (take (length eps) (drop i ps)) = map Some eps"
  using assms
proof (induction eps arbitrary: i intf)
  case (Cons ep eps)
  have i: "i < length (ii_pipes intf)" using Cons.prems by simp
  obtain q where q: "set_pipe sp ep (ii_pipes intf ! i) = Some q" "pi_handle q = Some ep" using set_pipe_total by blast
  let ?intf = "intf\<lparr>ii_pipes := (ii_pipes intf)[i := q]\<rparr>"
  obtain ps where ps: "set_pipes sp eps (Suc i) ?intf = Some (?intf\<lparr>ii_pipes := ps\<rparr>)" "length ps = length (ii_pipes intf)"
      "take (Suc i) ps = take (Suc i) ((ii_pipes intf)[i := q])" "map pi_handle (take (length eps) (drop (Suc i) ps)) = map Some eps"
    using Cons.IH [of "Suc i" ?intf] Cons.prems by auto
  have "take i (take (Suc i) ps) = take i (take (Suc i) ((ii_pipes intf)[i := q]))" by (simp only: ps(3))
  then have t: "take i ps = take i (ii_pipes intf)" by simp
  have "take (Suc i) ps ! i = q" by (simp only: ps(3)) (simp add: i)
  then have "drop i ps = q # drop (Suc i) ps" using i ps(2) by (simp add: Cons_nth_drop_Suc [symmetric])
  then show ?case using Cons.prems i q ps t by (intro exI [of _ ps]) (simp add: rd_def wr_def)
next
  case Nil
  then show ?case by (intro exI [of _ "ii_pipes intf"]) simp
qed

section \<open>Requests for a configuration\<close>

text \<open>Where the structures of a list of interfaces lie from an offset on, and that they are there.\<close>

primrec places :: "nat \<Rightarrow> usb_interface_descriptor list \<Rightarrow> nat list" where
  "places off [] = []"
| "places off (d # ds) = off # places (off + intf_size d) ds"

primrec holds :: "(usb_interface_descriptor \<Rightarrow> usbd_interface_information \<Rightarrow> bool) \<Rightarrow> nat \<Rightarrow> usb_interface_descriptor list \<Rightarrow> usbd_select \<Rightarrow> bool" where
  "holds P off [] sel \<longleftrightarrow> True"
| "holds P off (d # ds) sel \<longleftrightarrow> (\<exists>x. sr_intfs sel off = Some x \<and> P d x) \<and> holds P (off + intf_size d) ds sel"

lemma holds_cong: "holds P off ds sel \<Longrightarrow> (\<And>p. off \<le> p \<Longrightarrow> sr_intfs sel' p = sr_intfs sel p) \<Longrightarrow> holds P off ds sel'"
  by (induction ds arbitrary: off) auto

lemma holds_nth: "holds P off ds sel \<Longrightarrow> k < length ds \<Longrightarrow> \<exists>x. sr_intfs sel (places off ds ! k) = Some x \<and> P (ds ! k) x"
  by (induction ds arbitrary: off k) (auto simp: nth_Cons split: nat.splits)

lemma intf_size_bounds [simp]: "0 < intf_size d" "intf_size d \<noteq> 0" "unat (of_nat (intf_size d) :: u16) = intf_size d"
proof -
  have "intf_size d < 2 ^ 16" using unat_bounds(1) [of "id_bNumEndpoints d"] by (simp add: intf_size_def)
  then show "unat (of_nat (intf_size d) :: u16) = intf_size d" by (simp add: unsigned_of_nat take_bit_nat_eq_self)
qed (simp_all add: intf_size_def)

lemma new_intf_length [simp]: "unat (ii_bLength (new_intf d)) = intf_size d" "ii_bLength (new_intf d) \<noteq> 0"
  using intf_size_bounds [of d] by (auto simp: new_intf_def simp del: intf_size_bounds)

lemma request_size_sum:
  "request_size (pre @ map Some ds @ rest) (length pre) (length ds) = Some (SELECT_CONF_INTF + sum_list (map intf_size ds))"
proof (induction ds arbitrary: pre)
  case (Cons d ds)
  from Cons.IH [of "pre @ [Some d]"] show ?case by (simp add: rd_def)
qed simp

definition ends_before :: "nat \<Rightarrow> usbd_select \<Rightarrow> bool" where
  "ends_before off sel \<longleftrightarrow> (\<forall>p x. sr_intfs sel p = Some x \<longrightarrow> p + intf_extent x \<le> off)"

lemma place_intf_end:
  assumes "ends_before off sel"
  shows "sr_intfs (place_intf off (new_intf d) sel) = (sr_intfs sel)(off \<mapsto> new_intf d)" "sr_size (place_intf off x sel) = sr_size sel"
    "ends_before (off + intf_size d) (place_intf off (new_intf d) sel)"
proof -
  show i: "sr_intfs (place_intf off (new_intf d) sel) = (sr_intfs sel)(off \<mapsto> new_intf d)"
    using assms by (force simp: place_intf_def ends_before_def fun_eq_iff split: option.splits)
  have "intf_extent (new_intf d) = intf_size d" by (simp add: intf_extent_def new_intf_def intf_size_def)
  then show "ends_before (off + intf_size d) (place_intf off (new_intf d) sel)" using assms by (auto simp: ends_before_def i trans_le_add1)
qed (simp add: place_intf_def)

lemma request_intfs_holds:
  "off + sum_list (map intf_size ds) \<le> sr_size sel \<Longrightarrow> ends_before off sel \<Longrightarrow>
   \<exists>sel'. request_intfs (pre @ map Some ds @ rest) (length pre) (length ds) off sel = Some (places off ds, sel') \<and>
     holds (\<lambda>d x. x = new_intf d) off ds sel' \<and> (\<forall>p<off. sr_intfs sel' p = sr_intfs sel p)"
proof (induction ds arbitrary: pre off sel)
  case (Cons d ds)
  let ?sel = "place_intf off (new_intf d) sel"
  note pl = place_intf_end [OF Cons.prems(2)]
  obtain sel' where s: "request_intfs ((pre @ [Some d]) @ map Some ds @ rest) (length (pre @ [Some d])) (length ds) (off + intf_size d) ?sel = Some (places (off + intf_size d) ds, sel')"
      "holds (\<lambda>d x. x = new_intf d) (off + intf_size d) ds sel'" "\<forall>p<off + intf_size d. sr_intfs sel' p = sr_intfs ?sel p"
    using Cons.IH [of "off + intf_size d" ?sel "pre @ [Some d]"] Cons.prems pl(2,3) by auto
  have "sr_intfs sel' off = Some (new_intf d)" "\<forall>p<off. sr_intfs sel' p = sr_intfs sel p" using s(3) by (simp_all add: pl(1) trans_less_add1)
  then show ?case using s(1,2) Cons.prems by (simp add: rd_def)
qed simp

text \<open>A device that has the interfaces, with as many endpoints as they say.\<close>

definition accepts :: "usb_dev \<Rightarrow> usb_interface_descriptor \<Rightarrow> usb_endpoint_descriptor list \<Rightarrow> bool" where
  "accepts dev d eps \<longleftrightarrow> 0 \<le> ud_set_interface dev (id_bInterfaceNumber d) (id_bAlternateSetting d) \<and>
     ud_endpoints dev (id_bInterfaceNumber d) (id_bAlternateSetting d) = Some eps \<and> length eps = unat (id_bNumEndpoints d)"

definition described :: "usb_dev \<Rightarrow> usb_interface_descriptor \<Rightarrow> usbd_interface_information \<Rightarrow> bool" where
  "described dev d x \<longleftrightarrow> (\<exists>ps. x = (new_intf d)\<lparr>ii_pipes := ps\<rparr> \<and> ud_endpoints dev (id_bInterfaceNumber d) (id_bAlternateSetting d) = Some (map (the \<circ> pi_handle) ps) \<and>
     (\<forall>p\<in>set ps. pi_handle p \<noteq> None))"

lemma wrap_select_interface_ok:
  assumes a: "accepts dev d eps" and s: "sr_intfs sel off = Some (new_intf d)"
  shows "\<exists>x. wrap_select_interface dev off sel = Some (USBD_STATUS_SUCCESS, [UcSetInterface (id_bInterfaceNumber d) (id_bAlternateSetting d)], sel\<lparr>sr_intfs := (sr_intfs sel)(off \<mapsto> x)\<rparr>) \<and>
    described dev d x"
proof -
  have "length (ii_pipes (new_intf d)) = unat (ii_bNumEndpoints (new_intf d))" "0 + length eps \<le> length (ii_pipes (new_intf d))"
    using a unat_bounds(1) [of "id_bNumEndpoints d"] by (simp_all add: new_intf_def accepts_def unsigned_ucast_eq take_bit_eq_mod)
  from set_pipes_all [OF this(2,1), of "ud_speed dev"] obtain ps where ps: "set_pipes (ud_speed dev) eps 0 (new_intf d) = Some ((new_intf d)\<lparr>ii_pipes := ps\<rparr>)"
      "length ps = length eps" "map pi_handle (take (length eps) ps) = map Some eps" using a by (auto simp: accepts_def new_intf_def)
  then have h: "map pi_handle ps = map Some eps" by simp
  then have "map (the \<circ> pi_handle) ps = eps" by (metis (no_types, lifting) map_map comp_apply map_idI option.sel)
  moreover have "pi_handle p \<noteq> None" if "p \<in> set ps" for p using that h by (metis imageE image_set option.distinct(1) imageI)
  ultimately have "described dev d ((new_intf d)\<lparr>ii_pipes := ps\<rparr>)" using a by (auto simp: described_def accepts_def)
  then show ?thesis using a s ps(1) by (auto simp: wrap_select_interface_def set_intf_pipe_info_def Let_def accepts_def new_intf_def)
qed

lemma select_interfaces_ok:
  "list_all2 (accepts dev) ds epss \<Longrightarrow> holds (\<lambda>d x. x = new_intf d) off ds sel \<Longrightarrow>
   \<exists>sel'. select_interfaces dev (length ds) off sel = Some (USBD_STATUS_SUCCESS, map (\<lambda>d. UcSetInterface (id_bInterfaceNumber d) (id_bAlternateSetting d)) ds, sel') \<and>
     holds (described dev) off ds sel' \<and> (\<forall>p<off. sr_intfs sel' p = sr_intfs sel p)"
proof (induction ds epss arbitrary: off sel rule: list_all2_induct)
  case (Cons d ds eps epss)
  obtain x where x: "wrap_select_interface dev off sel = Some (USBD_STATUS_SUCCESS, [UcSetInterface (id_bInterfaceNumber d) (id_bAlternateSetting d)], sel\<lparr>sr_intfs := (sr_intfs sel)(off \<mapsto> x)\<rparr>)"
      "described dev d x" using wrap_select_interface_ok [OF Cons.hyps(1)] Cons.prems by auto
  let ?sel = "sel\<lparr>sr_intfs := (sr_intfs sel)(off \<mapsto> x)\<rparr>"
  have "holds (\<lambda>d x. x = new_intf d) (off + intf_size d) ds ?sel" using Cons.prems intf_size_bounds(1) [of d] by (auto elim!: holds_cong)
  then obtain sel' where s: "select_interfaces dev (length ds) (off + intf_size d) ?sel = Some (USBD_STATUS_SUCCESS, map (\<lambda>d. UcSetInterface (id_bInterfaceNumber d) (id_bAlternateSetting d)) ds, sel')"
      "holds (described dev) (off + intf_size d) ds sel'" "\<forall>p<off + intf_size d. sr_intfs sel' p = sr_intfs ?sel p" using Cons.IH by blast
  have "sr_intfs sel' off = Some x" "\<forall>p<off. sr_intfs sel' p = sr_intfs sel p" using s(3) by (simp_all add: trans_less_add1)
  then show ?case using x s(1,2) Cons.prems by simp
qed simp

text \<open>C39: a request that \<^verbatim>\<open>USBD_CreateConfigurationRequestEx\<close> builds from a list of interfaces fits the memory it allocates; selecting it on a device that has these
  interfaces sets the configuration, then each interface to its alternate setting in order, and leaves at the places that were reported to the driver the interfaces with
  one pipe for each endpoint of the device, whose handle is that endpoint.\<close>
theorem configuration_round_trip:
  assumes n: "length ds = unat (cd_bNumInterfaces config)" and dev: "list_all2 (accepts dev) ds epss"
    and ctl: "0 \<le> fst (ud_control dev 0 \<lparr>bRequestType = 0, bRequest = USB_REQ_SET_CONFIGURATION, wValue = ucast (cd_bConfigurationValue config), wIndex = 0, wLength = 0\<rparr>)"
  shows "\<exists>sel len offs cs sel'. USBD_CreateConfigurationRequestEx config (map Some ds) True = Some (Some (sel, len, offs)) \<and>
    sr_config sel = Some config \<and> select_conf dev config sel = Some (USBD_STATUS_SUCCESS, cs, sel') \<and>
    tl cs = map (\<lambda>d. UcSetInterface (id_bInterfaceNumber d) (id_bAlternateSetting d)) ds \<and> length offs = length ds \<and>
    (\<forall>k<length ds. \<exists>x. sr_intfs sel' (offs ! k) = Some x \<and> ii_bInterfaceNumber x = id_bInterfaceNumber (ds ! k) \<and>
       ii_bAlternateSetting x = id_bAlternateSetting (ds ! k) \<and> map pi_handle (ii_pipes x) = map Some (epss ! k))"
proof -
  let ?sel = "\<lparr>sr_config = None, sr_size = SELECT_CONF_INTF + sum_list (map intf_size ds), sr_intfs = Map.empty\<rparr>"
  obtain sel where s: "request_intfs ([] @ map Some ds @ []) (length []) (length ds) SELECT_CONF_INTF ?sel = Some (places SELECT_CONF_INTF ds, sel)"
      "holds (\<lambda>d x. x = new_intf d) SELECT_CONF_INTF ds sel" using request_intfs_holds [of SELECT_CONF_INTF ds ?sel "[]" "[]"] by (auto simp: ends_before_def)
  let ?s = "sel\<lparr>sr_config := Some config\<rparr>"
  have c: "USBD_CreateConfigurationRequestEx config (map Some ds) True = Some (Some (?s, of_nat (SELECT_CONF_INTF + sum_list (map intf_size ds)), places SELECT_CONF_INTF ds))"
    using request_size_sum [of "[]" ds "[]"] s(1) by (simp add: USBD_CreateConfigurationRequestEx_def n [symmetric])
  have "holds (\<lambda>d x. x = new_intf d) SELECT_CONF_INTF ds ?s" by (rule holds_cong [OF s(2)]) simp
  then obtain sel' where s': "select_interfaces dev (length ds) SELECT_CONF_INTF ?s = Some (USBD_STATUS_SUCCESS, map (\<lambda>d. UcSetInterface (id_bInterfaceNumber d) (id_bAlternateSetting d)) ds, sel')"
      "holds (described dev) SELECT_CONF_INTF ds sel'" using select_interfaces_ok [OF dev] by blast
  have "\<exists>x. sr_intfs sel' (places SELECT_CONF_INTF ds ! k) = Some x \<and> ii_bInterfaceNumber x = id_bInterfaceNumber (ds ! k) \<and>
       ii_bAlternateSetting x = id_bAlternateSetting (ds ! k) \<and> map pi_handle (ii_pipes x) = map Some (epss ! k)" if k: "k < length ds" for k
  proof -
    obtain x where x: "sr_intfs sel' (places SELECT_CONF_INTF ds ! k) = Some x" "described dev (ds ! k) x" using holds_nth [OF s'(2) k] by blast
    have "ud_endpoints dev (id_bInterfaceNumber (ds ! k)) (id_bAlternateSetting (ds ! k)) = Some (epss ! k)" using list_all2_nthD [OF dev k] by (simp add: accepts_def)
    then have "map pi_handle (ii_pipes x) = map Some (epss ! k)" using x(2) by (auto simp: described_def)
    then show ?thesis using x by (auto simp: described_def new_intf_def)
  qed
  moreover have "length (places off ds) = length ds" for off by (induction ds arbitrary: off) auto
  ultimately show ?thesis using c s'(1) ctl by (auto simp: select_conf_def n [symmetric] Let_def)
qed

text \<open>Of a configuration with several interfaces \<^verbatim>\<open>USBD_CreateConfigurationRequest\<close> passes one, and dereferences the null pointer of the next entry; so it does when there is none.\<close>

lemma create_request_null:
  assumes "rd_config b = Some config" "2 \<le> unat (cd_bNumInterfaces config)"
  shows "USBD_CreateConfigurationRequest b mem = None"
proof -
  obtain n where n: "unat (cd_bNumInterfaces config) = Suc (Suc n)" using assms(2) le_Suc_ex [of 2] by auto
  have "request_size [f, None] 0 (Suc (Suc n)) = None" for f by (cases f) (simp_all add: rd_def)
  then have "USBD_CreateConfigurationRequestEx config [f, None] mem = None" for f by (simp add: USBD_CreateConfigurationRequestEx_def n)
  then show ?thesis using assms(1) by (cases "USBD_ParseConfigurationDescriptorEx b 0 (- 1) (- 1) (- 1) (- 1) (- 1)")
      (auto simp: USBD_CreateConfigurationRequest_def bind_eq_None_conv)
qed

section \<open>Parsing\<close>

text \<open>The descriptors of a buffer from \<open>pos\<close> to \<open>e\<close>: their positions; an interface descriptor has its fields in the buffer.\<close>

fun desc_chain :: "u8 list \<Rightarrow> nat \<Rightarrow> nat \<Rightarrow> nat list \<Rightarrow> bool" where
  "desc_chain b e pos [] \<longleftrightarrow> e \<le> pos"
| "desc_chain b e pos (p # ps) \<longleftrightarrow> p = pos \<and> pos < e \<and> pos + 1 < length b \<and> (b ! (pos + 1) = USB_DT_INTERFACE \<longrightarrow> pos + 7 < length b) \<and>
     desc_chain b e (pos + unat (b ! pos)) ps"

definition is_intf :: "u8 list \<Rightarrow> int list \<Rightarrow> nat \<Rightarrow> bool" where
  "is_intf b m p \<longleftrightarrow> b ! (p + 1) = USB_DT_INTERFACE \<and> (\<forall>(q, v) \<in> set (intf_fields p m). v = - 1 \<or> uint (b ! q) = v)"

lemma fields_ok_eq:
  "(\<And>q v. (q, v) \<in> set fs \<Longrightarrow> q < length b) \<Longrightarrow> fields_ok b fs = Some (\<forall>(q, v) \<in> set fs. v = - 1 \<or> uint (b ! q) = v)"
proof (induction fs)
  case (Cons f fs)
  then show ?case by (cases f) (auto simp: field_ok_def rd_def)
qed simp

lemma intf_matches_eq:
  assumes "p + 1 < length b" "b ! (p + 1) = USB_DT_INTERFACE \<longrightarrow> p + 7 < length b"
  shows "intf_matches b p m = Some (is_intf b m p)"
proof (cases "b ! (p + 1) = USB_DT_INTERFACE")
  case True
  have "q < length b" if "(q, v) \<in> set (intf_fields p m)" for q v
    using assms True set_zip_leftD [OF that [unfolded intf_fields_def]] by auto
  then show ?thesis using assms True by (simp add: intf_matches_def rd_def is_intf_def fields_ok_eq)
qed (use assms in \<open>simp add: intf_matches_def rd_def is_intf_def\<close>)

lemma parse_config_chain:
  "desc_chain b e pos ps \<Longrightarrow> parse_config b e m pos = Some (case find (is_intf b m) ps of None \<Rightarrow> NotFound | Some p \<Rightarrow> Found p)"
proof (induction ps arbitrary: pos)
  case Nil
  then show ?case by (subst parse_config.simps) simp
next
  case (Cons p ps)
  then show ?case by (subst parse_config.simps) (auto simp: intf_matches_eq rd_def split: option.splits)
qed

text \<open>in a configuration whose descriptors follow each other up to its total length, the search returns the first interface descriptor that meets all conditions, or
  none, and reads nothing outside the buffer.\<close>
theorem parse_configuration_first:
  assumes "total_length b = Some e" "desc_chain b e start ps"
  shows "USBD_ParseConfigurationDescriptorEx b start nr alt cl sub proto =
    Some (case find (is_intf b [nr, alt, cl, sub, proto]) ps of None \<Rightarrow> NotFound | Some p \<Rightarrow> Found p)"
  using assms by (simp add: USBD_ParseConfigurationDescriptorEx_def parse_config_chain)

lemma parse_descriptors_returns: "\<exists>res. USBD_ParseDescriptors b e ty pos = Some res"
proof (induction "e - pos" arbitrary: pos rule: less_induct)
  case less
  show ?case
  proof (cases "pos < e \<and> pos + 1 < length b \<and> uint (b ! (pos + 1)) \<noteq> ty \<and> b ! pos \<noteq> 0")
    case True
    then have "0 < unat (b ! pos)" by (simp add: unat_gt_0)
    then have "e - (pos + unat (b ! pos)) < e - pos" using True by auto
    from less.hyps [OF this] show ?thesis using True by (subst USBD_ParseDescriptors.simps) (simp add: rd_def)
  next
    case False
    then show ?thesis by (subst USBD_ParseDescriptors.simps) (auto simp: rd_def split: option.splits)
  qed
qed

text \<open>A descriptor that the search for an interface passes over: it lies before the end, its fields can be read and it is not the one that is searched.\<close>

definition passed :: "u8 list \<Rightarrow> nat \<Rightarrow> int list \<Rightarrow> nat \<Rightarrow> bool" where
  "passed b e m p \<longleftrightarrow> p < e \<and> p + 1 < length b \<and> (b ! (p + 1) = USB_DT_INTERFACE \<longrightarrow> p + 7 < length b) \<and> \<not> is_intf b m p"

text \<open>The search comes from \<open>start\<close> over the descriptors at \<open>ps\<close> to \<open>pos\<close>.\<close>

fun comes_to :: "u8 list \<Rightarrow> nat \<Rightarrow> int list \<Rightarrow> nat \<Rightarrow> nat list \<Rightarrow> nat \<Rightarrow> bool" where
  "comes_to b e m start [] pos \<longleftrightarrow> start = pos"
| "comes_to b e m start (p # ps) pos \<longleftrightarrow> start = p \<and> passed b e m p \<and> comes_to b e m (p + unat (b ! p)) ps pos"

lemma passed_matches: "passed b e m p \<Longrightarrow> p < e \<and> intf_matches b p m = Some False \<and> rd b p = Some (b ! p)"
  by (auto simp: passed_def intf_matches_eq rd_def)

lemma parse_config_comes_to: "comes_to b e m start ps pos \<Longrightarrow> parse_config b e m start = parse_config b e m pos"
proof (induction ps arbitrary: start)
  case (Cons p ps)
  then show ?case by (subst parse_config.simps) (auto dest: passed_matches)
qed simp

lemma parse_config_stuck:
  assumes "parse_config b e m pos = Some res"
  shows "\<not> (passed b e m pos \<and> b ! pos = 0)"
proof (rule parse_config.raw_induct [OF _ assms])
  fix f b e m pos res
  assume "\<And>b e m pos res. f b e m pos = Some res \<Longrightarrow> \<not> (passed b e m pos \<and> b ! pos = 0)"
    and "(if pos < e
      then (case intf_matches b pos m of
              None \<Rightarrow> Some Fault
            | Some c \<Rightarrow> if c then Some (Found pos)
                else (case rd b pos of None \<Rightarrow> Some Fault | Some len \<Rightarrow> f b e m (pos + unat len)))
      else Some NotFound) = Some res"
  then show "\<not> (passed b e m pos \<and> b ! pos = 0)" using passed_matches [of b e m pos] by fastforce
qed

text \<open>C40: \<^verbatim>\<open>USBD_ParseDescriptors\<close>, the search for a descriptor by type, ends for every buffer, whatever the device put in it, and every start.  The search for an
  interface descriptor does not end when it comes, over any number of descriptors that are not the one it searches, to one of length zero that is not the one either.\<close>
theorem zero_length_descriptor_hangs:
  "(\<exists>res. USBD_ParseDescriptors buf n ty p = Some res) \<and>
   (total_length b = Some e \<and> comes_to b e [nr, alt, cl, sub, proto] start ps pos \<and> passed b e [nr, alt, cl, sub, proto] pos \<and> b ! pos = 0 \<longrightarrow>
    USBD_ParseConfigurationDescriptorEx b start nr alt cl sub proto = None)"
proof (intro conjI impI)
  assume h: "total_length b = Some e \<and> comes_to b e [nr, alt, cl, sub, proto] start ps pos \<and> passed b e [nr, alt, cl, sub, proto] pos \<and> b ! pos = 0"
  have "parse_config b e [nr, alt, cl, sub, proto] pos = None"
    using parse_config_stuck [of b e "[nr, alt, cl, sub, proto]" pos] h by (cases "parse_config b e [nr, alt, cl, sub, proto] pos") auto
  then show "USBD_ParseConfigurationDescriptorEx b start nr alt cl sub proto = None"
    using h parse_config_comes_to [of b e _ start ps pos] by (simp add: USBD_ParseConfigurationDescriptorEx_def)
qed (rule parse_descriptors_returns)

section \<open>Features\<close>

text \<open>of the three recipients that the USB standard gives the numbers 0, 1 and 2, requests for a feature of the device name the interface, and requests for a feature of an
  interface or an endpoint name numbers that stand for no such recipient; the request is sent and its result reported all the same.\<close>
theorem feature_recipient_wrong:
  assumes "nu_function n \<in> {0x0D, 0x0E, 0x0F, 0x10, 0x11, 0x12}"
  shows "\<exists>q. snd (wrap_set_clear_feature dev n) = ([UcControl (mk_pipe PIPE_CONTROL False 0) q], n\<lparr>nu_status := wrap_urb_status (fst (ud_control dev 0 q))\<rparr>) \<and>
    (nu_function n \<in> {0x0D, 0x10} \<longrightarrow> bRequestType q = USB_RECIP_INTERFACE) \<and> (nu_function n \<notin> {0x0D, 0x10} \<longrightarrow> unat (bRequestType q) > 3)"
  using assms by (auto simp: wrap_set_clear_feature_def feature_request_def Let_def)

section \<open>Examples of requests\<close>

definition demo_intf :: usb_interface_descriptor where
  "demo_intf = \<lparr>id_bInterfaceNumber = 0, id_bAlternateSetting = 1, id_bNumEndpoints = 1, id_bInterfaceClass = 255, id_bInterfaceSubClass = 0, id_bInterfaceProtocol = 0\<rparr>"

definition demo_config :: usb_config_descriptor where
  "demo_config = \<lparr>cd_wTotalLength = 25, cd_bNumInterfaces = 1, cd_bConfigurationValue = 1\<rparr>"

definition demo_dev :: usb_dev where
  "demo_dev = \<lparr>ud_speed = USB_SPEED_HIGH, ud_state = USB_STATE_CONFIGURED, ud_control = (\<lambda>k q. (0, [])), ud_set_interface = (\<lambda>nr alt. 0),
     ud_endpoints = (\<lambda>nr alt. Some [demo_endpoint]), ud_reset_configuration = 0, ud_get_descriptor = (\<lambda>t k len. (0, [])), ud_get_status = (\<lambda>t k. (0, [])), ud_lock = 0, ud_frame = 0\<rparr>"

definition demo_io :: io_env where
  "demo_io = \<lparr>io_urb = demo_env, io_setup = True, io_submit = 0, io_unlink = (\<lambda>u. E_INPROGRESS), io_dev = demo_dev\<rparr>"

text \<open>A configuration descriptor, an interface descriptor and an endpoint descriptor; and one with a descriptor of length zero.\<close>

definition demo_bytes :: "u8 list" where
  "demo_bytes = [9, 2, 25, 0, 1, 1, 0, 128, 50] @ [9, 4, 0, 1, 1, 255, 0, 0, 0] @ [7, 5, 129, 2, 0, 2, 0]"

definition zero_bytes :: "u8 list" where
  "zero_bytes = [9, 2, 11, 0, 1, 1, 0, 128, 50, 0, 33]"

theorem parse_configuration_first_witness: "USBD_ParseConfigurationDescriptorEx demo_bytes 0 0 (- 1) (- 1) (- 1) (- 1) = Some (Found 9)"
  by (subst parse_configuration_first [of _ 25 0 "[0, 9, 18]"]) (simp_all add: demo_bytes_def total_length_def rd_def is_intf_def intf_fields_def)

theorem zero_length_descriptor_hangs_witness:
  "(\<exists>res. USBD_ParseDescriptors zero_bytes 11 5 0 = Some res) \<and> USBD_ParseConfigurationDescriptorEx zero_bytes 0 0 0 (- 1) (- 1) (- 1) = None"
proof -
  have "total_length zero_bytes = Some 11" "comes_to zero_bytes 11 [0, 0, - 1, - 1, - 1] 0 [0] 9" "passed zero_bytes 11 [0, 0, - 1, - 1, - 1] 9" "zero_bytes ! 9 = 0"
    by (simp_all add: zero_bytes_def total_length_def rd_def passed_def is_intf_def)
  then show ?thesis using zero_length_descriptor_hangs [of zero_bytes 11 5 0 zero_bytes 11 0 0 "- 1" "- 1" "- 1" 0 "[0]" 9] by simp
qed

theorem feature_recipient_wrong_witness:
  "\<exists>q. fst (snd (wrap_set_clear_feature demo_dev ((ui_nt_urb demo_irp)\<lparr>nu_function := 0x0D\<rparr>))) = [UcControl (mk_pipe PIPE_CONTROL False 0) q] \<and> bRequestType q = USB_RECIP_INTERFACE"
  using feature_recipient_wrong [of "(ui_nt_urb demo_irp)\<lparr>nu_function := 0x0D\<rparr>" demo_dev] by auto

theorem configuration_round_trip_witness:
  "\<exists>sel len offs cs sel'. USBD_CreateConfigurationRequestEx demo_config [Some demo_intf] True = Some (Some (sel, len, offs)) \<and>
    sr_config sel = Some demo_config \<and> select_conf demo_dev demo_config sel = Some (USBD_STATUS_SUCCESS, cs, sel') \<and> tl cs = [UcSetInterface 0 1]"
  using configuration_round_trip [of "[demo_intf]" demo_config demo_dev "[[demo_endpoint]]"]
  by (force simp: accepts_def demo_intf_def demo_config_def demo_dev_def)

lemma demo_submit_irp:
  "wrap_submit_irp False demo_io IOCTL_INTERNAL_USB_SUBMIT_URB 0 7 (upd_irp 7 demo_irp usb_start) = Some (STATUS_PENDING, 0, [], demo_state)"
proof -
  have "uirps (upd_irp 7 demo_irp usb_start) 7 = Some demo_irp" "nu_function (ui_nt_urb demo_irp) = 9" "\<not> usb_hw_disabled (upd_irp 7 demo_irp usb_start)"
    by (simp_all add: demo_irp_def usb_start_def)
  then show ?thesis using demo_submits by (simp add: wrap_submit_irp_def submit_ioctl_def wrap_process_nt_urb_def demo_io_def)
qed

theorem submit_irp_pending_witness: "usb_inv demo_state \<and> in_flight demo_state = insert 7 (in_flight (upd_irp 7 demo_irp usb_start))"
proof -
  have "io_reach (upd_irp 7 demo_irp usb_start)"
    by (rule io_reach.below [OF io_reach.start], rule usb_step.make) (simp_all add: usb_start_def demo_irp_def)
  then show ?thesis using submit_irp_pending [OF _ _ _ _ _ _ demo_submit_irp, of demo_irp]
    by (auto simp: demo_irp_def demo_io_def demo_env_def env_ok_def request_ok_def keeps_configuration_def usb_start_def)
qed

end
