(* ===== verification/Spec2Isabelle.thy ===== *)
theory Spec2Isabelle
  imports Nt_List Rtl_String Dispatcher Pe_Linker Irp Timer Device Workqueue Wrapmem Ndis_Copy Ndis_Config Tx_Ring Iw_Scan Divdi3 Usb_Req
begin

text \<open>
  \<^bold>\<open>A verification development for ndiswrapper.\<close>

  ndiswrapper is a Linux kernel module that loads Windows network drivers and runs them.  It has three layers, all
  under \<^verbatim>\<open>src/ndiswrapper/driver\<close>: the \<^emph>\<open>loader\<close>, which reads a PE image, relocates it and binds its imports
  (\<^verbatim>\<open>pe_linker.c\<close>, \<^verbatim>\<open>loader.c\<close>); an implementation of the part of the Windows kernel that drivers call, with its lists,
  dispatcher objects, DPCs, timers, objects, devices, IRPs, memory pools and strings (\<^verbatim>\<open>ntoskernel.c\<close>,
  \<^verbatim>\<open>ntoskernel_io.c\<close>, \<^verbatim>\<open>rtl.c\<close>, \<^verbatim>\<open>crt.c\<close>, \<^verbatim>\<open>winnt_types.h\<close>, \<^verbatim>\<open>workqueue.c\<close>, \<^verbatim>\<open>wrapmem.c\<close>); and the NDIS library with the
  network device on top of it (\<^verbatim>\<open>ndis.c\<close>, \<^verbatim>\<open>wrapndis.c\<close>, \<^verbatim>\<open>iw_ndis.c\<close>, \<^verbatim>\<open>usb.c\<close>, \<^verbatim>\<open>pnp.c\<close>).

  \<^bold>\<open>Conventions.\<close>  Machine integers are words of their width, pointers 64-bit words of the x86-64 build, and a
  memory access outside its block, a null dereference or a breach of a caller's contract is the value \<open>None\<close>: a
  theorem that a definition returns \<open>Some\<close> says that the code has defined behaviour there.  Code of the Windows driver and
  of the Linux kernel is a parameter: a function argument, an address returned by an allocator, or a record of the values that
  the kernel defines.  Concurrency is a step relation.  Its steps are the sections of code under a lock and the single
  accesses to shared data without one; a theorem about interleavings that lose data for a race of the code excludes that race in its
  statement, and the race is a lemma of its own.  For buffer pools, packet pools, wireless requests and URBs the theorems are about calls that do not
  overlap; for buffer pools and URBs, what goes wrong when they do overlap is shown beside them.  Tracing, assertions (empty in a normal build), statistics output and debugging branches are left out.

  \<^bold>\<open>Theories.\<close>
  \<^item> \<open>Prelude\<close>: machine types, status codes, blocks of memory and the lemma collections shared by all theories.
  \<^item> \<open>Nt_List\<close>: the intrusive lists of \<^verbatim>\<open>winnt_types.h\<close> on a heap of next and prev pointers, and the S-lists of \<^verbatim>\<open>ntoskernel.h\<close>.  Refinement to HOL lists, frame conditions, FIFO and LIFO behaviour through the interfaces \<open>nt_queue\<close> and \<open>nt_stack\<close>.
  \<^item> \<open>Rtl_String\<close>: \<^verbatim>\<open>rtl.c\<close>: memory, ANSI and Unicode strings, conversions, GUIDs.  Round trips, order, digits, and the overruns that the code has.
  \<^item> \<open>Dispatcher\<close>: events, mutexes, semaphores and waits of \<^verbatim>\<open>ntoskernel.c\<close>.  An invariant of all interleavings, also with resets of events that take no lock, mutual exclusion, wake-ups, the wake-up such a reset loses, and the two errors of waits for several objects.
  \<^item> \<open>Byte_Image\<close>: little-endian fields in byte lists, with one interface \<open>field\<close> interpreted at the three widths.
  \<^item> \<open>Pe_Linker\<close>: \<^verbatim>\<open>pe_linker.c\<close>: header checks, the copy of sections, relocation, imports, exports and the linking of several images.
  \<^item> \<open>Irp\<close>: I/O request packets of \<^verbatim>\<open>ntoskernel_io.c\<close>: stack locations, dispatch, completion, synchronous forwarding, request builders.
  \<^item> \<open>Kdpc\<close>: DPCs and work items of \<^verbatim>\<open>ntoskernel.c\<close>: an invariant of the queue, that each DPC runs once and in order, termination.
  \<^item> \<open>Timer\<close>: timers of \<^verbatim>\<open>ntoskernel.c\<close> on top of the dispatcher and the DPC queue: arming, firing, cancelling, time conversion.
  \<^item> \<open>Objects\<close>: object headers, reference counts, handles and thread objects of \<^verbatim>\<open>ntoskernel.c\<close>.
  \<^item> \<open>Device\<close>: device lists and device stacks of \<^verbatim>\<open>ntoskernel_io.c\<close>, and that packets have a location for every device of the stack.
  \<^item> \<open>Workqueue\<close>: \<^verbatim>\<open>workqueue.c\<close>: worker threads, queueing, cancelling, flushing and destroying.  Interleavings of callers with the worker of a queue with one thread: links and wake-ups, flushes, and four races of the code.
  \<^item> \<open>Wrapmem\<close>: \<^verbatim>\<open>wrapmem.c\<close> with \<^verbatim>\<open>ALLOC_DEBUG\<close> 2 and the pool allocator: exact counters, release on exit, and the interface \<open>alloc_free\<close> of allocators.
  \<^item> \<open>Mdl\<close>: memory descriptor lists of \<^verbatim>\<open>ntoskernel.c\<close> and \<^verbatim>\<open>ntoskernel_io.c\<close>: allocation from the cache or the pool, page frames, locking.
  \<^item> \<open>Ndis_Buffer\<close>: buffer pools of \<^verbatim>\<open>ndis.c\<close>: an invariant of sequences of allocations and releases that do not overlap, exclusive use, the limit that calls exceed when they overlap, and the interface \<open>desc_pool\<close> of pools with a free list.
  \<^item> \<open>Ndis_Packet\<close>: packet pools of \<^verbatim>\<open>ndis.c\<close>, which provide the same interface, out-of-band data, packet stacks and buffer chains.
  \<^item> \<open>Ndis_Copy\<close>: copies between packets: the loop over two chains of buffers equals one copy along their bytes.
  \<^item> \<open>Ndis_Config\<close>: configuration parameters of \<^verbatim>\<open>ndis.c\<close>: which setting a key finds, writing and reading back, the network address.
  \<^item> \<open>Tx_Packet\<close>: packets for transmission of \<^verbatim>\<open>wrapndis.c\<close> on top of the two pools, with their DMA mappings.
  \<^item> \<open>Tx_Ring\<close>: the transmit ring and its worker of \<^verbatim>\<open>wrapndis.c\<close>, completion and removal: order, progress, and the ways packets are lost.
  \<^item> \<open>Mp_Request\<close>: requests to a driver, \<^verbatim>\<open>mp_request\<close> of \<^verbatim>\<open>wrapndis.c\<close>: the request mutex, pending requests and their completion; what a request leaves alone, and when it returns.
  \<^item> \<open>Iw_Ndis\<close>: wireless extensions of \<^verbatim>\<open>iw_ndis.c\<close>: network name, modes, keys and association.  The requests that set these return in a well-formed state; keys and modes are read back.
  \<^item> \<open>Wnd_Control\<close>: the control path of \<^verbatim>\<open>wrapndis.c\<close>: start, halt, suspend and resume, packet filter, media state, deferred work, capabilities; with the mutex that is never released.
  \<^item> \<open>Iw_Scan\<close>: the rest of \<^verbatim>\<open>iw_ndis.c\<close>: frequency, rates, power, thresholds and scan results; elements of a scan item are reported exactly, with the limits of the code and, on a heap of blocks, its double free.
  \<^item> \<open>Divdi3\<close>: the 64-bit division of the 32-bit build, \<^verbatim>\<open>divdi3.c\<close>, over the two-word arithmetic of \<^verbatim>\<open>longlong.h\<close> with the interface \<open>ll_prims\<close>, interpreted for the i386 instructions and the C macros: it equals division.
  \<^item> \<open>Usb_Urb\<close>: the URBs of \<^verbatim>\<open>usb.c\<close> from allocation through submission, completion and cancellation to release: an invariant of all sequences of calls that do not overlap, the packet that is lost when they do, the data of transfers, and the use of freed URBs.
  \<^item> \<open>Usb_Req\<close>: the requests of a USB driver in \<^verbatim>\<open>usb.c\<close>: configurations, descriptors, features, the dispatch of a packet and the bus interface; a packet reported as pending is held by a URB or completed at any later time; a URB holds none of the others.

  \<^bold>\<open>Loops and fuel.\<close>  Loops over lists are structural recursion.  Loops through driver code that may queue more work
  (the DPC worker, the completion loop of an IRP) and loops over pointer chains are \<^verbatim>\<open>partial_function (option)\<close> or take
  an explicit bound; each such loop has a theorem that it returns, from a measure on what is queued, the number of
  stack locations or the length of the chain, so no theorem rests on a run that does not end.

  \<^bold>\<open>Not modelled.\<close>
  \<^item> \<^verbatim>\<open>lin2win.S\<close>, \<^verbatim>\<open>win2lin_stubs.S\<close>: calling convention thunks in assembly.
  \<^item> \<^verbatim>\<open>proc.c\<close>, \<^verbatim>\<open>hal.c\<close>, \<^verbatim>\<open>nvmalloc.c\<close>: text output for procfs, port I/O and a symbol lookup, without state of their own.
  \<^item> \<^verbatim>\<open>longlong.h\<close>: the assembly for processors other than the i386, which no build of the module uses.
  \<^item> \<^verbatim>\<open>pnp.c\<close>: registration with the PCI and USB drivers of the kernel and the dispatch of power and plug-and-play packets to the driver.
  \<^item> \<^verbatim>\<open>loader.c\<close>, \<^verbatim>\<open>wrapper.c\<close>: uploads of driver files and settings through an ioctl, and module start-up.
  \<^item> \<^verbatim>\<open>crt.c\<close>: wrappers of the string and formatting functions of the kernel.
  \<^item> \<^verbatim>\<open>ndis.c\<close>: timers, interrupts, bus resources and indications, which pass their arguments to the kernel or to the driver.
  \<^item> \<^verbatim>\<open>wrapndis.c\<close>: the assembly of \<^verbatim>\<open>ndis_start_device\<close>, task offload, ethtool and the dispatch of packets to the device.
  \<^item> \<^verbatim>\<open>workqueue.c\<close>: interleavings of several worker threads of one queue; each operation is modelled for them.
\<close>

end
